(* ===== verification/AvPrelude.thy ===== *)
theory AvPrelude imports Main "HOL-Library.Word"
begin

text \<open>
  Shared vocabulary of the development: the machine-integer types of the C code, the byte
  accessors of \<open>libavutil/intreadwrite.h\<close>, the error codes of \<open>libavutil/error.h\<close>, and the
  generic lemmas on words, lists and folds that the component theories share.
\<close>

unbundle bit_operations_syntax

section \<open>Types\<close>

type_synonym u8 = "8 word"
type_synonym u16 = "16 word"
type_synonym u32 = "32 word"
type_synonym u64 = "64 word"
type_synonym bytes = "u8 list"

text \<open>The \<open>AVERROR\<close> codes the modelled functions return.\<close>

datatype averror = EINVAL | ENOMEM | ERANGE | INVALIDDATA | EAGAIN

text \<open>C shifts on unsigned values of a fixed width.\<close>

abbreviation shl :: "'a::len word \<Rightarrow> nat \<Rightarrow> 'a word" where
  "shl x n \<equiv> push_bit n x"

abbreviation shr :: "'a::len word \<Rightarrow> nat \<Rightarrow> 'a word" where
  "shr x n \<equiv> drop_bit n x"

named_theorems byte_access \<open>reads of what was written, lengths of written fields\<close>

section \<open>Word lemmas\<close>

lemma xor_cancel_right [simp]: "(x XOR y) XOR y = (x :: 'a::len word)"
  by (simp add: xor.assoc)

lemma xor_cancel_left [simp]: "y XOR (y XOR x) = (x :: 'a::len word)"
  by (simp flip: xor.assoc)

lemma xor_swap_cancel [simp]: "y XOR (x XOR y) = (x :: 'a::len word)"
  by (metis xor_cancel_right xor.commute)

section \<open>Byte accessors\<close>

text \<open>\<open>AV_RB32\<close>, \<open>AV_RL32\<close>, \<open>AV_RB64\<close>, \<open>AV_RL64\<close>: a big- or little-endian value at offset
  \<open>o\<close> of a byte array.\<close>

definition AV_RB32 :: "bytes \<Rightarrow> nat \<Rightarrow> u32" where
  "AV_RB32 p i = shl (ucast (p ! i)) 24 OR shl (ucast (p ! (i + 1))) 16 OR
                 shl (ucast (p ! (i + 2))) 8 OR ucast (p ! (i + 3))"

definition AV_RL32 :: "bytes \<Rightarrow> nat \<Rightarrow> u32" where
  "AV_RL32 p i = shl (ucast (p ! (i + 3))) 24 OR shl (ucast (p ! (i + 2))) 16 OR
                 shl (ucast (p ! (i + 1))) 8 OR ucast (p ! i)"

definition AV_RB64 :: "bytes \<Rightarrow> nat \<Rightarrow> u64" where
  "AV_RB64 p i = shl (ucast (p ! i)) 56 OR shl (ucast (p ! (i + 1))) 48 OR
                 shl (ucast (p ! (i + 2))) 40 OR shl (ucast (p ! (i + 3))) 32 OR
                 shl (ucast (p ! (i + 4))) 24 OR shl (ucast (p ! (i + 5))) 16 OR
                 shl (ucast (p ! (i + 6))) 8 OR ucast (p ! (i + 7))"

definition AV_RL64 :: "bytes \<Rightarrow> nat \<Rightarrow> u64" where
  "AV_RL64 p i = shl (ucast (p ! (i + 7))) 56 OR shl (ucast (p ! (i + 6))) 48 OR
                 shl (ucast (p ! (i + 5))) 40 OR shl (ucast (p ! (i + 4))) 32 OR
                 shl (ucast (p ! (i + 3))) 24 OR shl (ucast (p ! (i + 2))) 16 OR
                 shl (ucast (p ! (i + 1))) 8 OR ucast (p ! i)"

text \<open>\<open>AV_WB32\<close> and its kin give the bytes stored.\<close>

definition AV_WB32 :: "u32 \<Rightarrow> bytes" where
  "AV_WB32 v = [ucast (shr v 24), ucast (shr v 16), ucast (shr v 8), ucast v]"

definition AV_WL32 :: "u32 \<Rightarrow> bytes" where
  "AV_WL32 v = [ucast v, ucast (shr v 8), ucast (shr v 16), ucast (shr v 24)]"

definition AV_WB64 :: "u64 \<Rightarrow> bytes" where
  "AV_WB64 v = [ucast (shr v 56), ucast (shr v 48), ucast (shr v 40), ucast (shr v 32),
                ucast (shr v 24), ucast (shr v 16), ucast (shr v 8), ucast v]"

definition AV_WL64 :: "u64 \<Rightarrow> bytes" where
  "AV_WL64 v = [ucast v, ucast (shr v 8), ucast (shr v 16), ucast (shr v 24),
                ucast (shr v 32), ucast (shr v 40), ucast (shr v 48), ucast (shr v 56)]"

lemma length_write [simp, byte_access]:
  "length (AV_WB32 v) = 4" "length (AV_WL32 v) = 4"
  "length (AV_WB64 w) = 8" "length (AV_WL64 w) = 8"
  by (simp_all add: AV_WB32_def AV_WL32_def AV_WB64_def AV_WL64_def)

text \<open>Bytes cut out of a word and put together again give the word, and conversely.\<close>

lemma ucast_u8_take_bit:
  "(ucast (ucast v :: u8) :: 'a::len word) = take_bit 8 v"
  by (rule bit_word_eqI) (auto simp: bit_simps)

lemma take_bit_join:
  "shl (take_bit 8 (shr v k)) k OR take_bit k v = take_bit (k + 8) (v :: 'a::len word)"
  by (rule bit_word_eqI) (auto simp: bit_simps)

lemma join_split32:
  "shl (ucast (ucast (shr v 24) :: u8)) 24 OR shl (ucast (ucast (shr v 16) :: u8)) 16 OR
   shl (ucast (ucast (shr v 8) :: u8)) 8 OR ucast (ucast v :: u8) = (v :: u32)"
  using take_bit_join [of 8 v] take_bit_join [of 16 v] take_bit_join [of 24 v]
  by (simp add: ucast_u8_take_bit take_bit_word_eq_self)

lemma join_split64:
  "shl (ucast (ucast (shr v 56) :: u8)) 56 OR shl (ucast (ucast (shr v 48) :: u8)) 48 OR
   shl (ucast (ucast (shr v 40) :: u8)) 40 OR shl (ucast (ucast (shr v 32) :: u8)) 32 OR
   shl (ucast (ucast (shr v 24) :: u8)) 24 OR shl (ucast (ucast (shr v 16) :: u8)) 16 OR
   shl (ucast (ucast (shr v 8) :: u8)) 8 OR ucast (ucast v :: u8) = (v :: u64)"
  using take_bit_join [of 8 v] take_bit_join [of 16 v] take_bit_join [of 24 v] take_bit_join [of 32 v]
    take_bit_join [of 40 v] take_bit_join [of 48 v] take_bit_join [of 56 v]
  by (simp add: ucast_u8_take_bit take_bit_word_eq_self)

lemma AV_RB32_AV_WB32 [simp, byte_access]: "AV_RB32 (AV_WB32 v @ r) 0 = v"
  by (simp add: AV_RB32_def AV_WB32_def join_split32)

lemma AV_RL32_AV_WL32 [simp, byte_access]: "AV_RL32 (AV_WL32 v @ r) 0 = v"
  by (simp add: AV_RL32_def AV_WL32_def join_split32)

lemma AV_RB64_AV_WB64 [simp, byte_access]: "AV_RB64 (AV_WB64 v @ r) 0 = v"
  by (simp add: AV_RB64_def AV_WB64_def join_split64)

lemma AV_RL64_AV_WL64 [simp, byte_access]: "AV_RL64 (AV_WL64 v @ r) 0 = v"
  by (simp add: AV_RL64_def AV_WL64_def join_split64)

text \<open>The same at an offset: skip what is written before.\<close>

lemma AV_RB32_append [byte_access]: "length a = i \<Longrightarrow> AV_RB32 (a @ b) i = AV_RB32 b 0"
  by (simp add: AV_RB32_def nth_append numeral_2_eq_2)

lemma AV_RL32_append [byte_access]: "length a = i \<Longrightarrow> AV_RL32 (a @ b) i = AV_RL32 b 0"
  by (simp add: AV_RL32_def nth_append numeral_2_eq_2)

lemma AV_RB64_append [byte_access]: "length a = i \<Longrightarrow> AV_RB64 (a @ b) i = AV_RB64 b 0"
  by (simp add: AV_RB64_def nth_append numeral_2_eq_2)

lemma AV_RL64_append [byte_access]: "length a = i \<Longrightarrow> AV_RL64 (a @ b) i = AV_RL64 b 0"
  by (simp add: AV_RL64_def nth_append numeral_2_eq_2)

lemma AV_R_skip [byte_access]:
  "length a \<le> i \<Longrightarrow> AV_RB32 (a @ b) i = AV_RB32 b (i - length a)"
  "length a \<le> i \<Longrightarrow> AV_RL32 (a @ b) i = AV_RL32 b (i - length a)"
  "length a \<le> i \<Longrightarrow> AV_RB64 (a @ b) i = AV_RB64 b (i - length a)"
  "length a \<le> i \<Longrightarrow> AV_RL64 (a @ b) i = AV_RL64 b (i - length a)"
  by (simp_all add: AV_RB32_def AV_RL32_def AV_RB64_def AV_RL64_def nth_append Suc_diff_le
      diff_less_mono2 Nat.add_diff_assoc2)

lemmas AV_R_empty [byte_access] =
  AV_RB32_AV_WB32 [of _ "[]", simplified] AV_RL32_AV_WL32 [of _ "[]", simplified]
  AV_RB64_AV_WB64 [of _ "[]", simplified] AV_RL64_AV_WL64 [of _ "[]", simplified]

text \<open>Writing back what was read.\<close>

lemma bit_u8_le: "bit (a :: u8) n \<Longrightarrow> n < 8"
  by (drule bit_imp_le_length) simp

lemma bit_u32_lt: "bit (c :: u32) n \<Longrightarrow> n < 32"
  by (drule bit_imp_le_length) simp

lemma unat_of_u8: "unat (ucast b :: u32) = unat (b :: u8)"
  using unsigned_less [of b, where ?'a = nat] by (simp add: unsigned_ucast_eq take_bit_nat_eq_self)

lemma ucast_u8_low: "take_bit 8 (ucast b :: u32) = ucast (b :: u8)"
  by (rule bit_word_eqI) (auto simp: bit_simps dest: bit_u8_le)

lemma nat_bit_lt: "i < 2 ^ k \<Longrightarrow> bit (i :: nat) n \<Longrightarrow> n < k"
  by (metis bit_take_bit_iff take_bit_nat_eq_self)

text \<open>Two bytes are equal when their eight bits are; each bit of a computed byte is a small goal.\<close>

lemma u8_eqI:
  assumes "bit a 0 = bit b 0" "bit a 1 = bit b 1" "bit a 2 = bit b 2" "bit a 3 = bit b 3"
    "bit a 4 = bit b 4" "bit a 5 = bit b 5" "bit a 6 = bit b 6" "bit a 7 = bit b 7"
  shows "a = (b :: u8)"
proof (rule bit_word_eqI)
  fix n :: nat
  assume "n < LENGTH(8)"
  then consider "n = 0" | "n = 1" | "n = 2" | "n = 3" | "n = 4" | "n = 5" | "n = 6" | "n = 7" by fastforce
  then show "bit a n = bit b n" by cases (use assms in simp_all)
qed

lemma byte_of_join32:
  fixes a b c d :: u8
  defines "v \<equiv> shl (ucast a) 24 OR shl (ucast b) 16 OR shl (ucast c) 8 OR (ucast d :: u32)"
  shows "ucast (shr v 24) = a" "ucast (shr v 16) = b" "ucast (shr v 8) = c" "ucast v = d"
  unfolding v_def by (rule bit_word_eqI; auto simp: bit_simps dest: bit_u8_le)+

lemma byte_of_join64:
  fixes a b c d e f g h :: u8
  defines "v \<equiv> shl (ucast a) 56 OR shl (ucast b) 48 OR shl (ucast c) 40 OR shl (ucast d) 32 OR
    shl (ucast e) 24 OR shl (ucast f) 16 OR shl (ucast g) 8 OR (ucast h :: u64)"
  shows "ucast (shr v 56) = a" "ucast (shr v 48) = b" "ucast (shr v 40) = c" "ucast (shr v 32) = d"
    "ucast (shr v 24) = e" "ucast (shr v 16) = f" "ucast (shr v 8) = g" "ucast v = h"
  unfolding v_def by (rule bit_word_eqI; auto simp: bit_simps dest: bit_u8_le)+

lemma list_of_4E:
  assumes "length p = 4"
  obtains a b c d where "p = [a, b, c, d]"
  using assms by (auto simp: numeral_eq_Suc length_Suc_conv)

lemma list_of_8E:
  assumes "length p = 8"
  obtains a b c d e f g h where "p = [a, b, c, d, e, f, g, h]"
  using assms by (auto simp: numeral_eq_Suc length_Suc_conv)

lemma AV_WB32_AV_RB32: "length p = 4 \<Longrightarrow> AV_WB32 (AV_RB32 p 0) = p"
  using byte_of_join32 by (elim list_of_4E) (simp add: AV_WB32_def AV_RB32_def)

lemma AV_WL32_AV_RL32: "length p = 4 \<Longrightarrow> AV_WL32 (AV_RL32 p 0) = p"
  using byte_of_join32 by (elim list_of_4E) (simp add: AV_WL32_def AV_RL32_def)

lemma AV_WB64_AV_RB64: "length p = 8 \<Longrightarrow> AV_WB64 (AV_RB64 p 0) = p"
  using byte_of_join64 by (elim list_of_8E) (simp add: AV_WB64_def AV_RB64_def)

lemma AV_WL64_AV_RL64: "length p = 8 \<Longrightarrow> AV_WL64 (AV_RL64 p 0) = p"
  using byte_of_join64 by (elim list_of_8E) (simp add: AV_WL64_def AV_RL64_def)

text \<open>A block of two or four words, read and written whole.\<close>

lemma AV_RB32_drop: "AV_RB32 p i = AV_RB32 (drop i p) 0" if "i + 4 \<le> length p"
  using that by (simp add: AV_RB32_def)

lemma AV_RL32_drop: "AV_RL32 p i = AV_RL32 (drop i p) 0" if "i + 4 \<le> length p"
  using that by (simp add: AV_RL32_def)

lemma AV_RB64_drop: "AV_RB64 p i = AV_RB64 (drop i p) 0" if "i + 8 \<le> length p"
  using that by (simp add: AV_RB64_def)

lemma AV_RL64_drop: "AV_RL64 p i = AV_RL64 (drop i p) 0" if "i + 8 \<le> length p"
  using that by (simp add: AV_RL64_def)

lemma AV_RB32_take: "AV_RB32 p 0 = AV_RB32 (take 4 p) 0" if "4 \<le> length p"
  using that by (simp add: AV_RB32_def)

lemma AV_RL32_take: "AV_RL32 p 0 = AV_RL32 (take 4 p) 0" if "4 \<le> length p"
  using that by (simp add: AV_RL32_def)

lemma AV_RB64_take: "AV_RB64 p 0 = AV_RB64 (take 8 p) 0" if "8 \<le> length p"
  using that by (simp add: AV_RB64_def)

lemma AV_WB32_field: "i + 4 \<le> length p \<Longrightarrow> AV_WB32 (AV_RB32 p i) = take 4 (drop i p)"
  using AV_RB32_drop [of i p] AV_RB32_take [of "drop i p"] AV_WB32_AV_RB32 [of "take 4 (drop i p)"]
  by simp

lemma AV_WL32_field: "i + 4 \<le> length p \<Longrightarrow> AV_WL32 (AV_RL32 p i) = take 4 (drop i p)"
  using AV_RL32_drop [of i p] AV_RL32_take [of "drop i p"] AV_WL32_AV_RL32 [of "take 4 (drop i p)"]
  by simp

lemma AV_WB64_field: "i + 8 \<le> length p \<Longrightarrow> AV_WB64 (AV_RB64 p i) = take 8 (drop i p)"
  using AV_RB64_drop [of i p] AV_RB64_take [of "drop i p"] AV_WB64_AV_RB64 [of "take 8 (drop i p)"]
  by simp

lemma fields_4x4: "length w = 16 \<Longrightarrow> take 4 w @ take 4 (drop 4 w) @ take 4 (drop 8 w) @ drop 12 w = w"
proof -
  have "take (4 + (4 + 4)) w = take 4 w @ take 4 (drop 4 w) @ take 4 (drop 8 w)"
    by (simp only: take_add drop_drop) simp
  then show ?thesis using append_take_drop_id [of 12 w] by simp
qed

section \<open>Exclusive or of byte arrays\<close>

text \<open>The loop \<open>dst[i] = src[i] ^ iv[i]\<close> of the CBC modes.\<close>

definition xor_bytes :: "bytes \<Rightarrow> bytes \<Rightarrow> bytes" where
  "xor_bytes a b = map2 (XOR) a b"

lemma length_xor_bytes [simp]: "length (xor_bytes a b) = min (length a) (length b)"
  by (simp add: xor_bytes_def)

lemma nth_xor_bytes [simp]:
  "i < length a \<Longrightarrow> i < length b \<Longrightarrow> xor_bytes a b ! i = (a ! i) XOR (b ! i)"
  by (simp add: xor_bytes_def)

lemma xor_bytes_cancel [simp]: "length a = length b \<Longrightarrow> xor_bytes (xor_bytes a b) b = a"
  by (rule nth_equalityI) auto

lemma xor_bytes_append:
  "length a = length c \<Longrightarrow> xor_bytes (a @ b) (c @ d) = xor_bytes a c @ xor_bytes b d"
  by (simp add: xor_bytes_def)

text \<open>The decryption sides xor the words they are about to store; that is the same loop.\<close>

lemma ucast_xor_u8: "(ucast (a XOR b) :: u8) = ucast a XOR ucast (b :: 'a::len word)"
  by (rule bit_word_eqI) (simp add: bit_simps)

lemma AV_WB32_xor: "AV_WB32 (v XOR w) = xor_bytes (AV_WB32 v) (AV_WB32 w)"
  by (simp add: AV_WB32_def xor_bytes_def ucast_xor_u8)

lemma AV_WL32_xor: "AV_WL32 (v XOR w) = xor_bytes (AV_WL32 v) (AV_WL32 w)"
  by (simp add: AV_WL32_def xor_bytes_def ucast_xor_u8)

lemma AV_WB64_xor: "AV_WB64 (v XOR w) = xor_bytes (AV_WB64 v) (AV_WB64 w)"
  by (simp add: AV_WB64_def xor_bytes_def ucast_xor_u8)

section \<open>Folds of invertible steps\<close>

text \<open>Running the inverse steps in reverse order undoes a run: the shape of every Feistel
  network below.\<close>

lemma foldl_inverse:
  assumes "\<And>x v. x \<in> set xs \<Longrightarrow> g (f v x) x = v"
  shows "foldl g (foldl f v xs) (rev xs) = v"
  using assms by (induction xs arbitrary: v) auto

end
