(* ===== verification/BlockCipher.thy ===== *)
theory BlockCipher imports AvPrelude
begin

text \<open>
  The interface of the block ciphers of libavutil and the modes that use them. Every cipher file
  (\<open>xtea.c\<close>, \<open>tea.c\<close>, \<open>blowfish.c\<close>, \<open>cast5.c\<close>, \<open>des.c\<close>, \<open>twofish.c\<close>, \<open>camellia.c\<close>) has its own copy
  of one loop: for \<open>count\<close> blocks, encrypt with the previous ciphertext block xored in
  when an \<open>iv\<close> is given, or decrypt and xor afterwards. The loop is stated here once over two
  block functions; each cipher theory translates its own loop and shows that it is this one.
  The locale holds what a cipher promises, and the round trip of both modes is proved inside it.
\<close>

section \<open>Feistel networks\<close>

text \<open>A step that undoes itself on the exchanged halves, run backwards on the exchanged result.
  \<open>sw\<close> is the exchange, of a pair or of the halves of one word.\<close>

lemma feistel_inverse:
  assumes "\<And>v x. step (sw (step v x)) x = sw v"
  shows "foldl step (sw (foldl step v xs)) (rev xs) = sw v"
  by (induction xs arbitrary: v) (simp_all add: assms)

text \<open>A 64-bit value put together from its 32-bit halves and taken apart.\<close>

lemma mask32: "(0xffffffff :: u64) = mask 32"
  by (simp add: mask_eq_exp_minus_1)

lemma bit_u32_le: "bit (a :: u32) n \<Longrightarrow> n < 32"
  by (drule bit_imp_le_length) simp

lemma hi_join64: "ucast (shr (shl (ucast (a :: u32)) 32 OR ucast (b :: u32) :: u64) 32) = a"
  by (rule bit_word_eqI) (auto simp: bit_simps dest: bit_u32_le)

lemma lo_join64: "ucast (shl (ucast (a :: u32)) 32 OR ucast (b :: u32) :: u64) = b"
  by (rule bit_word_eqI) (auto simp: bit_simps dest: bit_u32_le)

lemma ucast_mask32: "ucast (x AND mask 32 :: u64) = (ucast x :: u32)"
  by (rule bit_word_eqI) (auto simp: bit_simps)

lemma join64: "shl (ucast (ucast (shr x 32) :: u32)) 32 OR ucast (ucast x :: u32) = (x :: u64)"
  by (rule bit_word_eqI) (auto simp: bit_simps dest: bit_imp_le_length)

section \<open>The loops over blocks\<close>

text \<open>An \<open>iv\<close> that is \<open>None\<close> is the null pointer: electronic code book mode. The result is
  the bytes stored at \<open>dst\<close> and the bytes left at \<open>iv\<close>.\<close>

fun blocks_encrypt :: "nat \<Rightarrow> (bytes \<Rightarrow> bytes) \<Rightarrow> nat \<Rightarrow> bytes \<Rightarrow> bytes option \<Rightarrow> bytes \<times> bytes option" where
  "blocks_encrypt bl enc 0 src iv = ([], iv)"
| "blocks_encrypt bl enc (Suc n) src None =
     (let d = enc (take bl src);
          (ds, iv') = blocks_encrypt bl enc n (drop bl src) None
      in (d @ ds, iv'))"
| "blocks_encrypt bl enc (Suc n) src (Some iv) =
     (let d = enc (xor_bytes (take bl src) iv);
          (ds, iv') = blocks_encrypt bl enc n (drop bl src) (Some d)
      in (d @ ds, iv'))"

fun blocks_decrypt :: "nat \<Rightarrow> (bytes \<Rightarrow> bytes) \<Rightarrow> nat \<Rightarrow> bytes \<Rightarrow> bytes option \<Rightarrow> bytes \<times> bytes option" where
  "blocks_decrypt bl dec 0 src iv = ([], iv)"
| "blocks_decrypt bl dec (Suc n) src None =
     (let d = dec (take bl src);
          (ds, iv') = blocks_decrypt bl dec n (drop bl src) None
      in (d @ ds, iv'))"
| "blocks_decrypt bl dec (Suc n) src (Some iv) =
     (let d = xor_bytes (dec (take bl src)) iv;
          (ds, iv') = blocks_decrypt bl dec n (drop bl src) (Some (take bl src))
      in (d @ ds, iv'))"

text \<open>The length an \<open>iv\<close> has when there is one.\<close>

definition iv_ok :: "nat \<Rightarrow> bytes option \<Rightarrow> bool" where
  "iv_ok bl iv = (case iv of None \<Rightarrow> True | Some v \<Rightarrow> length v = bl)"

lemma iv_ok_simps [simp]: "iv_ok bl None" "iv_ok bl (Some v) \<longleftrightarrow> length v = bl"
  by (simp_all add: iv_ok_def)

section \<open>What a cipher promises\<close>

locale block_cipher =
  fixes bl :: nat
    and enc :: "bytes \<Rightarrow> bytes"
    and dec :: "bytes \<Rightarrow> bytes"
  assumes enc_length: "length b = bl \<Longrightarrow> length (enc b) = bl"
    and dec_enc: "length b = bl \<Longrightarrow> dec (enc b) = b"
begin

lemma encrypt_length:
  "length src = n * bl \<Longrightarrow> iv_ok bl iv \<Longrightarrow> length (fst (blocks_encrypt bl enc n src iv)) = n * bl"
proof (induction n arbitrary: src iv)
  case (Suc n)
  then show ?case
    by (cases iv) (simp_all add: Let_def split_def enc_length)
qed simp

text \<open>Decryption inverts encryption under the same \<open>iv\<close>, and both leave the same \<open>iv\<close> behind, so
  that a message may be processed in several calls.\<close>

lemma round_trip:
  "length src = n * bl \<Longrightarrow> iv_ok bl iv \<Longrightarrow>
   blocks_decrypt bl dec n (fst (blocks_encrypt bl enc n src iv)) iv =
   (src, snd (blocks_encrypt bl enc n src iv))"
proof (induction n arbitrary: src iv)
  case 0
  then show ?case by simp
next
  case (Suc n)
  have tl: "length (take bl src) = bl" and dl: "length (drop bl src) = n * bl"
    using Suc.prems(1) by simp_all
  show ?case
  proof (cases iv)
    case None
    with Suc.IH [OF dl, of None] tl show ?thesis
      by (simp add: Let_def split_def enc_length dec_enc)
  next
    case (Some v)
    then have v: "length v = bl" using Suc.prems(2) by simp
    let ?d = "enc (xor_bytes (take bl src) v)"
    have x: "length (xor_bytes (take bl src) v) = bl" using v tl by simp
    have "length ?d = bl" using x by (rule enc_length)
    with Suc.IH [OF dl, of "Some ?d"] Some tl v x show ?thesis
      by (simp add: Let_def split_def dec_enc)
  qed
qed

text \<open>Encrypting in two calls that hand the \<open>iv\<close> on is encrypting in one.\<close>

lemma encrypt_split:
  "length a = m * bl \<Longrightarrow>
   blocks_encrypt bl enc (m + n) (a @ b) iv =
   (let (c, iv1) = blocks_encrypt bl enc m a iv; (d, iv2) = blocks_encrypt bl enc n b iv1
    in (c @ d, iv2))"
proof (induction m arbitrary: a iv)
  case 0
  then show ?case by simp
next
  case (Suc m)
  have dl: "length (drop bl a) = m * bl" using Suc.prems by simp
  show ?case
    using Suc.IH [OF dl] Suc.prems by (cases iv) (simp_all add: Let_def split_def)
qed

end

section \<open>What a cipher file promises\<close>

text \<open>
  The loop every file writes: \<open>while (count--)\<close> over the block routines, where \<open>decipher\<close> is the
  decryption of one block that also undoes the chaining and moves the \<open>iv\<close> on. The four laws are
  the two equations of the loop and the two of \<open>decipher\<close>.
\<close>

locale cipher_loop = block_cipher +
  fixes decipher :: "bytes \<Rightarrow> bytes option \<Rightarrow> bytes \<times> bytes option"
    and crypt :: "bytes \<Rightarrow> nat \<Rightarrow> bytes option \<Rightarrow> bool \<Rightarrow> bytes \<times> bytes option"
  assumes crypt_0: "iv_ok bl iv \<Longrightarrow> crypt src 0 iv decrypt = ([], iv)"
    and crypt_Suc: "bl \<le> length src \<Longrightarrow> iv_ok bl iv \<Longrightarrow> crypt src (Suc n) iv decrypt =
      (let (d, iv') = (if decrypt then decipher (take bl src) iv
           else case iv of None \<Rightarrow> (enc (take bl src), None)
             | Some w \<Rightarrow> (enc (xor_bytes (take bl src) w), Some (enc (xor_bytes (take bl src) w))));
           (ds, iv'') = crypt (drop bl src) n iv' decrypt
       in (d @ ds, iv''))"
    and decipher_None: "decipher b None = (dec b, None)"
    and decipher_Some: "length b = bl \<Longrightarrow> length w = bl \<Longrightarrow>
      decipher b (Some w) = (xor_bytes (dec b) w, Some b)"
begin

lemma crypt_encrypt:
  "length src = n * bl \<Longrightarrow> iv_ok bl iv \<Longrightarrow> crypt src n iv False = blocks_encrypt bl enc n src iv"
proof (induction n arbitrary: src iv)
  case (Suc n)
  then show ?case by (cases iv) (simp_all add: crypt_Suc Let_def split_def enc_length)
qed (simp add: crypt_0)

lemma crypt_decrypt:
  "length src = n * bl \<Longrightarrow> iv_ok bl iv \<Longrightarrow> crypt src n iv True = blocks_decrypt bl dec n src iv"
proof (induction n arbitrary: src iv)
  case (Suc n)
  then show ?case
    by (cases iv) (simp_all add: crypt_Suc decipher_None decipher_Some Let_def split_def)
qed (simp add: crypt_0)

text \<open>The two facts a user of the cipher needs: decryption gives the message back and the same
  \<open>iv\<close>, and a message may be encrypted in pieces of whole blocks.\<close>

lemma crypt_round_trip:
  assumes "length src = n * bl" and "iv_ok bl iv"
  shows "crypt (fst (crypt src n iv False)) n iv True = (src, snd (crypt src n iv False))"
  using encrypt_length [OF assms] round_trip [OF assms] assms
  by (simp add: crypt_encrypt crypt_decrypt)

lemma encrypt_iv: "length src = n * bl \<Longrightarrow> iv_ok bl iv \<Longrightarrow> iv_ok bl (snd (blocks_encrypt bl enc n src iv))"
proof (induction n arbitrary: src iv)
  case (Suc n)
  then show ?case by (cases iv) (simp_all add: Let_def split_def enc_length)
qed simp

lemma crypt_pieces:
  assumes "length a = m * bl" and "length b = n * bl" and "iv_ok bl iv"
  shows "crypt (a @ b) (m + n) iv False =
    (fst (crypt a m iv False) @ fst (crypt b n (snd (crypt a m iv False)) False),
     snd (crypt b n (snd (crypt a m iv False)) False))"
  using encrypt_split [OF assms(1), of n b iv] assms encrypt_iv [OF assms(1,3)]
  by (simp add: crypt_encrypt Let_def split_def add_mult_distrib)

end

end
