(* ===== verification/AvXtea.thy ===== *)
theory AvXtea imports BlockCipher
begin

text \<open>
  \<open>libavutil/xtea.c\<close>: the XTEA block cipher with big-endian (\<open>xtea_crypt_ecb\<close>) and little-endian
  (\<open>xtea_le_crypt_ecb\<close>) blocks. The big-endian routine is written twice in the source, unrolled with
  its 32 round constants and, under \<open>CONFIG_SMALL\<close>, as a loop; both are modelled and proved equal.
\<close>

record AVXTEA =
  xtea_key :: "u32 list"  \<comment> \<open>\<open>uint32_t key[16]\<close>, of which the code uses four\<close>

definition av_xtea_init :: "bytes \<Rightarrow> AVXTEA" where
  "av_xtea_init key = \<lparr>xtea_key = map (\<lambda>i. AV_RB32 key (4 * i)) [0..<4]\<rparr>"

definition av_xtea_le_init :: "bytes \<Rightarrow> AVXTEA" where
  "av_xtea_le_init key = \<lparr>xtea_key = map (\<lambda>i. AV_RL32 key (4 * i)) [0..<4]\<rparr>"

section \<open>One block\<close>

text \<open>The mixing term \<open>(((v << 4) ^ (v >> 5)) + v) ^ (sum + k)\<close> of every half round.\<close>

definition xtea_mix :: "u32 \<Rightarrow> u32 \<Rightarrow> u32 \<Rightarrow> u32" where
  "xtea_mix v s k = ((shl v 4 XOR shr v 5) + v) XOR (s + k)"

definition xtea_delta :: u32 where
  "xtea_delta = 0x9E3779B9"

text \<open>The macros \<open>ESTEP(SUM, K0, K1)\<close> and \<open>DSTEP(SUM, K0, K1)\<close>.\<close>

fun ESTEP :: "u32 \<times> u32 \<Rightarrow> u32 \<times> u32 \<times> u32 \<Rightarrow> u32 \<times> u32" where
  "ESTEP (v0, v1) (s, k0, k1) =
     (let v0 = v0 + xtea_mix v1 s k0;
          v1 = v1 + xtea_mix v0 (s + xtea_delta) k1
      in (v0, v1))"

fun DSTEP :: "u32 \<times> u32 \<Rightarrow> u32 \<times> u32 \<times> u32 \<Rightarrow> u32 \<times> u32" where
  "DSTEP (v0, v1) (s, k0, k1) =
     (let v1 = v1 - xtea_mix v0 s k0;
          v0 = v0 - xtea_mix v1 (s - xtea_delta) k1
      in (v0, v1))"

text \<open>The unrolled round lists, as the source writes them.\<close>

definition xtea_esteps :: "u32 list \<Rightarrow> (u32 \<times> u32 \<times> u32) list" where
  "xtea_esteps k =
     [(0x00000000, k ! 0, k ! 3), (0x9E3779B9, k ! 1, k ! 2),
      (0x3C6EF372, k ! 2, k ! 1), (0xDAA66D2B, k ! 3, k ! 0),
      (0x78DDE6E4, k ! 0, k ! 0), (0x1715609D, k ! 1, k ! 3),
      (0xB54CDA56, k ! 2, k ! 2), (0x5384540F, k ! 3, k ! 1),
      (0xF1BBCDC8, k ! 0, k ! 0), (0x8FF34781, k ! 1, k ! 0),
      (0x2E2AC13A, k ! 2, k ! 3), (0xCC623AF3, k ! 3, k ! 2),
      (0x6A99B4AC, k ! 0, k ! 1), (0x08D12E65, k ! 1, k ! 1),
      (0xA708A81E, k ! 2, k ! 0), (0x454021D7, k ! 3, k ! 3),
      (0xE3779B90, k ! 0, k ! 2), (0x81AF1549, k ! 1, k ! 1),
      (0x1FE68F02, k ! 2, k ! 1), (0xBE1E08BB, k ! 3, k ! 0),
      (0x5C558274, k ! 0, k ! 3), (0xFA8CFC2D, k ! 1, k ! 2),
      (0x98C475E6, k ! 2, k ! 1), (0x36FBEF9F, k ! 3, k ! 1),
      (0xD5336958, k ! 0, k ! 0), (0x736AE311, k ! 1, k ! 3),
      (0x11A25CCA, k ! 2, k ! 2), (0xAFD9D683, k ! 3, k ! 2),
      (0x4E11503C, k ! 0, k ! 1), (0xEC48C9F5, k ! 1, k ! 0),
      (0x8A8043AE, k ! 2, k ! 3), (0x28B7BD67, k ! 3, k ! 2)]"

definition xtea_dsteps :: "u32 list \<Rightarrow> (u32 \<times> u32 \<times> u32) list" where
  "xtea_dsteps k =
     [(0xC6EF3720, k ! 2, k ! 3), (0x28B7BD67, k ! 3, k ! 2),
      (0x8A8043AE, k ! 0, k ! 1), (0xEC48C9F5, k ! 1, k ! 0),
      (0x4E11503C, k ! 2, k ! 3), (0xAFD9D683, k ! 2, k ! 2),
      (0x11A25CCA, k ! 3, k ! 1), (0x736AE311, k ! 0, k ! 0),
      (0xD5336958, k ! 1, k ! 3), (0x36FBEF9F, k ! 1, k ! 2),
      (0x98C475E6, k ! 2, k ! 1), (0xFA8CFC2D, k ! 3, k ! 0),
      (0x5C558274, k ! 0, k ! 3), (0xBE1E08BB, k ! 1, k ! 2),
      (0x1FE68F02, k ! 1, k ! 1), (0x81AF1549, k ! 2, k ! 0),
      (0xE3779B90, k ! 3, k ! 3), (0x454021D7, k ! 0, k ! 2),
      (0xA708A81E, k ! 1, k ! 1), (0x08D12E65, k ! 1, k ! 0),
      (0x6A99B4AC, k ! 2, k ! 3), (0xCC623AF3, k ! 3, k ! 2),
      (0x2E2AC13A, k ! 0, k ! 1), (0x8FF34781, k ! 0, k ! 0),
      (0xF1BBCDC8, k ! 1, k ! 3), (0x5384540F, k ! 2, k ! 2),
      (0xB54CDA56, k ! 3, k ! 1), (0x1715609D, k ! 0, k ! 0),
      (0x78DDE6E4, k ! 0, k ! 3), (0xDAA66D2B, k ! 1, k ! 2),
      (0x3C6EF372, k ! 2, k ! 1), (0x9E3779B9, k ! 3, k ! 0)]"

text \<open>\<open>xtea_crypt_ecb\<close> with \<open>CONFIG_SMALL\<close> and \<open>xtea_le_crypt_ecb\<close>: 32 rounds in a loop,
  the key word picked by bits of the running s.\<close>

fun xtea_loop_enc :: "nat \<Rightarrow> u32 list \<Rightarrow> u32 \<Rightarrow> u32 \<times> u32 \<Rightarrow> u32 \<times> u32" where
  "xtea_loop_enc 0 key s v = v"
| "xtea_loop_enc (Suc i) key s (v0, v1) =
     (let v0 = v0 + xtea_mix v1 s (key ! unat (s AND 3));
          s = s + xtea_delta;
          v1 = v1 + xtea_mix v0 s (key ! unat (shr s 11 AND 3))
      in xtea_loop_enc i key s (v0, v1))"

fun xtea_loop_dec :: "nat \<Rightarrow> u32 list \<Rightarrow> u32 \<Rightarrow> u32 \<times> u32 \<Rightarrow> u32 \<times> u32" where
  "xtea_loop_dec 0 key s v = v"
| "xtea_loop_dec (Suc i) key s (v0, v1) =
     (let v1 = v1 - xtea_mix v0 s (key ! unat (shr s 11 AND 3));
          s = s - xtea_delta;
          v0 = v0 - xtea_mix v1 s (key ! unat (s AND 3))
      in xtea_loop_dec i key s (v0, v1))"

text \<open>
  \<open>xtea_crypt_ecb(ctx, dst, src, decrypt, iv)\<close>, the unrolled branch: the result is the block stored
  at \<open>dst\<close> and the contents of \<open>iv\<close> afterwards.
\<close>

definition xtea_crypt_ecb :: "AVXTEA \<Rightarrow> bytes \<Rightarrow> bool \<Rightarrow> bytes option \<Rightarrow> bytes \<times> bytes option" where
  "xtea_crypt_ecb ctx src decrypt iv =
     (let v0 = AV_RB32 src 0; v1 = AV_RB32 src 4 in
      if decrypt then
        let (v0, v1) = foldl DSTEP (v0, v1) (xtea_dsteps (xtea_key ctx)) in
        (case iv of
           None \<Rightarrow> (AV_WB32 v0 @ AV_WB32 v1, None)
         | Some w \<Rightarrow> (AV_WB32 (v0 XOR AV_RB32 w 0) @ AV_WB32 (v1 XOR AV_RB32 w 4), Some (take 8 src)))
      else
        let (v0, v1) = foldl ESTEP (v0, v1) (xtea_esteps (xtea_key ctx)) in
        (AV_WB32 v0 @ AV_WB32 v1, iv))"

text \<open>The same function as compiled with \<open>CONFIG_SMALL\<close>.\<close>

definition xtea_crypt_ecb_small :: "AVXTEA \<Rightarrow> bytes \<Rightarrow> bool \<Rightarrow> bytes option \<Rightarrow> bytes \<times> bytes option" where
  "xtea_crypt_ecb_small ctx src decrypt iv =
     (let v0 = AV_RB32 src 0; v1 = AV_RB32 src 4 in
      if decrypt then
        let (v0, v1) = xtea_loop_dec 32 (xtea_key ctx) (xtea_delta * 32) (v0, v1) in
        (case iv of
           None \<Rightarrow> (AV_WB32 v0 @ AV_WB32 v1, None)
         | Some w \<Rightarrow> (AV_WB32 (v0 XOR AV_RB32 w 0) @ AV_WB32 (v1 XOR AV_RB32 w 4), Some (take 8 src)))
      else
        let (v0, v1) = xtea_loop_enc 32 (xtea_key ctx) 0 (v0, v1) in
        (AV_WB32 v0 @ AV_WB32 v1, iv))"

definition xtea_le_crypt_ecb :: "AVXTEA \<Rightarrow> bytes \<Rightarrow> bool \<Rightarrow> bytes option \<Rightarrow> bytes \<times> bytes option" where
  "xtea_le_crypt_ecb ctx src decrypt iv =
     (let v0 = AV_RL32 src 0; v1 = AV_RL32 src 4 in
      if decrypt then
        let (v0, v1) = xtea_loop_dec 32 (xtea_key ctx) (xtea_delta * 32) (v0, v1) in
        (case iv of
           None \<Rightarrow> (AV_WL32 v0 @ AV_WL32 v1, None)
         | Some w \<Rightarrow> (AV_WL32 (v0 XOR AV_RL32 w 0) @ AV_WL32 (v1 XOR AV_RL32 w 4), Some (take 8 src)))
      else
        let (v0, v1) = xtea_loop_enc 32 (xtea_key ctx) 0 (v0, v1) in
        (AV_WL32 v0 @ AV_WL32 v1, iv))"

section \<open>Many blocks\<close>

text \<open>\<open>xtea_crypt\<close>, with the block routine as its function-pointer argument.\<close>

type_synonym xtea_block = "AVXTEA \<Rightarrow> bytes \<Rightarrow> bool \<Rightarrow> bytes option \<Rightarrow> bytes \<times> bytes option"

fun xtea_crypt :: "AVXTEA \<Rightarrow> bytes \<Rightarrow> nat \<Rightarrow> bytes option \<Rightarrow> bool \<Rightarrow> xtea_block \<Rightarrow> bytes \<times> bytes option" where
  "xtea_crypt ctx src 0 iv decrypt crypt = ([], iv)"
| "xtea_crypt ctx src (Suc count) iv decrypt crypt =
     (let (d, iv') =
        (if decrypt then crypt ctx (take 8 src) decrypt iv
         else case iv of
             None \<Rightarrow> (fst (crypt ctx (take 8 src) decrypt None), None)
           | Some w \<Rightarrow>
               let x = xor_bytes (take 8 src) w;
                   d = fst (crypt ctx x decrypt None)
               in (d, Some d));
          (ds, iv'') = xtea_crypt ctx (drop 8 src) count iv' decrypt crypt
      in (d @ ds, iv''))"

definition av_xtea_crypt :: "AVXTEA \<Rightarrow> bytes \<Rightarrow> nat \<Rightarrow> bytes option \<Rightarrow> bool \<Rightarrow> bytes \<times> bytes option" where
  "av_xtea_crypt ctx src count iv decrypt = xtea_crypt ctx src count iv decrypt xtea_crypt_ecb"

definition av_xtea_le_crypt :: "AVXTEA \<Rightarrow> bytes \<Rightarrow> nat \<Rightarrow> bytes option \<Rightarrow> bool \<Rightarrow> bytes \<times> bytes option" where
  "av_xtea_le_crypt ctx src count iv decrypt = xtea_crypt ctx src count iv decrypt xtea_le_crypt_ecb"

section \<open>The unrolled rounds are the loop\<close>

text \<open>The schedule the loops walk through: the running sum and the key words it selects.\<close>

fun xtea_sched :: "nat \<Rightarrow> u32 list \<Rightarrow> u32 \<Rightarrow> (u32 \<times> u32 \<times> u32) list" where
  "xtea_sched 0 k s = []"
| "xtea_sched (Suc i) k s =
     (s, k ! unat (s AND 3), k ! unat (shr (s + xtea_delta) 11 AND 3)) #
     xtea_sched i k (s + xtea_delta)"

fun xtea_dsched :: "nat \<Rightarrow> u32 list \<Rightarrow> u32 \<Rightarrow> (u32 \<times> u32 \<times> u32) list" where
  "xtea_dsched 0 k s = []"
| "xtea_dsched (Suc i) k s =
     (s, k ! unat (shr s 11 AND 3), k ! unat ((s - xtea_delta) AND 3)) #
     xtea_dsched i k (s - xtea_delta)"

lemma xtea_loop_enc_sched: "xtea_loop_enc n k s v = foldl ESTEP v (xtea_sched n k s)"
  by (induction n k s v rule: xtea_loop_enc.induct) (simp_all add: Let_def)

lemma xtea_loop_dec_sched: "xtea_loop_dec n k s v = foldl DSTEP v (xtea_dsched n k s)"
  by (induction n k s v rule: xtea_loop_dec.induct) (simp_all add: Let_def)

lemma xtea_sched_numeral [simp]:
  "xtea_sched (numeral n) k s =
     (s, k ! unat (s AND 3), k ! unat (shr (s + xtea_delta) 11 AND 3)) #
     xtea_sched (pred_numeral n) k (s + xtea_delta)"
  by (simp add: numeral_eq_Suc)

lemma xtea_dsched_numeral [simp]:
  "xtea_dsched (numeral n) k s =
     (s, k ! unat (shr s 11 AND 3), k ! unat ((s - xtea_delta) AND 3)) #
     xtea_dsched (pred_numeral n) k (s - xtea_delta)"
  by (simp add: numeral_eq_Suc)

lemma xtea_esteps_sched: "xtea_esteps k = xtea_sched 32 k 0"
  by (simp add: xtea_esteps_def xtea_delta_def)

lemma xtea_dsteps_sched: "xtea_dsteps k = xtea_dsched 32 k (xtea_delta * 32)"
  by (simp add: xtea_dsteps_def xtea_delta_def)

lemma xtea_loop_enc_unrolled: "xtea_loop_enc 32 k 0 v = foldl ESTEP v (xtea_esteps k)"
  by (simp only: xtea_loop_enc_sched xtea_esteps_sched)

lemma xtea_loop_dec_unrolled: "xtea_loop_dec 32 k (xtea_delta * 32) v = foldl DSTEP v (xtea_dsteps k)"
  by (simp only: xtea_loop_dec_sched xtea_dsteps_sched)

text \<open>The unrolled XTEA block routine, with its 32 hand-written round constants and key indices
  in each direction, computes the same block and the same \<open>iv\<close> as the loop compiled under
  \<open>CONFIG_SMALL\<close>, for every key, block, direction and \<open>iv\<close>.\<close>

theorem xtea_unrolled_is_loop:
  "xtea_crypt_ecb ctx src decrypt iv = xtea_crypt_ecb_small ctx src decrypt iv"
  by (simp only: xtea_crypt_ecb_def xtea_crypt_ecb_small_def xtea_loop_enc_unrolled
      xtea_loop_dec_unrolled)

section \<open>Decryption inverts encryption\<close>

lemma DSTEP_ESTEP: "DSTEP (ESTEP v (s, a, b)) (s + xtea_delta, b, a) = v"
  by (cases v) (simp add: Let_def)

text \<open>The decryption rounds are the encryption rounds backwards, sums moved on by one delta.\<close>

lemma xtea_dsteps_rev:
  "xtea_dsteps k = map (\<lambda>(s, a, b). (s + xtea_delta, b, a)) (rev (xtea_esteps k))"
  by (simp add: xtea_dsteps_def xtea_esteps_def xtea_delta_def)

lemma xtea_rounds_inverse: "foldl DSTEP (foldl ESTEP v (xtea_esteps k)) (xtea_dsteps k) = v"
proof -
  have "foldl (\<lambda>v x. DSTEP v (case x of (s, a, b) \<Rightarrow> (s + xtea_delta, b, a)))
      (foldl ESTEP v (xtea_esteps k)) (rev (xtea_esteps k)) = v"
    by (rule foldl_inverse) (auto simp: DSTEP_ESTEP split: prod.split)
  then show ?thesis by (simp add: xtea_dsteps_rev foldl_map)
qed

text \<open>The chaining xor, done on the words that are stored.\<close>

lemma xor_bytes_8:
  "length w = 8 \<Longrightarrow> xor_bytes (AV_WB32 a @ AV_WB32 b) w =
    AV_WB32 (a XOR AV_RB32 w 0) @ AV_WB32 (b XOR AV_RB32 w 4)"
  "length w = 8 \<Longrightarrow> xor_bytes (AV_WL32 a @ AV_WL32 b) w =
    AV_WL32 (a XOR AV_RL32 w 0) @ AV_WL32 (b XOR AV_RL32 w 4)"
  by (simp_all add: AV_WB32_xor AV_WL32_xor AV_WB32_field AV_WL32_field
      xor_bytes_append [symmetric] flip: take_add)

interpretation xtea: cipher_loop 8
  "\<lambda>b. fst (xtea_crypt_ecb ctx b False None)" "\<lambda>b. fst (xtea_crypt_ecb ctx b True None)"
  "\<lambda>b. xtea_crypt_ecb ctx b True" "\<lambda>src n iv decrypt. av_xtea_crypt ctx src n iv decrypt" for ctx
proof unfold_locales
  fix b w :: bytes
  assume b: "length b = 8"
  show "length (fst (xtea_crypt_ecb ctx b False None)) = 8"
    by (simp add: xtea_crypt_ecb_def Let_def split_def)
  show "fst (xtea_crypt_ecb ctx (fst (xtea_crypt_ecb ctx b False None)) True None) = b"
    using xtea_rounds_inverse [of "(AV_RB32 b 0, AV_RB32 b 4)" "xtea_key ctx"] b
    by (simp add: xtea_crypt_ecb_def byte_access split_def Let_def AV_WB32_field flip: take_add)
  show "length w = 8 \<Longrightarrow> xtea_crypt_ecb ctx b True (Some w) =
      (xor_bytes (fst (xtea_crypt_ecb ctx b True None)) w, Some b)"
    using b by (simp add: xtea_crypt_ecb_def Let_def split_def xor_bytes_8)
qed (auto simp: av_xtea_crypt_def Let_def split_def xtea_crypt_ecb_def split: option.split)

interpretation xtea_le: cipher_loop 8
  "\<lambda>b. fst (xtea_le_crypt_ecb ctx b False None)" "\<lambda>b. fst (xtea_le_crypt_ecb ctx b True None)"
  "\<lambda>b. xtea_le_crypt_ecb ctx b True" "\<lambda>src n iv decrypt. av_xtea_le_crypt ctx src n iv decrypt" for ctx
proof unfold_locales
  fix b w :: bytes
  assume b: "length b = 8"
  show "length (fst (xtea_le_crypt_ecb ctx b False None)) = 8"
    by (simp add: xtea_le_crypt_ecb_def Let_def split_def)
  show "fst (xtea_le_crypt_ecb ctx (fst (xtea_le_crypt_ecb ctx b False None)) True None) = b"
    using xtea_rounds_inverse [of "(AV_RL32 b 0, AV_RL32 b 4)" "xtea_key ctx"] b
    by (simp add: xtea_le_crypt_ecb_def byte_access split_def Let_def AV_WL32_field
        xtea_loop_enc_unrolled xtea_loop_dec_unrolled flip: take_add)
  show "length w = 8 \<Longrightarrow> xtea_le_crypt_ecb ctx b True (Some w) =
      (xor_bytes (fst (xtea_le_crypt_ecb ctx b True None)) w, Some b)"
    using b by (simp add: xtea_le_crypt_ecb_def Let_def split_def xor_bytes_8)
qed (auto simp: av_xtea_le_crypt_def Let_def split_def xtea_le_crypt_ecb_def split: option.split)

text \<open>\<open>av_xtea_crypt\<close> and \<open>av_xtea_le_crypt\<close>, called to decrypt what they encrypted with the same
  key and the same \<open>iv\<close> (or none), give the message back and leave the \<open>iv\<close> in the same state.\<close>

theorem av_xtea_round_trip:
  assumes "length src = n * 8" and "iv_ok 8 iv"
  shows "av_xtea_crypt ctx (fst (av_xtea_crypt ctx src n iv False)) n iv True =
      (src, snd (av_xtea_crypt ctx src n iv False)) \<and>
    av_xtea_le_crypt ctx (fst (av_xtea_le_crypt ctx src n iv False)) n iv True =
      (src, snd (av_xtea_le_crypt ctx src n iv False))"
  using xtea.crypt_round_trip [OF assms] xtea_le.crypt_round_trip [OF assms] by blast

theorem av_xtea_round_trip_witness:
  "av_xtea_crypt (av_xtea_init (replicate 16 7))
     (fst (av_xtea_crypt (av_xtea_init (replicate 16 7)) (replicate 24 1) 3 (Some (replicate 8 5)) False))
     3 (Some (replicate 8 5)) True =
   (replicate 24 1,
    snd (av_xtea_crypt (av_xtea_init (replicate 16 7)) (replicate 24 1) 3 (Some (replicate 8 5)) False))"
  using av_xtea_round_trip [of "replicate 24 1" 3 "Some (replicate 8 5)"] by simp

end
