(* ===== verification/AvIntMath.thy ===== *)
theory AvIntMath imports AvPrelude "HOL-Library.Signed_Division"
begin

text \<open>
  Signed C integers and the bit-counting routines of \<open>libavutil/intmath.h\<close> and
  \<open>libavutil/log2_tab.c\<close>. A signed \<open>int64_t\<close> or \<open>int\<close> is an HOL integer, and every operation of the
  code that may leave its range is followed by the two's-complement reduction \<open>s64\<close> or \<open>s32\<close>; unsigned
  64-bit values that the code lets wrap are words.
\<close>

section \<open>Two's-complement reductions\<close>

definition s64 :: "int \<Rightarrow> int" where "s64 x = signed_take_bit 63 x"
definition s32 :: "int \<Rightarrow> int" where "s32 x = signed_take_bit 31 x"
definition s16 :: "int \<Rightarrow> int" where "s16 x = signed_take_bit 15 x"
definition s8 :: "int \<Rightarrow> int" where "s8 x = signed_take_bit 7 x"

abbreviation INT64_MAX :: int where "INT64_MAX \<equiv> 9223372036854775807"
abbreviation INT64_MIN :: int where "INT64_MIN \<equiv> - 9223372036854775808"
abbreviation INT_MAX :: int where "INT_MAX \<equiv> 2147483647"
abbreviation INT_MIN :: int where "INT_MIN \<equiv> - 2147483648"

text \<open>The ranges of \<open>int64_t\<close> and \<open>int\<close>.\<close>

definition is_s64 :: "int \<Rightarrow> bool" where
  "is_s64 x \<longleftrightarrow> INT64_MIN \<le> x \<and> x \<le> INT64_MAX"

definition is_s32 :: "int \<Rightarrow> bool" where
  "is_s32 x \<longleftrightarrow> INT_MIN \<le> x \<and> x \<le> INT_MAX"

lemma s64_id [simp]: "is_s64 x \<Longrightarrow> s64 x = x"
  by (simp add: s64_def is_s64_def signed_take_bit_int_eq_self)

lemma s32_id [simp]: "is_s32 x \<Longrightarrow> s32 x = x"
  by (simp add: s32_def is_s32_def signed_take_bit_int_eq_self)

lemma s64_range [simp]: "is_s64 (s64 x)"
  using signed_take_bit_int_greater_eq_minus_exp [of 63 x] signed_take_bit_int_less_exp [of 63 x]
  by (simp add: s64_def is_s64_def)

lemma s32_range [simp]: "is_s32 (s32 x)"
  using signed_take_bit_int_greater_eq_minus_exp [of 31 x] signed_take_bit_int_less_exp [of 31 x]
  by (simp add: s32_def is_s32_def)

lemma s64_div: "is_s64 a \<Longrightarrow> is_s64 (a div 2 ^ n)"
proof -
  assume a: "is_s64 a"
  have "a div 2 ^ n \<le> max a 0"
    using zdiv_mono2 [of a 1 "2 ^ n"] div_neg_pos_less0 [of a "2 ^ n"] by (cases "0 \<le> a") auto
  moreover have "min a 0 \<le> a div 2 ^ n"
    using zdiv_mono2_neg [of a 1 "2 ^ n"] pos_imp_zdiv_nonneg_iff [of "2 ^ n" a]
    by (cases "0 \<le> a") auto
  ultimately show ?thesis using a by (auto simp: is_s64_def)
qed

lemma is_s64_abs: "\<bar>x\<bar> \<le> INT64_MAX \<Longrightarrow> is_s64 x"
  by (simp add: is_s64_def abs_le_iff)

lemma s64_xor: "s64 (x XOR y) = s64 x XOR s64 y"
  unfolding s64_def by (rule bit_eqI) (simp add: bit_simps)

lemma is_s64_xor: "is_s64 x \<Longrightarrow> is_s64 y \<Longrightarrow> is_s64 (x XOR y)"
proof -
  assume "is_s64 x" "is_s64 y"
  then have "s64 (x XOR y) = x XOR y"
    using s64_xor [of x y] by simp
  then show ?thesis by (metis s64_range)
qed

text \<open>The two ways to bound a quotient.\<close>

lemma le_zdiv_iff: "0 < c \<Longrightarrow> q \<le> x div c \<longleftrightarrow> q * c \<le> x" for x c q :: int
proof
  assume c: "0 < c" and q: "q \<le> x div c"
  then have "q * c \<le> x div c * c" by simp
  also have "\<dots> \<le> x" using c by (simp add: minus_mod_eq_div_mult [symmetric])
  finally show "q * c \<le> x" .
next
  assume "0 < c" "q * c \<le> x"
  then show "q \<le> x div c" using zdiv_mono1 [of "q * c" x c] by simp
qed

lemma zdiv_less_iff: "0 < c \<Longrightarrow> x div c < q \<longleftrightarrow> x < q * c" for x c q :: int
  using le_zdiv_iff [of c q x] by linarith

text \<open>C division truncates; on the nonnegative operands of most of the code that is \<open>div\<close>.\<close>

lemma sdiv_nonneg [simp]: "0 \<le> a \<Longrightarrow> 0 \<le> b \<Longrightarrow> a sdiv b = a div (b :: int)"
  by (auto simp: signed_divide_int_def sgn_if)

lemma smod_nonneg [simp]: "0 \<le> a \<Longrightarrow> 0 \<le> b \<Longrightarrow> a smod b = a mod (b :: int)"
  by (cases "a = 0") (simp_all add: signed_modulo_int_def minus_div_mult_eq_mod)

text \<open>\<open>FFABS\<close>, \<open>FFMAX\<close>, \<open>FFMIN\<close> and \<open>av_clip64_c\<close> of \<open>common.h\<close>.\<close>

definition FFABS :: "int \<Rightarrow> int" where
  "FFABS a = (if a \<ge> 0 then a else s64 (- a))"

definition FFMAX :: "int \<Rightarrow> int \<Rightarrow> int" where
  "FFMAX a b = (if a > b then a else b)"

definition FFMIN :: "int \<Rightarrow> int \<Rightarrow> int" where
  "FFMIN a b = (if a > b then b else a)"

definition av_clip64 :: "int \<Rightarrow> int \<Rightarrow> int \<Rightarrow> int" where
  "av_clip64 a amin amax = (if a < amin then amin else if a > amax then amax else a)"

lemma FFMAX_max [simp]: "FFMAX a b = max a b" and FFMIN_min [simp]: "FFMIN a b = min a b"
  by (auto simp: FFMAX_def FFMIN_def)

lemma FFABS_abs: "is_s64 a \<Longrightarrow> a \<noteq> INT64_MIN \<Longrightarrow> FFABS a = \<bar>a\<bar>"
  by (simp add: FFABS_def is_s64_def)

section \<open>Trailing zeros by a de Bruijn sequence\<close>

definition debruijn_ctz32 :: "nat list" where
  "debruijn_ctz32 =
     [0, 1, 28, 2, 29, 14, 24, 3, 30, 22, 20, 15, 25, 17, 4, 8,
      31, 27, 13, 23, 21, 19, 16, 7, 26, 12, 18, 6, 11, 5, 10, 9]"

definition ff_ctz_c :: "u32 \<Rightarrow> nat" where
  "ff_ctz_c v = debruijn_ctz32 ! unat (shr ((v AND - v) * 0x077CB531) 27)"

definition debruijn_ctz64 :: "nat list" where
  "debruijn_ctz64 =
     [0, 1, 2, 53, 3, 7, 54, 27, 4, 38, 41, 8, 34, 55, 48, 28,
      62, 5, 39, 46, 44, 42, 22, 9, 24, 35, 59, 56, 49, 18, 29, 11,
      63, 52, 6, 26, 37, 40, 33, 47, 61, 45, 43, 21, 23, 58, 17, 10,
      51, 25, 36, 32, 60, 20, 57, 16, 50, 31, 19, 15, 30, 14, 13, 12]"

definition ff_ctzll_c :: "u64 \<Rightarrow> nat" where
  "ff_ctzll_c v = debruijn_ctz64 ! unat (shr ((v AND - v) * 0x022FDD63CC95386D) 58)"

lemma odd_and_minus: "odd w \<Longrightarrow> w AND - w = (1 :: 'a::len word)"
proof -
  assume "odd w"
  then have "even (NOT w)" by simp
  then have "- w = NOT w OR 1"
    by (simp add: minus_eq_not_plus_1 disjunctive_add even_iff_mod_2_eq_zero bit_simps
        or_one_eq flip: and_one_eq)
  then have "w AND - w = w AND 1"
    by (simp add: and.assoc [symmetric] bit.conj_disj_distrib)
  then show ?thesis using \<open>odd w\<close> by (simp add: and_one_eq odd_iff_mod_2_eq_one)
qed

lemma push_odd_and_minus:
  assumes "odd w"
  shows "push_bit n w AND - push_bit n w = push_bit n (1 :: 'a::len word)"
proof -
  have "- push_bit n w = push_bit n (- w)" by (simp add: push_bit_eq_mult)
  then have "push_bit n w AND - push_bit n w = push_bit n (w AND - w)" by (simp only: push_bit_and)
  then show ?thesis using odd_and_minus [OF assms] by simp
qed

text \<open>The 32 and 64 windows of the sequences are distinct, and the tables invert them.\<close>

lemma upt_from_2: "2 \<le> n \<Longrightarrow> [0..<n] = [0, 1] @ [2..<n]"
  by (simp add: upt_conv_Cons numeral_2_eq_2)

lemma ctz32_table:
  "list_all (\<lambda>n. debruijn_ctz32 ! unat (shr (push_bit n 1 * (0x077CB531 :: u32)) 27) = n) [0..<32]"
  by (simp add: upt_from_2 debruijn_ctz32_def)

lemma ctz64_table:
  "list_all (\<lambda>n. debruijn_ctz64 ! unat (shr (push_bit n 1 * (0x022FDD63CC95386D :: u64)) 58) = n) [0..<64]"
  by (simp add: upt_from_2 debruijn_ctz64_def)

lemma ff_ctz_push: "odd w \<Longrightarrow> n < 32 \<Longrightarrow> ff_ctz_c (push_bit n w) = n"
  using ctz32_table unfolding ff_ctz_c_def push_odd_and_minus by (simp add: list_all_iff)

lemma ff_ctzll_push: "odd w \<Longrightarrow> n < 64 \<Longrightarrow> ff_ctzll_c (push_bit n w) = n"
  using ctz64_table unfolding ff_ctzll_c_def push_odd_and_minus by (simp add: list_all_iff)

lemma odd_partE:
  fixes a :: int
  assumes "a \<noteq> 0"
  obtains n m where "odd m" "a = 2 ^ n * m"
proof -
  have "\<exists>n m. odd m \<and> a = 2 ^ n * m"
    using assms
  proof (induction "nat \<bar>a\<bar>" arbitrary: a rule: less_induct)
    case less
    show ?case
    proof (cases "odd a")
      case True
      then show ?thesis by (intro exI [of _ 0] exI [of _ a]) simp
    next
      case False
      then obtain b where b: "a = 2 * b" by blast
      with less.prems have "b \<noteq> 0" and "nat \<bar>b\<bar> < nat \<bar>a\<bar>" by auto
      with less.hyps obtain n m where "odd m" "b = 2 ^ n * m" by blast
      with b show ?thesis by (intro exI [of _ "Suc n"] exI [of _ m]) simp
    qed
  qed
  then show thesis using that by blast
qed

text \<open>On a nonzero \<open>int64_t\<close> the count is the position of the lowest set bit: the shift by it is exact
  and leaves an odd number.\<close>

lemma ff_ctzll_int:
  assumes "is_s64 a" and "a \<noteq> 0"
  defines "n \<equiv> ff_ctzll_c (word_of_int a)"
  shows "n < 64" and "odd (a div 2 ^ n)" and "a = 2 ^ n * (a div 2 ^ n)"
proof -
  obtain k m where m: "odd m" "a = 2 ^ k * m" using assms(2) by (rule odd_partE)
  have "\<bar>a\<bar> \<le> 2 ^ 63" using assms(1) by (simp add: is_s64_def abs_le_iff)
  moreover have "2 ^ k \<le> \<bar>a\<bar>" using m assms(2) by (simp add: abs_mult)
  ultimately have "(2 :: int) ^ k \<le> 2 ^ 63" by linarith
  then have k: "k < 64" by (subst (asm) power_increasing_iff) simp_all
  have "word_of_int a = push_bit k (word_of_int m :: u64)"
    using m(2) by (simp add: push_bit_eq_mult mult.commute)
  moreover have "odd (word_of_int m :: u64)"
    using m(1) by (simp add: bit_word_of_int_iff flip: bit_0)
  ultimately have "n = k" using k by (simp add: n_def ff_ctzll_push)
  with m k show "n < 64" and "odd (a div 2 ^ n)" and "a = 2 ^ n * (a div 2 ^ n)" by simp_all
qed

lemma word_odd_partE:
  fixes v :: "'a::len word"
  assumes "v \<noteq> 0"
  obtains n w where "odd w" "v = push_bit n w" "n < LENGTH('a)"
proof -
  define n where "n = (LEAST i. bit v i)"
  have ex: "\<exists>i. bit v i" using assms by (metis bit_word_eqI bit_0_eq bot_apply bot_bool_def)
  then have n: "bit v n" unfolding n_def by (metis LeastI_ex)
  have low: "\<not> bit v i" if "i < n" for i using that not_less_Least unfolding n_def by blast
  have "odd (drop_bit n v)" using n by (simp add: bit_iff_odd_drop_bit)
  moreover have "v = push_bit n (drop_bit n v)"
  proof (rule bit_word_eqI)
    fix i
    show "bit v i = bit (push_bit n (drop_bit n v)) i" if "i < LENGTH('a)"
      using that low [of i] by (cases "i < n") (auto simp: bit_simps)
  qed
  moreover have "n < LENGTH('a)" using n by (rule bit_imp_le_length)
  ultimately show thesis by (rule that)
qed

text \<open>For every nonzero value the lookup gives the index of the lowest set bit.\<close>

lemma ff_ctz_correct: "v \<noteq> 0 \<Longrightarrow> bit v (ff_ctz_c v) \<and> take_bit (ff_ctz_c v) v = 0"
  by (erule word_odd_partE) (auto simp: ff_ctz_push bit_push_bit_iff take_bit_push_bit bit_0)

lemma ff_ctzll_correct: "v \<noteq> 0 \<Longrightarrow> bit v (ff_ctzll_c v) \<and> take_bit (ff_ctzll_c v) v = 0"
  by (erule word_odd_partE) (auto simp: ff_ctzll_push bit_push_bit_iff take_bit_push_bit bit_0)

section \<open>Binary logarithms\<close>

definition ff_log2_tab :: "nat list" where
  "ff_log2_tab =
     [0,0,1,1,2,2,2,2,3,3,3,3,3,3,3,3,4,4,4,4,4,4,4,4,4,4,4,4,4,4,4,4,
      5,5,5,5,5,5,5,5,5,5,5,5,5,5,5,5,5,5,5,5,5,5,5,5,5,5,5,5,5,5,5,5,
      6,6,6,6,6,6,6,6,6,6,6,6,6,6,6,6,6,6,6,6,6,6,6,6,6,6,6,6,6,6,6,6,
      6,6,6,6,6,6,6,6,6,6,6,6,6,6,6,6,6,6,6,6,6,6,6,6,6,6,6,6,6,6,6,6,
      7,7,7,7,7,7,7,7,7,7,7,7,7,7,7,7,7,7,7,7,7,7,7,7,7,7,7,7,7,7,7,7,
      7,7,7,7,7,7,7,7,7,7,7,7,7,7,7,7,7,7,7,7,7,7,7,7,7,7,7,7,7,7,7,7,
      7,7,7,7,7,7,7,7,7,7,7,7,7,7,7,7,7,7,7,7,7,7,7,7,7,7,7,7,7,7,7,7,
      7,7,7,7,7,7,7,7,7,7,7,7,7,7,7,7,7,7,7,7,7,7,7,7,7,7,7,7,7,7,7,7]"

definition ff_log2_c :: "u32 \<Rightarrow> nat" where
  "ff_log2_c v =
     (let (v, n) = if v AND 0xffff0000 \<noteq> 0 then (shr v 16, 16) else (v, 0);
          (v, n) = if v AND 0xff00 \<noteq> 0 then (shr v 8, n + 8) else (v, n)
      in n + ff_log2_tab ! unat v)"

definition ff_log2_16bit_c :: "u32 \<Rightarrow> nat" where
  "ff_log2_16bit_c v =
     (let (v, n) = if v AND 0xff00 \<noteq> 0 then (shr v 8, 8) else (v, 0)
      in n + ff_log2_tab ! unat v)"

lemma log2_table:
  "list_all2 (\<lambda>n x. x < 2 * 2 ^ n \<and> (0 < x \<longrightarrow> 2 ^ n \<le> x)) ff_log2_tab [0..<256]"
  by (simp add: upt_from_2 ff_log2_tab_def)

text \<open>What the table gives on a byte; the code narrows the value to one first.\<close>

lemma log2_tab_bounds:
  "x < 256 \<Longrightarrow> x < 2 * 2 ^ (ff_log2_tab ! x)"
  "x < 256 \<Longrightarrow> 0 < x \<Longrightarrow> 2 ^ (ff_log2_tab ! x) \<le> x"
  using list_all2_nthD2 [OF log2_table, of x] by simp_all

text \<open>The tests \<open>v & 0xffff0000\<close> and \<open>v & 0xff00\<close> ask whether the value needs the bits above 16 or 8.\<close>

lemma unat_shr: "unat (shr v n) = unat (v :: 'a::len word) div 2 ^ n"
  by (subst unsigned_drop_bit_eq) (simp add: drop_bit_eq_div take_bit_nat_eq_self)

lemma div_bounds: "0 < k \<Longrightarrow> k * (n div k) \<le> n \<and> n < k * (n div k + 1)"
  for n k :: nat
  using dividend_less_times_div [of k n] by simp

lemma take_bit_self_iff: "take_bit k v = v \<longleftrightarrow> unat (v :: 'a::len word) < 2 ^ k"
  by (metis take_bit_nat_eq_self_iff unsigned_take_bit_eq unsigned_word_eqI)

lemma and_field_0:
  fixes v :: "'a::len word"
  assumes "unat v < 2 ^ (k + m)"
  shows "v AND push_bit k (mask m) = 0 \<longleftrightarrow> unat v < 2 ^ k"
proof -
  have "bit v n \<Longrightarrow> \<not> n < k \<Longrightarrow> n - k < m" for n
    using assms unfolding take_bit_self_iff [symmetric] by (metis bit_take_bit_iff less_diff_conv2 not_less add.commute)
  then have b: "bit (v AND push_bit k (mask m)) n \<longleftrightarrow> bit v n \<and> \<not> n < k" for n
    using bit_imp_le_length [of v n] by (auto simp: bit_simps)
  have "v AND push_bit k (mask m) = 0 \<longleftrightarrow> take_bit k v = v"
    unfolding bit_eq_iff b by (auto simp: bit_take_bit_iff)
  then show ?thesis by (simp add: take_bit_self_iff)
qed

lemma log2_masks: "(0xffff0000 :: u32) = push_bit 16 (mask 16)" "(0xff00 :: u32) = push_bit 8 (mask 8)"
  by (simp_all add: mask_eq_exp_minus_1)

lemma ff_log2_16bit_bounds:
  assumes "unat v < 2 ^ 16"
  shows "unat v < 2 * 2 ^ ff_log2_16bit_c v \<and> (v \<noteq> 0 \<longrightarrow> 2 ^ ff_log2_16bit_c v \<le> unat v)"
proof (cases "unat v < 2 ^ 8")
  case True
  then have "v AND 0xff00 = 0" using and_field_0 [of v 8 8] assms by (simp add: log2_masks)
  then show ?thesis
    using log2_tab_bounds [of "unat v"] True by (simp add: ff_log2_16bit_c_def unat_gt_0)
next
  case False
  define x where "x = unat v div 256"
  have nz: "v AND 0xff00 \<noteq> 0" using and_field_0 [of v 8 8] assms False by (simp add: log2_masks)
  have x: "unat (shr v 8) = x" by (simp add: x_def unat_shr)
  have "x < 256" "0 < x" using assms False by (simp_all add: x_def div_greater_zero_iff)
  then have b: "x < 2 * 2 ^ (ff_log2_tab ! x)" "2 ^ (ff_log2_tab ! x) \<le> x"
    using log2_tab_bounds [of x] by simp_all
  have "256 * x \<le> unat v" "unat v < 256 * (x + 1)"
    using div_bounds [of 256 "unat v"] by (simp_all add: x_def)
  then show ?thesis using nz b by (simp add: ff_log2_16bit_c_def x power_add)
qed

text \<open>\<open>av_log2\<close> is the position of the highest set bit.\<close>

lemma ff_log2_bounds:
  "unat v < 2 * 2 ^ ff_log2_c v \<and> (v \<noteq> 0 \<longrightarrow> 2 ^ ff_log2_c v \<le> unat v)"
proof (cases "unat v < 2 ^ 16")
  case True
  then have "v AND 0xffff0000 = 0"
    using and_field_0 [of v 16 16] unsigned_less [of v] by (simp add: log2_masks)
  then have "ff_log2_c v = ff_log2_16bit_c v" by (simp add: ff_log2_c_def ff_log2_16bit_c_def)
  then show ?thesis using ff_log2_16bit_bounds [OF True] by simp
next
  case False
  define x where "x = shr v 16"
  have nz: "v AND 0xffff0000 \<noteq> 0"
    using and_field_0 [of v 16 16] False unsigned_less [of v] by (simp add: log2_masks)
  have x: "unat x = unat v div 65536" by (simp add: x_def unat_shr)
  have "unat x < 2 ^ 16" using unsigned_less [of v] by (simp add: x div_less_iff_less_mult)
  moreover have "0 < unat x" using False by (simp add: x div_greater_zero_iff)
  ultimately have b: "unat x < 2 * 2 ^ ff_log2_16bit_c x" "2 ^ ff_log2_16bit_c x \<le> unat x"
    using ff_log2_16bit_bounds [of x] by (auto simp: unat_gt_0)
  have "ff_log2_c v = 16 + ff_log2_16bit_c x"
    using nz by (simp add: ff_log2_c_def ff_log2_16bit_c_def x_def Let_def)
  moreover have "65536 * unat x \<le> unat v" "unat v < 65536 * (unat x + 1)"
    using div_bounds [of 65536 "unat v"] by (simp_all add: x)
  ultimately show ?thesis using b by (simp add: power_add)
qed

end
