(* ===== verification/AvGcd.thy ===== *)
theory AvGcd imports AvIntMath "HOL-Library.Monad_Syntax"
begin

text \<open>
  \<open>av_gcd\<close> of \<open>libavutil/mathematics.c\<close>: Stein's binary algorithm on \<open>int64_t\<close>. The loop does not end
  when one of its variables is zero, so it is a partial function; that the callers' values never
  get there is part of what is proved.
\<close>

text \<open>\<open>while (u != v)\<close>: order the pair, subtract, and shift the even difference down.\<close>

partial_function (option) av_gcd_loop :: "int \<Rightarrow> int \<Rightarrow> int option" where
  "av_gcd_loop u v =
     (if u = v then Some u
      else let (u, v) = (if u > v then (v, u) else (u, v));
               v = s64 (v - u);
               v = v div 2 ^ ff_ctzll_c (word_of_int v)
           in av_gcd_loop u v)"

definition av_gcd :: "int \<Rightarrow> int \<Rightarrow> int option" where
  "av_gcd a b =
     (if a = 0 then Some b
      else if b = 0 then Some a
      else let za = ff_ctzll_c (word_of_int a);
               zb = ff_ctzll_c (word_of_int b);
               k = min za zb;
               u = FFABS (a div 2 ^ za);
               v = FFABS (b div 2 ^ zb)
           in do { u \<leftarrow> av_gcd_loop u v; Some (s64 (u * 2 ^ k)) })"

declare av_gcd_loop.simps [code]

section \<open>It is the greatest common divisor\<close>

lemma gcd_odd_shift: "odd u \<Longrightarrow> gcd u (2 ^ k * w) = gcd u (w :: int)"
  by (simp add: gcd_mult_right_left_cancel)

lemma gcd_shifted_odds:
  assumes "odd m" and "odd n"
  shows "gcd (2 ^ i * m) (2 ^ j * n) = 2 ^ min i j * gcd m (n :: int)"
proof -
  have le: "gcd (2 ^ i * m) (2 ^ j * n) = 2 ^ i * gcd m n" if "odd m" "i \<le> j" for i j and m n :: int
  proof -
    have "2 ^ j * n = 2 ^ i * (2 ^ (j - i) * n)" using that(2) by (metis le_add_diff_inverse mult.assoc power_add)
    then have "gcd (2 ^ i * m) (2 ^ j * n) = 2 ^ i * gcd m (2 ^ (j - i) * n)"
      by (simp only: gcd_mult_left) simp
    then show ?thesis using that(1) by (simp add: gcd_odd_shift)
  qed
  show ?thesis
    using le [of m i j n] le [of n j i m] assms by (cases "i \<le> j") (simp_all add: gcd.commute)
qed

text \<open>One turn of the loop on odd positive values keeps them so and keeps their gcd.\<close>

lemma gcd_step:
  assumes "0 < u" "u < v" "odd u" "odd v" "is_s64 v"
  defines "w \<equiv> s64 (v - u) div 2 ^ ff_ctzll_c (word_of_int (s64 (v - u)))"
  shows "0 < w" "w < v" "odd w" "is_s64 w" "gcd u w = gcd u v"
proof -
  define n where "n = ff_ctzll_c (word_of_int (v - u))"
  let ?d = "v - u"
  have d: "is_s64 ?d" "?d \<noteq> 0" using assms(1-5) by (simp_all add: is_s64_def)
  note z = ff_ctzll_int [OF d, folded n_def]
  have w: "w = ?d div 2 ^ n" using d by (simp add: w_def n_def)
  show odd: "odd w" unfolding w by (rule z(2))
  have dw: "?d = 2 ^ n * w" unfolding w by (rule z(3))
  have "0 < ?d" using assms(2) by simp
  then show pos: "0 < w" using dw by (metis zero_less_mult_pos zero_less_power zero_less_numeral)
  have "w \<le> ?d" using dw pos mult_right_mono [of 1 "2 ^ n" w] by simp
  then show lt: "w < v" using assms(1) by simp
  show "is_s64 w" using lt pos assms(5) by (simp add: is_s64_def)
  have "gcd u w = gcd u ?d" unfolding dw using assms(3) by (simp add: gcd_odd_shift)
  also have "\<dots> = gcd u v" by (metis gcd.commute gcd_diff1)
  finally show "gcd u w = gcd u v" .
qed

lemma av_gcd_loop_gcd:
  "\<lbrakk>0 < u; 0 < v; odd u; odd v; is_s64 u; is_s64 v\<rbrakk> \<Longrightarrow> av_gcd_loop u v = Some (gcd u v)"
proof (induction "nat (u + v)" arbitrary: u v rule: less_induct)
  case less
  have step: "av_gcd_loop x (s64 (y - x) div 2 ^ ff_ctzll_c (word_of_int (s64 (y - x)))) = Some (gcd u v)"
    if "x < y" "{x, y} = {u, v}" for x y
  proof -
    have xy: "0 < x" "odd x" "odd y" "is_s64 x" "is_s64 y" "x + y = u + v" "gcd x y = gcd u v"
      using that less.prems by (auto simp: doubleton_eq_iff gcd.commute)
    note s = gcd_step [OF xy(1) that(1) xy(2,3,5)]
    show ?thesis using less.hyps [OF _ xy(1) s(1) xy(2) s(3) xy(4) s(4)] s(2,5) xy(6) less.prems
      by (simp add: xy(7))
  qed
  show ?case
    using step [of u v] step [of v u] less.prems
    by (cases u v rule: linorder_cases) (subst av_gcd_loop.simps, simp add: Let_def insert_commute)+
qed

text \<open>C29: \<open>av_gcd\<close> returns for every pair of \<open>int64_t\<close> values, and returns their greatest common divisor:
  the other value when one is zero (negative if that value is), and otherwise the gcd of the
  absolute values, which fits unless both are \<open>INT64_MIN\<close>.\<close>

theorem av_gcd_correct:
  assumes "is_s64 a" and "is_s64 b"
  shows "av_gcd a b = Some (if a = 0 then b else if b = 0 then a else s64 (gcd a b))"
proof (cases "a = 0 \<or> b = 0")
  case True
  then show ?thesis by (auto simp: av_gcd_def)
next
  case False
  let ?za = "ff_ctzll_c (word_of_int a)" and ?zb = "ff_ctzll_c (word_of_int b)"
  define m n where mn: "m = a div 2 ^ ?za" "n = b div 2 ^ ?zb"
  have a: "odd m" "a = 2 ^ ?za * m" and b: "odd n" "b = 2 ^ ?zb * n"
    using ff_ctzll_int [OF assms(1)] ff_ctzll_int [OF assms(2)] False by (auto simp: mn)
  have abs: "FFABS x = \<bar>x\<bar>" "is_s64 \<bar>x\<bar>" if "odd x" "is_s64 x" for x
  proof -
    have "x \<noteq> INT64_MIN" using that(1) by auto
    then have "INT64_MIN < x" using that(2) by (simp add: is_s64_def order.strict_iff_order)
    with that(2) show "FFABS x = \<bar>x\<bar>" "is_s64 \<bar>x\<bar>" by (auto simp: FFABS_abs is_s64_def)
  qed
  have s: "is_s64 m" "is_s64 n"
    using s64_div [OF assms(1), of ?za] s64_div [OF assms(2), of ?zb] by (simp_all add: mn)
  have "av_gcd_loop \<bar>m\<bar> \<bar>n\<bar> = Some (gcd m n)"
    using a b abs [OF a(1) s(1)] abs [OF b(1) s(2)] by (subst av_gcd_loop_gcd) auto
  moreover have "gcd a b = 2 ^ min ?za ?zb * gcd m n"
    using gcd_shifted_odds [OF a(1) b(1), of ?za ?zb] a(2) b(2) by simp
  ultimately show ?thesis
    using False abs [OF a(1) s(1)] abs [OF b(1) s(2)]
    by (simp add: av_gcd_def Let_def mult.commute flip: mn)
qed

theorem av_gcd_correct_witness: "av_gcd (- 84) 36 = Some 12"
  using av_gcd_correct [of "- 84" 36] by (simp add: is_s64_def gcd_non_0_int)

end
