(* ===== verification/AvRescale.thy ===== *)
theory AvRescale imports AvIntMath
begin

text \<open>
  \<open>av_rescale_rnd\<close> and \<open>av_rescale\<close> of \<open>libavutil/mathematics.c\<close>: \<open>a * b / c\<close> in a chosen rounding
  mode on \<open>int64_t\<close>, in 64-bit arithmetic where the operands are small and with a hand-written
  128-bit product and shift-and-subtract division otherwise. Both routes are shown to compute
  the rounded quotient exactly, and \<open>INT64_MIN\<close> when it does not fit.
\<close>

section \<open>The code\<close>

text \<open>\<open>enum AVRounding\<close> of \<open>mathematics.h\<close>.\<close>

definition AV_ROUND_ZERO :: int where "AV_ROUND_ZERO = 0"
definition AV_ROUND_INF :: int where "AV_ROUND_INF = 1"
definition AV_ROUND_DOWN :: int where "AV_ROUND_DOWN = 2"
definition AV_ROUND_UP :: int where "AV_ROUND_UP = 3"
definition AV_ROUND_NEAR_INF :: int where "AV_ROUND_NEAR_INF = 5"
definition AV_ROUND_PASS_MINMAX :: int where "AV_ROUND_PASS_MINMAX = 8192"

lemmas rounding_defs =
  AV_ROUND_ZERO_def AV_ROUND_INF_def AV_ROUND_DOWN_def AV_ROUND_UP_def AV_ROUND_NEAR_INF_def
  AV_ROUND_PASS_MINMAX_def

text \<open>The 128-bit \<open>a * b + r\<close> as a low and a high \<open>uint64_t\<close>, with the cross product \<open>t1\<close> that the
  division loop then reuses as its quotient.\<close>

definition rescale_mul128 :: "u64 \<Rightarrow> u64 \<Rightarrow> u64 \<Rightarrow> u64 \<times> u64 \<times> u64" where
  "rescale_mul128 a b r =
     (let a0 = a AND 0xFFFFFFFF;
          a1 = shr a 32;
          b0 = b AND 0xFFFFFFFF;
          b1 = shr b 32;
          t1 = a0 * b1 + a1 * b0;
          t1a = shl t1 32;
          a0' = a0 * b0 + t1a;
          a1' = a1 * b1 + shr t1 32 + of_bool (a0' < t1a);
          a0'' = a0' + r;
          a1'' = a1' + of_bool (a0'' < r)
      in (a0'', a1'', t1))"

text \<open>\<open>for (i = 63; i >= 0; i--)\<close>; the first argument is \<open>i + 1\<close>.\<close>

fun rescale_div128 :: "nat \<Rightarrow> u64 \<Rightarrow> u64 \<Rightarrow> u64 \<Rightarrow> u64 \<Rightarrow> u64" where
  "rescale_div128 0 a0 a1 t1 c = t1"
| "rescale_div128 (Suc i) a0 a1 t1 c =
     (let a1 = a1 + (a1 + (shr a0 i AND 1));
          t1 = t1 + t1
      in if c \<le> a1 then rescale_div128 i a0 (a1 - c) (t1 + 1) c
         else rescale_div128 i a0 a1 t1 c)"

definition rescale_wide :: "int \<Rightarrow> int \<Rightarrow> int \<Rightarrow> int \<Rightarrow> int" where
  "rescale_wide a b c r =
     (let (a0, a1, t1) = rescale_mul128 (word_of_int a) (word_of_int b) (word_of_int r);
          t1 = rescale_div128 64 a0 a1 t1 (word_of_int c)
      in if t1 > 0x7FFFFFFFFFFFFFFF then INT64_MIN else s64 (uint t1))"

text \<open>The body after the sign has been dealt with.\<close>

definition rescale_nonneg :: "int \<Rightarrow> int \<Rightarrow> int \<Rightarrow> int \<Rightarrow> int" where
  "rescale_nonneg a b c rnd =
     (let r = (if rnd = AV_ROUND_NEAR_INF then c sdiv 2
               else if rnd AND 1 \<noteq> 0 then s64 (c - 1) else 0)
      in if b \<le> INT_MAX \<and> c \<le> INT_MAX then
           if a \<le> INT_MAX then s64 (s64 (a * b) + r) sdiv c
           else let ad = a sdiv c;
                    a2 = s64 (s64 (a smod c * b) + r) sdiv c
                in if ad \<ge> INT_MAX \<and> b \<noteq> 0 \<and> ad > s64 (INT64_MAX - a2) sdiv b then INT64_MIN
                   else s64 (s64 (ad * b) + a2)
         else rescale_wide a b c r)"

definition rounding_ok :: "int \<Rightarrow> bool" where
  "rounding_ok rnd \<longleftrightarrow>
     (let m = rnd AND NOT AV_ROUND_PASS_MINMAX in 0 \<le> m \<and> m \<le> 5 \<and> m \<noteq> 4)"

function av_rescale_rnd :: "int \<Rightarrow> int \<Rightarrow> int \<Rightarrow> int \<Rightarrow> int" where
  "av_rescale_rnd a b c rnd =
     (if c \<le> 0 \<or> b < 0 \<or> \<not> rounding_ok rnd then INT64_MIN
      else if rnd AND AV_ROUND_PASS_MINMAX \<noteq> 0 \<and> (a = INT64_MIN \<or> a = INT64_MAX) then a
      else let rnd = (if rnd AND AV_ROUND_PASS_MINMAX \<noteq> 0 then rnd - AV_ROUND_PASS_MINMAX else rnd)
           in if a < 0 then s64 (- av_rescale_rnd (- FFMAX a (- INT64_MAX)) b c
                                     (rnd XOR ((rnd div 2) AND 1)))
              else rescale_nonneg a b c rnd)"
  by pat_completeness auto
termination by (relation "measure (\<lambda>(a, b, c, rnd). of_bool (a < 0))") auto

declare av_rescale_rnd.simps [simp del]

definition av_rescale :: "int \<Rightarrow> int \<Rightarrow> int \<Rightarrow> int" where
  "av_rescale a b c = av_rescale_rnd a b c AV_ROUND_NEAR_INF"

section \<open>What it promises\<close>

text \<open>The quotient \<open>x / c\<close> rounded in each mode: towards zero, away from zero, down, up, and to the
  nearest integer with halves away from zero.\<close>

definition rounded_quotient :: "int \<Rightarrow> int \<Rightarrow> int \<Rightarrow> int" where
  "rounded_quotient rnd x c =
     (if rnd = AV_ROUND_ZERO then sgn x * (\<bar>x\<bar> div c)
      else if rnd = AV_ROUND_INF then sgn x * - (- \<bar>x\<bar> div c)
      else if rnd = AV_ROUND_DOWN then x div c
      else if rnd = AV_ROUND_UP then - (- x div c)
      else sgn x * ((2 * \<bar>x\<bar> + c) div (2 * c)))"

text \<open>A value that does not fit is reported as \<open>INT64_MIN\<close>.\<close>

definition fit64 :: "int \<Rightarrow> int" where
  "fit64 q = (if \<bar>q\<bar> \<le> INT64_MAX then q else INT64_MIN)"

section \<open>The 128-bit route\<close>

lemma uint_lt64: "uint (x :: u64) < 18446744073709551616"
  using uint_bounded [of x] by simp

lemma mod_once: "0 \<le> s \<Longrightarrow> s < 2 * m \<Longrightarrow> s mod m = (if s < m then s else s - m)" for s m :: int
  using minus_mod_self2 [of s m] by (auto simp: mod_pos_pos_trivial simp del: minus_mod_self2)

text \<open>The carry out of a 64-bit addition is the comparison the code makes.\<close>

lemma add_carry:
  "uint (x + y) + 2 ^ 64 * of_bool (x + y < y) = uint x + uint (y :: u64)"
  using uint_lt64 [of x] uint_lt64 [of y]
  by (auto simp: uint_word_ariths word_less_def mod_once)

lemma uint_add_exact: "uint x + uint y < 2 ^ 64 \<Longrightarrow> uint (x + y) = uint x + uint (y :: u64)"
  by (simp add: uint_word_ariths mod_pos_pos_trivial)

lemma uint_mult_exact: "uint x * uint y < 2 ^ 64 \<Longrightarrow> uint (x * y) = uint x * uint (y :: u64)"
  by (simp add: uint_word_ariths mod_pos_pos_trivial)

lemma uint_shr: "uint (shr x n) = uint (x :: 'a::len word) div 2 ^ n"
  by (subst unsigned_drop_bit_eq) (simp add: drop_bit_eq_div take_bit_int_eq_self)

lemma uint_low32: "uint (x AND 0xFFFFFFFF :: u64) = uint x mod 2 ^ 32"
proof -
  have "x AND 0xFFFFFFFF = take_bit 32 x" by (simp add: take_bit_eq_mask mask_eq_exp_minus_1)
  then show ?thesis by (simp only: unsigned_take_bit_eq) (simp only: take_bit_eq_mod)
qed

lemma uint_shl32: "uint (shl x 32 :: u64) = uint x mod 2 ^ 32 * 2 ^ 32"
proof -
  have "uint (shl x 32 :: u64) = uint x * 2 ^ 32 mod (2 ^ 32 * 2 ^ 32)"
    by (simp only: unsigned_push_bit_eq) (simp add: push_bit_eq_mult take_bit_eq_mod)
  then show ?thesis by (simp only: mod_mult_mult2)
qed

text \<open>The product of two 63-bit numbers plus a 63-bit number, exactly.\<close>

lemma mul_bound: "0 \<le> x \<Longrightarrow> x \<le> m \<Longrightarrow> 0 \<le> y \<Longrightarrow> y \<le> n \<Longrightarrow> x * y \<le> m * (n :: int)"
  by (rule mult_mono) auto

lemma carry_join:
  "h = p + q + k \<Longrightarrow> l + 2 ^ 64 * k = x + m * 2 ^ 32 \<Longrightarrow> 2 ^ 32 * q + m = t \<Longrightarrow>
   h * 2 ^ 64 + l = p * 2 ^ 64 + t * 2 ^ 32 + (x :: int)"
  by simp

lemma rescale_mul128_exact:
  assumes "uint a < 2 ^ 63" and "uint b < 2 ^ 63" and "uint r < 2 ^ 63"
    and m: "rescale_mul128 a b r = (lo, hi, t)"
  shows "uint hi * 2 ^ 64 + uint lo = uint a * uint b + uint r"
proof -
  define a0 a1 b0 b1 where ab: "a0 = a AND 0xFFFFFFFF" "a1 = shr a 32" "b0 = b AND 0xFFFFFFFF" "b1 = shr b 32"
  have a: "uint a0 < 2 ^ 32" "uint a1 < 2 ^ 31" "uint a = uint a1 * 2 ^ 32 + uint a0"
    and b: "uint b0 < 2 ^ 32" "uint b1 < 2 ^ 31" "uint b = uint b1 * 2 ^ 32 + uint b0"
    using assms(1,2) by (simp_all only: ab uint_low32 uint_shr div_mult_mod_eq) simp_all
  have p: "uint a0 * uint b1 \<le> (2 ^ 32 - 1) * (2 ^ 31 - 1)" "uint a1 * uint b0 \<le> (2 ^ 31 - 1) * (2 ^ 32 - 1)"
    "uint a0 * uint b0 \<le> (2 ^ 32 - 1) * (2 ^ 32 - 1)" "uint a1 * uint b1 \<le> (2 ^ 31 - 1) * (2 ^ 31 - 1)"
    using a b by (intro mul_bound; simp)+
  define t1 where "t1 = a0 * b1 + a1 * b0"
  have t1: "uint t1 = uint a0 * uint b1 + uint a1 * uint b0"
    unfolding t1_def using p by (subst uint_add_exact; simp add: uint_mult_exact)
  define l1 where "l1 = a0 * b0 + shl t1 32"
  have l1: "uint l1 + 2 ^ 64 * of_bool (l1 < shl t1 32) = uint a0 * uint b0 + uint t1 mod 2 ^ 32 * 2 ^ 32"
    using add_carry [of "a0 * b0" "shl t1 32"] p by (simp add: l1_def uint_mult_exact uint_shl32)
  have d: "uint t1 div 2 ^ 32 \<le> 2 ^ 32 - 1"
    using zdiv_mono1 [of "uint t1" "2 ^ 64 - 1" "2 ^ 32"] uint_lt64 [of t1] by simp
  define h1 where "h1 = a1 * b1 + shr t1 32 + of_bool (l1 < shl t1 32)"
  have h1: "uint h1 = uint a1 * uint b1 + uint t1 div 2 ^ 32 + of_bool (l1 < shl t1 32)"
  proof -
    have "uint (a1 * b1 + shr t1 32) = uint a1 * uint b1 + uint t1 div 2 ^ 32"
      using p d by (subst uint_add_exact) (simp_all add: uint_mult_exact uint_shr)
    then show ?thesis unfolding h1_def using p d by (subst uint_add_exact) auto
  qed
  have h: "hi = h1 + of_bool (l1 + r < r)" "lo = l1 + r"
    using m [unfolded rescale_mul128_def Let_def prod.inject]
    unfolding h1_def l1_def t1_def ab by metis+
  have "uint hi = uint h1 + of_bool (l1 + r < r)"
    unfolding h using p h1 d by (subst uint_add_exact) auto
  then have "uint hi * 2 ^ 64 + uint lo = uint h1 * 2 ^ 64 + uint l1 + uint r"
    using add_carry [of l1 r] by (simp add: h algebra_simps)
  also have "uint h1 * 2 ^ 64 + uint l1 = uint a1 * uint b1 * 2 ^ 64 + uint t1 * 2 ^ 32 + uint a0 * uint b0"
    using carry_join [OF h1 l1 mult_div_mod_eq] .
  also have "\<dots> = uint a * uint b" unfolding t1 a(3) b(3) by (simp add: algebra_simps)
  finally show ?thesis .
qed

text \<open>The division loop: when the high word is below the divisor, the low \<open>n\<close> bits of the quotient
  word become the quotient of the remaining number, and what the word held before moves up.\<close>

lemma shr_bit: "uint (shr x i AND 1 :: u64) = uint x div 2 ^ i mod 2"
  by (subst unsigned_and_eq) (simp only: unsigned_1 uint_shr and_one_eq)

lemma rescale_div128_quotient:
  "uint a1 < uint c \<Longrightarrow> uint c \<le> 2 ^ 63 \<Longrightarrow>
   rescale_div128 n a0 a1 t c =
   t * 2 ^ n + word_of_int ((uint a1 * 2 ^ n + uint a0 mod 2 ^ n) div uint c)"
proof (induction n arbitrary: a1 t)
  case 0
  then show ?case by simp
next
  case (Suc n)
  define d where "d = uint a0 div 2 ^ n mod 2"
  define A where "A = a1 + (a1 + (shr a0 n AND 1))"
  have d: "0 \<le> d" "d \<le> 1" by (auto simp: d_def)
  have a: "uint A = 2 * uint a1 + d"
    using Suc.prems d by (simp add: A_def uint_word_ariths shr_bit mod_pos_pos_trivial flip: d_def)
  have low: "uint a0 mod 2 ^ Suc n = d * 2 ^ n + uint a0 mod 2 ^ n"
    using zmod_zmult2_eq [of 2 "uint a0" "2 ^ n"] by (simp add: d_def mult.commute)
  define N where "N = uint A * 2 ^ n + uint a0 mod 2 ^ n"
  have N: "uint a1 * 2 ^ Suc n + uint a0 mod 2 ^ Suc n = N"
    unfolding N_def a low by (simp add: algebra_simps)
  have step: "rescale_div128 (Suc n) a0 a1 t c =
      (if c \<le> A then rescale_div128 n a0 (A - c) (t + t + 1) c else rescale_div128 n a0 A (t + t) c)"
    by (simp add: A_def Let_def)
  show ?case
  proof (cases "c \<le> A")
    case True
    then have le: "uint c \<le> uint A" by (simp add: word_le_def)
    then have s: "uint (A - c) = uint A - uint c" by (rule uint_minus_simple_alt [THEN iffD1, unfolded word_le_def])
    have "uint (A - c) < uint c" using a d Suc.prems unfolding s by linarith
    note IH = Suc.IH [OF this Suc.prems(2), of "t + t + 1"]
    have c0: "0 < uint c" using Suc.prems(1) by (rule le_less_trans [rotated]) simp
    have "(uint (A - c) * 2 ^ n + uint a0 mod 2 ^ n) = N - 2 ^ n * uint c"
      by (simp add: s N_def algebra_simps)
    then have "N div uint c = 2 ^ n + (uint (A - c) * 2 ^ n + uint a0 mod 2 ^ n) div uint c"
      using c0 by (simp add: div_mult_self1 [of "uint c" N "- (2 ^ n)", simplified])
    then have "word_of_int (N div uint c) = (2 ^ n + word_of_int
        ((uint (A - c) * 2 ^ n + uint a0 mod 2 ^ n) div uint c) :: u64)" by simp
    with IH True show ?thesis unfolding N step by (simp add: algebra_simps)
  next
    case False
    then have "uint A < uint c" by (simp add: word_less_def not_le)
    from Suc.IH [OF this Suc.prems(2), of "t + t"] False show ?thesis
      unfolding N step by (simp add: N_def algebra_simps)
  qed
qed

text \<open>When the high word is not below the divisor, the first turn sets a bit that ends up on top.\<close>

lemma rescale_div128_top:
  "bit t k \<Longrightarrow> k + n < 64 \<Longrightarrow> bit (rescale_div128 n a0 a1 t c) (k + n)"
proof (induction n arbitrary: a1 t k)
  case (Suc n)
  have dbl: "t + t = push_bit 1 t" by (simp add: push_bit_eq_mult)
  have inc: "t + t + 1 = (t + t) OR 1"
    unfolding dbl
    by (rule disjunctive_add) (simp only: bit_push_bit_iff bit_1_iff, auto)
  have "bit (push_bit 1 t) (Suc k)"
    using Suc.prems by (simp only: bit_push_bit_iff) simp
  then have "bit (t + t) (Suc k)" "bit (t + t + 1) (Suc k)"
    unfolding inc unfolding dbl by (simp_all only: bit_or_iff simp_thms)
  with Suc.IH [of _ "Suc k"] Suc.prems(2) show ?case by (simp add: Let_def)
qed simp

lemma rescale_wide_exact:
  assumes "is_s64 a" "0 \<le> a" "is_s64 b" "0 \<le> b" "is_s64 c" "0 < c" "is_s64 r" "0 \<le> r"
  shows "rescale_wide a b c r =
    (if (a * b + r) div c \<le> INT64_MAX then (a * b + r) div c else INT64_MIN)"
proof -
  have u: "uint (word_of_int x :: u64) = x" "uint (word_of_int x :: u64) < 2 ^ 63"
    if "is_s64 x" "0 \<le> x" for x
    using that by (simp_all add: uint_word_of_int is_s64_def mod_pos_pos_trivial)
  let ?N = "a * b + r" and ?c = "word_of_int c :: u64"
  obtain lo hi t where m: "rescale_mul128 (word_of_int a) (word_of_int b) (word_of_int r) = (lo, hi, t)"
    by (cases "rescale_mul128 (word_of_int a) (word_of_int b) (word_of_int r)") auto
  have N: "uint hi * 2 ^ 64 + uint lo = ?N"
    using rescale_mul128_exact [OF _ _ _ m] u assms by simp
  have c: "uint ?c = c" "uint ?c \<le> 2 ^ 63" using u [of c] assms by simp_all
  define q where "q = rescale_div128 64 lo hi t ?c"
  have w: "rescale_wide a b c r = (if q > 0x7FFFFFFFFFFFFFFF then INT64_MIN else s64 (uint q))"
    by (simp add: rescale_wide_def m q_def)
  have zero: "(18446744073709551616 :: u64) = 0" by simp
  show ?thesis
  proof (cases "uint hi < c")
    case True
    have "q = word_of_int (?N div c)"
      using rescale_div128_quotient [of hi ?c 64 lo t] True c N
      by (simp add: q_def mod_pos_pos_trivial uint_lt64 zero)
    moreover have nn: "0 \<le> ?N div c" "?N div c < 2 ^ 64"
      using assms True N uint_lt64 [of lo] by (simp_all add: pos_imp_zdiv_nonneg_iff zdiv_less_iff)
    ultimately have "uint q = ?N div c" by (simp add: uint_word_of_int mod_pos_pos_trivial)
    then show ?thesis unfolding w using nn by (simp add: word_less_def is_s64_def)
  next
    case False
    moreover have "0 \<le> uint lo" by simp
    ultimately have "c * 18446744073709551616 \<le> uint hi * 18446744073709551616 + uint lo" by linarith
    then have big: "2 ^ 64 * c \<le> ?N" using N by simp
    have hi: "uint hi < 2 ^ 63"
    proof -
      have "a * b \<le> (2 ^ 63 - 1) * (2 ^ 63 - 1)"
        using assms by (intro mul_bound) (simp_all add: is_s64_def)
      then have "a * b + r < 9223372036854775808 * 18446744073709551616"
        using assms(7) by (simp add: is_s64_def)
      moreover have "uint hi * 18446744073709551616 + uint lo = a * b + r" "0 \<le> uint lo"
        using N by simp_all
      ultimately have "uint hi * 18446744073709551616 < 9223372036854775808 * 18446744073709551616"
        by linarith
      then show ?thesis by simp
    qed
    define A where "A = hi + (hi + (shr lo 63 AND 1))"
    have "uint A = 2 * uint hi + uint lo div 2 ^ 63 mod 2"
      unfolding A_def using hi by (simp add: uint_word_ariths shr_bit mod_pos_pos_trivial)
    moreover have "0 \<le> uint hi" "0 \<le> uint lo div 2 ^ 63 mod 2" by simp_all
    ultimately have "c \<le> uint A" using False by linarith
    then have "?c \<le> A" using c(1) by (simp add: word_le_def)
    moreover have "q = rescale_div128 (Suc 63) lo hi t ?c" by (simp add: q_def)
    ultimately have "q = rescale_div128 63 lo (A - ?c) (t + t + 1) ?c"
      by (simp only: rescale_div128.simps Let_def A_def [symmetric] if_True)
    moreover have "bit (t + t + 1) 0" by (simp add: bit_0)
    ultimately have "bit q 63" using rescale_div128_top [of "t + t + 1" 0 63] by simp
    then have "bit (uint q) 63" by (simp add: bit_uint_iff)
    then have "odd (uint q div 2 ^ 63)" unfolding bit_iff_odd .
    then have "1 \<le> uint q div 2 ^ 63"
      using pos_imp_zdiv_nonneg_iff [of "2 ^ 63" "uint q"] by (cases "uint q div 2 ^ 63 = 0") auto
    then have "2 ^ 63 \<le> uint q" by (simp add: le_zdiv_iff)
    moreover have "2 ^ 64 \<le> ?N div c" using big assms by (simp add: le_zdiv_iff)
    ultimately show ?thesis unfolding w by (simp add: word_less_def)
  qed
qed

section \<open>The routine on nonnegative values\<close>

text \<open>The amount added before dividing.\<close>

definition rounding_bias :: "int \<Rightarrow> int \<Rightarrow> int" where
  "rounding_bias rnd c = (if rnd = AV_ROUND_NEAR_INF then c div 2 else if rnd AND 1 \<noteq> 0 then c - 1 else 0)"

lemma rounding_bias_range: "0 < c \<Longrightarrow> 0 \<le> rounding_bias rnd c \<and> rounding_bias rnd c < c"
  by (auto simp: rounding_bias_def)

lemma rescale_bias:
  assumes "is_s64 c" "0 < c"
  shows "(if rnd = AV_ROUND_NEAR_INF then c sdiv 2 else if rnd AND 1 \<noteq> 0 then s64 (c - 1) else 0) =
    rounding_bias rnd c"
  using assms by (auto simp: rounding_bias_def is_s64_def)

text \<open>The split of a large \<open>a\<close> into a quotient and a remainder by \<open>c\<close> loses nothing.\<close>

lemma div_split: "0 < c \<Longrightarrow> (a * b + r) div c = a div c * b + (a mod c * b + r) div c" for a b c r :: int
proof -
  assume "0 < c"
  have "a * b = (a div c * c + a mod c) * b" by simp
  then have "a * b + r = (a mod c * b + r) + (a div c * b) * c" by (simp only: algebra_simps)
  then show ?thesis using \<open>0 < c\<close> by (metis div_mult_self1 less_irrefl)
qed

lemma rescale_nonneg_exact:
  fixes a b c rnd :: int
  assumes "is_s64 a" "0 \<le> a" "is_s64 b" "0 \<le> b" "is_s64 c" "0 < c"
  defines "q \<equiv> (a * b + rounding_bias rnd c) div c"
  shows "rescale_nonneg a b c rnd = (if q \<le> INT64_MAX then q else INT64_MIN)"
proof -
  define r where "r = rounding_bias rnd c"
  have r: "0 \<le> r" "r < c" using rounding_bias_range [OF assms(6), of rnd] by (simp_all add: r_def)
  note unfolded = rescale_nonneg_def rescale_bias [OF assms(5,6)] r_def [symmetric] Let_def
  consider (small) "b \<le> INT_MAX" "c \<le> INT_MAX" "a \<le> INT_MAX"
    | (split) "b \<le> INT_MAX" "c \<le> INT_MAX" "INT_MAX < a" | (wide) "\<not> (b \<le> INT_MAX \<and> c \<le> INT_MAX)"
    by linarith
  then show ?thesis
  proof cases
    case small
    have ab: "0 \<le> a * b" "a * b \<le> INT_MAX * INT_MAX"
      using mul_bound [of a INT_MAX b INT_MAX] small assms by simp_all
    then have "is_s64 (a * b)" "is_s64 (a * b + r)" using r small by (simp_all add: is_s64_def)
    moreover have "q \<le> a * b + r" unfolding q_def r_def [symmetric]
      using ab r assms(6) zdiv_mono2 [of "a * b + r" 1 c] by simp
    ultimately show ?thesis using small ab r assms(6) by (simp add: unfolded q_def is_s64_def)
  next
    case split
    define ad a2 where "ad = a div c" and "a2 = (a mod c * b + r) div c"
    have q: "q = ad * b + a2" unfolding q_def ad_def a2_def r_def using assms(6) by (rule div_split)
    have m: "0 \<le> a mod c * b" "a mod c * b \<le> (c - 1) * b"
      using assms by (simp_all add: mult_right_mono)
    have m2: "a mod c * b + r < (b + 1) * c" using m r assms(4) by (simp add: algebra_simps)
    have "a2 < b + 1" unfolding a2_def zdiv_less_iff [OF assms(6)] by (rule m2)
    then have a2: "0 \<le> a2" "a2 \<le> b"
      using m r assms(6) by (simp_all add: a2_def pos_imp_zdiv_nonneg_iff)
    have ad: "0 \<le> ad" using assms by (simp add: ad_def pos_imp_zdiv_nonneg_iff)
    have "(c - 1) * b \<le> INT_MAX * INT_MAX" using split assms by (intro mul_bound) simp_all
    then have fits: "is_s64 (a mod c * b)" "is_s64 (a mod c * b + r)"
      using m r split by (simp_all add: is_s64_def)
    have code: "rescale_nonneg a b c rnd =
        (if ad \<ge> INT_MAX \<and> b \<noteq> 0 \<and> ad > (INT64_MAX - a2) div b then INT64_MIN
         else s64 (s64 (ad * b) + a2))"
      using split assms m r fits a2
      by (simp add: unfolded is_s64_def flip: ad_def a2_def)
    have over: "(INT64_MAX - a2) div b < ad \<longleftrightarrow> INT64_MAX < q" if "b \<noteq> 0"
      using that assms(4) by (auto simp: q zdiv_less_iff)
    have small: "q \<le> INT64_MAX" if "ad < INT_MAX \<or> b = 0"
    proof (cases "b = 0")
      case False
      with that have "ad * b \<le> (INT_MAX - 1) * INT_MAX"
        using split assms ad by (intro mul_bound) simp_all
      then show ?thesis using a2 split by (simp add: q)
    qed (use a2 in \<open>simp add: q\<close>)
    show ?thesis
    proof (cases "q \<le> INT64_MAX")
      case True
      have "0 \<le> ad * b" using ad assms(4) by simp
      then have "is_s64 (ad * b)" "is_s64 q" using True a2 unfolding q by (simp_all add: is_s64_def)
      then have "s64 (s64 (ad * b) + a2) = q" by (simp add: q)
      then show ?thesis using True over unfolding code by auto
    next
      case False
      then have "INT_MAX \<le> ad" "b \<noteq> 0" using small by linarith+
      then show ?thesis using False over by (simp add: code)
    qed
  next
    case wide
    have "is_s64 r" using r assms(5) by (simp add: is_s64_def)
    moreover have "rescale_nonneg a b c rnd = rescale_wide a b c r"
      unfolding unfolded using wide by (simp only: if_False)
    ultimately show ?thesis using r by (simp add: rescale_wide_exact assms(1-6) q_def r_def)
  qed
qed

section \<open>Every rounding mode\<close>

lemma near_quotient: "0 < c \<Longrightarrow> (x + c div 2) div c = (2 * x + c) div (2 * c)" for x c :: int
  using zdiv_zmult2_eq [of 2 "2 * x + c" c] zdiv_zmult2_eq [of c "2 * x + c" 2]
  by (simp add: zdiv_zmult2_eq [of c])

lemma up_quotient: "0 < c \<Longrightarrow> (x + (c - 1)) div c = - (- x div c)" for x c :: int
proof -
  assume c: "0 < c"
  define y where "y = (x + (c - 1)) div c"
  have "y * c \<le> x + (c - 1)" "x + (c - 1) < (y + 1) * c"
    using le_zdiv_iff [OF c, of y "x + (c - 1)"] zdiv_less_iff [OF c, of "x + (c - 1)" "y + 1"]
    by (simp_all add: y_def)
  then have "- y \<le> - x div c" "- x div c < - y + 1"
    unfolding le_zdiv_iff [OF c] zdiv_less_iff [OF c] by (simp_all add: algebra_simps)
  then show ?thesis by (simp add: y_def)
qed

lemma rounding_cases:
  assumes "rnd \<in> {AV_ROUND_ZERO, AV_ROUND_INF, AV_ROUND_DOWN, AV_ROUND_UP, AV_ROUND_NEAR_INF}"
  shows "rounding_ok rnd" "rnd AND AV_ROUND_PASS_MINMAX = 0" 
    "rnd XOR ((rnd div 2) AND 1) \<in> {AV_ROUND_ZERO, AV_ROUND_INF, AV_ROUND_DOWN, AV_ROUND_UP, AV_ROUND_NEAR_INF}"
  using assms by (auto simp: rounding_defs rounding_ok_def)

text \<open>On nonnegative values the bias gives the rounding; negating swaps up and down.\<close>

lemma rounded_quotient_bias:
  assumes "0 \<le> x" "0 < c"
    and "rnd \<in> {AV_ROUND_ZERO, AV_ROUND_INF, AV_ROUND_DOWN, AV_ROUND_UP, AV_ROUND_NEAR_INF}"
  shows "rounded_quotient rnd x c = (x + rounding_bias rnd c) div c"
  using assms(3)
proof (cases "x = 0")
  case True
  then show ?thesis
    using rounding_bias_range [OF assms(2), of rnd]
    by (simp add: rounded_quotient_def)
next
  case False
  then show ?thesis
    using assms up_quotient [OF assms(2), of x] near_quotient [OF assms(2), of x]
    by (auto simp: rounded_quotient_def rounding_bias_def rounding_defs add_diff_eq)
qed

lemma rounded_quotient_minus:
  assumes "rnd \<in> {AV_ROUND_ZERO, AV_ROUND_INF, AV_ROUND_DOWN, AV_ROUND_UP, AV_ROUND_NEAR_INF}"
  shows "rounded_quotient rnd (- x) c = - rounded_quotient (rnd XOR ((rnd div 2) AND 1)) x c"
  using assms by (auto simp: rounded_quotient_def rounding_defs)

lemma fit64_minus: "s64 (- fit64 q) = fit64 (- q)"
proof (cases "\<bar>q\<bar> \<le> INT64_MAX")
  case True
  then show ?thesis by (simp add: fit64_def is_s64_def abs_le_iff)
next
  case False
  then show ?thesis by (simp add: fit64_def s64_def)
qed

lemma av_rescale_rnd_exact:
  assumes "is_s64 a" "a \<noteq> INT64_MIN" "is_s64 b" "0 \<le> b" "is_s64 c" "0 < c"
    and "rnd \<in> {AV_ROUND_ZERO, AV_ROUND_INF, AV_ROUND_DOWN, AV_ROUND_UP, AV_ROUND_NEAR_INF}"
  shows "av_rescale_rnd a b c rnd = fit64 (rounded_quotient rnd (a * b) c)"
proof -
  have nonneg: "av_rescale_rnd x b c m = fit64 (rounded_quotient m (x * b) c)"
    if x: "0 \<le> x" "is_s64 x"
      and m: "m \<in> {AV_ROUND_ZERO, AV_ROUND_INF, AV_ROUND_DOWN, AV_ROUND_UP, AV_ROUND_NEAR_INF}"
    for x m
  proof -
    define q where "q = (x * b + rounding_bias m c) div c"
    have "0 \<le> q"
      using x assms(4,6) rounding_bias_range [OF assms(6), of m]
      by (simp add: q_def pos_imp_zdiv_nonneg_iff)
    moreover have "rounded_quotient m (x * b) c = q"
      using rounded_quotient_bias [of "x * b" c m] x m assms(4,6) by (simp add: q_def)
    ultimately show ?thesis
      using rescale_nonneg_exact [OF x(2,1) assms(3,4,5,6), of m] rounding_cases [OF m] assms(4,6) x
      by (subst av_rescale_rnd.simps) (simp add: fit64_def q_def)
  qed
  show ?thesis
  proof (cases "0 \<le> a")
    case True
    then show ?thesis using nonneg assms(1,7) by blast
  next
    case False
    then have a: "INT64_MIN < a" "a < 0" using assms(1,2) by (simp_all add: is_s64_def)
    note r = rounding_cases [OF assms(7)]
    have "av_rescale_rnd a b c rnd = s64 (- av_rescale_rnd (- a) b c (rnd XOR ((rnd div 2) AND 1)))"
      using a r assms(4,6) by (subst av_rescale_rnd.simps) simp
    also have "\<dots> = fit64 (rounded_quotient rnd (a * b) c)"
      using a nonneg [OF _ _ r(3), of "- a"] rounded_quotient_minus [OF assms(7), of "- (a * b)" c]
      by (simp add: is_s64_def fit64_minus)
    finally show ?thesis .
  qed
qed

text \<open>C1: for a nonnegative multiplier, a positive divisor and any of the five rounding modes,
  \<open>av_rescale_rnd\<close> computes \<open>a * b / c\<close> rounded in that mode, whichever of its three arithmetic routes the
  sizes select, and \<open>INT64_MIN\<close> exactly when the rounded quotient is outside the symmetric range of
  \<open>int64_t\<close>; no step overflows on the way.\<close>

theorem av_rescale_rnd_correct:
  assumes "is_s64 a" "a \<noteq> INT64_MIN" "is_s64 b" "0 \<le> b" "is_s64 c" "0 < c"
    and "rnd \<in> {AV_ROUND_ZERO, AV_ROUND_INF, AV_ROUND_DOWN, AV_ROUND_UP, AV_ROUND_NEAR_INF}"
  shows "av_rescale_rnd a b c rnd = fit64 (rounded_quotient rnd (a * b) c)"
  using assms by (rule av_rescale_rnd_exact)

theorem av_rescale_rnd_correct_witness:
  "av_rescale_rnd (- 9223372036854775807) 9223372036854775807 9223372036854775806 AV_ROUND_DOWN =
   INT64_MIN"
  using av_rescale_rnd_correct [of "- 9223372036854775807" 9223372036854775807 9223372036854775806
      AV_ROUND_DOWN]
  by (simp add: is_s64_def rounding_defs rounded_quotient_def fit64_def)

text \<open>C36: the remaining inputs of \<open>av_rescale_rnd\<close>. A nonpositive divisor, a negative multiplier or an unknown
  rounding mode gives \<open>INT64_MIN\<close>; with \<open>AV_ROUND_PASS_MINMAX\<close> the two extreme values pass through
  unchanged and every other value is rescaled as without the flag; and without the flag \<open>INT64_MIN\<close>
  is rescaled as if it were \<open>-INT64_MAX\<close>.\<close>

theorem av_rescale_rnd_special:
  fixes a b c rnd :: int
  shows "(c \<le> 0 \<or> b < 0 \<or> \<not> rounding_ok rnd \<longrightarrow> av_rescale_rnd a b c rnd = INT64_MIN) \<and>
    (0 < c \<and> 0 \<le> b \<and>
     rnd \<in> {AV_ROUND_ZERO, AV_ROUND_INF, AV_ROUND_DOWN, AV_ROUND_UP, AV_ROUND_NEAR_INF} \<longrightarrow>
     av_rescale_rnd a b c (rnd OR AV_ROUND_PASS_MINMAX) =
       (if a = INT64_MIN \<or> a = INT64_MAX then a else av_rescale_rnd a b c rnd) \<and>
     av_rescale_rnd INT64_MIN b c rnd = av_rescale_rnd (- INT64_MAX) b c rnd)"
proof -
  have "av_rescale_rnd a b c (rnd OR AV_ROUND_PASS_MINMAX) =
      (if a = INT64_MIN \<or> a = INT64_MAX then a else av_rescale_rnd a b c rnd)"
    if "0 < c" "0 \<le> b" and
      "rnd \<in> {AV_ROUND_ZERO, AV_ROUND_INF, AV_ROUND_DOWN, AV_ROUND_UP, AV_ROUND_NEAR_INF}"
    using that
    by (elim insertE; simp add: av_rescale_rnd.simps [of a] rounding_defs rounding_ok_def)
  moreover have "av_rescale_rnd INT64_MIN b c rnd = av_rescale_rnd (- INT64_MAX) b c rnd"
    if "0 < c" "0 \<le> b" and
      "rnd \<in> {AV_ROUND_ZERO, AV_ROUND_INF, AV_ROUND_DOWN, AV_ROUND_UP, AV_ROUND_NEAR_INF}"
    using that rounding_cases [OF that(3)]
    by (simp add: av_rescale_rnd.simps [of INT64_MIN] av_rescale_rnd.simps [of "- INT64_MAX"])
  moreover have "c \<le> 0 \<or> b < 0 \<or> \<not> rounding_ok rnd \<Longrightarrow> av_rescale_rnd a b c rnd = INT64_MIN"
    by (simp add: av_rescale_rnd.simps)
  ultimately show ?thesis by blast
qed

theorem av_rescale_rnd_special_witness:
  "av_rescale_rnd 7 3 0 AV_ROUND_ZERO = INT64_MIN \<and>
   av_rescale_rnd INT64_MIN 1 2 (AV_ROUND_UP OR AV_ROUND_PASS_MINMAX) = INT64_MIN"
  using av_rescale_rnd_special [of 0 3 AV_ROUND_ZERO 7] av_rescale_rnd_special [of 2 1 AV_ROUND_UP INT64_MIN]
  by (simp add: rounding_defs)

end
