(* ===== verification/AvReduce.thy ===== *)
theory AvReduce imports AvGcd
begin

text \<open>
  \<open>av_reduce\<close> of \<open>libavutil/rational.c\<close>: lowest terms when they fit below \<open>max\<close>, and otherwise a continued
  fraction expansion cut off at \<open>max\<close>. The result is shown to be the best approximation with
  numerator and denominator up to \<open>max\<close>.
\<close>

section \<open>The code\<close>

record AVRational =
  q_num :: int
  q_den :: int

abbreviation Q :: "int \<Rightarrow> int \<Rightarrow> AVRational" where
  "Q n d \<equiv> \<lparr>q_num = n, q_den = d\<rparr>"

text \<open>\<open>uint64_t\<close> arithmetic on the mixed expressions.\<close>

definition u64 :: "int \<Rightarrow> int" where
  "u64 x = x mod 2 ^ 64"

lemma abs_s64_le: "\<bar>s64 x\<bar> \<le> \<bar>x\<bar>"
proof (cases "is_s64 x")
  case False
  then show ?thesis using s64_range [of x] by (auto simp: is_s64_def)
qed simp

lemma s64_u64_mult: "s64 (n - d * u64 x) = s64 (n - d * x)"
proof -
  have "(n - d * (x mod 2 ^ 64)) mod 2 ^ 64 = (n - d * x) mod 2 ^ 64"
    by (metis mod_diff_right_eq mod_mult_right_eq)
  then have "take_bit (Suc 63) (n - d * u64 x) = take_bit (Suc 63) (n - d * x)"
    by (simp add: u64_def take_bit_eq_mod)
  then show ?thesis unfolding s64_def by (rule signed_take_bit_eq_iff_take_bit_eq [THEN iffD2])
qed

lemma abs_smod_less: "d \<noteq> 0 \<Longrightarrow> \<bar>n - d * (n sdiv d)\<bar> < \<bar>d\<bar>" for n d :: int
proof -
  assume d: "d \<noteq> 0"
  have "n - d * (n sdiv d) = sgn n * (\<bar>n\<bar> mod \<bar>d\<bar>)"
    using minus_mult_div_eq_mod [of "\<bar>n\<bar>" "\<bar>d\<bar>"]
    by (cases n "0 :: int" rule: linorder_cases; cases d "0 :: int" rule: linorder_cases)
      (simp_all add: signed_divide_int_def)
  then show ?thesis using d by (simp add: abs_mult sgn_if)
qed

text \<open>\<open>while (den)\<close>: the last two convergents \<open>a0\<close> and \<open>a1\<close> are pairs; the result is the fraction chosen and
  the \<open>den\<close> the loop is left with.\<close>

function reduce_loop :: "int \<Rightarrow> int \<Rightarrow> int \<times> int \<Rightarrow> int \<times> int \<Rightarrow> int \<Rightarrow> (int \<times> int) \<times> int" where
  "reduce_loop num den (a0n, a0d) (a1n, a1d) mx =
     (if den = 0 then ((a1n, a1d), den)
      else let x = u64 (num sdiv den);
               next_den = s64 (num - den * x);
               a2n = s64 (x * a1n + a0n);
               a2d = s64 (x * a1d + a0d)
           in if a2n > mx \<or> a2d > mx then
                let x = (if a1n \<noteq> 0 then u64 ((mx - a0n) sdiv a1n) else x);
                    x = (if a1d \<noteq> 0 then FFMIN x (u64 ((mx - a0d) sdiv a1d)) else x)
                in if u64 (den * (2 * x * a1d + a0d)) > u64 (num * a1d)
                   then ((s32 (x * a1n + a0n), s32 (x * a1d + a0d)), den)
                   else ((a1n, a1d), den)
              else reduce_loop den next_den (a1n, a1d) (s32 a2n, s32 a2d) mx)"
  by pat_completeness auto
termination
proof (relation "measure (\<lambda>(n, d, a0, a1, m). nat \<bar>d\<bar>)", goal_cases)
  case (2 num den a0n a0d a1n a1d mx x nd a2n a2d)
  have "\<bar>s64 (num - den * u64 (num sdiv den))\<bar> < \<bar>den\<bar>"
    using abs_smod_less [OF 2(1), of num] abs_s64_le [of "num - den * (num sdiv den)"]
    by (simp add: s64_u64_mult)
  with 2 show ?case by simp
qed simp

declare reduce_loop.simps [simp del]

definition av_reduce :: "int \<Rightarrow> int \<Rightarrow> int \<Rightarrow> (int \<times> int \<times> bool) option" where
  "av_reduce num den mx =
     do { let sign = ((num < 0) \<noteq> (den < 0));
          gcd \<leftarrow> av_gcd (FFABS num) (FFABS den);
          let (num, den) = (if gcd \<noteq> 0 then (FFABS num sdiv gcd, FFABS den sdiv gcd) else (num, den));
          let (a1, den') =
            (if num \<le> mx \<and> den \<le> mx then reduce_loop num 0 (0, 1) (s32 num, s32 den) mx
             else reduce_loop num den (0, 1) (1, 0) mx);
          Some (if sign then s32 (- fst a1) else fst a1, snd a1, den' = 0) }"

section \<open>The invariant of the expansion\<close>

text \<open>\<open>N / D\<close> is the fraction to approximate; the remainders \<open>n\<close>, \<open>d\<close> and the convergents recover it, and the
  convergents stay below the bound.\<close>

definition reduce_inv :: "int \<Rightarrow> int \<Rightarrow> int \<Rightarrow> int \<Rightarrow> int \<Rightarrow> int \<times> int \<Rightarrow> int \<times> int \<Rightarrow> bool" where
  "reduce_inv N D mx n d a0 a1 \<longleftrightarrow>
     0 \<le> n \<and> 0 \<le> d \<and> coprime n d \<and> is_s64 n \<and> is_s64 d \<and>
     0 \<le> fst a0 \<and> fst a0 \<le> mx \<and> 0 \<le> snd a0 \<and> snd a0 \<le> mx \<and>
     0 \<le> fst a1 \<and> fst a1 \<le> mx \<and> 0 \<le> snd a1 \<and> snd a1 \<le> mx \<and>
     N = fst a1 * n + fst a0 * d \<and> D = snd a1 * n + snd a0 * d \<and>
     \<bar>fst a1 * snd a0 - fst a0 * snd a1\<bar> = 1"

text \<open>How good \<open>r / s\<close> is: nothing with parts up to \<open>mx\<close> is closer to \<open>N / D\<close>.\<close>

definition best_below :: "int \<Rightarrow> int \<Rightarrow> int \<Rightarrow> int \<Rightarrow> int \<Rightarrow> bool" where
  "best_below N D mx r s \<longleftrightarrow>
     (\<forall>p q. 0 \<le> p \<and> p \<le> mx \<and> 0 < q \<and> q \<le> mx \<longrightarrow> \<bar>N * s - D * r\<bar> * q \<le> \<bar>N * q - D * p\<bar> * s)"

lemma term_bound:
  assumes "0 \<le> a1" "0 \<le> a0" "0 < d" "0 \<le> x" "x * d \<le> n"
  shows "x * a1 + a0 \<le> a1 * n + a0 * (d :: int)"
proof -
  have "x * a1 + a0 \<le> (x * a1 + a0) * d"
    using assms mult_left_mono [of 1 d "x * a1 + a0"] by simp
  also have "\<dots> = a1 * (x * d) + a0 * d" by (simp add: algebra_simps)
  also have "\<dots> \<le> a1 * n + a0 * d" using assms by (simp add: mult_left_mono)
  finally show ?thesis .
qed

text \<open>The number of whole steps the bound leaves room for, as the code computes it at the cut.\<close>

definition cut_steps :: "int \<Rightarrow> int \<Rightarrow> int \<times> int \<Rightarrow> int \<times> int \<Rightarrow> int" where
  "cut_steps mx x a0 a1 =
     (let z = (if fst a1 \<noteq> 0 then (mx - fst a0) div fst a1 else x)
      in if snd a1 \<noteq> 0 then min z ((mx - snd a0) div snd a1) else z)"

lemma cut_steps:
  assumes "0 \<le> a0n" "a0n \<le> mx" "0 \<le> a0d" "a0d \<le> mx" "0 \<le> a1n" "0 \<le> a1d" "a1n \<noteq> 0 \<or> a1d \<noteq> 0"
    and over: "x * a1n + a0n > mx \<or> x * a1d + a0d > mx" and "0 \<le> x"
  defines "y \<equiv> cut_steps mx x (a0n, a0d) (a1n, a1d)"
  shows "0 \<le> y" and "y \<le> x" and "y * a1n + a0n \<le> mx" and "y * a1d + a0d \<le> mx"
    and "1 \<le> t \<Longrightarrow> s * a1n + t * a0n \<le> mx \<Longrightarrow> s * a1d + t * a0d \<le> mx \<Longrightarrow> s \<le> y"
proof -
  have n: "q \<le> (mx - a0n) div a1n \<longleftrightarrow> q * a1n + a0n \<le> mx" if "a1n \<noteq> 0" for q
    using that assms(5) by (auto simp: le_zdiv_iff)
  have d: "q \<le> (mx - a0d) div a1d \<longleftrightarrow> q * a1d + a0d \<le> mx" if "a1d \<noteq> 0" for q
    using that assms(6) by (auto simp: le_zdiv_iff)
  have y: "q \<le> y \<longleftrightarrow> q * a1n + a0n \<le> mx \<and> q * a1d + a0d \<le> mx" for q
  proof (cases "a1n = 0")
    case True
    have *: "q \<le> x" if "q * a1d + a0d \<le> mx"
    proof (rule ccontr)
      assume "\<not> q \<le> x"
      then have "x * a1d \<le> q * a1d" using assms(6) by (simp add: mult_right_mono)
      then show False using that over True assms(2) by simp
    qed
    show ?thesis using True assms(2,7) d [of q] * by (auto simp: y_def cut_steps_def)
  next
    case False
    then show ?thesis using n [of q] d [of q] assms(4)
      by (cases "a1d = 0") (simp_all add: y_def cut_steps_def)
  qed
  show "0 \<le> y" using y [of 0] assms(2,4) by simp
  show yn: "y * a1n + a0n \<le> mx" and yd: "y * a1d + a0d \<le> mx" using y [of y] by simp_all
  show "y \<le> x"
  proof (rule ccontr)
    assume "\<not> y \<le> x"
    then have "x * a1n \<le> y * a1n" "x * a1d \<le> y * a1d" using assms(5,6) by (simp_all add: mult_right_mono)
    then show False using over yn yd by linarith
  qed
  show "s \<le> y" if "1 \<le> t" "s * a1n + t * a0n \<le> mx" "s * a1d + t * a0d \<le> mx"
  proof -
    have "a0n \<le> t * a0n" "a0d \<le> t * a0d"
      using that(1) assms(1,3) mult_right_mono [of 1 t a0n] mult_right_mono [of 1 t a0d] by simp_all
    then show ?thesis using that y [of s] by linarith
  qed
qed

text \<open>One turn of the loop, free of wrap-around.\<close>

lemma u64_id [simp]: "0 \<le> x \<Longrightarrow> x < 18446744073709551616 \<Longrightarrow> u64 x = x"
  by (simp add: u64_def mod_pos_pos_trivial)

lemma reduce_step:
  assumes inv: "reduce_inv N D mx n d (a0n, a0d) (a1n, a1d)" and "0 < d"
    and "N \<le> INT64_MAX" "D \<le> INT64_MAX" "mx \<le> INT_MAX"
  defines "x \<equiv> n div d" and "y \<equiv> cut_steps mx (n div d) (a0n, a0d) (a1n, a1d)"
  shows "reduce_loop n d (a0n, a0d) (a1n, a1d) mx =
    (if x * a1n + a0n > mx \<or> x * a1d + a0d > mx then
       (if d * (2 * y * a1d + a0d) > n * a1d then (y * a1n + a0n, y * a1d + a0d) else (a1n, a1d), d)
     else reduce_loop d (n mod d) (a1n, a1d) (x * a1n + a0n, x * a1d + a0d) mx)"
proof -
  note i = inv [unfolded reduce_inv_def fst_conv snd_conv]
  have x: "0 \<le> x" "x * d \<le> n" using i \<open>0 < d\<close>
    by (simp_all add: x_def pos_imp_zdiv_nonneg_iff minus_mod_eq_div_mult [symmetric])
  have "x \<le> n" using x \<open>0 < d\<close> mult_left_mono [of 1 d x] by simp
  then have xs: "x < 18446744073709551616" "u64 (n sdiv d) = x"
    using i x(1) \<open>0 < d\<close> by (simp_all add: is_s64_def flip: x_def)
  have a2: "0 \<le> x * a1n + a0n" "x * a1n + a0n \<le> INT64_MAX" "0 \<le> x * a1d + a0d" "x * a1d + a0d \<le> INT64_MAX"
    using term_bound [OF _ _ \<open>0 < d\<close> x, of a1n a0n] term_bound [OF _ _ \<open>0 < d\<close> x, of a1d a0d] i x assms(3,4)
    by simp_all
  have nd: "s64 (n - d * x) = n mod d"
    using i pos_mod_bound [OF \<open>0 < d\<close>, of n] pos_mod_sign [OF \<open>0 < d\<close>, of n]
    by (simp add: x_def minus_mult_div_eq_mod is_s64_def)
  show ?thesis
  proof (cases "x * a1n + a0n > mx \<or> x * a1d + a0d > mx")
    case False
    then have "s32 (x * a1n + a0n) = x * a1n + a0n" "s32 (x * a1d + a0d) = x * a1d + a0d"
      using a2 assms(5) by (simp_all add: is_s32_def)
    then show ?thesis
      using False \<open>0 < d\<close> a2 xs nd by (subst reduce_loop.simps) (simp add: Let_def is_s64_def)
  next
    case True
    have nz: "a1n \<noteq> 0 \<or> a1d \<noteq> 0" using i by auto
    note c = cut_steps [of a0n mx a0d a1n a1d x, folded y_def [folded x_def], OF _ _ _ _ _ _ nz True x(1)]
    have y: "0 \<le> y" "y \<le> x" "y * a1n + a0n \<le> mx" "y * a1d + a0d \<le> mx"
      using c(1-4) i by blast+
    have q: "u64 ((mx - a0) sdiv a1) = (mx - a0) div a1" if "0 \<le> a0" "a0 \<le> mx" "0 \<le> a1" "a1 \<noteq> 0" for a0 a1
    proof -
      have "0 \<le> (mx - a0) div a1" "(mx - a0) div a1 \<le> mx - a0"
        using that zdiv_mono2 [of "mx - a0" 1 a1] by (simp_all add: pos_imp_zdiv_nonneg_iff)
      then show ?thesis using that assms(5) by simp
    qed
    have cut: "(if a1d \<noteq> 0 then FFMIN (if a1n \<noteq> 0 then u64 ((mx - a0n) sdiv a1n) else x)
        (u64 ((mx - a0d) sdiv a1d)) else if a1n \<noteq> 0 then u64 ((mx - a0n) sdiv a1n) else x) = y"
      using i q by (simp add: y_def cut_steps_def x_def)
    have "d * y * a1d \<le> n * a1d"
      using y(1,2) x(2) \<open>0 < d\<close> i by (intro mult_right_mono order.trans [OF _ x(2)]) (simp_all add: mult.commute)
    then have dy: "0 \<le> d * (2 * y * a1d + a0d)" "d * (2 * y * a1d + a0d) \<le> n * a1d + D"
      using i \<open>0 < d\<close> y(1) by (simp_all add: algebra_simps)
    have "0 \<le> n * a1d" "n * a1d \<le> D" using i \<open>0 < d\<close> by (simp_all add: algebra_simps)
    with dy assms(4) have u: "u64 (d * (2 * y * a1d + a0d)) = d * (2 * y * a1d + a0d)" "u64 (n * a1d) = n * a1d"
      by simp_all
    have "0 \<le> y * a1n + a0n" "0 \<le> y * a1d + a0d" using i y(1) by simp_all
    then have s: "s32 (y * a1n + a0n) = y * a1n + a0n" "s32 (y * a1d + a0d) = y * a1d + a0d"
      using y(3,4) assms(5) by (simp_all add: is_s32_def)
    have a: "s64 (x * a1n + a0n) = x * a1n + a0n" "s64 (x * a1d + a0d) = x * a1d + a0d"
      using a2 by (simp_all add: is_s64_def)
    show ?thesis
      using True \<open>0 < d\<close>
      by (subst reduce_loop.simps)
        (simp only: xs(2) a u s cut Let_def if_True if_False less_imp_neq [symmetric] split: if_split, simp)
  qed
qed

section \<open>The cut is the best approximation\<close>

text \<open>Every fraction is an integer combination of the two convergents, and its distance to \<open>N / D\<close> is read
  off the coefficients.\<close>

lemma convergent_coords:
  fixes a0n a0d a1n a1d n d p q :: int
  assumes "\<bar>a1n * a0d - a0n * a1d\<bar> = 1"
  obtains s t where "p = s * a1n + t * a0n" "q = s * a1d + t * a0d"
    "\<bar>(a1n * n + a0n * d) * q - (a1d * n + a0d * d) * p\<bar> = \<bar>n * t - d * s\<bar>"
proof -
  define e where "e = a1n * a0d - a0n * a1d"
  have "\<bar>e\<bar> = 1" using assms by (simp add: e_def)
  then have e: "e * e = 1" "\<bar>e\<bar> = 1" by (auto simp: abs_if split: if_splits)
  let ?s = "e * (p * a0d - q * a0n)" and ?t = "e * (q * a1n - p * a1d)"
  have "?s * a1n + ?t * a0n = p * (e * e)" "?s * a1d + ?t * a0d = q * (e * e)"
    by (simp_all add: e_def algebra_simps)
  moreover have "n * ?t - d * ?s = e * ((a1n * n + a0n * d) * q - (a1d * n + a0d * d) * p)"
    by (simp add: algebra_simps)
  ultimately show thesis using e that [of ?s ?t] by (simp add: abs_mult)
qed

text \<open>Combinations with \<open>t \<ge> 1\<close> are no better than the cut, the others no better than the last convergent.\<close>

lemma cut_no_worse:
  fixes n d a0d a1d y s t :: int
  assumes "1 \<le> t" "s \<le> y" "0 \<le> n" "0 < d" "d * y \<le> n" "0 \<le> a1d" "0 \<le> a0d" "0 \<le> y"
  shows "(n - d * y) * (s * a1d + t * a0d) \<le> \<bar>n * t - d * s\<bar> * (y * a1d + a0d)"
proof -
  have ty: "y \<le> t * y" using assms(1,8) mult_right_mono [of 1 t y] by simp
  have "n \<le> n * t" using assms(1,3) mult_left_mono [of 1 t n] by simp
  moreover have "d * s \<le> d * y" using assms(2,4) by simp
  ultimately have "0 \<le> n * t - d * s" using assms(5) by linarith
  moreover have "(n * t - d * s) * (y * a1d + a0d) - (n - d * y) * (s * a1d + t * a0d) =
      (t * y - s) * (a1d * n + a0d * d)" by (simp add: algebra_simps)
  moreover have "0 \<le> (t * y - s) * (a1d * n + a0d * d)" using assms ty by simp
  ultimately show ?thesis by simp
qed

lemma convergent_no_worse:
  fixes n d a0d a1d s t :: int
  assumes "t \<le> 0" "0 \<le> n" "0 < d" "0 \<le> a1d" "0 \<le> a0d" "0 < s * a1d + t * a0d"
  shows "d * (s * a1d + t * a0d) \<le> \<bar>n * t - d * s\<bar> * a1d" and "0 < a1d"
proof -
  have "t * a0d \<le> 0" using assms(1,5) by (simp add: mult_nonpos_nonneg)
  then have "0 < s * a1d" using assms(6) by linarith
  then show "0 < a1d" using assms(4) by (cases "a1d = 0") auto
  then have s: "0 < s" using \<open>0 < s * a1d\<close> by (simp add: zero_less_mult_iff)
  have "n * t \<le> 0" using assms(1,2) by (simp add: mult_nonneg_nonpos)
  moreover have "0 < d * s" using assms(3) s by simp
  ultimately have "\<bar>n * t - d * s\<bar> = d * s - n * t" by linarith
  moreover have "(d * s - n * t) * a1d - d * (s * a1d + t * a0d) = (- t) * (a1d * n + a0d * d)"
    by (simp add: algebra_simps)
  moreover have "0 \<le> (- t) * (a1d * n + a0d * d)" using assms by (intro mult_nonneg_nonneg) simp_all
  ultimately show "d * (s * a1d + t * a0d) \<le> \<bar>n * t - d * s\<bar> * a1d" by simp
qed

lemma compare_fractions:
  fixes e f g u v w :: int
  assumes "e * v \<le> f * u" "f * w \<le> g * v" "0 < v" "0 \<le> u" "0 \<le> w"
  shows "e * w \<le> g * u"
proof -
  have "(e * w) * v \<le> (f * u) * w" using mult_right_mono [OF assms(1,5)] by (simp add: ac_simps)
  also have "\<dots> \<le> (g * v) * u" using mult_right_mono [OF assms(2,4)] by (simp add: ac_simps)
  finally have "(e * w) * v \<le> (g * u) * v" by (simp add: ac_simps)
  then show ?thesis using assms(3) by simp
qed

lemma coprime_det: "\<bar>a * v - u * b\<bar> = 1 \<Longrightarrow> coprime a (b :: int)"
proof (rule coprimeI)
  fix c assume "\<bar>a * v - u * b\<bar> = 1" "c dvd a" "c dvd b"
  then show "is_unit c" by (metis abs_dvd_iff dvd_abs_iff dvd_diff dvd_mult dvd_mult2)
qed

lemma cut_best:
  assumes inv: "reduce_inv N D mx n d (a0n, a0d) (a1n, a1d)" and "0 < d" "0 < D"
    and over: "n div d * a1n + a0n > mx \<or> n div d * a1d + a0d > mx"
  defines "y \<equiv> cut_steps mx (n div d) (a0n, a0d) (a1n, a1d)"
  defines "r \<equiv> if d * (2 * y * a1d + a0d) > n * a1d then (y * a1n + a0n, y * a1d + a0d) else (a1n, a1d)"
  shows "0 \<le> fst r \<and> fst r \<le> mx \<and> 0 < snd r \<and> snd r \<le> mx \<and> coprime (fst r) (snd r) \<and>
    best_below N D mx (fst r) (snd r)"
proof -
  note i = inv [unfolded reduce_inv_def fst_conv snd_conv]
  define x where "x = n div d"
  have nz: "a1n \<noteq> 0 \<or> a1d \<noteq> 0" using i by auto
  have x: "0 \<le> x" "x * d \<le> n" using i \<open>0 < d\<close>
    by (simp_all add: x_def pos_imp_zdiv_nonneg_iff minus_mod_eq_div_mult [symmetric])
  note c = cut_steps [of a0n mx a0d a1n a1d x, folded y_def [folded x_def], OF _ _ _ _ _ _ nz
      over [folded x_def] x(1)]
  have y: "0 \<le> y" "y \<le> x" "y * a1n + a0n \<le> mx" "y * a1d + a0d \<le> mx"
    using c(1-4) i by blast+
  have "d * y \<le> d * x" using y(2) \<open>0 < d\<close> by simp
  then have dy: "d * y \<le> n" using x(2) by (simp add: mult.commute)
  define w where "w = y * a1d + a0d"
  have w0: "0 \<le> w" using i y(1) by (simp add: w_def)
  have test: "d * (2 * y * a1d + a0d) > n * a1d \<longleftrightarrow> (n - d * y) * a1d < d * w"
    by (simp add: w_def algebra_simps)
  have N: "N = a1n * n + a0n * d" "D = a1d * n + a0d * d" using i by simp_all
  have far_y: "\<bar>N * w - D * (y * a1n + a0n)\<bar> = n - d * y"
  proof -
    have "N * w - D * (y * a1n + a0n) = (n - d * y) * (a1n * a0d - a0n * a1d)"
      by (simp add: N w_def algebra_simps)
    then show ?thesis using i dy by (simp add: abs_mult)
  qed
  have far_1: "\<bar>N * a1d - D * a1n\<bar> = d"
  proof -
    have "N * a1d - D * a1n = - (d * (a1n * a0d - a0n * a1d))" by (simp add: N algebra_simps)
    then show ?thesis using i \<open>0 < d\<close> by (simp add: abs_mult)
  qed
  have room: "s \<le> y" if "1 \<le> t" "s * a1n + t * a0n \<le> mx" "s * a1d + t * a0d \<le> mx" for s t
    using c(5) that i by blast
  show ?thesis
  proof (cases "(n - d * y) * a1d < d * w")
    case True
    have "0 < d * w" by (rule le_less_trans [OF _ True]) (use i dy in simp)
    then have w: "0 < w" using \<open>0 < d\<close> by (simp add: zero_less_mult_iff)
    have "best_below N D mx (y * a1n + a0n) w"
      unfolding best_below_def far_y
    proof (intro allI impI)
      fix p q assume pq: "0 \<le> p \<and> p \<le> mx \<and> 0 < q \<and> q \<le> mx"
      obtain s t where st: "p = s * a1n + t * a0n" "q = s * a1d + t * a0d"
        "\<bar>N * q - D * p\<bar> = \<bar>n * t - d * s\<bar>"
        using i unfolding N by (blast intro: convergent_coords)
      show "(n - d * y) * q \<le> \<bar>N * q - D * p\<bar> * w"
      proof (cases "1 \<le> t")
        case True
        then show ?thesis unfolding st(3) unfolding st(2) w_def
          using i dy y(1) \<open>0 < d\<close> pq room [OF True] by (intro cut_no_worse) (simp_all add: st)
      next
        case False
        have b: "d * q \<le> \<bar>N * q - D * p\<bar> * a1d" "0 < a1d"
          using convergent_no_worse [of t n d a1d a0d s] False i \<open>0 < d\<close> pq unfolding st(3) unfolding st by simp_all
        show ?thesis by (rule compare_fractions [OF _ b(1,2)]) (use True w pq in simp_all)
      qed
    qed
    moreover have "coprime (y * a1n + a0n) w"
      by (rule coprime_det [of _ a1d a1n]) (use i in \<open>simp add: w_def algebra_simps abs_minus_commute\<close>)
    ultimately show ?thesis using True i y w w0 by (simp add: r_def test flip: w_def)
  next
    case False
    have w_le: "d * w \<le> (n - d * y) * a1d" using False by simp
    have best: "d * q \<le> \<bar>N * q - D * p\<bar> * a1d"
      if pq: "0 \<le> p \<and> p \<le> mx \<and> 0 < q \<and> q \<le> mx" for p q
    proof -
      obtain s t where st: "p = s * a1n + t * a0n" "q = s * a1d + t * a0d"
        "\<bar>N * q - D * p\<bar> = \<bar>n * t - d * s\<bar>"
        using i unfolding N by (blast intro: convergent_coords)
      show ?thesis
      proof (cases "1 \<le> t")
        case True
        have sy: "s \<le> y" using room [OF True] pq by (simp add: st)
        have b: "(n - d * y) * q \<le> \<bar>N * q - D * p\<bar> * w"
          unfolding st(3) unfolding st(2) w_def using i dy y(1) \<open>0 < d\<close> sy True by (intro cut_no_worse) simp_all
        have "0 < w"
        proof (rule ccontr)
          assume "\<not> 0 < w"
          then have w: "w = 0" using w0 by simp
          have "0 \<le> y * a1d" using i y(1) by simp
          then have "y * a1d = 0" "a0d = 0" using w i unfolding w_def by linarith+
          moreover have "s * a1d \<le> y * a1d" using sy i by (simp add: mult_right_mono)
          ultimately have "s * a1d \<le> 0" "a0d = 0" by linarith+
          then show False using pq by (simp add: st)
        qed
        then show ?thesis by (rule compare_fractions [OF w_le b]) (use pq i in simp_all)
      next
        case False
        then show ?thesis
          using convergent_no_worse [of t n d a1d a0d s] i \<open>0 < d\<close> pq unfolding st(3) unfolding st by simp
      qed
    qed
    have "0 < a1d"
    proof (rule ccontr)
      assume "\<not> 0 < a1d"
      then have "a1d = 0" using i by simp
      then have "d * w \<le> 0" "D = a0d * d" "w = a0d" using w_le N by (simp_all add: w_def)
      then show False using \<open>0 < D\<close> by (simp add: mult.commute)
    qed
    moreover have "coprime a1n a1d" by (rule coprime_det [of _ a0d a0n]) (use i in \<open>simp add: mult.commute\<close>)
    moreover have "best_below N D mx a1n a1d" unfolding best_below_def far_1 using best by blast
    ultimately show ?thesis using False i by (simp add: r_def test)
  qed
qed

text \<open>The loop keeps the invariant up to the cut, which a fraction that does not fit must reach.\<close>

lemma reduce_inv_step:
  assumes "reduce_inv N D mx n d (a0n, a0d) (a1n, a1d)" "0 < d" "mx \<le> INT_MAX"
    and "\<not> (n div d * a1n + a0n > mx \<or> n div d * a1d + a0d > mx)"
  shows "reduce_inv N D mx d (n mod d) (a1n, a1d) (n div d * a1n + a0n, n div d * a1d + a0d)"
proof -
  note i = assms(1) [unfolded reduce_inv_def fst_conv snd_conv]
  have x: "0 \<le> n div d" using i assms(2) by (simp add: pos_imp_zdiv_nonneg_iff)
  have m: "0 \<le> n mod d" "n mod d < d" using assms(2) by simp_all
  have e: "k * n = n div d * k * d + k * (n mod d)" for k
  proof -
    have "k * n = k * (n div d * d + n mod d)" by simp
    then show ?thesis by (simp only: algebra_simps)
  qed
  have "coprime d (n mod d)" using i gcd_red_int [of n d] by (simp only: coprime_iff_gcd_eq_1)
  moreover have "N = (n div d * a1n + a0n) * d + a1n * (n mod d)" "D = (n div d * a1d + a0d) * d + a1d * (n mod d)"
    unfolding distrib_right using i e [of a1n] e [of a1d] by linarith+
  moreover have "\<bar>(n div d * a1n + a0n) * a1d - a1n * (n div d * a1d + a0d)\<bar> = 1"
    using i by (simp add: algebra_simps abs_minus_commute)
  ultimately show ?thesis using i x m assms(4) by (auto simp: reduce_inv_def is_s64_def)
qed

lemma reduce_loop_best:
  assumes "reduce_inv N D mx n d a0 a1" "0 < D" "N \<le> INT64_MAX" "D \<le> INT64_MAX" "mx \<le> INT_MAX"
    and "N > mx \<or> D > mx"
  shows "\<exists>r s d'. reduce_loop n d a0 a1 mx = ((r, s), d') \<and> d' \<noteq> 0 \<and> 0 \<le> r \<and> r \<le> mx \<and> 0 < s \<and>
    s \<le> mx \<and> coprime r s \<and> best_below N D mx r s"
  using assms
proof (induction "nat d" arbitrary: n d a0 a1 rule: less_induct)
  case less
  obtain a0n a0d a1n a1d where a: "a0 = (a0n, a0d)" "a1 = (a1n, a1d)" by (cases a0; cases a1) auto
  note inv = less.prems(1) [unfolded a]
  note i = inv [unfolded reduce_inv_def fst_conv snd_conv]
  have "d \<noteq> 0"
  proof
    assume "d = 0"
    then have "\<bar>n\<bar> = 1" "0 \<le> n" using i by simp_all
    then have "n = 1" by simp
    then show False using i \<open>d = 0\<close> less.prems(6) by auto
  qed
  then have d: "0 < d" using i by simp
  note step = reduce_step [OF inv d less.prems(3,4,5)]
  show ?case
  proof (cases "n div d * a1n + a0n > mx \<or> n div d * a1d + a0d > mx")
    case True
    then show ?thesis
      using cut_best [OF inv d less.prems(2) True] \<open>d \<noteq> 0\<close> unfolding a step
      by (simp split: if_splits)
  next
    case False
    have "nat (n mod d) < nat d" using d by simp
    from less.hyps [OF this reduce_inv_step [OF inv d less.prems(5) False] less.prems(2-6)]
    show ?thesis using False unfolding a step by simp
  qed
qed

section \<open>What \<open>av_reduce\<close> returns\<close>

lemma av_gcd_abs:
  assumes "is_s64 num" "is_s64 den" "num \<noteq> INT64_MIN" "den \<noteq> INT64_MIN"
  shows "av_gcd (FFABS num) (FFABS den) = Some (gcd num den)"
proof -
  have a: "is_s64 \<bar>num\<bar>" "is_s64 \<bar>den\<bar>" using assms by (auto simp: is_s64_def)
  have "gcd num den \<le> \<bar>num\<bar> \<or> num = 0" using gcd_le1_int [of "\<bar>num\<bar>" den] by auto
  moreover have "0 \<le> gcd num den" by simp
  ultimately have "is_s64 (gcd num den)" if "num \<noteq> 0"
    using that a(1) unfolding is_s64_def by linarith
  then show ?thesis using av_gcd_correct [OF a] assms by (simp add: FFABS_abs)
qed

lemma av_reduce_exact_aux:
  assumes "is_s64 num" "is_s64 den" "num \<noteq> INT64_MIN" "den \<noteq> INT64_MIN" "0 \<le> mx" "mx \<le> INT_MAX"
    and "\<bar>num\<bar> \<le> mx * gcd num den" "\<bar>den\<bar> \<le> mx * gcd num den"
  shows "av_reduce num den mx =
    Some ((if (num < 0) \<noteq> (den < 0) then -1 else 1) * (\<bar>num\<bar> div gcd num den), \<bar>den\<bar> div gcd num den, True)"
proof -
  define g where "g = gcd num den"
  have g: "av_gcd (FFABS num) (FFABS den) = Some g" unfolding g_def using assms(1-4) by (rule av_gcd_abs)
  have fit: "\<bar>num\<bar> div g \<le> mx" "\<bar>den\<bar> div g \<le> mx" "0 \<le> \<bar>num\<bar> div g" "0 \<le> \<bar>den\<bar> div g" if "g \<noteq> 0"
  proof -
    have "0 < g" using that by (simp add: g_def)
    then show "\<bar>num\<bar> div g \<le> mx" "\<bar>den\<bar> div g \<le> mx" "0 \<le> \<bar>num\<bar> div g" "0 \<le> \<bar>den\<bar> div g"
      using assms(7,8) zdiv_mono1 [of "\<bar>num\<bar>" "mx * g" g] zdiv_mono1 [of "\<bar>den\<bar>" "mx * g" g]
      by (simp_all add: pos_imp_zdiv_nonneg_iff g_def)
  qed
  show ?thesis
  proof (cases "g = 0")
    case True
    then show ?thesis using g assms(5)
      by (simp add: av_reduce_def g_def reduce_loop.simps is_s32_def)
  next
    case False
    have "0 \<le> g" by (simp add: g_def)
    then show ?thesis using g fit [OF False] False assms
      by (simp add: av_reduce_def FFABS_abs reduce_loop.simps is_s32_def flip: g_def)
  qed
qed

text \<open>C30: a fraction whose lowest terms fit below the bound is returned in lowest terms, with the sign on the
  numerator and the flag for an exact result; \<open>0 / 0\<close> stays \<open>0 / 0\<close>.\<close>

theorem av_reduce_exact:
  assumes "is_s64 num" "is_s64 den" "num \<noteq> INT64_MIN" "den \<noteq> INT64_MIN" "0 \<le> mx" "mx \<le> INT_MAX"
    and "\<bar>num\<bar> \<le> mx * gcd num den" "\<bar>den\<bar> \<le> mx * gcd num den"
  shows "av_reduce num den mx =
    Some ((if (num < 0) \<noteq> (den < 0) then -1 else 1) * (\<bar>num\<bar> div gcd num den), \<bar>den\<bar> div gcd num den, True)"
  using assms by (rule av_reduce_exact_aux)

theorem av_reduce_exact_witness: "av_reduce (- 84) 36 1000 = Some (- 7, 3, True)"
  using av_reduce_exact [of "- 84" 36 1000] by (simp add: is_s64_def gcd_non_0_int)

lemma av_reduce_best_aux:
  assumes "is_s64 num" "is_s64 den" "num \<noteq> INT64_MIN" "den \<noteq> INT64_MIN" "1 \<le> mx" "mx \<le> INT_MAX"
    and "den \<noteq> 0" and "\<bar>num\<bar> > mx * gcd num den \<or> \<bar>den\<bar> > mx * gcd num den"
  shows "\<exists>n d. av_reduce num den mx = Some (n, d, False) \<and> \<bar>n\<bar> \<le> mx \<and> 0 < d \<and> d \<le> mx \<and> coprime n d \<and>
    (n \<noteq> 0 \<longrightarrow> ((n < 0) \<longleftrightarrow> ((num < 0) \<noteq> (den < 0)))) \<and> best_below \<bar>num\<bar> \<bar>den\<bar> mx \<bar>n\<bar> d"
proof -
  define g N D where "g = gcd num den" and "N = \<bar>num\<bar> div g" and "D = \<bar>den\<bar> div g"
  have "0 < g" using assms(7) by (simp add: g_def)
  have g: "av_gcd (FFABS num) (FFABS den) = Some g" unfolding g_def using assms(1-4) by (rule av_gcd_abs)
  have mult: "\<bar>num\<bar> = N * g" "\<bar>den\<bar> = D * g" by (simp_all add: N_def D_def g_def)
  have le: "N \<le> \<bar>num\<bar>" "D \<le> \<bar>den\<bar>" "0 \<le> N" "0 \<le> D"
    using \<open>0 < g\<close> zdiv_mono2 [of "\<bar>num\<bar>" 1 g] zdiv_mono2 [of "\<bar>den\<bar>" 1 g]
    by (simp_all add: N_def D_def pos_imp_zdiv_nonneg_iff)
  have "0 < D" using mult(2) assms(7) le(4) by (cases "D = 0") auto
  have range: "N \<le> INT64_MAX" "D \<le> INT64_MAX" using le assms(1-4) by (auto simp: is_s64_def)
  have big: "N > mx \<or> D > mx" using assms(8) \<open>0 < g\<close> by (simp add: mult flip: g_def)
  have "coprime \<bar>num div g\<bar> \<bar>den div g\<bar>"
    using assms(7) div_gcd_coprime [of num den] by (simp add: g_def)
  moreover have "N = \<bar>num div g\<bar>" "D = \<bar>den div g\<bar>"
    using \<open>0 < g\<close> by (simp_all add: N_def D_def g_def abs_div)
  ultimately have "coprime N D" by simp
  then have "reduce_inv N D mx N D (0, 1) (1, 0)"
    using le range \<open>1 \<le> mx\<close> by (simp add: reduce_inv_def is_s64_def)
  from reduce_loop_best [OF this \<open>0 < D\<close> range assms(6) big] obtain r s d'
    where l: "reduce_loop N D (0, 1) (1, 0) mx = ((r, s), d')" "d' \<noteq> 0"
      and r: "0 \<le> r" "r \<le> mx" "0 < s" "s \<le> mx" "coprime r s" "best_below N D mx r s" by blast
  let ?neg = "(num < 0) \<noteq> (den < 0)"
  have not_fit: "(N \<le> mx \<and> D \<le> mx) = False" using big by auto
  have code: "av_reduce num den mx = Some (if ?neg then - r else r, s, False)"
    using g \<open>0 < g\<close> assms(1-4,6) l r(1,2)
    by (simp add: av_reduce_def FFABS_abs is_s32_def not_fit flip: N_def D_def)
  have scale: "\<bar>N * g * u - D * g * v\<bar> = g * \<bar>N * u - D * v\<bar>" for u v
  proof -
    have "N * g * u - D * g * v = g * (N * u - D * v)" by (simp add: algebra_simps)
    then show ?thesis using \<open>0 < g\<close> by (simp add: abs_mult)
  qed
  have best: "best_below \<bar>num\<bar> \<bar>den\<bar> mx \<bar>if ?neg then - r else r\<bar> s"
    unfolding best_below_def
  proof (intro allI impI)
    fix p q assume "0 \<le> p \<and> p \<le> mx \<and> 0 < q \<and> q \<le> mx"
    then have "g * (\<bar>N * s - D * r\<bar> * q) \<le> g * (\<bar>N * q - D * p\<bar> * s)"
      using r(6) \<open>0 < g\<close> unfolding best_below_def by simp
    moreover have "\<bar>\<bar>num\<bar> * s - \<bar>den\<bar> * r\<bar> = g * \<bar>N * s - D * r\<bar>" "\<bar>\<bar>num\<bar> * q - \<bar>den\<bar> * p\<bar> = g * \<bar>N * q - D * p\<bar>"
      unfolding mult by (simp_all only: scale)
    ultimately show "\<bar>\<bar>num\<bar> * s - \<bar>den\<bar> * \<bar>if ?neg then - r else r\<bar>\<bar> * q \<le> \<bar>\<bar>num\<bar> * q - \<bar>den\<bar> * p\<bar> * s"
      using r(1) by (simp add: mult.assoc)
  qed
  show ?thesis
    by (rule exI [of _ "if ?neg then - r else r"], rule exI [of _ s]) (use code best r in auto)
qed

text \<open>C2: a fraction that does not fit is replaced, and flagged, by one in lowest terms with the same sign and
  both parts up to the bound, and no such fraction is closer to it: \<open>av_reduce\<close> returns a best
  rational approximation. The comparison of the two candidates is made in \<open>uint64_t\<close> and does not
  wrap.\<close>

theorem av_reduce_best_approximation:
  assumes "is_s64 num" "is_s64 den" "num \<noteq> INT64_MIN" "den \<noteq> INT64_MIN" "1 \<le> mx" "mx \<le> INT_MAX"
    and "den \<noteq> 0" and "\<bar>num\<bar> > mx * gcd num den \<or> \<bar>den\<bar> > mx * gcd num den"
  shows "\<exists>n d. av_reduce num den mx = Some (n, d, False) \<and> \<bar>n\<bar> \<le> mx \<and> 0 < d \<and> d \<le> mx \<and> coprime n d \<and>
    (n \<noteq> 0 \<longrightarrow> ((n < 0) \<longleftrightarrow> ((num < 0) \<noteq> (den < 0)))) \<and> best_below \<bar>num\<bar> \<bar>den\<bar> mx \<bar>n\<bar> d"
  using assms by (rule av_reduce_best_aux)

theorem av_reduce_best_approximation_witness:
  "\<exists>n d. av_reduce 31415926535 10000000000 1000 = Some (n, d, False) \<and> \<bar>n\<bar> \<le> 1000 \<and> 0 < d \<and>
    best_below 31415926535 10000000000 1000 \<bar>n\<bar> d"
  using av_reduce_best_approximation [of 31415926535 10000000000 1000]
  by (auto simp: is_s64_def gcd_non_0_int)

end
