(* ===== verification/AvRational.thy ===== *)
theory AvRational imports AvReduce AvRescale
begin

text \<open>
  \<open>libavutil/rational.c\<close> and the inline functions of \<open>rational.h\<close>: arithmetic and comparison of 32-bit
  fractions on top of \<open>av_reduce\<close>, and the search for the nearest entry of a table. The arithmetic is
  shown to return the closest representable fraction, comparison to be the sign of the difference.
\<close>

section \<open>The code\<close>

definition av_make_q :: "int \<Rightarrow> int \<Rightarrow> AVRational" where
  "av_make_q num den = Q num den"

definition av_inv_q :: "AVRational \<Rightarrow> AVRational" where
  "av_inv_q q = Q (q_den q) (q_num q)"

definition av_cmp_q :: "AVRational \<Rightarrow> AVRational \<Rightarrow> int" where
  "av_cmp_q a b =
     (let tmp = s64 (s64 (q_num a * q_den b) - s64 (q_num b * q_den a))
      in if tmp \<noteq> 0 then s32 ((tmp XOR q_den a XOR q_den b) div 2 ^ 63) OR 1
         else if q_den b \<noteq> 0 \<and> q_den a \<noteq> 0 then 0
         else if q_num a \<noteq> 0 \<and> q_num b \<noteq> 0 then q_num a div 2 ^ 31 - q_num b div 2 ^ 31
         else INT_MIN)"

definition av_mul_q :: "AVRational \<Rightarrow> AVRational \<Rightarrow> AVRational option" where
  "av_mul_q b c =
     do { (n, d, _) \<leftarrow> av_reduce (s64 (q_num b * q_num c)) (s64 (q_den b * q_den c)) INT_MAX;
          Some (Q n d) }"

definition av_div_q :: "AVRational \<Rightarrow> AVRational \<Rightarrow> AVRational option" where
  "av_div_q b c = av_mul_q b (Q (q_den c) (q_num c))"

definition av_add_q :: "AVRational \<Rightarrow> AVRational \<Rightarrow> AVRational option" where
  "av_add_q b c =
     do { (n, d, _) \<leftarrow> av_reduce (s64 (s64 (q_num b * q_den c) + s64 (q_num c * q_den b)))
                                 (s64 (q_den b * q_den c)) INT_MAX;
          Some (Q n d) }"

definition av_sub_q :: "AVRational \<Rightarrow> AVRational \<Rightarrow> AVRational option" where
  "av_sub_q b c = av_add_q b (Q (s32 (- q_num c)) (q_den c))"

definition av_nearer_q :: "AVRational \<Rightarrow> AVRational \<Rightarrow> AVRational \<Rightarrow> int" where
  "av_nearer_q q q1 q2 =
     (let a = s64 (s64 (q_num q1 * q_den q2) + s64 (q_num q2 * q_den q1));
          b = s64 (2 * q_den q1 * q_den q2);
          x_up = av_rescale_rnd a (q_den q) b AV_ROUND_UP;
          x_down = av_rescale_rnd a (q_den q) b AV_ROUND_DOWN
      in s32 ((of_bool (x_up > q_num q) - of_bool (x_down < q_num q)) * av_cmp_q q2 q1))"

text \<open>\<open>for (i = 0; q_list[i].den; i++)\<close> over a table that ends in an entry with denominator zero; the
  arguments are the rest of the table, \<open>i\<close>, and the best index so far with its entry.\<close>

fun find_nearest_q :: "AVRational \<Rightarrow> AVRational list \<Rightarrow> nat \<Rightarrow> nat \<Rightarrow> AVRational \<Rightarrow> nat" where
  "find_nearest_q q [] i best e = best"
| "find_nearest_q q (c # cs) i best e =
     (if q_den c = 0 then best
      else if av_nearer_q q c e > 0 then find_nearest_q q cs (i + 1) i c
      else find_nearest_q q cs (i + 1) best e)"

definition av_find_nearest_q_idx :: "AVRational \<Rightarrow> AVRational list \<Rightarrow> nat" where
  "av_find_nearest_q_idx q q_list = find_nearest_q q q_list 0 0 (q_list ! 0)"

definition av_gcd_q :: "AVRational \<Rightarrow> AVRational \<Rightarrow> int \<Rightarrow> AVRational \<Rightarrow> AVRational option" where
  "av_gcd_q a b max_den def =
     do { gcd \<leftarrow> av_gcd (q_den a) (q_den b);
          let lcm = s64 (q_den a sdiv gcd * q_den b);
          if lcm < max_den then do { n \<leftarrow> av_gcd (q_num a) (q_num b); Some (av_make_q (s32 n) (s32 lcm)) }
          else Some def }"

section \<open>Closest representable fractions\<close>

definition rational_ok :: "AVRational \<Rightarrow> bool" where
  "rational_ok q \<longleftrightarrow> is_s32 (q_num q) \<and> is_s32 (q_den q)"

text \<open>\<open>r\<close> is in lowest terms with a positive 32-bit denominator, has the sign of \<open>num / den\<close>, nothing
  representable is closer, and it is exact when the lowest terms of \<open>num / den\<close> are representable.\<close>

definition closest_rational :: "int \<Rightarrow> int \<Rightarrow> AVRational \<Rightarrow> bool" where
  "closest_rational num den r \<longleftrightarrow>
     \<bar>q_num r\<bar> \<le> INT_MAX \<and> 0 < q_den r \<and> q_den r \<le> INT_MAX \<and> coprime (q_num r) (q_den r) \<and>
     (q_num r \<noteq> 0 \<longrightarrow> ((q_num r < 0) \<longleftrightarrow> ((num < 0) \<noteq> (den < 0)))) \<and>
     best_below \<bar>num\<bar> \<bar>den\<bar> INT_MAX \<bar>q_num r\<bar> (q_den r) \<and>
     (\<bar>num\<bar> \<le> INT_MAX * gcd num den \<and> \<bar>den\<bar> \<le> INT_MAX * gcd num den \<longrightarrow>
      q_num r * den = num * q_den r)"

lemma av_reduce_closest:
  assumes "is_s64 num" "is_s64 den" "num \<noteq> INT64_MIN" "den \<noteq> INT64_MIN" "den \<noteq> 0"
  shows "\<exists>n d e. av_reduce num den INT_MAX = Some (n, d, e) \<and> closest_rational num den (Q n d)"
proof (cases "\<bar>num\<bar> \<le> INT_MAX * gcd num den \<and> \<bar>den\<bar> \<le> INT_MAX * gcd num den")
  case False
  then show ?thesis
    using av_reduce_best_aux [OF assms(1-4), of INT_MAX] assms(5)
    by (fastforce simp: closest_rational_def)
next
  case True
  define g where "g = gcd num den"
  have g: "0 < g" using assms(5) by (simp add: g_def)
  define s :: int where "s = (if (num < 0) \<noteq> (den < 0) then - 1 else 1)"
  define n d where "n = s * (\<bar>num\<bar> div g)" and "d = \<bar>den\<bar> div g"
  have code: "av_reduce num den INT_MAX = Some (n, d, True)"
    unfolding n_def d_def s_def g_def using True by (intro av_reduce_exact_aux assms) simp_all
  have mult: "\<bar>num\<bar> = \<bar>num\<bar> div g * g" "\<bar>den\<bar> = d * g" by (simp_all add: d_def g_def)
  have le: "0 \<le> \<bar>num\<bar> div g" "\<bar>num\<bar> div g \<le> INT_MAX" "0 \<le> d" "d \<le> INT_MAX"
    using g True zdiv_mono1 [of "\<bar>num\<bar>" "INT_MAX * g" g] zdiv_mono1 [of "\<bar>den\<bar>" "INT_MAX * g" g]
    by (simp_all add: pos_imp_zdiv_nonneg_iff d_def flip: g_def)
  have d: "0 < d" using mult(2) assms(5) le(3) by (cases "d = 0") auto
  have "coprime \<bar>num div g\<bar> \<bar>den div g\<bar>"
    using assms(5) div_gcd_coprime [of num den] by (simp add: g_def)
  moreover have "\<bar>num\<bar> div g = \<bar>num div g\<bar>" "d = \<bar>den div g\<bar>"
    using g by (simp_all add: d_def g_def abs_div)
  ultimately have cop: "coprime n d" by (simp add: n_def s_def)
  have "\<bar>num\<bar> * d = \<bar>den\<bar> * (\<bar>num\<bar> div g)" using mult by (metis mult.assoc mult.commute)
  then have best: "best_below \<bar>num\<bar> \<bar>den\<bar> INT_MAX \<bar>n\<bar> d"
    using d le by (simp add: best_below_def n_def abs_mult s_def)
  have "n * den = num * d"
    using \<open>\<bar>num\<bar> * d = \<bar>den\<bar> * (\<bar>num\<bar> div g)\<close>
    by (auto simp: n_def s_def abs_if ac_simps split: if_splits)
  moreover have "n \<noteq> 0 \<Longrightarrow> (n < 0) \<longleftrightarrow> ((num < 0) \<noteq> (den < 0))"
    using le(1) by (auto simp: n_def s_def split: if_splits)
  ultimately have "closest_rational num den (Q n d)"
    using le d cop best by (simp add: closest_rational_def n_def abs_mult s_def)
  with code show ?thesis by blast
qed

text \<open>Products of 32-bit values stay clear of the 64-bit bounds.\<close>

lemma s32_prod: "is_s32 x \<Longrightarrow> is_s32 y \<Longrightarrow> \<bar>x * y\<bar> \<le> 4611686018427387904"
  using mult_mono [of "\<bar>x\<bar>" 2147483648 "\<bar>y\<bar>" 2147483648] by (simp add: is_s32_def abs_mult abs_le_iff)

lemma s32_prod_pos: "is_s32 x \<Longrightarrow> is_s32 y \<Longrightarrow> 0 < y \<Longrightarrow> \<bar>x * y\<bar> \<le> 4611686016279904256"
  using mult_mono [of "\<bar>x\<bar>" 2147483648 "\<bar>y\<bar>" 2147483647] by (simp add: is_s32_def abs_mult abs_le_iff)

lemma av_mul_q_closest:
  assumes "rational_ok b" "rational_ok c" "q_den b \<noteq> 0" "q_den c \<noteq> 0"
  shows "\<exists>r. av_mul_q b c = Some r \<and> closest_rational (q_num b * q_num c) (q_den b * q_den c) r"
proof -
  have p: "\<bar>q_num b * q_num c\<bar> \<le> 4611686018427387904" "\<bar>q_den b * q_den c\<bar> \<le> 4611686018427387904"
    using assms s32_prod by (simp_all add: rational_ok_def)
  then have s: "is_s64 (q_num b * q_num c)" "is_s64 (q_den b * q_den c)" by (simp_all add: is_s64_abs)
  obtain n d e where "av_reduce (q_num b * q_num c) (q_den b * q_den c) INT_MAX = Some (n, d, e)"
    "closest_rational (q_num b * q_num c) (q_den b * q_den c) (Q n d)"
    using av_reduce_closest [OF s] p assms(3,4) by fastforce
  then show ?thesis using s by (simp add: av_mul_q_def)
qed

lemma av_add_q_closest:
  assumes "rational_ok b" "rational_ok c" "0 < q_den b" "0 < q_den c"
  shows "\<exists>r. av_add_q b c = Some r \<and>
    closest_rational (q_num b * q_den c + q_num c * q_den b) (q_den b * q_den c) r"
proof -
  let ?n = "q_num b * q_den c + q_num c * q_den b" and ?d = "q_den b * q_den c"
  have p: "\<bar>q_num b * q_den c\<bar> \<le> 4611686016279904256" "\<bar>q_num c * q_den b\<bar> \<le> 4611686016279904256"
    "\<bar>?d\<bar> \<le> 4611686016279904256"
    using assms s32_prod_pos [of "q_num b" "q_den c"] s32_prod_pos [of "q_num c" "q_den b"]
      s32_prod_pos [of "q_den b" "q_den c"] by (simp_all add: rational_ok_def)
  then have "\<bar>?n\<bar> \<le> 9223372032559808512" by linarith
  then have s: "is_s64 (q_num b * q_den c)" "is_s64 (q_num c * q_den b)" "is_s64 ?n" "?n \<noteq> INT64_MIN" "is_s64 ?d"
    "?d \<noteq> INT64_MIN" using p by (auto simp: is_s64_def)
  obtain n d e where "av_reduce ?n ?d INT_MAX = Some (n, d, e)" "closest_rational ?n ?d (Q n d)"
    using av_reduce_closest [OF s(3,5,4,6)] assms(3,4) by fastforce
  then show ?thesis using s by (simp add: av_add_q_def)
qed

text \<open>C31: the four operations on fractions with positive 32-bit denominators return, for every input, the
  representable fraction closest to the exact product, quotient, sum or difference: in lowest
  terms, with the right sign, and equal to it whenever it is representable.\<close>

theorem rational_arithmetic_closest:
  assumes "rational_ok b" "rational_ok c" "0 < q_den b" "0 < q_den c" "q_num c \<noteq> 0" "q_num c \<noteq> INT_MIN"
  shows "\<exists>m q a s. av_mul_q b c = Some m \<and> closest_rational (q_num b * q_num c) (q_den b * q_den c) m \<and>
    av_div_q b c = Some q \<and> closest_rational (q_num b * q_den c) (q_den b * q_num c) q \<and>
    av_add_q b c = Some a \<and>
      closest_rational (q_num b * q_den c + q_num c * q_den b) (q_den b * q_den c) a \<and>
    av_sub_q b c = Some s \<and>
      closest_rational (q_num b * q_den c - q_num c * q_den b) (q_den b * q_den c) s"
proof -
  have "- q_num c = s32 (- q_num c)" using assms(2,6) by (auto simp: rational_ok_def is_s32_def)
  moreover have "rational_ok (Q (q_den c) (q_num c))" "rational_ok (Q (s32 (- q_num c)) (q_den c))"
    using assms(2) by (simp_all add: rational_ok_def)
  ultimately show ?thesis
    using av_mul_q_closest [OF assms(1,2)] av_mul_q_closest [OF assms(1), of "Q (q_den c) (q_num c)"]
      av_add_q_closest [OF assms(1-4)] av_add_q_closest [OF assms(1), of "Q (s32 (- q_num c)) (q_den c)"] assms(3-5)
    by (auto simp: av_div_q_def av_sub_q_def)
qed

theorem rational_arithmetic_closest_witness:
  "\<exists>a. av_add_q (Q 1 1000000007) (Q 1 1000000009) = Some a \<and>
    closest_rational 2000000016 1000000016000000063 a"
  using rational_arithmetic_closest [of "Q 1 1000000007" "Q 1 1000000009"]
  by (auto simp: rational_ok_def is_s32_def)

section \<open>Comparison\<close>

lemma div_2_63: "is_s64 x \<Longrightarrow> x div 9223372036854775808 = (if x < 0 then - 1 else 0)"
  by (auto simp: is_s64_def div_pos_pos_trivial intro: div_eq_minus1 int_div_pos_eq [of _ _ _ "x + 2 ^ 63"])

lemma av_cmp_q_sgn:
  assumes "rational_ok a" "rational_ok b" "0 < q_den a" "0 < q_den b"
  shows "av_cmp_q a b = sgn (q_num a * q_den b - q_num b * q_den a)"
proof -
  let ?x = "q_num a * q_den b" and ?y = "q_num b * q_den a"
  have p: "\<bar>?x\<bar> \<le> 4611686016279904256" "\<bar>?y\<bar> \<le> 4611686016279904256"
    using assms s32_prod_pos by (simp_all add: rational_ok_def)
  then have s: "is_s64 ?x" "is_s64 ?y" "is_s64 (?x - ?y)" unfolding is_s64_def by linarith+
  define t where "t = ?x - ?y"
  let ?z = "t XOR q_den a XOR q_den b"
  have "?z < 0 \<longleftrightarrow> t < 0" using assms(3,4) by simp
  moreover have "is_s64 ?z"
    using s assms(1,2) unfolding t_def
    by (intro is_s64_xor) (simp_all add: rational_ok_def is_s32_def is_s64_def)
  ultimately have "?z div 2 ^ 63 = (if t < 0 then - 1 else 0)" using div_2_63 [of ?z] by simp
  then show ?thesis
    using s assms(3,4) by (simp add: av_cmp_q_def Let_def is_s32_def sgn_if flip: t_def)
qed

section \<open>Nearness\<close>

text \<open>Distance of \<open>x\<close> from \<open>q\<close>, scaled by both denominators.\<close>

definition q_dist :: "AVRational \<Rightarrow> AVRational \<Rightarrow> int" where
  "q_dist q x = \<bar>q_num q * q_den x - q_num x * q_den q\<bar>"

lemma sgn_abs_diff: "sgn (\<bar>u\<bar> - \<bar>v\<bar>) = sgn ((u - v) * (u + v))" for u v :: int
  by (cases "0 \<le> u"; cases "0 \<le> v") (auto simp: sgn_if zero_less_mult_iff mult_less_0_iff)

lemma abs_quot_le: "\<bar>x\<bar> \<le> k * b \<Longrightarrow> 0 < b \<Longrightarrow> \<bar>x div b\<bar> \<le> k \<and> \<bar>- (- x div b)\<bar> \<le> k" for x b k :: int
proof -
  assume x: "\<bar>x\<bar> \<le> k * b" and b: "0 < b"
  have "- (k * b) \<le> x" "x \<le> k * b" using x by linarith+
  then have "- k \<le> x div b" "x div b \<le> k" "- k \<le> - x div b" "- x div b \<le> k"
    using b zdiv_mono1 [of x "k * b" b] zdiv_mono1 [of "- x" "k * b" b] by (simp_all add: le_zdiv_iff)
  then show ?thesis by linarith
qed

lemma s32_sgn: "s32 (sgn x) = sgn x"
  by (simp add: sgn_if is_s32_def)

lemma av_nearer_q_sgn:
  assumes "rational_ok q" "rational_ok q1" "rational_ok q2" "0 < q_den q" "0 < q_den q1" "0 < q_den q2"
  shows "av_nearer_q q q1 q2 = sgn (q_dist q q2 * q_den q1 - q_dist q q1 * q_den q2)"
proof -
  let ?A = "q_num q1 * q_den q2" and ?B = "q_num q2 * q_den q1" and ?d = "q_den q" and ?n = "q_num q"
  define D where "D = q_den q1 * q_den q2"
  have D: "0 < D" using assms(5,6) by (simp add: D_def)
  have p: "\<bar>?A\<bar> \<le> 4611686016279904256" "\<bar>?B\<bar> \<le> 4611686016279904256"
    using assms s32_prod_pos by (simp_all add: rational_ok_def)
  have "D \<le> 2147483647 * 2147483647"
    unfolding D_def using assms by (intro mult_mono) (simp_all add: rational_ok_def is_s32_def)
  then have b: "2 * q_den q1 * q_den q2 = 2 * D" "is_s64 (2 * D)" using D by (simp_all add: D_def is_s64_def)
  have "\<bar>?A + ?B\<bar> \<le> INT64_MAX" using p by linarith
  then have a: "is_s64 ?A" "is_s64 ?B" "is_s64 (?A + ?B)" "?A + ?B \<noteq> INT64_MIN"
    using p by (simp_all add: is_s64_abs)
  have d: "is_s64 ?d" using assms(1) by (simp add: rational_ok_def is_s32_def is_s64_def)
  have "q_den q2 \<le> D" "q_den q1 \<le> D"
    using assms(5,6) mult_right_mono [of 1 "q_den q1" "q_den q2"] mult_left_mono [of 1 "q_den q2" "q_den q1"]
    by (simp_all add: D_def)
  then have "\<bar>q_num q1\<bar> * q_den q2 \<le> 2147483648 * D" "\<bar>q_num q2\<bar> * q_den q1 \<le> 2147483648 * D"
    using assms by (intro mult_mono; simp add: rational_ok_def is_s32_def abs_le_iff)+
  then have ab: "\<bar>?A + ?B\<bar> \<le> 2147483648 * (2 * D)"
    using assms(5,6) abs_triangle_ineq [of ?A ?B] by (simp add: abs_mult)
  have "\<bar>?A + ?B\<bar> * ?d \<le> (2147483648 * (2 * D)) * 2147483647"
    using ab assms(1,4) D by (intro mult_mono) (simp_all add: rational_ok_def is_s32_def)
  then have "\<bar>(?A + ?B) * ?d\<bar> \<le> 2147483648 * 2147483647 * (2 * D)"
    using assms(4) by (simp add: abs_mult)
  then have q: "\<bar>(?A + ?B) * ?d div (2 * D)\<bar> \<le> INT64_MAX" "\<bar>- (- ((?A + ?B) * ?d) div (2 * D))\<bar> \<le> INT64_MAX"
    using abs_quot_le [of "(?A + ?B) * ?d" "2147483648 * 2147483647" "2 * D"] D by auto
  have up: "av_rescale_rnd (?A + ?B) ?d (2 * D) AV_ROUND_UP = - (- ((?A + ?B) * ?d) div (2 * D))"
    and down: "av_rescale_rnd (?A + ?B) ?d (2 * D) AV_ROUND_DOWN = (?A + ?B) * ?d div (2 * D)"
    using av_rescale_rnd_exact [OF a(3,4) d _ b(2)] D assms(4) q
    by (simp_all add: rounded_quotient_def rounding_defs fit64_def)
  have cmp: "av_cmp_q q2 q1 = sgn (?B - ?A)" using av_cmp_q_sgn [OF assms(3,2,6,5)] by simp
  let ?m = "(?A + ?B) * ?d - ?n * (2 * D)"
  have "?n < - (- ((?A + ?B) * ?d) div (2 * D)) \<longleftrightarrow> 0 < ?m"
    using zdiv_less_iff [of "2 * D" "- ((?A + ?B) * ?d)" "- ?n"] D by auto
  moreover have "(?A + ?B) * ?d div (2 * D) < ?n \<longleftrightarrow> ?m < 0"
    using zdiv_less_iff [of "2 * D" "(?A + ?B) * ?d" "?n"] D by auto
  ultimately have "av_nearer_q q q1 q2 = s32 ((of_bool (0 < ?m) - of_bool (?m < 0)) * sgn (?B - ?A))"
    by (simp only: av_nearer_q_def Let_def s64_id [OF a(1)] s64_id [OF a(2)] s64_id [OF a(3)] b(1)
        s64_id [OF b(2)] up down cmp)
  also have "\<dots> = s32 (sgn ?m * sgn (?B - ?A))" by (simp add: sgn_if)
  also have "\<dots> = sgn (?m * (?B - ?A))" by (simp only: sgn_mult [symmetric] s32_sgn)
  also have "\<dots> = sgn (q_dist q q2 * q_den q1 - q_dist q q1 * q_den q2)"
  proof -
    define u v where "u = ?n * D - ?d * ?B" and "v = ?n * D - ?d * ?A"
    have "u = (?n * q_den q2 - q_num q2 * ?d) * q_den q1" "v = (?n * q_den q1 - q_num q1 * ?d) * q_den q2"
      by (simp_all add: u_def v_def D_def algebra_simps)
    then have "q_dist q q2 * q_den q1 = \<bar>u\<bar>" "q_dist q q1 * q_den q2 = \<bar>v\<bar>"
      using assms(5,6) by (simp_all add: q_dist_def abs_mult)
    moreover have "(u - v) * (u + v) = ?d * (?m * (?B - ?A))"
      by (simp add: u_def v_def algebra_simps)
    ultimately show ?thesis using assms(4) by (simp add: sgn_abs_diff sgn_mult)
  qed
  finally show ?thesis .
qed

text \<open>The comparisons are exact: the roundings of the midpoint lose nothing.\<close>

lemma av_nearer_q_exact:
  assumes "rational_ok q" "rational_ok q1" "rational_ok q2" "0 < q_den q" "0 < q_den q1" "0 < q_den q2"
  shows "av_cmp_q q1 q2 = sgn (q_num q1 * q_den q2 - q_num q2 * q_den q1) \<and>
    av_nearer_q q q1 q2 = sgn (q_dist q q2 * q_den q1 - q_dist q q1 * q_den q2)"
  using av_cmp_q_sgn [OF assms(2,3,5,6)] av_nearer_q_sgn [OF assms] by blast

section \<open>The table search\<close>

definition q_no_farther :: "AVRational \<Rightarrow> AVRational \<Rightarrow> AVRational \<Rightarrow> bool" where
  "q_no_farther q e x \<longleftrightarrow> q_dist q e * q_den x \<le> q_dist q x * q_den e"

lemma find_nearest_stops:
  "find_nearest_q q cs i best e = find_nearest_q q (takeWhile (\<lambda>c. q_den c \<noteq> 0) cs) i best e"
  by (induction cs arbitrary: i best e) simp_all

lemma find_nearest_best:
  assumes "rational_ok q" "0 < q_den q"
  shows "\<lbrakk>\<forall>c\<in>set (pre @ cs). rational_ok c \<and> 0 < q_den c; best < length (pre @ cs); (pre @ cs) ! best = e;
    \<forall>x\<in>set pre. q_no_farther q e x\<rbrakk> \<Longrightarrow>
   find_nearest_q q cs (length pre) best e < length (pre @ cs) \<and>
   (\<forall>x\<in>set (pre @ cs). q_no_farther q ((pre @ cs) ! find_nearest_q q cs (length pre) best e) x)"
proof (induction cs arbitrary: pre best e)
  case Nil
  then show ?case by simp
next
  case (Cons c cs)
  have e: "rational_ok e" "0 < q_den e" using Cons.prems(1-3) nth_mem by blast+
  have c: "rational_ok c" "0 < q_den c" using Cons.prems(1) by auto
  have near: "av_nearer_q q c e > 0 \<longleftrightarrow> q_dist q c * q_den e < q_dist q e * q_den c"
    using av_nearer_q_sgn [OF assms(1) c(1) e(1) assms(2) c(2) e(2)] by simp
  show ?case
  proof (cases "av_nearer_q q c e > 0")
    case True
    have "q_no_farther q c x" if "x \<in> set (pre @ [c])" for x
    proof (cases "x \<in> set pre")
      case True
      then have "0 < q_den x" "q_no_farther q e x" using Cons.prems(1,4) by auto
      then show ?thesis
        using compare_fractions [of "q_dist q c" "q_den e" "q_dist q e" "q_den c" "q_den x" "q_dist q x"]
          \<open>av_nearer_q q c e > 0\<close> near e(2) c(2) by (simp add: q_no_farther_def)
    next
      case False
      then show ?thesis using that by (simp add: q_no_farther_def)
    qed
    then show ?thesis
      using Cons.IH [of "pre @ [c]" "length pre" c] Cons.prems(1) True c(2) by (simp add: nth_append)
  next
    case False
    then have "q_no_farther q e c" using near by (simp add: q_no_farther_def)
    then show ?thesis
      using Cons.IH [of "pre @ [c]" best e] Cons.prems False c(2) by simp
  qed
qed

text \<open>C35: On fractions with positive denominators \<open>av_cmp_q\<close> is the sign of the exact difference, and \<open>av_nearer_q q q1 q2\<close>
  is positive, zero or negative exactly as \<open>q1\<close> is nearer to \<open>q\<close> than \<open>q2\<close>, as near, or farther; the roundings of the
  midpoint it compares with lose nothing. So \<open>av_find_nearest_q_idx\<close> returns an index of the table, before its end
  mark, and no entry of the table is nearer to \<open>q\<close> than the one it points at.\<close>

theorem av_find_nearest_q_idx_best:
  assumes "rational_ok q" "0 < q_den q" "q_list \<noteq> []" "q_den end_mark = 0"
    and "\<forall>c\<in>set q_list. rational_ok c \<and> 0 < q_den c"
  shows "(\<forall>c\<in>set q_list. \<forall>d\<in>set q_list. av_cmp_q c d = sgn (q_num c * q_den d - q_num d * q_den c) \<and>
      av_nearer_q q c d = sgn (q_dist q d * q_den c - q_dist q c * q_den d)) \<and>
    av_find_nearest_q_idx q (q_list @ end_mark # junk) < length q_list \<and>
    (\<forall>x\<in>set q_list. q_no_farther q (q_list ! av_find_nearest_q_idx q (q_list @ end_mark # junk)) x)"
proof -
  have "takeWhile (\<lambda>c. q_den c \<noteq> 0) (q_list @ end_mark # junk) = q_list"
    using assms(4,5) by (subst takeWhile_append2) auto
  then have "av_find_nearest_q_idx q (q_list @ end_mark # junk) = find_nearest_q q q_list 0 0 (q_list ! 0)"
    using assms(3) by (simp add: av_find_nearest_q_idx_def find_nearest_stops [of q "q_list @ _"] nth_append)
  then show ?thesis
    using find_nearest_best [OF assms(1,2), of "[]" q_list 0 "q_list ! 0"] assms(1,2,3,5) av_nearer_q_exact by simp
qed

theorem av_find_nearest_q_idx_best_witness:
  "av_find_nearest_q_idx (Q 2997 100) [Q 25 1, Q 30000 1001, Q 30 1, Q 0 0] < 3 \<and>
   av_nearer_q (Q 2997 100) (Q 30000 1001) (Q 25 1) = 1"
  using av_find_nearest_q_idx_best [of "Q 2997 100" "[Q 25 1, Q 30000 1001, Q 30 1]" "Q 0 0" "[]"]
  by (simp add: rational_ok_def is_s32_def q_dist_def)

end
