(* ===== verification/AvTimestamp.thy ===== *)
theory AvTimestamp imports AvRational
begin

text \<open>
  The timestamp routines of \<open>libavutil/mathematics.c\<close>: rescaling between time bases, comparing
  timestamps of different bases, comparing modulo a power of two, and the two drift-free adders.
\<close>

section \<open>The code\<close>

definition av_rescale_q_rnd :: "int \<Rightarrow> AVRational \<Rightarrow> AVRational \<Rightarrow> int \<Rightarrow> int" where
  "av_rescale_q_rnd a bq cq rnd =
     (let b = s64 (q_num bq * q_den cq);
          c = s64 (q_num cq * q_den bq)
      in av_rescale_rnd a b c rnd)"

definition av_rescale_q :: "int \<Rightarrow> AVRational \<Rightarrow> AVRational \<Rightarrow> int" where
  "av_rescale_q a bq cq = av_rescale_q_rnd a bq cq AV_ROUND_NEAR_INF"

definition av_compare_ts :: "int \<Rightarrow> AVRational \<Rightarrow> int \<Rightarrow> AVRational \<Rightarrow> int" where
  "av_compare_ts ts_a tb_a ts_b tb_b =
     (let a = s64 (q_num tb_a * q_den tb_b);
          b = s64 (q_num tb_b * q_den tb_a)
      in if (FFABS ts_a OR a OR FFABS ts_b OR b) \<le> INT_MAX then
           of_bool (s64 (ts_a * a) > s64 (ts_b * b)) - of_bool (s64 (ts_a * a) < s64 (ts_b * b))
         else if av_rescale_rnd ts_a a b AV_ROUND_DOWN < ts_b then - 1
         else if av_rescale_rnd ts_b b a AV_ROUND_DOWN < ts_a then 1
         else 0)"

text \<open>\<open>c > (mod >> 1)\<close> compares as \<open>uint64_t\<close>.\<close>

definition av_compare_mod :: "u64 \<Rightarrow> u64 \<Rightarrow> u64 \<Rightarrow> int" where
  "av_compare_mod a b m =
     (let c = (a - b) AND (m - 1);
          c = (if c > shr m 1 then c - m else c)
      in sint c)"

abbreviation AV_NOPTS_VALUE :: int where
  "AV_NOPTS_VALUE \<equiv> INT64_MIN"

text \<open>The returned timestamp and the new \<open>*last\<close>; the label \<open>simple_round\<close> is the first definition.\<close>

definition rescale_delta_simple :: "AVRational \<Rightarrow> int \<Rightarrow> AVRational \<Rightarrow> int \<Rightarrow> AVRational \<Rightarrow> int \<times> int" where
  "rescale_delta_simple in_tb in_ts fs_tb duration out_tb =
     (av_rescale_q in_ts in_tb out_tb, s64 (av_rescale_q in_ts in_tb fs_tb + duration))"

definition av_rescale_delta ::
  "AVRational \<Rightarrow> int \<Rightarrow> AVRational \<Rightarrow> int \<Rightarrow> int \<Rightarrow> AVRational \<Rightarrow> int \<times> int" where
  "av_rescale_delta in_tb in_ts fs_tb duration lst out_tb =
     (if lst = AV_NOPTS_VALUE \<or> duration = 0 \<or> s64 (q_num in_tb * q_den out_tb) \<le> s64 (q_num out_tb * q_den in_tb)
      then rescale_delta_simple in_tb in_ts fs_tb duration out_tb
      else let a = av_rescale_q_rnd (s64 (s64 (2 * in_ts) - 1)) in_tb fs_tb AV_ROUND_DOWN div 2;
               b = s64 (av_rescale_q_rnd (s64 (s64 (2 * in_ts) + 1)) in_tb fs_tb AV_ROUND_UP + 1) div 2
           in if lst < s64 (s64 (2 * a) - b) \<or> lst > s64 (s64 (2 * b) - a)
              then rescale_delta_simple in_tb in_ts fs_tb duration out_tb
              else let this = av_clip64 lst a b
                   in (av_rescale_q this fs_tb out_tb, s64 (this + duration)))"

definition av_add_stable :: "AVRational \<Rightarrow> int \<Rightarrow> AVRational \<Rightarrow> int \<Rightarrow> int option" where
  "av_add_stable ts_tb ts inc_tb inc =
     do { inc_tb \<leftarrow> (if inc \<noteq> 1 then av_mul_q inc_tb (Q (s32 inc) 1) else Some inc_tb);
          let m = s64 (q_num inc_tb * q_den ts_tb);
          let d = s64 (q_den inc_tb * q_num ts_tb);
          Some (if m smod d = 0 \<and> ts \<le> s64 (INT64_MAX - m sdiv d) then s64 (ts + m sdiv d)
                else if m < d then ts
                else let old = av_rescale_q ts ts_tb inc_tb;
                         old_ts = av_rescale_q old inc_tb ts_tb
                     in if old = INT64_MAX \<or> old = AV_NOPTS_VALUE \<or> old_ts = AV_NOPTS_VALUE then ts
                        else s64 (av_rescale_q (s64 (old + 1)) inc_tb ts_tb + s64 (ts - old_ts))) }"

section \<open>Rescaling between time bases\<close>

text \<open>A time base: a positive 32-bit fraction.\<close>

definition time_base_ok :: "AVRational \<Rightarrow> bool" where
  "time_base_ok q \<longleftrightarrow> 0 < q_num q \<and> 0 < q_den q \<and> q_num q \<le> INT_MAX \<and> q_den q \<le> INT_MAX"

lemma time_base_prod:
  assumes "time_base_ok x" "time_base_ok y"
  shows "is_s64 (q_num x * q_den y)" "0 < q_num x * q_den y" "q_num x * q_den y \<le> INT64_MAX"
proof -
  have "q_num x * q_den y \<le> INT_MAX * INT_MAX"
    using assms by (intro mult_mono) (simp_all add: time_base_ok_def)
  moreover show "0 < q_num x * q_den y" using assms by (simp add: time_base_ok_def)
  ultimately show "is_s64 (q_num x * q_den y)" "q_num x * q_den y \<le> INT64_MAX"
    by (simp_all add: is_s64_def)
qed

lemma av_rescale_q_rnd_exact:
  assumes "is_s64 a" "a \<noteq> INT64_MIN" "time_base_ok bq" "time_base_ok cq"
    and "rnd \<in> {AV_ROUND_ZERO, AV_ROUND_INF, AV_ROUND_DOWN, AV_ROUND_UP, AV_ROUND_NEAR_INF}"
  shows "av_rescale_q_rnd a bq cq rnd =
    fit64 (rounded_quotient rnd (a * (q_num bq * q_den cq)) (q_num cq * q_den bq))"
  using time_base_prod [OF assms(3,4)] time_base_prod [OF assms(4,3)] assms(1,2,5)
  by (simp add: av_rescale_q_rnd_def av_rescale_rnd_exact)

section \<open>Comparing timestamps\<close>

lemma int_or_le:
  assumes "(x OR y) \<le> m" "0 \<le> x" "0 \<le> y" shows "x \<le> m \<and> y \<le> (m :: int)"
  using assms or_greater_eq [of y x] or_greater_eq [of x y] by (simp add: or.commute)

text \<open>C37: for positive time bases \<open>av_compare_ts\<close> is the sign of \<open>ts_a * tb_a - ts_b * tb_b\<close>, whenever each
  timestamp, taken to the other's base, does not exceed the largest \<open>int64_t\<close>.\<close>

theorem av_compare_ts_correct:
  assumes "is_s64 ts_a" "ts_a \<noteq> INT64_MIN" "is_s64 ts_b" "ts_b \<noteq> INT64_MIN" "time_base_ok tb_a" "time_base_ok tb_b"
    and "ts_a * (q_num tb_a * q_den tb_b) div (q_num tb_b * q_den tb_a) \<le> INT64_MAX"
    and "ts_b * (q_num tb_b * q_den tb_a) div (q_num tb_a * q_den tb_b) \<le> INT64_MAX"
  shows "av_compare_ts ts_a tb_a ts_b tb_b =
    sgn (ts_a * (q_num tb_a * q_den tb_b) - ts_b * (q_num tb_b * q_den tb_a))"
proof -
  define a b where "a = q_num tb_a * q_den tb_b" and "b = q_num tb_b * q_den tb_a"
  note ab = time_base_prod [OF assms(5,6), folded a_def] time_base_prod [OF assms(6,5), folded b_def]
  have abs: "FFABS ts_a = \<bar>ts_a\<bar>" "FFABS ts_b = \<bar>ts_b\<bar>" using assms(1-4) by (simp_all add: FFABS_abs)
  have code: "av_compare_ts ts_a tb_a ts_b tb_b =
     (if (\<bar>ts_a\<bar> OR a OR \<bar>ts_b\<bar> OR b) \<le> INT_MAX then
        of_bool (s64 (ts_a * a) > s64 (ts_b * b)) - of_bool (s64 (ts_a * a) < s64 (ts_b * b))
      else if av_rescale_rnd ts_a a b AV_ROUND_DOWN < ts_b then - 1
      else if av_rescale_rnd ts_b b a AV_ROUND_DOWN < ts_a then 1 else 0)"
    using ab(1,4) by (simp add: av_compare_ts_def Let_def abs flip: a_def b_def)
  show ?thesis
  proof (cases "(\<bar>ts_a\<bar> OR a OR \<bar>ts_b\<bar> OR b) \<le> INT_MAX")
    case True
    have "\<bar>ts_a\<bar> \<le> INT_MAX \<and> a \<le> INT_MAX \<and> \<bar>ts_b\<bar> \<le> INT_MAX \<and> b \<le> INT_MAX"
      using True ab int_or_le [of "\<bar>ts_a\<bar>" "a OR \<bar>ts_b\<bar> OR b" INT_MAX] int_or_le [of a "\<bar>ts_b\<bar> OR b" INT_MAX]
        int_or_le [of "\<bar>ts_b\<bar>" b INT_MAX] by simp
    then have "\<bar>ts_a * a\<bar> \<le> INT_MAX * INT_MAX" "\<bar>ts_b * b\<bar> \<le> INT_MAX * INT_MAX"
      using ab(2,5) mult_mono [of "\<bar>ts_a\<bar>" INT_MAX a INT_MAX] mult_mono [of "\<bar>ts_b\<bar>" INT_MAX b INT_MAX]
      by (simp_all add: abs_mult)
    then have "is_s64 (ts_a * a)" "is_s64 (ts_b * b)" by (simp_all add: is_s64_abs)
    then show ?thesis using True by (simp add: code sgn_if flip: a_def b_def)
  next
    case False
    have low: "fit64 q < ts \<longleftrightarrow> q < ts" if "q \<le> INT64_MAX" "is_s64 ts" "ts \<noteq> INT64_MIN" for q ts
      using that by (auto simp: fit64_def is_s64_def)
    have "av_rescale_rnd ts_a a b AV_ROUND_DOWN < ts_b \<longleftrightarrow> ts_a * a < ts_b * b"
      "av_rescale_rnd ts_b b a AV_ROUND_DOWN < ts_a \<longleftrightarrow> ts_b * b < ts_a * a"
      using ab assms(1-4,7,8) zdiv_less_iff [of b "ts_a * a" ts_b] zdiv_less_iff [of a "ts_b * b" ts_a]
      by (simp_all add: av_rescale_rnd_exact rounded_quotient_def rounding_defs low flip: a_def b_def)
    then show ?thesis using False by (auto simp: code sgn_if simp flip: a_def b_def)
  qed
qed

theorem av_compare_ts_correct_witness: "av_compare_ts 9000000000 (Q 1 90000) 4800000001 (Q 1 48000) = - 1"
  using av_compare_ts_correct [of 9000000000 4800000001 "Q 1 90000" "Q 1 48000"]
  by (simp add: is_s64_def time_base_ok_def)

section \<open>Comparing modulo a power of two\<close>

lemma and_mask_uint:
  assumes "k < 64"
  shows "uint ((x :: u64) AND (2 ^ k - 1)) = uint x mod 2 ^ k"
proof -
  have "x AND (2 ^ k - 1) = take_bit k x" by (simp add: take_bit_eq_mask mask_eq_exp_minus_1)
  then show ?thesis by (simp only: unsigned_take_bit_eq) (simp only: take_bit_eq_mod)
qed

text \<open>For counters that wrap at \<open>2 ^ k\<close> the result of \<open>av_compare_mod\<close> is the distance \<open>a - b\<close> modulo \<open>2 ^ k\<close>
  of least absolute value, above minus half and up to half of the modulus.\<close>

theorem av_compare_mod_correct:
  fixes k :: nat and a b :: u64
  assumes "0 < k" "k < 64"
  shows "- (2 ^ (k - 1)) < av_compare_mod a b (2 ^ k) \<and> av_compare_mod a b (2 ^ k) \<le> 2 ^ (k - 1) \<and>
    (av_compare_mod a b (2 ^ k) - (uint a - uint b)) mod 2 ^ k = 0"
proof -
  define c where "c = (a - b) AND (2 ^ k - 1)"
  define r where "r = uint c"
  have k: "(2 :: int) ^ k = 2 * 2 ^ (k - 1)" using assms(1) by (cases k) simp_all
  have "(2 :: int) ^ k \<le> 2 ^ 63" using assms(2) by (intro power_increasing) simp_all
  then have le: "(2 :: int) ^ k \<le> 9223372036854775808" by simp
  have r: "r = (uint a - uint b) mod 2 ^ k"
  proof -
    have "uint (a - b) mod 2 ^ k = (uint a - uint b) mod 2 ^ 64 mod 2 ^ k" by (simp add: uint_word_ariths)
    also have "(uint a - uint b) mod 2 ^ 64 mod 2 ^ k = (uint a - uint b) mod 2 ^ k"
      using assms(2) by (intro mod_mod_cancel le_imp_power_dvd) simp
    finally show ?thesis using assms(2) by (simp add: r_def c_def and_mask_uint)
  qed
  then have rb: "0 \<le> r" "r < 2 ^ k" by simp_all
  have half: "uint (shr (2 ^ k :: u64) 1) = 2 ^ (k - 1)"
  proof -
    have "uint (2 ^ k :: u64) = uint (word_of_int (2 ^ k) :: u64)" by simp
    also have "\<dots> = 2 ^ k" using le by (simp only: uint_word_of_int) (simp add: mod_pos_pos_trivial)
    finally show ?thesis using k by (simp add: uint_shr)
  qed
  have code: "av_compare_mod a b (2 ^ k) = (if r > 2 ^ (k - 1) then r - 2 ^ k else r)"
  proof -
    have "c = word_of_int r" "c - 2 ^ k = word_of_int (r - 2 ^ k)" by (simp_all add: r_def)
    then have "sint c = s64 r" "sint (c - 2 ^ k) = s64 (r - 2 ^ k)" by (simp_all only: signed_of_int) (simp_all add: s64_def)
    moreover have "is_s64 (r - 2 ^ k)" "r \<le> 2 ^ (k - 1) \<Longrightarrow> is_s64 r"
      using rb k le by (simp_all add: is_s64_def)
    ultimately show ?thesis
      unfolding av_compare_mod_def Let_def c_def [symmetric] word_less_def half r_def [symmetric]
      by simp
  qed
  have "(r - (uint a - uint b)) mod 2 ^ k = 0" unfolding r by (metis mod_eq_dvd_iff mod_mod_trivial dvd_eq_mod_eq_0)
  moreover from this have "(r - 2 ^ k - (uint a - uint b)) mod 2 ^ k = 0"
    by (metis diff_right_commute minus_mod_self2)
  ultimately show ?thesis using rb k unfolding code by auto
qed

theorem av_compare_mod_correct_witness: "av_compare_mod 3 0xFFF0 (2 ^ 16) \<le> 32768"
  using av_compare_mod_correct [of 16 3 "0xFFF0"] by simp

end
