(* ===== verification/AvFifo.thy ===== *)
theory AvFifo imports AvIntMath "HOL-Library.Monad_Syntax"
begin

text \<open>
  \<open>libavutil/fifo.c\<close>: the byte ring buffer. The buffer is a list of bytes, the pointers into it are
  offsets, and the two 32-bit counters wrap as in the code. The copying loops do not end on a
  buffer of size zero, so they are partial functions. The locale \<open>byte_queue\<close> states what a user relies on,
  and the order of the bytes through any sequence of operations is proved inside it.
\<close>

section \<open>The code\<close>

record AVFifoBuffer =
  buffer :: bytes   \<comment> \<open>\<open>end - buffer\<close> is its length\<close>
  rptr :: nat
  wptr :: nat
  rndx :: u32
  wndx :: u32

abbreviation fifo_end :: "AVFifoBuffer \<Rightarrow> nat" where
  "fifo_end f \<equiv> length (buffer f)"

definition av_fifo_reset :: "AVFifoBuffer \<Rightarrow> AVFifoBuffer" where
  "av_fifo_reset f = f\<lparr>wptr := 0, rptr := 0, wndx := 0, rndx := 0\<rparr>"

text \<open>The heap is a parameter: \<open>av_malloc\<close> gives the block or fails, and \<open>hdr\<close> tells whether the allocation of
  the header succeeds.\<close>

type_synonym allocator = "nat \<Rightarrow> bytes option"

definition fifo_alloc_common :: "bool \<Rightarrow> bytes option \<Rightarrow> AVFifoBuffer option" where
  "fifo_alloc_common hdr buf =
     (case buf of None \<Rightarrow> None
      | Some b \<Rightarrow> if hdr then Some (av_fifo_reset \<lparr>buffer = b, rptr = 0, wptr = 0, rndx = 0, wndx = 0\<rparr>) else None)"

definition av_fifo_alloc :: "allocator \<Rightarrow> bool \<Rightarrow> nat \<Rightarrow> AVFifoBuffer option" where
  "av_fifo_alloc av_malloc hdr sz = fifo_alloc_common hdr (av_malloc sz)"

text \<open>\<open>av_malloc_array\<close> fails when the product overflows \<open>size_t\<close>.\<close>

definition av_fifo_alloc_array :: "allocator \<Rightarrow> bool \<Rightarrow> nat \<Rightarrow> nat \<Rightarrow> AVFifoBuffer option" where
  "av_fifo_alloc_array av_malloc hdr nmemb sz =
     fifo_alloc_common hdr (if nmemb * sz < 2 ^ 64 then av_malloc (nmemb * sz) else None)"

definition av_fifo_size :: "AVFifoBuffer \<Rightarrow> int" where
  "av_fifo_size f = s32 (uint (wndx f - rndx f))"

definition av_fifo_space :: "AVFifoBuffer \<Rightarrow> int" where
  "av_fifo_space f = s32 (int (fifo_end f) - av_fifo_size f)"

definition av_fifo_drain :: "AVFifoBuffer \<Rightarrow> nat \<Rightarrow> AVFifoBuffer" where
  "av_fifo_drain f sz =
     (let r = rptr f + sz;
          r = (if r \<ge> fifo_end f then r - fifo_end f else r)
      in f\<lparr>rptr := r, rndx := rndx f + of_nat sz\<rparr>)"

text \<open>The do-while loop of \<open>av_fifo_generic_write\<close> without \<open>func\<close>.\<close>

partial_function (option) fifo_write_loop ::
  "bytes \<Rightarrow> nat \<Rightarrow> u32 \<Rightarrow> bytes \<Rightarrow> nat \<Rightarrow> (bytes \<times> nat \<times> u32) option" where
  "fifo_write_loop b wp wn src sz =
     (let len = min (length b - wp) sz;
          b = take wp b @ take len src @ drop (wp + len) b;
          src = drop len src;
          wp = wp + len;
          wp = (if wp \<ge> length b then 0 else wp);
          wn = wn + of_nat len;
          sz = sz - len
      in if sz > 0 then fifo_write_loop b wp wn src sz else Some (b, wp, wn))"

definition av_fifo_generic_write :: "AVFifoBuffer \<Rightarrow> bytes \<Rightarrow> nat \<Rightarrow> (AVFifoBuffer \<times> nat) option" where
  "av_fifo_generic_write f src sz =
     do { (b, wp, wn) \<leftarrow> fifo_write_loop (buffer f) (wptr f) (wndx f) src sz;
          Some (f\<lparr>buffer := b, wptr := wp, wndx := wn\<rparr>, sz) }"

text \<open>The same loop with a producer: \<open>func\<close> maps its state and the length asked for to its next state, its
  return value and the bytes it stored. A return value of zero or below ends the loop.\<close>

partial_function (option) fifo_produce_loop ::
  "('s \<Rightarrow> int \<Rightarrow> 's \<times> int \<times> bytes) \<Rightarrow> bytes \<Rightarrow> nat \<Rightarrow> u32 \<Rightarrow> 's \<Rightarrow> int \<Rightarrow>
    (bytes \<times> nat \<times> u32 \<times> 's \<times> int) option" where
  "fifo_produce_loop func b wp wn st sz =
     (let len = min (int (length b) - int wp) sz;
          (st, len, d) = func st len;
          b = take wp b @ d @ drop (wp + length d) b
      in if len \<le> 0 then Some (b, wp, wn, st, sz)
         else let wp = wp + nat len;
                  wp = (if wp \<ge> length b then 0 else wp);
                  wn = wn + word_of_int len;
                  sz = sz - len
              in if sz > 0 then fifo_produce_loop func b wp wn st sz else Some (b, wp, wn, st, sz))"

definition av_fifo_generic_write_func ::
  "AVFifoBuffer \<Rightarrow> 's \<Rightarrow> int \<Rightarrow> ('s \<Rightarrow> int \<Rightarrow> 's \<times> int \<times> bytes) \<Rightarrow> (AVFifoBuffer \<times> 's \<times> int) option" where
  "av_fifo_generic_write_func f src sz func =
     do { (b, wp, wn, st, left) \<leftarrow> fifo_produce_loop func (buffer f) (wptr f) (wndx f) src sz;
          Some (f\<lparr>buffer := b, wptr := wp, wndx := wn\<rparr>, st, sz - left) }"

text \<open>The reading loops; the result is what is copied to \<open>dest\<close>.\<close>

partial_function (option) fifo_peek_at_loop :: "bytes \<Rightarrow> nat \<Rightarrow> nat \<Rightarrow> bytes option" where
  "fifo_peek_at_loop b rp buf_size =
     (if buf_size > 0 then
        let rp = (if rp \<ge> length b then rp - length b else rp);
            len = min (length b - rp) buf_size
        in do { d \<leftarrow> fifo_peek_at_loop b (rp + len) (buf_size - len); Some (take len (drop rp b) @ d) }
      else Some [])"

definition av_fifo_generic_peek_at :: "AVFifoBuffer \<Rightarrow> nat \<Rightarrow> nat \<Rightarrow> bytes option" where
  "av_fifo_generic_peek_at f off buf_size =
     (let rp = (if off \<ge> fifo_end f - rptr f then rptr f + off - fifo_end f else rptr f + off)
      in fifo_peek_at_loop (buffer f) rp buf_size)"

text \<open>The same with \<open>func\<close>: the pieces of the buffer it is called on.\<close>

partial_function (option) fifo_peek_at_calls :: "bytes \<Rightarrow> nat \<Rightarrow> nat \<Rightarrow> bytes list option" where
  "fifo_peek_at_calls b rp buf_size =
     (if buf_size > 0 then
        let rp = (if rp \<ge> length b then rp - length b else rp);
            len = min (length b - rp) buf_size
        in do { ds \<leftarrow> fifo_peek_at_calls b (rp + len) (buf_size - len); Some (take len (drop rp b) # ds) }
      else Some [])"

definition av_fifo_generic_peek_at_func :: "AVFifoBuffer \<Rightarrow> nat \<Rightarrow> nat \<Rightarrow> bytes list option" where
  "av_fifo_generic_peek_at_func f off buf_size =
     (let rp = (if off \<ge> fifo_end f - rptr f then rptr f + off - fifo_end f else rptr f + off)
      in fifo_peek_at_calls (buffer f) rp buf_size)"

partial_function (option) fifo_peek_loop :: "bytes \<Rightarrow> nat \<Rightarrow> nat \<Rightarrow> bytes option" where
  "fifo_peek_loop b rp buf_size =
     (let len = min (length b - rp) buf_size;
          d = take len (drop rp b);
          rp = rp + len;
          rp = (if rp \<ge> length b then rp - length b else rp);
          buf_size = buf_size - len
      in if buf_size > 0 then do { ds \<leftarrow> fifo_peek_loop b rp buf_size; Some (d @ ds) } else Some d)"

definition av_fifo_generic_peek :: "AVFifoBuffer \<Rightarrow> nat \<Rightarrow> bytes option" where
  "av_fifo_generic_peek f buf_size = fifo_peek_loop (buffer f) (rptr f) buf_size"

partial_function (option) av_fifo_generic_read :: "AVFifoBuffer \<Rightarrow> nat \<Rightarrow> (AVFifoBuffer \<times> bytes) option" where
  "av_fifo_generic_read f buf_size =
     (let len = min (fifo_end f - rptr f) buf_size;
          d = take len (drop (rptr f) (buffer f));
          f = av_fifo_drain f len;
          buf_size = buf_size - len
      in if buf_size > 0 then do { (f, ds) \<leftarrow> av_fifo_generic_read f buf_size; Some (f, d @ ds) }
         else Some (f, d))"

text \<open>\<open>av_fifo_realloc2\<close> and \<open>av_fifo_grow\<close>: an error code, or the buffer afterwards.\<close>

definition av_fifo_realloc2 ::
  "allocator \<Rightarrow> bool \<Rightarrow> AVFifoBuffer \<Rightarrow> nat \<Rightarrow> (averror + AVFifoBuffer) option" where
  "av_fifo_realloc2 av_malloc hdr f new_size =
     (if fifo_end f < new_size then
        let len = nat (av_fifo_size f) in
        case av_fifo_alloc av_malloc hdr new_size of
          None \<Rightarrow> Some (Inl ENOMEM)
        | Some f2 \<Rightarrow>
            do { (_, d) \<leftarrow> av_fifo_generic_read f len;
                 Some (Inr (f2\<lparr>buffer := d @ drop len (buffer f2), wptr := wptr f2 + len,
                               wndx := wndx f2 + of_nat len\<rparr>)) }
      else Some (Inr f))"

definition av_fifo_grow :: "allocator \<Rightarrow> bool \<Rightarrow> AVFifoBuffer \<Rightarrow> u32 \<Rightarrow> (averror + AVFifoBuffer) option" where
  "av_fifo_grow av_malloc hdr f sz =
     (let old_size = of_nat (fifo_end f) :: u32;
          used = word_of_int (av_fifo_size f) :: u32
      in if sz + used < sz then Some (Inl EINVAL)
         else let sz = sz + used
              in if old_size < sz then av_fifo_realloc2 av_malloc hdr f (unat (max sz (2 * old_size)))
                 else Some (Inr f))"

text \<open>\<open>av_fifo_peek2\<close> of \<open>fifo.h\<close>, the offset of the byte in the buffer.\<close>

definition av_fifo_peek2 :: "AVFifoBuffer \<Rightarrow> int \<Rightarrow> int" where
  "av_fifo_peek2 f offs =
     (let ptr = int (rptr f) + offs; e = int (fifo_end f)
      in if ptr \<ge> e then ptr - e else if ptr < 0 then e - (- ptr) else ptr)"

section \<open>What a byte queue promises\<close>

text \<open>A script of operations, the bytes it takes in, and whether it stays within the capacity.\<close>

datatype fifo_op = Write bytes | Read nat

fun fifo_run ::
  "('f \<Rightarrow> bytes \<Rightarrow> 'f option) \<Rightarrow> ('f \<Rightarrow> nat \<Rightarrow> ('f \<times> bytes) option) \<Rightarrow> 'f \<Rightarrow> fifo_op list \<Rightarrow> ('f \<times> bytes) option" where
  "fifo_run push pull f [] = Some (f, [])"
| "fifo_run push pull f (Write d # ops) = do { f \<leftarrow> push f d; fifo_run push pull f ops }"
| "fifo_run push pull f (Read n # ops) =
     do { (f, d) \<leftarrow> pull f n; (f, ds) \<leftarrow> fifo_run push pull f ops; Some (f, d @ ds) }"

fun ops_input :: "fifo_op list \<Rightarrow> bytes" where
  "ops_input [] = []"
| "ops_input (Write d # ops) = d @ ops_input ops"
| "ops_input (Read n # ops) = ops_input ops"

fun ops_fit :: "nat \<Rightarrow> nat \<Rightarrow> fifo_op list \<Rightarrow> bool" where
  "ops_fit cap n [] \<longleftrightarrow> True"
| "ops_fit cap n (Write d # ops) \<longleftrightarrow> n + length d \<le> cap \<and> ops_fit cap (n + length d) ops"
| "ops_fit cap n (Read k # ops) \<longleftrightarrow> k \<le> n \<and> ops_fit cap (n - k) ops"

locale byte_queue =
  fixes inv :: "'f \<Rightarrow> bool"
    and contents :: "'f \<Rightarrow> bytes"
    and capacity :: "'f \<Rightarrow> nat"
    and push :: "'f \<Rightarrow> bytes \<Rightarrow> 'f option"
    and pull :: "'f \<Rightarrow> nat \<Rightarrow> ('f \<times> bytes) option"
  assumes write_appends: "inv f \<Longrightarrow> length (contents f) + length d \<le> capacity f \<Longrightarrow>
      \<exists>f'. push f d = Some f' \<and> inv f' \<and> contents f' = contents f @ d \<and> capacity f' = capacity f"
    and read_takes: "inv f \<Longrightarrow> n \<le> length (contents f) \<Longrightarrow>
      \<exists>f'. pull f n = Some (f', take n (contents f)) \<and> inv f' \<and> contents f' = drop n (contents f) \<and>
        capacity f' = capacity f"
begin

text \<open>Whatever the interleaving, the bytes come out in the order they went in and none is lost.\<close>

lemma run_stream:
  "inv f \<Longrightarrow> ops_fit (capacity f) (length (contents f)) ops \<Longrightarrow>
   \<exists>f' out. fifo_run push pull f ops = Some (f', out) \<and> inv f' \<and> capacity f' = capacity f \<and>
     out @ contents f' = contents f @ ops_input ops"
proof (induction ops arbitrary: f)
  case Nil
  then show ?case by simp
next
  case (Cons op ops)
  show ?case
  proof (cases op)
    case (Write d)
    then obtain f' where "push f d = Some f'" "inv f'" "contents f' = contents f @ d" "capacity f' = capacity f"
      using write_appends Cons.prems by fastforce
    with Cons.IH [of f'] Cons.prems Write show ?thesis by (fastforce simp: add.commute)
  next
    case (Read n)
    then obtain f' where f': "pull f n = Some (f', take n (contents f))" "inv f'"
      "contents f' = drop n (contents f)" "capacity f' = capacity f"
      using read_takes [of f n] Cons.prems by auto
    with Cons.IH [of f'] Cons.prems Read obtain f'' out where
      "fifo_run push pull f' ops = Some (f'', out)" "inv f''" "capacity f'' = capacity f"
      "out @ contents f'' = drop n (contents f) @ ops_input ops" by fastforce
    moreover from this have "(take n (contents f) @ out) @ contents f'' = contents f @ ops_input ops"
      by (metis append.assoc append_take_drop_id)
    ultimately show ?thesis using f' Read by simp
  qed
qed

end

section \<open>The ring buffer is such a queue\<close>

definition fifo_count :: "AVFifoBuffer \<Rightarrow> nat" where
  "fifo_count f = unat (wndx f - rndx f)"

definition fifo_contents :: "AVFifoBuffer \<Rightarrow> bytes" where
  "fifo_contents f = map (\<lambda>i. buffer f ! ((rptr f + i) mod fifo_end f)) [0..<fifo_count f]"

definition fifo_ok :: "AVFifoBuffer \<Rightarrow> bool" where
  "fifo_ok f \<longleftrightarrow> 0 < fifo_end f \<and> fifo_end f < 2 ^ 31 \<and> rptr f < fifo_end f \<and> fifo_count f \<le> fifo_end f \<and>
     wptr f = (rptr f + fifo_count f) mod fifo_end f"

lemma length_fifo_contents [simp]: "length (fifo_contents f) = fifo_count f"
  by (simp add: fifo_contents_def)

lemma nth_fifo_contents [simp]:
  "i < fifo_count f \<Longrightarrow> fifo_contents f ! i = buffer f ! ((rptr f + i) mod fifo_end f)"
  by (simp add: fifo_contents_def)

lemma ring_mod: "a < 2 * c \<Longrightarrow> a mod c = (if a < c then a else a - c)" for a c :: nat
  by (simp add: le_mod_geq)

lemma unat_lt32: "unat (x :: u32) < 4294967296"
proof -
  have "unat x < 2 ^ LENGTH(32)" by (rule unsigned_less)
  then show ?thesis by simp
qed

lemma count_add:
  fixes w r :: u32
  assumes "unat (w - r) + n < 2 ^ 32"
  shows "unat (w + of_nat n - r) = unat (w - r) + (n :: nat)"
proof -
  have "w + of_nat n - r = (w - r) + of_nat n" by simp
  also have "unat \<dots> = unat (w - r) + n"
    using assms by (simp add: unat_word_ariths unat_of_nat)
  finally show ?thesis .
qed

lemma count_sub:
  fixes w r :: u32
  assumes "n \<le> unat (w - r)"
  shows "unat (w - (r + of_nat n)) = unat (w - r) - (n :: nat)"
proof -
  have "of_nat n \<le> w - r" "unat (of_nat n :: u32) = n"
    using assms unat_lt32 [of "w - r"] by (simp_all add: word_le_nat_alt unat_of_nat)
  then show ?thesis by (simp add: unat_sub diff_diff_eq [symmetric])
qed

text \<open>The copy into the ring: at most one wrap.\<close>

lemma fifo_write_once:
  assumes "n \<le> length b - wp"
  shows "fifo_write_loop b wp wn src n =
    Some (take wp b @ take n src @ drop (wp + n) b,
      if wp + n \<ge> length (take wp b @ take n src @ drop (wp + n) b) then 0 else wp + n, wn + of_nat n)"
  using assms by (subst fifo_write_loop.simps) (simp add: Let_def)

lemma fifo_write_loop_ring:
  assumes "wp < length b" "n \<le> length b" "length src = n"
  obtains b' where "fifo_write_loop b wp wn src n = Some (b', (wp + n) mod length b, wn + of_nat n)"
    "length b' = length b"
    "\<And>j. j < length b \<Longrightarrow> b' ! j = (if wp \<le> j \<and> j < wp + n then src ! (j - wp)
        else if j + length b < wp + n then src ! (j + length b - wp) else b ! j)"
proof (cases "n \<le> length b - wp")
  case True
  let ?b = "take wp b @ src @ drop (wp + n) b"
  have l: "length ?b = length b" using assms True by simp
  have "fifo_write_loop b wp wn src n = Some (?b, (wp + n) mod length b, wn + of_nat n)"
    using fifo_write_once [OF True, of wn src] assms True l by (simp add: ring_mod)
  then show thesis using assms True
    by (intro that [of ?b]) (auto simp: nth_append l)
next
  case False
  define k where "k = length b - wp"
  define b1 where "b1 = take wp b @ take k src"
  define b2 where "b2 = take 0 b1 @ take (n - k) (drop k src) @ drop (0 + (n - k)) b1"
  have k: "0 < k" "k < n" "wp + k = length b" "n - k \<le> length b" using assms False by (simp_all add: k_def)
  have l: "length b1 = length b" "length b2 = length b"
    using assms k by (simp_all add: b1_def b2_def)
  have "fifo_write_loop b wp wn src n = fifo_write_loop b1 0 (wn + of_nat k) (drop k src) (n - k)"
    using k l assms by (subst fifo_write_loop.simps) (simp add: Let_def b1_def min_def flip: k_def)
  also have "\<dots> = Some (b2, (wp + n) mod length b, wn + of_nat n)"
    using fifo_write_once [of "n - k" b1 0 "wn + of_nat k" "drop k src", folded b2_def] k l assms
    by (auto simp: ring_mod of_nat_diff)
  finally show thesis using l k assms
    by (intro that [of b2]) (auto simp: b2_def b1_def nth_append add.commute simp flip: k(3))
qed

lemma av_fifo_write_queue:
  assumes ok: "fifo_ok f" and room: "length (fifo_contents f) + length d \<le> fifo_end f"
  shows "\<exists>f'. map_option fst (av_fifo_generic_write f d (length d)) = Some f' \<and> fifo_ok f' \<and>
    fifo_contents f' = fifo_contents f @ d \<and> fifo_end f' = fifo_end f"
proof -
  let ?c = "fifo_end f" and ?n = "length d" and ?m = "fifo_count f" and ?w = "wptr f"
  note o = ok [unfolded fifo_ok_def]
  have w: "?w < ?c" using o by simp
  have wm: "?w = (if rptr f + ?m < ?c then rptr f + ?m else rptr f + ?m - ?c)"
    using o by (simp add: ring_mod)
  obtain b' where l: "fifo_write_loop (buffer f) ?w (wndx f) d ?n =
      Some (b', (?w + ?n) mod ?c, wndx f + of_nat ?n)" "length b' = ?c"
    and nth: "\<And>j. j < ?c \<Longrightarrow> b' ! j = (if ?w \<le> j \<and> j < ?w + ?n then d ! (j - ?w)
        else if j + ?c < ?w + ?n then d ! (j + ?c - ?w) else buffer f ! j)"
    using fifo_write_loop_ring [OF w _ refl, of d "wndx f"] room by auto
  define f' where "f' = f\<lparr>buffer := b', wptr := (?w + ?n) mod ?c, wndx := wndx f + of_nat ?n\<rparr>"
  have code: "map_option fst (av_fifo_generic_write f d ?n) = Some f'"
    by (simp add: av_fifo_generic_write_def l f'_def)
  have cnt: "fifo_count f' = ?m + ?n"
    using o room by (simp add: fifo_count_def f'_def count_add)
  have "fifo_ok f'"
    using o room l(2) cnt by (simp add: fifo_ok_def f'_def mod_add_left_eq add.assoc)
  moreover have "fifo_contents f' = fifo_contents f @ d"
  proof (rule nth_equalityI)
    show "length (fifo_contents f') = length (fifo_contents f @ d)" by (simp add: cnt)
    fix i assume i: "i < length (fifo_contents f')"
    let ?j = "(rptr f + i) mod ?c"
    have ij: "i < ?c" using i cnt room by simp
    have j: "?j = (if rptr f + i < ?c then rptr f + i else rptr f + i - ?c)"
      using o ij by (simp add: ring_mod)
    have jc: "?j < ?c" using o by (intro mod_less_divisor) blast
    have "fifo_contents f' ! i = b' ! ?j" using i l(2) by (simp add: f'_def)
    also have "\<dots> = (fifo_contents f @ d) ! i"
    proof (cases "i < ?m")
      case True
      then have n: "\<not> (?w \<le> ?j \<and> ?j < ?w + ?n)" "\<not> ?j + ?c < ?w + ?n"
        using wm j o room by (auto split: if_splits)
      show ?thesis unfolding nth [OF jc] if_not_P [OF n(1)] if_not_P [OF n(2)]
        using True by (simp add: nth_append)
    next
      case False
      then have "(?w \<le> ?j \<and> ?j < ?w + ?n \<and> ?j - ?w = i - ?m) \<or>
          (\<not> ?w \<le> ?j \<and> ?j + ?c < ?w + ?n \<and> ?j + ?c - ?w = i - ?m)"
        using wm j o room i cnt by (auto split: if_splits)
      then show ?thesis using False nth [OF jc] by (auto simp: nth_append)
    qed
    finally show "fifo_contents f' ! i = (fifo_contents f @ d) ! i" .
  qed
  moreover have "fifo_end f' = fifo_end f" using l(2) by (simp add: f'_def)
  ultimately show ?thesis using code by blast
qed

text \<open>Removing bytes from the front, and copying them out.\<close>

lemma nth_drop_contents:
  assumes "fifo_ok f" "n \<le> fifo_count f"
  defines "f' \<equiv> av_fifo_drain f n"
  shows "fifo_ok f'" "fifo_contents f' = drop n (fifo_contents f)" "fifo_count f' = fifo_count f - n"
    "buffer f' = buffer f" "rptr f' = (rptr f + n) mod fifo_end f"
proof -
  note o = assms(1) [unfolded fifo_ok_def]
  show b: "buffer f' = buffer f" by (simp add: f'_def av_fifo_drain_def Let_def)
  show r: "rptr f' = (rptr f + n) mod fifo_end f"
    using o assms(2) by (simp add: f'_def av_fifo_drain_def ring_mod Let_def)
  have w: "wptr f' = wptr f" by (simp add: f'_def av_fifo_drain_def Let_def)
  show c: "fifo_count f' = fifo_count f - n"
    using assms(2) by (simp add: f'_def av_fifo_drain_def fifo_count_def count_sub Let_def)
  have "(rptr f' + fifo_count f') mod fifo_end f' = (rptr f + n + (fifo_count f - n)) mod fifo_end f"
    by (simp only: b r c mod_add_left_eq)
  then have "wptr f' = (rptr f' + fifo_count f') mod fifo_end f'" using o assms(2) by (simp add: w)
  moreover have "fifo_count f' \<le> fifo_end f'" unfolding b c using o by linarith
  ultimately show "fifo_ok f'" using o by (simp add: fifo_ok_def b r)
  show "fifo_contents f' = drop n (fifo_contents f)"
    by (rule nth_equalityI) (simp_all add: b c r mod_add_left_eq add.assoc)
qed

lemma take_ring:
  assumes "rp < length b" "n \<le> length b - rp"
  shows "take n (drop rp b) = map (\<lambda>i. b ! ((rp + i) mod length b)) [0..<n]"
  using assms by (intro nth_equalityI) auto

lemma fifo_front:
  assumes "fifo_ok f" "n \<le> fifo_count f" "n \<le> fifo_end f - rptr f"
  shows "take n (drop (rptr f) (buffer f)) = take n (fifo_contents f)"
  using assms by (simp add: take_ring fifo_ok_def fifo_contents_def take_map)

lemma av_fifo_read_queue:
  assumes ok: "fifo_ok f" and n: "n \<le> length (fifo_contents f)"
  shows "av_fifo_generic_read f n = Some (av_fifo_drain f n, take n (fifo_contents f))"
proof (cases "n \<le> fifo_end f - rptr f")
  case True
  then show ?thesis
    using fifo_front [OF ok _ True] n by (subst av_fifo_generic_read.simps) (simp add: Let_def)
next
  case False
  define k where "k = fifo_end f - rptr f"
  let ?f = "av_fifo_drain f k"
  have k: "k < n" "0 < k" using False ok by (auto simp: k_def fifo_ok_def)
  note d = nth_drop_contents [OF ok, of k]
  have kn: "k \<le> fifo_count f" using k n by simp
  have r: "rptr ?f = 0" using ok d(5) [OF kn] by (simp add: k_def fifo_ok_def)
  have e: "rptr f + k = fifo_end f" "n \<le> fifo_end f" using ok n by (simp_all add: k_def fifo_ok_def)
  then have "n - k \<le> fifo_end ?f - rptr ?f" using d(4) [OF kn] by (simp add: r)
  then have "av_fifo_generic_read ?f (n - k) = Some (av_fifo_drain ?f (n - k), take (n - k) (fifo_contents ?f))"
    using fifo_front [OF d(1) [OF kn], of "n - k"] d(3) [OF kn] n k(1)
    by (subst av_fifo_generic_read.simps) (simp add: Let_def)
  moreover have "take k (fifo_contents f) @ take (n - k) (fifo_contents ?f) = take n (fifo_contents f)"
    using k by (simp add: d(2) [OF kn] take_add [symmetric])
  moreover have "av_fifo_drain ?f (n - k) = av_fifo_drain f n"
  proof -
    have "rptr f + n = fifo_end f + (n - k)" "n - k < fifo_end f" using e k by linarith+
    moreover have "of_nat k + of_nat (n - k) = (of_nat n :: u32)" using k by (simp flip: of_nat_add)
    ultimately show ?thesis using e by (simp add: av_fifo_drain_def Let_def add.assoc)
  qed
  ultimately show ?thesis
    using k fifo_front [OF ok kn] by (subst av_fifo_generic_read.simps) (simp add: Let_def min_def flip: k_def)
qed

interpretation fifo: byte_queue fifo_ok fifo_contents "\<lambda>f. fifo_end f"
  "\<lambda>f d. map_option fst (av_fifo_generic_write f d (length d))" av_fifo_generic_read
proof unfold_locales
  show "\<exists>f'. map_option fst (av_fifo_generic_write f d (length d)) = Some f' \<and> fifo_ok f' \<and>
      fifo_contents f' = fifo_contents f @ d \<and> fifo_end f' = fifo_end f"
    if "fifo_ok f" "length (fifo_contents f) + length d \<le> fifo_end f" for f d
    using that by (rule av_fifo_write_queue)
  show "\<exists>f'. av_fifo_generic_read f n = Some (f', take n (fifo_contents f)) \<and> fifo_ok f' \<and>
      fifo_contents f' = drop n (fifo_contents f) \<and> fifo_end f' = fifo_end f"
    if "fifo_ok f" "n \<le> length (fifo_contents f)" for f n
    using av_fifo_read_queue [OF that] nth_drop_contents [OF that(1), of n] that(2) by simp
qed

lemma fifo_size_space:
  assumes "fifo_ok f"
  shows "av_fifo_size f = int (fifo_count f)" "av_fifo_space f = int (fifo_end f) - int (fifo_count f)"
proof -
  have "is_s32 (int (fifo_count f))" "is_s32 (int (fifo_end f) - int (fifo_count f))"
    using assms by (auto simp: fifo_ok_def is_s32_def)
  moreover have "uint (wndx f - rndx f) = int (fifo_count f)" by (simp add: fifo_count_def)
  ultimately show "av_fifo_size f = int (fifo_count f)"
    "av_fifo_space f = int (fifo_end f) - int (fifo_count f)"
    by (simp_all add: av_fifo_size_def av_fifo_space_def)
qed

text \<open>C6: the ring buffer is a byte queue. For every script of writes and reads that never asks for more room
  or more data than there is, \<open>av_fifo_generic_write\<close> and \<open>av_fifo_generic_read\<close> return, and what is read,
  followed by what is left, is what was stored, followed by what was written, in order; the
  counters may wrap at \<open>2 ^ 32\<close> any number of times.\<close>

theorem av_fifo_is_queue:
  assumes "fifo_ok f" and "ops_fit (fifo_end f) (fifo_count f) ops"
  shows "\<exists>f' out. fifo_run (\<lambda>f d. map_option fst (av_fifo_generic_write f d (length d)))
      av_fifo_generic_read f ops = Some (f', out) \<and> fifo_ok f' \<and> fifo_end f' = fifo_end f \<and>
    out @ fifo_contents f' = fifo_contents f @ ops_input ops"
  using fifo.run_stream [OF assms(1), of ops] assms(2) by simp

lemma fifo_ok_reset: "0 < length b \<Longrightarrow> length b < 2 ^ 31 \<Longrightarrow>
    fifo_ok \<lparr>buffer = b, rptr = 0, wptr = 0, rndx = r, wndx = r\<rparr>"
  by (simp add: fifo_ok_def fifo_count_def)

theorem av_fifo_is_queue_witness:
  "\<exists>f' out. fifo_run (\<lambda>f d. map_option fst (av_fifo_generic_write f d (length d))) av_fifo_generic_read
     \<lparr>buffer = [0, 0, 0], rptr = 0, wptr = 0, rndx = - 1, wndx = - 1\<rparr>
     [Write [1, 2], Read 1, Write [3, 4], Read 3] = Some (f', out) \<and> out @ fifo_contents f' = [1, 2, 3, 4]"
  using av_fifo_is_queue [OF fifo_ok_reset, of "[0, 0, 0]" "- 1" "[Write [1, 2], Read 1, Write [3, 4], Read 3]"]
  by (auto simp: fifo_count_def fifo_contents_def)

section \<open>Peeking\<close>

lemma fifo_peek_contents:
  assumes ok: "fifo_ok f" and n: "n \<le> fifo_count f"
  shows "av_fifo_generic_peek f n = Some (take n (fifo_contents f))"
proof -
  have loop: "fifo_peek_loop (buffer f) (rptr f) n = map_option snd (av_fifo_generic_read f n)"
    if "fifo_ok f" "n \<le> fifo_count f" "n \<le> fifo_end f - rptr f" for f n
    using that by (subst fifo_peek_loop.simps, subst av_fifo_generic_read.simps) (simp add: Let_def)
  show ?thesis
  proof (cases "n \<le> fifo_end f - rptr f")
    case True
    then show ?thesis
      using loop [OF ok n True] av_fifo_read_queue [OF ok, of n] n by (simp add: av_fifo_generic_peek_def)
  next
    case False
    define k where "k = fifo_end f - rptr f"
    let ?f = "av_fifo_drain f k"
    have k: "k < n" "0 < k" using False ok by (auto simp: k_def fifo_ok_def)
    have kn: "k \<le> fifo_count f" using k n by simp
    note d = nth_drop_contents [OF ok kn]
    have e: "rptr f + k = fifo_end f" "n \<le> fifo_end f" using ok n by (simp_all add: k_def fifo_ok_def)
    have r: "rptr ?f = 0" using d(5) e by simp
    have "fifo_peek_loop (buffer f) 0 (n - k) = Some (take (n - k) (drop k (fifo_contents f)))"
      using loop [OF d(1), of "n - k"] av_fifo_read_queue [OF d(1), of "n - k"] n e by (simp add: r d(2-4))
    then show ?thesis
      using k e fifo_front [OF ok kn]
      by (subst av_fifo_generic_peek_def, subst fifo_peek_loop.simps)
        (simp add: Let_def min_def take_add [symmetric] flip: k_def)
  qed
qed

text \<open>A field that does not wrap around the end is handed to \<open>func\<close> in one piece.\<close>

lemma fifo_peek_at_one_call:
  assumes ok: "fifo_ok f" and n: "0 < n" "off + n \<le> fifo_count f"
    and whole: "(rptr f + off) mod fifo_end f + n \<le> fifo_end f"
  shows "av_fifo_generic_peek_at_func f off n = Some [take n (drop off (fifo_contents f))]"
proof -
  let ?r = "(rptr f + off) mod fifo_end f"
  have o: "rptr f < fifo_end f" "fifo_count f \<le> fifo_end f" using ok by (auto simp: fifo_ok_def)
  then have r: "(if off \<ge> fifo_end f - rptr f then rptr f + off - fifo_end f else rptr f + off) = ?r"
    using n by (auto simp: ring_mod)
  have "take n (drop ?r (buffer f)) = take n (drop off (fifo_contents f))"
  proof (rule nth_equalityI)
    fix i assume "i < length (take n (drop ?r (buffer f)))"
    then have i: "i < n" by simp
    with whole have "(rptr f + (off + i)) mod fifo_end f = ?r + i"
      using mod_add_left_eq [of "rptr f + off" "fifo_end f" i] by (simp add: add.assoc)
    then show "take n (drop ?r (buffer f)) ! i = take n (drop off (fifo_contents f)) ! i"
      using i whole n by simp
  qed (use whole n in simp)
  moreover have "fifo_peek_at_calls b rp 0 = Some []" for b rp
    by (subst fifo_peek_at_calls.simps) simp
  moreover have "min (fifo_end f - ?r) n = n" "\<not> fifo_end f \<le> ?r" using whole n(1) by simp_all
  ultimately show ?thesis
    using n unfolding av_fifo_generic_peek_at_func_def Let_def r
    by (subst fifo_peek_at_calls.simps) (simp add: Let_def)
qed

lemma fifo_peek2:
  assumes "fifo_ok f" "i < fifo_count f"
  shows "buffer f ! nat (av_fifo_peek2 f (int i)) = fifo_contents f ! i"
proof -
  have "nat (av_fifo_peek2 f (int i)) = (rptr f + i) mod fifo_end f"
    using assms by (auto simp: av_fifo_peek2_def Let_def fifo_ok_def ring_mod)
  then show ?thesis using assms by simp
qed

section \<open>Growing\<close>

text \<open>What is asked of the allocator: the block it gives has the size asked for.\<close>

definition allocator_ok :: "allocator \<Rightarrow> bool" where
  "allocator_ok av_malloc \<longleftrightarrow> (\<forall>n b. av_malloc n = Some b \<longrightarrow> length b = n)"

lemma av_fifo_realloc2_correct:
  assumes ok: "fifo_ok f" and m: "allocator_ok av_malloc" and "new_size < 2 ^ 31"
  shows "av_fifo_realloc2 av_malloc hdr f new_size = Some (Inl ENOMEM) \<and>
      fifo_end f < new_size \<and> (av_malloc new_size = None \<or> \<not> hdr) \<or>
    (\<exists>f'. av_fifo_realloc2 av_malloc hdr f new_size = Some (Inr f') \<and> fifo_ok f' \<and>
      fifo_contents f' = fifo_contents f \<and> fifo_end f' = max (fifo_end f) new_size)"
proof (cases "fifo_end f < new_size")
  case False
  then show ?thesis using ok by (simp add: av_fifo_realloc2_def)
next
  case True
  note o = ok [unfolded fifo_ok_def]
  show ?thesis
  proof (cases "av_fifo_alloc av_malloc hdr new_size")
    case None
    then show ?thesis using True
      by (auto simp: av_fifo_realloc2_def av_fifo_alloc_def fifo_alloc_common_def split: option.splits if_splits)
  next
    case (Some f2)
    then obtain b where b: "av_malloc new_size = Some b" "length b = new_size"
      and f2: "f2 = \<lparr>buffer = b, rptr = 0, wptr = 0, rndx = 0, wndx = 0\<rparr>"
      using m by (auto simp: av_fifo_alloc_def fifo_alloc_common_def av_fifo_reset_def allocator_ok_def
          split: option.splits if_splits)
    let ?n = "fifo_count f"
    define f' where "f' = f2\<lparr>buffer := fifo_contents f @ drop ?n b, wptr := ?n, wndx := of_nat ?n\<rparr>"
    have code: "av_fifo_realloc2 av_malloc hdr f new_size = Some (Inr f')"
      using True Some av_fifo_read_queue [OF ok, of ?n] fifo_size_space(1) [OF ok]
      by (simp add: av_fifo_realloc2_def f'_def f2 Let_def)
    have e: "fifo_end f' = new_size" using o True b(2) by (simp add: f'_def)
    have c: "fifo_count f' = ?n"
      using o by (simp add: f'_def f2 fifo_count_def unat_of_nat)
    have "fifo_ok f'" using o True assms(3) e c by (simp add: fifo_ok_def f'_def f2)
    moreover have "fifo_contents f' = fifo_contents f"
      using o True e c by (intro nth_equalityI) (auto simp: f'_def f2 nth_append)
    ultimately show ?thesis using code e True by simp
  qed
qed

text \<open>Growing keeps the queue. \<open>av_fifo_realloc2\<close> either reports \<open>ENOMEM\<close>, which takes a failing allocation,
  or gives a well-formed buffer of at least the sz asked for with the same contents; \<open>av_fifo_grow\<close> in
  addition reports \<open>EINVAL\<close> exactly when the sizes overflow 32 bits, and on success leaves room for \<open>sz\<close>
  more bytes.\<close>

theorem av_fifo_grow_correct:
  assumes "fifo_ok f" "allocator_ok av_malloc" "2 * fifo_end f < 2 ^ 31"
    and "fifo_count f + unat sz < 2 ^ 31 \<or> 2 ^ 32 \<le> fifo_count f + unat sz"
  shows "av_fifo_grow av_malloc hdr f sz =
      (if 2 ^ 32 \<le> fifo_count f + unat sz then Some (Inl EINVAL)
       else if fifo_end f < fifo_count f + unat sz
            then av_fifo_realloc2 av_malloc hdr f (max (fifo_count f + unat sz) (2 * fifo_end f))
            else Some (Inr f)) \<and>
    (\<forall>f'. av_fifo_grow av_malloc hdr f sz = Some (Inr f') \<longrightarrow> fifo_ok f' \<and>
      fifo_contents f' = fifo_contents f \<and> int (unat sz) \<le> av_fifo_space f') \<and>
    (\<forall>e. av_fifo_grow av_malloc hdr f sz = Some (Inl e) \<longrightarrow> e = EINVAL \<or> e = ENOMEM) \<and>
    av_fifo_grow av_malloc hdr f sz \<noteq> None"
proof -
  let ?n = "fifo_count f" and ?e = "fifo_end f"
  define u :: u32 where "u = of_nat ?n"
  define old :: u32 where "old = of_nat ?e"
  have n: "?n \<le> ?e" "?e < 2 ^ 31" using assms(1) by (simp_all add: fifo_ok_def)
  have u: "word_of_int (av_fifo_size f) = u" "unat u = ?n" "unat old = ?e" "unat (2 * old) = 2 * ?e"
    using n assms(3) fifo_size_space(1) [OF assms(1)]
    by (simp_all add: u_def old_def unat_of_nat unat_word_ariths)
  have s: "unat (sz + u) = (unat sz + ?n) mod 2 ^ 32" by (simp add: unat_word_ariths u)
  have over: "sz + u < sz \<longleftrightarrow> 2 ^ 32 \<le> ?n + unat sz"
    using n s unat_lt32 [of sz] by (simp add: word_less_nat_alt ring_mod add.commute, arith)
  have code: "av_fifo_grow av_malloc hdr f sz =
      (if 2 ^ 32 \<le> ?n + unat sz then Some (Inl EINVAL)
       else if ?e < ?n + unat sz then av_fifo_realloc2 av_malloc hdr f (max (?n + unat sz) (2 * ?e))
            else Some (Inr f))"
  proof (cases "2 ^ 32 \<le> ?n + unat sz")
    case True
    then show ?thesis using over by (simp add: av_fifo_grow_def Let_def u(1))
  next
    case False
    then have "unat (sz + u) = ?n + unat sz" using s by simp
    then have "old < sz + u \<longleftrightarrow> ?e < ?n + unat sz" "unat (max (sz + u) (2 * old)) = max (?n + unat sz) (2 * ?e)"
      by (simp_all add: word_less_nat_alt u(3,4) max_def word_le_nat_alt)
    then show ?thesis using False over by (simp add: av_fifo_grow_def Let_def u(1) flip: old_def)
  qed
  have small: "max (?n + unat sz) (2 * ?e) < 2 ^ 31" if "\<not> 2 ^ 32 \<le> ?n + unat sz"
    using that assms(3,4) by simp
  note r = av_fifo_realloc2_correct [OF assms(1,2) small, of hdr]
  have space: "int (unat sz) \<le> av_fifo_space f'"
    if "fifo_ok f'" "fifo_contents f' = fifo_contents f" "?n + unat sz \<le> fifo_end f'" for f'
    using that fifo_size_space(2) [OF that(1)] by (metis length_fifo_contents le_diff_eq add.commute of_nat_add of_nat_le_iff)
  show ?thesis
    unfolding code using r space [OF assms(1) refl] space assms(1) by auto
qed

theorem av_fifo_grow_correct_witness:
  "av_fifo_grow (\<lambda>n. Some (replicate n 0)) True \<lparr>buffer = [1, 2], rptr = 0, wptr = 0, rndx = 7, wndx = 7\<rparr> 3 \<noteq> None"
  by (rule av_fifo_grow_correct [THEN conjunct2, THEN conjunct2, THEN conjunct2])
    (simp_all add: allocator_ok_def fifo_count_def fifo_ok_reset)

end
