(* ===== verification/AvTea.thy ===== *)
theory AvTea imports BlockCipher "HOL-Library.Signed_Division"
begin

text \<open>\<open>libavutil/tea.c\<close>: the TEA block cipher with a run-time number of rounds.\<close>

record AVTEA =
  tea_key :: "u32 list"   \<comment> \<open>\<open>uint32_t key[16]\<close>, of which four are used\<close>
  tea_rounds :: int

definition av_tea_init :: "bytes \<Rightarrow> int \<Rightarrow> AVTEA" where
  "av_tea_init key rounds =
     \<lparr>tea_key = map (\<lambda>i. AV_RB32 key (4 * i)) [0..<4], tea_rounds = rounds\<rparr>"

definition tea_delta :: u32 where
  "tea_delta = 0x9E3779B9"

text \<open>One turn of each loop, for the running \<open>sum\<close> \<open>s\<close>.\<close>

fun tea_estep :: "u32 list \<Rightarrow> u32 \<times> u32 \<Rightarrow> u32 \<Rightarrow> u32 \<times> u32" where
  "tea_estep k (v0, v1) s =
     (let v0 = v0 + ((shl v1 4 + k ! 0) XOR (v1 + s) XOR (shr v1 5 + k ! 1));
          v1 = v1 + ((shl v0 4 + k ! 2) XOR (v0 + s) XOR (shr v0 5 + k ! 3))
      in (v0, v1))"

fun tea_dstep :: "u32 list \<Rightarrow> u32 \<times> u32 \<Rightarrow> u32 \<Rightarrow> u32 \<times> u32" where
  "tea_dstep k (v0, v1) s =
     (let v1 = v1 - ((shl v0 4 + k ! 2) XOR (v0 + s) XOR (shr v0 5 + k ! 3));
          v0 = v0 - ((shl v1 4 + k ! 0) XOR (v1 + s) XOR (shr v1 5 + k ! 1))
      in (v0, v1))"

fun tea_enc_loop :: "nat \<Rightarrow> u32 list \<Rightarrow> u32 \<Rightarrow> u32 \<times> u32 \<Rightarrow> u32 \<times> u32" where
  "tea_enc_loop 0 k s v = v"
| "tea_enc_loop (Suc n) k s v = (let s = s + tea_delta in tea_enc_loop n k s (tea_estep k v s))"

fun tea_dec_loop :: "nat \<Rightarrow> u32 list \<Rightarrow> u32 \<Rightarrow> u32 \<times> u32 \<Rightarrow> u32 \<times> u32" where
  "tea_dec_loop 0 k s v = v"
| "tea_dec_loop (Suc n) k s v = tea_dec_loop n k (s - tea_delta) (tea_dstep k v s)"

definition tea_crypt_ecb :: "AVTEA \<Rightarrow> bytes \<Rightarrow> bool \<Rightarrow> bytes option \<Rightarrow> bytes \<times> bytes option" where
  "tea_crypt_ecb ctx src decrypt iv =
     (let rounds = tea_rounds ctx; k = tea_key ctx;
          v0 = AV_RB32 src 0; v1 = AV_RB32 src 4 in
      if decrypt then
        let (v0, v1) = tea_dec_loop (nat (rounds sdiv 2)) k (tea_delta * word_of_int (rounds sdiv 2)) (v0, v1) in
        (case iv of
           None \<Rightarrow> (AV_WB32 v0 @ AV_WB32 v1, None)
         | Some w \<Rightarrow> (AV_WB32 (v0 XOR AV_RB32 w 0) @ AV_WB32 (v1 XOR AV_RB32 w 4), Some (take 8 src)))
      else
        let (v0, v1) = tea_enc_loop (nat (rounds sdiv 2)) k 0 (v0, v1) in
        (AV_WB32 v0 @ AV_WB32 v1, iv))"

fun av_tea_crypt :: "AVTEA \<Rightarrow> bytes \<Rightarrow> nat \<Rightarrow> bytes option \<Rightarrow> bool \<Rightarrow> bytes \<times> bytes option" where
  "av_tea_crypt ctx src 0 iv decrypt = ([], iv)"
| "av_tea_crypt ctx src (Suc count) iv decrypt =
     (let (d, iv') =
        (if decrypt then tea_crypt_ecb ctx (take 8 src) decrypt iv
         else case iv of
             None \<Rightarrow> (fst (tea_crypt_ecb ctx (take 8 src) decrypt None), None)
           | Some w \<Rightarrow>
               let x = xor_bytes (take 8 src) w;
                   d = fst (tea_crypt_ecb ctx x decrypt None)
               in (d, Some d));
          (ds, iv'') = av_tea_crypt ctx (drop 8 src) count iv' decrypt
      in (d @ ds, iv''))"

section \<open>The rounds are inverse\<close>

lemma tea_dstep_estep: "tea_dstep k (tea_estep k v s) s = v"
  by (cases v) (simp add: Let_def)

lemma tea_enc_loop_foldl:
  "tea_enc_loop n k s v = foldl (tea_estep k) v (map (\<lambda>i. s + tea_delta * of_nat (Suc i)) [0..<n])"
proof (induction n arbitrary: s v)
  case (Suc n)
  have "[0..<Suc n] = 0 # map Suc [0..<n]" by (simp add: map_Suc_upt upt_conv_Cons)
  then show ?case using Suc by (simp add: Let_def comp_def algebra_simps del: upt_Suc)
qed simp

lemma tea_dec_loop_foldl:
  "tea_dec_loop n k s v = foldl (tea_dstep k) v (map (\<lambda>i. s - tea_delta * of_nat i) [0..<n])"
proof (induction n arbitrary: s v)
  case (Suc n)
  have "[0..<Suc n] = 0 # map Suc [0..<n]" by (simp add: map_Suc_upt upt_conv_Cons)
  then show ?case using Suc by (simp add: comp_def algebra_simps del: upt_Suc)
qed simp

lemma tea_schedule_rev:
  "map (\<lambda>i. tea_delta * of_nat n - tea_delta * of_nat i) [0..<n] =
   rev (map (\<lambda>i. 0 + tea_delta * of_nat (Suc i)) [0..<n])"
proof (rule nth_equalityI)
  fix i assume "i < length (map (\<lambda>i. tea_delta * of_nat n - tea_delta * of_nat i) [0..<n])"
  then have i: "i < n" by simp
  then have "of_nat (Suc (n - Suc i)) = (of_nat n - of_nat i :: u32)" by (simp add: Suc_diff_Suc of_nat_diff)
  then show "map (\<lambda>i. tea_delta * of_nat n - tea_delta * of_nat i) [0..<n] ! i =
      rev (map (\<lambda>i. 0 + tea_delta * of_nat (Suc i)) [0..<n]) ! i"
    using i by (simp add: rev_nth right_diff_distrib del: of_nat_Suc)
qed simp

lemma tea_loops_inverse:
  "tea_dec_loop n k (tea_delta * of_nat n) (tea_enc_loop n k 0 v) = v"
  unfolding tea_enc_loop_foldl tea_dec_loop_foldl tea_schedule_rev
  by (rule foldl_inverse) (rule tea_dstep_estep)

lemma tea_rounds_inverse:
  "tea_dec_loop (nat r) k (tea_delta * word_of_int r) (tea_enc_loop (nat r) k 0 v) = v"
  using tea_loops_inverse [of "nat r" k v] by (cases "0 \<le> r") simp_all

section \<open>It is a block cipher\<close>

lemma tea_xor_bytes:
  "length w = 8 \<Longrightarrow> xor_bytes (AV_WB32 a @ AV_WB32 b) w =
    AV_WB32 (a XOR AV_RB32 w 0) @ AV_WB32 (b XOR AV_RB32 w 4)"
  by (simp add: AV_WB32_xor AV_WB32_field xor_bytes_append [symmetric] flip: take_add)

interpretation tea: cipher_loop 8
  "\<lambda>b. fst (tea_crypt_ecb ctx b False None)" "\<lambda>b. fst (tea_crypt_ecb ctx b True None)"
  "\<lambda>b. tea_crypt_ecb ctx b True" "\<lambda>src n iv decrypt. av_tea_crypt ctx src n iv decrypt" for ctx
proof unfold_locales
  fix b w :: bytes
  assume b: "length b = 8"
  show "length (fst (tea_crypt_ecb ctx b False None)) = 8"
    by (simp add: tea_crypt_ecb_def Let_def split_def)
  show "fst (tea_crypt_ecb ctx (fst (tea_crypt_ecb ctx b False None)) True None) = b"
    using tea_rounds_inverse [of "tea_rounds ctx sdiv 2" "tea_key ctx" "(AV_RB32 b 0, AV_RB32 b 4)"] b
    by (simp add: tea_crypt_ecb_def byte_access split_def Let_def AV_WB32_field flip: take_add)
  show "length w = 8 \<Longrightarrow> tea_crypt_ecb ctx b True (Some w) =
      (xor_bytes (fst (tea_crypt_ecb ctx b True None)) w, Some b)"
    using b by (simp add: tea_crypt_ecb_def Let_def split_def tea_xor_bytes)
qed (auto simp: Let_def split_def tea_crypt_ecb_def split: option.split)

text \<open>\<open>av_tea_crypt\<close> decrypts what it encrypted, for any number of rounds, in both modes, and may encrypt
  a message in pieces when the \<open>iv\<close> is handed on.\<close>

theorem av_tea_round_trip:
  assumes "length src = n * 8" and "iv_ok 8 iv"
  shows "av_tea_crypt ctx (fst (av_tea_crypt ctx src n iv False)) n iv True =
    (src, snd (av_tea_crypt ctx src n iv False))"
  using assms by (rule tea.crypt_round_trip)

theorem av_tea_round_trip_witness:
  "av_tea_crypt (av_tea_init (replicate 16 7) 64)
     (fst (av_tea_crypt (av_tea_init (replicate 16 7) 64) (replicate 16 1) 2 None False)) 2 None True =
   (replicate 16 1, snd (av_tea_crypt (av_tea_init (replicate 16 7) 64) (replicate 16 1) 2 None False))"
  using av_tea_round_trip [of "replicate 16 1" 2 None] by simp

end
