(* ===== verification/AvTwofish.thy ===== *)
theory AvTwofish imports BlockCipher AvIntMath
begin

text \<open>
  \<open>libavutil/twofish.c\<close>: the Twofish cipher with its tables, key setup and loop over blocks. Its
  decryption stores the two halves of each block in the wrong order; what it computes is stated exactly.
\<close>

section \<open>Tables\<close>

definition MD1 :: "u8 list" where
  "MD1 =
     [0x00, 0x5b, 0xb6, 0xed, 0x05, 0x5e, 0xb3, 0xe8, 0x0a, 0x51, 0xbc, 0xe7, 0x0f, 0x54,
      0xb9, 0xe2, 0x14, 0x4f, 0xa2, 0xf9, 0x11, 0x4a, 0xa7, 0xfc, 0x1e, 0x45, 0xa8, 0xf3,
      0x1b, 0x40, 0xad, 0xf6, 0x28, 0x73, 0x9e, 0xc5, 0x2d, 0x76, 0x9b, 0xc0, 0x22, 0x79,
      0x94, 0xcf, 0x27, 0x7c, 0x91, 0xca, 0x3c, 0x67, 0x8a, 0xd1, 0x39, 0x62, 0x8f, 0xd4,
      0x36, 0x6d, 0x80, 0xdb, 0x33, 0x68, 0x85, 0xde, 0x50, 0x0b, 0xe6, 0xbd, 0x55, 0x0e,
      0xe3, 0xb8, 0x5a, 0x01, 0xec, 0xb7, 0x5f, 0x04, 0xe9, 0xb2, 0x44, 0x1f, 0xf2, 0xa9,
      0x41, 0x1a, 0xf7, 0xac, 0x4e, 0x15, 0xf8, 0xa3, 0x4b, 0x10, 0xfd, 0xa6, 0x78, 0x23,
      0xce, 0x95, 0x7d, 0x26, 0xcb, 0x90, 0x72, 0x29, 0xc4, 0x9f, 0x77, 0x2c, 0xc1, 0x9a,
      0x6c, 0x37, 0xda, 0x81, 0x69, 0x32, 0xdf, 0x84, 0x66, 0x3d, 0xd0, 0x8b, 0x63, 0x38,
      0xd5, 0x8e, 0xa0, 0xfb, 0x16, 0x4d, 0xa5, 0xfe, 0x13, 0x48, 0xaa, 0xf1, 0x1c, 0x47,
      0xaf, 0xf4, 0x19, 0x42, 0xb4, 0xef, 0x02, 0x59, 0xb1, 0xea, 0x07, 0x5c, 0xbe, 0xe5,
      0x08, 0x53, 0xbb, 0xe0, 0x0d, 0x56, 0x88, 0xd3, 0x3e, 0x65, 0x8d, 0xd6, 0x3b, 0x60,
      0x82, 0xd9, 0x34, 0x6f, 0x87, 0xdc, 0x31, 0x6a, 0x9c, 0xc7, 0x2a, 0x71, 0x99, 0xc2,
      0x2f, 0x74, 0x96, 0xcd, 0x20, 0x7b, 0x93, 0xc8, 0x25, 0x7e, 0xf0, 0xab, 0x46, 0x1d,
      0xf5, 0xae, 0x43, 0x18, 0xfa, 0xa1, 0x4c, 0x17, 0xff, 0xa4, 0x49, 0x12, 0xe4, 0xbf,
      0x52, 0x09, 0xe1, 0xba, 0x57, 0x0c, 0xee, 0xb5, 0x58, 0x03, 0xeb, 0xb0, 0x5d, 0x06,
      0xd8, 0x83, 0x6e, 0x35, 0xdd, 0x86, 0x6b, 0x30, 0xd2, 0x89, 0x64, 0x3f, 0xd7, 0x8c,
      0x61, 0x3a, 0xcc, 0x97, 0x7a, 0x21, 0xc9, 0x92, 0x7f, 0x24, 0xc6, 0x9d, 0x70, 0x2b,
      0xc3, 0x98, 0x75, 0x2e]"

definition MD2 :: "u8 list" where
  "MD2 =
     [0x00, 0xef, 0xb7, 0x58, 0x07, 0xe8, 0xb0, 0x5f, 0x0e, 0xe1, 0xb9, 0x56, 0x09, 0xe6,
      0xbe, 0x51, 0x1c, 0xf3, 0xab, 0x44, 0x1b, 0xf4, 0xac, 0x43, 0x12, 0xfd, 0xa5, 0x4a,
      0x15, 0xfa, 0xa2, 0x4d, 0x38, 0xd7, 0x8f, 0x60, 0x3f, 0xd0, 0x88, 0x67, 0x36, 0xd9,
      0x81, 0x6e, 0x31, 0xde, 0x86, 0x69, 0x24, 0xcb, 0x93, 0x7c, 0x23, 0xcc, 0x94, 0x7b,
      0x2a, 0xc5, 0x9d, 0x72, 0x2d, 0xc2, 0x9a, 0x75, 0x70, 0x9f, 0xc7, 0x28, 0x77, 0x98,
      0xc0, 0x2f, 0x7e, 0x91, 0xc9, 0x26, 0x79, 0x96, 0xce, 0x21, 0x6c, 0x83, 0xdb, 0x34,
      0x6b, 0x84, 0xdc, 0x33, 0x62, 0x8d, 0xd5, 0x3a, 0x65, 0x8a, 0xd2, 0x3d, 0x48, 0xa7,
      0xff, 0x10, 0x4f, 0xa0, 0xf8, 0x17, 0x46, 0xa9, 0xf1, 0x1e, 0x41, 0xae, 0xf6, 0x19,
      0x54, 0xbb, 0xe3, 0x0c, 0x53, 0xbc, 0xe4, 0x0b, 0x5a, 0xb5, 0xed, 0x02, 0x5d, 0xb2,
      0xea, 0x05, 0xe0, 0x0f, 0x57, 0xb8, 0xe7, 0x08, 0x50, 0xbf, 0xee, 0x01, 0x59, 0xb6,
      0xe9, 0x06, 0x5e, 0xb1, 0xfc, 0x13, 0x4b, 0xa4, 0xfb, 0x14, 0x4c, 0xa3, 0xf2, 0x1d,
      0x45, 0xaa, 0xf5, 0x1a, 0x42, 0xad, 0xd8, 0x37, 0x6f, 0x80, 0xdf, 0x30, 0x68, 0x87,
      0xd6, 0x39, 0x61, 0x8e, 0xd1, 0x3e, 0x66, 0x89, 0xc4, 0x2b, 0x73, 0x9c, 0xc3, 0x2c,
      0x74, 0x9b, 0xca, 0x25, 0x7d, 0x92, 0xcd, 0x22, 0x7a, 0x95, 0x90, 0x7f, 0x27, 0xc8,
      0x97, 0x78, 0x20, 0xcf, 0x9e, 0x71, 0x29, 0xc6, 0x99, 0x76, 0x2e, 0xc1, 0x8c, 0x63,
      0x3b, 0xd4, 0x8b, 0x64, 0x3c, 0xd3, 0x82, 0x6d, 0x35, 0xda, 0x85, 0x6a, 0x32, 0xdd,
      0xa8, 0x47, 0x1f, 0xf0, 0xaf, 0x40, 0x18, 0xf7, 0xa6, 0x49, 0x11, 0xfe, 0xa1, 0x4e,
      0x16, 0xf9, 0xb4, 0x5b, 0x03, 0xec, 0xb3, 0x5c, 0x04, 0xeb, 0xba, 0x55, 0x0d, 0xe2,
      0xbd, 0x52, 0x0a, 0xe5]"

definition twofish_q0 :: "u8 list" where
  "twofish_q0 =
     [0xa9, 0x67, 0xb3, 0xe8, 0x04, 0xfd, 0xa3, 0x76, 0x9a, 0x92, 0x80, 0x78, 0xe4, 0xdd,
      0xd1, 0x38, 0x0d, 0xc6, 0x35, 0x98, 0x18, 0xf7, 0xec, 0x6c, 0x43, 0x75, 0x37, 0x26,
      0xfa, 0x13, 0x94, 0x48, 0xf2, 0xd0, 0x8b, 0x30, 0x84, 0x54, 0xdf, 0x23, 0x19, 0x5b,
      0x3d, 0x59, 0xf3, 0xae, 0xa2, 0x82, 0x63, 0x01, 0x83, 0x2e, 0xd9, 0x51, 0x9b, 0x7c,
      0xa6, 0xeb, 0xa5, 0xbe, 0x16, 0x0c, 0xe3, 0x61, 0xc0, 0x8c, 0x3a, 0xf5, 0x73, 0x2c,
      0x25, 0x0b, 0xbb, 0x4e, 0x89, 0x6b, 0x53, 0x6a, 0xb4, 0xf1, 0xe1, 0xe6, 0xbd, 0x45,
      0xe2, 0xf4, 0xb6, 0x66, 0xcc, 0x95, 0x03, 0x56, 0xd4, 0x1c, 0x1e, 0xd7, 0xfb, 0xc3,
      0x8e, 0xb5, 0xe9, 0xcf, 0xbf, 0xba, 0xea, 0x77, 0x39, 0xaf, 0x33, 0xc9, 0x62, 0x71,
      0x81, 0x79, 0x09, 0xad, 0x24, 0xcd, 0xf9, 0xd8, 0xe5, 0xc5, 0xb9, 0x4d, 0x44, 0x08,
      0x86, 0xe7, 0xa1, 0x1d, 0xaa, 0xed, 0x06, 0x70, 0xb2, 0xd2, 0x41, 0x7b, 0xa0, 0x11,
      0x31, 0xc2, 0x27, 0x90, 0x20, 0xf6, 0x60, 0xff, 0x96, 0x5c, 0xb1, 0xab, 0x9e, 0x9c,
      0x52, 0x1b, 0x5f, 0x93, 0x0a, 0xef, 0x91, 0x85, 0x49, 0xee, 0x2d, 0x4f, 0x8f, 0x3b,
      0x47, 0x87, 0x6d, 0x46, 0xd6, 0x3e, 0x69, 0x64, 0x2a, 0xce, 0xcb, 0x2f, 0xfc, 0x97,
      0x05, 0x7a, 0xac, 0x7f, 0xd5, 0x1a, 0x4b, 0x0e, 0xa7, 0x5a, 0x28, 0x14, 0x3f, 0x29,
      0x88, 0x3c, 0x4c, 0x02, 0xb8, 0xda, 0xb0, 0x17, 0x55, 0x1f, 0x8a, 0x7d, 0x57, 0xc7,
      0x8d, 0x74, 0xb7, 0xc4, 0x9f, 0x72, 0x7e, 0x15, 0x22, 0x12, 0x58, 0x07, 0x99, 0x34,
      0x6e, 0x50, 0xde, 0x68, 0x65, 0xbc, 0xdb, 0xf8, 0xc8, 0xa8, 0x2b, 0x40, 0xdc, 0xfe,
      0x32, 0xa4, 0xca, 0x10, 0x21, 0xf0, 0xd3, 0x5d, 0x0f, 0x00, 0x6f, 0x9d, 0x36, 0x42,
      0x4a, 0x5e, 0xc1, 0xe0]"

definition twofish_q1 :: "u8 list" where
  "twofish_q1 =
     [0x75, 0xf3, 0xc6, 0xf4, 0xdb, 0x7b, 0xfb, 0xc8, 0x4a, 0xd3, 0xe6, 0x6b, 0x45, 0x7d,
      0xe8, 0x4b, 0xd6, 0x32, 0xd8, 0xfd, 0x37, 0x71, 0xf1, 0xe1, 0x30, 0x0f, 0xf8, 0x1b,
      0x87, 0xfa, 0x06, 0x3f, 0x5e, 0xba, 0xae, 0x5b, 0x8a, 0x00, 0xbc, 0x9d, 0x6d, 0xc1,
      0xb1, 0x0e, 0x80, 0x5d, 0xd2, 0xd5, 0xa0, 0x84, 0x07, 0x14, 0xb5, 0x90, 0x2c, 0xa3,
      0xb2, 0x73, 0x4c, 0x54, 0x92, 0x74, 0x36, 0x51, 0x38, 0xb0, 0xbd, 0x5a, 0xfc, 0x60,
      0x62, 0x96, 0x6c, 0x42, 0xf7, 0x10, 0x7c, 0x28, 0x27, 0x8c, 0x13, 0x95, 0x9c, 0xc7,
      0x24, 0x46, 0x3b, 0x70, 0xca, 0xe3, 0x85, 0xcb, 0x11, 0xd0, 0x93, 0xb8, 0xa6, 0x83,
      0x20, 0xff, 0x9f, 0x77, 0xc3, 0xcc, 0x03, 0x6f, 0x08, 0xbf, 0x40, 0xe7, 0x2b, 0xe2,
      0x79, 0x0c, 0xaa, 0x82, 0x41, 0x3a, 0xea, 0xb9, 0xe4, 0x9a, 0xa4, 0x97, 0x7e, 0xda,
      0x7a, 0x17, 0x66, 0x94, 0xa1, 0x1d, 0x3d, 0xf0, 0xde, 0xb3, 0x0b, 0x72, 0xa7, 0x1c,
      0xef, 0xd1, 0x53, 0x3e, 0x8f, 0x33, 0x26, 0x5f, 0xec, 0x76, 0x2a, 0x49, 0x81, 0x88,
      0xee, 0x21, 0xc4, 0x1a, 0xeb, 0xd9, 0xc5, 0x39, 0x99, 0xcd, 0xad, 0x31, 0x8b, 0x01,
      0x18, 0x23, 0xdd, 0x1f, 0x4e, 0x2d, 0xf9, 0x48, 0x4f, 0xf2, 0x65, 0x8e, 0x78, 0x5c,
      0x58, 0x19, 0x8d, 0xe5, 0x98, 0x57, 0x67, 0x7f, 0x05, 0x64, 0xaf, 0x63, 0xb6, 0xfe,
      0xf5, 0xb7, 0x3c, 0xa5, 0xce, 0xe9, 0x68, 0x44, 0xe0, 0x4d, 0x43, 0x69, 0x29, 0x2e,
      0xac, 0x15, 0x59, 0xa8, 0x0a, 0x9e, 0x6e, 0x47, 0xdf, 0x34, 0x35, 0x6a, 0xcf, 0xdc,
      0x22, 0xc9, 0xc0, 0x9b, 0x89, 0xd4, 0xed, 0xab, 0x12, 0xa2, 0x0d, 0x52, 0xbb, 0x02,
      0x2f, 0xa9, 0xd7, 0x61, 0x1e, 0xb4, 0x50, 0x04, 0xf6, 0xc2, 0x16, 0x25, 0x86, 0x56,
      0x55, 0x09, 0xbe, 0x91]"


section \<open>Key-dependent functions\<close>

text \<open>\<open>LR\<close> and \<open>RR\<close>, the rotations.\<close>

definition tf_LR :: "u32 \<Rightarrow> nat \<Rightarrow> u32" where
  "tf_LR x n = shl x n OR shr x (32 - n)"

definition tf_RR :: "u32 \<Rightarrow> nat \<Rightarrow> u32" where
  "tf_RR x n = shr x n OR shl x (32 - n)"

record AVTWOFISH =
  tf_K :: "u32 list"
  tf_S :: "u32 list"
  tf_ksize :: nat
  tf_MDS1 :: "u32 list"
  tf_MDS2 :: "u32 list"
  tf_MDS3 :: "u32 list"
  tf_MDS4 :: "u32 list"

text \<open>\<open>while (a && b)\<close>, the third argument being \<open>r\<close>.\<close>

function gfmul_loop :: "u8 \<Rightarrow> u8 \<Rightarrow> u8 \<Rightarrow> u8" where
  "gfmul_loop a b r =
     (if a \<noteq> 0 \<and> b \<noteq> 0 then
        let r = (if a AND 1 \<noteq> 0 then r XOR b else r);
            t = b AND 0x80;
            b = shl b 1;
            b = (if t \<noteq> 0 then b XOR 0x4d else b)
        in gfmul_loop (shr a 1) b r
      else r)"
  by pat_completeness auto
termination
proof (relation "measure (\<lambda>(a, b, r). unat a)", goal_cases)
  case (2 a b r ra t ba bb)
  then have "0 < unat a" by (simp add: unat_gt_0)
  then show ?case by (simp add: unat_shr)
qed simp

declare gfmul_loop.simps [simp del]

definition gfmul :: "u8 \<Rightarrow> u8 \<Rightarrow> u8" where
  "gfmul a b = gfmul_loop a b 0"

definition tf_RS :: "u32 \<Rightarrow> u32 \<Rightarrow> u32" where
  "tf_RS k0 k1 =
     (let m = AV_WL32 k0 @ AV_WL32 k1;
          s =
          [gfmul 0x01 (m ! 0) XOR gfmul 0xa4 (m ! 1) XOR gfmul 0x55 (m ! 2) XOR gfmul 0x87 (m ! 3) XOR
           gfmul 0x5a (m ! 4) XOR gfmul 0x58 (m ! 5) XOR gfmul 0xdb (m ! 6) XOR gfmul 0x9e (m ! 7),
           gfmul 0xa4 (m ! 0) XOR gfmul 0x56 (m ! 1) XOR gfmul 0x82 (m ! 2) XOR gfmul 0xf3 (m ! 3) XOR
           gfmul 0x1e (m ! 4) XOR gfmul 0xc6 (m ! 5) XOR gfmul 0x68 (m ! 6) XOR gfmul 0xe5 (m ! 7),
           gfmul 0x02 (m ! 0) XOR gfmul 0xa1 (m ! 1) XOR gfmul 0xfc (m ! 2) XOR gfmul 0xc1 (m ! 3) XOR
           gfmul 0x47 (m ! 4) XOR gfmul 0xae (m ! 5) XOR gfmul 0x3d (m ! 6) XOR gfmul 0x19 (m ! 7),
           gfmul 0xa4 (m ! 0) XOR gfmul 0x55 (m ! 1) XOR gfmul 0x87 (m ! 2) XOR gfmul 0x5a (m ! 3) XOR
           gfmul 0x58 (m ! 4) XOR gfmul 0xdb (m ! 5) XOR gfmul 0x9e (m ! 6) XOR gfmul 0x03 (m ! 7)]
      in AV_RL32 s 0)"

text \<open>A table of bytes read at a byte.\<close>

abbreviation at :: "u8 list \<Rightarrow> u8 \<Rightarrow> u8" where
  "at t x \<equiv> t ! unat x"

type_synonym quad8 = "u8 \<times> u8 \<times> u8 \<times> u8"

fun tf_h0 :: "quad8 \<Rightarrow> u32 list \<Rightarrow> nat \<Rightarrow> quad8" where
  "tf_h0 (y0, y1, y2, y3) LL k =
     (let (y0, y1, y2, y3) =
        (if k = 4 then let l = AV_WL32 (LL ! 3) in
           (at twofish_q1 y0 XOR l ! 0, at twofish_q0 y1 XOR l ! 1,
            at twofish_q0 y2 XOR l ! 2, at twofish_q1 y3 XOR l ! 3)
         else (y0, y1, y2, y3));
          (y0, y1, y2, y3) =
        (if k \<ge> 3 then let l = AV_WL32 (LL ! 2) in
           (at twofish_q1 y0 XOR l ! 0, at twofish_q1 y1 XOR l ! 1,
            at twofish_q0 y2 XOR l ! 2, at twofish_q0 y3 XOR l ! 3)
         else (y0, y1, y2, y3));
          l = AV_WL32 (LL ! 1)
      in (at twofish_q1 (at twofish_q0 (at twofish_q0 y0 XOR l ! 0) XOR ucast (LL ! 0 AND 0xff)),
          at twofish_q0 (at twofish_q0 (at twofish_q1 y1 XOR l ! 1) XOR ucast (shr (LL ! 0) 8 AND 0xff)),
          at twofish_q1 (at twofish_q1 (at twofish_q0 y2 XOR l ! 2) XOR ucast (shr (LL ! 0) 16 AND 0xff)),
          at twofish_q0 (at twofish_q1 (at twofish_q1 y3 XOR l ! 3) XOR ucast (shr (LL ! 0) 24))))"

definition tf_h :: "u32 \<Rightarrow> u32 list \<Rightarrow> nat \<Rightarrow> u32" where
  "tf_h X LL k =
     (let y = AV_WL32 X;
          (y0, y1, y2, y3) = tf_h0 (y ! 0, y ! 1, y ! 2, y ! 3) LL k
      in AV_RL32
          [y0 XOR at MD2 y1 XOR at MD1 y2 XOR at MD1 y3,
           at MD1 y0 XOR at MD2 y1 XOR at MD2 y2 XOR y3,
           at MD2 y0 XOR at MD1 y1 XOR y2 XOR at MD2 y3,
           at MD2 y0 XOR y1 XOR at MD2 y2 XOR at MD1 y3] 0)"

definition MDS_mul :: "AVTWOFISH \<Rightarrow> u32 \<Rightarrow> u32" where
  "MDS_mul cs X =
     (tf_MDS1 cs ! unat (X AND 0xff)) XOR (tf_MDS2 cs ! unat (shr X 8 AND 0xff)) XOR
     (tf_MDS3 cs ! unat (shr X 16 AND 0xff)) XOR (tf_MDS4 cs ! unat (shr X 24))"

definition precomputeMDS :: "AVTWOFISH \<Rightarrow> AVTWOFISH" where
  "precomputeMDS cs =
     (let y = map (\<lambda>i. tf_h0 (of_nat i, of_nat i, of_nat i, of_nat i) (tf_S cs) (tf_ksize cs)) [0..<256]
      in cs\<lparr>
        tf_MDS1 := map (\<lambda>(y0, y1, y2, y3). ucast y0 XOR shl (ucast (at MD1 y0)) 8 XOR
                      shl (ucast (at MD2 y0)) 16 XOR shl (ucast (at MD2 y0)) 24) y,
        tf_MDS2 := map (\<lambda>(y0, y1, y2, y3). ucast (at MD2 y1) XOR shl (ucast (at MD2 y1)) 8 XOR
                      shl (ucast (at MD1 y1)) 16 XOR shl (ucast y1) 24) y,
        tf_MDS3 := map (\<lambda>(y0, y1, y2, y3). ucast (at MD1 y2) XOR shl (ucast (at MD2 y2)) 8 XOR
                      shl (ucast y2) 16 XOR shl (ucast (at MD2 y2)) 24) y,
        tf_MDS4 := map (\<lambda>(y0, y1, y2, y3). ucast (at MD1 y3) XOR shl (ucast y3) 8 XOR
                      shl (ucast (at MD2 y3)) 16 XOR shl (ucast (at MD1 y3)) 24) y\<rparr>)"

section \<open>The cipher\<close>

type_synonym tf_state = "u32 \<times> u32 \<times> u32 \<times> u32"

fun tf_estep :: "AVTWOFISH \<Rightarrow> tf_state \<Rightarrow> nat \<Rightarrow> tf_state" where
  "tf_estep cs (P0, P1, P2, P3) i =
     (let t0 = MDS_mul cs P0;
          t1 = MDS_mul cs (tf_LR P1 8);
          P2 = tf_RR (P2 XOR (t0 + t1 + tf_K cs ! (2 * i + 8))) 1;
          P3 = tf_LR P3 1 XOR (t0 + 2 * t1 + tf_K cs ! (2 * i + 9));
          t0 = MDS_mul cs P2;
          t1 = MDS_mul cs (tf_LR P3 8);
          P0 = tf_RR (P0 XOR (t0 + t1 + tf_K cs ! (2 * i + 10))) 1;
          P1 = tf_LR P1 1 XOR (t0 + 2 * t1 + tf_K cs ! (2 * i + 11))
      in (P0, P1, P2, P3))"

fun tf_dstep :: "AVTWOFISH \<Rightarrow> tf_state \<Rightarrow> nat \<Rightarrow> tf_state" where
  "tf_dstep cs (P0, P1, P2, P3) i =
     (let t0 = MDS_mul cs P2;
          t1 = MDS_mul cs (tf_LR P3 8);
          P0 = tf_LR P0 1 XOR (t0 + t1 + tf_K cs ! (2 * i + 8));
          P1 = tf_RR (P1 XOR (t0 + 2 * t1 + tf_K cs ! (2 * i + 9))) 1;
          t0 = MDS_mul cs P0;
          t1 = MDS_mul cs (tf_LR P1 8);
          P2 = tf_LR P2 1 XOR (t0 + t1 + tf_K cs ! (2 * i + 6));
          P3 = tf_RR (P3 XOR (t0 + 2 * t1 + tf_K cs ! (2 * i + 7))) 1
      in (P0, P1, P2, P3))"

text \<open>The values of \<open>i\<close> in the two loops.\<close>

definition tf_up :: "nat list" where
  "tf_up = [0, 2, 4, 6, 8, 10, 12, 14]"

definition tf_down :: "nat list" where
  "tf_down = [15, 13, 11, 9, 7, 5, 3, 1]"

definition twofish_encrypt :: "AVTWOFISH \<Rightarrow> bytes \<Rightarrow> bytes" where
  "twofish_encrypt cs src =
     (let K = tf_K cs;
          (P0, P1, P2, P3) = foldl (tf_estep cs)
            (AV_RL32 src 0 XOR K ! 0, AV_RL32 src 4 XOR K ! 1, AV_RL32 src 8 XOR K ! 2, AV_RL32 src 12 XOR K ! 3)
            tf_up
      in AV_WL32 (P2 XOR K ! 4) @ AV_WL32 (P3 XOR K ! 5) @ AV_WL32 (P0 XOR K ! 6) @ AV_WL32 (P1 XOR K ! 7))"

definition twofish_decrypt :: "AVTWOFISH \<Rightarrow> bytes \<Rightarrow> bytes option \<Rightarrow> bytes \<times> bytes option" where
  "twofish_decrypt cs src iv =
     (let K = tf_K cs;
          (P0, P1, P2, P3) = foldl (tf_dstep cs)
            (AV_RL32 src 8 XOR K ! 6, AV_RL32 src 12 XOR K ! 7, AV_RL32 src 0 XOR K ! 4, AV_RL32 src 4 XOR K ! 5)
            tf_down;
          (P0, P1, P2, P3) = (P0 XOR K ! 0, P1 XOR K ! 1, P2 XOR K ! 2, P3 XOR K ! 3);
          ((P0, P1, P2, P3), iv) =
            (case iv of None \<Rightarrow> ((P0, P1, P2, P3), None)
             | Some w \<Rightarrow> ((P0 XOR AV_RL32 w 0, P1 XOR AV_RL32 w 4, P2 XOR AV_RL32 w 8, P3 XOR AV_RL32 w 12),
                         Some (take 16 src)))
      in (AV_WL32 P2 @ AV_WL32 P3 @ AV_WL32 P0 @ AV_WL32 P1, iv))"

section \<open>Key setup\<close>

text \<open>The zeroed context of \<open>av_twofish_alloc\<close>.\<close>

definition av_twofish_alloc :: "AVTWOFISH" where
  "av_twofish_alloc = \<lparr>tf_K = replicate 40 0, tf_S = replicate 4 0, tf_ksize = 0,
     tf_MDS1 = replicate 256 0, tf_MDS2 = replicate 256 0, tf_MDS3 = replicate 256 0, tf_MDS4 = replicate 256 0\<rparr>"

text \<open>An error, or the return value 0 or 1 with the context.\<close>

definition av_twofish_init :: "AVTWOFISH \<Rightarrow> bytes \<Rightarrow> int \<Rightarrow> averror + int \<times> AVTWOFISH" where
  "av_twofish_init cs key key_bits =
     (if key_bits < 0 then Inl EINVAL
      else let ksize = (if key_bits \<le> 128 then 2 else if key_bits \<le> 192 then 3 else 4);
               n = (if key_bits \<le> 256 then nat (key_bits div 8) else 32);
               keypad = take n key @ replicate (32 - n) 0;
               Key = map (\<lambda>i. AV_RL32 keypad (4 * i)) [0..<2 * ksize];
               Me = map (\<lambda>i. Key ! (2 * i)) [0..<ksize];
               Mo = map (\<lambda>i. Key ! (2 * i + 1)) [0..<ksize];
               S = rev (map2 tf_RS Me Mo) @ drop ksize (tf_S cs);
               cs = precomputeMDS (cs\<lparr>tf_S := S, tf_ksize := ksize\<rparr>);
               K = concat (map (\<lambda>i.
                     let A = tf_h (of_nat (2 * i) * 0x01010101) Me ksize;
                         B = tf_LR (tf_h (of_nat (2 * i + 1) * 0x01010101) Mo ksize) 8
                     in [A + B, tf_LR (A + 2 * B) 9]) [0..<20])
           in Inr (if int ksize * 64 \<noteq> key_bits then 1 else 0, cs\<lparr>tf_K := K\<rparr>))"

fun av_twofish_crypt :: "AVTWOFISH \<Rightarrow> bytes \<Rightarrow> nat \<Rightarrow> bytes option \<Rightarrow> bool \<Rightarrow> bytes \<times> bytes option" where
  "av_twofish_crypt cs src 0 iv decrypt = ([], iv)"
| "av_twofish_crypt cs src (Suc count) iv decrypt =
     (let (d, iv') =
        (if decrypt then twofish_decrypt cs (take 16 src) iv
         else case iv of
             None \<Rightarrow> (twofish_encrypt cs (take 16 src), None)
           | Some w \<Rightarrow> let d = twofish_encrypt cs (xor_bytes (take 16 src) w) in (d, Some d));
          (ds, iv'') = av_twofish_crypt cs (drop 16 src) count iv' decrypt
      in (d @ ds, iv''))"

section \<open>What decryption computes\<close>

lemma tf_rotations:
  assumes "0 < n" "n < 32"
  shows "tf_LR (tf_RR x n) n = x" "tf_RR (tf_LR x n) n = x"
  using assms by (auto intro!: bit_word_eqI simp: tf_LR_def tf_RR_def bit_simps)

lemmas tf_rotate_1 [simp] = tf_rotations [of 1, simplified]

lemma tf_dstep_estep: "tf_dstep cs (tf_estep cs P i) (i + 1) = P"
  by (cases P) (simp add: Let_def add.commute)

lemma tf_down_up: "tf_down = rev (map Suc tf_up)"
  by (simp add: tf_down_def tf_up_def)

lemma tf_loops_inverse: "foldl (tf_dstep cs) (foldl (tf_estep cs) P tf_up) tf_down = P"
proof -
  have "foldl (\<lambda>v i. tf_dstep cs v (Suc i)) (foldl (tf_estep cs) P tf_up) (rev tf_up) = P"
    using tf_dstep_estep by (intro foldl_inverse) simp
  then show ?thesis by (simp add: tf_down_up rev_map foldl_map)
qed

text \<open>A block with its two halves exchanged, and a message with the halves of its \<open>n\<close> blocks
  exchanged.\<close>

definition half_swap :: "bytes \<Rightarrow> bytes" where
  "half_swap b = drop 8 b @ take 8 b"

fun half_swaps :: "nat \<Rightarrow> bytes \<Rightarrow> bytes" where
  "half_swaps 0 m = []"
| "half_swaps (Suc n) m = half_swap (take 16 m) @ half_swaps n (drop 16 m)"

lemma length_half_swap [simp]: "length (half_swap b) = length b"
  by (simp add: half_swap_def)

lemma half_swap_twice: "length b = 16 \<Longrightarrow> half_swap (half_swap b) = b"
  by (simp add: half_swap_def)

lemma half_swaps_twice: "length m = n * 16 \<Longrightarrow> half_swaps n (half_swaps n m) = m"
  by (induction n arbitrary: m) (simp_all add: half_swap_twice)

lemma half_swaps_append: "length a = 16 \<Longrightarrow> half_swaps (Suc n) (a @ b) = half_swap a @ half_swaps n b"
  by simp

lemma tf_xor_bytes:
  "length w = 16 \<Longrightarrow> xor_bytes (AV_WL32 a @ AV_WL32 b @ AV_WL32 c @ AV_WL32 d) w =
    AV_WL32 (a XOR AV_RL32 w 0) @ AV_WL32 (b XOR AV_RL32 w 4) @
    AV_WL32 (c XOR AV_RL32 w 8) @ AV_WL32 (d XOR AV_RL32 w 12)"
  by (simp add: AV_WL32_xor AV_WL32_field xor_bytes_append [symmetric] fields_4x4)

lemma twofish_encrypt_length [simp]: "length (twofish_encrypt cs b) = 16"
  by (simp add: twofish_encrypt_def Let_def split_def)

lemma twofish_decrypt_length [simp]: "length (fst (twofish_decrypt cs b iv)) = 16"
  by (simp add: twofish_decrypt_def Let_def split_def split: option.split)

lemma twofish_decrypt_encrypt:
  assumes "length b = 16"
  shows "half_swap (fst (twofish_decrypt cs (twofish_encrypt cs b) None)) = b"
  using assms tf_loops_inverse [of cs "(AV_RL32 b 0 XOR tf_K cs ! 0, AV_RL32 b 4 XOR tf_K cs ! 1,
    AV_RL32 b 8 XOR tf_K cs ! 2, AV_RL32 b 12 XOR tf_K cs ! 3)"]
  by (simp add: twofish_encrypt_def twofish_decrypt_def Let_def split_def byte_access half_swap_def
    AV_WL32_field fields_4x4)

text \<open>With the halves exchanged again after decryption, it is the cipher loop of the other files.\<close>

definition tf_mended :: "AVTWOFISH \<Rightarrow> bytes \<Rightarrow> nat \<Rightarrow> bytes option \<Rightarrow> bool \<Rightarrow> bytes \<times> bytes option" where
  "tf_mended cs src n iv decrypt =
     (let (d, iv') = av_twofish_crypt cs src n iv decrypt
      in (if decrypt then half_swaps n d else d, iv'))"

interpretation twofish: cipher_loop 16 "twofish_encrypt cs"
  "\<lambda>b. half_swap (fst (twofish_decrypt cs b None))"
  "\<lambda>b iv. map_prod half_swap id (twofish_decrypt cs b iv)" "tf_mended cs" for cs
proof unfold_locales
  fix b w :: bytes
  assume b: "length b = 16"
  show "half_swap (fst (twofish_decrypt cs (twofish_encrypt cs b) None)) = b"
    using b by (rule twofish_decrypt_encrypt)
  show "length w = 16 \<Longrightarrow> map_prod half_swap id (twofish_decrypt cs b (Some w)) =
      (xor_bytes (half_swap (fst (twofish_decrypt cs b None))) w, Some b)"
    using b by (simp add: twofish_decrypt_def Let_def split_def half_swap_def tf_xor_bytes)
next
  fix src iv decrypt n
  show "tf_mended cs src (Suc n) iv decrypt =
      (let (d, iv') = (if decrypt then map_prod half_swap id (twofish_decrypt cs (take 16 src) iv)
           else case iv of None \<Rightarrow> (twofish_encrypt cs (take 16 src), None)
             | Some w \<Rightarrow> (twofish_encrypt cs (xor_bytes (take 16 src) w), Some (twofish_encrypt cs (xor_bytes (take 16 src) w))));
           (ds, iv'') = tf_mended cs (drop 16 src) n iv' decrypt
       in (d @ ds, iv''))"
    by (cases iv) (simp_all add: tf_mended_def Let_def split_def)
qed (auto simp: tf_mended_def twofish_decrypt_def Let_def split_def half_swap_def)

lemma av_twofish_length: "length (fst (av_twofish_crypt cs src n iv decrypt)) = n * 16"
proof (induction n arbitrary: src iv)
  case (Suc n)
  then show ?case by (cases iv) (simp_all add: Let_def split_def)
qed simp

text \<open>C38: \<open>av_twofish_crypt\<close> does not decrypt what it encrypted: it gives the message with the two
  8-byte halves of every block exchanged (lines 263 to 266 store \<open>P[2]\<close>, \<open>P[3]\<close> before \<open>P[0]\<close>,
  \<open>P[1]\<close>), in both modes and with the right \<open>iv\<close> left behind.\<close>

theorem av_twofish_halves_exchanged:
  assumes "length src = n * 16" and "iv_ok 16 iv"
  shows "av_twofish_crypt cs (fst (av_twofish_crypt cs src n iv False)) n iv True =
    (half_swaps n src, snd (av_twofish_crypt cs src n iv False))"
proof -
  let ?d = "av_twofish_crypt cs (fst (av_twofish_crypt cs src n iv False)) n iv True"
  have "length (fst ?d) = n * 16"
    by (rule av_twofish_length)
  moreover have "(half_swaps n (fst ?d), snd ?d) = (src, snd (av_twofish_crypt cs src n iv False))"
    using twofish.crypt_round_trip [OF assms, of cs] by (simp add: tf_mended_def Let_def split_def)
  ultimately show ?thesis
    using half_swaps_twice [of "fst ?d" n] by (metis prod.collapse prod.inject)
qed

theorem av_twofish_halves_exchanged_witness:
  "av_twofish_crypt av_twofish_alloc
     (fst (av_twofish_crypt av_twofish_alloc [0,1,2,3,4,5,6,7,8,9,10,11,12,13,14,15] 1 None False)) 1 None True =
   ([8,9,10,11,12,13,14,15,0,1,2,3,4,5,6,7],
    snd (av_twofish_crypt av_twofish_alloc [0,1,2,3,4,5,6,7,8,9,10,11,12,13,14,15] 1 None False))"
  using av_twofish_halves_exchanged [of "[0,1,2,3,4,5,6,7,8,9,10,11,12,13,14,15]" 1 None av_twofish_alloc]
  by (simp add: half_swap_def)

end
