(* ===== verification/AvCamellia.thy ===== *)
theory AvCamellia imports BlockCipher
begin

text \<open>
  \<open>libavutil/camellia.c\<close>: the Camellia cipher. The static table \<open>SP\<close> that \<open>computeSP\<close> fills
  from the four S-boxes is an argument \<open>sp\<close> of the functions that read it.
\<close>

section \<open>Tables\<close>

definition SBOX1 :: "u8 list" where
  "SBOX1 =
     [112, 130, 44, 236, 179, 39, 192, 229, 228, 133, 87, 53, 234, 12, 174, 65,
      35, 239, 107, 147, 69, 25, 165, 33, 237, 14, 79, 78, 29, 101, 146, 189,
      134, 184, 175, 143, 124, 235, 31, 206, 62, 48, 220, 95, 94, 197, 11, 26,
      166, 225, 57, 202, 213, 71, 93, 61, 217, 1, 90, 214, 81, 86, 108, 77,
      139, 13, 154, 102, 251, 204, 176, 45, 116, 18, 43, 32, 240, 177, 132, 153,
      223, 76, 203, 194, 52, 126, 118, 5, 109, 183, 169, 49, 209, 23, 4, 215,
      20, 88, 58, 97, 222, 27, 17, 28, 50, 15, 156, 22, 83, 24, 242, 34,
      254, 68, 207, 178, 195, 181, 122, 145, 36, 8, 232, 168, 96, 252, 105, 80,
      170, 208, 160, 125, 161, 137, 98, 151, 84, 91, 30, 149, 224, 255, 100, 210,
      16, 196, 0, 72, 163, 247, 117, 219, 138, 3, 230, 218, 9, 63, 221, 148,
      135, 92, 131, 2, 205, 74, 144, 51, 115, 103, 246, 243, 157, 127, 191, 226,
      82, 155, 216, 38, 200, 55, 198, 59, 129, 150, 111, 75, 19, 190, 99, 46,
      233, 121, 167, 140, 159, 110, 188, 142, 41, 245, 249, 182, 47, 253, 180, 89,
      120, 152, 6, 106, 231, 70, 113, 186, 212, 37, 171, 66, 136, 162, 141, 250,
      114, 7, 185, 85, 248, 238, 172, 10, 54, 73, 42, 104, 60, 56, 241, 164,
      64, 40, 211, 123, 187, 201, 67, 193, 21, 227, 173, 244, 119, 199, 128, 158]"

definition SBOX2 :: "u8 list" where
  "SBOX2 =
     [224, 5, 88, 217, 103, 78, 129, 203, 201, 11, 174, 106, 213, 24, 93, 130,
      70, 223, 214, 39, 138, 50, 75, 66, 219, 28, 158, 156, 58, 202, 37, 123,
      13, 113, 95, 31, 248, 215, 62, 157, 124, 96, 185, 190, 188, 139, 22, 52,
      77, 195, 114, 149, 171, 142, 186, 122, 179, 2, 180, 173, 162, 172, 216, 154,
      23, 26, 53, 204, 247, 153, 97, 90, 232, 36, 86, 64, 225, 99, 9, 51,
      191, 152, 151, 133, 104, 252, 236, 10, 218, 111, 83, 98, 163, 46, 8, 175,
      40, 176, 116, 194, 189, 54, 34, 56, 100, 30, 57, 44, 166, 48, 229, 68,
      253, 136, 159, 101, 135, 107, 244, 35, 72, 16, 209, 81, 192, 249, 210, 160,
      85, 161, 65, 250, 67, 19, 196, 47, 168, 182, 60, 43, 193, 255, 200, 165,
      32, 137, 0, 144, 71, 239, 234, 183, 21, 6, 205, 181, 18, 126, 187, 41,
      15, 184, 7, 4, 155, 148, 33, 102, 230, 206, 237, 231, 59, 254, 127, 197,
      164, 55, 177, 76, 145, 110, 141, 118, 3, 45, 222, 150, 38, 125, 198, 92,
      211, 242, 79, 25, 63, 220, 121, 29, 82, 235, 243, 109, 94, 251, 105, 178,
      240, 49, 12, 212, 207, 140, 226, 117, 169, 74, 87, 132, 17, 69, 27, 245,
      228, 14, 115, 170, 241, 221, 89, 20, 108, 146, 84, 208, 120, 112, 227, 73,
      128, 80, 167, 246, 119, 147, 134, 131, 42, 199, 91, 233, 238, 143, 1, 61]"

definition SBOX3 :: "u8 list" where
  "SBOX3 =
     [56, 65, 22, 118, 217, 147, 96, 242, 114, 194, 171, 154, 117, 6, 87, 160,
      145, 247, 181, 201, 162, 140, 210, 144, 246, 7, 167, 39, 142, 178, 73, 222,
      67, 92, 215, 199, 62, 245, 143, 103, 31, 24, 110, 175, 47, 226, 133, 13,
      83, 240, 156, 101, 234, 163, 174, 158, 236, 128, 45, 107, 168, 43, 54, 166,
      197, 134, 77, 51, 253, 102, 88, 150, 58, 9, 149, 16, 120, 216, 66, 204,
      239, 38, 229, 97, 26, 63, 59, 130, 182, 219, 212, 152, 232, 139, 2, 235,
      10, 44, 29, 176, 111, 141, 136, 14, 25, 135, 78, 11, 169, 12, 121, 17,
      127, 34, 231, 89, 225, 218, 61, 200, 18, 4, 116, 84, 48, 126, 180, 40,
      85, 104, 80, 190, 208, 196, 49, 203, 42, 173, 15, 202, 112, 255, 50, 105,
      8, 98, 0, 36, 209, 251, 186, 237, 69, 129, 115, 109, 132, 159, 238, 74,
      195, 46, 193, 1, 230, 37, 72, 153, 185, 179, 123, 249, 206, 191, 223, 113,
      41, 205, 108, 19, 100, 155, 99, 157, 192, 75, 183, 165, 137, 95, 177, 23,
      244, 188, 211, 70, 207, 55, 94, 71, 148, 250, 252, 91, 151, 254, 90, 172,
      60, 76, 3, 53, 243, 35, 184, 93, 106, 146, 213, 33, 68, 81, 198, 125,
      57, 131, 220, 170, 124, 119, 86, 5, 27, 164, 21, 52, 30, 28, 248, 82,
      32, 20, 233, 189, 221, 228, 161, 224, 138, 241, 214, 122, 187, 227, 64, 79]"

definition SBOX4 :: "u8 list" where
  "SBOX4 =
     [112, 44, 179, 192, 228, 87, 234, 174, 35, 107, 69, 165, 237, 79, 29, 146,
      134, 175, 124, 31, 62, 220, 94, 11, 166, 57, 213, 93, 217, 90, 81, 108,
      139, 154, 251, 176, 116, 43, 240, 132, 223, 203, 52, 118, 109, 169, 209, 4,
      20, 58, 222, 17, 50, 156, 83, 242, 254, 207, 195, 122, 36, 232, 96, 105,
      170, 160, 161, 98, 84, 30, 224, 100, 16, 0, 163, 117, 138, 230, 9, 221,
      135, 131, 205, 144, 115, 246, 157, 191, 82, 216, 200, 198, 129, 111, 19, 99,
      233, 167, 159, 188, 41, 249, 47, 180, 120, 6, 231, 113, 212, 171, 136, 141,
      114, 185, 248, 172, 54, 42, 60, 241, 64, 211, 187, 67, 21, 173, 119, 128,
      130, 236, 39, 229, 133, 53, 12, 65, 239, 147, 25, 33, 14, 78, 101, 189,
      184, 143, 235, 206, 48, 95, 197, 26, 225, 202, 71, 61, 1, 214, 86, 77,
      13, 102, 204, 45, 18, 32, 177, 153, 76, 194, 126, 5, 183, 49, 23, 215,
      88, 97, 27, 28, 15, 22, 24, 34, 68, 178, 181, 145, 8, 168, 252, 80,
      208, 125, 137, 151, 91, 149, 255, 210, 196, 72, 247, 219, 3, 218, 63, 148,
      92, 2, 74, 51, 103, 243, 127, 226, 155, 38, 55, 59, 150, 75, 190, 46,
      121, 140, 110, 142, 245, 182, 253, 89, 152, 106, 70, 186, 37, 66, 162, 250,
      7, 85, 238, 10, 73, 104, 56, 164, 40, 123, 201, 193, 227, 244, 199, 158]"

text \<open>The round constants \<open>Sigma1\<close> to \<open>Sigma6\<close>.\<close>

definition cam_Sigma :: "nat \<Rightarrow> u64" where
  "cam_Sigma i = [0xA09E667F3BCC908B, 0xB67AE8584CAA73B2, 0xC6EF372FE94F82BE,
              0x54FF53A5F1D36F1C, 0x10E527FADE682D1D, 0xB05688C2B3E6C1FD] ! (i - 1)"

definition cam_shifts :: "nat list list" where
  "cam_shifts = [[0, 15, 15, 45, 45, 60, 94, 94, 111], [0, 15, 15, 30, 45, 45, 60, 60, 77, 94, 94, 111]]"

definition cam_vars :: "nat list list" where
  "cam_vars = [[2, 0, 2, 0, 2, 2, 0, 2, 0], [3, 1, 2, 3, 0, 2, 1, 3, 0, 1, 2, 0]]"

text \<open>One entry of a row of \<open>SP\<close>: the byte \<open>z\<close> at the given shifts.\<close>

definition sp_row :: "u8 list \<Rightarrow> nat list \<Rightarrow> u64 list" where
  "sp_row sbox sh = map (\<lambda>z. foldl (XOR) 0 (map (shl (ucast z)) sh)) sbox"

definition computeSP :: "u64 list list" where
  "computeSP =
     [sp_row SBOX1 [56, 48, 40, 24, 0],     sp_row SBOX2 [48, 40, 32, 24, 16],
      sp_row SBOX3 [56, 40, 32, 16, 8],     sp_row SBOX4 [56, 48, 32, 8, 0],
      sp_row SBOX2 [48, 40, 32, 16, 8, 0],  sp_row SBOX3 [56, 40, 32, 24, 8, 0],
      sp_row SBOX4 [56, 48, 32, 24, 16, 0], sp_row SBOX1 [56, 48, 40, 24, 16, 8]]"

section \<open>The functions of a round\<close>

record AVCAMELLIA =
  cam_Kw :: "u64 list"
  cam_Ke :: "u64 list"
  cam_K :: "u64 list"
  cam_key_bits :: int

definition LR32 :: "u32 \<Rightarrow> nat \<Rightarrow> u32" where
  "LR32 x c = shl x c OR shr x (32 - c)"

definition LR128 :: "u64 \<times> u64 \<Rightarrow> nat \<Rightarrow> u64 \<times> u64" where
  "LR128 K x =
     (let (Ki, Kn) = (if 64 \<le> x \<and> x < 128 then prod.swap K else K);
          x = (if 64 \<le> x \<and> x < 128 then x - 64 else x)
      in if x = 0 \<or> 128 \<le> x then (Ki, Kn)
         else (shl Ki x OR shr Kn (64 - x), shl Kn x OR shr Ki (64 - x)))"

definition cam_F :: "u64 list list \<Rightarrow> u64 \<Rightarrow> u64 \<Rightarrow> u64" where
  "cam_F sp F_IN KE =
     (let KE = KE XOR F_IN
      in (sp ! 0 ! unat (shr KE 56)) XOR (sp ! 1 ! unat (shr KE 48 AND 0xff)) XOR
         (sp ! 2 ! unat (shr KE 40 AND 0xff)) XOR (sp ! 3 ! unat (shr KE 32 AND 0xff)) XOR
         (sp ! 4 ! unat (shr KE 24 AND 0xff)) XOR (sp ! 5 ! unat (shr KE 16 AND 0xff)) XOR
         (sp ! 6 ! unat (shr KE 8 AND 0xff)) XOR (sp ! 7 ! unat (KE AND 0xff)))"

definition FL :: "u64 \<Rightarrow> u64 \<Rightarrow> u64" where
  "FL FL_IN KE =
     (let x1 = ucast (shr FL_IN 32) :: u32; x2 = ucast (FL_IN AND 0xffffffff) :: u32;
          k1 = ucast (shr KE 32); k2 = ucast (KE AND 0xffffffff);
          x2 = x2 XOR LR32 (x1 AND k1) 1;
          x1 = x1 XOR (x2 OR k2)
      in shl (ucast x1) 32 OR ucast x2)"

definition FLINV :: "u64 \<Rightarrow> u64 \<Rightarrow> u64" where
  "FLINV FLINV_IN KE =
     (let x1 = ucast (shr FLINV_IN 32) :: u32; x2 = ucast (FLINV_IN AND 0xffffffff) :: u32;
          k1 = ucast (shr KE 32); k2 = ucast (KE AND 0xffffffff);
          x1 = x1 XOR (x2 OR k2);
          x2 = x2 XOR LR32 (x1 AND k1) 1
      in shl (ucast x1) 32 OR ucast x2)"

section \<open>Key schedule\<close>

text \<open>The loop of either branch: two round keys per turn from a shifted 128-bit value.\<close>

definition cam_round_keys :: "(u64 \<times> u64) list \<Rightarrow> nat \<Rightarrow> nat \<Rightarrow> u64 list \<Rightarrow> u64 list" where
  "cam_round_keys Kd row n K =
     foldl (\<lambda>K i. let d = LR128 (Kd ! (cam_vars ! row ! i)) (cam_shifts ! row ! i)
                  in K[2 * i := fst d, 2 * i + 1 := snd d]) K [0..<n]"

definition cam_generate_round_keys ::
    "AVCAMELLIA \<Rightarrow> u64 \<times> u64 \<Rightarrow> u64 \<times> u64 \<Rightarrow> u64 \<times> u64 \<Rightarrow> u64 \<times> u64 \<Rightarrow> AVCAMELLIA" where
  "cam_generate_round_keys cs Kl Kr Ka Kb =
     (let Kd = [Kl, Kr, Ka, Kb];
          Kw = (cam_Kw cs)[0 := fst Kl, 1 := snd Kl]
      in if cam_key_bits cs = 128 then
           let K = cam_round_keys Kd 0 9 (cam_K cs);
               K = K[9 := snd (LR128 (Kd ! 0) 60)];
               d = LR128 (Kd ! 2) 30; Ke = (cam_Ke cs)[0 := fst d, 1 := snd d];
               d = LR128 (Kd ! 0) 77; Ke = Ke[2 := fst d, 3 := snd d];
               d = LR128 (Kd ! 2) 111
           in cs\<lparr>cam_K := K, cam_Ke := Ke, cam_Kw := Kw[2 := fst d, 3 := snd d]\<rparr>
         else
           let K = cam_round_keys Kd 1 12 (cam_K cs);
               d = LR128 (Kd ! 1) 30; Ke = (cam_Ke cs)[0 := fst d, 1 := snd d];
               d = LR128 (Kd ! 0) 60; Ke = Ke[2 := fst d, 3 := snd d];
               d = LR128 (Kd ! 2) 77; Ke = Ke[4 := fst d, 5 := snd d];
               d = LR128 (Kd ! 3) 111
           in cs\<lparr>cam_K := K, cam_Ke := Ke, cam_Kw := Kw[2 := fst d, 3 := snd d]\<rparr>)"

text \<open>The zeroed context of \<open>av_camellia_alloc\<close>.\<close>

definition av_camellia_alloc :: "AVCAMELLIA" where
  "av_camellia_alloc = \<lparr>cam_Kw = replicate 4 0, cam_Ke = replicate 6 0, cam_K = replicate 24 0, cam_key_bits = 0\<rparr>"

text \<open>An error, or the context and the table \<open>SP\<close> that the call leaves.\<close>

definition av_camellia_init :: "AVCAMELLIA \<Rightarrow> bytes \<Rightarrow> int \<Rightarrow> averror + AVCAMELLIA \<times> u64 list list" where
  "av_camellia_init cs key key_bits =
     (if key_bits \<noteq> 128 \<and> key_bits \<noteq> 192 \<and> key_bits \<noteq> 256 then Inl EINVAL
      else let cs = cs\<lparr>cam_key_bits := key_bits\<rparr>;
               Kl = (AV_RB64 key 0, AV_RB64 key 8);
               Kr = (if key_bits = 192 then (AV_RB64 key 16, NOT (AV_RB64 key 16))
                     else if key_bits = 256 then (AV_RB64 key 16, AV_RB64 key 24)
                     else (0, 0));
               sp = computeSP;
               D1 = fst Kl XOR fst Kr;
               D2 = snd Kl XOR snd Kr;
               D2 = D2 XOR cam_F sp D1 (cam_Sigma 1);
               D1 = D1 XOR cam_F sp D2 (cam_Sigma 2);
               D1 = D1 XOR fst Kl;
               D2 = D2 XOR snd Kl;
               D2 = D2 XOR cam_F sp D1 (cam_Sigma 3);
               D1 = D1 XOR cam_F sp D2 (cam_Sigma 4);
               Ka = (D1, D2);
               Kb = (if key_bits \<noteq> 128 then
                       let D1 = fst Ka XOR fst Kr;
                           D2 = snd Ka XOR snd Kr;
                           D2 = D2 XOR cam_F sp D1 (cam_Sigma 5);
                           D1 = D1 XOR cam_F sp D2 (cam_Sigma 6)
                       in (D1, D2)
                     else (0, 0))
           in Inr (cam_generate_round_keys cs Kl Kr Ka Kb, sp))"

section \<open>The cipher\<close>

text \<open>Two lines of rounds, \<open>D2 ^= F(D1, K[i])\<close> and \<open>D1 ^= F(D2, K[j])\<close>, and the two lines between
  the groups of six.\<close>

fun cam_pair :: "u64 list list \<Rightarrow> AVCAMELLIA \<Rightarrow> nat \<Rightarrow> nat \<Rightarrow> u64 \<times> u64 \<Rightarrow> u64 \<times> u64" where
  "cam_pair sp cs i j (D1, D2) =
     (let D2 = D2 XOR cam_F sp D1 (cam_K cs ! i);
          D1 = D1 XOR cam_F sp D2 (cam_K cs ! j)
      in (D1, D2))"

fun cam_FL :: "AVCAMELLIA \<Rightarrow> nat \<Rightarrow> nat \<Rightarrow> u64 \<times> u64 \<Rightarrow> u64 \<times> u64" where
  "cam_FL cs i j (D1, D2) = (FL D1 (cam_Ke cs ! i), FLINV D2 (cam_Ke cs ! j))"

definition camellia_encrypt :: "u64 list list \<Rightarrow> AVCAMELLIA \<Rightarrow> bytes \<Rightarrow> bytes" where
  "camellia_encrypt sp cs src =
     (let D = (AV_RB64 src 0 XOR cam_Kw cs ! 0, AV_RB64 src 8 XOR cam_Kw cs ! 1);
          D = cam_pair sp cs 0 1 D;
          D = cam_pair sp cs 2 3 D;
          D = cam_pair sp cs 4 5 D;
          D = cam_FL cs 0 1 D;
          D = cam_pair sp cs 6 7 D;
          D = cam_pair sp cs 8 9 D;
          D = cam_pair sp cs 10 11 D;
          D = cam_FL cs 2 3 D;
          D = cam_pair sp cs 12 13 D;
          D = cam_pair sp cs 14 15 D;
          D = cam_pair sp cs 16 17 D;
          D = (if cam_key_bits cs \<noteq> 128 then
                 let D = cam_FL cs 4 5 D;
                     D = cam_pair sp cs 18 19 D;
                     D = cam_pair sp cs 20 21 D
                 in cam_pair sp cs 22 23 D
               else D)
      in AV_WB64 (snd D XOR cam_Kw cs ! 2) @ AV_WB64 (fst D XOR cam_Kw cs ! 3))"

definition camellia_decrypt :: "u64 list list \<Rightarrow> AVCAMELLIA \<Rightarrow> bytes \<Rightarrow> bytes option \<Rightarrow> bytes \<times> bytes option" where
  "camellia_decrypt sp cs src iv =
     (let D = (AV_RB64 src 0 XOR cam_Kw cs ! 2, AV_RB64 src 8 XOR cam_Kw cs ! 3);
          D = (if cam_key_bits cs \<noteq> 128 then
                 let D = cam_pair sp cs 23 22 D;
                     D = cam_pair sp cs 21 20 D;
                     D = cam_pair sp cs 19 18 D
                 in cam_FL cs 5 4 D
               else D);
          D = cam_pair sp cs 17 16 D;
          D = cam_pair sp cs 15 14 D;
          D = cam_pair sp cs 13 12 D;
          D = cam_FL cs 3 2 D;
          D = cam_pair sp cs 11 10 D;
          D = cam_pair sp cs 9 8 D;
          D = cam_pair sp cs 7 6 D;
          D = cam_FL cs 1 0 D;
          D = cam_pair sp cs 5 4 D;
          D = cam_pair sp cs 3 2 D;
          D = cam_pair sp cs 1 0 D;
          D2 = snd D XOR cam_Kw cs ! 0;
          D1 = fst D XOR cam_Kw cs ! 1;
          ((D1, D2), iv) =
            (case iv of None \<Rightarrow> ((D1, D2), None)
             | Some w \<Rightarrow> ((D1 XOR AV_RB64 w 8, D2 XOR AV_RB64 w 0), Some (take 16 src)))
      in (AV_WB64 D2 @ AV_WB64 D1, iv))"

fun av_camellia_crypt ::
    "u64 list list \<Rightarrow> AVCAMELLIA \<Rightarrow> bytes \<Rightarrow> nat \<Rightarrow> bytes option \<Rightarrow> bool \<Rightarrow> bytes \<times> bytes option" where
  "av_camellia_crypt sp cs src 0 iv decrypt = ([], iv)"
| "av_camellia_crypt sp cs src (Suc count) iv decrypt =
     (let (d, iv') =
        (if decrypt then camellia_decrypt sp cs (take 16 src) iv
         else case iv of
             None \<Rightarrow> (camellia_encrypt sp cs (take 16 src), None)
           | Some w \<Rightarrow> let d = camellia_encrypt sp cs (xor_bytes (take 16 src) w) in (d, Some d));
          (ds, iv'') = av_camellia_crypt sp cs (drop 16 src) count iv' decrypt
      in (d @ ds, iv''))"

section \<open>Decryption inverts encryption\<close>

text \<open>Every line pair undoes itself on the exchanged halves.\<close>

lemma cam_pair_swap: "cam_pair sp cs j i (prod.swap (cam_pair sp cs i j D)) = prod.swap D"
  by (cases D) (simp add: Let_def)

lemma FLINV_FL: "FLINV (FL x k) k = x"
  by (simp only: FL_def FLINV_def Let_def mask32 ucast_mask32 hi_join64 lo_join64 join64 xor_cancel_right)

lemma FL_FLINV: "FL (FLINV x k) k = x"
  by (simp only: FL_def FLINV_def Let_def mask32 ucast_mask32 hi_join64 lo_join64 join64 xor_cancel_right)

lemma cam_FL_swap: "cam_FL cs j i (prod.swap (cam_FL cs i j D)) = prod.swap D"
  by (cases D) (simp add: FLINV_FL FL_FLINV)

declare cam_pair.simps [simp del] cam_FL.simps [simp del]

lemmas cam_swaps = cam_pair_swap cam_FL_swap

lemma prod_swap_fold: "(snd D, fst D) = prod.swap D"
  by (simp add: prod.swap_def)

lemma camellia_decrypt_encrypt:
  assumes "length b = 16"
  shows "fst (camellia_decrypt sp cs (camellia_encrypt sp cs b) None) = b"
  using assms
  by (simp add: camellia_encrypt_def camellia_decrypt_def Let_def split_def byte_access prod_swap_fold
    cam_swaps AV_WB64_field flip: take_add)

lemma cam_xor_bytes:
  "length w = 16 \<Longrightarrow> xor_bytes (AV_WB64 a @ AV_WB64 b) w =
    AV_WB64 (a XOR AV_RB64 w 0) @ AV_WB64 (b XOR AV_RB64 w 8)"
  by (simp add: AV_WB64_xor AV_WB64_field xor_bytes_append [symmetric] flip: take_add)

interpretation camellia: cipher_loop 16 "camellia_encrypt sp cs"
  "\<lambda>b. fst (camellia_decrypt sp cs b None)" "camellia_decrypt sp cs"
  "\<lambda>src n iv decrypt. av_camellia_crypt sp cs src n iv decrypt" for sp cs
proof unfold_locales
  fix b w :: bytes
  assume b: "length b = 16"
  show "length (camellia_encrypt sp cs b) = 16"
    by (simp add: camellia_encrypt_def Let_def)
  show "fst (camellia_decrypt sp cs (camellia_encrypt sp cs b) None) = b"
    using b by (rule camellia_decrypt_encrypt)
  show "length w = 16 \<Longrightarrow> camellia_decrypt sp cs b (Some w) =
      (xor_bytes (fst (camellia_decrypt sp cs b None)) w, Some b)"
    using b by (simp add: camellia_decrypt_def Let_def cam_xor_bytes)
qed (simp_all add: camellia_decrypt_def Let_def split_def split: option.split)

text \<open>Whatever round keys and table the context holds, \<open>av_camellia_crypt\<close> decrypts what it
  encrypted, in both modes, and leaves the same \<open>iv\<close>.\<close>

theorem av_camellia_round_trip:
  assumes "length src = n * 16" and "iv_ok 16 iv"
  shows "av_camellia_crypt sp cs (fst (av_camellia_crypt sp cs src n iv False)) n iv True =
    (src, snd (av_camellia_crypt sp cs src n iv False))"
  using assms by (rule camellia.crypt_round_trip)

theorem av_camellia_round_trip_witness:
  "av_camellia_crypt computeSP av_camellia_alloc
     (fst (av_camellia_crypt computeSP av_camellia_alloc (replicate 32 1) 2 (Some (replicate 16 5)) False))
     2 (Some (replicate 16 5)) True =
   (replicate 32 1, snd (av_camellia_crypt computeSP av_camellia_alloc (replicate 32 1) 2 (Some (replicate 16 5)) False))"
  using av_camellia_round_trip [of "replicate 32 1" 2 "Some (replicate 16 5)"] by simp

section \<open>Key setup\<close>

lemma length_cam_round_keys [simp]: "length (cam_round_keys Kd row n K) = length K"
  by (induction n) (simp_all add: cam_round_keys_def Let_def)

text \<open>\<open>av_camellia_init\<close> fails exactly on a key length other than 128, 192 and 256 bits; otherwise the
  context holds the length, and every round key array keeps its size.\<close>

lemma av_camellia_init_correct:
  "case av_camellia_init cs key key_bits of
     Inl e \<Rightarrow> e = EINVAL \<and> key_bits \<notin> {128, 192, 256}
   | Inr (cs', sp) \<Rightarrow> key_bits \<in> {128, 192, 256} \<and> cam_key_bits cs' = key_bits \<and> sp = computeSP \<and>
       length (cam_K cs') = length (cam_K cs) \<and> length (cam_Kw cs') = length (cam_Kw cs) \<and>
       length (cam_Ke cs') = length (cam_Ke cs)"
  by (simp add: av_camellia_init_def cam_generate_round_keys_def Let_def split: sum.split)

end
