(* ===== verification/AvDes.thy ===== *)
theory AvDes imports BlockCipher AvIntMath
begin

text \<open>
  \<open>libavutil/des.c\<close>: single and triple DES, the modes and the message authentication code, for both
  values of \<open>CONFIG_SMALL\<close>: with the combined table, and with the S-boxes and a run-time shuffle.
\<close>

section \<open>Tables\<close>

definition IP_shuffle :: "nat list" where
  "IP_shuffle =
     map (\<lambda>a. 64 - a)
     [58, 50, 42, 34, 26, 18, 10, 2,
      60, 52, 44, 36, 28, 20, 12, 4,
      62, 54, 46, 38, 30, 22, 14, 6,
      64, 56, 48, 40, 32, 24, 16, 8,
      57, 49, 41, 33, 25, 17, 9, 1,
      59, 51, 43, 35, 27, 19, 11, 3,
      61, 53, 45, 37, 29, 21, 13, 5,
      63, 55, 47, 39, 31, 23, 15, 7]"

definition P_shuffle :: "nat list" where
  "P_shuffle =
     map (\<lambda>a. 32 - a)
     [16, 7, 20, 21, 29, 12, 28, 17,
      1, 15, 23, 26, 5, 18, 31, 10,
      2, 8, 24, 14, 32, 27, 3, 9,
      19, 13, 30, 6, 22, 11, 4, 25]"

definition PC1_shuffle :: "nat list" where
  "PC1_shuffle =
     map (\<lambda>a. 64 - a)
     [57, 49, 41, 33, 25, 17, 9,
      1, 58, 50, 42, 34, 26, 18,
      10, 2, 59, 51, 43, 35, 27,
      19, 11, 3, 60, 52, 44, 36,
      63, 55, 47, 39, 31, 23, 15,
      7, 62, 54, 46, 38, 30, 22,
      14, 6, 61, 53, 45, 37, 29,
      21, 13, 5, 28, 20, 12, 4]"

definition PC2_shuffle :: "nat list" where
  "PC2_shuffle =
     map (\<lambda>a. 56 - a)
     [14, 17, 11, 24, 1, 5,
      3, 28, 15, 6, 21, 10,
      23, 19, 12, 4, 26, 8,
      16, 7, 27, 20, 13, 2,
      41, 52, 31, 37, 47, 55,
      30, 40, 51, 45, 33, 48,
      44, 49, 39, 56, 34, 53,
      46, 42, 50, 36, 29, 32]"

definition S_boxes :: "u8 list list" where
  "S_boxes =
     [[0x0e, 0xf4, 0x7d, 0x41, 0xe2, 0x2f, 0xdb, 0x18, 0xa3, 0x6a, 0xc6, 0xbc, 0x95, 0x59, 0x30, 0x87,
       0xf4, 0xc1, 0x8e, 0x28, 0x4d, 0x96, 0x12, 0x7b, 0x5f, 0xbc, 0x39, 0xe7, 0xa3, 0x0a, 0x65, 0xd0],
      [0x3f, 0xd1, 0x48, 0x7e, 0xf6, 0x2b, 0x83, 0xe4, 0xc9, 0x07, 0x12, 0xad, 0x6c, 0x90, 0xb5, 0x5a,
       0xd0, 0x8e, 0xa7, 0x1b, 0x3a, 0xf4, 0x4d, 0x21, 0xb5, 0x68, 0x7c, 0xc6, 0x09, 0x53, 0xe2, 0x9f],
      [0xda, 0x70, 0x09, 0x9e, 0x36, 0x43, 0x6f, 0xa5, 0x21, 0x8d, 0x5c, 0xe7, 0xcb, 0xb4, 0xf2, 0x18,
       0x1d, 0xa6, 0xd4, 0x09, 0x68, 0x9f, 0x83, 0x70, 0x4b, 0xf1, 0xe2, 0x3c, 0xb5, 0x5a, 0x2e, 0xc7],
      [0xd7, 0x8d, 0xbe, 0x53, 0x60, 0xf6, 0x09, 0x3a, 0x41, 0x72, 0x28, 0xc5, 0x1b, 0xac, 0xe4, 0x9f,
       0x3a, 0xf6, 0x09, 0x60, 0xac, 0x1b, 0xd7, 0x8d, 0x9f, 0x41, 0x53, 0xbe, 0xc5, 0x72, 0x28, 0xe4],
      [0xe2, 0xbc, 0x24, 0xc1, 0x47, 0x7a, 0xdb, 0x16, 0x58, 0x05, 0xf3, 0xaf, 0x3d, 0x90, 0x8e, 0x69,
       0xb4, 0x82, 0xc1, 0x7b, 0x1a, 0xed, 0x27, 0xd8, 0x6f, 0xf9, 0x0c, 0x95, 0xa6, 0x43, 0x50, 0x3e],
      [0xac, 0xf1, 0x4a, 0x2f, 0x79, 0xc2, 0x96, 0x58, 0x60, 0x1d, 0xd3, 0xe4, 0x0e, 0xb7, 0x35, 0x8b,
       0x49, 0x3e, 0x2f, 0xc5, 0x92, 0x58, 0xfc, 0xa3, 0xb7, 0xe0, 0x14, 0x7a, 0x61, 0x0d, 0x8b, 0xd6],
      [0xd4, 0x0b, 0xb2, 0x7e, 0x4f, 0x90, 0x18, 0xad, 0xe3, 0x3c, 0x59, 0xc7, 0x25, 0xfa, 0x86, 0x61,
       0x61, 0xb4, 0xdb, 0x8d, 0x1c, 0x43, 0xa7, 0x7e, 0x9a, 0x5f, 0x06, 0xf8, 0xe0, 0x25, 0x39, 0xc2],
      [0x1d, 0xf2, 0xd8, 0x84, 0xa6, 0x3f, 0x7b, 0x41, 0xca, 0x59, 0x63, 0xbe, 0x05, 0xe0, 0x9c, 0x27,
       0x27, 0x1b, 0xe4, 0x71, 0x49, 0xac, 0x8e, 0xd2, 0xf0, 0xc6, 0x9a, 0x0d, 0x3f, 0x53, 0x65, 0xb8]]"

definition S_boxes_P_shuffle :: "u32 list list" where
  "S_boxes_P_shuffle =
     [[0x00808200, 0x00000000, 0x00008000, 0x00808202, 0x00808002, 0x00008202, 0x00000002, 0x00008000,
       0x00000200, 0x00808200, 0x00808202, 0x00000200, 0x00800202, 0x00808002, 0x00800000, 0x00000002,
       0x00000202, 0x00800200, 0x00800200, 0x00008200, 0x00008200, 0x00808000, 0x00808000, 0x00800202,
       0x00008002, 0x00800002, 0x00800002, 0x00008002, 0x00000000, 0x00000202, 0x00008202, 0x00800000,
       0x00008000, 0x00808202, 0x00000002, 0x00808000, 0x00808200, 0x00800000, 0x00800000, 0x00000200,
       0x00808002, 0x00008000, 0x00008200, 0x00800002, 0x00000200, 0x00000002, 0x00800202, 0x00008202,
       0x00808202, 0x00008002, 0x00808000, 0x00800202, 0x00800002, 0x00000202, 0x00008202, 0x00808200,
       0x00000202, 0x00800200, 0x00800200, 0x00000000, 0x00008002, 0x00008200, 0x00000000, 0x00808002],
      [0x40084010, 0x40004000, 0x00004000, 0x00084010, 0x00080000, 0x00000010, 0x40080010, 0x40004010,
       0x40000010, 0x40084010, 0x40084000, 0x40000000, 0x40004000, 0x00080000, 0x00000010, 0x40080010,
       0x00084000, 0x00080010, 0x40004010, 0x00000000, 0x40000000, 0x00004000, 0x00084010, 0x40080000,
       0x00080010, 0x40000010, 0x00000000, 0x00084000, 0x00004010, 0x40084000, 0x40080000, 0x00004010,
       0x00000000, 0x00084010, 0x40080010, 0x00080000, 0x40004010, 0x40080000, 0x40084000, 0x00004000,
       0x40080000, 0x40004000, 0x00000010, 0x40084010, 0x00084010, 0x00000010, 0x00004000, 0x40000000,
       0x00004010, 0x40084000, 0x00080000, 0x40000010, 0x00080010, 0x40004010, 0x40000010, 0x00080010,
       0x00084000, 0x00000000, 0x40004000, 0x00004010, 0x40000000, 0x40080010, 0x40084010, 0x00084000],
      [0x00000104, 0x04010100, 0x00000000, 0x04010004, 0x04000100, 0x00000000, 0x00010104, 0x04000100,
       0x00010004, 0x04000004, 0x04000004, 0x00010000, 0x04010104, 0x00010004, 0x04010000, 0x00000104,
       0x04000000, 0x00000004, 0x04010100, 0x00000100, 0x00010100, 0x04010000, 0x04010004, 0x00010104,
       0x04000104, 0x00010100, 0x00010000, 0x04000104, 0x00000004, 0x04010104, 0x00000100, 0x04000000,
       0x04010100, 0x04000000, 0x00010004, 0x00000104, 0x00010000, 0x04010100, 0x04000100, 0x00000000,
       0x00000100, 0x00010004, 0x04010104, 0x04000100, 0x04000004, 0x00000100, 0x00000000, 0x04010004,
       0x04000104, 0x00010000, 0x04000000, 0x04010104, 0x00000004, 0x00010104, 0x00010100, 0x04000004,
       0x04010000, 0x04000104, 0x00000104, 0x04010000, 0x00010104, 0x00000004, 0x04010004, 0x00010100],
      [0x80401000, 0x80001040, 0x80001040, 0x00000040, 0x00401040, 0x80400040, 0x80400000, 0x80001000,
       0x00000000, 0x00401000, 0x00401000, 0x80401040, 0x80000040, 0x00000000, 0x00400040, 0x80400000,
       0x80000000, 0x00001000, 0x00400000, 0x80401000, 0x00000040, 0x00400000, 0x80001000, 0x00001040,
       0x80400040, 0x80000000, 0x00001040, 0x00400040, 0x00001000, 0x00401040, 0x80401040, 0x80000040,
       0x00400040, 0x80400000, 0x00401000, 0x80401040, 0x80000040, 0x00000000, 0x00000000, 0x00401000,
       0x00001040, 0x00400040, 0x80400040, 0x80000000, 0x80401000, 0x80001040, 0x80001040, 0x00000040,
       0x80401040, 0x80000040, 0x80000000, 0x00001000, 0x80400000, 0x80001000, 0x00401040, 0x80400040,
       0x80001000, 0x00001040, 0x00400000, 0x80401000, 0x00000040, 0x00400000, 0x00001000, 0x00401040],
      [0x00000080, 0x01040080, 0x01040000, 0x21000080, 0x00040000, 0x00000080, 0x20000000, 0x01040000,
       0x20040080, 0x00040000, 0x01000080, 0x20040080, 0x21000080, 0x21040000, 0x00040080, 0x20000000,
       0x01000000, 0x20040000, 0x20040000, 0x00000000, 0x20000080, 0x21040080, 0x21040080, 0x01000080,
       0x21040000, 0x20000080, 0x00000000, 0x21000000, 0x01040080, 0x01000000, 0x21000000, 0x00040080,
       0x00040000, 0x21000080, 0x00000080, 0x01000000, 0x20000000, 0x01040000, 0x21000080, 0x20040080,
       0x01000080, 0x20000000, 0x21040000, 0x01040080, 0x20040080, 0x00000080, 0x01000000, 0x21040000,
       0x21040080, 0x00040080, 0x21000000, 0x21040080, 0x01040000, 0x00000000, 0x20040000, 0x21000000,
       0x00040080, 0x01000080, 0x20000080, 0x00040000, 0x00000000, 0x20040000, 0x01040080, 0x20000080],
      [0x10000008, 0x10200000, 0x00002000, 0x10202008, 0x10200000, 0x00000008, 0x10202008, 0x00200000,
       0x10002000, 0x00202008, 0x00200000, 0x10000008, 0x00200008, 0x10002000, 0x10000000, 0x00002008,
       0x00000000, 0x00200008, 0x10002008, 0x00002000, 0x00202000, 0x10002008, 0x00000008, 0x10200008,
       0x10200008, 0x00000000, 0x00202008, 0x10202000, 0x00002008, 0x00202000, 0x10202000, 0x10000000,
       0x10002000, 0x00000008, 0x10200008, 0x00202000, 0x10202008, 0x00200000, 0x00002008, 0x10000008,
       0x00200000, 0x10002000, 0x10000000, 0x00002008, 0x10000008, 0x10202008, 0x00202000, 0x10200000,
       0x00202008, 0x10202000, 0x00000000, 0x10200008, 0x00000008, 0x00002000, 0x10200000, 0x00202008,
       0x00002000, 0x00200008, 0x10002008, 0x00000000, 0x10202000, 0x10000000, 0x00200008, 0x10002008],
      [0x00100000, 0x02100001, 0x02000401, 0x00000000, 0x00000400, 0x02000401, 0x00100401, 0x02100400,
       0x02100401, 0x00100000, 0x00000000, 0x02000001, 0x00000001, 0x02000000, 0x02100001, 0x00000401,
       0x02000400, 0x00100401, 0x00100001, 0x02000400, 0x02000001, 0x02100000, 0x02100400, 0x00100001,
       0x02100000, 0x00000400, 0x00000401, 0x02100401, 0x00100400, 0x00000001, 0x02000000, 0x00100400,
       0x02000000, 0x00100400, 0x00100000, 0x02000401, 0x02000401, 0x02100001, 0x02100001, 0x00000001,
       0x00100001, 0x02000000, 0x02000400, 0x00100000, 0x02100400, 0x00000401, 0x00100401, 0x02100400,
       0x00000401, 0x02000001, 0x02100401, 0x02100000, 0x00100400, 0x00000000, 0x00000001, 0x02100401,
       0x00000000, 0x00100401, 0x02100000, 0x00000400, 0x02000001, 0x02000400, 0x00000400, 0x00100001],
      [0x08000820, 0x00000800, 0x00020000, 0x08020820, 0x08000000, 0x08000820, 0x00000020, 0x08000000,
       0x00020020, 0x08020000, 0x08020820, 0x00020800, 0x08020800, 0x00020820, 0x00000800, 0x00000020,
       0x08020000, 0x08000020, 0x08000800, 0x00000820, 0x00020800, 0x00020020, 0x08020020, 0x08020800,
       0x00000820, 0x00000000, 0x00000000, 0x08020020, 0x08000020, 0x08000800, 0x00020820, 0x00020000,
       0x00020820, 0x00020000, 0x08020800, 0x00000800, 0x00000020, 0x08020020, 0x00000800, 0x00020820,
       0x08000800, 0x00000020, 0x08000020, 0x08020000, 0x08020020, 0x08000000, 0x00020000, 0x08000820,
       0x00000000, 0x08020820, 0x00020020, 0x08000020, 0x08020000, 0x08000800, 0x08000820, 0x00000000,
       0x08020820, 0x00020800, 0x00020800, 0x00000820, 0x00000820, 0x00020020, 0x08000000, 0x08020800]]"

section \<open>Bit permutations\<close>

definition shuffle :: "u64 \<Rightarrow> nat list \<Rightarrow> u64" where
  "shuffle inp tab = foldl (\<lambda>res s. res + (res + (shr inp s AND 1))) 0 tab"

text \<open>The table read from its end, the lowest bit of \<open>in\<close> taken at every turn.\<close>

fun shuffle_inv_loop :: "u64 \<Rightarrow> nat list \<Rightarrow> u64 \<Rightarrow> u64" where
  "shuffle_inv_loop inp [] res = res"
| "shuffle_inv_loop inp (s # ss) res = shuffle_inv_loop (shr inp 1) ss (res OR shl (inp AND 1) s)"

definition shuffle_inv :: "u64 \<Rightarrow> nat list \<Rightarrow> u64" where
  "shuffle_inv inp tab = shuffle_inv_loop inp (rev tab) 0"

lemma shl_plus_low: "0 < m \<Longrightarrow> shl x m + (b AND 1) = shl x m OR (b AND 1)" for x b :: u64
  by (rule disjunctive_add_eq_or) (auto intro!: bit_word_eqI simp: bit_simps)

lemma shuffle_snoc: "shuffle inp (tab @ [s]) = shl (shuffle inp tab) 1 OR (shr inp s AND 1)"
  using shl_plus_low [of 1 "shuffle inp tab" "shr inp s"]
  by (simp add: shuffle_def mult.commute)

lemma bit_shl_1_or: "bit (shl x 1 OR (b AND 1)) n \<longleftrightarrow> (case n of 0 \<Rightarrow> bit b 0 | Suc m \<Rightarrow> n < 64 \<and> bit x m)"
  for x b :: u64
  unfolding bit_or_iff bit_and_iff bit_push_bit_iff by (cases n) (auto simp: bit_simps)

lemma bit_shuffle:
  "length tab \<le> 64 \<Longrightarrow>
   bit (shuffle inp tab) n \<longleftrightarrow> n < length tab \<and> bit inp (tab ! (length tab - 1 - n))"
proof (induction tab arbitrary: n rule: rev_induct)
  case Nil
  then show ?case by (simp add: shuffle_def)
next
  case (snoc s tab)
  have "length tab < 64" using snoc.prems by simp
  have IH: "bit (shuffle inp tab) m \<longleftrightarrow> m < length tab \<and> bit inp (tab ! (length tab - 1 - m))" for m
    using \<open>length tab < 64\<close> by (intro snoc.IH) simp
  show ?case
  proof (cases n)
    case 0
    then show ?thesis unfolding shuffle_snoc bit_shl_1_or by (simp add: bit_drop_bit_eq)
  next
    case (Suc m)
    have "(tab @ [s]) ! (length tab - Suc m) = tab ! (length tab - Suc m)" if "m < length tab"
    proof -
      have "length tab - Suc m < length tab" using that by arith
      then show ?thesis by (simp add: nth_append)
    qed
    with Suc \<open>length tab < 64\<close> show ?thesis
      unfolding shuffle_snoc bit_shl_1_or by (auto simp: IH)
  qed
qed

lemma bit_shuffle_inv_loop:
  "n < 64 \<Longrightarrow> bit (shuffle_inv_loop inp ss res) n \<longleftrightarrow>
     bit res n \<or> (\<exists>i<length ss. ss ! i = n \<and> bit inp i)"
proof (induction ss arbitrary: inp res)
  case (Cons s ss)
  have "(\<exists>i<length (s # ss). (s # ss) ! i = n \<and> bit inp i) \<longleftrightarrow>
      s = n \<and> bit inp 0 \<or> (\<exists>i<length ss. ss ! i = n \<and> bit inp (Suc i))"
    by (auto simp: less_Suc_eq_0_disj)
  with Cons show ?case by (auto simp: bit_simps)
qed simp

lemma bit_shuffle_inv:
  assumes "n < 64"
  shows "bit (shuffle_inv inp tab) n \<longleftrightarrow> (\<exists>i<length tab. tab ! i = n \<and> bit inp (length tab - 1 - i))"
proof -
  have "(\<exists>i<length tab. rev tab ! i = n \<and> bit inp i) \<longleftrightarrow>
      (\<exists>i<length tab. tab ! i = n \<and> bit inp (length tab - 1 - i))" (is "?l \<longleftrightarrow> ?r")
  proof
    assume ?l
    then obtain i where "i < length tab" "rev tab ! i = n" "bit inp i" by blast
    then show ?r by (intro exI [of _ "length tab - 1 - i"]) (auto simp: rev_nth)
  next
    assume ?r
    then obtain i where "i < length tab" "tab ! i = n" "bit inp (length tab - 1 - i)" by blast
    then show ?l by (intro exI [of _ "length tab - 1 - i"]) (auto simp: rev_nth)
  qed
  with assms show ?thesis by (simp add: shuffle_inv_def bit_shuffle_inv_loop)
qed

text \<open>A table that lists every bit once.\<close>

lemma shuffles_inverse:
  assumes t: "length tab = 64" "distinct tab" "set tab = {..<64}"
  shows "shuffle_inv (shuffle inp tab) tab = inp" and "shuffle (shuffle_inv inp tab) tab = inp"
proof -
  show "shuffle_inv (shuffle inp tab) tab = inp"
  proof (rule bit_word_eqI)
    fix n assume "n < LENGTH(64)"
    then have n: "n < 64" by simp
    then obtain i where i: "i < 64" "tab ! i = n" using t by (metis in_set_conv_nth lessThan_iff)
    have "bit (shuffle inp tab) (63 - j) = bit inp (tab ! j)" if "j < 64" for j
      using that t(1) by (simp add: bit_shuffle less_imp_diff_less)
    with i show "bit (shuffle_inv (shuffle inp tab) tab) n = bit inp n"
      unfolding bit_shuffle_inv [OF n] t(1) by auto
  qed
  show "shuffle (shuffle_inv inp tab) tab = inp"
  proof (rule bit_word_eqI)
    fix n assume "n < LENGTH(64)"
    then have n: "n < 64" by simp
    have k: "tab ! (63 - n) < 64" using t(1,3) nth_mem [of "63 - n" tab] by simp
    have "tab ! i = tab ! (63 - n) \<longleftrightarrow> i = 63 - n" if "i < 64" for i
      using that t(1,2) by (intro nth_eq_iff_index_eq) auto
    then have "bit (shuffle_inv inp tab) (tab ! (63 - n)) = bit inp n"
      unfolding bit_shuffle_inv [OF k] t(1) using n by (auto intro!: exI [of _ "63 - n"])
    then show "bit (shuffle (shuffle_inv inp tab) tab) n = bit inp n"
      using n t(1) by (simp add: bit_shuffle)
  qed
qed

lemma IP_shuffle_inverse [simp]:
  "shuffle_inv (shuffle inp IP_shuffle) IP_shuffle = inp"
  "shuffle (shuffle_inv inp IP_shuffle) IP_shuffle = inp"
proof -
  have p: "length IP_shuffle = 64" "distinct IP_shuffle" by (simp_all add: IP_shuffle_def)
  have "set IP_shuffle \<subseteq> {..<64}" by (simp add: IP_shuffle_def)
  moreover have "card (set IP_shuffle) = 64" using p by (simp add: distinct_card)
  ultimately have "set IP_shuffle = {..<64}" by (simp add: card_subset_eq)
  with p show "shuffle_inv (shuffle inp IP_shuffle) IP_shuffle = inp"
    "shuffle (shuffle_inv inp IP_shuffle) IP_shuffle = inp"
    by (simp_all add: shuffles_inverse)
qed

section \<open>The round function\<close>

text \<open>One turn of the loop, in either configuration, on \<open>(r, k, out)\<close>.\<close>

fun f_step :: "u32 \<times> u64 \<times> u32 \<Rightarrow> nat \<Rightarrow> u32 \<times> u64 \<times> u32" where
  "f_step (r, k, out) i =
     (let tmp = ucast ((ucast r XOR k) AND 0x3f) :: u8;
          out = out OR S_boxes_P_shuffle ! i ! unat tmp
      in (shr r 4 OR shl r 28, shr k 6, out))"

definition S_box_nibble :: "nat \<Rightarrow> u8 \<Rightarrow> u8" where
  "S_box_nibble i tmp =
     (let v = S_boxes ! i ! unat (shr tmp 1) in if tmp AND 1 \<noteq> 0 then shr v 4 else v)"

fun f_step_small :: "u32 \<times> u64 \<times> u32 \<Rightarrow> nat \<Rightarrow> u32 \<times> u64 \<times> u32" where
  "f_step_small (r, k, out) i =
     (let tmp = ucast ((ucast r XOR k) AND 0x3f) :: u8;
          v = S_box_nibble i tmp;
          out = shr out 4 OR shl (ucast v) 28
      in (shr r 4 OR shl r 28, shr k 6, out))"

definition f_func :: "u32 \<Rightarrow> u64 \<Rightarrow> u32" where
  "f_func r k =
     (let (r, k, out) = foldl f_step (shl r 1 OR shr r 31, k, 0) [7, 6, 5, 4, 3, 2, 1, 0] in out)"

definition f_func_small :: "u32 \<Rightarrow> u64 \<Rightarrow> u32" where
  "f_func_small r k =
     (let (r, k, out) = foldl f_step_small (shl r 1 OR shr r 31, k, 0) [7, 6, 5, 4, 3, 2, 1, 0]
      in ucast (shuffle (ucast out) P_shuffle))"

section \<open>Key schedule\<close>

definition key_shift_left :: "u64 \<Rightarrow> u64" where
  "key_shift_left CDn =
     (let carries = shr CDn 27 AND 0x10000001
      in (shl CDn 1 AND NOT 0x10000001) OR carries)"

definition round_key_step :: "u64 \<times> u64 list \<Rightarrow> nat \<Rightarrow> u64 \<times> u64 list" where
  "round_key_step = (\<lambda>(CDn, K) i.
     let CDn = key_shift_left CDn;
         CDn = (if i > 1 \<and> i \<noteq> 8 \<and> i \<noteq> 15 then key_shift_left CDn else CDn)
     in (CDn, K @ [shuffle CDn PC2_shuffle]))"

definition gen_roundkeys :: "u64 \<Rightarrow> u64 list" where
  "gen_roundkeys key = snd (foldl round_key_step (shuffle key PC1_shuffle, []) [0..<16])"

record AVDES =
  round_keys :: "u64 list list"
  triple_des :: bool

text \<open>The zeroed context of \<open>av_des_alloc\<close>.\<close>

definition av_des_alloc :: AVDES where
  "av_des_alloc = \<lparr>round_keys = replicate 3 (replicate 16 0), triple_des = False\<rparr>"

definition av_des_init :: "AVDES \<Rightarrow> bytes \<Rightarrow> int \<Rightarrow> averror + AVDES" where
  "av_des_init d key key_bits =
     (if key_bits \<noteq> 64 \<and> key_bits \<noteq> 192 then Inl EINVAL
      else let triple = (key_bits > 64);
               K = (round_keys d)[0 := gen_roundkeys (AV_RB64 key 0)];
               K = (if triple then K[1 := gen_roundkeys (AV_RB64 key 8), 2 := gen_roundkeys (AV_RB64 key 16)]
                    else K)
           in Inr \<lparr>round_keys = K, triple_des = triple\<rparr>)"

section \<open>The cipher\<close>

text \<open>\<open>(in << 32) | (in >> 32)\<close>\<close>

definition swap64 :: "u64 \<Rightarrow> u64" where
  "swap64 x = shl x 32 OR shr x 32"

definition des_step :: "u64 \<Rightarrow> u64 \<Rightarrow> u64" where
  "des_step inp k =
     (let f_res = f_func (ucast inp) k;
          inp = swap64 inp
      in inp XOR ucast f_res)"

definition des_encdec :: "u64 \<Rightarrow> u64 list \<Rightarrow> bool \<Rightarrow> u64" where
  "des_encdec inp K decrypt =
     (let x = (if decrypt then 15 else 0);
          inp = shuffle inp IP_shuffle;
          inp = foldl (\<lambda>inp i. des_step inp (K ! (x XOR i))) inp [0..<16];
          inp = swap64 inp
      in shuffle_inv inp IP_shuffle)"

text \<open>The values written one after another, and the last \<open>iv_val\<close>; \<open>chain\<close> says whether there is
  an \<open>iv\<close>, and \<open>src\<close> may be the null pointer.\<close>

fun des_loop :: "AVDES \<Rightarrow> bytes option \<Rightarrow> nat \<Rightarrow> bool \<Rightarrow> u64 \<Rightarrow> bool \<Rightarrow> u64 list \<times> u64" where
  "des_loop d src 0 chain iv_val decrypt = ([], iv_val)"
| "des_loop d src (Suc count) chain iv_val decrypt =
     (let src_val = (case src of None \<Rightarrow> 0 | Some s \<Rightarrow> AV_RB64 s 0);
          (dst_val, iv_val) =
            (if decrypt then
               let tmp = src_val;
                   src_val = (if triple_des d then
                       let src_val = des_encdec src_val (round_keys d ! 2) True
                       in des_encdec src_val (round_keys d ! 1) False
                     else src_val)
               in (des_encdec src_val (round_keys d ! 0) True XOR iv_val, if chain then tmp else 0)
             else
               let dst_val = des_encdec (src_val XOR iv_val) (round_keys d ! 0) False;
                   dst_val = (if triple_des d then
                       let dst_val = des_encdec dst_val (round_keys d ! 1) True
                       in des_encdec dst_val (round_keys d ! 2) False
                     else dst_val)
               in (dst_val, if chain then dst_val else 0));
          (vs, iv_val) = des_loop d (map_option (drop 8) src) count chain iv_val decrypt
      in (dst_val # vs, iv_val))"

text \<open>The bytes at \<open>dst\<close> afterwards and at \<open>iv\<close>: with \<open>mac\<close> the pointer \<open>dst\<close> does not move.\<close>

definition av_des_crypt_mac ::
    "AVDES \<Rightarrow> bytes \<Rightarrow> bytes option \<Rightarrow> int \<Rightarrow> bytes option \<Rightarrow> bool \<Rightarrow> bool \<Rightarrow> bytes \<times> bytes option" where
  "av_des_crypt_mac d dst src count iv decrypt mac =
     (let iv_val = (case iv of None \<Rightarrow> 0 | Some w \<Rightarrow> AV_RB64 w 0);
          (vs, iv_val) = des_loop d src (nat count) (iv \<noteq> None) iv_val decrypt;
          out = (if mac then (if vs = [] then [] else AV_WB64 (last vs)) else concat (map AV_WB64 vs))
      in (out @ drop (length out) dst, map_option (\<lambda>w. AV_WB64 iv_val @ drop 8 w) iv))"

definition av_des_crypt ::
    "AVDES \<Rightarrow> bytes \<Rightarrow> bytes option \<Rightarrow> int \<Rightarrow> bytes option \<Rightarrow> bool \<Rightarrow> bytes \<times> bytes option" where
  "av_des_crypt d dst src count iv decrypt = av_des_crypt_mac d dst src count iv decrypt False"

definition av_des_mac :: "AVDES \<Rightarrow> bytes \<Rightarrow> bytes option \<Rightarrow> int \<Rightarrow> bytes" where
  "av_des_mac d dst src count = fst (av_des_crypt_mac d dst src count (Some (replicate 8 0)) False True)"

section \<open>Decryption inverts encryption\<close>

lemma swap64_swap64 [simp]: "swap64 (swap64 x) = x"
  by (rule bit_word_eqI) (auto simp: swap64_def bit_simps dest: bit_imp_le_length)

lemma swap64_xor: "swap64 (x XOR y) = swap64 x XOR swap64 y"
  by (rule bit_word_eqI) (auto simp: swap64_def bit_simps dest: bit_imp_le_length)

lemma low_half_xor_swapped: "(ucast (x XOR swap64 (ucast (a :: u32))) :: u32) = ucast x"
  by (rule bit_word_eqI) (auto simp: swap64_def bit_simps dest: bit_u32_le)

lemma des_step_swap: "des_step (swap64 (des_step v k)) k = swap64 v"
  by (simp add: des_step_def Let_def swap64_xor low_half_xor_swapped)

lemma des_orders: "map (\<lambda>i. K ! (15 XOR i)) [0..<16] = rev (map (\<lambda>i. K ! (0 XOR i)) [0..<16])"
proof -
  have "[0..<16] = [0, 1, 2, 3, 4, 5, 6, 7, 8, 9, 10, 11, 12, 13, 14, 15 :: nat]" by code_simp
  then show ?thesis by (simp only: list.map rev.simps append.simps) (simp add: numeral_3_eq_3 [symmetric])
qed

lemma des_encdec_foldl:
  "des_encdec inp K decrypt =
     shuffle_inv (swap64 (foldl des_step (shuffle inp IP_shuffle)
       (map (\<lambda>i. K ! ((if decrypt then 15 else 0) XOR i)) [0..<16]))) IP_shuffle"
  by (simp add: des_encdec_def foldl_map)

lemma des_encdec_inverse: "des_encdec (des_encdec inp K dir) K (\<not> dir) = inp"
proof -
  have undo: "foldl des_step (swap64 (foldl des_step v ks)) (rev ks) = swap64 v" for v ks
    using des_step_swap by (rule feistel_inverse)
  show ?thesis
    using des_orders [of K] undo [of _ "map (\<lambda>i. K ! (15 XOR i)) [0..<16]"]
      undo [of _ "map (\<lambda>i. K ! (0 XOR i)) [0..<16]"]
    by (cases dir) (simp_all add: des_encdec_foldl del: upt_Suc)
qed

lemmas des_encdec_inverses [simp] =
  des_encdec_inverse [of _ _ True, simplified] des_encdec_inverse [of _ _ False, simplified]

section \<open>It is a block cipher\<close>

text \<open>One block, single or triple.\<close>

definition des_enc_block :: "AVDES \<Rightarrow> u64 \<Rightarrow> u64" where
  "des_enc_block d v =
     (let v = des_encdec v (round_keys d ! 0) False
      in if triple_des d then des_encdec (des_encdec v (round_keys d ! 1) True) (round_keys d ! 2) False else v)"

definition des_dec_block :: "AVDES \<Rightarrow> u64 \<Rightarrow> u64" where
  "des_dec_block d v =
     des_encdec (if triple_des d then des_encdec (des_encdec v (round_keys d ! 2) True) (round_keys d ! 1) False else v)
       (round_keys d ! 0) True"

lemma des_dec_enc_block [simp]: "des_dec_block d (des_enc_block d v) = v"
  by (simp add: des_dec_block_def des_enc_block_def Let_def)

lemma des_loop_Suc:
  "des_loop d (Some src) (Suc n) chain v decrypt =
     (let s = AV_RB64 src 0;
          (w, v') = (if decrypt then (des_dec_block d s XOR v, if chain then s else 0)
                     else (des_enc_block d (s XOR v), if chain then des_enc_block d (s XOR v) else 0));
          (vs, v'') = des_loop d (Some (drop 8 src)) n chain v' decrypt
      in (w # vs, v''))"
  by (simp add: des_enc_block_def des_dec_block_def Let_def)

text \<open>\<open>av_des_crypt\<close> on whole buffers: \<open>dst\<close> has the length of the message.\<close>

definition des_crypt :: "AVDES \<Rightarrow> bytes \<Rightarrow> nat \<Rightarrow> bytes option \<Rightarrow> bool \<Rightarrow> bytes \<times> bytes option" where
  "des_crypt d src n iv decrypt =
     (let (vs, v) = des_loop d (Some src) n (iv \<noteq> None) (case iv of None \<Rightarrow> 0 | Some w \<Rightarrow> AV_RB64 w 0) decrypt
      in (concat (map AV_WB64 vs), map_option (\<lambda>w. AV_WB64 v @ drop 8 w) iv))"

lemma length_des_loop [simp]: "length (fst (des_loop d src n chain v decrypt)) = n"
  by (induction n arbitrary: src v) (simp_all add: Let_def split_def)

lemma length_concat_WB64 [simp]: "length (concat (map AV_WB64 vs)) = 8 * length vs"
  by (induction vs) simp_all

lemma av_des_crypt_whole:
  assumes "length dst = n * 8"
  shows "av_des_crypt d dst (Some src) (int n) iv decrypt = des_crypt d src n iv decrypt"
proof -
  let ?l = "des_loop d (Some src) n (iv \<noteq> None) (case iv of None \<Rightarrow> 0 | Some w \<Rightarrow> AV_RB64 w 0) decrypt"
  have "length (fst ?l) = n" by simp
  then show ?thesis
    using assms unfolding av_des_crypt_def av_des_crypt_mac_def des_crypt_def
    by (simp add: Let_def split_def del: length_des_loop)
qed

lemma AV_RB64_take8 [simp]: "AV_RB64 (take 8 p) 0 = AV_RB64 p 0"
  by (simp add: AV_RB64_def)

lemma AV_RB64_xor:
  "length a = 8 \<Longrightarrow> length b = 8 \<Longrightarrow> AV_RB64 (xor_bytes a b) 0 = AV_RB64 a 0 XOR AV_RB64 b 0"
  by (metis AV_RB64_AV_WB64 AV_WB64_AV_RB64 AV_WB64_xor append_Nil2)

lemma AV_WB64_RB64 [simp]: "AV_WB64 (AV_RB64 b 0) = b" if "length b = 8"
  using that by (rule AV_WB64_AV_RB64)

lemma AV_RB64_WB64 [simp]: "AV_RB64 (AV_WB64 v) 0 = v"
  using AV_RB64_AV_WB64 [of v "[]"] by simp

interpretation des: cipher_loop 8
  "\<lambda>b. AV_WB64 (des_enc_block d (AV_RB64 b 0))" "\<lambda>b. AV_WB64 (des_dec_block d (AV_RB64 b 0))"
  "\<lambda>b iv. case iv of None \<Rightarrow> (AV_WB64 (des_dec_block d (AV_RB64 b 0)), None)
     | Some w \<Rightarrow> (AV_WB64 (des_dec_block d (AV_RB64 b 0) XOR AV_RB64 w 0), Some (take 8 b))"
  "des_crypt d" for d
proof unfold_locales
  fix src :: bytes and iv n decrypt
  assume l: "8 \<le> length src" and iv: "iv_ok 8 iv"
  show "des_crypt d src (Suc n) iv decrypt =
      (let (e, iv') = (if decrypt then
             case iv of None \<Rightarrow> (AV_WB64 (des_dec_block d (AV_RB64 (take 8 src) 0)), None)
             | Some w \<Rightarrow> (AV_WB64 (des_dec_block d (AV_RB64 (take 8 src) 0) XOR AV_RB64 w 0), Some (take 8 (take 8 src)))
           else case iv of None \<Rightarrow> (AV_WB64 (des_enc_block d (AV_RB64 (take 8 src) 0)), None)
             | Some w \<Rightarrow> (AV_WB64 (des_enc_block d (AV_RB64 (xor_bytes (take 8 src) w) 0)),
                 Some (AV_WB64 (des_enc_block d (AV_RB64 (xor_bytes (take 8 src) w) 0)))));
           (ds, iv'') = des_crypt d (drop 8 src) n iv' decrypt
       in (e @ ds, iv''))"
    using l iv by (cases iv; cases decrypt)
      (simp_all add: des_crypt_def des_loop_Suc AV_RB64_xor Let_def split_def del: des_loop.simps)
qed (auto simp: AV_WB64_xor des_crypt_def iv_ok_def split: option.split)

text \<open>\<open>av_des_crypt\<close>, for single and triple DES and whatever the round keys, decrypts what it
  encrypted, in both modes, and leaves the same \<open>iv\<close>.\<close>

theorem av_des_round_trip:
  assumes "length src = n * 8" and "iv_ok 8 iv" and "length dst = n * 8"
  shows "av_des_crypt d dst (Some (fst (av_des_crypt d dst (Some src) (int n) iv False))) (int n) iv True =
    (src, snd (av_des_crypt d dst (Some src) (int n) iv False))"
  using des.crypt_round_trip [OF assms(1,2), of d] assms(3) by (simp add: av_des_crypt_whole)

theorem av_des_round_trip_witness:
  "av_des_crypt av_des_alloc (replicate 16 0)
     (Some (fst (av_des_crypt av_des_alloc (replicate 16 0) (Some (replicate 16 1)) 2 None False))) 2 None True =
   (replicate 16 1, snd (av_des_crypt av_des_alloc (replicate 16 0) (Some (replicate 16 1)) 2 None False))"
  using av_des_round_trip [of "replicate 16 1" 2 None "replicate 16 0" av_des_alloc] by simp

lemma des_mac_last:
  assumes "des_loop d (Some src) (nat count) True (AV_RB64 (replicate 8 0) 0) False = (vs @ [v], w)" "length dst = 8"
  shows "av_des_mac d dst (Some src) count = AV_WB64 v"
  unfolding av_des_mac_def av_des_crypt_mac_def Let_def
  by (simp only: assms(1) option.case option.simps simp_thms not_False_eq_True) (simp add: assms(2))

lemma des_crypt_last:
  assumes "des_loop d (Some src) (nat count) True (AV_RB64 (replicate 8 0) 0) False = (vs @ [v], w)"
    and "8 * nat count = 8 * length vs + 8"
  shows "fst (av_des_crypt d (replicate (8 * nat count) 0) (Some src) count (Some (replicate 8 0)) False) =
    concat (map AV_WB64 vs) @ AV_WB64 v"
  unfolding av_des_crypt_def av_des_crypt_mac_def Let_def assms(2)
  by (simp only: assms(1) option.case option.simps simp_thms not_False_eq_True) simp

text \<open>\<open>av_des_mac\<close> stores the last block of the CBC encryption under a zero \<open>iv\<close>, and leaves \<open>dst\<close>
  alone when \<open>count\<close> is not positive.\<close>

theorem av_des_mac_is_last_block:
  assumes "length dst = 8"
  shows "av_des_mac d dst (Some src) count =
    (if count \<le> 0 then dst
     else drop (8 * nat (count - 1))
       (fst (av_des_crypt d (replicate (8 * nat count) 0) (Some src) count (Some (replicate 8 0)) False)))"
proof (cases "count \<le> 0")
  case True
  with assms show ?thesis by (simp add: av_des_mac_def av_des_crypt_mac_def Let_def)
next
  case False
  obtain us w where l: "des_loop d (Some src) (nat count) True (AV_RB64 (replicate 8 0) 0) False = (us, w)"
    by (metis surj_pair)
  have "length us = nat count"
    using length_des_loop [of d "Some src" "nat count" True "AV_RB64 (replicate 8 0) 0" False] unfolding l by simp
  with False obtain vs v where us: "us = vs @ [v]" and n: "length vs = nat (count - 1)"
    by (cases us rule: rev_cases) auto
  then have "8 * nat count = 8 * length vs + 8" using False by simp
  note des_crypt_last [OF l [unfolded us] this] des_mac_last [OF l [unfolded us] assms]
  with False n show ?thesis by simp
qed

theorem av_des_mac_is_last_block_witness:
  "av_des_mac av_des_alloc (replicate 8 1) (Some (replicate 16 3)) 2 =
    drop 8 (fst (av_des_crypt av_des_alloc (replicate 16 0) (Some (replicate 16 3)) 2 (Some (replicate 8 0)) False))"
  using av_des_mac_is_last_block [of "replicate 8 1" av_des_alloc "replicate 16 3" 2] by simp

section \<open>The two configurations compute the same function\<close>

text \<open>Where \<open>P_shuffle\<close> puts each bit.\<close>

definition P_dest :: "nat list" where
  "P_dest = [11, 17, 5, 27, 25, 10, 20, 0, 13, 21, 3, 28, 29, 7, 18, 24, 31, 22, 12, 6, 26, 2, 16, 8, 14, 30, 4, 19, 1, 9, 15, 23]"

lemma P_shuffle_eval:
  "P_shuffle = [16, 25, 12, 11, 3, 20, 4, 15, 31, 17, 9, 6, 27, 14, 1, 22, 30, 24, 8, 18, 0, 5, 29, 23, 13, 19, 2, 26, 10, 21, 28, 7]"
  by (simp add: P_shuffle_def)

lemma bit_power_2: "k < 64 \<Longrightarrow> bit (2 ^ k :: u64) m \<longleftrightarrow> m = k"
  by (auto simp: bit_simps)

lemma P_dest_correct: "k < 32 \<Longrightarrow> shuffle (2 ^ k) P_shuffle = 2 ^ (P_dest ! k)"
proof -
  have "list_all (\<lambda>k. P_shuffle ! (31 - P_dest ! k) = k \<and> P_dest ! k < 32) [0..<32]"
    by (simp add: P_shuffle_eval P_dest_def upt_from_2)
  moreover assume k: "k < 32"
  ultimately have d: "P_shuffle ! (31 - P_dest ! k) = k" "P_dest ! k < 32"
    by (simp_all add: list_all_iff)
  have P: "length P_shuffle = 32" "distinct P_shuffle" by (simp_all add: P_shuffle_eval)
  have "n < 32 \<and> P_shuffle ! (31 - n) = k \<longleftrightarrow> n = P_dest ! k" for n
  proof (cases "n < 32")
    case True
    have "P_shuffle ! (31 - n) = P_shuffle ! (31 - P_dest ! k) \<longleftrightarrow> 31 - n = 31 - P_dest ! k"
      using P by (intro nth_eq_iff_index_eq) simp_all
    then show ?thesis using d True by auto
  qed (use d in auto)
  then show ?thesis using d k
    by (intro bit_word_eqI) (simp add: bit_shuffle P(1) bit_power_2)
qed

lemma shuffle_or: "length tab \<le> 64 \<Longrightarrow> shuffle (a OR b) tab = shuffle a tab OR shuffle b tab"
  by (rule bit_word_eqI) (auto simp: bit_shuffle bit_simps)

text \<open>The low four bits of an S-box output, moved to their places in the result of box \<open>i\<close>.\<close>

definition spread :: "nat \<Rightarrow> u8 \<Rightarrow> u32" where
  "spread i v =
     (if bit v 0 then 2 ^ (P_dest ! (28 - 4 * i)) else 0) OR
     (if bit v 1 then 2 ^ (P_dest ! (28 - 4 * i + 1)) else 0) OR
     (if bit v 2 then 2 ^ (P_dest ! (28 - 4 * i + 2)) else 0) OR
     (if bit v 3 then 2 ^ (P_dest ! (28 - 4 * i + 3)) else 0)"

lemma table_correct: "i < 8 \<Longrightarrow> t < 64 \<Longrightarrow>
    S_boxes_P_shuffle ! i ! t = spread i (S_box_nibble i (of_nat t))"
proof -
  have row: "list_all (\<lambda>t. S_boxes_P_shuffle ! 0 ! t = spread 0 (S_box_nibble 0 (of_nat t))) [0..<64]"
    "list_all (\<lambda>t. S_boxes_P_shuffle ! 1 ! t = spread 1 (S_box_nibble 1 (of_nat t))) [0..<64]"
    "list_all (\<lambda>t. S_boxes_P_shuffle ! 2 ! t = spread 2 (S_box_nibble 2 (of_nat t))) [0..<64]"
    "list_all (\<lambda>t. S_boxes_P_shuffle ! 3 ! t = spread 3 (S_box_nibble 3 (of_nat t))) [0..<64]"
    "list_all (\<lambda>t. S_boxes_P_shuffle ! 4 ! t = spread 4 (S_box_nibble 4 (of_nat t))) [0..<64]"
    "list_all (\<lambda>t. S_boxes_P_shuffle ! 5 ! t = spread 5 (S_box_nibble 5 (of_nat t))) [0..<64]"
    "list_all (\<lambda>t. S_boxes_P_shuffle ! 6 ! t = spread 6 (S_box_nibble 6 (of_nat t))) [0..<64]"
    "list_all (\<lambda>t. S_boxes_P_shuffle ! 7 ! t = spread 7 (S_box_nibble 7 (of_nat t))) [0..<64]"
    by (simp_all add: S_boxes_P_shuffle_def S_boxes_def spread_def S_box_nibble_def P_dest_def upt_from_2 Let_def)
  assume "i < 8" "t < 64"
  then consider "i = 0" | "i = 1" | "i = 2" | "i = 3" | "i = 4" | "i = 5" | "i = 6" | "i = 7" by linarith
  then show "S_boxes_P_shuffle ! i ! t = spread i (S_box_nibble i (of_nat t))"
    using row \<open>t < 64\<close> unfolding list_all_iff by cases simp_all
qed

text \<open>A nibble on its way: shifted in at the top, moved down by four bits at every later turn, and
  shuffled at the end.\<close>

lemma nibble_bits:
  assumes "m + 4 * i = 28"
  shows "ucast (shr (shl (ucast (v :: u8)) 28 :: u32) (4 * i)) =
    ((if bit v 0 then 2 ^ m else 0) OR (if bit v 1 then 2 ^ (m + 1) else 0) OR
     (if bit v 2 then 2 ^ (m + 2) else 0) OR (if bit v 3 then 2 ^ (m + 3) else 0) :: u64)"
proof (rule bit_word_eqI)
  fix n assume "n < LENGTH(64)"
  have m: "m < 64" "m + 1 < 64" "m + 2 < 64" "m + 3 < 64" using assms by simp_all
  have "bit (ucast (shr (shl (ucast v) 28 :: u32) (4 * i)) :: u64) n \<longleftrightarrow>
      n < 32 \<and> 28 \<le> n + 4 * i \<and> n + 4 * i < 32 \<and> bit v (n + 4 * i - 28)"
    by (auto simp: bit_simps add.commute)
  also have "\<dots> \<longleftrightarrow> m \<le> n \<and> n < m + 4 \<and> bit v (n - m)"
  proof -
    have "n + 4 * i - 28 = n - m" using assms by simp
    then show ?thesis using assms by (auto simp del: Nat.diff_diff_right)
  qed
  also have "\<dots> \<longleftrightarrow> bit v 0 \<and> n = m \<or> bit v 1 \<and> n = m + 1 \<or> bit v 2 \<and> n = m + 2 \<or> bit v 3 \<and> n = m + 3"
  proof -
    have "m \<le> n \<and> n < m + 4 \<longleftrightarrow> n = m \<or> n = m + 1 \<or> n = m + 2 \<or> n = m + 3" by arith
    then show ?thesis by auto
  qed
  finally show "bit (ucast (shr (shl (ucast v) 28 :: u32) (4 * i)) :: u64) n =
      bit ((if bit v 0 then 2 ^ m else 0) OR (if bit v 1 then 2 ^ (m + 1) else 0) OR
     (if bit v 2 then 2 ^ (m + 2) else 0) OR (if bit v 3 then 2 ^ (m + 3) else 0) :: u64) n"
    unfolding bit_or_iff using m by (simp only: bit_power_2 if_bool_eq_disj split: if_splits) (auto simp: bit_power_2)
qed

lemma shuffle_0: "shuffle 0 tab = 0"
  by (induction tab) (simp_all add: shuffle_def)

lemma box_correct:
  assumes "i < 8"
  shows "ucast (shuffle (ucast (shr (shl (ucast v) 28 :: u32) (4 * i))) P_shuffle) = spread i v"
proof -
  have l: "length P_shuffle \<le> 64" by (simp add: P_shuffle_eval)
  have "(ucast (2 ^ m :: u64) :: u32) = 2 ^ m" for m
    by (rule bit_word_eqI) (auto simp: bit_simps)
  then have one: "ucast (shuffle (if b then 2 ^ k else 0) P_shuffle) = (if b then 2 ^ (P_dest ! k) else 0 :: u32)"
    if "k < 32" for b k
    using that by (simp add: P_dest_correct shuffle_0)
  have m: "28 - 4 * i + 4 * i = 28" "28 - 4 * i < 32" "28 - 4 * i + 1 < 32" "28 - 4 * i + 2 < 32" "28 - 4 * i + 3 < 32"
    using assms by auto
  show ?thesis
    unfolding nibble_bits [OF m(1)] shuffle_or [OF l] unsigned_or_eq spread_def
    by (simp only: one m)
qed

lemma low_six: "unat (ucast ((x :: u64) AND 0x3f) :: u8) < 64"
proof -
  have "(ucast (x AND 0x3f) :: u8) = ucast (x AND mask 6)" by (simp add: mask_eq_exp_minus_1)
  also have "\<dots> = take_bit 6 (ucast x)"
    by (rule bit_word_eqI) (auto simp: bit_simps)
  finally have "unat (ucast (x AND 0x3f) :: u8) = take_bit 6 (unat (ucast x :: u8))"
    by (simp only: unsigned_take_bit_eq)
  then show ?thesis by (simp add: take_bit_eq_mod)
qed

text \<open>The two loops run in step: what is still to come has the shifts to move the rest in place.\<close>

lemma f_steps_agree:
  assumes "j \<le> 8"
    and "foldl f_step_small (r, k, a) (rev [0..<j]) = (r1, k1, a1)"
    and "foldl f_step (r, k, b) (rev [0..<j]) = (r2, k2, b2)"
    and "b = ucast (shuffle (ucast (shr a (4 * j))) P_shuffle)"
  shows "b2 = ucast (shuffle (ucast a1) P_shuffle)"
  using assms
proof (induction j arbitrary: r k a b)
  case (Suc j)
  have P: "length P_shuffle \<le> 64" by (simp add: P_shuffle_eval)
  let ?t = "ucast ((ucast r XOR k) AND 0x3f) :: u8"
  let ?v = "S_box_nibble j ?t"
  have "unat ?t < 64" by (rule low_six)
  then have "S_boxes_P_shuffle ! j ! unat ?t = spread j ?v"
    using table_correct [of j "unat ?t"] Suc.prems(1) by simp
  then have box: "S_boxes_P_shuffle ! j ! unat ?t = ucast (shuffle (ucast (shr (shl (ucast ?v) 28 :: u32) (4 * j))) P_shuffle)"
    using box_correct [of j ?v] Suc.prems(1) by simp
  have "shr (shr a 4 OR shl (ucast ?v) 28) (4 * j) = shr a (4 * Suc j) OR shr (shl (ucast ?v) 28) (4 * j)"
    by (simp add: drop_bit_drop_bit add.commute)
  then have eq: "b OR S_boxes_P_shuffle ! j ! unat ?t =
      ucast (shuffle (ucast (shr (shr a 4 OR shl (ucast ?v) 28) (4 * j))) P_shuffle)"
    unfolding box Suc.prems(4) by (simp only: shuffle_or [OF P] unsigned_or_eq)
  have small: "foldl f_step_small (shr r 4 OR shl r 28, shr k 6, shr a 4 OR shl (ucast ?v) 28) (rev [0..<j]) = (r1, k1, a1)"
    using Suc.prems(2) by (simp add: Let_def)
  have big: "foldl f_step (shr r 4 OR shl r 28, shr k 6, b OR S_boxes_P_shuffle ! j ! unat ?t) (rev [0..<j]) = (r2, k2, b2)"
    using Suc.prems(3) by (simp add: Let_def)
  show ?case
    by (rule Suc.IH [OF _ small big eq]) (use Suc.prems(1) in simp)
qed simp

text \<open>The round function of the small configuration, which packs two S-boxes into a byte and shuffles the
  result, is the one with the combined table \<open>S_boxes_P_shuffle\<close>, on every input.\<close>

theorem f_func_configurations_agree: "f_func_small r k = f_func r k"
proof -
  have l: "[7, 6, 5, 4, 3, 2, 1, 0] = rev [0..<8 :: nat]" by code_simp
  obtain r1 k1 a1 r2 k2 b2 where
    "foldl f_step_small (shl r 1 OR shr r 31, k, 0) (rev [0..<8]) = (r1, k1, a1)"
    "foldl f_step (shl r 1 OR shr r 31, k, 0) (rev [0..<8]) = (r2, k2, b2)"
    by (metis prod_cases3)
  with f_steps_agree [OF _ this] show ?thesis
    unfolding f_func_small_def f_func_def l by (simp add: shuffle_0)
qed



end
