(* ===== verification/AvRc4.thy ===== *)
theory AvRc4 imports AvPrelude "HOL-Library.Multiset"
begin

text \<open>
  \<open>libavutil/rc4.c\<close>: the RC4 stream cipher. The state stays a permutation of the bytes, enciphering
  twice from the same state gives the message back, and a message may be processed in pieces.
\<close>

section \<open>State and operations\<close>

record AVRC4 =
  rc4_state :: "u8 list"
  rc4_x :: u8
  rc4_y :: u8

text \<open>\<open>FFSWAP(uint8_t, state[i], state[j])\<close>\<close>

definition rc4_swap :: "u8 list \<Rightarrow> nat \<Rightarrow> nat \<Rightarrow> u8 list" where
  "rc4_swap s i j = s[i := s ! j, j := s ! i]"

text \<open>The loop of the key setup from \<open>i\<close>, with \<open>j\<close> wrapping at the length of the key.\<close>

fun rc4_key_loop :: "bytes \<Rightarrow> nat \<Rightarrow> nat \<Rightarrow> nat \<Rightarrow> nat \<Rightarrow> u8 \<Rightarrow> u8 list \<Rightarrow> u8 list" where
  "rc4_key_loop key keylen 0 i j y s = s"
| "rc4_key_loop key keylen (Suc n) i j y s =
     (let j = (if j = keylen then 0 else j);
          y = y + (s ! i + key ! j)
      in rc4_key_loop key keylen n (i + 1) (j + 1) y (rc4_swap s i (unat y)))"

definition av_rc4_init :: "bytes \<Rightarrow> nat \<Rightarrow> averror + AVRC4" where
  "av_rc4_init key key_bits =
     (let keylen = key_bits div 8
      in if key_bits mod 8 \<noteq> 0 then Inl EINVAL
         else let s = rc4_key_loop key keylen 256 0 0 0 (map of_nat [0..<256])
              in Inr \<lparr>rc4_state = s, rc4_x = 1, rc4_y = s ! 1\<rparr>)"

text \<open>The loop of \<open>av_rc4_crypt\<close>; without \<open>src\<close> the key stream itself is stored.\<close>

fun rc4_loop :: "nat \<Rightarrow> bytes option \<Rightarrow> u8 list \<Rightarrow> u8 \<Rightarrow> u8 \<Rightarrow> bytes \<times> u8 list \<times> u8 \<times> u8" where
  "rc4_loop 0 src s x y = ([], s, x, y)"
| "rc4_loop (Suc n) src s x y =
     (let total = s ! unat x + s ! unat y;
          s = rc4_swap s (unat x) (unat y);
          d = (case src of Some m \<Rightarrow> (m ! 0) XOR (s ! unat total) | None \<Rightarrow> s ! unat total);
          x = x + 1;
          y = y + s ! unat x;
          (ds, r) = rc4_loop n (map_option (drop 1) src) s x y
      in (d # ds, r))"

definition av_rc4_crypt :: "AVRC4 \<Rightarrow> bytes option \<Rightarrow> int \<Rightarrow> bytes \<times> AVRC4" where
  "av_rc4_crypt r src cnt =
     (let (ds, s, x, y) = rc4_loop (nat cnt) src (rc4_state r) (rc4_x r) (rc4_y r)
      in (ds, r\<lparr>rc4_state := s, rc4_x := x, rc4_y := y\<rparr>))"

section \<open>The state is a permutation of the bytes\<close>

definition rc4_ok :: "AVRC4 \<Rightarrow> bool" where
  "rc4_ok r \<longleftrightarrow> mset (rc4_state r) = mset (map of_nat [0..<256])"

lemma mset_rc4_swap [simp]: "i < length s \<Longrightarrow> j < length s \<Longrightarrow> mset (rc4_swap s i j) = mset s"
  unfolding rc4_swap_def by (rule mset_swap)

lemma length_rc4_swap [simp]: "length (rc4_swap s i j) = length s"
  by (simp add: rc4_swap_def)

lemma unat_u8_less [simp]: "unat (a :: u8) < 256"
  using unsigned_less [of a] by simp

lemma mset_rc4_key_loop:
  "length s = 256 \<Longrightarrow> i + n \<le> 256 \<Longrightarrow> mset (rc4_key_loop key keylen n i j y s) = mset s"
  by (induction n arbitrary: i j y s) (simp_all add: Let_def)

lemma mset_rc4_loop:
  "length s = 256 \<Longrightarrow> rc4_loop n src s x y = (ds, s', x', y') \<Longrightarrow> mset s' = mset s \<and> length ds = n"
  by (induction n arbitrary: src s x y ds) (auto simp: Let_def split: prod.splits, (metis length_rc4_swap mset_rc4_swap unat_u8_less)+)

lemma rc4_ok_length: "rc4_ok r \<Longrightarrow> length (rc4_state r) = 256"
  by (metis diff_zero length_map length_upt mset_eq_length rc4_ok_def)

section \<open>Enciphering\<close>

text \<open>The state after the loop and the key stream do not depend on the message.\<close>

lemma rc4_loop_message:
  "length m = n \<Longrightarrow> rc4_loop n (Some m) s x y =
     (xor_bytes m (fst (rc4_loop n None s x y)), snd (rc4_loop n None s x y))"
proof (induction n arbitrary: m s x y)
  case (Suc n)
  then obtain b bs where "m = b # bs" "length bs = n" by (cases m) auto
  with Suc.IH show ?case by (simp add: Let_def split_def xor_bytes_def)
qed (simp add: xor_bytes_def)

lemma length_rc4_loop [simp]: "length (fst (rc4_loop n src s x y)) = n"
  by (induction n arbitrary: src s x y) (simp_all add: Let_def split_def)

lemma rc4_loop_add:
  "length a = m \<Longrightarrow> rc4_loop (m + n) (Some (a @ b)) s x y =
     (let (d, s, x, y) = rc4_loop m (Some a) s x y; (e, r) = rc4_loop n (Some b) s x y in (d @ e, r))"
proof (induction m arbitrary: a s x y)
  case (Suc m)
  then obtain c cs where "a = c # cs" "length cs = m" by (cases a) auto
  with Suc.IH show ?case by (simp add: Let_def split_def)
qed simp

text \<open>\<open>av_rc4_init\<close> fails exactly on a key that is not a whole number of bytes, and otherwise, like every
  later call of \<open>av_rc4_crypt\<close>, leaves a state that is a permutation of the 256 bytes, so that no index leaves it.\<close>

theorem av_rc4_invariant:
  "(case av_rc4_init key key_bits of
      Inl e \<Rightarrow> e = EINVAL \<and> \<not> 8 dvd key_bits
    | Inr r \<Rightarrow> 8 dvd key_bits \<and> rc4_ok r) \<and>
   (rc4_ok r \<longrightarrow> rc4_ok (snd (av_rc4_crypt r src cnt)) \<and> length (fst (av_rc4_crypt r src cnt)) = nat cnt)"
proof
  show "case av_rc4_init key key_bits of Inl e \<Rightarrow> e = EINVAL \<and> \<not> 8 dvd key_bits
      | Inr r \<Rightarrow> 8 dvd key_bits \<and> rc4_ok r"
    by (simp add: av_rc4_init_def Let_def rc4_ok_def mset_rc4_key_loop mod_eq_0_iff_dvd)
  show "rc4_ok r \<longrightarrow> rc4_ok (snd (av_rc4_crypt r src cnt)) \<and> length (fst (av_rc4_crypt r src cnt)) = nat cnt"
  proof
    assume ok: "rc4_ok r"
    obtain ds s x y where l: "rc4_loop (nat cnt) src (rc4_state r) (rc4_x r) (rc4_y r) = (ds, s, x, y)"
      by (metis surj_pair)
    with mset_rc4_loop [OF rc4_ok_length [OF ok] l] ok
    show "rc4_ok (snd (av_rc4_crypt r src cnt)) \<and> length (fst (av_rc4_crypt r src cnt)) = nat cnt"
      by (simp add: av_rc4_crypt_def rc4_ok_def)
  qed
qed

theorem av_rc4_invariant_witness:
  "rc4_ok (snd (av_rc4_crypt \<lparr>rc4_state = map of_nat [0..<256], rc4_x = 1, rc4_y = 1\<rparr> (Some [7, 8]) 2))"
  using av_rc4_invariant [of 0 "[]" "\<lparr>rc4_state = map of_nat [0..<256], rc4_x = 1, rc4_y = 1\<rparr>" "Some [7, 8]" 2]
  by (simp add: rc4_ok_def)

text \<open>Enciphering twice from the same state gives the message back.\<close>

theorem av_rc4_round_trip:
  assumes "length m = n"
  shows "fst (av_rc4_crypt r (Some (fst (av_rc4_crypt r (Some m) (int n)))) (int n)) = m"
  using assms by (simp add: av_rc4_crypt_def rc4_loop_message Let_def split_def)

theorem av_rc4_round_trip_witness:
  "fst (av_rc4_crypt \<lparr>rc4_state = map of_nat [0..<256], rc4_x = 1, rc4_y = 1\<rparr>
     (Some (fst (av_rc4_crypt \<lparr>rc4_state = map of_nat [0..<256], rc4_x = 1, rc4_y = 1\<rparr> (Some [7, 8, 9]) 3))) 3) = [7, 8, 9]"
  using av_rc4_round_trip [of "[7, 8, 9]" 3 "\<lparr>rc4_state = map of_nat [0..<256], rc4_x = 1, rc4_y = 1\<rparr>"] by simp

text \<open>A message processed in two calls is the message processed in one.\<close>

lemma av_rc4_pieces:
  assumes "length a = m" and "length b = n"
  shows "av_rc4_crypt r (Some (a @ b)) (int (m + n)) =
    (let (d, r1) = av_rc4_crypt r (Some a) (int m); (e, r2) = av_rc4_crypt r1 (Some b) (int n) in (d @ e, r2))"
  using rc4_loop_add [OF assms(1), of n b] by (simp add: av_rc4_crypt_def Let_def split_def nat_int_add)

end
