(* ===== verification/HashBlock.thy ===== *)
theory HashBlock imports AvPrelude "HOL-Library.While_Combinator"
begin

text \<open>
  What the hash functions of libavutil share. \<open>md5.c\<close>, \<open>sha.c\<close>, \<open>sha512.c\<close> and \<open>ripemd.c\<close> collect
  a message in a buffer of one block, run a transform on every full block, and end with a padded
  block that holds the length. Here are the loops the files have in common, the abstract view of a
  context (the value after the full blocks, and the bytes not yet used), the interface that a file
  provides, and what follows from it for every way of cutting the message into calls. The last section
  is about the compression loops, which every file writes once rolled and once unrolled.
\<close>

section \<open>Running a transform over the full blocks\<close>

text \<open>The value after the full blocks of \<open>m\<close>, and what is left.\<close>

function absorb :: "nat \<Rightarrow> ('s \<Rightarrow> bytes \<Rightarrow> 's) \<Rightarrow> 's \<Rightarrow> bytes \<Rightarrow> 's \<times> bytes" where
  "absorb bl tr st m =
     (if 0 < bl \<and> bl \<le> length m then absorb bl tr (tr st (take bl m)) (drop bl m) else (st, m))"
  by pat_completeness auto
termination by (relation "measure (\<lambda>(bl, tr, st, m). length m)") auto

declare absorb.simps [simp del]

lemma absorb_short: "length m < bl \<Longrightarrow> absorb bl tr st m = (st, m)"
  by (simp add: absorb.simps)

lemma absorb_block: "0 < bl \<Longrightarrow> length a = bl \<Longrightarrow> absorb bl tr st (a @ b) = absorb bl tr (tr st a) b"
  by (subst absorb.simps) simp

lemma absorb_append:
  "absorb bl tr st (a @ b) = (let (st', r) = absorb bl tr st a in absorb bl tr st' (r @ b))"
proof (induction bl tr st a rule: absorb.induct)
  case (1 bl tr st m)
  show ?case
  proof (cases "0 < bl \<and> bl \<le> length m")
    case True
    have "absorb bl tr st (m @ b) = absorb bl tr (tr st (take bl m)) (drop bl m @ b)"
      using True by (subst absorb.simps) simp
    also have "\<dots> = (let (st', r) = absorb bl tr (tr st (take bl m)) (drop bl m) in absorb bl tr st' (r @ b))"
      using 1 True by blast
    also have "absorb bl tr (tr st (take bl m)) (drop bl m) = absorb bl tr st m"
      using True by (subst (2) absorb.simps) simp
    finally show ?thesis .
  next
    case False
    then show ?thesis by (subst (2) absorb.simps) (auto simp: Let_def)
  qed
qed

lemma absorb_rest: "0 < bl \<Longrightarrow> length (snd (absorb bl tr st m)) = length m mod bl"
proof (induction bl tr st m rule: absorb.induct)
  case (1 bl tr st m)
  show ?case
  proof (cases "bl \<le> length m")
    case True
    then have "length (drop bl m) mod bl = length m mod bl"
      by (simp add: le_mod_geq)
    with 1 True show ?thesis by (subst absorb.simps) simp
  qed (use 1 in \<open>simp add: absorb_short\<close>)
qed

lemma absorb_foldl:
  "0 < bl \<Longrightarrow> absorb bl tr st m =
     (foldl (\<lambda>s n. tr s (take bl (drop (n * bl) m))) st [0..<length m div bl], drop (length m div bl * bl) m)"
proof (induction bl tr st m rule: absorb.induct)
  case (1 bl tr st m)
  show ?case
  proof (cases "bl \<le> length m")
    case True
    have n: "length m div bl = Suc (length (drop bl m) div bl)"
      using True 1(2) by (simp add: le_div_geq)
    have "[0..<Suc k] = 0 # map Suc [0..<k]" for k
      by (simp add: map_Suc_upt upt_conv_Cons)
    then show ?thesis
      using 1 True unfolding n by (subst absorb.simps) (simp add: foldl_map add.commute)
  next
    case False
    then show ?thesis by (simp add: absorb_short)
  qed
qed

section \<open>The loops of the update functions\<close>

text \<open>\<open>CONFIG_SMALL\<close>: one byte at a time, on the value, the buffer and the position in it.\<close>

fun buffer_bytes :: "nat \<Rightarrow> ('s \<Rightarrow> bytes \<Rightarrow> 's) \<Rightarrow> 's \<Rightarrow> bytes \<Rightarrow> nat \<Rightarrow> bytes \<Rightarrow> 's \<times> bytes" where
  "buffer_bytes bl tr st buf j [] = (st, buf)"
| "buffer_bytes bl tr st buf j (d # ds) =
     (let buf = buf[j := d]; j = j + 1
      in if j = bl then buffer_bytes bl tr (tr st buf) buf 0 ds else buffer_bytes bl tr st buf j ds)"

text \<open>\<open>for (; i + 63 < len; i += 64) transform(state, &data[i])\<close>, giving the last \<open>i\<close> too; \<open>bl\<close> is 64
  or 128.\<close>

function block_loop :: "nat \<Rightarrow> ('s \<Rightarrow> bytes \<Rightarrow> 's) \<Rightarrow> bytes \<Rightarrow> 's \<Rightarrow> nat \<Rightarrow> 's \<times> nat" where
  "block_loop bl tr data st i =
     (if 0 < bl \<and> i + (bl - 1) < length data
      then block_loop bl tr data (tr st (take bl (drop i data))) (i + bl) else (st, i))"
  by pat_completeness auto
termination by (relation "measure (\<lambda>(bl, tr, data, st, i). length data - i)") auto

declare block_loop.simps [simp del]

text \<open>The other configuration: fill the buffer, whole blocks from the message itself, the rest into the
  buffer. Lengths below \<open>2^32 - 128\<close> do not wrap the 32-bit sums \<open>j + len\<close> and \<open>i + 63\<close>.\<close>

definition buffer_blocks :: "nat \<Rightarrow> ('s \<Rightarrow> bytes \<Rightarrow> 's) \<Rightarrow> 's \<Rightarrow> bytes \<Rightarrow> nat \<Rightarrow> bytes \<Rightarrow> 's \<times> bytes" where
  "buffer_blocks bl tr st buf j data =
     (let (st, buf, i, j) =
        (if j + length data > bl - 1 then
           let i = bl - j;
               buf = take j buf @ take i data;
               st = tr st buf;
               (st, i) = block_loop bl tr data st i
           in (st, buf, i, 0)
         else (st, buf, 0, j))
      in (st, take j buf @ drop i data @ drop (j + (length data - i)) buf))"

text \<open>Both leave the value and the bytes that the abstract view says.\<close>

lemma buffer_bytes_absorb:
  assumes "length buf = bl" and "j < bl" and "buffer_bytes bl tr st buf j data = (st', buf')"
  shows "length buf' = bl \<and> absorb bl tr st (take j buf @ data) = (st', take ((j + length data) mod bl) buf')"
  using assms
proof (induction data arbitrary: st buf j)
  case Nil
  then show ?case by (simp add: absorb_short)
next
  case (Cons d ds)
  have t: "take (Suc j) (buf[j := d]) = take j buf @ [d]"
    using Cons.prems(1,2) by (simp add: take_Suc_conv_app_nth)
  show ?case
  proof (cases "Suc j = bl")
    case True
    then have "buf[j := d] = take j buf @ [d]" using t Cons.prems(1) by simp
    then have "absorb bl tr st (take j buf @ d # ds) = absorb bl tr (tr st (buf[j := d])) ds"
      using absorb_block [of bl "take j buf @ [d]" tr st ds] Cons.prems(1,2) True by simp
    moreover have "Suc (j + length ds) mod bl = length ds mod bl"
      using True mod_add_self1 [of bl "length ds"] by (simp flip: True)
    ultimately show ?thesis
      using Cons.IH [of "buf[j := d]" 0 "tr st (buf[j := d])"] Cons.prems True by (simp add: Let_def)
  next
    case False
    then show ?thesis
      using Cons.IH [of "buf[j := d]" "Suc j" st] Cons.prems t by (simp add: Let_def)
  qed
qed

lemma block_loop_absorb:
  "0 < bl \<Longrightarrow> i \<le> length data \<Longrightarrow> block_loop bl tr data st i = (st', i') \<Longrightarrow>
   absorb bl tr st (drop i data) = (st', drop i' data) \<and> i' \<le> length data \<and> length data - i' = (length data - i) mod bl"
proof (induction bl tr data st i rule: block_loop.induct)
  case (1 bl tr data st i)
  show ?case
  proof (cases "i + (bl - 1) < length data")
    case True
    have "absorb bl tr st (drop i data) = absorb bl tr (tr st (take bl (drop i data))) (drop (i + bl) data)"
      using True 1(2) absorb_block [of bl "take bl (drop i data)" tr st "drop (i + bl) data"]
      by (simp add: add.commute flip: drop_drop)
    moreover have "(length data - (i + bl)) mod bl = (length data - i) mod bl"
      using True 1(2) by (metis diff_diff_left le_mod_geq Nat.le_diff_conv2 One_nat_def Suc_pred
          add.commute add_leE less_eq_Suc_le add_Suc_right)
    moreover have "block_loop bl tr data (tr st (take bl (drop i data))) (i + bl) = (st', i')"
      using 1(4) True 1(2) by (subst (asm) block_loop.simps) simp
    ultimately show ?thesis using 1(1) True 1(2) by simp
  next
    case False
    then have "st' = st" "i' = i" using 1(4) by (subst (asm) block_loop.simps, simp)+
    moreover have "length data - i < bl" using False 1(2) by simp
    ultimately show ?thesis using 1(3) by (simp add: absorb_short)
  qed
qed

lemma buffer_blocks_absorb:
  assumes "length buf = bl" and "j < bl" and "buffer_blocks bl tr st buf j data = (st', buf')"
  shows "length buf' = bl \<and> absorb bl tr st (take j buf @ data) = (st', take ((j + length data) mod bl) buf')"
proof (cases "j + length data > bl - 1")
  case False
  then have "st' = st" "buf' = take j buf @ data @ drop (j + length data) buf" "j + length data < bl"
    using assms by (auto simp: buffer_blocks_def Let_def)
  then show ?thesis using assms by (simp add: absorb_short)
next
  case True
  define buf1 where "buf1 = take j buf @ take (bl - j) data"
  obtain i where l: "block_loop bl tr data (tr st buf1) (bl - j) = (st', i)"
    and buf': "buf' = drop i data @ drop (length data - i) buf1"
    using assms True by (auto simp: buffer_blocks_def Let_def buf1_def split: prod.splits)
  have b1: "length buf1 = bl" using assms True by (simp add: buf1_def)
  have m: "take j buf @ data = buf1 @ drop (bl - j) data" by (simp add: buf1_def)
  have a: "absorb bl tr (tr st buf1) (drop (bl - j) data) = (st', drop i data)" "i \<le> length data"
    and r: "length data - i = (length data - (bl - j)) mod bl"
    using block_loop_absorb [OF _ _ l] assms True by auto
  have "(j + length data) mod bl = length data - i"
    using assms True r le_mod_geq [of bl "j + length data"] by (simp add: Nat.diff_diff_right add.commute)
  then show ?thesis
    using a b1 assms(2) r unfolding m by (simp add: absorb_block buf' less_imp_le)
qed

definition buffer_update ::
    "bool \<Rightarrow> nat \<Rightarrow> ('s \<Rightarrow> bytes \<Rightarrow> 's) \<Rightarrow> 's \<Rightarrow> bytes \<Rightarrow> nat \<Rightarrow> bytes \<Rightarrow> 's \<times> bytes" where
  "buffer_update config_small bl tr st buf j data =
     (if config_small then buffer_bytes bl tr st buf j data else buffer_blocks bl tr st buf j data)"

lemma buffer_update_absorb:
  assumes "length buf = bl" and "j < bl" and r: "buffer_update config_small bl tr st buf j data = r"
  shows "length (snd r) = bl"
    and "absorb bl tr st (take j buf @ data) = (fst r, take ((j + length data) mod bl) (snd r))"
  using buffer_bytes_absorb [OF assms(1,2), of tr st data "fst r" "snd r"]
    buffer_blocks_absorb [OF assms(1,2), of tr st data "fst r" "snd r"]
  by (cases config_small; simp add: buffer_update_def flip: r)+

text \<open>Two transforms that keep a relation between their values.\<close>

lemma absorb_related:
  assumes "R st st'" and "\<And>s s' b. R s s' \<Longrightarrow> R (tr s b) (tr' s' b)"
  shows "R (fst (absorb bl tr st m)) (fst (absorb bl tr' st' m))"
  using assms
proof (induction bl tr st m arbitrary: st' rule: absorb.induct)
  case (1 bl tr st m)
  then show ?case by (subst (1 2) absorb.simps) simp
qed

text \<open>The position in the buffer.\<close>

lemma unat_and_63: "unat (v AND 63 :: u64) = unat v mod 64"
  and unat_and_127: "unat (v AND 127 :: u64) = unat v mod 128"
proof -
  have "v AND 63 = take_bit 6 v" "v AND 127 = take_bit 7 v" by (simp_all add: take_bit_eq_mask mask_eq_exp_minus_1)
  then show "unat (v AND 63) = unat v mod 64" "unat (v AND 127) = unat v mod 128"
    by (simp_all only: unsigned_take_bit_eq) (simp_all add: take_bit_eq_mod)
qed

lemma unat_add_mod:
  "unat (v + of_nat n :: u64) mod 64 = (unat v mod 64 + n) mod 64"
  "unat (v + of_nat n :: u64) mod 128 = (unat v mod 128 + n) mod 128"
  by (simp_all add: unat_word_ariths unat_of_nat mod_mod_cancel mod_simps)

section \<open>Padding\<close>

text \<open>\<open>while ((ctx->count & mask) != stop) update(ctx, "", 1)\<close>\<close>

definition pad_loop :: "('c \<Rightarrow> u64) \<Rightarrow> ('c \<Rightarrow> bytes \<Rightarrow> 'c) \<Rightarrow> u64 \<Rightarrow> u64 \<Rightarrow> 'c \<Rightarrow> 'c" where
  "pad_loop cnt upd msk stop c = while (\<lambda>c. (cnt c AND msk) \<noteq> stop) (\<lambda>c. upd c [0]) c"

text \<open>The padded message: a byte 0x80, zeros, and the length in bits as \<open>enc\<close> writes it.\<close>

definition md_pad :: "nat \<Rightarrow> (u64 \<Rightarrow> bytes) \<Rightarrow> bytes \<Rightarrow> bytes" where
  "md_pad bl enc m =
     (let e = enc (of_nat (8 * length m))
      in m @ [0x80] @ replicate ((bl - length e + bl - (length m + 1) mod bl) mod bl) 0 @ e)"

lemma while_steps:
  "(\<And>i. i < k \<Longrightarrow> b ((f ^^ i) c)) \<Longrightarrow> \<not> b ((f ^^ k) c) \<Longrightarrow> while b f c = (f ^^ k) c"
proof (induction k arbitrary: c)
  case 0
  then show ?case by (simp add: while_unfold)
next
  case (Suc k)
  have "b c" using Suc.prems(1) [of 0] by simp
  moreover have "while b f (f c) = (f ^^ k) (f c)"
    using Suc.prems(1) [of "Suc _"] Suc.prems(2) by (intro Suc.IH) (auto simp: funpow_swap1)
  ultimately show ?case by (subst while_unfold) (simp add: funpow_swap1)
qed

lemma length_concat_member: "d \<in> set ds \<Longrightarrow> length d \<le> length (concat ds)"
  by (induction ds) auto

text \<open>How many zeros it takes to reach \<open>s\<close> modulo the block length.\<close>

lemma pad_arith:
  fixes s n bl i :: nat
  defines "k \<equiv> (s + bl - n mod bl) mod bl"
  assumes "s < bl" and "i \<le> k"
  shows "(n + i) mod bl = s \<longleftrightarrow> i = k"
proof -
  have r: "n mod bl < bl" and e: "(n + i) mod bl = (n mod bl + i) mod bl"
    using assms by (simp_all add: mod_add_left_eq)
  show ?thesis
  proof (cases "n mod bl \<le> s")
    case True
    have "k = (s + bl - n mod bl - bl) mod bl" unfolding k_def using True by (intro le_mod_geq) linarith
    also have "\<dots> = s - n mod bl" using True assms(2) by simp
    finally have k: "k = s - n mod bl" .
    then have "n mod bl + i < bl" using True assms(2,3) by linarith
    then show ?thesis using True e k by auto
  next
    case False
    then have k: "k = s + bl - n mod bl" using assms r by (simp add: k_def)
    show ?thesis
    proof (cases "n mod bl + i < bl")
      case True
      then show ?thesis using False e k r by auto
    next
      case False
      moreover have "n mod bl + i - bl < bl" using False k assms(2,3) r by linarith
      ultimately have "(n mod bl + i) mod bl = n mod bl + i - bl" by (simp add: le_mod_geq)
      then show ?thesis using False e k r by auto
    qed
  qed
qed

section \<open>What a hash file provides\<close>

text \<open>Lengths for which no sum of the update functions wraps, also as a C \<open>int\<close>.\<close>

definition small :: "bytes \<Rightarrow> bool" where
  "small d \<longleftrightarrow> length d < 2 ^ 31"

lemma small_simps [simp]: "small []" "small [a]" "length d \<le> 128 \<Longrightarrow> small d"
  by (simp_all add: small_def)

locale block_hash =
  fixes bl :: nat and ok :: "'c \<Rightarrow> bool" and tr :: "'c \<Rightarrow> 's \<Rightarrow> bytes \<Rightarrow> 's" and st :: "'c \<Rightarrow> 's"
    and buf :: "'c \<Rightarrow> bytes" and cnt :: "'c \<Rightarrow> u64" and upd :: "'c \<Rightarrow> bytes \<Rightarrow> 'c"
  assumes bl: "bl = 64 \<or> bl = 128"
    and buf_length: "ok c \<Longrightarrow> length (buf c) = bl"
    and ok_upd: "ok c \<Longrightarrow> small d \<Longrightarrow> ok (upd c d)"
    and tr_upd: "tr (upd c d) = tr c"
    and cnt_upd: "cnt (upd c d) = cnt c + of_nat (length d)"
    and upd_absorb: "ok c \<Longrightarrow> small d \<Longrightarrow>
      absorb bl (tr c) (st c) (take (unat (cnt c) mod bl) (buf c) @ d) =
      (st (upd c d), take (unat (cnt c + of_nat (length d)) mod bl) (buf (upd c d)))"
begin

text \<open>A context that has taken in the message \<open>m\<close> from the value \<open>iv\<close>.\<close>

definition absorbed :: "'s \<Rightarrow> ('s \<Rightarrow> bytes \<Rightarrow> 's) \<Rightarrow> bytes \<Rightarrow> 'c \<Rightarrow> bool" where
  "absorbed iv t m c \<longleftrightarrow> ok c \<and> tr c = t \<and> cnt c = of_nat (length m) \<and>
     absorb bl t iv m = (st c, take (length m mod bl) (buf c))"

lemma bl_pos: "0 < bl" and bl_dvd: "bl dvd 2 ^ 64"
  using bl by auto

lemma count_mod: "unat (of_nat n :: u64) mod bl = n mod bl"
  using bl_dvd by (simp add: unat_of_nat mod_mod_cancel)

lemma absorbed_upd:
  assumes "absorbed iv t m c" and "small d"
  shows "absorbed iv t (m @ d) (upd c d)"
proof -
  have "absorb bl t iv (m @ d) = absorb bl t (st c) (take (length m mod bl) (buf c) @ d)"
    using assms by (simp add: absorbed_def absorb_append [of bl t iv m])
  also have "\<dots> = (st (upd c d), take (length (m @ d) mod bl) (buf (upd c d)))"
    using assms upd_absorb [of c d] count_mod [of "length m"] count_mod [of "length (m @ d)"]
    by (simp add: absorbed_def)
  finally show ?thesis
    using assms by (simp add: absorbed_def ok_upd tr_upd cnt_upd)
qed

lemma absorbed_pieces:
  "absorbed iv t m c \<Longrightarrow> (\<And>d. d \<in> set ds \<Longrightarrow> small d) \<Longrightarrow> absorbed iv t (m @ concat ds) (foldl upd c ds)"
proof (induction ds arbitrary: m c)
  case (Cons d ds)
  then show ?case using Cons.IH [of "m @ d" "upd c d"] absorbed_upd [of iv t m c d] by simp
qed simp

text \<open>The padding loop stops, after as many zeros as bring the count to \<open>stop\<close>.\<close>

lemma masked: "s < bl \<Longrightarrow> (cnt c AND of_nat (bl - 1)) = of_nat s \<longleftrightarrow> unat (cnt c) mod bl = s"
proof -
  assume "s < bl"
  have "unat (cnt c AND mask n) = unat (cnt c) mod 2 ^ n" for n
    by (simp only: take_bit_eq_mask [symmetric] unsigned_take_bit_eq) (simp only: take_bit_eq_mod)
  from this [of 6] this [of 7] have "unat (cnt c AND of_nat (bl - 1)) = unat (cnt c) mod bl"
    using bl by (auto simp: mask_eq_exp_minus_1)
  moreover have "unat (of_nat s :: u64) = s"
    using \<open>s < bl\<close> bl by (auto simp: unat_of_nat)
  ultimately show "(cnt c AND of_nat (bl - 1)) = of_nat s \<longleftrightarrow> unat (cnt c) mod bl = s"
    by (metis word_unat_eq_iff)
qed

lemma absorbed_zeros: "absorbed iv t m c \<Longrightarrow> absorbed iv t (m @ replicate k 0) (((\<lambda>c. upd c [0]) ^^ k) c)"
proof (induction k)
  case (Suc k)
  then show ?case
    using absorbed_upd [of iv t "m @ replicate k 0" "((\<lambda>c. upd c [0]) ^^ k) c" "[0]"]
    by (simp flip: replicate_append_same)
qed simp

lemma pad_loop_steps:
  assumes a: "absorbed iv t m c" and s: "s < bl"
  shows "pad_loop cnt upd (of_nat (bl - 1)) (of_nat s) c =
    ((\<lambda>c. upd c [0]) ^^ ((s + bl - length m mod bl) mod bl)) c"
proof -
  let ?k = "(s + bl - length m mod bl) mod bl" and ?c = "\<lambda>i. ((\<lambda>c. upd c [0]) ^^ i) c"
  have at: "unat (cnt (?c i)) mod bl = (length m + i) mod bl" for i
    using absorbed_zeros [OF a, of i] count_mod [of "length m + i"] by (simp add: absorbed_def)
  have stop: "(length m + i) mod bl = s \<longleftrightarrow> i = ?k" if "i \<le> ?k" for i
    using that by (rule pad_arith [OF s])
  show ?thesis
    unfolding pad_loop_def
    by (rule while_steps) (unfold masked [OF s] at, use stop in auto)
qed

lemma absorbed_pad:
  assumes a: "absorbed iv t m c" and s: "s < bl"
  shows "absorbed iv t (m @ replicate ((s + bl - length m mod bl) mod bl) 0)
    (pad_loop cnt upd (of_nat (bl - 1)) (of_nat s) c)"
  unfolding pad_loop_steps [OF a s] using a by (rule absorbed_zeros)

text \<open>The end of a hash function: the byte 0x80, zeros up to the length field, the length. All blocks
  are full then.\<close>

lemma length_md_pad:
  assumes "0 < length (enc (of_nat (8 * length m)))" and "length (enc (of_nat (8 * length m))) < bl"
  shows "bl dvd length (md_pad bl enc m)"
proof -
  let ?e = "length (enc (of_nat (8 * length m)))" and ?n = "length m + 1"
  let ?k = "(bl - ?e + bl - ?n mod bl) mod bl"
  have "bl - ?e < bl" using assms by linarith
  then have "(?n + ?k) mod bl = bl - ?e" by (rule pad_arith [THEN iffD2]) simp_all
  then have "(?n + ?k + ?e) mod bl = (bl - ?e + ?e) mod bl"
    using mod_add_left_eq [of "?n + ?k" bl ?e] by (simp only:)
  also have "\<dots> = 0" using assms(2) by simp
  finally have "bl dvd ?n + ?k + ?e" by (simp only: mod_eq_0_iff_dvd)
  moreover have "length (md_pad bl enc m) = ?n + ?k + ?e"
    by (simp only: md_pad_def Let_def length_append length_replicate list.size)
  ultimately show ?thesis by (simp only:)
qed

lemma absorbed_final:
  assumes a: "absorbed iv t m c" and e: "concat es = enc (of_nat (8 * length m))"
    "0 < length (concat es)" "length (concat es) < bl" "\<And>d. d \<in> set es \<Longrightarrow> small d"
  shows "absorbed iv t (md_pad bl enc m)
    (foldl upd (pad_loop cnt upd (of_nat (bl - 1)) (of_nat (bl - length (concat es))) (upd c [0x80])) es)"
proof -
  have "absorbed iv t (m @ [0x80]) (upd c [0x80])" using a by (rule absorbed_upd) simp
  moreover have "bl - length (concat es) < bl" using e(2,3) by simp
  ultimately have "absorbed iv t
      ((m @ [0x80]) @ replicate ((bl - length (concat es) + bl - length (m @ [0x80]) mod bl) mod bl) 0)
      (pad_loop cnt upd (of_nat (bl - 1)) (of_nat (bl - length (concat es))) (upd c [0x80]))"
    by (rule absorbed_pad)
  then have "absorbed iv t
      (((m @ [0x80]) @ replicate ((bl - length (concat es) + bl - length (m @ [0x80]) mod bl) mod bl) 0) @ concat es)
      (foldl upd (pad_loop cnt upd (of_nat (bl - 1)) (of_nat (bl - length (concat es))) (upd c [0x80])) es)"
    using e(4) by (rule absorbed_pieces)
  moreover have "((m @ [0x80]) @ replicate ((bl - length (concat es) + bl - length (m @ [0x80]) mod bl) mod bl) 0) @ concat es =
      md_pad bl enc m"
    by (simp add: md_pad_def Let_def e(1))
  ultimately show ?thesis by (simp only:)
qed

end

text \<open>A file with its final function, which gives the digest and leaves a context: the length in bits is
  written by \<open>enc\<close>, in one update or in two, and \<open>out\<close> takes the digest from the value.\<close>

locale md_hash = block_hash +
  fixes enc :: "u64 \<Rightarrow> bytes list" and out :: "'a \<Rightarrow> 'b \<Rightarrow> bytes" and fin :: "'a \<Rightarrow> bytes \<times> 'a"
  assumes enc_length: "0 < length (concat (enc v))" "length (concat (enc v)) < bl"
      "length (concat (enc v)) = length (concat (enc 0))"
    and out_upd: "out (upd c d) = out c"
    and fin: "fin c =
      (let c' = foldl upd (pad_loop cnt upd (of_nat (bl - 1)) (of_nat (bl - length (concat (enc 0)))) (upd c [0x80]))
        (enc (shl (cnt c) 3)) in (out c' (st c'), c'))"
begin

text \<open>The digest of a message that was given in any pieces is the chain of transforms over the padded
  message.\<close>

lemma out_pad:
  assumes "absorbed iv t m c" and "s < bl"
  shows "out (pad_loop cnt upd (of_nat (bl - 1)) (of_nat s) c) = out c"
proof -
  have "out (((\<lambda>c. upd c [0]) ^^ k) c) = out c" for k by (induction k) (simp_all add: out_upd)
  then show ?thesis unfolding pad_loop_steps [OF assms] .
qed

lemma out_pieces: "out (foldl upd c ds) = out c"
  by (induction ds arbitrary: c) (simp_all add: out_upd)

lemma fin_absorbed:
  assumes a: "absorbed iv t m c"
  shows "fst (fin c) = out c (fst (absorb bl t iv (md_pad bl (\<lambda>v. concat (enc v)) m)))"
    and "ok (snd (fin c))"
proof -
  let ?e = "enc (of_nat (8 * length m))"
  let ?p = "pad_loop cnt upd (of_nat (bl - 1)) (of_nat (bl - length (concat ?e))) (upd c [0x80])"
  have e: "shl (cnt c) 3 = of_nat (8 * length m)" "length (concat (enc 0)) = length (concat ?e)"
    using a enc_length(3) [of "of_nat (8 * length m)"] by (simp_all add: absorbed_def push_bit_eq_mult)
  have "small d" if "d \<in> set ?e" for d
  proof -
    have "length d \<le> length (concat ?e)" using that by (rule length_concat_member)
    then show ?thesis using enc_length(2) [of "of_nat (8 * length m)"] bl by (intro small_simps) auto
  qed
  with a have f: "absorbed iv t (md_pad bl (\<lambda>v. concat (enc v)) m) (foldl upd ?p ?e)"
    by (rule absorbed_final [OF _ refl enc_length(1,2)])
  then have st: "st (foldl upd ?p ?e) = fst (absorb bl t iv (md_pad bl (\<lambda>v. concat (enc v)) m))"
    by (simp add: absorbed_def)
  have "absorbed iv t (m @ [0x80]) (upd c [0x80])" using a by (rule absorbed_upd) simp
  moreover have "bl - length (concat ?e) < bl" using enc_length(1) bl_pos by simp
  ultimately have "out ?p = out (upd c [0x80])" by (rule out_pad)
  with st show "fst (fin c) = out c (fst (absorb bl t iv (md_pad bl (\<lambda>v. concat (enc v)) m)))"
    unfolding fin e(1,2) by (simp only: Let_def out_pieces out_upd fst_conv)
  show "ok (snd (fin c))"
    using f unfolding fin e(1,2) by (simp only: Let_def absorbed_def snd_conv)
qed

lemma fresh_pieces:
  assumes "ok c" and "cnt c = 0" and "\<forall>d\<in>set ds. small d"
  shows "absorbed (st c) (tr c) (concat ds) (foldl upd c ds)"
proof -
  have "absorbed (st c) (tr c) [] c"
    using assms(1,2) bl_pos by (simp add: absorbed_def absorb_short)
  then have "absorbed (st c) (tr c) ([] @ concat ds) (foldl upd c ds)"
    using assms(3) by (intro absorbed_pieces) auto
  then show ?thesis by simp
qed

lemma digest_pieces:
  assumes "ok c" and "cnt c = 0" and "\<forall>d\<in>set ds. small d"
  shows "fst (fin (foldl upd c ds)) =
      out c (fst (absorb bl (tr c) (st c) (md_pad bl (\<lambda>v. concat (enc v)) (concat ds))))"
    and "ok (snd (fin (foldl upd c ds)))"
  using fin_absorbed [OF fresh_pieces [OF assms]] by (simp_all add: out_pieces)

lemma ok_pieces: "ok c \<Longrightarrow> \<forall>d\<in>set ds. small d \<Longrightarrow> ok (foldl upd c ds)"
  by (induction ds arbitrary: c) (simp_all add: ok_upd)

end

section \<open>Rolled and unrolled loops\<close>

lemma foldl_concat_map: "foldl f v (concat (map g xs)) = foldl (\<lambda>v x. foldl f v (g x)) v xs"
  by (induction xs arbitrary: v) simp_all

text \<open>
  An unrolled compression loop names the variables of a round in rotated order, line by line, where
  the rolled loop moves the values along after every round. \<open>sh\<close> is that move, \<open>k\<close> the number of
  variables in the rotation, \<open>R n\<close> the round on the variables in their first order.
\<close>

lemma rotate_simps:
  "(f ^^ 2) v = f (f v)" "(f ^^ 3) v = f (f (f v))" "(f ^^ 4) v = f (f (f (f v)))"
  "(f ^^ 5) v = f (f (f (f (f v))))" "(f ^^ 6) v = f (f (f (f (f (f v)))))"
  "(f ^^ 7) v = f (f (f (f (f (f (f v))))))" "(f ^^ 8) v = f (f (f (f (f (f (f (f v)))))))"
  by (simp_all add: numeral_eq_Suc)

lemma mod_4_cases: "n mod 4 = 0 \<or> n mod 4 = 1 \<or> n mod 4 = 2 \<or> n mod 4 = (3 :: nat)"
  by presburger

lemma mod_5_cases: "n mod 5 = 0 \<or> n mod 5 = 1 \<or> n mod 5 = 2 \<or> n mod 5 = 3 \<or> n mod 5 = (4 :: nat)"
  by presburger

lemma mod_8_cases: "n mod 8 = 0 \<or> n mod 8 = 1 \<or> n mod 8 = 2 \<or> n mod 8 = 3 \<or>
    n mod 8 = 4 \<or> n mod 8 = 5 \<or> n mod 8 = 6 \<or> n mod 8 = (7 :: nat)"
  by presburger

lemma rotating_part:
  assumes k0: "0 < k" and un: "\<And>v. un (sh v) = v" and cyc: "\<And>v. (sh ^^ k) v = v"
    and line: "\<And>n v. line v n = (un ^^ (n mod k)) (R n ((sh ^^ (n mod k)) v))"
    and step: "\<And>n v. step v n = sh (R n v)" and "M \<le> N"
  shows "foldl step ((sh ^^ (M mod k)) v) [M..<N] = (sh ^^ (N mod k)) (foldl line v [M..<N])"
proof -
  have k: "(sh ^^ (k * j)) v = v" for j v
    by (induction j) (simp_all add: funpow_add cyc)
  have md: "(sh ^^ n) v = (sh ^^ (n mod k)) v" for n v
  proof -
    have "(sh ^^ (n mod k + k * (n div k))) v = (sh ^^ (n mod k)) v" by (simp only: funpow_add comp_apply k)
    then show ?thesis by simp
  qed
  have unsh: "(un ^^ m) ((sh ^^ m) v) = v" for m v
    by (induction m arbitrary: v) (simp_all add: un funpow_swap1)
  have shun: "(sh ^^ m) ((un ^^ m) v) = v" if "m \<le> k" for m v
  proof -
    have "(un ^^ m) v = (un ^^ m) ((sh ^^ m) ((sh ^^ (k - m)) v))"
      using that cyc [of v] by (metis comp_apply funpow_add le_add_diff_inverse)
    then have "(un ^^ m) v = (sh ^^ (k - m)) v" by (simp only: unsh)
    then show ?thesis using that cyc [of v] by (metis comp_apply funpow_add le_add_diff_inverse)
  qed
  show ?thesis
    using \<open>M \<le> N\<close>
  proof (induction N)
    case (Suc N)
    show ?case
    proof (cases "M \<le> N")
      case True
      let ?x = "foldl line v [M..<N]" and ?m = "N mod k"
      have "(sh ^^ ?m) (line ?x N) = R N ((sh ^^ ?m) ?x)"
        unfolding line by (rule shun) (simp add: k0 less_imp_le)
      then have "step ((sh ^^ ?m) ?x) N = (sh ^^ Suc ?m) (line ?x N)"
        by (simp add: step)
      also have "\<dots> = (sh ^^ (Suc N mod k)) (line ?x N)"
        using md [of "Suc ?m"] by (simp add: mod_Suc_eq)
      finally show ?thesis using Suc True by simp
    next
      case False
      with Suc.prems have "M = Suc N" by simp
      then show ?thesis by simp
    qed
  qed simp
qed

lemmas rotating_loop = rotating_part [where M = 0, simplified]

section \<open>Two lines in one loop\<close>

text \<open>A loop over joined variables is two loops.\<close>

lemma foldl_lines:
  assumes "\<And>v n. n \<in> set ns \<Longrightarrow> step (J v) n = J (f (fst v) n, g (snd v) n)"
  shows "foldl step (J v) ns = J (foldl f (fst v) ns, foldl g (snd v) ns)"
  using assms
proof (induction ns arbitrary: v)
  case (Cons n ns)
  then show ?case using Cons.IH [of "(f (fst v) n, g (snd v) n)"] by simp
qed simp

section \<open>Rotations\<close>

text \<open>A rotation as the files write it, with two shifts.\<close>

lemma rotl_shifts: "n < LENGTH('a) \<Longrightarrow> word_rotl n v = push_bit n v OR drop_bit (LENGTH('a) - n) v" for v :: "'a::len word"
  by (rule bit_word_eqI) (auto simp: bit_word_rotl_iff bit_simps mod_if add.commute dest: bit_imp_le_length)

lemma rotr_shifts: "n < LENGTH('a) \<Longrightarrow> word_rotr n v = drop_bit n v OR push_bit (LENGTH('a) - n) v" for v :: "'a::len word"
  by (rule bit_word_eqI) (auto simp: bit_word_rotr_iff bit_simps mod_if add.commute dest: bit_imp_le_length)

end
