(* ===== verification/HashConstants.thy ===== *)
theory HashConstants imports AvPrelude Complex_Main
begin

text \<open>
  The mathematical constants of the hash standards: bits of the roots of small numbers (FIPS 180-4, RIPEMD) and of sines
  (RFC 1321). They are defined with the real functions; for each the check with integers is proved that decides a value.
\<close>

section \<open>Bits of roots\<close>

text \<open>The integer part of \<open>2 ^ w\<close> times the \<open>k\<close>-th root of \<open>p\<close>, and the first \<open>w\<close> bits of the root's fractional part.\<close>

definition root_bits :: "nat \<Rightarrow> nat \<Rightarrow> nat \<Rightarrow> nat" where
  "root_bits w k p = nat \<lfloor>2 ^ w * root k (real p)\<rfloor>"

definition frac_bits :: "nat \<Rightarrow> nat \<Rightarrow> nat \<Rightarrow> nat" where
  "frac_bits w k p = nat \<lfloor>2 ^ w * frac (root k (real p))\<rfloor>"

text \<open>The first eighty prime numbers.\<close>

definition hash_primes :: "nat list" where
  "hash_primes =
     [2, 3, 5, 7, 11, 13, 17, 19, 23, 29, 31, 37, 41, 43, 47, 53, 59, 61, 67, 71, 73, 79, 83, 89, 97, 101,
      103, 107, 109, 113, 127, 131, 137, 139, 149, 151, 157, 163, 167, 173, 179, 181, 191, 193, 197, 199,
      211, 223, 227, 229, 233, 239, 241, 251, 257, 263, 269, 271, 277, 281, 283, 293, 307, 311, 313, 317,
      331, 337, 347, 349, 353, 359, 367, 373, 379, 383, 389, 397, 401, 409]"

text \<open>\<open>r\<close> is the integer part of the root, by integers alone; \<open>v\<close> are the bits after the integer part \<open>i\<close>.\<close>

definition root_check :: "nat \<Rightarrow> nat \<Rightarrow> nat \<Rightarrow> nat \<Rightarrow> bool" where
  "root_check w k p r \<longleftrightarrow> 0 < k \<and> r ^ k \<le> p * 2 ^ (w * k) \<and> p * 2 ^ (w * k) < (r + 1) ^ k"

definition frac_check :: "nat \<Rightarrow> nat \<Rightarrow> nat \<Rightarrow> nat \<Rightarrow> nat \<Rightarrow> bool" where
  "frac_check w k p i v \<longleftrightarrow> v < 2 ^ w \<and> root_check w k p (i * 2 ^ w + v)"

text \<open>The integer parts of the cube roots of the primes.\<close>

definition prime_cbrts :: "nat list" where
  "prime_cbrts =
     [1, 1, 1, 1, 2, 2, 2, 2, 2, 3, 3, 3, 3, 3, 3, 3, 3, 3, 4, 4, 4, 4, 4, 4, 4, 4, 4, 4, 4, 4, 5, 5, 5,
      5, 5, 5, 5, 5, 5, 5, 5, 5, 5, 5, 5, 5, 5, 6, 6, 6, 6, 6, 6, 6, 6, 6, 6, 6, 6, 6, 6, 6, 6, 6, 6, 6,
      6, 6, 7, 7, 7, 7, 7, 7, 7, 7, 7, 7, 7, 7]"

lemma root_floor:
  assumes "root_check w k p r"
  shows "\<lfloor>2 ^ w * root k (real p)\<rfloor> = int r"
proof -
  let ?x = "2 ^ w * root k (real p)"
  have k: "0 < k" and r: "r ^ k \<le> p * 2 ^ (w * k)" "p * 2 ^ (w * k) < (r + 1) ^ k"
    using assms by (simp_all add: root_check_def)
  have x: "0 \<le> ?x" using k by (simp add: real_root_ge_zero)
  have "?x ^ k = real (p * 2 ^ (w * k))" using k by (simp add: power_mult_distrib real_root_pow_pos2 power_mult)
  moreover have "real (r ^ k) \<le> real (p * 2 ^ (w * k))" "real (p * 2 ^ (w * k)) < real ((r + 1) ^ k)"
    using r by (simp_all only: of_nat_le_iff of_nat_less_iff)
  ultimately have "real r ^ k \<le> ?x ^ k" "?x ^ k < (real r + 1) ^ k"
    by (simp_all only: of_nat_power of_nat_add of_nat_1)
  then have "real r \<le> ?x" "?x < real r + 1"
    using k x power_mono_iff [of "real r" ?x k] power_less_imp_less_base [of ?x k "real r + 1"] by simp_all
  then show ?thesis by (intro floor_unique) simp_all
qed

lemma root_bits_eq: "root_check w k p r \<Longrightarrow> root_bits w k p = r"
  by (simp add: root_bits_def root_floor)

lemma frac_bits_eq:
  assumes "frac_check w k p i v"
  shows "frac_bits w k p = v"
proof -
  let ?x = "root k (real p)"
  have v: "v < 2 ^ w" using assms by (simp add: frac_check_def)
  have f: "\<lfloor>2 ^ w * ?x\<rfloor> = int (i * 2 ^ w + v)"
    using assms unfolding frac_check_def by (blast intro: root_floor)
  have "2 ^ w * frac ?x = 2 ^ w * ?x - of_int (2 ^ w * \<lfloor>?x\<rfloor>)"
    by (simp add: frac_def right_diff_distrib)
  then have g: "\<lfloor>2 ^ w * frac ?x\<rfloor> = int (i * 2 ^ w + v) - 2 ^ w * \<lfloor>?x\<rfloor>"
    by (simp only: floor_diff_of_int f)
  have "0 \<le> \<lfloor>2 ^ w * frac ?x\<rfloor>" "\<lfloor>2 ^ w * frac ?x\<rfloor> < 2 ^ w"
    using frac_lt_1 [of ?x] by (simp_all add: floor_less_iff)
  then have "\<lfloor>2 ^ w * frac ?x\<rfloor> = (int (i * 2 ^ w + v) - 2 ^ w * \<lfloor>?x\<rfloor>) mod 2 ^ w"
    using g by simp
  also have "\<dots> = int v"
  proof -
    have "int (i * 2 ^ w + v) - 2 ^ w * \<lfloor>?x\<rfloor> = int v + 2 ^ w * (int i - \<lfloor>?x\<rfloor>)" by (simp add: algebra_simps)
    moreover have "int v < 2 ^ w" using v by (metis of_nat_less_numeral_power_cancel_iff)
    ultimately show ?thesis by (simp only: mod_mult_self2 mod_pos_pos_trivial of_nat_0_le_iff)
  qed
  finally show ?thesis by (simp add: frac_bits_def)
qed

section \<open>Bits of sines\<close>

text \<open>The integer part of \<open>2 ^ 32\<close> times the sine of \<open>i\<close> radians, without the sign.\<close>

definition sine_bits :: "nat \<Rightarrow> nat" where
  "sine_bits i = nat \<lfloor>2 ^ 32 * \<bar>sin (real i)\<bar>\<rfloor>"

text \<open>Sixty-four bits of the cosine and the sine of 1, and of the points of the unit circle at 1, 2 and so on radians.\<close>

definition cos_1 :: int where "cos_1 = 9966818358784711825"

definition sin_1 :: int where "sin_1 = 15522399902203605024"

definition cis_next :: "int \<times> int \<Rightarrow> int \<times> int" where
  "cis_next z = ((fst z * cos_1 - snd z * sin_1) div 2 ^ 64, (fst z * sin_1 + snd z * cos_1) div 2 ^ 64)"

definition cis_point :: "nat \<Rightarrow> int \<times> int" where
  "cis_point i = (cis_next ^^ i) (2 ^ 64, 0)"

definition sine_check :: "int \<times> int \<Rightarrow> int \<Rightarrow> bool" where
  "sine_check z t \<longleftrightarrow> (t * 2 ^ 22 + 1) * 2 ^ 10 \<le> \<bar>snd z\<bar> \<and> \<bar>snd z\<bar> < ((t + 1) * 2 ^ 22 - 1) * 2 ^ 10"

lemma sin_1_close: "\<bar>sin 1 - real_of_int sin_1 / 2 ^ 64\<bar> \<le> 1 / 2 ^ 62"
proof -
  define x :: real where "x = sin 1"
  have "\<bar>sin 1 - (\<Sum>m<22. sin_coeff m * 1 ^ m)\<bar> \<le> inverse (fact 22) * \<bar>1 :: real\<bar> ^ 22"
    by (rule Maclaurin_sin_bound)
  also have "(\<Sum>m<22. sin_coeff m * 1 ^ m) = (42991545423991633141 / 51090942171709440000 :: real)"
    by (simp add: sin_coeff_def fact_numeral lessThan_nat_numeral lessThan_Suc)
  also have "inverse (fact 22) * \<bar>1 :: real\<bar> ^ 22 \<le> 1 / 2 ^ 63" by (simp add: fact_numeral)
  finally have "\<bar>x - 42991545423991633141 / 51090942171709440000\<bar> \<le> 1 / 9223372036854775808" by (simp add: x_def)
  then have "\<bar>x - 15522399902203605024 / 18446744073709551616\<bar> \<le> 1 / 4611686018427387904"
    unfolding abs_le_iff by linarith
  then show ?thesis by (simp add: x_def sin_1_def)
qed

lemma cos_1_close: "\<bar>cos 1 - real_of_int cos_1 / 2 ^ 64\<bar> \<le> 1 / 2 ^ 62"
proof -
  obtain t where t: "cos 1 = (\<Sum>m<22. cos_coeff m * 1 ^ m) + cos (t + 1 / 2 * real 22 * pi) / fact 22 * (1 :: real) ^ 22"
    using Maclaurin_cos_expansion [of 1 22] by blast
  define x y :: real where "x = cos 1" and "y = cos (t + 1 / 2 * real 22 * pi)"
  have y: "- 1 \<le> y" "y \<le> 1" by (simp_all add: y_def)
  have "(\<Sum>m<22. cos_coeff m * 1 ^ m) = (1314502564969066301 / 2432902008176640000 :: real)"
    by (simp add: cos_coeff_def fact_numeral lessThan_nat_numeral lessThan_Suc)
  with t have "x = 1314502564969066301 / 2432902008176640000 + y / 1124000727777607680000"
    by (simp add: x_def y_def fact_numeral)
  with y have "\<bar>x - 9966818358784711825 / 18446744073709551616\<bar> \<le> 1 / 4611686018427387904"
    unfolding abs_le_iff by linarith
  then show ?thesis by (simp add: x_def cos_1_def)
qed

text \<open>The points are close to the unit circle, up to an error that grows with their number.\<close>

definition plane :: "int \<times> int \<Rightarrow> complex" where
  "plane z = Complex (real_of_int (fst z) / 2 ^ 64) (real_of_int (snd z) / 2 ^ 64)"

lemma div_close: "\<bar>real_of_int (x div 2 ^ 64) / 2 ^ 64 - real_of_int x / 2 ^ 128\<bar> \<le> 1 / 2 ^ 64"
proof -
  have "x = (x div 2 ^ 64) * 2 ^ 64 + x mod 2 ^ 64" by simp
  moreover have "0 \<le> x mod 2 ^ 64" "x mod 2 ^ 64 \<le> 2 ^ 64" by (simp_all add: less_imp_le)
  ultimately obtain r where r: "x = (x div 2 ^ 64) * 2 ^ 64 + r" "0 \<le> r" "r \<le> 2 ^ 64" by blast
  have "real_of_int x = real_of_int (x div 2 ^ 64) * 2 ^ 64 + real_of_int r"
    by (subst r(1)) simp
  then have "real_of_int (x div 2 ^ 64) / 2 ^ 64 - real_of_int x / 2 ^ 128 = - (real_of_int r / 2 ^ 128)"
    by (simp add: field_simps)
  moreover have "real_of_int r \<le> real_of_int (2 ^ 64)" using r(3) by (simp only: of_int_le_iff)
  ultimately show ?thesis using r(2) by simp
qed

lemma plane_next: "norm (plane (cis_next z) - plane z * plane (cos_1, sin_1)) \<le> 1 / 2 ^ 63"
proof -
  have "norm (plane (cis_next z) - plane z * plane (cos_1, sin_1)) \<le>
      \<bar>Re (plane (cis_next z) - plane z * plane (cos_1, sin_1))\<bar> + \<bar>Im (plane (cis_next z) - plane z * plane (cos_1, sin_1))\<bar>"
    by (rule cmod_le)
  also have "\<dots> \<le> 1 / 2 ^ 64 + 1 / 2 ^ 64"
    using div_close [of "fst z * cos_1 - snd z * sin_1"] div_close [of "fst z * sin_1 + snd z * cos_1"]
    by (intro add_mono) (simp_all add: plane_def cis_next_def diff_divide_distrib add_divide_distrib)
  finally show ?thesis by simp
qed

lemma cis_close: "norm (cis (real i) - plane (cis_point i)) \<le> real i / 2 ^ 60"
proof (induction i)
  case 0
  then show ?case by (simp add: cis_point_def plane_def complex_eq_iff)
next
  case (Suc i)
  let ?u = "plane (cos_1, sin_1)" and ?w = "plane (cis_point i)"
  have "norm (cis 1 - ?u) \<le> \<bar>Re (cis 1 - ?u)\<bar> + \<bar>Im (cis 1 - ?u)\<bar>" by (rule cmod_le)
  also have "\<dots> \<le> 1 / 2 ^ 61" using sin_1_close cos_1_close by (simp add: plane_def)
  finally have d: "norm (cis 1 - ?u) \<le> 1 / 2 ^ 61" .
  have n: "norm ?u \<le> 1" by (simp add: plane_def cmod_def cos_1_def sin_1_def power_divide)
  have "cis (real (Suc i)) - plane (cis_point (Suc i)) =
      cis (real i) * (cis 1 - ?u) + ?u * (cis (real i) - ?w) - (plane (cis_next (cis_point i)) - ?w * ?u)"
    by (simp add: cis_point_def algebra_simps cis_mult)
  then have "norm (cis (real (Suc i)) - plane (cis_point (Suc i))) \<le>
      norm (cis (real i) * (cis 1 - ?u)) + norm (?u * (cis (real i) - ?w)) + norm (plane (cis_next (cis_point i)) - ?w * ?u)"
    by (metis norm_triangle_ineq4 norm_triangle_ineq add_right_mono order_trans)
  also have "\<dots> \<le> 1 / 2 ^ 61 + real i / 2 ^ 60 + 1 / 2 ^ 63"
    using d plane_next [of "cis_point i"] mult_mono [OF n Suc.IH] by (intro add_mono) (simp_all add: norm_mult)
  also have "\<dots> \<le> real (Suc i) / 2 ^ 60" by (simp add: field_simps)
  finally show ?case .
qed

lemma sine_bits_eq:
  assumes "sine_check (cis_point i) t" and "i \<le> 64"
  shows "int (sine_bits i) = t"
proof -
  define s where "s = \<bar>snd (cis_point i)\<bar>"
  define x y where "x = \<bar>sin (real i)\<bar>" and "y = real_of_int s / 18446744073709551616"
  have "\<bar>Im (cis (real i) - plane (cis_point i))\<bar> \<le> real i / 2 ^ 60"
    using abs_Im_le_cmod cis_close order_trans by blast
  moreover have "real i / 2 ^ 60 \<le> 1 / 18014398509481984" using assms(2) by simp
  ultimately have "\<bar>sin (real i) - real_of_int (snd (cis_point i)) / 18446744073709551616\<bar> \<le> 1 / 18014398509481984"
    by (simp add: plane_def)
  moreover define q where "q = real_of_int (snd (cis_point i)) / 18446744073709551616"
  ultimately have "\<bar>sin (real i) - q\<bar> \<le> 1 / 18014398509481984" by (simp only:)
  moreover have "y = \<bar>q\<bar>" by (simp add: y_def s_def q_def)
  ultimately have "\<bar>x - y\<bar> \<le> 1 / 18014398509481984"
    using abs_triangle_ineq3 [of "sin (real i)" q] unfolding x_def by linarith
  then have c: "x \<le> y + 1 / 18014398509481984" "y \<le> x + 1 / 18014398509481984" unfolding abs_le_iff by linarith+
  have "real_of_int ((t * 2 ^ 22 + 1) * 2 ^ 10) \<le> real_of_int s" "real_of_int s < real_of_int (((t + 1) * 2 ^ 22 - 1) * 2 ^ 10)"
    using assms(1) unfolding sine_check_def s_def of_int_le_iff of_int_less_iff by blast+
  then have "real_of_int t * 4194304 + 1 \<le> 18014398509481984 * y" "18014398509481984 * y < (real_of_int t + 1) * 4194304 - 1"
    by (simp_all add: y_def)
  with c have "real_of_int t * 4194304 \<le> 18014398509481984 * x" "18014398509481984 * x < (real_of_int t + 1) * 4194304"
    by (simp_all add: field_simps)
  then have "real_of_int t * 4194304 \<le> (4294967296 * x) * 4194304" "(4294967296 * x) * 4194304 < (real_of_int t + 1) * 4194304" by simp_all
  then have "real_of_int t \<le> 4294967296 * x" "4294967296 * x < real_of_int t + 1"
    by (simp_all only: mult_le_cancel_right mult_less_cancel_right)
  then have "real_of_int t \<le> 2 ^ 32 * \<bar>sin (real i)\<bar>" "2 ^ 32 * \<bar>sin (real i)\<bar> < real_of_int t + 1"
    by (simp_all add: x_def)
  then have "\<lfloor>2 ^ 32 * \<bar>sin (real i)\<bar>\<rfloor> = t" by (intro floor_unique) simp_all
  moreover from this have "0 \<le> t" by (metis abs_ge_zero mult_nonneg_nonneg zero_le_floor zero_le_numeral zero_le_power)
  ultimately show ?thesis by (simp add: sine_bits_def)
qed

text \<open>A table of the values, checked in one walk.\<close>

fun sine_table :: "int \<times> int \<Rightarrow> int list \<Rightarrow> bool" where
  "sine_table z [] \<longleftrightarrow> True"
| "sine_table z (t # ts) \<longleftrightarrow> (let z = cis_next z in sine_check z t \<and> sine_table z ts)"

lemma sine_table_nth:
  "sine_table (cis_point i) ts \<Longrightarrow> k < length ts \<Longrightarrow> i + length ts \<le> 64 \<Longrightarrow> int (sine_bits (i + k + 1)) = ts ! k"
proof (induction ts arbitrary: i k)
  case (Cons t ts)
  have n: "cis_next (cis_point i) = cis_point (Suc i)" by (simp add: cis_point_def)
  show ?case
  proof (cases k)
    case 0
    then show ?thesis using Cons.prems n by (simp add: sine_bits_eq Let_def)
  next
    case (Suc m)
    then show ?thesis using Cons.IH [of "Suc i" m] Cons.prems n by (simp add: Let_def)
  qed
qed simp

end
