(* ===== verification/MdStandard.thy ===== *)
theory MdStandard imports HashBlock HashConstants
begin

text \<open>
  MD5 (RFC 1321) and the RIPEMD family (Dobbertin, Bosselaers, Preneel: RIPEMD-160, a strengthened version of RIPEMD), as
  functions of the message, written from those texts and not from the code: the constants are sines and roots, the two
  lines of RIPEMD run apart, and their orders of words and shifts come from two permutations and one table. The code is
  compared with it in \<open>AvMd5\<close> and \<open>AvRipemd\<close>. Of \<open>HashBlock\<close> the padding \<open>md_pad\<close> and the walk over the blocks
  \<open>absorb\<close> are used.
\<close>

type_synonym word4 = "u32 \<times> u32 \<times> u32 \<times> u32"

type_synonym md_word5 = "u32 \<times> u32 \<times> u32 \<times> u32 \<times> u32"

fun md_add4 :: "word4 \<Rightarrow> word4 \<Rightarrow> word4" where
  "md_add4 (a, b, c, d) (a', b', c', d') = (a + a', b + b', c + c', d + d')"

fun md_add5 :: "md_word5 \<Rightarrow> md_word5 \<Rightarrow> md_word5" where
  "md_add5 (a, b, c, d, e) (a', b', c', d', e') = (a + a', b + b', c + c', d + d', e + e')"

fun md_list4 :: "word4 \<Rightarrow> u32 list" where
  "md_list4 (a, b, c, d) = [a, b, c, d]"

fun md_list5 :: "md_word5 \<Rightarrow> u32 list" where
  "md_list5 (a, b, c, d, e) = [a, b, c, d, e]"

section \<open>MD5\<close>

text \<open>The functions F, G, H and I of the four rounds, the words each step reads, and the shifts.\<close>

definition rfc_F :: "nat \<Rightarrow> u32 \<Rightarrow> u32 \<Rightarrow> u32 \<Rightarrow> u32" where
  "rfc_F r x y z =
     (if r = 0 then (x AND y) OR (NOT x AND z)
      else if r = 1 then (x AND z) OR (y AND NOT z)
      else if r = 2 then x XOR y XOR z
      else y XOR (x OR NOT z))"

definition rfc_k :: "nat list" where
  "rfc_k =
     [0, 1, 2, 3, 4, 5, 6, 7, 8, 9, 10, 11, 12, 13, 14, 15,
      1, 6, 11, 0, 5, 10, 15, 4, 9, 14, 3, 8, 13, 2, 7, 12,
      5, 8, 11, 14, 1, 4, 7, 10, 13, 0, 3, 6, 9, 12, 15, 2,
      0, 7, 14, 5, 12, 3, 10, 1, 8, 15, 6, 13, 4, 11, 2, 9]"

definition rfc_s :: "nat list" where
  "rfc_s = [7, 12, 17, 22, 5, 9, 14, 20, 4, 11, 16, 23, 6, 10, 15, 21]"

text \<open>\<open>a = b + ((a + F(b,c,d) + X[k] + T[i]) <<< s)\<close>, after which the next step calls the words D, A, B, C; \<open>T\<close> is counted from 1.\<close>

fun rfc_md5_step :: "(nat \<Rightarrow> u32) \<Rightarrow> word4 \<Rightarrow> nat \<Rightarrow> word4" where
  "rfc_md5_step X (a, b, c, d) i =
     (d, b + word_rotl (rfc_s ! (4 * (i div 16) + i mod 4))
       (a + rfc_F (i div 16) b c d + X (rfc_k ! i) + of_nat (sine_bits (i + 1))), b, c)"

definition rfc_md5_block :: "word4 \<Rightarrow> bytes \<Rightarrow> word4" where
  "rfc_md5_block H block = md_add4 (foldl (rfc_md5_step (\<lambda>k. AV_RL32 block (4 * k))) H [0..<64]) H"

text \<open>The initial words, of which the RFC gives the bytes, lowest first.\<close>

definition rfc_md5_init :: word4 where
  "rfc_md5_init =
     (AV_RL32 [0x01, 0x23, 0x45, 0x67] 0, AV_RL32 [0x89, 0xab, 0xcd, 0xef] 0,
      AV_RL32 [0xfe, 0xdc, 0xba, 0x98] 0, AV_RL32 [0x76, 0x54, 0x32, 0x10] 0)"

definition md5_hash :: "bytes \<Rightarrow> bytes" where
  "md5_hash m = concat (map AV_WL32 (md_list4 (fst (absorb 64 rfc_md5_block rfc_md5_init (md_pad 64 AV_WL64 m)))))"

section \<open>RIPEMD\<close>

text \<open>The five functions; the left line uses them in this order, the right line in the opposite one.\<close>

definition rmd_f :: "nat \<Rightarrow> u32 \<Rightarrow> u32 \<Rightarrow> u32 \<Rightarrow> u32" where
  "rmd_f r x y z =
     (if r = 0 then x XOR y XOR z
      else if r = 1 then (x AND y) OR (NOT x AND z)
      else if r = 2 then (x OR NOT y) XOR z
      else if r = 3 then (x AND z) OR (y AND NOT z)
      else x XOR (y OR NOT z))"

text \<open>The orders of words are made of two permutations: in round \<open>r\<close> the left line has \<open>rho ^ r\<close>, the right \<open>rho ^ r\<close> after \<open>pi\<close>.\<close>

definition rmd_rho :: "nat \<Rightarrow> nat" where
  "rmd_rho i = [7, 4, 13, 1, 10, 6, 15, 3, 12, 0, 9, 5, 2, 14, 11, 8] ! i"

definition rmd_pi :: "nat \<Rightarrow> nat" where
  "rmd_pi i = (9 * i + 5) mod 16"

text \<open>The word that step \<open>n\<close> of each line reads.\<close>

definition rmd_left :: "nat \<Rightarrow> nat" where
  "rmd_left n = (rmd_rho ^^ (n div 16)) (n mod 16)"

definition rmd_right :: "nat \<Rightarrow> nat" where
  "rmd_right n = (rmd_rho ^^ (n div 16)) (rmd_pi (n mod 16))"

text \<open>The shift for a word in a round.\<close>

definition rmd_shifts :: "nat list list" where
  "rmd_shifts =
     [[11, 14, 15, 12, 5, 8, 7, 9, 11, 13, 14, 15, 6, 7, 9, 8],
      [12, 13, 11, 15, 6, 9, 9, 7, 12, 15, 11, 13, 7, 8, 7, 7],
      [13, 15, 14, 11, 7, 7, 6, 8, 13, 14, 13, 12, 5, 5, 6, 9],
      [14, 11, 12, 14, 8, 6, 5, 5, 15, 12, 15, 14, 9, 9, 8, 6],
      [15, 12, 13, 13, 9, 5, 8, 6, 14, 11, 12, 11, 8, 6, 5, 5]]"

text \<open>The added constants: \<open>2 ^ 30\<close> times the square and cube roots of 2, 3, 5 and 7, and zero at one end of each line.\<close>

definition rmd_K_left :: "nat \<Rightarrow> u32" where
  "rmd_K_left r = (if r = 0 then 0 else of_nat (root_bits 30 2 ([2, 3, 5, 7] ! (r - 1))))"

definition rmd_K_right :: "nat \<Rightarrow> u32" where
  "rmd_K_right r = of_nat (root_bits 30 3 ([2, 3, 5, 7] ! r))"

section \<open>RIPEMD-128 and RIPEMD-256\<close>

text \<open>One step of a line: the function, the constant, the word and the shift.\<close>

fun rmd_step4 :: "(u32 \<Rightarrow> u32 \<Rightarrow> u32 \<Rightarrow> u32) \<Rightarrow> u32 \<Rightarrow> u32 \<Rightarrow> nat \<Rightarrow> word4 \<Rightarrow> word4" where
  "rmd_step4 f K X s (a, b, c, d) = (d, word_rotl s (a + f b c d + X + K), b, c)"

definition rmd128_left :: "(nat \<Rightarrow> u32) \<Rightarrow> word4 \<Rightarrow> nat \<Rightarrow> word4" where
  "rmd128_left X v n =
     rmd_step4 (rmd_f (n div 16)) (rmd_K_left (n div 16)) (X (rmd_left n)) (rmd_shifts ! (n div 16) ! rmd_left n) v"

definition rmd128_right :: "(nat \<Rightarrow> u32) \<Rightarrow> word4 \<Rightarrow> nat \<Rightarrow> word4" where
  "rmd128_right X v n =
     rmd_step4 (rmd_f (3 - n div 16)) (if n div 16 = 3 then 0 else rmd_K_right (n div 16)) (X (rmd_right n))
       (rmd_shifts ! (n div 16) ! rmd_right n) v"

text \<open>Round \<open>r\<close> on a pair of lines.\<close>

definition rmd128_pair :: "(nat \<Rightarrow> u32) \<Rightarrow> nat \<Rightarrow> word4 \<times> word4 \<Rightarrow> word4 \<times> word4" where
  "rmd128_pair X r lr =
     (foldl (rmd128_left X) (fst lr) [16 * r..<16 * (r + 1)], foldl (rmd128_right X) (snd lr) [16 * r..<16 * (r + 1)])"

fun rmd128_combine :: "word4 \<Rightarrow> word4 \<times> word4 \<Rightarrow> word4" where
  "rmd128_combine (h0, h1, h2, h3) ((a, b, c, d), (a', b', c', d')) =
     (h1 + c + d', h2 + d + a', h3 + a + b', h0 + b + c')"

definition rmd128_compress :: "word4 \<Rightarrow> bytes \<Rightarrow> word4" where
  "rmd128_compress H block = rmd128_combine H (foldl (\<lambda>v r. rmd128_pair (\<lambda>k. AV_RL32 block (4 * k)) r v) (H, H) [0, 1, 2, 3])"

text \<open>The wide function: the lines exchange one word after every round, and each is added to its own half.\<close>

fun rmd128_exchange :: "nat \<Rightarrow> word4 \<times> word4 \<Rightarrow> word4 \<times> word4" where
  "rmd128_exchange r ((a, b, c, d), (a', b', c', d')) =
     (if r = 0 then ((a', b, c, d), (a, b', c', d'))
      else if r = 1 then ((a, b', c, d), (a', b, c', d'))
      else if r = 2 then ((a, b, c', d), (a', b', c, d'))
      else ((a, b, c, d'), (a', b', c', d)))"

definition rmd256_compress :: "word4 \<times> word4 \<Rightarrow> bytes \<Rightarrow> word4 \<times> word4" where
  "rmd256_compress H block =
     (let (l, r) = foldl (\<lambda>v r. rmd128_exchange r (rmd128_pair (\<lambda>k. AV_RL32 block (4 * k)) r v)) H [0, 1, 2, 3]
      in (md_add4 (fst H) l, md_add4 (snd H) r))"

section \<open>RIPEMD-160 and RIPEMD-320\<close>

fun rmd_step5 :: "(u32 \<Rightarrow> u32 \<Rightarrow> u32 \<Rightarrow> u32) \<Rightarrow> u32 \<Rightarrow> u32 \<Rightarrow> nat \<Rightarrow> md_word5 \<Rightarrow> md_word5" where
  "rmd_step5 f K X s (a, b, c, d, e) = (e, word_rotl s (a + f b c d + X + K) + e, b, word_rotl 10 c, d)"

definition rmd160_left :: "(nat \<Rightarrow> u32) \<Rightarrow> md_word5 \<Rightarrow> nat \<Rightarrow> md_word5" where
  "rmd160_left X v n =
     rmd_step5 (rmd_f (n div 16)) (rmd_K_left (n div 16)) (X (rmd_left n)) (rmd_shifts ! (n div 16) ! rmd_left n) v"

definition rmd160_right :: "(nat \<Rightarrow> u32) \<Rightarrow> md_word5 \<Rightarrow> nat \<Rightarrow> md_word5" where
  "rmd160_right X v n =
     rmd_step5 (rmd_f (4 - n div 16)) (if n div 16 = 4 then 0 else rmd_K_right (n div 16)) (X (rmd_right n))
       (rmd_shifts ! (n div 16) ! rmd_right n) v"

definition rmd160_pair :: "(nat \<Rightarrow> u32) \<Rightarrow> nat \<Rightarrow> md_word5 \<times> md_word5 \<Rightarrow> md_word5 \<times> md_word5" where
  "rmd160_pair X r lr =
     (foldl (rmd160_left X) (fst lr) [16 * r..<16 * (r + 1)], foldl (rmd160_right X) (snd lr) [16 * r..<16 * (r + 1)])"

fun rmd160_combine :: "md_word5 \<Rightarrow> md_word5 \<times> md_word5 \<Rightarrow> md_word5" where
  "rmd160_combine (h0, h1, h2, h3, h4) ((a, b, c, d, e), (a', b', c', d', e')) =
     (h1 + c + d', h2 + d + e', h3 + e + a', h4 + a + b', h0 + b + c')"

definition rmd160_compress :: "md_word5 \<Rightarrow> bytes \<Rightarrow> md_word5" where
  "rmd160_compress H block = rmd160_combine H (foldl (\<lambda>v r. rmd160_pair (\<lambda>k. AV_RL32 block (4 * k)) r v) (H, H) [0, 1, 2, 3, 4])"

text \<open>The words exchanged after the rounds are B, D, A, C and E.\<close>

fun rmd160_exchange :: "nat \<Rightarrow> md_word5 \<times> md_word5 \<Rightarrow> md_word5 \<times> md_word5" where
  "rmd160_exchange r ((a, b, c, d, e), (a', b', c', d', e')) =
     (if r = 0 then ((a, b', c, d, e), (a', b, c', d', e'))
      else if r = 1 then ((a, b, c, d', e), (a', b', c', d, e'))
      else if r = 2 then ((a', b, c, d, e), (a, b', c', d', e'))
      else if r = 3 then ((a, b, c', d, e), (a', b', c, d', e'))
      else ((a, b, c, d, e'), (a', b', c', d', e)))"

definition rmd320_compress :: "md_word5 \<times> md_word5 \<Rightarrow> bytes \<Rightarrow> md_word5 \<times> md_word5" where
  "rmd320_compress H block =
     (let (l, r) = foldl (\<lambda>v r. rmd160_exchange r (rmd160_pair (\<lambda>k. AV_RL32 block (4 * k)) r v)) H [0, 1, 2, 3, 4]
      in (md_add5 (fst H) l, md_add5 (snd H) r))"

section \<open>The digests\<close>

definition rmd_IV :: md_word5 where
  "rmd_IV = (0x67452301, 0xefcdab89, 0x98badcfe, 0x10325476, 0xc3d2e1f0)"

definition rmd_IV' :: md_word5 where
  "rmd_IV' = (0x76543210, 0xfedcba98, 0x89abcdef, 0x01234567, 0x3c2d1e0f)"

fun md_first4 :: "md_word5 \<Rightarrow> word4" where
  "md_first4 (a, b, c, d, e) = (a, b, c, d)"

definition ripemd_hash :: "int \<Rightarrow> bytes \<Rightarrow> bytes" where
  "ripemd_hash bits m =
     (let blocks = md_pad 64 AV_WL64 m
      in concat (map AV_WL32
        (if bits = 128 then md_list4 (fst (absorb 64 rmd128_compress (md_first4 rmd_IV) blocks))
         else if bits = 160 then md_list5 (fst (absorb 64 rmd160_compress rmd_IV blocks))
         else if bits = 256 then
           let (l, r) = fst (absorb 64 rmd256_compress (md_first4 rmd_IV, md_first4 rmd_IV') blocks) in md_list4 l @ md_list4 r
         else let (l, r) = fst (absorb 64 rmd320_compress (rmd_IV, rmd_IV') blocks) in md_list5 l @ md_list5 r)))"

section \<open>Facts that the comparisons share\<close>

lemma length_md5_hash: "length (md5_hash m) = 16"
  by (cases "fst (absorb 64 rfc_md5_block rfc_md5_init (md_pad 64 AV_WL64 m))" rule: md_list4.cases) (simp add: md5_hash_def)

end
