(* ===== verification/AvRipemd.thy ===== *)
theory AvRipemd imports MdStandard
begin

text \<open>
  \<open>libavutil/ripemd.c\<close>: RIPEMD-128, -160, -256 and -320. Each of the four compression functions is
  written rolled and unrolled; the two wide ones exchange variables between their two lines after
  every sixteen rounds. All configurations compute the functions of the RIPEMD papers (\<open>MdStandard\<close>).
\<close>

section \<open>Tables\<close>

definition rmd_KA :: "u32 list" where
  "rmd_KA =
     [0x5a827999, 0x6ed9eba1, 0x8f1bbcdc, 0xa953fd4e]"

definition rmd_KB :: "u32 list" where
  "rmd_KB =
     [0x50a28be6, 0x5c4dd124, 0x6d703ef3, 0x7a6d76e9]"

definition rmd_ROTA :: "nat list" where
  "rmd_ROTA =
     [11, 14, 15, 12, 5, 8, 7, 9, 11, 13, 14, 15, 6, 7, 9, 8, 7, 6, 8, 13,
      11, 9, 7, 15, 7, 12, 15, 9, 11, 7, 13, 12, 11, 13, 6, 7, 14, 9, 13, 15,
      14, 8, 13, 6, 5, 12, 7, 5, 11, 12, 14, 15, 14, 15, 9, 8, 9, 14, 5, 6,
      8, 6, 5, 12, 9, 15, 5, 11, 6, 8, 13, 12, 5, 12, 13, 14, 11, 8, 5, 6]"

definition rmd_ROTB :: "nat list" where
  "rmd_ROTB =
     [8, 9, 9, 11, 13, 15, 15, 5, 7, 7, 8, 11, 14, 14, 12, 6, 9, 13, 15, 7,
      12, 8, 9, 11, 7, 7, 12, 7, 6, 15, 13, 11, 9, 7, 15, 11, 8, 6, 6, 14,
      12, 13, 5, 14, 13, 13, 7, 5, 15, 5, 8, 11, 14, 14, 6, 14, 6, 9, 12, 9,
      12, 5, 15, 8, 8, 5, 12, 9, 12, 5, 14, 6, 8, 13, 6, 5, 15, 13, 11, 11]"

definition rmd_WA :: "nat list" where
  "rmd_WA =
     [0, 1, 2, 3, 4, 5, 6, 7, 8, 9, 10, 11, 12, 13, 14, 15, 7, 4, 13, 1,
      10, 6, 15, 3, 12, 0, 9, 5, 2, 14, 11, 8, 3, 10, 14, 4, 9, 15, 8, 1,
      2, 7, 0, 6, 13, 11, 5, 12, 1, 9, 11, 10, 0, 8, 12, 4, 13, 3, 7, 15,
      14, 5, 6, 2, 4, 0, 5, 9, 7, 12, 2, 10, 14, 1, 3, 8, 11, 6, 15, 13]"

definition rmd_WB :: "nat list" where
  "rmd_WB =
     [5, 14, 7, 0, 9, 2, 11, 4, 13, 6, 15, 8, 1, 10, 3, 12, 6, 11, 3, 7,
      0, 13, 5, 10, 14, 15, 8, 12, 4, 9, 1, 2, 15, 5, 1, 3, 7, 14, 6, 9,
      11, 8, 12, 2, 10, 0, 4, 13, 8, 6, 4, 1, 3, 11, 15, 0, 5, 12, 2, 13,
      9, 7, 10, 14, 12, 15, 10, 4, 1, 5, 8, 7, 6, 2, 13, 14, 0, 3, 9, 11]"

definition rmd_rol :: "u32 \<Rightarrow> nat \<Rightarrow> u32" where
  "rmd_rol v n = shl v n OR shr v (32 - n)"

text \<open>\<open>block[n] = AV_RL32(buffer + 4 * n)\<close>\<close>

definition rmd_words :: "bytes \<Rightarrow> u32 list" where
  "rmd_words buffer = map (\<lambda>n. AV_RL32 buffer (4 * n)) [0..<16]"

section \<open>RIPEMD-128 and RIPEMD-256\<close>

type_synonym rmd128_vars = "u32 \<times> u32 \<times> u32 \<times> u32 \<times> u32 \<times> u32 \<times> u32 \<times> u32"

text \<open>The round macros of the narrow and the wide function with 8 variables.\<close>

fun ROUND128_0 :: "u32 list \<Rightarrow> nat \<Rightarrow> rmd128_vars \<Rightarrow> rmd128_vars" where
  "ROUND128_0 block n (a, b, c, d, e, f, g, h) =
     (let bA = block ! (rmd_WA ! n); bB = block ! (rmd_WB ! n);
          a = rmd_rol (a + (( b XOR c XOR d) + bA)) (rmd_ROTA ! n);
          e = rmd_rol (e + ((((f XOR g) AND h) XOR g) + bB + (rmd_KB ! 0))) (rmd_ROTB ! n)
      in (a, b, c, d, e, f, g, h))"

fun ROUND128_16 :: "u32 list \<Rightarrow> nat \<Rightarrow> rmd128_vars \<Rightarrow> rmd128_vars" where
  "ROUND128_16 block n (a, b, c, d, e, f, g, h) =
     (let bA = block ! (rmd_WA ! n); bB = block ! (rmd_WB ! n);
          a = rmd_rol (a + ((((c XOR d) AND b) XOR d) + bA + (rmd_KA ! 0))) (rmd_ROTA ! n);
          e = rmd_rol (e + (((NOT g OR f) XOR h) + bB + (rmd_KB ! 1))) (rmd_ROTB ! n)
      in (a, b, c, d, e, f, g, h))"

fun ROUND128_32 :: "u32 list \<Rightarrow> nat \<Rightarrow> rmd128_vars \<Rightarrow> rmd128_vars" where
  "ROUND128_32 block n (a, b, c, d, e, f, g, h) =
     (let bA = block ! (rmd_WA ! n); bB = block ! (rmd_WB ! n);
          a = rmd_rol (a + (((NOT c OR b) XOR d) + bA + (rmd_KA ! 1))) (rmd_ROTA ! n);
          e = rmd_rol (e + ((((g XOR h) AND f) XOR h) + bB + (rmd_KB ! 2))) (rmd_ROTB ! n)
      in (a, b, c, d, e, f, g, h))"

fun ROUND128_48 :: "u32 list \<Rightarrow> nat \<Rightarrow> rmd128_vars \<Rightarrow> rmd128_vars" where
  "ROUND128_48 block n (a, b, c, d, e, f, g, h) =
     (let bA = block ! (rmd_WA ! n); bB = block ! (rmd_WB ! n);
          a = rmd_rol (a + ((((b XOR c) AND d) XOR c) + bA + (rmd_KA ! 2))) (rmd_ROTA ! n);
          e = rmd_rol (e + (( f XOR g XOR h) + bB)) (rmd_ROTB ! n)
      in (a, b, c, d, e, f, g, h))"

text \<open>The macro the text has at round \<open>n\<close>.\<close>

definition ROUND128 :: "u32 list \<Rightarrow> nat \<Rightarrow> rmd128_vars \<Rightarrow> rmd128_vars" where
  "ROUND128 block n =
     (if n < 16 then ROUND128_0 block n else
      if n < 32 then ROUND128_16 block n else
      if n < 48 then ROUND128_32 block n else
      ROUND128_48 block n)"

text \<open>A line of the unrolled text, with its names in rotated order, and a turn of the rolled loop.\<close>

fun rmd128_line :: "u32 list \<Rightarrow> rmd128_vars \<Rightarrow> nat \<Rightarrow> rmd128_vars" where
  "rmd128_line block (a, b, c, d, e, f, g, h) n =
     (if n mod 4 = 0 then let (a, b, c, d, e, f, g, h) = ROUND128 block n (a, b, c, d, e, f, g, h) in (a, b, c, d, e, f, g, h)
      else if n mod 4 = 1 then let (d, a, b, c, h, e, f, g) = ROUND128 block n (d, a, b, c, h, e, f, g) in (a, b, c, d, e, f, g, h)
      else if n mod 4 = 2 then let (c, d, a, b, g, h, e, f) = ROUND128 block n (c, d, a, b, g, h, e, f) in (a, b, c, d, e, f, g, h)
      else let (b, c, d, a, f, g, h, e) = ROUND128 block n (b, c, d, a, f, g, h, e) in (a, b, c, d, e, f, g, h))"

fun rmd128_sh :: "rmd128_vars \<Rightarrow> rmd128_vars" where
  "rmd128_sh (a, b, c, d, e, f, g, h) = (d, a, b, c, h, e, f, g)"

fun rmd128_un :: "rmd128_vars \<Rightarrow> rmd128_vars" where
  "rmd128_un (d, a, b, c, h, e, f, g) = (a, b, c, d, e, f, g, h)"

definition rmd128_step :: "u32 list \<Rightarrow> rmd128_vars \<Rightarrow> nat \<Rightarrow> rmd128_vars" where
  "rmd128_step block v n = rmd128_sh (ROUND128 block n v)"

lemma rmd128_rotation:
  "M \<le> N \<Longrightarrow> foldl (rmd128_step block) ((rmd128_sh ^^ (M mod 4)) v) [M..<N] =
    (rmd128_sh ^^ (N mod 4)) (foldl (rmd128_line block) v [M..<N])"
proof (rule rotating_part [where un = rmd128_un and R = "ROUND128 block"])
  show "rmd128_un (rmd128_sh v) = v" "(rmd128_sh ^^ 4) v = v" for v
    by (cases v rule: rmd128_sh.cases; simp add: rotate_simps)+
  show "rmd128_line block v n = (rmd128_un ^^ (n mod 4)) (ROUND128 block n ((rmd128_sh ^^ (n mod 4)) v))" for n v
    using mod_4_cases [of n]
    by (cases v rule: rmd128_sh.cases) (elim disjE; simp add: rotate_simps Let_def split: prod.split)
qed (simp_all add: rmd128_step_def)

definition ripemd128_transform :: "bool \<Rightarrow> u32 list \<Rightarrow> bytes \<Rightarrow> u32 list" where
  "ripemd128_transform config_small state buffer =
     (let block = rmd_words buffer;
          round = (if config_small then rmd128_step block else rmd128_line block);
          v = (state ! 0, state ! 1, state ! 2, state ! 3, state ! 0, state ! 1, state ! 2, state ! 3);
          v = foldl round v [0..<16];
          v = foldl round v [16..<32];
          v = foldl round v [32..<48];
          v = foldl round v [48..<64];
          (a, b, c, d, e, f, g, h) = v
      in state[1 := state ! 2 + d + e, 2 := state ! 3 + a + f, 3 := state ! 0 + b + g, 0 := h + (c + state ! 1)])"

text \<open>\<open>FFSWAP\<close> of a variable of the first line with its partner in the second.\<close>

fun rmd128_swap_a :: "rmd128_vars \<Rightarrow> rmd128_vars" where
  "rmd128_swap_a (a, b, c, d, e, f, g, h) = (e, b, c, d, a, f, g, h)"

fun rmd128_swap_b :: "rmd128_vars \<Rightarrow> rmd128_vars" where
  "rmd128_swap_b (a, b, c, d, e, f, g, h) = (a, f, c, d, e, b, g, h)"

fun rmd128_swap_c :: "rmd128_vars \<Rightarrow> rmd128_vars" where
  "rmd128_swap_c (a, b, c, d, e, f, g, h) = (a, b, g, d, e, f, c, h)"

fun rmd128_swap_d :: "rmd128_vars \<Rightarrow> rmd128_vars" where
  "rmd128_swap_d (a, b, c, d, e, f, g, h) = (a, b, c, h, e, f, g, d)"

definition ripemd256_transform :: "bool \<Rightarrow> u32 list \<Rightarrow> bytes \<Rightarrow> u32 list" where
  "ripemd256_transform config_small state buffer =
     (let block = rmd_words buffer;
          round = (if config_small then rmd128_step block else rmd128_line block);
          v = (state ! 0, state ! 1, state ! 2, state ! 3, state ! 4, state ! 5, state ! 6, state ! 7);
          v = rmd128_swap_a (foldl round v [0..<16]);
          v = rmd128_swap_b (foldl round v [16..<32]);
          v = rmd128_swap_c (foldl round v [32..<48]);
          v = rmd128_swap_d (foldl round v [48..<64]);
          (a, b, c, d, e, f, g, h) = v
      in state[0 := state ! 0 + a, 1 := state ! 1 + b, 2 := state ! 2 + c, 3 := state ! 3 + d,
               4 := state ! 4 + e, 5 := state ! 5 + f, 6 := state ! 6 + g, 7 := state ! 7 + h])"

text \<open>Sixteen rounds bring the names back, so both loops exchange the same variables.\<close>

lemma rmd128_parts:
  "foldl (rmd128_step block) v [0..<16] = foldl (rmd128_line block) v [0..<16]"
  "foldl (rmd128_step block) v [16..<32] = foldl (rmd128_line block) v [16..<32]"
  "foldl (rmd128_step block) v [32..<48] = foldl (rmd128_line block) v [32..<48]"
  "foldl (rmd128_step block) v [48..<64] = foldl (rmd128_line block) v [48..<64]"
  using rmd128_rotation [of 0 16 block v] rmd128_rotation [of 16 32 block v]
    rmd128_rotation [of 32 48 block v] rmd128_rotation [of 48 64 block v]
  by (simp_all del: upt_conv_Cons upt_rec_numeral)

lemma ripemd128_agree: "ripemd128_transform config_small = ripemd128_transform False"
  by (cases config_small; intro ext) (simp_all only: ripemd128_transform_def rmd128_parts Let_def if_True if_False)

lemma ripemd256_agree: "ripemd256_transform config_small = ripemd256_transform False"
  by (cases config_small; intro ext) (simp_all only: ripemd256_transform_def rmd128_parts Let_def if_True if_False)

section \<open>RIPEMD-160 and RIPEMD-320\<close>

type_synonym rmd160_vars = "u32 \<times> u32 \<times> u32 \<times> u32 \<times> u32 \<times> u32 \<times> u32 \<times> u32 \<times> u32 \<times> u32"

text \<open>The round macros of the narrow and the wide function with 10 variables.\<close>

fun ROUND160_0 :: "u32 list \<Rightarrow> nat \<Rightarrow> rmd160_vars \<Rightarrow> rmd160_vars" where
  "ROUND160_0 block n (a, b, c, d, e, f, g, h, i, j) =
     (let bA = block ! (rmd_WA ! n); bB = block ! (rmd_WB ! n);
          a = rmd_rol (a + (( b XOR c XOR d) + bA)) (rmd_ROTA ! n) + e;
          f = rmd_rol (f + (((NOT i OR h) XOR g) + bB + (rmd_KB ! 0))) (rmd_ROTB ! n) + j;
          c = rmd_rol c 10;
          h = rmd_rol h 10
      in (a, b, c, d, e, f, g, h, i, j))"

fun ROUND160_16 :: "u32 list \<Rightarrow> nat \<Rightarrow> rmd160_vars \<Rightarrow> rmd160_vars" where
  "ROUND160_16 block n (a, b, c, d, e, f, g, h, i, j) =
     (let bA = block ! (rmd_WA ! n); bB = block ! (rmd_WB ! n);
          a = rmd_rol (a + ((((c XOR d) AND b) XOR d) + bA + (rmd_KA ! 0))) (rmd_ROTA ! n) + e;
          f = rmd_rol (f + ((((g XOR h) AND i) XOR h) + bB + (rmd_KB ! 1))) (rmd_ROTB ! n) + j;
          c = rmd_rol c 10;
          h = rmd_rol h 10
      in (a, b, c, d, e, f, g, h, i, j))"

fun ROUND160_32 :: "u32 list \<Rightarrow> nat \<Rightarrow> rmd160_vars \<Rightarrow> rmd160_vars" where
  "ROUND160_32 block n (a, b, c, d, e, f, g, h, i, j) =
     (let bA = block ! (rmd_WA ! n); bB = block ! (rmd_WB ! n);
          a = rmd_rol (a + (((NOT c OR b) XOR d) + bA + (rmd_KA ! 1))) (rmd_ROTA ! n) + e;
          f = rmd_rol (f + (((NOT h OR g) XOR i) + bB + (rmd_KB ! 2))) (rmd_ROTB ! n) + j;
          c = rmd_rol c 10;
          h = rmd_rol h 10
      in (a, b, c, d, e, f, g, h, i, j))"

fun ROUND160_48 :: "u32 list \<Rightarrow> nat \<Rightarrow> rmd160_vars \<Rightarrow> rmd160_vars" where
  "ROUND160_48 block n (a, b, c, d, e, f, g, h, i, j) =
     (let bA = block ! (rmd_WA ! n); bB = block ! (rmd_WB ! n);
          a = rmd_rol (a + ((((b XOR c) AND d) XOR c) + bA + (rmd_KA ! 2))) (rmd_ROTA ! n) + e;
          f = rmd_rol (f + ((((h XOR i) AND g) XOR i) + bB + (rmd_KB ! 3))) (rmd_ROTB ! n) + j;
          c = rmd_rol c 10;
          h = rmd_rol h 10
      in (a, b, c, d, e, f, g, h, i, j))"

fun ROUND160_64 :: "u32 list \<Rightarrow> nat \<Rightarrow> rmd160_vars \<Rightarrow> rmd160_vars" where
  "ROUND160_64 block n (a, b, c, d, e, f, g, h, i, j) =
     (let bA = block ! (rmd_WA ! n); bB = block ! (rmd_WB ! n);
          a = rmd_rol (a + (((NOT d OR c) XOR b) + bA + (rmd_KA ! 3))) (rmd_ROTA ! n) + e;
          f = rmd_rol (f + (( g XOR h XOR i) + bB)) (rmd_ROTB ! n) + j;
          c = rmd_rol c 10;
          h = rmd_rol h 10
      in (a, b, c, d, e, f, g, h, i, j))"

text \<open>The macro the text has at round \<open>n\<close>.\<close>

definition ROUND160 :: "u32 list \<Rightarrow> nat \<Rightarrow> rmd160_vars \<Rightarrow> rmd160_vars" where
  "ROUND160 block n =
     (if n < 16 then ROUND160_0 block n else
      if n < 32 then ROUND160_16 block n else
      if n < 48 then ROUND160_32 block n else
      if n < 64 then ROUND160_48 block n else
      ROUND160_64 block n)"

text \<open>A line of the unrolled text, with its names in rotated order, and a turn of the rolled loop.\<close>

fun rmd160_line :: "u32 list \<Rightarrow> rmd160_vars \<Rightarrow> nat \<Rightarrow> rmd160_vars" where
  "rmd160_line block (a, b, c, d, e, f, g, h, i, j) n =
     (if n mod 5 = 0 then let (a, b, c, d, e, f, g, h, i, j) = ROUND160 block n (a, b, c, d, e, f, g, h, i, j) in (a, b, c, d, e, f, g, h, i, j)
      else if n mod 5 = 1 then let (e, a, b, c, d, j, f, g, h, i) = ROUND160 block n (e, a, b, c, d, j, f, g, h, i) in (a, b, c, d, e, f, g, h, i, j)
      else if n mod 5 = 2 then let (d, e, a, b, c, i, j, f, g, h) = ROUND160 block n (d, e, a, b, c, i, j, f, g, h) in (a, b, c, d, e, f, g, h, i, j)
      else if n mod 5 = 3 then let (c, d, e, a, b, h, i, j, f, g) = ROUND160 block n (c, d, e, a, b, h, i, j, f, g) in (a, b, c, d, e, f, g, h, i, j)
      else let (b, c, d, e, a, g, h, i, j, f) = ROUND160 block n (b, c, d, e, a, g, h, i, j, f) in (a, b, c, d, e, f, g, h, i, j))"

fun rmd160_sh :: "rmd160_vars \<Rightarrow> rmd160_vars" where
  "rmd160_sh (a, b, c, d, e, f, g, h, i, j) = (e, a, b, c, d, j, f, g, h, i)"

fun rmd160_un :: "rmd160_vars \<Rightarrow> rmd160_vars" where
  "rmd160_un (e, a, b, c, d, j, f, g, h, i) = (a, b, c, d, e, f, g, h, i, j)"

definition rmd160_step :: "u32 list \<Rightarrow> rmd160_vars \<Rightarrow> nat \<Rightarrow> rmd160_vars" where
  "rmd160_step block v n = rmd160_sh (ROUND160 block n v)"

lemma rmd160_rotation:
  "M \<le> N \<Longrightarrow> foldl (rmd160_step block) ((rmd160_sh ^^ (M mod 5)) v) [M..<N] =
    (rmd160_sh ^^ (N mod 5)) (foldl (rmd160_line block) v [M..<N])"
proof (rule rotating_part [where un = rmd160_un and R = "ROUND160 block"])
  show "rmd160_un (rmd160_sh v) = v" "(rmd160_sh ^^ 5) v = v" for v
    by (cases v rule: rmd160_sh.cases; simp add: rotate_simps)+
  show "rmd160_line block v n = (rmd160_un ^^ (n mod 5)) (ROUND160 block n ((rmd160_sh ^^ (n mod 5)) v))" for n v
    using mod_5_cases [of n]
    by (cases v rule: rmd160_sh.cases) (elim disjE; simp add: rotate_simps Let_def split: prod.split)
qed (simp_all add: rmd160_step_def)

fun rmd160_swap_a :: "rmd160_vars \<Rightarrow> rmd160_vars" where
  "rmd160_swap_a (a, b, c, d, e, f, g, h, i, j) = (f, b, c, d, e, a, g, h, i, j)"

fun rmd160_swap_b :: "rmd160_vars \<Rightarrow> rmd160_vars" where
  "rmd160_swap_b (a, b, c, d, e, f, g, h, i, j) = (a, g, c, d, e, f, b, h, i, j)"

fun rmd160_swap_c :: "rmd160_vars \<Rightarrow> rmd160_vars" where
  "rmd160_swap_c (a, b, c, d, e, f, g, h, i, j) = (a, b, h, d, e, f, g, c, i, j)"

fun rmd160_swap_d :: "rmd160_vars \<Rightarrow> rmd160_vars" where
  "rmd160_swap_d (a, b, c, d, e, f, g, h, i, j) = (a, b, c, i, e, f, g, h, d, j)"

fun rmd160_swap_e :: "rmd160_vars \<Rightarrow> rmd160_vars" where
  "rmd160_swap_e (a, b, c, d, e, f, g, h, i, j) = (a, b, c, d, j, f, g, h, i, e)"

definition ripemd160_transform :: "bool \<Rightarrow> u32 list \<Rightarrow> bytes \<Rightarrow> u32 list" where
  "ripemd160_transform config_small state buffer =
     (let block = rmd_words buffer;
          round = (if config_small then rmd160_step block else rmd160_line block);
          v = (state ! 0, state ! 1, state ! 2, state ! 3, state ! 4, state ! 0, state ! 1, state ! 2, state ! 3, state ! 4);
          v = foldl round v [0..<16];
          v = foldl round v [16..<32];
          v = foldl round v [32..<48];
          v = foldl round v [48..<64];
          v = foldl round v [64..<80];
          (a, b, c, d, e, f, g, h, i, j) = v
      in state[1 := state ! 2 + d + j, 2 := state ! 3 + e + f, 3 := state ! 4 + a + g, 4 := state ! 0 + b + h,
               0 := i + (c + state ! 1)])"

text \<open>In the rolled text the variables to exchange have other names, since sixteen is not a multiple of
  five.\<close>

definition ripemd320_transform :: "bool \<Rightarrow> u32 list \<Rightarrow> bytes \<Rightarrow> u32 list" where
  "ripemd320_transform config_small state buffer =
     (let block = rmd_words buffer;
          v = (state ! 0, state ! 1, state ! 2, state ! 3, state ! 4, state ! 5, state ! 6, state ! 7, state ! 8, state ! 9);
          v = (if config_small then
                 let v = rmd160_swap_b (foldl (rmd160_step block) v [0..<16]);
                     v = rmd160_swap_d (foldl (rmd160_step block) v [16..<32]);
                     v = rmd160_swap_a (foldl (rmd160_step block) v [32..<48]);
                     v = rmd160_swap_c (foldl (rmd160_step block) v [48..<64])
                 in rmd160_swap_e (foldl (rmd160_step block) v [64..<80])
               else
                 let v = rmd160_swap_a (foldl (rmd160_line block) v [0..<16]);
                     v = rmd160_swap_b (foldl (rmd160_line block) v [16..<32]);
                     v = rmd160_swap_c (foldl (rmd160_line block) v [32..<48]);
                     v = rmd160_swap_d (foldl (rmd160_line block) v [48..<64])
                 in rmd160_swap_e (foldl (rmd160_line block) v [64..<80]));
          (a, b, c, d, e, f, g, h, i, j) = v
      in state[0 := state ! 0 + a, 1 := state ! 1 + b, 2 := state ! 2 + c, 3 := state ! 3 + d, 4 := state ! 4 + e,
               5 := state ! 5 + f, 6 := state ! 6 + g, 7 := state ! 7 + h, 8 := state ! 8 + i, 9 := state ! 9 + j])"

lemma rmd160_parts:
  "foldl (rmd160_step block) v [0..<16] = (rmd160_sh ^^ 1) (foldl (rmd160_line block) v [0..<16])"
  "foldl (rmd160_step block) ((rmd160_sh ^^ 1) v) [16..<32] = (rmd160_sh ^^ 2) (foldl (rmd160_line block) v [16..<32])"
  "foldl (rmd160_step block) ((rmd160_sh ^^ 2) v) [32..<48] = (rmd160_sh ^^ 3) (foldl (rmd160_line block) v [32..<48])"
  "foldl (rmd160_step block) ((rmd160_sh ^^ 3) v) [48..<64] = (rmd160_sh ^^ 4) (foldl (rmd160_line block) v [48..<64])"
  "foldl (rmd160_step block) ((rmd160_sh ^^ 4) v) [64..<80] = foldl (rmd160_line block) v [64..<80]"
  using rmd160_rotation [of 0 16 block v] rmd160_rotation [of 16 32 block v] rmd160_rotation [of 32 48 block v]
    rmd160_rotation [of 48 64 block v] rmd160_rotation [of 64 80 block v]
  by (simp_all del: funpow.simps upt_conv_Cons upt_rec_numeral)

lemma rmd160_swaps:
  "rmd160_swap_b ((rmd160_sh ^^ 1) v) = (rmd160_sh ^^ 1) (rmd160_swap_a v)"
  "rmd160_swap_d ((rmd160_sh ^^ 2) v) = (rmd160_sh ^^ 2) (rmd160_swap_b v)"
  "rmd160_swap_a ((rmd160_sh ^^ 3) v) = (rmd160_sh ^^ 3) (rmd160_swap_c v)"
  "rmd160_swap_c ((rmd160_sh ^^ 4) v) = (rmd160_sh ^^ 4) (rmd160_swap_d v)"
  by (cases v rule: rmd160_sh.cases; simp add: rotate_simps)+

lemma ripemd160_agree: "ripemd160_transform config_small = ripemd160_transform False"
  by (cases config_small; intro ext) (simp_all only: ripemd160_transform_def rmd160_parts Let_def if_True if_False)

lemma ripemd320_agree: "ripemd320_transform config_small = ripemd320_transform False"
  by (cases config_small; intro ext) (simp_all only: ripemd320_transform_def rmd160_parts rmd160_swaps Let_def if_True if_False)

section \<open>The transforms are those of the standard\<close>

definition rmd_tables_agree :: "nat \<Rightarrow> bool" where
  "rmd_tables_agree n \<longleftrightarrow> rmd_WA ! n = rmd_left n \<and> rmd_WB ! n = rmd_right n \<and> rmd_left n < 16 \<and> rmd_right n < 16 \<and>
    rmd_shifts ! (n div 16) ! rmd_left n = rmd_ROTA ! n \<and> rmd_shifts ! (n div 16) ! rmd_right n = rmd_ROTB ! n \<and>
    rmd_ROTA ! n < 32 \<and> rmd_ROTB ! n < 32"

lemma rmd_tables: "n < 80 \<Longrightarrow> rmd_tables_agree n"
proof -
  have "list_all rmd_tables_agree [0..<80]" by code_simp
  then show "n < 80 \<Longrightarrow> ?thesis" by (simp add: list_all_iff)
qed

lemma rmd_words_nth: "k < 16 \<Longrightarrow> rmd_words buffer ! k = AV_RL32 buffer (4 * k)"
  by (simp add: rmd_words_def)

lemma rmd_K_values:
  "rmd_K_left 0 = 0" "rmd_K_left (Suc 0) = rmd_KA ! 0" "rmd_K_left 2 = rmd_KA ! 1" "rmd_K_left 3 = rmd_KA ! 2" "rmd_K_left 4 = rmd_KA ! 3"
  "rmd_K_right 0 = rmd_KB ! 0" "rmd_K_right (Suc 0) = rmd_KB ! 1" "rmd_K_right 2 = rmd_KB ! 2" "rmd_K_right 3 = rmd_KB ! 3"
proof -
  have "root_bits 30 2 2 = 0x5a827999" "root_bits 30 2 3 = 0x6ed9eba1" "root_bits 30 2 5 = 0x8f1bbcdc" "root_bits 30 2 7 = 0xa953fd4e"
    "root_bits 30 3 2 = 0x50a28be6" "root_bits 30 3 3 = 0x5c4dd124" "root_bits 30 3 5 = 0x6d703ef3" "root_bits 30 3 7 = 0x7a6d76e9"
    by (rule root_bits_eq, simp add: root_check_def)+
  then show "rmd_K_left 0 = 0" "rmd_K_left (Suc 0) = rmd_KA ! 0" "rmd_K_left 2 = rmd_KA ! 1" "rmd_K_left 3 = rmd_KA ! 2"
    "rmd_K_left 4 = rmd_KA ! 3" "rmd_K_right 0 = rmd_KB ! 0" "rmd_K_right (Suc 0) = rmd_KB ! 1" "rmd_K_right 2 = rmd_KB ! 2"
    "rmd_K_right 3 = rmd_KB ! 3"
    by (simp_all add: rmd_K_left_def rmd_K_right_def rmd_KA_def rmd_KB_def)
qed

lemma rmd_f_forms:
  "rmd_f 0 x y z = x XOR y XOR z" "rmd_f (Suc 0) x y z = ((y XOR z) AND x) XOR z" "rmd_f 2 x y z = (NOT y OR x) XOR z"
  "rmd_f 3 x y z = ((x XOR y) AND z) XOR y" "rmd_f 4 x y z = (NOT z OR y) XOR x"
  by (simp_all add: rmd_f_def) (rule bit_word_eqI, auto simp: bit_simps)+

lemma rmd_rol_rotl: "n < 32 \<Longrightarrow> rmd_rol v n = word_rotl n v"
  by (simp add: rmd_rol_def rotl_shifts)

text \<open>The two lines of the code's variables.\<close>

fun join4 :: "word4 \<times> word4 \<Rightarrow> rmd128_vars" where
  "join4 ((a, b, c, d), (e, f, g, h)) = (a, b, c, d, e, f, g, h)"

fun join5 :: "md_word5 \<times> md_word5 \<Rightarrow> rmd160_vars" where
  "join5 ((a, b, c, d, e), (f, g, h, i, j)) = (a, b, c, d, e, f, g, h, i, j)"

lemma rmd128_step_standard:
  assumes "n < 64"
  shows "rmd128_step (rmd_words buffer) (join4 v) n =
    join4 (rmd128_left (\<lambda>k. AV_RL32 buffer (4 * k)) (fst v) n, rmd128_right (\<lambda>k. AV_RL32 buffer (4 * k)) (snd v) n)"
proof -
  obtain a b c d e f g h where v: "v = ((a, b, c, d), (e, f, g, h))" by (cases v rule: join4.cases)
  define x y s t where "x = AV_RL32 buffer (4 * rmd_left n)" and "y = AV_RL32 buffer (4 * rmd_right n)"
    and "s = rmd_ROTA ! n" and "t = rmd_ROTB ! n"
  have w: "rmd_words buffer ! (rmd_WA ! n) = x" "rmd_words buffer ! (rmd_WB ! n) = y" "s < 32" "t < 32"
    and l: "rmd128_left (\<lambda>k. AV_RL32 buffer (4 * k)) u n = rmd_step4 (rmd_f (n div 16)) (rmd_K_left (n div 16)) x s u"
    and r: "rmd128_right (\<lambda>k. AV_RL32 buffer (4 * k)) u n =
      rmd_step4 (rmd_f (3 - n div 16)) (if n div 16 = 3 then 0 else rmd_K_right (n div 16)) y t u" for u
    using rmd_tables [of n] assms
    by (simp_all add: rmd_tables_agree_def rmd_words_nth rmd128_left_def rmd128_right_def x_def y_def s_def t_def)
  note ROUND = w(1,2) s_def [symmetric] t_def [symmetric] rmd_rol_rotl [OF w(3)] rmd_rol_rotl [OF w(4)]
  consider "n < 16" "n div 16 = 0" | "16 \<le> n" "n < 32" "n div 16 = 1" | "32 \<le> n" "n < 48" "n div 16 = 2"
    | "48 \<le> n" "n < 64" "n div 16 = 3"
    using assms by linarith
  then show ?thesis
    unfolding v l r
    by cases (simp_all add: rmd128_step_def ROUND128_def Let_def ROUND rmd_f_forms rmd_K_values
      add.assoc add.commute add.left_commute)
qed

lemma rmd160_step_standard:
  assumes "n < 80"
  shows "rmd160_step (rmd_words buffer) (join5 v) n =
    join5 (rmd160_left (\<lambda>k. AV_RL32 buffer (4 * k)) (fst v) n, rmd160_right (\<lambda>k. AV_RL32 buffer (4 * k)) (snd v) n)"
proof -
  obtain a b c d e f g h i j where v: "v = ((a, b, c, d, e), (f, g, h, i, j))" by (cases v rule: join5.cases)
  define x y s t where "x = AV_RL32 buffer (4 * rmd_left n)" and "y = AV_RL32 buffer (4 * rmd_right n)"
    and "s = rmd_ROTA ! n" and "t = rmd_ROTB ! n"
  have w: "rmd_words buffer ! (rmd_WA ! n) = x" "rmd_words buffer ! (rmd_WB ! n) = y" "s < 32" "t < 32"
    and l: "rmd160_left (\<lambda>k. AV_RL32 buffer (4 * k)) u n = rmd_step5 (rmd_f (n div 16)) (rmd_K_left (n div 16)) x s u"
    and r: "rmd160_right (\<lambda>k. AV_RL32 buffer (4 * k)) u n =
      rmd_step5 (rmd_f (4 - n div 16)) (if n div 16 = 4 then 0 else rmd_K_right (n div 16)) y t u" for u
    using rmd_tables [of n] assms
    by (simp_all add: rmd_tables_agree_def rmd_words_nth rmd160_left_def rmd160_right_def x_def y_def s_def t_def)
  note ROUND = w(1,2) s_def [symmetric] t_def [symmetric] rmd_rol_rotl [OF w(3)] rmd_rol_rotl [OF w(4)] rmd_rol_rotl [of 10]
  consider "n < 16" "n div 16 = 0" | "16 \<le> n" "n < 32" "n div 16 = 1" | "32 \<le> n" "n < 48" "n div 16 = 2"
    | "48 \<le> n" "n < 64" "n div 16 = 3" | "64 \<le> n" "n < 80" "n div 16 = 4"
    using assms by linarith
  then show ?thesis
    unfolding v l r
    by cases (simp_all add: rmd160_step_def ROUND160_def Let_def ROUND rmd_f_forms rmd_K_values
      add.assoc add.commute add.left_commute)
qed

text \<open>A round of sixteen steps, and the exchanges.\<close>

lemma rmd128_lines:
  "m \<le> 64 \<Longrightarrow> foldl (rmd128_step (rmd_words buffer)) (join4 v) [k..<m] =
    join4 (foldl (rmd128_left (\<lambda>k. AV_RL32 buffer (4 * k))) (fst v) [k..<m], foldl (rmd128_right (\<lambda>k. AV_RL32 buffer (4 * k))) (snd v) [k..<m])"
  by (rule foldl_lines [where J = join4]) (simp add: rmd128_step_standard)

lemma rmd128_round:
  "foldl (rmd128_step (rmd_words buffer)) (join4 v) [0..<16] = join4 (rmd128_pair (\<lambda>k. AV_RL32 buffer (4 * k)) 0 v)"
  "foldl (rmd128_step (rmd_words buffer)) (join4 v) [16..<32] = join4 (rmd128_pair (\<lambda>k. AV_RL32 buffer (4 * k)) 1 v)"
  "foldl (rmd128_step (rmd_words buffer)) (join4 v) [32..<48] = join4 (rmd128_pair (\<lambda>k. AV_RL32 buffer (4 * k)) 2 v)"
  "foldl (rmd128_step (rmd_words buffer)) (join4 v) [48..<64] = join4 (rmd128_pair (\<lambda>k. AV_RL32 buffer (4 * k)) 3 v)"
  by (simp_all add: rmd128_lines rmd128_pair_def del: upt_rec_numeral)

lemma rmd160_lines:
  "m \<le> 80 \<Longrightarrow> foldl (rmd160_step (rmd_words buffer)) (join5 v) [k..<m] =
    join5 (foldl (rmd160_left (\<lambda>k. AV_RL32 buffer (4 * k))) (fst v) [k..<m], foldl (rmd160_right (\<lambda>k. AV_RL32 buffer (4 * k))) (snd v) [k..<m])"
  by (rule foldl_lines [where J = join5]) (simp add: rmd160_step_standard)

lemma rmd160_round:
  "foldl (rmd160_step (rmd_words buffer)) (join5 v) [0..<16] = join5 (rmd160_pair (\<lambda>k. AV_RL32 buffer (4 * k)) 0 v)"
  "foldl (rmd160_step (rmd_words buffer)) (join5 v) [16..<32] = join5 (rmd160_pair (\<lambda>k. AV_RL32 buffer (4 * k)) 1 v)"
  "foldl (rmd160_step (rmd_words buffer)) (join5 v) [32..<48] = join5 (rmd160_pair (\<lambda>k. AV_RL32 buffer (4 * k)) 2 v)"
  "foldl (rmd160_step (rmd_words buffer)) (join5 v) [48..<64] = join5 (rmd160_pair (\<lambda>k. AV_RL32 buffer (4 * k)) 3 v)"
  "foldl (rmd160_step (rmd_words buffer)) (join5 v) [64..<80] = join5 (rmd160_pair (\<lambda>k. AV_RL32 buffer (4 * k)) 4 v)"
  by (simp_all add: rmd160_lines rmd160_pair_def del: upt_rec_numeral)

lemma rmd_exchanges:
  "rmd128_swap_a (join4 v) = join4 (rmd128_exchange 0 v)" "rmd128_swap_b (join4 v) = join4 (rmd128_exchange 1 v)"
  "rmd128_swap_c (join4 v) = join4 (rmd128_exchange 2 v)" "rmd128_swap_d (join4 v) = join4 (rmd128_exchange 3 v)"
  "rmd160_swap_b (join5 w) = join5 (rmd160_exchange 0 w)" "rmd160_swap_d (join5 w) = join5 (rmd160_exchange 1 w)"
  "rmd160_swap_a (join5 w) = join5 (rmd160_exchange 2 w)" "rmd160_swap_c (join5 w) = join5 (rmd160_exchange 3 w)"
  "rmd160_swap_e (join5 w) = join5 (rmd160_exchange 4 w)"
  by (cases v rule: join4.cases; simp)+ (cases w rule: join5.cases; simp)+

text \<open>The compression functions, on the words of the state that they use.\<close>

lemma take_state: "take n v = xs \<Longrightarrow> length xs = n \<Longrightarrow> \<exists>r. v = xs @ r"
  by (metis append_take_drop_id)

lemma ripemd128_standard:
  assumes "take 4 st = md_list4 h"
  shows "take 4 (ripemd128_transform s st buffer) = md_list4 (rmd128_compress h buffer)"
proof -
  obtain a b c d where h: "h = (a, b, c, d)" by (cases h)
  then obtain r where st: "st = [a, b, c, d] @ r" using take_state [OF assms] by auto
  let ?v = "foldl (\<lambda>v r. rmd128_pair (\<lambda>k. AV_RL32 buffer (4 * k)) r v) (h, h) [0, 1, 2, 3]"
  have v: "(a, b, c, d, a, b, c, d) = join4 (h, h)" by (simp add: h)
  have "ripemd128_transform s st buffer = ripemd128_transform True st buffer" by (subst (1 2) ripemd128_agree) simp
  also have "\<dots> = (let (a', b', c', d', e', f', g', h') = join4 ?v
      in st[1 := st ! 2 + d' + e', 2 := st ! 3 + a' + f', 3 := st ! 0 + b' + g', 0 := h' + (c' + st ! 1)])"
    unfolding ripemd128_transform_def Let_def if_True by (simp add: st v rmd128_round del: upt_rec_numeral)
  finally show ?thesis
    by (cases ?v rule: join4.cases) (simp add: rmd128_compress_def st h ac_simps)
qed

lemma ripemd256_standard:
  assumes "take 8 st = md_list4 (fst h) @ md_list4 (snd h)"
  shows "take 8 (ripemd256_transform s st buffer) = md_list4 (fst (rmd256_compress h buffer)) @ md_list4 (snd (rmd256_compress h buffer))"
proof -
  obtain a b c d e f g i where h: "h = ((a, b, c, d), (e, f, g, i))" by (cases h rule: join4.cases)
  then obtain r where st: "st = [a, b, c, d, e, f, g, i] @ r" using take_state [OF assms] by auto
  let ?v = "foldl (\<lambda>v r. rmd128_exchange r (rmd128_pair (\<lambda>k. AV_RL32 buffer (4 * k)) r v)) h [0, 1, 2, 3]"
  have v: "(a, b, c, d, e, f, g, i) = join4 h" by (simp add: h)
  have "ripemd256_transform s st buffer = ripemd256_transform True st buffer" by (subst (1 2) ripemd256_agree) simp
  also have "\<dots> = (let (a', b', c', d', e', f', g', h') = join4 ?v
      in st[0 := st ! 0 + a', 1 := st ! 1 + b', 2 := st ! 2 + c', 3 := st ! 3 + d',
            4 := st ! 4 + e', 5 := st ! 5 + f', 6 := st ! 6 + g', 7 := st ! 7 + h'])"
    unfolding ripemd256_transform_def Let_def if_True by (simp add: st v rmd128_round rmd_exchanges del: upt_rec_numeral)
  finally show ?thesis
    by (cases ?v rule: join4.cases) (simp add: rmd256_compress_def st h ac_simps)
qed

lemma ripemd160_standard:
  assumes "take 5 st = md_list5 h"
  shows "take 5 (ripemd160_transform s st buffer) = md_list5 (rmd160_compress h buffer)"
proof -
  obtain a b c d e where h: "h = (a, b, c, d, e)" by (cases h)
  then obtain r where st: "st = [a, b, c, d, e] @ r" using take_state [OF assms] by auto
  let ?v = "foldl (\<lambda>v r. rmd160_pair (\<lambda>k. AV_RL32 buffer (4 * k)) r v) (h, h) [0, 1, 2, 3, 4]"
  have v: "(a, b, c, d, e, a, b, c, d, e) = join5 (h, h)" by (simp add: h)
  have "ripemd160_transform s st buffer = ripemd160_transform True st buffer" by (subst (1 2) ripemd160_agree) simp
  also have "\<dots> = (let (a', b', c', d', e', f', g', h', i', j') = join5 ?v
      in st[1 := st ! 2 + d' + j', 2 := st ! 3 + e' + f', 3 := st ! 4 + a' + g', 4 := st ! 0 + b' + h', 0 := i' + (c' + st ! 1)])"
    unfolding ripemd160_transform_def Let_def if_True by (simp add: st v rmd160_round del: upt_rec_numeral)
  finally show ?thesis
    by (cases ?v rule: join5.cases) (simp add: rmd160_compress_def st h ac_simps)
qed

lemma ripemd320_standard:
  assumes "take 10 st = md_list5 (fst h) @ md_list5 (snd h)"
  shows "take 10 (ripemd320_transform s st buffer) = md_list5 (fst (rmd320_compress h buffer)) @ md_list5 (snd (rmd320_compress h buffer))"
proof -
  obtain a b c d e f g i j k where h: "h = ((a, b, c, d, e), (f, g, i, j, k))" by (cases h rule: join5.cases)
  then obtain r where st: "st = [a, b, c, d, e, f, g, i, j, k] @ r" using take_state [OF assms] by auto
  let ?v = "foldl (\<lambda>v r. rmd160_exchange r (rmd160_pair (\<lambda>k. AV_RL32 buffer (4 * k)) r v)) h [0, 1, 2, 3, 4]"
  have v: "(a, b, c, d, e, f, g, i, j, k) = join5 h" by (simp add: h)
  have "ripemd320_transform s st buffer = ripemd320_transform True st buffer" by (subst (1 2) ripemd320_agree) simp
  also have "\<dots> = (let (a', b', c', d', e', f', g', h', i', j') = join5 ?v
      in st[0 := st ! 0 + a', 1 := st ! 1 + b', 2 := st ! 2 + c', 3 := st ! 3 + d', 4 := st ! 4 + e',
            5 := st ! 5 + f', 6 := st ! 6 + g', 7 := st ! 7 + h', 8 := st ! 8 + i', 9 := st ! 9 + j'])"
    unfolding ripemd320_transform_def Let_def if_True by (simp add: st v rmd160_round rmd_exchanges del: upt_rec_numeral)
  finally show ?thesis
    by (cases ?v rule: join5.cases) (simp add: rmd320_compress_def st h ac_simps)
qed

section \<open>The context and its functions\<close>

text \<open>The function pointer \<open>transform\<close> is one of four.\<close>

datatype rmd_fn = Rmd128 | Rmd160 | Rmd256 | Rmd320

fun rmd_transform_fn :: "bool \<Rightarrow> rmd_fn \<Rightarrow> u32 list \<Rightarrow> bytes \<Rightarrow> u32 list" where
  "rmd_transform_fn config_small Rmd128 = ripemd128_transform config_small"
| "rmd_transform_fn config_small Rmd160 = ripemd160_transform config_small"
| "rmd_transform_fn config_small Rmd256 = ripemd256_transform config_small"
| "rmd_transform_fn config_small Rmd320 = ripemd320_transform config_small"

record AVRIPEMD =
  rmd_digest_len :: nat
  rmd_count :: u64
  rmd_buffer :: bytes
  rmd_state :: "u32 list"
  rmd_transform :: rmd_fn

text \<open>The zeroed context of \<open>av_ripemd_alloc\<close>.\<close>

definition av_ripemd_alloc :: AVRIPEMD where
  "av_ripemd_alloc = \<lparr>rmd_digest_len = 0, rmd_count = 0, rmd_buffer = replicate 64 0, rmd_state = replicate 10 0,
     rmd_transform = Rmd128\<rparr>"

text \<open>The start values, and the function each length takes.\<close>

definition rmd_init_128 :: "u32 list" where
  "rmd_init_128 = [0x67452301, 0xEFCDAB89, 0x98BADCFE, 0x10325476]"

definition rmd_init_160 :: "u32 list" where
  "rmd_init_160 = [0x67452301, 0xEFCDAB89, 0x98BADCFE, 0x10325476, 0xC3D2E1F0]"

definition rmd_init_256 :: "u32 list" where
  "rmd_init_256 = [0x67452301, 0xEFCDAB89, 0x98BADCFE, 0x10325476, 0x76543210, 0xFEDCBA98, 0x89ABCDEF, 0x01234567]"

definition rmd_init_320 :: "u32 list" where
  "rmd_init_320 = [0x67452301, 0xEFCDAB89, 0x98BADCFE, 0x10325476, 0xC3D2E1F0,
                   0x76543210, 0xFEDCBA98, 0x89ABCDEF, 0x01234567, 0x3C2D1E0F]"

text \<open>The assignments of one case of the switch: the first words of the state, the function, the count.\<close>

definition rmd_set :: "AVRIPEMD \<Rightarrow> u32 list \<Rightarrow> rmd_fn \<Rightarrow> AVRIPEMD" where
  "rmd_set ctx h f = ctx\<lparr>rmd_state := h @ drop (length h) (rmd_state ctx), rmd_transform := f, rmd_count := 0\<rparr>"

text \<open>The return value and the context, which the error path has changed too: \<open>digest_len\<close> is set first.\<close>

definition av_ripemd_init :: "AVRIPEMD \<Rightarrow> int \<Rightarrow> averror option \<times> AVRIPEMD" where
  "av_ripemd_init ctx bits =
     (let ctx = ctx\<lparr>rmd_digest_len := nat (bits div 32 mod 256)\<rparr>
      in if bits = 128 then (None, rmd_set ctx rmd_init_128 Rmd128)
         else if bits = 160 then (None, rmd_set ctx rmd_init_160 Rmd160)
         else if bits = 256 then (None, rmd_set ctx rmd_init_256 Rmd256)
         else if bits = 320 then (None, rmd_set ctx rmd_init_320 Rmd320)
         else (Some EINVAL, ctx))"

definition av_ripemd_update :: "bool \<Rightarrow> AVRIPEMD \<Rightarrow> bytes \<Rightarrow> AVRIPEMD" where
  "av_ripemd_update config_small ctx data =
     (let j = unat (rmd_count ctx AND 63);
          ctx = ctx\<lparr>rmd_count := rmd_count ctx + of_nat (length data)\<rparr>;
          (state, buffer) = buffer_update config_small 64 (rmd_transform_fn config_small (rmd_transform ctx))
            (rmd_state ctx) (rmd_buffer ctx) j data
      in ctx\<lparr>rmd_state := state, rmd_buffer := buffer\<rparr>)"

text \<open>The digest, and the context as it is left.\<close>

definition av_ripemd_final :: "bool \<Rightarrow> AVRIPEMD \<Rightarrow> bytes \<times> AVRIPEMD" where
  "av_ripemd_final config_small ctx =
     (let finalcount = AV_WL64 (shl (rmd_count ctx) 3);
          ctx = av_ripemd_update config_small ctx [0x80];
          ctx = pad_loop rmd_count (av_ripemd_update config_small) 63 56 ctx;
          ctx = av_ripemd_update config_small ctx finalcount
      in (concat (map (\<lambda>i. AV_WL32 (rmd_state ctx ! i)) [0..<rmd_digest_len ctx]), ctx))"

section \<open>The context is a view of the message\<close>

definition rmd_ok :: "AVRIPEMD \<Rightarrow> bool" where
  "rmd_ok c \<longleftrightarrow> length (rmd_buffer c) = 64"

definition rmd_out :: "nat \<Rightarrow> u32 list \<Rightarrow> bytes" where
  "rmd_out n v = concat (map (\<lambda>i. AV_WL32 (v ! i)) [0..<n])"

lemma rmd_transform_fn_agree: "rmd_transform_fn config_small f = rmd_transform_fn False f"
  by (cases f) (simp_all add: ripemd128_agree [of config_small] ripemd160_agree [of config_small]
    ripemd256_agree [of config_small] ripemd320_agree [of config_small])

lemma rmd_update_frame [simp]:
  "rmd_count (av_ripemd_update s c d) = rmd_count c + of_nat (length d)"
  "rmd_transform (av_ripemd_update s c d) = rmd_transform c"
  "rmd_digest_len (av_ripemd_update s c d) = rmd_digest_len c"
  by (simp_all add: av_ripemd_update_def Let_def split: prod.split)

interpretation ripemd: md_hash 64 rmd_ok "\<lambda>c. rmd_transform_fn False (rmd_transform c)" rmd_state rmd_buffer
  rmd_count "av_ripemd_update s" "\<lambda>v. [AV_WL64 v]" "\<lambda>c. rmd_out (rmd_digest_len c)" "av_ripemd_final s" for s
proof unfold_locales
  fix c and d :: bytes
  assume "rmd_ok c"
  then have c: "length (rmd_buffer c) = 64" "unat (rmd_count c) mod 64 < 64" by (simp_all add: rmd_ok_def)
  note u = buffer_update_absorb [OF c refl, where config_small = s and tr = "rmd_transform_fn s (rmd_transform c)" and
    st = "rmd_state c" and data = d]
  then show "rmd_ok (av_ripemd_update s c d)"
    by (simp add: rmd_ok_def av_ripemd_update_def Let_def split_def unat_and_63)
  show "absorb 64 (rmd_transform_fn False (rmd_transform c)) (rmd_state c)
      (take (unat (rmd_count c) mod 64) (rmd_buffer c) @ d) =
    (rmd_state (av_ripemd_update s c d),
     take (unat (rmd_count c + of_nat (length d)) mod 64) (rmd_buffer (av_ripemd_update s c d)))"
    using u unfolding unat_add_mod rmd_transform_fn_agree [of s]
    by (simp add: av_ripemd_update_def Let_def split_def unat_and_63 rmd_transform_fn_agree [of s])
next
  show "av_ripemd_final s c = (let c' = foldl (av_ripemd_update s) (pad_loop rmd_count (av_ripemd_update s) (of_nat (64 - 1))
      (of_nat (64 - length (concat [AV_WL64 0]))) (av_ripemd_update s c [0x80])) [AV_WL64 (shl (rmd_count c) 3)]
    in (rmd_out (rmd_digest_len c') (rmd_state c'), c'))" for c
    by (simp add: av_ripemd_final_def Let_def rmd_out_def)
qed (auto simp: rmd_ok_def)

section \<open>Properties\<close>

text \<open>The start values are those of the standard, and the digest is the words of the state.\<close>

lemma rmd_inits:
  "rmd_init_128 = md_list4 (md_first4 rmd_IV)" "rmd_init_160 = md_list5 rmd_IV"
  "rmd_init_256 = md_list4 (md_first4 rmd_IV) @ md_list4 (md_first4 rmd_IV')" "rmd_init_320 = md_list5 rmd_IV @ md_list5 rmd_IV'"
  by (simp_all add: rmd_init_128_def rmd_init_160_def rmd_init_256_def rmd_init_320_def rmd_IV_def rmd_IV'_def)

lemma length_md_lists: "length (md_list4 x) = 4" "length (md_list5 y) = 5"
  by (cases x, simp) (cases y, simp)

lemma rmd_out_words: "take n v = ws \<Longrightarrow> length ws = n \<Longrightarrow> rmd_out n v = concat (map AV_WL32 ws)"
  unfolding rmd_out_def by (rule arg_cong [of _ _ concat], rule nth_equalityI) auto

lemma rmd_absorb:
  "rmd_out 4 (fst (absorb 64 (ripemd128_transform False) (rmd_init_128 @ r) (md_pad 64 AV_WL64 m))) = ripemd_hash 128 m"
  "rmd_out 5 (fst (absorb 64 (ripemd160_transform False) (rmd_init_160 @ r) (md_pad 64 AV_WL64 m))) = ripemd_hash 160 m"
  "rmd_out 8 (fst (absorb 64 (ripemd256_transform False) (rmd_init_256 @ r) (md_pad 64 AV_WL64 m))) = ripemd_hash 256 m"
  "rmd_out 10 (fst (absorb 64 (ripemd320_transform False) (rmd_init_320 @ r) (md_pad 64 AV_WL64 m))) = ripemd_hash 320 m"
proof -
  let ?b = "md_pad 64 AV_WL64 m"
  have "take 4 (fst (absorb 64 (ripemd128_transform False) (rmd_init_128 @ r) ?b)) =
      md_list4 (fst (absorb 64 rmd128_compress (md_first4 rmd_IV) ?b))"
    by (rule absorb_related [where R = "\<lambda>v h. take 4 v = md_list4 h"])
      (simp_all add: rmd_inits length_md_lists ripemd128_standard)
  then show "rmd_out 4 (fst (absorb 64 (ripemd128_transform False) (rmd_init_128 @ r) ?b)) = ripemd_hash 128 m"
    by (simp add: rmd_out_words length_md_lists ripemd_hash_def)
  have "take 5 (fst (absorb 64 (ripemd160_transform False) (rmd_init_160 @ r) ?b)) =
      md_list5 (fst (absorb 64 rmd160_compress rmd_IV ?b))"
    by (rule absorb_related [where R = "\<lambda>v h. take 5 v = md_list5 h"])
      (simp_all add: rmd_inits length_md_lists ripemd160_standard)
  then show "rmd_out 5 (fst (absorb 64 (ripemd160_transform False) (rmd_init_160 @ r) ?b)) = ripemd_hash 160 m"
    by (simp add: rmd_out_words length_md_lists ripemd_hash_def)
  have "take 8 (fst (absorb 64 (ripemd256_transform False) (rmd_init_256 @ r) ?b)) =
      md_list4 (fst (fst (absorb 64 rmd256_compress (md_first4 rmd_IV, md_first4 rmd_IV') ?b))) @
      md_list4 (snd (fst (absorb 64 rmd256_compress (md_first4 rmd_IV, md_first4 rmd_IV') ?b)))"
    by (rule absorb_related [where R = "\<lambda>v h. take 8 v = md_list4 (fst h) @ md_list4 (snd h)"])
      (simp_all add: rmd_inits length_md_lists ripemd256_standard)
  then show "rmd_out 8 (fst (absorb 64 (ripemd256_transform False) (rmd_init_256 @ r) ?b)) = ripemd_hash 256 m"
    by (simp add: rmd_out_words length_md_lists ripemd_hash_def split_def Let_def)
  have "take 10 (fst (absorb 64 (ripemd320_transform False) (rmd_init_320 @ r) ?b)) =
      md_list5 (fst (fst (absorb 64 rmd320_compress (rmd_IV, rmd_IV') ?b))) @ md_list5 (snd (fst (absorb 64 rmd320_compress (rmd_IV, rmd_IV') ?b)))"
    by (rule absorb_related [where R = "\<lambda>v h. take 10 v = md_list5 (fst h) @ md_list5 (snd h)"])
      (simp_all add: rmd_inits length_md_lists ripemd320_standard)
  then show "rmd_out 10 (fst (absorb 64 (ripemd320_transform False) (rmd_init_320 @ r) ?b)) = ripemd_hash 320 m"
    by (simp add: rmd_out_words length_md_lists ripemd_hash_def split_def Let_def)
qed

lemma rmd_digest:
  assumes "rmd_ok c" and "\<forall>d\<in>set ds. small d" and "bits \<in> {128, 160, 256, 320}"
  defines "c' \<equiv> snd (av_ripemd_init c bits)"
  shows "fst (av_ripemd_final s (foldl (av_ripemd_update s) c' ds)) = ripemd_hash bits (concat ds)"
    and "rmd_ok (snd (av_ripemd_final s (foldl (av_ripemd_update s) c' ds)))"
proof -
  have d: "fst (av_ripemd_final s (foldl (av_ripemd_update s) c' ds)) = rmd_out (rmd_digest_len c')
      (fst (absorb 64 (rmd_transform_fn False (rmd_transform c')) (rmd_state c') (md_pad 64 AV_WL64 (concat ds))))"
    if "rmd_ok c'" "rmd_count c' = 0" for c'
    using ripemd.digest_pieces(1) [OF that assms(2), of s] by simp
  show "fst (av_ripemd_final s (foldl (av_ripemd_update s) c' ds)) = ripemd_hash bits (concat ds)"
    unfolding c'_def using assms(1,3)
    by (auto simp: av_ripemd_init_def rmd_set_def Let_def d rmd_ok_def rmd_absorb)
  have "rmd_ok c'" "rmd_count c' = 0"
    using assms(1,3) by (auto simp: c'_def av_ripemd_init_def rmd_set_def Let_def rmd_ok_def)
  then show "rmd_ok (snd (av_ripemd_final s (foldl (av_ripemd_update s) c' ds)))"
    using assms(2) by (rule ripemd.digest_pieces(2))
qed

text \<open>For the four digest lengths \<open>av_ripemd_init\<close> accepts, updating the context with any pieces of a
  message and finishing gives the RIPEMD digest of the whole message as its authors define it, in both configurations; other lengths are refused.\<close>

theorem av_ripemd_correct:
  assumes "length (rmd_buffer c) = 64" and "\<forall>d\<in>set ds. length d < 2 ^ 31"
  shows "case av_ripemd_init c bits of
      (None, c') \<Rightarrow> bits \<in> {128, 160, 256, 320} \<and>
        fst (av_ripemd_final s (foldl (av_ripemd_update s) c' ds)) = ripemd_hash bits (concat ds)
    | (Some e, c') \<Rightarrow> e = EINVAL \<and> bits \<notin> {128, 160, 256, 320}"
  using rmd_digest [of c ds bits s] assms
  by (auto simp: av_ripemd_init_def rmd_ok_def small_def Let_def)

theorem av_ripemd_correct_witness:
  "fst (av_ripemd_final False (foldl (av_ripemd_update False) (snd (av_ripemd_init av_ripemd_alloc 320)) [[97, 98], [99]])) =
   ripemd_hash 320 [97, 98, 99]"
  using av_ripemd_correct [of av_ripemd_alloc "[[97, 98], [99]]" 320 False]
  by (simp add: av_ripemd_alloc_def av_ripemd_init_def rmd_set_def Let_def)

end
