(* ===== verification/AvMd5.thy ===== *)
theory AvMd5 imports MdStandard
begin

text \<open>
  \<open>libavutil/md5.c\<close>: the compression loop rolled and unrolled, the context and its functions. The
  digest is that of RFC 1321 (\<open>MdStandard\<close>), however the message is cut into calls.
\<close>

section \<open>Tables and rounds\<close>

definition md5_S :: "nat list list" where
  "md5_S = [[7, 12, 17, 22], [5, 9, 14, 20], [4, 11, 16, 23], [6, 10, 15, 21]]"

definition md5_T :: "u32 list" where
  "md5_T =
     [0xd76aa478, 0xe8c7b756, 0x242070db, 0xc1bdceee, 0xf57c0faf, 0x4787c62a, 0xa8304613, 0xfd469501,
      0x698098d8, 0x8b44f7af, 0xffff5bb1, 0x895cd7be, 0x6b901122, 0xfd987193, 0xa679438e, 0x49b40821,
      0xf61e2562, 0xc040b340, 0x265e5a51, 0xe9b6c7aa, 0xd62f105d, 0x02441453, 0xd8a1e681, 0xe7d3fbc8,
      0x21e1cde6, 0xc33707d6, 0xf4d50d87, 0x455a14ed, 0xa9e3e905, 0xfcefa3f8, 0x676f02d9, 0x8d2a4c8a,
      0xfffa3942, 0x8771f681, 0x6d9d6122, 0xfde5380c, 0xa4beea44, 0x4bdecfa9, 0xf6bb4b60, 0xbebfbc70,
      0x289b7ec6, 0xeaa127fa, 0xd4ef3085, 0x04881d05, 0xd9d4d039, 0xe6db99e5, 0x1fa27cf8, 0xc4ac5665,
      0xf4292244, 0x432aff97, 0xab9423a7, 0xfc93a039, 0x655b59c3, 0x8f0ccc92, 0xffeff47d, 0x85845dd1,
      0x6fa87e4f, 0xfe2ce6e0, 0xa3014314, 0x4e0811a1, 0xf7537e82, 0xbd3af235, 0x2ad7d2bb, 0xeb86d391]"

text \<open>The macro \<open>CORE(i, a, b, c, d)\<close>: the value it gives \<open>a\<close>.\<close>

definition md5_CORE :: "bytes \<Rightarrow> nat \<Rightarrow> u32 \<Rightarrow> u32 \<Rightarrow> u32 \<Rightarrow> u32 \<Rightarrow> u32" where
  "md5_CORE X i a b c d =
     (let t = md5_S ! (i div 16) ! (i mod 4);
          a = a + md5_T ! i;
          a = (if i < 32 then
                 if i < 16 then a + ((d XOR (b AND (c XOR d))) + AV_RL32 X (4 * (i mod 16)))
                 else a + (((d AND b) OR (NOT d AND c)) + AV_RL32 X (4 * ((1 + 5 * i) mod 16)))
               else
                 if i < 48 then a + ((b XOR c XOR d) + AV_RL32 X (4 * ((5 + 3 * i) mod 16)))
                 else a + ((c XOR (b OR NOT d)) + AV_RL32 X (4 * ((7 * i) mod 16))))
      in b + (shl a t OR shr a (32 - t)))"

type_synonym abcd = "u32 \<times> u32 \<times> u32 \<times> u32"

text \<open>A turn of the loop of \<open>CONFIG_SMALL\<close>, and the four lines of \<open>CORE2\<close>.\<close>

fun md5_step :: "bytes \<Rightarrow> abcd \<Rightarrow> nat \<Rightarrow> abcd" where
  "md5_step X (a, b, c, d) i =
     (let a = md5_CORE X i a b c d;
          t = d; d = c; c = b; b = a; a = t
      in (a, b, c, d))"

fun md5_CORE2 :: "bytes \<Rightarrow> abcd \<Rightarrow> nat \<Rightarrow> abcd" where
  "md5_CORE2 X (a, b, c, d) i =
     (let a = md5_CORE X i a b c d;
          d = md5_CORE X (i + 1) d a b c;
          c = md5_CORE X (i + 2) c d a b;
          b = md5_CORE X (i + 3) b c d a
      in (a, b, c, d))"

text \<open>One block, in the two configurations; \<open>ABCD\<close> holds the four words.\<close>

definition md5_loop :: "bool \<Rightarrow> bytes \<Rightarrow> abcd \<Rightarrow> abcd" where
  "md5_loop config_small X v =
     (if config_small then foldl (md5_step X) v [0..<64]
      else foldl (md5_CORE2 X) v [0, 4, 8, 12, 16, 20, 24, 28, 32, 36, 40, 44, 48, 52, 56, 60])"

definition md5_block :: "bool \<Rightarrow> u32 list \<Rightarrow> bytes \<Rightarrow> u32 list" where
  "md5_block config_small ABCD X =
     (let (a, b, c, d) = md5_loop config_small X (ABCD ! 3, ABCD ! 2, ABCD ! 1, ABCD ! 0)
      in [ABCD ! 0 + d, ABCD ! 1 + c, ABCD ! 2 + b, ABCD ! 3 + a])"

definition md5_body :: "bool \<Rightarrow> u32 list \<Rightarrow> bytes \<Rightarrow> nat \<Rightarrow> u32 list" where
  "md5_body config_small ABCD src nblocks =
     foldl (\<lambda>ABCD n. md5_block config_small ABCD (take 64 (drop (n * 64) src))) ABCD [0..<nblocks]"

section \<open>The context and its functions\<close>

record AVMD5 =
  md5_len :: u64
  md5_buf :: bytes
  md5_ABCD :: "u32 list"

text \<open>The zeroed context of \<open>av_md5_alloc\<close>.\<close>

definition av_md5_alloc :: AVMD5 where
  "av_md5_alloc = \<lparr>md5_len = 0, md5_buf = replicate 64 0, md5_ABCD = replicate 4 0\<rparr>"

definition av_md5_init :: "AVMD5 \<Rightarrow> AVMD5" where
  "av_md5_init ctx = ctx\<lparr>md5_len := 0, md5_ABCD := [0x10325476, 0x98badcfe, 0xefcdab89, 0x67452301]\<rparr>"

text \<open>\<open>while (src < end)\<close>, block by block through the buffer, when the host wants aligned words.\<close>

definition md5_copy_blocks :: "bool \<Rightarrow> AVMD5 \<Rightarrow> bytes \<Rightarrow> nat \<Rightarrow> AVMD5" where
  "md5_copy_blocks config_small ctx src n =
     foldl (\<lambda>ctx i. let block = take 64 (drop (i * 64) src)
                    in ctx\<lparr>md5_buf := block, md5_ABCD := md5_body config_small (md5_ABCD ctx) block 1\<rparr>) ctx [0..<n]"

text \<open>The part after the buffer is empty. \<open>unaligned\<close> is the test \<open>!HAVE_FAST_UNALIGNED && (src & 3)\<close>.\<close>

definition md5_update_blocks :: "bool \<Rightarrow> bool \<Rightarrow> AVMD5 \<Rightarrow> bytes \<Rightarrow> AVMD5" where
  "md5_update_blocks config_small unaligned ctx src =
     (let nblocks = length src div 64;
          ctx = (if unaligned then md5_copy_blocks config_small ctx src nblocks
                 else ctx\<lparr>md5_ABCD := md5_body config_small (md5_ABCD ctx) src nblocks\<rparr>);
          src = drop (nblocks * 64) src
      in if 0 < length src then ctx\<lparr>md5_buf := src @ drop (length src) (md5_buf ctx)\<rparr> else ctx)"

definition av_md5_update :: "bool \<Rightarrow> bool \<Rightarrow> AVMD5 \<Rightarrow> bytes \<Rightarrow> AVMD5" where
  "av_md5_update config_small unaligned ctx src =
     (let j = unat (md5_len ctx AND 63);
          ctx = ctx\<lparr>md5_len := md5_len ctx + of_nat (length src)\<rparr>
      in if j \<noteq> 0 then
           let cnt = min (length src) (64 - j);
               ctx = ctx\<lparr>md5_buf := take j (md5_buf ctx) @ take cnt src @ drop (j + cnt) (md5_buf ctx)\<rparr>;
               src = drop cnt src
           in if j + cnt < 64 then ctx
              else md5_update_blocks config_small unaligned
                     (ctx\<lparr>md5_ABCD := md5_body config_small (md5_ABCD ctx) (md5_buf ctx) 1\<rparr>) src
         else md5_update_blocks config_small unaligned ctx src)"

text \<open>The digest, and the context as it is left.\<close>

definition av_md5_final :: "bool \<Rightarrow> bool \<Rightarrow> AVMD5 \<Rightarrow> bytes \<times> AVMD5" where
  "av_md5_final config_small unaligned ctx =
     (let finalcount = AV_WL64 (shl (md5_len ctx) 3);
          ctx = av_md5_update config_small unaligned ctx [0x80];
          ctx = pad_loop md5_len (av_md5_update config_small unaligned) 63 56 ctx;
          ctx = av_md5_update config_small unaligned ctx finalcount
      in (concat (map (\<lambda>i. AV_WL32 (md5_ABCD ctx ! (3 - i))) [0..<4]), ctx))"

definition av_md5_sum :: "bool \<Rightarrow> bool \<Rightarrow> bytes \<Rightarrow> bytes" where
  "av_md5_sum config_small unaligned src =
     fst (av_md5_final config_small unaligned
       (av_md5_update config_small unaligned (av_md5_init av_md5_alloc) src))"

section \<open>The two loops compute the same\<close>

lemma md5_step_4: "foldl (md5_step X) v [i, i + 1, i + 2, i + 3] = md5_CORE2 X v i"
  by (cases v) (simp add: Let_def)

lemma md5_loop_agree: "md5_loop config_small X v = md5_loop False X v"
proof -
  let ?is = "[0, 4, 8, 12, 16, 20, 24, 28, 32, 36, 40, 44, 48, 52, 56, 60 :: nat]"
  have "[0..<64] = concat (map (\<lambda>i. [i, i + 1, i + 2, i + 3]) ?is)" by code_simp
  then have "foldl (md5_step X) v [0..<64] = foldl (\<lambda>v i. foldl (md5_step X) v [i, i + 1, i + 2, i + 3]) v ?is"
    by (simp only: foldl_concat_map)
  then show ?thesis by (cases config_small) (simp_all only: md5_loop_def md5_step_4 if_True if_False)
qed

lemma md5_block_agree: "md5_block config_small = md5_block False"
  by (intro ext) (simp only: md5_block_def md5_loop_agree [of config_small])

section \<open>The block function is that of the standard\<close>

lemma md5_T_sines: "i < 64 \<Longrightarrow> of_nat (sine_bits (i + 1)) = md5_T ! i"
proof -
  have "sine_table (cis_point 0) (map uint md5_T)"
    by code_simp
  moreover have "length md5_T = 64" by (simp add: md5_T_def)
  moreover assume "i < 64"
  ultimately have "int (sine_bits (0 + i + 1)) = uint (md5_T ! i)" using sine_table_nth [of 0 "map uint md5_T" i] by simp
  then have "word_of_int (int (sine_bits (0 + i + 1))) = md5_T ! i" by (simp only: word_of_int_uint)
  then show ?thesis by simp
qed

lemma md5_orders:
  "i < 64 \<Longrightarrow> md5_S ! (i div 16) ! (i mod 4) = rfc_s ! (4 * (i div 16) + i mod 4) \<and>
    rfc_s ! (4 * (i div 16) + i mod 4) < 32 \<and>
    rfc_k ! i = (if i < 16 then i mod 16 else if i < 32 then (1 + 5 * i) mod 16
      else if i < 48 then (5 + 3 * i) mod 16 else (7 * i) mod 16)"
proof -
  have "list_all (\<lambda>i. md5_S ! (i div 16) ! (i mod 4) = rfc_s ! (4 * (i div 16) + i mod 4) \<and>
    rfc_s ! (4 * (i div 16) + i mod 4) < 32 \<and>
    rfc_k ! i = (if i < 16 then i mod 16 else if i < 32 then (1 + 5 * i) mod 16
      else if i < 48 then (5 + 3 * i) mod 16 else (7 * i) mod 16)) [0..<64]" by code_simp
  then show "i < 64 \<Longrightarrow> ?thesis" by (simp only: list_all_iff set_upt atLeastLessThan_iff le0 simp_thms)
qed

lemma rfc_F_forms:
  "rfc_F 0 x y z = z XOR (x AND (y XOR z))" "rfc_F (Suc 0) x y z = (z AND x) OR (NOT z AND y)"
  "rfc_F 2 x y z = x XOR y XOR z" "rfc_F 3 x y z = y XOR (x OR NOT z)"
  by (simp_all add: rfc_F_def) (rule bit_word_eqI, auto simp: bit_simps)+

lemma md5_step_standard:
  assumes "i < 64"
  shows "md5_step X v i = rfc_md5_step (\<lambda>k. AV_RL32 X (4 * k)) v i"
proof -
  obtain a b c d where v: "v = (a, b, c, d)" by (cases v)
  define s where "s = rfc_s ! (4 * (i div 16) + i mod 4)"
  define T where "T = md5_T ! i"
  have o: "md5_S ! (i div 16) ! (i mod 4) = s" "s < 32"
    "rfc_k ! i = (if i < 16 then i mod 16 else if i < 32 then (1 + 5 * i) mod 16
      else if i < 48 then (5 + 3 * i) mod 16 else (7 * i) mod 16)"
    using md5_orders [OF assms] by (simp_all only: s_def)
  have rot: "word_rotl s x = shl x s OR shr x (32 - s)" for x :: u32
    using o(2) by (simp add: rotl_shifts)
  consider "i < 16" | "16 \<le> i" "i < 32" | "32 \<le> i" "i < 48" | "48 \<le> i" "i < 64" using assms by linarith
  then have "md5_CORE X i a b c d = b + word_rotl s (a + rfc_F (i div 16) b c d + AV_RL32 X (4 * (rfc_k ! i)) + T)"
  proof cases
    case 1
    then have "i div 16 = 0" by simp
    with 1 show ?thesis unfolding md5_CORE_def Let_def o rot rfc_F_forms T_def by (simp add: rfc_F_forms ac_simps)
  next
    case 2
    then have "i div 16 = 1" by simp
    with 2 show ?thesis unfolding md5_CORE_def Let_def o rot rfc_F_forms T_def by (simp add: rfc_F_forms ac_simps)
  next
    case 3
    then have "i div 16 = 2" by presburger
    with 3 show ?thesis unfolding md5_CORE_def Let_def o rot rfc_F_forms T_def by (simp add: rfc_F_forms ac_simps)
  next
    case 4
    then have "i div 16 = 3" by presburger
    with 4 show ?thesis unfolding md5_CORE_def Let_def o rot rfc_F_forms T_def by (simp add: rfc_F_forms ac_simps)
  qed
  then show ?thesis by (simp only: v md5_step.simps rfc_md5_step.simps Let_def s_def T_def md5_T_sines [OF assms])
qed

lemma md5_block_standard:
  assumes "v = rev (md_list4 h)"
  shows "md5_block s v X = rev (md_list4 (rfc_md5_block h X))"
proof -
  obtain a b c d where h: "h = (a, b, c, d)" by (cases h)
  have "md5_loop s X (a, b, c, d) = md5_loop True X (a, b, c, d)"
    by (subst (1 2) md5_loop_agree) (rule refl)
  also have "\<dots> = foldl (md5_step X) (a, b, c, d) [0..<64]" by (simp only: md5_loop_def if_True)
  also have "\<dots> = foldl (rfc_md5_step (\<lambda>k. AV_RL32 X (4 * k))) (a, b, c, d) [0..<64]"
    by (intro foldl_cong refl) (simp add: md5_step_standard)
  finally show ?thesis
    by (cases "foldl (rfc_md5_step (\<lambda>k. AV_RL32 X (4 * k))) (a, b, c, d) [0..<64]" rule: md_list4.cases)
      (simp add: md5_block_def rfc_md5_block_def h assms add.commute del: upt_rec_numeral)
qed

section \<open>The context is a view of the message\<close>

definition md5_ok :: "AVMD5 \<Rightarrow> bool" where
  "md5_ok c \<longleftrightarrow> length (md5_buf c) = 64"

lemma md5_body_absorb:
  "absorb 64 (md5_block s) st m = (md5_body s st m (length m div 64), drop (length m div 64 * 64) m)"
  by (simp add: absorb_foldl md5_body_def)

lemma md5_body_1 [simp]: "length b = 64 \<Longrightarrow> md5_body s st b (Suc 0) = md5_block s st b"
  by (simp add: md5_body_def)

lemma md5_copy_blocks_eq:
  "n * 64 \<le> length src \<Longrightarrow> md5_ABCD (md5_copy_blocks s c src n) = md5_body s (md5_ABCD c) src n \<and>
   md5_len (md5_copy_blocks s c src n) = md5_len c \<and>
   (length (md5_buf c) = 64 \<longrightarrow> length (md5_buf (md5_copy_blocks s c src n)) = 64)"
  by (induction n) (simp_all add: md5_copy_blocks_def md5_body_def Let_def)

lemma md5_update_blocks_view:
  fixes s u :: bool and c :: AVMD5 and src :: bytes
  assumes "length (md5_buf c) = 64"
  defines "c' \<equiv> md5_update_blocks s u c src"
  shows "length (md5_buf c') = 64 \<and> md5_len c' = md5_len c \<and>
    absorb 64 (md5_block s) (md5_ABCD c) src = (md5_ABCD c', take (length src mod 64) (md5_buf c'))"
proof -
  have l: "length src - length src div 64 * 64 = length src mod 64"
    by (simp add: minus_div_mult_eq_mod)
  have k: "length src div 64 * 64 \<le> length src" by simp
  have z: "length src \<le> length src div 64 * 64 \<Longrightarrow> length src mod 64 = 0" using l by simp
  show ?thesis
    using assms md5_copy_blocks_eq [OF k, of s c]
    by (cases u) (auto simp: c'_def md5_update_blocks_def Let_def md5_body_absorb l z)
qed

text \<open>Every call of \<open>av_md5_update\<close> does to the context what the list of bytes says.\<close>

lemma md5_update_view:
  fixes s u :: bool and c :: AVMD5 and src :: bytes
  assumes c: "length (md5_buf c) = 64"
  defines "c' \<equiv> av_md5_update s u c src" and "j \<equiv> unat (md5_len c) mod 64"
  shows "length (md5_buf c') = 64 \<and> md5_len c' = md5_len c + of_nat (length src) \<and>
    absorb 64 (md5_block s) (md5_ABCD c) (take j (md5_buf c) @ src) =
      (md5_ABCD c', take ((j + length src) mod 64) (md5_buf c'))"
proof -
  let ?c = "c\<lparr>md5_len := md5_len c + of_nat (length src)\<rparr>"
  have j: "unat (md5_len c AND 63) = j" "j < 64" by (simp_all add: unat_and_63 j_def)
  consider "j = 0" | "j \<noteq> 0" "j + length src < 64" | "j \<noteq> 0" "64 \<le> j + length src" by linarith
  then show ?thesis
  proof cases
    case 1
    then show ?thesis
      using md5_update_blocks_view [of ?c s u src] c j unfolding c'_def by (simp add: av_md5_update_def Let_def)
  next
    case 2
    then show ?thesis using c j unfolding c'_def
      by (simp add: av_md5_update_def Let_def absorb_short)
  next
    case 3
    let ?b = "take j (md5_buf c) @ take (64 - j) src" and ?r = "drop (64 - j) src"
    let ?d = "?c\<lparr>md5_buf := ?b, md5_ABCD := md5_block s (md5_ABCD c) ?b\<rparr>"
    have b: "length ?b = 64" using c 3 j(2) by simp
    have "take j (md5_buf c) @ src = ?b @ ?r" by simp
    then have "absorb 64 (md5_block s) (md5_ABCD c) (take j (md5_buf c) @ src) =
        absorb 64 (md5_block s) (md5_block s (md5_ABCD c) ?b) ?r"
      using absorb_block [of 64 ?b "md5_block s" "md5_ABCD c" ?r] b by simp
    moreover have "c' = md5_update_blocks s u ?d ?r"
      using 3 c j md5_body_1 [OF b, of s] unfolding c'_def by (simp add: av_md5_update_def Let_def)
    moreover have "length ?r mod 64 = (j + length src) mod 64"
      using 3 j(2) le_mod_geq [of 64 "j + length src"] by (simp add: add.commute)
    ultimately show ?thesis
      using md5_update_blocks_view [of ?d s u ?r] b by simp
  qed
qed

text \<open>The digest of a value.\<close>

definition md5_out :: "u32 list \<Rightarrow> bytes" where
  "md5_out v = concat (map (\<lambda>i. AV_WL32 (v ! (3 - i))) [0..<4])"

interpretation md5: md_hash 64 md5_ok "\<lambda>_. md5_block False" md5_ABCD md5_buf md5_len "av_md5_update s u"
  "\<lambda>v. [AV_WL64 v]" "\<lambda>_. md5_out" "av_md5_final s u" for s u
proof unfold_locales
  fix c and d :: bytes
  assume "md5_ok c"
  then have c: "length (md5_buf c) = 64" by (simp add: md5_ok_def)
  show "md5_ok (av_md5_update s u c d)"
    "absorb 64 (md5_block False) (md5_ABCD c) (take (unat (md5_len c) mod 64) (md5_buf c) @ d) =
     (md5_ABCD (av_md5_update s u c d),
      take (unat (md5_len c + of_nat (length d)) mod 64) (md5_buf (av_md5_update s u c d)))"
    using md5_update_view [OF c, of s u d] unfolding unat_add_mod md5_block_agree [of s] by (simp_all add: md5_ok_def)
next
  show "av_md5_final s u c = (let c' = foldl (av_md5_update s u) (pad_loop md5_len (av_md5_update s u) (of_nat (64 - 1))
      (of_nat (64 - length (concat [AV_WL64 0]))) (av_md5_update s u c [0x80])) [AV_WL64 (shl (md5_len c) 3)]
    in (md5_out (md5_ABCD c'), c'))" for c
    by (simp add: av_md5_final_def md5_out_def Let_def)
  show "md5_len (av_md5_update s u c d) = md5_len c + of_nat (length d)" for c and d :: bytes
    by (simp add: av_md5_update_def md5_update_blocks_def Let_def md5_copy_blocks_eq)
qed (auto simp: md5_ok_def)

section \<open>Properties\<close>

text \<open>The digest of the padded blocks.\<close>

lemma md5_absorb:
  "md5_out (fst (absorb 64 (md5_block False) [0x10325476, 0x98badcfe, 0xefcdab89, 0x67452301] (md_pad 64 AV_WL64 m))) = md5_hash m"
proof -
  have i: "rfc_md5_init = (0x67452301, 0xefcdab89, 0x98badcfe, 0x10325476)" by code_simp
  have "[0x10325476, 0x98badcfe, 0xefcdab89, 0x67452301] = rev (md_list4 rfc_md5_init)" unfolding i by simp
  then have "fst (absorb 64 (md5_block False) [0x10325476, 0x98badcfe, 0xefcdab89, 0x67452301] (md_pad 64 AV_WL64 m)) =
      rev (md_list4 (fst (absorb 64 rfc_md5_block rfc_md5_init (md_pad 64 AV_WL64 m))))"
    by (rule absorb_related [where R = "\<lambda>v h. v = rev (md_list4 h)"]) (rule md5_block_standard)
  then show ?thesis
    by (cases "fst (absorb 64 rfc_md5_block rfc_md5_init (md_pad 64 AV_WL64 m))" rule: md_list4.cases)
      (simp add: md5_hash_def md5_out_def upt_rec)
qed

lemma md5_digest:
  assumes "md5_ok c" and "\<forall>d\<in>set ds. small d"
  shows "fst (av_md5_final s u (foldl (av_md5_update s u) (av_md5_init c) ds)) = md5_hash (concat ds)"
    and "md5_ok (snd (av_md5_final s u (foldl (av_md5_update s u) (av_md5_init c) ds)))"
  using md5.digest_pieces [of "av_md5_init c" ds s u] assms
  by (simp_all add: md5_ok_def av_md5_init_def md5_absorb)

text \<open>Initialising a context, updating it with any pieces of a message and finishing gives the MD5 of the
  whole message, in every configuration and on any host, and so does \<open>av_md5_sum\<close>.\<close>

theorem av_md5_correct:
  assumes "length (md5_buf c) = 64" and "\<forall>d\<in>set ds. length d < 2 ^ 31"
  shows "fst (av_md5_final s u (foldl (av_md5_update s u) (av_md5_init c) ds)) = md5_hash (concat ds)"
  using md5_digest assms by (simp add: md5_ok_def small_def)

theorem av_md5_correct_witness:
  "fst (av_md5_final True False (foldl (av_md5_update True False) (av_md5_init av_md5_alloc) [[1, 2], [3]])) = md5_hash [1, 2, 3]"
  using av_md5_correct [of av_md5_alloc "[[1, 2], [3]]" True False] by (simp add: av_md5_alloc_def)

end
