(* ===== verification/ShaStandard.thy ===== *)
theory ShaStandard imports HashBlock HashConstants
begin

text \<open>
  The Secure Hash Standard (FIPS 180-4): SHA-1, SHA-224, SHA-256, SHA-384, SHA-512, SHA-512/224 and SHA-512/256 as functions
  of the message, written from the standard and not from the code: the message schedule is a recurrence, the constants
  are bits of roots of primes, the rounds are those of sections 6.1 to 6.7. The code is compared with it in \<open>AvSha\<close> and \<open>AvSha512\<close>.
  Of \<open>HashBlock\<close> the padding \<open>md_pad\<close> and the walk over the blocks \<open>absorb\<close> are used. The standard bounds the
  message; a longer one has here the length field modulo \<open>2 ^ 64\<close>.
\<close>

section \<open>Functions on words (4.1)\<close>

definition fips_Ch :: "'a::len word \<Rightarrow> 'a word \<Rightarrow> 'a word \<Rightarrow> 'a word" where
  "fips_Ch x y z = (x AND y) XOR (NOT x AND z)"

definition fips_Parity :: "'a::len word \<Rightarrow> 'a word \<Rightarrow> 'a word \<Rightarrow> 'a word" where
  "fips_Parity x y z = x XOR y XOR z"

definition fips_Maj :: "'a::len word \<Rightarrow> 'a word \<Rightarrow> 'a word \<Rightarrow> 'a word" where
  "fips_Maj x y z = (x AND y) XOR (x AND z) XOR (y AND z)"

text \<open>The functions with 32-bit and with 64-bit words.\<close>

definition fips_Sigma256_0 :: "u32 \<Rightarrow> u32" where
  "fips_Sigma256_0 x = word_rotr 2 x XOR word_rotr 13 x XOR word_rotr 22 x"

definition fips_Sigma256_1 :: "u32 \<Rightarrow> u32" where
  "fips_Sigma256_1 x = word_rotr 6 x XOR word_rotr 11 x XOR word_rotr 25 x"

definition fips_sigma256_0 :: "u32 \<Rightarrow> u32" where
  "fips_sigma256_0 x = word_rotr 7 x XOR word_rotr 18 x XOR drop_bit 3 x"

definition fips_sigma256_1 :: "u32 \<Rightarrow> u32" where
  "fips_sigma256_1 x = word_rotr 17 x XOR word_rotr 19 x XOR drop_bit 10 x"

definition fips_Sigma512_0 :: "u64 \<Rightarrow> u64" where
  "fips_Sigma512_0 x = word_rotr 28 x XOR word_rotr 34 x XOR word_rotr 39 x"

definition fips_Sigma512_1 :: "u64 \<Rightarrow> u64" where
  "fips_Sigma512_1 x = word_rotr 14 x XOR word_rotr 18 x XOR word_rotr 41 x"

definition fips_sigma512_0 :: "u64 \<Rightarrow> u64" where
  "fips_sigma512_0 x = word_rotr 1 x XOR word_rotr 8 x XOR drop_bit 7 x"

definition fips_sigma512_1 :: "u64 \<Rightarrow> u64" where
  "fips_sigma512_1 x = word_rotr 19 x XOR word_rotr 61 x XOR drop_bit 6 x"

section \<open>SHA-1 (6.1)\<close>

text \<open>The function and the constant of round \<open>t\<close>; the constants are \<open>2 ^ 30\<close> times a square root.\<close>

definition sha1_f :: "nat \<Rightarrow> u32 \<Rightarrow> u32 \<Rightarrow> u32 \<Rightarrow> u32" where
  "sha1_f t = (if t \<le> 19 then fips_Ch else if t \<le> 39 then fips_Parity else if t \<le> 59 then fips_Maj else fips_Parity)"

definition sha1_K :: "nat \<Rightarrow> u32" where
  "sha1_K t = of_nat (root_bits 30 2 (if t \<le> 19 then 2 else if t \<le> 39 then 3 else if t \<le> 59 then 5 else 10))"

text \<open>The schedule of the sixteen words \<open>M\<close> of a block.\<close>

fun sha1_W :: "(nat \<Rightarrow> u32) \<Rightarrow> nat \<Rightarrow> u32" where
  "sha1_W M t =
     (if t < 16 then M t
      else word_rotl 1 (sha1_W M (t - 3) XOR sha1_W M (t - 8) XOR sha1_W M (t - 14) XOR sha1_W M (t - 16)))"

declare sha1_W.simps [simp del]

type_synonym word5 = "u32 \<times> u32 \<times> u32 \<times> u32 \<times> u32"

fun sha1_round :: "(nat \<Rightarrow> u32) \<Rightarrow> word5 \<Rightarrow> nat \<Rightarrow> word5" where
  "sha1_round W (a, b, c, d, e) t = (word_rotl 5 a + sha1_f t b c d + e + sha1_K t + W t, a, word_rotl 30 b, c, d)"

fun add5 :: "word5 \<Rightarrow> word5 \<Rightarrow> word5" where
  "add5 (a, b, c, d, e) (a', b', c', d', e') = (a + a', b + b', c + c', d + d', e + e')"

definition sha1_compress :: "word5 \<Rightarrow> bytes \<Rightarrow> word5" where
  "sha1_compress H block = add5 (foldl (sha1_round (sha1_W (\<lambda>t. AV_RB32 block (4 * t)))) H [0..<80]) H"

definition sha1_IV :: word5 where
  "sha1_IV = (0x67452301, 0xefcdab89, 0x98badcfe, 0x10325476, 0xc3d2e1f0)"

section \<open>SHA-2 (6.2 to 6.7)\<close>

fun sha2_W :: "('a::len word \<Rightarrow> 'a word) \<Rightarrow> ('a word \<Rightarrow> 'a word) \<Rightarrow> (nat \<Rightarrow> 'a word) \<Rightarrow> nat \<Rightarrow> 'a word" where
  "sha2_W s0 s1 M t =
     (if t < 16 then M t
      else s1 (sha2_W s0 s1 M (t - 2)) + sha2_W s0 s1 M (t - 7) + s0 (sha2_W s0 s1 M (t - 15)) + sha2_W s0 s1 M (t - 16))"

declare sha2_W.simps [simp del]

type_synonym 'a word8 = "'a word \<times> 'a word \<times> 'a word \<times> 'a word \<times> 'a word \<times> 'a word \<times> 'a word \<times> 'a word"

fun sha2_round ::
    "('a::len word \<Rightarrow> 'a word) \<Rightarrow> ('a word \<Rightarrow> 'a word) \<Rightarrow> (nat \<Rightarrow> 'a word) \<Rightarrow> (nat \<Rightarrow> 'a word) \<Rightarrow> 'a word8 \<Rightarrow> nat \<Rightarrow> 'a word8" where
  "sha2_round S0 S1 K W (a, b, c, d, e, f, g, h) t =
     (let T1 = h + S1 e + fips_Ch e f g + K t + W t;
          T2 = S0 a + fips_Maj a b c
      in (T1 + T2, a, b, c, d + T1, e, f, g))"

fun add8 :: "'a::len word8 \<Rightarrow> 'a word8 \<Rightarrow> 'a word8" where
  "add8 (a, b, c, d, e, f, g, h) (a', b', c', d', e', f', g', h') =
     (a + a', b + b', c + c', d + d', e + e', f + f', g + g', h + h')"

text \<open>The constants: the fractional parts of the cube roots of the first 64 or 80 primes.\<close>

definition sha256_K :: "nat \<Rightarrow> u32" where
  "sha256_K t = of_nat (frac_bits 32 3 (hash_primes ! t))"

definition sha512_K :: "nat \<Rightarrow> u64" where
  "sha512_K t = of_nat (frac_bits 64 3 (hash_primes ! t))"

definition sha256_compress :: "32 word8 \<Rightarrow> bytes \<Rightarrow> 32 word8" where
  "sha256_compress H block =
     add8 (foldl (sha2_round fips_Sigma256_0 fips_Sigma256_1 sha256_K
       (sha2_W fips_sigma256_0 fips_sigma256_1 (\<lambda>t. AV_RB32 block (4 * t)))) H [0..<64]) H"

definition sha512_compress :: "64 word8 \<Rightarrow> bytes \<Rightarrow> 64 word8" where
  "sha512_compress H block =
     add8 (foldl (sha2_round fips_Sigma512_0 fips_Sigma512_1 sha512_K
       (sha2_W fips_sigma512_0 fips_sigma512_1 (\<lambda>t. AV_RB64 block (8 * t)))) H [0..<80]) H"

text \<open>The initial values (5.3): for SHA-256 and SHA-512 from the square roots of the first eight primes, for SHA-384 from
  those of the next eight, of which SHA-224 takes the second 32 bits; for SHA-512/t as the standard lists them.\<close>

definition eight :: "(nat \<Rightarrow> nat) \<Rightarrow> 'a::len word8" where
  "eight f = (of_nat (f 0), of_nat (f 1), of_nat (f 2), of_nat (f 3), of_nat (f 4), of_nat (f 5), of_nat (f 6), of_nat (f 7))"

definition sha224_IV :: "32 word8" where
  "sha224_IV = eight (\<lambda>i. frac_bits 64 2 (hash_primes ! (8 + i)) mod 2 ^ 32)"

definition sha256_IV :: "32 word8" where
  "sha256_IV = eight (\<lambda>i. frac_bits 32 2 (hash_primes ! i))"

definition sha384_IV :: "64 word8" where
  "sha384_IV = eight (\<lambda>i. frac_bits 64 2 (hash_primes ! (8 + i)))"

definition sha512_IV :: "64 word8" where
  "sha512_IV = eight (\<lambda>i. frac_bits 64 2 (hash_primes ! i))"

definition sha512_224_IV :: "64 word8" where
  "sha512_224_IV =
     (0x8C3D37C819544DA2, 0x73E1996689DCD4D6, 0x1DFAB7AE32FF9C82, 0x679DD514582F9FCF,
      0x0F6D2B697BD44DA8, 0x77E36F7304C48942, 0x3F9D85A86A1D36C8, 0x1112E6AD91D692A1)"

definition sha512_256_IV :: "64 word8" where
  "sha512_256_IV =
     (0x22312194FC2BF72C, 0x9F555FA3C84C64C2, 0x2393B86B6F53B151, 0x963877195940EABD,
      0x96283EE2A88EFFE3, 0xBE5E1E2553863992, 0x2B0199FC2C85B8AA, 0x0EB72DDC81C52CA2)"

section \<open>The digest of a message\<close>

text \<open>The bytes of the words, highest first; the shorter digests are the leftmost bits.\<close>

fun list5 :: "word5 \<Rightarrow> u32 list" where
  "list5 (a, b, c, d, e) = [a, b, c, d, e]"

fun list8 :: "'a::len word8 \<Rightarrow> 'a word list" where
  "list8 (a, b, c, d, e, f, g, h) = [a, b, c, d, e, f, g, h]"

definition sha_hash :: "int \<Rightarrow> bytes \<Rightarrow> bytes" where
  "sha_hash bits m =
     (let blocks = md_pad 64 AV_WB64 m
      in if bits = 160 then concat (map AV_WB32 (list5 (fst (absorb 64 sha1_compress sha1_IV blocks))))
         else if bits = 224 then take 28 (concat (map AV_WB32 (list8 (fst (absorb 64 sha256_compress sha224_IV blocks)))))
         else concat (map AV_WB32 (list8 (fst (absorb 64 sha256_compress sha256_IV blocks)))))"

definition sha512_hash :: "int \<Rightarrow> bytes \<Rightarrow> bytes" where
  "sha512_hash bits m =
     (let blocks = md_pad 128 (\<lambda>v. AV_WB64 0 @ AV_WB64 v) m;
          IV = (if bits = 224 then sha512_224_IV else if bits = 256 then sha512_256_IV
                else if bits = 384 then sha384_IV else sha512_IV)
      in take (nat bits div 8) (concat (map AV_WB64 (list8 (fst (absorb 128 sha512_compress IV blocks))))))"

section \<open>Facts that the comparisons share\<close>

lemma length_words5: "length (concat (map AV_WB32 (list5 h))) = 20"
  by (cases h rule: list5.cases) simp

lemma length_words8:
  "length (concat (map AV_WB32 (list8 h))) = 32" "length (concat (map AV_WB64 (list8 k))) = 64"
  by (cases h rule: list8.cases, simp) (cases k rule: list8.cases, simp)

lemma length_sha_hash:
  "length (sha_hash 160 m) = 20" "length (sha_hash 224 m) = 28" "length (sha_hash 256 m) = 32"
  by (simp_all add: sha_hash_def Let_def length_words5 length_words8)

lemma length_sha512_hash:
  "length (sha512_hash 384 m) = 48" "length (sha512_hash 512 m) = 64"
  by (simp_all add: sha512_hash_def Let_def length_words8)

text \<open>The functions in the forms the code has.\<close>

lemma fips_Ch_form: "fips_Ch x y z = (x AND (y XOR z)) XOR z" for x y z :: "'a::len word"
  by (rule bit_word_eqI) (auto simp: fips_Ch_def bit_simps)

lemma fips_Maj_form:
  "fips_Maj x y z = ((x OR y) AND z) OR (x AND y)" "fips_Maj x y z = ((z OR y) AND x) OR (z AND y)" for x y z :: "'a::len word"
  by (rule bit_word_eqI, auto simp: fips_Maj_def bit_simps)+

end
