(* ===== verification/AvSha.thy ===== *)
theory AvSha imports ShaStandard
begin

text \<open>
  \<open>libavutil/sha.c\<close>: SHA-1, SHA-224 and SHA-256. Both compression functions are written rolled and
  unrolled; the context functions take either and buffer the message in either of two ways. All of it
  computes the transform over the padded message.
\<close>

section \<open>SHA-1\<close>

definition rol32 :: "u32 \<Rightarrow> nat \<Rightarrow> u32" where
  "rol32 v n = shl v n OR shr v (32 - n)"

text \<open>\<open>blk0(i)\<close> and \<open>blk(i)\<close> write entry \<open>i\<close> of the schedule; the list holds the entries written so far.\<close>

definition sha1_blk0 :: "bytes \<Rightarrow> nat \<Rightarrow> u32 list \<Rightarrow> u32 list" where
  "sha1_blk0 buffer i block = block @ [AV_RB32 buffer (4 * i)]"

definition sha1_blk :: "nat \<Rightarrow> u32 list \<Rightarrow> u32 list" where
  "sha1_blk i block =
     block @ [rol32 ((block ! (i - 3)) XOR (block ! (i - 8)) XOR (block ! (i - 14)) XOR (block ! (i - 16))) 1]"

type_synonym sha1_vars = "(u32 \<times> u32 \<times> u32 \<times> u32 \<times> u32) \<times> u32 list"

text \<open>The five round macros on \<open>v\<close>, \<open>w\<close>, \<open>x\<close>, \<open>y\<close>, \<open>z\<close>.\<close>

fun sha1_R0 :: "bytes \<Rightarrow> nat \<Rightarrow> sha1_vars \<Rightarrow> sha1_vars" where
  "sha1_R0 buffer i ((v, w, x, y, z), block) =
     (let block = sha1_blk0 buffer i block;
          z = z + (((w AND (x XOR y)) XOR y) + block ! i + 0x5A827999 + rol32 v 5); w = rol32 w 30
      in ((v, w, x, y, z), block))"

fun sha1_R1 :: "nat \<Rightarrow> sha1_vars \<Rightarrow> sha1_vars" where
  "sha1_R1 i ((v, w, x, y, z), block) =
     (let block = sha1_blk i block;
          z = z + (((w AND (x XOR y)) XOR y) + block ! i + 0x5A827999 + rol32 v 5); w = rol32 w 30
      in ((v, w, x, y, z), block))"

fun sha1_R2 :: "nat \<Rightarrow> sha1_vars \<Rightarrow> sha1_vars" where
  "sha1_R2 i ((v, w, x, y, z), block) =
     (let block = sha1_blk i block;
          z = z + ((w XOR x XOR y) + block ! i + 0x6ED9EBA1 + rol32 v 5); w = rol32 w 30
      in ((v, w, x, y, z), block))"

fun sha1_R3 :: "nat \<Rightarrow> sha1_vars \<Rightarrow> sha1_vars" where
  "sha1_R3 i ((v, w, x, y, z), block) =
     (let block = sha1_blk i block;
          z = z + ((((w OR x) AND y) OR (w AND x)) + block ! i + 0x8F1BBCDC + rol32 v 5); w = rol32 w 30
      in ((v, w, x, y, z), block))"

fun sha1_R4 :: "nat \<Rightarrow> sha1_vars \<Rightarrow> sha1_vars" where
  "sha1_R4 i ((v, w, x, y, z), block) =
     (let block = sha1_blk i block;
          z = z + ((w XOR x XOR y) + block ! i + 0xCA62C1D6 + rol32 v 5); w = rol32 w 30
      in ((v, w, x, y, z), block))"

text \<open>The macro that the unrolled text has at line \<open>i\<close>, and the line with its names.\<close>

definition sha1_macro :: "bytes \<Rightarrow> nat \<Rightarrow> sha1_vars \<Rightarrow> sha1_vars" where
  "sha1_macro buffer i =
     (if i < 16 then sha1_R0 buffer i else if i < 20 then sha1_R1 i else if i < 40 then sha1_R2 i
      else if i < 60 then sha1_R3 i else sha1_R4 i)"

fun sha1_line :: "bytes \<Rightarrow> sha1_vars \<Rightarrow> nat \<Rightarrow> sha1_vars" where
  "sha1_line buffer ((a, b, c, d, e), block) i =
     (if i mod 5 = 0 then let ((a, b, c, d, e), block) = sha1_macro buffer i ((a, b, c, d, e), block) in ((a, b, c, d, e), block)
      else if i mod 5 = 1 then let ((e, a, b, c, d), block) = sha1_macro buffer i ((e, a, b, c, d), block) in ((a, b, c, d, e), block)
      else if i mod 5 = 2 then let ((d, e, a, b, c), block) = sha1_macro buffer i ((d, e, a, b, c), block) in ((a, b, c, d, e), block)
      else if i mod 5 = 3 then let ((c, d, e, a, b), block) = sha1_macro buffer i ((c, d, e, a, b), block) in ((a, b, c, d, e), block)
      else let ((b, c, d, e, a), block) = sha1_macro buffer i ((b, c, d, e, a), block) in ((a, b, c, d, e), block))"

text \<open>A turn of the loop of \<open>CONFIG_SMALL\<close>.\<close>

fun sha1_step :: "bytes \<Rightarrow> sha1_vars \<Rightarrow> nat \<Rightarrow> sha1_vars" where
  "sha1_step buffer ((a, b, c, d, e), block) i =
     (let block = (if i < 16 then sha1_blk0 buffer i block else sha1_blk i block);
          t = block ! i + (e + rol32 a 5);
          t = (if i < 40 then
                 if i < 20 then t + (((b AND (c XOR d)) XOR d) + 0x5A827999)
                 else t + ((b XOR c XOR d) + 0x6ED9EBA1)
               else
                 if i < 60 then t + ((((b OR c) AND d) OR (b AND c)) + 0x8F1BBCDC)
                 else t + ((b XOR c XOR d) + 0xCA62C1D6));
          e = d; d = c; c = rol32 b 30; b = a; a = t
      in ((a, b, c, d, e), block))"

definition sha1_transform :: "bool \<Rightarrow> u32 list \<Rightarrow> bytes \<Rightarrow> u32 list" where
  "sha1_transform config_small state buffer =
     (let ((a, b, c, d, e), block) =
        foldl (if config_small then sha1_step buffer else sha1_line buffer)
          ((state ! 0, state ! 1, state ! 2, state ! 3, state ! 4), []) [0..<80]
      in state[0 := state ! 0 + a, 1 := state ! 1 + b, 2 := state ! 2 + c, 3 := state ! 3 + d, 4 := state ! 4 + e])"

text \<open>The two loops agree.\<close>

fun sha1_sh :: "sha1_vars \<Rightarrow> sha1_vars" where
  "sha1_sh ((a, b, c, d, e), block) = ((e, a, b, c, d), block)"

fun sha1_un :: "sha1_vars \<Rightarrow> sha1_vars" where
  "sha1_un ((e, a, b, c, d), block) = ((a, b, c, d, e), block)"

lemma sha1_loops_agree: "foldl (sha1_step buffer) v [0..<80] = foldl (sha1_line buffer) v [0..<80]"
proof -
  have "foldl (sha1_step buffer) v [0..<80] = (sha1_sh ^^ (80 mod 5)) (foldl (sha1_line buffer) v [0..<80])"
  proof (rule rotating_loop [where un = sha1_un and R = "sha1_macro buffer"])
    show "sha1_un (sha1_sh v) = v" "(sha1_sh ^^ 5) v = v" for v
      by (cases v rule: sha1_sh.cases; simp add: rotate_simps)+
    show "sha1_line buffer v n = (sha1_un ^^ (n mod 5)) (sha1_macro buffer n ((sha1_sh ^^ (n mod 5)) v))" for n v
      using mod_5_cases [of n]
      by (cases v rule: sha1_sh.cases) (elim disjE; simp add: rotate_simps Let_def split: prod.split)
    show "sha1_step buffer v n = sha1_sh (sha1_macro buffer n v)" for n v
      by (cases v rule: sha1_sh.cases) (simp add: Let_def sha1_macro_def add.assoc add.commute add.left_commute)
  qed simp
  then show ?thesis by simp
qed

lemma sha1_transform_agree: "sha1_transform config_small = sha1_transform False"
  by (intro ext) (simp add: sha1_transform_def sha1_loops_agree)

section \<open>SHA-256\<close>

definition K256 :: "u32 list" where
  "K256 =
     [0x428a2f98, 0x71374491, 0xb5c0fbcf, 0xe9b5dba5, 0x3956c25b, 0x59f111f1, 0x923f82a4, 0xab1c5ed5,
      0xd807aa98, 0x12835b01, 0x243185be, 0x550c7dc3, 0x72be5d74, 0x80deb1fe, 0x9bdc06a7, 0xc19bf174,
      0xe49b69c1, 0xefbe4786, 0x0fc19dc6, 0x240ca1cc, 0x2de92c6f, 0x4a7484aa, 0x5cb0a9dc, 0x76f988da,
      0x983e5152, 0xa831c66d, 0xb00327c8, 0xbf597fc7, 0xc6e00bf3, 0xd5a79147, 0x06ca6351, 0x14292967,
      0x27b70a85, 0x2e1b2138, 0x4d2c6dfc, 0x53380d13, 0x650a7354, 0x766a0abb, 0x81c2c92e, 0x92722c85,
      0xa2bfe8a1, 0xa81a664b, 0xc24b8b70, 0xc76c51a3, 0xd192e819, 0xd6990624, 0xf40e3585, 0x106aa070,
      0x19a4c116, 0x1e376c08, 0x2748774c, 0x34b0bcb5, 0x391c0cb3, 0x4ed8aa4a, 0x5b9cca4f, 0x682e6ff3,
      0x748f82ee, 0x78a5636f, 0x84c87814, 0x8cc70208, 0x90befffa, 0xa4506ceb, 0xbef9a3f7, 0xc67178f2]"

text \<open>The macros \<open>Ch\<close>, \<open>Maj\<close> and the four sums.\<close>

definition sha256_Ch :: "u32 \<Rightarrow> u32 \<Rightarrow> u32 \<Rightarrow> u32" where
  "sha256_Ch x y z = (x AND (y XOR z)) XOR z"

definition sha256_Maj :: "u32 \<Rightarrow> u32 \<Rightarrow> u32 \<Rightarrow> u32" where
  "sha256_Maj z y x = ((x OR y) AND z) OR (x AND y)"

definition sha256_Sigma0 :: "u32 \<Rightarrow> u32" where
  "sha256_Sigma0 x = rol32 x 30 XOR rol32 x 19 XOR rol32 x 10"

definition sha256_Sigma1 :: "u32 \<Rightarrow> u32" where
  "sha256_Sigma1 x = rol32 x 26 XOR rol32 x 21 XOR rol32 x 7"

definition sha256_sigma0 :: "u32 \<Rightarrow> u32" where
  "sha256_sigma0 x = rol32 x 25 XOR rol32 x 14 XOR shr x 3"

definition sha256_sigma1 :: "u32 \<Rightarrow> u32" where
  "sha256_sigma1 x = rol32 x 15 XOR rol32 x 13 XOR shr x 10"

text \<open>\<open>blk0(i)\<close> and \<open>blk(i)\<close> write entry \<open>i\<close> of the schedule; the list holds the entries written so far.\<close>

definition sha256_blk0 :: "bytes \<Rightarrow> nat \<Rightarrow> u32 list \<Rightarrow> u32 list" where
  "sha256_blk0 buffer i block = block @ [AV_RB32 buffer (4 * i)]"

definition sha256_blk :: "nat \<Rightarrow> u32 list \<Rightarrow> u32 list" where
  "sha256_blk i block = block @ [(block ! (i - 16)) + sha256_sigma0 (block ! (i - 15)) +
     sha256_sigma1 (block ! (i - 2)) + (block ! (i - 7))]"

definition sha256_schedule :: "bytes \<Rightarrow> nat \<Rightarrow> u32 list \<Rightarrow> u32 list" where
  "sha256_schedule buffer i block = (if i < 16 then sha256_blk0 buffer i block else sha256_blk i block)"

text \<open>The variables \<open>a\<close> to \<open>h\<close> and the schedule.\<close>

type_synonym sha256_vars = "(u32 \<times> u32 \<times> u32 \<times> u32 \<times> u32 \<times> u32 \<times> u32 \<times> u32) \<times> u32 list"

text \<open>The round macro: \<open>T1\<close> from the schedule, then the assignments to \<open>d\<close> and \<open>h\<close>.\<close>

fun sha256_ROUND :: "bytes \<Rightarrow> nat \<Rightarrow> sha256_vars \<Rightarrow> sha256_vars" where
  "sha256_ROUND buffer i ((a, b, c, d, e, f, g, h), block) =
     (let block = sha256_schedule buffer i block;
          T1 = block ! i + (h + sha256_Sigma1 e + sha256_Ch e f g + K256 ! i);
          d = d + T1;
          h = T1 + sha256_Sigma0 a + sha256_Maj a b c
      in ((a, b, c, d, e, f, g, h), block))"

text \<open>The unrolled text: line \<open>i\<close> calls the macro on the names in rotated order.\<close>

fun sha256_line :: "bytes \<Rightarrow> sha256_vars \<Rightarrow> nat \<Rightarrow> sha256_vars" where
  "sha256_line buffer ((a, b, c, d, e, f, g, h), block) i =
     (if i mod 8 = 0 then let ((a, b, c, d, e, f, g, h), block) = sha256_ROUND buffer i ((a, b, c, d, e, f, g, h), block) in ((a, b, c, d, e, f, g, h), block)
      else if i mod 8 = 1 then let ((h, a, b, c, d, e, f, g), block) = sha256_ROUND buffer i ((h, a, b, c, d, e, f, g), block) in ((a, b, c, d, e, f, g, h), block)
      else if i mod 8 = 2 then let ((g, h, a, b, c, d, e, f), block) = sha256_ROUND buffer i ((g, h, a, b, c, d, e, f), block) in ((a, b, c, d, e, f, g, h), block)
      else if i mod 8 = 3 then let ((f, g, h, a, b, c, d, e), block) = sha256_ROUND buffer i ((f, g, h, a, b, c, d, e), block) in ((a, b, c, d, e, f, g, h), block)
      else if i mod 8 = 4 then let ((e, f, g, h, a, b, c, d), block) = sha256_ROUND buffer i ((e, f, g, h, a, b, c, d), block) in ((a, b, c, d, e, f, g, h), block)
      else if i mod 8 = 5 then let ((d, e, f, g, h, a, b, c), block) = sha256_ROUND buffer i ((d, e, f, g, h, a, b, c), block) in ((a, b, c, d, e, f, g, h), block)
      else if i mod 8 = 6 then let ((c, d, e, f, g, h, a, b), block) = sha256_ROUND buffer i ((c, d, e, f, g, h, a, b), block) in ((a, b, c, d, e, f, g, h), block)
      else let ((b, c, d, e, f, g, h, a), block) = sha256_ROUND buffer i ((b, c, d, e, f, g, h, a), block) in ((a, b, c, d, e, f, g, h), block))"

text \<open>A turn of the loop of \<open>CONFIG_SMALL\<close>.\<close>

fun sha256_step :: "bytes \<Rightarrow> sha256_vars \<Rightarrow> nat \<Rightarrow> sha256_vars" where
  "sha256_step buffer ((a, b, c, d, e, f, g, h), block) i =
     (let block = sha256_schedule buffer i block;
          T1 = block ! i + (h + sha256_Sigma1 e + sha256_Ch e f g + K256 ! i);
          T2 = sha256_Sigma0 a + sha256_Maj a b c;
          h = g; g = f; f = e; e = d + T1; d = c; c = b; b = a; a = T1 + T2
      in ((a, b, c, d, e, f, g, h), block))"

definition sha256_transform :: "bool \<Rightarrow> u32 list \<Rightarrow> bytes \<Rightarrow> u32 list" where
  "sha256_transform config_small state buffer =
     (let ((a, b, c, d, e, f, g, h), block) =
        foldl (if config_small then sha256_step buffer else sha256_line buffer)
          ((state ! 0, state ! 1, state ! 2, state ! 3, state ! 4, state ! 5, state ! 6, state ! 7), []) [0..<64]
      in state[0 := state ! 0 + a, 1 := state ! 1 + b, 2 := state ! 2 + c, 3 := state ! 3 + d,
               4 := state ! 4 + e, 5 := state ! 5 + f, 6 := state ! 6 + g, 7 := state ! 7 + h])"

text \<open>The two loops agree.\<close>

fun sha256_sh :: "sha256_vars \<Rightarrow> sha256_vars" where
  "sha256_sh ((a, b, c, d, e, f, g, h), block) = ((h, a, b, c, d, e, f, g), block)"

fun sha256_un :: "sha256_vars \<Rightarrow> sha256_vars" where
  "sha256_un ((h, a, b, c, d, e, f, g), block) = ((a, b, c, d, e, f, g, h), block)"

lemma sha256_loops_agree: "foldl (sha256_step buffer) v [0..<64] = foldl (sha256_line buffer) v [0..<64]"
proof -
  have "foldl (sha256_step buffer) v [0..<64] = (sha256_sh ^^ (64 mod 8)) (foldl (sha256_line buffer) v [0..<64])"
  proof (rule rotating_loop [where un = sha256_un and R = "sha256_ROUND buffer"])
    show "sha256_un (sha256_sh v) = v" "(sha256_sh ^^ 8) v = v" for v
      by (cases v rule: sha256_sh.cases; simp add: rotate_simps)+
    show "sha256_line buffer v n = (sha256_un ^^ (n mod 8)) (sha256_ROUND buffer n ((sha256_sh ^^ (n mod 8)) v))" for n v
      using mod_8_cases [of n]
      by (cases v rule: sha256_sh.cases) (elim disjE; simp add: rotate_simps Let_def split: prod.split)
    show "sha256_step buffer v n = sha256_sh (sha256_ROUND buffer n v)" for n v
      by (cases v rule: sha256_sh.cases) (simp add: Let_def add.assoc)
  qed simp
  then show ?thesis by simp
qed

lemma sha256_transform_agree: "sha256_transform config_small = sha256_transform False"
  by (intro ext) (simp add: sha256_transform_def sha256_loops_agree)

section \<open>The transforms are those of the standard\<close>

lemma rol32_rotl: "n < 32 \<Longrightarrow> rol32 v n = word_rotl n v" "0 < n \<Longrightarrow> n < 32 \<Longrightarrow> rol32 v n = word_rotr (32 - n) v"
  by (simp_all add: rol32_def rotl_shifts rotr_shifts or.commute)

lemma sha1_K_values:
  "sha1_K t = (if t \<le> 19 then 0x5A827999 else if t \<le> 39 then 0x6ED9EBA1 else if t \<le> 59 then 0x8F1BBCDC else 0xCA62C1D6)"
proof -
  have "root_bits 30 2 2 = 0x5A827999" "root_bits 30 2 3 = 0x6ED9EBA1" "root_bits 30 2 5 = 0x8F1BBCDC" "root_bits 30 2 10 = 0xCA62C1D6"
    by (rule root_bits_eq, simp add: root_check_def)+
  then show ?thesis by (simp add: sha1_K_def)
qed

lemma sha1_step_round:
  fixes buffer :: bytes
  assumes "t < 80"
  defines "W \<equiv> sha1_W (\<lambda>t. AV_RB32 buffer (4 * t))"
  shows "sha1_step buffer (v, map W [0..<t]) t = (sha1_round W v t, map W [0..<Suc t])"
proof -
  have w: "W t = (if t < 16 then AV_RB32 buffer (4 * t)
      else word_rotl 1 (W (t - 3) XOR W (t - 8) XOR W (t - 14) XOR W (t - 16)))"
    unfolding W_def by (rule sha1_W.simps)
  have b: "(if t < 16 then sha1_blk0 buffer t (map W [0..<t]) else sha1_blk t (map W [0..<t])) = map W [0..<Suc t]"
    using w by (simp add: sha1_blk0_def sha1_blk_def rol32_rotl)
  show ?thesis
    by (cases v rule: prod_cases5)
      (simp add: b Let_def sha1_f_def sha1_K_values fips_Ch_form fips_Maj_form(1) fips_Parity_def rol32_rotl ac_simps del: upt_Suc)
qed

lemma sha1_rounds:
  fixes buffer :: bytes
  defines "W \<equiv> sha1_W (\<lambda>t. AV_RB32 buffer (4 * t))"
  shows "t \<le> 80 \<Longrightarrow> foldl (sha1_step buffer) (v, []) [0..<t] = (foldl (sha1_round W) v [0..<t], map W [0..<t])"
  by (induction t) (simp_all add: W_def sha1_step_round)

lemma sha1_transform_compress:
  assumes "take 5 st = list5 h"
  shows "take 5 (sha1_transform s st buffer) = list5 (sha1_compress h buffer)"
proof -
  obtain a b c d e where h: "h = (a, b, c, d, e)" by (cases h rule: prod_cases5)
  then obtain r where st: "st = [a, b, c, d, e] @ r" using assms append_take_drop_id [of 5 st] by simp metis
  have "sha1_transform s st buffer = sha1_transform True st buffer" by (subst (1 2) sha1_transform_agree) simp
  then show ?thesis
    by (cases "foldl (sha1_round (sha1_W (\<lambda>t. AV_RB32 buffer (4 * t)))) (a, b, c, d, e) [0..<80]" rule: prod_cases5)
      (simp add: sha1_transform_def sha1_rounds sha1_compress_def h st add.commute del: upt_rec_numeral)
qed

text \<open>The constants and the rounds of SHA-256.\<close>

lemma K256_standard: "t < 64 \<Longrightarrow> sha256_K t = K256 ! t"
proof -
  have "list_all (\<lambda>(p, i, k). frac_check 32 3 p i (unat k)) (zip hash_primes (zip prime_cbrts K256))"
    by (simp add: hash_primes_def prime_cbrts_def K256_def frac_check_def root_check_def)
  moreover have "length hash_primes = 80" "length prime_cbrts = 80" "length K256 = 64"
    by (simp_all add: hash_primes_def prime_cbrts_def K256_def)
  moreover assume "t < 64"
  ultimately have "frac_check 32 3 (hash_primes ! t) (prime_cbrts ! t) (unat (K256 ! t))"
    by (auto simp: list_all_length)
  from frac_bits_eq [OF this] show ?thesis by (simp add: sha256_K_def)
qed

lemma sha256_functions:
  "sha256_Sigma0 x = fips_Sigma256_0 x" "sha256_Sigma1 x = fips_Sigma256_1 x"
  "sha256_sigma0 x = fips_sigma256_0 x" "sha256_sigma1 x = fips_sigma256_1 x"
  "sha256_Ch x y z = fips_Ch x y z" "sha256_Maj x y z = fips_Maj x y z"
  by (simp_all add: sha256_Sigma0_def sha256_Sigma1_def sha256_sigma0_def sha256_sigma1_def sha256_Ch_def sha256_Maj_def
    fips_Sigma256_0_def fips_Sigma256_1_def fips_sigma256_0_def fips_sigma256_1_def fips_Ch_form fips_Maj_form(2) rol32_rotl(2))

lemma sha256_step_round:
  fixes buffer :: bytes
  assumes "t < 64"
  defines "W \<equiv> sha2_W fips_sigma256_0 fips_sigma256_1 (\<lambda>t. AV_RB32 buffer (4 * t))"
  shows "sha256_step buffer (v, map W [0..<t]) t =
    (sha2_round fips_Sigma256_0 fips_Sigma256_1 sha256_K W v t, map W [0..<Suc t])"
proof -
  have w: "W t = (if t < 16 then AV_RB32 buffer (4 * t)
      else fips_sigma256_1 (W (t - 2)) + W (t - 7) + fips_sigma256_0 (W (t - 15)) + W (t - 16))"
    unfolding W_def by (rule sha2_W.simps)
  have b: "sha256_schedule buffer t (map W [0..<t]) = map W [0..<Suc t]"
    using w by (simp add: sha256_schedule_def sha256_blk0_def sha256_blk_def sha256_functions ac_simps)
  show ?thesis
    using assms(1) by (cases v rule: list8.cases) (simp add: b Let_def sha256_functions K256_standard ac_simps del: upt_Suc)
qed

lemma sha256_rounds:
  fixes buffer :: bytes
  defines "W \<equiv> sha2_W fips_sigma256_0 fips_sigma256_1 (\<lambda>t. AV_RB32 buffer (4 * t))"
  shows "t \<le> 64 \<Longrightarrow> foldl (sha256_step buffer) (v, []) [0..<t] =
    (foldl (sha2_round fips_Sigma256_0 fips_Sigma256_1 sha256_K W) v [0..<t], map W [0..<t])"
  by (induction t) (simp_all add: W_def sha256_step_round)

lemma sha256_transform_compress:
  assumes "st = list8 h"
  shows "sha256_transform s st buffer = list8 (sha256_compress h buffer)"
proof -
  obtain a b c d e f g i where h: "h = (a, b, c, d, e, f, g, i)" by (cases h rule: list8.cases)
  have "sha256_transform s st buffer = sha256_transform True st buffer" by (subst (1 2) sha256_transform_agree) simp
  then show ?thesis
    by (cases "foldl (sha2_round fips_Sigma256_0 fips_Sigma256_1 sha256_K
        (sha2_W fips_sigma256_0 fips_sigma256_1 (\<lambda>t. AV_RB32 buffer (4 * t)))) (a, b, c, d, e, f, g, i) [0..<64]" rule: list8.cases)
      (simp add: sha256_transform_def sha256_rounds sha256_compress_def h assms add.commute del: upt_rec_numeral)
qed

section \<open>The context and its functions\<close>

text \<open>The function pointer \<open>transform\<close> is one of two.\<close>

datatype sha_fn = Sha1 | Sha256

fun sha_transform_fn :: "bool \<Rightarrow> sha_fn \<Rightarrow> u32 list \<Rightarrow> bytes \<Rightarrow> u32 list" where
  "sha_transform_fn config_small Sha1 = sha1_transform config_small"
| "sha_transform_fn config_small Sha256 = sha256_transform config_small"

record AVSHA =
  sha_digest_len :: nat
  sha_count :: u64
  sha_buffer :: bytes
  sha_state :: "u32 list"
  sha_transform :: sha_fn

text \<open>The zeroed context of \<open>av_sha_alloc\<close>; the null function pointer is never called before
  \<open>av_sha_init\<close> has set it.\<close>

definition av_sha_alloc :: AVSHA where
  "av_sha_alloc = \<lparr>sha_digest_len = 0, sha_count = 0, sha_buffer = replicate 64 0, sha_state = replicate 8 0,
     sha_transform = Sha1\<rparr>"

definition sha_init_160 :: "u32 list" where
  "sha_init_160 = [0x67452301, 0xEFCDAB89, 0x98BADCFE, 0x10325476, 0xC3D2E1F0]"

definition sha_init_224 :: "u32 list" where
  "sha_init_224 = [0xC1059ED8, 0x367CD507, 0x3070DD17, 0xF70E5939, 0xFFC00B31, 0x68581511, 0x64F98FA7, 0xBEFA4FA4]"

definition sha_init_256 :: "u32 list" where
  "sha_init_256 = [0x6A09E667, 0xBB67AE85, 0x3C6EF372, 0xA54FF53A, 0x510E527F, 0x9B05688C, 0x1F83D9AB, 0x5BE0CD19]"

text \<open>The return value and the context, which the error path has changed too: \<open>digest_len\<close> is set first.\<close>

definition av_sha_init :: "AVSHA \<Rightarrow> int \<Rightarrow> averror option \<times> AVSHA" where
  "av_sha_init ctx bits =
     (let ctx = ctx\<lparr>sha_digest_len := nat (bits div 32 mod 256)\<rparr>
      in if bits = 160 then
           (None, ctx\<lparr>sha_state := sha_init_160 @ drop 5 (sha_state ctx), sha_transform := Sha1, sha_count := 0\<rparr>)
         else if bits = 224 then
           (None, ctx\<lparr>sha_state := sha_init_224, sha_transform := Sha256, sha_count := 0\<rparr>)
         else if bits = 256 then
           (None, ctx\<lparr>sha_state := sha_init_256, sha_transform := Sha256, sha_count := 0\<rparr>)
         else (Some EINVAL, ctx))"

definition av_sha_update :: "bool \<Rightarrow> AVSHA \<Rightarrow> bytes \<Rightarrow> AVSHA" where
  "av_sha_update config_small ctx data =
     (let j = unat (sha_count ctx AND 63);
          ctx = ctx\<lparr>sha_count := sha_count ctx + of_nat (length data)\<rparr>;
          (state, buffer) = buffer_update config_small 64 (sha_transform_fn config_small (sha_transform ctx))
            (sha_state ctx) (sha_buffer ctx) j data
      in ctx\<lparr>sha_state := state, sha_buffer := buffer\<rparr>)"

text \<open>The digest, and the context as it is left.\<close>

definition av_sha_final :: "bool \<Rightarrow> AVSHA \<Rightarrow> bytes \<times> AVSHA" where
  "av_sha_final config_small ctx =
     (let finalcount = AV_WB64 (shl (sha_count ctx) 3);
          ctx = av_sha_update config_small ctx [0x80];
          ctx = pad_loop sha_count (av_sha_update config_small) 63 56 ctx;
          ctx = av_sha_update config_small ctx finalcount
      in (concat (map (\<lambda>i. AV_WB32 (sha_state ctx ! i)) [0..<sha_digest_len ctx]), ctx))"

section \<open>The context is a view of the message\<close>

definition sha_ok :: "AVSHA \<Rightarrow> bool" where
  "sha_ok c \<longleftrightarrow> length (sha_buffer c) = 64"

definition sha_out :: "nat \<Rightarrow> u32 list \<Rightarrow> bytes" where
  "sha_out n v = concat (map (\<lambda>i. AV_WB32 (v ! i)) [0..<n])"

lemma sha_transform_fn_agree: "sha_transform_fn config_small f = sha_transform_fn False f"
  by (cases f) (simp_all add: sha1_transform_agree [of config_small] sha256_transform_agree [of config_small])

lemma sha_update_frame [simp]:
  "sha_count (av_sha_update s c d) = sha_count c + of_nat (length d)"
  "sha_transform (av_sha_update s c d) = sha_transform c"
  "sha_digest_len (av_sha_update s c d) = sha_digest_len c"
  by (simp_all add: av_sha_update_def Let_def split: prod.split)

interpretation sha: md_hash 64 sha_ok "\<lambda>c. sha_transform_fn False (sha_transform c)" sha_state sha_buffer
  sha_count "av_sha_update s" "\<lambda>v. [AV_WB64 v]" "\<lambda>c. sha_out (sha_digest_len c)" "av_sha_final s" for s
proof unfold_locales
  fix c and d :: bytes
  assume "sha_ok c"
  then have c: "length (sha_buffer c) = 64" "unat (sha_count c) mod 64 < 64" by (simp_all add: sha_ok_def)
  note u = buffer_update_absorb [OF c refl, where config_small = s and tr = "sha_transform_fn s (sha_transform c)" and st = "sha_state c" and data = d]
  then show "sha_ok (av_sha_update s c d)"
    by (simp add: sha_ok_def av_sha_update_def Let_def split_def unat_and_63)
  show "absorb 64 (sha_transform_fn False (sha_transform c)) (sha_state c)
      (take (unat (sha_count c) mod 64) (sha_buffer c) @ d) =
    (sha_state (av_sha_update s c d),
     take (unat (sha_count c + of_nat (length d)) mod 64) (sha_buffer (av_sha_update s c d)))"
    using u unfolding unat_add_mod sha_transform_fn_agree [of s]
    by (simp add: av_sha_update_def Let_def split_def unat_and_63 sha_transform_fn_agree [of s])
next
  show "av_sha_final s c = (let c' = foldl (av_sha_update s) (pad_loop sha_count (av_sha_update s) (of_nat (64 - 1))
      (of_nat (64 - length (concat [AV_WB64 0]))) (av_sha_update s c [0x80])) [AV_WB64 (shl (sha_count c) 3)]
    in (sha_out (sha_digest_len c') (sha_state c'), c'))" for c
    by (simp add: av_sha_final_def Let_def sha_out_def)
qed (auto simp: sha_ok_def)

section \<open>Properties\<close>

text \<open>The start values are those of the standard.\<close>

lemma sha_inits: "sha_init_160 = list5 sha1_IV" "sha_init_224 = list8 sha224_IV" "sha_init_256 = list8 sha256_IV"
proof -
  have "frac_check 32 2 2 1 0x6A09E667" "frac_check 32 2 3 1 0xBB67AE85" "frac_check 32 2 5 2 0x3C6EF372"
    "frac_check 32 2 7 2 0xA54FF53A" "frac_check 32 2 11 3 0x510E527F" "frac_check 32 2 13 3 0x9B05688C"
    "frac_check 32 2 17 4 0x1F83D9AB" "frac_check 32 2 19 4 0x5BE0CD19"
    by (simp_all add: frac_check_def root_check_def)
  note k256 = this [THEN frac_bits_eq]
  show "sha_init_256 = list8 sha256_IV"
    by (simp add: sha_init_256_def sha256_IV_def eight_def hash_primes_def k256)
  have "frac_check 64 2 23 4 0xCBBB9D5DC1059ED8" "frac_check 64 2 29 5 0x629A292A367CD507" "frac_check 64 2 31 5 0x9159015A3070DD17"
    "frac_check 64 2 37 6 0x152FECD8F70E5939" "frac_check 64 2 41 6 0x67332667FFC00B31" "frac_check 64 2 43 6 0x8EB44A8768581511"
    "frac_check 64 2 47 6 0xDB0C2E0D64F98FA7" "frac_check 64 2 53 7 0x47B5481DBEFA4FA4"
    by (simp_all add: frac_check_def root_check_def)
  note k224 = this [THEN frac_bits_eq]
  show "sha_init_224 = list8 sha224_IV"
    by (simp add: sha_init_224_def sha224_IV_def eight_def hash_primes_def k224)
qed (simp add: sha_init_160_def sha1_IV_def)

lemma sha_out_words: "n \<le> length v \<Longrightarrow> sha_out n v = concat (map AV_WB32 (take n v))"
  unfolding sha_out_def by (rule arg_cong [of _ _ concat], rule nth_equalityI) simp_all

lemma take_7_words: "take 28 (concat (map AV_WB32 (list8 h))) = concat (map AV_WB32 (take 7 (list8 h)))"
  by (cases h rule: list8.cases) (simp add: AV_WB32_def)

text \<open>The digest of the padded blocks, for the state that each case of the switch sets.\<close>

lemma sha_absorb:
  "sha_out 5 (fst (absorb 64 (sha1_transform False) (sha_init_160 @ r) (md_pad 64 AV_WB64 m))) = sha_hash 160 m"
  "sha_out 7 (fst (absorb 64 (sha256_transform False) sha_init_224 (md_pad 64 AV_WB64 m))) = sha_hash 224 m"
  "sha_out 8 (fst (absorb 64 (sha256_transform False) sha_init_256 (md_pad 64 AV_WB64 m))) = sha_hash 256 m"
proof -
  let ?b = "md_pad 64 AV_WB64 m"
  have r256: "fst (absorb 64 (sha256_transform False) v ?b) = list8 (fst (absorb 64 sha256_compress h ?b))" if "v = list8 h" for v h
    using that by (rule absorb_related) (rule sha256_transform_compress)
  have l8: "length (list8 h) = 8" for h :: "32 word8" by (cases h rule: list8.cases) simp
  show "sha_out 8 (fst (absorb 64 (sha256_transform False) sha_init_256 ?b)) = sha_hash 256 m"
    using r256 [OF sha_inits(3)] l8 by (simp add: sha_out_words sha_hash_def)
  show "sha_out 7 (fst (absorb 64 (sha256_transform False) sha_init_224 ?b)) = sha_hash 224 m"
    using r256 [OF sha_inits(2)] l8 by (simp add: sha_out_words sha_hash_def take_7_words)
  let ?v = "fst (absorb 64 (sha1_transform False) (sha_init_160 @ r) ?b)"
  have "take 5 (sha_init_160 @ r) = list5 sha1_IV" by (simp add: sha_init_160_def sha1_IV_def)
  then have t: "take 5 ?v = list5 (fst (absorb 64 sha1_compress sha1_IV ?b))"
    by (rule absorb_related) (rule sha1_transform_compress)
  moreover have "length (list5 h) = 5" for h by (cases h rule: list5.cases) simp
  ultimately have "5 \<le> length ?v" by (metis length_take min.cobounded1)
  with t show "sha_out 5 ?v = sha_hash 160 m" by (simp add: sha_out_words sha_hash_def)
qed

lemma sha_digest:
  assumes "sha_ok c" and "\<forall>d\<in>set ds. small d" and "bits \<in> {160, 224, 256}"
  defines "c' \<equiv> snd (av_sha_init c bits)"
  shows "fst (av_sha_final s (foldl (av_sha_update s) c' ds)) = sha_hash bits (concat ds)"
    and "sha_ok (snd (av_sha_final s (foldl (av_sha_update s) c' ds)))"
proof -
  have d: "fst (av_sha_final s (foldl (av_sha_update s) c' ds)) = sha_out (sha_digest_len c')
      (fst (absorb 64 (sha_transform_fn False (sha_transform c')) (sha_state c') (md_pad 64 AV_WB64 (concat ds))))"
    if "sha_ok c'" "sha_count c' = 0" for c'
    using sha.digest_pieces(1) [OF that assms(2), of s] by simp
  show "fst (av_sha_final s (foldl (av_sha_update s) c' ds)) = sha_hash bits (concat ds)"
    unfolding c'_def using assms(1,3)
    by (auto simp: av_sha_init_def Let_def d sha_ok_def sha_absorb)
  have "sha_ok c'" "sha_count c' = 0"
    using assms(1,3) by (auto simp: c'_def av_sha_init_def Let_def sha_ok_def)
  then show "sha_ok (snd (av_sha_final s (foldl (av_sha_update s) c' ds)))"
    using assms(2) by (rule sha.digest_pieces(2))
qed

text \<open>C20: for the three digest lengths \<open>av_sha_init\<close> accepts, updating the context with any pieces of a
  message and finishing gives the SHA-1, SHA-224 or SHA-256 digest of the whole message as FIPS 180-4 defines it
  (\<open>ShaStandard\<close>), in both configurations; other lengths are refused.\<close>

theorem av_sha_correct:
  assumes "length (sha_buffer c) = 64" and "\<forall>d\<in>set ds. length d < 2 ^ 31"
  shows "case av_sha_init c bits of
      (None, c') \<Rightarrow> bits \<in> {160, 224, 256} \<and>
        fst (av_sha_final s (foldl (av_sha_update s) c' ds)) = sha_hash bits (concat ds)
    | (Some e, c') \<Rightarrow> e = EINVAL \<and> bits \<notin> {160, 224, 256}"
  using sha_digest [of c ds bits s] assms
  by (auto simp: av_sha_init_def sha_ok_def small_def Let_def)

text \<open>The digest of "abc" that the standard publishes.\<close>

theorem av_sha_correct_witness:
  "fst (av_sha_final False (foldl (av_sha_update False) (snd (av_sha_init av_sha_alloc 256)) [[97, 98], [99]])) =
   sha_hash 256 [97, 98, 99] \<and>
   sha_hash 256 [97, 98, 99] =
     [0xba, 0x78, 0x16, 0xbf, 0x8f, 0x01, 0xcf, 0xea, 0x41, 0x41, 0x40, 0xde, 0x5d, 0xae, 0x22, 0x23,
      0xb0, 0x03, 0x61, 0xa3, 0x96, 0x17, 0x7a, 0x9c, 0xb4, 0x10, 0xff, 0x61, 0xf2, 0x00, 0x15, 0xad]"
proof -
  have "fst (av_sha_final False (foldl (av_sha_update False) (snd (av_sha_init av_sha_alloc 256)) [[97, 98], [99]])) =
     [0xba, 0x78, 0x16, 0xbf, 0x8f, 0x01, 0xcf, 0xea, 0x41, 0x41, 0x40, 0xde, 0x5d, 0xae, 0x22, 0x23,
      0xb0, 0x03, 0x61, 0xa3, 0x96, 0x17, 0x7a, 0x9c, 0xb4, 0x10, 0xff, 0x61, 0xf2, 0x00, 0x15, 0xad]"
    by code_simp
  then show ?thesis
    using av_sha_correct [of av_sha_alloc "[[97, 98], [99]]" 256 False]
    by (simp add: av_sha_alloc_def av_sha_init_def Let_def)
qed

end
