(* ===== verification/AvSha512.thy ===== *)
theory AvSha512 imports ShaStandard
begin

text \<open>
  \<open>libavutil/sha512.c\<close>: SHA-512, SHA-384, SHA-512/256 and SHA-512/224, on 64-bit words and blocks of
  128 bytes; the length field is 16 bytes, written in two updates. The digests are those of FIPS 180-4 (\<open>ShaStandard\<close>).
\<close>

section \<open>The transform\<close>

definition ror64 :: "u64 \<Rightarrow> nat \<Rightarrow> u64" where
  "ror64 v n = shr v n OR shl v (64 - n)"

definition K512 :: "u64 list" where
  "K512 =
     [0x428a2f98d728ae22, 0x7137449123ef65cd, 0xb5c0fbcfec4d3b2f, 0xe9b5dba58189dbbc,
      0x3956c25bf348b538, 0x59f111f1b605d019, 0x923f82a4af194f9b, 0xab1c5ed5da6d8118,
      0xd807aa98a3030242, 0x12835b0145706fbe, 0x243185be4ee4b28c, 0x550c7dc3d5ffb4e2,
      0x72be5d74f27b896f, 0x80deb1fe3b1696b1, 0x9bdc06a725c71235, 0xc19bf174cf692694,
      0xe49b69c19ef14ad2, 0xefbe4786384f25e3, 0x0fc19dc68b8cd5b5, 0x240ca1cc77ac9c65,
      0x2de92c6f592b0275, 0x4a7484aa6ea6e483, 0x5cb0a9dcbd41fbd4, 0x76f988da831153b5,
      0x983e5152ee66dfab, 0xa831c66d2db43210, 0xb00327c898fb213f, 0xbf597fc7beef0ee4,
      0xc6e00bf33da88fc2, 0xd5a79147930aa725, 0x06ca6351e003826f, 0x142929670a0e6e70,
      0x27b70a8546d22ffc, 0x2e1b21385c26c926, 0x4d2c6dfc5ac42aed, 0x53380d139d95b3df,
      0x650a73548baf63de, 0x766a0abb3c77b2a8, 0x81c2c92e47edaee6, 0x92722c851482353b,
      0xa2bfe8a14cf10364, 0xa81a664bbc423001, 0xc24b8b70d0f89791, 0xc76c51a30654be30,
      0xd192e819d6ef5218, 0xd69906245565a910, 0xf40e35855771202a, 0x106aa07032bbd1b8,
      0x19a4c116b8d2d0c8, 0x1e376c085141ab53, 0x2748774cdf8eeb99, 0x34b0bcb5e19b48a8,
      0x391c0cb3c5c95a63, 0x4ed8aa4ae3418acb, 0x5b9cca4f7763e373, 0x682e6ff3d6b2b8a3,
      0x748f82ee5defb2fc, 0x78a5636f43172f60, 0x84c87814a1f0ab72, 0x8cc702081a6439ec,
      0x90befffa23631e28, 0xa4506cebde82bde9, 0xbef9a3f7b2c67915, 0xc67178f2e372532b,
      0xca273eceea26619c, 0xd186b8c721c0c207, 0xeada7dd6cde0eb1e, 0xf57d4f7fee6ed178,
      0x06f067aa72176fba, 0x0a637dc5a2c898a6, 0x113f9804bef90dae, 0x1b710b35131c471b,
      0x28db77f523047d84, 0x32caab7b40c72493, 0x3c9ebe0a15c9bebc, 0x431d67c49c100d4c,
      0x4cc5d4becb3e42b6, 0x597f299cfc657e2a, 0x5fcb6fab3ad6faec, 0x6c44198c4a475817]"

text \<open>The macros \<open>Ch\<close>, \<open>Maj\<close> and the four sums.\<close>

definition sha512_Ch :: "u64 \<Rightarrow> u64 \<Rightarrow> u64 \<Rightarrow> u64" where
  "sha512_Ch x y z = (x AND (y XOR z)) XOR z"

definition sha512_Maj :: "u64 \<Rightarrow> u64 \<Rightarrow> u64 \<Rightarrow> u64" where
  "sha512_Maj z y x = ((x OR y) AND z) OR (x AND y)"

definition sha512_Sigma0 :: "u64 \<Rightarrow> u64" where
  "sha512_Sigma0 x = ror64 x 28 XOR ror64 x 34 XOR ror64 x 39"

definition sha512_Sigma1 :: "u64 \<Rightarrow> u64" where
  "sha512_Sigma1 x = ror64 x 14 XOR ror64 x 18 XOR ror64 x 41"

definition sha512_sigma0 :: "u64 \<Rightarrow> u64" where
  "sha512_sigma0 x = ror64 x 1 XOR ror64 x 8 XOR shr x 7"

definition sha512_sigma1 :: "u64 \<Rightarrow> u64" where
  "sha512_sigma1 x = ror64 x 19 XOR ror64 x 61 XOR shr x 6"

text \<open>\<open>blk0(i)\<close> and \<open>blk(i)\<close> write entry \<open>i\<close> of the schedule; the list holds the entries written so far.\<close>

definition sha512_blk0 :: "bytes \<Rightarrow> nat \<Rightarrow> u64 list \<Rightarrow> u64 list" where
  "sha512_blk0 buffer i block = block @ [AV_RB64 buffer (8 * i)]"

definition sha512_blk :: "nat \<Rightarrow> u64 list \<Rightarrow> u64 list" where
  "sha512_blk i block = block @ [(block ! (i - 16)) + sha512_sigma0 (block ! (i - 15)) +
     sha512_sigma1 (block ! (i - 2)) + (block ! (i - 7))]"

definition sha512_schedule :: "bytes \<Rightarrow> nat \<Rightarrow> u64 list \<Rightarrow> u64 list" where
  "sha512_schedule buffer i block = (if i < 16 then sha512_blk0 buffer i block else sha512_blk i block)"

text \<open>The variables \<open>a\<close> to \<open>h\<close> and the schedule.\<close>

type_synonym sha512_vars = "(u64 \<times> u64 \<times> u64 \<times> u64 \<times> u64 \<times> u64 \<times> u64 \<times> u64) \<times> u64 list"

text \<open>The round macro: \<open>T1\<close> from the schedule, then the assignments to \<open>d\<close> and \<open>h\<close>.\<close>

fun sha512_ROUND :: "bytes \<Rightarrow> nat \<Rightarrow> sha512_vars \<Rightarrow> sha512_vars" where
  "sha512_ROUND buffer i ((a, b, c, d, e, f, g, h), block) =
     (let block = sha512_schedule buffer i block;
          T1 = block ! i + (h + sha512_Sigma1 e + sha512_Ch e f g + K512 ! i);
          d = d + T1;
          h = T1 + sha512_Sigma0 a + sha512_Maj a b c
      in ((a, b, c, d, e, f, g, h), block))"

text \<open>The unrolled text: line \<open>i\<close> calls the macro on the names in rotated order.\<close>

fun sha512_line :: "bytes \<Rightarrow> sha512_vars \<Rightarrow> nat \<Rightarrow> sha512_vars" where
  "sha512_line buffer ((a, b, c, d, e, f, g, h), block) i =
     (if i mod 8 = 0 then let ((a, b, c, d, e, f, g, h), block) = sha512_ROUND buffer i ((a, b, c, d, e, f, g, h), block) in ((a, b, c, d, e, f, g, h), block)
      else if i mod 8 = 1 then let ((h, a, b, c, d, e, f, g), block) = sha512_ROUND buffer i ((h, a, b, c, d, e, f, g), block) in ((a, b, c, d, e, f, g, h), block)
      else if i mod 8 = 2 then let ((g, h, a, b, c, d, e, f), block) = sha512_ROUND buffer i ((g, h, a, b, c, d, e, f), block) in ((a, b, c, d, e, f, g, h), block)
      else if i mod 8 = 3 then let ((f, g, h, a, b, c, d, e), block) = sha512_ROUND buffer i ((f, g, h, a, b, c, d, e), block) in ((a, b, c, d, e, f, g, h), block)
      else if i mod 8 = 4 then let ((e, f, g, h, a, b, c, d), block) = sha512_ROUND buffer i ((e, f, g, h, a, b, c, d), block) in ((a, b, c, d, e, f, g, h), block)
      else if i mod 8 = 5 then let ((d, e, f, g, h, a, b, c), block) = sha512_ROUND buffer i ((d, e, f, g, h, a, b, c), block) in ((a, b, c, d, e, f, g, h), block)
      else if i mod 8 = 6 then let ((c, d, e, f, g, h, a, b), block) = sha512_ROUND buffer i ((c, d, e, f, g, h, a, b), block) in ((a, b, c, d, e, f, g, h), block)
      else let ((b, c, d, e, f, g, h, a), block) = sha512_ROUND buffer i ((b, c, d, e, f, g, h, a), block) in ((a, b, c, d, e, f, g, h), block))"

text \<open>A turn of the loop of \<open>CONFIG_SMALL\<close>.\<close>

fun sha512_step :: "bytes \<Rightarrow> sha512_vars \<Rightarrow> nat \<Rightarrow> sha512_vars" where
  "sha512_step buffer ((a, b, c, d, e, f, g, h), block) i =
     (let block = sha512_schedule buffer i block;
          T1 = block ! i + (h + sha512_Sigma1 e + sha512_Ch e f g + K512 ! i);
          T2 = sha512_Sigma0 a + sha512_Maj a b c;
          h = g; g = f; f = e; e = d + T1; d = c; c = b; b = a; a = T1 + T2
      in ((a, b, c, d, e, f, g, h), block))"

definition sha512_transform :: "bool \<Rightarrow> u64 list \<Rightarrow> bytes \<Rightarrow> u64 list" where
  "sha512_transform config_small state buffer =
     (let ((a, b, c, d, e, f, g, h), block) =
        foldl (if config_small then sha512_step buffer else sha512_line buffer)
          ((state ! 0, state ! 1, state ! 2, state ! 3, state ! 4, state ! 5, state ! 6, state ! 7), []) [0..<80]
      in state[0 := state ! 0 + a, 1 := state ! 1 + b, 2 := state ! 2 + c, 3 := state ! 3 + d,
               4 := state ! 4 + e, 5 := state ! 5 + f, 6 := state ! 6 + g, 7 := state ! 7 + h])"

text \<open>The two loops agree.\<close>

fun sha512_sh :: "sha512_vars \<Rightarrow> sha512_vars" where
  "sha512_sh ((a, b, c, d, e, f, g, h), block) = ((h, a, b, c, d, e, f, g), block)"

fun sha512_un :: "sha512_vars \<Rightarrow> sha512_vars" where
  "sha512_un ((h, a, b, c, d, e, f, g), block) = ((a, b, c, d, e, f, g, h), block)"

lemma sha512_loops_agree: "foldl (sha512_step buffer) v [0..<80] = foldl (sha512_line buffer) v [0..<80]"
proof -
  have "foldl (sha512_step buffer) v [0..<80] = (sha512_sh ^^ (80 mod 8)) (foldl (sha512_line buffer) v [0..<80])"
  proof (rule rotating_loop [where un = sha512_un and R = "sha512_ROUND buffer"])
    show "sha512_un (sha512_sh v) = v" "(sha512_sh ^^ 8) v = v" for v
      by (cases v rule: sha512_sh.cases; simp add: rotate_simps)+
    show "sha512_line buffer v n = (sha512_un ^^ (n mod 8)) (sha512_ROUND buffer n ((sha512_sh ^^ (n mod 8)) v))" for n v
      using mod_8_cases [of n]
      by (cases v rule: sha512_sh.cases) (elim disjE; simp add: rotate_simps Let_def split: prod.split)
    show "sha512_step buffer v n = sha512_sh (sha512_ROUND buffer n v)" for n v
      by (cases v rule: sha512_sh.cases) (simp add: Let_def add.assoc)
  qed simp
  then show ?thesis by simp
qed

lemma sha512_transform_agree: "sha512_transform config_small = sha512_transform False"
  by (intro ext) (simp add: sha512_transform_def sha512_loops_agree)

section \<open>The transform is that of the standard\<close>

lemma ror64_rotr: "n < 64 \<Longrightarrow> ror64 v n = word_rotr n v"
  by (simp add: ror64_def rotr_shifts)

lemma K512_standard: "t < 80 \<Longrightarrow> sha512_K t = K512 ! t"
proof -
  have "list_all (\<lambda>(p, i, k). frac_check 64 3 p i (unat k)) (zip hash_primes (zip prime_cbrts K512))"
    by (simp add: hash_primes_def prime_cbrts_def K512_def frac_check_def root_check_def)
  moreover have "length hash_primes = 80" "length prime_cbrts = 80" "length K512 = 80"
    by (simp_all add: hash_primes_def prime_cbrts_def K512_def)
  moreover assume "t < 80"
  ultimately have "frac_check 64 3 (hash_primes ! t) (prime_cbrts ! t) (unat (K512 ! t))"
    by (auto simp: list_all_length)
  from frac_bits_eq [OF this] show ?thesis by (simp add: sha512_K_def)
qed

lemma sha512_functions:
  "sha512_Sigma0 x = fips_Sigma512_0 x" "sha512_Sigma1 x = fips_Sigma512_1 x"
  "sha512_sigma0 x = fips_sigma512_0 x" "sha512_sigma1 x = fips_sigma512_1 x"
  "sha512_Ch x y z = fips_Ch x y z" "sha512_Maj x y z = fips_Maj x y z"
  by (simp_all add: sha512_Sigma0_def sha512_Sigma1_def sha512_sigma0_def sha512_sigma1_def sha512_Ch_def sha512_Maj_def
    fips_Sigma512_0_def fips_Sigma512_1_def fips_sigma512_0_def fips_sigma512_1_def fips_Ch_form fips_Maj_form(2) ror64_rotr)

lemma sha512_step_round:
  fixes buffer :: bytes
  assumes "t < 80"
  defines "W \<equiv> sha2_W fips_sigma512_0 fips_sigma512_1 (\<lambda>t. AV_RB64 buffer (8 * t))"
  shows "sha512_step buffer (v, map W [0..<t]) t =
    (sha2_round fips_Sigma512_0 fips_Sigma512_1 sha512_K W v t, map W [0..<Suc t])"
proof -
  have w: "W t = (if t < 16 then AV_RB64 buffer (8 * t)
      else fips_sigma512_1 (W (t - 2)) + W (t - 7) + fips_sigma512_0 (W (t - 15)) + W (t - 16))"
    unfolding W_def by (rule sha2_W.simps)
  have b: "sha512_schedule buffer t (map W [0..<t]) = map W [0..<Suc t]"
    using w by (simp add: sha512_schedule_def sha512_blk0_def sha512_blk_def sha512_functions ac_simps)
  show ?thesis
    using assms(1) by (cases v rule: list8.cases) (simp add: b Let_def sha512_functions K512_standard ac_simps del: upt_Suc)
qed

lemma sha512_rounds:
  fixes buffer :: bytes
  defines "W \<equiv> sha2_W fips_sigma512_0 fips_sigma512_1 (\<lambda>t. AV_RB64 buffer (8 * t))"
  shows "t \<le> 80 \<Longrightarrow> foldl (sha512_step buffer) (v, []) [0..<t] =
    (foldl (sha2_round fips_Sigma512_0 fips_Sigma512_1 sha512_K W) v [0..<t], map W [0..<t])"
  by (induction t) (simp_all add: W_def sha512_step_round)

lemma sha512_transform_compress:
  assumes "st = list8 h"
  shows "sha512_transform s st buffer = list8 (sha512_compress h buffer)"
proof -
  obtain a b c d e f g i where h: "h = (a, b, c, d, e, f, g, i)" by (cases h rule: list8.cases)
  have "sha512_transform s st buffer = sha512_transform True st buffer" by (subst (1 2) sha512_transform_agree) simp
  then show ?thesis
    by (cases "foldl (sha2_round fips_Sigma512_0 fips_Sigma512_1 sha512_K
        (sha2_W fips_sigma512_0 fips_sigma512_1 (\<lambda>t. AV_RB64 buffer (8 * t)))) (a, b, c, d, e, f, g, i) [0..<80]" rule: list8.cases)
      (simp add: sha512_transform_def sha512_rounds sha512_compress_def h assms add.commute del: upt_rec_numeral)
qed

section \<open>The context and its functions\<close>

record AVSHA512 =
  sha512_digest_len :: nat
  sha512_count :: u64
  sha512_buffer :: bytes
  sha512_state :: "u64 list"

text \<open>The zeroed context of \<open>av_sha512_alloc\<close>.\<close>

definition av_sha512_alloc :: AVSHA512 where
  "av_sha512_alloc = \<lparr>sha512_digest_len = 0, sha512_count = 0, sha512_buffer = replicate 128 0, sha512_state = replicate 8 0\<rparr>"

definition sha512_init_224 :: "u64 list" where
  "sha512_init_224 =
     [0x8C3D37C819544DA2, 0x73E1996689DCD4D6, 0x1DFAB7AE32FF9C82, 0x679DD514582F9FCF,
      0x0F6D2B697BD44DA8, 0x77E36F7304C48942, 0x3F9D85A86A1D36C8, 0x1112E6AD91D692A1]"

definition sha512_init_256 :: "u64 list" where
  "sha512_init_256 =
     [0x22312194FC2BF72C, 0x9F555FA3C84C64C2, 0x2393B86B6F53B151, 0x963877195940EABD,
      0x96283EE2A88EFFE3, 0xBE5E1E2553863992, 0x2B0199FC2C85B8AA, 0x0EB72DDC81C52CA2]"

definition sha512_init_384 :: "u64 list" where
  "sha512_init_384 =
     [0xCBBB9D5DC1059ED8, 0x629A292A367CD507, 0x9159015A3070DD17, 0x152FECD8F70E5939,
      0x67332667FFC00B31, 0x8EB44A8768581511, 0xDB0C2E0D64F98FA7, 0x47B5481DBEFA4FA4]"

definition sha512_init_512 :: "u64 list" where
  "sha512_init_512 =
     [0x6A09E667F3BCC908, 0xBB67AE8584CAA73B, 0x3C6EF372FE94F82B, 0xA54FF53A5F1D36F1,
      0x510E527FADE682D1, 0x9B05688C2B3E6C1F, 0x1F83D9ABFB41BD6B, 0x5BE0CD19137E2179]"

text \<open>The return value and the context, which the error path has changed too: \<open>digest_len\<close> is set first.\<close>

definition av_sha512_init :: "AVSHA512 \<Rightarrow> int \<Rightarrow> averror option \<times> AVSHA512" where
  "av_sha512_init ctx bits =
     (let ctx = ctx\<lparr>sha512_digest_len := nat (bits div 64 mod 256)\<rparr>
      in if bits = 224 then (None, ctx\<lparr>sha512_state := sha512_init_224, sha512_count := 0\<rparr>)
         else if bits = 256 then (None, ctx\<lparr>sha512_state := sha512_init_256, sha512_count := 0\<rparr>)
         else if bits = 384 then (None, ctx\<lparr>sha512_state := sha512_init_384, sha512_count := 0\<rparr>)
         else if bits = 512 then (None, ctx\<lparr>sha512_state := sha512_init_512, sha512_count := 0\<rparr>)
         else (Some EINVAL, ctx))"

definition av_sha512_update :: "bool \<Rightarrow> AVSHA512 \<Rightarrow> bytes \<Rightarrow> AVSHA512" where
  "av_sha512_update config_small ctx data =
     (let j = unat (sha512_count ctx AND 127);
          ctx = ctx\<lparr>sha512_count := sha512_count ctx + of_nat (length data)\<rparr>;
          (state, buffer) = buffer_update config_small 128 (sha512_transform config_small)
            (sha512_state ctx) (sha512_buffer ctx) j data
      in ctx\<lparr>sha512_state := state, sha512_buffer := buffer\<rparr>)"

text \<open>The digest; an odd number of words stands for SHA-512/224, whose last word is cut to 32 bits.\<close>

text \<open>The digest, and the context as it is left.\<close>

definition av_sha512_final :: "bool \<Rightarrow> AVSHA512 \<Rightarrow> bytes \<times> AVSHA512" where
  "av_sha512_final config_small ctx =
     (let finalcount = AV_WB64 (shl (sha512_count ctx) 3);
          ctx = av_sha512_update config_small ctx [0x80];
          ctx = pad_loop sha512_count (av_sha512_update config_small) 127 112 ctx;
          ctx = av_sha512_update config_small ctx (AV_WB64 0);
          ctx = av_sha512_update config_small ctx finalcount;
          n = sha512_digest_len ctx
      in (concat (map (\<lambda>i. AV_WB64 (sha512_state ctx ! i)) [0..<n]) @
         (if odd n then AV_WB32 (ucast (shr (sha512_state ctx ! n) 32)) else []), ctx))"

section \<open>The context is a view of the message\<close>

definition sha512_ok :: "AVSHA512 \<Rightarrow> bool" where
  "sha512_ok c \<longleftrightarrow> length (sha512_buffer c) = 128"

definition sha512_out :: "nat \<Rightarrow> u64 list \<Rightarrow> bytes" where
  "sha512_out n v = concat (map (\<lambda>i. AV_WB64 (v ! i)) [0..<n]) @
     (if odd n then AV_WB32 (ucast (shr (v ! n) 32)) else [])"

lemma sha512_update_frame [simp]:
  "sha512_count (av_sha512_update s c d) = sha512_count c + of_nat (length d)"
  "sha512_digest_len (av_sha512_update s c d) = sha512_digest_len c"
  by (simp_all add: av_sha512_update_def Let_def split: prod.split)

interpretation sha512: md_hash 128 sha512_ok "\<lambda>_. sha512_transform False" sha512_state sha512_buffer
  sha512_count "av_sha512_update s" "\<lambda>v. [AV_WB64 0, AV_WB64 v]" "\<lambda>c. sha512_out (sha512_digest_len c)"
  "av_sha512_final s" for s
proof unfold_locales
  fix c and d :: bytes
  assume "sha512_ok c"
  then have c: "length (sha512_buffer c) = 128" "unat (sha512_count c) mod 128 < 128" by (simp_all add: sha512_ok_def)
  note u = buffer_update_absorb [OF c refl, where config_small = s and tr = "sha512_transform s" and
    st = "sha512_state c" and data = d]
  then show "sha512_ok (av_sha512_update s c d)"
    by (simp add: sha512_ok_def av_sha512_update_def Let_def split_def unat_and_127)
  show "absorb 128 (sha512_transform False) (sha512_state c) (take (unat (sha512_count c) mod 128) (sha512_buffer c) @ d) =
    (sha512_state (av_sha512_update s c d),
     take (unat (sha512_count c + of_nat (length d)) mod 128) (sha512_buffer (av_sha512_update s c d)))"
    using u unfolding unat_add_mod
    by (simp add: av_sha512_update_def Let_def split_def unat_and_127 sha512_transform_agree [of s])
next
  show "av_sha512_final s c = (let c' = foldl (av_sha512_update s) (pad_loop sha512_count (av_sha512_update s) (of_nat (128 - 1))
      (of_nat (128 - length (concat [AV_WB64 0, AV_WB64 0]))) (av_sha512_update s c [0x80])) [AV_WB64 0, AV_WB64 (shl (sha512_count c) 3)]
    in (sha512_out (sha512_digest_len c') (sha512_state c'), c'))" for c
    by (simp add: av_sha512_final_def Let_def sha512_out_def)
qed (auto simp: sha512_ok_def)

section \<open>Properties\<close>

text \<open>The start values are those of the standard.\<close>

lemma sha512_inits:
  "sha512_init_224 = list8 sha512_224_IV" "sha512_init_256 = list8 sha512_256_IV"
  "sha512_init_384 = list8 sha384_IV" "sha512_init_512 = list8 sha512_IV"
proof -
  have "frac_check 64 2 2 1 0x6A09E667F3BCC908" "frac_check 64 2 3 1 0xBB67AE8584CAA73B" "frac_check 64 2 5 2 0x3C6EF372FE94F82B"
    "frac_check 64 2 7 2 0xA54FF53A5F1D36F1" "frac_check 64 2 11 3 0x510E527FADE682D1" "frac_check 64 2 13 3 0x9B05688C2B3E6C1F"
    "frac_check 64 2 17 4 0x1F83D9ABFB41BD6B" "frac_check 64 2 19 4 0x5BE0CD19137E2179"
    by (simp_all add: frac_check_def root_check_def)
  note k512 = this [THEN frac_bits_eq]
  show "sha512_init_512 = list8 sha512_IV"
    by (simp add: sha512_init_512_def sha512_IV_def eight_def hash_primes_def k512)
  have "frac_check 64 2 23 4 0xCBBB9D5DC1059ED8" "frac_check 64 2 29 5 0x629A292A367CD507" "frac_check 64 2 31 5 0x9159015A3070DD17"
    "frac_check 64 2 37 6 0x152FECD8F70E5939" "frac_check 64 2 41 6 0x67332667FFC00B31" "frac_check 64 2 43 6 0x8EB44A8768581511"
    "frac_check 64 2 47 6 0xDB0C2E0D64F98FA7" "frac_check 64 2 53 7 0x47B5481DBEFA4FA4"
    by (simp_all add: frac_check_def root_check_def)
  note k384 = this [THEN frac_bits_eq]
  show "sha512_init_384 = list8 sha384_IV"
    by (simp add: sha512_init_384_def sha384_IV_def eight_def hash_primes_def k384)
qed (simp_all add: sha512_init_224_def sha512_224_IV_def sha512_init_256_def sha512_256_IV_def)

text \<open>The bytes that \<open>av_sha512_final\<close> writes are the leftmost of the eight words.\<close>

lemma sha512_out_take:
  "sha512_out 3 (list8 h) = take 28 (concat (map AV_WB64 (list8 h)))" "sha512_out 4 (list8 h) = take 32 (concat (map AV_WB64 (list8 h)))"
  "sha512_out 6 (list8 h) = take 48 (concat (map AV_WB64 (list8 h)))" "sha512_out 8 (list8 h) = take 64 (concat (map AV_WB64 (list8 h)))"
proof -
  have b: "AV_WB32 (ucast (shr w 32)) = take 4 (AV_WB64 w)" for w :: u64
    by (simp add: AV_WB32_def AV_WB64_def) (intro conjI bit_word_eqI; auto simp: bit_simps)
  show "sha512_out 3 (list8 h) = take 28 (concat (map AV_WB64 (list8 h)))"
    by (cases h rule: list8.cases) (simp add: sha512_out_def b AV_WB64_def upt_rec)
qed (cases h rule: list8.cases; simp add: sha512_out_def AV_WB64_def upt_rec)+

text \<open>The digest of the padded blocks, for the state that each case of the switch sets.\<close>

lemma sha512_absorb:
  assumes "v = list8 h"
  shows "fst (absorb 128 (sha512_transform False) v m) = list8 (fst (absorb 128 sha512_compress h m))"
  using assms by (rule absorb_related) (rule sha512_transform_compress)

lemma sha512_digest:
  assumes "sha512_ok c" and "\<forall>d\<in>set ds. small d" and "bits \<in> {224, 256, 384, 512}"
  defines "c' \<equiv> snd (av_sha512_init c bits)"
  shows "fst (av_sha512_final s (foldl (av_sha512_update s) c' ds)) = sha512_hash bits (concat ds)"
    and "sha512_ok (snd (av_sha512_final s (foldl (av_sha512_update s) c' ds)))"
proof -
  have d: "fst (av_sha512_final s (foldl (av_sha512_update s) c' ds)) = sha512_out (sha512_digest_len c')
      (fst (absorb 128 (sha512_transform False) (sha512_state c') (md_pad 128 (\<lambda>v. AV_WB64 0 @ AV_WB64 v) (concat ds))))"
    if "sha512_ok c'" "sha512_count c' = 0" for c'
    using sha512.digest_pieces(1) [OF that assms(2), of s] by simp
  show "fst (av_sha512_final s (foldl (av_sha512_update s) c' ds)) = sha512_hash bits (concat ds)"
    unfolding c'_def using assms(1,3)
    by (auto simp: av_sha512_init_def Let_def d sha512_ok_def sha512_hash_def sha512_inits [THEN sha512_absorb] sha512_out_take)
  have "sha512_ok c'" "sha512_count c' = 0"
    using assms(1,3) by (auto simp: c'_def av_sha512_init_def Let_def sha512_ok_def)
  then show "sha512_ok (snd (av_sha512_final s (foldl (av_sha512_update s) c' ds)))"
    using assms(2) by (rule sha512.digest_pieces(2))
qed

text \<open>For the four digest lengths \<open>av_sha512_init\<close> accepts, updating the context with any pieces of a
  message and finishing gives the SHA-2 digest of the whole message as FIPS 180-4 defines it, in both configurations; other lengths are refused.\<close>

theorem av_sha512_correct:
  assumes "length (sha512_buffer c) = 128" and "\<forall>d\<in>set ds. length d < 2 ^ 31"
  shows "case av_sha512_init c bits of
      (None, c') \<Rightarrow> bits \<in> {224, 256, 384, 512} \<and>
        fst (av_sha512_final s (foldl (av_sha512_update s) c' ds)) = sha512_hash bits (concat ds)
    | (Some e, c') \<Rightarrow> e = EINVAL \<and> bits \<notin> {224, 256, 384, 512}"
  using sha512_digest [of c ds bits s] assms
  by (auto simp: av_sha512_init_def sha512_ok_def small_def Let_def)

theorem av_sha512_correct_witness:
  "fst (av_sha512_final True (foldl (av_sha512_update True) (snd (av_sha512_init av_sha512_alloc 384)) [[97, 98], [99]])) =
   sha512_hash 384 [97, 98, 99]"
  using av_sha512_correct [of av_sha512_alloc "[[97, 98], [99]]" 384 True]
  by (simp add: av_sha512_alloc_def av_sha512_init_def Let_def)

end
