(* ===== verification/AvHmac.thy ===== *)
theory AvHmac imports AvMd5 AvSha AvSha512
begin

text \<open>
  \<open>libavutil/hmac.c\<close>: keyed hashing over MD5, SHA-1 and SHA-2 through three function pointers. What the
  client needs of a hash is an interface, which the hash files provide; the result is the HMAC of the
  whole message under the key, for every way of cutting the message into updates.
\<close>

section \<open>The function pointers\<close>

datatype AVHMACType = HMAC_MD5 | HMAC_SHA1 | HMAC_SHA224 | HMAC_SHA256 | HMAC_SHA384 | HMAC_SHA512

text \<open>The object behind \<open>void *hash\<close>.\<close>

datatype hash_ctx = Md5_ctx AVMD5 | Sha_ctx AVSHA | Sha512_ctx AVSHA512

text \<open>\<open>c->init\<close>; a pointer of one type is never called on an object of another, where the model leaves
  the object alone.\<close>

fun hmac_init_fn :: "AVHMACType \<Rightarrow> hash_ctx \<Rightarrow> hash_ctx" where
  "hmac_init_fn HMAC_MD5 (Md5_ctx c) = Md5_ctx (av_md5_init c)"
| "hmac_init_fn HMAC_SHA1 (Sha_ctx c) = Sha_ctx (snd (av_sha_init c 160))"
| "hmac_init_fn HMAC_SHA224 (Sha_ctx c) = Sha_ctx (snd (av_sha_init c 224))"
| "hmac_init_fn HMAC_SHA256 (Sha_ctx c) = Sha_ctx (snd (av_sha_init c 256))"
| "hmac_init_fn HMAC_SHA384 (Sha512_ctx c) = Sha512_ctx (snd (av_sha512_init c 384))"
| "hmac_init_fn HMAC_SHA512 (Sha512_ctx c) = Sha512_ctx (snd (av_sha512_init c 512))"
| "hmac_init_fn ty c = c"

text \<open>\<open>c->update\<close> and \<open>c->final\<close>, for a configuration and an alignment of the message.\<close>

fun hmac_update_fn :: "bool \<Rightarrow> bool \<Rightarrow> hash_ctx \<Rightarrow> bytes \<Rightarrow> hash_ctx" where
  "hmac_update_fn s u (Md5_ctx c) d = Md5_ctx (av_md5_update s u c d)"
| "hmac_update_fn s u (Sha_ctx c) d = Sha_ctx (av_sha_update s c d)"
| "hmac_update_fn s u (Sha512_ctx c) d = Sha512_ctx (av_sha512_update s c d)"

fun hmac_final_fn :: "bool \<Rightarrow> bool \<Rightarrow> hash_ctx \<Rightarrow> bytes \<times> hash_ctx" where
  "hmac_final_fn s u (Md5_ctx c) = map_prod id Md5_ctx (av_md5_final s u c)"
| "hmac_final_fn s u (Sha_ctx c) = map_prod id Sha_ctx (av_sha_final s c)"
| "hmac_final_fn s u (Sha512_ctx c) = map_prod id Sha512_ctx (av_sha512_final s c)"

section \<open>The context and its functions\<close>

text \<open>The three function pointers are given by the type they were set for.\<close>

record AVHMAC =
  hmac_hash :: hash_ctx
  hmac_blocklen :: nat
  hmac_hashlen :: nat
  hmac_fns :: AVHMACType
  hmac_key :: bytes
  hmac_keylen :: nat

text \<open>The cases of the switch, on a zeroed context.\<close>

definition hmac_new :: "AVHMACType \<Rightarrow> nat \<Rightarrow> nat \<Rightarrow> hash_ctx \<Rightarrow> AVHMAC" where
  "hmac_new ty blocklen hashlen h = \<lparr>hmac_hash = h, hmac_blocklen = blocklen, hmac_hashlen = hashlen,
     hmac_fns = ty, hmac_key = replicate 128 0, hmac_keylen = 0\<rparr>"

fun av_hmac_alloc :: "AVHMACType \<Rightarrow> AVHMAC" where
  "av_hmac_alloc HMAC_MD5 = hmac_new HMAC_MD5 64 16 (Md5_ctx av_md5_alloc)"
| "av_hmac_alloc HMAC_SHA1 = hmac_new HMAC_SHA1 64 20 (Sha_ctx av_sha_alloc)"
| "av_hmac_alloc HMAC_SHA224 = hmac_new HMAC_SHA224 64 28 (Sha_ctx av_sha_alloc)"
| "av_hmac_alloc HMAC_SHA256 = hmac_new HMAC_SHA256 64 32 (Sha_ctx av_sha_alloc)"
| "av_hmac_alloc HMAC_SHA384 = hmac_new HMAC_SHA384 128 48 (Sha512_ctx av_sha512_alloc)"
| "av_hmac_alloc HMAC_SHA512 = hmac_new HMAC_SHA512 128 64 (Sha512_ctx av_sha512_alloc)"

text \<open>The block of the key xored with a pad byte.\<close>

definition hmac_pad_block :: "AVHMAC \<Rightarrow> u8 \<Rightarrow> bytes" where
  "hmac_pad_block c pad =
     map (\<lambda>i. (hmac_key c ! i) XOR pad) [0..<hmac_keylen c] @ replicate (hmac_blocklen c - hmac_keylen c) pad"

definition av_hmac_init :: "bool \<Rightarrow> bool \<Rightarrow> AVHMAC \<Rightarrow> bytes \<Rightarrow> AVHMAC" where
  "av_hmac_init s u c key =
     (let c = (if length key > hmac_blocklen c then
                 let h = hmac_init_fn (hmac_fns c) (hmac_hash c);
                     h = hmac_update_fn s u h key;
                     (d, h) = hmac_final_fn s u h
                 in c\<lparr>hmac_hash := h, hmac_key := d @ drop (length d) (hmac_key c), hmac_keylen := hmac_hashlen c\<rparr>
               else c\<lparr>hmac_key := key @ drop (length key) (hmac_key c), hmac_keylen := length key\<rparr>);
          h = hmac_init_fn (hmac_fns c) (hmac_hash c)
      in c\<lparr>hmac_hash := hmac_update_fn s u h (hmac_pad_block c 0x36)\<rparr>)"

definition av_hmac_update :: "bool \<Rightarrow> bool \<Rightarrow> AVHMAC \<Rightarrow> bytes \<Rightarrow> AVHMAC" where
  "av_hmac_update s u c data = c\<lparr>hmac_hash := hmac_update_fn s u (hmac_hash c) data\<rparr>"

text \<open>An error, or the length written, the bytes at \<open>out\<close> and the context.\<close>

definition av_hmac_final :: "bool \<Rightarrow> bool \<Rightarrow> AVHMAC \<Rightarrow> nat \<Rightarrow> averror + nat \<times> bytes \<times> AVHMAC" where
  "av_hmac_final s u c outlen =
     (if outlen < hmac_hashlen c then Inl EINVAL
      else let (out, h) = hmac_final_fn s u (hmac_hash c);
               h = hmac_init_fn (hmac_fns c) h;
               h = hmac_update_fn s u h (hmac_pad_block c 0x5C);
               h = hmac_update_fn s u h (take (hmac_hashlen c) out);
               (out, h) = hmac_final_fn s u h
           in Inr (hmac_hashlen c, out, c\<lparr>hmac_hash := h\<rparr>))"

definition av_hmac_calc :: "bool \<Rightarrow> bool \<Rightarrow> AVHMAC \<Rightarrow> bytes \<Rightarrow> bytes \<Rightarrow> nat \<Rightarrow> averror + nat \<times> bytes \<times> AVHMAC" where
  "av_hmac_calc s u c data key outlen =
     av_hmac_final s u (av_hmac_update s u (av_hmac_init s u c key) data) outlen"

section \<open>What a hash promises its client\<close>

text \<open>The keyed hash of a message, for a hash \<open>H\<close> with blocks of \<open>B\<close> bytes: the key, hashed first when
  it is longer than a block, is filled up to a block and xored with the two pad bytes.\<close>

definition block_key :: "(bytes \<Rightarrow> bytes) \<Rightarrow> nat \<Rightarrow> bytes \<Rightarrow> bytes" where
  "block_key H B key = (let k = (if length key > B then H key else key) in k @ replicate (B - length k) 0)"

definition hmac_spec :: "(bytes \<Rightarrow> bytes) \<Rightarrow> nat \<Rightarrow> bytes \<Rightarrow> bytes \<Rightarrow> bytes" where
  "hmac_spec H B key m =
     H (map (\<lambda>b. b XOR 0x5C) (block_key H B key) @ H (map (\<lambda>b. b XOR 0x36) (block_key H B key) @ m))"

locale hash_fn =
  fixes ok :: "'c \<Rightarrow> bool" and init :: "'c \<Rightarrow> 'c" and upd :: "'c \<Rightarrow> bytes \<Rightarrow> 'c" and fin :: "'c \<Rightarrow> bytes \<times> 'c"
    and H :: "bytes \<Rightarrow> bytes" and B :: nat and L :: nat
  assumes init_ok: "ok c \<Longrightarrow> ok (init c)"
    and digest: "ok c \<Longrightarrow> \<forall>d\<in>set ds. small d \<Longrightarrow> fst (fin (foldl upd (init c) ds)) = H (concat ds)"
    and fin_ok: "ok c \<Longrightarrow> \<forall>d\<in>set ds. small d \<Longrightarrow> ok (snd (fin (foldl upd (init c) ds)))"
    and lengths: "length (H m) = L" "L \<le> B" "B \<le> 128"
begin

lemma length_block_key: "length (block_key H B key) = B"
  using lengths by (simp add: block_key_def Let_def)

text \<open>The two passes, from a context that took in the first pad block and the message.\<close>

lemma two_hashes:
  assumes c: "ok c" and ds: "\<forall>d\<in>set ds. small d"
    and k: "k = map (\<lambda>b. b XOR 0x36) (block_key H B key)" "k' = map (\<lambda>b. b XOR 0x5C) (block_key H B key)"
    and inner: "inner = fin (foldl upd (init c) (k # ds))"
  defines "outer \<equiv> fin (upd (upd (init (snd inner)) k') (take L (fst inner)))"
  shows "fst outer = hmac_spec H B key (concat ds)" and "ok (snd outer)"
proof -
  have "small k" "small k'" using k lengths(3) length_block_key by (auto intro: small_simps)
  then have i: "fst inner = H (k @ concat ds)" "ok (snd inner)" and o: "small k'"
    using digest [OF c, of "k # ds"] fin_ok [OF c, of "k # ds"] ds by (simp_all add: inner)
  have "small (H (k @ concat ds))" using lengths by (intro small_simps) auto
  with o have o: "\<forall>d\<in>set [k', H (k @ concat ds)]. small d" by simp
  show "fst outer = hmac_spec H B key (concat ds)" "ok (snd outer)"
    using digest [OF i(2) o] fin_ok [OF i(2) o] lengths i(1) k by (simp_all add: outer_def hmac_spec_def)
qed

end

section \<open>The six hashes keep the promise\<close>

fun hmac_ok :: "AVHMACType \<Rightarrow> hash_ctx \<Rightarrow> bool" where
  "hmac_ok HMAC_MD5 (Md5_ctx c) = md5_ok c"
| "hmac_ok HMAC_SHA1 (Sha_ctx c) = sha_ok c"
| "hmac_ok HMAC_SHA224 (Sha_ctx c) = sha_ok c"
| "hmac_ok HMAC_SHA256 (Sha_ctx c) = sha_ok c"
| "hmac_ok HMAC_SHA384 (Sha512_ctx c) = sha512_ok c"
| "hmac_ok HMAC_SHA512 (Sha512_ctx c) = sha512_ok c"
| "hmac_ok ty c = False"

fun hmac_H :: "AVHMACType \<Rightarrow> bytes \<Rightarrow> bytes" where
  "hmac_H HMAC_MD5 = md5_hash"
| "hmac_H HMAC_SHA1 = sha_hash 160"
| "hmac_H HMAC_SHA224 = sha_hash 224"
| "hmac_H HMAC_SHA256 = sha_hash 256"
| "hmac_H HMAC_SHA384 = sha512_hash 384"
| "hmac_H HMAC_SHA512 = sha512_hash 512"

fun hmac_B :: "AVHMACType \<Rightarrow> nat" where
  "hmac_B HMAC_SHA384 = 128" | "hmac_B HMAC_SHA512 = 128" | "hmac_B _ = 64"

fun hmac_L :: "AVHMACType \<Rightarrow> nat" where
  "hmac_L HMAC_MD5 = 16" | "hmac_L HMAC_SHA1 = 20" | "hmac_L HMAC_SHA224 = 28"
| "hmac_L HMAC_SHA256 = 32" | "hmac_L HMAC_SHA384 = 48" | "hmac_L HMAC_SHA512 = 64"

lemma hmac_pieces [simp]:
  "foldl (hmac_update_fn s u) (Md5_ctx c1) ds = Md5_ctx (foldl (av_md5_update s u) c1 ds)"
  "foldl (hmac_update_fn s u) (Sha_ctx c2) ds = Sha_ctx (foldl (av_sha_update s) c2 ds)"
  "foldl (hmac_update_fn s u) (Sha512_ctx c3) ds = Sha512_ctx (foldl (av_sha512_update s) c3 ds)"
  by (induction ds arbitrary: c1 c2 c3) simp_all

lemma hash_lengths:
  "length (md5_hash m) = 16" "length (sha_hash 160 m) = 20" "length (sha_hash 224 m) = 28" "length (sha_hash 256 m) = 32"
  "length (sha512_hash 384 m) = 48" "length (sha512_hash 512 m) = 64"
  by (rule length_md5_hash length_sha_hash length_sha512_hash)+

interpretation hmac: hash_fn "hmac_ok ty" "hmac_init_fn ty" "hmac_update_fn s u" "hmac_final_fn s u"
  "hmac_H ty" "hmac_B ty" "hmac_L ty" for ty s u
proof unfold_locales
  fix c
  assume ok: "hmac_ok ty c"
  then show "hmac_ok ty (hmac_init_fn ty c)"
    by (cases "(ty, c)" rule: hmac_ok.cases)
      (auto simp: md5_ok_def av_md5_init_def sha_ok_def av_sha_init_def sha512_ok_def av_sha512_init_def Let_def)
  fix ds :: "bytes list"
  assume "\<forall>d\<in>set ds. small d"
  with ok show "fst (hmac_final_fn s u (foldl (hmac_update_fn s u) (hmac_init_fn ty c) ds)) = hmac_H ty (concat ds)"
    "hmac_ok ty (snd (hmac_final_fn s u (foldl (hmac_update_fn s u) (hmac_init_fn ty c) ds)))"
    by (cases "(ty, c)" rule: hmac_ok.cases; simp add: md5_digest sha_digest sha512_digest)+
next
  show "length (hmac_H ty m) = hmac_L ty" for m by (cases ty) (simp_all add: hash_lengths)
  show "hmac_L ty \<le> hmac_B ty" "hmac_B ty \<le> 128" by (cases ty; simp)+
qed

section \<open>The keyed hash of the message\<close>

text \<open>A context as \<open>av_hmac_alloc\<close> makes it and the other functions leave it.\<close>

definition hmac_wf :: "AVHMACType \<Rightarrow> AVHMAC \<Rightarrow> bool" where
  "hmac_wf ty c \<longleftrightarrow> hmac_fns c = ty \<and> hmac_blocklen c = hmac_B ty \<and> hmac_hashlen c = hmac_L ty \<and>
     length (hmac_key c) = 128 \<and> hmac_ok ty (hmac_hash c)"

lemma hmac_wf_alloc: "hmac_wf ty (av_hmac_alloc ty)"
  by (cases ty) (simp_all add: hmac_wf_def hmac_new_def md5_ok_def av_md5_alloc_def sha_ok_def av_sha_alloc_def
    sha512_ok_def av_sha512_alloc_def)

lemma pad_block_key:
  assumes "hmac_key c = k @ r" and "hmac_keylen c = length k" and "hmac_blocklen c = B"
  shows "hmac_pad_block c p = map (\<lambda>b. b XOR p) (k @ replicate (B - length k) 0)"
proof -
  have "map (\<lambda>i. (k @ r) ! i XOR p) [0..<length k] = map (\<lambda>b. b XOR p) k"
    by (rule nth_equalityI) (simp_all add: nth_append)
  with assms show ?thesis by (simp add: hmac_pad_block_def)
qed

text \<open>The first pass: a good hash context, the key in its place, and the first pad block taken in.\<close>

lemma av_hmac_init_view:
  assumes "hmac_wf ty c" and "small key"
  obtains c1 where "hmac_wf ty c1" and "\<And>p. hmac_pad_block c1 p = map (\<lambda>b. b XOR p) (block_key (hmac_H ty) (hmac_B ty) key)"
    and "av_hmac_init s u c key = c1\<lparr>hmac_hash := hmac_update_fn s u (hmac_init_fn ty (hmac_hash c1)) (hmac_pad_block c1 0x36)\<rparr>"
proof (cases "length key > hmac_blocklen c")
  case True
  let ?f = "hmac_final_fn s u (hmac_update_fn s u (hmac_init_fn ty (hmac_hash c)) key)"
  have c: "hmac_ok ty (hmac_hash c)" and key: "\<forall>d\<in>set [key]. small d" using assms by (simp_all add: hmac_wf_def)
  have f: "fst ?f = hmac_H ty key" "hmac_ok ty (snd ?f)"
    using hmac.digest [OF c key, of s u] hmac.fin_ok [OF c key, of s u] by simp_all
  let ?c = "c\<lparr>hmac_hash := snd ?f, hmac_key := fst ?f @ drop (length (fst ?f)) (hmac_key c), hmac_keylen := hmac_hashlen c\<rparr>"
  have l: "length (hmac_H ty key) = hmac_L ty" "hmac_L ty \<le> 128"
    using hmac.lengths [of ty] by (simp_all add: order_trans)
  show ?thesis
  proof (rule that [of ?c])
    show "hmac_wf ty ?c" using assms f l by (simp add: hmac_wf_def)
    show "hmac_pad_block ?c p = map (\<lambda>b. b XOR p) (block_key (hmac_H ty) (hmac_B ty) key)" for p
      using True assms f(1) l
      by (subst pad_block_key [of ?c "fst ?f" _ "hmac_B ty"]) (simp_all add: hmac_wf_def block_key_def)
    show "av_hmac_init s u c key = ?c\<lparr>hmac_hash := hmac_update_fn s u (hmac_init_fn ty (hmac_hash ?c)) (hmac_pad_block ?c 0x36)\<rparr>"
      using True assms by (simp add: av_hmac_init_def Let_def split_def hmac_wf_def)
  qed
next
  case False
  let ?c = "c\<lparr>hmac_key := key @ drop (length key) (hmac_key c), hmac_keylen := length key\<rparr>"
  have "length key \<le> 128" using False assms hmac.lengths(3) [of ty] by (simp add: hmac_wf_def)
  then have wf: "hmac_wf ty ?c" using assms by (simp add: hmac_wf_def)
  show ?thesis
  proof (rule that [of ?c])
    show "hmac_pad_block ?c p = map (\<lambda>b. b XOR p) (block_key (hmac_H ty) (hmac_B ty) key)" for p
      using False assms
      by (subst pad_block_key [of ?c key _ "hmac_B ty"]) (simp_all add: hmac_wf_def block_key_def)
    show "av_hmac_init s u c key = ?c\<lparr>hmac_hash := hmac_update_fn s u (hmac_init_fn ty (hmac_hash ?c)) (hmac_pad_block ?c 0x36)\<rparr>"
      using False assms by (simp add: av_hmac_init_def Let_def hmac_wf_def)
  qed (rule wf)
qed

lemma hmac_updates:
  "foldl (av_hmac_update s u) c ds = c\<lparr>hmac_hash := foldl (hmac_update_fn s u) (hmac_hash c) ds\<rparr>"
  by (induction ds arbitrary: c) (simp_all add: av_hmac_update_def)

text \<open>C18: keying a context, updating it with any pieces of a message and finishing gives the HMAC of the whole
  message under the key, for each of the six hashes, and a context ready for the next key; only a
  buffer too short for the digest is refused.\<close>

theorem av_hmac_correct:
  assumes "hmac_wf ty c" and "small key" and "\<forall>d\<in>set ds. small d"
  shows "case av_hmac_final s u (foldl (av_hmac_update s u) (av_hmac_init s u c key) ds) outlen of
      Inl e \<Rightarrow> e = EINVAL \<and> outlen < hmac_L ty
    | Inr (n, out, c') \<Rightarrow> n = hmac_L ty \<and> hmac_L ty \<le> outlen \<and>
        out = hmac_spec (hmac_H ty) (hmac_B ty) key (concat ds) \<and> hmac_wf ty c'"
proof -
  obtain c1 where c1: "hmac_wf ty c1"
      "\<And>p. hmac_pad_block c1 p = map (\<lambda>b. b XOR p) (block_key (hmac_H ty) (hmac_B ty) key)"
    and i: "av_hmac_init s u c key = c1\<lparr>hmac_hash := hmac_update_fn s u (hmac_init_fn ty (hmac_hash c1)) (hmac_pad_block c1 0x36)\<rparr>"
    using av_hmac_init_view [OF assms(1,2)] by blast
  have p: "hmac_pad_block (c1\<lparr>hmac_hash := h\<rparr>) q = hmac_pad_block c1 q" for h q
    by (simp add: hmac_pad_block_def)
  have ok: "hmac_ok ty (hmac_hash c1)" using c1 by (simp add: hmac_wf_def)
  note two = hmac.two_hashes [OF ok assms(3) c1(2) c1(2) refl, of s u]
  show ?thesis
    using c1(1) two by (simp add: i hmac_updates av_hmac_final_def p hmac_wf_def Let_def split_def)
qed

theorem av_hmac_correct_witness:
  "case av_hmac_final True False (foldl (av_hmac_update True False)
      (av_hmac_init True False (av_hmac_alloc HMAC_SHA1) [1, 2, 3]) [[4], [5, 6]]) 20 of
      Inl e \<Rightarrow> False
    | Inr (n, out, c') \<Rightarrow> n = 20 \<and> out = hmac_spec (sha_hash 160) 64 [1, 2, 3] [4, 5, 6] \<and> hmac_wf HMAC_SHA1 c'"
  using av_hmac_correct [OF hmac_wf_alloc [of HMAC_SHA1], of "[1, 2, 3]" "[[4], [5, 6]]" 20 True False]
  by (auto simp del: av_hmac_alloc.simps split: sum.splits)

end
