(* ===== verification/AvMurmur3.thy ===== *)
theory AvMurmur3 imports HashBlock
begin

text \<open>
  \<open>libavutil/murmur3.c\<close>: the 128-bit MurmurHash3. A context holds the two halves of the value, up to
  16 bytes that are not yet used, and the length. An update that fills the 16 bytes exactly returns before
  the block is used, so that the context may hold a full block; the next update uses it, but
  \<open>av_murmur3_final\<close> takes it for the tail of the message. The lemmas give the digest in both cases.
\<close>

record AVMurMur3 =
  mm_h1 :: u64
  mm_h2 :: u64
  mm_state :: bytes
  mm_state_pos :: nat
  mm_len :: u64

definition av_murmur3_alloc :: AVMurMur3 where
  "av_murmur3_alloc = \<lparr>mm_h1 = 0, mm_h2 = 0, mm_state = replicate 16 0, mm_state_pos = 0, mm_len = 0\<rparr>"

definition av_murmur3_init_seeded :: "AVMurMur3 \<Rightarrow> u64 \<Rightarrow> AVMurMur3" where
  "av_murmur3_init_seeded c seed =
     (let c = c\<lparr>mm_h1 := 0, mm_h2 := 0, mm_state := replicate 16 0, mm_state_pos := 0, mm_len := 0\<rparr>
      in c\<lparr>mm_h1 := seed, mm_h2 := seed\<rparr>)"

definition av_murmur3_init :: "AVMurMur3 \<Rightarrow> AVMurMur3" where
  "av_murmur3_init c = av_murmur3_init_seeded c 0x725acc55daddca55"

section \<open>Mixing\<close>

definition mm_c1 :: u64 where "mm_c1 = 0x87c37b91114253d5"

definition mm_c2 :: u64 where "mm_c2 = 0x4cf5ad432745937f"

definition mm_ROT :: "u64 \<Rightarrow> nat \<Rightarrow> u64" where
  "mm_ROT a b = shl a b OR shr a (64 - b)"

definition get_k1 :: "bytes \<Rightarrow> u64" where
  "get_k1 src = (let k = AV_RL64 src 0; k = k * mm_c1; k = mm_ROT k 31; k = k * mm_c2 in k)"

definition get_k2 :: "bytes \<Rightarrow> u64" where
  "get_k2 src = (let k = AV_RL64 src 8; k = k * mm_c2; k = mm_ROT k 33; k = k * mm_c1 in k)"

definition update_h1 :: "u64 \<Rightarrow> u64 \<Rightarrow> u64 \<Rightarrow> u64" where
  "update_h1 k h1 h2 =
     (let k = k XOR h1; k = mm_ROT k 27; k = k + h2; k = k * 5; k = k + 0x52dce729 in k)"

definition update_h2 :: "u64 \<Rightarrow> u64 \<Rightarrow> u64 \<Rightarrow> u64" where
  "update_h2 k h1 h2 =
     (let k = k XOR h2; k = mm_ROT k 31; k = k + h1; k = k * 5; k = k + 0x38495ab5 in k)"

definition fmix :: "u64 \<Rightarrow> u64" where
  "fmix k = (let k = k XOR shr k 33; k = k * 0xff51afd7ed558ccd; k = k XOR shr k 33;
                 k = k * 0xc4ceb9fe1a85ec53; k = k XOR shr k 33 in k)"

text \<open>One block; the second half is mixed with the new first half.\<close>

definition murmur3_step :: "u64 \<times> u64 \<Rightarrow> bytes \<Rightarrow> u64 \<times> u64" where
  "murmur3_step h src =
     (let (h1, h2) = h; k1 = get_k1 src; k2 = get_k2 src;
          h1 = update_h1 k1 h1 h2; h2 = update_h2 k2 h1 h2
      in (h1, h2))"

section \<open>Update and final\<close>

text \<open>\<open>while (c->state_pos < 16) { c->state[c->state_pos++] = *src++; if (--len <= 0) return; }\<close>: the
  flag says that the function returned.\<close>

fun murmur3_fill :: "bytes \<Rightarrow> nat \<Rightarrow> bytes \<Rightarrow> bytes \<times> nat \<times> bytes \<times> bool" where
  "murmur3_fill st pos [] = (st, pos, [], True)"
| "murmur3_fill st pos (b # src) =
     (if pos < 16
      then (if src = [] then (st[pos := b], pos + 1, [], True) else murmur3_fill (st[pos := b]) (pos + 1) src)
      else (st, pos, b # src, False))"

text \<open>\<open>while (src < end)\<close>, with the offset of \<open>src\<close>; gives that offset too.\<close>

function murmur3_blocks :: "bytes \<Rightarrow> nat \<Rightarrow> u64 \<times> u64 \<Rightarrow> nat \<Rightarrow> (u64 \<times> u64) \<times> nat" where
  "murmur3_blocks src e h i =
     (if i < e then murmur3_blocks src e (murmur3_step h (take 16 (drop i src))) (i + 16) else (h, i))"
  by pat_completeness auto
termination by (relation "measure (\<lambda>(src, e, h, i). e - i)") auto

declare murmur3_blocks.simps [simp del]

text \<open>From \<open>end = src + (len & ~15)\<close> on: the blocks of the message itself, the rest into the state.\<close>

definition murmur3_rest :: "AVMurMur3 \<Rightarrow> bytes \<Rightarrow> u64 \<times> u64 \<Rightarrow> AVMurMur3" where
  "murmur3_rest c src h =
     (let (h, i) = murmur3_blocks src (length src - length src mod 16) h 0;
          c = c\<lparr>mm_h1 := fst h, mm_h2 := snd h\<rparr>;
          len = length src mod 16
      in if len > 0
         then c\<lparr>mm_state := take len (drop i src) @ drop len (mm_state c), mm_state_pos := len\<rparr>
         else c)"

definition av_murmur3_update :: "AVMurMur3 \<Rightarrow> bytes \<Rightarrow> AVMurMur3" where
  "av_murmur3_update c src =
     (if src = [] then c
      else
        let h = (mm_h1 c, mm_h2 c); c = c\<lparr>mm_len := mm_len c + of_nat (length src)\<rparr>;
            (c, src, h, ret) =
              (if mm_state_pos c > 0 then
                 let (st, pos, src, ret) = murmur3_fill (mm_state c) (mm_state_pos c) src;
                     c = c\<lparr>mm_state := st, mm_state_pos := pos\<rparr>
                 in if ret then (c, src, h, True)
                    else (c\<lparr>mm_state_pos := 0\<rparr>, src, murmur3_step h st, False)
               else (c, src, h, False))
        in if ret then c else murmur3_rest c src h)"

text \<open>The value of \<open>h1\<close>, \<open>h2\<close> at the end, and the bytes stored in \<open>dst\<close>.\<close>

definition murmur3_finish :: "u64 \<times> u64 \<Rightarrow> u64 \<Rightarrow> bytes \<Rightarrow> bytes" where
  "murmur3_finish h len state =
     (let (h1, h2) = h;
          h1 = h1 XOR (get_k1 state XOR len); h2 = h2 XOR (get_k2 state XOR len);
          h1 = h1 + h2; h2 = h2 + h1; h1 = fmix h1; h2 = fmix h2; h1 = h1 + h2; h2 = h2 + h1
      in AV_WL64 h1 @ AV_WL64 h2)"

definition av_murmur3_final :: "AVMurMur3 \<Rightarrow> bytes \<times> AVMurMur3" where
  "av_murmur3_final c =
     (let c = c\<lparr>mm_state := take (mm_state_pos c) (mm_state c) @ replicate (16 - mm_state_pos c) 0\<rparr>
      in (murmur3_finish (mm_h1 c, mm_h2 c) (mm_len c) (mm_state c), c))"

section \<open>The abstract view\<close>

lemma absorb_append_done: "absorb bl tr st a = (st', []) \<Longrightarrow> absorb bl tr st (a @ b) = absorb bl tr st' b"
  by (subst absorb_append) simp


text \<open>MurmurHash3 of a message, the 128-bit variant: the full blocks, then the padded rest.\<close>

definition murmur3_hash :: "u64 \<Rightarrow> bytes \<Rightarrow> bytes" where
  "murmur3_hash seed m =
     (let (h, r) = absorb 16 murmur3_step (seed, seed) m
      in murmur3_finish h (of_nat (length m)) (r @ replicate (16 - length r) 0))"

text \<open>What the code gives when the last block is held back: that block takes the place of the rest.\<close>

definition murmur3_hash_held :: "u64 \<Rightarrow> bytes \<Rightarrow> bytes" where
  "murmur3_hash_held seed m =
     (let k = length m - 16
      in murmur3_finish (fst (absorb 16 murmur3_step (seed, seed) (take k m))) (of_nat (length m)) (drop k m))"

text \<open>The last call that is not empty completes a block with fewer than 16 bytes.\<close>

definition block_held :: "bytes list \<Rightarrow> bool" where
  "block_held ps =
     (let qs = filter (\<lambda>p. p \<noteq> []) ps
      in qs \<noteq> [] \<and> length (last qs) < 16 \<and> length (concat ps) mod 16 = 0)"

text \<open>A context holds the value after \<open>m'\<close> and the bytes after it.\<close>

definition murmur3_holds :: "u64 \<Rightarrow> bytes \<Rightarrow> AVMurMur3 \<Rightarrow> bool" where
  "murmur3_holds seed m c \<longleftrightarrow>
     mm_len c = of_nat (length m) \<and> length (mm_state c) = 16 \<and> mm_state_pos c \<le> 16 \<and>
     (\<exists>m'. m = m' @ take (mm_state_pos c) (mm_state c) \<and>
        absorb 16 murmur3_step (seed, seed) m' = ((mm_h1 c, mm_h2 c), []))"

lemma murmur3_holds_init: "murmur3_holds seed [] (av_murmur3_init_seeded c seed)"
  by (simp add: murmur3_holds_def av_murmur3_init_seeded_def absorb_short)

lemma murmur3_fill:
  assumes "length st = 16" and "pos \<le> 16" and "src \<noteq> []"
  shows "murmur3_fill st pos src =
    (if pos < 16 \<and> pos + length src \<le> 16
     then (take pos st @ src @ drop (pos + length src) st, pos + length src, [], True)
     else (take pos st @ take (16 - pos) src, 16, drop (16 - pos) src, False))"
  using assms
proof (induction st pos src rule: murmur3_fill.induct)
  case (2 st pos b src)
  show ?case
  proof (cases "pos < 16 \<and> src \<noteq> []")
    case True
    have "take (Suc pos) (st[pos := b]) = take pos st @ [b]"
      using True 2(2) by (simp add: take_Suc_conv_app_nth)
    moreover have "16 - pos = Suc (16 - Suc pos)" using True by auto
    moreover have "pos + length src \<le> 15 \<Longrightarrow> pos < 15" using True by (cases src) auto
    ultimately show ?thesis using 2 True by (cases "Suc pos + length src \<le> 16") auto
  next
    case False
    with 2(2,3) show ?thesis
      by (auto simp: upd_conv_take_nth_drop)
  qed
qed simp

text \<open>The loop uses the blocks that are there.\<close>

lemma murmur3_blocks_run:
  "n \<le> k \<Longrightarrow> 16 * k \<le> length src \<Longrightarrow> murmur3_blocks src (16 * k) h (16 * n) = (h', j) \<Longrightarrow>
   j = 16 * k \<and> absorb 16 murmur3_step h (drop (16 * n) src) = absorb 16 murmur3_step h' (drop (16 * k) src)"
proof (induction "k - n" arbitrary: n h)
  case 0
  then show ?case by (subst (asm) murmur3_blocks.simps) simp
next
  case (Suc d)
  then have le: "16 * n + 16 \<le> length src" and lt: "16 * n < 16 * k" by auto
  have "absorb 16 murmur3_step h (drop (16 * n) src) =
      absorb 16 murmur3_step (murmur3_step h (take 16 (drop (16 * n) src))) (drop (16 * Suc n) src)"
    using le absorb_block [of 16 "take 16 (drop (16 * n) src)" murmur3_step h "drop (16 * Suc n) src"]
    by (simp add: add.commute flip: drop_drop)
  moreover have "murmur3_blocks src (16 * k) (murmur3_step h (take 16 (drop (16 * n) src))) (16 * Suc n) = (h', j)"
    using Suc.prems(3) lt by (subst (asm) murmur3_blocks.simps) (simp add: add.commute)
  ultimately show ?case using Suc.hyps(1) [of "Suc n"] Suc.hyps(2) Suc.prems(1,2) by simp
qed

lemma murmur3_blocks_absorb:
  assumes "murmur3_blocks src (length src - length src mod 16) h 0 = (h', j)"
  shows "absorb 16 murmur3_step h src = (h', drop j src)" "j = length src - length src mod 16"
proof -
  have "length src - length src mod 16 = 16 * (length src div 16)"
    by (metis minus_mod_eq_mult_div)
  then have "j = length src - length src mod 16 \<and>
      absorb 16 murmur3_step h src = absorb 16 murmur3_step h' (drop j src)"
    using murmur3_blocks_run [of 0 "length src div 16" src h h' j] assms by simp
  then show "absorb 16 murmur3_step h src = (h', drop j src)" "j = length src - length src mod 16"
    by (auto simp: absorb_short)
qed

text \<open>One update: where the position ends, and what the context holds.\<close>

definition murmur3_pos :: "nat \<Rightarrow> nat \<Rightarrow> nat" where
  "murmur3_pos pos n =
     (if n = 0 then pos else if 0 < pos \<and> pos < 16 \<and> pos + n \<le> 16 then pos + n else (pos + n) mod 16)"

lemma murmur3_update_blocks:
  assumes "absorb 16 murmur3_step (seed, seed) m' = (h, [])"
    and "murmur3_blocks src (length src - length src mod 16) h 0 = (h', i)"
  shows "\<exists>m''. m' @ src = m'' @ drop i src \<and> absorb 16 murmur3_step (seed, seed) m'' = (h', [])"
    and "length (drop i src) = length src mod 16"
proof -
  note b = murmur3_blocks_absorb [OF assms(2)]
  obtain h1 where "absorb 16 murmur3_step h (take i src) = (h1, [])"
    using absorb_rest [of 16 murmur3_step h "take i src"] b(2)
    by (cases "absorb 16 murmur3_step h (take i src)") (simp add: minus_mod_eq_div_mult)
  moreover from this have "absorb 16 murmur3_step h (take i src @ drop i src) = (h1, drop i src)"
    using b(2) by (subst absorb_append_done) (simp_all add: absorb_short)
  ultimately have "absorb 16 murmur3_step h (take i src) = (h', [])"
    using b(1) by simp
  then have "absorb 16 murmur3_step (seed, seed) (m' @ take i src) = (h', [])"
    using assms(1) by (simp add: absorb_append_done)
  then show "\<exists>m''. m' @ src = m'' @ drop i src \<and> absorb 16 murmur3_step (seed, seed) m'' = (h', [])"
    by (intro exI [of _ "m' @ take i src"]) simp
  show "length (drop i src) = length src mod 16" using b(2) by simp
qed

lemma murmur3_rest_holds:
  assumes "length (mm_state c) = 16" and "mm_state_pos c = 0" and "mm_len c = of_nat (length (m' @ src))"
    and "absorb 16 murmur3_step (seed, seed) m' = (h, [])"
  shows "murmur3_holds seed (m' @ src) (murmur3_rest c src h) \<and>
    mm_state_pos (murmur3_rest c src h) = length src mod 16"
proof -
  obtain h' i where r: "murmur3_blocks src (length src - length src mod 16) h 0 = (h', i)" by fastforce
  note u = murmur3_update_blocks [OF assms(4) r]
  show ?thesis
  proof (cases "length src mod 16 = 0")
    case True
    then show ?thesis using assms u r by (simp add: murmur3_rest_def murmur3_holds_def)
  next
    case False
    have "length src mod 16 < 16" by simp
    with False show ?thesis using assms(1-3) u r
      by (simp add: murmur3_rest_def murmur3_holds_def Let_def)
  qed
qed


lemma murmur3_update_holds:
  assumes "murmur3_holds seed m c"
  shows "murmur3_holds seed (m @ src) (av_murmur3_update c src) \<and>
    mm_state_pos (av_murmur3_update c src) = murmur3_pos (mm_state_pos c) (length src)"
proof (cases "src = []")
  case True
  then show ?thesis using assms by (simp add: av_murmur3_update_def murmur3_pos_def)
next
  case False
  let ?p = "mm_state_pos c" and ?st = "mm_state c" and ?h = "(mm_h1 c, mm_h2 c)"
  obtain m' where m: "m = m' @ take ?p ?st" and h: "absorb 16 murmur3_step (seed, seed) m' = (?h, [])"
    and w: "length ?st = 16" "?p \<le> 16" and l: "mm_len c = of_nat (length m)"
    using assms by (auto simp: murmur3_holds_def)
  have len: "mm_len c + of_nat (length src) = of_nat (length (m @ src))" using l by simp
  consider (ret) "0 < ?p" "?p < 16" "?p + length src \<le> 16"
    | (full) "0 < ?p" "\<not> (?p < 16 \<and> ?p + length src \<le> 16)" | (zero) "?p = 0" by linarith
  then show ?thesis
  proof cases
    case ret
    then show ?thesis
      using False w m h len
      by (auto simp: av_murmur3_update_def Let_def murmur3_fill murmur3_holds_def murmur3_pos_def)
  next
    case full
    define b where "b = take ?p ?st @ take (16 - ?p) src"
    define s where "s = drop (16 - ?p) src"
    have "length b = 16" using full w by (auto simp: b_def)
    then have a: "absorb 16 murmur3_step (seed, seed) (m' @ b) = (murmur3_step ?h b, [])"
      using h absorb_block [of 16 b murmur3_step ?h "[]"] by (simp add: absorb_append_done absorb_short)
    define c2 where "c2 = c\<lparr>mm_len := mm_len c + of_nat (length src), mm_state := b, mm_state_pos := 0\<rparr>"
    have ms: "m @ src = (m' @ b) @ s" by (simp add: m b_def s_def)
    have "murmur3_fill ?st ?p src = (b, 16, s, False)"
      unfolding murmur3_fill [OF w False] b_def s_def using full(2) by (rule if_not_P)
    then have "av_murmur3_update c src = murmur3_rest c2 s (murmur3_step ?h b)"
      using False full(1) by (simp add: av_murmur3_update_def c2_def Let_def)
    moreover have "murmur3_pos ?p (length src) = length s mod 16"
      using full w False by (auto simp: murmur3_pos_def s_def le_mod_geq add.commute)
    ultimately show ?thesis
      using murmur3_rest_holds [of c2 "m' @ b" s seed, OF _ _ _ a] len \<open>length b = 16\<close>
      unfolding ms by (simp add: c2_def)
  next
    case zero
    define c2 where "c2 = c\<lparr>mm_len := mm_len c + of_nat (length src)\<rparr>"
    have "av_murmur3_update c src = murmur3_rest c2 src ?h"
      using False zero by (simp add: av_murmur3_update_def c2_def Let_def)
    then show ?thesis
      using murmur3_rest_holds [of c2 m' src seed, OF _ _ _ h] len w m zero False
      by (simp add: c2_def murmur3_pos_def)
  qed
qed

lemma murmur3_updates_hold:
  assumes "murmur3_holds seed m c"
  shows "murmur3_holds seed (m @ concat ps) (foldl av_murmur3_update c ps) \<and>
    mm_state_pos (foldl av_murmur3_update c ps) = foldl (\<lambda>pos p. murmur3_pos pos (length p)) (mm_state_pos c) ps"
  using assms
proof (induction ps arbitrary: m c)
  case (Cons p ps)
  from murmur3_update_holds [OF Cons.prems, of p] Cons.IH [of "m @ p" "av_murmur3_update c p"]
  show ?case by simp
qed simp

lemma murmur3_pos_below:
  assumes "r < 16" and "0 < k"
  shows "murmur3_pos r k = (if k < 16 \<and> (r + k) mod 16 = 0 then 16 else (r + k) mod 16)"
proof -
  consider "r + k < 16" | "r + k = 16" | "16 < r + k" "k < 16" | "16 \<le> k" by linarith
  then show ?thesis
  proof cases
    case 3
    then have "(r + k) mod 16 = r + k - 16" using assms by (simp add: le_mod_geq)
    with 3 assms show ?thesis by (simp add: murmur3_pos_def)
  qed (use assms in \<open>auto simp: murmur3_pos_def\<close>)
qed

lemma murmur3_pos_run:
  "foldl (\<lambda>pos p. murmur3_pos pos (length p)) 0 ps = (if block_held ps then 16 else length (concat ps) mod 16)"
proof (induction ps rule: rev_induct)
  case (snoc p ps)
  show ?case
  proof (cases "p = []")
    case True
    then show ?thesis using snoc by (simp add: murmur3_pos_def block_held_def)
  next
    case False
    define n where "n = length (concat ps)"
    have held: "block_held (ps @ [p]) \<longleftrightarrow> length p < 16 \<and> (n + length p) mod 16 = 0"
      using False by (simp add: block_held_def n_def)
    have n16: "block_held ps \<Longrightarrow> n mod 16 = 0" by (auto simp: block_held_def Let_def n_def)
    have step: "murmur3_pos (if block_held ps then 16 else n mod 16) (length p) =
        (if length p < 16 \<and> (n + length p) mod 16 = 0 then 16 else (n + length p) mod 16)"
    proof (cases "block_held ps")
      case True
      then have "(n + length p) mod 16 = length p mod 16"
        using n16 mod_add_left_eq [of n 16 "length p"] by simp
      with True False show ?thesis by (cases "length p < 16") (auto simp: murmur3_pos_def)
    next
      case F: False
      have "(n + length p) mod 16 = (n mod 16 + length p) mod 16" by (simp add: mod_simps)
      then show ?thesis using F False murmur3_pos_below [of "n mod 16" "length p"] by simp
    qed
    show ?thesis using snoc step unfolding held n_def [symmetric] by (simp flip: n_def)
  qed
qed (simp add: block_held_def)

lemma av_murmur3_final_foldl:
  "fst (av_murmur3_final (foldl av_murmur3_update (av_murmur3_init_seeded c seed) ps)) =
     (if block_held ps then murmur3_hash_held seed (concat ps) else murmur3_hash seed (concat ps))"
proof -
  let ?c = "foldl av_murmur3_update (av_murmur3_init_seeded c seed) ps"
  have p0: "mm_state_pos (av_murmur3_init_seeded c seed) = 0" by (simp add: av_murmur3_init_seeded_def)
  have h: "murmur3_holds seed (concat ps) ?c" and p: "mm_state_pos ?c = (if block_held ps then 16 else length (concat ps) mod 16)"
    using murmur3_updates_hold [OF murmur3_holds_init [of seed c], of ps] murmur3_pos_run [of ps] by (simp_all add: p0)
  obtain m' where m: "concat ps = m' @ take (mm_state_pos ?c) (mm_state ?c)"
    and a: "absorb 16 murmur3_step (seed, seed) m' = ((mm_h1 ?c, mm_h2 ?c), [])"
    and w: "mm_len ?c = of_nat (length (concat ps))" "length (mm_state ?c) = 16"
    using h by (auto simp: murmur3_holds_def)
  show ?thesis
  proof (cases "block_held ps")
    case True
    then have "take (length (concat ps) - 16) (concat ps) = m'" "drop (length (concat ps) - 16) (concat ps) = mm_state ?c"
      using m w p by simp_all
    then show ?thesis using True a w p by (simp add: av_murmur3_final_def murmur3_hash_held_def Let_def)
  next
    case False
    then have "absorb 16 murmur3_step (seed, seed) (concat ps) =
        ((mm_h1 ?c, mm_h2 ?c), take (mm_state_pos ?c) (mm_state ?c))"
      using p m a w by (subst m) (simp add: absorb_append_done absorb_short)
    moreover have "length (take (mm_state_pos ?c) (mm_state ?c)) = mm_state_pos ?c" using p w False by simp
    ultimately show ?thesis using False w by (simp add: av_murmur3_final_def murmur3_hash_def Let_def)
  qed
qed

text \<open>A context made by \<open>av_murmur3_init\<close> shows the difference: sixteen zero bytes in one call and in two
  halves.\<close>

lemma av_murmur3_calls_differ:
  "fst (av_murmur3_final (foldl av_murmur3_update (av_murmur3_init c) [replicate 8 0, replicate 8 0])) \<noteq>
   fst (av_murmur3_final (foldl av_murmur3_update (av_murmur3_init c) [replicate 16 0]))"
proof -
  have h: "block_held [replicate 8 0, replicate 8 0]" "\<not> block_held [replicate 16 0]"
    by (simp_all add: block_held_def)
  have k: "get_k1 (replicate 16 0) = 0" "get_k2 (replicate 16 0) = 0"
    by (simp_all add: get_k1_def get_k2_def AV_RL64_def mm_ROT_def)
  have a: "absorb 16 murmur3_step s (replicate 16 0) = (murmur3_step s (replicate 16 0), [])" for s
    using absorb_block [of 16 "replicate 16 0" murmur3_step s "[]"] by (simp add: absorb_short)
  have u: "update_h1 0 0x725acc55daddca55 0x725acc55daddca55 = 0xa5f8a54af3100abc"
      "update_h2 0 0xa5f8a54af3100abc 0x725acc55daddca55 = 0xe105b44c957c8f33"
    by (simp_all add: update_h1_def update_h2_def mm_ROT_def)
  have w: "(27804224798906869798 :: u64) = 9357480725197318182"
      "(24720369412031995599 :: u64) = 6273625338322443983"
      "(28174054826242251215 :: u64) = 9727310752532699599"
      "(44388619100678072562 :: u64) = 7495130953258969330"
    by simp_all
  have m: "fmix 0xe4b598abb5bb948a = 0x5a173ce41e20ac7b"
      "fmix 0x5710650190995ecf = 0xf56424cb043f47e"
      "fmix 0x86fe5997888c99cf = 0x20af9d6227637146"
      "fmix 0x68040de41e0928f2 = 0xb0966ae10947fb70"
    by (simp_all add: fmix_def)
  have "murmur3_finish (0x725acc55daddca55, 0x725acc55daddca55) 16 (replicate 16 0) = AV_WL64 0x696d7f30ce64a0f9 @ AV_WL64 0x78c3c17d7ea89577"
    using m by (simp add: murmur3_finish_def k Let_def w)
  moreover have "murmur3_finish (0xa5f8a54af3100abc, 0xe105b44c957c8f33) 16 (replicate 16 0) = AV_WL64 0xd146084330ab6cb6 @ AV_WL64 0x81dc732439f36826"
    using m by (simp add: murmur3_finish_def k Let_def w)
  moreover have "AV_WL64 0x696d7f30ce64a0f9 \<noteq> AV_WL64 0xd146084330ab6cb6"
    by (simp add: AV_WL64_def)
  ultimately have "murmur3_hash_held 0x725acc55daddca55 (replicate 16 0) \<noteq> murmur3_hash 0x725acc55daddca55 (replicate 16 0)"
    using u by (simp add: murmur3_hash_held_def murmur3_hash_def absorb_short a murmur3_step_def k)
  moreover have "concat [replicate 8 0, replicate 8 0] = (replicate 16 0 :: bytes)"
      "concat [replicate 16 0] = (replicate 16 0 :: bytes)"
    by (simp_all flip: replicate_add)
  ultimately show ?thesis
    unfolding av_murmur3_init_def av_murmur3_final_foldl using h by (simp only: if_True if_False) simp
qed


end
