(* ===== verification/AvAdler32.thy ===== *)
theory AvAdler32 imports AvPrelude
begin

text \<open>
  \<open>libavutil/adler32.c\<close>: the Adler-32 checksum. Its fast configuration sums eight bytes at a time in 16-bit
  lanes of 64-bit words, for both byte orders; the other one adds four bytes at a time while the sum is small.
  \<open>unsigned long\<close> has 64 bits. Every configuration is shown to compute the two sums of the definition.
\<close>

section \<open>The code\<close>

text \<open>\<open>HAVE_FAST_64BIT && HAVE_FAST_UNALIGNED && !CONFIG_SMALL\<close>, and \<open>HAVE_BIGENDIAN\<close>.\<close>

record adler_config =
  fast64 :: bool
  big_endian :: bool

definition adler_BASE :: u64 where "adler_BASE = 65521"

fun DO1 :: "u64 \<times> u64 \<Rightarrow> u8 \<Rightarrow> u64 \<times> u64" where
  "DO1 (s1, s2) b = (let s1 = s1 + ucast b; s2 = s2 + s1 in (s1, s2))"

text \<open>\<open>while (len2 >= 8)\<close>, with the four lane words.\<close>

fun adler_lanes :: "bool \<Rightarrow> nat \<Rightarrow> bytes \<Rightarrow> u64 \<times> u64 \<times> u64 \<times> u64 \<Rightarrow> u64 \<times> u64 \<times> u64 \<times> u64" where
  "adler_lanes be 0 buf s = s"
| "adler_lanes be (Suc n) buf (a1, a2, b1, b2) =
     (let v = (if be then AV_RB64 buf 0 else AV_RL64 buf 0);
          a2 = a2 + a1;
          b2 = b2 + b1;
          a1 = a1 + (v AND 0x00FF00FF00FF00FF);
          b1 = b1 + (shr v 8 AND 0x00FF00FF00FF00FF)
      in adler_lanes be n (drop 8 buf) (a1, a2, b1, b2))"

text \<open>The block of at most \<open>23 * 8\<close> bytes: the two sums and the rest of the buffer.\<close>

definition adler_block :: "bool \<Rightarrow> u64 \<times> u64 \<Rightarrow> bytes \<Rightarrow> nat \<Rightarrow> u64 \<times> u64" where
  "adler_block be s buf len2 =
     (let (s1, s2) = s;
          s2 = s2 + s1 * of_nat len2;
          (a1, a2, b1, b2) = adler_lanes be (len2 div 8) buf (0, 0, 0, 0);
          s1 = s1 + shr ((a1 + b1) * 0x1000100010001) 48;
          s2 = s2 + shr (((a2 AND 0xFFFF0000FFFF) + (b2 AND 0xFFFF0000FFFF) + (shr a2 16 AND 0xFFFF0000FFFF) +
                          (shr b2 16 AND 0xFFFF0000FFFF)) * 0x800000008) 32
               + (if be
                  then 2 * shr (b1 * 0x1000200030004) 48 + shr (a1 * 0x1000100010001) 48
                       + 2 * shr (a1 * 0x0000100020003) 48
                  else 2 * shr (a1 * 0x4000300020001) 48 + shr (b1 * 0x1000100010001) 48
                       + 2 * shr (b1 * 0x3000200010000) 48)
      in (s1, s2))"

text \<open>\<open>while (len > 4 && s2 < (1U << 31)) { DO4(buf); len -= 4; }\<close>\<close>

function adler_fours :: "u64 \<times> u64 \<Rightarrow> bytes \<Rightarrow> (u64 \<times> u64) \<times> bytes" where
  "adler_fours s buf =
     (if length buf > 4 \<and> snd s < 2 ^ 31 then adler_fours (foldl DO1 s (take 4 buf)) (drop 4 buf) else (s, buf))"
  by pat_completeness auto
termination by (relation "measure (\<lambda>(s, buf). length buf)") auto

declare adler_fours.simps [simp del]

definition adler_step :: "adler_config \<Rightarrow> u64 \<times> u64 \<Rightarrow> bytes \<Rightarrow> (u64 \<times> u64) \<times> bytes" where
  "adler_step cfg s buf =
     (if fast64 cfg then
        let len2 = min ((length buf - 1) div 8 * 8) (23 * 8)
        in if len2 \<noteq> 0 then (adler_block (big_endian cfg) s buf len2, drop len2 buf) else (s, buf)
      else adler_fours s buf)"

lemma adler_fours_rest: "length (snd (adler_fours s buf)) \<le> length buf"
proof (induction s buf rule: adler_fours.induct)
  case (1 s buf)
  then show ?case by (subst adler_fours.simps) auto
qed

lemma adler_step_rest: "length (snd (adler_step cfg s buf)) \<le> length buf"
  using adler_fours_rest [of s buf] by (auto simp: adler_step_def Let_def)

function adler_loop :: "adler_config \<Rightarrow> u64 \<times> u64 \<Rightarrow> bytes \<Rightarrow> u64 \<times> u64" where
  "adler_loop cfg s buf =
     (if buf = [] then s
      else
        let r = snd (adler_step cfg s buf);
            s = DO1 (fst (adler_step cfg s buf)) (hd r);
            s1 = fst s mod adler_BASE;
            s2 = snd s mod adler_BASE
        in adler_loop cfg (s1, s2) (tl r))"
  by pat_completeness auto
termination
proof (relation "measure (\<lambda>(cfg, s, buf). length buf)", goal_cases)
  case (2 cfg s buf r)
  then show ?case using adler_step_rest [of cfg s buf] by (cases buf) auto
qed simp

declare adler_loop.simps [simp del]

definition av_adler32_update :: "adler_config \<Rightarrow> u64 \<Rightarrow> bytes \<Rightarrow> u64" where
  "av_adler32_update cfg adler buf =
     (let (s1, s2) = adler_loop cfg (adler AND 0xffff, shr adler 16) buf in shl s2 16 OR s1)"

section \<open>The two sums\<close>

text \<open>The definition: the sum of the bytes, and the sum of these sums.\<close>

fun adler_add :: "nat \<times> nat \<Rightarrow> u8 \<Rightarrow> nat \<times> nat" where
  "adler_add (s1, s2) b = (s1 + unat b, s2 + (s1 + unat b))"

definition adler_sums :: "nat \<times> nat \<Rightarrow> bytes \<Rightarrow> nat \<times> nat" where
  "adler_sums s buf = foldl adler_add s buf"

lemma adler_sums_append: "adler_sums s (a @ b) = adler_sums (adler_sums s a) b"
  by (simp add: adler_sums_def)

text \<open>A pair of words stands for a pair of numbers.\<close>

definition words_of :: "nat \<times> nat \<Rightarrow> u64 \<times> u64" where
  "words_of s = (of_nat (fst s), of_nat (snd s))"

lemma DO1_words: "DO1 (words_of s) b = words_of (adler_add s b)"
  by (cases s) (simp add: words_of_def Let_def unsigned_ucast_eq)

lemma DO1s_words: "foldl DO1 (words_of s) bs = words_of (adler_sums s bs)"
  by (induction bs arbitrary: s) (simp_all add: adler_sums_def DO1_words del: DO1.simps adler_add.simps)

section \<open>Lanes\<close>

text \<open>Four numbers in the lanes of a word, with carries into the next lane.\<close>

definition pack4 :: "nat \<Rightarrow> nat \<Rightarrow> nat \<Rightarrow> nat \<Rightarrow> u64" where
  "pack4 w x y z = of_nat (w + x * 2 ^ 16 + y * 2 ^ 32 + z * 2 ^ 48)"

lemma pack4_add: "pack4 w x y z + pack4 w' x' y' z' = pack4 (w + w') (x + x') (y + y') (z + z')"
  unfolding pack4_def of_nat_add [symmetric] by (rule arg_cong [where f = of_nat]) (simp add: algebra_simps)

lemma drop_bit_of_nat64: "n < 2 ^ 64 \<Longrightarrow> drop_bit k (of_nat n :: u64) = of_nat (n div 2 ^ k)"
proof -
  assume n: "n < 2 ^ 64"
  have "n div 2 ^ k \<le> n" by simp
  then have "n div 2 ^ k < 2 ^ 64" using n by (rule le_less_trans)
  with n show ?thesis
    by (simp add: word_unat_eq_iff unsigned_drop_bit_eq drop_bit_eq_div [where 'a = nat] unsigned_of_nat take_bit_nat_eq_self)
qed

text \<open>The top lane of a product of two lane words.\<close>

lemma pack4_mult_top:
  assumes "w * m0 < 2 ^ 16" "w * m1 + x * m0 < 2 ^ 16" "w * m2 + x * m1 + y * m0 < 2 ^ 16"
    "w * m3 + x * m2 + y * m1 + z * m0 < 2 ^ 16"
  shows "shr (pack4 w x y z * pack4 m0 m1 m2 m3) 48 = of_nat (w * m3 + x * m2 + y * m1 + z * m0)"
proof -
  let ?c0 = "w * m0" and ?c1 = "w * m1 + x * m0" and ?c2 = "w * m2 + x * m1 + y * m0"
    and ?c3 = "w * m3 + x * m2 + y * m1 + z * m0"
  let ?h = "x * m3 + y * m2 + z * m1 + (y * m3 + z * m2) * 2 ^ 16 + z * m3 * 2 ^ 32"
  let ?l = "?c0 + ?c1 * 2 ^ 16 + ?c2 * 2 ^ 32 + ?c3 * 2 ^ 48"
  have "(w + x * 2 ^ 16 + y * 2 ^ 32 + z * 2 ^ 48) * (m0 + m1 * 2 ^ 16 + m2 * 2 ^ 32 + m3 * 2 ^ 48) = ?l + ?h * 2 ^ 64"
    by (simp add: algebra_simps)
  then have "pack4 w x y z * pack4 m0 m1 m2 m3 = of_nat (?l + ?h * 2 ^ 64)"
    by (simp only: pack4_def of_nat_mult [symmetric])
  also have "\<dots> = (of_nat ?l :: u64)"
  proof -
    have "(of_nat (2 ^ 64) :: u64) = 0" by simp
    then show ?thesis by (simp only: of_nat_add of_nat_mult mult_zero_right add_0_right)
  qed
  finally have p: "pack4 w x y z * pack4 m0 m1 m2 m3 = of_nat ?l" .
  have l: "?c0 + ?c1 * 2 ^ 16 + ?c2 * 2 ^ 32 < 2 ^ 48" using assms(1-3) by simp
  then have "?l < 2 ^ 64" using assms(4) by simp
  then have "shr (of_nat ?l :: u64) 48 = of_nat (?l div 2 ^ 48)" by (rule drop_bit_of_nat64)
  also have "?l div 2 ^ 48 = ?c3" using l by simp
  finally show ?thesis unfolding p .
qed

text \<open>The sum of all lanes, as the code takes it from a word of second sums.\<close>

lemma bit_less: "a < 2 ^ k \<Longrightarrow> bit a n \<Longrightarrow> n < k" for a :: nat
  by (metis bit_take_bit_iff take_bit_nat_eq_self)

lemma add_shift_or: "a < 2 ^ k \<Longrightarrow> a + b * 2 ^ k = a OR push_bit k b" for a b :: nat
proof -
  assume "a < 2 ^ k"
  then have "a AND push_bit k b = 0" by (auto simp: bit_eq_iff bit_simps dest: bit_less)
  from disjunctive_add_eq_or [OF this] show ?thesis by (simp add: push_bit_eq_mult)
qed

lemma pack4_or:
  assumes "w < 2 ^ 16" "x < 2 ^ 16" "y < 2 ^ 16"
  shows "pack4 w x y z = of_nat w OR shl (of_nat x) 16 OR shl (of_nat y) 32 OR shl (of_nat z) 48"
proof -
  have "w + x * 2 ^ 16 = w OR push_bit 16 x" by (rule add_shift_or [OF assms(1)])
  moreover have "w + x * 2 ^ 16 < 2 ^ 32" using assms by simp
  note add_shift_or [OF this, of y]
  moreover have "w + x * 2 ^ 16 + y * 2 ^ 32 < 2 ^ 48" using assms by simp
  note add_shift_or [OF this, of z]
  ultimately show ?thesis by (simp add: pack4_def of_nat_or_eq of_nat_push_bit or.assoc)
qed

lemma bit_of_nat_small: "a < 2 ^ 16 \<Longrightarrow> bit (of_nat a :: u64) n \<Longrightarrow> n < 16"
  using bit_less [of a 16 n] by (auto simp: bit_simps)

lemma pack4_even:
  assumes "w < 2 ^ 16" "x < 2 ^ 16" "y < 2 ^ 16" "z < 2 ^ 16"
  shows "pack4 w x y z AND 0xFFFF0000FFFF = pack4 w 0 y 0" "shr (pack4 w x y z) 16 AND 0xFFFF0000FFFF = pack4 x 0 z 0"
proof -
  have m: "(0xFFFF0000FFFF :: u64) = mask 16 OR shl (mask 16) 32" by (simp add: mask_eq_exp_minus_1)
  note b = assms [THEN bit_of_nat_small]
  show "pack4 w x y z AND 0xFFFF0000FFFF = pack4 w 0 y 0"
    unfolding m pack4_or [OF assms(1-3)] pack4_or [of w 0 y, OF assms(1) _ assms(3), simplified]
    by (rule bit_word_eqI) (auto simp: bit_and_iff bit_or_iff bit_push_bit_iff bit_mask_iff dest: b)
  show "shr (pack4 w x y z) 16 AND 0xFFFF0000FFFF = pack4 x 0 z 0"
    unfolding m pack4_or [OF assms(1-3)] pack4_or [of x 0 z, OF assms(2) _ assms(4), simplified]
    by (rule bit_word_eqI) (auto simp: bit_and_iff bit_or_iff bit_push_bit_iff bit_mask_iff bit_drop_bit_eq dest: b)
qed

lemma pack4_fold:
  assumes "8 * (w + y) < 2 ^ 32"
  shows "shr (pack4 w 0 y 0 * 0x800000008) 32 = of_nat (8 * (w + y))"
proof -
  have "(w + y * 2 ^ 32) * 0x800000008 = 8 * w + 8 * (w + y) * 2 ^ 32 + 8 * y * 2 ^ 64"
    by simp
  moreover have "pack4 w 0 y 0 * 0x800000008 = of_nat ((w + y * 2 ^ 32) * 0x800000008)"
    by (simp add: pack4_def)
  moreover have "(of_nat (2 ^ 64) :: u64) = 0" by simp
  then have "(of_nat (8 * w + 8 * (w + y) * 2 ^ 32 + 8 * y * 2 ^ 64) :: u64) = of_nat (8 * w + 8 * (w + y) * 2 ^ 32)"
    by (simp only: of_nat_add of_nat_mult mult_zero_right add_0_right)
  ultimately have p: "pack4 w 0 y 0 * 0x800000008 = of_nat (8 * w + 8 * (w + y) * 2 ^ 32)" by metis
  have w: "8 * w < 2 ^ 32" using assms by simp
  then have "8 * w + 8 * (w + y) * 2 ^ 32 < 2 ^ 64" using assms by simp
  then have "shr (of_nat (8 * w + 8 * (w + y) * 2 ^ 32) :: u64) 32 = of_nat ((8 * w + 8 * (w + y) * 2 ^ 32) div 2 ^ 32)"
    by (rule drop_bit_of_nat64)
  also have "(8 * w + 8 * (w + y) * 2 ^ 32) div 2 ^ 32 = 8 * (w + y)" using w by simp
  finally show ?thesis unfolding p .
qed

text \<open>The bytes of a group of eight in the lanes.\<close>

lemma pack4_bytes:
  fixes a b c d :: u8
  shows "pack4 (unat a) (unat b) (unat c) (unat d) = ucast a OR shl (ucast b) 16 OR shl (ucast c) 32 OR shl (ucast d) 48"
proof -
  have l: "unat x < 2 ^ 16" for x :: u8
  proof -
    have "unat x < 2 ^ LENGTH(8)" by (rule unsigned_less)
    then show ?thesis by simp
  qed
  have u: "(of_nat (unat x) :: u64) = ucast x" for x :: u8
    by (rule bit_word_eqI) (auto simp: bit_simps dest: bit_u8_le)
  show ?thesis unfolding pack4_or [OF l l l] u ..
qed

lemma and_byte_mask:
  "v AND 0x00FF00FF00FF00FF =
     ucast (ucast v :: u8) OR shl (ucast (ucast (shr v 16) :: u8)) 16 OR shl (ucast (ucast (shr v 32) :: u8)) 32 OR
     shl (ucast (ucast (shr v 48) :: u8)) 48" for v :: u64
proof -
  have m: "(0x00FF00FF00FF00FF :: u64) = mask 8 OR shl (mask 8) 16 OR shl (mask 8) 32 OR shl (mask 8) 48"
    by (simp add: mask_eq_exp_minus_1)
  show ?thesis unfolding m ucast_u8_take_bit
    by (rule bit_word_eqI) (auto simp: bit_and_iff bit_or_iff bit_push_bit_iff bit_mask_iff bit_take_bit_iff bit_drop_bit_eq)
qed

lemma RL64_bytes:
  "ucast (shr (AV_RL64 p 0) 56) = p ! 7" "ucast (shr (AV_RL64 p 0) 48) = p ! 6" "ucast (shr (AV_RL64 p 0) 40) = p ! 5"
  "ucast (shr (AV_RL64 p 0) 32) = p ! 4" "ucast (shr (AV_RL64 p 0) 24) = p ! 3" "ucast (shr (AV_RL64 p 0) 16) = p ! 2"
  "ucast (shr (AV_RL64 p 0) 8) = p ! 1" "ucast (AV_RL64 p 0) = p ! 0"
  by (simp_all only: AV_RL64_def add_0 byte_of_join64)

lemma RB64_bytes:
  "ucast (shr (AV_RB64 p 0) 56) = p ! 0" "ucast (shr (AV_RB64 p 0) 48) = p ! 1" "ucast (shr (AV_RB64 p 0) 40) = p ! 2"
  "ucast (shr (AV_RB64 p 0) 32) = p ! 3" "ucast (shr (AV_RB64 p 0) 24) = p ! 4" "ucast (shr (AV_RB64 p 0) 16) = p ! 5"
  "ucast (shr (AV_RB64 p 0) 8) = p ! 6" "ucast (AV_RB64 p 0) = p ! 7"
  by (simp_all only: AV_RB64_def add_0 byte_of_join64)

lemma lanes_le:
  "AV_RL64 p 0 AND 0x00FF00FF00FF00FF = pack4 (unat (p ! 0)) (unat (p ! 2)) (unat (p ! 4)) (unat (p ! 6))"
  "shr (AV_RL64 p 0) 8 AND 0x00FF00FF00FF00FF = pack4 (unat (p ! 1)) (unat (p ! 3)) (unat (p ! 5)) (unat (p ! 7))"
  unfolding and_byte_mask pack4_bytes by (simp_all only: drop_bit_drop_bit RL64_bytes arith_simps)

lemma lanes_be:
  "AV_RB64 p 0 AND 0x00FF00FF00FF00FF = pack4 (unat (p ! 7)) (unat (p ! 5)) (unat (p ! 3)) (unat (p ! 1))"
  "shr (AV_RB64 p 0) 8 AND 0x00FF00FF00FF00FF = pack4 (unat (p ! 6)) (unat (p ! 4)) (unat (p ! 2)) (unat (p ! 0))"
  unfolding and_byte_mask pack4_bytes by (simp_all only: drop_bit_drop_bit RB64_bytes arith_simps)

text \<open>The sums of each of the eight byte positions: of the bytes, and of their running sums.\<close>

type_synonym lane_sums = "(nat \<Rightarrow> nat) \<times> (nat \<Rightarrow> nat)"

fun lane_add :: "bytes \<Rightarrow> lane_sums \<Rightarrow> lane_sums" where
  "lane_add g (A, B) = (\<lambda>t. A t + unat (g ! t), \<lambda>t. B t + A t)"

fun lane_adds :: "nat \<Rightarrow> bytes \<Rightarrow> lane_sums \<Rightarrow> lane_sums" where
  "lane_adds 0 buf s = s"
| "lane_adds (Suc n) buf s = lane_adds n (drop 8 buf) (lane_add buf s)"

definition lane_words :: "bool \<Rightarrow> lane_sums \<Rightarrow> u64 \<times> u64 \<times> u64 \<times> u64" where
  "lane_words be s =
     (case s of (A, B) \<Rightarrow>
        if be then (pack4 (A 7) (A 5) (A 3) (A 1), pack4 (B 7) (B 5) (B 3) (B 1),
                    pack4 (A 6) (A 4) (A 2) (A 0), pack4 (B 6) (B 4) (B 2) (B 0))
        else (pack4 (A 0) (A 2) (A 4) (A 6), pack4 (B 0) (B 2) (B 4) (B 6),
              pack4 (A 1) (A 3) (A 5) (A 7), pack4 (B 1) (B 3) (B 5) (B 7)))"

lemma adler_lanes_words: "adler_lanes be n buf (lane_words be s) = lane_words be (lane_adds n buf s)"
proof (induction n arbitrary: buf s)
  case (Suc n)
  obtain A B where s: "s = (A, B)" by (cases s)
  have "adler_lanes be (Suc n) buf (lane_words be s) = adler_lanes be n (drop 8 buf) (lane_words be (lane_add buf s))"
    by (cases be) (simp_all only: adler_lanes.simps lane_words_def s lane_add.simps prod.case Let_def if_True if_False
        lanes_le lanes_be pack4_add)
  then show ?case using Suc by simp
qed simp

definition lane_total :: "(nat \<Rightarrow> nat) \<Rightarrow> nat" where
  "lane_total A = A 0 + A 1 + A 2 + A 3 + A 4 + A 5 + A 6 + A 7"

definition lane_weight :: "lane_sums \<Rightarrow> nat" where
  "lane_weight s = (case s of (A, B) \<Rightarrow> 8 * lane_total B + (8 * A 0 + 7 * A 1 + 6 * A 2 + 5 * A 3 + 4 * A 4 + 3 * A 5 + 2 * A 6 + 1 * A 7))"

lemma adler_sums_8:
  assumes "8 \<le> length g"
  shows "adler_sums (s1, s2) (take 8 g) =
    (s1 + lane_total (\<lambda>t. unat (g ! t)), s2 + 8 * s1 + lane_weight (\<lambda>t. unat (g ! t), \<lambda>t. 0))"
proof -
  have "take 8 g = map ((!) g) [0, 1, 2, 3, 4, 5, 6, 7]"
    using assms by (intro nth_equalityI) (auto simp: nth_Cons' less_Suc_eq numeral_eq_Suc)
  then show ?thesis by (simp add: adler_sums_def lane_total_def lane_weight_def)
qed

lemma lane_adds_sums:
  "8 * n \<le> length buf \<Longrightarrow> lane_adds n buf (A, B) = (A', B') \<Longrightarrow>
   adler_sums (s1 + lane_total A, s2 + k * s1 + lane_weight (A, B)) (take (8 * n) buf) =
     (s1 + lane_total A', s2 + (k + 8 * n) * s1 + lane_weight (A', B'))"
proof (induction n arbitrary: buf A B k)
  case (Suc n)
  let ?g = "\<lambda>t. unat (buf ! t)"
  have "take (8 * Suc n) buf = take 8 buf @ take (8 * n) (drop 8 buf)"
    by (metis mult_Suc_right take_add)
  moreover have "adler_sums (s1 + lane_total A, s2 + k * s1 + lane_weight (A, B)) (take 8 buf) =
      (s1 + lane_total (\<lambda>t. A t + ?g t), s2 + (k + 8) * s1 + lane_weight (\<lambda>t. A t + ?g t, \<lambda>t. B t + A t))"
    using Suc.prems(1) by (simp add: adler_sums_8 lane_total_def lane_weight_def algebra_simps)
  moreover have "adler_sums (s1 + lane_total (\<lambda>t. A t + ?g t), s2 + (k + 8) * s1 + lane_weight (\<lambda>t. A t + ?g t, \<lambda>t. B t + A t))
      (take (8 * n) (drop 8 buf)) = (s1 + lane_total A', s2 + (k + 8 + 8 * n) * s1 + lane_weight (A', B'))"
    using Suc.prems by (intro Suc.IH) simp_all
  ultimately show ?case by (simp add: adler_sums_append add.assoc)
qed (simp add: adler_sums_def)

text \<open>The lanes do not overflow in 23 steps.\<close>

lemma lane_adds_le:
  "lane_adds n buf (A, B) = (A', B') \<Longrightarrow> \<forall>t. A t \<le> 255 * k \<and> B t \<le> 255 * (\<Sum>i<k. i) \<Longrightarrow>
   A' t \<le> 255 * (k + n) \<and> B' t \<le> 255 * (\<Sum>i<k + n. i)"
proof (induction n arbitrary: buf A B k)
  case (Suc n)
  have u: "unat x \<le> 255" for x :: u8
  proof -
    have "unat x < 2 ^ LENGTH(8)" by (rule unsigned_less)
    then show ?thesis by simp
  qed
  have "\<forall>t. A t + unat (buf ! t) \<le> 255 * Suc k \<and> B t + A t \<le> 255 * (\<Sum>i<Suc k. i)"
  proof
    fix t
    have "A t \<le> 255 * k" "B t \<le> 255 * (\<Sum>i<k. i)" "unat (buf ! t) \<le> 255" using Suc.prems(2) u by auto
    then show "A t + unat (buf ! t) \<le> 255 * Suc k \<and> B t + A t \<le> 255 * (\<Sum>i<Suc k. i)" by simp
  qed
  then show ?case using Suc.IH [of "drop 8 buf" _ _ "Suc k"] Suc.prems(1) by simp
qed simp

lemma triangle_le: "n \<le> 23 \<Longrightarrow> (\<Sum>i<n. i) \<le> (253 :: nat)"
proof -
  assume "n \<le> 23"
  then have "(\<Sum>i<n. i) \<le> (\<Sum>i<23. i :: nat)" by (intro sum_mono2) auto
  also have "(\<Sum>i<23. i :: nat) = 253" by (simp add: numeral_eq_Suc)
  finally show ?thesis .
qed

text \<open>A word of second sums and its neighbour, folded into one number, and the weighted sums.\<close>

lemma second_sums:
  assumes "\<forall>t. B t < 2 ^ 16"
  shows "shr (((pack4 (B 0) (B 2) (B 4) (B 6) AND 0xFFFF0000FFFF) + (pack4 (B 1) (B 3) (B 5) (B 7) AND 0xFFFF0000FFFF) +
      (shr (pack4 (B 0) (B 2) (B 4) (B 6)) 16 AND 0xFFFF0000FFFF) + (shr (pack4 (B 1) (B 3) (B 5) (B 7)) 16 AND 0xFFFF0000FFFF))
      * 0x800000008) 32 = of_nat (8 * lane_total B)" (is ?le)
    and "shr (((pack4 (B 7) (B 5) (B 3) (B 1) AND 0xFFFF0000FFFF) + (pack4 (B 6) (B 4) (B 2) (B 0) AND 0xFFFF0000FFFF) +
      (shr (pack4 (B 7) (B 5) (B 3) (B 1)) 16 AND 0xFFFF0000FFFF) + (shr (pack4 (B 6) (B 4) (B 2) (B 0)) 16 AND 0xFFFF0000FFFF))
      * 0x800000008) 32 = of_nat (8 * lane_total B)" (is ?be)
proof -
  have b: "B t < 2 ^ 16" for t using assms by blast
  have l: "8 * lane_total B < 2 ^ 32"
    using b [of 0] b [of 1] b [of 2] b [of 3] b [of 4] b [of 5] b [of 6] b [of 7] by (simp add: lane_total_def)
  have "B 0 + B 1 + B 2 + B 3 + (B 4 + B 5 + B 6 + B 7) = lane_total B" by (simp add: lane_total_def)
  then show ?le
    using pack4_fold [of "B 0 + B 1 + B 2 + B 3" "B 4 + B 5 + B 6 + B 7"] l
    by (simp only: pack4_even [OF b b b b] pack4_add add_0 ac_simps)
  have "B 7 + B 6 + B 5 + B 4 + (B 3 + B 2 + B 1 + B 0) = lane_total B" by (simp add: lane_total_def)
  then show ?be
    using pack4_fold [of "B 7 + B 6 + B 5 + B 4" "B 3 + B 2 + B 1 + B 0"] l
    by (simp only: pack4_even [OF b b b b] pack4_add add_0 ac_simps)
qed

lemma pack4_consts:
  "(0x1000100010001 :: u64) = pack4 1 1 1 1" "(0x4000300020001 :: u64) = pack4 1 2 3 4"
  "(0x3000200010000 :: u64) = pack4 0 1 2 3" "(0x1000200030004 :: u64) = pack4 4 3 2 1"
  "(0x0000100020003 :: u64) = pack4 3 2 1 0"
  by (simp_all add: pack4_def)

lemma first_sums:
  assumes "\<forall>t. A t \<le> 5865"
  shows "shr ((pack4 (A 0) (A 2) (A 4) (A 6) + pack4 (A 1) (A 3) (A 5) (A 7)) * 0x1000100010001) 48 = of_nat (lane_total A)"
    and "shr ((pack4 (A 7) (A 5) (A 3) (A 1) + pack4 (A 6) (A 4) (A 2) (A 0)) * 0x1000100010001) 48 = of_nat (lane_total A)"
    and "shr (pack4 (A 0) (A 2) (A 4) (A 6) * 0x4000300020001) 48 = of_nat (4 * A 0 + 3 * A 2 + 2 * A 4 + A 6)"
    and "shr (pack4 (A 1) (A 3) (A 5) (A 7) * 0x1000100010001) 48 = of_nat (A 1 + A 3 + A 5 + A 7)"
    and "shr (pack4 (A 1) (A 3) (A 5) (A 7) * 0x3000200010000) 48 = of_nat (3 * A 1 + 2 * A 3 + A 5)"
    and "shr (pack4 (A 6) (A 4) (A 2) (A 0) * 0x1000200030004) 48 = of_nat (A 6 + 2 * A 4 + 3 * A 2 + 4 * A 0)"
    and "shr (pack4 (A 7) (A 5) (A 3) (A 1) * 0x1000100010001) 48 = of_nat (A 7 + A 5 + A 3 + A 1)"
    and "shr (pack4 (A 7) (A 5) (A 3) (A 1) * 0x0000100020003) 48 = of_nat (A 5 + 2 * A 3 + 3 * A 1)"
proof -
  note b = assms [rule_format, of 0] assms [rule_format, of 1] assms [rule_format, of 2] assms [rule_format, of 3]
    assms [rule_format, of 4] assms [rule_format, of 5] assms [rule_format, of 6] assms [rule_format, of 7]
  show "shr ((pack4 (A 0) (A 2) (A 4) (A 6) + pack4 (A 1) (A 3) (A 5) (A 7)) * 0x1000100010001) 48 = of_nat (lane_total A)"
    unfolding pack4_consts pack4_add by (subst pack4_mult_top) (use b in \<open>simp_all add: lane_total_def\<close>)
  show "shr ((pack4 (A 7) (A 5) (A 3) (A 1) + pack4 (A 6) (A 4) (A 2) (A 0)) * 0x1000100010001) 48 = of_nat (lane_total A)"
    unfolding pack4_consts pack4_add by (subst pack4_mult_top) (use b in \<open>simp_all add: lane_total_def\<close>)
  show "shr (pack4 (A 0) (A 2) (A 4) (A 6) * 0x4000300020001) 48 = of_nat (4 * A 0 + 3 * A 2 + 2 * A 4 + A 6)"
    "shr (pack4 (A 1) (A 3) (A 5) (A 7) * 0x1000100010001) 48 = of_nat (A 1 + A 3 + A 5 + A 7)"
    "shr (pack4 (A 1) (A 3) (A 5) (A 7) * 0x3000200010000) 48 = of_nat (3 * A 1 + 2 * A 3 + A 5)"
    "shr (pack4 (A 6) (A 4) (A 2) (A 0) * 0x1000200030004) 48 = of_nat (A 6 + 2 * A 4 + 3 * A 2 + 4 * A 0)"
    "shr (pack4 (A 7) (A 5) (A 3) (A 1) * 0x1000100010001) 48 = of_nat (A 7 + A 5 + A 3 + A 1)"
    "shr (pack4 (A 7) (A 5) (A 3) (A 1) * 0x0000100020003) 48 = of_nat (A 5 + 2 * A 3 + 3 * A 1)"
    unfolding pack4_consts by (subst pack4_mult_top; use b in \<open>simp add: mult.commute\<close>)+
qed

section \<open>Every configuration adds the bytes\<close>

lemma adler_block_sums:
  assumes "n \<le> 23" and "8 * n \<le> length buf"
  shows "adler_block be (words_of s) buf (8 * n) = words_of (adler_sums s (take (8 * n) buf))"
proof -
  obtain s1 s2 where s: "s = (s1, s2)" by (cases s)
  obtain A B where AB: "lane_adds n buf (\<lambda>t. 0, \<lambda>t. 0) = (A, B)" by fastforce
  have le: "A t \<le> 255 * n \<and> B t \<le> 255 * (\<Sum>i<n. i)" for t
    using lane_adds_le [OF AB, of 0] by simp
  have a: "\<forall>t. A t \<le> 5865"
  proof
    fix t show "A t \<le> 5865" using le [of t] assms(1) by simp
  qed
  have b: "\<forall>t. B t < 2 ^ 16"
  proof
    fix t
    have "255 * (\<Sum>i<n. i) \<le> (255 * 253 :: nat)" using triangle_le [OF assms(1)] by (intro mult_le_mono2)
    then show "B t < 2 ^ 16" using le [of t] by simp
  qed
  have "adler_sums (s1, s2) (take (8 * n) buf) = (s1 + lane_total A, s2 + 8 * n * s1 + lane_weight (A, B))"
    using lane_adds_sums [OF assms(2) AB, of s1 s2 0] by (simp add: lane_total_def lane_weight_def)
  moreover have z: "(0, 0, 0, 0) = lane_words be (\<lambda>t. 0, \<lambda>t. 0)" by (simp add: lane_words_def pack4_def)
  have l: "adler_lanes be n buf (0, 0, 0, 0) = lane_words be (A, B)"
    unfolding z adler_lanes_words AB ..
  have "adler_block be (of_nat s1, of_nat s2) buf (8 * n) =
      (of_nat (s1 + lane_total A), of_nat (s2 + 8 * n * s1 + lane_weight (A, B)))"
  proof (cases be)
    case True
    show ?thesis
      unfolding adler_block_def Let_def nonzero_mult_div_cancel_left [OF numeral_neq_zero] l lane_words_def
      by (simp only: prod.case True if_True first_sums [OF a] second_sums [OF b])
        (simp add: lane_weight_def lane_total_def algebra_simps)
  next
    case False
    show ?thesis
      unfolding adler_block_def Let_def nonzero_mult_div_cancel_left [OF numeral_neq_zero] l lane_words_def
      by (simp only: prod.case False if_False first_sums [OF a] second_sums [OF b])
        (simp add: lane_weight_def lane_total_def algebra_simps)
  qed
  ultimately show ?thesis by (simp add: s words_of_def)
qed

lemma adler_sums_le:
  "fst (adler_sums s bs) \<le> fst s + 255 * length bs \<and>
   snd (adler_sums s bs) \<le> snd s + length bs * (fst s + 255 * length bs)"
proof (induction bs rule: rev_induct)
  case (snoc b bs)
  obtain x y where xy: "adler_sums s bs = (x, y)" by (cases "adler_sums s bs")
  have "unat b < 2 ^ LENGTH(8)" by (rule unsigned_less)
  then have b: "unat b \<le> 255" by simp
  let ?n = "length bs"
  have p: "?n * (fst s + 255 * ?n) \<le> ?n * (fst s + 255 * Suc ?n)" by (intro mult_le_mono2) simp
  have xy': "adler_sums s (bs @ [b]) = (x + unat b, y + (x + unat b))"
    by (simp add: adler_sums_append xy) (simp add: adler_sums_def)
  have ih: "x \<le> fst s + 255 * ?n" "y \<le> snd s + ?n * (fst s + 255 * ?n)" using snoc xy by simp_all
  have "x + unat b \<le> fst s + 255 * Suc ?n" using ih b by simp
  moreover from this have "y + (x + unat b) \<le> snd s + (fst s + 255 * Suc ?n + ?n * (fst s + 255 * Suc ?n))"
    using ih p by linarith
  ultimately show ?case by (simp add: xy')
qed (simp add: adler_sums_def)

definition adler_safe :: "nat \<times> nat \<Rightarrow> bool" where
  "adler_safe s \<longleftrightarrow> fst s \<le> snd s + 65535 \<and> snd s < 2 ^ 34"

lemma adler_sums_mono: "fst s \<le> snd s + 65535 \<Longrightarrow> fst (adler_sums s bs) \<le> snd (adler_sums s bs) + 65535"
proof (induction bs arbitrary: s)
  case (Cons b bs)
  have "fst (adler_add s b) \<le> snd (adler_add s b) + 65535" by (cases s) simp
  from Cons.IH [OF this] show ?case by (simp add: adler_sums_def)
qed (simp add: adler_sums_def)

lemma adler_fours_sums:
  assumes "adler_safe s" and "buf \<noteq> []"
  shows "\<exists>m < length buf. adler_fours (words_of s) buf = (words_of (adler_sums s (take m buf)), drop m buf) \<and>
    adler_safe (adler_sums s (take m buf))"
  using assms
proof (induction "length buf" arbitrary: s buf rule: less_induct)
  case less
  have w: "snd (words_of s) < 2 ^ 31 \<longleftrightarrow> snd s < 2 ^ 31"
    using less.prems(1) by (simp add: words_of_def adler_safe_def word_less_nat_alt unsigned_of_nat take_bit_nat_eq_self)
  show ?case
  proof (cases "length buf > 4 \<and> snd s < 2 ^ 31")
    case True
    let ?s = "adler_sums s (take 4 buf)"
    have "adler_safe ?s"
      using adler_sums_le [of s "take 4 buf"] adler_sums_mono [of s "take 4 buf"] less.prems(1) True
      by (simp add: adler_safe_def)
    then have "\<exists>m < length (drop 4 buf). adler_fours (words_of ?s) (drop 4 buf) =
        (words_of (adler_sums ?s (take m (drop 4 buf))), drop m (drop 4 buf)) \<and>
        adler_safe (adler_sums ?s (take m (drop 4 buf)))"
      using True by (intro less.hyps) auto
    then obtain m where m: "m < length (drop 4 buf)"
      "adler_fours (words_of ?s) (drop 4 buf) = (words_of (adler_sums ?s (take m (drop 4 buf))), drop m (drop 4 buf))"
      "adler_safe (adler_sums ?s (take m (drop 4 buf)))" by blast
    have "adler_sums s (take (4 + m) buf) = adler_sums ?s (take m (drop 4 buf))"
      by (simp add: take_add adler_sums_append)
    with m True w show ?thesis
      by (intro exI [of _ "4 + m"], subst adler_fours.simps) (simp add: DO1s_words add.commute)
  next
    case False
    then show ?thesis
      using less.prems w by (intro exI [of _ 0], subst adler_fours.simps) (auto simp: adler_sums_def)
  qed
qed

lemma adler_step_sums:
  assumes "fst s < 2 ^ 16" "snd s < 2 ^ 16" and "buf \<noteq> []"
  shows "\<exists>m < length buf. adler_step cfg (words_of s) buf = (words_of (adler_sums s (take m buf)), drop m buf) \<and>
    fst (adler_sums s (take m buf)) < 2 ^ 35 \<and> snd (adler_sums s (take m buf)) < 2 ^ 35"
proof (cases "fast64 cfg")
  case True
  define n where "n = min ((length buf - 1) div 8) 23"
  have len2: "min ((length buf - 1) div 8 * 8) (23 * 8) = 8 * n" by (simp add: n_def min_def)
  have "8 * n \<le> length buf - 1" unfolding len2 [symmetric] by (simp add: le_trans [OF min.cobounded1])
  then have lt: "8 * n < length buf" using assms(3) by (cases buf) auto
  have n: "n \<le> 23" by (simp add: n_def)
  have "8 * n * (fst s + 255 * (8 * n)) \<le> 8 * 23 * (2 ^ 16 + 255 * (8 * 23))"
    using n assms(1) by (intro mult_le_mono add_le_mono) auto
  then have "fst (adler_sums s (take (8 * n) buf)) < 2 ^ 35" "snd (adler_sums s (take (8 * n) buf)) < 2 ^ 35"
    using adler_sums_le [of s "take (8 * n) buf"] lt n assms(1,2) by (simp_all add: min_def)
  moreover have "adler_step cfg (words_of s) buf = (words_of (adler_sums s (take (8 * n) buf)), drop (8 * n) buf)"
    using adler_block_sums [OF n, of buf] lt True unfolding adler_step_def Let_def len2
    by (auto simp: adler_sums_def)
  ultimately show ?thesis using lt by blast
next
  case False
  have "adler_safe s" using assms(1,2) by (simp add: adler_safe_def)
  from adler_fours_sums [OF this assms(3)] False show ?thesis by (fastforce simp: adler_step_def adler_safe_def)
qed

text \<open>Reducing the sums does not change what the rest of the bytes adds.\<close>

definition reduce_sums :: "nat \<times> nat \<Rightarrow> nat \<times> nat" where
  "reduce_sums s = (fst s mod 65521, snd s mod 65521)"

lemma adler_add_reduce: "reduce_sums (adler_add (reduce_sums s) b) = reduce_sums (adler_add s b)"
proof (cases s)
  case (Pair s1 s2)
  have "(s2 mod 65521 + (s1 mod 65521 + unat b)) mod 65521 = (s2 + (s1 + unat b)) mod 65521"
    by (metis mod_add_left_eq mod_add_right_eq)
  then show ?thesis by (simp add: Pair reduce_sums_def mod_add_left_eq)
qed

lemma adler_sums_reduce: "reduce_sums (adler_sums (reduce_sums s) bs) = reduce_sums (adler_sums s bs)"
proof (induction bs rule: rev_induct)
  case (snoc b bs)
  have "adler_sums t (bs @ [b]) = adler_add (adler_sums t bs) b" for t by (simp add: adler_sums_def)
  then show ?case using snoc adler_add_reduce by metis
qed (simp add: adler_sums_def reduce_sums_def)

lemma words_of_reduce:
  assumes "fst s < 2 ^ 64" "snd s < 2 ^ 64"
  shows "(fst (words_of s) mod adler_BASE, snd (words_of s) mod adler_BASE) = words_of (reduce_sums s)"
proof -
  have "of_nat n mod adler_BASE = of_nat (n mod 65521)" if "n < 2 ^ 64" for n
  proof -
    have "n mod 65521 < 2 ^ 64" using that by (rule le_less_trans [OF mod_less_eq_dividend])
    then show ?thesis using that
      by (simp add: word_unat_eq_iff adler_BASE_def unat_mod unsigned_of_nat take_bit_nat_eq_self)
  qed
  then show ?thesis using assms by (simp add: words_of_def reduce_sums_def)
qed

lemma adler_loop_sums:
  assumes "fst s < 2 ^ 16" "snd s < 2 ^ 16"
  shows "adler_loop cfg (words_of s) buf = words_of (if buf = [] then s else reduce_sums (adler_sums s buf))"
  using assms
proof (induction "length buf" arbitrary: s buf rule: less_induct)
  case less
  show ?case
  proof (cases "buf = []")
    case True
    then show ?thesis by (subst adler_loop.simps) simp
  next
    case False
    from adler_step_sums [OF less.prems False, of cfg] obtain m where m: "m < length buf"
      "adler_step cfg (words_of s) buf = (words_of (adler_sums s (take m buf)), drop m buf)"
      "fst (adler_sums s (take m buf)) < 2 ^ 35" "snd (adler_sums s (take m buf)) < 2 ^ 35" by blast
    obtain b rest where r: "drop m buf = b # rest" using m(1) by (cases "drop m buf") auto
    let ?s = "adler_add (adler_sums s (take m buf)) b"
    have "unat b < 2 ^ LENGTH(8)" by (rule unsigned_less)
    then have "fst ?s < 2 ^ 64" "snd ?s < 2 ^ 64"
      using m(3,4) by (cases "adler_sums s (take m buf)"; simp)+
    from words_of_reduce [OF this] have l: "adler_loop cfg (words_of s) buf = adler_loop cfg (words_of (reduce_sums ?s)) rest"
      using False by (subst adler_loop.simps) (simp add: m(2) r DO1_words Let_def del: DO1.simps adler_add.simps)
    have "length rest < length buf" using r m(1) by (metis length_drop length_Cons diff_le_self Suc_le_lessD le_trans)
    moreover have "fst (reduce_sums ?s) < 2 ^ 16" "snd (reduce_sums ?s) < 2 ^ 16"
      using mod_less_divisor [of 65521 "fst ?s"] mod_less_divisor [of 65521 "snd ?s"]
      by (simp_all only: reduce_sums_def fst_conv snd_conv) simp_all
    ultimately have "adler_loop cfg (words_of (reduce_sums ?s)) rest =
        words_of (if rest = [] then reduce_sums ?s else reduce_sums (adler_sums (reduce_sums ?s) rest))"
      by (rule less.hyps)
    also have "(if rest = [] then reduce_sums ?s else reduce_sums (adler_sums (reduce_sums ?s) rest)) =
        reduce_sums (adler_sums ?s rest)"
      by (simp add: adler_sums_reduce) (simp add: adler_sums_def)
    also have "adler_sums ?s rest = adler_sums s buf"
      using append_take_drop_id [of m buf] by (metis adler_sums_def foldl_Cons foldl_append r)
    finally show ?thesis using False l by simp
  qed
qed

text \<open>The checksum as one number: the second sum above the first.\<close>

definition adler_value :: "nat \<times> nat \<Rightarrow> u64" where
  "adler_value s = of_nat (snd s * 2 ^ 16 + fst s)"

definition adler_start :: "u64 \<Rightarrow> nat \<times> nat" where
  "adler_start adler = (unat adler mod 2 ^ 16, unat adler div 2 ^ 16)"

lemma av_adler32_update_aux:
  assumes "adler < 2 ^ 32"
  shows "av_adler32_update cfg adler buf =
    (if buf = [] then adler else adler_value (reduce_sums (adler_sums (adler_start adler) buf)))"
proof -
  have a: "unat adler < 2 ^ 32" using assms by (simp add: word_less_nat_alt)
  have "adler AND 0xffff = take_bit 16 adler" by (simp add: take_bit_eq_mask mask_eq_exp_minus_1)
  then have "unat (adler AND 0xffff) = take_bit 16 (unat adler)" by (simp only: unsigned_take_bit_eq)
  moreover have "unat adler < 2 ^ LENGTH(64)" by (rule unsigned_less)
  then have "unat (shr adler 16) = drop_bit 16 (unat adler)"
    by (simp only: unsigned_drop_bit_eq take_bit_nat_eq_self)
  ultimately have u: "unat (adler AND 0xffff) = unat adler mod 2 ^ 16" "unat (shr adler 16) = unat adler div 2 ^ 16"
    by (simp_all only: take_bit_eq_mod drop_bit_eq_div)
  have s: "(adler AND 0xffff, shr adler 16) = words_of (adler_start adler)"
    unfolding words_of_def adler_start_def fst_conv snd_conv u [symmetric] by simp
  have lt: "fst (adler_start adler) < 2 ^ 16" "snd (adler_start adler) < 2 ^ 16"
    using a by (simp_all add: adler_start_def)
  have v: "shl (snd (words_of t)) 16 OR fst (words_of t) = adler_value t" if "fst t < 2 ^ 16" for t
    using add_shift_or [OF that, of "snd t"]
    by (simp add: words_of_def adler_value_def add.commute or.commute flip: of_nat_push_bit of_nat_or_eq)
  have "fst (reduce_sums t) < 2 ^ 16" for t
    using mod_less_divisor [of 65521 "fst t"] by (simp add: reduce_sums_def)
  moreover have "adler_value (adler_start adler) = adler"
    by (simp add: adler_value_def adler_start_def flip: of_nat_mult)
  ultimately show ?thesis
    unfolding av_adler32_update_def s adler_loop_sums [OF lt] using v lt by (auto simp: split_beta)
qed

text \<open>C26: \<open>av_adler32_update\<close> computes the Adler-32 definition in every build configuration and for either byte
  order: the two sums of the bytes modulo 65521, started from the halves of the given 32-bit value, whatever the number
  of bytes. (With no byte the value is returned unchanged.)\<close>

theorem av_adler32_update_correct:
  assumes "adler < 2 ^ 32"
  shows "av_adler32_update cfg adler buf =
    (if buf = [] then adler else adler_value (reduce_sums (adler_sums (adler_start adler) buf)))"
  using assms by (rule av_adler32_update_aux)

lemma av_adler32_update_correct_witness:
  "(1 :: u64) < 2 ^ 32 \<and>
   av_adler32_update \<lparr>fast64 = True, big_endian = False\<rparr> 1 [87, 105, 107, 105, 112, 101, 100, 105, 97] = 0x11E60398"
proof
  show *: "(1 :: u64) < 2 ^ 32" by simp
  show "av_adler32_update \<lparr>fast64 = True, big_endian = False\<rparr> 1 [87, 105, 107, 105, 112, 101, 100, 105, 97] = 0x11E60398"
    unfolding av_adler32_update_correct [OF *]
    by (simp add: adler_value_def reduce_sums_def adler_sums_def adler_start_def)
qed

text \<open>Checksums of parts: the value after one part is a start value for the next.\<close>

lemma unat_adler_value:
  "unat (adler_value (reduce_sums s)) = snd (reduce_sums s) * 2 ^ 16 + fst (reduce_sums s)"
  "snd (reduce_sums s) * 2 ^ 16 + fst (reduce_sums s) < 2 ^ 32" "fst (reduce_sums s) < 2 ^ 16"
proof -
  have l: "fst (reduce_sums s) < 65521" "snd (reduce_sums s) < 65521" by (simp_all add: reduce_sums_def)
  then show lt: "snd (reduce_sums s) * 2 ^ 16 + fst (reduce_sums s) < 2 ^ 32" "fst (reduce_sums s) < 2 ^ 16" by simp_all
  from lt(1) have "snd (reduce_sums s) * 2 ^ 16 + fst (reduce_sums s) < 2 ^ LENGTH(64)" by simp
  then show "unat (adler_value (reduce_sums s)) = snd (reduce_sums s) * 2 ^ 16 + fst (reduce_sums s)"
    by (simp only: adler_value_def unsigned_of_nat take_bit_nat_eq_self of_nat_id)
qed

lemma av_adler32_update_less: "adler < 2 ^ 32 \<Longrightarrow> av_adler32_update cfg adler buf < 2 ^ 32"
  using unat_adler_value by (simp add: av_adler32_update_aux word_less_nat_alt)

lemma adler_start_value: "adler_start (adler_value (reduce_sums s)) = reduce_sums s"
  using unat_adler_value(3) [of s] by (simp only: adler_start_def unat_adler_value(1)) simp

lemma av_adler32_update_append:
  assumes "adler < 2 ^ 32"
  shows "av_adler32_update cfg (av_adler32_update cfg' adler a) b = av_adler32_update cfg adler (a @ b)"
proof (cases "a = []")
  case False
  note ab = av_adler32_update_aux [OF assms] av_adler32_update_aux [OF av_adler32_update_less [OF assms]]
  show ?thesis
    unfolding ab(2) ab(1) [of _ "a @ b"] unfolding ab(1) using False
    by (simp add: adler_start_value adler_sums_reduce adler_sums_append) (simp add: adler_sums_def)
qed (simp add: av_adler32_update_aux [OF assms])

end
