(* ===== verification/AvCrc.thy ===== *)
theory AvCrc imports AvPrelude
begin

text \<open>
  \<open>libavutil/crc.c\<close>: cyclic redundancy checks. A table of 256 words gives the check of a byte; a table of 1024, used
  unless \<open>CONFIG_SMALL\<close>, takes four bytes at a time. Tables are computed by \<open>av_crc_init\<close>, or written out in the source
  when \<open>CONFIG_HARDCODED_TABLES\<close>. The reference is the shift register that takes one bit of the message at a time.
\<close>

section \<open>The code\<close>

text \<open>\<open>av_bswap32\<close> of \<open>bswap.h\<close>, as written there.\<close>

definition AV_BSWAP16C :: "u32 \<Rightarrow> u32" where
  "AV_BSWAP16C x = (shl x 8 AND 0xff00) OR (shr x 8 AND 0x00ff)"

definition av_bswap32 :: "u32 \<Rightarrow> u32" where
  "av_bswap32 x = shl (AV_BSWAP16C x) 16 OR AV_BSWAP16C (shr x 16)"

datatype AVCRCId =
  AV_CRC_8_ATM | AV_CRC_16_ANSI | AV_CRC_16_CCITT | AV_CRC_32_IEEE | AV_CRC_32_IEEE_LE | AV_CRC_16_ANSI_LE
| AV_CRC_24_IEEE | AV_CRC_8_EBU | AV_CRC_MAX

record crc_config =
  crc_hardcoded :: bool        \<comment> \<open>\<open>CONFIG_HARDCODED_TABLES\<close>\<close>
  crc_small :: bool            \<comment> \<open>\<open>CONFIG_SMALL\<close>\<close>

text \<open>The bodies of the two inner loops, for the reversed and for the plain bit order.\<close>

definition crc_le_bit :: "u32 \<Rightarrow> u32 \<Rightarrow> u32" where
  "crc_le_bit poly c = shr c 1 XOR (poly AND (- (c AND 1)))"

definition crc_be_bit :: "int \<Rightarrow> u32 \<Rightarrow> u32 \<Rightarrow> u32" where
  "crc_be_bit bits poly c = shl c 1 XOR (shl poly (nat (32 - bits)) AND signed_drop_bit 31 c)"

definition crc_entry :: "bool \<Rightarrow> int \<Rightarrow> u32 \<Rightarrow> nat \<Rightarrow> u32" where
  "crc_entry le bits poly i =
     (if le then (crc_le_bit poly ^^ 8) (of_nat i)
      else av_bswap32 ((crc_be_bit bits poly ^^ 8) (shl (of_nat i) 24)))"

text \<open>\<open>for (i...) for (j...) ctx[256 * (j + 1) + i] = ...\<close>\<close>

definition crc_slice :: "nat \<Rightarrow> u32 list \<Rightarrow> nat \<Rightarrow> u32 list" where
  "crc_slice i ctx j =
     (let t = ctx ! (256 * j + i) in ctx[256 * (j + 1) + i := shr t 8 XOR ctx ! unat (t AND 0xFF)])"

definition crc_slices :: "u32 list \<Rightarrow> u32 list" where
  "crc_slices ctx = foldl (\<lambda>ctx i. foldl (crc_slice i) ctx [0..<3]) ctx [0..<256]"

text \<open>The array \<open>ctx\<close> as found in memory and as left, after the result. \<open>sizeof(AVCRC)\<close> is 4.\<close>

definition av_crc_init :: "crc_config \<Rightarrow> u32 list \<Rightarrow> bool \<Rightarrow> int \<Rightarrow> u32 \<Rightarrow> int \<Rightarrow> averror option \<times> u32 list" where
  "av_crc_init cfg ctx le bits poly ctx_size =
     (if bits < 8 \<or> bits > 32 \<or> uint poly \<ge> 2 ^ nat bits then (Some EINVAL, ctx)
      else if ctx_size \<noteq> 4 * 257 \<and> ctx_size \<noteq> 4 * 1024 then (Some EINVAL, ctx)
      else
        let ctx = foldl (\<lambda>ctx i. ctx[i := crc_entry le bits poly i]) ctx [0..<256];
            ctx = ctx[256 := 1];
            ctx = (if \<not> crc_small cfg \<and> ctx_size \<ge> 4 * 1024 then crc_slices ctx else ctx)
        in (None, ctx))"

definition crc_table_8_ATM :: "u32 list" where
  "crc_table_8_ATM =
     [0x00, 0x07, 0x0E, 0x09, 0x1C, 0x1B, 0x12, 0x15, 0x38, 0x3F, 0x36, 0x31,
      0x24, 0x23, 0x2A, 0x2D, 0x70, 0x77, 0x7E, 0x79, 0x6C, 0x6B, 0x62, 0x65,
      0x48, 0x4F, 0x46, 0x41, 0x54, 0x53, 0x5A, 0x5D, 0xE0, 0xE7, 0xEE, 0xE9,
      0xFC, 0xFB, 0xF2, 0xF5, 0xD8, 0xDF, 0xD6, 0xD1, 0xC4, 0xC3, 0xCA, 0xCD,
      0x90, 0x97, 0x9E, 0x99, 0x8C, 0x8B, 0x82, 0x85, 0xA8, 0xAF, 0xA6, 0xA1,
      0xB4, 0xB3, 0xBA, 0xBD, 0xC7, 0xC0, 0xC9, 0xCE, 0xDB, 0xDC, 0xD5, 0xD2,
      0xFF, 0xF8, 0xF1, 0xF6, 0xE3, 0xE4, 0xED, 0xEA, 0xB7, 0xB0, 0xB9, 0xBE,
      0xAB, 0xAC, 0xA5, 0xA2, 0x8F, 0x88, 0x81, 0x86, 0x93, 0x94, 0x9D, 0x9A,
      0x27, 0x20, 0x29, 0x2E, 0x3B, 0x3C, 0x35, 0x32, 0x1F, 0x18, 0x11, 0x16,
      0x03, 0x04, 0x0D, 0x0A, 0x57, 0x50, 0x59, 0x5E, 0x4B, 0x4C, 0x45, 0x42,
      0x6F, 0x68, 0x61, 0x66, 0x73, 0x74, 0x7D, 0x7A, 0x89, 0x8E, 0x87, 0x80,
      0x95, 0x92, 0x9B, 0x9C, 0xB1, 0xB6, 0xBF, 0xB8, 0xAD, 0xAA, 0xA3, 0xA4,
      0xF9, 0xFE, 0xF7, 0xF0, 0xE5, 0xE2, 0xEB, 0xEC, 0xC1, 0xC6, 0xCF, 0xC8,
      0xDD, 0xDA, 0xD3, 0xD4, 0x69, 0x6E, 0x67, 0x60, 0x75, 0x72, 0x7B, 0x7C,
      0x51, 0x56, 0x5F, 0x58, 0x4D, 0x4A, 0x43, 0x44, 0x19, 0x1E, 0x17, 0x10,
      0x05, 0x02, 0x0B, 0x0C, 0x21, 0x26, 0x2F, 0x28, 0x3D, 0x3A, 0x33, 0x34,
      0x4E, 0x49, 0x40, 0x47, 0x52, 0x55, 0x5C, 0x5B, 0x76, 0x71, 0x78, 0x7F,
      0x6A, 0x6D, 0x64, 0x63, 0x3E, 0x39, 0x30, 0x37, 0x22, 0x25, 0x2C, 0x2B,
      0x06, 0x01, 0x08, 0x0F, 0x1A, 0x1D, 0x14, 0x13, 0xAE, 0xA9, 0xA0, 0xA7,
      0xB2, 0xB5, 0xBC, 0xBB, 0x96, 0x91, 0x98, 0x9F, 0x8A, 0x8D, 0x84, 0x83,
      0xDE, 0xD9, 0xD0, 0xD7, 0xC2, 0xC5, 0xCC, 0xCB, 0xE6, 0xE1, 0xE8, 0xEF,
      0xFA, 0xFD, 0xF4, 0xF3, 0x01]"

definition crc_table_8_EBU :: "u32 list" where
  "crc_table_8_EBU =
     [0x00, 0x1D, 0x3A, 0x27, 0x74, 0x69, 0x4E, 0x53, 0xE8, 0xF5, 0xD2, 0xCF,
      0x9C, 0x81, 0xA6, 0xBB, 0xCD, 0xD0, 0xF7, 0xEA, 0xB9, 0xA4, 0x83, 0x9E,
      0x25, 0x38, 0x1F, 0x02, 0x51, 0x4C, 0x6B, 0x76, 0x87, 0x9A, 0xBD, 0xA0,
      0xF3, 0xEE, 0xC9, 0xD4, 0x6F, 0x72, 0x55, 0x48, 0x1B, 0x06, 0x21, 0x3C,
      0x4A, 0x57, 0x70, 0x6D, 0x3E, 0x23, 0x04, 0x19, 0xA2, 0xBF, 0x98, 0x85,
      0xD6, 0xCB, 0xEC, 0xF1, 0x13, 0x0E, 0x29, 0x34, 0x67, 0x7A, 0x5D, 0x40,
      0xFB, 0xE6, 0xC1, 0xDC, 0x8F, 0x92, 0xB5, 0xA8, 0xDE, 0xC3, 0xE4, 0xF9,
      0xAA, 0xB7, 0x90, 0x8D, 0x36, 0x2B, 0x0C, 0x11, 0x42, 0x5F, 0x78, 0x65,
      0x94, 0x89, 0xAE, 0xB3, 0xE0, 0xFD, 0xDA, 0xC7, 0x7C, 0x61, 0x46, 0x5B,
      0x08, 0x15, 0x32, 0x2F, 0x59, 0x44, 0x63, 0x7E, 0x2D, 0x30, 0x17, 0x0A,
      0xB1, 0xAC, 0x8B, 0x96, 0xC5, 0xD8, 0xFF, 0xE2, 0x26, 0x3B, 0x1C, 0x01,
      0x52, 0x4F, 0x68, 0x75, 0xCE, 0xD3, 0xF4, 0xE9, 0xBA, 0xA7, 0x80, 0x9D,
      0xEB, 0xF6, 0xD1, 0xCC, 0x9F, 0x82, 0xA5, 0xB8, 0x03, 0x1E, 0x39, 0x24,
      0x77, 0x6A, 0x4D, 0x50, 0xA1, 0xBC, 0x9B, 0x86, 0xD5, 0xC8, 0xEF, 0xF2,
      0x49, 0x54, 0x73, 0x6E, 0x3D, 0x20, 0x07, 0x1A, 0x6C, 0x71, 0x56, 0x4B,
      0x18, 0x05, 0x22, 0x3F, 0x84, 0x99, 0xBE, 0xA3, 0xF0, 0xED, 0xCA, 0xD7,
      0x35, 0x28, 0x0F, 0x12, 0x41, 0x5C, 0x7B, 0x66, 0xDD, 0xC0, 0xE7, 0xFA,
      0xA9, 0xB4, 0x93, 0x8E, 0xF8, 0xE5, 0xC2, 0xDF, 0x8C, 0x91, 0xB6, 0xAB,
      0x10, 0x0D, 0x2A, 0x37, 0x64, 0x79, 0x5E, 0x43, 0xB2, 0xAF, 0x88, 0x95,
      0xC6, 0xDB, 0xFC, 0xE1, 0x5A, 0x47, 0x60, 0x7D, 0x2E, 0x33, 0x14, 0x09,
      0x7F, 0x62, 0x45, 0x58, 0x0B, 0x16, 0x31, 0x2C, 0x97, 0x8A, 0xAD, 0xB0,
      0xE3, 0xFE, 0xD9, 0xC4, 0x01]"

definition crc_table_16_ANSI :: "u32 list" where
  "crc_table_16_ANSI =
     [0x0000, 0x0580, 0x0F80, 0x0A00, 0x1B80, 0x1E00, 0x1400, 0x1180,
      0x3380, 0x3600, 0x3C00, 0x3980, 0x2800, 0x2D80, 0x2780, 0x2200,
      0x6380, 0x6600, 0x6C00, 0x6980, 0x7800, 0x7D80, 0x7780, 0x7200,
      0x5000, 0x5580, 0x5F80, 0x5A00, 0x4B80, 0x4E00, 0x4400, 0x4180,
      0xC380, 0xC600, 0xCC00, 0xC980, 0xD800, 0xDD80, 0xD780, 0xD200,
      0xF000, 0xF580, 0xFF80, 0xFA00, 0xEB80, 0xEE00, 0xE400, 0xE180,
      0xA000, 0xA580, 0xAF80, 0xAA00, 0xBB80, 0xBE00, 0xB400, 0xB180,
      0x9380, 0x9600, 0x9C00, 0x9980, 0x8800, 0x8D80, 0x8780, 0x8200,
      0x8381, 0x8601, 0x8C01, 0x8981, 0x9801, 0x9D81, 0x9781, 0x9201,
      0xB001, 0xB581, 0xBF81, 0xBA01, 0xAB81, 0xAE01, 0xA401, 0xA181,
      0xE001, 0xE581, 0xEF81, 0xEA01, 0xFB81, 0xFE01, 0xF401, 0xF181,
      0xD381, 0xD601, 0xDC01, 0xD981, 0xC801, 0xCD81, 0xC781, 0xC201,
      0x4001, 0x4581, 0x4F81, 0x4A01, 0x5B81, 0x5E01, 0x5401, 0x5181,
      0x7381, 0x7601, 0x7C01, 0x7981, 0x6801, 0x6D81, 0x6781, 0x6201,
      0x2381, 0x2601, 0x2C01, 0x2981, 0x3801, 0x3D81, 0x3781, 0x3201,
      0x1001, 0x1581, 0x1F81, 0x1A01, 0x0B81, 0x0E01, 0x0401, 0x0181,
      0x0383, 0x0603, 0x0C03, 0x0983, 0x1803, 0x1D83, 0x1783, 0x1203,
      0x3003, 0x3583, 0x3F83, 0x3A03, 0x2B83, 0x2E03, 0x2403, 0x2183,
      0x6003, 0x6583, 0x6F83, 0x6A03, 0x7B83, 0x7E03, 0x7403, 0x7183,
      0x5383, 0x5603, 0x5C03, 0x5983, 0x4803, 0x4D83, 0x4783, 0x4203,
      0xC003, 0xC583, 0xCF83, 0xCA03, 0xDB83, 0xDE03, 0xD403, 0xD183,
      0xF383, 0xF603, 0xFC03, 0xF983, 0xE803, 0xED83, 0xE783, 0xE203,
      0xA383, 0xA603, 0xAC03, 0xA983, 0xB803, 0xBD83, 0xB783, 0xB203,
      0x9003, 0x9583, 0x9F83, 0x9A03, 0x8B83, 0x8E03, 0x8403, 0x8183,
      0x8002, 0x8582, 0x8F82, 0x8A02, 0x9B82, 0x9E02, 0x9402, 0x9182,
      0xB382, 0xB602, 0xBC02, 0xB982, 0xA802, 0xAD82, 0xA782, 0xA202,
      0xE382, 0xE602, 0xEC02, 0xE982, 0xF802, 0xFD82, 0xF782, 0xF202,
      0xD002, 0xD582, 0xDF82, 0xDA02, 0xCB82, 0xCE02, 0xC402, 0xC182,
      0x4382, 0x4602, 0x4C02, 0x4982, 0x5802, 0x5D82, 0x5782, 0x5202,
      0x7002, 0x7582, 0x7F82, 0x7A02, 0x6B82, 0x6E02, 0x6402, 0x6182,
      0x2002, 0x2582, 0x2F82, 0x2A02, 0x3B82, 0x3E02, 0x3402, 0x3182,
      0x1382, 0x1602, 0x1C02, 0x1982, 0x0802, 0x0D82, 0x0782, 0x0202,
      0x0001]"

definition crc_table_16_CCITT :: "u32 list" where
  "crc_table_16_CCITT =
     [0x0000, 0x2110, 0x4220, 0x6330, 0x8440, 0xA550, 0xC660, 0xE770,
      0x0881, 0x2991, 0x4AA1, 0x6BB1, 0x8CC1, 0xADD1, 0xCEE1, 0xEFF1,
      0x3112, 0x1002, 0x7332, 0x5222, 0xB552, 0x9442, 0xF772, 0xD662,
      0x3993, 0x1883, 0x7BB3, 0x5AA3, 0xBDD3, 0x9CC3, 0xFFF3, 0xDEE3,
      0x6224, 0x4334, 0x2004, 0x0114, 0xE664, 0xC774, 0xA444, 0x8554,
      0x6AA5, 0x4BB5, 0x2885, 0x0995, 0xEEE5, 0xCFF5, 0xACC5, 0x8DD5,
      0x5336, 0x7226, 0x1116, 0x3006, 0xD776, 0xF666, 0x9556, 0xB446,
      0x5BB7, 0x7AA7, 0x1997, 0x3887, 0xDFF7, 0xFEE7, 0x9DD7, 0xBCC7,
      0xC448, 0xE558, 0x8668, 0xA778, 0x4008, 0x6118, 0x0228, 0x2338,
      0xCCC9, 0xEDD9, 0x8EE9, 0xAFF9, 0x4889, 0x6999, 0x0AA9, 0x2BB9,
      0xF55A, 0xD44A, 0xB77A, 0x966A, 0x711A, 0x500A, 0x333A, 0x122A,
      0xFDDB, 0xDCCB, 0xBFFB, 0x9EEB, 0x799B, 0x588B, 0x3BBB, 0x1AAB,
      0xA66C, 0x877C, 0xE44C, 0xC55C, 0x222C, 0x033C, 0x600C, 0x411C,
      0xAEED, 0x8FFD, 0xECCD, 0xCDDD, 0x2AAD, 0x0BBD, 0x688D, 0x499D,
      0x977E, 0xB66E, 0xD55E, 0xF44E, 0x133E, 0x322E, 0x511E, 0x700E,
      0x9FFF, 0xBEEF, 0xDDDF, 0xFCCF, 0x1BBF, 0x3AAF, 0x599F, 0x788F,
      0x8891, 0xA981, 0xCAB1, 0xEBA1, 0x0CD1, 0x2DC1, 0x4EF1, 0x6FE1,
      0x8010, 0xA100, 0xC230, 0xE320, 0x0450, 0x2540, 0x4670, 0x6760,
      0xB983, 0x9893, 0xFBA3, 0xDAB3, 0x3DC3, 0x1CD3, 0x7FE3, 0x5EF3,
      0xB102, 0x9012, 0xF322, 0xD232, 0x3542, 0x1452, 0x7762, 0x5672,
      0xEAB5, 0xCBA5, 0xA895, 0x8985, 0x6EF5, 0x4FE5, 0x2CD5, 0x0DC5,
      0xE234, 0xC324, 0xA014, 0x8104, 0x6674, 0x4764, 0x2454, 0x0544,
      0xDBA7, 0xFAB7, 0x9987, 0xB897, 0x5FE7, 0x7EF7, 0x1DC7, 0x3CD7,
      0xD326, 0xF236, 0x9106, 0xB016, 0x5766, 0x7676, 0x1546, 0x3456,
      0x4CD9, 0x6DC9, 0x0EF9, 0x2FE9, 0xC899, 0xE989, 0x8AB9, 0xABA9,
      0x4458, 0x6548, 0x0678, 0x2768, 0xC018, 0xE108, 0x8238, 0xA328,
      0x7DCB, 0x5CDB, 0x3FEB, 0x1EFB, 0xF98B, 0xD89B, 0xBBAB, 0x9ABB,
      0x754A, 0x545A, 0x376A, 0x167A, 0xF10A, 0xD01A, 0xB32A, 0x923A,
      0x2EFD, 0x0FED, 0x6CDD, 0x4DCD, 0xAABD, 0x8BAD, 0xE89D, 0xC98D,
      0x267C, 0x076C, 0x645C, 0x454C, 0xA23C, 0x832C, 0xE01C, 0xC10C,
      0x1FEF, 0x3EFF, 0x5DCF, 0x7CDF, 0x9BAF, 0xBABF, 0xD98F, 0xF89F,
      0x176E, 0x367E, 0x554E, 0x745E, 0x932E, 0xB23E, 0xD10E, 0xF01E,
      0x0001]"

definition crc_table_24_IEEE :: "u32 list" where
  "crc_table_24_IEEE =
     [0x000000, 0xFB4C86, 0x0DD58A, 0xF6990C, 0xE1E693, 0x1AAA15, 0xEC3319, 0x177F9F,
      0x3981A1, 0xC2CD27, 0x34542B, 0xCF18AD, 0xD86732, 0x232BB4, 0xD5B2B8, 0x2EFE3E,
      0x894EC5, 0x720243, 0x849B4F, 0x7FD7C9, 0x68A856, 0x93E4D0, 0x657DDC, 0x9E315A,
      0xB0CF64, 0x4B83E2, 0xBD1AEE, 0x465668, 0x5129F7, 0xAA6571, 0x5CFC7D, 0xA7B0FB,
      0xE9D10C, 0x129D8A, 0xE40486, 0x1F4800, 0x08379F, 0xF37B19, 0x05E215, 0xFEAE93,
      0xD050AD, 0x2B1C2B, 0xDD8527, 0x26C9A1, 0x31B63E, 0xCAFAB8, 0x3C63B4, 0xC72F32,
      0x609FC9, 0x9BD34F, 0x6D4A43, 0x9606C5, 0x81795A, 0x7A35DC, 0x8CACD0, 0x77E056,
      0x591E68, 0xA252EE, 0x54CBE2, 0xAF8764, 0xB8F8FB, 0x43B47D, 0xB52D71, 0x4E61F7,
      0xD2A319, 0x29EF9F, 0xDF7693, 0x243A15, 0x33458A, 0xC8090C, 0x3E9000, 0xC5DC86,
      0xEB22B8, 0x106E3E, 0xE6F732, 0x1DBBB4, 0x0AC42B, 0xF188AD, 0x0711A1, 0xFC5D27,
      0x5BEDDC, 0xA0A15A, 0x563856, 0xAD74D0, 0xBA0B4F, 0x4147C9, 0xB7DEC5, 0x4C9243,
      0x626C7D, 0x9920FB, 0x6FB9F7, 0x94F571, 0x838AEE, 0x78C668, 0x8E5F64, 0x7513E2,
      0x3B7215, 0xC03E93, 0x36A79F, 0xCDEB19, 0xDA9486, 0x21D800, 0xD7410C, 0x2C0D8A,
      0x02F3B4, 0xF9BF32, 0x0F263E, 0xF46AB8, 0xE31527, 0x1859A1, 0xEEC0AD, 0x158C2B,
      0xB23CD0, 0x497056, 0xBFE95A, 0x44A5DC, 0x53DA43, 0xA896C5, 0x5E0FC9, 0xA5434F,
      0x8BBD71, 0x70F1F7, 0x8668FB, 0x7D247D, 0x6A5BE2, 0x911764, 0x678E68, 0x9CC2EE,
      0xA44733, 0x5F0BB5, 0xA992B9, 0x52DE3F, 0x45A1A0, 0xBEED26, 0x48742A, 0xB338AC,
      0x9DC692, 0x668A14, 0x901318, 0x6B5F9E, 0x7C2001, 0x876C87, 0x71F58B, 0x8AB90D,
      0x2D09F6, 0xD64570, 0x20DC7C, 0xDB90FA, 0xCCEF65, 0x37A3E3, 0xC13AEF, 0x3A7669,
      0x148857, 0xEFC4D1, 0x195DDD, 0xE2115B, 0xF56EC4, 0x0E2242, 0xF8BB4E, 0x03F7C8,
      0x4D963F, 0xB6DAB9, 0x4043B5, 0xBB0F33, 0xAC70AC, 0x573C2A, 0xA1A526, 0x5AE9A0,
      0x74179E, 0x8F5B18, 0x79C214, 0x828E92, 0x95F10D, 0x6EBD8B, 0x982487, 0x636801,
      0xC4D8FA, 0x3F947C, 0xC90D70, 0x3241F6, 0x253E69, 0xDE72EF, 0x28EBE3, 0xD3A765,
      0xFD595B, 0x0615DD, 0xF08CD1, 0x0BC057, 0x1CBFC8, 0xE7F34E, 0x116A42, 0xEA26C4,
      0x76E42A, 0x8DA8AC, 0x7B31A0, 0x807D26, 0x9702B9, 0x6C4E3F, 0x9AD733, 0x619BB5,
      0x4F658B, 0xB4290D, 0x42B001, 0xB9FC87, 0xAE8318, 0x55CF9E, 0xA35692, 0x581A14,
      0xFFAAEF, 0x04E669, 0xF27F65, 0x0933E3, 0x1E4C7C, 0xE500FA, 0x1399F6, 0xE8D570,
      0xC62B4E, 0x3D67C8, 0xCBFEC4, 0x30B242, 0x27CDDD, 0xDC815B, 0x2A1857, 0xD154D1,
      0x9F3526, 0x6479A0, 0x92E0AC, 0x69AC2A, 0x7ED3B5, 0x859F33, 0x73063F, 0x884AB9,
      0xA6B487, 0x5DF801, 0xAB610D, 0x502D8B, 0x475214, 0xBC1E92, 0x4A879E, 0xB1CB18,
      0x167BE3, 0xED3765, 0x1BAE69, 0xE0E2EF, 0xF79D70, 0x0CD1F6, 0xFA48FA, 0x01047C,
      0x2FFA42, 0xD4B6C4, 0x222FC8, 0xD9634E, 0xCE1CD1, 0x355057, 0xC3C95B, 0x3885DD,
      0x000001]"

definition crc_table_32_IEEE :: "u32 list" where
  "crc_table_32_IEEE =
     [0x00000000, 0xB71DC104, 0x6E3B8209, 0xD926430D, 0xDC760413, 0x6B6BC517, 0xB24D861A, 0x0550471E,
      0xB8ED0826, 0x0FF0C922, 0xD6D68A2F, 0x61CB4B2B, 0x649B0C35, 0xD386CD31, 0x0AA08E3C, 0xBDBD4F38,
      0x70DB114C, 0xC7C6D048, 0x1EE09345, 0xA9FD5241, 0xACAD155F, 0x1BB0D45B, 0xC2969756, 0x758B5652,
      0xC836196A, 0x7F2BD86E, 0xA60D9B63, 0x11105A67, 0x14401D79, 0xA35DDC7D, 0x7A7B9F70, 0xCD665E74,
      0xE0B62398, 0x57ABE29C, 0x8E8DA191, 0x39906095, 0x3CC0278B, 0x8BDDE68F, 0x52FBA582, 0xE5E66486,
      0x585B2BBE, 0xEF46EABA, 0x3660A9B7, 0x817D68B3, 0x842D2FAD, 0x3330EEA9, 0xEA16ADA4, 0x5D0B6CA0,
      0x906D32D4, 0x2770F3D0, 0xFE56B0DD, 0x494B71D9, 0x4C1B36C7, 0xFB06F7C3, 0x2220B4CE, 0x953D75CA,
      0x28803AF2, 0x9F9DFBF6, 0x46BBB8FB, 0xF1A679FF, 0xF4F63EE1, 0x43EBFFE5, 0x9ACDBCE8, 0x2DD07DEC,
      0x77708634, 0xC06D4730, 0x194B043D, 0xAE56C539, 0xAB068227, 0x1C1B4323, 0xC53D002E, 0x7220C12A,
      0xCF9D8E12, 0x78804F16, 0xA1A60C1B, 0x16BBCD1F, 0x13EB8A01, 0xA4F64B05, 0x7DD00808, 0xCACDC90C,
      0x07AB9778, 0xB0B6567C, 0x69901571, 0xDE8DD475, 0xDBDD936B, 0x6CC0526F, 0xB5E61162, 0x02FBD066,
      0xBF469F5E, 0x085B5E5A, 0xD17D1D57, 0x6660DC53, 0x63309B4D, 0xD42D5A49, 0x0D0B1944, 0xBA16D840,
      0x97C6A5AC, 0x20DB64A8, 0xF9FD27A5, 0x4EE0E6A1, 0x4BB0A1BF, 0xFCAD60BB, 0x258B23B6, 0x9296E2B2,
      0x2F2BAD8A, 0x98366C8E, 0x41102F83, 0xF60DEE87, 0xF35DA999, 0x4440689D, 0x9D662B90, 0x2A7BEA94,
      0xE71DB4E0, 0x500075E4, 0x892636E9, 0x3E3BF7ED, 0x3B6BB0F3, 0x8C7671F7, 0x555032FA, 0xE24DF3FE,
      0x5FF0BCC6, 0xE8ED7DC2, 0x31CB3ECF, 0x86D6FFCB, 0x8386B8D5, 0x349B79D1, 0xEDBD3ADC, 0x5AA0FBD8,
      0xEEE00C69, 0x59FDCD6D, 0x80DB8E60, 0x37C64F64, 0x3296087A, 0x858BC97E, 0x5CAD8A73, 0xEBB04B77,
      0x560D044F, 0xE110C54B, 0x38368646, 0x8F2B4742, 0x8A7B005C, 0x3D66C158, 0xE4408255, 0x535D4351,
      0x9E3B1D25, 0x2926DC21, 0xF0009F2C, 0x471D5E28, 0x424D1936, 0xF550D832, 0x2C769B3F, 0x9B6B5A3B,
      0x26D61503, 0x91CBD407, 0x48ED970A, 0xFFF0560E, 0xFAA01110, 0x4DBDD014, 0x949B9319, 0x2386521D,
      0x0E562FF1, 0xB94BEEF5, 0x606DADF8, 0xD7706CFC, 0xD2202BE2, 0x653DEAE6, 0xBC1BA9EB, 0x0B0668EF,
      0xB6BB27D7, 0x01A6E6D3, 0xD880A5DE, 0x6F9D64DA, 0x6ACD23C4, 0xDDD0E2C0, 0x04F6A1CD, 0xB3EB60C9,
      0x7E8D3EBD, 0xC990FFB9, 0x10B6BCB4, 0xA7AB7DB0, 0xA2FB3AAE, 0x15E6FBAA, 0xCCC0B8A7, 0x7BDD79A3,
      0xC660369B, 0x717DF79F, 0xA85BB492, 0x1F467596, 0x1A163288, 0xAD0BF38C, 0x742DB081, 0xC3307185,
      0x99908A5D, 0x2E8D4B59, 0xF7AB0854, 0x40B6C950, 0x45E68E4E, 0xF2FB4F4A, 0x2BDD0C47, 0x9CC0CD43,
      0x217D827B, 0x9660437F, 0x4F460072, 0xF85BC176, 0xFD0B8668, 0x4A16476C, 0x93300461, 0x242DC565,
      0xE94B9B11, 0x5E565A15, 0x87701918, 0x306DD81C, 0x353D9F02, 0x82205E06, 0x5B061D0B, 0xEC1BDC0F,
      0x51A69337, 0xE6BB5233, 0x3F9D113E, 0x8880D03A, 0x8DD09724, 0x3ACD5620, 0xE3EB152D, 0x54F6D429,
      0x7926A9C5, 0xCE3B68C1, 0x171D2BCC, 0xA000EAC8, 0xA550ADD6, 0x124D6CD2, 0xCB6B2FDF, 0x7C76EEDB,
      0xC1CBA1E3, 0x76D660E7, 0xAFF023EA, 0x18EDE2EE, 0x1DBDA5F0, 0xAAA064F4, 0x738627F9, 0xC49BE6FD,
      0x09FDB889, 0xBEE0798D, 0x67C63A80, 0xD0DBFB84, 0xD58BBC9A, 0x62967D9E, 0xBBB03E93, 0x0CADFF97,
      0xB110B0AF, 0x060D71AB, 0xDF2B32A6, 0x6836F3A2, 0x6D66B4BC, 0xDA7B75B8, 0x035D36B5, 0xB440F7B1,
      0x00000001]"

definition crc_table_32_IEEE_LE :: "u32 list" where
  "crc_table_32_IEEE_LE =
     [0x00000000, 0x77073096, 0xEE0E612C, 0x990951BA, 0x076DC419, 0x706AF48F, 0xE963A535, 0x9E6495A3,
      0x0EDB8832, 0x79DCB8A4, 0xE0D5E91E, 0x97D2D988, 0x09B64C2B, 0x7EB17CBD, 0xE7B82D07, 0x90BF1D91,
      0x1DB71064, 0x6AB020F2, 0xF3B97148, 0x84BE41DE, 0x1ADAD47D, 0x6DDDE4EB, 0xF4D4B551, 0x83D385C7,
      0x136C9856, 0x646BA8C0, 0xFD62F97A, 0x8A65C9EC, 0x14015C4F, 0x63066CD9, 0xFA0F3D63, 0x8D080DF5,
      0x3B6E20C8, 0x4C69105E, 0xD56041E4, 0xA2677172, 0x3C03E4D1, 0x4B04D447, 0xD20D85FD, 0xA50AB56B,
      0x35B5A8FA, 0x42B2986C, 0xDBBBC9D6, 0xACBCF940, 0x32D86CE3, 0x45DF5C75, 0xDCD60DCF, 0xABD13D59,
      0x26D930AC, 0x51DE003A, 0xC8D75180, 0xBFD06116, 0x21B4F4B5, 0x56B3C423, 0xCFBA9599, 0xB8BDA50F,
      0x2802B89E, 0x5F058808, 0xC60CD9B2, 0xB10BE924, 0x2F6F7C87, 0x58684C11, 0xC1611DAB, 0xB6662D3D,
      0x76DC4190, 0x01DB7106, 0x98D220BC, 0xEFD5102A, 0x71B18589, 0x06B6B51F, 0x9FBFE4A5, 0xE8B8D433,
      0x7807C9A2, 0x0F00F934, 0x9609A88E, 0xE10E9818, 0x7F6A0DBB, 0x086D3D2D, 0x91646C97, 0xE6635C01,
      0x6B6B51F4, 0x1C6C6162, 0x856530D8, 0xF262004E, 0x6C0695ED, 0x1B01A57B, 0x8208F4C1, 0xF50FC457,
      0x65B0D9C6, 0x12B7E950, 0x8BBEB8EA, 0xFCB9887C, 0x62DD1DDF, 0x15DA2D49, 0x8CD37CF3, 0xFBD44C65,
      0x4DB26158, 0x3AB551CE, 0xA3BC0074, 0xD4BB30E2, 0x4ADFA541, 0x3DD895D7, 0xA4D1C46D, 0xD3D6F4FB,
      0x4369E96A, 0x346ED9FC, 0xAD678846, 0xDA60B8D0, 0x44042D73, 0x33031DE5, 0xAA0A4C5F, 0xDD0D7CC9,
      0x5005713C, 0x270241AA, 0xBE0B1010, 0xC90C2086, 0x5768B525, 0x206F85B3, 0xB966D409, 0xCE61E49F,
      0x5EDEF90E, 0x29D9C998, 0xB0D09822, 0xC7D7A8B4, 0x59B33D17, 0x2EB40D81, 0xB7BD5C3B, 0xC0BA6CAD,
      0xEDB88320, 0x9ABFB3B6, 0x03B6E20C, 0x74B1D29A, 0xEAD54739, 0x9DD277AF, 0x04DB2615, 0x73DC1683,
      0xE3630B12, 0x94643B84, 0x0D6D6A3E, 0x7A6A5AA8, 0xE40ECF0B, 0x9309FF9D, 0x0A00AE27, 0x7D079EB1,
      0xF00F9344, 0x8708A3D2, 0x1E01F268, 0x6906C2FE, 0xF762575D, 0x806567CB, 0x196C3671, 0x6E6B06E7,
      0xFED41B76, 0x89D32BE0, 0x10DA7A5A, 0x67DD4ACC, 0xF9B9DF6F, 0x8EBEEFF9, 0x17B7BE43, 0x60B08ED5,
      0xD6D6A3E8, 0xA1D1937E, 0x38D8C2C4, 0x4FDFF252, 0xD1BB67F1, 0xA6BC5767, 0x3FB506DD, 0x48B2364B,
      0xD80D2BDA, 0xAF0A1B4C, 0x36034AF6, 0x41047A60, 0xDF60EFC3, 0xA867DF55, 0x316E8EEF, 0x4669BE79,
      0xCB61B38C, 0xBC66831A, 0x256FD2A0, 0x5268E236, 0xCC0C7795, 0xBB0B4703, 0x220216B9, 0x5505262F,
      0xC5BA3BBE, 0xB2BD0B28, 0x2BB45A92, 0x5CB36A04, 0xC2D7FFA7, 0xB5D0CF31, 0x2CD99E8B, 0x5BDEAE1D,
      0x9B64C2B0, 0xEC63F226, 0x756AA39C, 0x026D930A, 0x9C0906A9, 0xEB0E363F, 0x72076785, 0x05005713,
      0x95BF4A82, 0xE2B87A14, 0x7BB12BAE, 0x0CB61B38, 0x92D28E9B, 0xE5D5BE0D, 0x7CDCEFB7, 0x0BDBDF21,
      0x86D3D2D4, 0xF1D4E242, 0x68DDB3F8, 0x1FDA836E, 0x81BE16CD, 0xF6B9265B, 0x6FB077E1, 0x18B74777,
      0x88085AE6, 0xFF0F6A70, 0x66063BCA, 0x11010B5C, 0x8F659EFF, 0xF862AE69, 0x616BFFD3, 0x166CCF45,
      0xA00AE278, 0xD70DD2EE, 0x4E048354, 0x3903B3C2, 0xA7672661, 0xD06016F7, 0x4969474D, 0x3E6E77DB,
      0xAED16A4A, 0xD9D65ADC, 0x40DF0B66, 0x37D83BF0, 0xA9BCAE53, 0xDEBB9EC5, 0x47B2CF7F, 0x30B5FFE9,
      0xBDBDF21C, 0xCABAC28A, 0x53B39330, 0x24B4A3A6, 0xBAD03605, 0xCDD70693, 0x54DE5729, 0x23D967BF,
      0xB3667A2E, 0xC4614AB8, 0x5D681B02, 0x2A6F2B94, 0xB40BBE37, 0xC30C8EA1, 0x5A05DF1B, 0x2D02EF8D,
      0x00000001]"

definition crc_table_16_ANSI_LE :: "u32 list" where
  "crc_table_16_ANSI_LE =
     [0x0000, 0xC0C1, 0xC181, 0x0140, 0xC301, 0x03C0, 0x0280, 0xC241,
      0xC601, 0x06C0, 0x0780, 0xC741, 0x0500, 0xC5C1, 0xC481, 0x0440,
      0xCC01, 0x0CC0, 0x0D80, 0xCD41, 0x0F00, 0xCFC1, 0xCE81, 0x0E40,
      0x0A00, 0xCAC1, 0xCB81, 0x0B40, 0xC901, 0x09C0, 0x0880, 0xC841,
      0xD801, 0x18C0, 0x1980, 0xD941, 0x1B00, 0xDBC1, 0xDA81, 0x1A40,
      0x1E00, 0xDEC1, 0xDF81, 0x1F40, 0xDD01, 0x1DC0, 0x1C80, 0xDC41,
      0x1400, 0xD4C1, 0xD581, 0x1540, 0xD701, 0x17C0, 0x1680, 0xD641,
      0xD201, 0x12C0, 0x1380, 0xD341, 0x1100, 0xD1C1, 0xD081, 0x1040,
      0xF001, 0x30C0, 0x3180, 0xF141, 0x3300, 0xF3C1, 0xF281, 0x3240,
      0x3600, 0xF6C1, 0xF781, 0x3740, 0xF501, 0x35C0, 0x3480, 0xF441,
      0x3C00, 0xFCC1, 0xFD81, 0x3D40, 0xFF01, 0x3FC0, 0x3E80, 0xFE41,
      0xFA01, 0x3AC0, 0x3B80, 0xFB41, 0x3900, 0xF9C1, 0xF881, 0x3840,
      0x2800, 0xE8C1, 0xE981, 0x2940, 0xEB01, 0x2BC0, 0x2A80, 0xEA41,
      0xEE01, 0x2EC0, 0x2F80, 0xEF41, 0x2D00, 0xEDC1, 0xEC81, 0x2C40,
      0xE401, 0x24C0, 0x2580, 0xE541, 0x2700, 0xE7C1, 0xE681, 0x2640,
      0x2200, 0xE2C1, 0xE381, 0x2340, 0xE101, 0x21C0, 0x2080, 0xE041,
      0xA001, 0x60C0, 0x6180, 0xA141, 0x6300, 0xA3C1, 0xA281, 0x6240,
      0x6600, 0xA6C1, 0xA781, 0x6740, 0xA501, 0x65C0, 0x6480, 0xA441,
      0x6C00, 0xACC1, 0xAD81, 0x6D40, 0xAF01, 0x6FC0, 0x6E80, 0xAE41,
      0xAA01, 0x6AC0, 0x6B80, 0xAB41, 0x6900, 0xA9C1, 0xA881, 0x6840,
      0x7800, 0xB8C1, 0xB981, 0x7940, 0xBB01, 0x7BC0, 0x7A80, 0xBA41,
      0xBE01, 0x7EC0, 0x7F80, 0xBF41, 0x7D00, 0xBDC1, 0xBC81, 0x7C40,
      0xB401, 0x74C0, 0x7580, 0xB541, 0x7700, 0xB7C1, 0xB681, 0x7640,
      0x7200, 0xB2C1, 0xB381, 0x7340, 0xB101, 0x71C0, 0x7080, 0xB041,
      0x5000, 0x90C1, 0x9181, 0x5140, 0x9301, 0x53C0, 0x5280, 0x9241,
      0x9601, 0x56C0, 0x5780, 0x9741, 0x5500, 0x95C1, 0x9481, 0x5440,
      0x9C01, 0x5CC0, 0x5D80, 0x9D41, 0x5F00, 0x9FC1, 0x9E81, 0x5E40,
      0x5A00, 0x9AC1, 0x9B81, 0x5B40, 0x9901, 0x59C0, 0x5880, 0x9841,
      0x8801, 0x48C0, 0x4980, 0x8941, 0x4B00, 0x8BC1, 0x8A81, 0x4A40,
      0x4E00, 0x8EC1, 0x8F81, 0x4F40, 0x8D01, 0x4DC0, 0x4C80, 0x8C41,
      0x4400, 0x84C1, 0x8581, 0x4540, 0x8701, 0x47C0, 0x4680, 0x8641,
      0x8201, 0x42C0, 0x4380, 0x8341, 0x4100, 0x81C1, 0x8081, 0x4040,
      0x0001]"

fun crc_table :: "AVCRCId \<Rightarrow> u32 list" where
  "crc_table AV_CRC_8_ATM = crc_table_8_ATM"
| "crc_table AV_CRC_8_EBU = crc_table_8_EBU"
| "crc_table AV_CRC_16_ANSI = crc_table_16_ANSI"
| "crc_table AV_CRC_16_CCITT = crc_table_16_CCITT"
| "crc_table AV_CRC_24_IEEE = crc_table_24_IEEE"
| "crc_table AV_CRC_32_IEEE = crc_table_32_IEEE"
| "crc_table AV_CRC_32_IEEE_LE = crc_table_32_IEEE_LE"
| "crc_table AV_CRC_16_ANSI_LE = crc_table_16_ANSI_LE"
| "crc_table AV_CRC_MAX = []"

text \<open>The lines \<open>DECLARE_CRC_INIT_TABLE_ONCE(id, le, bits, poly)\<close>.\<close>

fun crc_params :: "AVCRCId \<Rightarrow> bool \<times> int \<times> u32" where
  "crc_params AV_CRC_8_ATM = (False, 8, 0x07)"
| "crc_params AV_CRC_8_EBU = (False, 8, 0x1D)"
| "crc_params AV_CRC_16_ANSI = (False, 16, 0x8005)"
| "crc_params AV_CRC_16_CCITT = (False, 16, 0x1021)"
| "crc_params AV_CRC_24_IEEE = (False, 24, 0x864CFB)"
| "crc_params AV_CRC_32_IEEE = (False, 32, 0x04C11DB7)"
| "crc_params AV_CRC_32_IEEE_LE = (True, 32, 0xEDB88320)"
| "crc_params AV_CRC_16_ANSI_LE = (True, 16, 0xA001)"
| "crc_params AV_CRC_MAX = (False, 0, 0)"

text \<open>The static tables, with the controls of \<open>ff_thread_once\<close>.\<close>

record crc_state =
  once_control :: "AVCRCId \<Rightarrow> bool"
  crc_tables :: "AVCRCId \<Rightarrow> u32 list"

definition CRC_TABLE_SIZE :: "crc_config \<Rightarrow> nat" where
  "CRC_TABLE_SIZE cfg = (if crc_small cfg then 257 else 1024)"

definition crc_start :: "crc_config \<Rightarrow> crc_state" where
  "crc_start cfg = \<lparr>once_control = \<lambda>id. False, crc_tables = \<lambda>id. replicate (CRC_TABLE_SIZE cfg) 0\<rparr>"

text \<open>\<open>id_init_table_once\<close>: no value when the assertion fails.\<close>

definition crc_init_table_once :: "crc_config \<Rightarrow> AVCRCId \<Rightarrow> crc_state \<Rightarrow> crc_state option" where
  "crc_init_table_once cfg crc_id st =
     (let (le, bits, poly) = crc_params crc_id;
          (ret, ctx) = av_crc_init cfg (crc_tables st crc_id) le bits poly (4 * int (CRC_TABLE_SIZE cfg))
      in if ret = None then Some (st\<lparr>crc_tables := (crc_tables st)(crc_id := ctx)\<rparr>) else None)"

definition CRC_INIT_TABLE_ONCE :: "crc_config \<Rightarrow> AVCRCId \<Rightarrow> crc_state \<Rightarrow> crc_state option" where
  "CRC_INIT_TABLE_ONCE cfg crc_id st =
     (if once_control st crc_id then Some st
      else map_option (\<lambda>st. st\<lparr>once_control := (once_control st)(crc_id := True)\<rparr>) (crc_init_table_once cfg crc_id st))"

definition av_crc_get_table :: "crc_config \<Rightarrow> AVCRCId \<Rightarrow> crc_state \<Rightarrow> (u32 list \<times> crc_state) option" where
  "av_crc_get_table cfg crc_id st =
     (if crc_id = AV_CRC_MAX then None
      else if crc_hardcoded cfg then Some (crc_table crc_id, st)
      else map_option (\<lambda>st. (crc_tables st crc_id, st)) (CRC_INIT_TABLE_ONCE cfg crc_id st))"

text \<open>\<open>crc = ctx[((uint8_t) crc) ^ *buffer++] ^ (crc >> 8)\<close>\<close>

definition crc_byte :: "u32 list \<Rightarrow> u32 \<Rightarrow> u8 \<Rightarrow> u32" where
  "crc_byte ctx crc b = ctx ! unat (ucast crc XOR b) XOR shr crc 8"

text \<open>\<open>while (((intptr_t) buffer & 3) && buffer < end)\<close>: the check and the bytes left.\<close>

fun crc_align :: "u32 list \<Rightarrow> nat \<Rightarrow> u32 \<Rightarrow> bytes \<Rightarrow> u32 \<times> bytes" where
  "crc_align ctx addr crc [] = (crc, [])"
| "crc_align ctx addr crc (b # buf) =
     (if addr mod 4 \<noteq> 0 then crc_align ctx (addr + 1) (crc_byte ctx crc b) buf else (crc, b # buf))"

text \<open>\<open>while (buffer < end - 3)\<close>. \<open>av_le2ne32\<close> makes the word little-endian on every host.\<close>

function crc_words :: "u32 list \<Rightarrow> u32 \<Rightarrow> bytes \<Rightarrow> u32 \<times> bytes" where
  "crc_words ctx crc buf =
     (if length buf > 3 then
        let crc = crc XOR AV_RL32 buf 0
        in crc_words ctx
             (ctx ! (3 * 256 + unat (crc AND 0xFF)) XOR ctx ! (2 * 256 + unat (shr crc 8 AND 0xFF)) XOR
              ctx ! (1 * 256 + unat (shr crc 16 AND 0xFF)) XOR ctx ! (0 * 256 + unat (shr crc 24)))
             (drop 4 buf)
      else (crc, buf))"
  by pat_completeness auto
termination by (relation "measure (\<lambda>(ctx, crc, buf). length buf)") auto

declare crc_words.simps [simp del]

definition av_crc :: "crc_config \<Rightarrow> u32 list \<Rightarrow> u32 \<Rightarrow> nat \<Rightarrow> bytes \<Rightarrow> u32" where
  "av_crc cfg ctx crc addr buffer =
     (let (crc, buffer) =
            (if \<not> crc_small cfg \<and> ctx ! 256 = 0 then
               let (crc, buffer) = crc_align ctx addr crc buffer in crc_words ctx crc buffer
             else (crc, buffer))
      in foldl (crc_byte ctx) crc buffer)"

lemma length_crc_slices [simp]: "length (crc_slices ctx) = length ctx"
proof -
  have "length (foldl (crc_slice i) ctx js) = length ctx" for i js ctx
    by (induction js arbitrary: ctx) (simp_all add: crc_slice_def Let_def)
  then have "length (foldl (\<lambda>ctx i. foldl (crc_slice i) ctx [0..<3]) ctx is) = length ctx" for "is"
    by (induction "is" arbitrary: ctx) simp_all
  then show ?thesis by (simp add: crc_slices_def)
qed

section \<open>The shift register\<close>

text \<open>The definition of the check: a register that takes the bits of the message in turn. In the plain order the highest bit
  of a byte comes first and the register is kept at the top of the word, byte-swapped between calls.\<close>

definition lfsr_le :: "u32 \<Rightarrow> u32 \<Rightarrow> bool \<Rightarrow> u32" where
  "lfsr_le p c b = shr c 1 XOR (if bit c 0 \<noteq> b then p else 0)"

definition lfsr_be :: "u32 \<Rightarrow> u32 \<Rightarrow> bool \<Rightarrow> u32" where
  "lfsr_be p c b = shl c 1 XOR (if bit c 31 \<noteq> b then p else 0)"

definition lsb_first :: "bytes \<Rightarrow> bool list" where
  "lsb_first buf = concat (map (\<lambda>b. map (bit b) [0..<8]) buf)"

definition msb_first :: "bytes \<Rightarrow> bool list" where
  "msb_first buf = concat (map (\<lambda>b. map (bit b) (rev [0..<8])) buf)"

definition crc_of :: "bool \<Rightarrow> int \<Rightarrow> u32 \<Rightarrow> u32 \<Rightarrow> bytes \<Rightarrow> u32" where
  "crc_of le bits poly crc buf =
     (if le then foldl (lfsr_le poly) crc (lsb_first buf)
      else av_bswap32 (foldl (lfsr_be (shl poly (nat (32 - bits)))) (av_bswap32 crc) (msb_first buf)))"

lemma bit_take_bit_lt: "take_bit 8 b = (b :: u32) \<Longrightarrow> bit b n \<Longrightarrow> n < 8"
  by (metis bit_take_bit_iff)

lemma and_FF: "c AND 0xFF = take_bit 8 (c :: u32)"
  by (simp add: take_bit_eq_mask mask_eq_exp_minus_1)

lemma take_bit_8_8: "take_bit 8 (take_bit 8 c) = take_bit 8 (c :: u32)"
  by simp

lemma shr_24: "take_bit 8 (shr c 24) = shr (c :: u32) 24"
  by (rule bit_word_eqI) (auto simp: bit_simps dest: bit_u32_lt)

lemma four_bytes:
  "c = take_bit 8 c XOR (shl (take_bit 8 (shr c 8)) 8 XOR (shl (take_bit 8 (shr c 16)) 16 XOR shl (shr (c :: u32) 24) 24))"
  by (rule bit_word_eqI) (auto simp: bit_simps)

lemma RL32_xor:
  "AV_RL32 [p0, p1, p2, p3] 0 = ucast p0 XOR (shl (ucast p1) 8 XOR (shl (ucast p2) 16 XOR shl (ucast p3) 24))"
proof (rule bit_word_eqI)
  fix n :: nat
  assume n: "n < LENGTH(32)"
  consider "n < 8" | "8 \<le> n" "n < 16" | "16 \<le> n" "n < 24" | "24 \<le> n" by linarith
  then show "bit (AV_RL32 [p0, p1, p2, p3] 0) n =
    bit (ucast p0 XOR (shl (ucast p1) 8 XOR (shl (ucast p2) 16 XOR shl (ucast p3) 24)) :: u32) n"
    using n by cases (auto simp: AV_RL32_def bit_simps dest: bit_u8_le)
qed

lemma shl_shr: "shr (shl (shr c 8) 8) 8 = shr (c :: u32) 8"
  by (rule bit_word_eqI) (auto simp: bit_simps dest: bit_u32_lt)

section \<open>Registers that a table can drive\<close>

text \<open>The step without input is linear, and eight of them shift a register out whose low byte is zero.\<close>

locale crc_register =
  fixes step :: "u32 \<Rightarrow> u32"
  assumes step_xor: "step (x XOR y) = step x XOR step y"
    and step_shift: "take_bit 8 x = 0 \<Longrightarrow> (step ^^ 8) x = shr x 8"
begin

definition run :: "nat \<Rightarrow> u32 \<Rightarrow> u32" where
  "run n = step ^^ n"

definition driven :: "u32 list \<Rightarrow> bool" where
  "driven ctx \<longleftrightarrow> (\<forall>i<256. ctx ! i = run 8 (of_nat i))"

definition sliced :: "u32 list \<Rightarrow> bool" where
  "sliced ctx \<longleftrightarrow> (\<forall>k<4. \<forall>i<256. ctx ! (256 * k + i) = run (8 * (k + 1)) (of_nat i))"

definition feed :: "u32 \<Rightarrow> u8 \<Rightarrow> u32" where
  "feed c b = run 8 (c XOR ucast b)"

lemma run_xor: "run n (x XOR y) = run n x XOR run n y"
  by (induction n) (simp_all add: run_def step_xor)

lemma run_add: "run (m + n) x = run m (run n x)"
  by (simp add: run_def funpow_add)

lemma run_0: "run n 0 = 0"
  using run_xor [of n 0 0] by simp

lemma run_shift: "take_bit 8 x = 0 \<Longrightarrow> run 8 x = shr x 8"
  by (simp add: run_def step_shift)

lemma split_low: "c = take_bit 8 c XOR (shl (shr c 8) 8 :: u32)"
  by (rule bit_word_eqI) (auto simp: bit_simps)

lemma low_byte: "unat (take_bit 8 (c :: u32)) < 256"
  by (simp add: unsigned_take_bit_eq take_bit_nat_less_exp [of 8, simplified])

lemma run_unshift:
  assumes "n \<le> 16" and "take_bit 8 b = b"
  shows "run 8 (shl b (n + 8)) = shl b n"
proof -
  have "shr (shl b (n + 8)) 8 = shl b n"
    using assms(1) by (intro bit_word_eqI) (auto simp: bit_simps dest: bit_take_bit_lt [OF assms(2)])
  then show ?thesis by (subst run_shift) (simp_all add: take_bit_push_bit)
qed

lemma entry:
  assumes "driven ctx"
  shows "ctx ! unat (take_bit 8 c) XOR shr c 8 = run 8 c"
proof -
  have "ctx ! unat (take_bit 8 c) = run 8 (take_bit 8 c)"
    using assms low_byte [of c] by (simp add: driven_def)
  moreover have "run 8 (shl (shr c 8) 8) = shr c 8"
    by (subst run_shift) (simp_all add: shl_shr take_bit_push_bit)
  ultimately show ?thesis
    using run_xor [of 8 "take_bit 8 c" "shl (shr c 8) 8"] split_low [of c] by simp
qed

lemma byte:
  assumes "driven ctx"
  shows "crc_byte ctx c b = feed c b"
proof -
  have "ucast (ucast c XOR b) = take_bit 8 (c XOR ucast b)"
    by (rule bit_word_eqI) (auto simp: bit_simps dest: bit_u8_le)
  then have "unat (ucast c XOR b) = unat (take_bit 8 (c XOR ucast b))"
    by (metis unat_of_u8)
  moreover have "shr c 8 = shr (c XOR ucast b) 8"
    by (rule bit_word_eqI) (auto simp: bit_simps dest: bit_u8_le)
  ultimately show ?thesis
    by (simp add: crc_byte_def feed_def entry [OF assms, symmetric])
qed

lemma align:
  assumes "driven ctx"
  shows "foldl feed (fst (crc_align ctx addr c buf)) (snd (crc_align ctx addr c buf)) = foldl feed c buf"
  using assms by (induction ctx addr c buf rule: crc_align.induct) (simp_all add: byte)

text \<open>Four bytes at a time.\<close>

lemma run_split:
  "run 32 x = run 24 (run 8 x)" "run 32 x = run 16 (run 16 x)" "run 32 x = run 8 (run 24 x)"
  "run 24 x = run 8 (run 8 (run 8 x))" "run 16 x = run 8 (run 8 x)"
  by (simp_all flip: run_add)

lemma run_bytes:
  assumes "take_bit 8 b = b"
  shows "run 8 (shl b 8) = b" "run 8 (shl b 16) = shl b 8" "run 8 (shl b 24) = shl b 16"
  using run_unshift [of 0 b] run_unshift [of 8 b] run_unshift [of 16 b] assms by simp_all

lemma run_whole:
  assumes "take_bit 8 b = b"
  shows "run 16 (shl b 16) = b" "run 24 (shl b 24) = b"
  by (simp_all only: run_split run_bytes [OF assms])

lemma feed_word:
  assumes "4 \<le> length buf"
  shows "foldl feed c (take 4 buf) = run 32 (c XOR AV_RL32 buf 0)"
proof -
  have "length (take 4 buf) = 4" using assms by simp
  then obtain p0 p1 p2 p3 where p: "take 4 buf = [p0, p1, p2, p3]" by (rule list_of_4E)
  have "AV_RL32 buf 0 = ucast p0 XOR (shl (ucast p1) 8 XOR (shl (ucast p2) 16 XOR shl (ucast p3) 24))"
    using AV_RL32_take [OF assms] by (simp add: p RL32_xor)
  moreover have "foldl feed c [p0, p1, p2, p3] = run 32 c XOR (run 32 (ucast p0) XOR (run 24 (ucast p1) XOR (run 16 (ucast p2) XOR run 8 (ucast p3))))"
    by (simp only: feed_def foldl.simps run_xor run_split(1) run_split(4,5) xor.assoc)
  moreover have "run 32 (shl (ucast p1) 8) = run 24 (ucast p1)"
    by (simp only: run_split(1) run_bytes(1) [OF ucast_u8_low])
  moreover have "run 32 (shl (ucast p2) 16) = run 16 (ucast p2)"
    by (simp only: run_split(2) run_whole(1) [OF ucast_u8_low])
  moreover have "run 32 (shl (ucast p3) 24) = run 8 (ucast p3)"
    by (simp only: run_split(3) run_whole(2) [OF ucast_u8_low])
  ultimately show ?thesis
    by (simp only: p run_xor)
qed

lemma slice_entry:
  assumes "sliced ctx" and "k < 4" and "take_bit 8 b = b"
  shows "ctx ! (256 * k + unat b) = run (8 * (k + 1)) b"
  using assms low_byte [of b] by (simp add: sliced_def)

lemma word_entry:
  assumes "sliced ctx"
  shows "ctx ! (3 * 256 + unat (d AND 0xFF)) XOR ctx ! (2 * 256 + unat (shr d 8 AND 0xFF)) XOR
    ctx ! (1 * 256 + unat (shr d 16 AND 0xFF)) XOR ctx ! (0 * 256 + unat (shr d 24)) = run 32 d"
proof -
  let ?b0 = "take_bit 8 d" and ?b1 = "take_bit 8 (shr d 8)" and ?b2 = "take_bit 8 (shr d 16)" and ?b3 = "shr d 24"
  note e = slice_entry [OF assms]
  have "run 32 (shl ?b1 8) = run 24 ?b1"
    by (simp only: run_split(1) run_bytes(1) [OF take_bit_8_8])
  moreover have "run 32 (shl ?b2 16) = run 16 ?b2"
    by (simp only: run_split(2) run_whole(1) [OF take_bit_8_8])
  moreover have "run 32 (shl ?b3 24) = run 8 ?b3"
    by (simp only: run_split(3) run_whole(2) [OF shr_24])
  ultimately have "run 32 d = run 32 ?b0 XOR (run 24 ?b1 XOR (run 16 ?b2 XOR run 8 ?b3))"
    by (subst four_bytes) (simp only: run_xor)
  then show ?thesis
    using e [of 3 ?b0] e [of 2 ?b1] e [of 1 ?b2] e [of 0 ?b3] by (simp add: and_FF shr_24 xor.assoc)
qed

lemma words:
  assumes "sliced ctx"
  shows "foldl feed (fst (crc_words ctx c buf)) (snd (crc_words ctx c buf)) = foldl feed c buf"
  using assms
proof (induction ctx c buf rule: crc_words.induct)
  case (1 ctx c buf)
  show ?case
  proof (cases "length buf > 3")
    case True
    let ?d = "c XOR AV_RL32 buf 0"
    have "foldl feed c (take 4 buf @ drop 4 buf) = foldl feed (run 32 ?d) (drop 4 buf)"
      using feed_word [of buf c] True by (simp only: foldl_append)
    then show ?thesis
      using 1(1) [OF True refl 1(2)] True word_entry [OF 1(2), of ?d]
      by (subst (1 2) crc_words.simps) (simp add: Let_def)
  qed (simp add: crc_words.simps)
qed

lemma av_crc_feeds:
  assumes "driven ctx" and "\<not> crc_small cfg \<and> ctx ! 256 = 0 \<longrightarrow> sliced ctx"
  shows "av_crc cfg ctx c addr buf = foldl feed c buf"
proof -
  have f: "foldl (crc_byte ctx) d bs = foldl feed d bs" for d bs
    using byte [OF assms(1)] by (induction bs arbitrary: d) simp_all
  show ?thesis
    using assms(2) words [of ctx "fst (crc_align ctx addr c buf)" "snd (crc_align ctx addr c buf)"] align [OF assms(1), of addr c buf]
    by (auto simp: av_crc_def Let_def f split_def)
qed

lemma residue: "foldl feed c (AV_WL32 c) = 0"
  using feed_word [of "AV_WL32 c" c] AV_R_empty(2) [of c] by (simp add: run_0)

text \<open>The longer tables.\<close>

lemma slice_step:
  assumes "driven ctx"
  shows "crc_slice i ctx j = ctx[256 * (j + 1) + i := run 8 (ctx ! (256 * j + i))]"
  using entry [OF assms, of "ctx ! (256 * j + i)"] by (simp add: crc_slice_def Let_def and_FF xor.commute)

lemma driven_update: "driven ctx \<Longrightarrow> 256 \<le> i \<Longrightarrow> driven (ctx[i := v])"
  by (simp add: driven_def)

definition row :: "nat \<Rightarrow> nat \<Rightarrow> u32 list \<Rightarrow> u32 list \<Rightarrow> bool" where
  "row i n ctx ctx' \<longleftrightarrow> length ctx' = 1024 \<and> driven ctx' \<and>
     (\<forall>k<4. \<forall>m<256. m \<noteq> i \<longrightarrow> ctx' ! (256 * k + m) = ctx ! (256 * k + m)) \<and>
     (\<forall>k\<le>n. ctx' ! (256 * k + i) = run (8 * (k + 1)) (of_nat i))"

lemma slice_row:
  assumes "length ctx = 1024" "driven ctx" and "i < 256" and "n \<le> 3"
  shows "row i n ctx (foldl (crc_slice i) ctx [0..<n])"
  using assms(4)
proof (induction n)
  case 0
  then show ?case using assms by (simp add: row_def driven_def)
next
  case (Suc n)
  let ?c = "foldl (crc_slice i) ctx [0..<n]"
  have r: "row i n ctx ?c" using Suc by simp
  then have c: "length ?c = 1024" "driven ?c" "?c ! (256 * n + i) = run (8 * (n + 1)) (of_nat i)" by (simp_all add: row_def)
  have e: "crc_slice i ?c n = ?c[256 * (n + 1) + i := run (8 * (n + 2)) (of_nat i)]"
    using c(3) run_add [of 8 "8 * (n + 1)"] by (simp add: slice_step [OF c(2)])
  have ne: "256 * k + m \<noteq> 256 * (n + 1) + i" if "m < 256" "m \<noteq> i" for k m 
  proof
    assume "256 * k + m = 256 * (n + 1) + i"
    then have "(256 * k + m) mod 256 = (256 * (n + 1) + i) mod 256" by (rule arg_cong)
    with that assms(3) show False by (simp del: mult_Suc_right)
  qed
  have "row i (Suc n) ctx (crc_slice i ?c n)"
    unfolding row_def
  proof (intro conjI allI impI)
    show "length (crc_slice i ?c n) = 1024" "driven (crc_slice i ?c n)"
      unfolding e using c driven_update by simp_all
    show "crc_slice i ?c n ! (256 * k + m) = ctx ! (256 * k + m)" if "k < 4" "m < 256" "m \<noteq> i" for k m
      unfolding e using r that by (subst nth_list_update_neq [OF ne [OF that(2,3), symmetric]]) (simp add: row_def)
    show "crc_slice i ?c n ! (256 * k + i) = run (8 * (k + 1)) (of_nat i)" if "k \<le> Suc n" for k
    proof (cases "k = Suc n")
      case True
      have "256 * (n + 1) + i < length ?c" using c(1) assms(3) Suc.prems by simp
      then show ?thesis unfolding e using True by simp
    next
      case False
      then have "256 * (n + 1) + i \<noteq> 256 * k + i" "k \<le> n" using that by auto
      then show ?thesis unfolding e using r by (subst nth_list_update_neq) (simp_all add: row_def)
    qed
  qed
  then show ?case by simp
qed

lemma crc_slices_sliced:
  assumes "length ctx = 1024" and "driven ctx"
  shows "sliced (crc_slices ctx)" "driven (crc_slices ctx)"
proof -
  have "length (foldl (\<lambda>ctx i. foldl (crc_slice i) ctx [0..<3]) ctx [0..<n]) = 1024 \<and>
    driven (foldl (\<lambda>ctx i. foldl (crc_slice i) ctx [0..<3]) ctx [0..<n]) \<and>
    (\<forall>k<4. \<forall>i<n. foldl (\<lambda>ctx i. foldl (crc_slice i) ctx [0..<3]) ctx [0..<n] ! (256 * k + i) = run (8 * (k + 1)) (of_nat i))"
    if "n \<le> 256" for n
    using that
  proof (induction n)
    case (Suc n)
    let ?c = "foldl (\<lambda>ctx i. foldl (crc_slice i) ctx [0..<3]) ctx [0..<n]"
    from Suc have "row n 3 ?c (foldl (crc_slice n) ?c [0..<3])" by (intro slice_row) simp_all
    with Suc show ?case by (auto simp: row_def less_Suc_eq)
  qed (use assms in simp)
  from this [of 256] show "sliced (crc_slices ctx)" "driven (crc_slices ctx)"
    by (simp_all add: sliced_def crc_slices_def)
qed

end

section \<open>The two bit orders\<close>

lemma crc_le_bit_alt: "crc_le_bit poly c = shr c 1 XOR (if bit c 0 then poly else 0)"
  by (simp add: crc_le_bit_def and_one_eq bit_0 odd_iff_mod_2_eq_one)

lemma signed_top: "signed_drop_bit 31 c = (if bit c 31 then - 1 else 0 :: u32)"
  by (rule bit_word_eqI) (auto simp: bit_simps min_def Suc_le_eq)

lemma crc_be_bit_alt:
  "crc_be_bit bits poly c = shl c 1 XOR (if bit c 31 then shl poly (nat (32 - bits)) else 0)"
  by (simp add: crc_be_bit_def signed_top)

text \<open>Byte swapping moves byte \<open>k\<close> to byte \<open>3 - k\<close>.\<close>

lemma bswap_masks: "(0xff00 :: u32) = shl (mask 8) 8" "(0x00ff :: u32) = mask 8"
  by (simp_all add: mask_eq_exp_minus_1)

lemma bit_bswap32:
  "bit (av_bswap32 x) n \<longleftrightarrow> n < 32 \<and> bit x (8 * (3 - n div 8) + n mod 8)"
proof (cases "n < 32")
  case True
  define k r where "k = n div 8" and "r = n mod 8"
  have n: "n = 8 * k + r" "r < 8" by (simp_all add: k_def r_def)
  with True consider "k = 0" | "k = 1" | "k = 2" | "k = 3" by linarith
  then show ?thesis
    unfolding k_def [symmetric] r_def [symmetric]
    by cases (use n in \<open>auto simp: av_bswap32_def AV_BSWAP16C_def bswap_masks bit_simps\<close>)
qed (auto dest: bit_u32_lt)

lemma bswap_xor: "av_bswap32 (x XOR y) = av_bswap32 x XOR av_bswap32 y"
  by (rule bit_word_eqI) (auto simp: bit_bswap32 bit_simps)

lemma bswap_index: "n < 32 \<Longrightarrow> 8 * (3 - (8 * (3 - n div 8) + n mod 8) div 8) + (8 * (3 - n div 8) + n mod 8) mod 8 = (n :: nat)"
  by (simp add: less_mult_imp_div_less)

lemma bswap_bswap [simp]: "av_bswap32 (av_bswap32 x) = x"
  by (rule bit_word_eqI) (auto simp: bit_bswap32 bswap_index)

lemma bit_double: "bit (c * 2 :: u32) m \<longleftrightarrow> 0 < m \<and> m < 32 \<and> bit c (m - 1)"
  using bit_double_iff [of c m] by (auto simp: mult.commute possible_bit_word)

lemma be_bit_xor: "crc_be_bit bits poly (x XOR y) = crc_be_bit bits poly x XOR crc_be_bit bits poly y"
  by (rule bit_word_eqI) (auto simp: crc_be_bit_alt bit_simps bit_double)

lemma swap_byte: "k < 4 \<Longrightarrow> r < 8 \<Longrightarrow> bit (av_bswap32 x) (8 * k + r) \<longleftrightarrow> bit x (8 * (3 - k) + r)"
  by (simp add: bit_bswap32)

lemma swap_shift: "av_bswap32 (shl (av_bswap32 x) 8) = shr x 8"
proof (rule bit_word_eqI)
  fix n :: nat
  assume n: "n < LENGTH(32)"
  define k r where "k = n div 8" and "r = n mod 8"
  have e: "n = 8 * k + r" "r < 8" "k < 4" using n by (simp_all add: k_def r_def)
  have d: "(8 * j + r) div 8 = j" "(8 * j + r) mod 8 = r" for j using e(2) by simp_all
  show "bit (av_bswap32 (shl (av_bswap32 x) 8)) n = bit (shr x 8) n"
  proof (cases "k = 3")
    case True
    then show ?thesis using e bit_u32_lt [of x "8 + n"] by (auto simp: bit_bswap32 bit_simps d)
  next
    case False
    then have k: "8 * (3 - k) + r - 8 = 8 * (2 - k) + r" "8 * (3 - k) + r < 32" "8 \<le> 8 * (3 - k) + r" "3 - (2 - k) = k + 1"
      using e by auto
    have "bit (av_bswap32 (shl (av_bswap32 x) 8)) n \<longleftrightarrow> bit (shl (av_bswap32 x) 8) (8 * (3 - k) + r)"
      unfolding e(1) using e by (subst swap_byte) simp_all
    also have "\<dots> \<longleftrightarrow> bit (av_bswap32 x) (8 * (2 - k) + r)"
      using k by (simp add: bit_simps)
    also have "\<dots> \<longleftrightarrow> bit x (8 * (k + 1) + r)"
      using e k(4) by (subst swap_byte) simp_all
    finally show ?thesis using e by (simp add: bit_simps algebra_simps)
  qed
qed

lemma be_shift:
  assumes "\<forall>m. 32 - n \<le> m \<longrightarrow> \<not> bit c m"
  shows "(crc_be_bit bits poly ^^ n) c = shl c n"
  using assms
proof (induction n arbitrary: c)
  case (Suc n)
  then have "\<not> bit c 31" by simp
  then have "crc_be_bit bits poly c = shl c 1" by (simp add: crc_be_bit_alt)
  moreover have "\<forall>m. 32 - n \<le> m \<longrightarrow> \<not> bit (shl c 1) m"
    using Suc.prems by (auto simp: bit_double)
  ultimately show ?case using Suc.IH [of "shl c 1"] by (simp add: funpow_swap1)
qed simp

lemma le_shift:
  assumes "take_bit n c = 0"
  shows "(crc_le_bit poly ^^ n) c = shr c n"
  using assms
proof (induction n arbitrary: c)
  case (Suc n)
  then have b: "\<not> bit c m" if "m < Suc n" for m
    using Suc.prems that bit_take_bit_iff [of "Suc n" c m] by simp
  then have "crc_le_bit poly c = shr c 1" by (simp add: crc_le_bit_alt)
  moreover have "take_bit n (shr c 1) = 0"
    using b by (intro bit_word_eqI) (auto simp: bit_simps)
  ultimately show ?case using Suc.IH [of "shr c 1"] by (simp add: funpow_swap1)
qed simp

definition crc_be_step :: "int \<Rightarrow> u32 \<Rightarrow> u32 \<Rightarrow> u32" where
  "crc_be_step bits poly c = av_bswap32 (crc_be_bit bits poly (av_bswap32 c))"

lemma crc_be_steps: "(crc_be_step bits poly ^^ n) c = av_bswap32 ((crc_be_bit bits poly ^^ n) (av_bswap32 c))"
  by (induction n arbitrary: c) (simp_all add: crc_be_step_def)

interpretation le: crc_register "crc_le_bit poly" for poly
proof
  show "crc_le_bit poly (x XOR y) = crc_le_bit poly x XOR crc_le_bit poly y" for x y
    by (rule bit_word_eqI) (auto simp: crc_le_bit_alt bit_simps)
  show "take_bit 8 x = 0 \<Longrightarrow> (crc_le_bit poly ^^ 8) x = shr x 8" for x
    by (rule le_shift)
qed

interpretation be: crc_register "crc_be_step bits poly" for bits poly
proof
  show "crc_be_step bits poly (x XOR y) = crc_be_step bits poly x XOR crc_be_step bits poly y" for x y
    by (simp only: crc_be_step_def bswap_xor be_bit_xor)
  show "(crc_be_step bits poly ^^ 8) x = shr x 8" if "take_bit 8 x = 0" for x
  proof -
    have "\<not> bit x m" if "m < 8" for m
      using \<open>take_bit 8 x = 0\<close> that bit_take_bit_iff [of 8 x m] by simp
    then have "\<forall>m. 32 - 8 \<le> m \<longrightarrow> \<not> bit (av_bswap32 x) m"
      by (auto simp: bit_bswap32)
    then show ?thesis by (simp add: crc_be_steps be_shift swap_shift)
  qed
qed

section \<open>The registers take bits\<close>

lemma lfsr_le_bits:
  assumes "\<forall>m\<ge>n. \<not> bit b m"
  shows "foldl (lfsr_le poly) c (map (bit b) [0..<n]) = (crc_le_bit poly ^^ n) (c XOR b)"
  using assms
proof (induction n arbitrary: b c)
  case 0
  then have "b = 0" by (intro bit_word_eqI) simp
  then show ?case by simp
next
  case (Suc n)
  have "map (bit b) [0..<Suc n] = bit b 0 # map (bit (shr b 1)) [0..<n]"
    by (simp add: upt_rec [of 0] map_Suc_upt [symmetric] bit_simps comp_def del: upt_Suc)
  moreover have "lfsr_le poly c (bit b 0) XOR shr b 1 = crc_le_bit poly (c XOR b)"
    by (rule bit_word_eqI) (auto simp: lfsr_le_def crc_le_bit_alt bit_simps)
  moreover have "\<forall>m\<ge>n. \<not> bit (shr b 1) m" using Suc.prems by (simp add: bit_simps)
  ultimately show ?case
    using Suc.IH [of "shr b 1" "lfsr_le poly c (bit b 0)"] by (simp add: funpow_swap1 del: upt_Suc)
qed

lemma le_feed: "foldl (lfsr_le poly) c (map (bit b) [0..<8]) = le.feed poly c (b :: u8)"
proof -
  have "map (bit b) [0..<8] = map (bit (ucast b :: u32)) [0..<8]" by (simp add: bit_simps)
  moreover have "\<forall>m\<ge>8. \<not> bit (ucast b :: u32) m" by (auto simp: bit_simps dest: bit_u8_le)
  ultimately show ?thesis
    using lfsr_le_bits [of 8 "ucast b" poly c] by (simp only: le.feed_def le.run_def)
qed

lemma lfsr_be_bits:
  assumes "\<forall>m<32 - n. \<not> bit b m" and "n \<le> 32"
  shows "foldl (lfsr_be (shl poly (nat (32 - bits)))) c (map (\<lambda>i. bit b (31 - i)) [0..<n]) =
    (crc_be_bit bits poly ^^ n) (c XOR b)"
  using assms
proof (induction n arbitrary: b c)
  case 0
  then have "b = 0" by (intro bit_word_eqI) simp
  then show ?case by simp
next
  case (Suc n)
  let ?p = "shl poly (nat (32 - bits))"
  have "bit b (31 - Suc i) = bit (shl b 1) (31 - i)" if "i < n" for i
    using that Suc.prems(2) by (auto simp: bit_double bit_push_bit_iff Suc_diff_Suc)
  then have "map (\<lambda>i. bit b (31 - i)) [0..<Suc n] = bit b 31 # map (\<lambda>i. bit (shl b 1) (31 - i)) [0..<n]"
    using Suc.prems(2) by (auto simp: upt_rec [of 0] map_Suc_upt [symmetric] comp_def simp del: upt_Suc)
  moreover have "lfsr_be ?p c (bit b 31) XOR shl b 1 = crc_be_bit bits poly (c XOR b)"
    by (rule bit_word_eqI) (auto simp: lfsr_be_def crc_be_bit_alt bit_simps bit_double)
  moreover have "\<forall>m<32 - n. \<not> bit (shl b 1) m" using Suc.prems by (auto simp: bit_double)
  ultimately show ?case
    using Suc.IH [of "shl b 1" "lfsr_be ?p c (bit b 31)"] Suc.prems(2) by (simp add: funpow_swap1 del: upt_Suc)
qed

lemma swap_u8: "av_bswap32 (ucast b) = shl (ucast (b :: u8)) 24"
proof (rule bit_word_eqI)
  fix n :: nat
  define k r where "k = n div 8" and "r = n mod 8"
  assume "n < LENGTH(32)"
  then have e: "n = 8 * k + r" "r < 8" "k < 4" by (simp_all add: k_def r_def)
  show "bit (av_bswap32 (ucast b)) n = bit (shl (ucast b) 24 :: u32) n"
  proof (cases "k = 3")
    case False
    then have "8 \<le> 8 * (3 - k) + r" "\<not> 24 \<le> 8 * k + r" using e by auto
    then show ?thesis using e bit_u8_le [of b "8 * (3 - k) + r"] by (auto simp: swap_byte bit_simps)
  qed (use e swap_byte [of 3 r "ucast b"] in \<open>simp add: bit_simps\<close>)
qed

lemma be_feed:
  "av_bswap32 (foldl (lfsr_be (shl poly (nat (32 - bits)))) (av_bswap32 c) (map (bit b) (rev [0..<8]))) =
   be.feed bits poly c (b :: u8)"
proof -
  let ?b = "shl (ucast b) 24 :: u32"
  have m: "map (bit b) (rev [0..<8]) = map (\<lambda>i. bit ?b (31 - i)) [0..<8]"
    by (rule nth_equalityI) (auto simp: rev_nth bit_simps)
  have z: "\<forall>m<32 - 8. \<not> bit ?b m" by (simp add: bit_simps)
  have "(8 :: nat) \<le> 32" by simp
  note bits = lfsr_be_bits [OF z this]
  have "av_bswap32 (ucast b) = ?b" by (rule swap_u8)
  then show ?thesis
    unfolding m bits be.feed_def be.run_def crc_be_steps
    by (simp only: bswap_xor)
qed

lemma be_reg_feed:
  "foldl (lfsr_be (shl poly (nat (32 - bits)))) (av_bswap32 c) (map (bit b) (rev [0..<8])) =
   av_bswap32 (be.feed bits poly c (b :: u8))"
  by (simp only: bswap_bswap flip: be_feed)

lemma crc_of_feed:
  "crc_of le bits poly c buf = (if le then foldl (le.feed poly) c buf else foldl (be.feed bits poly) c buf)"
proof -
  have "foldl (lfsr_le poly) c (lsb_first buf) = foldl (le.feed poly) c buf"
    by (induction buf arbitrary: c) (simp_all add: lsb_first_def le_feed del: upt_Suc)
  moreover have "foldl (lfsr_be (shl poly (nat (32 - bits)))) (av_bswap32 c) (msb_first buf) =
      av_bswap32 (foldl (be.feed bits poly) c buf)"
    by (induction buf arbitrary: c) (simp_all add: msb_first_def be_reg_feed del: upt_Suc)
  ultimately show ?thesis by (simp add: crc_of_def)
qed

section \<open>Tables\<close>

text \<open>A table for \<open>le\<close>, \<open>bits\<close> and \<open>poly\<close>: its first entries, and what follows when the word loop is taken.\<close>

definition crc_ctx_ok :: "crc_config \<Rightarrow> bool \<Rightarrow> int \<Rightarrow> u32 \<Rightarrow> u32 list \<Rightarrow> bool" where
  "crc_ctx_ok cfg le bits poly ctx \<longleftrightarrow>
     (if le then le.driven poly ctx \<and> (\<not> crc_small cfg \<and> ctx ! 256 = 0 \<longrightarrow> le.sliced poly ctx)
      else be.driven bits poly ctx \<and> (\<not> crc_small cfg \<and> ctx ! 256 = 0 \<longrightarrow> be.sliced bits poly ctx))"

lemma av_crc_of: "crc_ctx_ok cfg le bits poly ctx \<Longrightarrow> av_crc cfg ctx c addr buf = crc_of le bits poly c buf"
  unfolding crc_ctx_ok_def by (auto simp: crc_of_feed le.av_crc_feeds be.av_crc_feeds split: if_splits)

lemma swap_index: "i < 256 \<Longrightarrow> av_bswap32 (of_nat i) = shl (of_nat i) 24"
proof -
  assume "i < 256"
  then have "of_nat i = (ucast (of_nat i :: u8) :: u32)"
    by (intro word_unat_eq_iff [THEN iffD2]) (simp add: unsigned_ucast_eq unsigned_of_nat take_bit_nat_eq_self)
  then show ?thesis by (simp only: swap_u8)
qed

lemma crc_entry_run:
  assumes "i < 256"
  shows "crc_entry le bits poly i = (if le then le.run poly 8 (of_nat i) else be.run bits poly 8 (of_nat i))"
  using swap_index [OF assms] by (simp add: crc_entry_def le.run_def be.run_def crc_be_steps)

lemma entries:
  assumes "\<forall>i<256. ctx ! i = crc_entry le bits poly i"
  shows "if le then le.driven poly ctx else be.driven bits poly ctx"
  using assms by (simp add: crc_entry_run le.driven_def be.driven_def)

lemma length_updates [simp]: "length (foldl (\<lambda>xs i. xs[i := f i]) xs is) = length xs"
  by (induction "is" arbitrary: xs) simp_all

lemma foldl_updates: "n \<le> length xs \<Longrightarrow> i < n \<Longrightarrow> foldl (\<lambda>xs i. xs[i := f i]) xs [0..<n] ! i = f i"
  by (induction n) (auto simp: nth_list_update less_Suc_eq)

lemma av_crc_init_ok:
  assumes "length ctx = nat (ctx_size div 4)" and "av_crc_init cfg ctx le bits poly ctx_size = (None, ctx')"
  shows "crc_ctx_ok cfg le bits poly ctx' \<and> length ctx' = length ctx"
proof -
  let ?c = "(foldl (\<lambda>ctx i. ctx[i := crc_entry le bits poly i]) ctx [0..<256])[256 := 1]"
  from assms have c': "ctx' = (if \<not> crc_small cfg \<and> ctx_size \<ge> 4 * 1024 then crc_slices ?c else ?c)"
    and size: "ctx_size = 4 * 257 \<or> ctx_size = 4 * 1024"
    by (auto simp: av_crc_init_def Let_def split: if_splits)
  then have l: "256 < length ctx" using assms(1) by auto
  then have "\<forall>i<256. ?c ! i = crc_entry le bits poly i" by (simp add: foldl_updates)
  note d = entries [OF this]
  have one: "?c ! 256 = 1" using l by simp
  show ?thesis
  proof (cases "\<not> crc_small cfg \<and> ctx_size \<ge> 4 * 1024")
    case True
    then have "length ?c = 1024" using size assms(1) by simp
    with True d show ?thesis
      by (auto simp: c' crc_ctx_ok_def le.crc_slices_sliced be.crc_slices_sliced length_crc_slices split: if_splits)
  next
    case False
    then have "ctx' = ?c" using c' by auto
    then show ?thesis using d one by (simp add: crc_ctx_ok_def split: if_splits)
  qed
qed

text \<open>The entries double: the upper half of a table is the lower half, each entry changed by one value.\<close>

definition crc_double :: "u32 list \<Rightarrow> u32 \<Rightarrow> u32 list" where
  "crc_double xs e = xs @ map (\<lambda>x. e XOR x) xs"

lemma crc_entry_xor:
  assumes "i < 2 ^ k" and "k < 8"
  shows "crc_entry le bits poly (2 ^ k + i) = crc_entry le bits poly (2 ^ k) XOR crc_entry le bits poly i"
proof -
  have "2 ^ k + i < 256" "(2 :: nat) ^ k < 256" "i < 256"
    using assms power_increasing [of "Suc k" 8 "2 :: nat"] by auto
  moreover have "(of_nat (2 ^ k + i) :: u32) = of_nat (2 ^ k) XOR of_nat i"
    unfolding of_nat_add
  proof (rule disjunctive_add_eq_xor, rule bit_word_eqI)
    show "bit (of_nat (2 ^ k) AND of_nat i :: u32) n = bit (0 :: u32) n" for n
      using nat_bit_lt [OF assms(1), of n] by (auto simp: bit_and_iff bit_simps bit_exp_iff)
  qed
  ultimately show ?thesis by (simp add: crc_entry_run le.run_xor be.run_xor)
qed

lemma crc_entries_double:
  "map (crc_entry le bits poly) [0..<2 ^ Suc k] =
   crc_double (map (crc_entry le bits poly) [0..<2 ^ k]) (crc_entry le bits poly (2 ^ k))" if "k < 8"
proof (rule nth_equalityI)
  show "map (crc_entry le bits poly) [0..<2 ^ Suc k] ! i =
      crc_double (map (crc_entry le bits poly) [0..<2 ^ k]) (crc_entry le bits poly (2 ^ k)) ! i"
    if "i < length (map (crc_entry le bits poly) [0..<2 ^ Suc k])" for i
    using that crc_entry_xor [OF _ \<open>k < 8\<close>, of "i - 2 ^ k"] by (auto simp: crc_double_def nth_append)
qed (simp add: crc_double_def)

lemma crc_entries:
  "n \<le> 8 \<Longrightarrow> map (crc_entry le bits poly) [0..<2 ^ n] = foldl crc_double [0] (map (crc_entry le bits poly) (map ((^) 2) [0..<n]))"
proof (induction n)
  case 0
  have "crc_entry le bits poly 0 = 0" using crc_entry_run [of 0 le bits poly] by (simp add: le.run_0 be.run_0)
  then show ?case by simp
next
  case (Suc n)
  then show ?case using crc_entries_double [of n le bits poly] by simp
qed

text \<open>Values of the entries of the powers of two.\<close>

lemma eight_times: "(f ^^ 8) x = f (f (f (f (f (f (f (f x)))))))"
  by (simp add: eval_nat_numeral)

lemma eight_powers: "map ((^) 2) [0..<8] = [1 :: nat, 2, 4, 8, 16, 32, 64, 128]"
  by (simp add: upt_rec)

text \<open>The step written so that no number outgrows the word.\<close>

lemma crc_be_bit_eval:
  "crc_be_bit bits poly c =
     (if bit c 31 then shl (c XOR 0x80000000) 1 XOR shl poly (nat (32 - bits)) else shl c 1)"
proof -
  have e: "(0x80000000 :: u32) = 2 ^ 31" "(4294967296 :: u32) = 0" by simp_all
  have "shl (c XOR 0x80000000) 1 = shl c 1"
    unfolding e push_bit_xor by (simp add: push_bit_eq_mult e(2) del: push_bit_Suc)
  then show ?thesis by (simp add: crc_be_bit_alt)
qed

lemmas crc_eval = crc_entry_def eight_times crc_be_bit_eval crc_le_bit_alt av_bswap32_def AV_BSWAP16C_def

lemma powers_8_ATM:
  "crc_entry False 8 0x07 1 = 0x07"
  "crc_entry False 8 0x07 2 = 0x0E"
  "crc_entry False 8 0x07 4 = 0x1C"
  "crc_entry False 8 0x07 8 = 0x38"
  "crc_entry False 8 0x07 16 = 0x70"
  "crc_entry False 8 0x07 32 = 0xE0"
  "crc_entry False 8 0x07 64 = 0xC7"
  "crc_entry False 8 0x07 128 = 0x89"
  by (simp_all add: crc_eval)

lemma computed_8_ATM: "crc_table_8_ATM = map (crc_entry False 8 0x07) [0..<2 ^ 8] @ [1]"
  unfolding crc_entries [OF order_refl] eight_powers list.map powers_8_ATM foldl.simps
  by (simp only: crc_double_def list.map append.simps) (simp add: crc_table_8_ATM_def)

lemma powers_8_EBU:
  "crc_entry False 8 0x1D 1 = 0x1D"
  "crc_entry False 8 0x1D 2 = 0x3A"
  "crc_entry False 8 0x1D 4 = 0x74"
  "crc_entry False 8 0x1D 8 = 0xE8"
  "crc_entry False 8 0x1D 16 = 0xCD"
  "crc_entry False 8 0x1D 32 = 0x87"
  "crc_entry False 8 0x1D 64 = 0x13"
  "crc_entry False 8 0x1D 128 = 0x26"
  by (simp_all add: crc_eval)

lemma computed_8_EBU: "crc_table_8_EBU = map (crc_entry False 8 0x1D) [0..<2 ^ 8] @ [1]"
  unfolding crc_entries [OF order_refl] eight_powers list.map powers_8_EBU foldl.simps
  by (simp only: crc_double_def list.map append.simps) (simp add: crc_table_8_EBU_def)

lemma powers_16_ANSI:
  "crc_entry False 16 0x8005 1 = 0x0580"
  "crc_entry False 16 0x8005 2 = 0x0F80"
  "crc_entry False 16 0x8005 4 = 0x1B80"
  "crc_entry False 16 0x8005 8 = 0x3380"
  "crc_entry False 16 0x8005 16 = 0x6380"
  "crc_entry False 16 0x8005 32 = 0xC380"
  "crc_entry False 16 0x8005 64 = 0x8381"
  "crc_entry False 16 0x8005 128 = 0x0383"
  by (simp_all add: crc_eval)

lemma computed_16_ANSI: "crc_table_16_ANSI = map (crc_entry False 16 0x8005) [0..<2 ^ 8] @ [1]"
  unfolding crc_entries [OF order_refl] eight_powers list.map powers_16_ANSI foldl.simps
  by (simp only: crc_double_def list.map append.simps) (simp add: crc_table_16_ANSI_def)

lemma powers_16_CCITT:
  "crc_entry False 16 0x1021 1 = 0x2110"
  "crc_entry False 16 0x1021 2 = 0x4220"
  "crc_entry False 16 0x1021 4 = 0x8440"
  "crc_entry False 16 0x1021 8 = 0x0881"
  "crc_entry False 16 0x1021 16 = 0x3112"
  "crc_entry False 16 0x1021 32 = 0x6224"
  "crc_entry False 16 0x1021 64 = 0xC448"
  "crc_entry False 16 0x1021 128 = 0x8891"
  by (simp_all add: crc_eval)

lemma computed_16_CCITT: "crc_table_16_CCITT = map (crc_entry False 16 0x1021) [0..<2 ^ 8] @ [1]"
  unfolding crc_entries [OF order_refl] eight_powers list.map powers_16_CCITT foldl.simps
  by (simp only: crc_double_def list.map append.simps) (simp add: crc_table_16_CCITT_def)

lemma powers_24_IEEE:
  "crc_entry False 24 0x864CFB 1 = 0xFB4C86"
  "crc_entry False 24 0x864CFB 2 = 0x0DD58A"
  "crc_entry False 24 0x864CFB 4 = 0xE1E693"
  "crc_entry False 24 0x864CFB 8 = 0x3981A1"
  "crc_entry False 24 0x864CFB 16 = 0x894EC5"
  "crc_entry False 24 0x864CFB 32 = 0xE9D10C"
  "crc_entry False 24 0x864CFB 64 = 0xD2A319"
  "crc_entry False 24 0x864CFB 128 = 0xA44733"
  by (simp_all add: crc_eval)

lemma computed_24_IEEE: "crc_table_24_IEEE = map (crc_entry False 24 0x864CFB) [0..<2 ^ 8] @ [1]"
  unfolding crc_entries [OF order_refl] eight_powers list.map powers_24_IEEE foldl.simps
  by (simp only: crc_double_def list.map append.simps) (simp add: crc_table_24_IEEE_def)

lemma powers_32_IEEE:
  "crc_entry False 32 0x04C11DB7 1 = 0xB71DC104"
  "crc_entry False 32 0x04C11DB7 2 = 0x6E3B8209"
  "crc_entry False 32 0x04C11DB7 4 = 0xDC760413"
  "crc_entry False 32 0x04C11DB7 8 = 0xB8ED0826"
  "crc_entry False 32 0x04C11DB7 16 = 0x70DB114C"
  "crc_entry False 32 0x04C11DB7 32 = 0xE0B62398"
  "crc_entry False 32 0x04C11DB7 64 = 0x77708634"
  "crc_entry False 32 0x04C11DB7 128 = 0xEEE00C69"
  by (simp_all add: crc_eval)

lemma computed_32_IEEE: "crc_table_32_IEEE = map (crc_entry False 32 0x04C11DB7) [0..<2 ^ 8] @ [1]"
  unfolding crc_entries [OF order_refl] eight_powers list.map powers_32_IEEE foldl.simps
  by (simp only: crc_double_def list.map append.simps) (simp add: crc_table_32_IEEE_def)

lemma powers_32_IEEE_LE:
  "crc_entry True 32 0xEDB88320 1 = 0x77073096"
  "crc_entry True 32 0xEDB88320 2 = 0xEE0E612C"
  "crc_entry True 32 0xEDB88320 4 = 0x076DC419"
  "crc_entry True 32 0xEDB88320 8 = 0x0EDB8832"
  "crc_entry True 32 0xEDB88320 16 = 0x1DB71064"
  "crc_entry True 32 0xEDB88320 32 = 0x3B6E20C8"
  "crc_entry True 32 0xEDB88320 64 = 0x76DC4190"
  "crc_entry True 32 0xEDB88320 128 = 0xEDB88320"
  by (simp_all add: crc_eval)

lemma computed_32_IEEE_LE: "crc_table_32_IEEE_LE = map (crc_entry True 32 0xEDB88320) [0..<2 ^ 8] @ [1]"
  unfolding crc_entries [OF order_refl] eight_powers list.map powers_32_IEEE_LE foldl.simps
  by (simp only: crc_double_def list.map append.simps) (simp add: crc_table_32_IEEE_LE_def)

lemma powers_16_ANSI_LE:
  "crc_entry True 16 0xA001 1 = 0xC0C1"
  "crc_entry True 16 0xA001 2 = 0xC181"
  "crc_entry True 16 0xA001 4 = 0xC301"
  "crc_entry True 16 0xA001 8 = 0xC601"
  "crc_entry True 16 0xA001 16 = 0xCC01"
  "crc_entry True 16 0xA001 32 = 0xD801"
  "crc_entry True 16 0xA001 64 = 0xF001"
  "crc_entry True 16 0xA001 128 = 0xA001"
  by (simp_all add: crc_eval)

lemma computed_16_ANSI_LE: "crc_table_16_ANSI_LE = map (crc_entry True 16 0xA001) [0..<2 ^ 8] @ [1]"
  unfolding crc_entries [OF order_refl] eight_powers list.map powers_16_ANSI_LE foldl.simps
  by (simp only: crc_double_def list.map append.simps) (simp add: crc_table_16_ANSI_LE_def)


lemma hardcoded_ok:
  assumes "crc_id \<noteq> AV_CRC_MAX" and "crc_params crc_id = (le, bits, poly)"
  shows "crc_ctx_ok cfg le bits poly (crc_table crc_id)"
proof -
  have e: "crc_table crc_id = map (crc_entry le bits poly) [0..<2 ^ 8] @ [1]"
    using assms by (cases crc_id) (auto simp: computed_8_ATM computed_8_EBU computed_16_ANSI computed_16_CCITT
      computed_24_IEEE computed_32_IEEE computed_32_IEEE_LE computed_16_ANSI_LE simp del: upt_Suc power_numeral)
  then have "\<forall>i<256. crc_table crc_id ! i = crc_entry le bits poly i" "crc_table crc_id ! 256 = 1"
    by (simp_all add: nth_append)
  with entries [of "crc_table crc_id" le bits poly] show ?thesis
    by (simp add: crc_ctx_ok_def split: if_splits)
qed

section \<open>The tables that are built once\<close>

definition crc_state_ok :: "crc_config \<Rightarrow> crc_state \<Rightarrow> bool" where
  "crc_state_ok cfg st \<longleftrightarrow> (\<forall>crc_id. length (crc_tables st crc_id) = CRC_TABLE_SIZE cfg \<and>
     (once_control st crc_id \<longrightarrow> (case crc_params crc_id of (le, bits, poly) \<Rightarrow> crc_ctx_ok cfg le bits poly (crc_tables st crc_id))))"

lemma params_accepted:
  assumes "crc_id \<noteq> AV_CRC_MAX" and "crc_params crc_id = (le, bits, poly)"
  shows "\<exists>ctx'. av_crc_init cfg ctx le bits poly (4 * int (CRC_TABLE_SIZE cfg)) = (None, ctx')"
  using assms by (cases crc_id) (auto simp: av_crc_init_def CRC_TABLE_SIZE_def Let_def)

lemma av_crc_get_table_ok:
  assumes "crc_state_ok cfg st" and "crc_id \<noteq> AV_CRC_MAX" and p: "crc_params crc_id = (le, bits, poly)"
  shows "\<exists>tab st'. av_crc_get_table cfg crc_id st = Some (tab, st') \<and> crc_state_ok cfg st' \<and> crc_ctx_ok cfg le bits poly tab"
proof -
  let ?n = "4 * int (CRC_TABLE_SIZE cfg)"
  obtain ctx where i: "av_crc_init cfg (crc_tables st crc_id) le bits poly ?n = (None, ctx)"
    using params_accepted [OF assms(2) p] by blast
  have l: "length (crc_tables st crc_id) = nat (?n div 4)" using assms(1) by (simp add: crc_state_ok_def)
  note ctx = av_crc_init_ok [OF l i]
  consider "crc_hardcoded cfg" | "\<not> crc_hardcoded cfg" "once_control st crc_id"
    | "\<not> crc_hardcoded cfg" "\<not> once_control st crc_id" by blast
  then show ?thesis
  proof cases
    case 1
    then show ?thesis using assms hardcoded_ok [OF assms(2) p] by (simp add: av_crc_get_table_def)
  next
    case 2
    then show ?thesis using assms by (auto simp: av_crc_get_table_def CRC_INIT_TABLE_ONCE_def crc_state_ok_def)
  next
    case 3
    let ?st = "st\<lparr>crc_tables := (crc_tables st)(crc_id := ctx), once_control := (once_control st)(crc_id := True)\<rparr>"
    have "av_crc_get_table cfg crc_id st = Some (ctx, ?st)"
      using 3 assms(2) i by (simp add: av_crc_get_table_def CRC_INIT_TABLE_ONCE_def crc_init_table_once_def p)
    moreover have "crc_state_ok cfg ?st" using assms(1) p ctx l by (auto simp: crc_state_ok_def)
    ultimately show ?thesis using ctx by blast
  qed
qed

lemma crc_residue: "crc_of le bits poly crc (buf @ AV_WL32 (crc_of le bits poly crc buf)) = 0"
  by (simp add: crc_of_feed le.residue be.residue)

text \<open>A program that asks for tables in turn.\<close>

fun crc_calls :: "crc_config \<Rightarrow> AVCRCId list \<Rightarrow> crc_state \<Rightarrow> crc_state option" where
  "crc_calls cfg [] st = Some st"
| "crc_calls cfg (crc_id # ids) st =
     (case av_crc_get_table cfg crc_id st of None \<Rightarrow> None | Some (tab, st) \<Rightarrow> crc_calls cfg ids st)"

lemma crc_calls_ok:
  assumes "crc_state_ok cfg st" and "AV_CRC_MAX \<notin> set ids"
  shows "\<exists>st'. crc_calls cfg ids st = Some st' \<and> crc_state_ok cfg st'"
  using assms
proof (induction ids arbitrary: st)
  case (Cons crc_id ids)
  obtain le bits poly where p: "crc_params crc_id = (le, bits, poly)" by (cases "crc_params crc_id")
  obtain tab st' where "av_crc_get_table cfg crc_id st = Some (tab, st')" "crc_state_ok cfg st'"
    using av_crc_get_table_ok [OF Cons.prems(1) _ p] Cons.prems(2) by auto
  then show ?case using Cons by simp
qed simp

lemma crc_start_ok: "crc_state_ok cfg (crc_start cfg)"
  by (simp add: crc_state_ok_def crc_start_def)

text \<open>C32: In every configuration, for every standard check and after any earlier use of the tables, \<open>av_crc\<close> with the table
  that \<open>av_crc_get_table\<close> gives computes the shift register with the parameters of that check, whatever the address of
  the buffer; and so it does with a table that \<open>av_crc_init\<close> fills for any parameters it accepts. It accepts 8 to 32 bits,
  a polynomial that fits, and the two table sizes. A message followed by its check, lowest byte first, has the check 0.\<close>

theorem av_crc_correct:
  assumes "AV_CRC_MAX \<notin> set ids" and "crc_id \<noteq> AV_CRC_MAX" and "length ctx = nat (ctx_size div 4)"
  shows "(\<exists>st tab st' le n p. crc_calls cfg ids (crc_start cfg) = Some st \<and> av_crc_get_table cfg crc_id st = Some (tab, st') \<and>
      crc_params crc_id = (le, n, p) \<and> av_crc cfg tab crc addr buf = crc_of le n p crc buf) \<and>
    (case av_crc_init cfg ctx le bits poly ctx_size of
       (None, ctx') \<Rightarrow> 8 \<le> bits \<and> bits \<le> 32 \<and> uint poly < 2 ^ nat bits \<and> ctx_size \<in> {4 * 257, 4 * 1024} \<and>
         av_crc cfg ctx' crc addr buf = crc_of le bits poly crc buf
     | (Some e, ctx') \<Rightarrow> e = EINVAL \<and> ctx' = ctx \<and>
         (bits < 8 \<or> 32 < bits \<or> 2 ^ nat bits \<le> uint poly \<or> ctx_size \<notin> {4 * 257, 4 * 1024})) \<and>
    crc_of le bits poly crc (buf @ AV_WL32 (crc_of le bits poly crc buf)) = 0"
proof (intro conjI)
  obtain le' n p where q: "crc_params crc_id = (le', n, p)" by (cases "crc_params crc_id")
  obtain st where st: "crc_calls cfg ids (crc_start cfg) = Some st" "crc_state_ok cfg st"
    using crc_calls_ok [OF crc_start_ok assms(1)] by blast
  then show "\<exists>st tab st' le n p. crc_calls cfg ids (crc_start cfg) = Some st \<and> av_crc_get_table cfg crc_id st = Some (tab, st') \<and>
      crc_params crc_id = (le, n, p) \<and> av_crc cfg tab crc addr buf = crc_of le n p crc buf"
    using av_crc_get_table_ok [OF st(2) assms(2) q] q av_crc_of by blast
  show "case av_crc_init cfg ctx le bits poly ctx_size of
       (None, ctx') \<Rightarrow> 8 \<le> bits \<and> bits \<le> 32 \<and> uint poly < 2 ^ nat bits \<and> ctx_size \<in> {4 * 257, 4 * 1024} \<and>
         av_crc cfg ctx' crc addr buf = crc_of le bits poly crc buf
     | (Some e, ctx') \<Rightarrow> e = EINVAL \<and> ctx' = ctx \<and>
         (bits < 8 \<or> 32 < bits \<or> 2 ^ nat bits \<le> uint poly \<or> ctx_size \<notin> {4 * 257, 4 * 1024})"
    using av_crc_init_ok [OF assms(3)] av_crc_of by (auto simp: av_crc_init_def Let_def split: prod.split option.split if_splits)
  show "crc_of le bits poly crc (buf @ AV_WL32 (crc_of le bits poly crc buf)) = 0"
    by (rule crc_residue)
qed

text \<open>The usual test: the check of the digits 1 to 9 under \<open>AV_CRC_32_IEEE_LE\<close>.\<close>

lemma av_crc_correct_witness:
  "\<exists>st tab st'. crc_calls \<lparr>crc_hardcoded = False, crc_small = False\<rparr> [AV_CRC_8_ATM] (crc_start \<lparr>crc_hardcoded = False, crc_small = False\<rparr>) = Some st \<and>
     av_crc_get_table \<lparr>crc_hardcoded = False, crc_small = False\<rparr> AV_CRC_32_IEEE_LE st = Some (tab, st') \<and>
     av_crc \<lparr>crc_hardcoded = False, crc_small = False\<rparr> tab 0xFFFFFFFF 1 [0x31, 0x32, 0x33, 0x34, 0x35, 0x36, 0x37, 0x38, 0x39] = 0x340BC6D9"
proof -
  let ?cfg = "\<lparr>crc_hardcoded = False, crc_small = False\<rparr>" and ?m = "[0x31, 0x32, 0x33, 0x34, 0x35, 0x36, 0x37, 0x38, 0x39] :: bytes"
  have v: "crc_of True 32 0xEDB88320 0xFFFFFFFF ?m = 0x340BC6D9" by code_simp
  have "AV_CRC_MAX \<notin> set [AV_CRC_8_ATM]" "AV_CRC_32_IEEE_LE \<noteq> AV_CRC_MAX" "length (replicate 257 (0 :: u32)) = nat (4 * 257 div 4)"
    by simp_all
  from av_crc_correct [OF this, THEN conjunct1, of ?cfg "0xFFFFFFFF" 1 ?m] v show ?thesis
    by (auto simp del: crc_calls.simps)
qed

end
