(* ===== verification/AvBase64.thy ===== *)
theory AvBase64 imports AvPrelude "HOL-Library.Monad_Syntax"
begin

text \<open>
  \<open>libavutil/base64.c\<close>: base64 coding. The decoder writes into a buffer that the caller gives, four bytes at a time for
  groups of three, and a write outside the buffer, or a read behind the string, has no value here. Both directions
  are compared with the grouping into six-bit values, and the exact condition under which the decoder stays inside its
  buffer is shown.
\<close>

section \<open>The code\<close>

definition base64_map2 :: "bytes" where
  "base64_map2 =
     [0xfe, 0xff, 0xff, 0xff, 0xff, 0xff, 0xff, 0xff, 0xff, 0xff, 0xff, 0xff, 0xff, 0xff, 0xff, 0xff,
      0xff, 0xff, 0xff, 0xff, 0xff, 0xff, 0xff, 0xff, 0xff, 0xff, 0xff, 0xff, 0xff, 0xff, 0xff, 0xff,
      0xff, 0xff, 0xff, 0xff, 0xff, 0xff, 0xff, 0xff, 0xff, 0xff, 0xff, 0x3e, 0xff, 0xff, 0xff, 0x3f,
      0x34, 0x35, 0x36, 0x37, 0x38, 0x39, 0x3a, 0x3b, 0x3c, 0x3d, 0xff, 0xff, 0xff, 0xfe, 0xff, 0xff,
      0xff, 0x00, 0x01, 0x02, 0x03, 0x04, 0x05, 0x06, 0x07, 0x08, 0x09, 0x0a, 0x0b, 0x0c, 0x0d, 0x0e,
      0x0f, 0x10, 0x11, 0x12, 0x13, 0x14, 0x15, 0x16, 0x17, 0x18, 0x19, 0xff, 0xff, 0xff, 0xff, 0xff,
      0xff, 0x1a, 0x1b, 0x1c, 0x1d, 0x1e, 0x1f, 0x20, 0x21, 0x22, 0x23, 0x24, 0x25, 0x26, 0x27, 0x28,
      0x29, 0x2a, 0x2b, 0x2c, 0x2d, 0x2e, 0x2f, 0x30, 0x31, 0x32, 0x33, 0xff, 0xff, 0xff, 0xff, 0xff,
      0xff, 0xff, 0xff, 0xff, 0xff, 0xff, 0xff, 0xff, 0xff, 0xff, 0xff, 0xff, 0xff, 0xff, 0xff, 0xff,
      0xff, 0xff, 0xff, 0xff, 0xff, 0xff, 0xff, 0xff, 0xff, 0xff, 0xff, 0xff, 0xff, 0xff, 0xff, 0xff,
      0xff, 0xff, 0xff, 0xff, 0xff, 0xff, 0xff, 0xff, 0xff, 0xff, 0xff, 0xff, 0xff, 0xff, 0xff, 0xff,
      0xff, 0xff, 0xff, 0xff, 0xff, 0xff, 0xff, 0xff, 0xff, 0xff, 0xff, 0xff, 0xff, 0xff, 0xff, 0xff,
      0xff, 0xff, 0xff, 0xff, 0xff, 0xff, 0xff, 0xff, 0xff, 0xff, 0xff, 0xff, 0xff, 0xff, 0xff, 0xff,
      0xff, 0xff, 0xff, 0xff, 0xff, 0xff, 0xff, 0xff, 0xff, 0xff, 0xff, 0xff, 0xff, 0xff, 0xff, 0xff,
      0xff, 0xff, 0xff, 0xff, 0xff, 0xff, 0xff, 0xff, 0xff, 0xff, 0xff, 0xff, 0xff, 0xff, 0xff, 0xff,
      0xff, 0xff, 0xff, 0xff, 0xff, 0xff, 0xff, 0xff, 0xff, 0xff, 0xff, 0xff, 0xff, 0xff, 0xff, 0xff]"

text \<open>A store at an offset of the buffer.\<close>

definition store_bytes :: "bytes \<Rightarrow> nat \<Rightarrow> bytes \<Rightarrow> bytes option" where
  "store_bytes out i bs =
     (if i + length bs \<le> length out then Some (take i out @ bs @ drop (i + length bs) out) else None)"

text \<open>\<open>BASE64_DEC_STEP(i)\<close> on the rest of the string: \<open>Inl\<close> when it jumps to \<open>out_i\<close>, with \<open>bits\<close> and \<open>v\<close>.\<close>

definition BASE64_DEC_STEP :: "nat \<Rightarrow> bytes \<Rightarrow> u32 \<Rightarrow> ((nat \<times> u8 \<times> u32) + u32) option" where
  "BASE64_DEC_STEP i inp v =
     (if i < length inp then
        let bits = base64_map2 ! unat (inp ! i)
        in if bits AND 0x80 \<noteq> 0 then Some (Inl (i, bits, v))
           else Some (Inr (if i \<noteq> 0 then shl v 6 + ucast bits else ucast bits))
      else None)"

definition and_then :: "('e + 'a) option \<Rightarrow> ('a \<Rightarrow> ('e + 'b) option) \<Rightarrow> ('e + 'b) option" where
  "and_then r f = do { x \<leftarrow> r; (case x of Inl e \<Rightarrow> Some (Inl e) | Inr a \<Rightarrow> f a) }"

definition base64_four :: "bytes \<Rightarrow> u32 \<Rightarrow> ((nat \<times> u8 \<times> u32) + u32) option" where
  "base64_four inp v =
     and_then (BASE64_DEC_STEP 0 inp v) (\<lambda>v. and_then (BASE64_DEC_STEP 1 inp v) (\<lambda>v.
     and_then (BASE64_DEC_STEP 2 inp v) (BASE64_DEC_STEP 3 inp)))"

text \<open>From the label \<open>out_i\<close> on. The result is an error or the number of bytes, with the buffer.\<close>

definition base64_out :: "nat \<times> u8 \<times> u32 \<Rightarrow> bytes \<Rightarrow> nat \<Rightarrow> ((averror + nat) \<times> bytes) option" where
  "base64_out stop out dst =
     (let (i, bits, v) = stop
      in do {
        (out, dst, v) \<leftarrow> (if i = 3 then do { out \<leftarrow> store_bytes out dst [ucast (shr v 10)]; Some (out, dst + 1, shl v 2) }
                          else Some (out, dst, v));
        (out, dst) \<leftarrow> (if i \<ge> 2 then do { out \<leftarrow> store_bytes out dst [ucast (shr v 4)]; Some (out, dst + 1) }
                       else Some (out, dst));
        Some (if bits AND 1 \<noteq> 0 then Inl INVALIDDATA else Inr dst, out) })"

text \<open>\<open>while (1)\<close>: every step is \<open>BASE64_DEC_STEP(0)\<close>.\<close>

fun base64_rest :: "bytes \<Rightarrow> u32 \<Rightarrow> (nat \<times> u8 \<times> u32) option" where
  "base64_rest inp v =
     (case BASE64_DEC_STEP 0 inp v of
        None \<Rightarrow> None
      | Some (Inl stop) \<Rightarrow> Some stop
      | Some (Inr v) \<Rightarrow> (case inp of [] \<Rightarrow> None | c # inp \<Rightarrow> base64_rest inp v))"

declare base64_rest.simps [simp del]

text \<open>The last group, when room for one to three bytes is left.\<close>

definition base64_last :: "bytes \<Rightarrow> nat \<Rightarrow> bytes \<Rightarrow> u32 \<Rightarrow> int \<Rightarrow> ((averror + nat) \<times> bytes) option" where
  "base64_last out dst inp v out_size =
     (if out_size - int dst \<noteq> 0 then
        do { r \<leftarrow> base64_four inp v;
             case r of
               Inl stop \<Rightarrow> base64_out stop out dst
             | Inr v \<Rightarrow> do {
                 out \<leftarrow> store_bytes out dst [ucast (shr v 16)];
                 let dst = dst + 1;
                 (out, dst) \<leftarrow> (if out_size - int dst \<noteq> 0 then do { out \<leftarrow> store_bytes out dst [ucast (shr v 8)]; Some (out, dst + 1) }
                                else Some (out, dst));
                 (out, dst) \<leftarrow> (if out_size - int dst \<noteq> 0 then do { out \<leftarrow> store_bytes out dst [ucast v]; Some (out, dst + 1) }
                                else Some (out, dst));
                 stop \<leftarrow> base64_rest (drop 4 inp) v;
                 base64_out stop out dst } }
      else do { stop \<leftarrow> base64_rest inp v; base64_out stop out dst })"

text \<open>\<open>AV_WN32(dst, av_be2ne32(v << 8))\<close> stores the bytes of \<open>v << 8\<close>, highest first, on every host.\<close>

function base64_loop :: "bytes \<Rightarrow> nat \<Rightarrow> bytes \<Rightarrow> u32 \<Rightarrow> int \<Rightarrow> ((averror + nat) \<times> bytes) option" where
  "base64_loop out dst inp v out_size =
     (if out_size - int dst > 3 then
        case base64_four inp v of
          None \<Rightarrow> None
        | Some (Inl stop) \<Rightarrow> base64_out stop out dst
        | Some (Inr v) \<Rightarrow>
            let v = shl v 8
            in case store_bytes out dst (AV_WB32 v) of
                 None \<Rightarrow> None
               | Some out \<Rightarrow> base64_loop out (dst + 3) (drop 4 inp) v out_size
      else base64_last out dst inp v out_size)"
  by pat_completeness auto
termination by (relation "measure (\<lambda>(out, dst, inp, v, out_size). nat (out_size - int dst))") auto

declare base64_loop.simps [simp del]

text \<open>\<open>v\<close> is not initialised; its value is a parameter.\<close>

definition av_base64_decode :: "u32 \<Rightarrow> bytes \<Rightarrow> bytes \<Rightarrow> int \<Rightarrow> ((averror + nat) \<times> bytes) option" where
  "av_base64_decode v out in_str out_size = base64_loop out 0 in_str v out_size"

text \<open>The letters of \<open>b64\<close> by their codes: A to Z, a to z, 0 to 9, plus and slash.\<close>

definition b64 :: "bytes" where
  "b64 =
     [65, 66, 67, 68, 69, 70, 71, 72, 73, 74, 75, 76, 77, 78, 79, 80, 81, 82, 83, 84, 85, 86, 87, 88, 89, 90,
      97, 98, 99, 100, 101, 102, 103, 104, 105, 106, 107, 108, 109, 110, 111, 112, 113, 114, 115, 116, 117, 118, 119, 120, 121, 122,
      48, 49, 50, 51, 52, 53, 54, 55, 56, 57, 43, 47]"

definition AV_BASE64_SIZE :: "int \<Rightarrow> int" where
  "AV_BASE64_SIZE x = (x + 2) div 3 * 4 + 1"

text \<open>\<open>while (bytes_remaining > 3)\<close>: the characters and the rest of the input.\<close>

function base64_encode_loop :: "bytes \<Rightarrow> bytes \<Rightarrow> bytes \<times> bytes" where
  "base64_encode_loop dst inp =
     (if length inp > 3 then
        let i_bits = AV_RB32 inp 0
        in base64_encode_loop
             (dst @ [b64 ! unat (shr i_bits 26), b64 ! unat (shr i_bits 20 AND 0x3F),
                     b64 ! unat (shr i_bits 14 AND 0x3F), b64 ! unat (shr i_bits 8 AND 0x3F)])
             (drop 3 inp)
      else (dst, inp))"
  by pat_completeness auto
termination by (relation "measure (\<lambda>(dst, inp). length inp)") auto

declare base64_encode_loop.simps [simp del]

text \<open>\<open>while (bytes_remaining)\<close>\<close>

fun base64_collect :: "u32 \<Rightarrow> int \<Rightarrow> bytes \<Rightarrow> u32 \<times> int" where
  "base64_collect i_bits i_shift [] = (i_bits, i_shift)"
| "base64_collect i_bits i_shift (b # inp) = base64_collect (shl i_bits 8 + ucast b) (i_shift + 8) inp"

text \<open>\<open>while (i_shift > 0)\<close>\<close>

function base64_flush :: "u32 \<Rightarrow> int \<Rightarrow> bytes \<Rightarrow> bytes" where
  "base64_flush i_bits i_shift dst =
     (if i_shift > 0
      then base64_flush i_bits (i_shift - 6) (dst @ [b64 ! unat (shr (shl i_bits 6) (nat i_shift) AND 0x3f)])
      else dst)"
  by pat_completeness auto
termination by (relation "measure (\<lambda>(i_bits, i_shift, dst). nat i_shift)") auto

declare base64_flush.simps [simp del]

text \<open>\<open>while ((dst - ret) & 3) *dst++ = '=';\<close>\<close>

function base64_pad :: "bytes \<Rightarrow> bytes" where
  "base64_pad dst = (if length dst mod 4 \<noteq> 0 then base64_pad (dst @ [61]) else dst)"
  by pat_completeness auto
termination by (relation "measure (\<lambda>dst. 4 - length dst mod 4 + (if length dst mod 4 = 0 then 0 else 4))") (auto simp: mod_Suc)

declare base64_pad.simps [simp del]

text \<open>What is written to \<open>out\<close>, or \<open>None\<close> for \<open>NULL\<close>.\<close>

definition av_base64_encode :: "int \<Rightarrow> bytes \<Rightarrow> bytes option" where
  "av_base64_encode out_size inp =
     (let in_size = int (length inp)
      in if in_size \<ge> 4294967295 div 4 \<or> out_size < AV_BASE64_SIZE in_size then None
         else
           let (dst, inp) = base64_encode_loop [] inp;
               (i_bits, i_shift) = base64_collect 0 0 inp;
               dst = base64_flush i_bits i_shift dst;
               dst = base64_pad dst
           in Some (dst @ [0]))"

section \<open>Six-bit values\<close>

text \<open>The grouping of RFC 4648: three bytes are four values of six bits; a short group is filled with zero bits.\<close>

fun base64_values :: "bytes \<Rightarrow> bytes" where
  "base64_values (a # b # c # r) =
     [shr a 2, shl (a AND 3) 4 OR shr b 4, shl (b AND 15) 2 OR shr c 6, c AND 63] @ base64_values r"
| "base64_values [a, b] = [shr a 2, shl (a AND 3) 4 OR shr b 4, shl (b AND 15) 2]"
| "base64_values [a] = [shr a 2, shl (a AND 3) 4]"
| "base64_values [] = []"

definition base64_text :: "bytes \<Rightarrow> bytes" where
  "base64_text m = map (\<lambda>x. b64 ! unat x) (base64_values m) @ replicate ((3 - length m mod 3) mod 3) 61"

text \<open>And back: the whole bytes in a sequence of values.\<close>

fun base64_bytes :: "bytes \<Rightarrow> bytes" where
  "base64_bytes (a # b # c # d # r) =
     [shl a 2 OR shr b 4, shl b 4 OR shr c 2, shl c 6 OR d] @ base64_bytes r"
| "base64_bytes [a, b, c] = [shl a 2 OR shr b 4, shl b 4 OR shr c 2]"
| "base64_bytes [a, b] = [shl a 2 OR shr b 4]"
| "base64_bytes [a] = []"
| "base64_bytes [] = []"

lemma length_base64_bytes: "length (base64_bytes xs) = length xs * 3 div 4"
  by (induction xs rule: base64_bytes.induct) simp_all

lemma length_base64_values: "length (base64_values m) = (length m * 4 + 2) div 3"
  by (induction m rule: base64_values.induct) simp_all

lemma masks: "(3 :: u8) = mask 2" "(15 :: u8) = mask 4" "(63 :: u8) = mask 6"
  by (simp_all add: mask_eq_exp_minus_1)

lemma group_bytes:
  fixes a b c :: u8
  shows "shl (shr a 2) 2 OR shr (shl (a AND 3) 4 OR shr b 4) 4 = a"
    and "shl (shl (a AND 3) 4 OR shr b 4) 4 OR shr (shl (b AND 15) 2 OR shr c 6) 2 = b"
    and "shl (shl (b AND 15) 2 OR shr c 6) 6 OR (c AND 63) = c"
    and "shl (shr a 2) 2 OR shr (shl (a AND 3) 4) 4 = a"
    and "shl (shl (a AND 3) 4 OR shr b 4) 4 OR shr (shl (b AND 15) 2) 2 = b"
  by (rule u8_eqI; simp add: masks bit_simps)+

lemma base64_bytes_values: "base64_bytes (base64_values m) = m"
  by (induction m rule: base64_values.induct) (simp_all only: base64_values.simps base64_bytes.simps append.simps group_bytes)

section \<open>The encoder\<close>

lemma mask_3F: "(0x3F :: u32) = mask 6"
  by (simp add: mask_eq_exp_minus_1)

lemma unat_u8_eqI: "w = ucast (x :: u8) \<Longrightarrow> unat (w :: u32) = unat x"
  by (simp add: unat_of_u8)

lemma quad_values:
  fixes a b c d :: u8
  defines "v \<equiv> AV_RB32 [a, b, c, d] 0"
  shows "unat (shr v 26) = unat (shr a 2)"
    and "unat (shr v 20 AND 0x3F) = unat (shl (a AND 3) 4 OR shr b 4)"
    and "unat (shr v 14 AND 0x3F) = unat (shl (b AND 15) 2 OR shr c 6)"
    and "unat (shr v 8 AND 0x3F) = unat (c AND 63)"
  unfolding v_def AV_RB32_def mask_3F masks
  by (rule unat_u8_eqI, rule bit_word_eqI, auto simp: bit_simps dest: bit_u8_le)+

lemma shl_8_add: "shl x 8 + ucast (b :: u8) = (shl x 8 OR ucast b :: u32)"
  by (rule disjunctive_add) (auto simp: bit_simps dest: bit_u8_le)

lemma last_values:
  fixes a b c :: u8
  shows "unat (shr (shl (ucast a) 6) 8 AND 0x3F :: u32) = unat (shr a 2)"
    and "unat (shr (shl (ucast a) 6) 2 AND 0x3F :: u32) = unat (shl (a AND 3) 4)"
    and "unat (shr (shl (shl (ucast a) 8 OR ucast b) 6) 16 AND 0x3F :: u32) = unat (shr a 2)"
    and "unat (shr (shl (shl (ucast a) 8 OR ucast b) 6) 10 AND 0x3F :: u32) = unat (shl (a AND 3) 4 OR shr b 4)"
    and "unat (shr (shl (shl (ucast a) 8 OR ucast b) 6) 4 AND 0x3F :: u32) = unat (shl (b AND 15) 2)"
    and "unat (shr (shl (shl (shl (ucast a) 8 OR ucast b) 8 OR ucast c) 6) 24 AND 0x3F :: u32) = unat (shr a 2)"
    and "unat (shr (shl (shl (shl (ucast a) 8 OR ucast b) 8 OR ucast c) 6) 18 AND 0x3F :: u32) = unat (shl (a AND 3) 4 OR shr b 4)"
    and "unat (shr (shl (shl (shl (ucast a) 8 OR ucast b) 8 OR ucast c) 6) 12 AND 0x3F :: u32) = unat (shl (b AND 15) 2 OR shr c 6)"
    and "unat (shr (shl (shl (shl (ucast a) 8 OR ucast b) 8 OR ucast c) 6) 6 AND 0x3F :: u32) = unat (c AND 63)"
  unfolding mask_3F masks
  by (rule unat_u8_eqI, rule bit_word_eqI, auto simp: bit_simps dest: bit_u8_le)+

abbreviation b64_char :: "u8 \<Rightarrow> u8" where
  "b64_char x \<equiv> b64 ! unat x"

lemma values_append: "length p mod 3 = 0 \<Longrightarrow> base64_values (p @ r) = base64_values p @ base64_values r"
  by (induction p rule: base64_values.induct) simp_all

lemma encode_step:
  assumes "length inp > 3" and "inp = a # b # c # r"
  shows "base64_encode_loop dst inp = base64_encode_loop (dst @ map b64_char (base64_values [a, b, c])) r"
proof -
  obtain d s where "r = d # s" using assms by (cases r) auto
  then have "AV_RB32 inp 0 = AV_RB32 [a, b, c, d] 0" by (simp add: assms(2) AV_RB32_def)
  then show ?thesis
    using assms(1) by (subst base64_encode_loop.simps) (simp only: Let_def quad_values if_True, simp add: assms(2))
qed

lemma encode_loop:
  "\<exists>p r. inp = p @ r \<and> length r \<le> 3 \<and> length p mod 3 = 0 \<and>
     base64_encode_loop dst inp = (dst @ map b64_char (base64_values p), r)"
proof (induction inp arbitrary: dst rule: base64_values.induct)
  case (1 a b c r)
  show ?case
  proof (cases "r = []")
    case True
    then show ?thesis by (intro exI [of _ "[]"] exI [of _ "[a, b, c]"]) (simp add: base64_encode_loop.simps)
  next
    case False
    then have l: "length (a # b # c # r) > 3" by (cases r) auto
    from 1 [of "dst @ map b64_char (base64_values [a, b, c])"] obtain p' r' where
      IH: "r = p' @ r'" "length r' \<le> 3" "length p' mod 3 = 0"
        "base64_encode_loop (dst @ map b64_char (base64_values [a, b, c])) r =
          ((dst @ map b64_char (base64_values [a, b, c])) @ map b64_char (base64_values p'), r')"
      by (elim exE conjE)
    then show ?thesis
      unfolding encode_step [OF l refl]
      by (intro exI [of _ "a # b # c # p'"] exI [of _ r']) simp
  qed
next
  case (2 a b)
  then show ?case by (intro exI [of _ "[]"] exI [of _ "[a, b]"]) (simp add: base64_encode_loop.simps)
next
  case (3 a)
  then show ?case by (intro exI [of _ "[]"] exI [of _ "[a]"]) (simp add: base64_encode_loop.simps)
next
  case 4
  then show ?case by (intro exI [of _ "[]"]) (simp add: base64_encode_loop.simps)
qed

lemma pad_more: "length dst mod 4 \<noteq> 0 \<Longrightarrow> base64_pad dst = base64_pad (dst @ [61])"
  and pad_done: "length dst mod 4 = 0 \<Longrightarrow> base64_pad dst = dst"
  by (subst base64_pad.simps, simp)+

lemma pad_one: "length d mod 4 = 3 \<Longrightarrow> base64_pad d = d @ [61]"
proof -
  assume l: "length d mod 4 = 3"
  then have "Suc (length d) mod 4 = 0" by presburger
  then show ?thesis using l pad_done [of "d @ [61]"] by (subst pad_more) simp_all
qed

lemma pad_two: "length d mod 4 = 2 \<Longrightarrow> base64_pad d = d @ [61, 61]"
proof -
  assume l: "length d mod 4 = 2"
  then have "Suc (length d) mod 4 = 3" by presburger
  then show ?thesis using l pad_one [of "d @ [61]"] by (subst pad_more) simp_all
qed

lemma pad_three: "length d mod 4 = 1 \<Longrightarrow> base64_pad d = d @ [61, 61, 61]"
proof -
  assume l: "length d mod 4 = 1"
  then have "Suc (length d) mod 4 = 2" by presburger
  then show ?thesis using l pad_two [of "d @ [61]"] by (subst pad_more) simp_all
qed

lemma pad_eq: "base64_pad dst = dst @ replicate ((4 - length dst mod 4) mod 4) 61"
proof -
  have "length dst mod 4 < 4" by simp
  then consider "length dst mod 4 = 0" | "length dst mod 4 = 3" | "length dst mod 4 = 2" | "length dst mod 4 = 1" by linarith
  moreover have "replicate 1 x = [x]" "replicate 2 x = [x, x]" "replicate 3 x = [x, x, x]" for x :: u8
    by (simp, simp only: numeral_2_eq_2 replicate.simps, simp only: numeral_3_eq_3 replicate.simps)
  ultimately show ?thesis
    by cases (simp_all add: pad_done pad_one pad_two pad_three)
qed

lemma flush_steps:
  "base64_flush w 0 dst = dst"
  "base64_flush w 8 dst = dst @ [b64 ! unat (shr (shl w 6) 8 AND 0x3F), b64 ! unat (shr (shl w 6) 2 AND 0x3F)]"
  "base64_flush w 16 dst = dst @ [b64 ! unat (shr (shl w 6) 16 AND 0x3F), b64 ! unat (shr (shl w 6) 10 AND 0x3F),
     b64 ! unat (shr (shl w 6) 4 AND 0x3F)]"
  "base64_flush w 24 dst = dst @ [b64 ! unat (shr (shl w 6) 24 AND 0x3F), b64 ! unat (shr (shl w 6) 18 AND 0x3F),
     b64 ! unat (shr (shl w 6) 12 AND 0x3F), b64 ! unat (shr (shl w 6) 6 AND 0x3F)]"
  by (simp_all add: base64_flush.simps)

lemma collect_steps:
  "base64_collect 0 0 [] = (0, 0)"
  "base64_collect 0 0 [a] = (ucast a, 8)"
  "base64_collect 0 0 [a, b] = (shl (ucast a) 8 OR ucast b, 16)"
  "base64_collect 0 0 [a, b, c] = (shl (shl (ucast a) 8 OR ucast b) 8 OR ucast c, 24)"
  by (simp_all only: base64_collect.simps shl_8_add push_bit_of_0 or.left_neutral) simp_all

lemma flush_rest:
  assumes "length r \<le> 3" and "base64_collect 0 0 r = (i_bits, i_shift)"
  shows "base64_flush i_bits i_shift dst = dst @ map b64_char (base64_values r)"
proof -
  from assms(1) consider "r = []" | a where "r = [a]" | a b where "r = [a, b]" | a b c where "r = [a, b, c]"
    by (cases r; cases "tl r"; cases "tl (tl r)") auto
  then show ?thesis
    using assms(2)
    by cases (simp_all only: collect_steps prod.inject base64_values.simps list.map append.simps,
      auto simp only: flush_steps last_values append_Nil2)
qed

lemma third_plus:
  fixes n :: nat
  shows "(4 - (n * 4 + 2) div 3 mod 4) mod 4 = (3 - n mod 3) mod 3"
    and "(n * 4 + 2) div 3 + (3 - n mod 3) mod 3 = (n + 2) div 3 * 4"
proof -
  define q s where "q = n div 3" and "s = n mod 3"
  have n: "n = 3 * q + s" "s < 3" by (simp_all add: q_def s_def)
  have m: "(4 * q + k) mod 4 = k mod 4" for k by simp
  from n(2) consider "s = 0" | "s = 1" | "s = 2" by linarith
  then have "(4 - (n * 4 + 2) div 3 mod 4) mod 4 = (3 - n mod 3) mod 3 \<and>
      (n * 4 + 2) div 3 + (3 - n mod 3) mod 3 = (n + 2) div 3 * 4"
  proof cases
    case 1
    then have "(n * 4 + 2) div 3 = 4 * q + 0" "n mod 3 = 0" "(n + 2) div 3 = q" using n by simp_all
    then show ?thesis by (simp only: m) simp
  next
    case 2
    then have "(n * 4 + 2) div 3 = 4 * q + 2" "n mod 3 = 1" "(n + 2) div 3 = q + 1" using n by simp_all
    then show ?thesis by (simp only: m) simp
  next
    case 3
    then have "(n * 4 + 2) div 3 = 4 * q + 3" "(n + 2) div 3 = q + 1" using n by simp_all
    moreover have "n mod 3 = 2" using 3 by (simp add: s_def)
    ultimately show ?thesis by (simp only: m) simp
  qed
  then show "(4 - (n * 4 + 2) div 3 mod 4) mod 4 = (3 - n mod 3) mod 3"
    "(n * 4 + 2) div 3 + (3 - n mod 3) mod 3 = (n + 2) div 3 * 4" by blast+
qed

lemma av_base64_encode_eq:
  "av_base64_encode out_size m =
     (if int (length m) < 4294967295 div 4 \<and> AV_BASE64_SIZE (int (length m)) \<le> out_size then Some (base64_text m @ [0]) else None)"
proof -
  obtain p r where pr: "m = p @ r" "length r \<le> 3" "length p mod 3 = 0"
    "base64_encode_loop [] m = ([] @ map b64_char (base64_values p), r)"
    using encode_loop [of m "[]"] by (elim exE conjE)
  obtain i_bits i_shift where c: "base64_collect 0 0 r = (i_bits, i_shift)" by (cases "base64_collect 0 0 r")
  have "map b64_char (base64_values p) @ map b64_char (base64_values r) = map b64_char (base64_values m)"
    by (simp only: pr(1) values_append [OF pr(3)] map_append)
  then have "base64_pad (base64_flush i_bits i_shift ([] @ map b64_char (base64_values p))) = base64_text m"
    by (simp only: append_Nil flush_rest [OF pr(2) c] pad_eq base64_text_def length_map length_base64_values third_plus(1))
  then show ?thesis
    by (simp only: av_base64_encode_def Let_def pr(4) prod.case c) (simp add: not_le not_less)
qed

lemma length_base64_text: "int (length (base64_text m @ [0])) = AV_BASE64_SIZE (int (length m))"
proof -
  have "length (base64_text m) = (length m + 2) div 3 * 4"
    by (simp only: base64_text_def length_append length_map length_base64_values length_replicate third_plus(2))
  then show ?thesis by (simp add: AV_BASE64_SIZE_def zdiv_int)
qed

section \<open>The decoder\<close>

definition base64_value :: "u8 \<Rightarrow> u8" where
  "base64_value c = base64_map2 ! unat c"

definition base64_letter :: "u8 \<Rightarrow> bool" where
  "base64_letter c \<longleftrightarrow> base64_value c AND 0x80 = 0"

lemma length_map2: "length base64_map2 = 256"
  by (simp add: base64_map2_def)

lemma value_in_table: "base64_value c \<in> set base64_map2"
proof -
  have "unat c < 256" using unsigned_less [of c, where ?'a = nat] by simp
  then show ?thesis by (simp add: base64_value_def length_map2)
qed

lemma values_small: "base64_letter c \<Longrightarrow> take_bit 6 (base64_value c) = base64_value c"
proof -
  have "list_all (\<lambda>x. x AND 0x80 = 0 \<longrightarrow> take_bit 6 x = x) base64_map2" by code_simp
  then show "base64_letter c \<Longrightarrow> take_bit 6 (base64_value c) = base64_value c"
    using value_in_table [of c] by (auto simp: list_all_iff base64_letter_def)
qed

lemma letter_values: "map base64_value b64 = map of_nat [0..<64]"
  by code_simp

lemma other_values: "base64_value 61 = 0xfe" "base64_value 0 = 0xfe"
  by (simp_all add: base64_value_def base64_map2_def)

text \<open>The word that the steps collect.\<close>

definition word6 :: "bytes \<Rightarrow> u32" where
  "word6 xs = foldl (\<lambda>v x. shl v 6 OR ucast x) 0 xs"

lemma step_letter:
  assumes "i < length inp" and "base64_letter (inp ! i)"
  shows "BASE64_DEC_STEP i inp v =
    Some (Inr (if i \<noteq> 0 then shl v 6 OR ucast (base64_value (inp ! i)) else ucast (base64_value (inp ! i))))"
proof -
  let ?x = "base64_value (inp ! i)"
  have "bit ?x n \<Longrightarrow> n < 6" for n
    using values_small [OF assms(2)] by (metis bit_take_bit_iff)
  then have "shl v 6 + ucast ?x = shl v 6 OR ucast ?x"
    by (intro disjunctive_add) (auto simp: bit_simps dest: leD)
  then show ?thesis
    using assms by (simp add: BASE64_DEC_STEP_def Let_def base64_letter_def base64_value_def)
qed

lemma step_stop:
  assumes "i < length inp" and "\<not> base64_letter (inp ! i)"
  shows "BASE64_DEC_STEP i inp v = Some (Inl (i, base64_value (inp ! i), v))"
  using assms by (simp add: BASE64_DEC_STEP_def Let_def base64_letter_def base64_value_def)

lemma and_then_simps [simp]:
  "and_then (Some (Inl e)) f = Some (Inl e)" "and_then (Some (Inr a)) f = f a"
  by (simp_all add: and_then_def)

lemma four_letters:
  assumes "base64_letter a" "base64_letter b" "base64_letter c" "base64_letter d"
  shows "base64_four (a # b # c # d # r) v = Some (Inr (word6 (map base64_value [a, b, c, d])))"
  using assms by (simp add: base64_four_def step_letter word6_def)

lemma four_stop:
  assumes "length cs < 4" and "\<forall>c\<in>set cs. base64_letter c" and "\<not> base64_letter s"
  shows "\<exists>w. base64_four (cs @ s # r) v = Some (Inl (length cs, base64_value s, w)) \<and>
    (cs \<noteq> [] \<longrightarrow> w = word6 (map base64_value cs))"
proof -
  from assms(1) consider "cs = []" | a where "cs = [a]" | a b where "cs = [a, b]" | a b c where "cs = [a, b, c]"
    by (cases cs; cases "tl cs"; cases "tl (tl cs)"; cases "tl (tl (tl cs))") auto
  then show ?thesis
    by cases (use assms(2,3) in \<open>simp_all add: base64_four_def step_letter step_stop word6_def\<close>)
qed

lemma rest_stop:
  assumes "\<forall>c\<in>set cs. base64_letter c" and "\<not> base64_letter s"
  shows "\<exists>w. base64_rest (cs @ s # r) v = Some (0, base64_value s, w)"
  using assms(1)
proof (induction cs arbitrary: v)
  case Nil
  then show ?case by (subst base64_rest.simps) (simp add: step_stop assms(2))
next
  case (Cons c cs)
  then show ?case by (subst base64_rest.simps) (simp add: step_letter)
qed

text \<open>Stores in sequence.\<close>

lemma store_Nil: "i \<le> length out \<Longrightarrow> store_bytes out i [] = Some out"
  by (simp add: store_bytes_def)

lemma store_append:
  "do { o1 \<leftarrow> store_bytes out i a; store_bytes o1 (i + length a) b } = store_bytes out i (a @ b)"
  by (auto simp: store_bytes_def ac_simps)

lemma store_Some:
  assumes "i + length bs \<le> length out"
  shows "\<exists>out'. store_bytes out i bs = Some out' \<and> length out' = length out \<and> take (i + length bs) out' = take i out @ bs"
  using assms by (simp add: store_bytes_def)

lemma store_None: "length out < i + length bs \<Longrightarrow> store_bytes out i bs = None"
  by (simp add: store_bytes_def)

lemma no_bit_u8: "8 \<le> n \<Longrightarrow> \<not> bit (x :: u8) n"
  by (auto dest: bit_u8_le)

lemma word6_bytes:
  fixes a b c d :: u8
  assumes "take_bit 6 a = a" "take_bit 6 b = b" "take_bit 6 c = c" "take_bit 6 d = d"
  shows "ucast (shr (word6 [a, b]) 4) = shl a 2 OR shr b 4"
    and "ucast (shr (word6 [a, b, c]) 10) = shl a 2 OR shr b 4"
    and "ucast (shr (shl (word6 [a, b, c]) 2) 4) = shl b 4 OR shr c 2"
    and "ucast (shr (word6 [a, b, c, d]) 16) = shl a 2 OR shr b 4"
    and "ucast (shr (word6 [a, b, c, d]) 8) = shl b 4 OR shr c 2"
    and "ucast (word6 [a, b, c, d]) = shl c 6 OR d"
proof -
  have n: "\<not> bit x 6" "\<not> bit x 7" if "take_bit 6 x = x" for x :: u8
    using that bit_take_bit_iff [of 6 x 6] bit_take_bit_iff [of 6 x 7] by simp_all
  note n [OF assms(1)] n [OF assms(2)] n [OF assms(3)] n [OF assms(4)]
  then show "ucast (shr (word6 [a, b]) 4) = shl a 2 OR shr b 4"
    "ucast (shr (word6 [a, b, c]) 10) = shl a 2 OR shr b 4"
    "ucast (shr (shl (word6 [a, b, c]) 2) 4) = shl b 4 OR shr c 2"
    "ucast (shr (word6 [a, b, c, d]) 16) = shl a 2 OR shr b 4"
    "ucast (shr (word6 [a, b, c, d]) 8) = shl b 4 OR shr c 2"
    "ucast (word6 [a, b, c, d]) = shl c 6 OR d"
    by (simp_all add: word6_def) (rule u8_eqI; simp add: bit_simps no_bit_u8)+
qed

text \<open>The end of a run: what is left of a group is stored.\<close>

lemma out_stores:
  assumes "length cs < 4" and "\<forall>c\<in>set cs. base64_letter c" and "dst \<le> length out"
    and "cs \<noteq> [] \<longrightarrow> w = word6 (map base64_value cs)"
  shows "base64_out (length cs, b, w) out dst =
    map_option (\<lambda>out'. (if b AND 1 \<noteq> 0 then Inl INVALIDDATA else Inr (dst + length cs * 3 div 4), out'))
      (store_bytes out dst (base64_bytes (map base64_value cs)))"
proof -
  note v = values_small
  from assms(1) consider "cs = []" | x where "cs = [x]" | x y where "cs = [x, y]" | x y z where "cs = [x, y, z]"
    by (cases cs; cases "tl cs"; cases "tl (tl cs)"; cases "tl (tl (tl cs))") auto
  then show ?thesis
  proof cases
    case (3 x y)
    then have "ucast (shr w 4) = shl (base64_value x) 2 OR shr (base64_value y) 4"
      using assms(2,4) word6_bytes(1) [OF v v, of x y 0 0] by simp
    then show ?thesis
      using 3 by (cases "store_bytes out dst [shl (base64_value x) 2 OR shr (base64_value y) 4]") (simp_all add: base64_out_def)
  next
    case (4 x y z)
    let ?p = "shl (base64_value x) 2 OR shr (base64_value y) 4" and ?q = "shl (base64_value y) 4 OR shr (base64_value z) 2"
    from 4 have e: "ucast (shr w 10) = ?p" "ucast (shr (shl w 2) 4) = ?q"
      using assms(2,4) word6_bytes(2,3) [OF v v v, of x y z 0] by simp_all
    have s: "store_bytes out dst [?p, ?q] = do { o1 \<leftarrow> store_bytes out dst [?p]; store_bytes o1 (dst + 1) [?q] }"
      using store_append [of out dst "[?p]" "[?q]"] by simp
    show ?thesis
      using 4 s e
      by (cases "store_bytes out dst [?p]"; cases "store_bytes (the (store_bytes out dst [?p])) (dst + 1) [?q]")
        (simp_all add: base64_out_def)
  qed (simp_all add: base64_out_def store_Nil assms(3))
qed

definition decoded :: "bytes \<Rightarrow> bytes" where
  "decoded cs = base64_bytes (map base64_value cs)"

lemma length_decoded: "length (decoded cs) = length cs * 3 div 4"
  by (simp add: decoded_def length_base64_bytes)

lemma decoded_group: "decoded (a # b # c # d # r) = decoded [a, b, c, d] @ decoded r"
  by (simp add: decoded_def)

definition decode_ret :: "u8 \<Rightarrow> nat \<Rightarrow> averror + nat" where
  "decode_ret b n = (if b AND 1 \<noteq> 0 then Inl INVALIDDATA else Inr n)"

text \<open>What a call that has \<open>n\<close> bytes of room at \<open>dst\<close> and reads the letters \<open>cs\<close> up to \<open>s\<close> has to return.\<close>

definition decodes :: "bytes \<Rightarrow> nat \<Rightarrow> nat \<Rightarrow> bytes \<Rightarrow> u8 \<Rightarrow> ((averror + nat) \<times> bytes) option \<Rightarrow> bool" where
  "decodes out dst n cs s r \<longleftrightarrow>
     (if n mod 3 = 1 \<and> length cs = 4 * (n div 3) + 3 then r = None
      else \<exists>out'. r = Some (decode_ret (base64_value s) (dst + min n (length (decoded cs))), out') \<and>
        length out' = length out \<and>
        take (dst + min n (length (decoded cs))) out' = take dst out @ take n (decoded cs))"

lemma out_decodes:
  assumes "length cs < 4" and "\<forall>c\<in>set cs. base64_letter c" and "dst + n = length out"
    and "cs \<noteq> [] \<longrightarrow> w = word6 (map base64_value cs)" and "n > 0 \<or> length cs \<le> 1"
  shows "decodes out dst n cs s (base64_out (length cs, base64_value s, w) out dst)"
proof -
  have l: "length (decoded cs) = length cs * 3 div 4" by (rule length_decoded)
  have o: "base64_out (length cs, base64_value s, w) out dst =
      map_option (\<lambda>out'. (decode_ret (base64_value s) (dst + length (decoded cs)), out')) (store_bytes out dst (decoded cs))"
    using out_stores [OF assms(1,2) _ assms(4), of dst out] assms(3) by (simp add: decode_ret_def decoded_def length_base64_bytes)
  show ?thesis
  proof (cases "length (decoded cs) \<le> n")
    case True
    then obtain out' where "store_bytes out dst (decoded cs) = Some out'" "length out' = length out"
      "take (dst + length (decoded cs)) out' = take dst out @ decoded cs"
      using store_Some [of dst "decoded cs" out] assms(3) by auto
    moreover have "\<not> (n mod 3 = 1 \<and> length cs = 4 * (n div 3) + 3)"
      using True assms(1) l by auto
    ultimately show ?thesis using True o by (simp add: decodes_def min_absorb2)
  next
    case False
    from assms(1) consider "length cs = 0" | "length cs = 1" | "length cs = 2" | "length cs = 3" by linarith
    then have "length cs = 3 \<and> n = 1" using l assms(5) False by cases simp_all
    moreover have "store_bytes out dst (decoded cs) = None"
      using False assms(3) by (intro store_None) simp
    ultimately show ?thesis using o by (simp add: decodes_def)
  qed
qed

lemma four_or_more:
  assumes "\<not> length cs < 4"
  obtains a b c d cs' where "cs = a # b # c # d # cs'"
proof -
  from assms have "length (take 4 cs) = 4" by simp
  then obtain a b c d where "take 4 cs = [a, b, c, d]" by (rule list_of_4E)
  then show ?thesis using that [of a b c d "drop 4 cs"] append_take_drop_id [of 4 cs] by simp
qed

lemma rest_decodes:
  assumes "\<forall>c\<in>set cs. base64_letter c" and "\<not> base64_letter s"
  shows "do { stop \<leftarrow> base64_rest (cs @ s # r) v; base64_out stop out dst } = Some (decode_ret (base64_value s) dst, out)"
  using rest_stop [OF assms, of r v] by (auto simp: base64_out_def decode_ret_def)

lemma four_group:
  assumes "\<not> length cs < 4" and "\<forall>c\<in>set cs. base64_letter c"
  shows "\<exists>w cs'. base64_four (cs @ r) v = Some (Inr w) \<and> drop 4 (cs @ r) = cs' @ r \<and> length cs = length cs' + 4 \<and>
    set cs' \<subseteq> set cs \<and> decoded cs = [ucast (shr w 16), ucast (shr w 8), ucast w] @ decoded cs'"
proof -
  obtain a b c d cs' where e: "cs = a # b # c # d # cs'" using assms(1) by (rule four_or_more)
  let ?w = "word6 (map base64_value [a, b, c, d])"
  have l: "base64_letter a" "base64_letter b" "base64_letter c" "base64_letter d" using assms(2) e by simp_all
  have "decoded [a, b, c, d] = [ucast (shr ?w 16), ucast (shr ?w 8), ucast ?w]"
    using l word6_bytes(4-6) [OF values_small values_small values_small values_small, of a b c d] by (simp add: decoded_def)
  then have "decoded cs = [ucast (shr ?w 16), ucast (shr ?w 8), ucast ?w] @ decoded cs'"
    unfolding e by (subst decoded_group) simp
  moreover have "base64_four (cs @ r) v = Some (Inr ?w)" using l by (simp add: e four_letters)
  ultimately show ?thesis using e by (intro exI [of _ ?w] exI [of _ cs']) auto
qed

lemma last_decodes:
  assumes "dst + n = length out" and "int (length out) = out_size" and "n \<le> 3"
    and "\<forall>c\<in>set cs. base64_letter c" and "\<not> base64_letter s"
  shows "decodes out dst n cs s (base64_last out dst (cs @ s # r) v out_size)"
proof (cases "n = 0")
  case True
  then have "base64_last out dst (cs @ s # r) v out_size = Some (decode_ret (base64_value s) dst, out)"
    using assms(1,2) rest_decodes [OF assms(4,5), of r v out dst] by (simp add: base64_last_def)
  then show ?thesis using True assms(1) by (simp add: decodes_def)
next
  case False
  then have o: "out_size - int dst = int n" using assms(1,2) by auto
  show ?thesis
  proof (cases "length cs < 4")
    case True
    obtain w where "base64_four (cs @ s # r) v = Some (Inl (length cs, base64_value s, w))"
        "cs \<noteq> [] \<longrightarrow> w = word6 (map base64_value cs)"
      using four_stop [OF True assms(4,5)] by blast
    then show ?thesis
      using out_decodes [OF True assms(4,1), of w s] False o by (simp add: base64_last_def)
  next
    case cs: False
    obtain w cs' where f: "base64_four (cs @ s # r) v = Some (Inr w)" and r: "drop 4 (cs @ s # r) = cs' @ s # r"
      and cs': "\<forall>e\<in>set cs'. base64_letter e" and lcs: "length cs = length cs' + 4"
      and g: "decoded cs = [ucast (shr w 16), ucast (shr w 8), ucast w] @ decoded cs'"
      using four_group [OF cs assms(4), of "s # r" v] assms(4) by blast
    let ?x = "ucast (shr w 16) :: u8" and ?y = "ucast (shr w 8) :: u8" and ?z = "ucast w :: u8"
    obtain o1 where o1: "store_bytes out dst [?x] = Some o1" "length o1 = length out" "take (dst + 1) o1 = take dst out @ [?x]"
      using store_Some [of dst "[?x]" out] False assms(1) by auto
    note tail = rest_decodes [OF cs' assms(5), of r w]
    have len: "length (decoded cs) \<ge> 3" using g by simp
    have s3: "Suc (Suc (Suc dst)) = dst + 3" by simp
    from False assms(3) consider "n = 1" | "n = 2" | "n = 3" by linarith
    then show ?thesis
    proof cases
      case 1
      have "base64_last out dst (cs @ s # r) v out_size = Some (decode_ret (base64_value s) (dst + 1), o1)"
        using o 1 tail [of o1 "dst + 1"] by (simp add: base64_last_def f r o1(1) del: drop_append)
      then show ?thesis using 1 o1 len lcs g by (simp add: decodes_def)
    next
      case 2
      obtain o2 where o2: "store_bytes o1 (dst + 1) [?y] = Some o2" "length o2 = length out" "take (dst + 2) o2 = take dst out @ [?x, ?y]"
        using store_Some [of "dst + 1" "[?y]" o1] 2 o1 assms(1) by auto
      have "base64_last out dst (cs @ s # r) v out_size = Some (decode_ret (base64_value s) (dst + 2), o2)"
        using o 2 o2(1) tail [of o2 "dst + 2"] by (simp add: base64_last_def f r o1(1) del: drop_append)
      then show ?thesis using 2 o2 len g by (simp add: decodes_def)
    next
      case 3
      obtain o2 where o2: "store_bytes o1 (dst + 1) [?y] = Some o2" "length o2 = length out" "take (dst + 2) o2 = take dst out @ [?x, ?y]"
        using store_Some [of "dst + 1" "[?y]" o1] 3 o1 assms(1) by auto
      obtain o3 where o3: "store_bytes o2 (dst + 2) [?z] = Some o3" "length o3 = length out" "take (dst + 3) o3 = take dst out @ [?x, ?y, ?z]"
        using store_Some [of "dst + 2" "[?z]" o2] 3 o2 assms(1) by auto
      have "base64_last out dst (cs @ s # r) v out_size = Some (decode_ret (base64_value s) (dst + 3), o3)"
        using o 3 o2(1) o3(1) tail [of o3 "dst + 3"]
        by (simp add: base64_last_def f r o1(1) s3 del: drop_append)
      then show ?thesis using 3 o3 len g by (simp add: decodes_def s3)
    qed
  qed
qed

lemma WB32_group: "AV_WB32 (shl w 8) = [ucast (shr w 16), ucast (shr w 8), ucast w] @ [0]"
  by (simp add: AV_WB32_def) (intro conjI bit_word_eqI; auto simp: bit_simps)

lemma decodes_group:
  assumes "take (dst + 3) out1 = take dst out @ xs" and "decoded cs = xs @ decoded cs'"
    and "decodes out1 (dst + 3) (n - 3) cs' s res" and "3 < n" and "length out1 = length out" and "length cs = length cs' + 4"
    and "length xs = 3"
  shows "decodes out dst n cs s res"
proof -
  have "(n - 3) mod 3 = n mod 3" "n div 3 = (n - 3) div 3 + 1" using assms(4) by (simp_all add: mod_if div_if)
  then have c: "n mod 3 = 1 \<and> length cs = 4 * (n div 3) + 3 \<longleftrightarrow> (n - 3) mod 3 = 1 \<and> length cs' = 4 * ((n - 3) div 3) + 3"
    using assms(6) by auto
  have m: "dst + min n (length (decoded cs)) = dst + 3 + min (n - 3) (length (decoded cs'))" using assms(2,4,7) by simp
  have k: "take n (decoded cs) = xs @ take (n - 3) (decoded cs')" using assms(2,4,7) by simp
  show ?thesis
    using assms(3) unfolding decodes_def c m k assms(1,5) append_assoc .
qed

lemma loop_decodes:
  assumes "dst + n = length out" and "int (length out) = out_size"
    and "\<forall>c\<in>set cs. base64_letter c" and "\<not> base64_letter s"
  shows "decodes out dst n cs s (base64_loop out dst (cs @ s # r) v out_size)"
  using assms(1,2,3)
proof (induction n arbitrary: out dst cs v rule: less_induct)
  case (less n)
  show ?case
  proof (cases "n > 3")
    case False
    then have "base64_loop out dst (cs @ s # r) v out_size = base64_last out dst (cs @ s # r) v out_size"
      using less.prems by (subst base64_loop.simps) simp
    then show ?thesis using last_decodes [OF less.prems(1,2) _ less.prems(3) assms(4)] False by simp
  next
    case True
    then have o: "out_size - int dst > 3" using less.prems by auto
    show ?thesis
    proof (cases "length cs < 4")
      case short: True
      obtain w where w: "base64_four (cs @ s # r) v = Some (Inl (length cs, base64_value s, w))"
          "cs \<noteq> [] \<longrightarrow> w = word6 (map base64_value cs)"
        using four_stop [OF short less.prems(3) assms(4)] by blast
      then have "base64_loop out dst (cs @ s # r) v out_size = base64_out (length cs, base64_value s, w) out dst"
        using o by (subst base64_loop.simps) simp
      then show ?thesis using out_decodes [OF short less.prems(3,1) w(2)] True by simp
    next
      case False
      then obtain w cs' where f: "base64_four (cs @ s # r) v = Some (Inr w)" and r: "drop 4 (cs @ s # r) = cs' @ s # r"
        and cs': "\<forall>e\<in>set cs'. base64_letter e" and lcs: "length cs = length cs' + 4"
        and g: "decoded cs = [ucast (shr w 16), ucast (shr w 8), ucast w] @ decoded cs'"
        using four_group [OF _ less.prems(3), of "s # r" v] less.prems(3) by blast
      let ?xs = "[ucast (shr w 16), ucast (shr w 8), ucast w] :: bytes"
      have d4: "AV_WB32 (shl w 8) = ?xs @ [0]" by (rule WB32_group)
      have "dst + length (?xs @ [0]) \<le> length out" using True less.prems(1) by simp
      from store_Some [OF this] obtain out1 where out1: "store_bytes out dst (?xs @ [0]) = Some out1" "length out1 = length out"
          "take (dst + length (?xs @ [0])) out1 = take dst out @ ?xs @ [0]" by blast
      have "take (dst + 3) out1 = take (dst + 3) (take (dst + length (?xs @ [0])) out1)" by simp
      also have "\<dots> = take (dst + 3) (take dst out @ ?xs @ [0])" by (simp only: out1(3))
      also have "\<dots> = take dst out @ ?xs" using less.prems(1) by simp
      finally have t: "take (dst + 3) out1 = take dst out @ ?xs" .
      have IH: "decodes out1 (dst + 3) (n - 3) cs' s (base64_loop out1 (dst + 3) (cs' @ s # r) (shl w 8) out_size)"
        using less.IH [of "n - 3" "dst + 3" out1 cs'] True less.prems(1,2) out1(2) cs' by simp
      have "base64_loop out dst (cs @ s # r) v out_size = base64_loop out1 (dst + 3) (cs' @ s # r) (shl w 8) out_size"
        using o f r out1(1) d4 by (subst base64_loop.simps) (simp add: Let_def del: drop_append)
      then show ?thesis using decodes_group [OF t g IH True out1(2) lcs] by simp
    qed
  qed
qed

text \<open>The code of a message is read back by any buffer that holds the message.\<close>

lemma group_low:
  "take_bit 6 (shr a 2) = shr a 2" "take_bit 6 (shl (a AND 3) 4 OR shr b 4) = shl (a AND 3) 4 OR shr b 4"
  "take_bit 6 (shl (b AND 15) 2 OR shr c 6) = shl (b AND 15) 2 OR shr c 6" "take_bit 6 (c AND 63) = c AND 63"
  "take_bit 6 (shl (b AND 15) 2) = shl (b AND 15) 2" "take_bit 6 (shl (a AND 3) 4) = shl (a AND 3) 4" for a b c :: u8
  by (rule u8_eqI; simp add: masks bit_simps no_bit_u8)+

lemma values_low: "\<forall>x\<in>set (base64_values m). take_bit 6 x = x"
proof (induction m rule: base64_values.induct)
  case (1 a b c r)
  then show ?case using group_low(1-4) by (simp only: base64_values.simps set_append list.set ball_Un) blast
qed (use group_low in simp_all)

lemma base64_text_decodes:
  "\<forall>c\<in>set (map b64_char (base64_values m)). base64_letter c" "decoded (map b64_char (base64_values m)) = m"
proof -
  have v: "base64_value (b64 ! i) = of_nat i" if "i < 64" for i
  proof -
    have "length b64 = 64" by (simp add: b64_def)
    then have "base64_value (b64 ! i) = map base64_value b64 ! i" using that by simp
    also have "\<dots> = of_nat i" using that by (simp only: letter_values) simp
    finally show ?thesis .
  qed
  have e: "base64_value (b64_char x) = x" if "x \<in> set (base64_values m)" for x
  proof -
    have "unat x = take_bit 6 (unat x)" using values_low that by (metis unsigned_take_bit_eq)
    then have "unat x < 64" using take_bit_nat_less_exp [of 6 "unat x"] by simp
    then show ?thesis using v by simp
  qed
  have "x AND 0x80 = 0" if "take_bit 6 x = x" for x :: u8
  proof -
    have "\<not> bit x 7" using that bit_take_bit_iff [of 6 x 7] by simp
    then show ?thesis by (intro u8_eqI) (simp_all add: bit_simps)
  qed
  then show "\<forall>c\<in>set (map b64_char (base64_values m)). base64_letter c"
    using e values_low [of m] by (simp add: base64_letter_def)
  have "map base64_value (map b64_char (base64_values m)) = base64_values m"
    using e by (simp add: map_idI)
  then show "decoded (map b64_char (base64_values m)) = m"
    by (simp only: decoded_def base64_bytes_values)
qed

text \<open>The text ends with a character that stops the decoder without an error.\<close>

lemma base64_text_stop:
  "\<exists>s r. base64_text m @ [0] = map b64_char (base64_values m) @ s # r \<and> \<not> base64_letter s \<and> base64_value s AND 1 = 0"
proof -
  have l: "\<not> base64_letter 61" "\<not> base64_letter 0" "base64_value 61 AND 1 = 0" "base64_value 0 AND 1 = 0"
    by (simp_all add: base64_letter_def other_values)
  show ?thesis
  proof (cases "(3 - length m mod 3) mod 3")
    case 0
    then show ?thesis using l by (intro exI [of _ 0] exI [of _ "[]"]) (simp add: base64_text_def)
  next
    case (Suc k)
    then show ?thesis using l by (intro exI [of _ 61] exI [of _ "replicate k 61 @ [0]"]) (simp add: base64_text_def)
  qed
qed

lemma no_overrun:
  fixes n room :: nat
  assumes "n \<le> room" and "room mod 3 = 1" and "(n * 4 + 2) div 3 = 4 * (room div 3) + 3"
  shows False
proof -
  define q where "q = room div 3"
  have "room = 3 * q + 1" using assms(2) by (simp add: q_def) presburger
  moreover have "n * 4 + 2 \<ge> 3 * (4 * q + 3)" using assms(3) by (simp add: q_def)
  ultimately show False using assms(1) by arith
qed

lemma decode_call:
  assumes "\<forall>c\<in>set cs. base64_letter c" and "\<not> base64_letter s"
  shows "decodes out 0 (length out) cs s (av_base64_decode v out (cs @ s # r) (int (length out)))"
  unfolding av_base64_decode_def by (rule loop_decodes) (use assms in simp_all)


text \<open>C34: \<open>av_base64_encode\<close> succeeds exactly when the message is small enough and the buffer has \<open>AV_BASE64_SIZE\<close> bytes, which it
  then fills with the text of RFC 4648 and a zero; the decoder gives the message back in any buffer that can hold it.\<close>

theorem av_base64_round_trip:
  assumes "length m \<le> length out"
  shows "(if int (length m) < 4294967295 div 4 \<and> AV_BASE64_SIZE (int (length m)) \<le> out_size
      then \<exists>txt out'. av_base64_encode out_size m = Some txt \<and> txt = base64_text m @ [0] \<and>
        int (length txt) = AV_BASE64_SIZE (int (length m)) \<and>
        av_base64_decode v out txt (int (length out)) = Some (Inr (length m), out') \<and> take (length m) out' = m
      else av_base64_encode out_size m = None)"
proof -
  let ?cs = "map b64_char (base64_values m)"
  obtain s r where s: "base64_text m @ [0] = ?cs @ s # r" "\<not> base64_letter s" "base64_value s AND 1 = 0"
    using base64_text_stop by blast
  have "decodes out 0 (length out) ?cs s (av_base64_decode v out (base64_text m @ [0]) (int (length out)))"
    unfolding s(1) by (rule decode_call [OF base64_text_decodes(1) s(2)])
  moreover have "\<not> (length out mod 3 = 1 \<and> length ?cs = 4 * (length out div 3) + 3)"
    unfolding length_map length_base64_values using no_overrun [OF assms] by blast
  ultimately have "\<exists>out'. av_base64_decode v out (base64_text m @ [0]) (int (length out)) = Some (Inr (length m), out') \<and>
      take (length m) out' = m"
    using assms s(3) by (auto simp: decodes_def decode_ret_def base64_text_decodes(2) min_absorb2)
  then show ?thesis
    using length_base64_text [of m] by (simp add: av_base64_encode_eq)
qed


lemma av_base64_round_trip_witness:
  "\<exists>out'. av_base64_encode 9 [52, 52, 52, 52] = Some [78, 68, 81, 48, 78, 65, 61, 61, 0] \<and>
     av_base64_decode 0 [0, 0, 0, 0] [78, 68, 81, 48, 78, 65, 61, 61, 0] 4 = Some (Inr 4, out') \<and> take 4 out' = [52, 52, 52, 52]"
proof -
  have "base64_text [52, 52, 52, 52] @ [0] = [78, 68, 81, 48, 78, 65, 61, 61, 0]" by code_simp
  then show ?thesis
    using av_base64_round_trip [of "[52, 52, 52, 52]" "[0, 0, 0, 0]" 9 0] by (auto simp: AV_BASE64_SIZE_def eval_nat_numeral)
qed

end
