(* ===== verification/AvRangeCoder.thy ===== *)
theory AvRangeCoder imports AvIntMath "HOL-Library.Monad_Syntax"
begin

text \<open>
  The adaptive binary range coder of \<open>libavcodec/rangecoder.c\<close> and \<open>rangecoder.h\<close>. The buffer is a list of bytes that
  starts at \<open>bytestream_start\<close>, the two other pointers are offsets into it. A write outside the buffer, which the code does
  not check for, is the value \<open>None\<close>. The coder's integers stay far inside the range of \<open>int\<close>
  (the invariant \<open>enc_inv\<close>), so they are HOL integers.
\<close>

section \<open>The code\<close>

record range_coder =
  rc_low :: int
  rc_range :: int
  outstanding_count :: nat
  outstanding_byte :: int
  zero_state :: bytes
  one_state :: bytes
  rc_mem :: bytes
  bytestream :: nat
  bytestream_end :: nat
  overread :: nat

definition ff_init_range_encoder :: "range_coder \<Rightarrow> bytes \<Rightarrow> nat \<Rightarrow> range_coder" where
  "ff_init_range_encoder c buf buf_size =
     c\<lparr>rc_mem := buf, bytestream := 0, bytestream_end := buf_size, rc_low := 0, rc_range := 0xFF00,
       outstanding_count := 0, outstanding_byte := - 1\<rparr>"

definition ff_init_range_decoder :: "range_coder \<Rightarrow> bytes \<Rightarrow> nat \<Rightarrow> range_coder" where
  "ff_init_range_decoder c buf buf_size =
     (let c = ff_init_range_encoder c buf buf_size;
          c = c\<lparr>rc_low := push_bit 8 (uint (rc_mem c ! bytestream c)) OR uint (rc_mem c ! (bytestream c + 1))\<rparr>;
          c = c\<lparr>bytestream := bytestream c + 2, overread := 0\<rparr>
      in if rc_low c \<ge> 0xFF00 then c\<lparr>rc_low := 0xFF00, bytestream_end := bytestream c\<rparr> else c)"

text \<open>The first loop walks along the states that a run of ones visits; the second fills the entries it missed.\<close>

definition rac_next_p :: "int \<Rightarrow> int \<Rightarrow> int" where
  "rac_next_p factor p = p + drop_bit 32 ((2 ^ 32 - p) * factor + 2 ^ 31)"

definition rac_p8 :: "int \<Rightarrow> int" where
  "rac_p8 p = drop_bit 32 (256 * p + 2 ^ 31)"

definition rac_walk :: "int \<Rightarrow> int \<Rightarrow> bytes \<times> int \<times> int \<Rightarrow> bytes \<times> int \<times> int" where
  "rac_walk factor max_p = (\<lambda>(one, p, last_p8).
     let p8 = rac_p8 p;
         p8 = if p8 \<le> last_p8 then last_p8 + 1 else p8;
         one = if last_p8 \<noteq> 0 \<and> last_p8 < 256 \<and> p8 \<le> max_p then one[nat last_p8 := word_of_int p8] else one
     in (one, rac_next_p factor p, p8))"

definition rac_fill :: "int \<Rightarrow> int \<Rightarrow> bytes \<Rightarrow> int \<Rightarrow> bytes" where
  "rac_fill factor max_p one i =
     (if one ! nat i \<noteq> 0 then one
      else let p = drop_bit 8 (i * 2 ^ 32 + 128);
               p8 = rac_p8 (rac_next_p factor p);
               p8 = if p8 \<le> i then i + 1 else p8;
               p8 = if p8 > max_p then max_p else p8
           in one[nat i := word_of_int p8])"

definition ff_build_rac_states :: "range_coder \<Rightarrow> int \<Rightarrow> int \<Rightarrow> range_coder" where
  "ff_build_rac_states c factor max_p =
     (let (one, p, last_p8) = (rac_walk factor max_p ^^ 128) (replicate 256 0, 2 ^ 31, 0);
          one = foldl (rac_fill factor max_p) one [256 - max_p .. max_p];
          zero = foldl (\<lambda>zero i. zero[i := word_of_int (256 - uint (one ! (256 - i)))]) (replicate 256 0) [1..<255]
      in c\<lparr>one_state := one, zero_state := zero\<rparr>)"

text \<open>\<open>*c->bytestream++ = b\<close>, and the loop that counts \<open>outstanding_count\<close> down.\<close>

definition rac_emit :: "range_coder \<Rightarrow> int \<Rightarrow> range_coder option" where
  "rac_emit c b =
     (if bytestream c < length (rc_mem c)
      then Some (c\<lparr>rc_mem := (rc_mem c)[bytestream c := word_of_int b], bytestream := bytestream c + 1\<rparr>) else None)"

primrec rac_emits :: "nat \<Rightarrow> int \<Rightarrow> range_coder \<Rightarrow> range_coder option" where
  "rac_emits 0 b c = Some c"
| "rac_emits (Suc n) b c = do { c \<leftarrow> rac_emit c b; rac_emits n b (c\<lparr>outstanding_count := n\<rparr>) }"

definition renorm_body :: "range_coder \<Rightarrow> range_coder option" where
  "renorm_body c = do {
     c \<leftarrow> (if outstanding_byte c < 0 then Some (c\<lparr>outstanding_byte := drop_bit 8 (rc_low c)\<rparr>)
          else if rc_low c \<le> 0xFF00 then do {
            c \<leftarrow> rac_emit c (outstanding_byte c);
            c \<leftarrow> rac_emits (outstanding_count c) 0xFF c;
            Some (c\<lparr>outstanding_byte := drop_bit 8 (rc_low c)\<rparr>) }
          else if rc_low c \<ge> 0x10000 then do {
            c \<leftarrow> rac_emit c (outstanding_byte c + 1);
            c \<leftarrow> rac_emits (outstanding_count c) 0x00 c;
            Some (c\<lparr>outstanding_byte := drop_bit 8 (rc_low c) AND 0xFF\<rparr>) }
          else Some (c\<lparr>outstanding_count := outstanding_count c + 1\<rparr>));
     Some (c\<lparr>rc_low := push_bit 8 (rc_low c AND 0xFF), rc_range := push_bit 8 (rc_range c)\<rparr>) }"

text \<open>With a range of zero the loop would not end before it leaves the buffer.\<close>

partial_function (option) renorm_encoder :: "range_coder \<Rightarrow> range_coder option" where
  "renorm_encoder c = (if rc_range c < 0x100 then do { c \<leftarrow> renorm_body c; renorm_encoder c } else Some c)"

declare renorm_encoder.simps [code]

definition put_rac :: "range_coder \<Rightarrow> bytes \<Rightarrow> nat \<Rightarrow> bool \<Rightarrow> (range_coder \<times> bytes) option" where
  "put_rac c state i b =
     (let range1 = drop_bit 8 (rc_range c * uint (state ! i));
          (c, state) =
            (if \<not> b
             then (c\<lparr>rc_range := rc_range c - range1\<rparr>, state[i := zero_state c ! unat (state ! i)])
             else (c\<lparr>rc_low := rc_low c + (rc_range c - range1), rc_range := range1\<rparr>,
                   state[i := one_state c ! unat (state ! i)]))
      in do { c \<leftarrow> renorm_encoder c; Some (c, state) })"

definition ff_rac_terminate :: "range_coder \<Rightarrow> int \<Rightarrow> (nat \<times> range_coder) option" where
  "ff_rac_terminate c version = do {
     c \<leftarrow> (if version = 1 then map_option fst (put_rac c [129] 0 False) else Some c);
     c \<leftarrow> renorm_encoder (c\<lparr>rc_range := 0xFF, rc_low := rc_low c + 0xFF\<rparr>);
     c \<leftarrow> renorm_encoder (c\<lparr>rc_range := 0xFF\<rparr>);
     Some (bytestream c, c) }"

definition rac_refill :: "range_coder \<Rightarrow> range_coder" where
  "rac_refill c =
     (if rc_range c < 0x100
      then let c = c\<lparr>rc_range := push_bit 8 (rc_range c), rc_low := push_bit 8 (rc_low c)\<rparr>
           in if bytestream c < bytestream_end c
              then c\<lparr>rc_low := rc_low c + uint (rc_mem c ! bytestream c), bytestream := bytestream c + 1\<rparr>
              else c\<lparr>overread := overread c + 1\<rparr>
      else c)"

definition get_rac :: "range_coder \<Rightarrow> bytes \<Rightarrow> nat \<Rightarrow> bool \<times> range_coder \<times> bytes" where
  "get_rac c state i =
     (let range1 = drop_bit 8 (rc_range c * uint (state ! i));
          c = c\<lparr>rc_range := rc_range c - range1\<rparr>
      in if rc_low c < rc_range c
         then (False, rac_refill c, state[i := zero_state c ! unat (state ! i)])
         else (True, rac_refill (c\<lparr>rc_low := rc_low c - rc_range c, rc_range := range1\<rparr>),
               state[i := one_state c ! unat (state ! i)]))"

definition ff_rac_check_termination :: "range_coder \<Rightarrow> int \<Rightarrow> averror option \<times> range_coder" where
  "ff_rac_check_termination c version =
     (if version = 1
      then let tmp = c;
               (_, c, _) = get_rac c [129] 0;
               tmp = (if bytestream c = bytestream tmp \<and> bytestream c > 0
                      then tmp\<lparr>bytestream := bytestream tmp - 1,
                               rc_low := rc_low tmp - uint (rc_mem tmp ! (bytestream tmp - 1))\<rparr> else tmp);
               tmp = tmp\<lparr>bytestream_end := bytestream tmp\<rparr>
           in if fst (get_rac tmp [129] 0) then (Some INVALIDDATA, c) else (None, c)
      else if bytestream_end c \<noteq> bytestream c then (Some INVALIDDATA, c) else (None, c))"

text \<open>A sequence of decisions, each with the state it adapts.\<close>

primrec rac_puts :: "range_coder \<Rightarrow> bytes \<Rightarrow> (nat \<times> bool) list \<Rightarrow> (range_coder \<times> bytes) option" where
  "rac_puts c st [] = Some (c, st)"
| "rac_puts c st (x # xs) = do { (c, st) \<leftarrow> put_rac c st (fst x) (snd x); rac_puts c st xs }"

primrec rac_gets :: "range_coder \<Rightarrow> bytes \<Rightarrow> nat list \<Rightarrow> bool list \<times> range_coder \<times> bytes" where
  "rac_gets c st [] = ([], c, st)"
| "rac_gets c st (i # is) =
     (let (b, c, st) = get_rac c st i; (bs, c, st) = rac_gets c st is in (b # bs, c, st))"

section \<open>What an encoder stands for\<close>

text \<open>Bytes as a number, highest first, and the bytes of a stream that a decoder has seen.\<close>

definition be_num :: "bytes \<Rightarrow> int" where
  "be_num bs = foldl (\<lambda>a b. 256 * a + uint b) 0 bs"

lemma be_num_simps [simp]: "be_num [] = 0" "be_num [b] = uint b" "be_num (bs @ [b]) = 256 * be_num bs + uint b"
  by (simp_all add: be_num_def)

lemma be_num_append: "be_num (a @ b) = be_num a * 256 ^ length b + be_num b"
proof (induction b rule: rev_induct)
  case (snoc x b)
  then show ?case by (simp del: append_assoc add: append_assoc [symmetric] algebra_simps)
qed simp

lemma be_num_Cons: "be_num (b # bs) = uint b * 256 ^ length bs + be_num bs"
  using be_num_append [of "[b]" bs] by simp

lemma be_num_carry: "be_num (replicate k 0xFF) + 1 = 256 ^ k" "be_num (replicate k 0) = 0"
proof -
  have r: "replicate (Suc n) x = replicate n x @ [x]" for n and x :: u8
    by (simp add: replicate_append_same)
  show "be_num (replicate k 0xFF) + 1 = 256 ^ k"
    by (induction k) (simp_all del: replicate_Suc add: r)
  show "be_num (replicate k 0) = 0"
    by (induction k) (simp_all del: replicate_Suc add: r)
qed

definition stream_num :: "(nat \<Rightarrow> u8) \<Rightarrow> nat \<Rightarrow> int" where
  "stream_num X n = be_num (map X [0..<n])"

lemma stream_num_Suc: "stream_num X (Suc n) = 256 * stream_num X n + uint (X n)"
  by (simp add: stream_num_def)

text \<open>The bytes an encoder has decided on: those written, the outstanding one, and the run of \<open>0xFF\<close> that a carry may
  still change. With \<open>low\<close> they are the lower end of the interval, as a number of \<open>rac_len + 2\<close> bytes.\<close>

definition rac_pend :: "range_coder \<Rightarrow> bytes" where
  "rac_pend c = take (bytestream c) (rc_mem c) @
     (if outstanding_byte c < 0 then [] else word_of_int (outstanding_byte c) # replicate (outstanding_count c) 0xFF)"

definition rac_len :: "range_coder \<Rightarrow> nat" where
  "rac_len c = bytestream c + (if outstanding_byte c < 0 then 0 else 1 + outstanding_count c)"

definition rac_value :: "range_coder \<Rightarrow> int" where
  "rac_value c = be_num (rac_pend c) * 65536 + rc_low c"

definition holds :: "(nat \<Rightarrow> u8) \<Rightarrow> range_coder \<Rightarrow> bool" where
  "holds X c \<longleftrightarrow> rac_value c \<le> stream_num X (rac_len c + 2) \<and> stream_num X (rac_len c + 2) < rac_value c + rc_range c"

text \<open>The conditions under which one turn of the renormalisation is right: the carry has room.\<close>

definition shift_ok :: "range_coder \<Rightarrow> bool" where
  "shift_ok c \<longleftrightarrow> rac_len c \<le> length (rc_mem c) \<and> - 1 \<le> outstanding_byte c \<and> outstanding_byte c \<le> 255 \<and>
     0 \<le> rc_low c \<and> rc_low c < 0x1FE00 \<and>
     (outstanding_byte c < 0 \<longrightarrow> bytestream c = 0 \<and> outstanding_count c = 0 \<and> rc_low c < 0xFF00) \<and>
     (outstanding_byte c = 255 \<longrightarrow> rc_low c < 0x10000)"

definition same_tables :: "range_coder \<Rightarrow> range_coder \<Rightarrow> bool" where
  "same_tables c d \<longleftrightarrow> zero_state d = zero_state c \<and> one_state d = one_state c"

lemma take_Suc_update: "n < length xs \<Longrightarrow> take (Suc n) (xs[n := x]) = take n xs @ [x]"
  by (simp add: take_Suc_conv_app_nth)

lemma rac_emits_eq:
  assumes "bytestream c + n \<le> length (rc_mem c)"
  shows "\<exists>m. rac_emits n b c = Some (c\<lparr>rc_mem := m, bytestream := bytestream c + n,
                outstanding_count := if n = 0 then outstanding_count c else 0\<rparr>) \<and>
             take (bytestream c + n) m = take (bytestream c) (rc_mem c) @ replicate n (word_of_int b) \<and>
             length m = length (rc_mem c)"
  using assms
proof (induction n arbitrary: c)
  case (Suc n)
  define c' where "c' = c\<lparr>rc_mem := (rc_mem c)[bytestream c := word_of_int b], bytestream := bytestream c + 1, outstanding_count := n\<rparr>"
  from Suc.prems have "bytestream c' + n \<le> length (rc_mem c')" by (simp add: c'_def)
  from Suc.IH [OF this] obtain m where
    m: "rac_emits n b c' = Some (c'\<lparr>rc_mem := m, bytestream := bytestream c' + n, outstanding_count := if n = 0 then outstanding_count c' else 0\<rparr>)"
       "take (bytestream c' + n) m = take (bytestream c') (rc_mem c') @ replicate n (word_of_int b)" "length m = length (rc_mem c')"
    by blast
  then show ?case
    using Suc.prems by (intro exI [of _ m]) (simp add: c'_def rac_emit_def take_Suc_update)
next
  case 0
  then show ?case by (intro exI [of _ "rc_mem c"]) simp
qed

text \<open>What the branches that write leave: the bytes written, and nothing else changed.\<close>

lemma rac_write:
  assumes "rac_len c \<le> length (rc_mem c)" "0 \<le> outstanding_byte c"
  shows "\<exists>m. (do { c \<leftarrow> rac_emit c b; rac_emits (outstanding_count c) f c }) =
               Some (c\<lparr>rc_mem := m, bytestream := rac_len c, outstanding_count := 0\<rparr>) \<and>
             take (rac_len c) m = take (bytestream c) (rc_mem c) @ word_of_int b # replicate (outstanding_count c) (word_of_int f) \<and>
             length m = length (rc_mem c)"
proof -
  define c' where "c' = c\<lparr>rc_mem := (rc_mem c)[bytestream c := word_of_int b], bytestream := bytestream c + 1\<rparr>"
  have "bytestream c' + outstanding_count c' \<le> length (rc_mem c')" using assms by (simp add: c'_def rac_len_def)
  from rac_emits_eq [OF this, of f] obtain m where
    m: "rac_emits (outstanding_count c') f c' =
          Some (c'\<lparr>rc_mem := m, bytestream := bytestream c' + outstanding_count c',
                   outstanding_count := if outstanding_count c' = 0 then outstanding_count c' else 0\<rparr>)"
       "take (bytestream c' + outstanding_count c') m = take (bytestream c') (rc_mem c') @ replicate (outstanding_count c') (word_of_int f)"
       "length m = length (rc_mem c')"
    by blast
  then show ?thesis
    using assms by (intro exI [of _ m]) (simp add: c'_def rac_emit_def rac_len_def take_Suc_update)
qed

lemma and_FF_mod: "x AND 0xFF = x mod 256" for x :: int
  using take_bit_eq_mask [of 8 x] by (simp add: mask_eq_exp_minus_1 take_bit_eq_mod)

lemma low_byte_mod: "push_bit 8 (x AND 0xFF) = 256 * (x mod 256)" for x :: int
  by (simp add: and_FF_mod push_bit_eq_mult)

lemma shl_mult: "push_bit 8 x = 256 * x" for x :: int
  by (simp add: push_bit_eq_mult)

lemma shr_div: "drop_bit 8 x = x div 256" for x :: int
  by (simp add: drop_bit_eq_div)

lemma uint_byte: "0 \<le> x \<Longrightarrow> x \<le> 255 \<Longrightarrow> uint (word_of_int x :: u8) = x"
  by (simp add: uint_word_of_int)

text \<open>One turn: the value gets one byte more, and nothing is lost.\<close>

definition shifted :: "range_coder \<Rightarrow> range_coder \<Rightarrow> bool" where
  "shifted c c' \<longleftrightarrow> rac_value c' = 256 * rac_value c \<and> rac_len c' = rac_len c + 1 \<and>
    rc_low c' = 256 * (rc_low c mod 256) \<and> rc_range c' = 256 * rc_range c \<and> same_tables c c' \<and>
    0 \<le> outstanding_byte c' \<and> outstanding_byte c' \<le> 255 \<and>
    (outstanding_byte c' = 255 \<longrightarrow> rc_low c = 0xFF00 \<or> (outstanding_byte c = 255 \<and> 0xFF00 < rc_low c)) \<and>
    length (rc_mem c') = length (rc_mem c) \<and> (0 \<le> outstanding_byte c \<and> rc_low c \<le> 0xFF00 \<longrightarrow> outstanding_count c' = 0)"

lemma value_shift:
  "q' = 256 * q + d \<Longrightarrow> l' = 256 * m \<Longrightarrow> 256 * d + m = l \<Longrightarrow> q' * 65536 + l' = 256 * (q * 65536 + l)"
  for q q' d m l l' :: int
  by simp

lemma mod_carry: "256 \<le> k \<Longrightarrow> k \<le> 511 \<Longrightarrow> k mod 256 = k - 256" for k :: int
  using minus_mod_self2 [of k 256] mod_pos_pos_trivial [of "k - 256" 256] by simp

lemma shiftedI:
  assumes "be_num (rac_pend c') = 256 * be_num (rac_pend c) + rc_low c div 256" "rac_len c' = rac_len c + 1"
    "rc_low c' = 256 * (rc_low c mod 256)" "rc_range c' = 256 * rc_range c" "same_tables c c'"
    "0 \<le> outstanding_byte c'" "outstanding_byte c' \<le> 255"
    "outstanding_byte c' = 255 \<longrightarrow> rc_low c = 0xFF00 \<or> (outstanding_byte c = 255 \<and> 0xFF00 < rc_low c)"
    "length (rc_mem c') = length (rc_mem c)"
    "0 \<le> outstanding_byte c \<and> rc_low c \<le> 0xFF00 \<longrightarrow> outstanding_count c' = 0"
  shows "shifted c c'"
proof -
  have "rac_value c' = 256 * rac_value c"
    unfolding rac_value_def by (rule value_shift [OF assms(1,3) mult_div_mod_eq])
  then show ?thesis using assms by (simp add: shifted_def)
qed

lemma renorm_body_eq:
  "renorm_body c = do {
     c \<leftarrow> (if outstanding_byte c < 0 then Some (c\<lparr>outstanding_byte := rc_low c div 256\<rparr>)
          else if rc_low c \<le> 0xFF00 then
            do { c \<leftarrow> do { c \<leftarrow> rac_emit c (outstanding_byte c); rac_emits (outstanding_count c) 0xFF c };
                 Some (c\<lparr>outstanding_byte := rc_low c div 256\<rparr>) }
          else if rc_low c \<ge> 0x10000 then
            do { c \<leftarrow> do { c \<leftarrow> rac_emit c (outstanding_byte c + 1); rac_emits (outstanding_count c) 0x00 c };
                 Some (c\<lparr>outstanding_byte := (rc_low c div 256) mod 256\<rparr>) }
          else Some (c\<lparr>outstanding_count := outstanding_count c + 1\<rparr>));
     Some (c\<lparr>rc_low := 256 * (rc_low c mod 256), rc_range := 256 * rc_range c\<rparr>) }"
  unfolding renorm_body_def low_byte_mod shl_mult shr_div and_FF_mod
  by (simp add: bind_assoc rac_emit_def)

lemma renorm_body_shift:
  assumes "shift_ok c"
  shows "\<exists>c'. renorm_body c = Some c' \<and> shifted c c'"
proof -
  note s = assms [unfolded shift_ok_def]
  let ?l = "rc_low c"
  have l: "0 \<le> ?l div 256" "?l div 256 \<le> 0x1FD" using s by auto
  consider "outstanding_byte c < 0" | "0 \<le> outstanding_byte c" "?l \<le> 0xFF00"
    | "0 \<le> outstanding_byte c" "0x10000 \<le> ?l" | "0 \<le> outstanding_byte c" "0xFF00 < ?l" "?l < 0x10000" by linarith
  then show ?thesis
  proof cases
    case 1
    then have ll: "?l div 256 \<le> 254" using s by auto
    let ?c = "c\<lparr>outstanding_byte := ?l div 256, rc_low := 256 * (?l mod 256), rc_range := 256 * rc_range c\<rparr>"
    have "renorm_body c = Some ?c" using 1 by (simp add: renorm_body_eq)
    moreover have "shifted c ?c"
      by (rule shiftedI) (use 1 ll l s in \<open>simp_all add: rac_pend_def rac_len_def same_tables_def uint_byte\<close>)
    ultimately show ?thesis by blast
  next
    case 2
    obtain m where m: "(do { c \<leftarrow> rac_emit c (outstanding_byte c); rac_emits (outstanding_count c) 0xFF c }) =
        Some (c\<lparr>rc_mem := m, bytestream := rac_len c, outstanding_count := 0\<rparr>)"
      "take (rac_len c) m = rac_pend c" "length m = length (rc_mem c)"
      using rac_write [of c "outstanding_byte c" "0xFF"] s 2 by (auto simp: rac_pend_def)
    have ll: "?l div 256 \<le> 255" "?l div 256 = 255 \<longrightarrow> ?l = 0xFF00" using 2 by auto
    let ?c = "c\<lparr>rc_mem := m, bytestream := rac_len c, outstanding_count := 0, outstanding_byte := ?l div 256,
      rc_low := 256 * (?l mod 256), rc_range := 256 * rc_range c\<rparr>"
    have e: "renorm_body c = Some ?c" using 2 unfolding renorm_body_eq m(1) by simp
    have "rac_pend ?c = rac_pend c @ [word_of_int (?l div 256)]" using l m by (simp add: rac_pend_def [of ?c])
    then have "shifted c ?c"
      by (intro shiftedI) (use 2 ll l m(3) in \<open>simp_all add: rac_len_def [of ?c] same_tables_def uint_byte\<close>)
    then show ?thesis using e by blast
  next
    case 3
    obtain m where m: "(do { c \<leftarrow> rac_emit c (outstanding_byte c + 1); rac_emits (outstanding_count c) 0x00 c }) =
        Some (c\<lparr>rc_mem := m, bytestream := rac_len c, outstanding_count := 0\<rparr>)"
      "take (rac_len c) m = take (bytestream c) (rc_mem c) @ word_of_int (outstanding_byte c + 1) # replicate (outstanding_count c) 0x00"
      "length m = length (rc_mem c)"
      using rac_write [of c "outstanding_byte c + 1" "0x00"] s 3 by auto
    have ll: "?l div 256 - 256 \<le> 253" "0 \<le> ?l div 256 - 256" "outstanding_byte c \<le> 254" using 3 s by auto
    then have md: "(?l div 256) mod 256 = ?l div 256 - 256" by (intro mod_carry) auto
    let ?c = "c\<lparr>rc_mem := m, bytestream := rac_len c, outstanding_count := 0, outstanding_byte := ?l div 256 - 256,
      rc_low := 256 * (?l mod 256), rc_range := 256 * rc_range c\<rparr>"
    have e: "renorm_body c = Some ?c" using 3 md unfolding renorm_body_eq m(1) by simp
    have "rac_pend ?c = take (bytestream c) (rc_mem c) @ (word_of_int (outstanding_byte c + 1) # replicate (outstanding_count c) 0x00)
        @ [word_of_int (?l div 256 - 256)]" using ll md m by (simp add: rac_pend_def [of ?c])
    then have "be_num (rac_pend ?c) = 256 * be_num (rac_pend c) + ?l div 256"
      using ll 3 be_num_carry(1) [of "outstanding_count c", THEN eq_diff_eq [THEN iffD2]] be_num_carry(2) [of "outstanding_count c"]
        uint_byte [of "outstanding_byte c"] uint_byte [of "outstanding_byte c + 1"] uint_byte [of "?l div 256 - 256"]
      by (simp add: rac_pend_def [of c] be_num_Cons be_num_append algebra_simps)
    then have "shifted c ?c"
      by (intro shiftedI) (use 3 ll l md m(3) in \<open>simp_all add: rac_len_def [of ?c] same_tables_def uint_byte\<close>)
    then show ?thesis using e by blast
  next
    case 4
    let ?c = "c\<lparr>outstanding_count := outstanding_count c + 1, rc_low := 256 * (?l mod 256), rc_range := 256 * rc_range c\<rparr>"
    have "renorm_body c = Some ?c" using 4 by (simp add: renorm_body_eq)
    moreover have "rac_pend ?c = rac_pend c @ [0xFF]" using 4 by (simp add: rac_pend_def replicate_append_same)
    moreover have "?l div 256 = 255" using 4 by auto
    ultimately have "shifted c ?c" 
      by (intro shiftedI) (use 4 s in \<open>simp_all add: rac_len_def same_tables_def\<close>)
    then show ?thesis using \<open>renorm_body c = Some ?c\<close> by blast
  qed
qed

section \<open>One decision\<close>

text \<open>The invariant of the encoder; between a decision and the renormalisation the range may be small.\<close>

definition pre_ok :: "range_coder \<Rightarrow> bool" where
  "pre_ok c \<longleftrightarrow> - 1 \<le> outstanding_byte c \<and> outstanding_byte c \<le> 255 \<and> 0 \<le> rc_low c \<and> 1 \<le> rc_range c \<and>
     rc_range c \<le> 0xFF00 \<and> rc_low c + rc_range c \<le> 0x1FE00 \<and>
     (outstanding_byte c < 0 \<longrightarrow> bytestream c = 0 \<and> outstanding_count c = 0 \<and> rc_low c + rc_range c \<le> 0xFF00) \<and>
     (outstanding_byte c = 255 \<longrightarrow> rc_low c + rc_range c \<le> 0x10000)"

definition enc_ok :: "range_coder \<Rightarrow> bool" where
  "enc_ok c \<longleftrightarrow> pre_ok c \<and> 0x100 \<le> rc_range c"

text \<open>A decoder in step with an encoder: it has read the first \<open>rac_len c + 2\<close> bytes of the stream \<open>X\<close>, which its
  buffer gives up to the byte \<open>N + 2\<close>, zeros after its end.\<close>

definition dec_sync :: "(nat \<Rightarrow> u8) \<Rightarrow> nat \<Rightarrow> range_coder \<Rightarrow> range_coder \<Rightarrow> bool" where
  "dec_sync X N c d \<longleftrightarrow> rc_range d = rc_range c \<and> rc_low d = stream_num X (rac_len c + 2) - rac_value c \<and> same_tables c d \<and>
     (bytestream d = rac_len c + 2 \<or> bytestream_end d \<le> bytestream d \<and> bytestream d \<le> rac_len c + 2) \<and>
     2 \<le> bytestream d \<and> bytestream d \<le> max 2 (bytestream_end d) \<and>
     (\<forall>k. rac_len c + 2 \<le> k \<and> k < N + 2 \<longrightarrow> X k = (if k < bytestream_end d then rc_mem d ! k else 0))"

text \<open>\<open>after c c'\<close>: what a piece of code that writes leaves of the encoder; \<open>room c k\<close>: \<open>k\<close> more bytes fit.\<close>

definition after :: "nat \<Rightarrow> range_coder \<Rightarrow> range_coder \<Rightarrow> bool" where
  "after k c c' \<longleftrightarrow> enc_ok c' \<and> same_tables c c' \<and> rac_len c \<le> rac_len c' \<and> rac_len c' \<le> rac_len c + k \<and>
     length (rc_mem c') = length (rc_mem c) \<and> (\<forall>X. holds X c' \<longrightarrow> holds X c)"

definition room :: "range_coder \<Rightarrow> nat \<Rightarrow> bool" where
  "room c k \<longleftrightarrow> rac_len c + k \<le> length (rc_mem c)"

lemma same_tables_refl [simp]: "same_tables c c"
  and same_tables_trans: "same_tables a b \<Longrightarrow> same_tables b c \<Longrightarrow> same_tables a c"
  by (simp_all add: same_tables_def)

lemma u8_range: "0 \<le> uint (x :: u8)" "uint (x :: u8) \<le> 255" "x \<noteq> 0 \<Longrightarrow> 1 \<le> uint x"
proof -
  show "0 \<le> uint x" by simp
  show "uint x \<le> 255" using uint_lt2p [of x] by simp
  show "x \<noteq> 0 \<Longrightarrow> 1 \<le> uint x" using unsigned_eq_0_iff [of x, where ?'a = int] unsigned_greater_eq [of x, where ?'a = int] by linarith
qed

lemma interval_back: "256 * v \<le> 256 * s + x \<Longrightarrow> 256 * s + x < 256 * v + 256 * r \<Longrightarrow> 0 \<le> x \<Longrightarrow> x \<le> 255 \<Longrightarrow> v \<le> s \<and> s < v + r"
  for v s x r :: int
  by linarith

lemma stream_num_shifted:
  "rac_len c' = rac_len c + 1 \<Longrightarrow>
   stream_num X (rac_len c' + 2) = 256 * stream_num X (rac_len c + 2) + uint (X (rac_len c + 2))"
  using stream_num_Suc [of X "rac_len c + 2"] by simp

lemma holds_shifted:
  assumes s: "shifted c c'" and h: "holds X c'"
  shows "holds X c"
proof -
  have "rac_len c' = rac_len c + 1" "rac_value c' = 256 * rac_value c" "rc_range c' = 256 * rc_range c"
    using s by (simp_all add: shifted_def)
  then show ?thesis
    using h stream_num_shifted [of c' c X] u8_range(1,2) [of "X (rac_len c + 2)"] unfolding holds_def
    by (intro interval_back) simp_all
qed

lemma shift_ok_pre: "pre_ok c \<Longrightarrow> rac_len c \<le> length (rc_mem c) \<Longrightarrow> shift_ok c"
  by (auto simp: pre_ok_def shift_ok_def)

lemma pre_ok_shifted:
  assumes c: "pre_ok c" and s: "shifted c c'" and r: "rc_range c < 0x100"
  shows "enc_ok c'"
proof -
  define m where "m = rc_low c mod 256"
  have m: "0 \<le> m" "m \<le> 255" by (simp_all add: m_def)
  have f: "rc_low c = 0xFF00 \<Longrightarrow> m = 0" by (simp add: m_def)
  have g: "m + rc_range c \<le> 256" if "outstanding_byte c = 255" "0xFF00 < rc_low c"
  proof -
    have b: "rc_low c + rc_range c \<le> 0x10000" "1 \<le> rc_range c" using c that by (auto simp: pre_ok_def)
    then have "m = rc_low c - 0xFF00"
      using that mod_pos_pos_trivial [of "rc_low c - 0xFF00" 256] mod_mult_self2 [of "rc_low c - 0xFF00" 256 255]
      by (simp add: m_def)
    then show ?thesis using b by simp
  qed
  have s': "rc_low c' = 256 * m" "rc_range c' = 256 * rc_range c" "0 \<le> outstanding_byte c'" "outstanding_byte c' \<le> 255"
    "outstanding_byte c' = 255 \<Longrightarrow> rc_low c = 0xFF00 \<or> outstanding_byte c = 255 \<and> 0xFF00 < rc_low c"
    using s by (simp_all add: shifted_def m_def)
  have r1: "1 \<le> rc_range c" using c by (simp add: pre_ok_def)
  have "rc_low c' + rc_range c' \<le> 0x10000" if "outstanding_byte c' = 255"
    using s'(5) [OF that] s'(1,2) f g r r1 by auto
  then show ?thesis
    using s'(1-4) m r r1 unfolding enc_ok_def pre_ok_def by auto
qed

lemma refill_shifted:
  assumes s: "shifted c c'" and y: "dec_sync X N c d" and r: "rc_range c < 0x100" and n: "rac_len c' \<le> N"
  shows "dec_sync X N c' (rac_refill d)"
proof -
  let ?n = "rac_len c + 2"
  have e: "rac_len c' = rac_len c + 1" "rac_value c' = 256 * rac_value c" "rc_range c' = 256 * rc_range c" "same_tables c c'"
    using s by (simp_all add: shifted_def)
  have x: "X ?n = (if ?n < bytestream_end d then rc_mem d ! ?n else 0)"
    using y n e by (simp add: dec_sync_def)
  have low: "rc_low d = stream_num X ?n - rac_value c" "rc_range d = rc_range c" using y by (simp_all add: dec_sync_def)
  have "rc_low (rac_refill d) = 256 * rc_low d + uint (X ?n) \<and> rc_range (rac_refill d) = 256 * rc_range d \<and>
      zero_state (rac_refill d) = zero_state d \<and> one_state (rac_refill d) = one_state d \<and>
      rc_mem (rac_refill d) = rc_mem d \<and> bytestream_end (rac_refill d) = bytestream_end d \<and>
      (bytestream (rac_refill d) = ?n + 1 \<or> bytestream_end d \<le> bytestream (rac_refill d) \<and> bytestream (rac_refill d) \<le> ?n + 1) \<and>
      2 \<le> bytestream (rac_refill d) \<and> bytestream (rac_refill d) \<le> max 2 (bytestream_end d)"
    using y r x unfolding dec_sync_def rac_refill_def shl_mult Let_def by auto
  then show ?thesis
    using y e low stream_num_shifted [of c' c X] unfolding dec_sync_def same_tables_def by simp
qed

lemma renorm_none: "0x100 \<le> rc_range c \<Longrightarrow> renorm_encoder c = Some c"
  by (simp add: renorm_encoder.simps)

lemma renorm_once:
  assumes "shift_ok c" "rc_range c < 0x100" "1 \<le> rc_range c"
  obtains c' where "renorm_encoder c = Some c'" "shifted c c'"
proof -
  obtain c' where c': "renorm_body c = Some c'" "shifted c c'" using renorm_body_shift [OF assms(1)] by blast
  then have "renorm_encoder c' = Some c'" using assms by (intro renorm_none) (simp add: shifted_def)
  then show thesis using c' assms by (intro that [of c']) (simp_all add: renorm_encoder.simps [of c])
qed

lemma renorm_sync:
  assumes c: "pre_ok c" and "rac_len c \<le> length (rc_mem c)"
  obtains c' where "renorm_encoder c = Some c'" "after 1 c c'"
    "\<forall>X N d. dec_sync X N c d \<and> rac_len c' \<le> N \<longrightarrow> dec_sync X N c' (rac_refill d)"
proof (cases "rc_range c < 0x100")
  case True
  obtain c' where c': "renorm_encoder c = Some c'" "shifted c c'"
    using renorm_once [OF shift_ok_pre [OF assms] True] c by (auto simp: pre_ok_def)
  show thesis
    using c' pre_ok_shifted [OF c c'(2) True] holds_shifted [OF c'(2)] refill_shifted [OF c'(2) _ True]
    by (intro that [of c']) (auto simp: after_def shifted_def)
next
  case False
  then show thesis
    using c by (intro that [of c]) (auto simp: renorm_none after_def enc_ok_def dec_sync_def rac_refill_def)
qed

text \<open>The tables keep the states between \<open>lo\<close> and \<open>hi\<close>.\<close>

definition states_ok :: "nat \<Rightarrow> nat \<Rightarrow> bytes \<Rightarrow> bool" where
  "states_ok lo hi st \<longleftrightarrow> (\<forall>s \<in> set st. lo \<le> unat s \<and> unat s \<le> hi)"

definition tables_ok :: "nat \<Rightarrow> nat \<Rightarrow> range_coder \<Rightarrow> bool" where
  "tables_ok lo hi c \<longleftrightarrow> 0 < lo \<and> (\<forall>s. lo \<le> s \<and> s \<le> hi \<longrightarrow>
     lo \<le> unat (zero_state c ! s) \<and> unat (zero_state c ! s) \<le> hi \<and> lo \<le> unat (one_state c ! s) \<and> unat (one_state c ! s) \<le> hi)"

lemma states_ok_update: "states_ok lo hi st \<Longrightarrow> lo \<le> unat s \<Longrightarrow> unat s \<le> hi \<Longrightarrow> states_ok lo hi (st[i := s])"
  by (auto simp: states_ok_def dest!: set_update_subset_insert [THEN subsetD])

lemma range1_bounds:
  assumes "256 \<le> r" "(s :: u8) \<noteq> 0"
  shows "1 \<le> r * uint s div 256 \<and> r * uint s div 256 < r"
proof -
  note s = u8_range(3) [OF assms(2)] u8_range(2) [of s]
  have "256 * 1 \<le> r * uint s" using assms(1) s by (intro mult_mono) auto
  moreover have "r * uint s \<le> r * 255" using assms(1) s by (intro mult_left_mono) auto
  ultimately show ?thesis using assms(1) unfolding zdiv_less_iff [of 256, simplified] le_zdiv_iff [of 256, simplified] by linarith
qed

lemma put_get_rac:
  assumes c: "enc_ok c" and t: "tables_ok lo hi c" and st: "states_ok lo hi st" and i: "i < length st" and r: "room c 1"
  obtains c' st' where "put_rac c st i b = Some (c', st')" "after 1 c c'" "states_ok lo hi st'" "length st' = length st"
    "\<And>X N d. holds X c' \<Longrightarrow> dec_sync X N c d \<Longrightarrow> rac_len c' \<le> N \<Longrightarrow> \<exists>d'. get_rac d st i = (b, d', st') \<and> dec_sync X N c' d'"
proof -
  let ?r1 = "rc_range c * uint (st ! i) div 256"
  define c1 where "c1 = (if b then c\<lparr>rc_low := rc_low c + (rc_range c - ?r1), rc_range := ?r1\<rparr> else c\<lparr>rc_range := rc_range c - ?r1\<rparr>)"
  define st' where "st' = st[i := (if b then one_state c else zero_state c) ! unat (st ! i)]"
  have s: "lo \<le> unat (st ! i)" "unat (st ! i) \<le> hi" using st i by (auto simp: states_ok_def)
  have "0 < lo" using t unfolding tables_ok_def by blast
  with s(1) have nz: "st ! i \<noteq> 0" by auto
  have "256 \<le> rc_range c" using c by (simp add: enc_ok_def)
  note r1 = range1_bounds [OF this nz]
  have p: "pre_ok c1" using c r1 by (auto simp: c1_def enc_ok_def pre_ok_def)
  have same: "rac_len c1 = rac_len c" "rc_mem c1 = rc_mem c" "same_tables c c1"
    "rac_value c1 = rac_value c + (if b then rc_range c - ?r1 else 0)"
    "rc_range c1 = (if b then ?r1 else rc_range c - ?r1)"
    by (simp_all add: c1_def rac_len_def rac_value_def rac_pend_def same_tables_def)
  have l1: "rac_len c1 \<le> length (rc_mem c1)" using r same by (simp add: room_def)
  obtain c' where c': "renorm_encoder c1 = Some c'" "after 1 c1 c'"
    "\<forall>X N d. dec_sync X N c1 d \<and> rac_len c' \<le> N \<longrightarrow> dec_sync X N c' (rac_refill d)"
    using renorm_sync [OF p l1] by blast
  have h: "holds X c1 \<Longrightarrow> holds X c" for X using r1 unfolding holds_def same by (cases b) auto
  show thesis
  proof (rule that [of c' st'])
    show "put_rac c st i b = Some (c', st')" using c'(1) by (simp add: put_rac_def shr_div c1_def st'_def split: if_splits)
    show "after 1 c c'" using c'(2) h same by (auto simp: after_def same_tables_def)
    show "states_ok lo hi st'" using s t st unfolding st'_def tables_ok_def by (intro states_ok_update) auto
    show "length st' = length st" by (simp add: st'_def)
    fix X N d assume a: "holds X c'" "dec_sync X N c d" "rac_len c' \<le> N"
    define d1 where "d1 = (if b then d\<lparr>rc_low := rc_low d - (rc_range c - ?r1), rc_range := ?r1\<rparr> else d\<lparr>rc_range := rc_range c - ?r1\<rparr>)"
    have x: "holds X c1" using a(1) c'(2) by (simp add: after_def)
    then have b: "b \<longleftrightarrow> \<not> rc_low d < rc_range c - ?r1" using a(2) unfolding holds_def dec_sync_def same by (cases b) auto
    have dd: "rc_range d = rc_range c" "zero_state d = zero_state c" "one_state d = one_state c"
      using a(2) by (simp_all add: dec_sync_def same_tables_def)
    have "dec_sync X N c1 d1" using a(2) unfolding dec_sync_def same by (simp add: d1_def c1_def same_tables_def)
    moreover have "get_rac d st i = (b, rac_refill d1, st')"
      using b dd by (simp add: get_rac_def shr_div d1_def st'_def Let_def)
    ultimately show "\<exists>d'. get_rac d st i = (b, d', st') \<and> dec_sync X N c' d'" using c'(3) a(3) by blast
  qed
qed

section \<open>Code that writes and code that reads it\<close>

text \<open>\<open>codes lo hi P k enc dec v\<close>: with \<open>k\<close> bytes of room \<open>enc\<close> writes what \<open>dec\<close> reads back as \<open>v\<close>, and both leave the same
  state, which keeps \<open>P\<close>. The rules below put such pairs together.\<close>

definition codes :: "nat \<Rightarrow> nat \<Rightarrow> ('s \<Rightarrow> bool) \<Rightarrow> nat \<Rightarrow> (range_coder \<Rightarrow> 's \<Rightarrow> (range_coder \<times> 's) option) \<Rightarrow>
    (range_coder \<Rightarrow> 's \<Rightarrow> 'a \<times> range_coder \<times> 's) \<Rightarrow> 'a \<Rightarrow> bool" where
  "codes lo hi P k enc dec v \<longleftrightarrow> (\<forall>c s. enc_ok c \<and> tables_ok lo hi c \<and> P s \<and> room c k \<longrightarrow>
     (\<exists>c' s'. enc c s = Some (c', s') \<and> after k c c' \<and> P s' \<and>
       (\<forall>X N d. holds X c' \<and> dec_sync X N c d \<and> rac_len c' \<le> N \<longrightarrow> (\<exists>d'. dec d s = (v, d', s') \<and> dec_sync X N c' d'))))"

abbreviation array_ok :: "nat \<Rightarrow> nat \<Rightarrow> nat \<Rightarrow> bytes \<Rightarrow> bool" where
  "array_ok lo hi n st \<equiv> states_ok lo hi st \<and> length st = n"

lemma codesE:
  assumes "codes lo hi P k enc dec v" "enc_ok c" "tables_ok lo hi c" "P s" "room c k"
  obtains c' s' where "enc c s = Some (c', s')" "after k c c'" "P s'"
    "\<forall>X N d. holds X c' \<and> dec_sync X N c d \<and> rac_len c' \<le> N \<longrightarrow> (\<exists>d'. dec d s = (v, d', s') \<and> dec_sync X N c' d')"
  using assms unfolding codes_def by blast

lemma tables_ok_same: "same_tables c c' \<Longrightarrow> tables_ok lo hi c' = tables_ok lo hi c"
  by (simp add: same_tables_def tables_ok_def)

lemma after_trans: "after k a b \<Longrightarrow> after l b c \<Longrightarrow> after (k + l) a c"
  by (auto simp: after_def intro: same_tables_trans)

lemma room_after: "room c (k + l) \<Longrightarrow> after k c c' \<Longrightarrow> room c' l"
  by (simp add: room_def after_def)

lemma codes_put: "i < n \<Longrightarrow> codes lo hi (array_ok lo hi n) 1 (\<lambda>c st. put_rac c st i b) (\<lambda>d st. get_rac d st i) b"
  unfolding codes_def
proof (intro allI impI, elim conjE)
  fix c st assume a: "i < n" "enc_ok c" "tables_ok lo hi c" "states_ok lo hi st" "length st = n" "room c 1"
  obtain c' st' where "put_rac c st i b = Some (c', st')" "after 1 c c'" "states_ok lo hi st'" "length st' = length st"
    "\<And>X N d. holds X c' \<Longrightarrow> dec_sync X N c d \<Longrightarrow> rac_len c' \<le> N \<Longrightarrow> \<exists>d'. get_rac d st i = (b, d', st') \<and> dec_sync X N c' d'"
    using put_get_rac [of c lo hi st i b] a by blast
  then show "\<exists>c' s'. put_rac c st i b = Some (c', s') \<and> after 1 c c' \<and> (states_ok lo hi s' \<and> length s' = n) \<and>
      (\<forall>X N d. holds X c' \<and> dec_sync X N c d \<and> rac_len c' \<le> N \<longrightarrow> (\<exists>d'. get_rac d st i = (b, d', s') \<and> dec_sync X N c' d'))"
    using a by blast
qed

lemma codes_return: "codes lo hi P 0 (\<lambda>c s. Some (c, s)) (\<lambda>d s. (v, d, s)) v"
  by (auto simp: codes_def after_def)

lemma codes_bind:
  assumes 1: "codes lo hi P k enc dec v" and 2: "codes lo hi P l enc' (dec' v) w"
  shows "codes lo hi P (k + l) (\<lambda>c s. enc c s \<bind> (\<lambda>(c, s). enc' c s)) (\<lambda>d s. case dec d s of (x, d, s) \<Rightarrow> dec' x d s) w"
  unfolding codes_def
proof (intro allI impI, elim conjE)
  fix c s assume a: "enc_ok c" "tables_ok lo hi c" "P s" "room c (k + l)"
  then have "room c k" by (simp add: room_def)
  obtain c1 s1 where c1: "enc c s = Some (c1, s1)" "after k c c1" "P s1"
    "\<forall>X N d. holds X c1 \<and> dec_sync X N c d \<and> rac_len c1 \<le> N \<longrightarrow> (\<exists>d'. dec d s = (v, d', s1) \<and> dec_sync X N c1 d')"
    by (rule codesE [OF 1 a(1-3) \<open>room c k\<close>]) blast
  have b: "enc_ok c1" "tables_ok lo hi c1" using c1(2) a(2) tables_ok_same by (auto simp: after_def)
  obtain c2 s2 where c2: "enc' c1 s1 = Some (c2, s2)" "after l c1 c2" "P s2"
    "\<forall>X N d. holds X c2 \<and> dec_sync X N c1 d \<and> rac_len c2 \<le> N \<longrightarrow> (\<exists>d'. dec' v d s1 = (w, d', s2) \<and> dec_sync X N c2 d')"
    by (rule codesE [OF 2 b c1(3) room_after [OF a(4) c1(2)]]) blast
  have "\<exists>d'. (case dec d s of (x, d, s) \<Rightarrow> dec' x d s) = (w, d', s2) \<and> dec_sync X N c2 d'"
    if h: "holds X c2" "dec_sync X N c d" "rac_len c2 \<le> N" for X N d
  proof -
    have "holds X c1" "rac_len c1 \<le> N" using c2(2) h by (auto simp: after_def)
    then obtain d1 where d1: "dec d s = (v, d1, s1)" "dec_sync X N c1 d1" using c1(4) h(2) by blast
    moreover obtain d2 where "dec' v d1 s1 = (w, d2, s2)" "dec_sync X N c2 d2" using c2(4) h(1,3) d1(2) by blast
    ultimately show ?thesis by simp
  qed
  then show "\<exists>c' s'. enc c s \<bind> (\<lambda>(c, s). enc' c s) = Some (c', s') \<and> after (k + l) c c' \<and> P s' \<and>
      (\<forall>X N d. holds X c' \<and> dec_sync X N c d \<and> rac_len c' \<le> N \<longrightarrow>
        (\<exists>d'. (case dec d s of (x, d, s) \<Rightarrow> dec' x d s) = (w, d', s') \<and> dec_sync X N c' d'))"
    using c1(1) c2 after_trans [OF c1(2) c2(2)] by auto
qed

lemma codes_mono:
  assumes "codes lo hi P k enc dec v" "k \<le> l"
  shows "codes lo hi P l enc dec v"
  unfolding codes_def
proof (intro allI impI, elim conjE)
  fix c s assume a: "enc_ok c" "tables_ok lo hi c" "P s" "room c l"
  then have "room c k" using assms(2) by (simp add: room_def)
  then show "\<exists>c' s'. enc c s = Some (c', s') \<and> after l c c' \<and> P s' \<and>
       (\<forall>X N d. holds X c' \<and> dec_sync X N c d \<and> rac_len c' \<le> N \<longrightarrow> (\<exists>d'. dec d s = (v, d', s') \<and> dec_sync X N c' d'))"
    using a assms(2) by (elim codesE [OF assms(1) a(1-3)]) (force simp: after_def)
qed

lemma codes_puts:
  "\<forall>x \<in> set xs. fst x < n \<Longrightarrow>
   codes lo hi (array_ok lo hi n) (length xs) (\<lambda>c st. rac_puts c st xs) (\<lambda>d st. rac_gets d st (map fst xs)) (map snd xs)"
proof (induction xs)
  case Nil
  show ?case using codes_return [of lo hi "array_ok lo hi n" "[]"] by simp
next
  case (Cons x xs)
  have "codes lo hi (array_ok lo hi n) (1 + (length xs + 0)) (\<lambda>c st. put_rac c st (fst x) (snd x) \<bind> (\<lambda>(c, st). rac_puts c st xs \<bind> (\<lambda>(c, st). Some (c, st))))
      (\<lambda>d st. case get_rac d st (fst x) of (b, d, st) \<Rightarrow> case rac_gets d st (map fst xs) of (bs, d, st) \<Rightarrow> (b # bs, d, st)) (snd x # map snd xs)"
    using Cons by (intro codes_bind [OF codes_put] codes_bind [OF Cons.IH] codes_return) auto
  then show ?case by (simp add: Let_def)
qed

section \<open>The state tables\<close>

text \<open>An entry is above the state it belongs to, unless the state is the largest; and 64-bit integers are enough.\<close>

definition row_ok :: "int \<Rightarrow> bytes \<Rightarrow> nat \<Rightarrow> bool" where
  "row_ok max_p one s \<longleftrightarrow> uint (one ! s) \<le> max_p \<and> int s \<le> uint (one ! s) \<and> (int s < max_p \<longrightarrow> int s < uint (one ! s))"

definition walk_ok :: "int \<Rightarrow> bytes \<Rightarrow> bool" where
  "walk_ok max_p one \<longleftrightarrow> length one = 256 \<and> (\<forall>s < 256. one ! s = 0 \<or> row_ok max_p one s)"

lemma rac_next_p_range:
  assumes "0 \<le> factor" "factor < 2 ^ 31" "0 \<le> p" "p \<le> 2 ^ 32"
  shows "is_s64 ((2 ^ 32 - p) * factor + 2 ^ 31) \<and> p \<le> rac_next_p factor p \<and> rac_next_p factor p \<le> 2 ^ 32 \<and>
    is_s64 (256 * p + 2 ^ 31)"
proof -
  let ?d = "(2 ^ 32 - p) * factor"
  have "0 \<le> ?d" using assms by simp
  moreover have d: "?d \<le> (2 ^ 32 - p) * (2 ^ 31 - 1)" using assms by (intro mult_left_mono) simp_all
  moreover have "(?d + 2 ^ 31) div 2 ^ 32 < 2 ^ 32 - p + 1" unfolding zdiv_less_iff [of "2 ^ 32", simplified] using d assms by simp
  moreover have "0 \<le> (?d + 2 ^ 31) div 2 ^ 32" using \<open>0 \<le> ?d\<close> by simp
  ultimately show ?thesis using assms by (simp add: rac_next_p_def drop_bit_eq_div is_s64_def)
qed

lemma walk_ok_update:
  assumes "walk_ok max_p one" "0 \<le> s" "s < v" "v \<le> max_p" "max_p \<le> 255"
  shows "walk_ok max_p (one[nat s := word_of_int v])"
proof -
  have "uint (word_of_int v :: u8) = v" using assms by (intro uint_byte) auto
  then show ?thesis using assms by (auto simp: walk_ok_def row_ok_def nth_list_update)
qed

lemma rac_walk_ok:
  assumes "max_p \<le> 255"
  shows "case (rac_walk factor max_p ^^ n) (replicate 256 0, p, 0) of (one, p, last_p8) \<Rightarrow> walk_ok max_p one \<and> 0 \<le> last_p8"
proof (induction n)
  case (Suc n)
  obtain one p' l where e: "(rac_walk factor max_p ^^ n) (replicate 256 0, p, 0) = (one, p', l)" by (metis prod_cases3)
  define p8 where "p8 = (if rac_p8 p' \<le> l then l + 1 else rac_p8 p')"
  have "walk_ok max_p one" "0 \<le> l" "l < p8" using Suc e by (auto simp: p8_def)
  then show ?case
    using walk_ok_update [of max_p one l p8] assms e by (simp add: rac_walk_def Let_def flip: p8_def)
qed (simp add: walk_ok_def)

lemma rac_fill_ok:
  assumes "walk_ok max_p one" "1 \<le> i" "i \<le> max_p" "max_p \<le> 255"
  shows "walk_ok max_p (rac_fill factor max_p one i) \<and> rac_fill factor max_p one i ! nat i \<noteq> 0 \<and>
    (\<forall>j < 256. one ! j \<noteq> 0 \<longrightarrow> rac_fill factor max_p one i ! j \<noteq> 0)"
proof (cases "one ! nat i = 0")
  case True
  define q where "q = rac_p8 (rac_next_p factor (drop_bit 8 (i * 2 ^ 32 + 128)))"
  define v where "v = min max_p (max q (i + 1))"
  have f: "rac_fill factor max_p one i = one[nat i := word_of_int v]"
    using True assms by (simp add: rac_fill_def Let_def v_def q_def)
  have v: "i \<le> v" "v \<le> max_p" "i < max_p \<Longrightarrow> i < v" using assms by (auto simp: v_def)
  have u: "uint (word_of_int v :: u8) = v" using assms v by (intro uint_byte) auto
  then have "(word_of_int v :: u8) \<noteq> 0" using assms v by auto
  then show ?thesis using u v assms by (auto simp: f walk_ok_def row_ok_def nth_list_update)
qed (use assms in \<open>simp add: rac_fill_def\<close>)

lemma rac_fills_ok:
  assumes "walk_ok max_p one" "\<forall>i \<in> set is. 1 \<le> i \<and> i \<le> max_p" "max_p \<le> 255"
  shows "walk_ok max_p (foldl (rac_fill factor max_p) one is) \<and>
    (\<forall>j < 256. one ! j \<noteq> 0 \<or> int j \<in> set is \<longrightarrow> foldl (rac_fill factor max_p) one is ! j \<noteq> 0)"
  using assms
proof (induction "is" arbitrary: one)
  case (Cons i "is")
  have f: "walk_ok max_p (rac_fill factor max_p one i)" "rac_fill factor max_p one i ! nat i \<noteq> 0"
    "\<forall>j < 256. one ! j \<noteq> 0 \<longrightarrow> rac_fill factor max_p one i ! j \<noteq> 0"
    using rac_fill_ok [of max_p one i factor] Cons.prems by auto
  from Cons.IH [OF f(1)] Cons.prems f(2,3) show ?case by auto
qed simp

lemma foldl_set_range:
  "length (foldl (\<lambda>xs i. xs[i := f i]) xs is) = length xs"
  "i < length xs \<Longrightarrow> foldl (\<lambda>xs i. xs[i := f i]) xs is ! i = (if i \<in> set is then f i else xs ! i)"
proof -
  show "length (foldl (\<lambda>xs i. xs[i := f i]) xs is) = length xs" for xs
    by (induction "is" arbitrary: xs) simp_all
  show "i < length xs \<Longrightarrow> foldl (\<lambda>xs i. xs[i := f i]) xs is ! i = (if i \<in> set is then f i else xs ! i)"
    by (induction "is" arbitrary: xs) (auto simp: nth_list_update)
qed

lemma build_rac_states:
  fixes c factor
  assumes "128 \<le> max_p" "max_p \<le> 255"
  defines "c' \<equiv> ff_build_rac_states c factor max_p"
  shows "length (one_state c') = 256" "length (zero_state c') = 256" "zero_state c' ! 255 = 0"
    "\<And>s. 256 - max_p \<le> int s \<Longrightarrow> int s \<le> max_p \<Longrightarrow> row_ok max_p (one_state c') s"
    "\<And>s. 1 \<le> s \<Longrightarrow> s < 255 \<Longrightarrow> zero_state c' ! s = word_of_int (256 - uint (one_state c' ! (256 - s)))"
proof -
  obtain one p l where e: "(rac_walk factor max_p ^^ 128) (replicate 256 0, 2 ^ 31, 0) = (one, p, l)" by (metis prod_cases3)
  define one' where "one' = foldl (rac_fill factor max_p) one [256 - max_p .. max_p]"
  define zero' :: bytes where "zero' = foldl (\<lambda>zero i. zero[i := word_of_int (256 - uint (one' ! (256 - i)))]) (replicate 256 0) [1..<255]"
  have "c' = c\<lparr>one_state := one', zero_state := zero'\<rparr>"
    by (simp only: c'_def ff_build_rac_states_def e prod.case one'_def zero'_def Let_def)
  then have c': "one_state c' = one'" "zero_state c' = zero'" by simp_all
  note c' = c' [unfolded zero'_def]
  have "walk_ok max_p one" using rac_walk_ok [OF assms(2), where factor = factor and n = 128 and p = "2 ^ 31"] e by simp
  then have w: "walk_ok max_p one'" "\<forall>j < 256. int j \<in> set [256 - max_p .. max_p] \<longrightarrow> one' ! j \<noteq> 0"
    using rac_fills_ok [of max_p one "[256 - max_p .. max_p]" factor] assms unfolding one'_def by auto
  show "length (one_state c') = 256" using w by (simp add: c' walk_ok_def)
  show "length (zero_state c') = 256" unfolding c' foldl_set_range by simp
  show "zero_state c' ! 255 = 0" unfolding c' by (subst foldl_set_range(2)) simp_all
  show "row_ok max_p (one_state c') s" if "256 - max_p \<le> int s" "int s \<le> max_p" for s
  proof -
    have "s < 256" using that assms(2) by simp
    then show ?thesis using w that by (auto simp: c' walk_ok_def)
  qed
  show "zero_state c' ! s = word_of_int (256 - uint (one_state c' ! (256 - s)))" if "1 \<le> s" "s < 255" for s
    unfolding c' by (subst foldl_set_range(2)) (use that in simp_all)
qed

lemma build_rac_states_zero:
  fixes c factor
  assumes "128 \<le> max_p" "max_p \<le> 255" "256 - max_p \<le> int s" "int s \<le> max_p" "s < 255"
  defines "c' \<equiv> ff_build_rac_states c factor max_p"
  shows "uint (zero_state c' ! s) = 256 - uint (one_state c' ! (256 - s))"
    "256 - max_p \<le> uint (zero_state c' ! s)" "uint (zero_state c' ! s) \<le> int s"
proof -
  have r: "row_ok max_p (one_state c') (256 - s)"
    using build_rac_states(4) [of max_p "256 - s" c factor] assms by (simp add: c'_def of_nat_diff)
  then have b: "0 \<le> 256 - uint (one_state c' ! (256 - s))" "256 - uint (one_state c' ! (256 - s)) \<le> 255"
    using assms by (auto simp: row_ok_def of_nat_diff)
  have "zero_state c' ! s = word_of_int (256 - uint (one_state c' ! (256 - s)))"
    using build_rac_states(5) [of max_p s c factor] assms unfolding c'_def by simp
  then show z: "uint (zero_state c' ! s) = 256 - uint (one_state c' ! (256 - s))"
    by (simp only: uint_byte [OF b])
  show "256 - max_p \<le> uint (zero_state c' ! s)" "uint (zero_state c' ! s) \<le> int s"
    using r assms unfolding z by (auto simp: row_ok_def of_nat_diff)
qed

lemma build_rac_states_ok:
  assumes "128 \<le> max_p" "max_p \<le> 254"
  shows "tables_ok (nat (256 - max_p)) (nat max_p) (ff_build_rac_states c factor max_p)"
  unfolding tables_ok_def
proof (intro conjI allI impI; (elim conjE)?)
  show "0 < nat (256 - max_p)" using assms by simp
  fix s assume "nat (256 - max_p) \<le> s" "s \<le> nat max_p"
  then have s: "256 - max_p \<le> int s" "int s \<le> max_p" "s < 255" using assms by auto
  let ?c = "ff_build_rac_states c factor max_p"
  have "row_ok max_p (one_state ?c) s" using build_rac_states(4) [of max_p s c factor] assms s by simp
  then show "nat (256 - max_p) \<le> unat (one_state ?c ! s)" "unat (one_state ?c ! s) \<le> nat max_p"
    using s by (simp_all add: row_ok_def nat_le_iff le_nat_iff)
  show "nat (256 - max_p) \<le> unat (zero_state ?c ! s)" "unat (zero_state ?c ! s) \<le> nat max_p"
    using build_rac_states_zero(2,3) [of max_p s c factor] assms s by (simp_all add: nat_le_iff le_nat_iff)
qed

section \<open>Whole messages\<close>

lemma build_rac_states_frame: "\<exists>one zero. ff_build_rac_states c factor max_p = c\<lparr>one_state := one, zero_state := zero\<rparr>"
  unfolding ff_build_rac_states_def Let_def
  by (cases "(rac_walk factor max_p ^^ 128) (replicate 256 0, 2 ^ 31, 0)") (simp only: prod.case, blast)

lemma build_rac_states_fields:
  fixes c factor max_p
  defines "c' \<equiv> ff_build_rac_states c factor max_p"
  shows "rc_low c' = rc_low c" "rc_range c' = rc_range c" "outstanding_count c' = outstanding_count c"
    "outstanding_byte c' = outstanding_byte c" "rc_mem c' = rc_mem c" "bytestream c' = bytestream c"
    "bytestream_end c' = bytestream_end c"
  using build_rac_states_frame [of c factor max_p] by (auto simp: c'_def)

lemma encoder_start:
  fixes e buf buf_size factor max_p
  defines "c \<equiv> ff_build_rac_states (ff_init_range_encoder e buf buf_size) factor max_p"
  shows "enc_ok c" "rac_len c = 0" "rac_value c = 0" "rc_mem c = buf" "rc_range c = 0xFF00"
  unfolding c_def enc_ok_def pre_ok_def rac_len_def rac_value_def rac_pend_def build_rac_states_fields
  by (simp_all add: ff_init_range_encoder_def)

text \<open>What a decoder sees of a buffer: its first two bytes are read in any case, zeros follow the end.\<close>

definition seen :: "bytes \<Rightarrow> nat \<Rightarrow> nat \<Rightarrow> u8" where
  "seen buf n k = (if k < max 2 n then buf ! k else 0)"

lemma shl_or_bytes: "push_bit 8 (uint a) OR uint b = 256 * uint a + uint (b :: u8)"
proof -
  have "take_bit 8 (uint b) = uint b" using u8_range [of b] by (simp add: take_bit_int_eq_self)
  then show ?thesis
    using concat_bit_eq [of 8 "uint b" "uint a"] concat_bit_def [of 8 "uint b" "uint a"]
    by (simp add: or.commute push_bit_eq_mult)
qed

lemma seen_two: "stream_num (seen buf n) 2 = 256 * uint (buf ! 0) + uint (buf ! 1)"
  by (simp add: numeral_2_eq_2 stream_num_Suc) (simp add: stream_num_def seen_def less_max_iff_disj)

lemma decoder_start:
  assumes "holds (seen buf n) (ff_build_rac_states (ff_init_range_encoder e mem m) factor max_p)"
  shows "dec_sync (seen buf n) N (ff_build_rac_states (ff_init_range_encoder e mem m) factor max_p)
    (ff_build_rac_states (ff_init_range_decoder f buf n) factor max_p)"
proof -
  let ?c = "ff_build_rac_states (ff_init_range_encoder e mem m) factor max_p"
  have l: "stream_num (seen buf n) 2 < 0xFF00" using assms by (simp add: holds_def encoder_start numeral_2_eq_2)
  obtain one p l where w: "(rac_walk factor max_p ^^ 128) (replicate 256 0, 2 ^ 31, 0) = (one, p, l)" by (metis prod_cases3)
  have t: "same_tables ?c (ff_build_rac_states (ff_init_range_decoder f buf n) factor max_p)"
    unfolding same_tables_def ff_build_rac_states_def w Let_def prod.case by simp
  show ?thesis
    unfolding dec_sync_def build_rac_states_fields
    using l t
    apply (simp add: encoder_start numeral_2_eq_2)
    apply (simp flip: numeral_2_eq_2 add: seen_two ff_init_range_decoder_def ff_init_range_encoder_def shl_or_bytes)
    apply (auto simp: seen_def less_max_iff_disj)
    done
qed

lemma decoder_start_end:
  assumes "holds (seen buf n) (ff_build_rac_states (ff_init_range_encoder e mem m) factor max_p)"
  shows "bytestream_end (ff_build_rac_states (ff_init_range_decoder f buf n) factor max_p) = n"
proof -
  have "stream_num (seen buf n) 2 < 0xFF00" using assms by (simp add: holds_def encoder_start numeral_2_eq_2)
  then show ?thesis unfolding build_rac_states_fields
    by (simp add: seen_two ff_init_range_decoder_def ff_init_range_encoder_def shl_or_bytes)
qed

text \<open>The end of a message: the written bytes are the value of the encoder, rounded up to a whole byte.\<close>

lemma terminate_steps:
  assumes c: "enc_ok c" and r: "room c 1"
  obtains c1 c2 where "renorm_encoder (c\<lparr>rc_range := 0xFF, rc_low := rc_low c + 0xFF\<rparr>) = Some c1"
    "renorm_encoder (c1\<lparr>rc_range := 0xFF\<rparr>) = Some c2" "bytestream c2 = rac_len c + 1"
    "rac_value c \<le> 256 * be_num (take (rac_len c + 1) (rc_mem c2))"
    "256 * be_num (take (rac_len c + 1) (rc_mem c2)) \<le> rac_value c + 255"
    "length (rc_mem c2) = length (rc_mem c)" "rc_low c2 = 0" "0x100 \<le> rc_range c2"
proof -
  let ?a = "c\<lparr>rc_range := 0xFF, rc_low := rc_low c + 0xFF\<rparr>"
  have la: "rac_len ?a = rac_len c" and va: "rac_value ?a = rac_value c + 255"
    by (simp_all add: rac_len_def rac_value_def rac_pend_def)
  have "shift_ok ?a" using c r unfolding shift_ok_def la by (auto simp: enc_ok_def pre_ok_def room_def)
  then obtain c1 where c1: "renorm_encoder ?a = Some c1" "shifted ?a c1"
    by (rule renorm_once) simp_all
  let ?b = "c1\<lparr>rc_range := 0xFF\<rparr>"
  have lb: "rac_len ?b = rac_len c1" and vb: "rac_value ?b = rac_value c1"
    by (simp_all add: rac_len_def rac_value_def rac_pend_def)
  have b: "rac_len ?b = rac_len c + 1" "rac_value ?b = 256 * (rac_value c + 255)" "rc_low ?b = 256 * ((rc_low c + 255) mod 256)"
    "0 \<le> outstanding_byte ?b" "outstanding_byte ?b \<le> 255" "length (rc_mem ?b) = length (rc_mem c)"
    using c1(2) unfolding lb vb by (simp_all add: shifted_def la va)
  have "0 \<le> (rc_low c + 255) mod 256" "(rc_low c + 255) mod 256 \<le> 255" by simp_all
  then have lb: "0 \<le> rc_low ?b" "rc_low ?b \<le> 0xFF00" using b(3) by linarith+
  have "shift_ok ?b" unfolding shift_ok_def using b(1,4-6) lb r by (simp add: room_def)
  then obtain c2 where c2: "renorm_encoder ?b = Some c2" "shifted ?b c2"
    by (rule renorm_once) simp_all
  have low: "rc_low c2 = 0" using c2(2) unfolding shifted_def b(3) by simp
  have count: "outstanding_count c2 = 0" "0 \<le> outstanding_byte c2" "outstanding_byte c2 \<le> 255"
    using c2(2) b(4) lb unfolding shifted_def by blast+
  have len: "rac_len c2 = rac_len c + 2" using c2(2) b(1) by (simp add: shifted_def)
  then have bs: "bytestream c2 = rac_len c + 1" using count by (simp add: rac_len_def [of c2])
  have "rac_value c2 = 256 * (256 * (rac_value c + 255))" using c2(2) b(2) unfolding shifted_def by simp
  then have "be_num (rac_pend c2) = rac_value c + 255" using low by (simp add: rac_value_def)
  moreover have "rac_pend c2 = take (rac_len c + 1) (rc_mem c2) @ [word_of_int (outstanding_byte c2)]"
    using count bs by (simp add: rac_pend_def)
  ultimately have v: "256 * be_num (take (rac_len c + 1) (rc_mem c2)) + outstanding_byte c2 = rac_value c + 255"
    using uint_byte [OF count(2,3)] by simp
  have "rc_range c2 = 256 * 255" using c2(2) by (simp add: shifted_def)
  then show thesis
    using c1(1) c2 bs v count b(6) low by (intro that [of c1 c2]) (auto simp: shifted_def)
qed

text \<open>\<open>ended c version n F\<close>: a message that stops at \<open>c\<close> may be ended by the \<open>n\<close> bytes \<open>F\<close>.\<close>

abbreviation zero_range :: "range_coder \<Rightarrow> int" where
  "zero_range c \<equiv> rc_range c - rc_range c * 129 div 256"

definition ended :: "range_coder \<Rightarrow> int \<Rightarrow> nat \<Rightarrow> bytes \<Rightarrow> bool" where
  "ended c version n F \<longleftrightarrow> length F = n \<and>
     (if version = 1 \<and> zero_range c < 0x100 then n = rac_len c + 2 \<and> be_num F = rac_value c
      else n = rac_len c + 1 \<and> rac_value c \<le> 256 * be_num F \<and> 256 * be_num F \<le> rac_value c + 255)"

lemma half_bound: "129 * r \<le> 256 * q + 255 \<Longrightarrow> 256 \<le> r \<Longrightarrow> r \<le> 2 * q" for r q :: int
  by linarith

lemma zero_range_bounds:
  assumes "0x100 \<le> rc_range c"
  shows "1 \<le> zero_range c" "zero_range c \<le> rc_range c * 129 div 256" "2 * zero_range c \<le> rc_range c"
proof -
  define q where "q = rc_range c * 129 div 256"
  have q: "256 * q \<le> 129 * rc_range c" "129 * rc_range c \<le> 256 * q + 255"
    using mult_div_mod_eq [of 256 "rc_range c * 129"] pos_mod_bound [of 256 "rc_range c * 129"]
      pos_mod_sign [of 256 "rc_range c * 129"] by (simp_all add: q_def)
  have z: "zero_range c = rc_range c - q" by (simp add: q_def)
  show "1 \<le> zero_range c" unfolding z using q assms by linarith
  have "rc_range c \<le> 2 * q" using q(2) assms by (rule half_bound)
  then show "2 * zero_range c \<le> rc_range c" "zero_range c \<le> rc_range c * 129 div 256" unfolding z by (simp_all add: q_def)
qed

lemma put_129: "put_rac c [129] 0 False =
    map_option (\<lambda>c'. (c', [zero_state c ! 129])) (renorm_encoder (c\<lparr>rc_range := zero_range c\<rparr>))"
  by (cases "renorm_encoder (c\<lparr>rc_range := zero_range c\<rparr>)") (simp_all add: put_rac_def shr_div)

lemma terminate_after_put:
  assumes c1: "(if version = 1 then map_option fst (put_rac c [129] 0 False) else Some c) = Some c1"
    and ok: "enc_ok c1" "room c1 1"
  obtains c' where "ff_rac_terminate c version = Some (rac_len c1 + 1, c')" "length (rc_mem c') = length (rc_mem c1)"
    "length (take (rac_len c1 + 1) (rc_mem c')) = rac_len c1 + 1"
    "rac_value c1 \<le> 256 * be_num (take (rac_len c1 + 1) (rc_mem c'))"
    "256 * be_num (take (rac_len c1 + 1) (rc_mem c')) \<le> rac_value c1 + 255"
proof -
  obtain a b where t: "renorm_encoder (c1\<lparr>rc_range := 0xFF, rc_low := rc_low c1 + 0xFF\<rparr>) = Some a"
    "renorm_encoder (a\<lparr>rc_range := 0xFF\<rparr>) = Some b" "bytestream b = rac_len c1 + 1"
    "rac_value c1 \<le> 256 * be_num (take (rac_len c1 + 1) (rc_mem b))"
    "256 * be_num (take (rac_len c1 + 1) (rc_mem b)) \<le> rac_value c1 + 255" "length (rc_mem b) = length (rc_mem c1)"
    by (rule terminate_steps [OF ok])
  have "ff_rac_terminate c version = Some (rac_len c1 + 1, b)"
    unfolding ff_rac_terminate_def c1 by (simp add: t(1-3))
  moreover have "length (take (rac_len c1 + 1) (rc_mem b)) = rac_len c1 + 1" using t(6) ok(2) by (simp add: room_def)
  ultimately show thesis using t(4-6) by (intro that [of b])
qed

lemma rac_terminate_ended:
  assumes c: "enc_ok c" and r: "room c 2" and v: "version = 0 \<or> version = 1"
  obtains n c' where "ff_rac_terminate c version = Some (n, c')" "ended c version n (take n (rc_mem c'))"
    "n \<le> rac_len c + 1 + nat version" "length (rc_mem c') = length (rc_mem c)"
proof -
  let ?c = "c\<lparr>rc_range := zero_range c\<rparr>"
  have same: "rac_len ?c = rac_len c" "rac_value ?c = rac_value c" by (simp_all add: rac_len_def rac_value_def rac_pend_def)
  have ge: "0x100 \<le> rc_range c" using c by (simp add: enc_ok_def)
  note z = zero_range_bounds [OF ge]
  have "zero_range c \<le> rc_range c" using z ge by linarith
  then have p: "pre_ok ?c" using c z(1) by (auto simp: enc_ok_def pre_ok_def)
  have "\<exists>c1. (if version = 1 then map_option fst (put_rac c [129] 0 False) else Some c) = Some c1 \<and> enc_ok c1 \<and> room c1 1 \<and>
      length (rc_mem c1) = length (rc_mem c) \<and> rac_len c1 \<le> rac_len c + nat version \<and>
      (if version = 1 \<and> zero_range c < 0x100 then rac_len c1 = rac_len c + 1 \<and> rac_value c1 = 256 * rac_value c
       else rac_len c1 = rac_len c \<and> rac_value c1 = rac_value c)"
  proof -
    consider "version = 0" | "version = 1" "\<not> zero_range c < 0x100" | "version = 1" "zero_range c < 0x100" using v by linarith
    then show ?thesis
    proof cases
      case 1
      then show ?thesis using c r by (intro exI [of _ c]) (simp add: room_def)
    next
      case 2
      then have "map_option fst (put_rac c [129] 0 False) = Some ?c" by (simp add: put_129 renorm_none)
      moreover have "enc_ok ?c" using p 2 by (simp add: enc_ok_def)
      moreover have "room ?c 1" using r same by (simp add: room_def)
      ultimately show ?thesis using 2 same by (intro exI [of _ ?c]) simp
    next
      case 3
      have "rac_len ?c \<le> length (rc_mem ?c)" using r same by (simp add: room_def)
      then have "shift_ok ?c" by (rule shift_ok_pre [OF p])
      then obtain c1 where c1: "renorm_encoder ?c = Some c1" "shifted ?c c1"
        by (rule renorm_once) (use 3 z(1) in simp_all)
      have "map_option fst (put_rac c [129] 0 False) = Some c1" by (simp add: put_129 c1(1))
      moreover have "enc_ok c1" using pre_ok_shifted [OF p c1(2)] 3 by simp
      moreover have "rac_len c1 = rac_len c + 1" "rac_value c1 = 256 * rac_value c" "length (rc_mem c1) = length (rc_mem c)"
        using c1(2) same by (simp_all add: shifted_def)
      moreover from this have "room c1 1" using r by (simp add: room_def)
      ultimately show ?thesis using 3 by (intro exI [of _ c1]) simp
    qed
  qed
  then obtain c1 where c1: "(if version = 1 then map_option fst (put_rac c [129] 0 False) else Some c) = Some c1"
    "enc_ok c1" "room c1 1" "length (rc_mem c1) = length (rc_mem c)" "rac_len c1 \<le> rac_len c + nat version"
    "if version = 1 \<and> zero_range c < 0x100 then rac_len c1 = rac_len c + 1 \<and> rac_value c1 = 256 * rac_value c
     else rac_len c1 = rac_len c \<and> rac_value c1 = rac_value c" by blast
  obtain c' where c': "ff_rac_terminate c version = Some (rac_len c1 + 1, c')" "length (rc_mem c') = length (rc_mem c1)"
    "length (take (rac_len c1 + 1) (rc_mem c')) = rac_len c1 + 1"
    "rac_value c1 \<le> 256 * be_num (take (rac_len c1 + 1) (rc_mem c'))"
    "256 * be_num (take (rac_len c1 + 1) (rc_mem c')) \<le> rac_value c1 + 255"
    by (rule terminate_after_put [OF c1(1-3)])
  have "ended c version (rac_len c1 + 1) (take (rac_len c1 + 1) (rc_mem c'))"
  proof (cases "version = 1 \<and> zero_range c < 0x100")
    case True
    then have "rac_len c1 = rac_len c + 1" "rac_value c1 = 256 * rac_value c" using c1(6) by simp_all
    then show ?thesis unfolding ended_def using True c'(3-5) by simp
  next
    case False
    then have "rac_len c1 = rac_len c" "rac_value c1 = rac_value c" using c1(6) by (simp_all split: if_splits)
    then show ?thesis unfolding ended_def if_not_P [OF False] using c'(3-5) by simp
  qed
  then show thesis using c'(1,2) c1(4,5) by (intro that [of "rac_len c1 + 1" c']) simp_all
qed

text \<open>The end is inside the interval whatever follows it, for version 0 if that is a zero byte.\<close>

lemma ended_holds:
  assumes c: "enc_ok c" and e: "ended c version n F" and x: "map X [0..<n] = F" and v: "version = 1 \<or> version = 0 \<and> X n = 0"
  shows "holds X c"
proof (cases "version = 1 \<and> zero_range c < 0x100")
  case True
  then have "stream_num X (rac_len c + 2) = rac_value c" using e x by (simp add: ended_def stream_num_def)
  then show ?thesis using c by (simp add: holds_def enc_ok_def)
next
  case False
  then have n: "n = rac_len c + 1" "rac_value c \<le> 256 * be_num F" "256 * be_num F \<le> rac_value c + 255"
    using e unfolding ended_def by auto
  then have s: "stream_num X (rac_len c + 2) = 256 * be_num F + uint (X n)"
    using x stream_num_Suc [of X n] by (simp add: stream_num_def)
  have "256 \<le> rc_range c" using c by (simp add: enc_ok_def)
  then have "256 * be_num F + uint (X n) < rac_value c + rc_range c"
    using v False n(3) u8_range(2) [of "X n"] zero_range_bounds(3) [of c] by auto
  then show ?thesis unfolding holds_def s using add_increasing2 [OF u8_range(1) n(2)] by blast
qed

text \<open>The check for the end of a message accepts what \<open>ff_rac_terminate\<close> wrote.\<close>

lemma check_termination_low:
  assumes "get_rac d [129] 0 = (b, d', s)"
    and "(if bytestream d' = bytestream d \<and> 0 < bytestream d' then rc_low d - uint (rc_mem d ! (bytestream d - 1)) else rc_low d) < zero_range d"
  shows "ff_rac_check_termination d 1 = (None, d')"
proof -
  define t where "t = (if bytestream d' = bytestream d \<and> 0 < bytestream d'
    then d\<lparr>bytestream := bytestream d - 1, rc_low := rc_low d - uint (rc_mem d ! (bytestream d - 1))\<rparr> else d)"
  define t' where "t' = t\<lparr>bytestream_end := bytestream t\<rparr>"
  have "rc_range t' = rc_range d" by (simp add: t'_def t_def)
  moreover have "rc_low t' = (if bytestream d' = bytestream d \<and> 0 < bytestream d' then rc_low d - uint (rc_mem d ! (bytestream d - 1)) else rc_low d)"
    by (simp add: t'_def t_def)
  then have "rc_low t' < zero_range d" using assms(2) by (simp only:)
  ultimately have "\<not> fst (get_rac t' [129] 0)" by (simp add: get_rac_def shr_div)
  moreover have "ff_rac_check_termination d 1 = (if fst (get_rac t' [129] 0) then (Some INVALIDDATA, d') else (None, d'))"
    unfolding ff_rac_check_termination_def assms(1) t'_def t_def Let_def by simp
  ultimately show ?thesis by simp
qed

lemma check_termination_1:
  assumes c: "enc_ok c" and e: "ended c 1 n F" and x: "map X [0..<n] = F"
    and d: "dec_sync X N c d" and X: "X = seen (rc_mem d) (bytestream_end d)"
  shows "\<exists>d'. ff_rac_check_termination d 1 = (None, d') \<and> (n < bytestream_end d \<longrightarrow> bytestream d' = n + 1)"
proof -
  let ?n = "rac_len c + 2"
  have r: "rc_range d = rc_range c" and low: "rc_low d = stream_num X ?n - rac_value c"
    and bs: "bytestream d = ?n \<or> bytestream_end d \<le> bytestream d \<and> bytestream d \<le> ?n" "bytestream d \<le> max 2 (bytestream_end d)"
      "2 \<le> bytestream d"
    using d by (simp_all add: dec_sync_def)
  have ge: "256 \<le> rc_range c" using c by (simp add: enc_ok_def)
  note z = zero_range_bounds [of c, OF ge]
  obtain b d' s where g: "get_rac d [129] 0 = (b, d', s)" by (metis prod_cases3)
  show ?thesis
  proof (cases "zero_range c < 0x100")
    case True
    then have n: "n = ?n" "stream_num X ?n = rac_value c" using e x by (simp_all add: ended_def stream_num_def)
    then have l: "rc_low d = 0" using low by simp
    then have d': "d' = rac_refill (d\<lparr>rc_range := zero_range c\<rparr>)" using g z(1) r by (simp add: get_rac_def shr_div)
    have "rc_low d - uint (rc_mem d ! (bytestream d - 1)) < zero_range d"
      using l z(1) r u8_range(1) [of "rc_mem d ! (bytestream d - 1)"] by linarith
    then have "ff_rac_check_termination d 1 = (None, d')"
      using l z(1) r by (intro check_termination_low [OF g]) simp
    moreover have "n < bytestream_end d \<Longrightarrow> bytestream d' = n + 1"
      using True bs(1) n(1) unfolding d' rac_refill_def Let_def by auto
    ultimately show ?thesis by blast
  next
    case False
    then have n: "n = rac_len c + 1" "256 * be_num F \<le> rac_value c + 255" using e unfolding ended_def by auto
    then have s: "stream_num X ?n = 256 * be_num F + uint (X n)"
      using x stream_num_Suc [of X n] by (simp add: stream_num_def)
    have d': "bytestream d' = bytestream d"
      using g False z(2) r by (auto simp: get_rac_def shr_div Let_def rac_refill_def split: if_splits)
    have "rc_low d - uint (rc_mem d ! (bytestream d - 1)) \<le> 255"
    proof (cases "bytestream d = ?n")
      case True
      then have "rc_mem d ! (bytestream d - 1) = X n" using bs n by (simp add: X seen_def)
      then show ?thesis using low s n(2) by simp
    next
      case False
      then have "\<not> n < max 2 (bytestream_end d)" using bs n(1) by auto
      then have "X n = 0" by (simp add: X seen_def)
      then show ?thesis using low s n(2) u8_range(1) [of "rc_mem d ! (bytestream d - 1)"] \<open>X n = 0\<close>
        by (simp only: unsigned_0)
    qed
    moreover have "0 < bytestream d" using d by (simp add: dec_sync_def)
    ultimately have "ff_rac_check_termination d 1 = (None, d')"
      using False by (intro check_termination_low [OF g]) (simp add: d' r)
    moreover have "n < bytestream_end d \<Longrightarrow> bytestream d' = n + 1" using d' bs(1) n by auto
    ultimately show ?thesis by blast
  qed
qed

section \<open>A decoder on any input\<close>

definition dec_ok :: "range_coder \<Rightarrow> bool" where
  "dec_ok d \<longleftrightarrow> 0 \<le> rc_low d \<and> rc_low d \<le> rc_range d \<and> 0x100 \<le> rc_range d \<and> rc_range d \<le> 0xFF00 \<and>
     (rc_low d = rc_range d \<longrightarrow> bytestream_end d \<le> bytestream d) \<and> bytestream d \<le> max 2 (bytestream_end d)"

lemma dec_ok_start:
  "dec_ok (ff_build_rac_states (ff_init_range_decoder f buf n) factor max_p)"
  "bytestream (ff_build_rac_states (ff_init_range_decoder f buf n) factor max_p) = 2"
  "bytestream_end (ff_build_rac_states (ff_init_range_decoder f buf n) factor max_p) \<le> max 2 n"
  "rc_mem (ff_build_rac_states (ff_init_range_decoder f buf n) factor max_p) = buf"
  unfolding dec_ok_def build_rac_states_fields
  by (auto simp: ff_init_range_decoder_def ff_init_range_encoder_def Let_def shl_or_bytes)

lemma dec_ok_refill:
  assumes "0 \<le> rc_low d" "rc_low d \<le> rc_range d" "1 \<le> rc_range d" "rc_range d \<le> 0xFF00"
    "rc_low d = rc_range d \<longrightarrow> bytestream_end d \<le> bytestream d" "bytestream d \<le> max 2 (bytestream_end d)"
  shows "dec_ok (rac_refill d) \<and> bytestream (rac_refill d) \<le> bytestream d + 1 \<and>
    bytestream_end (rac_refill d) = bytestream_end d \<and> rc_mem (rac_refill d) = rc_mem d \<and> same_tables d (rac_refill d)"
proof -
  have "256 * rc_low d + uint (rc_mem d ! bytestream d) < 256 * rc_range d" if "bytestream d < bytestream_end d"
    using that assms(2,5) u8_range(2) [of "rc_mem d ! bytestream d"] by auto
  then show ?thesis using assms u8_range(1) [of "rc_mem d ! bytestream d"]
    by (auto simp: rac_refill_def dec_ok_def shl_mult same_tables_def Let_def)
qed

lemma get_rac_safe:
  assumes d: "dec_ok d" "tables_ok lo hi d" and s: "states_ok lo hi st" "i < length st"
  shows "case get_rac d st i of (b, d', st') \<Rightarrow> dec_ok d' \<and> bytestream d' \<le> bytestream d + 1 \<and> bytestream_end d' = bytestream_end d \<and>
    rc_mem d' = rc_mem d \<and> same_tables d d' \<and> states_ok lo hi st' \<and> length st' = length st"
proof -
  have u: "lo \<le> unat (st ! i)" "unat (st ! i) \<le> hi" using s by (auto simp: states_ok_def)
  have "0 < lo" using d(2) unfolding tables_ok_def by blast
  with u(1) have nz: "st ! i \<noteq> 0" by auto
  define q where "q = rc_range d * uint (st ! i) div 256"
  have q: "1 \<le> q" "q < rc_range d" using range1_bounds [OF _ nz, of "rc_range d"] d(1) by (simp_all add: q_def dec_ok_def)
  have st: "states_ok lo hi (st[i := zero_state d ! unat (st ! i)])" "states_ok lo hi (st[i := one_state d ! unat (st ! i)])"
    using u s(1) d(2) unfolding tables_ok_def by (auto intro: states_ok_update)
  show ?thesis
  proof (cases "rc_low d < rc_range d - q")
    case True
    let ?d = "d\<lparr>rc_range := rc_range d - q\<rparr>"
    have "dec_ok (rac_refill ?d) \<and> bytestream (rac_refill ?d) \<le> bytestream ?d + 1 \<and>
      bytestream_end (rac_refill ?d) = bytestream_end ?d \<and> rc_mem (rac_refill ?d) = rc_mem ?d \<and> same_tables ?d (rac_refill ?d)"
      by (rule dec_ok_refill) (use d(1) q True in \<open>auto simp: dec_ok_def\<close>)
    moreover have "get_rac d st i = (False, rac_refill ?d, st[i := zero_state d ! unat (st ! i)])"
      using True by (simp add: get_rac_def shr_div flip: q_def)
    ultimately show ?thesis using st by (simp add: same_tables_def)
  next
    case False
    let ?d = "d\<lparr>rc_low := rc_low d - (rc_range d - q), rc_range := q\<rparr>"
    have "dec_ok (rac_refill ?d) \<and> bytestream (rac_refill ?d) \<le> bytestream ?d + 1 \<and>
      bytestream_end (rac_refill ?d) = bytestream_end ?d \<and> rc_mem (rac_refill ?d) = rc_mem ?d \<and> same_tables ?d (rac_refill ?d)"
      by (rule dec_ok_refill) (use d(1) q False in \<open>auto simp: dec_ok_def\<close>)
    moreover have "get_rac d st i = (True, rac_refill ?d, st[i := one_state d ! unat (st ! i)])"
      using False by (simp add: get_rac_def shr_div flip: q_def)
    ultimately show ?thesis using st by (simp add: same_tables_def)
  qed
qed

lemma rac_gets_safe:
  assumes "dec_ok d" "tables_ok lo hi d" "states_ok lo hi st" "\<forall>i \<in> set is. i < length st"
  shows "case rac_gets d st is of (bs, d', st') \<Rightarrow> dec_ok d' \<and> bytestream d' \<le> bytestream d + length is \<and> bytestream_end d' = bytestream_end d \<and>
    rc_mem d' = rc_mem d \<and> same_tables d d' \<and> states_ok lo hi st' \<and> length st' = length st \<and> length bs = length is"
  using assms
proof (induction "is" arbitrary: d st)
  case (Cons i "is")
  obtain b d1 st1 where g: "get_rac d st i = (b, d1, st1)" by (metis prod_cases3)
  have 1: "dec_ok d1" "bytestream d1 \<le> bytestream d + 1" "bytestream_end d1 = bytestream_end d" "rc_mem d1 = rc_mem d"
    "same_tables d d1" "states_ok lo hi st1" "length st1 = length st"
    using get_rac_safe [of d lo hi st i] Cons.prems g by simp_all
  then have "tables_ok lo hi d1" "\<forall>i \<in> set is. i < length st1" using Cons.prems tables_ok_same by auto
  from Cons.IH [OF 1(1) this(1) 1(6) this(2)] 1 g show ?case by (auto simp: same_tables_def split: prod.splits)
qed simp

section \<open>Properties\<close>

text \<open>A coder before its initialisation, for examples.\<close>

definition blank_coder :: range_coder where
  "blank_coder = \<lparr>rc_low = 0, rc_range = 0, outstanding_count = 0, outstanding_byte = 0, zero_state = [], one_state = [],
     rc_mem = [], bytestream = 0, bytestream_end = 0, overread = 0\<rparr>"

text \<open>C27: \<open>ff_build_rac_states\<close> computes in 64 bits without overflow. For the states a coder may use, \<open>256 - max_p\<close> to
  \<open>max_p\<close>, seeing a one never lowers the state and raises it unless it is the largest, seeing a zero mirrors that, and no
  state leaves the range; but state 255 has no successor for a zero: its entry is 0, from which the coder cannot go on.\<close>

theorem rac_states_correct:
  assumes "0 \<le> factor" "factor < 2 ^ 31" "128 \<le> max_p" "max_p \<le> 255"
  shows "(\<forall>p. 0 \<le> p \<and> p \<le> 2 ^ 32 \<longrightarrow> is_s64 ((2 ^ 32 - p) * factor + 2 ^ 31) \<and> is_s64 (256 * p + 2 ^ 31) \<and>
      p \<le> rac_next_p factor p \<and> rac_next_p factor p \<le> 2 ^ 32) \<and>
    (let c' = ff_build_rac_states c factor max_p
     in length (one_state c') = 256 \<and> length (zero_state c') = 256 \<and> zero_state c' ! 255 = 0 \<and>
       (\<forall>s. 256 - max_p \<le> int s \<and> int s \<le> max_p \<longrightarrow>
          int s \<le> uint (one_state c' ! s) \<and> uint (one_state c' ! s) \<le> max_p \<and> (int s < max_p \<longrightarrow> int s < uint (one_state c' ! s)) \<and>
          (s < 255 \<longrightarrow> uint (zero_state c' ! s) = 256 - uint (one_state c' ! (256 - s)) \<and>
             256 - max_p \<le> uint (zero_state c' ! s) \<and> uint (zero_state c' ! s) \<le> int s)))"
proof -
  let ?c = "ff_build_rac_states c factor max_p"
  note b = build_rac_states [OF assms(3,4), where c = c and factor = factor]
  have r: "int s \<le> uint (one_state ?c ! s) \<and> uint (one_state ?c ! s) \<le> max_p \<and> (int s < max_p \<longrightarrow> int s < uint (one_state ?c ! s))"
    if "256 - max_p \<le> int s" "int s \<le> max_p" for s
    using b(4) [OF that] by (simp add: row_ok_def)
  have z: "uint (zero_state ?c ! s) = 256 - uint (one_state ?c ! (256 - s)) \<and>
      256 - max_p \<le> uint (zero_state ?c ! s) \<and> uint (zero_state ?c ! s) \<le> int s"
    if "256 - max_p \<le> int s" "int s \<le> max_p" "s < 255" for s
    using build_rac_states_zero [OF assms(3,4) that] by blast
  have "int s \<le> uint (one_state ?c ! s) \<and> uint (one_state ?c ! s) \<le> max_p \<and> (int s < max_p \<longrightarrow> int s < uint (one_state ?c ! s)) \<and>
      (s < 255 \<longrightarrow> uint (zero_state ?c ! s) = 256 - uint (one_state ?c ! (256 - s)) \<and>
        256 - max_p \<le> uint (zero_state ?c ! s) \<and> uint (zero_state ?c ! s) \<le> int s)"
    if "256 - max_p \<le> int s \<and> int s \<le> max_p" for s
    using r [of s] z [of s] that by blast
  then have "\<forall>s. 256 - max_p \<le> int s \<and> int s \<le> max_p \<longrightarrow>
      int s \<le> uint (one_state ?c ! s) \<and> uint (one_state ?c ! s) \<le> max_p \<and> (int s < max_p \<longrightarrow> int s < uint (one_state ?c ! s)) \<and>
      (s < 255 \<longrightarrow> uint (zero_state ?c ! s) = 256 - uint (one_state ?c ! (256 - s)) \<and>
        256 - max_p \<le> uint (zero_state ?c ! s) \<and> uint (zero_state ?c ! s) \<le> int s)"
    by (intro allI impI)
  then show ?thesis
    unfolding Let_def using rac_next_p_range [OF assms(1,2)] b(1-3) by (intro conjI) (simp, assumption+)
qed

text \<open>C3: For any sequence of decisions, coded with any states the tables allow, a buffer with two bytes more than there are
  decisions is never left, and the decoder gives back the decisions and the same states. A message ended by version 0 needs
  its length and the zero padding that decoders ask for, a message ended by version 1 may be followed by anything. The
  check for the end accepts it, and the decoder stops exactly at its end; only a message of version 0 so short that it took one
  byte is rejected.\<close>

theorem range_coder_round_trip:
  assumes "128 \<le> max_p" "max_p \<le> 254" and st: "\<forall>s \<in> set st. 256 - max_p \<le> uint s \<and> uint s \<le> max_p"
    and msg: "\<forall>x \<in> set msg. fst x < length st" and v: "version = 0 \<or> version = 1" and len: "length msg + 2 \<le> length buf"
  shows "\<exists>c st' n c'. rac_puts (ff_build_rac_states (ff_init_range_encoder e buf m) factor max_p) st msg = Some (c, st') \<and>
    ff_rac_terminate c version = Some (n, c') \<and> n \<le> length msg + 1 + nat version \<and>
    (\<forall>f tail sz. (version = 0 \<longrightarrow> sz = n \<and> tail = replicate 64 0) \<and> (version = 1 \<longrightarrow> n \<le> sz \<and> sz \<le> n + length tail) \<longrightarrow>
      (\<exists>d. rac_gets (ff_build_rac_states (ff_init_range_decoder f (take n (rc_mem c') @ tail) sz) factor max_p) st (map fst msg) =
          (map snd msg, d, st') \<and>
        (version = 0 \<longrightarrow> bytestream d = max 2 n) \<and>
        fst (ff_rac_check_termination d version) = (if version = 0 \<and> n = 1 then Some INVALIDDATA else None) \<and>
        (version = 1 \<and> n < sz \<longrightarrow> bytestream (snd (ff_rac_check_termination d version)) = n + 1)))"
proof -
  let ?lo = "nat (256 - max_p)" and ?hi = "nat max_p"
  let ?e = "ff_build_rac_states (ff_init_range_encoder e buf m) factor max_p"
  note e = encoder_start [of e buf m factor max_p]
  have t: "tables_ok ?lo ?hi ?e" by (rule build_rac_states_ok [OF assms(1,2)])
  have so: "states_ok ?lo ?hi st" using st assms(1) by (simp add: states_ok_def nat_le_iff le_nat_iff)
  have r: "room ?e (length msg)" using len e by (simp add: room_def)
  have ar: "array_ok ?lo ?hi (length st) st" using so by simp
  obtain c st' where c: "rac_puts ?e st msg = Some (c, st')" "after (length msg) ?e c"
    "\<forall>X N d. holds X c \<and> dec_sync X N ?e d \<and> rac_len c \<le> N \<longrightarrow>
      (\<exists>d'. rac_gets d st (map fst msg) = (map snd msg, d', st') \<and> dec_sync X N c d')"
    by (rule codesE [OF codes_puts [OF msg] e(1) t ar r]) blast
  have ok: "enc_ok c" "room c 2" "rac_len c \<le> length msg" using c(2) e len by (simp_all add: after_def room_def)
  obtain n c' where n: "ff_rac_terminate c version = Some (n, c')" "ended c version n (take n (rc_mem c'))"
    "n \<le> rac_len c + 1 + nat version" "length (rc_mem c') = length (rc_mem c)"
    by (rule rac_terminate_ended [OF ok(1,2) v])
  let ?F = "take n (rc_mem c')"
  have F: "length ?F = n" using n(2) by (simp add: ended_def)
  have "\<exists>d. rac_gets (ff_build_rac_states (ff_init_range_decoder f (?F @ tail) sz) factor max_p) st (map fst msg) = (map snd msg, d, st') \<and>
        (version = 0 \<longrightarrow> bytestream d = max 2 n) \<and>
        fst (ff_rac_check_termination d version) = (if version = 0 \<and> n = 1 then Some INVALIDDATA else None) \<and>
        (version = 1 \<and> n < sz \<longrightarrow> bytestream (snd (ff_rac_check_termination d version)) = n + 1)"
    if s: "version = 0 \<longrightarrow> sz = n \<and> tail = replicate 64 0" "version = 1 \<longrightarrow> n \<le> sz \<and> sz \<le> n + length tail" for f tail sz
  proof -
    let ?X = "seen (?F @ tail) sz"
    let ?d = "ff_build_rac_states (ff_init_range_decoder f (?F @ tail) sz) factor max_p"
    have nsz: "n \<le> sz" using s v by auto
    then have X: "map ?X [0..<n] = ?F"
      using F by (intro nth_equalityI) (auto simp: seen_def nth_append less_max_iff_disj)
    have X0: "version = 1 \<or> version = 0 \<and> ?X n = 0"
      using s v F by (auto simp: seen_def nth_append)
    have hc: "holds ?X c" by (rule ended_holds [OF ok(1) n(2) X X0])
    then have he: "holds ?X ?e" using c(2) by (simp add: after_def)
    then have "dec_sync ?X (rac_len c) ?e ?d" by (rule decoder_start)
    then obtain d where d: "rac_gets ?d st (map fst msg) = (map snd msg, d, st')" "dec_sync ?X (rac_len c) c d"
      using c(3) hc by blast
    have "dec_ok ?d" "tables_ok ?lo ?hi ?d" using dec_ok_start(1) build_rac_states_ok [OF assms(1,2)] by blast+
    from rac_gets_safe [OF this so, of "map fst msg"] msg d(1)
    have "bytestream_end d = bytestream_end ?d" "rc_mem d = rc_mem ?d" by simp_all
    then have ed: "bytestream_end d = sz" "rc_mem d = ?F @ tail"
      using decoder_start_end [OF he, of f] dec_ok_start(4) [of f "?F @ tail" sz factor max_p] by simp_all
    have "version = 0 \<Longrightarrow> bytestream d = max 2 n"
      using d(2) ed(1) s n(2) unfolding dec_sync_def ended_def by auto
    moreover have "version = 0 \<Longrightarrow> fst (ff_rac_check_termination d version) = (if bytestream_end d \<noteq> bytestream d then Some INVALIDDATA else None)"
      by (simp add: ff_rac_check_termination_def)
    moreover have "version = 1 \<Longrightarrow> \<exists>d'. ff_rac_check_termination d 1 = (None, d') \<and> (n < bytestream_end d \<longrightarrow> bytestream d' = n + 1)"
      using check_termination_1 [OF ok(1) _ X d(2)] n(2) ed by simp
    moreover have "1 \<le> n" using n(2) by (auto simp: ended_def split: if_splits)
    ultimately show ?thesis using d(1) v s ed(1) by auto
  qed
  note dec = this
  have nle: "n \<le> length msg + 1 + nat version" using n(3) ok(3) by simp
  show ?thesis
    by (rule exI [of _ c], rule exI [of _ st'], rule exI [of _ n], rule exI [of _ c'],
        intro conjI allI impI c(1) n(1) nle, elim conjE, rule dec)
qed

text \<open>A message of four decisions with two states.\<close>

lemma range_coder_round_trip_witness:
  "\<exists>c st' n c' d. rac_puts (ff_build_rac_states (ff_init_range_encoder blank_coder (replicate 6 0) 6) 214748364 248) [128, 200]
       [(0, True), (1, False), (0, True), (1, True)] = Some (c, st') \<and>
     ff_rac_terminate c 1 = Some (n, c') \<and>
     rac_gets (ff_build_rac_states (ff_init_range_decoder blank_coder (take n (rc_mem c') @ [0xAB, 0xCD]) (n + 2)) 214748364 248) [128, 200]
       [0, 1, 0, 1] = ([True, False, True, True], d, st') \<and>
     fst (ff_rac_check_termination d 1) = None"
proof -
  let ?msg = "[(0, True), (1, False), (0, True), (1, True)] :: (nat \<times> bool) list"
  have h: "(128 :: int) \<le> 248" "(248 :: int) \<le> 254" "\<forall>s \<in> set [128, 200 :: u8]. 256 - 248 \<le> uint s \<and> uint s \<le> (248 :: int)"
    "\<forall>x \<in> set ?msg. fst x < length [128, 200 :: u8]" "(1 :: int) = 0 \<or> (1 :: int) = 1" "length ?msg + 2 \<le> length (replicate 6 (0 :: u8))"
    by simp_all
  obtain c st' n c' where c: "rac_puts (ff_build_rac_states (ff_init_range_encoder blank_coder (replicate 6 0) 6) 214748364 248) [128, 200] ?msg = Some (c, st')"
    "ff_rac_terminate c 1 = Some (n, c')"
    "\<forall>f tail sz. ((1 :: int) = 0 \<longrightarrow> sz = n \<and> tail = replicate 64 0) \<and> ((1 :: int) = 1 \<longrightarrow> n \<le> sz \<and> sz \<le> n + length tail) \<longrightarrow>
      (\<exists>d. rac_gets (ff_build_rac_states (ff_init_range_decoder f (take n (rc_mem c') @ tail) sz) 214748364 248) [128, 200] (map fst ?msg) =
          (map snd ?msg, d, st') \<and> ((1 :: int) = 0 \<longrightarrow> bytestream d = max 2 n) \<and>
        fst (ff_rac_check_termination d 1) = (if (1 :: int) = 0 \<and> n = 1 then Some INVALIDDATA else None) \<and>
        ((1 :: int) = 1 \<and> n < sz \<longrightarrow> bytestream (snd (ff_rac_check_termination d 1)) = n + 1))"
    using range_coder_round_trip [OF h, where factor = 214748364 and e = blank_coder and m = 6] by blast
  from c(3) [rule_format, of "n + 2" "[0xAB, 0xCD]" blank_coder] c(1,2) show ?thesis by auto
qed

lemma rac_states_correct_witness:
  "let c' = ff_build_rac_states blank_coder 214748364 255 in zero_state c' ! 255 = 0 \<and> uint (one_state c' ! 254) = 255"
  using rac_states_correct [of 214748364 255 blank_coder] by (auto simp: Let_def dest: spec [of _ "254 :: nat"])

text \<open>C28: On any input a decoder stays inside its buffer: it reads no further than the given size, apart from the two bytes it
  starts with, at most one byte per decision; its integers stay below \<open>2 ^ 16\<close> and its states in the range of the tables, so
  that it can always go on.\<close>

theorem range_decoder_safe:
  assumes "128 \<le> max_p" "max_p \<le> 254" and st: "\<forall>s \<in> set st. 256 - max_p \<le> uint s \<and> uint s \<le> max_p"
    and i: "\<forall>i \<in> set is. i < length st" and "sz \<le> length buf" "2 \<le> length buf"
  shows "\<exists>bs d st'. rac_gets (ff_build_rac_states (ff_init_range_decoder f buf sz) factor max_p) st is = (bs, d, st') \<and>
    length bs = length is \<and> 0 \<le> rc_low d \<and> rc_low d \<le> rc_range d \<and> 0x100 \<le> rc_range d \<and> rc_range d \<le> 0xFF00 \<and>
    rc_mem d = buf \<and> bytestream d \<le> length buf \<and> bytestream d \<le> max 2 sz \<and> bytestream d \<le> 2 + length is \<and>
    length st' = length st \<and> (\<forall>s \<in> set st'. 256 - max_p \<le> uint s \<and> uint s \<le> max_p)"
proof -
  let ?lo = "nat (256 - max_p)" and ?hi = "nat max_p" and ?d = "ff_build_rac_states (ff_init_range_decoder f buf sz) factor max_p"
  have s: "states_ok ?lo ?hi x \<longleftrightarrow> (\<forall>s \<in> set x. 256 - max_p \<le> uint s \<and> uint s \<le> max_p)" for x
    using assms(1) by (simp add: states_ok_def nat_le_iff le_nat_iff)
  obtain bs d st' where g: "rac_gets ?d st is = (bs, d, st')" by (metis prod_cases3)
  have "tables_ok ?lo ?hi ?d" by (rule build_rac_states_ok [OF assms(1,2)])
  from rac_gets_safe [OF dec_ok_start(1) this st [folded s] i] g
  have "dec_ok d" "bytestream d \<le> 2 + length is" "bytestream_end d \<le> max 2 sz" "rc_mem d = buf" "states_ok ?lo ?hi st'"
    "length st' = length st" "length bs = length is"
    using dec_ok_start(2-4) [of f buf sz factor max_p] by simp_all
  then show ?thesis using g assms(5,6) s by (intro exI [of _ bs] exI [of _ d] exI [of _ st']) (auto simp: dec_ok_def)
qed

lemma range_decoder_safe_witness:
  "\<exists>bs d st'. rac_gets (ff_build_rac_states (ff_init_range_decoder blank_coder [0xFF, 0xFF, 0xFF] 3) 214748364 248) [128] [0, 0] = (bs, d, st') \<and>
     length bs = 2 \<and> rc_low d \<le> rc_range d \<and> bytestream d \<le> 3"
proof -
  have "(128 :: int) \<le> 248" "(248 :: int) \<le> 254" "\<forall>s \<in> set [128 :: u8]. 256 - 248 \<le> uint s \<and> uint s \<le> (248 :: int)"
    "\<forall>i \<in> set [0, 0 :: nat]. i < length [128 :: u8]" "3 \<le> length [0xFF, 0xFF, 0xFF :: u8]" "2 \<le> length [0xFF, 0xFF, 0xFF :: u8]"
    by simp_all
  from range_decoder_safe [OF this, of blank_coder 214748364] show ?thesis by auto
qed

end
