(* ===== verification/Ffv1Symbol.thy ===== *)
theory Ffv1Symbol imports AvRangeCoder
begin

text \<open>
  Numbers and quantisation tables in the bit streams of FFV1: \<open>put_symbol\<close>, \<open>write_quant_table\<close> and
  \<open>write_quant_tables\<close> of \<open>libavcodec/ffv1enc.c\<close>, \<open>get_symbol\<close>, \<open>read_quant_table\<close> and \<open>read_quant_tables\<close> of
  \<open>ffv1dec.c\<close>. A number is coded by the range coder as an exponent in unary, the bits below it, and a sign, each decision
  with a state of its own in an array of \<open>CONTEXT_SIZE\<close> bytes.
\<close>

section \<open>Symbols\<close>

abbreviation CONTEXT_SIZE :: nat where "CONTEXT_SIZE \<equiv> 32"

text \<open>The value of \<open>AVERROR_INVALIDDATA\<close>, which \<open>get_symbol\<close> returns like any other number.\<close>

abbreviation AVERROR_INVALIDDATA :: int where "AVERROR_INVALIDDATA \<equiv> - 0x41444E49"

text \<open>\<open>put_symbol_inline\<close> without the statistics, as \<open>put_symbol\<close> calls it.\<close>

definition put_symbol :: "range_coder \<Rightarrow> bytes \<Rightarrow> int \<Rightarrow> bool \<Rightarrow> (range_coder \<times> bytes) option" where
  "put_symbol c state v is_signed =
     (if v \<noteq> 0 then
        let a = FFABS v; e = ff_log2_c (word_of_int a)
        in do {
          (c, state) \<leftarrow> put_rac c state 0 False;
          if e \<le> 9 then do {
            (c, state) \<leftarrow> rac_puts c state (map (\<lambda>i. (1 + i, True)) [0..<e]);
            (c, state) \<leftarrow> put_rac c state (1 + e) False;
            (c, state) \<leftarrow> rac_puts c state (map (\<lambda>i. (22 + i, odd (drop_bit i a))) (rev [0..<e]));
            if is_signed then put_rac c state (11 + e) (v < 0) else Some (c, state) }
          else do {
            (c, state) \<leftarrow> rac_puts c state (map (\<lambda>i. (1 + min i 9, True)) [0..<e]);
            (c, state) \<leftarrow> put_rac c state (1 + 9) False;
            (c, state) \<leftarrow> rac_puts c state (map (\<lambda>i. (22 + min i 9, odd (drop_bit i a))) (rev [0..<e]));
            if is_signed then put_rac c state (11 + 10) (v < 0) else Some (c, state) } }
      else put_rac c state 0 True)"

text \<open>\<open>while (get_rac(c, state + 1 + FFMIN(e, 9)))\<close>: no exponent after 32 ones.\<close>

function get_exponent :: "range_coder \<Rightarrow> bytes \<Rightarrow> nat \<Rightarrow> nat option \<times> range_coder \<times> bytes" where
  "get_exponent c state e =
     (let (b, c, state) = get_rac c state (1 + min e 9)
      in if b then if e + 1 > 31 then (None, c, state) else get_exponent c state (e + 1)
         else (Some e, c, state))"
  by pat_completeness auto
termination by (relation "measure (\<lambda>(c, state, e). 32 - e)") auto

declare get_exponent.simps [simp del]

text \<open>\<open>for (i = e - 1; i >= 0; i--) a += a + get_rac(c, state + 22 + FFMIN(i, 9))\<close>\<close>

primrec get_mantissa :: "nat \<Rightarrow> u32 \<Rightarrow> range_coder \<Rightarrow> bytes \<Rightarrow> u32 \<times> range_coder \<times> bytes" where
  "get_mantissa 0 a c state = (a, c, state)"
| "get_mantissa (Suc i) a c state =
     (let (b, c, state) = get_rac c state (22 + min i 9) in get_mantissa i (a + (a + of_bool b)) c state)"

definition get_symbol :: "range_coder \<Rightarrow> bytes \<Rightarrow> bool \<Rightarrow> int \<times> range_coder \<times> bytes" where
  "get_symbol c state is_signed =
     (let (b, c, state) = get_rac c state 0
      in if b then (0, c, state)
         else let (e, c, state) = get_exponent c state 0
              in case e of None \<Rightarrow> (AVERROR_INVALIDDATA, c, state)
                 | Some e \<Rightarrow>
                     let (a, c, state) = get_mantissa e 1 c state;
                         (b, c, state) = (if is_signed then get_rac c state (11 + min e 10) else (False, c, state));
                         m = (if b then - 1 else 0)
                     in (sint ((a XOR m) - m), c, state))"

section \<open>A symbol is read as it was written\<close>

text \<open>Both ways through \<open>put_symbol\<close> use the same states as the reader.\<close>

definition symbol_ones :: "nat \<Rightarrow> nat \<Rightarrow> (nat \<times> bool) list" where
  "symbol_ones k e = map (\<lambda>i. (1 + min i 9, True)) [k..<e]"

definition symbol_bits :: "nat \<Rightarrow> int \<Rightarrow> (nat \<times> bool) list" where
  "symbol_bits e a = map (\<lambda>i. (22 + min i 9, odd (drop_bit i a))) (rev [0..<e])"

lemma put_symbol_eq:
  "put_symbol c state v is_signed =
     (if v = 0 then put_rac c state 0 True
      else put_rac c state 0 False \<bind> (\<lambda>(c, state).
        (rac_puts c state (symbol_ones 0 (ff_log2_c (word_of_int (FFABS v)))) \<bind> (\<lambda>(c, state).
           put_rac c state (1 + min (ff_log2_c (word_of_int (FFABS v))) 9) False)) \<bind> (\<lambda>(c, state).
        rac_puts c state (symbol_bits (ff_log2_c (word_of_int (FFABS v))) (FFABS v)) \<bind> (\<lambda>(c, state).
        if is_signed then put_rac c state (11 + min (ff_log2_c (word_of_int (FFABS v))) 10) (v < 0) else Some (c, state)))))"
proof -
  define e where "e = ff_log2_c (word_of_int (FFABS v))"
  have 1: "e \<le> 9 \<Longrightarrow> map (\<lambda>i. (1 + i, True)) [0..<e] = symbol_ones 0 e"
    and 2: "e \<le> 9 \<Longrightarrow> map (\<lambda>i. (22 + i, odd (drop_bit i a))) (rev [0..<e]) = symbol_bits e a" for a :: int
    by (auto simp: symbol_ones_def symbol_bits_def)
  show ?thesis
  proof (cases "e \<le> 9")
    case True
    then show ?thesis
      unfolding put_symbol_def Let_def e_def [symmetric] 1 [OF True] 2 [OF True]
      by (cases is_signed) (simp_all add: bind_assoc case_prod_beta' min_absorb1)
  next
    case False
    then show ?thesis
      unfolding put_symbol_def Let_def e_def [symmetric] symbol_ones_def symbol_bits_def
      by (cases is_signed) (simp_all add: bind_assoc case_prod_beta' min_absorb2)
  qed
qed

lemma codes_ones:
  "k \<le> e \<Longrightarrow> e \<le> 31 \<Longrightarrow> codes lo hi (array_ok lo hi CONTEXT_SIZE) (e - k + 1)
     (\<lambda>c st. rac_puts c st (symbol_ones k e) \<bind> (\<lambda>(c, st). put_rac c st (1 + min e 9) False))
     (\<lambda>d st. get_exponent d st k) (Some e)"
proof (induction "e - k" arbitrary: k)
  case 0
  have "codes lo hi (array_ok lo hi 32) (1 + 0)
      (\<lambda>c st. put_rac c st (1 + min e 9) False \<bind> (\<lambda>(c, st). Some (c, st)))
      (\<lambda>d st. case get_rac d st (1 + min e 9) of (b, d, st) \<Rightarrow>
        (\<lambda>b d st. if b then if e + 1 > 31 then (None, d, st) else get_exponent d st (e + 1) else (Some e, d, st)) b d st) (Some e)"
    by (rule codes_bind [OF codes_put]) (auto intro: codes_return [of _ _ _ "Some e"])
  moreover have "k = e" using 0 by simp
  ultimately show ?case by (simp add: symbol_ones_def get_exponent.simps [of _ _ e] case_prod_beta' Let_def)
next
  case (Suc n)
  then have "k < e" by simp
  have IH: "codes lo hi (array_ok lo hi CONTEXT_SIZE) (e - (k + 1) + 1)
     (\<lambda>c st. rac_puts c st (symbol_ones (k + 1) e) \<bind> (\<lambda>(c, st). put_rac c st (1 + min e 9) False))
     (\<lambda>d st. get_exponent d st (k + 1)) (Some e)"
    by (rule Suc.hyps(1)) (use Suc in auto)
  have "codes lo hi (array_ok lo hi 32) (1 + (e - (k + 1) + 1))
      (\<lambda>c st. put_rac c st (1 + min k 9) True \<bind> (\<lambda>(c, st). rac_puts c st (symbol_ones (k + 1) e) \<bind> (\<lambda>(c, st). put_rac c st (1 + min e 9) False)))
      (\<lambda>d st. case get_rac d st (1 + min k 9) of (b, d, st) \<Rightarrow>
        (\<lambda>b d st. if b then if k + 1 > 31 then (None, d, st) else get_exponent d st (k + 1) else (Some k, d, st)) b d st) (Some e)"
    by (rule codes_bind [OF codes_put]) (use \<open>k < e\<close> Suc.prems IH in auto)
  moreover have "symbol_ones k e = (1 + min k 9, True) # symbol_ones (k + 1) e"
    using \<open>k < e\<close> by (simp add: symbol_ones_def upt_conv_Cons)
  moreover have "1 + (e - (k + 1) + 1) = e - k + 1" using \<open>k < e\<close> by simp
  ultimately show ?case by (simp add: get_exponent.simps [of _ _ k] bind_assoc case_prod_beta' Let_def)
qed

lemma codes_bits:
  "codes lo hi (array_ok lo hi CONTEXT_SIZE) e (\<lambda>c st. rac_puts c st (symbol_bits e a))
     (\<lambda>d st. get_mantissa e (word_of_int (a div 2 ^ e)) d st) (word_of_int a)"
proof (induction e)
  case 0
  show ?case using codes_return [of lo hi _ "word_of_int a"] by (simp add: symbol_bits_def)
next
  case (Suc e)
  let ?w = "word_of_int (a div 2 ^ Suc e) :: u32"
  have "a div 2 ^ Suc e = a div 2 ^ e div 2" using zdiv_zmult2_eq [of 2 a "2 ^ e"] by (simp add: mult.commute)
  moreover have "x = 2 * (x div 2) + of_bool (odd x)" for x :: int by (cases "even x") simp_all
  ultimately have "a div 2 ^ e = 2 * (a div 2 ^ Suc e) + of_bool (odd (drop_bit e a))"
    by (simp only: drop_bit_eq_div)
  then have w: "?w + (?w + of_bool (odd (drop_bit e a))) = word_of_int (a div 2 ^ e)"
    by (simp add: of_bool_def)
  have "codes lo hi (array_ok lo hi 32) (1 + e)
      (\<lambda>c st. put_rac c st (22 + min e 9) (odd (drop_bit e a)) \<bind> (\<lambda>(c, st). rac_puts c st (symbol_bits e a)))
      (\<lambda>d st. case get_rac d st (22 + min e 9) of (b, d, st) \<Rightarrow> (\<lambda>b d st. get_mantissa e (?w + (?w + of_bool b)) d st) b d st) (word_of_int a)"
    by (rule codes_bind [OF codes_put]) (use Suc w in simp_all)
  then show ?case by (simp add: symbol_bits_def Let_def)
qed

lemma log2_symbol:
  assumes "v \<noteq> 0" "\<bar>v\<bar> \<le> INT_MAX"
  shows "FFABS v = \<bar>v\<bar>" "ff_log2_c (word_of_int \<bar>v\<bar>) \<le> 30" "\<bar>v\<bar> div 2 ^ ff_log2_c (word_of_int \<bar>v\<bar>) = 1"
proof -
  let ?w = "word_of_int \<bar>v\<bar> :: u32"
  define e where "e = ff_log2_c ?w"
  show "FFABS v = \<bar>v\<bar>" using assms by (intro FFABS_abs) (auto simp: is_s64_def)
  have u: "uint ?w = \<bar>v\<bar>" using assms by (simp add: uint_word_of_int)
  then have n: "int (unat ?w) = \<bar>v\<bar>" by simp
  have "?w \<noteq> 0" using u assms by auto
  then have "int (2 ^ e) \<le> int (unat ?w)" "int (unat ?w) < int (2 * 2 ^ e)"
    using ff_log2_bounds [of ?w] unfolding e_def by (simp_all only: of_nat_le_iff of_nat_less_iff simp_thms)
  then have b: "2 ^ e \<le> \<bar>v\<bar>" "\<bar>v\<bar> < 2 * 2 ^ e" unfolding n by simp_all
  then show "\<bar>v\<bar> div 2 ^ ff_log2_c ?w = 1" unfolding e_def [symmetric]
    by (intro div_pos_geq [THEN trans]) (simp_all add: div_pos_pos_trivial)
  have "(2 :: int) ^ e < 2 ^ 31" using b(1) assms(2) by simp
  then have "e < 31" by (rule power_less_imp_less_exp [rotated]) simp
  then show "ff_log2_c ?w \<le> 30" unfolding e_def [symmetric] by simp
qed

lemma symbol_value:
  assumes "\<bar>v\<bar> \<le> INT_MAX"
  shows "sint ((word_of_int \<bar>v\<bar> XOR (if v < 0 then - 1 else 0)) - (if v < 0 then - 1 else 0) :: u32) = v"
proof -
  have "- (2 ^ 31) \<le> v" "v < 2 ^ 31" using assms by simp_all
  then have p: "sint (word_of_int v :: u32) = v"
    by (simp add: signed_of_int signed_take_bit_int_eq_self)
  have n: "(w XOR - 1) - (- 1) = - w" for w :: u32
  proof -
    have "w XOR - 1 = NOT w" by simp
    then show ?thesis by (simp only: minus_eq_not_plus_1 [of w] diff_minus_eq_add)
  qed
  show ?thesis
  proof (cases "v < 0")
    case True
    then have "- word_of_int \<bar>v\<bar> = (word_of_int v :: u32)" by simp
    then show ?thesis using True p by (simp only: if_True n)
  next
    case False
    then show ?thesis using p by simp
  qed
qed

definition get_sign :: "bool \<Rightarrow> nat \<Rightarrow> u32 \<Rightarrow> range_coder \<Rightarrow> bytes \<Rightarrow> int \<times> range_coder \<times> bytes" where
  "get_sign is_signed e a c state =
     (case (if is_signed then get_rac c state (11 + min e 10) else (False, c, state)) of (b, c, state) \<Rightarrow>
        (sint ((a XOR (if b then - 1 else 0)) - (if b then - 1 else 0)), c, state))"

lemma codes_sign:
  assumes v: "\<bar>v\<bar> \<le> INT_MAX" and s: "0 \<le> v \<or> is_signed"
  shows "codes lo hi (array_ok lo hi CONTEXT_SIZE) 1
      (\<lambda>c st. if is_signed then put_rac c st (11 + min e 10) (v < 0) else Some (c, st))
      (\<lambda>d st. get_sign is_signed e (word_of_int \<bar>v\<bar>) d st) v"
proof -
  have 1: "codes lo hi (array_ok lo hi CONTEXT_SIZE) 1
      (\<lambda>c st. if is_signed then put_rac c st (11 + min e 10) (v < 0) else Some (c, st))
      (\<lambda>d st. if is_signed then get_rac d st (11 + min e 10) else (False, d, st)) (v < 0)"
  proof (cases is_signed)
    case True
    then show ?thesis by (simp only: if_True) (rule codes_put, simp)
  next
    case False
    then have "(v < 0) = False" using s by simp
    then show ?thesis using False by (simp only: if_False) (rule codes_mono [OF codes_return], simp)
  qed
  have "codes lo hi (array_ok lo hi CONTEXT_SIZE) (1 + 0)
      (\<lambda>c st. (if is_signed then put_rac c st (11 + min e 10) (v < 0) else Some (c, st)) \<bind> (\<lambda>(c, st). Some (c, st)))
      (\<lambda>d st. case (if is_signed then get_rac d st (11 + min e 10) else (False, d, st)) of (b, d, st) \<Rightarrow>
         (\<lambda>b d st. (sint ((word_of_int \<bar>v\<bar> XOR (if b then - 1 else 0)) - (if b then - 1 else 0) :: u32), d, st)) b d st) v"
    by (rule codes_bind [OF 1]) (unfold symbol_value [OF v], rule codes_return)
  then show ?thesis by (simp add: get_sign_def)
qed

definition get_magnitude :: "bool \<Rightarrow> nat option \<Rightarrow> range_coder \<Rightarrow> bytes \<Rightarrow> int \<times> range_coder \<times> bytes" where
  "get_magnitude is_signed e c state =
     (case e of None \<Rightarrow> (AVERROR_INVALIDDATA, c, state)
      | Some e \<Rightarrow> (case get_mantissa e 1 c state of (a, c, state) \<Rightarrow> get_sign is_signed e a c state))"

lemma get_symbol_eq:
  "get_symbol c state is_signed = (case get_rac c state 0 of (b, c, state) \<Rightarrow>
     if b then (0, c, state) else (case get_exponent c state 0 of (e, c, state) \<Rightarrow> get_magnitude is_signed e c state))"
  unfolding get_symbol_def get_magnitude_def get_sign_def Let_def by (rule refl)

lemma codes_symbol:
  assumes v: "\<bar>v\<bar> \<le> INT_MAX" and s: "0 \<le> v \<or> is_signed"
  shows "codes lo hi (array_ok lo hi CONTEXT_SIZE) 64 (\<lambda>c st. put_symbol c st v is_signed) (\<lambda>d st. get_symbol d st is_signed) v"
proof (cases "v = 0")
  case True
  have r: "x \<bind> (\<lambda>(c, st). Some (c, st)) = x" for x :: "(range_coder \<times> bytes) option" by (cases x) auto
  have "codes lo hi (array_ok lo hi CONTEXT_SIZE) (1 + 0) (\<lambda>c st. put_rac c st 0 True \<bind> (\<lambda>(c, st). Some (c, st)))
      (\<lambda>d st. case get_rac d st 0 of (b, d, st) \<Rightarrow> (\<lambda>b d st. if b then (0, d, st)
         else (case get_exponent d st 0 of (e, c, state) \<Rightarrow> get_magnitude is_signed e c state)) b d st) 0"
    by (rule codes_bind [OF codes_put]) (simp, unfold if_True, rule codes_return)
  then have "codes lo hi (array_ok lo hi CONTEXT_SIZE) 64 (\<lambda>c st. put_rac c st 0 True) (\<lambda>d st. get_symbol d st is_signed) 0"
    unfolding r get_symbol_eq by (rule codes_mono) simp
  then show ?thesis unfolding put_symbol_eq if_P [OF True] by (simp only: True)
next
  case False
  define a where "a = \<bar>v\<bar>"
  define e where "e = ff_log2_c (word_of_int a)"
  note l = log2_symbol [OF False v, folded a_def, folded e_def]
  let ?sign = "\<lambda>c st. if is_signed then put_rac c st (11 + min e 10) (v < 0) else Some (c, st)"
  let ?bits = "\<lambda>c st. rac_puts c st (symbol_bits e a) \<bind> (\<lambda>(c, st). ?sign c st)"
  let ?ones = "\<lambda>c st. rac_puts c st (symbol_ones 0 e) \<bind> (\<lambda>(c, st). put_rac c st (1 + min e 9) False)"
  have w: "word_of_int (a div 2 ^ e) = (1 :: u32)" using l(3) by simp
  have bits: "codes lo hi (array_ok lo hi CONTEXT_SIZE) (e + 1) ?bits (get_magnitude is_signed (Some e)) v"
  proof -
    have "codes lo hi (array_ok lo hi CONTEXT_SIZE) (e + 1) ?bits
        (\<lambda>d st. case get_mantissa e (word_of_int (a div 2 ^ e)) d st of (m, d, st) \<Rightarrow> get_sign is_signed e m d st) v"
      by (rule codes_bind [OF codes_bits]) (unfold a_def, rule codes_sign [OF v s])
    then show ?thesis unfolding w by (simp add: get_magnitude_def [abs_def])
  qed
  have ones: "codes lo hi (array_ok lo hi CONTEXT_SIZE) ((e - 0 + 1) + (e + 1)) (\<lambda>c st. ?ones c st \<bind> (\<lambda>(c, st). ?bits c st))
      (\<lambda>d st. case get_exponent d st 0 of (x, d, st) \<Rightarrow> get_magnitude is_signed x d st) v"
    by (rule codes_bind [OF codes_ones]) (simp, use l(2) in simp, rule bits)
  have "codes lo hi (array_ok lo hi CONTEXT_SIZE) (1 + ((e - 0 + 1) + (e + 1)))
      (\<lambda>c st. put_rac c st 0 False \<bind> (\<lambda>(c, st). ?ones c st \<bind> (\<lambda>(c, st). ?bits c st)))
      (\<lambda>d st. case get_rac d st 0 of (b, d, st) \<Rightarrow> (\<lambda>b d st. if b then (0, d, st)
         else (case get_exponent d st 0 of (x, d, st) \<Rightarrow> get_magnitude is_signed x d st)) b d st) v"
    by (rule codes_bind [OF codes_put]) (simp, unfold if_False, rule ones)
  then have "codes lo hi (array_ok lo hi CONTEXT_SIZE) 64
      (\<lambda>c st. put_rac c st 0 False \<bind> (\<lambda>(c, st). ?ones c st \<bind> (\<lambda>(c, st). ?bits c st))) (\<lambda>d st. get_symbol d st is_signed) v"
    unfolding get_symbol_eq by (rule codes_mono) (use l(2) in simp)
  then show ?thesis unfolding put_symbol_eq if_not_P [OF False] l(1) a_def [symmetric] e_def [symmetric] .
qed

lemma codes_then_symbol:
  assumes "\<bar>v\<bar> \<le> INT_MAX" "0 \<le> v \<or> is_signed" "codes lo hi (array_ok lo hi CONTEXT_SIZE) l enc (dec v) w"
  shows "codes lo hi (array_ok lo hi CONTEXT_SIZE) (64 + l) (\<lambda>c st. put_symbol c st v is_signed \<bind> (\<lambda>(c, st). enc c st))
    (\<lambda>d st. case get_symbol d st is_signed of (x, d, st) \<Rightarrow> dec x d st) w"
  by (rule codes_bind [OF codes_symbol]) (use assms in blast)+

section \<open>Quantisation tables\<close>

definition fresh_state :: bytes where "fresh_state = replicate CONTEXT_SIZE 128"

text \<open>\<open>write_quant_table\<close>: the lengths of the runs of equal entries in the first half; \<open>start\<close> is where a run starts.\<close>

primrec write_runs :: "range_coder \<Rightarrow> bytes \<Rightarrow> int list \<Rightarrow> nat \<Rightarrow> nat list \<Rightarrow> (range_coder \<times> bytes) option" where
  "write_runs c state quant_table start [] = put_symbol c state (int 128 - int start - 1) False"
| "write_runs c state quant_table start (i # is) =
     (if quant_table ! i \<noteq> quant_table ! (i - 1) then do {
        (c, state) \<leftarrow> put_symbol c state (int i - int start - 1) False;
        write_runs c state quant_table i is }
      else write_runs c state quant_table start is)"

definition write_quant_table :: "range_coder \<Rightarrow> int list \<Rightarrow> range_coder option" where
  "write_quant_table c quant_table = map_option fst (write_runs c fresh_state quant_table 0 [1..<128])"

primrec write_tables :: "range_coder \<Rightarrow> int list list \<Rightarrow> nat list \<Rightarrow> range_coder option" where
  "write_tables c quant_table [] = Some c"
| "write_tables c quant_table (i # is) = do { c \<leftarrow> write_quant_table c (quant_table ! i); write_tables c quant_table is }"

definition write_quant_tables :: "range_coder \<Rightarrow> int list list \<Rightarrow> range_coder option" where
  "write_quant_tables c quant_table = write_tables c quant_table [0..<5]"

text \<open>\<open>read_quant_table\<close>: \<open>len\<close> is an \<open>unsigned\<close>, and an entry an \<open>int16_t\<close>. The result is the error or the number of
  levels, with the table as far as it is filled.\<close>

function read_runs :: "range_coder \<Rightarrow> bytes \<Rightarrow> int list \<Rightarrow> int \<Rightarrow> int \<Rightarrow> nat \<Rightarrow> ((averror + int) \<times> int list) \<times> range_coder \<times> bytes" where
  "read_runs c state quant_table scale v i =
     (if i < 128 then
        let (x, c, state) = get_symbol c state False;
            len = unat (word_of_int x + 1 :: u32)
        in if len > 128 - i \<or> len = 0 then ((Inl INVALIDDATA, quant_table), c, state)
           else read_runs c state (foldl (\<lambda>q j. q[j := s16 (scale * v)]) quant_table [i..<i + len]) scale (v + 1) (i + len)
      else ((Inr v, quant_table), c, state))"
  by pat_completeness auto
termination by (relation "measure (\<lambda>(c, state, q, scale, v, i). 128 - i)") auto

declare read_runs.simps [simp del]

definition read_quant_table :: "range_coder \<Rightarrow> int list \<Rightarrow> int \<Rightarrow> (averror + int) \<times> int list \<times> range_coder" where
  "read_quant_table c quant_table scale =
     (let ((r, quant_table), c, _) = read_runs c fresh_state quant_table scale 0 0
      in case r of Inl e \<Rightarrow> (Inl e, quant_table, c)
         | Inr v \<Rightarrow>
             let quant_table = foldl (\<lambda>q i. q[256 - i := s16 (- (q ! i))]) quant_table [1..<128];
                 quant_table = quant_table[128 := s16 (- (quant_table ! 127))]
             in (Inr (2 * v - 1), quant_table, c))"

primrec read_tables :: "range_coder \<Rightarrow> int list list \<Rightarrow> int \<Rightarrow> nat list \<Rightarrow> (averror + int) \<times> int list list \<times> range_coder" where
  "read_tables c quant_table context_count [] = (Inr context_count, quant_table, c)"
| "read_tables c quant_table context_count (i # is) =
     (let (r, q, c) = read_quant_table c (quant_table ! i) context_count;
          quant_table = quant_table[i := q]
      in case r of Inl e \<Rightarrow> (Inl e, quant_table, c)
         | Inr ret \<Rightarrow>
             if context_count * ret > 32768 then (Inl INVALIDDATA, quant_table, c)
             else read_tables c quant_table (context_count * ret) is)"

definition read_quant_tables :: "range_coder \<Rightarrow> int list list \<Rightarrow> (averror + int) \<times> int list list \<times> range_coder" where
  "read_quant_tables c quant_table =
     (let (r, quant_table, c) = read_tables c quant_table 1 [0..<5]
      in (map_sum id (\<lambda>context_count. (context_count + 1) div 2) r, quant_table, c))"

text \<open>The tables this code is for: the first half counts up from 0 in steps of \<open>scale\<close>, the second half mirrors it.\<close>

definition quant_ok :: "int \<Rightarrow> int list \<Rightarrow> bool" where
  "quant_ok scale q \<longleftrightarrow> length q = 256 \<and> 0 < scale \<and> q ! 0 = 0 \<and>
     (\<forall>i \<in> {1..<128}. q ! i = q ! (i - 1) \<or> q ! i = q ! (i - 1) + scale) \<and> q ! 127 < 2 ^ 15 \<and>
     (\<forall>i \<in> {1..<128}. q ! (256 - i) = - (q ! i)) \<and> q ! 128 = - (q ! 127)"

definition quant_levels :: "int \<Rightarrow> int list \<Rightarrow> int" where
  "quant_levels scale q = 2 * (q ! 127 div scale) + 1"

text \<open>Five tables, each scaled by the number of contexts of those before it.\<close>

primrec quants_ok :: "int \<Rightarrow> int list list \<Rightarrow> bool" where
  "quants_ok n [] = True"
| "quants_ok n (q # qs) = (quant_ok n q \<and> n * quant_levels n q \<le> 32768 \<and> quants_ok (n * quant_levels n q) qs)"

primrec quants_levels :: "int \<Rightarrow> int list list \<Rightarrow> int" where
  "quants_levels n [] = n"
| "quants_levels n (q # qs) = quants_levels (n * quant_levels n q) qs"

section \<open>A table is read as it was written\<close>

lemma s16_id: "- (2 ^ 15) \<le> x \<Longrightarrow> x < 2 ^ 15 \<Longrightarrow> s16 x = x"
  by (simp add: s16_def signed_take_bit_int_eq_self)

lemma quant_mono: "quant_ok scale q \<Longrightarrow> i \<le> j \<Longrightarrow> j < 128 \<Longrightarrow> q ! i \<le> q ! j"
proof (induction "j - i" arbitrary: j)
  case (Suc n)
  then have "j \<in> {1..<128}" "q ! i \<le> q ! (j - 1)" by auto
  moreover have "q ! j = q ! (j - 1) \<or> q ! j = q ! (j - 1) + scale" "0 < scale"
    using Suc.prems(1) calculation(1) unfolding quant_ok_def by blast+
  ultimately show ?case by linarith
qed simp

lemma quant_range: "quant_ok scale q \<Longrightarrow> j < 128 \<Longrightarrow> 0 \<le> q ! j \<and> q ! j < 2 ^ 15"
  using quant_mono [of scale q 0 j] quant_mono [of scale q j 127] by (simp add: quant_ok_def)

lemma fill_run:
  assumes "a \<le> b" "b \<le> 128" "length cur = 256" "length q = 256" "take a cur = take a q" "\<forall>j \<in> {a..<b}. q ! j = y"
  defines "f \<equiv> foldl (\<lambda>q j. q[j := y]) cur [a..<b]"
  shows "length f = 256" "take b f = take b q" "drop 128 f = drop 128 cur"
proof -
  show l: "length f = 256" using assms(3) by (simp add: f_def foldl_set_range)
  have n: "f ! j = (if a \<le> j \<and> j < b then y else cur ! j)" if "j < 256" for j
    unfolding f_def by (subst foldl_set_range(2)) (use that assms(3) in auto)
  have "cur ! j = q ! j" if "j < a" for j using assms(5) that by (metis nth_take)
  then show "take b f = take b q" using l n assms by (intro nth_equalityI) (auto simp: not_le)
  show "drop 128 f = drop 128 cur" using l n assms by (intro nth_equalityI) auto
qed

lemma codes_one_run:
  assumes "start < i" "i \<le> 128" "s16 (scale * v) = y"
    and rest: "codes lo hi (array_ok lo hi CONTEXT_SIZE) l enc (\<lambda>d st. read_runs d st (foldl (\<lambda>q j. q[j := y]) cur [start..<i]) scale (v + 1) i) w"
  shows "codes lo hi (array_ok lo hi CONTEXT_SIZE) (64 + l) (\<lambda>c st. put_symbol c st (int i - int start - 1) False \<bind> (\<lambda>(c, st). enc c st))
    (\<lambda>d st. read_runs d st cur scale v start) w"
proof -
  let ?x = "int i - int start - 1"
  let ?dec = "\<lambda>x d st. if unat (word_of_int x + 1 :: u32) > 128 - start \<or> unat (word_of_int x + 1 :: u32) = 0
    then ((Inl INVALIDDATA, cur), d, st)
    else read_runs d st (foldl (\<lambda>q j. q[j := s16 (scale * v)]) cur [start..<start + unat (word_of_int x + 1 :: u32)]) scale (v + 1)
      (start + unat (word_of_int x + 1 :: u32))"
  have "word_of_int ?x + 1 = (of_nat (i - start) :: u32)" using assms(1) by (simp add: of_nat_diff)
  then have len: "unat (word_of_int ?x + 1 :: u32) = i - start"
    using assms(2) by (simp add: unat_of_nat)
  have d: "?dec ?x = (\<lambda>d st. read_runs d st (foldl (\<lambda>q j. q[j := y]) cur [start..<i]) scale (v + 1) i)"
  proof -
    have "\<not> (128 - start < i - start \<or> i - start = 0)" "start + (i - start) = i" using assms(1,2) by auto
    then show ?thesis unfolding len assms(3) by (simp only: if_False)
  qed
  have "codes lo hi (array_ok lo hi CONTEXT_SIZE) l enc (?dec ?x) w" unfolding d by (rule rest)
  then have "codes lo hi (array_ok lo hi CONTEXT_SIZE) (64 + l) (\<lambda>c st. put_symbol c st ?x False \<bind> (\<lambda>(c, st). enc c st))
      (\<lambda>d st. case get_symbol d st False of (x, d, st) \<Rightarrow> ?dec x d st) w"
    using assms(1,2) by (intro codes_then_symbol) auto
  moreover have "(\<lambda>d st. case get_symbol d st False of (x, d, st) \<Rightarrow> ?dec x d st) = (\<lambda>d st. read_runs d st cur scale v start)"
    using assms(1,2) by (intro ext) (simp add: read_runs.simps [of _ _ cur] Let_def)
  ultimately show ?thesis by simp
qed

lemma codes_runs:
  assumes q: "quant_ok scale q"
  shows "i \<le> 128 \<Longrightarrow> start < i \<Longrightarrow> \<forall>j \<in> {start..<i}. q ! j = scale * v \<Longrightarrow> length cur = 256 \<Longrightarrow> take start cur = take start q \<Longrightarrow>
    codes lo hi (array_ok lo hi CONTEXT_SIZE) (64 * (129 - i)) (\<lambda>c st. write_runs c st q start [i..<128])
      (\<lambda>d st. read_runs d st cur scale v start) (Inr (q ! 127 div scale + 1), take 128 q @ drop 128 cur)"
proof (induction "128 - i" arbitrary: i start v cur)
  case 0
  then have i: "i = 128" by simp
  let ?f = "foldl (\<lambda>q j. q[j := q' ! 127]) cur [start..<i]"
  have sc: "0 < scale" and lq: "length q = 256" using q by (simp_all add: quant_ok_def)
  have v: "q ! 127 = scale * v" using 0 i by auto
  then have s: "s16 (scale * v) = q ! 127" using quant_range [OF q, of 127] by (simp add: s16_id)
  note f = fill_run [of start i cur q "q ! 127"]
  have "take 128 q @ drop 128 cur = foldl (\<lambda>qs j. qs[j := q ! 127]) cur [start..<128]"
    using f 0 lq v i append_take_drop_id [of 128 "foldl (\<lambda>qs j. qs[j := q ! 127]) cur [start..<128]"] by simp
  moreover have "q ! 127 div scale + 1 = v + 1" using v sc by simp
  ultimately have "codes lo hi (array_ok lo hi CONTEXT_SIZE) 0 (\<lambda>c st. Some (c, st))
      (\<lambda>d st. read_runs d st (foldl (\<lambda>qs j. qs[j := q ! 127]) cur [start..<i]) scale (v + 1) i) (Inr (q ! 127 div scale + 1), take 128 q @ drop 128 cur)"
    using codes_return by (simp add: i read_runs.simps [of _ _ _ _ _ 128])
  from codes_one_run [OF 0(3) _ s this] i show ?case by simp
next
  case (Suc n)
  then have i: "i \<in> {1..<128}" "n = 128 - (i + 1)" "i + 1 \<le> 128" "[i..<128] = i # [i + 1..<128]" by (auto simp: upt_conv_Cons)
  have lq: "length q = 256" and step: "q ! i = q ! (i - 1) \<or> q ! i = q ! (i - 1) + scale" and sc: "0 < scale"
    using q i(1) unfolding quant_ok_def by blast+
  have prev: "q ! (i - 1) = scale * v" using Suc.prems(2,3) by auto
  show ?case
  proof (cases "q ! i = q ! (i - 1)")
    case True
    then have "\<forall>j \<in> {start..<i + 1}. q ! j = scale * v" using Suc.prems(3) prev by (auto simp: less_Suc_eq)
    from Suc.hyps(1) [OF i(2,3) _ this Suc.prems(4,5)] Suc.prems(2)
    have "codes lo hi (array_ok lo hi CONTEXT_SIZE) (64 * (129 - (i + 1))) (\<lambda>c st. write_runs c st q start [i + 1..<128])
      (\<lambda>d st. read_runs d st cur scale v start) (Inr (q ! 127 div scale + 1), take 128 q @ drop 128 cur)" by simp
    then show ?thesis unfolding i(4) write_runs.simps using True by (auto intro: codes_mono)
  next
    case False
    then have qi: "q ! i = scale * (v + 1)" using step prev by (simp add: distrib_left)
    let ?f = "foldl (\<lambda>qs j. qs[j := scale * v]) cur [start..<i]"
    have f: "length ?f = 256" "take i ?f = take i q" "drop 128 ?f = drop 128 cur"
      using fill_run [of start i cur q "scale * v"] Suc.prems lq by simp_all
    have s: "s16 (scale * v) = scale * v" 
    proof -
      have "i - 1 < 128" using i(1) by auto
      from quant_range [OF q this] have "0 \<le> scale * v" "scale * v < 2 ^ 15" unfolding prev by simp_all
      then show ?thesis by (intro s16_id) auto
    qed
    have "codes lo hi (array_ok lo hi CONTEXT_SIZE) (64 * (129 - (i + 1))) (\<lambda>c st. write_runs c st q i [i + 1..<128])
      (\<lambda>d st. read_runs d st ?f scale (v + 1) i) (Inr (q ! 127 div scale + 1), take 128 q @ drop 128 ?f)"
      by (rule Suc.hyps(1) [OF i(2,3) _ _ f(1,2)]) (use qi in auto)
    from codes_one_run [OF Suc.prems(2,1) s this [unfolded f(3)]]
    have "codes lo hi (array_ok lo hi CONTEXT_SIZE) (64 + 64 * (129 - (i + 1)))
      (\<lambda>c st. put_symbol c st (int i - int start - 1) False \<bind> (\<lambda>(c, st). write_runs c st q i [i + 1..<128]))
      (\<lambda>d st. read_runs d st cur scale v start) (Inr (q ! 127 div scale + 1), take 128 q @ drop 128 cur)" .
    moreover have "129 - i = Suc (129 - (i + 1))" using i(1) by auto
    then have "64 + 64 * (129 - (i + 1)) = 64 * (129 - i)" by (simp only: mult_Suc_right)
    ultimately show ?thesis unfolding i(4) write_runs.simps using False by simp
  qed
qed

text \<open>Reading a whole table and five of them. The tables have no state of their own that survives.\<close>

lemma mirror_fold:
  "length cur = 256 \<Longrightarrow> n \<le> 128 \<Longrightarrow>
   length (foldl (\<lambda>q i. q[256 - i := s16 (- (q ! i))]) cur [1..<n]) = 256 \<and>
   (\<forall>j \<le> 128. foldl (\<lambda>q i. q[256 - i := s16 (- (q ! i))]) cur [1..<n] ! j = cur ! j) \<and>
   (\<forall>i \<in> {1..<n}. foldl (\<lambda>q i. q[256 - i := s16 (- (q ! i))]) cur [1..<n] ! (256 - i) = s16 (- (cur ! i)))"
proof (induction n)
  case (Suc n)
  then show ?case by (cases "n = 0") (auto simp: nth_list_update less_Suc_eq)
qed simp

lemma mirror_half:
  assumes q: "quant_ok scale q" and cur: "length cur = 256"
  defines "f \<equiv> foldl (\<lambda>q i. q[256 - i := s16 (- (q ! i))]) (take 128 q @ drop 128 cur) [1..<128]"
  shows "f[128 := s16 (- (f ! 127))] = q"
proof (rule nth_equalityI)
  let ?c = "take 128 q @ drop 128 cur"
  have lq: "length q = 256" using q by (simp add: quant_ok_def)
  have "length ?c = 256" using lq cur by simp
  from mirror_fold [OF this, of 128]
  have f: "length f = 256" "\<And>j. j \<le> 128 \<Longrightarrow> f ! j = ?c ! j" "\<And>i. i \<in> {1..<128} \<Longrightarrow> f ! (256 - i) = s16 (- (?c ! i))"
    unfolding f_def by blast+
  have c: "j < 128 \<Longrightarrow> ?c ! j = q ! j" for j using lq by (simp add: nth_append)
  have s: "j < 128 \<Longrightarrow> s16 (- (q ! j)) = - (q ! j)" for j using quant_range [OF q, of j] by (intro s16_id) auto
  have m: "q ! 128 = - (q ! 127)" "\<And>i. i \<in> {1..<128} \<Longrightarrow> q ! (256 - i) = - (q ! i)" using q unfolding quant_ok_def by blast+
  show "length (f[128 := s16 (- (f ! 127))]) = length q" using f(1) lq by simp
  fix j assume "j < length (f[128 := s16 (- (f ! 127))])"
  then have j: "j < 256" using f(1) by simp
  consider "j < 128" | "j = 128" | "256 - j \<in> {1..<128}" "j = 256 - (256 - j)" using j by fastforce
  then show "f[128 := s16 (- (f ! 127))] ! j = q ! j"
  proof cases
    case 1
    then show ?thesis using f(2) [of j] c [of j] by simp
  next
    case 2
    then show ?thesis using f(1) f(2) [of 127] c [of 127] s [of 127] m(1) by simp
  next
    case 3
    then have "f ! j = s16 (- (?c ! (256 - j)))" "q ! j = - (q ! (256 - j))" using f(3) m(2) by metis+
    moreover have "256 - j < 128" using 3 by simp
    ultimately show ?thesis using c [of "256 - j"] s [of "256 - j"] 3 by auto
  qed
qed

lemma codes_quant_table:
  assumes q: "quant_ok scale q" and cur: "length cur = 256" and t: "0 < lo" "lo \<le> 128" "128 \<le> hi"
  shows "codes lo hi (\<lambda>_ :: unit. True) (64 * 128) (\<lambda>c _. map_option (\<lambda>c. (c, ())) (write_quant_table c q))
    (\<lambda>d _. case read_quant_table d cur scale of (r, q, d) \<Rightarrow> ((r, q), d, ())) (Inr (quant_levels scale q), q)"
  unfolding codes_def
proof (intro allI impI, elim conjE)
  fix c :: range_coder and s :: unit
  assume a: "enc_ok c" "tables_ok lo hi c" "room c (64 * 128)"
  let ?cur = "take 128 q @ drop 128 cur" and ?v = "q ! 127 div scale + 1"
  have runs: "codes lo hi (array_ok lo hi CONTEXT_SIZE) (64 * 128) (\<lambda>c st. write_runs c st q 0 [1..<128])
      (\<lambda>d st. read_runs d st cur scale 0 0) (Inr ?v, ?cur)"
    using codes_runs [OF q, of 1 0 0 cur lo hi] q cur by (simp add: quant_ok_def)
  have fresh: "array_ok lo hi CONTEXT_SIZE fresh_state" using t by (simp add: states_ok_def fresh_state_def)
  obtain c' st' where c': "write_runs c fresh_state q 0 [1..<128] = Some (c', st')" "after (64 * 128) c c'"
    "\<forall>X N d. holds X c' \<and> dec_sync X N c d \<and> rac_len c' \<le> N \<longrightarrow>
      (\<exists>d'. read_runs d fresh_state cur scale 0 0 = ((Inr ?v, ?cur), d', st') \<and> dec_sync X N c' d')"
    by (rule codesE [OF runs a(1,2) fresh a(3)]) blast
  define f where "f = foldl (\<lambda>q i. q[256 - i := s16 (- (q ! i))]) ?cur [1..<128]"
  have mirror: "f[128 := s16 (- (f ! 127))] = q"
    unfolding f_def by (rule mirror_half [OF q cur])
  have "2 * ?v - 1 = quant_levels scale q" by (simp add: quant_levels_def)
  then have rd: "read_quant_table d cur scale = (Inr (quant_levels scale q), q, d')"
    if "read_runs d fresh_state cur scale 0 0 = ((Inr ?v, ?cur), d', st')" for d d'
    unfolding read_quant_table_def that using \<open>2 * ?v - 1 = quant_levels scale q\<close>
    by (simp only: Let_def prod.case sum.case f_def [symmetric] mirror)
  show "\<exists>c' s'. map_option (\<lambda>c. (c, ())) (write_quant_table c q) = Some (c', s') \<and> after (64 * 128) c c' \<and> True \<and>
      (\<forall>X N d. holds X c' \<and> dec_sync X N c d \<and> rac_len c' \<le> N \<longrightarrow>
        (\<exists>d'. (case read_quant_table d cur scale of (r, q, d) \<Rightarrow> ((r, q), d, ())) = ((Inr (quant_levels scale q), q), d', s') \<and> dec_sync X N c' d'))"
    using c' rd by (intro exI [of _ c'] exI [of _ "()"]) (fastforce simp: write_quant_table_def)
qed

lemma codes_return_unit: "codes lo hi (\<lambda>_ :: unit. True) 0 (\<lambda>c _. Some (c, ())) (\<lambda>d _. (v, d, ())) v"
  by (auto simp: codes_def after_def)

lemma codes_tables:
  assumes t: "0 < lo" "lo \<le> 128" "128 \<le> hi" and l: "length qt = m"
  shows "k \<le> m \<Longrightarrow> quants_ok n (drop k qt) \<Longrightarrow> length cur = m \<Longrightarrow> \<forall>q \<in> set cur. length q = 256 \<Longrightarrow> take k cur = take k qt \<Longrightarrow>
    codes lo hi (\<lambda>_ :: unit. True) (64 * 128 * (m - k)) (\<lambda>c _. map_option (\<lambda>c. (c, ())) (write_tables c qt [k..<m]))
      (\<lambda>d _. case read_tables d cur n [k..<m] of (r, q, d) \<Rightarrow> ((r, q), d, ())) (Inr (quants_levels n (drop k qt)), qt)"
proof (induction "m - k" arbitrary: k n cur)
  case 0
  have "codes lo hi (\<lambda>_ :: unit. True) 0 (\<lambda>c _. Some (c, ())) (\<lambda>d _. ((Inr n, qt), d, ())) (Inr n, qt)"
    by (rule codes_return_unit)
  then show ?case using 0 l by simp
next
  case (Suc r)
  then have k: "k < m" "r = m - (k + 1)" "k + 1 \<le> m" "[k..<m] = k # [k + 1..<m]" by (auto simp: upt_conv_Cons)
  let ?q = "qt ! k"
  have d: "drop k qt = ?q # drop (k + 1) qt" using k(1) l by (simp add: Cons_nth_drop_Suc)
  have q: "quant_ok n ?q" "n * quant_levels n ?q \<le> 32768" "quants_ok (n * quant_levels n ?q) (drop (k + 1) qt)"
    using Suc.prems(2) unfolding d by simp_all
  have cl: "length (cur ! k) = 256" using Suc.prems k by simp
  let ?cur = "cur[k := ?q]"
  have c: "length ?cur = m" "\<forall>q \<in> set ?cur. length q = 256" "take (k + 1) ?cur = take (k + 1) qt"
  proof -
    show "length ?cur = m" using Suc.prems by simp
    have "length ?q = 256" using q(1) by (simp add: quant_ok_def)
    then show "\<forall>q \<in> set ?cur. length q = 256" using Suc.prems(4) set_update_subset_insert [of cur k ?q] by auto
    show "take (k + 1) ?cur = take (k + 1) qt" using Suc.prems(3,5) k(1) l by (simp add: take_Suc_conv_app_nth)
  qed
  let ?dec = "\<lambda>x d (_ :: unit). case x of (Inl e, q) \<Rightarrow> ((Inl e, cur[k := q]), d, ())
    | (Inr ret, q) \<Rightarrow> if n * ret > 32768 then ((Inl INVALIDDATA, cur[k := q]), d, ())
        else (case read_tables d (cur[k := q]) (n * ret) [k + 1..<m] of (r, q, d) \<Rightarrow> ((r, q), d, ()))"
  have "codes lo hi (\<lambda>_ :: unit. True) (64 * 128 * (m - (k + 1))) (\<lambda>c _. map_option (\<lambda>c. (c, ())) (write_tables c qt [k + 1..<m]))
      (?dec (Inr (quant_levels n ?q), ?q)) (Inr (quants_levels (n * quant_levels n ?q) (drop (k + 1) qt)), qt)"
    using Suc.hyps(1) [OF k(2,3) q(3) c] q(2) by (simp add: not_less)
  from codes_bind [OF codes_quant_table [OF q(1) cl t], where dec' = ?dec, OF this]
  have cb: "codes lo hi (\<lambda>_ :: unit. True) (64 * 128 + 64 * 128 * (m - (k + 1)))
      (\<lambda>c s. map_option (\<lambda>c. (c, ())) (write_quant_table c ?q) \<bind> (\<lambda>(c, s). map_option (\<lambda>c. (c, ())) (write_tables c qt [k + 1..<m])))
      (\<lambda>d s. case (case read_quant_table d (cur ! k) n of (r, q, d) \<Rightarrow> ((r, q), d, ())) of (x, d, s) \<Rightarrow> ?dec x d s)
      (Inr (quants_levels (n * quant_levels n ?q) (drop (k + 1) qt)), qt)" .
  have e1: "(\<lambda>c (s :: unit). map_option (\<lambda>c. (c, ())) (write_quant_table c ?q) \<bind> (\<lambda>(c, s). map_option (\<lambda>c. (c, ())) (write_tables c qt [k + 1..<m]))) =
      (\<lambda>c _. map_option (\<lambda>c. (c, ())) (write_tables c qt [k..<m]))"
    unfolding k(4) by (intro ext) (simp split: Option.bind_split)
  have e2: "(\<lambda>d s. case (case read_quant_table d (cur ! k) n of (r, q, d) \<Rightarrow> ((r, q), d, ())) of (x, d, s) \<Rightarrow> ?dec x d s) =
      (\<lambda>d _. case read_tables d cur n [k..<m] of (r, q, d) \<Rightarrow> ((r, q), d, ()))"
    unfolding k(4) by (intro ext) (auto simp: Let_def split: prod.split sum.split)
  have "m - k = Suc (m - (k + 1))" using k(1) by simp
  then have e3: "64 * 128 + 64 * 128 * (m - (k + 1)) = 64 * 128 * (m - k)" by (simp only: mult_Suc_right)
  show ?case using cb unfolding e1 e2 e3 d quants_levels.simps .
qed

lemma codes_quant_tables:
  assumes "0 < lo" "lo \<le> 128" "128 \<le> hi" "length qt = 5" "quants_ok 1 qt" "length cur = 5" "\<forall>q \<in> set cur. length q = 256"
  shows "codes lo hi (\<lambda>_ :: unit. True) (64 * 128 * 5) (\<lambda>c _. map_option (\<lambda>c. (c, ())) (write_quant_tables c qt))
    (\<lambda>d _. case read_quant_tables d cur of (r, q, d) \<Rightarrow> ((r, q), d, ())) (Inr ((quants_levels 1 qt + 1) div 2), qt)"
proof -
  have t: "codes lo hi (\<lambda>_ :: unit. True) (64 * 128 * 5) (\<lambda>c _. map_option (\<lambda>c. (c, ())) (write_tables c qt [0..<5]))
      (\<lambda>d _. case read_tables d cur 1 [0..<5] of (r, q, d) \<Rightarrow> ((r, q), d, ())) (Inr (quants_levels 1 qt), qt)"
    using codes_tables [OF assms(1-4), of 0 1 cur] assms(5-7) by (simp only: drop_0 take_0 diff_zero le0 simp_thms)
  have "codes lo hi (\<lambda>_ :: unit. True) (64 * 128 * 5 + 0)
      (\<lambda>c s. map_option (\<lambda>c. (c, ())) (write_tables c qt [0..<5]) \<bind> (\<lambda>(c, s). Some (c, s)))
      (\<lambda>d s. case (case read_tables d cur 1 [0..<5] of (r, q, d) \<Rightarrow> ((r, q), d, ())) of (x, d, s) \<Rightarrow>
        (\<lambda>x d s. ((map_sum id (\<lambda>n. (n + 1) div 2) (fst x), snd x), d, s)) x d s) (Inr ((quants_levels 1 qt + 1) div 2), qt)"
    by (rule codes_bind [OF t]) (simp only: fst_conv snd_conv map_sum.simps codes_return)
  moreover have "x \<bind> (\<lambda>(c, s). Some (c, s)) = x" for x :: "(range_coder \<times> unit) option" by (cases x) auto
  ultimately show ?thesis
    unfolding write_quant_tables_def read_quant_tables_def Let_def by (simp only: add_0_right) (simp add: case_prod_beta' split_beta)
qed


section \<open>Tables read from any input\<close>

text \<open>\<open>runs_read cur scale v i\<close>: the first \<open>i\<close> entries are levels that count up from 0, times \<open>scale\<close>; the next is level \<open>v\<close>.\<close>

definition runs_read :: "int list \<Rightarrow> int \<Rightarrow> int \<Rightarrow> nat \<Rightarrow> bool" where
  "runs_read cur scale v i \<longleftrightarrow> length cur = 256 \<and> i \<le> 128 \<and> (i = 0 \<longrightarrow> v = 0) \<and>
     (\<exists>a. a 0 = 0 \<and> (\<forall>j \<in> {1..<i}. a j = a (j - 1) \<or> a j = a (j - 1) + 1) \<and> (\<forall>j < i. cur ! j = s16 (scale * a j)) \<and>
       (0 < i \<longrightarrow> v = a (i - 1) + 1))"

lemma runs_read_fill:
  assumes r: "runs_read cur scale v i" and len: "0 < len" "len \<le> 128 - i"
  shows "runs_read (foldl (\<lambda>q j. q[j := s16 (scale * v)]) cur [i..<i + len]) scale (v + 1) (i + len)"
proof -
  obtain a where a: "a 0 = 0" "\<forall>j \<in> {1..<i}. a j = a (j - 1) \<or> a j = a (j - 1) + 1" "\<forall>j < i. cur ! j = s16 (scale * a j)"
    "0 < i \<longrightarrow> v = a (i - 1) + 1" and l: "length cur = 256" "i \<le> 128" "i = 0 \<longrightarrow> v = 0"
    using r unfolding runs_read_def by blast
  define b where "b = (\<lambda>j. if j < i then a j else v)"
  let ?f = "foldl (\<lambda>q j. q[j := s16 (scale * v)]) cur [i..<i + len]"
  have n: "?f ! j = (if i \<le> j \<and> j < i + len then s16 (scale * v) else cur ! j)" if "j < 256" for j
    by (subst foldl_set_range(2)) (use that l(1) in auto)
  have step: "b j = b (j - 1) \<or> b j = b (j - 1) + 1" if j: "j \<in> {1..<i + len}" for j
  proof -
    consider "j < i" | "j = i" "0 < i" | "i < j" using j by fastforce
    then show ?thesis using a(2,4) j by cases (auto simp: b_def)
  qed
  have "b 0 = 0" using a(1) l(3) by (simp add: b_def)
  moreover have "\<forall>j < i + len. ?f ! j = s16 (scale * b j)" using n a(3) l(2) len by (auto simp: b_def)
  moreover have "\<not> i + len - 1 < i" using len by simp
  then have "v + 1 = b (i + len - 1) + 1" unfolding b_def by (simp only: if_False)
  ultimately show ?thesis
    unfolding runs_read_def using step l len by (intro conjI exI [of _ b]) (simp_all add: foldl_set_range(1))
qed

lemma read_runs_read:
  "runs_read cur scale v i \<Longrightarrow> read_runs c state cur scale v i = ((r, q), c', state') \<Longrightarrow>
   length q = 256 \<and> (case r of Inl e \<Rightarrow> e = INVALIDDATA | Inr w \<Rightarrow> runs_read q scale w 128)"
proof (induction c state cur scale v i rule: read_runs.induct)
  case (1 c state cur scale v i)
  show ?case
  proof (cases "i < 128")
    case True
    obtain x c1 st1 where x: "get_symbol c state False = (x, c1, st1)" by (metis prod_cases3)
    define len where "len = unat (word_of_int x + 1 :: u32)"
    show ?thesis
    proof (cases "len > 128 - i \<or> len = 0")
      case bad: True
      then have "((Inl INVALIDDATA, cur), c1, st1) = ((r, q), c', state')"
        using "1.prems"(2) True x unfolding read_runs.simps [of c] by (simp add: len_def)
      then show ?thesis using "1.prems"(1) by (auto simp: runs_read_def)
    next
      case ok: False
      have "read_runs c1 st1 (foldl (\<lambda>q j. q[j := s16 (scale * v)]) cur [i..<i + len]) scale (v + 1) (i + len) = ((r, q), c', state')"
        using "1.prems"(2) True x ok unfolding read_runs.simps [of c] by (simp add: len_def Let_def)
      moreover have "runs_read (foldl (\<lambda>q j. q[j := s16 (scale * v)]) cur [i..<i + len]) scale (v + 1) (i + len)"
        by (rule runs_read_fill [OF "1.prems"(1)]) (use ok in auto)
      ultimately show ?thesis using "1.IH" [OF True x [symmetric] refl refl len_def] ok by blast
    qed
  next
    case False
    then have "i = 128" "r = Inr v" "q = cur" using "1.prems" by (auto simp: read_runs.simps [of c] runs_read_def)
    then show ?thesis using "1.prems"(1) by (simp add: runs_read_def)
  qed
qed

lemma levels_mono:
  fixes a :: "nat \<Rightarrow> int"
  assumes "\<forall>j \<in> {1..<n}. a j = a (j - 1) \<or> a j = a (j - 1) + 1" "i \<le> j" "j < n"
  shows "a i \<le> a j"
  using assms(2,3)
proof (induction j)
  case (Suc j)
  show ?case
  proof (cases "i = Suc j")
    case False
    then have "a i \<le> a j" using Suc by simp
    moreover have "a (Suc j) = a j \<or> a (Suc j) = a j + 1" using bspec [OF assms(1), of "Suc j"] Suc.prems(2) by simp
    ultimately show ?thesis by linarith
  qed simp
qed simp

lemma level_scale: "0 < n \<Longrightarrow> 0 \<le> x \<Longrightarrow> n * (2 * x + 1) \<le> 32768 \<Longrightarrow> n * x \<le> 16384" for n x :: int
proof -
  assume a: "0 < n" "n * (2 * x + 1) \<le> 32768"
  have "n * (2 * x + 1) = 2 * (n * x) + n" by (simp add: algebra_simps)
  then show "n * x \<le> 16384" using a by linarith
qed

lemma read_quant_table_ok:
  assumes cur: "length cur = 256" and n: "0 < n" and r: "read_quant_table c cur n = (r, q, c')"
  shows "length q = 256 \<and> (case r of Inl e \<Rightarrow> e = INVALIDDATA
    | Inr ret \<Rightarrow> 0 < ret \<and> (n * ret \<le> 32768 \<longrightarrow> quant_ok n q \<and> ret = quant_levels n q))"
proof -
  obtain r0 q0 c0 st0 where rr: "read_runs c fresh_state cur n 0 0 = ((r0, q0), c0, st0)" by (metis prod.exhaust)
  have "runs_read cur n 0 0" unfolding runs_read_def using cur by (intro conjI exI [of _ "\<lambda>_. 0"]) simp_all
  note R = read_runs_read [OF this rr]
  show ?thesis
  proof (cases r0)
    case (Inl e)
    then have "r = Inl e" "q = q0" using r rr by (simp_all add: read_quant_table_def)
    then show ?thesis using R Inl by simp
  next
    case (Inr v)
    define f where "f = foldl (\<lambda>q i. q[256 - i := s16 (- (q ! i))]) q0 [1..<128]"
    have q: "r = Inr (2 * v - 1)" "q = f[128 := s16 (- (f ! 127))]"
      using r rr Inr by (simp_all add: read_quant_table_def f_def Let_def)
    have "runs_read q0 n v 128" using R Inr by simp
    then obtain a where a: "a 0 = 0" "\<forall>j \<in> {1..<128}. a j = a (j - 1) \<or> a j = a (j - 1) + 1" "\<forall>j < 128. q0 ! j = s16 (n * a j)"
      "v = a 127 + 1" and l: "length q0 = 256" unfolding runs_read_def by auto
    have ge: "0 \<le> a j" "a j \<le> a 127" if "j < 128" for j
      using levels_mono [OF a(2), of 0 j] levels_mono [OF a(2), of j 127] a(1) that by simp_all
    from mirror_fold [OF l, of 128]
    have f: "length f = 256" "\<And>j. j \<le> 128 \<Longrightarrow> f ! j = q0 ! j" "\<And>i. i \<in> {1..<128} \<Longrightarrow> f ! (256 - i) = s16 (- (q0 ! i))"
      unfolding f_def by blast+
    have "quant_ok n q \<and> 2 * v - 1 = quant_levels n q" if small: "n * (2 * v - 1) \<le> 32768"
    proof -
      have "n * (2 * a 127 + 1) \<le> 32768" using small a(4) by (simp add: algebra_simps)
      then have "n * a 127 \<le> 16384" using level_scale n ge(1) [of 127] by simp
      moreover have "n * a j \<le> n * a 127" "0 \<le> n * a j" if "j < 128" for j using ge [OF that] n by simp_all
      ultimately have s: "0 \<le> n * a j" "n * a j \<le> 16384" if "j < 128" for j using that by fastforce+
      have q0: "q0 ! j = n * a j" "s16 (- (n * a j)) = - (n * a j)" if "j < 128" for j
        using a(3) s [OF that] that by (auto intro!: s16_id)
      have nth: "q ! j = n * a j" if "j < 128" for j using that f(1,2) q0(1) by (simp add: q(2))
      have up: "q ! i = q ! (i - 1) \<or> q ! i = q ! (i - 1) + n" if i: "i \<in> {1..<128}" for i
      proof -
        have "a i = a (i - 1) \<or> a i = a (i - 1) + 1" using a(2) i by blast
        then show ?thesis using nth [of i] nth [of "i - 1"] i by (auto simp: distrib_left)
      qed
      have mid: "q ! 128 = - (q ! 127)" using f(1,2) q0 [of 127] nth [of 127] by (simp add: q(2))
      have low: "q ! (256 - i) = - (q ! i)" if i: "i \<in> {1..<128}" for i
      proof -
        have "256 - i \<noteq> 128" "i < 128" using i by auto
        then show ?thesis using f(3) [OF i] q0 [of i] nth [of i] unfolding q(2) by simp
      qed
      have "quant_ok n q"
        unfolding quant_ok_def using f(1) n up mid low nth [of 0] nth [of 127] a(1) s(2) [of 127] by (simp add: q(2))
      moreover have "2 * v - 1 = quant_levels n q" unfolding quant_levels_def using nth [of 127] n a(4) by simp
      ultimately show ?thesis by simp
    qed
    then show ?thesis using q f(1) a(4) ge(1) [of 127] by simp
  qed
qed


lemma quant_levels_pos: "quant_ok n q \<Longrightarrow> 0 < quant_levels n q"
proof -
  assume q: "quant_ok n q"
  then have "0 \<le> q ! 127 div n" using quant_range [OF q, of 127] by (intro pos_imp_zdiv_nonneg_iff [THEN iffD2]) (simp_all add: quant_ok_def)
  then show ?thesis by (simp add: quant_levels_def)
qed

lemma quants_levels_range: "quants_ok n qs \<Longrightarrow> 0 < n \<Longrightarrow> n \<le> 32768 \<Longrightarrow> 0 < quants_levels n qs \<and> quants_levels n qs \<le> 32768"
proof (induction qs arbitrary: n)
  case (Cons q qs)
  then show ?case using quant_levels_pos [of n q] by simp
qed simp

lemma read_tables_ok:
  "i \<le> 5 \<Longrightarrow> length t = 5 \<Longrightarrow> \<forall>q \<in> set t. length q = 256 \<Longrightarrow> 0 < n \<Longrightarrow> read_tables c t n [i..<5] = (r, t', c') \<Longrightarrow>
   length t' = 5 \<and> (\<forall>q \<in> set t'. length q = 256) \<and> take i t' = take i t \<and>
   (case r of Inl e \<Rightarrow> e = INVALIDDATA | Inr m \<Rightarrow> quants_ok n (drop i t') \<and> m = quants_levels n (drop i t'))"
proof (induction "5 - i" arbitrary: i t n c)
  case 0
  then show ?case by auto
next
  case (Suc k)
  then have i: "i < 5" "[i..<5] = i # [i + 1..<5]" "k = 5 - (i + 1)" by (auto simp: upt_conv_Cons)
  obtain r1 q c1 where q: "read_quant_table c (t ! i) n = (r1, q, c1)" by (metis prod_cases3)
  have "length (t ! i) = 256" using Suc.prems(2,3) i(1) by simp
  note ok = read_quant_table_ok [OF this Suc.prems(4) q]
  let ?t = "t[i := q]"
  have t: "length ?t = 5" "\<forall>q \<in> set ?t. length q = 256" "take i ?t = take i t"
    using Suc.prems(2,3) ok by (auto dest!: set_update_subset_insert [THEN subsetD])
  show ?case
  proof (cases r1)
    case (Inl e)
    then show ?thesis using Suc.prems(5) q ok t by (auto simp: i(2) Let_def)
  next
    case (Inr ret)
    show ?thesis
    proof (cases "n * ret > 32768")
      case True
      then show ?thesis using Suc.prems(5) q Inr t by (auto simp: i(2) Let_def)
    next
      case False
      then have o: "quant_ok n q" "ret = quant_levels n q" "0 < ret" using ok Inr by simp_all
      have rt: "read_tables c1 ?t (n * ret) [i + 1..<5] = (r, t', c')" using Suc.prems(5) q Inr False by (simp add: i(2) Let_def)
      have IH: "length t' = 5 \<and> (\<forall>q \<in> set t'. length q = 256) \<and> take (i + 1) t' = take (i + 1) ?t \<and>
        (case r of Inl e \<Rightarrow> e = INVALIDDATA | Inr m \<Rightarrow> quants_ok (n * ret) (drop (i + 1) t') \<and> m = quants_levels (n * ret) (drop (i + 1) t'))"
        by (rule Suc.hyps(1) [OF i(3) _ t(1,2) _ rt]) (use i(1) o(3) Suc.prems(4) in simp_all)
      then have "take (i + 1) t' ! i = take (i + 1) ?t ! i" by simp
      then have ti: "t' ! i = q" using i(1) Suc.prems(2) by simp
      have "take i (take (i + 1) t') = take i (take (i + 1) ?t)" using IH by simp
      then have tk: "take i t' = take i t" by simp
      have dr: "drop i t' = q # drop (i + 1) t'" using i(1) IH ti by (metis Cons_nth_drop_Suc Suc_eq_plus1)
      show ?thesis using IH tk o False unfolding dr by (auto split: sum.splits)
    qed
  qed
qed

lemma read_quant_tables_ok:
  assumes "length t = 5" "\<forall>q \<in> set t. length q = 256" "read_quant_tables c t = (r, t', c')"
  shows "length t' = 5 \<and> (\<forall>q \<in> set t'. length q = 256) \<and>
    (case r of Inl e \<Rightarrow> e = INVALIDDATA | Inr m \<Rightarrow> quants_ok 1 t' \<and> m = (quants_levels 1 t' + 1) div 2 \<and> 1 \<le> m \<and> m \<le> 16384)"
proof -
  obtain r0 where t: "read_tables c t 1 [0..<5] = (r0, t', c')" and r: "r = map_sum id (\<lambda>n. (n + 1) div 2) r0"
    using assms(3) unfolding read_quant_tables_def by (auto simp: Let_def split: prod.splits)
  from read_tables_ok [OF zero_le assms(1,2) zero_less_one t, unfolded drop_0]
  have "length t' = 5" "\<forall>q \<in> set t'. length q = 256"
    "case r0 of Inl e \<Rightarrow> e = INVALIDDATA | Inr m \<Rightarrow> quants_ok 1 t' \<and> m = quants_levels 1 t'" by simp_all
  then show ?thesis using r quants_levels_range [of 1 t'] by (auto split: sum.splits)
qed


lemma get_symbol_range: "get_symbol c st s = (x, c', st') \<Longrightarrow> is_s32 x"
proof -
  have "is_s32 (sint (w :: u32))" for w using sint_ge [of w] sint_lt [of w] by (simp add: is_s32_def)
  moreover have "is_s32 0" "is_s32 AVERROR_INVALIDDATA" by (simp_all add: is_s32_def)
  ultimately show "get_symbol c st s = (x, c', st') \<Longrightarrow> is_s32 x"
    unfolding get_symbol_eq get_magnitude_def get_sign_def by (auto split: prod.splits if_splits option.splits)
qed

end
