(* ===== verification/Ffv1Header.thy ===== *)
theory Ffv1Header imports Ffv1Symbol AvCrc
begin

text \<open>
  The global header of FFV1, its extradata: \<open>write_extradata\<close> of \<open>libavcodec/ffv1enc.c\<close> and \<open>read_extra_header\<close> of
  \<open>ffv1dec.c\<close>, with \<open>ff_ffv1_allocate_initial_states\<close> of \<open>ffv1.c\<close>. Everything is coded as symbols by one range coder, and
  followed by a CRC. The record holds the part of \<open>FFV1Context\<close> (and of the \<open>AVCodecContext\<close> it points to) that they use.
\<close>

section \<open>The context\<close>

abbreviation AC_RANGE_CUSTOM_TAB :: int where "AC_RANGE_CUSTOM_TAB \<equiv> 2"
abbreviation MAX_QUANT_TABLES :: nat where "MAX_QUANT_TABLES \<equiv> 8"
abbreviation MAX_CONTEXT_INPUTS :: nat where "MAX_CONTEXT_INPUTS \<equiv> 5"

record ffv1_context =
  fc_c :: range_coder
  fc_extradata :: bytes
  fc_extradata_size :: nat
  fc_gop_size :: int
  fc_width :: int
  fc_height :: int
  fc_version :: int
  fc_micro_version :: int
  fc_ac :: int
  fc_state_transition :: bytes
  fc_colorspace :: int
  fc_bits_per_raw_sample :: int
  fc_chroma_planes :: int
  fc_chroma_h_shift :: int
  fc_chroma_v_shift :: int
  fc_transparency :: int
  fc_plane_count :: int
  fc_num_h_slices :: int
  fc_num_v_slices :: int
  fc_quant_table_count :: int
  fc_quant_tables :: "int list list list"
  fc_context_count :: "int list"
  fc_initial_states :: "bytes list option list"
  fc_ec :: int
  fc_intra :: int

section \<open>Writing\<close>

primrec write_transitions :: "range_coder \<Rightarrow> bytes \<Rightarrow> bytes \<Rightarrow> bytes \<Rightarrow> nat list \<Rightarrow> (range_coder \<times> bytes) option" where
  "write_transitions c state tr one [] = Some (c, state)"
| "write_transitions c state tr one (i # is) = do {
     (c, state) \<leftarrow> put_symbol c state (uint (tr ! i) - uint (one ! i)) True;
     write_transitions c state tr one is }"

text \<open>From \<open>f->ac\<close> to \<open>f->quant_table_count\<close>.\<close>

definition write_params :: "ffv1_context \<Rightarrow> range_coder \<Rightarrow> bytes \<Rightarrow> (range_coder \<times> bytes) option" where
  "write_params f c state = do {
     (c, state) \<leftarrow> put_symbol c state (fc_ac f) False;
     (c, state) \<leftarrow> (if fc_ac f = AC_RANGE_CUSTOM_TAB
        then write_transitions c state (fc_state_transition f) (one_state c) [1..<256] else Some (c, state));
     (c, state) \<leftarrow> put_symbol c state (fc_colorspace f) False;
     (c, state) \<leftarrow> put_symbol c state (fc_bits_per_raw_sample f) False;
     (c, state) \<leftarrow> put_rac c state 0 (fc_chroma_planes f \<noteq> 0);
     (c, state) \<leftarrow> put_symbol c state (fc_chroma_h_shift f) False;
     (c, state) \<leftarrow> put_symbol c state (fc_chroma_v_shift f) False;
     (c, state) \<leftarrow> put_rac c state 0 (fc_transparency f \<noteq> 0);
     (c, state) \<leftarrow> put_symbol c state (fc_num_h_slices f - 1) False;
     (c, state) \<leftarrow> put_symbol c state (fc_num_v_slices f - 1) False;
     put_symbol c state (fc_quant_table_count f) False }"

primrec write_all_tables :: "ffv1_context \<Rightarrow> range_coder \<Rightarrow> nat list \<Rightarrow> range_coder option" where
  "write_all_tables f c [] = Some c"
| "write_all_tables f c (i # is) = do { c \<leftarrow> write_quant_tables c (fc_quant_tables f ! i); write_all_tables f c is }"

definition contains_non_128 :: "bytes list option \<Rightarrow> nat \<Rightarrow> bool" where
  "contains_non_128 initial_state nb_contexts =
     (case initial_state of None \<Rightarrow> False
      | Some rows \<Rightarrow> list_ex (\<lambda>i. list_ex (\<lambda>j. rows ! i ! j \<noteq> 128) [0..<CONTEXT_SIZE]) [0..<nb_contexts])"

definition state_pred :: "bytes list \<Rightarrow> nat \<Rightarrow> nat \<Rightarrow> int" where
  "state_pred rows j k = (if j \<noteq> 0 then uint (rows ! (j - 1) ! k) else 128)"

primrec write_state_row :: "range_coder \<Rightarrow> bytes list \<Rightarrow> bytes list \<Rightarrow> nat \<Rightarrow> nat list \<Rightarrow> (range_coder \<times> bytes list) option" where
  "write_state_row c state2 rows j [] = Some (c, state2)"
| "write_state_row c state2 rows j (k # ks) = do {
     (c, s) \<leftarrow> put_symbol c (state2 ! k) (s8 (uint (rows ! j ! k) - state_pred rows j k)) True;
     write_state_row c (state2[k := s]) rows j ks }"

primrec write_state_rows :: "range_coder \<Rightarrow> bytes list \<Rightarrow> bytes list \<Rightarrow> nat list \<Rightarrow> (range_coder \<times> bytes list) option" where
  "write_state_rows c state2 rows [] = Some (c, state2)"
| "write_state_rows c state2 rows (j # js) = do {
     (c, state2) \<leftarrow> write_state_row c state2 rows j [0..<CONTEXT_SIZE];
     write_state_rows c state2 rows js }"

primrec write_states :: "ffv1_context \<Rightarrow> range_coder \<Rightarrow> bytes \<times> bytes list \<Rightarrow> nat list \<Rightarrow> (range_coder \<times> bytes \<times> bytes list) option" where
  "write_states f c s [] = Some (c, s)"
| "write_states f c s (i # is) =
     (if contains_non_128 (fc_initial_states f ! i) (nat (fc_context_count f ! i))
      then do {
        (c, state) \<leftarrow> put_rac c (fst s) 0 True;
        (c, state2) \<leftarrow> write_state_rows c (snd s) (the (fc_initial_states f ! i)) [0..<nat (fc_context_count f ! i)];
        write_states f c (state, state2) is }
      else do {
        (c, state) \<leftarrow> put_rac c (fst s) 0 False;
        write_states f c (state, snd s) is })"

definition write_intra :: "ffv1_context \<Rightarrow> range_coder \<Rightarrow> bytes \<Rightarrow> (range_coder \<times> bytes) option" where
  "write_intra f c state =
     (if fc_version f > 2 then do {
        (c, state) \<leftarrow> put_symbol c state (fc_ec f) False;
        put_symbol c state (fc_intra f) False }
      else Some (c, state))"

definition fresh_states :: "bytes list" where "fresh_states = replicate 32 (replicate CONTEXT_SIZE 128)"

abbreviation EXTRADATA_SIZE :: nat where "EXTRADATA_SIZE \<equiv> 10000 + 4 + (11 * 11 * 5 * 5 * 5 + 11 * 11 * 11) * 32"

text \<open>\<open>av_malloc\<close> gives \<open>buf\<close> or fails. The assignments to \<open>micro_version\<close> and \<open>intra\<close>, which the code makes on the way,
  come first here; the code before them does not read these fields. No value: a write outside the buffer.\<close>

definition write_extradata :: "crc_config \<Rightarrow> crc_state \<Rightarrow> nat \<Rightarrow> bytes option \<Rightarrow> ffv1_context \<Rightarrow> ((averror + unit) \<times> ffv1_context) option" where
  "write_extradata cfg crcs addr buf f =
     (case buf of None \<Rightarrow> Some (Inl ENOMEM, f\<lparr>fc_extradata := [], fc_extradata_size := EXTRADATA_SIZE\<rparr>)
      | Some buf \<Rightarrow>
          let c = ff_build_rac_states (ff_init_range_encoder (fc_c f) buf EXTRADATA_SIZE) 214748364 (256 - 8);
              f = f\<lparr>fc_micro_version := (if fc_version f = 3 then 4 else if fc_version f = 4 then 2 else fc_micro_version f),
                    fc_intra := (if fc_version f > 2 then of_bool (fc_gop_size f < 2) else fc_intra f)\<rparr>
          in do {
            (c, state) \<leftarrow> put_symbol c fresh_state (fc_version f) False;
            (c, state) \<leftarrow> (if fc_version f > 2 then put_symbol c state (fc_micro_version f) False else Some (c, state));
            (c, state) \<leftarrow> write_params f c state;
            c \<leftarrow> write_all_tables f c [0..<nat (fc_quant_table_count f)];
            (c, state, state2) \<leftarrow> write_states f c (state, fresh_states) [0..<nat (fc_quant_table_count f)];
            (c, state) \<leftarrow> write_intra f c state;
            (n, c) \<leftarrow> ff_rac_terminate c 0;
            (tab, _) \<leftarrow> av_crc_get_table cfg AV_CRC_32_IEEE crcs;
            let v = av_crc cfg tab 0 addr (take n (rc_mem c));
            if n + 4 \<le> length (rc_mem c)
            then Some (Inr (), f\<lparr>fc_c := c, fc_extradata := take n (rc_mem c) @ AV_WL32 v @ drop (n + 4) (rc_mem c),
                                 fc_extradata_size := n + 4\<rparr>)
            else None })"

section \<open>Reading\<close>

primrec read_transitions :: "range_coder \<Rightarrow> bytes \<Rightarrow> bytes \<Rightarrow> bytes \<Rightarrow> nat list \<Rightarrow> bytes \<times> range_coder \<times> bytes" where
  "read_transitions c state tr one [] = (tr, c, state)"
| "read_transitions c state tr one (i # is) =
     (let (x, c, state) = get_symbol c state True
      in read_transitions c state (tr[i := word_of_int (x + uint (one ! i))]) one is)"

definition plane_count :: "int \<Rightarrow> int \<Rightarrow> int \<Rightarrow> int" where
  "plane_count chroma_planes version transparency = 1 + of_bool (chroma_planes \<noteq> 0 \<or> version < 4) + transparency"

definition read_params :: "ffv1_context \<Rightarrow> range_coder \<Rightarrow> bytes \<Rightarrow> (averror option \<times> ffv1_context) \<times> range_coder \<times> bytes" where
  "read_params f c state =
     (let (x, c, state) = get_symbol c state False;
          f = f\<lparr>fc_ac := x\<rparr>;
          (tr, c, state) = (if fc_ac f = AC_RANGE_CUSTOM_TAB
            then read_transitions c state (fc_state_transition f) (one_state c) [1..<256] else (fc_state_transition f, c, state));
          f = f\<lparr>fc_state_transition := tr\<rparr>;
          (x, c, state) = get_symbol c state False;
          f = f\<lparr>fc_colorspace := x\<rparr>;
          (x, c, state) = get_symbol c state False;
          f = f\<lparr>fc_bits_per_raw_sample := x\<rparr>;
          (b, c, state) = get_rac c state 0;
          f = f\<lparr>fc_chroma_planes := of_bool b\<rparr>;
          (x, c, state) = get_symbol c state False;
          f = f\<lparr>fc_chroma_h_shift := x\<rparr>;
          (x, c, state) = get_symbol c state False;
          f = f\<lparr>fc_chroma_v_shift := x\<rparr>;
          (b, c, state) = get_rac c state 0;
          f = f\<lparr>fc_transparency := of_bool b\<rparr>;
          f = f\<lparr>fc_plane_count := plane_count (fc_chroma_planes f) (fc_version f) (fc_transparency f)\<rparr>;
          (x, c, state) = get_symbol c state False;
          f = f\<lparr>fc_num_h_slices := s32 (1 + x)\<rparr>;
          (x, c, state) = get_symbol c state False;
          f = f\<lparr>fc_num_v_slices := s32 (1 + x)\<rparr>
      in if (word_of_int (fc_chroma_h_shift f) :: u32) > 4 \<or> (word_of_int (fc_chroma_v_shift f) :: u32) > 4
         then ((Some INVALIDDATA, f), c, state)
         else if (word_of_int (fc_num_h_slices f) :: u32) > word_of_int (fc_width f) \<or> fc_num_h_slices f = 0 \<or>
                 (word_of_int (fc_num_v_slices f) :: u32) > word_of_int (fc_height f) \<or> fc_num_v_slices f = 0
         then ((Some INVALIDDATA, f), c, state)
         else let (x, c, state) = get_symbol c state False;
                  f = f\<lparr>fc_quant_table_count := x\<rparr>
              in if (word_of_int x :: u32) > of_nat MAX_QUANT_TABLES \<or> x = 0
                 then ((Some INVALIDDATA, f\<lparr>fc_quant_table_count := 0\<rparr>), c, state)
                 else ((None, f), c, state))"

text \<open>\<open>f->context_count[i]\<close> takes the result, an error too.\<close>

primrec read_all_tables :: "ffv1_context \<Rightarrow> range_coder \<Rightarrow> nat list \<Rightarrow> (averror option \<times> ffv1_context) \<times> range_coder" where
  "read_all_tables f c [] = ((None, f), c)"
| "read_all_tables f c (i # is) =
     (let (r, q, c) = read_quant_tables c (fc_quant_tables f ! i);
          f = f\<lparr>fc_quant_tables := (fc_quant_tables f)[i := q]\<rparr>
      in case r of Inl e \<Rightarrow> ((Some INVALIDDATA, f\<lparr>fc_context_count := (fc_context_count f)[i := AVERROR_INVALIDDATA]\<rparr>), c)
         | Inr n \<Rightarrow> read_all_tables (f\<lparr>fc_context_count := (fc_context_count f)[i := n]\<rparr>) c is)"

text \<open>The allocator is a parameter.\<close>

primrec allocate_states :: "(nat \<Rightarrow> bool) \<Rightarrow> ffv1_context \<Rightarrow> nat list \<Rightarrow> averror option \<times> ffv1_context" where
  "allocate_states alloc f [] = (None, f)"
| "allocate_states alloc f (i # is) =
     (if \<not> alloc i then (Some ENOMEM, f\<lparr>fc_initial_states := (fc_initial_states f)[i := None]\<rparr>)
      else allocate_states alloc
        (f\<lparr>fc_initial_states := (fc_initial_states f)[i := Some (replicate (nat (fc_context_count f ! i)) (replicate CONTEXT_SIZE 128))]\<rparr>) is)"

definition ff_ffv1_allocate_initial_states :: "(nat \<Rightarrow> bool) \<Rightarrow> ffv1_context \<Rightarrow> averror option \<times> ffv1_context" where
  "ff_ffv1_allocate_initial_states alloc f = allocate_states alloc f [0..<nat (fc_quant_table_count f)]"

primrec read_state_row :: "range_coder \<Rightarrow> bytes list \<Rightarrow> bytes list \<Rightarrow> nat \<Rightarrow> nat list \<Rightarrow> bytes list \<times> range_coder \<times> bytes list" where
  "read_state_row c state2 rows j [] = (rows, c, state2)"
| "read_state_row c state2 rows j (k # ks) =
     (let (x, c, s) = get_symbol c (state2 ! k) True
      in read_state_row c (state2[k := s]) (rows[j := (rows ! j)[k := word_of_int (state_pred rows j k + x)]]) j ks)"

primrec read_state_rows :: "range_coder \<Rightarrow> bytes list \<Rightarrow> bytes list \<Rightarrow> nat list \<Rightarrow> bytes list \<times> range_coder \<times> bytes list" where
  "read_state_rows c state2 rows [] = (rows, c, state2)"
| "read_state_rows c state2 rows (j # js) =
     (let (rows, c, state2) = read_state_row c state2 rows j [0..<CONTEXT_SIZE] in read_state_rows c state2 rows js)"

primrec read_states :: "ffv1_context \<Rightarrow> range_coder \<Rightarrow> bytes \<times> bytes list \<Rightarrow> nat list \<Rightarrow> ffv1_context \<times> range_coder \<times> bytes \<times> bytes list" where
  "read_states f c s [] = (f, c, s)"
| "read_states f c s (i # is) =
     (let (b, c, state) = get_rac c (fst s) 0
      in if b then
           let (rows, c, state2) = read_state_rows c (snd s) (the (fc_initial_states f ! i)) [0..<nat (fc_context_count f ! i)]
           in read_states (f\<lparr>fc_initial_states := (fc_initial_states f)[i := Some rows]\<rparr>) c (state, state2) is
         else read_states f c (state, snd s) is)"

definition read_intra :: "ffv1_context \<Rightarrow> range_coder \<Rightarrow> bytes \<Rightarrow> ffv1_context \<times> range_coder \<times> bytes" where
  "read_intra f c state =
     (if fc_version f > 2 then
        let (x, c, state) = get_symbol c state False;
            f = f\<lparr>fc_ec := x\<rparr>
        in if fc_micro_version f > 2 then
             let (x, c, state) = get_symbol c state False in (f\<lparr>fc_intra := x\<rparr>, c, state)
           else (f, c, state)
      else (f, c, state))"

text \<open>Lines 472 to 496: what follows the parameters.\<close>

definition read_rest :: "(nat \<Rightarrow> bool) \<Rightarrow> ffv1_context \<Rightarrow> range_coder \<Rightarrow> bytes \<Rightarrow> (averror option \<times> ffv1_context) \<times> range_coder" where
  "read_rest alloc f c state =
     (let ((e, f), c) = read_all_tables f c [0..<nat (fc_quant_table_count f)]
      in if e \<noteq> None then ((e, f), c)
         else let (e, f) = ff_ffv1_allocate_initial_states alloc f
              in if e \<noteq> None then ((e, f), c)
                 else let (f, c, state, state2) = read_states f c (state, fresh_states) [0..<nat (fc_quant_table_count f)];
                          (f, c, state) = read_intra f c state
                      in ((None, f), c))"

definition read_extra_header :: "crc_config \<Rightarrow> crc_state \<Rightarrow> nat \<Rightarrow> (nat \<Rightarrow> bool) \<Rightarrow> ffv1_context \<Rightarrow> (averror option \<times> ffv1_context) option" where
  "read_extra_header cfg crcs addr alloc f =
     (let c = ff_build_rac_states (ff_init_range_decoder (fc_c f) (fc_extradata f) (fc_extradata_size f)) 214748364 (256 - 8);
          (x, c, state) = get_symbol c fresh_state False;
          f = f\<lparr>fc_version := x\<rparr>
      in if fc_version f < 2 then Some (Some INVALIDDATA, f\<lparr>fc_c := c\<rparr>)
         else let (c, state, f) =
                    (if fc_version f > 2
                     then let c = c\<lparr>bytestream_end := bytestream_end c - 4\<rparr>; (x, c, state) = get_symbol c state False
                          in (c, state, f\<lparr>fc_micro_version := x\<rparr>)
                     else (c, state, f))
              in if fc_version f > 2 \<and> fc_micro_version f < 0 then Some (Some INVALIDDATA, f\<lparr>fc_c := c\<rparr>)
                 else let ((e, f), c, state) = read_params f c state
                      in if e \<noteq> None then Some (e, f\<lparr>fc_c := c\<rparr>)
                         else let ((e, f), c) = read_rest alloc f c state; f = f\<lparr>fc_c := c\<rparr>
                              in if e \<noteq> None then Some (e, f)
                                 else if fc_version f > 2
                                 then do {
                                   (tab, _) \<leftarrow> av_crc_get_table cfg AV_CRC_32_IEEE crcs;
                                   let v = av_crc cfg tab 0 addr (take (fc_extradata_size f) (fc_extradata f));
                                   if v \<noteq> 0 \<or> fc_extradata_size f < 4 then Some (Some INVALIDDATA, f) else Some (None, f) }
                                 else Some (None, f))"

end
