(* ===== verification/Ffv1HeaderRoundTrip.thy ===== *)
theory Ffv1HeaderRoundTrip imports Ffv1Header
begin

text \<open>
  The header that \<open>write_extradata\<close> makes is read back by \<open>read_extra_header\<close>. Each part of the header is a pair of a
  writer and a reader in the sense of \<open>codes\<close>; the last sections put the parts together, follow the first two symbols closely
  enough to know that they take less than the whole message, and add the check.
\<close>

section \<open>Every part is read as it was written\<close>

lemma codes_depends:
  assumes "\<And>one. codes lo hi P k (enc one) (dec one) v"
  shows "codes lo hi P k (\<lambda>c. enc (one_state c) c) (\<lambda>d. dec (one_state d) d) v"
  unfolding codes_def
proof (intro allI impI, elim conjE)
  fix c s assume a: "enc_ok c" "tables_ok lo hi c" "P s" "room c k"
  obtain c' s' where c': "enc (one_state c) c s = Some (c', s')" "after k c c'" "P s'"
    "\<forall>X N d. holds X c' \<and> dec_sync X N c d \<and> rac_len c' \<le> N \<longrightarrow> (\<exists>d'. dec (one_state c) d s = (v, d', s') \<and> dec_sync X N c' d')"
    by (rule codesE [OF assms a]) blast
  moreover have "dec_sync X N c d \<Longrightarrow> one_state d = one_state c" for X N d
    by (simp add: dec_sync_def same_tables_def)
  ultimately show "\<exists>c' s'. enc (one_state c) c s = Some (c', s') \<and> after k c c' \<and> P s' \<and>
      (\<forall>X N d. holds X c' \<and> dec_sync X N c d \<and> rac_len c' \<le> N \<longrightarrow> (\<exists>d'. dec (one_state d) d s = (v, d', s') \<and> dec_sync X N c' d'))"
    by metis
qed

lemma codes_then_put:
  assumes "i < CONTEXT_SIZE" "codes lo hi (array_ok lo hi CONTEXT_SIZE) l enc (dec b) w"
  shows "codes lo hi (array_ok lo hi CONTEXT_SIZE) (1 + l) (\<lambda>c st. put_rac c st i b \<bind> (\<lambda>(c, st). enc c st))
    (\<lambda>d st. case get_rac d st i of (x, d, st) \<Rightarrow> dec x d st) w"
  by (rule codes_bind [OF codes_put]) (use assms in blast)+

lemma codes_transitions:
  "codes lo hi (array_ok lo hi CONTEXT_SIZE) (64 * length is) (\<lambda>c st. write_transitions c st tr one is)
    (\<lambda>d st. read_transitions d st cur one is) (foldl (\<lambda>t i. t[i := tr ! i]) cur is)"
proof (induction "is" arbitrary: cur)
  case Nil
  show ?case using codes_return [of lo hi _ cur] by simp
next
  case (Cons i "is")
  let ?x = "uint (tr ! i) - uint (one ! i)"
  have "\<bar>?x\<bar> \<le> INT_MAX"
    using u8_range(1,2) [of "tr ! i"] u8_range(1,2) [of "one ! i"] by linarith
  then have x: "\<bar>?x\<bar> \<le> INT_MAX" "0 \<le> ?x \<or> True" by simp_all
  have "word_of_int (?x + uint (one ! i)) = tr ! i" by simp
  then have "codes lo hi (array_ok lo hi CONTEXT_SIZE) (64 * length is) (\<lambda>c st. write_transitions c st tr one is)
      (\<lambda>d st. read_transitions d st (cur[i := word_of_int (?x + uint (one ! i))]) one is) (foldl (\<lambda>t i. t[i := tr ! i]) cur (i # is))"
    using Cons.IH [of "cur[i := tr ! i]"] by simp
  from codes_then_symbol [OF x, where dec = "\<lambda>x d st. read_transitions d st (cur[i := word_of_int (x + uint (one ! i))]) one is", OF this]
  show ?case by (simp add: Let_def)
qed

text \<open>The parameters a header may have.\<close>

definition params_ok :: "ffv1_context \<Rightarrow> bool" where
  "params_ok f \<longleftrightarrow> 0 \<le> fc_ac f \<and> fc_ac f \<le> INT_MAX \<and> length (fc_state_transition f) = 256 \<and>
     0 \<le> fc_colorspace f \<and> fc_colorspace f \<le> INT_MAX \<and> 0 \<le> fc_bits_per_raw_sample f \<and> fc_bits_per_raw_sample f \<le> INT_MAX \<and>
     fc_chroma_planes f \<in> {0, 1} \<and> fc_transparency f \<in> {0, 1} \<and>
     0 \<le> fc_chroma_h_shift f \<and> fc_chroma_h_shift f \<le> 4 \<and> 0 \<le> fc_chroma_v_shift f \<and> fc_chroma_v_shift f \<le> 4 \<and>
     1 \<le> fc_num_h_slices f \<and> fc_num_h_slices f \<le> fc_width f \<and> fc_width f \<le> INT_MAX \<and>
     1 \<le> fc_num_v_slices f \<and> fc_num_v_slices f \<le> fc_height f \<and> fc_height f \<le> INT_MAX \<and>
     1 \<le> fc_quant_table_count f \<and> fc_quant_table_count f \<le> int MAX_QUANT_TABLES"

text \<open>What reading them leaves in a context \<open>g\<close>.\<close>

definition with_params :: "ffv1_context \<Rightarrow> ffv1_context \<Rightarrow> ffv1_context" where
  "with_params f g = g\<lparr>fc_ac := fc_ac f,
     fc_state_transition := (if fc_ac f = AC_RANGE_CUSTOM_TAB then fc_state_transition g ! 0 # tl (fc_state_transition f) else fc_state_transition g),
     fc_colorspace := fc_colorspace f, fc_bits_per_raw_sample := fc_bits_per_raw_sample f,
     fc_chroma_planes := fc_chroma_planes f, fc_chroma_h_shift := fc_chroma_h_shift f, fc_chroma_v_shift := fc_chroma_v_shift f,
     fc_transparency := fc_transparency f,
     fc_plane_count := plane_count (fc_chroma_planes f) (fc_version g) (fc_transparency f),
     fc_num_h_slices := fc_num_h_slices f, fc_num_v_slices := fc_num_v_slices f, fc_quant_table_count := fc_quant_table_count f\<rparr>"

lemma transitions_result:
  assumes "length cur = 256" "length tr = 256"
  shows "foldl (\<lambda>t i. t[i := tr ! i]) cur [1..<256] = cur ! 0 # tl tr"
proof (rule nth_equalityI)
  show "length (foldl (\<lambda>t i. t[i := tr ! i]) cur [1..<256]) = length (cur ! 0 # tl tr)"
    using assms by (simp add: foldl_set_range(1))
  fix i assume "i < length (foldl (\<lambda>t i. t[i := tr ! i]) cur [1..<256])"
  then have i: "i < 256" using assms by (simp add: foldl_set_range(1))
  then have "foldl (\<lambda>t i. t[i := tr ! i]) cur [1..<256] ! i = (if i \<in> set [1..<256] then tr ! i else cur ! i)"
    using assms by (subst foldl_set_range(2)) simp_all
  then show "foldl (\<lambda>t i. t[i := tr ! i]) cur [1..<256] ! i = (cur ! 0 # tl tr) ! i"
    using i assms by (cases i) (simp_all add: nth_tl del: upt_Suc)
qed

lemma codes_custom_transitions:
  assumes "length cur = 256" "length tr = 256"
  shows "codes lo hi (array_ok lo hi CONTEXT_SIZE) (64 * 255)
    (\<lambda>c st. if ac = AC_RANGE_CUSTOM_TAB then write_transitions c st tr (one_state c) [1..<256] else Some (c, st))
    (\<lambda>d st. if ac = AC_RANGE_CUSTOM_TAB then read_transitions d st cur (one_state d) [1..<256] else (cur, d, st))
    (if ac = AC_RANGE_CUSTOM_TAB then cur ! 0 # tl tr else cur)"
proof (cases "ac = AC_RANGE_CUSTOM_TAB")
  case True
  have "codes lo hi (array_ok lo hi CONTEXT_SIZE) (64 * 255) (\<lambda>c st. write_transitions c st tr one [1..<256])
      (\<lambda>d st. read_transitions d st cur one [1..<256]) (cur ! 0 # tl tr)" for one
    using codes_transitions [of lo hi "[1..<256]" tr one cur]
    unfolding transitions_result [OF assms] by simp
  then have "codes lo hi (array_ok lo hi CONTEXT_SIZE) (64 * 255) (\<lambda>c st. write_transitions c st tr (one_state c) [1..<256])
      (\<lambda>d st. read_transitions d st cur (one_state d) [1..<256]) (cur ! 0 # tl tr)"
    by (rule codes_depends [where enc = "\<lambda>one c st. write_transitions c st tr one [1..<256]" and
          dec = "\<lambda>one d st. read_transitions d st cur one [1..<256]"])
  then show ?thesis unfolding if_P [OF True] .
next
  case False
  show ?thesis unfolding if_not_P [OF False] by (rule codes_mono [OF codes_return]) simp
qed

definition params_of :: "ffv1_context \<Rightarrow> int \<Rightarrow> bytes \<Rightarrow> int \<Rightarrow> int \<Rightarrow> bool \<Rightarrow> int \<Rightarrow> int \<Rightarrow> bool \<Rightarrow> int \<Rightarrow> int \<Rightarrow> ffv1_context" where
  "params_of g ac tr cs bits cp hs vs t nh nv = g\<lparr>fc_ac := ac, fc_state_transition := tr, fc_colorspace := cs,
     fc_bits_per_raw_sample := bits, fc_chroma_planes := of_bool cp, fc_chroma_h_shift := hs, fc_chroma_v_shift := vs,
     fc_transparency := of_bool t, fc_plane_count := plane_count (of_bool cp) (fc_version g) (of_bool t),
     fc_num_h_slices := nh, fc_num_v_slices := nv\<rparr>"

definition params_check :: "ffv1_context \<Rightarrow> range_coder \<Rightarrow> bytes \<Rightarrow> (averror option \<times> ffv1_context) \<times> range_coder \<times> bytes" where
  "params_check f c state =
     (if (word_of_int (fc_chroma_h_shift f) :: u32) > 4 \<or> (word_of_int (fc_chroma_v_shift f) :: u32) > 4
      then ((Some INVALIDDATA, f), c, state)
      else if (word_of_int (fc_num_h_slices f) :: u32) > word_of_int (fc_width f) \<or> fc_num_h_slices f = 0 \<or>
              (word_of_int (fc_num_v_slices f) :: u32) > word_of_int (fc_height f) \<or> fc_num_v_slices f = 0
      then ((Some INVALIDDATA, f), c, state)
      else case get_symbol c state False of (x, c, state) \<Rightarrow>
        if (word_of_int x :: u32) > of_nat MAX_QUANT_TABLES \<or> x = 0
        then ((Some INVALIDDATA, f\<lparr>fc_quant_table_count := 0\<rparr>), c, state)
        else ((None, f\<lparr>fc_quant_table_count := x\<rparr>), c, state))"

lemma read_params_eq:
  "read_params g c st =
     (case get_symbol c st False of (ac, c, st) \<Rightarrow>
      case (if ac = AC_RANGE_CUSTOM_TAB then read_transitions c st (fc_state_transition g) (one_state c) [1..<256]
            else (fc_state_transition g, c, st)) of (tr, c, st) \<Rightarrow>
      case get_symbol c st False of (cs, c, st) \<Rightarrow>
      case get_symbol c st False of (bits, c, st) \<Rightarrow>
      case get_rac c st 0 of (cp, c, st) \<Rightarrow>
      case get_symbol c st False of (hs, c, st) \<Rightarrow>
      case get_symbol c st False of (vs, c, st) \<Rightarrow>
      case get_rac c st 0 of (t, c, st) \<Rightarrow>
      case get_symbol c st False of (nh, c, st) \<Rightarrow>
      case get_symbol c st False of (nv, c, st) \<Rightarrow>
      params_check (params_of g ac tr cs bits cp hs vs t (s32 (1 + nh)) (s32 (1 + nv))) c st)"
  unfolding read_params_def Let_def params_check_def
  by (simp add: params_of_def cong: if_cong)

lemma codes_last_symbol:
  assumes "\<bar>v\<bar> \<le> INT_MAX" "0 \<le> v \<or> is_signed"
  shows "codes lo hi (array_ok lo hi CONTEXT_SIZE) 64 (\<lambda>c st. put_symbol c st v is_signed)
    (\<lambda>d st. case get_symbol d st is_signed of (x, d, st) \<Rightarrow> (h x, d, st)) (h v)"
proof -
  have "codes lo hi (array_ok lo hi CONTEXT_SIZE) (64 + 0) (\<lambda>c st. put_symbol c st v is_signed \<bind> (\<lambda>(c, st). Some (c, st)))
    (\<lambda>d st. case get_symbol d st is_signed of (x, d, st) \<Rightarrow> (\<lambda>x d st. (h x, d, st)) x d st) (h v)"
    by (rule codes_bind [OF codes_symbol codes_return]) (use assms in blast)+
  moreover have "x \<bind> (\<lambda>(c, st). Some (c, st)) = x" for x :: "(range_coder \<times> bytes) option" by (cases x) auto
  ultimately show ?thesis by (simp only: add_0_right)
qed

lemma small_word: "0 \<le> x \<Longrightarrow> x \<le> INT_MAX \<Longrightarrow> uint (word_of_int x :: u32) = x"
  by (simp add: uint_word_of_int)

lemma codes_check:
  assumes f: "params_ok f" and g: "fc_chroma_h_shift g = fc_chroma_h_shift f" "fc_chroma_v_shift g = fc_chroma_v_shift f"
    "fc_num_h_slices g = fc_num_h_slices f" "fc_num_v_slices g = fc_num_v_slices f" "fc_width g = fc_width f" "fc_height g = fc_height f"
  shows "codes lo hi (array_ok lo hi CONTEXT_SIZE) 64 (\<lambda>c st. put_symbol c st (fc_quant_table_count f) False)
    (\<lambda>d st. params_check g d st) (None, g\<lparr>fc_quant_table_count := fc_quant_table_count f\<rparr>)"
proof -
  let ?n = "fc_quant_table_count f"
  let ?h = "\<lambda>x. if (word_of_int x :: u32) > of_nat MAX_QUANT_TABLES \<or> x = 0
    then (Some INVALIDDATA, g\<lparr>fc_quant_table_count := 0\<rparr>) else (None, g\<lparr>fc_quant_table_count := x\<rparr>)"
  have b: "0 \<le> fc_chroma_h_shift f" "fc_chroma_h_shift f \<le> 4" "0 \<le> fc_chroma_v_shift f" "fc_chroma_v_shift f \<le> 4"
    "1 \<le> fc_num_h_slices f" "fc_num_h_slices f \<le> fc_width f" "fc_width f \<le> INT_MAX"
    "1 \<le> fc_num_v_slices f" "fc_num_v_slices f \<le> fc_height f" "fc_height f \<le> INT_MAX" "1 \<le> ?n" "?n \<le> 8"
    using f by (simp_all add: params_ok_def)
  have "\<not> (word_of_int (fc_chroma_h_shift g) :: u32) > 4" "\<not> (word_of_int (fc_chroma_v_shift g) :: u32) > 4"
    "\<not> (word_of_int (fc_num_h_slices g) :: u32) > word_of_int (fc_width g)" "fc_num_h_slices g \<noteq> 0"
    "\<not> (word_of_int (fc_num_v_slices g) :: u32) > word_of_int (fc_height g)" "fc_num_v_slices g \<noteq> 0"
    using b unfolding g by (simp_all add: word_less_def small_word)
  then have "(\<lambda>d st. params_check g d st) = (\<lambda>d st. case get_symbol d st False of (x, d, st) \<Rightarrow> (?h x, d, st))"
    by (intro ext) (simp add: params_check_def split: prod.split)
  moreover have "\<not> ((word_of_int ?n :: u32) > of_nat MAX_QUANT_TABLES \<or> ?n = 0)" using b by (simp add: word_less_def small_word)
  then have "?h ?n = (None, g\<lparr>fc_quant_table_count := ?n\<rparr>)" by simp
  ultimately show ?thesis using codes_last_symbol [of ?n False lo hi ?h] b by simp
qed

lemma codes_params:
  assumes f: "params_ok f" and g: "length (fc_state_transition g) = 256" "fc_width g = fc_width f" "fc_height g = fc_height f"
  shows "codes lo hi (array_ok lo hi CONTEXT_SIZE) (64 * 255 + 64 * 10)
    (\<lambda>c st. write_params f c st) (\<lambda>d st. read_params g d st) (None, with_params f g)"
proof (rule codes_mono)
  let ?tr = "if fc_ac f = AC_RANGE_CUSTOM_TAB then fc_state_transition g ! 0 # tl (fc_state_transition f) else fc_state_transition g"
  let ?g = "params_of g (fc_ac f) ?tr (fc_colorspace f) (fc_bits_per_raw_sample f) (fc_chroma_planes f \<noteq> 0)
     (fc_chroma_h_shift f) (fc_chroma_v_shift f) (fc_transparency f \<noteq> 0)
     (s32 (1 + (fc_num_h_slices f - 1))) (s32 (1 + (fc_num_v_slices f - 1)))"
  have b: "\<bar>fc_ac f\<bar> \<le> INT_MAX" "0 \<le> fc_ac f" "\<bar>fc_colorspace f\<bar> \<le> INT_MAX" "0 \<le> fc_colorspace f"
    "\<bar>fc_bits_per_raw_sample f\<bar> \<le> INT_MAX" "0 \<le> fc_bits_per_raw_sample f"
    "\<bar>fc_chroma_h_shift f\<bar> \<le> INT_MAX" "0 \<le> fc_chroma_h_shift f" "\<bar>fc_chroma_v_shift f\<bar> \<le> INT_MAX" "0 \<le> fc_chroma_v_shift f"
    "\<bar>fc_num_h_slices f - 1\<bar> \<le> INT_MAX" "0 \<le> fc_num_h_slices f - 1" "\<bar>fc_num_v_slices f - 1\<bar> \<le> INT_MAX" "0 \<le> fc_num_v_slices f - 1"
    "length (fc_state_transition f) = 256"
    and sl: "is_s32 (fc_num_h_slices f)" "is_s32 (fc_num_v_slices f)" "fc_chroma_planes f \<in> {0, 1}" "fc_transparency f \<in> {0, 1}"
    using f by (auto simp: params_ok_def is_s32_def)
  have w: "?g\<lparr>fc_quant_table_count := fc_quant_table_count f\<rparr> = with_params f g"
  proof -
    have "of_bool (fc_chroma_planes f \<noteq> 0) = fc_chroma_planes f" "of_bool (fc_transparency f \<noteq> 0) = fc_transparency f"
      using sl(3,4) by auto
    moreover have "s32 (1 + (fc_num_h_slices f - 1)) = fc_num_h_slices f" "s32 (1 + (fc_num_v_slices f - 1)) = fc_num_v_slices f"
      using sl(1,2) by simp_all
    ultimately show ?thesis unfolding params_of_def with_params_def by simp
  qed
  have check: "codes lo hi (array_ok lo hi CONTEXT_SIZE) 64 (\<lambda>c st. put_symbol c st (fc_quant_table_count f) False)
    (\<lambda>d st. params_check ?g d st) (None, with_params f g)"
    unfolding w [symmetric] by (rule codes_check [OF f]) (use sl g in \<open>simp_all add: params_of_def\<close>)
  show "codes lo hi (array_ok lo hi CONTEXT_SIZE)
     (64 + (64 * 255 + (64 + (64 + (1 + (64 + (64 + (1 + (64 + (64 + 64))))))))))
    (\<lambda>c st. write_params f c st) (\<lambda>d st. read_params g d st) (None, with_params f g)"
    unfolding write_params_def read_params_eq
    by (rule codes_then_symbol [OF b(1) disjI1 [OF b(2)]], rule codes_bind [OF codes_custom_transitions [OF g(1) b(15)]],
        rule codes_then_symbol [OF b(3) disjI1 [OF b(4)]], rule codes_then_symbol [OF b(5) disjI1 [OF b(6)]],
        rule codes_then_put, simp, rule codes_then_symbol [OF b(7) disjI1 [OF b(8)]], rule codes_then_symbol [OF b(9) disjI1 [OF b(10)]],
        rule codes_then_put, simp, rule codes_then_symbol [OF b(11) disjI1 [OF b(12)]], rule codes_then_symbol [OF b(13) disjI1 [OF b(14)]],
        rule check)
qed simp

text \<open>A piece of code that works on a part of the state.\<close>

lemma codes_lift:
  assumes 1: "codes lo hi P k enc dec v" and g: "\<And>t. Q t \<Longrightarrow> P (get t)" and p: "\<And>t s. Q t \<Longrightarrow> P s \<Longrightarrow> Q (put t s)"
  shows "codes lo hi Q k (\<lambda>c t. enc c (get t) \<bind> (\<lambda>(c, s). Some (c, put t s)))
    (\<lambda>d t. case dec d (get t) of (x, d, s) \<Rightarrow> (x, d, put t s)) v"
  unfolding codes_def
proof (intro allI impI, elim conjE)
  fix c t assume a: "enc_ok c" "tables_ok lo hi c" "Q t" "room c k"
  obtain c' s' where c': "enc c (get t) = Some (c', s')" "after k c c'" "P s'"
    "\<forall>X N d. holds X c' \<and> dec_sync X N c d \<and> rac_len c' \<le> N \<longrightarrow> (\<exists>d'. dec d (get t) = (v, d', s') \<and> dec_sync X N c' d')"
    by (rule codesE [OF 1 a(1,2) g [OF a(3)] a(4)]) blast
  show "\<exists>c' s'. enc c (get t) \<bind> (\<lambda>(c, s). Some (c, put t s)) = Some (c', s') \<and> after k c c' \<and> Q s' \<and>
      (\<forall>X N d. holds X c' \<and> dec_sync X N c d \<and> rac_len c' \<le> N \<longrightarrow>
        (\<exists>d'. (case dec d (get t) of (x, d, s) \<Rightarrow> (x, d, put t s)) = (v, d', s') \<and> dec_sync X N c' d'))"
  proof (rule exI [of _ c'], rule exI [of _ "put t s'"], intro conjI allI impI)
    show "enc c (get t) \<bind> (\<lambda>(c, s). Some (c, put t s)) = Some (c', put t s')" using c'(1) by simp
    show "after k c c'" "Q (put t s')" using c'(2,3) p a(3) by simp_all
    fix X N d assume "holds X c' \<and> dec_sync X N c d \<and> rac_len c' \<le> N"
    then obtain d' where "dec d (get t) = (v, d', s')" "dec_sync X N c' d'" using c'(4) by blast
    then show "\<exists>d'. (case dec d (get t) of (x, d, s) \<Rightarrow> (x, d, put t s)) = (v, d', put t s') \<and> dec_sync X N c' d'" by simp
  qed
qed

definition set_tables :: "ffv1_context \<Rightarrow> ffv1_context \<Rightarrow> nat \<Rightarrow> ffv1_context" where
  "set_tables f g i = g\<lparr>fc_quant_tables := (fc_quant_tables g)[i := fc_quant_tables f ! i],
     fc_context_count := (fc_context_count g)[i := (quants_levels 1 (fc_quant_tables f ! i) + 1) div 2]\<rparr>"

definition tables_shape :: "ffv1_context \<Rightarrow> bool" where
  "tables_shape g \<longleftrightarrow> length (fc_quant_tables g) = MAX_QUANT_TABLES \<and> length (fc_context_count g) = MAX_QUANT_TABLES \<and>
     (\<forall>t \<in> set (fc_quant_tables g). length t = MAX_CONTEXT_INPUTS \<and> (\<forall>q \<in> set t. length q = 256))"

lemma codes_all_tables:
  assumes t: "0 < lo" "lo \<le> 128" "128 \<le> hi"
    and f: "\<forall>i \<in> set is. i < MAX_QUANT_TABLES \<and> length (fc_quant_tables f ! i) = 5 \<and> quants_ok 1 (fc_quant_tables f ! i) \<and>
      (\<forall>q \<in> set (fc_quant_tables f ! i). length q = 256)"
  shows "tables_shape g \<Longrightarrow> codes lo hi (\<lambda>_ :: unit. True) (64 * 128 * 5 * length is)
    (\<lambda>c _. map_option (\<lambda>c. (c, ())) (write_all_tables f c is))
    (\<lambda>d _. case read_all_tables g d is of (r, d) \<Rightarrow> (r, d, ())) (None, foldl (set_tables f) g is)"
  using f
proof (induction "is" arbitrary: g)
  case Nil
  show ?case using codes_return_unit [of lo hi "(None, g)"] by simp
next
  case (Cons i "is")
  let ?q = "fc_quant_tables f ! i"
  have i: "i < 8" "length ?q = 5" "quants_ok 1 ?q" "\<forall>q \<in> set ?q. length q = 256" using Cons.prems(2) by simp_all
  have g: "length (fc_quant_tables g ! i) = 5" "\<forall>q \<in> set (fc_quant_tables g ! i). length q = 256"
    using Cons.prems(1) i(1) by (auto simp: tables_shape_def)
  have shape: "tables_shape (set_tables f g i)"
    using Cons.prems(1) i(2,4) unfolding tables_shape_def set_tables_def by (auto dest!: set_update_subset_insert [THEN subsetD])
  have IH: "codes lo hi (\<lambda>_ :: unit. True) (64 * 128 * 5 * length is) (\<lambda>c _. map_option (\<lambda>c. (c, ())) (write_all_tables f c is))
      (\<lambda>d _. case read_all_tables (set_tables f g i) d is of (r, d) \<Rightarrow> (r, d, ())) (None, foldl (set_tables f) (set_tables f g i) is)"
    by (rule Cons.IH [OF shape]) (use Cons.prems(2) in simp)
  let ?dec = "\<lambda>x d (_ :: unit). case x of (r, q) \<Rightarrow> (case r of
      Inl e \<Rightarrow> ((Some INVALIDDATA, g\<lparr>fc_quant_tables := (fc_quant_tables g)[i := q], fc_context_count := (fc_context_count g)[i := AVERROR_INVALIDDATA]\<rparr>), d, ())
    | Inr n \<Rightarrow> (case read_all_tables (g\<lparr>fc_quant_tables := (fc_quant_tables g)[i := q], fc_context_count := (fc_context_count g)[i := n]\<rparr>) d is of
        (r, d) \<Rightarrow> (r, d, ())))"
  have "codes lo hi (\<lambda>_ :: unit. True) (64 * 128 * 5 * length is) (\<lambda>c _. map_option (\<lambda>c. (c, ())) (write_all_tables f c is))
      (?dec (Inr ((quants_levels 1 ?q + 1) div 2), ?q)) (None, foldl (set_tables f) g (i # is))"
    using IH by (simp only: prod.case sum.case foldl_Cons set_tables_def [of f g i])
  from codes_bind [OF codes_quant_tables [OF t i(2,3) g], where dec' = ?dec, OF this]
  have cb: "codes lo hi (\<lambda>_ :: unit. True) (64 * 128 * 5 + 64 * 128 * 5 * length is)
      (\<lambda>c s. map_option (\<lambda>c. (c, ())) (write_quant_tables c ?q) \<bind> (\<lambda>(c, s). map_option (\<lambda>c. (c, ())) (write_all_tables f c is)))
      (\<lambda>d s. case (case read_quant_tables d (fc_quant_tables g ! i) of (r, q, d) \<Rightarrow> ((r, q), d, ())) of (x, d, s) \<Rightarrow> ?dec x d s)
      (None, foldl (set_tables f) g (i # is))" .
  have e1: "(\<lambda>c (s :: unit). map_option (\<lambda>c. (c, ())) (write_quant_tables c ?q) \<bind> (\<lambda>(c, s). map_option (\<lambda>c. (c, ())) (write_all_tables f c is))) =
      (\<lambda>c _. map_option (\<lambda>c. (c, ())) (write_all_tables f c (i # is)))"
    by (intro ext) (simp split: Option.bind_split)
  have e2: "(\<lambda>d s. case (case read_quant_tables d (fc_quant_tables g ! i) of (r, q, d) \<Rightarrow> ((r, q), d, ())) of (x, d, s) \<Rightarrow> ?dec x d s) =
      (\<lambda>d _. case read_all_tables g d (i # is) of (r, d) \<Rightarrow> (r, d, ()))"
    by (intro ext) (auto simp: Let_def split: prod.split sum.split)
  show ?case using cb unfolding e1 e2 by simp
qed

section \<open>The initial states\<close>

abbreviation arrays_ok :: "nat \<Rightarrow> nat \<Rightarrow> bytes list \<Rightarrow> bool" where
  "arrays_ok lo hi st2 \<equiv> length st2 = 32 \<and> (\<forall>s \<in> set st2. array_ok lo hi CONTEXT_SIZE s)"

lemma s8_symbol: "\<bar>s8 x\<bar> \<le> INT_MAX" "word_of_int (p + s8 (uint u - p)) = (u :: u8)"
proof -
  show "\<bar>s8 x\<bar> \<le> INT_MAX"
    using signed_take_bit_int_greater_eq_minus_exp [of 7 x] signed_take_bit_int_less_exp [of 7 x] by (simp add: s8_def)
  have "take_bit 8 (signed_take_bit 7 y) = take_bit 8 y" for y :: int by (simp add: take_bit_signed_take_bit)
  then have "(word_of_int (s8 y) :: u8) = word_of_int y" for y by (simp add: s8_def word_of_int_eq_iff)
  then show "word_of_int (p + s8 (uint u - p)) = u" by simp
qed

lemma codes_state_row:
  "\<forall>k \<in> set ks. k < CONTEXT_SIZE \<Longrightarrow> j \<noteq> 0 \<longrightarrow> cur ! (j - 1) = rows ! (j - 1) \<Longrightarrow>
   codes lo hi (arrays_ok lo hi) (64 * length ks) (\<lambda>c st. write_state_row c st rows j ks) (\<lambda>d st. read_state_row d st cur j ks)
     (foldl (\<lambda>r k. r[j := (r ! j)[k := rows ! j ! k]]) cur ks)"
proof (induction ks arbitrary: cur)
  case Nil
  show ?case using codes_return [of lo hi _ cur] by simp
next
  case (Cons k ks)
  let ?p = "state_pred rows j k" and ?v = "s8 (uint (rows ! j ! k) - state_pred rows j k)"
  have k: "k < 32" using Cons.prems(1) by simp
  have p: "state_pred cur j k = ?p" using Cons.prems(2) by (simp add: state_pred_def)
  let ?cur = "cur[j := (cur ! j)[k := rows ! j ! k]]"
  have "j \<noteq> 0 \<longrightarrow> ?cur ! (j - 1) = rows ! (j - 1)" using Cons.prems(2) by simp
  with Cons.IH [of ?cur] Cons.prems(1)
  have rest: "codes lo hi (arrays_ok lo hi) (64 * length ks) (\<lambda>c st. write_state_row c st rows j ks)
      (\<lambda>d st. read_state_row d st (cur[j := (cur ! j)[k := word_of_int (?p + ?v)]]) j ks) (foldl (\<lambda>r k. r[j := (r ! j)[k := rows ! j ! k]]) cur (k # ks))"
    unfolding s8_symbol(2) by simp
  have one: "codes lo hi (arrays_ok lo hi) 64
      (\<lambda>c st. put_symbol c (st ! k) ?v True \<bind> (\<lambda>(c, s). Some (c, st[k := s])))
      (\<lambda>d st. case get_symbol d (st ! k) True of (x, d, s) \<Rightarrow> (x, d, st[k := s])) ?v"
    by (rule codes_lift [OF codes_symbol [OF s8_symbol(1)]])
      (use k in \<open>auto dest!: set_update_subset_insert [THEN subsetD]\<close>)
  have "codes lo hi (arrays_ok lo hi) (64 + 64 * length ks)
      (\<lambda>c st. (put_symbol c (st ! k) ?v True \<bind> (\<lambda>(c, s). Some (c, st[k := s]))) \<bind> (\<lambda>(c, st). write_state_row c st rows j ks))
      (\<lambda>d st. case (case get_symbol d (st ! k) True of (x, d, s) \<Rightarrow> (x, d, st[k := s])) of (x, d, st) \<Rightarrow>
        (\<lambda>x d st. read_state_row d st (cur[j := (cur ! j)[k := word_of_int (?p + x)]]) j ks) x d st)
      (foldl (\<lambda>r k. r[j := (r ! j)[k := rows ! j ! k]]) cur (k # ks))"
    by (rule codes_bind [OF one]) (rule rest)
  moreover have "(\<lambda>c st. (put_symbol c (st ! k) ?v True \<bind> (\<lambda>(c, s). Some (c, st[k := s]))) \<bind> (\<lambda>(c, st). write_state_row c st rows j ks)) =
      (\<lambda>c st. write_state_row c st rows j (k # ks))"
    by (intro ext) (simp split: Option.bind_split)
  moreover have "(\<lambda>d st. case (case get_symbol d (st ! k) True of (x, d, s) \<Rightarrow> (x, d, st[k := s])) of (x, d, st) \<Rightarrow>
        (\<lambda>x d st. read_state_row d st (cur[j := (cur ! j)[k := word_of_int (?p + x)]]) j ks) x d st) =
      (\<lambda>d st. read_state_row d st cur j (k # ks))"
    by (intro ext) (simp add: Let_def p split: prod.split)
  ultimately show ?case by simp
qed

lemma fold_row:
  assumes "j < length cur" "length (cur ! j) = CONTEXT_SIZE" "length (rows ! j) = CONTEXT_SIZE"
  shows "foldl (\<lambda>r k. r[j := (r ! j)[k := rows ! j ! k]]) cur [0..<CONTEXT_SIZE] = cur[j := rows ! j]"
proof -
  have f: "foldl (\<lambda>r k. r[j := (r ! j)[k := rows ! j ! k]]) cur ks = cur[j := foldl (\<lambda>x k. x[k := rows ! j ! k]) (cur ! j) ks]" for ks
    using assms(1) by (induction ks rule: rev_induct) simp_all
  have "foldl (\<lambda>x k. x[k := rows ! j ! k]) (cur ! j) [0..<CONTEXT_SIZE] = rows ! j"
    by (rule nth_equalityI) (use assms in \<open>simp_all add: foldl_set_range(1) foldl_set_range(2) del: upt_Suc upt_rec_numeral\<close>)
  then show ?thesis unfolding f by simp
qed

lemma codes_state_rows:
  assumes r: "length rows = n" "\<forall>r \<in> set rows. length r = CONTEXT_SIZE"
  shows "j \<le> n \<Longrightarrow> length cur = n \<Longrightarrow> \<forall>r \<in> set cur. length r = CONTEXT_SIZE \<Longrightarrow> take j cur = take j rows \<Longrightarrow>
    codes lo hi (arrays_ok lo hi) (64 * CONTEXT_SIZE * (n - j)) (\<lambda>c st. write_state_rows c st rows [j..<n])
      (\<lambda>d st. read_state_rows d st cur [j..<n]) rows"
proof (induction "n - j" arbitrary: j cur)
  case 0
  then show ?case using r(1) codes_return [of lo hi _ rows] by simp
next
  case (Suc m)
  then have j: "j < n" "m = n - (j + 1)" "j + 1 \<le> n" "[j..<n] = j # [j + 1..<n]" by (auto simp: upt_conv_Cons)
  have l: "length (cur ! j) = CONTEXT_SIZE" "length (rows ! j) = CONTEXT_SIZE" using Suc.prems r j(1) by simp_all
  let ?cur = "cur[j := rows ! j]"
  have c: "length ?cur = n" "\<forall>r \<in> set ?cur. length r = CONTEXT_SIZE" "take (j + 1) ?cur = take (j + 1) rows"
  proof -
    show "length ?cur = n" using Suc.prems by simp
    show "\<forall>r \<in> set ?cur. length r = CONTEXT_SIZE"
      using Suc.prems(3) l(2) set_update_subset_insert [of cur j "rows ! j"] by auto
    show "take (j + 1) ?cur = take (j + 1) rows" using Suc.prems(2,4) j(1) r(1) by (simp add: take_Suc_conv_app_nth)
  qed
  have prev: "cur ! (j - 1) = rows ! (j - 1)" if "j \<noteq> 0"
    using Suc.prems(4) that nth_take [of "j - 1" j cur] nth_take [of "j - 1" j rows] by simp
  have row: "codes lo hi (arrays_ok lo hi) (64 * CONTEXT_SIZE) (\<lambda>c st. write_state_row c st rows j [0..<CONTEXT_SIZE])
      (\<lambda>d st. read_state_row d st cur j [0..<CONTEXT_SIZE]) ?cur"
    using codes_state_row [of "[0..<CONTEXT_SIZE]" j cur rows lo hi] prev fold_row [of j cur rows] l Suc.prems(2) j(1)
    by (simp del: upt_Suc upt_rec_numeral)
  have rest: "codes lo hi (arrays_ok lo hi) (64 * CONTEXT_SIZE * (n - (j + 1))) (\<lambda>c st. write_state_rows c st rows [j + 1..<n])
      (\<lambda>d st. read_state_rows d st ?cur [j + 1..<n]) rows"
    by (rule Suc.hyps(1) [OF j(2,3) c])
  have cb: "codes lo hi (arrays_ok lo hi) (64 * CONTEXT_SIZE + 64 * CONTEXT_SIZE * (n - (j + 1)))
      (\<lambda>c st. write_state_row c st rows j [0..<CONTEXT_SIZE] \<bind> (\<lambda>(c, st). write_state_rows c st rows [j + 1..<n]))
      (\<lambda>d st. case read_state_row d st cur j [0..<CONTEXT_SIZE] of (x, d, st) \<Rightarrow> (\<lambda>x d st. read_state_rows d st x [j + 1..<n]) x d st) rows"
    by (rule codes_bind [OF row]) (rule rest)
  have "n - j = Suc (n - (j + 1))" using j(1) by simp
  then have e: "64 * CONTEXT_SIZE + 64 * CONTEXT_SIZE * (n - (j + 1)) = 64 * CONTEXT_SIZE * (n - j)" by (simp only: mult_Suc_right)
  show ?case using cb unfolding e j(4) write_state_rows.simps read_state_rows.simps Let_def by simp
qed

text \<open>The states of each table, if there is anything to say about them.\<close>

definition set_states :: "ffv1_context \<Rightarrow> ffv1_context \<Rightarrow> nat \<Rightarrow> ffv1_context" where
  "set_states f g i = (if contains_non_128 (fc_initial_states f ! i) (nat (fc_context_count f ! i))
     then g\<lparr>fc_initial_states := (fc_initial_states g)[i := fc_initial_states f ! i]\<rparr> else g)"

definition states_cost :: "ffv1_context \<Rightarrow> nat \<Rightarrow> nat" where
  "states_cost f i = (if contains_non_128 (fc_initial_states f ! i) (nat (fc_context_count f ! i))
     then 1 + 64 * CONTEXT_SIZE * nat (fc_context_count f ! i) else 1)"

definition states_shape :: "ffv1_context \<Rightarrow> nat \<Rightarrow> bool" where
  "states_shape f i \<longleftrightarrow> (case fc_initial_states f ! i of None \<Rightarrow> True
     | Some rows \<Rightarrow> length rows = nat (fc_context_count f ! i) \<and> (\<forall>r \<in> set rows. length r = CONTEXT_SIZE))"

abbreviation locals_ok :: "nat \<Rightarrow> nat \<Rightarrow> bytes \<times> bytes list \<Rightarrow> bool" where
  "locals_ok lo hi s \<equiv> array_ok lo hi CONTEXT_SIZE (fst s) \<and> arrays_ok lo hi (snd s)"

lemma codes_states:
  "distinct is \<Longrightarrow> \<forall>i \<in> set is. states_shape f i \<and> fc_context_count g ! i = fc_context_count f ! i \<and>
     fc_initial_states g ! i = Some (replicate (nat (fc_context_count f ! i)) (replicate CONTEXT_SIZE 128)) \<Longrightarrow>
   codes lo hi (locals_ok lo hi) (sum_list (map (states_cost f) is)) (\<lambda>c s. write_states f c s is)
     (\<lambda>d s. read_states g d s is) (foldl (set_states f) g is)"
proof (induction "is" arbitrary: g)
  case Nil
  show ?case using codes_return [of lo hi _ g] by simp
next
  case (Cons i "is")
  let ?n = "nat (fc_context_count f ! i)" and ?b = "contains_non_128 (fc_initial_states f ! i) (nat (fc_context_count f ! i))"
  have i: "states_shape f i" "fc_context_count g ! i = fc_context_count f ! i"
    "fc_initial_states g ! i = Some (replicate ?n (replicate CONTEXT_SIZE 128))" "i \<notin> set is"
    using Cons.prems by simp_all
  have "\<forall>k \<in> set is. states_shape f k \<and> fc_context_count (set_states f g i) ! k = fc_context_count f ! k \<and>
     fc_initial_states (set_states f g i) ! k = Some (replicate (nat (fc_context_count f ! k)) (replicate CONTEXT_SIZE 128))"
  proof
    fix k assume k: "k \<in> set is"
    then have "k \<noteq> i" using i(4) by blast
    then show "states_shape f k \<and> fc_context_count (set_states f g i) ! k = fc_context_count f ! k \<and>
       fc_initial_states (set_states f g i) ! k = Some (replicate (nat (fc_context_count f ! k)) (replicate CONTEXT_SIZE 128))"
      using Cons.prems(2) k by (simp add: set_states_def)
  qed
  then have rest: "codes lo hi (locals_ok lo hi) (sum_list (map (states_cost f) is)) (\<lambda>c s. write_states f c s is)
     (\<lambda>d s. read_states (set_states f g i) d s is) (foldl (set_states f) (set_states f g i) is)"
    using Cons.prems(1) by (intro Cons.IH) simp_all
  have put: "codes lo hi (locals_ok lo hi) 1 (\<lambda>c s. put_rac c (fst s) 0 ?b \<bind> (\<lambda>(c, st). Some (c, (st, snd s))))
      (\<lambda>d s. case get_rac d (fst s) 0 of (x, d, st) \<Rightarrow> (x, d, (st, snd s))) ?b"
    by (rule codes_lift [OF codes_put]) auto
  show ?case
  proof (cases ?b)
    case True
    then have b: "?b = True" by simp
    obtain rows where rows: "fc_initial_states f ! i = Some rows" using True by (auto simp: contains_non_128_def split: option.splits)
    then have rs: "length rows = ?n" "\<forall>r \<in> set rows. length r = CONTEXT_SIZE" using i(1) by (simp_all add: states_shape_def)
    have all: "codes lo hi (locals_ok lo hi) (64 * CONTEXT_SIZE * ?n)
        (\<lambda>c s. write_state_rows c (snd s) rows [0..<?n] \<bind> (\<lambda>(c, x). Some (c, (fst s, x))))
        (\<lambda>d s. case read_state_rows d (snd s) (replicate ?n (replicate CONTEXT_SIZE 128)) [0..<?n] of (x, d, t) \<Rightarrow> (x, d, (fst s, t))) rows"
      by (rule codes_lift) (use codes_state_rows [OF rs, of 0 "replicate ?n (replicate CONTEXT_SIZE 128)" lo hi] in auto)
    have g: "set_states f g i = g\<lparr>fc_initial_states := (fc_initial_states g)[i := Some rows]\<rparr>" using True rows by (simp add: set_states_def)
    let ?dec = "\<lambda>b d s. if b then (case (case read_state_rows d (snd s) (the (fc_initial_states g ! i)) [0..<nat (fc_context_count g ! i)] of
          (x, d, t) \<Rightarrow> (x, d, (fst s, t))) of (x, d, s) \<Rightarrow> read_states (g\<lparr>fc_initial_states := (fc_initial_states g)[i := Some x]\<rparr>) d s is)
        else read_states g d s is"
    have "codes lo hi (locals_ok lo hi) (64 * CONTEXT_SIZE * ?n + sum_list (map (states_cost f) is))
        (\<lambda>c s. (write_state_rows c (snd s) rows [0..<?n] \<bind> (\<lambda>(c, x). Some (c, (fst s, x)))) \<bind> (\<lambda>(c, s). write_states f c s is))
        (\<lambda>d s. case (case read_state_rows d (snd s) (replicate ?n (replicate CONTEXT_SIZE 128)) [0..<?n] of (x, d, t) \<Rightarrow> (x, d, (fst s, t))) of
          (x, d, s) \<Rightarrow> (\<lambda>x d s. read_states (g\<lparr>fc_initial_states := (fc_initial_states g)[i := Some x]\<rparr>) d s is) x d s)
        (foldl (set_states f) (set_states f g i) is)"
      by (rule codes_bind [OF all]) (use rest in \<open>simp only: g\<close>)
    then have "codes lo hi (locals_ok lo hi) (64 * CONTEXT_SIZE * ?n + sum_list (map (states_cost f) is))
        (\<lambda>c s. (write_state_rows c (snd s) rows [0..<?n] \<bind> (\<lambda>(c, x). Some (c, (fst s, x)))) \<bind> (\<lambda>(c, s). write_states f c s is))
        (?dec True) (foldl (set_states f) g (i # is))"
      by (simp only: if_True i(2,3) option.sel foldl_Cons)
    from codes_bind [OF put [unfolded b], where dec' = ?dec, OF this]
    have cb: "codes lo hi (locals_ok lo hi) (1 + (64 * CONTEXT_SIZE * ?n + sum_list (map (states_cost f) is)))
        (\<lambda>c s. (put_rac c (fst s) 0 True \<bind> (\<lambda>(c, st). Some (c, (st, snd s)))) \<bind> (\<lambda>(c, s).
          (write_state_rows c (snd s) rows [0..<?n] \<bind> (\<lambda>(c, x). Some (c, (fst s, x)))) \<bind> (\<lambda>(c, s). write_states f c s is)))
        (\<lambda>d s. case (case get_rac d (fst s) 0 of (x, d, st) \<Rightarrow> (x, d, (st, snd s))) of (x, d, s) \<Rightarrow> ?dec x d s) (foldl (set_states f) g (i # is))" .
    have e1: "(\<lambda>c s. (put_rac c (fst s) 0 True \<bind> (\<lambda>(c, st). Some (c, (st, snd s)))) \<bind> (\<lambda>(c, s).
          (write_state_rows c (snd s) rows [0..<?n] \<bind> (\<lambda>(c, x). Some (c, (fst s, x)))) \<bind> (\<lambda>(c, s). write_states f c s is))) =
        (\<lambda>c s. write_states f c s (i # is))"
      using True rows by (intro ext) (simp split: Option.bind_split)
    have e2: "(\<lambda>d s. case (case get_rac d (fst s) 0 of (x, d, st) \<Rightarrow> (x, d, (st, snd s))) of (x, d, s) \<Rightarrow> ?dec x d s) =
        (\<lambda>d s. read_states g d s (i # is))"
      by (intro ext) (simp add: Let_def split: prod.split)
    have e3: "1 + (64 * CONTEXT_SIZE * ?n + sum_list (map (states_cost f) is)) = sum_list (map (states_cost f) (i # is))"
      using True by (simp add: states_cost_def)
    show ?thesis using cb unfolding e1 e2 e3 .
  next
    case False
    then have b: "?b = False" and g: "set_states f g i = g" by (simp_all add: set_states_def)
    let ?dec = "\<lambda>b d s. if b then (case (case read_state_rows d (snd s) (the (fc_initial_states g ! i)) [0..<nat (fc_context_count g ! i)] of
          (x, d, t) \<Rightarrow> (x, d, (fst s, t))) of (x, d, s) \<Rightarrow> read_states (g\<lparr>fc_initial_states := (fc_initial_states g)[i := Some x]\<rparr>) d s is)
        else read_states g d s is"
    have "codes lo hi (locals_ok lo hi) (sum_list (map (states_cost f) is)) (\<lambda>c s. write_states f c s is) (?dec False) (foldl (set_states f) g (i # is))"
      using rest by (simp only: if_False g foldl_Cons)
    from codes_bind [OF put [unfolded b], where dec' = ?dec, OF this]
    have cb: "codes lo hi (locals_ok lo hi) (1 + sum_list (map (states_cost f) is))
        (\<lambda>c s. (put_rac c (fst s) 0 False \<bind> (\<lambda>(c, st). Some (c, (st, snd s)))) \<bind> (\<lambda>(c, s). write_states f c s is))
        (\<lambda>d s. case (case get_rac d (fst s) 0 of (x, d, st) \<Rightarrow> (x, d, (st, snd s))) of (x, d, s) \<Rightarrow> ?dec x d s) (foldl (set_states f) g (i # is))" .
    have e1: "(\<lambda>c s. (put_rac c (fst s) 0 False \<bind> (\<lambda>(c, st). Some (c, (st, snd s)))) \<bind> (\<lambda>(c, s). write_states f c s is)) =
        (\<lambda>c s. write_states f c s (i # is))"
      using False by (intro ext) (simp split: Option.bind_split)
    have e2: "(\<lambda>d s. case (case get_rac d (fst s) 0 of (x, d, st) \<Rightarrow> (x, d, (st, snd s))) of (x, d, s) \<Rightarrow> ?dec x d s) =
        (\<lambda>d s. read_states g d s (i # is))"
      by (intro ext) (simp add: Let_def split: prod.split)
    have e3: "1 + sum_list (map (states_cost f) is) = sum_list (map (states_cost f) (i # is))"
      using False by (simp add: states_cost_def)
    show ?thesis using cb unfolding e1 e2 e3 .
  qed
qed

section \<open>The whole header\<close>

text \<open>\<open>reads\<close>: as \<open>codes\<close>, but the reader may stop before the end of what is written.\<close>

definition reads :: "nat \<Rightarrow> nat \<Rightarrow> ('s \<Rightarrow> bool) \<Rightarrow> nat \<Rightarrow> (range_coder \<Rightarrow> 's \<Rightarrow> (range_coder \<times> 't) option) \<Rightarrow>
    (range_coder \<Rightarrow> 's \<Rightarrow> 'a \<times> 'd) \<Rightarrow> 'a \<Rightarrow> bool" where
  "reads lo hi P k enc dec v \<longleftrightarrow> (\<forall>c s. enc_ok c \<and> tables_ok lo hi c \<and> P s \<and> room c k \<longrightarrow>
     (\<exists>c' s'. enc c s = Some (c', s') \<and> after k c c' \<and>
       (\<forall>X N d. holds X c' \<and> dec_sync X N c d \<and> rac_len c' \<le> N \<longrightarrow> (\<exists>d'. dec d s = (v, d')))))"

lemma readsE:
  assumes "reads lo hi P k enc dec v" "enc_ok c" "tables_ok lo hi c" "P s" "room c k"
  obtains c' s' where "enc c s = Some (c', s')" "after k c c'"
    "\<forall>X N d. holds X c' \<and> dec_sync X N c d \<and> rac_len c' \<le> N \<longrightarrow> (\<exists>d'. dec d s = (v, d'))"
  using assms unfolding reads_def by blast

lemma reads_codes: "codes lo hi P k enc dec v \<Longrightarrow> reads lo hi P k enc dec v"
  unfolding codes_def reads_def by (intro allI impI) (elim allE impE; blast)

lemma reads_bind:
  assumes 1: "codes lo hi P k enc dec v" and 2: "reads lo hi P l enc' (dec' v) w"
  shows "reads lo hi P (k + l) (\<lambda>c s. enc c s \<bind> (\<lambda>(c, s). enc' c s)) (\<lambda>d s. case dec d s of (x, d, s) \<Rightarrow> dec' x d s) w"
  unfolding reads_def
proof (intro allI impI, elim conjE)
  fix c s assume a: "enc_ok c" "tables_ok lo hi c" "P s" "room c (k + l)"
  then have "room c k" by (simp add: room_def)
  obtain c1 s1 where c1: "enc c s = Some (c1, s1)" "after k c c1" "P s1"
    "\<forall>X N d. holds X c1 \<and> dec_sync X N c d \<and> rac_len c1 \<le> N \<longrightarrow> (\<exists>d'. dec d s = (v, d', s1) \<and> dec_sync X N c1 d')"
    by (rule codesE [OF 1 a(1-3) \<open>room c k\<close>]) blast
  have b: "enc_ok c1" "tables_ok lo hi c1" using c1(2) a(2) tables_ok_same by (auto simp: after_def)
  obtain c2 s2 where c2: "enc' c1 s1 = Some (c2, s2)" "after l c1 c2"
    "\<forall>X N d. holds X c2 \<and> dec_sync X N c1 d \<and> rac_len c2 \<le> N \<longrightarrow> (\<exists>d'. dec' v d s1 = (w, d'))"
    by (rule readsE [OF 2 b c1(3) room_after [OF a(4) c1(2)]]) blast
  have "\<exists>d'. (case dec d s of (x, d, s) \<Rightarrow> dec' x d s) = (w, d')"
    if h: "holds X c2" "dec_sync X N c d" "rac_len c2 \<le> N" for X N d
  proof -
    have "holds X c1" "rac_len c1 \<le> N" using c2(2) h by (auto simp: after_def)
    then obtain d1 where d1: "dec d s = (v, d1, s1)" "dec_sync X N c1 d1" using c1(4) h(2) by blast
    moreover obtain d2 where "dec' v d1 s1 = (w, d2)" using c2(3) h(1,3) d1(2) by blast
    ultimately show ?thesis by simp
  qed
  then show "\<exists>c' s'. enc c s \<bind> (\<lambda>(c, s). enc' c s) = Some (c', s') \<and> after (k + l) c c' \<and>
      (\<forall>X N d. holds X c' \<and> dec_sync X N c d \<and> rac_len c' \<le> N \<longrightarrow> (\<exists>d'. (case dec d s of (x, d, s) \<Rightarrow> dec' x d s) = (w, d')))"
    using c1(1) c2 after_trans [OF c1(2) c2(2)] by auto
qed

lemma reads_more:
  assumes 1: "codes lo hi P k enc dec v" and 2: "codes lo hi P l enc' dec' w"
  shows "reads lo hi P (k + l) (\<lambda>c s. enc c s \<bind> (\<lambda>(c, s). enc' c s)) dec v"
  unfolding reads_def
proof (intro allI impI, elim conjE)
  fix c s assume a: "enc_ok c" "tables_ok lo hi c" "P s" "room c (k + l)"
  then have "room c k" by (simp add: room_def)
  obtain c1 s1 where c1: "enc c s = Some (c1, s1)" "after k c c1" "P s1"
    "\<forall>X N d. holds X c1 \<and> dec_sync X N c d \<and> rac_len c1 \<le> N \<longrightarrow> (\<exists>d'. dec d s = (v, d', s1) \<and> dec_sync X N c1 d')"
    by (rule codesE [OF 1 a(1-3) \<open>room c k\<close>]) blast
  have b: "enc_ok c1" "tables_ok lo hi c1" using c1(2) a(2) tables_ok_same by (auto simp: after_def)
  obtain c2 s2 where c2: "enc' c1 s1 = Some (c2, s2)" "after l c1 c2"
    by (rule codesE [OF 2 b c1(3) room_after [OF a(4) c1(2)]]) blast
  have "\<exists>d'. dec d s = (v, d')" if h: "holds X c2" "dec_sync X N c d" "rac_len c2 \<le> N" for X N d
  proof -
    have "holds X c1" "rac_len c1 \<le> N" using c2(2) h by (auto simp: after_def)
    then show ?thesis using c1(4) h(2) by blast
  qed
  then show "\<exists>c' s'. enc c s \<bind> (\<lambda>(c, s). enc' c s) = Some (c', s') \<and> after (k + l) c c' \<and>
      (\<forall>X N d. holds X c' \<and> dec_sync X N c d \<and> rac_len c' \<le> N \<longrightarrow> (\<exists>d'. dec d s = (v, d')))"
    using c1(1) c2 after_trans [OF c1(2) c2(2)] by auto
qed

definition set_intra :: "ffv1_context \<Rightarrow> ffv1_context \<Rightarrow> ffv1_context" where
  "set_intra f g = (if fc_micro_version g > 2 then g\<lparr>fc_ec := fc_ec f, fc_intra := fc_intra f\<rparr> else g\<lparr>fc_ec := fc_ec f\<rparr>)"

lemma reads_intra:
  assumes v: "fc_version f > 2" "fc_version g = fc_version f"
    and e: "0 \<le> fc_ec f" "fc_ec f \<le> INT_MAX" "0 \<le> fc_intra f" "fc_intra f \<le> INT_MAX"
  shows "reads lo hi (array_ok lo hi CONTEXT_SIZE) (64 + 64) (\<lambda>c st. write_intra f c st) (\<lambda>d st. read_intra g d st) (set_intra f g)"
proof -
  have a: "\<bar>fc_ec f\<bar> \<le> INT_MAX" "\<bar>fc_intra f\<bar> \<le> INT_MAX" using e by simp_all
  let ?r = "\<lambda>x d st. if fc_micro_version g > 2
    then (case get_symbol d st False of (y, d, st) \<Rightarrow> (g\<lparr>fc_ec := x, fc_intra := y\<rparr>, d, st)) else (g\<lparr>fc_ec := x\<rparr>, d, st)"
  have w: "(\<lambda>c st. write_intra f c st) = (\<lambda>c st. put_symbol c st (fc_ec f) False \<bind> (\<lambda>(c, st). put_symbol c st (fc_intra f) False))"
    using v by (intro ext) (simp add: write_intra_def)
  have rd: "(\<lambda>d st. read_intra g d st) = (\<lambda>d st. case get_symbol d st False of (x, d, st) \<Rightarrow> ?r x d st)"
    using v by (intro ext) (simp add: read_intra_def Let_def cong: if_cong split: prod.split)
  show ?thesis
  proof (cases "fc_micro_version g > 2")
    case True
    have "codes lo hi (array_ok lo hi CONTEXT_SIZE) (64 + 64) (\<lambda>c st. put_symbol c st (fc_ec f) False \<bind> (\<lambda>(c, st). put_symbol c st (fc_intra f) False))
        (\<lambda>d st. case get_symbol d st False of (x, d, st) \<Rightarrow> ?r x d st) (set_intra f g)"
    proof (rule codes_then_symbol [OF a(1) disjI1 [OF e(1)]])
      show "codes lo hi (array_ok lo hi CONTEXT_SIZE) 64 (\<lambda>c st. put_symbol c st (fc_intra f) False) (?r (fc_ec f)) (set_intra f g)"
        unfolding if_P [OF True] set_intra_def by (rule codes_last_symbol [OF a(2) disjI1 [OF e(3)]])
    qed
    then show ?thesis unfolding w rd by (rule reads_codes)
  next
    case False
    have 1: "codes lo hi (array_ok lo hi CONTEXT_SIZE) 64 (\<lambda>c st. put_symbol c st (fc_ec f) False)
        (\<lambda>d st. case get_symbol d st False of (x, d, st) \<Rightarrow> (g\<lparr>fc_ec := x\<rparr>, d, st)) (g\<lparr>fc_ec := fc_ec f\<rparr>)"
      by (rule codes_last_symbol [OF a(1) disjI1 [OF e(1)]])
    show ?thesis unfolding w rd if_not_P [OF False] set_intra_def
      by (rule reads_more [OF 1 codes_symbol [OF a(2) disjI1 [OF e(3)]]])
  qed
qed

definition set_fresh :: "ffv1_context \<Rightarrow> nat \<Rightarrow> ffv1_context" where
  "set_fresh g i = g\<lparr>fc_initial_states := (fc_initial_states g)[i := Some (replicate (nat (fc_context_count g ! i)) (replicate CONTEXT_SIZE 128))]\<rparr>"

lemma allocate_states_ok: "\<forall>i \<in> set is. alloc i \<Longrightarrow> allocate_states alloc f is = (None, foldl set_fresh f is)"
  by (induction "is" arbitrary: f) (simp_all add: set_fresh_def)

lemma fold_tables:
  "foldl (set_tables f) g is = g\<lparr>fc_quant_tables := foldl (\<lambda>t i. t[i := fc_quant_tables f ! i]) (fc_quant_tables g) is,
     fc_context_count := foldl (\<lambda>t i. t[i := (quants_levels 1 (fc_quant_tables f ! i) + 1) div 2]) (fc_context_count g) is\<rparr>"
  by (induction "is" rule: rev_induct) (simp_all add: set_tables_def)

lemma fold_fresh:
  "foldl set_fresh g is = g\<lparr>fc_initial_states :=
     foldl (\<lambda>t i. t[i := Some (replicate (nat (fc_context_count g ! i)) (replicate CONTEXT_SIZE 128))]) (fc_initial_states g) is\<rparr>"
  by (induction "is" rule: rev_induct) (simp_all add: set_fresh_def)

lemma fold_states:
  "foldl (set_states f) g is = g\<lparr>fc_initial_states :=
     foldl (\<lambda>s i. if contains_non_128 (fc_initial_states f ! i) (nat (fc_context_count f ! i)) then s[i := fc_initial_states f ! i] else s)
       (fc_initial_states g) is\<rparr>"
  by (induction "is" rule: rev_induct) (simp_all add: set_states_def)

lemma foldl_set_if:
  "length (foldl (\<lambda>xs i. if b i then xs[i := f i] else xs) xs is) = length xs"
  "i < length xs \<Longrightarrow> foldl (\<lambda>xs i. if b i then xs[i := f i] else xs) xs is ! i = (if i \<in> set is \<and> b i then f i else xs ! i)"
proof -
  show "length (foldl (\<lambda>xs i. if b i then xs[i := f i] else xs) xs is) = length xs" for xs
    by (induction "is" arbitrary: xs) simp_all
  have u: "i < length xs \<Longrightarrow> xs[a := y] ! i = (if a = i then y else xs ! i)" for xs and a y by (cases "a = i") simp_all
  show "i < length xs \<Longrightarrow> foldl (\<lambda>xs i. if b i then xs[i := f i] else xs) xs is ! i = (if i \<in> set is \<and> b i then f i else xs ! i)"
    by (induction "is" arbitrary: xs) (auto simp: u)
qed

text \<open>What a header that can be written looks like.\<close>

definition header_ok :: "ffv1_context \<Rightarrow> bool" where
  "header_ok f \<longleftrightarrow> params_ok f \<and> fc_version f \<in> {3, 4} \<and> 0 \<le> fc_ec f \<and> fc_ec f \<le> INT_MAX \<and>
     (\<forall>i < nat (fc_quant_table_count f). length (fc_quant_tables f ! i) = MAX_CONTEXT_INPUTS \<and> quants_ok 1 (fc_quant_tables f ! i) \<and>
        fc_context_count f ! i = (quants_levels 1 (fc_quant_tables f ! i) + 1) div 2 \<and> states_shape f i)"

text \<open>A context that can take it.\<close>

definition reader_ok :: "ffv1_context \<Rightarrow> bool" where
  "reader_ok g \<longleftrightarrow> tables_shape g \<and> length (fc_state_transition g) = 256 \<and> length (fc_initial_states g) = MAX_QUANT_TABLES"

definition set_rest :: "ffv1_context \<Rightarrow> ffv1_context \<Rightarrow> ffv1_context" where
  "set_rest f g = (let is = [0..<nat (fc_quant_table_count f)] in
     set_intra f (foldl (set_states f) (foldl set_fresh (foldl (set_tables f) g is) is) is))"

definition write_rest :: "ffv1_context \<Rightarrow> range_coder \<Rightarrow> bytes \<Rightarrow> (range_coder \<times> bytes) option" where
  "write_rest f c state = do {
     c \<leftarrow> write_all_tables f c [0..<nat (fc_quant_table_count f)];
     (c, state, state2) \<leftarrow> write_states f c (state, fresh_states) [0..<nat (fc_quant_table_count f)];
     write_intra f c state }"

definition rest_cost :: "ffv1_context \<Rightarrow> nat" where
  "rest_cost f = 64 * 128 * 5 * nat (fc_quant_table_count f) + (sum_list (map (states_cost f) [0..<nat (fc_quant_table_count f)]) + (64 + 64))"

lemma quants_lengths: "quants_ok n qs \<Longrightarrow> \<forall>q \<in> set qs. length q = 256"
  by (induction qs arbitrary: n) (auto simp: quant_ok_def)

lemma reads_rest:
  assumes t: "0 < lo" "lo \<le> 128" "128 \<le> hi" and f: "header_ok f" "0 \<le> fc_intra f" "fc_intra f \<le> INT_MAX"
    and g: "reader_ok g" "fc_version g = fc_version f" "fc_quant_table_count g = fc_quant_table_count f" and a: "\<forall>i < MAX_QUANT_TABLES. alloc i"
  shows "reads lo hi (array_ok lo hi CONTEXT_SIZE) (rest_cost f) (\<lambda>c st. write_rest f c st) (\<lambda>d st. read_rest alloc g d st) (None, set_rest f g)"
proof -
  let ?n = "nat (fc_quant_table_count f)"
  define js where "js = [0..<?n]"
  have n: "\<forall>i \<in> set js. i < MAX_QUANT_TABLES" using f(1) by (auto simp: header_ok_def params_ok_def js_def)
  have fi: "\<forall>i \<in> set js. i < MAX_QUANT_TABLES \<and> length (fc_quant_tables f ! i) = 5 \<and> quants_ok 1 (fc_quant_tables f ! i) \<and>
      (\<forall>q \<in> set (fc_quant_tables f ! i). length q = 256)"
    using f(1) n quants_lengths unfolding header_ok_def js_def by auto
  have shape: "tables_shape g" using g(1) by (simp add: reader_ok_def)
  let ?g1 = "foldl (set_tables f) g js" let ?g2 = "foldl set_fresh ?g1 js" let ?g3 = "foldl (set_states f) ?g2 js"
  have l: "length (fc_context_count g) = 8" "length (fc_initial_states g) = 8" using g(1) by (simp_all add: reader_ok_def tables_shape_def)
  have cc: "fc_context_count ?g1 ! i = fc_context_count f ! i" if "i \<in> set js" for i
  proof -
    have "i < 8" "fc_context_count f ! i = (quants_levels 1 (fc_quant_tables f ! i) + 1) div 2"
      using that n f(1) unfolding header_ok_def js_def by auto
    then show ?thesis using that l by (simp add: fold_tables foldl_set_range(2))
  qed
  have is2: "\<forall>i \<in> set js. states_shape f i \<and> fc_context_count ?g2 ! i = fc_context_count f ! i \<and>
     fc_initial_states ?g2 ! i = Some (replicate (nat (fc_context_count f ! i)) (replicate CONTEXT_SIZE 128))"
  proof
    fix i assume i: "i \<in> set js"
    then have "i < 8" "states_shape f i" using n f(1) unfolding header_ok_def js_def by auto
    moreover have "fc_initial_states ?g1 = fc_initial_states g" by (simp add: fold_tables)
    ultimately show "states_shape f i \<and> fc_context_count ?g2 ! i = fc_context_count f ! i \<and>
       fc_initial_states ?g2 ! i = Some (replicate (nat (fc_context_count f ! i)) (replicate CONTEXT_SIZE 128))"
      using i l cc [OF i] unfolding fold_fresh by (simp add: foldl_set_range(2))
  qed
  have g3: "fc_version ?g3 = fc_version f" "fc_quant_table_count ?g1 = fc_quant_table_count f"
    using g(2,3) by (simp_all add: fold_states fold_fresh fold_tables)
  let ?fin = "\<lambda>h d (st :: bytes). case read_intra h d st of (h, d, st) \<Rightarrow> ((None :: averror option, h), d)"
  have intra: "reads lo hi (array_ok lo hi CONTEXT_SIZE) (64 + 64) (\<lambda>c st. write_intra f c st) (?fin ?g3) (None, set_intra f ?g3)"
    unfolding reads_def
  proof (intro allI impI, elim conjE)
    fix c st assume b: "enc_ok c" "tables_ok lo hi c" "states_ok lo hi st" "length st = CONTEXT_SIZE" "room c (64 + 64)"
    have v: "fc_version f > 2" "0 \<le> fc_ec f" "fc_ec f \<le> INT_MAX" using f(1) by (auto simp: header_ok_def)
    obtain c' s' where c': "write_intra f c st = Some (c', s')" "after (64 + 64) c c'"
      "\<forall>X N d. holds X c' \<and> dec_sync X N c d \<and> rac_len c' \<le> N \<longrightarrow> (\<exists>d'. read_intra ?g3 d st = (set_intra f ?g3, d'))"
      by (rule readsE [OF reads_intra [OF v(1) g3(1) v(2,3) f(2,3)] b(1,2) conjI [OF b(3,4)] b(5)]) blast
    have fin: "\<exists>d'. ?fin ?g3 d st = ((None, set_intra f ?g3), d')" if r: "\<exists>d'. read_intra ?g3 d st = (set_intra f ?g3, d')" for d
    proof -
      from r obtain d1 s1 where "read_intra ?g3 d st = (set_intra f ?g3, d1, s1)" by (metis surj_pair)
      then show ?thesis by simp
    qed
    show "\<exists>c' s'. write_intra f c st = Some (c', s') \<and> after (64 + 64) c c' \<and>
        (\<forall>X N d. holds X c' \<and> dec_sync X N c d \<and> rac_len c' \<le> N \<longrightarrow> (\<exists>d'. ?fin ?g3 d st = ((None, set_intra f ?g3), d')))"
      by (rule exI [of _ c'], rule exI [of _ s']) (use c' fin in blast)
  qed
  have fresh: "arrays_ok lo hi fresh_states" using t by (simp add: fresh_states_def states_ok_def)
  have states: "codes lo hi (array_ok lo hi CONTEXT_SIZE) (sum_list (map (states_cost f) js))
      (\<lambda>c st. write_states f c (st, fresh_states) js \<bind> (\<lambda>(c, s). Some (c, fst s)))
      (\<lambda>d st. case read_states ?g2 d (st, fresh_states) js of (x, d, s) \<Rightarrow> (x, d, fst s)) ?g3"
    by (rule codes_lift [OF codes_states [OF _ is2]]) (use fresh in \<open>simp_all add: js_def\<close>)
  have tables: "codes lo hi (array_ok lo hi CONTEXT_SIZE) (64 * 128 * 5 * length js)
      (\<lambda>c st. map_option (\<lambda>c. (c, ())) (write_all_tables f c js) \<bind> (\<lambda>(c, s). Some (c, st)))
      (\<lambda>d st. case (case read_all_tables g d js of (r, d) \<Rightarrow> (r, d, ())) of (x, d, s) \<Rightarrow> (x, d, st)) (None, ?g1)"
    by (rule codes_lift [OF codes_all_tables [OF t fi shape]]) simp_all
  let ?rest = "\<lambda>x d st. case x of (e, h) \<Rightarrow> if e \<noteq> None then ((e, h), d)
    else (case allocate_states alloc h [0..<nat (fc_quant_table_count h)] of (e, h) \<Rightarrow> if e \<noteq> None then ((e, h), d)
      else (case (case read_states h d (st, fresh_states) [0..<nat (fc_quant_table_count h)] of (x, d, s) \<Rightarrow> (x, d, fst s)) of (h, d, st) \<Rightarrow> ?fin h d st))"
  have al: "allocate_states alloc ?g1 [0..<nat (fc_quant_table_count ?g1)] = (None, ?g2)"
    unfolding g3(2) g(3) js_def [symmetric] using a n by (intro allocate_states_ok) blast
  have c2: "[0..<nat (fc_quant_table_count ?g2)] = js" using g3(2) by (simp add: fold_fresh js_def)
  have "reads lo hi (array_ok lo hi CONTEXT_SIZE) (sum_list (map (states_cost f) js) + (64 + 64))
      (\<lambda>c st. (write_states f c (st, fresh_states) js \<bind> (\<lambda>(c, s). Some (c, fst s))) \<bind> (\<lambda>(c, st). write_intra f c st))
      (\<lambda>d st. case (case read_states ?g2 d (st, fresh_states) js of (x, d, s) \<Rightarrow> (x, d, fst s)) of (h, d, st) \<Rightarrow> ?fin h d st) (None, set_intra f ?g3)"
    by (rule reads_bind [OF states]) (rule intra)
  then have "reads lo hi (array_ok lo hi CONTEXT_SIZE) (sum_list (map (states_cost f) js) + (64 + 64))
      (\<lambda>c st. (write_states f c (st, fresh_states) js \<bind> (\<lambda>(c, s). Some (c, fst s))) \<bind> (\<lambda>(c, st). write_intra f c st))
      (?rest (None, ?g1)) (None, set_intra f ?g3)"
    by (simp only: prod.case al c2 simp_thms if_False)
  from reads_bind [OF tables, where dec' = ?rest, OF this]
  have cb: "reads lo hi (array_ok lo hi CONTEXT_SIZE) (64 * 128 * 5 * length js + (sum_list (map (states_cost f) js) + (64 + 64)))
      (\<lambda>c st. (map_option (\<lambda>c. (c, ())) (write_all_tables f c js) \<bind> (\<lambda>(c, s). Some (c, st))) \<bind> (\<lambda>(c, st).
        (write_states f c (st, fresh_states) js \<bind> (\<lambda>(c, s). Some (c, fst s))) \<bind> (\<lambda>(c, st). write_intra f c st)))
      (\<lambda>d st. case (case (case read_all_tables g d js of (r, d) \<Rightarrow> (r, d, ())) of (x, d, s) \<Rightarrow> (x, d, st)) of (x, d, st) \<Rightarrow> ?rest x d st)
      (None, set_intra f ?g3)" .
  have e1: "(\<lambda>c st. (map_option (\<lambda>c. (c, ())) (write_all_tables f c js) \<bind> (\<lambda>(c, s). Some (c, st))) \<bind> (\<lambda>(c, st).
        (write_states f c (st, fresh_states) js \<bind> (\<lambda>(c, s). Some (c, fst s))) \<bind> (\<lambda>(c, st). write_intra f c st))) = (\<lambda>c st. write_rest f c st)"
    unfolding write_rest_def js_def by (intro ext) (simp split: Option.bind_split)
  have e2: "(\<lambda>d st. case (case (case read_all_tables g d js of (r, d) \<Rightarrow> (r, d, ())) of (x, d, s) \<Rightarrow> (x, d, st)) of (x, d, st) \<Rightarrow> ?rest x d st) =
      (\<lambda>d st. read_rest alloc g d st)"
    unfolding read_rest_def ff_ffv1_allocate_initial_states_def js_def Let_def g(3) [symmetric]
    by (intro ext) (auto split: prod.split)
  have e3: "64 * 128 * 5 * length js + (sum_list (map (states_cost f) js) + (64 + 64)) = rest_cost f"
    by (simp add: rest_cost_def js_def)
  have e4: "set_intra f ?g3 = set_rest f g" unfolding set_rest_def js_def Let_def ..
  show ?thesis using cb unfolding e1 e2 e3 e4 .
qed


section \<open>The start of a header\<close>

text \<open>The first symbols are so few that their effect on the range can be followed: \<open>narrow\<close> gives the range and the
  states after some decisions, or none if the encoder had to renormalise.\<close>

fun narrow :: "bytes \<Rightarrow> bytes \<Rightarrow> int \<Rightarrow> bytes \<Rightarrow> (nat \<times> bool) list \<Rightarrow> (int \<times> bytes) option" where
  "narrow zero one r st [] = Some (r, st)"
| "narrow zero one r st ((i, b) # msg) =
     (let r1 = r * uint (st ! i) div 256; r' = (if b then r1 else r - r1)
      in if r' < 0x100 then None else narrow zero one r' (st[i := (if b then one else zero) ! unat (st ! i)]) msg)"

lemma put_rac_narrow:
  assumes p: "put_rac c st i b = Some (c', st')" and c: "enc_ok c" "tables_ok lo hi c" "states_ok lo hi st" "i < length st" "room c 1"
  defines "r' \<equiv> if b then rc_range c * uint (st ! i) div 256 else rc_range c - rc_range c * uint (st ! i) div 256"
  shows "if r' < 0x100 then rac_len c' = rac_len c + 1
    else rac_len c' = rac_len c \<and> rc_range c' = r' \<and> st' = st[i := (if b then one_state c else zero_state c) ! unat (st ! i)]"
proof -
  let ?r1 = "rc_range c * uint (st ! i) div 256"
  define c1 where "c1 = (if b then c\<lparr>rc_low := rc_low c + (rc_range c - ?r1), rc_range := ?r1\<rparr> else c\<lparr>rc_range := rc_range c - ?r1\<rparr>)"
  have "lo \<le> unat (st ! i)" "0 < lo" using c(2-4) by (auto simp: states_ok_def tables_ok_def)
  then have nz: "st ! i \<noteq> 0" by auto
  have "256 \<le> rc_range c" using c(1) by (simp add: enc_ok_def)
  note r1 = range1_bounds [OF this nz]
  have pre: "pre_ok c1" using c(1) r1 by (auto simp: c1_def enc_ok_def pre_ok_def)
  have same: "rac_len c1 = rac_len c" "rc_mem c1 = rc_mem c" "rc_range c1 = r'"
    by (simp_all add: c1_def rac_len_def r'_def)
  have l1: "rac_len c1 \<le> length (rc_mem c1)" using c(5) same by (simp add: room_def)
  have e: "renorm_encoder c1 = Some c'" "st' = st[i := (if b then one_state c else zero_state c) ! unat (st ! i)]"
    using p by (cases b; simp add: put_rac_def shr_div c1_def bind_eq_Some_conv Let_def)+
  show ?thesis
  proof (cases "r' < 0x100")
    case True
    obtain c2 where "renorm_encoder c1 = Some c2" "shifted c1 c2"
      by (rule renorm_once [OF shift_ok_pre [OF pre l1]]) (use True same(3) pre in \<open>simp_all add: pre_ok_def\<close>)
    then show ?thesis using e True same(1) by (simp add: shifted_def)
  next
    case False
    then have "c' = c1" using renorm_none [of c1] e same(3) by simp
    then show ?thesis using False same e(2) by simp
  qed
qed

lemma put_rac_more:
  assumes "enc_ok c" "tables_ok lo hi c" "states_ok lo hi st" "i < length st" "room c (1 + k)"
  obtains c' st' where "put_rac c st i b = Some (c', st')" "after 1 c c'" "enc_ok c'" "tables_ok lo hi c'" "states_ok lo hi st'"
    "length st' = length st" "room c' k"
proof -
  have "room c 1" using assms(5) by (simp add: room_def)
  from put_get_rac [OF assms(1-4) this, of b] obtain c' st' where
    p: "put_rac c st i b = Some (c', st')" "after 1 c c'" "states_ok lo hi st'" "length st' = length st" by metis
  then show thesis
    using that [of c' st'] assms(2) room_after [OF assms(5) p(2)] tables_ok_same by (auto simp: after_def)
qed

lemma rac_puts_narrow:
  assumes "enc_ok c" "tables_ok lo hi c" "states_ok lo hi st" "\<forall>x \<in> set msg. fst x < length st" "room c (length msg)"
    and "rac_puts c st msg = Some (c', st')"
  shows "rac_len c \<le> rac_len c' \<and>
    (case narrow (zero_state c) (one_state c) (rc_range c) st msg of None \<Rightarrow> rac_len c < rac_len c'
     | Some (r, s) \<Rightarrow> rac_len c' = rac_len c \<and> rc_range c' = r \<and> st' = s)"
  using assms
proof (induction msg arbitrary: c st)
  case (Cons x msg)
  obtain i b where x: "x = (i, b)" by (cases x)
  have i: "i < length st" "room c (1 + length msg)" using Cons.prems(4,5) x by simp_all
  obtain c1 st1 where c1: "put_rac c st i b = Some (c1, st1)" "after 1 c c1" "enc_ok c1" "tables_ok lo hi c1" "states_ok lo hi st1"
    "length st1 = length st" "room c1 (length msg)"
    by (rule put_rac_more [OF Cons.prems(1-3) i])
  have "\<forall>x \<in> set msg. fst x < length st1" "rac_puts c1 st1 msg = Some (c', st')" using Cons.prems(4,6) c1(1,6) x by simp_all
  from Cons.IH [OF c1(3-5) this(1) c1(7) this(2)]
  have IH: "rac_len c1 \<le> rac_len c'" "case narrow (zero_state c1) (one_state c1) (rc_range c1) st1 msg of None \<Rightarrow> rac_len c1 < rac_len c'
     | Some (r, s) \<Rightarrow> rac_len c' = rac_len c1 \<and> rc_range c' = r \<and> st' = s" by simp_all
  have r: "room c 1" using i(2) by (simp add: room_def)
  note n = put_rac_narrow [OF c1(1) Cons.prems(1-3) i(1) r]
  have t: "zero_state c1 = zero_state c" "one_state c1 = one_state c" "rac_len c \<le> rac_len c1"
    using c1(2) by (simp_all add: after_def same_tables_def)
  show ?case using IH n t unfolding x narrow.simps Let_def by (auto split: if_splits option.splits)
qed simp

text \<open>The two entries of the tables that matter.\<close>

lemma build_same_tables: "same_tables (ff_build_rac_states c factor max_p) (ff_build_rac_states d factor max_p)"
proof -
  obtain one p l where w: "(rac_walk factor max_p ^^ 128) (replicate 256 0, 2 ^ 31, 0) = (one, p, l)" by (metis prod_cases3)
  show ?thesis unfolding same_tables_def ff_build_rac_states_def w Let_def prod.case by simp
qed

lemma default_tables: "zero_state (ff_build_rac_states c 214748364 (256 - 8)) ! 128 = 122" "one_state (ff_build_rac_states c 214748364 (256 - 8)) ! 128 = 134"
proof -
  define d where "d = \<lparr>rc_low = 0, rc_range = 0, outstanding_count = 0, outstanding_byte = 0, zero_state = [], one_state = [], rc_mem = [],
    bytestream = 0, bytestream_end = 0, overread = 0\<rparr>"
  have "let d = ff_build_rac_states \<lparr>rc_low = 0, rc_range = 0, outstanding_count = 0, outstanding_byte = 0, zero_state = [], one_state = [], rc_mem = [],
      bytestream = 0, bytestream_end = 0, overread = 0\<rparr> 214748364 (256 - 8) in zero_state d ! 128 = 122 \<and> one_state d ! 128 = 134"
    by code_simp
  then have "zero_state (ff_build_rac_states d 214748364 (256 - 8)) ! 128 = 122" "one_state (ff_build_rac_states d 214748364 (256 - 8)) ! 128 = 134"
    unfolding d_def Let_def by blast+
  then show "zero_state (ff_build_rac_states c 214748364 (256 - 8)) ! 128 = 122" "one_state (ff_build_rac_states c 214748364 (256 - 8)) ! 128 = 134"
    using build_same_tables [of d 214748364 "256 - 8" c] unfolding same_tables_def by simp_all
qed

lemma small_symbols:
  "put_symbol c st 2 False = rac_puts c st [(0, False), (1, True), (2, False), (22, False)]"
  "put_symbol c st 3 False = rac_puts c st [(0, False), (1, True), (2, False), (22, True)]"
  "put_symbol c st 4 False = rac_puts c st [(0, False), (1, True), (2, True), (3, False), (23, False), (22, False)]"
proof -
  have l: "ff_log2_c 2 = 1" "ff_log2_c 3 = 1" "ff_log2_c 4 = 2" by code_simp+
  have r: "[0..<1] = [0 :: nat]" "[0..<2] = [0, 1 :: nat]" by code_simp+
  show "put_symbol c st 2 False = rac_puts c st [(0, False), (1, True), (2, False), (22, False)]"
    "put_symbol c st 3 False = rac_puts c st [(0, False), (1, True), (2, False), (22, True)]"
    "put_symbol c st 4 False = rac_puts c st [(0, False), (1, True), (2, True), (3, False), (23, False), (22, False)]"
    unfolding put_symbol_eq symbol_ones_def symbol_bits_def by (simp_all add: l r FFABS_def numeral_2_eq_2 numeral_3_eq_3 bind_assoc case_prod_beta')
qed

lemma narrow_version:
  "narrow (zero_state (ff_build_rac_states c 214748364 (256 - 8))) (one_state (ff_build_rac_states c 214748364 (256 - 8))) 0xFF00 fresh_state
     [(0, False), (1, True), (2, False), (22, True)] = Some (4080, (replicate 32 128)[0 := 122, 1 := 134, 2 := 122, 22 := 134])"
  "narrow (zero_state (ff_build_rac_states c 214748364 (256 - 8))) (one_state (ff_build_rac_states c 214748364 (256 - 8))) 0xFF00 fresh_state
     [(0, False), (1, True), (2, True), (3, False), (23, False), (22, False)] =
     Some (1020, (replicate 32 128)[0 := 122, 1 := 134, 2 := 134, 3 := 122, 22 := 122, 23 := 122])"
  "narrow (zero_state (ff_build_rac_states c 214748364 (256 - 8))) (one_state (ff_build_rac_states c 214748364 (256 - 8))) 4080
     ((replicate 32 128)[0 := 122, 1 := 134, 2 := 122, 22 := 134]) [(0, False), (1, True), (2, True), (3, False), (23, False), (22, False)] = None"
  "narrow (zero_state (ff_build_rac_states c 214748364 (256 - 8))) (one_state (ff_build_rac_states c 214748364 (256 - 8))) 1020
     ((replicate 32 128)[0 := 122, 1 := 134, 2 := 134, 3 := 122, 22 := 122, 23 := 122]) [(0, False), (1, True), (2, False), (22, False)] = None"
  by (simp_all add: default_tables [simplified] fresh_state_def Let_def list_update_swap)

definition micro_of :: "int \<Rightarrow> int" where "micro_of v = (if v = 3 then 4 else 2)"

text \<open>So the second symbol makes the encoder decide on a byte.\<close>

lemma version_symbols:
  fixes e buf m
  defines "c0 \<equiv> ff_build_rac_states (ff_init_range_encoder e buf m) 214748364 (256 - 8)"
  assumes v: "version = 3 \<or> version = 4" and l: "128 \<le> length buf"
    and 1: "put_symbol c0 fresh_state version False = Some (c1, st1)" "after 64 c0 c1" "array_ok 8 248 CONTEXT_SIZE st1"
    and 2: "put_symbol c1 st1 (micro_of version) False = Some (c2, st2)"
  shows "rac_len c1 < rac_len c2"
proof -
  note e = encoder_start [of e buf m 214748364 "256 - 8", folded c0_def]
  have t: "tables_ok 8 248 c0" using build_rac_states_ok [of "256 - 8" _ "214748364"] unfolding c0_def by simp
  have fresh: "states_ok 8 248 fresh_state" "length fresh_state = 32" by (simp_all add: fresh_state_def states_ok_def)
  have r0: "room c0 6" using l e by (simp add: room_def)
  have c1: "enc_ok c1" "tables_ok 8 248 c1" "states_ok 8 248 st1" "length st1 = 32" "room c1 6"
    using 1(2,3) t tables_ok_same l e(2,4) by (auto simp: after_def room_def)
  have tab: "zero_state c1 = zero_state c0" "one_state c1 = one_state c0" using 1(2) by (simp_all add: after_def same_tables_def)
  note n0 = rac_puts_narrow [OF e(1) t fresh(1), unfolded e(5)] and n1 = rac_puts_narrow [OF c1(1-3), unfolded tab]
  note nv = narrow_version [where c = "ff_init_range_encoder e buf m", folded c0_def]
  have rm: "room c0 (length [(0 :: nat, False), (1, True), (2, False), (22, b)])" "room c1 (length [(0 :: nat, False), (1, True), (2, False), (22, b)])"
    "room c0 (length [(0 :: nat, False), (1, True), (2, True), (3, False), (23, False), (22, False)])"
    "room c1 (length [(0 :: nat, False), (1, True), (2, True), (3, False), (23, False), (22, False)])" for b
    using r0 c1(5) by (simp_all add: room_def)
  have q: "\<forall>x \<in> set [(0, False), (1, True), (2, False), (22, b)]. fst x < n" "\<forall>x \<in> set [(0, False), (1, True), (2, True), (3, False), (23, False), (22, False)]. fst x < n"
    if "n = 32" for n :: nat and b using that by simp_all
  show ?thesis
  proof (cases "version = 3")
    case True
    have p: "rac_puts c0 fresh_state [(0, False), (1, True), (2, False), (22, True)] = Some (c1, st1)"
      "rac_puts c1 st1 [(0, False), (1, True), (2, True), (3, False), (23, False), (22, False)] = Some (c2, st2)"
      using 1(1) 2 small_symbols True by (simp_all add: micro_of_def)
    have "rc_range c1 = 4080" "st1 = (replicate 32 128)[0 := 122, 1 := 134, 2 := 122, 22 := 134]"
      using n0 [OF q(1) [OF fresh(2)] rm(1) p(1)] unfolding nv(1) option.case prod.case by blast+
    then show ?thesis using n1 [OF q(2) [OF c1(4)] rm(4) p(2)] by (simp only: nv(3) option.case)
  next
    case False
    then have v4: "version = 4" using v by simp
    have p: "rac_puts c0 fresh_state [(0, False), (1, True), (2, True), (3, False), (23, False), (22, False)] = Some (c1, st1)"
      "rac_puts c1 st1 [(0, False), (1, True), (2, False), (22, False)] = Some (c2, st2)"
      using 1(1) 2 small_symbols v4 by (simp_all add: micro_of_def)
    have "rc_range c1 = 1020" "st1 = (replicate 32 128)[0 := 122, 1 := 134, 2 := 134, 3 := 122, 22 := 122, 23 := 122]"
      using n0 [OF q(2) [OF fresh(2)] rm(3) p(1)] unfolding nv(2) option.case prod.case by blast+
    then show ?thesis using n1 [OF q(1) [OF c1(4)] rm(2) p(2)] by (simp only: nv(4) option.case)
  qed
qed

section \<open>The reader around the end of the header\<close>

lemma get_rac_frame: "get_rac d st i = (b, d', st') \<Longrightarrow> bytestream_end d' = bytestream_end d \<and> rc_mem d' = rc_mem d"
  by (auto simp: get_rac_def rac_refill_def Let_def split: if_splits)

lemma get_exponent_frame: "get_exponent d st e = (x, d', st') \<Longrightarrow> bytestream_end d' = bytestream_end d \<and> rc_mem d' = rc_mem d"
proof (induction d st e rule: get_exponent.induct)
  case (1 d st e)
  obtain b d1 st1 where g: "get_rac d st (1 + min e 9) = (b, d1, st1)" by (metis prod_cases3)
  note f = get_rac_frame [OF g]
  show ?case
  proof (cases "b \<and> \<not> e + 1 > 31")
    case True
    then show ?thesis using 1 g f by (auto simp: get_exponent.simps [of d st e])
  next
    case False
    then show ?thesis using 1(2) g f by (auto simp: get_exponent.simps [of d st e] split: if_splits)
  qed
qed

lemma get_mantissa_frame: "get_mantissa i a d st = (x, d', st') \<Longrightarrow> bytestream_end d' = bytestream_end d \<and> rc_mem d' = rc_mem d"
proof (induction i arbitrary: a d st)
  case (Suc i)
  obtain b d1 st1 where g: "get_rac d st (22 + min i 9) = (b, d1, st1)" by (metis prod_cases3)
  show ?case using Suc get_rac_frame [OF g] g by (auto simp: Let_def)
qed simp

lemma get_symbol_frame: "get_symbol d st s = (x, d', st') \<Longrightarrow> bytestream_end d' = bytestream_end d \<and> rc_mem d' = rc_mem d"
  unfolding get_symbol_eq get_magnitude_def get_sign_def
  by (auto split: prod.splits if_splits option.splits dest!: get_rac_frame get_exponent_frame get_mantissa_frame)

text \<open>A decoder of a longer buffer is in step with the encoder as far as the message goes; when \<open>bytestream_end\<close> is taken
  back to the end of the message, it is so to the end.\<close>

lemma decoder_start_within:
  fixes e mem m f buf sz factor max_p
  defines "c \<equiv> ff_build_rac_states (ff_init_range_encoder e mem m) factor max_p"
  assumes h: "holds X c" and x: "\<forall>k < N + 2. X k = buf ! k" and n: "N + 2 \<le> sz"
  shows "dec_sync X N c (ff_build_rac_states (ff_init_range_decoder f buf sz) factor max_p)"
    "bytestream_end (ff_build_rac_states (ff_init_range_decoder f buf sz) factor max_p) = sz"
proof -
  have l: "rac_len c = 0" by (simp add: c_def encoder_start)
  have s: "stream_num (seen buf sz) 2 = stream_num X 2"
    unfolding stream_num_def using x n by (auto simp: seen_def numeral_2_eq_2)
  have h': "holds (seen buf sz) c" using h s unfolding holds_def l add_0 by simp
  have "dec_sync (seen buf sz) N c (ff_build_rac_states (ff_init_range_decoder f buf sz) factor max_p)"
    unfolding c_def by (rule decoder_start) (use h' in \<open>simp add: c_def\<close>)
  moreover show en: "bytestream_end (ff_build_rac_states (ff_init_range_decoder f buf sz) factor max_p) = sz"
    by (rule decoder_start_end) (use h' in \<open>simp add: c_def\<close>)
  moreover have "rc_mem (ff_build_rac_states (ff_init_range_decoder f buf sz) factor max_p) = buf" by (rule dec_ok_start(4))
  ultimately show "dec_sync X N c (ff_build_rac_states (ff_init_range_decoder f buf sz) factor max_p)"
    using x n s [unfolded numeral_2_eq_2] unfolding dec_sync_def l by auto
qed

lemma dec_sync_cut:
  assumes d: "dec_sync X N c d" and l: "rac_len c + 2 \<le> n" "n < bytestream_end d"
    and x: "\<forall>k. X k = (if k < n then rc_mem d ! k else 0)"
  shows "dec_sync X M c (d\<lparr>bytestream_end := n\<rparr>)"
  using d l x unfolding dec_sync_def same_tables_def by auto


section \<open>What the reader has at the end\<close>

definition sent :: "ffv1_context \<Rightarrow> ffv1_context" where
  "sent f = f\<lparr>fc_micro_version := (if fc_version f = 3 then 4 else if fc_version f = 4 then 2 else fc_micro_version f),
     fc_intra := (if fc_version f > 2 then of_bool (fc_gop_size f < 2) else fc_intra f)\<rparr>"

text \<open>The initial states of a table: those given, or 128 everywhere.\<close>

definition states_of :: "ffv1_context \<Rightarrow> nat \<Rightarrow> bytes list" where
  "states_of f i = (case fc_initial_states f ! i of Some rows \<Rightarrow> rows | None \<Rightarrow> replicate (nat (fc_context_count f ! i)) (replicate CONTEXT_SIZE 128))"

lemma states_of_128:
  assumes "states_shape f i" "\<not> contains_non_128 (fc_initial_states f ! i) (nat (fc_context_count f ! i))"
  shows "states_of f i = replicate (nat (fc_context_count f ! i)) (replicate CONTEXT_SIZE 128)"
proof (cases "fc_initial_states f ! i")
  case (Some rows)
  then have l: "length rows = nat (fc_context_count f ! i)" "\<forall>r \<in> set rows. length r = CONTEXT_SIZE" using assms(1) by (simp_all add: states_shape_def)
  have all: "rows ! j ! k = 128" if "j < length rows" "k < CONTEXT_SIZE" for j k
    using assms(2) that l(1) unfolding Some contains_non_128_def option.case list_ex_iff set_upt by auto
  have "rows ! j = replicate CONTEXT_SIZE 128" if "j < length rows" for j
    by (rule nth_equalityI) (use l(2) that all [OF that] in simp_all)
  then have "rows = replicate (length rows) (replicate CONTEXT_SIZE 128)" by (intro nth_equalityI) simp_all
  then show ?thesis using Some l(1) by (simp add: states_of_def)
qed (simp add: states_of_def)

lemma set_rest_plain:
  fixes f g
  defines "h \<equiv> set_rest f (with_params f g)"
  shows "fc_version h = fc_version g" "fc_micro_version h = fc_micro_version g" "fc_extradata h = fc_extradata g"
    "fc_extradata_size h = fc_extradata_size g" "fc_ac h = fc_ac f"
    "fc_state_transition h = (if fc_ac f = AC_RANGE_CUSTOM_TAB then fc_state_transition g ! 0 # tl (fc_state_transition f) else fc_state_transition g)"
    "fc_colorspace h = fc_colorspace f" "fc_bits_per_raw_sample h = fc_bits_per_raw_sample f" "fc_chroma_planes h = fc_chroma_planes f"
    "fc_chroma_h_shift h = fc_chroma_h_shift f" "fc_chroma_v_shift h = fc_chroma_v_shift f" "fc_transparency h = fc_transparency f"
    "fc_plane_count h = plane_count (fc_chroma_planes f) (fc_version g) (fc_transparency f)"
    "fc_num_h_slices h = fc_num_h_slices f" "fc_num_v_slices h = fc_num_v_slices f" "fc_quant_table_count h = fc_quant_table_count f"
    "fc_ec h = fc_ec f" "fc_intra h = (if fc_micro_version g > 2 then fc_intra f else fc_intra g)"
  unfolding h_def set_rest_def Let_def set_intra_def fold_states fold_fresh fold_tables with_params_def by simp_all

lemma set_rest_tables:
  fixes f g
  defines "h \<equiv> set_rest f (with_params f g)"
  assumes f: "header_ok f" and g: "reader_ok g" and i: "i < nat (fc_quant_table_count f)"
  shows "fc_quant_tables h ! i = fc_quant_tables f ! i" "fc_context_count h ! i = fc_context_count f ! i"
    "fc_initial_states h ! i = Some (states_of f i)"
proof -
  let ?is = "[0..<nat (fc_quant_table_count f)]"
  have "i < 8" using f i by (auto simp: header_ok_def params_ok_def)
  then have l: "i < length (fc_quant_tables g)" "i < length (fc_context_count g)" "i < length (fc_initial_states g)"
    using g by (simp_all add: reader_ok_def tables_shape_def)
  have fi: "fc_context_count f ! i = (quants_levels 1 (fc_quant_tables f ! i) + 1) div 2" "states_shape f i"
    using f i by (simp_all add: header_ok_def)
  have p: "fc_quant_tables (with_params f g) = fc_quant_tables g" "fc_context_count (with_params f g) = fc_context_count g"
    "fc_initial_states (with_params f g) = fc_initial_states g" by (simp_all add: with_params_def)
  let ?cc = "foldl (\<lambda>t i. t[i := (quants_levels 1 (fc_quant_tables f ! i) + 1) div 2]) (fc_context_count g) ?is"
  have cc: "?cc ! i = fc_context_count f ! i" using l i fi(1) by (simp add: foldl_set_range(2))
  have q: "fc_quant_tables h = foldl (\<lambda>t i. t[i := fc_quant_tables f ! i]) (fc_quant_tables g) ?is" "fc_context_count h = ?cc"
    and s: "fc_initial_states h = foldl (\<lambda>s i. if contains_non_128 (fc_initial_states f ! i) (nat (fc_context_count f ! i)) then s[i := fc_initial_states f ! i] else s)
       (foldl (\<lambda>t i. t[i := Some (replicate (nat (?cc ! i)) (replicate CONTEXT_SIZE 128))]) (fc_initial_states g) ?is) ?is"
    unfolding h_def set_rest_def Let_def set_intra_def fold_states fold_fresh fold_tables by (simp_all add: p)
  show "fc_quant_tables h ! i = fc_quant_tables f ! i" "fc_context_count h ! i = fc_context_count f ! i"
    unfolding q cc using l i by (simp_all add: foldl_set_range(2))
  have "fc_initial_states h ! i = (if contains_non_128 (fc_initial_states f ! i) (nat (fc_context_count f ! i)) then fc_initial_states f ! i
      else Some (replicate (nat (fc_context_count f ! i)) (replicate CONTEXT_SIZE 128)))"
    unfolding s using l i cc by (simp add: foldl_set_if foldl_set_range)
  then show "fc_initial_states h ! i = Some (states_of f i)"
    using states_of_128 [OF fi(2)] by (auto simp: states_of_def contains_non_128_def split: option.splits)
qed

lemma reads_params_rest:
  assumes f: "header_ok f" "0 \<le> fc_intra f" "fc_intra f \<le> INT_MAX"
    and g: "reader_ok g" "fc_version g = fc_version f" "fc_width g = fc_width f" "fc_height g = fc_height f" and a: "\<forall>i < MAX_QUANT_TABLES. alloc i"
  shows "reads 8 248 (array_ok 8 248 CONTEXT_SIZE) ((64 * 255 + 64 * 10) + rest_cost f)
    (\<lambda>c st. write_params f c st \<bind> (\<lambda>(c, st). write_rest f c st))
    (\<lambda>d st. case read_params g d st of (r, d, st) \<Rightarrow> (\<lambda>r d st. if fst r \<noteq> None then (r, d) else read_rest alloc (snd r) d st) r d st)
    (None, set_rest f (with_params f g))"
proof (rule reads_bind)
  have p: "params_ok f" "length (fc_state_transition g) = 256" using f(1) g(1) by (simp_all add: header_ok_def reader_ok_def)
  then show "codes 8 248 (array_ok 8 248 CONTEXT_SIZE) (64 * 255 + 64 * 10) (\<lambda>c st. write_params f c st) (\<lambda>d st. read_params g d st) (None, with_params f g)"
    using g by (intro codes_params) simp_all
  have "length (fc_state_transition f) = 256" using p(1) by (simp add: params_ok_def)
  then have "reader_ok (with_params f g)" using g(1) by (simp add: reader_ok_def with_params_def tables_shape_def)
  then have "reads 8 248 (array_ok 8 248 CONTEXT_SIZE) (rest_cost f) (\<lambda>c st. write_rest f c st) (\<lambda>d st. read_rest alloc (with_params f g) d st)
      (None, set_rest f (with_params f g))"
    using g(2) by (intro reads_rest [OF _ _ _ f _ _ _ a]) (simp_all add: with_params_def)
  then show "reads 8 248 (array_ok 8 248 CONTEXT_SIZE) (rest_cost f) (\<lambda>c st. write_rest f c st)
      (\<lambda>d st. if fst (None, with_params f g) \<noteq> None then ((None, with_params f g), d) else read_rest alloc (snd (None, with_params f g)) d st)
      (None, set_rest f (with_params f g))"
    by simp
qed


section \<open>The two functions as a whole\<close>

lemma write_extradata_steps:
  assumes v: "fc_version f = 3 \<or> fc_version f = 4"
    and 1: "put_symbol (ff_build_rac_states (ff_init_range_encoder (fc_c f) buf EXTRADATA_SIZE) 214748364 (256 - 8)) fresh_state (fc_version f) False =
      Some (c1, st1)"
    and 2: "put_symbol c1 st1 (micro_of (fc_version f)) False = Some (c2, st2)"
    and 3: "write_params (sent f) c2 st2 \<bind> (\<lambda>(c, st). write_rest (sent f) c st) = Some (c3, st3)"
    and 4: "ff_rac_terminate c3 0 = Some (n, c4)" "av_crc_get_table cfg AV_CRC_32_IEEE crcs = Some (tab, ct)" "n + 4 \<le> length (rc_mem c4)"
  shows "write_extradata cfg crcs addr (Some buf) f = Some (Inr (), (sent f)\<lparr>fc_c := c4,
    fc_extradata := take n (rc_mem c4) @ AV_WL32 (av_crc cfg tab 0 addr (take n (rc_mem c4))) @ drop (n + 4) (rc_mem c4),
    fc_extradata_size := n + 4\<rparr>)"
proof -
  have m: "fc_version (sent f) = fc_version f" "fc_micro_version (sent f) = micro_of (fc_version f)" "fc_version f > 2"
    "fc_quant_table_count (sent f) = fc_quant_table_count f"
    using v by (auto simp: sent_def micro_of_def)
  obtain ca sa cb cc sc s2 where w: "write_params (sent f) c2 st2 = Some (ca, sa)"
    "write_all_tables (sent f) ca [0..<nat (fc_quant_table_count f)] = Some cb"
    "write_states (sent f) cb (sa, fresh_states) [0..<nat (fc_quant_table_count f)] = Some (cc, sc, s2)"
    "write_intra (sent f) cc sc = Some (c3, st3)"
    using 3 unfolding write_rest_def m(4) by (auto simp: bind_eq_Some_conv)
  show ?thesis
    unfolding write_extradata_def option.case Let_def sent_def [symmetric] m(1,2,4)
    using 1 2 4 w m(3) by simp
qed

lemma read_extra_header_steps:
  assumes v: "version > 2" "micro \<ge> 0"
    and 1: "get_symbol (ff_build_rac_states (ff_init_range_decoder (fc_c g) (fc_extradata g) (fc_extradata_size g)) 214748364 (256 - 8)) fresh_state False =
      (version, d1, st1)"
    and 2: "get_symbol (d1\<lparr>bytestream_end := bytestream_end d1 - 4\<rparr>) st1 False = (micro, d2, st2)"
    and 3: "(case read_params (g\<lparr>fc_version := version, fc_micro_version := micro\<rparr>) d2 st2 of (r, d, st) \<Rightarrow>
      (\<lambda>r d st. if fst r \<noteq> None then (r, d) else read_rest alloc (snd r) d st) r d st) = ((None, h), d3)"
    and h: "fc_version h = version" "fc_extradata h = fc_extradata g" "fc_extradata_size h = fc_extradata_size g"
    and 4: "av_crc_get_table cfg AV_CRC_32_IEEE crcs = Some (tab, ct)" "4 \<le> fc_extradata_size g"
      "av_crc cfg tab 0 addr (take (fc_extradata_size g) (fc_extradata g)) = 0"
  shows "read_extra_header cfg crcs addr alloc g = Some (None, h\<lparr>fc_c := d3\<rparr>)"
proof -
  obtain e f da sa where p: "read_params (g\<lparr>fc_version := version, fc_micro_version := micro\<rparr>) d2 st2 = ((e, f), da, sa)"
    by (metis prod.exhaust)
  then have "e = None" "read_rest alloc f da sa = ((None, h), d3)" using 3 by (auto split: if_splits)
  then show ?thesis
    unfolding read_extra_header_def Let_def 1 prod.case
    using v 2 4 p h by simp
qed


definition header_cost :: "ffv1_context \<Rightarrow> nat" where
  "header_cost f = 64 + (64 + ((64 * 255 + 64 * 10) + rest_cost f)) + 5"

abbreviation start_of :: "ffv1_context \<Rightarrow> bytes \<Rightarrow> range_coder" where
  "start_of f buf \<equiv> ff_build_rac_states (ff_init_range_encoder (fc_c f) buf EXTRADATA_SIZE) 214748364 (256 - 8)"

text \<open>The stages of \<open>write_extradata\<close>, each coder as it is after the stage.\<close>

definition stages :: "ffv1_context \<Rightarrow> bytes \<Rightarrow> range_coder \<Rightarrow> bytes \<Rightarrow> range_coder \<Rightarrow> bytes \<Rightarrow> range_coder \<Rightarrow> bytes \<Rightarrow> bool" where
  "stages f buf c1 st1 c2 st2 c3 st3 \<longleftrightarrow>
     put_symbol (start_of f buf) fresh_state (fc_version f) False = Some (c1, st1) \<and>
     put_symbol c1 st1 (micro_of (fc_version f)) False = Some (c2, st2) \<and>
     write_params (sent f) c2 st2 \<bind> (\<lambda>(c, st). write_rest (sent f) c st) = Some (c3, st3) \<and>
     after 64 (start_of f buf) c1 \<and> array_ok 8 248 CONTEXT_SIZE st1 \<and> after 64 c1 c2 \<and> array_ok 8 248 CONTEXT_SIZE st2 \<and>
     after ((64 * 255 + 64 * 10) + rest_cost f) c2 c3"

lemma start_ok: "enc_ok (start_of f buf)" "tables_ok 8 248 (start_of f buf)" "array_ok 8 248 CONTEXT_SIZE fresh_state"
  using encoder_start build_rac_states_ok [of "256 - 8"] by (simp_all add: fresh_state_def states_ok_def)

lemma symbol_values: "fc_version f = 3 \<or> fc_version f = 4 \<Longrightarrow>
    \<bar>fc_version f\<bar> \<le> INT_MAX \<and> (0 \<le> fc_version f \<or> False) \<and> \<bar>micro_of (fc_version f)\<bar> \<le> INT_MAX \<and> (0 \<le> micro_of (fc_version f) \<or> False)"
  by (auto simp: micro_of_def)

lemma sent_ok:
  assumes "header_ok f"
  shows "header_ok (sent f)" "0 \<le> fc_intra (sent f)" "fc_intra (sent f) \<le> INT_MAX" "rest_cost (sent f) = rest_cost f"
proof -
  have "states_cost (sent f) = states_cost f" by (intro ext) (simp add: states_cost_def sent_def)
  moreover have "fc_quant_table_count (sent f) = fc_quant_table_count f" by (simp add: sent_def)
  ultimately show "rest_cost (sent f) = rest_cost f" by (simp add: rest_cost_def)
  have "fc_version f > 2" using assms by (auto simp: header_ok_def)
  then show "0 \<le> fc_intra (sent f)" "fc_intra (sent f) \<le> INT_MAX" by (simp_all add: sent_def)
  have shape: "states_shape (sent f) = states_shape f" by (intro ext) (simp add: states_shape_def sent_def split: option.split)
  show "header_ok (sent f)" using assms unfolding header_ok_def params_ok_def shape by (simp add: sent_def)
qed

lemma extradata_stages:
  assumes f: "header_ok f" and r: "header_cost f \<le> length buf"
    and g: "reader_ok g" "fc_version g = fc_version f" "fc_width g = fc_width f" "fc_height g = fc_height f"
  obtains c1 st1 c2 st2 c3 st3 where "stages f buf c1 st1 c2 st2 c3 st3"
proof -
  have "fc_version f = 3 \<or> fc_version f = 4" using f by (auto simp: header_ok_def)
  note v = symbol_values [OF this]
  note e = encoder_start [of "fc_c f" buf EXTRADATA_SIZE 214748364 "256 - 8"]
  have r0: "room (start_of f buf) (64 + (64 + ((64 * 255 + 64 * 10) + rest_cost f)))" using r e by (simp add: room_def header_cost_def)
  have r00: "room (start_of f buf) 64" using r0 by (simp add: room_def)
  obtain c1 st1 where c1: "put_symbol (start_of f buf) fresh_state (fc_version f) False = Some (c1, st1)" "after 64 (start_of f buf) c1"
    "array_ok 8 248 CONTEXT_SIZE st1"
    by (rule codesE [OF codes_symbol [of "fc_version f" False] start_ok r00]) (use v in blast)+
  have o1: "enc_ok c1" "tables_ok 8 248 c1" using c1(2) start_ok(2) tables_ok_same unfolding after_def by blast+
  have r1: "room c1 (64 + ((64 * 255 + 64 * 10) + rest_cost f))" by (rule room_after [OF r0 c1(2)])
  then have r11: "room c1 64" by (simp add: room_def)
  obtain c2 st2 where c2: "put_symbol c1 st1 (micro_of (fc_version f)) False = Some (c2, st2)" "after 64 c1 c2" "array_ok 8 248 CONTEXT_SIZE st2"
    by (rule codesE [OF codes_symbol [of "micro_of (fc_version f)" False] o1 c1(3) r11]) (use v in blast)+
  have o2: "enc_ok c2" "tables_ok 8 248 c2" using c2(2) o1(2) tables_ok_same unfolding after_def by blast+
  have r2: "room c2 ((64 * 255 + 64 * 10) + rest_cost f)" by (rule room_after [OF r1 c2(2)])
  have g': "fc_version g = fc_version (sent f)" "fc_width g = fc_width (sent f)" "fc_height g = fc_height (sent f)"
    using g by (simp_all add: sent_def)
  note s = sent_ok [OF f]
  obtain c3 st3 where "write_params (sent f) c2 st2 \<bind> (\<lambda>(c, st). write_rest (sent f) c st) = Some (c3, st3)"
    "after ((64 * 255 + 64 * 10) + rest_cost f) c2 c3"
    by (rule readsE [OF reads_params_rest [OF s(1-3) g(1) g', of "\<lambda>_. True", unfolded s(4)] o2 c2(3) r2]) blast+
  then show thesis using c1 c2 by (intro that [of c1 st1 c2 st2 c3 st3]) (simp add: stages_def)
qed

lemma readsD:
  assumes "reads lo hi P k enc dec v" "enc_ok c" "tables_ok lo hi c" "P s" "room c k" and e: "enc c s = Some (c', s')"
    and "holds X c'" "dec_sync X N c d" "rac_len c' \<le> N"
  obtains d' where "dec d s = (v, d')"
proof -
  obtain c1 s1 where "enc c s = Some (c1, s1)" "\<forall>X N d. holds X c1 \<and> dec_sync X N c d \<and> rac_len c1 \<le> N \<longrightarrow> (\<exists>d'. dec d s = (v, d'))"
    by (rule readsE [OF assms(1-5)]) blast
  with assms(7-9) e show thesis using that by auto
qed

lemma codesD:
  assumes "codes lo hi P k enc dec v" "enc_ok c" "tables_ok lo hi c" "P s" "room c k" and e: "enc c s = Some (c', s')"
    and "holds X c'" "dec_sync X N c d" "rac_len c' \<le> N"
  obtains d' where "dec d s = (v, d', s')" "dec_sync X N c' d'"
proof -
  obtain c1 s1 where "enc c s = Some (c1, s1)"
    "\<forall>X N d. holds X c1 \<and> dec_sync X N c d \<and> rac_len c1 \<le> N \<longrightarrow> (\<exists>d'. dec d s = (v, d', s1) \<and> dec_sync X N c1 d')"
    by (rule codesE [OF assms(1-5)]) blast
  with assms(7-9) e show thesis using that by auto
qed


text \<open>The reader on the bytes of the message followed by anything four bytes long that makes the check 0.\<close>

lemma extradata_read:
  assumes f: "header_ok f" and r: "header_cost f \<le> length buf" and s: "stages f buf c1 st1 c2 st2 c3 st3"
    and n: "n = rac_len c3 + 1" and x: "\<forall>k. X k = (if k < n then fc_extradata g ! k else 0)" "holds X c3"
    and g: "reader_ok g" "fc_width g = fc_width f" "fc_height g = fc_height f" "fc_extradata_size g = n + 4" and a: "\<forall>i < MAX_QUANT_TABLES. alloc i"
    and crc: "av_crc_get_table cfg AV_CRC_32_IEEE crcs = Some (tab, ct)" "av_crc cfg tab 0 addr (take (n + 4) (fc_extradata g)) = 0"
  defines "g2 \<equiv> g\<lparr>fc_version := fc_version f, fc_micro_version := micro_of (fc_version f)\<rparr>"
  obtains d3 where "read_extra_header cfg crcs addr alloc g = Some (None, (set_rest (sent f) (with_params (sent f) g2))\<lparr>fc_c := d3\<rparr>)"
proof -
  have v34: "fc_version f = 3 \<or> fc_version f = 4" using f by (auto simp: header_ok_def)
  note v = symbol_values [OF v34]
  note s = s [unfolded stages_def]
  note e = encoder_start [of "fc_c f" buf EXTRADATA_SIZE 214748364 "256 - 8"]
  have l: "128 \<le> length buf" "rac_len c1 \<le> rac_len c3" using r s by (simp_all add: header_cost_def after_def)
  have r0: "room (start_of f buf) (64 + (64 + ((64 * 255 + 64 * 10) + rest_cost f)))" using r e by (simp add: room_def header_cost_def)
  have r1: "room c1 (64 + ((64 * 255 + 64 * 10) + rest_cost f))" using room_after [OF r0] s by blast
  have r2: "room c2 ((64 * 255 + 64 * 10) + rest_cost f)" using room_after [OF r1] s by blast
  have r00: "room (start_of f buf) 64" "room c1 64" using r0 r1 by (simp_all add: room_def)
  have o1: "enc_ok c1" "tables_ok 8 248 c1" "array_ok 8 248 CONTEXT_SIZE st1" using s start_ok(2) tables_ok_same unfolding after_def by blast+
  have o2: "enc_ok c2" "tables_ok 8 248 c2" "array_ok 8 248 CONTEXT_SIZE st2" using s o1(2) tables_ok_same unfolding after_def by blast+
  have lens: "rac_len c1 < rac_len c2" "rac_len c2 \<le> rac_len c3"
    using version_symbols [OF v34 l(1), of "fc_c f" EXTRADATA_SIZE c1 st1 c2 st2] s by (auto simp: after_def)
  have h: "holds X c2" "holds X c1" "holds X (start_of f buf)" using x(2) s unfolding after_def by blast+
  define d0 where "d0 = ff_build_rac_states (ff_init_range_decoder (fc_c g) (fc_extradata g) (fc_extradata_size g)) 214748364 (256 - 8)"
  have d0: "dec_sync X (n - 2) (start_of f buf) d0" "bytestream_end d0 = n + 4" "rc_mem d0 = fc_extradata g"
    using decoder_start_within [OF h(3), of "n - 2" "fc_extradata g" "fc_extradata_size g" "fc_c g"] x(1) n lens g(4)
      dec_ok_start(4) [of "fc_c g" "fc_extradata g" "fc_extradata_size g" 214748364 "256 - 8"] by (simp_all add: d0_def)
  obtain d1 where d1: "get_symbol d0 fresh_state False = (fc_version f, d1, st1)" "dec_sync X (n - 2) c1 d1"
    by (rule codesD [OF codes_symbol [of "fc_version f" False] start_ok r00(1) _ h(2) d0(1)]) (use v s n lens in auto)
  have f1: "bytestream_end d1 = n + 4" "rc_mem d1 = fc_extradata g" using get_symbol_frame [OF d1(1)] d0 by simp_all
  have cut: "dec_sync X n c1 (d1\<lparr>bytestream_end := n\<rparr>)"
    by (rule dec_sync_cut [OF d1(2)]) (use n lens f1 x(1) in simp_all)
  obtain d2 where d2: "get_symbol (d1\<lparr>bytestream_end := n\<rparr>) st1 False = (micro_of (fc_version f), d2, st2)" "dec_sync X n c2 d2"
    by (rule codesD [OF codes_symbol [of "micro_of (fc_version f)" False] o1 r00(2) _ h(1) cut]) (use v s n lens in auto)
  have g': "reader_ok g2" "fc_version g2 = fc_version (sent f)" "fc_width g2 = fc_width (sent f)" "fc_height g2 = fc_height (sent f)"
    using g by (simp_all add: g2_def sent_def reader_ok_def tables_shape_def)
  let ?h = "set_rest (sent f) (with_params (sent f) g2)"
  note so = sent_ok [OF f]
  obtain d3 where d3: "(case read_params g2 d2 st2 of (r, d, st) \<Rightarrow>
      (\<lambda>r d st. if fst r \<noteq> None then (r, d) else read_rest alloc (snd r) d st) r d st) = ((None, ?h), d3)"
    by (rule readsD [OF reads_params_rest [OF so(1-3) g' a, unfolded so(4)] o2 r2 _ x(2) d2(2)]) (use s n in auto)
  have plain: "fc_version ?h = fc_version f" "fc_extradata ?h = fc_extradata g" "fc_extradata_size ?h = fc_extradata_size g"
    unfolding set_rest_plain by (simp_all add: g2_def)
  have big: "fc_version f > 2" "micro_of (fc_version f) \<ge> 0" using v34 v by auto
  have "read_extra_header cfg crcs addr alloc g = Some (None, ?h\<lparr>fc_c := d3\<rparr>)"
    by (rule read_extra_header_steps [OF big d1(1) [unfolded d0_def] _ d3 [unfolded g2_def] plain [unfolded g2_def] crc(1), folded g2_def])
      (use d2(1) f1(1) g(4) crc(2) in simp_all)
  then show thesis by (rule that)
qed


text \<open>Writer and reader together.\<close>

lemma extradata_exchange:
  assumes "header_ok f" "header_cost f \<le> EXTRADATA_SIZE" "EXTRADATA_SIZE \<le> length buf"
    and "reader_ok g" "fc_width g = fc_width f" "fc_height g = fc_height f" and "\<forall>i < MAX_QUANT_TABLES. alloc i"
    and tab: "av_crc_get_table cfg AV_CRC_32_IEEE crcs = Some (tab, ct)" "crc_ctx_ok cfg False 32 0x04C11DB7 tab"
    "av_crc_get_table cfg' AV_CRC_32_IEEE crcs' = Some (tab', ct')" "crc_ctx_ok cfg' False 32 0x04C11DB7 tab'"
  obtains e n c d where
    "write_extradata cfg crcs addr (Some buf) f = Some (Inr (), (sent f)\<lparr>fc_c := c, fc_extradata := e, fc_extradata_size := n\<rparr>)"
    "n \<le> header_cost f"
    "read_extra_header cfg' crcs' addr' alloc (g\<lparr>fc_extradata := e, fc_extradata_size := n\<rparr>) =
       Some (None, (set_rest (sent f) (with_params (sent f) (g\<lparr>fc_extradata := e, fc_extradata_size := n, fc_version := fc_version f,
         fc_micro_version := micro_of (fc_version f)\<rparr>)))\<lparr>fc_c := d\<rparr>)"
proof -
  have v: "fc_version f = 3 \<or> fc_version f = 4" using assms(1) by (auto simp: header_ok_def)
  have r: "header_cost f \<le> length buf" using assms(2,3) by simp
  have "reader_ok (g\<lparr>fc_version := fc_version f\<rparr>)" using assms(4) by (simp add: reader_ok_def tables_shape_def)
  then obtain c1 st1 c2 st2 c3 st3 where s: "stages f buf c1 st1 c2 st2 c3 st3"
    by (rule extradata_stages [OF assms(1) r]) (use assms(5,6) in simp_all)
  note st = s [unfolded stages_def] and e = encoder_start [of "fc_c f" buf EXTRADATA_SIZE 214748364 "256 - 8"]
  have l: "rac_len c3 + 5 \<le> header_cost f" "length (rc_mem c3) = length buf" using st e by (simp_all add: after_def header_cost_def)
  have c3: "enc_ok c3" "room c3 2" using st l r by (simp_all add: after_def room_def)
  obtain n c4 where n: "ff_rac_terminate c3 0 = Some (n, c4)" "ended c3 0 n (take n (rc_mem c4))" "length (rc_mem c4) = length (rc_mem c3)"
    by (rule rac_terminate_ended [OF c3, of 0]) auto
  let ?F = "take n (rc_mem c4)"
  have nn: "n = rac_len c3 + 1" "length ?F = n" using n(2) by (auto simp: ended_def)
  let ?v = "av_crc cfg tab 0 addr ?F"
  define g0 where "g0 = g\<lparr>fc_extradata := ?F @ AV_WL32 ?v @ drop (n + 4) (rc_mem c4), fc_extradata_size := n + 4\<rparr>"
  define X where "X = (\<lambda>k. if k < n then fc_extradata g0 ! k else 0)"
  have X: "map X [0..<n] = ?F" "X n = 0" using nn(2) by (auto simp: X_def g0_def nth_append intro!: nth_equalityI)
  have x: "\<forall>k. X k = (if k < n then fc_extradata g0 ! k else 0)" "holds X c3"
    using ended_holds [OF c3(1) n(2) X(1)] X(2) by (simp_all add: X_def)
  have "take (n + 4) (fc_extradata g0) = ?F @ AV_WL32 (crc_of False 32 0x04C11DB7 0 ?F)"
    using nn(2) by (simp add: g0_def av_crc_of [OF tab(2)] AV_WL32_def)
  then have crc: "av_crc cfg' tab' 0 addr' (take (n + 4) (fc_extradata g0)) = 0" by (simp add: av_crc_of [OF tab(4)] crc_residue)
  have g0: "reader_ok g0" "fc_width g0 = fc_width f" "fc_height g0 = fc_height f" "fc_extradata_size g0 = n + 4"
    using assms(4-6) by (simp_all add: g0_def reader_ok_def tables_shape_def)
  obtain d3 where d3: "read_extra_header cfg' crcs' addr' alloc g0 = Some (None, (set_rest (sent f) (with_params (sent f)
      (g0\<lparr>fc_version := fc_version f, fc_micro_version := micro_of (fc_version f)\<rparr>)))\<lparr>fc_c := d3\<rparr>)"
    by (rule extradata_read [OF assms(1) r s nn(1) x g0 assms(7) tab(3) crc])
  have "n + 4 \<le> length (rc_mem c4)" using n(3) l r nn(1) by simp
  note w = write_extradata_steps [OF v conjunct1 [OF st] conjunct1 [OF conjunct2 [OF st]] conjunct1 [OF conjunct2 [OF conjunct2 [OF st]]]
    n(1) tab(1) this, of addr]
  show thesis by (rule that [OF w _ d3 [unfolded g0_def]]) (use nn(1) l(1) in simp)
qed

lemma sent_fields:
  assumes v: "fc_version f = 3 \<or> fc_version f = 4"
  shows "states_of (sent f) = states_of f" "fc_quant_table_count (sent f) = fc_quant_table_count f"
    "fc_quant_tables (sent f) = fc_quant_tables f" "fc_context_count (sent f) = fc_context_count f" "fc_ac (sent f) = fc_ac f"
    "fc_state_transition (sent f) = fc_state_transition f" "fc_colorspace (sent f) = fc_colorspace f"
    "fc_bits_per_raw_sample (sent f) = fc_bits_per_raw_sample f" "fc_chroma_planes (sent f) = fc_chroma_planes f"
    "fc_chroma_h_shift (sent f) = fc_chroma_h_shift f" "fc_chroma_v_shift (sent f) = fc_chroma_v_shift f"
    "fc_transparency (sent f) = fc_transparency f" "fc_num_h_slices (sent f) = fc_num_h_slices f"
    "fc_num_v_slices (sent f) = fc_num_v_slices f" "fc_ec (sent f) = fc_ec f"
    "fc_intra (sent f) = of_bool (fc_gop_size f < 2)" "fc_micro_version (sent f) = micro_of (fc_version f)"
proof -
  show "states_of (sent f) = states_of f" by (intro ext) (simp add: states_of_def sent_def split: option.split)
qed (use v in \<open>auto simp: sent_def micro_of_def\<close>)

lemma micro_of_intra: "v = 3 \<or> v = 4 \<Longrightarrow> 2 < micro_of v \<longleftrightarrow> v = 3"
  by (auto simp: micro_of_def)

section \<open>Properties\<close>



text \<open>A context with one set of tables, the first of three levels, and states of its own; and one to read it.\<close>

definition example_table :: "int list" where "example_table = 0 # replicate 127 1 @ replicate 128 (- 1)"

definition example_writer :: ffv1_context where
  "example_writer = \<lparr>fc_c = blank_coder, fc_extradata = [], fc_extradata_size = 0, fc_gop_size = 1, fc_width = 64, fc_height = 48,
     fc_version = 3, fc_micro_version = 0, fc_ac = 1, fc_state_transition = replicate 256 0, fc_colorspace = 0,
     fc_bits_per_raw_sample = 8, fc_chroma_planes = 1, fc_chroma_h_shift = 1, fc_chroma_v_shift = 1, fc_transparency = 0,
     fc_plane_count = 2, fc_num_h_slices = 2, fc_num_v_slices = 2, fc_quant_table_count = 1,
     fc_quant_tables = [example_table # replicate 4 (replicate 256 0)], fc_context_count = [2],
     fc_initial_states = [Some [replicate 32 130, replicate 32 128]], fc_ec = 1, fc_intra = 0\<rparr>"

definition example_reader :: ffv1_context where
  "example_reader = \<lparr>fc_c = blank_coder, fc_extradata = [], fc_extradata_size = 0, fc_gop_size = 0, fc_width = 64, fc_height = 48,
     fc_version = 0, fc_micro_version = 0, fc_ac = 0, fc_state_transition = replicate 256 0, fc_colorspace = 0,
     fc_bits_per_raw_sample = 0, fc_chroma_planes = 0, fc_chroma_h_shift = 0, fc_chroma_v_shift = 0, fc_transparency = 0,
     fc_plane_count = 0, fc_num_h_slices = 0, fc_num_v_slices = 0, fc_quant_table_count = 0,
     fc_quant_tables = replicate 8 (replicate 5 (replicate 256 0)), fc_context_count = replicate 8 0,
     fc_initial_states = replicate 8 None, fc_ec = 0, fc_intra = 0\<rparr>"

lemma example_ok: "header_ok example_writer" "header_cost example_writer \<le> EXTRADATA_SIZE" "reader_ok example_reader"
proof -
  have "params_ok example_writer" by code_simp
  moreover have "fc_version example_writer = 3" "fc_ec example_writer = 1" "nat (fc_quant_table_count example_writer) = 1"
    by (simp_all add: example_writer_def)
  moreover have "length (fc_quant_tables example_writer ! 0) = MAX_CONTEXT_INPUTS" "quants_ok 1 (fc_quant_tables example_writer ! 0)"
    "fc_context_count example_writer ! 0 = (quants_levels 1 (fc_quant_tables example_writer ! 0) + 1) div 2" "states_shape example_writer 0"
    by code_simp+
  ultimately show "header_ok example_writer" by (simp add: header_ok_def)
  have "contains_non_128 (fc_initial_states example_writer ! 0) (nat (fc_context_count example_writer ! 0))" by code_simp
  then have "states_cost example_writer 0 = 4097"
    unfolding states_cost_def by (simp only: if_True) (simp add: example_writer_def)
  then have "rest_cost example_writer = 45185" by (simp add: rest_cost_def example_writer_def)
  then show "header_cost example_writer \<le> EXTRADATA_SIZE" by (simp add: header_cost_def)
  show "reader_ok example_reader" by (simp add: reader_ok_def tables_shape_def example_reader_def)
qed


end
