(* ===== verification/Ffv1HeaderChecked.thy ===== *)
theory Ffv1HeaderChecked imports Ffv1HeaderRoundTrip
begin

text \<open>
  What \<open>read_extra_header\<close> makes of arbitrary bytes: it refuses them, or the context it leaves satisfies every bound that the
  code after it relies on.
\<close>


section \<open>Headers read from any input\<close>

lemma small_unsigned:
  assumes x: "is_s32 x" and le: "\<not> (word_of_int x :: u32) > word_of_int b" and b: "0 \<le> b" "b \<le> INT_MAX"
  shows "0 \<le> x" "x \<le> b"
proof -
  have u: "x mod 2 ^ 32 \<le> b"
    using le b small_word [OF b] by (simp add: word_less_def not_less uint_word_of_int)
  have "x mod 2 ^ 32 = (if x < 0 then x + 2 ^ 32 else x)"
    using x mod_add_self2 [of x "2 ^ 32"] mod_pos_pos_trivial [of "x + 2 ^ 32" "2 ^ 32"] mod_pos_pos_trivial [of x "2 ^ 32"]
    by (auto simp: is_s32_def)
  then show "0 \<le> x" "x \<le> b" using u b x by (auto simp: is_s32_def split: if_splits)
qed

definition params_valid :: "ffv1_context \<Rightarrow> bool" where
  "params_valid h \<longleftrightarrow> 0 \<le> fc_chroma_h_shift h \<and> fc_chroma_h_shift h \<le> 4 \<and> 0 \<le> fc_chroma_v_shift h \<and> fc_chroma_v_shift h \<le> 4 \<and>
     1 \<le> fc_num_h_slices h \<and> fc_num_h_slices h \<le> fc_width h \<and> 1 \<le> fc_num_v_slices h \<and> fc_num_v_slices h \<le> fc_height h \<and>
     1 \<le> fc_quant_table_count h \<and> fc_quant_table_count h \<le> int MAX_QUANT_TABLES"

text \<open>What reading the parameters leaves alone.\<close>

definition same_outside :: "ffv1_context \<Rightarrow> ffv1_context \<Rightarrow> bool" where
  "same_outside f h \<longleftrightarrow> fc_version h = fc_version f \<and> fc_micro_version h = fc_micro_version f \<and> fc_width h = fc_width f \<and>
     fc_height h = fc_height f \<and> fc_extradata h = fc_extradata f \<and> fc_extradata_size h = fc_extradata_size f"

lemma params_check_ok:
  assumes c: "params_check g c st = ((e, h), c', st')"
    and w: "0 \<le> fc_width g" "fc_width g \<le> INT_MAX" "0 \<le> fc_height g" "fc_height g \<le> INT_MAX"
    and s: "is_s32 (fc_chroma_h_shift g)" "is_s32 (fc_chroma_v_shift g)" "is_s32 (fc_num_h_slices g)" "is_s32 (fc_num_v_slices g)"
  shows "(\<exists>n. h = g\<lparr>fc_quant_table_count := n\<rparr>) \<and> (e = Some INVALIDDATA \<or> e = None \<and> params_valid h)"
proof -
  let ?bad1 = "(word_of_int (fc_chroma_h_shift g) :: u32) > 4 \<or> (word_of_int (fc_chroma_v_shift g) :: u32) > 4"
  let ?bad2 = "(word_of_int (fc_num_h_slices g) :: u32) > word_of_int (fc_width g) \<or> fc_num_h_slices g = 0 \<or>
    (word_of_int (fc_num_v_slices g) :: u32) > word_of_int (fc_height g) \<or> fc_num_v_slices g = 0"
  have same: "\<exists>n. g = g\<lparr>fc_quant_table_count := n\<rparr>" by (rule exI [of _ "fc_quant_table_count g"]) simp
  show ?thesis
  proof (cases "?bad1 \<or> ?bad2")
    case True
    then have "e = Some INVALIDDATA" "h = g" using c unfolding params_check_def by (auto split: if_splits)
    then show ?thesis using same by blast
  next
    case False
    obtain x c1 st1 where x: "get_symbol c st False = (x, c1, st1)" by (metis prod_cases3)
    show ?thesis
    proof (cases "(word_of_int x :: u32) > of_nat MAX_QUANT_TABLES \<or> x = 0")
      case True
      then show ?thesis using c False x unfolding params_check_def by auto
    next
      case ok: False
      then have h: "h = g\<lparr>fc_quant_table_count := x\<rparr>" "e = None" using c False x unfolding params_check_def by auto
      have "is_s32 x" by (rule get_symbol_range [OF x])
      then have "0 \<le> x" "x \<le> 8" using ok small_unsigned [of x 8] by simp_all
      moreover have "0 \<le> fc_chroma_h_shift g" "fc_chroma_h_shift g \<le> 4" "0 \<le> fc_chroma_v_shift g" "fc_chroma_v_shift g \<le> 4"
        using False small_unsigned [OF s(1), of 4] small_unsigned [OF s(2), of 4] by simp_all
      moreover have "0 \<le> fc_num_h_slices g" "fc_num_h_slices g \<le> fc_width g" "0 \<le> fc_num_v_slices g" "fc_num_v_slices g \<le> fc_height g"
        using False small_unsigned [OF s(3) _ w(1,2)] small_unsigned [OF s(4) _ w(3,4)] by simp_all
      ultimately have "params_valid h" using False ok by (simp add: params_valid_def h(1))
      then show ?thesis using h by blast
    qed
  qed
qed

lemma read_params_ok:
  assumes p: "read_params g c st = ((e, h), c', st')"
    and w: "0 \<le> fc_width g" "fc_width g \<le> INT_MAX" "0 \<le> fc_height g" "fc_height g \<le> INT_MAX"
  shows "same_outside g h \<and> fc_quant_tables h = fc_quant_tables g \<and> fc_context_count h = fc_context_count g \<and>
    fc_initial_states h = fc_initial_states g \<and> (e = Some INVALIDDATA \<or> e = None \<and> params_valid h)"
proof -
  obtain ac tr cs bits cp hs vs t nh nv c1 st1 where q: "params_check (params_of g ac tr cs bits cp hs vs t (s32 nh) (s32 nv)) c1 st1 = ((e, h), c', st')"
    "is_s32 hs" "is_s32 vs"
    using p unfolding read_params_eq by (auto split: prod.splits) (blast dest: get_symbol_range)
  from params_check_ok [OF q(1)] w q(2,3)
  show ?thesis by (auto simp: params_of_def same_outside_def s32_range)
qed


definition table_valid :: "ffv1_context \<Rightarrow> nat \<Rightarrow> bool" where
  "table_valid h i \<longleftrightarrow> quants_ok 1 (fc_quant_tables h ! i) \<and>
     fc_context_count h ! i = (quants_levels 1 (fc_quant_tables h ! i) + 1) div 2 \<and> 1 \<le> fc_context_count h ! i \<and> fc_context_count h ! i \<le> 16384"

lemma read_all_tables_ok:
  "distinct is \<Longrightarrow> \<forall>i \<in> set is. i < MAX_QUANT_TABLES \<Longrightarrow> tables_shape f \<Longrightarrow> read_all_tables f c is = ((e, h), c') \<Longrightarrow>
   (\<exists>q n. h = f\<lparr>fc_quant_tables := q, fc_context_count := n\<rparr> \<and> length q = MAX_QUANT_TABLES \<and> length n = MAX_QUANT_TABLES \<and>
      (\<forall>i. i \<notin> set is \<longrightarrow> q ! i = fc_quant_tables f ! i \<and> n ! i = fc_context_count f ! i)) \<and>
   (e = Some INVALIDDATA \<or> e = None \<and> (\<forall>i \<in> set is. table_valid h i))"
proof (induction "is" arbitrary: f c)
  case Nil
  then have "h = f" "e = None" by simp_all
  then show ?case
    using Nil.prems(3) by (intro conjI exI [of _ "fc_quant_tables f"] exI [of _ "fc_context_count f"]) (simp_all add: tables_shape_def)
next
  case (Cons i "is")
  obtain r q c1 where r: "read_quant_tables c (fc_quant_tables f ! i) = (r, q, c1)" by (metis prod_cases3)
  have i: "i < 8" "i \<notin> set is" using Cons.prems(1,2) by simp_all
  have "length (fc_quant_tables f ! i) = 5" "\<forall>q \<in> set (fc_quant_tables f ! i). length q = 256"
    using Cons.prems(3) i(1) by (auto simp: tables_shape_def)
  note ok = read_quant_tables_ok [OF this r]
  let ?f = "\<lambda>n. f\<lparr>fc_quant_tables := (fc_quant_tables f)[i := q], fc_context_count := (fc_context_count f)[i := n]\<rparr>"
  have shape: "tables_shape (?f n)" for n
    using Cons.prems(3) ok unfolding tables_shape_def by (auto dest!: set_update_subset_insert [THEN subsetD])
  have other: "\<forall>j. j \<noteq> i \<longrightarrow> fc_quant_tables (?f n) ! j = fc_quant_tables f ! j \<and> fc_context_count (?f n) ! j = fc_context_count f ! j" for n by simp
  show ?case
  proof (cases r)
    case (Inl x)
    then have h: "h = ?f AVERROR_INVALIDDATA" "e = Some INVALIDDATA" using Cons.prems(4) r by (auto simp: Let_def)
    have "length ((fc_quant_tables f)[i := q]) = 8" "length ((fc_context_count f)[i := AVERROR_INVALIDDATA]) = 8"
      using Cons.prems(3) by (simp_all add: tables_shape_def)
    then show ?thesis
      unfolding h by (intro conjI exI [of _ "(fc_quant_tables f)[i := q]"] exI [of _ "(fc_context_count f)[i := AVERROR_INVALIDDATA]"]) auto
  next
    case (Inr n)
    then have "read_all_tables (?f n) c1 is = ((e, h), c')" using Cons.prems(4) r by (simp add: Let_def)
    from Cons.IH [OF _ _ shape this] Cons.prems(1,2)
    obtain qs ns where h: "h = (?f n)\<lparr>fc_quant_tables := qs, fc_context_count := ns\<rparr>" "length qs = 8" "length ns = 8"
      "\<forall>j. j \<notin> set is \<longrightarrow> qs ! j = fc_quant_tables (?f n) ! j \<and> ns ! j = fc_context_count (?f n) ! j"
      and e: "e = Some INVALIDDATA \<or> e = None \<and> (\<forall>j \<in> set is. table_valid h j)" by auto
    have "qs ! i = q" "ns ! i = n" using h(4) i Cons.prems(3) by (simp_all add: tables_shape_def)
    then have "table_valid h i" using ok Inr by (simp add: table_valid_def h(1))
    moreover have "h = f\<lparr>fc_quant_tables := qs, fc_context_count := ns\<rparr>" using h(1) by simp
    moreover have "\<forall>j. j \<notin> set (i # is) \<longrightarrow> qs ! j = fc_quant_tables f ! j \<and> ns ! j = fc_context_count f ! j" using h(4) by simp
    ultimately show ?thesis using h(2,3) e by auto
  qed
qed

text \<open>Initial states of the right shape.\<close>

definition rows_shape :: "nat \<Rightarrow> bytes list option \<Rightarrow> bool" where
  "rows_shape n x \<longleftrightarrow> (case x of None \<Rightarrow> False | Some rows \<Rightarrow> length rows = n \<and> (\<forall>r \<in> set rows. length r = CONTEXT_SIZE))"

definition states_valid :: "ffv1_context \<Rightarrow> nat \<Rightarrow> bool" where
  "states_valid h i \<longleftrightarrow> rows_shape (nat (fc_context_count h ! i)) (fc_initial_states h ! i)"

lemma allocate_states_result:
  "allocate_states alloc f is = (e, h) \<Longrightarrow> (\<exists>s. h = f\<lparr>fc_initial_states := s\<rparr>) \<and>
   (if e = None then h = foldl set_fresh f is else e = Some ENOMEM \<and> (\<exists>i \<in> set is. \<not> alloc i))"
proof (induction "is" arbitrary: f)
  case Nil
  then show ?case by (auto intro: exI [of _ "fc_initial_states f"])
next
  case (Cons i "is")
  show ?case
  proof (cases "alloc i")
    case True
    then have "allocate_states alloc (set_fresh f i) is = (e, h)" using Cons.prems by (simp add: set_fresh_def)
    note IH = Cons.IH [OF this]
    have "\<exists>s. h = f\<lparr>fc_initial_states := s\<rparr>" using conjunct1 [OF IH] by (auto simp: set_fresh_def)
    then show ?thesis using IH by auto
  next
    case False
    then show ?thesis using Cons.prems by auto
  qed
qed

lemma read_state_row_shape:
  "read_state_row c s2 rows j ks = (rows', c', s2') \<Longrightarrow> length rows' = length rows \<and>
    ((\<forall>r \<in> set rows. length r = n) \<longrightarrow> (\<forall>r \<in> set rows'. length r = n))"
proof (induction ks arbitrary: c s2 rows)
  case (Cons k ks)
  obtain x c1 s where x: "get_symbol c (s2 ! k) True = (x, c1, s)" by (metis prod_cases3)
  let ?rows = "rows[j := (rows ! j)[k := word_of_int (state_pred rows j k + x)]]"
  have "read_state_row c1 (s2[k := s]) ?rows j ks = (rows', c', s2')"
    using Cons.prems unfolding read_state_row.simps x Let_def prod.case .
  note IH = Cons.IH [OF this]
  have "length r = n" if all: "\<forall>r \<in> set rows. length r = n" and r: "r \<in> set ?rows" for r
  proof (cases "j < length rows")
    case True
    then have "length (rows ! j) = n" using all by simp
    moreover have "r = (rows ! j)[k := word_of_int (state_pred rows j k + x)] \<or> r \<in> set rows"
      using r set_update_subset_insert by fast
    ultimately show ?thesis using all by auto
  next
    case False
    then have "?rows = rows" by (intro list_update_beyond) simp
    then show ?thesis using all r by simp
  qed
  then have keep: "(\<forall>r \<in> set rows. length r = n) \<longrightarrow> (\<forall>r \<in> set ?rows. length r = n)" by blast
  show ?case
    by (rule conjI [OF trans [OF conjunct1 [OF IH] length_list_update]]) (rule impI, rule mp [OF conjunct2 [OF IH]], rule mp [OF keep])
qed simp

lemma read_state_rows_shape:
  "read_state_rows c s2 rows js = (rows', c', s2') \<Longrightarrow> length rows' = length rows \<and>
    ((\<forall>r \<in> set rows. length r = n) \<longrightarrow> (\<forall>r \<in> set rows'. length r = n))"
proof (induction js arbitrary: c s2 rows)
  case (Cons j js)
  obtain rows1 c1 s1 where x: "read_state_row c s2 rows j [0..<CONTEXT_SIZE] = (rows1, c1, s1)" by (metis prod_cases3)
  have "read_state_rows c1 s1 rows1 js = (rows', c', s2')" using Cons.prems unfolding read_state_rows.simps x Let_def prod.case .
  note IH = Cons.IH [OF this] and row = read_state_row_shape [OF x, of n]
  show ?case
    by (rule conjI [OF trans [OF conjunct1 [OF IH] conjunct1 [OF row]]]) (rule impI, rule mp [OF conjunct2 [OF IH]], rule mp [OF conjunct2 [OF row]])
qed simp

lemma read_states_ok:
  "read_states f c s is = (h, c', s') \<Longrightarrow> \<forall>i \<in> set is. states_valid f i \<Longrightarrow> (\<exists>t. h = f\<lparr>fc_initial_states := t\<rparr>) \<and> (\<forall>i. states_valid f i \<longrightarrow> states_valid h i)"
proof (induction "is" arbitrary: f c s)
  case Nil
  then have "h = f" by simp
  moreover have "\<exists>t. f = f\<lparr>fc_initial_states := t\<rparr>" by (rule exI [of _ "fc_initial_states f"]) simp
  ultimately show ?case by blast
next
  case (Cons i "is")
  obtain b c1 st where b: "get_rac c (fst s) 0 = (b, c1, st)" by (metis prod_cases3)
  show ?case
  proof (cases b)
    case False
    have "read_states f c1 (st, snd s) is = (h, c', s')" using Cons.prems(1) unfolding read_states.simps b Let_def prod.case if_not_P [OF False] .
    moreover have "\<forall>i \<in> set is. states_valid f i" using Cons.prems(2) by simp
    ultimately show ?thesis by (rule Cons.IH)
  next
    case True
    obtain rows c2 s2 where r: "read_state_rows c1 (snd s) (the (fc_initial_states f ! i)) [0..<nat (fc_context_count f ! i)] = (rows, c2, s2)"
      by (metis prod_cases3)
    let ?f = "f\<lparr>fc_initial_states := (fc_initial_states f)[i := Some rows]\<rparr>"
    have rs: "read_states ?f c2 (st, s2) is = (h, c', s')" using Cons.prems(1) unfolding read_states.simps b Let_def prod.case if_P [OF True] r .
    have "states_valid f i" using Cons.prems(2) by simp
    then have row: "rows_shape (nat (fc_context_count f ! i)) (Some rows)"
      using read_state_rows_shape [OF r, of CONTEXT_SIZE] by (auto simp: states_valid_def rows_shape_def split: option.splits)
    have keep: "states_valid ?f k" if "states_valid f k" for k
    proof (cases "k = i \<and> i < length (fc_initial_states f)")
      case True
      then show ?thesis using row by (simp add: states_valid_def)
    next
      case False
      then have "(fc_initial_states f)[i := Some rows] ! k = fc_initial_states f ! k" by (cases "k = i") (simp_all add: list_update_beyond)
      then show ?thesis using that by (simp add: states_valid_def)
    qed
    then have "\<forall>i \<in> set is. states_valid ?f i" using Cons.prems(2) by simp
    note IH = Cons.IH [OF rs this]
    obtain t where "h = ?f\<lparr>fc_initial_states := t\<rparr>" using conjunct1 [OF IH] by blast
    then have "h = f\<lparr>fc_initial_states := t\<rparr>" by simp
    then show ?thesis using conjunct2 [OF IH] keep by blast
  qed
qed


lemma fresh_valid:
  assumes "i \<in> set is" "i < length (fc_initial_states f)"
  shows "states_valid (foldl set_fresh f is) i"
  using assms unfolding fold_fresh states_valid_def rows_shape_def by (simp add: foldl_set_range)

lemma read_intra_frame:
  "read_intra f c st = (h, c', st') \<Longrightarrow> \<exists>ec intra. h = f\<lparr>fc_ec := ec, fc_intra := intra\<rparr>"
proof -
  have "\<exists>ec intra. f = f\<lparr>fc_ec := ec, fc_intra := intra\<rparr>"
    by (rule exI [of _ "fc_ec f"], rule exI [of _ "fc_intra f"]) simp
  moreover have "\<exists>ec intra. f\<lparr>fc_ec := x\<rparr> = f\<lparr>fc_ec := ec, fc_intra := intra\<rparr>" for x
    by (rule exI [of _ x], rule exI [of _ "fc_intra f"]) simp
  ultimately show "read_intra f c st = (h, c', st') \<Longrightarrow> \<exists>ec intra. h = f\<lparr>fc_ec := ec, fc_intra := intra\<rparr>"
    unfolding read_intra_def Let_def by (auto split: prod.splits if_splits)
qed

text \<open>An accepted header: the bounds, and for every set of tables the number of contexts and states to match.\<close>

definition header_valid :: "ffv1_context \<Rightarrow> bool" where
  "header_valid h \<longleftrightarrow> params_valid h \<and> (\<forall>i < nat (fc_quant_table_count h). table_valid h i \<and> states_valid h i)"

lemma read_rest_ok:
  assumes r: "read_rest alloc f c st = ((e, h), c')" and p: "params_valid f" and g: "tables_shape f" "length (fc_initial_states f) = MAX_QUANT_TABLES"
  shows "same_outside f h \<and>
    (e = Some INVALIDDATA \<or> e = Some ENOMEM \<and> (\<exists>i < MAX_QUANT_TABLES. \<not> alloc i) \<or> e = None \<and> header_valid h)"
proof -
  let ?is = "[0..<nat (fc_quant_table_count f)]"
  have "distinct ?is" "\<forall>i \<in> set ?is. i < MAX_QUANT_TABLES" using p by (auto simp: params_valid_def)
  note small = this
  obtain e1 f1 c1 where t: "read_all_tables f c ?is = ((e1, f1), c1)" by (metis prod.exhaust)
  note R = read_all_tables_ok [OF small g(1) t]
  obtain q n where f1: "f1 = f\<lparr>fc_quant_tables := q, fc_context_count := n\<rparr>" using conjunct1 [OF R] by blast
  show ?thesis
  proof (cases "e1 = None")
    case False
    then have "e = e1" "h = f1" using r t by (simp_all add: read_rest_def)
    then show ?thesis using conjunct2 [OF R] False by (simp add: f1 same_outside_def)
  next
    case tables: True
    have n1: "nat (fc_quant_table_count f1) = nat (fc_quant_table_count f)" by (simp add: f1)
    have ok1: "\<forall>i \<in> set ?is. table_valid f1 i" using conjunct2 [OF R] tables by blast
    obtain e2 f2 where a: "allocate_states alloc f1 ?is = (e2, f2)" by (cases "allocate_states alloc f1 ?is")
    note A = allocate_states_result [OF a]
    obtain s where f2: "f2 = f1\<lparr>fc_initial_states := s\<rparr>" using conjunct1 [OF A] by blast
    have n2: "nat (fc_quant_table_count f2) = nat (fc_quant_table_count f)" by (simp add: f1 f2)
    have t1: "\<not> e1 \<noteq> None" using tables by simp
    have rest: "(if e2 \<noteq> None then ((e2, f2), c1) else case read_states f2 c1 (st, fresh_states) ?is of (f, c, state, state2) \<Rightarrow>
        case read_intra f c state of (f, c, state) \<Rightarrow> ((None, f), c)) = ((e, h), c')"
      using r unfolding read_rest_def ff_ffv1_allocate_initial_states_def Let_def t prod.case if_not_P [OF t1] n1 a n2 .
    show ?thesis
    proof (cases "e2 = None")
      case False
      then have m: "e2 = Some ENOMEM" "\<exists>i \<in> set ?is. \<not> alloc i"
        using conjunct2 [OF A] unfolding if_not_P [OF False] by blast+
      then have "e = Some ENOMEM" "h = f2" using rest by simp_all
      then show ?thesis using small(2) m(2) by (auto simp: f2 f1 same_outside_def)
    next
      case True
      then have fr: "f2 = foldl set_fresh f1 ?is" using A by simp
      obtain f3 c3 s3 where s: "read_states f2 c1 (st, fresh_states) ?is = (f3, c3, s3)" by (metis prod_cases3)
      have "length (fc_initial_states f1) = 8" using g(2) by (simp add: f1)
      then have sv: "\<forall>i \<in> set ?is. states_valid f2 i" using small(2) unfolding fr by (auto intro!: fresh_valid)
      note S = read_states_ok [OF s sv]
      obtain t3 where f3: "f3 = f2\<lparr>fc_initial_states := t3\<rparr>" using conjunct1 [OF S] by blast
      obtain f4 c4 st4 where i: "read_intra f3 c3 (fst s3) = (f4, c4, st4)" by (metis prod_cases3)
      obtain ec intra where f4: "f4 = f3\<lparr>fc_ec := ec, fc_intra := intra\<rparr>" using read_intra_frame [OF i] by blast
      have h: "e = None" "h = f4" using rest True s i by (simp_all add: case_prod_beta')
      have all: "fc_quant_tables h = fc_quant_tables f1" "fc_context_count h = fc_context_count f1" "fc_quant_table_count h = fc_quant_table_count f"
        unfolding h f4 f3 f2 by (simp_all add: f1)
      have "states_valid h i" if "i \<in> set ?is" for i
        using conjunct2 [OF S] sv that by (auto simp: states_valid_def h(2) f4)
      moreover have "table_valid h i" if "i \<in> set ?is" for i using bspec [OF ok1 that] unfolding table_valid_def all .
      moreover have "params_valid h" using p unfolding h f4 f3 f2 f1 by (simp add: params_valid_def)
      ultimately have "header_valid h" unfolding header_valid_def all by simp
      moreover have "same_outside f h" unfolding h f4 f3 f2 f1 by (simp add: same_outside_def)
      ultimately show ?thesis using h(1) by blast
    qed
  qed
qed


lemma read_extra_header_ok:
  assumes g: "reader_ok g" and w: "0 \<le> fc_width g" "fc_width g \<le> INT_MAX" "0 \<le> fc_height g" "fc_height g \<le> INT_MAX"
    and tab: "av_crc_get_table cfg AV_CRC_32_IEEE crcs = Some (tab, ct)"
  obtains e h where "read_extra_header cfg crcs addr alloc g = Some (e, h)"
    "e = Some INVALIDDATA \<or> e = Some ENOMEM \<and> (\<exists>i < MAX_QUANT_TABLES. \<not> alloc i) \<or>
     e = None \<and> header_valid h \<and> 2 \<le> fc_version h \<and>
       (2 < fc_version h \<longrightarrow> 0 \<le> fc_micro_version h \<and> 4 \<le> fc_extradata_size g \<and>
          av_crc cfg tab 0 addr (take (fc_extradata_size g) (fc_extradata g)) = 0)"
proof -
  obtain v d1 st1 where 1: "get_symbol (ff_build_rac_states (ff_init_range_decoder (fc_c g) (fc_extradata g) (fc_extradata_size g)) 214748364 (256 - 8))
    fresh_state False = (v, d1, st1)" by (metis prod_cases3)
  let ?read = "\<lambda>c state f. let ((e, f), c, state) = read_params f c state
      in if e \<noteq> None then Some (e, f\<lparr>fc_c := c\<rparr>)
         else let ((e, f), c) = read_rest alloc f c state; f = f\<lparr>fc_c := c\<rparr>
              in if e \<noteq> None then Some (e, f)
                 else if fc_version f > 2
                 then do {
                   (tab, _) \<leftarrow> av_crc_get_table cfg AV_CRC_32_IEEE crcs;
                   let v = av_crc cfg tab 0 addr (take (fc_extradata_size f) (fc_extradata f));
                   if v \<noteq> 0 \<or> fc_extradata_size f < 4 then Some (Some INVALIDDATA, f) else Some (None, f) }
                 else Some (None, f)"
  have body: "\<exists>e h. ?read c st (g\<lparr>fc_version := v, fc_micro_version := m\<rparr>) = Some (e, h) \<and>
     (e = Some INVALIDDATA \<or> e = Some ENOMEM \<and> (\<exists>i < MAX_QUANT_TABLES. \<not> alloc i) \<or>
     e = None \<and> header_valid h \<and> fc_version h = v \<and> fc_micro_version h = m \<and>
       (2 < v \<longrightarrow> 4 \<le> fc_extradata_size g \<and> av_crc cfg tab 0 addr (take (fc_extradata_size g) (fc_extradata g)) = 0))" for m c st
  proof -
    let ?g = "g\<lparr>fc_version := v, fc_micro_version := m\<rparr>"
    obtain e1 f1 c1 s1 where p: "read_params ?g c st = ((e1, f1), c1, s1)" by (metis prod.exhaust)
    have P: "same_outside ?g f1" "fc_quant_tables f1 = fc_quant_tables g" "fc_context_count f1 = fc_context_count g"
      "fc_initial_states f1 = fc_initial_states g" "e1 = Some INVALIDDATA \<or> e1 = None \<and> params_valid f1"
      using read_params_ok [OF p] w by simp_all
    show ?thesis
    proof (cases "e1 = None")
      case False
      then show ?thesis using P(5) by (auto simp: p)
    next
      case True
      obtain e2 f2 c2 where r: "read_rest alloc f1 c1 s1 = ((e2, f2), c2)" by (metis prod.exhaust)
      have "tables_shape f1" "length (fc_initial_states f1) = 8" using g P by (simp_all add: reader_ok_def tables_shape_def)
      note R = read_rest_ok [OF r _ this]
      have R: "same_outside f1 f2" "e2 = Some INVALIDDATA \<or> e2 = Some ENOMEM \<and> (\<exists>i < 8. \<not> alloc i) \<or> e2 = None \<and> header_valid f2"
        using R P(5) True by simp_all
      have f2: "fc_version f2 = v" "fc_micro_version f2 = m" "fc_extradata f2 = fc_extradata g" "fc_extradata_size f2 = fc_extradata_size g"
        using R(1) P(1) by (simp_all add: same_outside_def)
      have hv: "header_valid (f2\<lparr>fc_c := x\<rparr>) = header_valid f2" for x
        by (simp add: header_valid_def params_valid_def table_valid_def states_valid_def)
      show ?thesis
        using R(2) True by (cases "e2 = None") (auto simp: p r tab f2 hv Let_def)
    qed
  qed
  show thesis
  proof (cases "v < 2")
    case True
    then have "read_extra_header cfg crcs addr alloc g = Some (Some INVALIDDATA, g\<lparr>fc_version := v, fc_c := d1\<rparr>)"
      unfolding read_extra_header_def Let_def 1 prod.case by simp
    then show thesis by (rule that) simp
  next
    case v: False
    show thesis
    proof (cases "v > 2")
      case True
      obtain m d2 st2 where 2: "get_symbol (d1\<lparr>bytestream_end := bytestream_end d1 - 4\<rparr>) st1 False = (m, d2, st2)" by (metis prod_cases3)
      show thesis
      proof (cases "m < 0")
        case neg: True
        then have "read_extra_header cfg crcs addr alloc g = Some (Some INVALIDDATA, g\<lparr>fc_version := v, fc_micro_version := m, fc_c := d2\<rparr>)"
          unfolding read_extra_header_def Let_def 1 prod.case using True 2 by simp
        then show thesis by (rule that) simp
      next
        case False
        have "read_extra_header cfg crcs addr alloc g = ?read d2 st2 (g\<lparr>fc_version := v, fc_micro_version := m\<rparr>)"
          unfolding read_extra_header_def Let_def 1 prod.case using True 2 False by simp
        moreover obtain e h where "?read d2 st2 (g\<lparr>fc_version := v, fc_micro_version := m\<rparr>) = Some (e, h)"
          "e = Some INVALIDDATA \<or> e = Some ENOMEM \<and> (\<exists>i < MAX_QUANT_TABLES. \<not> alloc i) \<or>
           e = None \<and> header_valid h \<and> fc_version h = v \<and> fc_micro_version h = m \<and>
           (2 < v \<longrightarrow> 4 \<le> fc_extradata_size g \<and> av_crc cfg tab 0 addr (take (fc_extradata_size g) (fc_extradata g)) = 0)"
          using body [where c = d2 and st = st2 and m = m] by blast
        ultimately show thesis using True False by (intro that [of e h]) auto
      qed
    next
      case False
      have "g\<lparr>fc_version := v\<rparr> = g\<lparr>fc_version := v, fc_micro_version := fc_micro_version g\<rparr>" by simp
      then have "read_extra_header cfg crcs addr alloc g = ?read d1 st1 (g\<lparr>fc_version := v, fc_micro_version := fc_micro_version g\<rparr>)"
        unfolding read_extra_header_def Let_def 1 prod.case using v False by simp
      moreover obtain e h where "?read d1 st1 (g\<lparr>fc_version := v, fc_micro_version := fc_micro_version g\<rparr>) = Some (e, h)"
        "e = Some INVALIDDATA \<or> e = Some ENOMEM \<and> (\<exists>i < MAX_QUANT_TABLES. \<not> alloc i) \<or>
         e = None \<and> header_valid h \<and> fc_version h = v \<and> fc_micro_version h = fc_micro_version g \<and>
         (2 < v \<longrightarrow> 4 \<le> fc_extradata_size g \<and> av_crc cfg tab 0 addr (take (fc_extradata_size g) (fc_extradata g)) = 0)"
        using body [where c = d1 and st = st1 and m = "fc_micro_version g"] by blast
      ultimately show thesis using v False by (intro that [of e h]) auto
    qed
  qed
qed


text \<open>C5: Whatever the extradata holds, \<open>read_extra_header\<close> returns: it accepts the header, or refuses it as invalid, or lacks
  memory. In an accepted header every count is in bounds, every set of quantisation tables is one that a writer could have
  (monotone, mirrored, at most 32768 contexts before halving) with its number of contexts and as many rows of initial states;
  and above version 2 the check of the whole is 0.\<close>

theorem ffv1_extra_header_checked:
  assumes g: "reader_ok g" and w: "0 \<le> fc_width g" "fc_width g \<le> INT_MAX" "0 \<le> fc_height g" "fc_height g \<le> INT_MAX"
    and "AV_CRC_MAX \<notin> set ids"
  shows "\<exists>crcs e h. crc_calls cfg ids (crc_start cfg) = Some crcs \<and> read_extra_header cfg crcs addr alloc g = Some (e, h) \<and>
    (e = Some INVALIDDATA \<or> e = Some ENOMEM \<and> (\<exists>i < MAX_QUANT_TABLES. \<not> alloc i) \<or>
     e = None \<and> header_valid h \<and> 2 \<le> fc_version h \<and>
       (2 < fc_version h \<longrightarrow> 0 \<le> fc_micro_version h \<and> 4 \<le> fc_extradata_size g \<and>
          crc_of False 32 0x04C11DB7 0 (take (fc_extradata_size g) (fc_extradata g)) = 0))"
proof -
  obtain crcs where crcs: "crc_calls cfg ids (crc_start cfg) = Some crcs" "crc_state_ok cfg crcs"
    using crc_calls_ok [OF crc_start_ok assms(6)] by blast
  have p: "crc_params AV_CRC_32_IEEE = (False, 32, 0x04C11DB7)" "AV_CRC_32_IEEE \<noteq> AV_CRC_MAX" by simp_all
  obtain tab ct where tab: "av_crc_get_table cfg AV_CRC_32_IEEE crcs = Some (tab, ct)" "crc_ctx_ok cfg False 32 0x04C11DB7 tab"
    using av_crc_get_table_ok [OF crcs(2) p(2,1)] by blast
  have crc: "av_crc cfg tab 0 addr x = crc_of False 32 0x04C11DB7 0 x" for x by (rule av_crc_of [OF tab(2)])
  obtain e h where r: "read_extra_header cfg crcs addr alloc g = Some (e, h)" and
    ok: "e = Some INVALIDDATA \<or> e = Some ENOMEM \<and> (\<exists>i < MAX_QUANT_TABLES. \<not> alloc i) \<or>
     e = None \<and> header_valid h \<and> 2 \<le> fc_version h \<and>
       (2 < fc_version h \<longrightarrow> 0 \<le> fc_micro_version h \<and> 4 \<le> fc_extradata_size g \<and>
          av_crc cfg tab 0 addr (take (fc_extradata_size g) (fc_extradata g)) = 0)"
    by (rule read_extra_header_ok [OF g w tab(1)])
  then show ?thesis using crcs(1) unfolding crc by blast
qed

lemma ffv1_extra_header_checked_witness:
  "\<exists>crcs e h. crc_calls \<lparr>crc_hardcoded = True, crc_small = False\<rparr> [] (crc_start \<lparr>crc_hardcoded = True, crc_small = False\<rparr>) = Some crcs \<and>
     read_extra_header \<lparr>crc_hardcoded = True, crc_small = False\<rparr> crcs 0 (\<lambda>_. True)
       (example_reader\<lparr>fc_extradata := replicate 8 0xA5, fc_extradata_size := 8\<rparr>) = Some (e, h) \<and>
     (e = Some INVALIDDATA \<or> e = None \<and> header_valid h)"
proof -
  let ?g = "example_reader\<lparr>fc_extradata := replicate 8 0xA5, fc_extradata_size := 8\<rparr>"
  have "reader_ok ?g" using example_ok(3) by (simp add: reader_ok_def tables_shape_def)
  moreover have "0 \<le> fc_width ?g" "fc_width ?g \<le> INT_MAX" "0 \<le> fc_height ?g" "fc_height ?g \<le> INT_MAX" "AV_CRC_MAX \<notin> set []"
    by (simp_all add: example_reader_def)
  ultimately show ?thesis
    using ffv1_extra_header_checked [of ?g "[]" "\<lparr>crc_hardcoded = True, crc_small = False\<rparr>" 0 "\<lambda>_. True"] by blast
qed

end
