(* ===== verification/AvThreadMessage.thy ===== *)
theory AvThreadMessage imports AvFifo
begin

text \<open>
  \<open>libavutil/threadmessage.c\<close>: a bounded queue of messages of one size between threads, on the byte
  ring buffer of \<open>fifo.c\<close>. This theory holds the queue's data, the allocation, and what each operation
  does while it holds the lock: one pass of the code from a point where it has the lock to the next point
  where it waits or releases it. The abstract queue holds a list of messages; each pass does to it what
  \<open>aq_apply\<close> says. \<open>AvThreadSystem\<close> runs the passes in threads.
\<close>

section \<open>The code\<close>

record AVThreadMessageQueue =
  tm_fifo :: AVFifoBuffer
  tm_err_send :: int
  tm_err_recv :: int
  tm_elsize :: u32
  tm_free_func :: bool   \<comment> \<open>whether \<open>free_func\<close> is set\<close>

definition AV_THREAD_MESSAGE_NONBLOCK :: u32 where "AV_THREAD_MESSAGE_NONBLOCK = 1"

text \<open>\<open>AVERROR(EAGAIN)\<close>, \<open>AVERROR(EINVAL)\<close> and \<open>AVERROR(ENOMEM)\<close> as numbers, since the other codes that the
  queue returns are the caller's.\<close>

definition AVERROR_EAGAIN :: int where "AVERROR_EAGAIN = - 11"

definition AVERROR_EINVAL :: int where "AVERROR_EINVAL = - 22"

definition AVERROR_ENOMEM :: int where "AVERROR_ENOMEM = - 12"

text \<open>The two condition variables, and what a pass does to them.\<close>

datatype tm_cond = cond_recv | cond_send

datatype tm_notify = No_notify | pthread_cond_signal tm_cond | pthread_cond_broadcast tm_cond

text \<open>The calls, and what they give back: the return value, with the message read or the pieces of memory
  on which \<open>free_func\<close> was called, one list for each message.\<close>

datatype tm_call =
  Send bytes u32 | Recv u32 | SetErrSend int | SetErrRecv int | Flush | NbElems

datatype tm_out = Sent int | Received int bytes | Done | Freed "bytes list list" | Counted nat

text \<open>A pass ends in \<open>pthread_cond_wait\<close> or in the result, before the lock is released.\<close>

datatype tm_pass = Wait tm_cond | Return tm_out tm_notify

definition av_thread_message_queue_send_locked ::
  "AVThreadMessageQueue \<Rightarrow> bytes \<Rightarrow> u32 \<Rightarrow> (AVThreadMessageQueue \<times> tm_pass) option" where
  "av_thread_message_queue_send_locked mq msg flags =
     (if tm_err_send mq = 0 \<and> word_of_int (av_fifo_space (tm_fifo mq)) < tm_elsize mq
      then if flags AND AV_THREAD_MESSAGE_NONBLOCK \<noteq> 0
           then Some (mq, Return (Sent AVERROR_EAGAIN) No_notify)
           else Some (mq, Wait cond_send)
      else if tm_err_send mq \<noteq> 0 then Some (mq, Return (Sent (tm_err_send mq)) No_notify)
      else do { (f, n) \<leftarrow> av_fifo_generic_write (tm_fifo mq) msg (unat (tm_elsize mq));
                Some (mq\<lparr>tm_fifo := f\<rparr>, Return (Sent 0) (pthread_cond_signal cond_recv)) })"

definition av_thread_message_queue_recv_locked ::
  "AVThreadMessageQueue \<Rightarrow> u32 \<Rightarrow> (AVThreadMessageQueue \<times> tm_pass) option" where
  "av_thread_message_queue_recv_locked mq flags =
     (if tm_err_recv mq = 0 \<and> word_of_int (av_fifo_size (tm_fifo mq)) < tm_elsize mq
      then if flags AND AV_THREAD_MESSAGE_NONBLOCK \<noteq> 0
           then Some (mq, Return (Received AVERROR_EAGAIN []) No_notify)
           else Some (mq, Wait cond_recv)
      else if word_of_int (av_fifo_size (tm_fifo mq)) < tm_elsize mq
      then Some (mq, Return (Received (tm_err_recv mq) []) No_notify)
      else do { (f, msg) \<leftarrow> av_fifo_generic_read (tm_fifo mq) (unat (tm_elsize mq));
                Some (mq\<lparr>tm_fifo := f\<rparr>, Return (Received 0 msg) (pthread_cond_signal cond_send)) })"

definition av_thread_message_queue_set_err_send :: "AVThreadMessageQueue \<Rightarrow> int \<Rightarrow> AVThreadMessageQueue \<times> tm_pass" where
  "av_thread_message_queue_set_err_send mq err =
     (mq\<lparr>tm_err_send := err\<rparr>, Return Done (pthread_cond_broadcast cond_send))"

definition av_thread_message_queue_set_err_recv :: "AVThreadMessageQueue \<Rightarrow> int \<Rightarrow> AVThreadMessageQueue \<times> tm_pass" where
  "av_thread_message_queue_set_err_recv mq err =
     (mq\<lparr>tm_err_recv := err\<rparr>, Return Done (pthread_cond_broadcast cond_recv))"

text \<open>\<open>for (off = 0; off < used; off += mq->elsize) av_fifo_generic_peek_at(...)\<close>; it does not end when the
  element size is zero.\<close>

partial_function (option) tm_free_loop :: "AVFifoBuffer \<Rightarrow> nat \<Rightarrow> nat \<Rightarrow> nat \<Rightarrow> bytes list list option" where
  "tm_free_loop f elsize used off =
     (if off < used
      then do { ps \<leftarrow> av_fifo_generic_peek_at_func f off elsize;
                rest \<leftarrow> tm_free_loop f elsize used (off + elsize);
                Some (ps # rest) }
      else Some [])"

definition av_thread_message_flush :: "AVThreadMessageQueue \<Rightarrow> (AVThreadMessageQueue \<times> tm_pass) option" where
  "av_thread_message_flush mq =
     (let used = nat (av_fifo_size (tm_fifo mq))
      in do { freed \<leftarrow> (if tm_free_func mq then tm_free_loop (tm_fifo mq) (unat (tm_elsize mq)) used 0 else Some []);
              Some (mq\<lparr>tm_fifo := av_fifo_drain (tm_fifo mq) used\<rparr>,
                    Return (Freed freed) (pthread_cond_broadcast cond_send)) })"

definition av_thread_message_queue_nb_elems :: "AVThreadMessageQueue \<Rightarrow> AVThreadMessageQueue \<times> tm_pass" where
  "av_thread_message_queue_nb_elems mq =
     (mq, Return (Counted (unat (word_of_int (av_fifo_size (tm_fifo mq)) div tm_elsize mq))) No_notify)"

definition av_thread_message_queue_set_free_func :: "AVThreadMessageQueue \<Rightarrow> bool \<Rightarrow> AVThreadMessageQueue" where
  "av_thread_message_queue_set_free_func mq free_func = mq\<lparr>tm_free_func := free_func\<rparr>"

fun tm_locked :: "AVThreadMessageQueue \<Rightarrow> tm_call \<Rightarrow> (AVThreadMessageQueue \<times> tm_pass) option" where
  "tm_locked mq (Send msg flags) = av_thread_message_queue_send_locked mq msg flags"
| "tm_locked mq (Recv flags) = av_thread_message_queue_recv_locked mq flags"
| "tm_locked mq (SetErrSend err) = Some (av_thread_message_queue_set_err_send mq err)"
| "tm_locked mq (SetErrRecv err) = Some (av_thread_message_queue_set_err_recv mq err)"
| "tm_locked mq Flush = av_thread_message_flush mq"
| "tm_locked mq NbElems = Some (av_thread_message_queue_nb_elems mq)"

text \<open>Allocation. What it acquires is a list, newest first; the allocators and the results of the \<open>pthread\<close>
  initialisers are parameters. The test divides by the element size, so that zero has no result.\<close>

datatype tm_resource = Struct | Lock | Cond tm_cond | Fifo

definition av_thread_message_queue_alloc ::
  "u32 \<Rightarrow> u32 \<Rightarrow> bool \<Rightarrow> int \<Rightarrow> int \<Rightarrow> int \<Rightarrow> allocator \<Rightarrow> bool \<Rightarrow>
    (tm_resource list \<times> (int + AVThreadMessageQueue)) option" where
  "av_thread_message_queue_alloc nelem elsize mq_ok mutex_ret recv_ret send_ret av_malloc hdr =
     (if elsize = 0 then None
      else if nelem > word_of_int INT_MAX div elsize then Some ([], Inl AVERROR_EINVAL)
      else if \<not> mq_ok then Some ([], Inl AVERROR_ENOMEM)
      else let live = [Struct]
        in if mutex_ret \<noteq> 0 then Some (remove1 Struct live, Inl (- mutex_ret))
      else let live = Lock # live
        in if recv_ret \<noteq> 0 then Some (remove1 Struct (remove1 Lock live), Inl (- recv_ret))
      else let live = Cond cond_recv # live
        in if send_ret \<noteq> 0 then Some (remove1 Struct (remove1 Lock (remove1 (Cond cond_recv) live)), Inl (- send_ret))
      else let live = Cond cond_send # live
        in case av_fifo_alloc av_malloc hdr (unat (elsize * nelem)) of
          None \<Rightarrow>
            Some (remove1 Struct (remove1 Lock (remove1 (Cond cond_recv) (remove1 (Cond cond_send) live))),
              Inl AVERROR_ENOMEM)
        | Some f \<Rightarrow>
            Some (Fifo # live,
              Inr \<lparr>tm_fifo = f, tm_err_send = 0, tm_err_recv = 0, tm_elsize = elsize, tm_free_func = False\<rparr>))"

text \<open>\<open>av_thread_message_queue_free\<close> on a queue that holds the resources \<open>live\<close>: what \<open>free_func\<close> was called
  on, and the resources that are left.\<close>

definition av_thread_message_queue_free ::
  "tm_resource list \<Rightarrow> AVThreadMessageQueue \<Rightarrow> (tm_out \<times> tm_resource list) option" where
  "av_thread_message_queue_free live mq =
     do { (mq, p) \<leftarrow> av_thread_message_flush mq;
          case p of
            Return out n \<Rightarrow>
              Some (out, remove1 Struct (remove1 Lock (remove1 (Cond cond_recv) (remove1 (Cond cond_send)
                (remove1 Fifo live)))))
          | Wait c \<Rightarrow> None }"

section \<open>The abstract queue\<close>

text \<open>A list of messages with two error codes. \<open>None\<close> means that the caller has to wait.\<close>

record msg_queue =
  items :: "bytes list"
  stop_send :: int
  stop_recv :: int

fun aq_apply :: "nat \<Rightarrow> bool \<Rightarrow> tm_call \<Rightarrow> msg_queue \<Rightarrow> (msg_queue \<times> tm_out) option" where
  "aq_apply cap ff (Send msg flags) q =
     (if stop_send q \<noteq> 0 then Some (q, Sent (stop_send q))
      else if length (items q) < cap then Some (q\<lparr>items := items q @ [msg]\<rparr>, Sent 0)
      else if flags AND AV_THREAD_MESSAGE_NONBLOCK \<noteq> 0 then Some (q, Sent AVERROR_EAGAIN)
      else None)"
| "aq_apply cap ff (Recv flags) q =
     (if items q \<noteq> [] then Some (q\<lparr>items := tl (items q)\<rparr>, Received 0 (hd (items q)))
      else if stop_recv q \<noteq> 0 then Some (q, Received (stop_recv q) [])
      else if flags AND AV_THREAD_MESSAGE_NONBLOCK \<noteq> 0 then Some (q, Received AVERROR_EAGAIN [])
      else None)"
| "aq_apply cap ff (SetErrSend err) q = Some (q\<lparr>stop_send := err\<rparr>, Done)"
| "aq_apply cap ff (SetErrRecv err) q = Some (q\<lparr>stop_recv := err\<rparr>, Done)"
| "aq_apply cap ff Flush q = Some (q\<lparr>items := []\<rparr>, Freed (if ff then map (\<lambda>m. [m]) (items q) else []))"
| "aq_apply cap ff NbElems q = Some (q, Counted (length (items q)))"

section \<open>The messages in the ring buffer\<close>

function chunks :: "nat \<Rightarrow> 'a list \<Rightarrow> 'a list list" where
  "chunks n xs = (if 0 < n \<and> n \<le> length xs then take n xs # chunks n (drop n xs) else [])"
  by pat_completeness auto
termination by (relation "measure (\<lambda>(n, xs). length xs)") auto

declare chunks.simps [simp del]

lemma chunks_short: "length xs < n \<Longrightarrow> chunks n xs = []"
  by (simp add: chunks.simps)

lemma chunks_cons: "0 < n \<Longrightarrow> length m = n \<Longrightarrow> chunks n (m @ xs) = m # chunks n xs"
  by (subst chunks.simps) simp

lemma chunks_append:
  "0 < n \<Longrightarrow> n dvd length xs \<Longrightarrow> chunks n (xs @ ys) = chunks n xs @ chunks n ys"
proof (induction n xs rule: chunks.induct)
  case (1 n xs)
  show ?case
  proof (cases "n \<le> length xs")
    case True
    then have "chunks n (xs @ ys) = take n xs # chunks n (drop n xs @ ys)"
      using 1(2) by (subst chunks.simps) simp
    moreover have "n dvd length (drop n xs)" using 1(3) by simp
    ultimately show ?thesis
      using 1 True by (subst (2) chunks.simps) simp
  next
    case False
    then have "xs = []" using 1(2,3) by (auto dest: dvd_imp_le)
    then show ?thesis using 1(2) by (simp add: chunks_short)
  qed
qed

lemma length_chunks: "0 < n \<Longrightarrow> length (chunks n xs) = length xs div n"
proof (induction n xs rule: chunks.induct)
  case (1 n xs)
  then show ?case by (subst chunks.simps) (auto simp: le_div_geq)
qed

lemma chunks_take_drop:
  assumes "0 < n" "n \<le> length xs"
  shows "chunks n xs = take n xs # chunks n (drop n xs)"
  using assms by (subst chunks.simps) simp

definition tm_abs :: "AVThreadMessageQueue \<Rightarrow> msg_queue" where
  "tm_abs mq = \<lparr>items = chunks (unat (tm_elsize mq)) (fifo_contents (tm_fifo mq)),
     stop_send = tm_err_send mq, stop_recv = tm_err_recv mq\<rparr>"

text \<open>The buffer has room for a whole number of messages and holds whole messages, each in one piece.\<close>

definition tm_ok :: "nat \<Rightarrow> AVThreadMessageQueue \<Rightarrow> bool" where
  "tm_ok cap mq \<longleftrightarrow> fifo_ok (tm_fifo mq) \<and> 0 < unat (tm_elsize mq) \<and> 0 < cap \<and>
     fifo_end (tm_fifo mq) = cap * unat (tm_elsize mq) \<and>
     unat (tm_elsize mq) dvd fifo_count (tm_fifo mq) \<and> unat (tm_elsize mq) dvd rptr (tm_fifo mq)"

fun tm_call_ok :: "nat \<Rightarrow> tm_call \<Rightarrow> bool" where
  "tm_call_ok elsize (Send msg flags) \<longleftrightarrow> length msg = elsize"
| "tm_call_ok elsize _ \<longleftrightarrow> True"

text \<open>The condition a call can wait for, and what its end does to the waiting threads.\<close>

fun tm_cond_of :: "tm_call \<Rightarrow> tm_cond option" where
  "tm_cond_of (Send _ _) = Some cond_send"
| "tm_cond_of (Recv _) = Some cond_recv"
| "tm_cond_of _ = None"

fun tm_notify_of :: "tm_call \<Rightarrow> tm_out \<Rightarrow> tm_notify" where
  "tm_notify_of (Send _ _) out = (if out = Sent 0 then pthread_cond_signal cond_recv else No_notify)"
| "tm_notify_of (Recv _) (Received r m) = (if r = 0 then pthread_cond_signal cond_send else No_notify)"
| "tm_notify_of (SetErrSend _) _ = pthread_cond_broadcast cond_send"
| "tm_notify_of (SetErrRecv _) _ = pthread_cond_broadcast cond_recv"
| "tm_notify_of Flush _ = pthread_cond_broadcast cond_send"
| "tm_notify_of _ _ = No_notify"

definition tm_refines :: "nat \<Rightarrow> AVThreadMessageQueue \<Rightarrow> tm_call \<Rightarrow> bool" where
  "tm_refines cap mq c \<longleftrightarrow>
     (case aq_apply cap (tm_free_func mq) c (tm_abs mq) of
        None \<Rightarrow> (\<exists>cv. tm_cond_of c = Some cv \<and> tm_locked mq c = Some (mq, Wait cv))
      | Some (q, out) \<Rightarrow> (\<exists>mq'. tm_locked mq c = Some (mq', Return out (tm_notify_of c out)) \<and> tm_ok cap mq' \<and>
          tm_abs mq' = q \<and> tm_elsize mq' = tm_elsize mq \<and> tm_free_func mq' = tm_free_func mq))"

lemma tm_count:
  "tm_ok cap mq \<Longrightarrow> length (items (tm_abs mq)) * unat (tm_elsize mq) = fifo_count (tm_fifo mq)"
  by (simp add: tm_abs_def length_chunks tm_ok_def)

lemma tm_count_le:
  assumes "tm_ok cap mq"
  shows "length (items (tm_abs mq)) \<le> cap"
proof -
  have "length (items (tm_abs mq)) * unat (tm_elsize mq) \<le> cap * unat (tm_elsize mq)" "0 < unat (tm_elsize mq)"
    using assms unfolding tm_count [OF assms] by (simp_all add: tm_ok_def fifo_ok_def)
  then show ?thesis by (metis mult_le_cancel2)
qed

lemma unat_small: "n < 2 ^ 32 \<Longrightarrow> unat (word_of_nat n :: u32) = n"
  by (simp add: unsigned_of_nat take_bit_nat_eq_self)

text \<open>The unsigned comparisons of the code, in messages.\<close>

lemma tm_size_test:
  assumes "tm_ok cap mq"
  shows "word_of_int (av_fifo_size (tm_fifo mq)) < tm_elsize mq \<longleftrightarrow> items (tm_abs mq) = []"
    and "unat (word_of_int (av_fifo_size (tm_fifo mq)) div tm_elsize mq) = length (items (tm_abs mq))"
proof -
  let ?e = "unat (tm_elsize mq)" and ?n = "fifo_count (tm_fifo mq)"
  have ok: "fifo_ok (tm_fifo mq)" "0 < ?e" using assms by (simp_all add: tm_ok_def)
  have "unat (word_of_int (av_fifo_size (tm_fifo mq)) :: u32) = ?n"
    using ok(1) by (simp add: fifo_size_space(1) fifo_ok_def unat_small)
  moreover note tm_count [OF assms, symmetric]
  ultimately show "word_of_int (av_fifo_size (tm_fifo mq)) < tm_elsize mq \<longleftrightarrow> items (tm_abs mq) = []"
    "unat (word_of_int (av_fifo_size (tm_fifo mq)) div tm_elsize mq) = length (items (tm_abs mq))"
    using ok(2) by (simp_all add: word_less_nat_alt unat_div)
qed

lemma tm_space_test:
  assumes "tm_ok cap mq"
  shows "word_of_int (av_fifo_space (tm_fifo mq)) < tm_elsize mq \<longleftrightarrow> \<not> length (items (tm_abs mq)) < cap"
proof -
  let ?e = "unat (tm_elsize mq)" and ?k = "length (items (tm_abs mq))"
  have ok: "fifo_ok (tm_fifo mq)" "0 < ?e" "fifo_end (tm_fifo mq) = cap * ?e" "fifo_end (tm_fifo mq) < 2 ^ 31"
    using assms by (simp_all add: tm_ok_def fifo_ok_def)
  have "(cap - ?k) * ?e = fifo_end (tm_fifo mq) - fifo_count (tm_fifo mq)"
    by (simp only: diff_mult_distrib ok(3) tm_count [OF assms])
  moreover have "fifo_count (tm_fifo mq) \<le> fifo_end (tm_fifo mq)" using ok(1) by (simp add: fifo_ok_def)
  ultimately have "av_fifo_space (tm_fifo mq) = int ((cap - ?k) * ?e)"
    by (simp only: fifo_size_space(2) [OF ok(1)] of_nat_diff)
  moreover have "(cap - ?k) * ?e < 2 ^ 32"
    using ok(3,4) mult_le_mono1 [OF diff_le_self [of cap ?k], of ?e] power_strict_increasing [of 31 32 "2 :: nat"]
    by linarith
  ultimately have "unat (word_of_int (av_fifo_space (tm_fifo mq)) :: u32) = (cap - ?k) * ?e"
    by (simp only: of_int_of_nat_eq unat_small)
  then show ?thesis
    using ok(2) by (simp add: word_less_nat_alt not_less)
qed

text \<open>Each operation does what the abstract queue says.\<close>

lemma tm_send_refines:
  assumes ok: "tm_ok cap mq" and len: "length msg = unat (tm_elsize mq)"
  shows "tm_refines cap mq (Send msg flags)"
proof (cases "tm_err_send mq = 0 \<and> length (items (tm_abs mq)) < cap")
  case True
  let ?f = "tm_fifo mq" and ?e = "unat (tm_elsize mq)"
  have o: "fifo_ok ?f" "0 < ?e" "fifo_end ?f = cap * ?e" "?e dvd fifo_count ?f" "?e dvd rptr ?f"
    using ok by (simp_all add: tm_ok_def)
  have "Suc (length (items (tm_abs mq))) * ?e \<le> cap * ?e" using True by (intro mult_right_mono) auto
  then have "length (fifo_contents ?f) + length msg \<le> fifo_end ?f"
    using tm_count [OF ok] o(3) len by simp
  from fifo.write_appends [OF o(1) this] obtain f' n where
    w: "av_fifo_generic_write ?f msg ?e = Some (f', n)" and f': "fifo_ok f'"
    "fifo_contents f' = fifo_contents ?f @ msg" "fifo_end f' = fifo_end ?f"
    by (auto simp: len)
  have r: "rptr f' = rptr ?f" using w by (auto simp: av_fifo_generic_write_def split: Option.bind_splits)
  have c: "fifo_count f' = fifo_count ?f + ?e"
    using f'(2) len by (metis length_append length_fifo_contents)
  have "chunks ?e (fifo_contents f') = chunks ?e (fifo_contents ?f) @ [msg]"
    using o(2,4) len chunks_cons [of ?e msg "[]"] by (simp add: f'(2) chunks_append chunks_short)
  then show ?thesis
    using True ok w f' r c o tm_space_test [OF ok]
    by (simp add: tm_refines_def av_thread_message_queue_send_locked_def tm_abs_def tm_ok_def)
next
  case False
  then show ?thesis
    using ok tm_space_test [OF ok]
    by (auto simp: tm_refines_def av_thread_message_queue_send_locked_def tm_abs_def AVERROR_EAGAIN_def)
qed

lemma tm_recv_refines:
  assumes ok: "tm_ok cap mq"
  shows "tm_refines cap mq (Recv flags)"
proof (cases "items (tm_abs mq) = []")
  case True
  then show ?thesis
    using ok tm_size_test(1) [OF ok]
    by (auto simp: tm_refines_def av_thread_message_queue_recv_locked_def tm_abs_def AVERROR_EAGAIN_def)
next
  case False
  let ?f = "tm_fifo mq" and ?e = "unat (tm_elsize mq)"
  have o: "fifo_ok ?f" "0 < ?e" "fifo_end ?f = cap * ?e" "?e dvd fifo_count ?f" "?e dvd rptr ?f"
    using ok by (simp_all add: tm_ok_def)
  have le: "?e \<le> length (fifo_contents ?f)"
    using tm_count [OF ok] False o(2) by (cases "items (tm_abs mq)") auto
  let ?f' = "av_fifo_drain ?f ?e"
  have rd: "av_fifo_generic_read ?f ?e = Some (?f', take ?e (fifo_contents ?f))"
    by (rule av_fifo_read_queue [OF o(1) le])
  note d = nth_drop_contents [OF o(1), of ?e]
  have "?e dvd rptr ?f'" using d(5) le o by (simp add: dvd_mod)
  moreover have "tm_abs mq = \<lparr>items = take ?e (fifo_contents ?f) # chunks ?e (fifo_contents ?f'),
      stop_send = tm_err_send mq, stop_recv = tm_err_recv mq\<rparr>"
    using chunks_take_drop [OF o(2) le] d(2) le by (simp add: tm_abs_def)
  ultimately show ?thesis
    using False ok o rd d le tm_size_test(1) [OF ok]
    by (simp add: tm_refines_def av_thread_message_queue_recv_locked_def tm_abs_def [of "mq\<lparr>tm_fifo := ?f'\<rparr>"] tm_ok_def)
qed

lemma tm_free_loop:
  assumes "tm_ok cap mq" and "off \<le> fifo_count (tm_fifo mq)" and "unat (tm_elsize mq) dvd off"
  shows "tm_free_loop (tm_fifo mq) (unat (tm_elsize mq)) (fifo_count (tm_fifo mq)) off =
    Some (map (\<lambda>m. [m]) (chunks (unat (tm_elsize mq)) (drop off (fifo_contents (tm_fifo mq)))))"
  using assms(2,3)
proof (induction "fifo_count (tm_fifo mq) - off" arbitrary: off rule: less_induct)
  case less
  let ?f = "tm_fifo mq" and ?e = "unat (tm_elsize mq)"
  have o: "fifo_ok ?f" "0 < ?e" "fifo_end ?f = cap * ?e" "?e dvd fifo_count ?f" "?e dvd rptr ?f"
    using assms(1) by (simp_all add: tm_ok_def)
  show ?case
  proof (cases "off < fifo_count ?f")
    case True
    have "?e dvd fifo_count ?f - off" using o(4) less.prems(2) by (rule dvd_diff_nat)
    then have le: "off + ?e \<le> fifo_count ?f" using True by (auto dest: dvd_imp_le)
    have "?e dvd (rptr ?f + off) mod fifo_end ?f" using o less.prems(2) by (simp add: dvd_mod)
    moreover have lt: "(rptr ?f + off) mod fifo_end ?f < fifo_end ?f" using o(1) by (simp add: fifo_ok_def)
    ultimately have "?e dvd fifo_end ?f - (rptr ?f + off) mod fifo_end ?f" using o(3) by (simp add: dvd_diff_nat)
    then have "(rptr ?f + off) mod fifo_end ?f + ?e \<le> fifo_end ?f" using lt by (auto dest: dvd_imp_le)
    note p = fifo_peek_at_one_call [OF o(1,2) le this]
    have "tm_free_loop ?f ?e (fifo_count ?f) (off + ?e) =
        Some (map (\<lambda>m. [m]) (chunks ?e (drop (off + ?e) (fifo_contents ?f))))"
      using less.hyps [of "off + ?e"] less.prems(2) le o(2) True by simp
    then show ?thesis
      using True p le o(2) chunks_take_drop [of ?e "drop off (fifo_contents ?f)"]
      by (subst tm_free_loop.simps) (simp add: add.commute)
  next
    case False
    then show ?thesis using less.prems o(2) by (subst tm_free_loop.simps) (simp add: chunks_short)
  qed
qed

lemma tm_flush_refines:
  assumes ok: "tm_ok cap mq"
  shows "tm_refines cap mq Flush"
proof -
  let ?f = "tm_fifo mq" and ?e = "unat (tm_elsize mq)" and ?n = "fifo_count (tm_fifo mq)"
  have o: "fifo_ok ?f" "0 < ?e" "fifo_end ?f = cap * ?e" "?e dvd fifo_count ?f" "?e dvd rptr ?f"
    using ok by (simp_all add: tm_ok_def)
  have n: "nat (av_fifo_size ?f) = ?n" using o(1) by (simp add: fifo_size_space(1))
  note d = nth_drop_contents [OF o(1), of ?n]
  have "?e dvd rptr (av_fifo_drain ?f ?n)" using d(5) o by (simp add: dvd_mod)
  then show ?thesis
    using tm_free_loop [OF ok, of 0] o d n ok by (simp add: tm_refines_def av_thread_message_flush_def tm_abs_def tm_ok_def chunks_short)
qed

lemma tm_locked_refines:
  assumes "tm_ok cap mq" and "tm_call_ok (unat (tm_elsize mq)) c"
  shows "tm_refines cap mq c"
proof (cases c)
  case (Send msg flags)
  then show ?thesis using assms by (simp add: tm_send_refines)
next
  case (Recv flags)
  then show ?thesis using assms by (simp add: tm_recv_refines)
next
  case Flush
  then show ?thesis using assms by (simp add: tm_flush_refines)
next
  case NbElems
  then show ?thesis
    using assms tm_size_test(2) [OF assms(1)]
    by (simp add: tm_refines_def av_thread_message_queue_nb_elems_def)
qed (use assms in \<open>simp_all add: tm_refines_def tm_abs_def tm_ok_def
  av_thread_message_queue_set_err_send_def av_thread_message_queue_set_err_recv_def\<close>)

section \<open>Allocation\<close>

text \<open>A queue that was allocated is empty and good for \<open>nelem\<close> messages.\<close>

lemma tm_alloc_size:
  assumes "elsize \<noteq> 0" and "\<not> nelem > word_of_int INT_MAX div (elsize :: u32)"
  shows "unat (elsize * nelem) = unat nelem * unat elsize" "unat nelem * unat elsize < 2 ^ 31"
proof -
  have "unat nelem \<le> (2 ^ 31 - 1) div unat elsize"
    using assms(2) by (simp add: word_less_nat_alt unat_div)
  then have "unat nelem * unat elsize \<le> (2 ^ 31 - 1) div unat elsize * unat elsize" by (rule mult_le_mono1)
  also have "\<dots> \<le> 2 ^ 31 - 1" by (rule div_times_less_eq_dividend)
  finally show b: "unat nelem * unat elsize < 2 ^ 31" by simp
  have "unat nelem * unat elsize < 2 ^ LENGTH(32)" using b by simp
  then show "unat (elsize * nelem) = unat nelem * unat elsize"
    by (metis mult.commute unat_mult_lem)
qed

lemma tm_alloc_ok:
  assumes "av_thread_message_queue_alloc nelem elsize mq_ok mutex_ret recv_ret send_ret av_malloc hdr = Some (live, Inr mq)"
    and "allocator_ok av_malloc" and "nelem \<noteq> 0"
  shows "tm_ok (unat nelem) mq" "tm_abs mq = \<lparr>items = [], stop_send = 0, stop_recv = 0\<rparr>"
    "tm_elsize mq = elsize" "\<not> tm_free_func mq"
proof -
  have e: "elsize \<noteq> 0" "\<not> nelem > word_of_int INT_MAX div elsize"
    using assms(1) by (auto simp: av_thread_message_queue_alloc_def split: if_splits)
  note sz = tm_alloc_size [OF e]
  obtain f where f: "av_fifo_alloc av_malloc hdr (unat (elsize * nelem)) = Some f"
    and mq: "mq = \<lparr>tm_fifo = f, tm_err_send = 0, tm_err_recv = 0, tm_elsize = elsize, tm_free_func = False\<rparr>"
    using assms(1) by (auto simp: av_thread_message_queue_alloc_def Let_def split: if_splits option.splits)
  obtain b where b: "av_malloc (unat (elsize * nelem)) = Some b"
    and f': "f = \<lparr>buffer = b, rptr = 0, wptr = 0, rndx = 0, wndx = 0\<rparr>"
    using f by (auto simp: av_fifo_alloc_def fifo_alloc_common_def av_fifo_reset_def split: option.splits if_splits)
  have l: "length b = unat nelem * unat elsize" using assms(2) b sz(1) by (auto simp: allocator_ok_def)
  have pos: "0 < unat nelem" "0 < unat elsize" using assms(3) e(1) by (simp_all add: unat_gt_0)
  then have "fifo_ok f" using fifo_ok_reset [of b 0] l sz(2) by (simp add: f')
  then show "tm_ok (unat nelem) mq" using l pos by (simp add: tm_ok_def mq f' fifo_count_def)
  show "tm_abs mq = \<lparr>items = [], stop_send = 0, stop_recv = 0\<rparr>"
    using pos by (simp add: tm_abs_def mq f' fifo_contents_def fifo_count_def chunks_short)
  show "tm_elsize mq = elsize" "\<not> tm_free_func mq" by (simp_all add: mq)
qed

end
