(* ===== verification/AvThreadSystem.thy ===== *)
theory AvThreadSystem imports AvThreadMessage
begin

text \<open>
  Threads that share one message queue of \<open>libavutil/threadmessage.c\<close>. Every public call locks the mutex,
  runs a pass of \<open>AvThreadMessage\<close>, and either waits on a condition, which releases the mutex and takes it
  again when the thread is woken, or unlocks and returns. A step is one thread's move; which thread moves,
  and which waiting thread \<open>pthread_cond_signal\<close> wakes, is open, and a waiting thread may wake without a
  signal, as POSIX allows. The log lists the passes that returned a result, in the order in which they
  had the lock.
\<close>

section \<open>Threads\<close>

datatype tm_pc =
  Idle                    \<comment> \<open>outside every call\<close>
| AtLock tm_call          \<comment> \<open>at \<open>pthread_mutex_lock\<close>\<close>
| InSection tm_call       \<comment> \<open>has the lock, at the test of the loop\<close>
| InWait tm_call          \<comment> \<open>in \<open>pthread_cond_wait\<close>\<close>
| Woken tm_call           \<comment> \<open>in \<open>pthread_cond_wait\<close>, woken, taking the lock again\<close>
| Leaving tm_out          \<comment> \<open>at \<open>pthread_mutex_unlock\<close>\<close>

record tm_sys =
  ts_mq :: AVThreadMessageQueue
  ts_lock :: "nat option"
  ts_pcs :: "tm_pc list"
  ts_log :: "(nat \<times> tm_call \<times> tm_out) list"

definition tm_start :: "AVThreadMessageQueue \<Rightarrow> nat \<Rightarrow> tm_sys" where
  "tm_start mq n = \<lparr>ts_mq = mq, ts_lock = None, ts_pcs = replicate n Idle, ts_log = []\<rparr>"

fun waits_on :: "tm_cond \<Rightarrow> tm_pc \<Rightarrow> bool" where
  "waits_on cv (InWait c) \<longleftrightarrow> tm_cond_of c = Some cv"
| "waits_on cv _ \<longleftrightarrow> False"

fun wake :: "tm_pc \<Rightarrow> tm_pc" where
  "wake (InWait c) = Woken c"
| "wake p = p"

text \<open>The program counters after a notification, one list for each thread that a signal may wake.\<close>

fun tm_notified :: "tm_notify \<Rightarrow> tm_pc list \<Rightarrow> tm_pc list list" where
  "tm_notified No_notify pcs = [pcs]"
| "tm_notified (pthread_cond_signal cv) pcs =
     (let ws = filter (\<lambda>i. waits_on cv (pcs ! i)) [0..<length pcs]
      in if ws = [] then [pcs] else map (\<lambda>i. pcs[i := wake (pcs ! i)]) ws)"
| "tm_notified (pthread_cond_broadcast cv) pcs = [map (\<lambda>p. if waits_on cv p then wake p else p) pcs]"

text \<open>The moves within calls.\<close>

inductive tm_internal :: "tm_sys \<Rightarrow> tm_sys \<Rightarrow> bool" where
  lock: "i < length (ts_pcs s) \<Longrightarrow> ts_pcs s ! i = AtLock c \<Longrightarrow> ts_lock s = None \<Longrightarrow>
    tm_internal s (s\<lparr>ts_lock := Some i, ts_pcs := (ts_pcs s)[i := InSection c]\<rparr>)"
| relock: "i < length (ts_pcs s) \<Longrightarrow> ts_pcs s ! i = Woken c \<Longrightarrow> ts_lock s = None \<Longrightarrow>
    tm_internal s (s\<lparr>ts_lock := Some i, ts_pcs := (ts_pcs s)[i := InSection c]\<rparr>)"
| wait: "i < length (ts_pcs s) \<Longrightarrow> ts_pcs s ! i = InSection c \<Longrightarrow> tm_locked (ts_mq s) c = Some (mq, Wait cv) \<Longrightarrow>
    tm_internal s (s\<lparr>ts_mq := mq, ts_lock := None, ts_pcs := (ts_pcs s)[i := InWait c]\<rparr>)"
| finish: "i < length (ts_pcs s) \<Longrightarrow> ts_pcs s ! i = InSection c \<Longrightarrow>
    tm_locked (ts_mq s) c = Some (mq, Return out n) \<Longrightarrow>
    pcs \<in> set (tm_notified n ((ts_pcs s)[i := Leaving out])) \<Longrightarrow>
    tm_internal s (s\<lparr>ts_mq := mq, ts_pcs := pcs, ts_log := ts_log s @ [(i, c, out)]\<rparr>)"
| unlock: "i < length (ts_pcs s) \<Longrightarrow> ts_pcs s ! i = Leaving out \<Longrightarrow>
    tm_internal s (s\<lparr>ts_lock := None, ts_pcs := (ts_pcs s)[i := Idle]\<rparr>)"

text \<open>New calls, with a message of the queue's element size, and spurious wake-ups.\<close>

inductive tm_step :: "tm_sys \<Rightarrow> tm_sys \<Rightarrow> bool" where
  internal: "tm_internal s t \<Longrightarrow> tm_step s t"
| call: "i < length (ts_pcs s) \<Longrightarrow> ts_pcs s ! i = Idle \<Longrightarrow> tm_call_ok (unat (tm_elsize (ts_mq s))) c \<Longrightarrow>
    tm_step s (s\<lparr>ts_pcs := (ts_pcs s)[i := AtLock c]\<rparr>)"
| spurious: "i < length (ts_pcs s) \<Longrightarrow> ts_pcs s ! i = InWait c \<Longrightarrow>
    tm_step s (s\<lparr>ts_pcs := (ts_pcs s)[i := Woken c]\<rparr>)"

definition tm_reachable :: "AVThreadMessageQueue \<Rightarrow> nat \<Rightarrow> tm_sys \<Rightarrow> bool" where
  "tm_reachable mq n s \<longleftrightarrow> tm_step\<^sup>*\<^sup>* (tm_start mq n) s"

text \<open>What the abstract queue makes of a log: the calls one after the other, each with the logged result.\<close>

fun aq_replay :: "nat \<Rightarrow> bool \<Rightarrow> msg_queue \<Rightarrow> (nat \<times> tm_call \<times> tm_out) list \<Rightarrow> msg_queue option" where
  "aq_replay cap ff q [] = Some q"
| "aq_replay cap ff q ((i, c, out) # log) =
     (case aq_apply cap ff c q of
        Some (q', out') \<Rightarrow> if out' = out then aq_replay cap ff q' log else None
      | None \<Rightarrow> None)"

lemma aq_replay_append:
  "aq_replay cap ff q (log @ log') = Option.bind (aq_replay cap ff q log) (\<lambda>q. aq_replay cap ff q log')"
  by (induction log arbitrary: q) (auto split: option.splits)

section \<open>Counting threads\<close>

definition nof :: "('a \<Rightarrow> bool) \<Rightarrow> 'a list \<Rightarrow> nat" where
  "nof P xs = length (filter P xs)"

lemma nof_update:
  "i < length xs \<Longrightarrow> nof P (xs[i := x]) + (if P (xs ! i) then 1 else 0) = nof P xs + (if P x then 1 else 0)"
proof (induction xs arbitrary: i)
  case (Cons a xs)
  then show ?case by (cases i) (auto simp: nof_def)
qed simp

lemma nof_pos: "0 < nof P xs \<longleftrightarrow> (\<exists>x \<in> set xs. P x)"
  by (auto simp: nof_def filter_empty_conv)

text \<open>Threads that will look at the queue for a condition, without another notification.\<close>

fun coming :: "tm_cond \<Rightarrow> tm_pc \<Rightarrow> bool" where
  "coming cv (Woken c) \<longleftrightarrow> tm_cond_of c = Some cv"
| "coming cv (InSection c) \<longleftrightarrow> tm_cond_of c = Some cv"
| "coming cv _ \<longleftrightarrow> False"

fun holds_lock :: "tm_pc \<Rightarrow> bool" where
  "holds_lock (InSection c) \<longleftrightarrow> True"
| "holds_lock (Leaving out) \<longleftrightarrow> True"
| "holds_lock _ \<longleftrightarrow> False"

text \<open>A call that can wait does not have the flag that forbids it.\<close>

fun may_wait :: "tm_call \<Rightarrow> bool" where
  "may_wait (Send msg flags) \<longleftrightarrow> flags AND AV_THREAD_MESSAGE_NONBLOCK = 0"
| "may_wait (Recv flags) \<longleftrightarrow> flags AND AV_THREAD_MESSAGE_NONBLOCK = 0"
| "may_wait _ \<longleftrightarrow> False"

fun pc_ok :: "nat \<Rightarrow> tm_pc \<Rightarrow> bool" where
  "pc_ok e (AtLock c) \<longleftrightarrow> tm_call_ok e c"
| "pc_ok e (InSection c) \<longleftrightarrow> tm_call_ok e c"
| "pc_ok e (InWait c) \<longleftrightarrow> tm_call_ok e c \<and> may_wait c"
| "pc_ok e (Woken c) \<longleftrightarrow> tm_call_ok e c \<and> may_wait c"
| "pc_ok e _ \<longleftrightarrow> True"

text \<open>What a notification does to the counts.\<close>

lemma signal_counts:
  assumes "pcs' \<in> set (tm_notified (pthread_cond_signal cv) pcs)"
  shows "length pcs' = length pcs"
    and "nof (waits_on cv) pcs = 0 \<and> pcs' = pcs \<or>
      nof (waits_on cv) pcs' + 1 = nof (waits_on cv) pcs \<and> nof (coming cv) pcs' = nof (coming cv) pcs + 1"
    and "cw \<noteq> cv \<Longrightarrow> nof (waits_on cw) pcs' = nof (waits_on cw) pcs \<and> nof (coming cw) pcs' = nof (coming cw) pcs"
    and "j < length pcs \<Longrightarrow> pcs' ! j = pcs ! j \<or> (\<exists>c. pcs ! j = InWait c \<and> pcs' ! j = Woken c)"
proof -
  consider (none) "\<forall>i < length pcs. \<not> waits_on cv (pcs ! i)" "pcs' = pcs"
    | (one) i c where "i < length pcs" "pcs ! i = InWait c" "tm_cond_of c = Some cv" "pcs' = pcs[i := Woken c]"
    using assms by (fastforce simp: Let_def filter_empty_conv split: if_splits elim: waits_on.elims)
  note cases = this
  from cases show "length pcs' = length pcs" by cases simp_all
  from cases show "nof (waits_on cv) pcs = 0 \<and> pcs' = pcs \<or>
      nof (waits_on cv) pcs' + 1 = nof (waits_on cv) pcs \<and> nof (coming cv) pcs' = nof (coming cv) pcs + 1"
  proof cases
    case none
    then have "\<not> 0 < nof (waits_on cv) pcs" by (auto simp: nof_pos in_set_conv_nth)
    with none show ?thesis by simp
  next
    case one
    then show ?thesis
      using nof_update [of i pcs "waits_on cv" "Woken c"] nof_update [of i pcs "coming cv" "Woken c"] by simp
  qed
  from cases show "nof (waits_on cw) pcs' = nof (waits_on cw) pcs \<and> nof (coming cw) pcs' = nof (coming cw) pcs"
    if "cw \<noteq> cv"
  proof cases
    case one
    then show ?thesis
      using that nof_update [of i pcs "waits_on cw" "Woken c"] nof_update [of i pcs "coming cw" "Woken c"] by simp
  qed simp
  from cases show "pcs' ! j = pcs ! j \<or> (\<exists>c. pcs ! j = InWait c \<and> pcs' ! j = Woken c)" if "j < length pcs"
    using that by cases (auto simp: nth_list_update)
qed

lemma broadcast_counts:
  assumes "pcs' \<in> set (tm_notified (pthread_cond_broadcast cv) pcs)"
  shows "length pcs' = length pcs" and "nof (waits_on cv) pcs' = 0"
    and "cw \<noteq> cv \<Longrightarrow> nof (waits_on cw) pcs' = nof (waits_on cw) pcs \<and> nof (coming cw) pcs' = nof (coming cw) pcs"
    and "j < length pcs \<Longrightarrow> pcs' ! j = pcs ! j \<or> (\<exists>c. pcs ! j = InWait c \<and> pcs' ! j = Woken c)"
proof -
  have pcs': "pcs' = map (\<lambda>p. if waits_on cv p then wake p else p) pcs" using assms by simp
  then show "length pcs' = length pcs" by simp
  have "\<not> waits_on cv (if waits_on cv p then wake p else p)" for p by (cases p) simp_all
  then have "\<not> 0 < nof (waits_on cv) pcs'"
    unfolding nof_pos pcs' set_map by blast
  then show "nof (waits_on cv) pcs' = 0" by simp
  have w: "waits_on cw (if waits_on cv p then wake p else p) = waits_on cw p"
    "coming cw (if waits_on cv p then wake p else p) = coming cw p" if "cw \<noteq> cv" for p
    using that by (cases p, simp_all)+
  then show "nof (waits_on cw) pcs' = nof (waits_on cw) pcs \<and> nof (coming cw) pcs' = nof (coming cw) pcs"
    if "cw \<noteq> cv" using that by (simp add: nof_def pcs' filter_map o_def)
  show "pcs' ! j = pcs ! j \<or> (\<exists>c. pcs ! j = InWait c \<and> pcs' ! j = Woken c)" if "j < length pcs"
    using that by (cases "pcs ! j") (simp_all add: pcs')
qed

lemma notified_pcs:
  assumes "pcs' \<in> set (tm_notified n pcs)"
  shows "length pcs' = length pcs"
    and "j < length pcs \<Longrightarrow> pcs' ! j = pcs ! j \<or> (\<exists>c. pcs ! j = InWait c \<and> pcs' ! j = Woken c)"
proof -
  show "length pcs' = length pcs"
  proof (cases n)
    case (pthread_cond_signal cv)
    with assms show ?thesis by (intro signal_counts(1)) simp
  qed (use assms in simp_all)
  show "pcs' ! j = pcs ! j \<or> (\<exists>c. pcs ! j = InWait c \<and> pcs' ! j = Woken c)" if "j < length pcs"
  proof (cases n)
    case (pthread_cond_signal cv)
    with assms that show ?thesis by (intro signal_counts(4)) simp_all
  next
    case (pthread_cond_broadcast cv)
    with assms that show ?thesis by (intro broadcast_counts(4) [of _ cv]) simp_all
  qed (use assms in simp)
qed

section \<open>The invariant\<close>

text \<open>The lock is held by the thread that is in a section. The threads that wait for a condition are too
  few to matter: as many threads are on their way as the condition has messages, or free places, to
  give; and nobody waits when an error code is set.\<close>

definition lock_ok :: "tm_sys \<Rightarrow> bool" where
  "lock_ok s \<longleftrightarrow> (\<forall>i < length (ts_pcs s). holds_lock (ts_pcs s ! i) \<longleftrightarrow> ts_lock s = Some i) \<and>
     (\<forall>i. ts_lock s = Some i \<longrightarrow> i < length (ts_pcs s))"

definition wake_ok :: "nat \<Rightarrow> msg_queue \<Rightarrow> tm_pc list \<Rightarrow> bool" where
  "wake_ok cap q pcs \<longleftrightarrow>
     (0 < nof (waits_on cond_recv) pcs \<longrightarrow> stop_recv q = 0 \<and> length (items q) \<le> nof (coming cond_recv) pcs) \<and>
     (0 < nof (waits_on cond_send) pcs \<longrightarrow> stop_send q = 0 \<and> cap - length (items q) \<le> nof (coming cond_send) pcs)"

definition tm_inv :: "nat \<Rightarrow> nat \<Rightarrow> bool \<Rightarrow> msg_queue \<Rightarrow> tm_sys \<Rightarrow> bool" where
  "tm_inv cap e ff q0 s \<longleftrightarrow>
     tm_ok cap (ts_mq s) \<and> unat (tm_elsize (ts_mq s)) = e \<and> tm_free_func (ts_mq s) = ff \<and>
     aq_replay cap ff q0 (ts_log s) = Some (tm_abs (ts_mq s)) \<and>
     lock_ok s \<and> (\<forall>p \<in> set (ts_pcs s). pc_ok e p) \<and> wake_ok cap (tm_abs (ts_mq s)) (ts_pcs s)"

lemmas tm_invD =
  tm_inv_def [THEN iffD1, THEN conjunct1]
  tm_inv_def [THEN iffD1, THEN conjunct2, THEN conjunct1]
  tm_inv_def [THEN iffD1, THEN conjunct2, THEN conjunct2, THEN conjunct1]
  tm_inv_def [THEN iffD1, THEN conjunct2, THEN conjunct2, THEN conjunct2, THEN conjunct1]
  tm_inv_def [THEN iffD1, THEN conjunct2, THEN conjunct2, THEN conjunct2, THEN conjunct2, THEN conjunct1]
  tm_inv_def [THEN iffD1, THEN conjunct2, THEN conjunct2, THEN conjunct2, THEN conjunct2, THEN conjunct2, THEN conjunct1]
  tm_inv_def [THEN iffD1, THEN conjunct2, THEN conjunct2, THEN conjunct2, THEN conjunct2, THEN conjunct2, THEN conjunct2]

lemma tm_inv_start:
  assumes "tm_ok cap mq"
  shows "tm_inv cap (unat (tm_elsize mq)) (tm_free_func mq) (tm_abs mq) (tm_start mq n)"
  using assms by (simp add: tm_inv_def tm_start_def lock_ok_def wake_ok_def nof_def)

text \<open>The counts after the thread's own move and its notification.\<close>

lemma wake_ok_wait:
  assumes "wake_ok cap q pcs" and "i < length pcs" and "pcs ! i = InSection c"
    and "aq_apply cap ff c q = None" and "length (items q) \<le> cap"
  shows "wake_ok cap q (pcs[i := InWait c])"
proof (cases c)
  case (Send m fl)
  then show ?thesis
    using assms nof_update [OF assms(2), of "coming cond_recv" "InWait c"]
      nof_update [OF assms(2), of "waits_on cond_recv" "InWait c"]
    by (simp add: wake_ok_def split: if_splits)
next
  case (Recv fl)
  then show ?thesis
    using assms nof_update [OF assms(2), of "coming cond_send" "InWait c"]
      nof_update [OF assms(2), of "waits_on cond_send" "InWait c"]
    by (simp add: wake_ok_def split: if_splits)
qed (use assms(4) in simp_all)

lemma wake_ok_finish:
  assumes w: "wake_ok cap q pcs" and i: "i < length pcs" "pcs ! i = InSection c"
    and a: "aq_apply cap ff c q = Some (q', out)" and le: "length (items q) \<le> cap"
    and n: "pcs' \<in> set (tm_notified (tm_notify_of c out) (pcs[i := Leaving out]))"
  shows "wake_ok cap q' pcs'"
proof -
  let ?l = "pcs[i := Leaving out]"
  note u = nof_update [OF i(1), of "waits_on cond_recv" "Leaving out"] nof_update [OF i(1), of "coming cond_recv" "Leaving out"]
    nof_update [OF i(1), of "waits_on cond_send" "Leaving out"] nof_update [OF i(1), of "coming cond_send" "Leaving out"]
  show ?thesis
  proof (cases c)
    case (Send m fl)
    show ?thesis
    proof (cases "stop_send q = 0 \<and> length (items q) < cap")
      case True
      then have o: "out = Sent 0" "q' = q\<lparr>items := items q @ [m]\<rparr>" using a Send by auto
      then have "pcs' \<in> set (tm_notified (pthread_cond_signal cond_recv) ?l)" using n Send by simp
      note s = signal_counts(2) [OF this] signal_counts(3) [OF this, of cond_send]
      show ?thesis using w True u s i(2) by (auto simp: wake_ok_def o Send)
    next
      case False
      then have "q' = q" "pcs' = ?l" using a n Send by (auto simp: AVERROR_EAGAIN_def split: if_splits)
      then show ?thesis using w False u i(2) le by (auto simp: wake_ok_def Send)
    qed
  next
    case (Recv fl)
    show ?thesis
    proof (cases "items q = []")
      case False
      then have o: "out = Received 0 (hd (items q))" "q' = q\<lparr>items := tl (items q)\<rparr>" using a Recv by auto
      then have "pcs' \<in> set (tm_notified (pthread_cond_signal cond_send) ?l)" using n Recv by simp
      note s = signal_counts(2) [OF this] signal_counts(3) [OF this, of cond_recv]
      obtain x xs where "items q = x # xs" using False by (cases "items q") auto
      then show ?thesis using w u s i(2) le by (auto simp: wake_ok_def o Recv)
    next
      case True
      then have "q' = q" "pcs' = ?l" using a n Recv by (auto simp: AVERROR_EAGAIN_def split: if_splits)
      then show ?thesis using w True u i(2) by (auto simp: wake_ok_def Recv)
    qed
  next
    case (SetErrSend err)
    then have b: "pcs' \<in> set (tm_notified (pthread_cond_broadcast cond_send) ?l)" "q' = q\<lparr>stop_send := err\<rparr>"
      using n a by simp_all
    show ?thesis
      using w u i(2) broadcast_counts(2) [OF b(1)] broadcast_counts(3) [OF b(1), of cond_recv]
      by (simp add: wake_ok_def b(2) SetErrSend)
  next
    case (SetErrRecv err)
    then have b: "pcs' \<in> set (tm_notified (pthread_cond_broadcast cond_recv) ?l)" "q' = q\<lparr>stop_recv := err\<rparr>"
      using n a by simp_all
    show ?thesis
      using w u i(2) broadcast_counts(2) [OF b(1)] broadcast_counts(3) [OF b(1), of cond_send]
      by (simp add: wake_ok_def b(2) SetErrRecv)
  next
    case Flush
    then have b: "pcs' \<in> set (tm_notified (pthread_cond_broadcast cond_send) ?l)" "q' = q\<lparr>items := []\<rparr>"
      using n a by simp_all
    show ?thesis
      using w u i(2) broadcast_counts(2) [OF b(1)] broadcast_counts(3) [OF b(1), of cond_recv]
      by (simp add: wake_ok_def b(2) Flush)
  next
    case NbElems
    then show ?thesis using w u i(2) a n by (simp add: wake_ok_def)
  qed
qed

lemma lock_ok_move:
  assumes "lock_ok s" and "i < length (ts_pcs s)" and "holds_lock (ts_pcs s ! i)"
  shows "lock_ok (s\<lparr>ts_lock := None, ts_pcs := (ts_pcs s)[i := p]\<rparr>) \<longleftrightarrow> \<not> holds_lock p"
  using assms by (auto simp: lock_ok_def nth_list_update)

lemma nof_same:
  "i < length xs \<Longrightarrow> P x = P (xs ! i) \<Longrightarrow> nof P (xs[i := x]) = nof P xs"
  using nof_update [of i xs P x] by (auto split: if_splits)

text \<open>A thread's own move that neither notifies nor changes what it waits for.\<close>

lemma wake_ok_same:
  assumes "wake_ok cap q pcs" and "i < length pcs" and "\<And>cv. waits_on cv p = waits_on cv (pcs ! i)"
    and "\<And>cv. coming cv (pcs ! i) \<Longrightarrow> coming cv p"
  shows "wake_ok cap q (pcs[i := p])"
proof -
  have "nof (waits_on cv) (pcs[i := p]) = nof (waits_on cv) pcs" for cv
    using nof_same [OF assms(2), of "waits_on cv" p] assms(3) by simp
  moreover have "nof (coming cv) pcs \<le> nof (coming cv) (pcs[i := p])" for cv
    using nof_update [OF assms(2), of "coming cv" p] assms(4) [of cv] by (auto split: if_splits)
  ultimately show ?thesis using assms(1) by (auto simp: wake_ok_def intro: le_trans)
qed

lemma pc_ok_update: "\<forall>p \<in> set pcs. pc_ok e p \<Longrightarrow> pc_ok e p \<Longrightarrow> \<forall>p \<in> set (pcs[i := p]). pc_ok e p"
  using set_update_subset_insert [of pcs i p] by auto

lemma tm_inv_move:
  assumes "tm_inv cap e ff q0 s" and "pc_ok e p" and "lock_ok (s\<lparr>ts_lock := l, ts_pcs := (ts_pcs s)[i := p]\<rparr>)"
    and "wake_ok cap (tm_abs (ts_mq s)) ((ts_pcs s)[i := p])"
  shows "tm_inv cap e ff q0 (s\<lparr>ts_lock := l, ts_pcs := (ts_pcs s)[i := p]\<rparr>)"
proof -
  have "\<forall>p \<in> set ((ts_pcs s)[i := p]). pc_ok e p" by (rule pc_ok_update [OF tm_invD(6) [OF assms(1)] assms(2)])
  then show ?thesis
    using tm_invD(1-4) [OF assms(1)] assms(3,4) unfolding tm_inv_def by (intro conjI) simp_all
qed

lemma pc_ok_notified:
  assumes "\<forall>p \<in> set pcs. pc_ok e p" and "pcs' \<in> set (tm_notified n pcs)"
  shows "\<forall>p \<in> set pcs'. pc_ok e p"
proof
  fix p assume "p \<in> set pcs'"
  then obtain j where j: "j < length pcs" "p = pcs' ! j"
    using notified_pcs(1) [OF assms(2)] by (auto simp: in_set_conv_nth)
  then have "pc_ok e (pcs ! j)" using assms(1) by simp
  then show "pc_ok e p" using notified_pcs(2) [OF assms(2) j(1)] j(2) by auto
qed

lemma lock_ok_notified:
  assumes "lock_ok (s\<lparr>ts_pcs := pcs\<rparr>)" and "pcs' \<in> set (tm_notified n pcs)"
  shows "lock_ok (s\<lparr>ts_mq := mq, ts_pcs := pcs', ts_log := l\<rparr>)"
proof -
  have "holds_lock (pcs' ! j) = holds_lock (pcs ! j)" if "j < length pcs" for j
    using notified_pcs(2) [OF assms(2) that] by auto
  then show ?thesis using assms(1) notified_pcs(1) [OF assms(2)] by (auto simp: lock_ok_def)
qed

text \<open>What a thread in its section does, by the refinement.\<close>

lemma tm_section:
  assumes "tm_inv cap e ff q0 s" and "i < length (ts_pcs s)" and "ts_pcs s ! i = InSection c"
  shows "tm_refines cap (ts_mq s) c"
proof -
  have "pc_ok e (InSection c)" using assms tm_invD(6) nth_mem by metis
  then show ?thesis using tm_locked_refines [of cap "ts_mq s" c] tm_invD(1,2) [OF assms(1)] by simp
qed

lemma may_wait: "aq_apply cap ff c q = None \<Longrightarrow> may_wait c"
  by (cases c) (simp_all split: if_splits)

lemma tm_internal_inv:
  assumes "tm_internal s t" and "tm_inv cap e ff q0 s"
  shows "tm_inv cap e ff q0 t"
  using assms
proof (induction rule: tm_internal.induct)
  case (lock i s c)
  note inv = tm_invD [OF lock(4)]
  have "pc_ok e (InSection c)" using inv(6) lock(1,2) nth_mem by (metis pc_ok.simps(1,2))
  moreover have "lock_ok (s\<lparr>ts_lock := Some i, ts_pcs := (ts_pcs s)[i := InSection c]\<rparr>)"
    using inv(5) lock(1-3) by (auto simp: lock_ok_def nth_list_update)
  moreover have "wake_ok cap (tm_abs (ts_mq s)) ((ts_pcs s)[i := InSection c])"
    using inv(7) lock(1,2) by (intro wake_ok_same) simp_all
  ultimately show ?case by (rule tm_inv_move [OF lock(4)])
next
  case (relock i s c)
  note inv = tm_invD [OF relock(4)]
  have "pc_ok e (InSection c)" using inv(6) relock(1,2) nth_mem by (metis pc_ok.simps(2,4))
  moreover have "lock_ok (s\<lparr>ts_lock := Some i, ts_pcs := (ts_pcs s)[i := InSection c]\<rparr>)"
    using inv(5) relock(1-3) by (auto simp: lock_ok_def nth_list_update)
  moreover have "wake_ok cap (tm_abs (ts_mq s)) ((ts_pcs s)[i := InSection c])"
    using inv(7) relock(1,2) by (intro wake_ok_same) simp_all
  ultimately show ?case by (rule tm_inv_move [OF relock(4)])
next
  case (wait i s c mq cv)
  note inv = tm_invD [OF wait(4)]
  have n: "aq_apply cap ff c (tm_abs (ts_mq s)) = None" and mq: "mq = ts_mq s"
    using tm_section [OF wait(4,1,2)] wait(3) inv(3) by (auto simp: tm_refines_def split: option.splits)
  have "pc_ok e (InWait c)" using inv(6) wait(1,2) nth_mem may_wait [OF n] by (metis pc_ok.simps(2,3))
  moreover have "wake_ok cap (tm_abs (ts_mq s)) ((ts_pcs s)[i := InWait c])"
    using inv(7) wait(1,2) n tm_count_le [OF inv(1)] by (rule wake_ok_wait)
  moreover have "lock_ok (s\<lparr>ts_lock := None, ts_pcs := (ts_pcs s)[i := InWait c]\<rparr>)"
    using lock_ok_move [OF inv(5) wait(1)] wait(2) by simp
  ultimately show ?case using tm_inv_move [OF wait(4), of "InWait c" i None] by (simp add: mq)
next
  case (finish i s c mq out n pcs)
  note inv = tm_invD [OF finish(5)]
  obtain q' where a: "aq_apply cap ff c (tm_abs (ts_mq s)) = Some (q', out)" and n: "n = tm_notify_of c out"
    and mq: "tm_ok cap mq" "tm_abs mq = q'" "tm_elsize mq = tm_elsize (ts_mq s)" "tm_free_func mq = ff"
    using tm_section [OF finish(5,1,2)] finish(3) inv(3) by (auto simp: tm_refines_def split: option.splits)
  have "wake_ok cap q' pcs"
    using wake_ok_finish [OF inv(7) finish(1,2) a tm_count_le [OF inv(1)]] finish(4) by (simp add: n)
  moreover have "\<forall>p \<in> set pcs. pc_ok e p"
    by (rule pc_ok_notified [OF pc_ok_update [OF inv(6)] finish(4)]) simp
  moreover have "lock_ok (s\<lparr>ts_pcs := (ts_pcs s)[i := Leaving out]\<rparr>)"
    using inv(5) finish(1,2) by (auto simp: lock_ok_def nth_list_update)
  moreover note lock_ok_notified [OF this finish(4)]
  ultimately show ?case using inv mq a by (simp add: tm_inv_def aq_replay_append)
next
  case (unlock i s out)
  note inv = tm_invD [OF unlock(3)]
  have "wake_ok cap (tm_abs (ts_mq s)) ((ts_pcs s)[i := Idle])"
    using inv(7) unlock(1,2) by (intro wake_ok_same) simp_all
  moreover have "lock_ok (s\<lparr>ts_lock := None, ts_pcs := (ts_pcs s)[i := Idle]\<rparr>)"
    using lock_ok_move [OF inv(5) unlock(1)] unlock(2) by simp
  ultimately show ?case by (intro tm_inv_move [OF unlock(3)]) simp_all
qed

lemma tm_step_inv:
  assumes "tm_step s t" and "tm_inv cap e ff q0 s"
  shows "tm_inv cap e ff q0 t"
  using assms
proof (induction rule: tm_step.induct)
  case (internal s t)
  then show ?case by (rule tm_internal_inv)
next
  case (call i s c)
  note inv = tm_invD [OF call(4)]
  have "wake_ok cap (tm_abs (ts_mq s)) ((ts_pcs s)[i := AtLock c])"
    using inv(7) call(1,2) by (intro wake_ok_same) simp_all
  moreover have "lock_ok (s\<lparr>ts_lock := ts_lock s, ts_pcs := (ts_pcs s)[i := AtLock c]\<rparr>)"
    using inv(5) call(1,2) by (auto simp: lock_ok_def nth_list_update)
  ultimately show ?case using tm_inv_move [OF call(4), of "AtLock c" i "ts_lock s"] call(3) inv(2) by simp
next
  case (spurious i s c)
  note inv = tm_invD [OF spurious(3)]
  have "pc_ok e (Woken c)" using inv(6) spurious(1,2) nth_mem by (metis pc_ok.simps(3,4))
  moreover have "wake_ok cap (tm_abs (ts_mq s)) ((ts_pcs s)[i := Woken c])"
    using inv(7) spurious nof_update [OF spurious(1), of "waits_on cond_recv" "Woken c"]
      nof_update [OF spurious(1), of "waits_on cond_send" "Woken c"]
      nof_update [OF spurious(1), of "coming cond_recv" "Woken c"]
      nof_update [OF spurious(1), of "coming cond_send" "Woken c"]
    by (auto simp: wake_ok_def split: if_splits)
  moreover have "lock_ok (s\<lparr>ts_lock := ts_lock s, ts_pcs := (ts_pcs s)[i := Woken c]\<rparr>)"
    using inv(5) spurious(1,2) by (auto simp: lock_ok_def nth_list_update)
  ultimately show ?case using tm_inv_move [OF spurious(3), of "Woken c" i "ts_lock s"] by simp
qed

lemma tm_reachable_inv:
  assumes "tm_ok cap mq" and "tm_reachable mq n s"
  shows "tm_inv cap (unat (tm_elsize mq)) (tm_free_func mq) (tm_abs mq) s"
  using assms(2) unfolding tm_reachable_def
  by (induction rule: rtranclp_induct) (use assms(1) tm_inv_start tm_step_inv in blast)+

section \<open>Every call ends or waits with reason\<close>

text \<open>Moves within calls cannot go on for ever: a finished call is not pending any more, and every other
  move brings its thread closer to the end of its call or to a wait.\<close>

fun pending :: "tm_pc \<Rightarrow> bool" where
  "pending Idle \<longleftrightarrow> False"
| "pending (Leaving out) \<longleftrightarrow> False"
| "pending _ \<longleftrightarrow> True"

fun distance :: "tm_pc \<Rightarrow> nat" where
  "distance (AtLock c) = 2"
| "distance (Woken c) = 2"
| "distance (InSection c) = 1"
| "distance (Leaving out) = 1"
| "distance _ = 0"

definition distances :: "tm_pc list \<Rightarrow> nat" where
  "distances pcs = sum_list (map distance pcs)"

lemma distances_update:
  "i < length pcs \<Longrightarrow> distances (pcs[i := p]) + distance (pcs ! i) = distances pcs + distance p"
proof (induction pcs arbitrary: i)
  case (Cons a pcs)
  then show ?case by (cases i) (auto simp: distances_def)
qed simp

lemma nof_pending_notified:
  assumes "pcs' \<in> set (tm_notified n pcs)"
  shows "nof pending pcs' = nof pending pcs"
proof -
  have "pending (pcs' ! j) = pending (pcs ! j)" if "j < length pcs" for j
    using notified_pcs(2) [OF assms that] by auto
  then have "map pending pcs' = map pending pcs"
    using notified_pcs(1) [OF assms] by (intro nth_equalityI) simp_all
  then have "length (filter id (map pending pcs')) = length (filter id (map pending pcs))" by (rule arg_cong)
  then show ?thesis by (simp add: nof_def filter_map o_def)
qed

lemma tm_internal_measure:
  assumes "tm_internal s t"
  shows "nof pending (ts_pcs t) < nof pending (ts_pcs s) \<or>
    nof pending (ts_pcs t) = nof pending (ts_pcs s) \<and> distances (ts_pcs t) < distances (ts_pcs s)"
  using assms
proof cases
  case (lock i c)
  then show ?thesis using nof_update [of i "ts_pcs s" pending "InSection c"] distances_update [of i "ts_pcs s" "InSection c"] by simp
next
  case (relock i c)
  then show ?thesis using nof_update [of i "ts_pcs s" pending "InSection c"] distances_update [of i "ts_pcs s" "InSection c"] by simp
next
  case (wait i c mq cv)
  then show ?thesis using nof_update [of i "ts_pcs s" pending "InWait c"] distances_update [of i "ts_pcs s" "InWait c"] by simp
next
  case (finish i c mq out n pcs)
  then show ?thesis using nof_update [of i "ts_pcs s" pending "Leaving out"] nof_pending_notified [of pcs n] by simp
next
  case (unlock i out)
  then show ?thesis using nof_update [of i "ts_pcs s" pending Idle] distances_update [of i "ts_pcs s" Idle] by simp
qed

lemma tm_internal_wf: "wfp (\<lambda>t s. tm_internal s t)"
proof -
  have "wf (inv_image (less_than <*lex*> less_than) (\<lambda>s. (nof pending (ts_pcs s), distances (ts_pcs s))))"
    by (intro wf_inv_image wf_lex_prod wf_less_than)
  moreover have "{(t, s). tm_internal s t} \<subseteq>
      inv_image (less_than <*lex*> less_than) (\<lambda>s. (nof pending (ts_pcs s), distances (ts_pcs s)))"
    using tm_internal_measure by auto
  ultimately show ?thesis unfolding wfp_def by (rule wf_subset)
qed

text \<open>A thread with the lock can move, and with the lock free every thread at the lock can.\<close>

lemma tm_section_moves:
  assumes "tm_inv cap e ff q0 s" and "i < length (ts_pcs s)" and "holds_lock (ts_pcs s ! i)"
  shows "\<exists>t. tm_internal s t"
proof (cases "ts_pcs s ! i")
  case (InSection c)
  show ?thesis
  proof (cases "aq_apply cap (tm_free_func (ts_mq s)) c (tm_abs (ts_mq s))")
    case None
    then obtain cv where "tm_locked (ts_mq s) c = Some (ts_mq s, Wait cv)"
      using tm_section [OF assms(1,2) InSection] by (auto simp: tm_refines_def)
    then show ?thesis using assms(2) InSection by (blast intro: tm_internal.wait)
  next
    case (Some a)
    obtain q out where a: "a = (q, out)" by fastforce
    then obtain mq' where "tm_locked (ts_mq s) c = Some (mq', Return out (tm_notify_of c out))"
      using tm_section [OF assms(1,2) InSection] Some by (auto simp: tm_refines_def)
    moreover have "tm_notified n pcs \<noteq> []" for n pcs by (cases n) (simp_all add: Let_def)
    ultimately show ?thesis
      using assms(2) InSection by (meson last_in_set tm_internal.finish)
  qed
next
  case (Leaving out)
  then show ?thesis using assms(2) by (blast intro: tm_internal.unlock)
qed (use assms(3) in simp_all)

lemma tm_stuck_pcs:
  assumes inv: "tm_inv cap e ff q0 s" and stuck: "\<nexists>t. tm_internal s t" and p: "p \<in> set (ts_pcs s)"
  shows "p = Idle \<or> (\<exists>c. p = InWait c)"
proof -
  obtain i where i: "i < length (ts_pcs s)" "p = ts_pcs s ! i" using p by (auto simp: in_set_conv_nth)
  have l: "ts_lock s = None"
  proof (rule ccontr)
    assume "ts_lock s \<noteq> None"
    then obtain j where "ts_lock s = Some j" by auto
    then have "j < length (ts_pcs s)" "holds_lock (ts_pcs s ! j)"
      using tm_invD(5) [OF inv] by (auto simp: lock_ok_def)
    with tm_section_moves [OF inv] stuck show False by blast
  qed
  have h: "\<not> holds_lock p" using tm_section_moves [OF inv i(1)] stuck i(2) by blast
  show ?thesis
  proof (cases p)
    case (AtLock c)
    then show ?thesis using tm_internal.lock [OF i(1) _ l] stuck i(2) by metis
  next
    case (Woken c)
    then show ?thesis using tm_internal.relock [OF i(1) _ l] stuck i(2) by metis
  qed (use h in simp_all)
qed

lemma tm_stuck_waits:
  assumes inv: "tm_inv cap e ff q0 s" and stuck: "\<nexists>t. tm_internal s t" and p: "InWait c \<in> set (ts_pcs s)"
  shows "aq_apply cap ff c (tm_abs (ts_mq s)) = None"
proof -
  have no: "nof (coming cv) (ts_pcs s) = 0" for cv
  proof -
    have "\<not> 0 < nof (coming cv) (ts_pcs s)"
    proof
      assume "0 < nof (coming cv) (ts_pcs s)"
      then obtain p where "p \<in> set (ts_pcs s)" "coming cv p" by (auto simp: nof_pos)
      then show False using tm_stuck_pcs [OF inv stuck, of p] by auto
    qed
    then show ?thesis by simp
  qed
  have w: "tm_cond_of c = Some cv \<Longrightarrow> 0 < nof (waits_on cv) (ts_pcs s)" for cv
    using p unfolding nof_pos by force
  have "may_wait c" using tm_invD(6) [OF inv] p by fastforce
  then show ?thesis
    using w tm_invD(7) [OF inv] tm_count_le [OF tm_invD(1) [OF inv]] by (cases c) (auto simp: wake_ok_def no)
qed

section \<open>The properties\<close>

lemma tm_set_free_func:
  assumes "tm_ok cap mq"
  shows "tm_ok cap (av_thread_message_queue_set_free_func mq ff)"
    "tm_abs (av_thread_message_queue_set_free_func mq ff) = tm_abs mq"
    "tm_elsize (av_thread_message_queue_set_free_func mq ff) = tm_elsize mq"
    "tm_free_func (av_thread_message_queue_set_free_func mq ff) = ff"
  using assms by (simp_all add: tm_ok_def tm_abs_def av_thread_message_queue_set_free_func_def)

text \<open>C7: Any number of threads on one queue, in any interleaving, get the results of a bounded queue of whole
  messages that runs the same calls one after the other, in the order in which they had the lock; the
  ring buffer then holds what that queue holds.\<close>

theorem av_thread_message_linearizable:
  assumes "av_thread_message_queue_alloc nelem elsize mq_ok mutex_ret recv_ret send_ret av_malloc hdr = Some (live, Inr mq)"
    and "allocator_ok av_malloc" and "nelem \<noteq> 0"
    and "tm_reachable (av_thread_message_queue_set_free_func mq ff) n s"
  shows "aq_replay (unat nelem) ff \<lparr>items = [], stop_send = 0, stop_recv = 0\<rparr> (ts_log s) = Some (tm_abs (ts_mq s))"
proof -
  note a = tm_alloc_ok [OF assms(1-3)]
  show ?thesis
    using tm_reachable_inv [OF tm_set_free_func(1) [OF a(1)] assms(4)] a(2) tm_set_free_func [OF a(1)]
    by (auto dest: tm_invD(4))
qed

text \<open>The messages that entered the queue, and those that left it to a receiver or to \<open>free_func\<close>.\<close>

fun sent_messages :: "(nat \<times> tm_call \<times> tm_out) list \<Rightarrow> bytes list" where
  "sent_messages [] = []"
| "sent_messages ((i, Send msg flags, Sent r) # log) = (if r = 0 then msg # sent_messages log else sent_messages log)"
| "sent_messages (_ # log) = sent_messages log"

fun taken_messages :: "(nat \<times> tm_call \<times> tm_out) list \<Rightarrow> bytes list" where
  "taken_messages [] = []"
| "taken_messages ((i, c, Received r msg) # log) = (if r = 0 then msg # taken_messages log else taken_messages log)"
| "taken_messages ((i, c, Freed ps) # log) = map concat ps @ taken_messages log"
| "taken_messages (_ # log) = taken_messages log"

lemma aq_replay_messages:
  "aq_replay cap True q log = Some q' \<Longrightarrow> items q @ sent_messages log = taken_messages log @ items q'"
proof (induction log arbitrary: q)
  case (Cons x log)
  obtain i c out where x: "x = (i, c, out)" by (cases x)
  obtain q1 where a: "aq_apply cap True c q = Some (q1, out)" and r: "aq_replay cap True q1 log = Some q'"
    using Cons.prems by (auto simp: x split: option.splits if_splits)
  have "items q @ sent_messages (x # log) = taken_messages [x] @ items q1 @ sent_messages log"
    using a by (cases c) (auto simp: x o_def AVERROR_EAGAIN_def split: if_splits)
  moreover have "taken_messages (x # log) = taken_messages [x] @ taken_messages log"
    by (cases out) (simp_all add: x)
  ultimately show ?case using Cons.IH [OF r] by simp
qed simp

text \<open>C10: With \<open>free_func\<close> set, every message that a send accepted is handed out exactly once, whole and in the
  order of the sends: to one receiver, or in one piece to \<open>free_func\<close>, or it is still in the queue.\<close>

theorem av_thread_message_in_order:
  assumes "tm_ok cap mq" and "tm_free_func mq" and "items (tm_abs mq) = []" and "tm_reachable mq n s"
  shows "sent_messages (ts_log s) = taken_messages (ts_log s) @ items (tm_abs (ts_mq s))"
proof -
  have "aq_replay cap True (tm_abs mq) (ts_log s) = Some (tm_abs (ts_mq s))"
    using tm_reachable_inv [OF assms(1,4)] assms(2) by (auto dest: tm_invD(4))
  from aq_replay_messages [OF this] show ?thesis using assms(3) by simp
qed

text \<open>C9: No wake-up is lost: while a thread waits although the queue could serve its call, another thread is
  on its way to look at the queue for the same condition.\<close>

theorem av_thread_message_no_lost_wakeup:
  assumes "tm_ok cap mq" and "tm_reachable mq n s" and "InWait c \<in> set (ts_pcs s)"
    and "aq_apply cap (tm_free_func mq) c (tm_abs (ts_mq s)) \<noteq> None"
  shows "\<exists>p \<in> set (ts_pcs s). \<exists>cv. tm_cond_of c = Some cv \<and> coming cv p"
proof (rule ccontr)
  assume neg: "\<not> ?thesis"
  note inv = tm_reachable_inv [OF assms(1,2)]
  then have no: "nof (coming cv) (ts_pcs s) = 0" if "tm_cond_of c = Some cv" for cv
    using neg that nof_pos [of "coming cv" "ts_pcs s"] by auto
  have w: "tm_cond_of c = Some cv \<Longrightarrow> 0 < nof (waits_on cv) (ts_pcs s)" for cv
    using assms(3) unfolding nof_pos by force
  have "may_wait c" using tm_invD(6) [OF inv] assms(3) by fastforce
  then show False
    using w no assms(4) tm_invD(7) [OF inv] tm_count_le [OF tm_invD(1) [OF inv]] by (cases c) (auto simp: wake_ok_def)
qed

text \<open>C8: From every reachable state, without new calls and spurious wake-ups, no schedule goes on for ever; and
  when no thread can move, every thread is outside the queue's functions or waits in a call that the queue
  cannot serve. In particular a sender and a receiver never wait for each other.\<close>

theorem av_thread_message_calls_end:
  assumes "tm_ok cap mq" and "tm_reachable mq n s"
  shows "\<not> (\<exists>f. f 0 = s \<and> (\<forall>k. tm_internal (f k) (f (Suc k)))) \<and>
    (\<forall>t. tm_internal\<^sup>*\<^sup>* s t \<longrightarrow> (\<nexists>u. tm_internal t u) \<longrightarrow>
      (\<forall>p \<in> set (ts_pcs t). p = Idle \<or>
        (\<exists>c. p = InWait c \<and> aq_apply cap (tm_free_func mq) c (tm_abs (ts_mq t)) = None)))"
proof (intro conjI allI impI ballI)
  show "\<not> (\<exists>f. f 0 = s \<and> (\<forall>k. tm_internal (f k) (f (Suc k))))"
    using tm_internal_wf [unfolded wfp_def wf_iff_no_infinite_down_chain] by auto
next
  fix t p
  assume t: "tm_internal\<^sup>*\<^sup>* s t" "\<nexists>u. tm_internal t u" and p: "p \<in> set (ts_pcs t)"
  have "tm_inv cap (unat (tm_elsize mq)) (tm_free_func mq) (tm_abs mq) t"
    using t(1) by (induction rule: rtranclp_induct) (use tm_reachable_inv [OF assms] tm_internal_inv in blast)+
  note stuck = tm_stuck_pcs [OF this t(2) p] tm_stuck_waits [OF this t(2)]
  show "p = Idle \<or> (\<exists>c. p = InWait c \<and> aq_apply cap (tm_free_func mq) c (tm_abs (ts_mq t)) = None)"
    using stuck(1) stuck(2) p by blast
qed

text \<open>An allocation that fails releases everything it acquired. One that succeeds gives an empty queue for
  \<open>nelem\<close> messages, and freeing it releases the five resources that it holds.\<close>

theorem av_thread_message_alloc_correct:
  assumes "av_thread_message_queue_alloc nelem elsize mq_ok mutex_ret recv_ret send_ret av_malloc hdr = Some (live, r)"
    and "allocator_ok av_malloc" and "nelem \<noteq> 0"
  shows "case r of
      Inl err \<Rightarrow> live = []
    | Inr mq \<Rightarrow> tm_ok (unat nelem) mq \<and> items (tm_abs mq) = [] \<and> length live = 5 \<and>
        av_thread_message_queue_free live mq = Some (Freed [], [])"
proof (cases r)
  case (Inl err)
  then show ?thesis
    using assms(1) by (auto simp: av_thread_message_queue_alloc_def Let_def split: if_splits option.splits)
next
  case (Inr mq)
  note a = tm_alloc_ok [OF assms(1) [unfolded Inr] assms(2,3)]
  have l: "live = [Fifo, Cond cond_send, Cond cond_recv, Lock, Struct]"
    using assms(1) Inr by (auto simp: av_thread_message_queue_alloc_def Let_def split: if_splits option.splits)
  obtain mq' where "av_thread_message_flush mq = Some (mq', Return (Freed []) (pthread_cond_broadcast cond_send))"
    using tm_flush_refines [OF a(1)] a(2,4) by (auto simp: tm_refines_def)
  then show ?thesis using a l Inr by (simp add: av_thread_message_queue_free_def)
qed

section \<open>Two threads on a queue for one message\<close>

definition tm_example :: AVThreadMessageQueue where
  "tm_example = \<lparr>tm_fifo = \<lparr>buffer = [0, 0], rptr = 0, wptr = 0, rndx = 0, wndx = 0\<rparr>,
     tm_err_send = 0, tm_err_recv = 0, tm_elsize = 2, tm_free_func = True\<rparr>"

lemma tm_example_ok: "tm_ok 1 tm_example" "tm_free_func tm_example" "items (tm_abs tm_example) = []"
  by (simp_all add: tm_ok_def tm_example_def fifo_ok_def fifo_count_def tm_abs_def fifo_contents_def chunks_short)

lemma tm_example_alloc:
  "av_thread_message_queue_alloc 1 2 True 0 0 0 (\<lambda>k. Some (replicate k 0)) True =
     Some ([Fifo, Cond cond_send, Cond cond_recv, Lock, Struct], Inr (av_thread_message_queue_set_free_func tm_example False))"
proof -
  have "replicate 2 (0 :: u8) = [0, 0]" by (simp add: numeral_2_eq_2)
  then show ?thesis
    by (simp add: av_thread_message_queue_alloc_def tm_example_def av_thread_message_queue_set_free_func_def
        av_fifo_alloc_def fifo_alloc_common_def av_fifo_reset_def Let_def)
qed

lemma tm_example_free: "av_thread_message_queue_set_free_func (av_thread_message_queue_set_free_func tm_example False) True = tm_example"
  by (simp add: tm_example_def av_thread_message_queue_set_free_func_def)

text \<open>A whole call of an idle thread, up to its wait or its result.\<close>

lemma tm_reach_section:
  assumes "tm_reachable mq n s" and "ts_lock s = None" and "i < length (ts_pcs s)" and "ts_pcs s ! i = Idle"
    and "tm_call_ok (unat (tm_elsize (ts_mq s))) c"
  shows "tm_reachable mq n (s\<lparr>ts_lock := Some i, ts_pcs := (ts_pcs s)[i := InSection c]\<rparr>)"
proof -
  let ?s = "s\<lparr>ts_pcs := (ts_pcs s)[i := AtLock c]\<rparr>"
  have "tm_step s ?s" using tm_step.call [OF assms(3,4,5)] .
  moreover have "tm_step ?s (s\<lparr>ts_lock := Some i, ts_pcs := (ts_pcs s)[i := InSection c]\<rparr>)"
    using tm_internal.lock [of i ?s c] assms(2,3) by (simp add: tm_step.internal)
  ultimately show ?thesis using assms(1) unfolding tm_reachable_def by (meson rtranclp.rtrancl_into_rtrancl)
qed

lemma tm_reach_wait:
  assumes "tm_reachable mq n s" and "ts_lock s = None" and "i < length (ts_pcs s)" and "ts_pcs s ! i = Idle"
    and "tm_call_ok (unat (tm_elsize (ts_mq s))) c" and "tm_locked (ts_mq s) c = Some (mq', Wait cv)"
  shows "tm_reachable mq n (s\<lparr>ts_mq := mq', ts_lock := None, ts_pcs := (ts_pcs s)[i := InWait c]\<rparr>)"
proof -
  let ?s = "s\<lparr>ts_lock := Some i, ts_pcs := (ts_pcs s)[i := InSection c]\<rparr>"
  have "tm_step ?s (s\<lparr>ts_mq := mq', ts_lock := None, ts_pcs := (ts_pcs s)[i := InWait c]\<rparr>)"
    using tm_internal.wait [of i ?s c mq' cv] assms(3,6) by (simp add: tm_step.internal)
  with tm_reach_section [OF assms(1-5)] show ?thesis
    unfolding tm_reachable_def by (meson rtranclp.rtrancl_into_rtrancl)
qed

lemma tm_reach_finish:
  assumes "tm_reachable mq n s" and "ts_lock s = None" and "i < length (ts_pcs s)" and "ts_pcs s ! i = Idle"
    and "tm_call_ok (unat (tm_elsize (ts_mq s))) c" and "tm_locked (ts_mq s) c = Some (mq', Return out nt)"
    and "pcs \<in> set (tm_notified nt ((ts_pcs s)[i := Leaving out]))"
  shows "tm_reachable mq n (s\<lparr>ts_lock := Some i, ts_mq := mq', ts_pcs := pcs, ts_log := ts_log s @ [(i, c, out)]\<rparr>)"
proof -
  let ?s = "s\<lparr>ts_lock := Some i, ts_pcs := (ts_pcs s)[i := InSection c]\<rparr>"
  have "tm_step ?s (s\<lparr>ts_lock := Some i, ts_mq := mq', ts_pcs := pcs, ts_log := ts_log s @ [(i, c, out)]\<rparr>)"
    using tm_internal.finish [of i ?s c mq' out nt pcs] assms(3,6,7) by (simp add: tm_step.internal)
  with tm_reach_section [OF assms(1-5)] show ?thesis
    unfolding tm_reachable_def by (meson rtranclp.rtrancl_into_rtrancl)
qed

text \<open>Two receivers find the queue empty and wait; a third thread sends a message, which wakes one of them.\<close>

definition tm_example_full :: AVThreadMessageQueue where
  "tm_example_full = tm_example\<lparr>tm_fifo := \<lparr>buffer = [7, 8], rptr = 0, wptr = 0, rndx = 0, wndx = 2\<rparr>\<rparr>"

lemma tm_example_passes:
  "tm_locked tm_example (Recv 0) = Some (tm_example, Wait cond_recv)"
  "tm_locked tm_example (Send [7, 8] 0) = Some (tm_example_full, Return (Sent 0) (pthread_cond_signal cond_recv))"
proof -
  show "tm_locked tm_example (Recv 0) = Some (tm_example, Wait cond_recv)"
    by (simp add: av_thread_message_queue_recv_locked_def tm_example_def av_fifo_size_def s32_def)
  have "fifo_write_loop [0, 0] 0 0 [7, 8] 2 = Some ([7, 8], 0, 2)"
    by (subst fifo_write_loop.simps) (simp add: Let_def)
  then show "tm_locked tm_example (Send [7, 8] 0) = Some (tm_example_full, Return (Sent 0) (pthread_cond_signal cond_recv))"
    by (simp add: av_thread_message_queue_send_locked_def tm_example_def tm_example_full_def av_fifo_space_def
        av_fifo_size_def s32_def av_fifo_generic_write_def)
qed

definition tm_example_state :: tm_sys where
  "tm_example_state = \<lparr>ts_mq = tm_example_full, ts_lock = Some 2,
     ts_pcs = [Woken (Recv 0), InWait (Recv 0), Leaving (Sent 0)], ts_log = [(2, Send [7, 8] 0, Sent 0)]\<rparr>"

lemma tm_example_reachable: "tm_reachable tm_example 3 tm_example_state"
proof -
  let ?s = "\<lambda>p q. \<lparr>ts_mq = tm_example, ts_lock = None, ts_pcs = [p, q, Idle], ts_log = []\<rparr>"
  have "tm_reachable tm_example 3 (?s Idle Idle)"
    by (simp add: tm_reachable_def tm_start_def numeral_3_eq_3)
  then have "tm_reachable tm_example 3 (?s (InWait (Recv 0)) Idle)"
    using tm_reach_wait [of tm_example 3 "?s Idle Idle" 0 "Recv 0"] tm_example_passes(1) by simp
  then have "tm_reachable tm_example 3 (?s (InWait (Recv 0)) (InWait (Recv 0)))"
    using tm_reach_wait [of tm_example 3 "?s (InWait (Recv 0)) Idle" 1 "Recv 0"] tm_example_passes(1) by simp
  from tm_reach_finish [OF this, of 2 "Send [7, 8] 0" tm_example_full "Sent 0" "pthread_cond_signal cond_recv"
      "[Woken (Recv 0), InWait (Recv 0), Leaving (Sent 0)]"]
  show ?thesis
    using tm_example_passes(2) by (simp add: tm_example_state_def tm_example_def upt_rec)
qed

lemma tm_example_abs: "tm_abs tm_example_full = \<lparr>items = [[7, 8]], stop_send = 0, stop_recv = 0\<rparr>"
  by (simp add: tm_abs_def tm_example_full_def tm_example_def fifo_contents_def fifo_count_def upt_rec chunks.simps)

theorem av_thread_message_linearizable_witness:
  "aq_replay 1 True \<lparr>items = [], stop_send = 0, stop_recv = 0\<rparr> [(2, Send [7, 8] 0, Sent 0)] =
     Some (tm_abs tm_example_full)"
  using av_thread_message_linearizable [OF tm_example_alloc, of True 3 tm_example_state]
    tm_example_reachable by (simp add: tm_example_free allocator_ok_def tm_example_state_def)

theorem av_thread_message_in_order_witness:
  "sent_messages [(2, Send [7, 8] 0, Sent 0)] =
     taken_messages [(2, Send [7, 8] 0, Sent 0)] @ items (tm_abs tm_example_full)"
  using av_thread_message_in_order [OF tm_example_ok tm_example_reachable] by (simp add: tm_example_state_def)

theorem av_thread_message_no_lost_wakeup_witness:
  "\<exists>p \<in> {Woken (Recv 0), InWait (Recv 0), Leaving (Sent 0)}. \<exists>cv. tm_cond_of (Recv 0) = Some cv \<and> coming cv p"
  using av_thread_message_no_lost_wakeup [OF tm_example_ok(1) tm_example_reachable, of "Recv 0"]
  by (simp add: tm_example_state_def tm_example_abs)

theorem av_thread_message_calls_end_witness:
  "\<not> (\<exists>f. f 0 = tm_example_state \<and> (\<forall>k. tm_internal (f k) (f (Suc k))))"
  using av_thread_message_calls_end [OF tm_example_ok(1) tm_example_reachable] by (rule conjunct1)

theorem av_thread_message_alloc_correct_witness:
  "av_thread_message_queue_free [Fifo, Cond cond_send, Cond cond_recv, Lock, Struct]
     (av_thread_message_queue_set_free_func tm_example False) = Some (Freed [], [])"
  using av_thread_message_alloc_correct [OF tm_example_alloc] by (simp add: allocator_ok_def)

end
