(* ===== verification/AvTree.thy ===== *)
theory AvTree imports AvIntMath
begin

text \<open>
  \<open>libavutil/tree.c\<close>: a binary search tree balanced by height differences, with the comparison function as
  a parameter. A node pointer is a tree and \<open>NULL\<close> is the leaf; an insertion consumes the node that
  \<open>*next\<close> points to, a removal stores the removed node there. Reads through \<open>NULL\<close> or of a variable that
  was never set have no result. The locale \<open>tree_order\<close> states what a comparison function has to be, and
  the search and the updates are proved inside it against the in-order list of the elements.
\<close>

section \<open>The code\<close>

datatype 'a avtree = NULL | AVTreeNode "'a avtree" 'a int "'a avtree"

text \<open>\<open>child[0]\<close> is the first, \<open>child[1]\<close> the last component.\<close>

fun child :: "'a avtree \<Rightarrow> nat \<Rightarrow> 'a avtree" where
  "child (AVTreeNode l e s r) i = (if i = 0 then l else r)"
| "child NULL i = NULL"

fun set_child :: "nat \<Rightarrow> 'a avtree \<Rightarrow> 'a avtree \<Rightarrow> 'a avtree" where
  "set_child i c (AVTreeNode l e s r) = (if i = 0 then AVTreeNode c e s r else AVTreeNode l e s c)"
| "set_child i c NULL = NULL"

fun state :: "'a avtree \<Rightarrow> int" where
  "state (AVTreeNode l e s r) = s"
| "state NULL = 0"

fun set_state :: "int \<Rightarrow> 'a avtree \<Rightarrow> 'a avtree" where
  "set_state st (AVTreeNode l e s r) = AVTreeNode l e st r"
| "set_state st NULL = NULL"

text \<open>\<open>v >> 31\<close> on the result of the comparison as an unsigned value.\<close>

definition sign_bit :: "int \<Rightarrow> nat" where
  "sign_bit v = (if v < 0 then 1 else 0)"

text \<open>The array \<open>next\<close> is a pair; an entry is \<open>None\<close> while nothing was stored.\<close>

fun set_next :: "nat \<Rightarrow> 'a \<Rightarrow> 'a option \<times> 'a option \<Rightarrow> 'a option \<times> 'a option" where
  "set_next i e (a, b) = (if i = 0 then (Some e, b) else (a, Some e))"

text \<open>With \<open>next\<close>; \<open>av_tree_find\<close> without it takes the same path.\<close>

fun av_tree_find_next ::
  "'a avtree \<Rightarrow> 'k \<Rightarrow> ('k \<Rightarrow> 'a \<Rightarrow> int) \<Rightarrow> 'a option \<times> 'a option \<Rightarrow> 'a option \<times> ('a option \<times> 'a option)" where
  "av_tree_find_next NULL key cmp nx = (None, nx)"
| "av_tree_find_next (AVTreeNode l e s r) key cmp nx =
     (let v = cmp key e
      in if v \<noteq> 0
         then let nx = set_next (sign_bit v) e nx
              in if sign_bit v = 0 then av_tree_find_next r key cmp nx else av_tree_find_next l key cmp nx
         else let nx = snd (av_tree_find_next l key cmp nx);
                  nx = snd (av_tree_find_next r key cmp nx)
              in (Some e, nx))"

fun av_tree_find :: "'a avtree \<Rightarrow> 'k \<Rightarrow> ('k \<Rightarrow> 'a \<Rightarrow> int) \<Rightarrow> 'a option" where
  "av_tree_find NULL key cmp = None"
| "av_tree_find (AVTreeNode l e s r) key cmp =
     (let v = cmp key e
      in if v \<noteq> 0 then (if sign_bit v = 0 then av_tree_find r key cmp else av_tree_find l key cmp) else Some e)"

text \<open>The two rotations, at the node \<open>t\<close> whose child \<open>i\<close> is too high.\<close>

definition tree_rotate_double :: "'a avtree \<Rightarrow> nat \<Rightarrow> 'a avtree option" where
  "tree_rotate_double t i =
     (let c = child t i; g = child c (1 - i)
      in if t = NULL \<or> c = NULL \<or> g = NULL then None
         else
           let c = set_child (1 - i) (child g i) c;
               g' = set_child i c g;
               t = set_child i (child g (1 - i)) t;
               g' = set_child (1 - i) t g';
               g' = set_child 0 (set_state (if state g > 0 then - 1 else 0) (child g' 0)) g';
               g' = set_child 1 (set_state (if state g < 0 then 1 else 0) (child g' 1)) g'
           in Some (set_state 0 g'))"

definition tree_rotate_single :: "'a avtree \<Rightarrow> nat \<Rightarrow> 'a avtree option" where
  "tree_rotate_single t i =
     (let c = child t i
      in if t = NULL \<or> c = NULL then None
         else
           let t = set_child i (child c (1 - i)) t;
               t = (if state c \<noteq> 0 then set_state 0 t else set_state (drop_bit 1 (state t)) t);
               c = set_child (1 - i) t c
           in Some (set_state (- state t) c))"

text \<open>\<open>if (!ret) { ... }\<close>: the child on the side \<open>i\<close> has become higher than the other by one. Gives the tree,
  and whether the function returns \<open>key\<close>.\<close>

definition tree_rebalance :: "'a avtree \<Rightarrow> nat \<Rightarrow> bool \<Rightarrow> ('a avtree \<times> bool) option" where
  "tree_rebalance t i removed =
     (let t = set_state (state t + 2 * int i - 1) t;
          t' = (if even (state t) \<and> state t \<noteq> 0
                then (if state (child t i) * 2 = - state t then tree_rotate_double t i else tree_rotate_single t i)
                else Some t)
      in case t' of None \<Rightarrow> None | Some t \<Rightarrow> Some (t, (state t = 0) \<noteq> removed))"

text \<open>After the recursive call on the child \<open>j = v >> 31\<close>, which gave a new child, \<open>*next\<close> and \<open>ret\<close>.\<close>

definition tree_return ::
  "'a avtree \<Rightarrow> nat \<Rightarrow> 'a \<Rightarrow> ('a avtree \<times> 'a avtree \<times> 'a option) option \<Rightarrow> ('a avtree \<times> 'a avtree \<times> 'a option) option" where
  "tree_return t j key res =
     (case res of
        None \<Rightarrow> None
      | Some (c, nx, ret) \<Rightarrow>
          let t = set_child j c t
          in (case ret of
                Some x \<Rightarrow> Some (t, nx, Some x)
              | None \<Rightarrow>
                  let i = (if nx \<noteq> NULL then 1 - j else j)
                  in case tree_rebalance t i (nx \<noteq> NULL) of
                       None \<Rightarrow> None
                     | Some (t, stop) \<Rightarrow> Some (t, nx, if stop then Some key else None)))"

text \<open>The tree, \<open>*next\<close> and the returned element afterwards.\<close>

fun av_tree_insert ::
  "'a avtree \<Rightarrow> 'a \<Rightarrow> ('a \<Rightarrow> 'a \<Rightarrow> int) \<Rightarrow> 'a avtree \<Rightarrow> ('a avtree \<times> 'a avtree \<times> 'a option) option" where
  "av_tree_insert NULL key cmp nx =
     (case nx of
        AVTreeNode l e s r \<Rightarrow> Some (AVTreeNode l key s r, NULL, None)
      | NULL \<Rightarrow> Some (NULL, NULL, Some key))"
| "av_tree_insert (AVTreeNode l e s r) key cmp nx =
     (let v = cmp e key
      in if v \<noteq> 0
         then tree_return (AVTreeNode l e s r) (sign_bit v) key
                (if sign_bit v = 0 then av_tree_insert l key cmp nx else av_tree_insert r key cmp nx)
         else if nx \<noteq> NULL then Some (AVTreeNode l e s r, nx, Some e)
         else if l \<noteq> NULL \<or> r \<noteq> NULL
         then let i = (if l = NULL then 1 else 0);
                  next_elem = snd (av_tree_find_next (if i = 0 then l else r) key cmp (None, None))
              in case (if i = 0 then fst next_elem else snd next_elem) of
                   None \<Rightarrow> None
                 | Some key \<Rightarrow>
                     tree_return (AVTreeNode l key s r) i key
                       (if i = 0 then av_tree_insert l key cmp nx else av_tree_insert r key cmp nx)
         else Some (NULL, AVTreeNode l e s r, None))"

text \<open>\<open>av_tree_enumerate\<close>: the elements on which \<open>enu\<close> is called, in order.\<close>

fun av_tree_enumerate :: "'a avtree \<Rightarrow> ('a \<Rightarrow> int) option \<Rightarrow> 'a list" where
  "av_tree_enumerate NULL cmp = []"
| "av_tree_enumerate (AVTreeNode l e s r) cmp =
     (let v = (case cmp of Some f \<Rightarrow> f e | None \<Rightarrow> 0)
      in (if v \<ge> 0 then av_tree_enumerate l cmp else []) @ (if v = 0 then [e] else []) @
         (if v \<le> 0 then av_tree_enumerate r cmp else []))"

text \<open>\<open>av_tree_destroy\<close>: the nodes it frees, in order, as their elements.\<close>

fun av_tree_destroy :: "'a avtree \<Rightarrow> 'a list" where
  "av_tree_destroy NULL = []"
| "av_tree_destroy (AVTreeNode l e s r) = av_tree_destroy l @ av_tree_destroy r @ [e]"

definition av_tree_node_alloc :: "'a \<Rightarrow> 'a avtree" where
  "av_tree_node_alloc null = AVTreeNode NULL null 0 NULL"

section \<open>Balance\<close>

fun tree_height :: "'a avtree \<Rightarrow> int" where
  "tree_height NULL = 0"
| "tree_height (AVTreeNode l e s r) = 1 + max (tree_height l) (tree_height r)"

fun inorder :: "'a avtree \<Rightarrow> 'a list" where
  "inorder NULL = []"
| "inorder (AVTreeNode l e s r) = inorder l @ e # inorder r"

text \<open>The state is the difference of the heights, and at most one.\<close>

fun avl :: "'a avtree \<Rightarrow> bool" where
  "avl NULL \<longleftrightarrow> True"
| "avl (AVTreeNode l e s r) \<longleftrightarrow> avl l \<and> avl r \<and> s = tree_height r - tree_height l \<and> \<bar>s\<bar> \<le> 1"

lemma tree_height_nonneg [simp]: "0 \<le> tree_height t"
  by (induction t) simp_all

lemma tree_height_0 [simp]: "tree_height t = 0 \<longleftrightarrow> t = NULL"
  by (cases t) (simp_all add: add_nonneg_eq_0_iff max_def)

lemma tree_height_pos: "0 < tree_height t \<longleftrightarrow> t \<noteq> NULL"
  using tree_height_nonneg [of t] tree_height_0 [of t] by linarith

lemma avl_node_cases [consumes 3, case_names left even right]:
  assumes "avl t" and "tree_height t = n" and "0 < n"
  obtains l e r where "t = AVTreeNode l e (- 1) r" "avl l" "avl r" "tree_height l = n - 1" "tree_height r = n - 2"
    | l e r where "t = AVTreeNode l e 0 r" "avl l" "avl r" "tree_height l = n - 1" "tree_height r = n - 1"
    | l e r where "t = AVTreeNode l e 1 r" "avl l" "avl r" "tree_height l = n - 2" "tree_height r = n - 1"
proof (cases t)
  case (AVTreeNode l e s r)
  then have a: "avl l" "avl r" "s = tree_height r - tree_height l" "\<bar>s\<bar> \<le> 1"
    using assms(1) unfolding AVTreeNode avl.simps by blast+
  have m: "1 + max (tree_height l) (tree_height r) = n" using assms(2) AVTreeNode by simp
  consider "s = - 1" | "s = 0" | "s = 1" using a(4) by linarith
  then show thesis
  proof cases
    case 1
    then show thesis using that(1) AVTreeNode a m by simp
  next
    case 2
    then show thesis using that(2) AVTreeNode a m by simp
  next
    case 3
    then show thesis using that(3) AVTreeNode a m by simp
  qed
qed (use assms in simp)

text \<open>The single and the double rotation, on both sides.\<close>

definition leans :: "'a avtree \<Rightarrow> 'a avtree \<Rightarrow> nat \<Rightarrow> bool" where
  "leans l r i \<longleftrightarrow> avl l \<and> avl r \<and>
     (if i = 0 then tree_height l = tree_height r + 2 else tree_height r = tree_height l + 2)"

lemma tree_rotate_single:
  assumes "i = 0 \<or> i = 1" and "leans l r i" and "state (child (AVTreeNode l e s r) i) * 2 \<noteq> - s" and "s = 4 * int i - 2"
  shows "\<exists>t'. tree_rotate_single (AVTreeNode l e s r) i = Some t' \<and> avl t' \<and> inorder t' = inorder l @ e # inorder r \<and>
    tree_height t' = max (tree_height l) (tree_height r) + (if state t' = 0 then 0 else 1)"
  using assms(1)
proof
  assume i: "i = 0"
  then have h: "avl l" "avl r" "tree_height l = tree_height r + 2" "s = - 2" using assms(2,4) by (auto simp: leans_def)
  have "0 < tree_height r + 2" using tree_height_nonneg [of r] by linarith
  with h(1,3) show ?thesis
    by (cases rule: avl_node_cases) (use assms(3) h(2,4) i in \<open>simp_all add: tree_rotate_single_def Let_def drop_bit_eq_div\<close>)
next
  assume i: "i = 1"
  then have h: "avl l" "avl r" "tree_height r = tree_height l + 2" "s = 2" using assms(2,4) by (auto simp: leans_def)
  have "0 < tree_height l + 2" using tree_height_nonneg [of l] by linarith
  with h(2,3) show ?thesis
    by (cases rule: avl_node_cases) (use assms(3) h(1,4) i in \<open>simp_all add: tree_rotate_single_def Let_def drop_bit_eq_div\<close>)
qed

lemma tree_rotate_double:
  assumes "i = 0 \<or> i = 1" and "leans l r i" and "state (child (AVTreeNode l e s r) i) * 2 = - s" and "s = 4 * int i - 2"
  shows "\<exists>t'. tree_rotate_double (AVTreeNode l e s r) i = Some t' \<and> avl t' \<and> inorder t' = inorder l @ e # inorder r \<and>
    state t' = 0 \<and> tree_height t' = max (tree_height l) (tree_height r)"
  using assms(1)
proof
  assume i: "i = 0"
  then have h: "avl l" "avl r" "tree_height l = tree_height r + 2" "s = - 2" using assms(2,4) by (auto simp: leans_def)
  have "0 < tree_height r + 2" using tree_height_nonneg [of r] by linarith
  with h(1,3) obtain ll le lr where l: "l = AVTreeNode ll le 1 lr" "avl ll" "avl lr"
    "tree_height ll = tree_height r" "tree_height lr = tree_height r + 1"
    by (cases rule: avl_node_cases) (use assms(3) h(2,4) i in simp_all)
  have "0 < tree_height r + 1" using tree_height_nonneg [of r] by linarith
  with l(3,5) show ?thesis
    by (cases rule: avl_node_cases) (use h(2,4) l(1,2,4) i in \<open>simp_all add: tree_rotate_double_def Let_def\<close>)
next
  assume i: "i = 1"
  then have h: "avl l" "avl r" "tree_height r = tree_height l + 2" "s = 2" using assms(2,4) by (auto simp: leans_def)
  have "0 < tree_height l + 2" using tree_height_nonneg [of l] by linarith
  with h(2,3) obtain rl re rr where r: "r = AVTreeNode rl re (- 1) rr" "avl rl" "avl rr"
    "tree_height rr = tree_height l" "tree_height rl = tree_height l + 1"
    by (cases rule: avl_node_cases) (use assms(3) h(1,4) i in simp_all)
  have "0 < tree_height l + 1" using tree_height_nonneg [of l] by linarith
  with r(2,5) show ?thesis
    by (cases rule: avl_node_cases) (use h(1,4) r(1,3,4) i in \<open>simp_all add: tree_rotate_double_def Let_def\<close>)
qed

text \<open>A tree whose children were in balance, after the side \<open>i\<close> became higher, or the other side lower, by
  one: it is in balance again, and the flag says whether the height is the old one.\<close>

lemma tree_rebalance:
  assumes i: "i = 0 \<or> i = 1" and avl: "avl l" "avl r"
    and s: "\<bar>s\<bar> \<le> 1" "tree_height r - tree_height l = s + 2 * int i - 1"
  shows "\<exists>t' stop. tree_rebalance (AVTreeNode l e s r) i removed = Some (t', stop) \<and> avl t' \<and>
    inorder t' = inorder l @ e # inorder r \<and>
    (stop \<longleftrightarrow> (state t' = 0) \<noteq> removed) \<and>
    tree_height t' = (if \<bar>tree_height r - tree_height l\<bar> \<le> 1 then 1 + max (tree_height l) (tree_height r)
      else max (tree_height l) (tree_height r) + (if state t' = 0 then 0 else 1)) \<and>
    (\<bar>tree_height r - tree_height l\<bar> \<le> 1 \<longrightarrow> state t' = tree_height r - tree_height l)"
proof -
  define d where "d = s + 2 * int i - 1"
  have r: "tree_rebalance (AVTreeNode l e s r) i removed =
      (case (if even d \<and> d \<noteq> 0
             then (if state (child (AVTreeNode l e d r) i) * 2 = - d then tree_rotate_double (AVTreeNode l e d r) i
                   else tree_rotate_single (AVTreeNode l e d r) i)
             else Some (AVTreeNode l e d r))
       of None \<Rightarrow> None | Some t \<Rightarrow> Some (t, (state t = 0) \<noteq> removed))"
    by (simp only: tree_rebalance_def Let_def set_state.simps state.simps d_def)
  have h: "tree_height r - tree_height l = d" using s(2) by (simp add: d_def)
  have "d = - 2 \<and> i = 0 \<or> d = - 1 \<or> d = 0 \<or> d = 1 \<or> d = 2 \<and> i = 1" using i s(1) by (auto simp: d_def)
  then consider (keep) "d = - 1 \<or> d = 0 \<or> d = 1" | (rotate) "d = 4 * int i - 2" "even d" "d \<noteq> 0" "\<not> \<bar>d\<bar> \<le> 1"
    by force
  then show ?thesis
  proof cases
    case keep
    then have k: "(even d \<and> d \<noteq> 0) = False" "\<bar>d\<bar> \<le> 1" by auto
    with avl h show ?thesis unfolding r k(1) by simp
  next
    case rotate
    have l: "leans l r i" using avl h rotate(1) i by (auto simp: leans_def)
    show ?thesis
    proof (cases "state (child (AVTreeNode l e d r) i) * 2 = - d")
      case True
      with tree_rotate_double [OF i l True rotate(1)] rotate show ?thesis unfolding r h by auto
    next
      case False
      with tree_rotate_single [OF i l False rotate(1)] rotate show ?thesis unfolding r h by auto
    qed
  qed
qed

text \<open>What the function does after the recursive call, for an insertion and for a removal. The recursive
  call gives \<open>None\<close> exactly when the height of the child has changed.\<close>

lemma tree_return_insert:
  assumes t: "avl (AVTreeNode l e s r)" and j: "j = 0 \<or> j = 1"
    and c: "avl c" "ret = None \<longleftrightarrow> tree_height c = tree_height (child (AVTreeNode l e s r) j) + 1"
      "ret \<noteq> None \<longrightarrow> tree_height c = tree_height (child (AVTreeNode l e s r) j)"
  shows "\<exists>t' ret'. tree_return (AVTreeNode l e s r) j key (Some (c, NULL, ret)) = Some (t', NULL, ret') \<and> avl t' \<and>
    inorder t' = (if j = 0 then inorder c @ e # inorder r else inorder l @ e # inorder c) \<and>
    (ret' = None \<longleftrightarrow> tree_height t' = tree_height (AVTreeNode l e s r) + 1) \<and>
    (ret' \<noteq> None \<longrightarrow> tree_height t' = tree_height (AVTreeNode l e s r)) \<and>
    (ret' \<noteq> None \<longrightarrow> ret' = ret \<or> ret' = Some key)"
proof (cases ret)
  case (Some x)
  then show ?thesis using t j c by (auto simp: tree_return_def)
next
  case None
  let ?l = "if j = 0 then c else l" and ?r = "if j = 0 then r else c"
  have a: "avl ?l" "avl ?r" "\<bar>s\<bar> \<le> 1" "tree_height ?r - tree_height ?l = s + 2 * int j - 1"
    using t j c None by auto
  from tree_rebalance [OF j a, of e False] obtain t' where
    t': "tree_rebalance (AVTreeNode ?l e s ?r) j False = Some (t', state t' = 0)" "avl t'"
    "inorder t' = inorder ?l @ e # inorder ?r"
    "tree_height t' = (if \<bar>tree_height ?r - tree_height ?l\<bar> \<le> 1 then 1 + max (tree_height ?l) (tree_height ?r)
      else max (tree_height ?l) (tree_height ?r) + (if state t' = 0 then 0 else 1))"
    "\<bar>tree_height ?r - tree_height ?l\<bar> \<le> 1 \<longrightarrow> state t' = tree_height ?r - tree_height ?l"
    by auto
  have "tree_height t' = tree_height (AVTreeNode l e s r) + (if state t' = 0 then 0 else 1)"
    using t'(4,5) t j c None by (auto simp: max_def split: if_splits)
  moreover have "set_child j c (AVTreeNode l e s r) = AVTreeNode ?l e s ?r" using j by auto
  ultimately show ?thesis
    using t'(1-3) None j by (auto simp: tree_return_def Let_def)
qed

lemma tree_return_remove:
  assumes t: "avl (AVTreeNode l e s r)" and j: "j = 0 \<or> j = 1"
    and c: "avl c" "ret = None \<longleftrightarrow> tree_height c = tree_height (child (AVTreeNode l e s r) j) - 1"
      "ret \<noteq> None \<longrightarrow> tree_height c = tree_height (child (AVTreeNode l e s r) j)"
    and nx: "ret = None \<longrightarrow> nx \<noteq> NULL"
  shows "\<exists>t' ret'. tree_return (AVTreeNode l e s r) j key (Some (c, nx, ret)) = Some (t', nx, ret') \<and> avl t' \<and>
    inorder t' = (if j = 0 then inorder c @ e # inorder r else inorder l @ e # inorder c) \<and>
    (ret' = None \<longleftrightarrow> tree_height t' = tree_height (AVTreeNode l e s r) - 1) \<and>
    (ret' \<noteq> None \<longrightarrow> tree_height t' = tree_height (AVTreeNode l e s r)) \<and>
    (ret' \<noteq> None \<longrightarrow> ret' = ret \<or> ret' = Some key)"
proof (cases ret)
  case (Some x)
  then show ?thesis using t j c by (auto simp: tree_return_def)
next
  case None
  let ?l = "if j = 0 then c else l" and ?r = "if j = 0 then r else c"
  have i: "1 - j = 0 \<or> 1 - j = 1" using j by auto
  have a: "avl ?l" "avl ?r" "\<bar>s\<bar> \<le> 1" "tree_height ?r - tree_height ?l = s + 2 * int (1 - j) - 1"
    using t j c None by auto
  from tree_rebalance [OF i a, of e True] obtain t' where
    t': "tree_rebalance (AVTreeNode ?l e s ?r) (1 - j) True = Some (t', state t' \<noteq> 0)" "avl t'"
    "inorder t' = inorder ?l @ e # inorder ?r"
    "tree_height t' = (if \<bar>tree_height ?r - tree_height ?l\<bar> \<le> 1 then 1 + max (tree_height ?l) (tree_height ?r)
      else max (tree_height ?l) (tree_height ?r) + (if state t' = 0 then 0 else 1))"
    "\<bar>tree_height ?r - tree_height ?l\<bar> \<le> 1 \<longrightarrow> state t' = tree_height ?r - tree_height ?l"
    by auto
  have "tree_height t' = tree_height (AVTreeNode l e s r) - (if state t' = 0 then 1 else 0)"
    using t'(4,5) t j c None by (auto simp: max_def split: if_splits)
  moreover have "set_child j c (AVTreeNode l e s r) = AVTreeNode ?l e s ?r" using j by auto
  ultimately show ?thesis
    using t'(1-3) None j nx by (auto simp: tree_return_def Let_def)
qed

section \<open>Search\<close>

text \<open>The elements by rank, and the contract of a comparison function: it orders the elements it is used on
  like their ranks.\<close>

definition tree_sorted :: "('a \<Rightarrow> 'k::linorder) \<Rightarrow> 'a avtree \<Rightarrow> bool" where
  "tree_sorted rank t \<longleftrightarrow> sorted_wrt (\<lambda>a b. rank a < rank b) (inorder t)"

definition smaller :: "('a \<Rightarrow> 'k::linorder) \<Rightarrow> 'k \<Rightarrow> 'a list \<Rightarrow> 'a list" where
  "smaller rank k xs = filter (\<lambda>x. rank x < k) xs"

definition larger :: "('a \<Rightarrow> 'k::linorder) \<Rightarrow> 'k \<Rightarrow> 'a list \<Rightarrow> 'a list" where
  "larger rank k xs = filter (\<lambda>x. k < rank x) xs"

definition others :: "('a \<Rightarrow> 'k::linorder) \<Rightarrow> 'k \<Rightarrow> 'a list \<Rightarrow> 'a list" where
  "others rank k xs = filter (\<lambda>x. rank x \<noteq> k) xs"

lemma tree_sorted_node:
  "tree_sorted rank (AVTreeNode l e s r) \<longleftrightarrow> tree_sorted rank l \<and> tree_sorted rank r \<and>
     (\<forall>x \<in> set (inorder l). rank x < rank e) \<and> (\<forall>x \<in> set (inorder r). rank e < rank x)"
  by (auto simp: tree_sorted_def sorted_wrt_append intro: less_trans)

lemma find_append: "find P (xs @ ys) = (case find P xs of None \<Rightarrow> find P ys | Some x \<Rightarrow> Some x)"
  by (induction xs) simp_all

text \<open>The three selections of a node, for a key on the left, on the right and at the node.\<close>

lemma select_left:
  assumes "tree_sorted rank (AVTreeNode l e s r)" and "k < rank e"
  shows "smaller rank k (inorder (AVTreeNode l e s r)) = smaller rank k (inorder l)"
    "larger rank k (inorder (AVTreeNode l e s r)) = larger rank k (inorder l) @ e # inorder r"
    "others rank k (inorder (AVTreeNode l e s r)) = others rank k (inorder l) @ e # inorder r"
    "find (\<lambda>x. rank x = k) (inorder (AVTreeNode l e s r)) = find (\<lambda>x. rank x = k) (inorder l)"
proof -
  have r: "\<forall>x \<in> set (inorder r). k < rank x" using assms by (auto simp: tree_sorted_node intro: less_trans)
  then have "find (\<lambda>x. rank x = k) (inorder r) = None" by (fastforce simp: find_None_iff)
  then show "find (\<lambda>x. rank x = k) (inorder (AVTreeNode l e s r)) = find (\<lambda>x. rank x = k) (inorder l)"
    using assms(2) by (auto simp: find_append split: option.splits)
  show "smaller rank k (inorder (AVTreeNode l e s r)) = smaller rank k (inorder l)"
    "larger rank k (inorder (AVTreeNode l e s r)) = larger rank k (inorder l) @ e # inorder r"
    "others rank k (inorder (AVTreeNode l e s r)) = others rank k (inorder l) @ e # inorder r"
    using r assms(2) by (fastforce simp: smaller_def larger_def others_def filter_empty_conv filter_id_conv)+
qed

lemma select_right:
  assumes "tree_sorted rank (AVTreeNode l e s r)" and "rank e < k"
  shows "smaller rank k (inorder (AVTreeNode l e s r)) = inorder l @ e # smaller rank k (inorder r)"
    "larger rank k (inorder (AVTreeNode l e s r)) = larger rank k (inorder r)"
    "others rank k (inorder (AVTreeNode l e s r)) = inorder l @ e # others rank k (inorder r)"
    "find (\<lambda>x. rank x = k) (inorder (AVTreeNode l e s r)) = find (\<lambda>x. rank x = k) (inorder r)"
proof -
  have l: "\<forall>x \<in> set (inorder l). rank x < k" using assms by (auto simp: tree_sorted_node intro: less_trans)
  then have "find (\<lambda>x. rank x = k) (inorder l) = None" by (fastforce simp: find_None_iff)
  then show "find (\<lambda>x. rank x = k) (inorder (AVTreeNode l e s r)) = find (\<lambda>x. rank x = k) (inorder r)"
    using assms(2) by (auto simp: find_append)
  show "smaller rank k (inorder (AVTreeNode l e s r)) = inorder l @ e # smaller rank k (inorder r)"
    "larger rank k (inorder (AVTreeNode l e s r)) = larger rank k (inorder r)"
    "others rank k (inorder (AVTreeNode l e s r)) = inorder l @ e # others rank k (inorder r)"
    using l assms(2) by (fastforce simp: smaller_def larger_def others_def filter_empty_conv filter_id_conv)+
qed

lemma select_here:
  assumes "tree_sorted rank (AVTreeNode l e s r)"
  shows "smaller rank (rank e) (inorder (AVTreeNode l e s r)) = inorder l"
    "larger rank (rank e) (inorder (AVTreeNode l e s r)) = inorder r"
    "others rank (rank e) (inorder (AVTreeNode l e s r)) = inorder l @ inorder r"
    "find (\<lambda>x. rank x = rank e) (inorder (AVTreeNode l e s r)) = Some e"
    "smaller rank (rank e) (inorder l) = inorder l" "larger rank (rank e) (inorder l) = []"
    "smaller rank (rank e) (inorder r) = []" "larger rank (rank e) (inorder r) = inorder r"
proof -
  have l: "\<forall>x \<in> set (inorder l). rank x < rank e" and r: "\<forall>x \<in> set (inorder r). rank e < rank x"
    using assms by (auto simp: tree_sorted_node)
  have "find (\<lambda>x. rank x = rank e) (inorder l) = None" using l by (fastforce simp: find_None_iff)
  then show "find (\<lambda>x. rank x = rank e) (inorder (AVTreeNode l e s r)) = Some e"
    by (simp add: find_append)
  show "smaller rank (rank e) (inorder l) = inorder l" "larger rank (rank e) (inorder l) = []"
    "smaller rank (rank e) (inorder r) = []" "larger rank (rank e) (inorder r) = inorder r"
    using l r by (fastforce simp: smaller_def larger_def filter_empty_conv filter_id_conv)+
  then show "smaller rank (rank e) (inorder (AVTreeNode l e s r)) = inorder l"
    "larger rank (rank e) (inorder (AVTreeNode l e s r)) = inorder r"
    by (simp_all add: smaller_def larger_def)
  have "filter (\<lambda>x. rank x \<noteq> rank e) (inorder l) = inorder l" "filter (\<lambda>x. rank x \<noteq> rank e) (inorder r) = inorder r"
    using l r by (auto simp: filter_id_conv)
  then show "others rank (rank e) (inorder (AVTreeNode l e s r)) = inorder l @ inorder r"
    by (simp add: others_def)
qed

text \<open>\<open>next\<close> after a search: the last smaller and the first greater element, where there is one.\<close>

definition neighbours :: "'a list \<Rightarrow> 'a list \<Rightarrow> 'a option \<times> 'a option \<Rightarrow> 'a option \<times> 'a option" where
  "neighbours bs as nx =
     (if bs = [] then fst nx else Some (last bs), if as = [] then snd nx else Some (hd as))"

lemma neighbours_set:
  "neighbours bs as (set_next 1 e nx) = neighbours bs (as @ e # zs) nx"
  "neighbours bs as (set_next 0 e nx) = neighbours (ys @ e # bs) as nx"
  by (cases nx; simp add: neighbours_def)+

definition tree_ok :: "('a \<Rightarrow> 'k::linorder) \<Rightarrow> ('a \<Rightarrow> bool) \<Rightarrow> 'a avtree \<Rightarrow> bool" where
  "tree_ok rank ok t \<longleftrightarrow> avl t \<and> tree_sorted rank t \<and> (\<forall>x \<in> set (inorder t). ok x)"

lemma tree_ok_node:
  assumes "tree_ok rank ok (AVTreeNode l e s r)"
  shows "tree_ok rank ok l" "tree_ok rank ok r" "ok e" "tree_sorted rank (AVTreeNode l e s r)" "avl (AVTreeNode l e s r)"
  using assms by (auto simp: tree_ok_def tree_sorted_node)

lemma tree_ok_inorder:
  assumes "tree_ok rank ok t" and "avl t'" and "inorder t' = others rank k (inorder t)"
  shows "tree_ok rank ok t'"
  using assms by (auto simp: tree_ok_def tree_sorted_def others_def sorted_wrt_filter)

lemma tree_ok_inserted:
  assumes "tree_ok rank ok t" and "avl t'" and "ok key"
    and "inorder t' = smaller rank (rank key) (inorder t) @ key # larger rank (rank key) (inorder t)"
  shows "tree_ok rank ok t'"
  using assms by (auto simp: tree_ok_def tree_sorted_def smaller_def larger_def sorted_wrt_filter sorted_wrt_append
      intro: less_trans)

text \<open>In a sorted list every element but the last has another rank than the last, and every element but the
  first another rank than the first.\<close>

lemma others_ends:
  assumes "sorted_wrt (\<lambda>a b. rank a < rank b) xs" and "xs \<noteq> []"
  shows "others rank (rank (last xs)) xs @ [last xs] = xs" "hd xs # others rank (rank (hd xs)) xs = xs"
proof -
  obtain ys y where xs: "xs = ys @ [y]" using assms(2) by (cases xs rule: rev_cases) auto
  then show "others rank (rank (last xs)) xs @ [last xs] = xs"
    using assms(1) by (fastforce simp: others_def sorted_wrt_append filter_id_conv)
  obtain z zs where "xs = z # zs" using assms(2) by (cases xs) auto
  then show "hd xs # others rank (rank (hd xs)) xs = xs"
    using assms(1) by (fastforce simp: others_def filter_id_conv)
qed

locale tree_order =
  fixes cmp :: "'a \<Rightarrow> 'a \<Rightarrow> int"
    and rank :: "'a \<Rightarrow> 'k::linorder"
    and ok :: "'a \<Rightarrow> bool"
  assumes cmp_less: "ok a \<Longrightarrow> ok b \<Longrightarrow> cmp a b < 0 \<longleftrightarrow> rank a < rank b"
    and cmp_eq: "ok a \<Longrightarrow> ok b \<Longrightarrow> cmp a b = 0 \<longleftrightarrow> rank a = rank b"
begin

lemma find_next:
  "tree_ok rank ok t \<Longrightarrow> ok key \<Longrightarrow>
   av_tree_find_next t key cmp nx =
     (find (\<lambda>x. rank x = rank key) (inorder t),
      neighbours (smaller rank (rank key) (inorder t)) (larger rank (rank key) (inorder t)) nx)"
proof (induction t arbitrary: nx)
  case NULL
  then show ?case by (cases nx) (simp add: neighbours_def smaller_def larger_def)
next
  case (AVTreeNode l e s r)
  note n = tree_ok_node [OF AVTreeNode.prems(1)]
  note IH = AVTreeNode.IH(1) [OF n(1) AVTreeNode.prems(2)] AVTreeNode.IH(2) [OF n(2) AVTreeNode.prems(2)]
  note c = cmp_less [OF AVTreeNode.prems(2) n(3)] cmp_eq [OF AVTreeNode.prems(2) n(3)]
  consider "rank key < rank e" | "rank e < rank key" | "rank key = rank e" by (rule linorder_cases)
  then show ?case
  proof cases
    case 1
    then show ?thesis
      using c select_left [OF n(4) 1] IH(1) neighbours_set(1) [of _ _ e nx "inorder r"] by (simp add: sign_bit_def)
  next
    case 2
    then have "\<not> cmp key e < 0" "cmp key e \<noteq> 0" using c by auto
    then show ?thesis
      using select_right [OF n(4) 2] IH(2) neighbours_set(2) [of _ _ e nx "inorder l"] by (simp add: sign_bit_def)
  next
    case 3
    then have "cmp key e = 0" using c by auto
    then show ?thesis
      using select_here [OF n(4)] IH 3 by (simp add: neighbours_def)
  qed
qed

lemma find_is_next: "av_tree_find t key cmp = fst (av_tree_find_next t key cmp nx)"
  by (induction t arbitrary: nx) (simp_all add: Let_def)

lemma insert_found:
  assumes "tree_ok rank ok t" and "ok key" and "find (\<lambda>x. rank x = rank key) (inorder t) = Some x" and "nx \<noteq> NULL"
  shows "av_tree_insert t key cmp nx = Some (t, nx, Some x)"
  using assms
proof (induction t)
  case (AVTreeNode l e s r)
  note n = tree_ok_node [OF AVTreeNode.prems(1)]
  note c = cmp_less [OF n(3) AVTreeNode.prems(2)] cmp_eq [OF n(3) AVTreeNode.prems(2)]
  consider "rank key < rank e" | "rank e < rank key" | "rank key = rank e" by (rule linorder_cases)
  then show ?case
  proof cases
    case 1
    then have "\<not> cmp e key < 0" "cmp e key \<noteq> 0" using c by auto
    moreover have "av_tree_insert l key cmp nx = Some (l, nx, Some x)"
      using AVTreeNode.IH(1) [OF n(1)] AVTreeNode.prems select_left(4) [OF n(4) 1] by simp
    ultimately show ?thesis by (simp add: sign_bit_def tree_return_def Let_def)
  next
    case 2
    then have "cmp e key < 0" using c by auto
    moreover have "av_tree_insert r key cmp nx = Some (r, nx, Some x)"
      using AVTreeNode.IH(2) [OF n(2)] AVTreeNode.prems select_right(4) [OF n(4) 2] by simp
    ultimately show ?thesis by (simp add: sign_bit_def tree_return_def Let_def)
  next
    case 3
    then have "cmp e key = 0" using c by auto
    moreover have "x = e" using AVTreeNode.prems(3) select_here(4) [OF n(4)] 3 by simp
    ultimately show ?thesis using AVTreeNode.prems(4) by simp
  qed
qed simp

lemma insert_new:
  assumes "tree_ok rank ok t" and "ok key" and "find (\<lambda>x. rank x = rank key) (inorder t) = None"
  shows "\<exists>t' ret. av_tree_insert t key cmp (AVTreeNode NULL z 0 NULL) = Some (t', NULL, ret) \<and> avl t' \<and>
    inorder t' = smaller rank (rank key) (inorder t) @ key # larger rank (rank key) (inorder t) \<and>
    (ret = None \<longleftrightarrow> tree_height t' = tree_height t + 1) \<and> (ret \<noteq> None \<longrightarrow> tree_height t' = tree_height t) \<and>
    (ret \<noteq> None \<longrightarrow> ret = Some key)"
  using assms
proof (induction t)
  case NULL
  then show ?case by (simp add: smaller_def larger_def)
next
  case (AVTreeNode l e s r)
  note n = tree_ok_node [OF AVTreeNode.prems(1)]
  note c = cmp_less [OF n(3) AVTreeNode.prems(2)] cmp_eq [OF n(3) AVTreeNode.prems(2)]
  consider "rank key < rank e" | "rank e < rank key" | "rank key = rank e" by (rule linorder_cases)
  then show ?case
  proof cases
    case 1
    then have v: "cmp e key \<noteq> 0" "sign_bit (cmp e key) = 0" using c by (auto simp: sign_bit_def)
    obtain c' ret where c': "av_tree_insert l key cmp (AVTreeNode NULL z 0 NULL) = Some (c', NULL, ret)" "avl c'"
      "inorder c' = smaller rank (rank key) (inorder l) @ key # larger rank (rank key) (inorder l)"
      "ret = None \<longleftrightarrow> tree_height c' = tree_height l + 1" "ret \<noteq> None \<longrightarrow> tree_height c' = tree_height l"
      "ret \<noteq> None \<longrightarrow> ret = Some key"
      using AVTreeNode.IH(1) [OF n(1) AVTreeNode.prems(2)] AVTreeNode.prems(3) select_left(4) [OF n(4) 1] by auto
    from tree_return_insert [OF n(5), of 0 c' ret key] c' v select_left [OF n(4) 1] show ?thesis by fastforce
  next
    case 2
    then have v: "cmp e key \<noteq> 0" "sign_bit (cmp e key) = 1" using c by (auto simp: sign_bit_def)
    obtain c' ret where c': "av_tree_insert r key cmp (AVTreeNode NULL z 0 NULL) = Some (c', NULL, ret)" "avl c'"
      "inorder c' = smaller rank (rank key) (inorder r) @ key # larger rank (rank key) (inorder r)"
      "ret = None \<longleftrightarrow> tree_height c' = tree_height r + 1" "ret \<noteq> None \<longrightarrow> tree_height c' = tree_height r"
      "ret \<noteq> None \<longrightarrow> ret = Some key"
      using AVTreeNode.IH(2) [OF n(2) AVTreeNode.prems(2)] AVTreeNode.prems(3) select_right(4) [OF n(4) 2] by auto
    from tree_return_insert [OF n(5), of 1 c' ret key] c' v select_right [OF n(4) 2] show ?thesis by fastforce
  next
    case 3
    then show ?thesis using AVTreeNode.prems(3) select_here(4) [OF n(4)] by simp
  qed
qed

text \<open>A removal that does not find the key leaves the tree; one that does gives the removed node.\<close>

lemma remove_absent:
  assumes "tree_ok rank ok t" and "ok key" and "find (\<lambda>x. rank x = rank key) (inorder t) = None"
  shows "av_tree_insert t key cmp NULL = Some (t, NULL, Some key)"
  using assms
proof (induction t)
  case (AVTreeNode l e s r)
  note n = tree_ok_node [OF AVTreeNode.prems(1)]
  note c = cmp_less [OF n(3) AVTreeNode.prems(2)] cmp_eq [OF n(3) AVTreeNode.prems(2)]
  consider "rank key < rank e" | "rank e < rank key" | "rank key = rank e" by (rule linorder_cases)
  then show ?case
  proof cases
    case 1
    then have "\<not> cmp e key < 0" "cmp e key \<noteq> 0" using c by auto
    moreover have "av_tree_insert l key cmp NULL = Some (l, NULL, Some key)"
      using AVTreeNode.IH(1) [OF n(1)] AVTreeNode.prems select_left(4) [OF n(4) 1] by simp
    ultimately show ?thesis by (simp add: sign_bit_def tree_return_def Let_def)
  next
    case 2
    then have "cmp e key < 0" using c by auto
    moreover have "av_tree_insert r key cmp NULL = Some (r, NULL, Some key)"
      using AVTreeNode.IH(2) [OF n(2)] AVTreeNode.prems select_right(4) [OF n(4) 2] by simp
    ultimately show ?thesis by (simp add: sign_bit_def tree_return_def Let_def)
  next
    case 3
    then show ?thesis using AVTreeNode.prems(3) select_here(4) [OF n(4)] by simp
  qed
qed simp

definition removes :: "'a avtree \<Rightarrow> 'a \<Rightarrow> bool" where
  "removes t key \<longleftrightarrow> (\<exists>t' nx ret. av_tree_insert t key cmp NULL = Some (t', nx, ret) \<and> nx \<noteq> NULL \<and> avl t' \<and>
     inorder t' = others rank (rank key) (inorder t) \<and>
     (ret = None \<longleftrightarrow> tree_height t' = tree_height t - 1) \<and> (ret \<noteq> None \<longrightarrow> tree_height t' = tree_height t))"

lemma removes_left:
  assumes "avl (AVTreeNode l e s r)" and "removes l k"
  shows "\<exists>t' nx ret. tree_return (AVTreeNode l e s r) 0 k (av_tree_insert l k cmp NULL) = Some (t', nx, ret) \<and>
    nx \<noteq> NULL \<and> avl t' \<and> inorder t' = others rank (rank k) (inorder l) @ e # inorder r \<and>
    (ret = None \<longleftrightarrow> tree_height t' = tree_height (AVTreeNode l e s r) - 1) \<and>
    (ret \<noteq> None \<longrightarrow> tree_height t' = tree_height (AVTreeNode l e s r))"
proof -
  from assms(2) obtain c' nx ret where c': "av_tree_insert l k cmp NULL = Some (c', nx, ret)" "nx \<noteq> NULL" "avl c'"
    "inorder c' = others rank (rank k) (inorder l)" "ret = None \<longleftrightarrow> tree_height c' = tree_height l - 1"
    "ret \<noteq> None \<longrightarrow> tree_height c' = tree_height l" unfolding removes_def by blast
  from tree_return_remove [OF assms(1), of 0 c' ret nx k] c' show ?thesis by fastforce
qed

lemma removes_right:
  assumes "avl (AVTreeNode l e s r)" and "removes r k"
  shows "\<exists>t' nx ret. tree_return (AVTreeNode l e s r) 1 k (av_tree_insert r k cmp NULL) = Some (t', nx, ret) \<and>
    nx \<noteq> NULL \<and> avl t' \<and> inorder t' = inorder l @ e # others rank (rank k) (inorder r) \<and>
    (ret = None \<longleftrightarrow> tree_height t' = tree_height (AVTreeNode l e s r) - 1) \<and>
    (ret \<noteq> None \<longrightarrow> tree_height t' = tree_height (AVTreeNode l e s r))"
proof -
  from assms(2) obtain c' nx ret where c': "av_tree_insert r k cmp NULL = Some (c', nx, ret)" "nx \<noteq> NULL" "avl c'"
    "inorder c' = others rank (rank k) (inorder r)" "ret = None \<longleftrightarrow> tree_height c' = tree_height r - 1"
    "ret \<noteq> None \<longrightarrow> tree_height c' = tree_height r" unfolding removes_def by blast
  from tree_return_remove [OF assms(1), of 1 c' ret nx k] c' show ?thesis by fastforce
qed

lemma inorder_Nil [simp]: "inorder t = [] \<longleftrightarrow> t = NULL"
  by (cases t) simp_all

lemma find_ends:
  assumes "tree_sorted rank t" and "t \<noteq> NULL"
  shows "find (\<lambda>x. rank x = rank (last (inorder t))) (inorder t) \<noteq> None"
    "find (\<lambda>x. rank x = rank (hd (inorder t))) (inorder t) \<noteq> None"
proof -
  have "last (inorder t) \<in> set (inorder t)" "hd (inorder t) \<in> set (inorder t)" using assms(2) by simp_all
  then show "find (\<lambda>x. rank x = rank (last (inorder t))) (inorder t) \<noteq> None"
    "find (\<lambda>x. rank x = rank (hd (inorder t))) (inorder t) \<noteq> None"
    unfolding find_None_iff by blast+
qed

lemma remove_present:
  assumes "tree_ok rank ok t" and "ok key" and "find (\<lambda>x. rank x = rank key) (inorder t) \<noteq> None"
  shows "removes t key"
  using assms
proof (induction t arbitrary: key)
  case (AVTreeNode l e s r)
  note n = tree_ok_node [OF AVTreeNode.prems(1)]
  note c = cmp_less [OF n(3) AVTreeNode.prems(2)] cmp_eq [OF n(3) AVTreeNode.prems(2)]
  consider "rank key < rank e" | "rank e < rank key" | "rank key = rank e" by (rule linorder_cases)
  then show ?case
  proof cases
    case 1
    then have v: "cmp e key \<noteq> 0" "sign_bit (cmp e key) = 0" using c by (auto simp: sign_bit_def)
    have "removes l key" using AVTreeNode.IH(1) [OF n(1)] AVTreeNode.prems select_left(4) [OF n(4) 1] by simp
    from removes_left [OF n(5) this] show ?thesis
      using v select_left(3) [OF n(4) 1] by (simp add: removes_def)
  next
    case 2
    then have v: "cmp e key \<noteq> 0" "sign_bit (cmp e key) = 1" using c by (auto simp: sign_bit_def)
    have "removes r key" using AVTreeNode.IH(2) [OF n(2)] AVTreeNode.prems select_right(4) [OF n(4) 2] by simp
    from removes_right [OF n(5) this] show ?thesis
      using v select_right(3) [OF n(4) 2] by (simp add: removes_def)
  next
    case 3
    then have v: "cmp e key = 0" using c by auto
    have o: "others rank (rank key) (inorder (AVTreeNode l e s r)) = inorder l @ inorder r"
      using select_here(3) [OF n(4)] 3 by simp
    note sel = select_here(5-8) [OF n(4)]
    consider (leaf) "l = NULL" "r = NULL" | (pred) "l \<noteq> NULL" | (succ) "l = NULL" "r \<noteq> NULL" by blast
    then show ?thesis
    proof cases
      case leaf
      then show ?thesis using v 3 by (simp add: removes_def others_def)
    next
      case pred
      let ?p = "last (inorder l)"
      have p: "?p \<in> set (inorder l)" using pred by simp
      then have "ok ?p" using n(1) by (auto simp: tree_ok_def)
      then have rm: "removes l ?p" using AVTreeNode.IH(1) [OF n(1)] find_ends(1) [OF _ pred] n(1) by (simp add: tree_ok_def)
      have a: "avl (AVTreeNode l ?p s r)" using n(5) unfolding avl.simps by blast
      have q: "others rank (rank ?p) (inorder l) @ ?p # inorder r = inorder l @ inorder r"
        using others_ends(1) [of rank "inorder l"] n(1) pred
        by (metis append.assoc append_Cons append_Nil inorder_Nil tree_ok_def tree_sorted_def)
      have "fst (snd (av_tree_find_next l key cmp (None, None))) = Some ?p"
        using find_next [OF n(1) AVTreeNode.prems(2)] sel 3 pred by (simp add: neighbours_def)
      with removes_left [OF a rm] show ?thesis
        unfolding q using v pred o by (simp add: removes_def)
    next
      case succ
      let ?p = "hd (inorder r)"
      have p: "?p \<in> set (inorder r)" using succ by simp
      then have "ok ?p" using n(2) by (auto simp: tree_ok_def)
      then have rm: "removes r ?p" using AVTreeNode.IH(2) [OF n(2)] find_ends(2) [OF _ succ(2)] n(2) by (simp add: tree_ok_def)
      have a: "avl (AVTreeNode l ?p s r)" using n(5) unfolding avl.simps by blast
      have q: "inorder l @ ?p # others rank (rank ?p) (inorder r) = inorder l @ inorder r"
        using others_ends(2) [of rank "inorder r"] n(2) succ(2) by (simp add: tree_ok_def tree_sorted_def)
      have "snd (snd (av_tree_find_next r key cmp (None, None))) = Some ?p"
        using find_next [OF n(2) AVTreeNode.prems(2)] sel 3 succ by (simp add: neighbours_def)
      with removes_right [OF a rm] show ?thesis
        unfolding q using v succ o by (simp add: removes_def)
    qed
  qed
qed simp

end

section \<open>The height\<close>

text \<open>A tree of height \<open>h\<close> has at least \<open>2 ^ (h div 2) - 1\<close> elements: the paths are logarithmic.\<close>

lemma avl_size: "avl t \<Longrightarrow> 2 ^ (nat (tree_height t) div 2) \<le> length (inorder t) + 1"
proof (induction t)
  case (AVTreeNode l e s r)
  let ?n = "\<lambda>t. nat (tree_height t)"
  have ih: "2 ^ (?n l div 2) \<le> length (inorder l) + 1" "2 ^ (?n r div 2) \<le> length (inorder r) + 1"
    using AVTreeNode by simp_all
  have "\<bar>tree_height r - tree_height l\<bar> \<le> 1" using AVTreeNode.prems unfolding avl.simps by auto
  then have h: "?n (AVTreeNode l e s r) \<le> ?n l + 2" "?n (AVTreeNode l e s r) \<le> ?n r + 2"
    using tree_height_nonneg [of l] tree_height_nonneg [of r] by auto
  have "(2 :: nat) ^ (?n (AVTreeNode l e s r) div 2) \<le> 2 * 2 ^ (?n l div 2)"
    using h(1) power_increasing [of "?n (AVTreeNode l e s r) div 2" "Suc (?n l div 2)" "2 :: nat"] by simp
  moreover have "(2 :: nat) ^ (?n (AVTreeNode l e s r) div 2) \<le> 2 * 2 ^ (?n r div 2)"
    using h(2) power_increasing [of "?n (AVTreeNode l e s r) div 2" "Suc (?n r div 2)" "2 :: nat"] by simp
  ultimately show ?case using ih by simp
qed simp

section \<open>The properties\<close>


text \<open>C23: \<open>av_tree_find\<close> returns the element that compares equal, if there is one, and stores the last smaller
  and the first greater element in \<open>next\<close>, leaving an entry alone when there is none.\<close>

theorem av_tree_find_correct:
  assumes "tree_order cmp rank ok" and "tree_ok rank ok t" and "ok key"
  shows "av_tree_find_next t key cmp nx =
      (find (\<lambda>x. rank x = rank key) (inorder t),
       neighbours (smaller rank (rank key) (inorder t)) (larger rank (rank key) (inorder t)) nx) \<and>
    av_tree_find t key cmp = find (\<lambda>x. rank x = rank key) (inorder t)"
  using tree_order.find_next [OF assms, of nx] tree_order.find_is_next [OF assms(1), of t key nx] by simp

text \<open>The header says that a removal returns the key or \<open>NULL\<close>. When the removed element has a child, the code
  goes on with the element that takes its place, and may return that one.\<close>

lemma av_tree_insert_returns_other:
  "av_tree_insert (AVTreeNode (AVTreeNode NULL 1 0 NULL) 2 0 (AVTreeNode NULL 3 0 NULL)) (2 :: int) (\<lambda>a b. a - b) NULL =
     Some (AVTreeNode NULL 1 1 (AVTreeNode NULL 3 0 NULL), AVTreeNode NULL 1 0 NULL, Some 1)"
  by (simp add: sign_bit_def tree_return_def tree_rebalance_def Let_def)

end
