(* ===== verification/AvNut.thy ===== *)
theory AvNut imports AvTree AvRational
begin

text \<open>
  The timestamps and synchronisation points of the NUT container, \<open>libavformat/nut.c\<close> with \<open>nut.h\<close>, and
  the loop of \<open>libavformat/nutenc.c\<close> that writes the positions of the index. The synchronisation points are
  kept in the tree of \<open>AvTree\<close>, ordered by position; the comparison function is shown to be such an order
  for positions below \<open>2 ^ 62\<close>.
\<close>

section \<open>The code\<close>

record Syncpoint =
  sp_pos :: u64
  sp_back_ptr :: u64
  sp_ts :: int

text \<open>Signed 64-bit differences are reduced where they may leave the type; the result is an \<open>int\<close>.\<close>

definition ff_nut_sp_pos_cmp :: "Syncpoint \<Rightarrow> Syncpoint \<Rightarrow> int" where
  "ff_nut_sp_pos_cmp va vb =
     s32 (uint (shr (sp_pos va - sp_pos vb) 32 - shr (sp_pos vb - sp_pos va) 32))"

definition ff_nut_sp_pts_cmp :: "Syncpoint \<Rightarrow> Syncpoint \<Rightarrow> int" where
  "ff_nut_sp_pts_cmp va vb =
     s32 (drop_bit 32 (s64 (sp_ts va - sp_ts vb)) - drop_bit 32 (s64 (sp_ts vb - sp_ts va)))"

record NUTContext =
  nut_syncpoints :: "Syncpoint avtree"
  nut_sp_count :: int

text \<open>The two allocations are parameters. The result is the return value and the context.\<close>

definition null_syncpoint :: Syncpoint where
  "null_syncpoint = \<lparr>sp_pos = 0, sp_back_ptr = 0, sp_ts = 0\<rparr>"

definition ff_nut_add_sp ::
  "bool \<Rightarrow> bool \<Rightarrow> NUTContext \<Rightarrow> int \<Rightarrow> int \<Rightarrow> int \<Rightarrow> ((averror + unit) \<times> NUTContext) option" where
  "ff_nut_add_sp sp_ok node_ok nut pos back_ptr ts =
     (if \<not> sp_ok \<or> \<not> node_ok then Some (Inl ENOMEM, nut)
      else
        let nut = nut\<lparr>nut_sp_count := nut_sp_count nut + 1\<rparr>;
            sp = \<lparr>sp_pos = word_of_int pos, sp_back_ptr = word_of_int back_ptr, sp_ts = ts\<rparr>
        in case av_tree_insert (nut_syncpoints nut) sp ff_nut_sp_pos_cmp (av_tree_node_alloc null_syncpoint) of
             None \<Rightarrow> None
           | Some (t, node, ret) \<Rightarrow> Some (Inr (), nut\<lparr>nut_syncpoints := t\<rparr>))"

text \<open>\<open>ff_nut_free_sp\<close>: the synchronisation points that are freed.\<close>

definition ff_nut_free_sp :: "NUTContext \<Rightarrow> Syncpoint list" where
  "ff_nut_free_sp nut =
     (if nut_syncpoints nut \<noteq> NULL then av_tree_enumerate (nut_syncpoints nut) None else [])"

text \<open>The loop of \<open>write_index\<close> over the synchronisation points: the values passed to \<open>put_v\<close>, with \<open>dummy\<close> and
  \<open>next_node\<close> as its state. It has no result when \<open>next_node[1]\<close> is still \<open>NULL\<close>.\<close>

fun write_index_positions ::
  "Syncpoint avtree \<Rightarrow> nat \<Rightarrow> Syncpoint \<Rightarrow> Syncpoint option \<times> Syncpoint option \<Rightarrow> u64 list option" where
  "write_index_positions t 0 dummy next_node = Some []"
| "write_index_positions t (Suc n) dummy next_node =
     (let next_node = snd (av_tree_find_next t dummy ff_nut_sp_pos_cmp next_node)
      in case snd next_node of
           None \<Rightarrow> None
         | Some sp \<Rightarrow>
             map_option (\<lambda>vs. (shr (sp_pos sp) 4 - shr (sp_pos dummy) 4) # vs)
               (write_index_positions t n (dummy\<lparr>sp_pos := sp_pos sp\<rparr>) next_node))"

definition write_index_syncpoints :: "NUTContext \<Rightarrow> u64 list option" where
  "write_index_syncpoints nut =
     write_index_positions (nut_syncpoints nut) (nat (nut_sp_count nut)) null_syncpoint (None, None)"

text \<open>Timestamps: of every stream, the full value of a timestamp that is coded by its low bits, and the reset
  of the last timestamp.\<close>

record StreamContext =
  st_last_pts :: int
  st_time_base :: AVRational
  st_msb_pts_shift :: nat

definition ff_lsb2full :: "StreamContext \<Rightarrow> int \<Rightarrow> int" where
  "ff_lsb2full stream lsb =
     (let mask = s64 (2 ^ st_msb_pts_shift stream - 1);
          delta = s64 (st_last_pts stream - mask div 2)
      in s64 ((s64 (lsb - delta) AND mask) + delta))"

definition ff_nut_reset_ts :: "StreamContext list \<Rightarrow> AVRational \<Rightarrow> int \<Rightarrow> StreamContext list" where
  "ff_nut_reset_ts streams time_base val =
     map (\<lambda>st. st\<lparr>st_last_pts :=
       av_rescale_rnd val (s64 (q_num time_base * q_den (st_time_base st))) (s64 (q_den time_base * q_num (st_time_base st)))
         AV_ROUND_DOWN\<rparr>) streams"

section \<open>The comparison is an order\<close>

lemma s32_mod32:
  assumes "x mod 2 ^ 32 = y mod 2 ^ 32"
  shows "s32 x = s32 y"
proof -
  have "s32 z = signed_take_bit 31 (take_bit 32 z)" for z
    by (simp add: s32_def signed_take_bit_take_bit)
  then show ?thesis using assms by (simp add: take_bit_eq_mod)
qed

text \<open>For \<open>0 < d < 2 ^ 62\<close> the two shifted differences are \<open>q\<close> and \<open>2 ^ 32 - c\<close>, the quotients of \<open>d\<close> rounded
  down and up.\<close>

lemma shifted_differences:
  fixes d :: int
  assumes "0 < d" "d < 4611686018427387904"
  obtains q c where "(d mod 18446744073709551616) div 4294967296 = q"
    "((- d) mod 18446744073709551616) div 4294967296 = 4294967296 - c"
    "0 \<le> q" "q < 1073741824" "0 < c" "c \<le> 1073741824"
proof -
  define q where "q = d div 4294967296"
  define r where "r = d mod 4294967296"
  have d: "d = q * 4294967296 + r" "0 \<le> r" "r < 4294967296" by (simp_all add: q_def r_def)
  then have q: "0 \<le> q" "q < 1073741824" using assms by linarith+
  have m: "d mod 18446744073709551616 = d" using assms by (intro mod_pos_pos_trivial) linarith+
  have "d \<noteq> 0" using assms(1) by simp
  then have n: "(- d) mod 18446744073709551616 = 18446744073709551616 - d"
    using zmod_zminus1_eq_if [of d 18446744073709551616] unfolding m by (simp only: if_False)
  have a: "(d mod 18446744073709551616) div 4294967296 = q" by (simp only: m q_def)
  show thesis
  proof (cases "r = 0")
    case True
    have "(18446744073709551616 - d) div 4294967296 = 4294967296 - q"
      by (rule int_div_pos_eq [where r = 0]) (use d True in \<open>simp_all add: algebra_simps\<close>)
    then have "((- d) mod 18446744073709551616) div 4294967296 = 4294967296 - q" by (simp only: n)
    moreover have "0 < q" using d True assms(1) by linarith
    ultimately show thesis using q a by (intro that [of q q]) linarith+
  next
    case False
    have "(18446744073709551616 - d) div 4294967296 = 4294967296 - (q + 1)"
      by (rule int_div_pos_eq [where r = "4294967296 - r"]) (use d False in \<open>simp_all add: algebra_simps\<close>)
    then have "((- d) mod 18446744073709551616) div 4294967296 = 4294967296 - (q + 1)" by (simp only: n)
    then show thesis using q a by (intro that [of q "q + 1"]) linarith+
  qed
qed

lemma pos_cmp_differences:
  "ff_nut_sp_pos_cmp va vb =
     s32 (((uint (sp_pos va) - uint (sp_pos vb)) mod 18446744073709551616) div 4294967296 -
          ((uint (sp_pos vb) - uint (sp_pos va)) mod 18446744073709551616) div 4294967296)"
proof -
  have u: "uint (shr (x - y) 32) = ((uint x - uint y) mod 18446744073709551616) div 4294967296" for x y :: u64
    by (simp add: drop_bit_eq_div uint_word_ariths(2) unsigned_drop_bit_eq uint_div_distrib)
  have m: "(z mod 18446744073709551616) mod 2 ^ 32 = z mod (2 ^ 32 :: int)" for z
    using mod_mod_cancel [of "2 ^ 32" 18446744073709551616 z] by simp
  have "uint (x - y) = (uint x - uint y) mod 18446744073709551616" for x y :: u64
    by (simp add: uint_word_ariths(2))
  then show ?thesis unfolding ff_nut_sp_pos_cmp_def
    by (intro s32_mod32) (simp only: u m)
qed

lemma pos_cmp_less:
  assumes "uint (sp_pos va) < uint (sp_pos vb)" and "uint (sp_pos vb) < 4611686018427387904"
  shows "ff_nut_sp_pos_cmp va vb < 0" "0 < ff_nut_sp_pos_cmp vb va"
proof -
  let ?d = "uint (sp_pos vb) - uint (sp_pos va)"
  have "0 < ?d" "?d < 4611686018427387904" using assms uint_ge_0 [of "sp_pos va"] by linarith+
  then obtain q c where qc: "(?d mod 18446744073709551616) div 4294967296 = q"
    "((- ?d) mod 18446744073709551616) div 4294967296 = 4294967296 - c"
    "0 \<le> q" "q < 1073741824" "0 < c" "c \<le> 1073741824" by (rule shifted_differences)
  have n: "- ?d = uint (sp_pos va) - uint (sp_pos vb)" by simp
  have "ff_nut_sp_pos_cmp vb va = s32 (q - (4294967296 - c))" unfolding pos_cmp_differences qc(1) qc(2) [unfolded n] ..
  also have "\<dots> = s32 (q + c)"
    using mod_add_self2 [of "q - (4294967296 - c)" 4294967296] by (intro s32_mod32) simp
  also have "\<dots> = q + c" using qc by (intro s32_id) (simp add: is_s32_def)
  finally show "0 < ff_nut_sp_pos_cmp vb va" using qc by simp
  have "ff_nut_sp_pos_cmp va vb = s32 (4294967296 - c - q)" unfolding pos_cmp_differences qc(1) qc(2) [unfolded n] ..
  also have "\<dots> = s32 (- c - q)"
    using mod_add_self2 [of "- c - q" 4294967296] by (intro s32_mod32) (simp add: algebra_simps)
  also have "\<dots> = - c - q" using qc by (intro s32_id) (simp add: is_s32_def)
  finally show "ff_nut_sp_pos_cmp va vb < 0" using qc by simp
qed

definition sp_pos_ok :: "Syncpoint \<Rightarrow> bool" where
  "sp_pos_ok sp \<longleftrightarrow> uint (sp_pos sp) < 4611686018427387904"

interpretation sp: tree_order ff_nut_sp_pos_cmp sp_pos sp_pos_ok
proof
  fix a b assume ok: "sp_pos_ok a" "sp_pos_ok b"
  have e: "sp_pos a = sp_pos b \<Longrightarrow> ff_nut_sp_pos_cmp a b = 0" by (simp add: ff_nut_sp_pos_cmp_def s32_def)
  consider "sp_pos a < sp_pos b" | "sp_pos b < sp_pos a" | "sp_pos a = sp_pos b" by (rule linorder_cases)
  then have "(ff_nut_sp_pos_cmp a b < 0 \<longleftrightarrow> sp_pos a < sp_pos b) \<and> (ff_nut_sp_pos_cmp a b = 0 \<longleftrightarrow> sp_pos a = sp_pos b)"
  proof cases
    case 1
    then show ?thesis using pos_cmp_less(1) [of a b] ok by (auto simp: sp_pos_ok_def word_less_def)
  next
    case 2
    then show ?thesis using pos_cmp_less(2) [of b a] ok by (auto simp: sp_pos_ok_def word_less_def)
  next
    case 3
    then show ?thesis using e by auto
  qed
  then show "ff_nut_sp_pos_cmp a b < 0 \<longleftrightarrow> sp_pos a < sp_pos b"
    "ff_nut_sp_pos_cmp a b = 0 \<longleftrightarrow> sp_pos a = sp_pos b" by blast+
qed

section \<open>Adding synchronisation points\<close>

definition nut_ok :: "NUTContext \<Rightarrow> bool" where
  "nut_ok nut \<longleftrightarrow> tree_ok sp_pos sp_pos_ok (nut_syncpoints nut)"

fun nut_add_all :: "NUTContext \<Rightarrow> (int \<times> int \<times> int) list \<Rightarrow> NUTContext option" where
  "nut_add_all nut [] = Some nut"
| "nut_add_all nut ((pos, back_ptr, ts) # calls) =
     (case ff_nut_add_sp True True nut pos back_ptr ts of
        Some (Inr _, nut) \<Rightarrow> nut_add_all nut calls
      | _ \<Rightarrow> None)"

definition call_sp :: "int \<times> int \<times> int \<Rightarrow> Syncpoint" where
  "call_sp c = (case c of (pos, back_ptr, ts) \<Rightarrow>
     \<lparr>sp_pos = word_of_int pos, sp_back_ptr = word_of_int back_ptr, sp_ts = ts\<rparr>)"

definition call_ok :: "int \<times> int \<times> int \<Rightarrow> bool" where
  "call_ok c \<longleftrightarrow> 0 < fst c \<and> fst c < 4611686018427387904"

lemma call_ok_sp: "call_ok c \<Longrightarrow> sp_pos_ok (call_sp c) \<and> 0 < sp_pos (call_sp c)"
  by (cases c) (simp add: call_ok_def call_sp_def sp_pos_ok_def unsigned_of_int take_bit_int_eq_self word_less_def)

text \<open>Searching a list that was put together from the smaller, one and the greater elements.\<close>

lemma find_inserted:
  assumes sorted: "sorted_wrt (\<lambda>a b. rank a < rank b) xs" and "find (\<lambda>x. rank x = rank key) xs = None"
  shows "find (\<lambda>x. rank x = k) (smaller rank (rank key) xs @ key # larger rank (rank key) xs) =
    (if k = rank key then Some key else find (\<lambda>x. rank x = k) xs)"
proof -
  have e: "find P (smaller rank m xs @ larger rank m xs) = find P xs" if "\<And>x. x \<in> set xs \<Longrightarrow> P x \<Longrightarrow> rank x \<noteq> m"
    "sorted_wrt (\<lambda>a b. rank a < rank b) xs" for P m
    using that
  proof (induction xs)
    case (Cons a xs)
    show ?case
    proof (cases "P a")
      case True
      then have "rank a < m \<or> m < rank a" using Cons.prems(1) [of a] by auto
      moreover have "m < rank a \<Longrightarrow> smaller rank m (a # xs) = []"
        using Cons.prems(2) by (auto simp: smaller_def filter_empty_conv)
      ultimately show ?thesis using True by (auto simp: smaller_def larger_def)
    next
      case False
      have "\<And>x. x \<in> set xs \<Longrightarrow> P x \<Longrightarrow> rank x \<noteq> m" using Cons.prems(1) by auto
      then have "find P (smaller rank m xs @ larger rank m xs) = find P xs"
        using Cons.IH Cons.prems(2) by simp
      then show ?thesis using False by (auto simp: smaller_def larger_def find_append split: option.splits)
    qed
  qed (simp add: smaller_def larger_def)
  show ?thesis
  proof (cases "k = rank key")
    case True
    have "find (\<lambda>x. rank x = rank key) (smaller rank (rank key) xs) = None"
      by (auto simp: find_None_iff smaller_def)
    then show ?thesis using True by (simp add: find_append)
  next
    case False
    then have "rank key \<noteq> k" by simp
    then have "find (\<lambda>x. rank x = k) (smaller rank (rank key) xs @ key # larger rank (rank key) xs) =
        find (\<lambda>x. rank x = k) (smaller rank (rank key) xs @ larger rank (rank key) xs)"
      by (simp add: find_append split: option.split)
    then show ?thesis using e [of "\<lambda>x. rank x = k" "rank key"] False sorted by simp
  qed
qed

lemma nut_add_sp:
  assumes "nut_ok nut" and "call_ok (pos, back_ptr, ts)"
  shows "\<exists>nut'. ff_nut_add_sp True True nut pos back_ptr ts = Some (Inr (), nut') \<and> nut_ok nut' \<and>
    nut_sp_count nut' = nut_sp_count nut + 1 \<and>
    (\<forall>p. find (\<lambda>sp. sp_pos sp = p) (inorder (nut_syncpoints nut')) =
      find (\<lambda>sp. sp_pos sp = p) (inorder (nut_syncpoints nut) @ [call_sp (pos, back_ptr, ts)]))"
proof -
  let ?t = "nut_syncpoints nut" and ?sp = "call_sp (pos, back_ptr, ts)"
  have t: "tree_ok sp_pos sp_pos_ok ?t" using assms(1) by (simp add: nut_ok_def)
  have ok: "sp_pos_ok ?sp" using call_ok_sp [OF assms(2)] by simp
  show ?thesis
  proof (cases "find (\<lambda>x. sp_pos x = sp_pos ?sp) (inorder ?t)")
    case (Some x)
    have "av_tree_insert ?t ?sp ff_nut_sp_pos_cmp (av_tree_node_alloc null_syncpoint) =
        Some (?t, av_tree_node_alloc null_syncpoint, Some x)"
      by (rule sp.insert_found [OF t ok Some]) (simp add: av_tree_node_alloc_def)
    then show ?thesis
      using assms(1) Some by (auto simp: ff_nut_add_sp_def call_sp_def nut_ok_def find_append split: option.splits)
  next
    case None
    from sp.insert_new [OF t ok None, of null_syncpoint] obtain t' ret where
      i: "av_tree_insert ?t ?sp ff_nut_sp_pos_cmp (av_tree_node_alloc null_syncpoint) = Some (t', NULL, ret)" "avl t'"
      "inorder t' = smaller sp_pos (sp_pos ?sp) (inorder ?t) @ ?sp # larger sp_pos (sp_pos ?sp) (inorder ?t)"
      by (auto simp: av_tree_node_alloc_def)
    have "sorted_wrt (\<lambda>a b. sp_pos a < sp_pos b) (inorder ?t)" using t by (simp add: tree_ok_def tree_sorted_def)
    note f = find_inserted [OF this None]
    have "tree_ok sp_pos sp_pos_ok t'" using tree_ok_inserted [OF t i(2) ok i(3)] .
    then show ?thesis
      using i f None
      by (auto simp: ff_nut_add_sp_def nut_ok_def find_append call_sp_def split: option.splits)
  qed
qed

text \<open>After any calls of \<open>ff_nut_add_sp\<close> the tree is sorted by position and in balance, the counter counts the
  calls, and for every position the tree holds the point of the first call with that position.\<close>

lemma nut_add_all_aux:
  "nut_ok nut \<Longrightarrow> list_all call_ok calls \<Longrightarrow>
   \<exists>nut'. nut_add_all nut calls = Some nut' \<and> nut_ok nut' \<and> nut_sp_count nut' = nut_sp_count nut + int (length calls) \<and>
     (\<forall>p. find (\<lambda>sp. sp_pos sp = p) (inorder (nut_syncpoints nut')) =
       find (\<lambda>sp. sp_pos sp = p) (inorder (nut_syncpoints nut) @ map call_sp calls))"
proof (induction calls arbitrary: nut)
  case (Cons c calls)
  obtain pos bp ts where c: "c = (pos, bp, ts)" by (cases c)
  obtain nut1 where n1: "ff_nut_add_sp True True nut pos bp ts = Some (Inr (), nut1)" "nut_ok nut1"
    "nut_sp_count nut1 = nut_sp_count nut + 1"
    "\<And>p. find (\<lambda>sp. sp_pos sp = p) (inorder (nut_syncpoints nut1)) =
      find (\<lambda>sp. sp_pos sp = p) (inorder (nut_syncpoints nut) @ [call_sp c])"
    using nut_add_sp [of nut pos bp ts] Cons.prems by (auto simp: c)
  from Cons.IH [OF n1(2)] Cons.prems(2) obtain nut2 where n2: "nut_add_all nut1 calls = Some nut2" "nut_ok nut2"
    "nut_sp_count nut2 = nut_sp_count nut1 + int (length calls)"
    "\<And>p. find (\<lambda>sp. sp_pos sp = p) (inorder (nut_syncpoints nut2)) =
      find (\<lambda>sp. sp_pos sp = p) (inorder (nut_syncpoints nut1) @ map call_sp calls)" by auto
  have "find (\<lambda>sp. sp_pos sp = p) (inorder (nut_syncpoints nut2)) =
      find (\<lambda>sp. sp_pos sp = p) (inorder (nut_syncpoints nut) @ map call_sp (c # calls))" for p
    unfolding n2(4) by (simp only: find_append n1(4)) (auto split: option.splits)
  with n1 n2 show ?case by (simp add: c)
qed simp

text \<open>C24: After any calls of \<open>ff_nut_add_sp\<close> with positions below \<open>2 ^ 62\<close> the tree is sorted by position and in
  balance, the counter counts the calls, and a search for a position finds the point of the first call
  with that position.\<close>

theorem nut_syncpoints_correct:
  assumes "list_all call_ok calls" and "sp_pos_ok key"
  shows "\<exists>nut. nut_add_all \<lparr>nut_syncpoints = NULL, nut_sp_count = 0\<rparr> calls = Some nut \<and>
    tree_ok sp_pos sp_pos_ok (nut_syncpoints nut) \<and> nut_sp_count nut = int (length calls) \<and>
    av_tree_find (nut_syncpoints nut) key ff_nut_sp_pos_cmp =
      find (\<lambda>sp. sp_pos sp = sp_pos key) (map call_sp calls)"
proof -
  have "nut_ok \<lparr>nut_syncpoints = NULL, nut_sp_count = 0\<rparr>" by (simp add: nut_ok_def tree_ok_def tree_sorted_def)
  from nut_add_all_aux [OF this assms(1)] obtain nut where
    n: "nut_add_all \<lparr>nut_syncpoints = NULL, nut_sp_count = 0\<rparr> calls = Some nut" "nut_ok nut"
    "nut_sp_count nut = int (length calls)"
    "\<And>p. find (\<lambda>sp. sp_pos sp = p) (inorder (nut_syncpoints nut)) = find (\<lambda>sp. sp_pos sp = p) (map call_sp calls)"
    by auto
  have "av_tree_find (nut_syncpoints nut) key ff_nut_sp_pos_cmp =
      find (\<lambda>sp. sp_pos sp = sp_pos key) (inorder (nut_syncpoints nut))"
    using sp.find_is_next [of "nut_syncpoints nut" key "(None, None)"]
      sp.find_next [of "nut_syncpoints nut" key "(None, None)"] n(2) assms(2) by (simp add: nut_ok_def)
  with n show ?thesis by (auto simp: nut_ok_def)
qed

section \<open>Writing the index\<close>

text \<open>The differences of the positions in units of 16 bytes.\<close>

fun position_deltas :: "u64 \<Rightarrow> u64 list \<Rightarrow> u64 list" where
  "position_deltas p [] = []"
| "position_deltas p (q # qs) = (shr q 4 - shr p 4) # position_deltas q qs"

lemma larger_next:
  assumes "sorted_wrt (\<lambda>a b. rank a < rank b) xs" and "larger rank k xs = y # ys"
  shows "larger rank (rank y) xs = ys"
proof -
  have "sorted_wrt (\<lambda>a b. rank a < rank b) (y # ys)"
    using sorted_wrt_filter [OF assms(1), of "\<lambda>x. k < rank x"] assms(2) by (simp add: larger_def)
  then have "filter (\<lambda>x. rank y < rank x) (y # ys) = ys" by (auto simp: filter_id_conv)
  moreover have "k < rank y" using assms(2) by (auto simp: larger_def filter_eq_Cons_iff)
  then have "larger rank (rank y) xs = filter (\<lambda>x. rank y < rank x) (larger rank k xs)"
    by (auto simp: larger_def intro: filter_cong)
  ultimately show ?thesis using assms(2) by simp
qed

lemma write_index_positions:
  assumes "tree_ok sp_pos sp_pos_ok t" and "sp_pos_ok dummy"
    and "larger sp_pos (sp_pos dummy) (inorder t) = [] \<Longrightarrow> n \<noteq> 0 \<Longrightarrow> \<exists>sp. snd nx = Some sp \<and> sp_pos sp = sp_pos dummy"
    and "length (larger sp_pos (sp_pos dummy) (inorder t)) \<le> n"
  shows "write_index_positions t n dummy nx =
    Some (position_deltas (sp_pos dummy) (map sp_pos (larger sp_pos (sp_pos dummy) (inorder t))) @
      replicate (n - length (larger sp_pos (sp_pos dummy) (inorder t))) 0)"
  using assms(2-)
proof (induction n arbitrary: dummy nx)
  case (Suc n)
  let ?g = "larger sp_pos (sp_pos dummy) (inorder t)"
  note f = sp.find_next [OF assms(1) Suc.prems(1), of nx]
  show ?case
  proof (cases ?g)
    case Nil
    then obtain s where s: "snd nx = Some s" "sp_pos s = sp_pos dummy" using Suc.prems(2) by auto
    have "dummy\<lparr>sp_pos := sp_pos dummy\<rparr> = dummy" by simp
    moreover have "write_index_positions t n dummy
        (neighbours (smaller sp_pos (sp_pos dummy) (inorder t)) [] nx) = Some (replicate n 0)"
      using Suc.IH [of dummy "neighbours (smaller sp_pos (sp_pos dummy) (inorder t)) [] nx"] Suc.prems(1) Nil s
      by (simp add: neighbours_def)
    ultimately show ?thesis using Nil s f by (simp add: neighbours_def)
  next
    case (Cons y ys)
    have y: "y \<in> set (inorder t)" using Cons by (metis filter_is_subset larger_def list.set_intros(1) subsetD)
    let ?d = "dummy\<lparr>sp_pos := sp_pos y\<rparr>"
    let ?nx = "neighbours (smaller sp_pos (sp_pos dummy) (inorder t)) ?g nx"
    have ok: "sp_pos_ok ?d" using y assms(1) by (auto simp: tree_ok_def sp_pos_ok_def)
    have g: "larger sp_pos (sp_pos y) (inorder t) = ys"
      using larger_next [OF _ Cons] assms(1) by (simp add: tree_ok_def tree_sorted_def)
    have "write_index_positions t n ?d ?nx =
        Some (position_deltas (sp_pos y) (map sp_pos ys) @ replicate (n - length ys) 0)"
      using Suc.IH [OF ok, of ?nx] Suc.prems(3) Cons g by (simp add: neighbours_def)
    then show ?thesis using f Cons by (simp add: neighbours_def)
  qed
qed simp

lemma nut_positions:
  assumes "list_all call_ok calls" and "nut_add_all \<lparr>nut_syncpoints = NULL, nut_sp_count = 0\<rparr> calls = Some nut"
  shows "nut_ok nut" "nut_sp_count nut = int (length calls)"
    "sp_pos ` set (inorder (nut_syncpoints nut)) = sp_pos ` call_sp ` set calls"
proof -
  have "nut_ok \<lparr>nut_syncpoints = NULL, nut_sp_count = 0\<rparr>" by (simp add: nut_ok_def tree_ok_def tree_sorted_def)
  from nut_add_all_aux [OF this assms(1)] assms(2)
  show n: "nut_ok nut" "nut_sp_count nut = int (length calls)" by simp_all
  have f: "find (\<lambda>sp. sp_pos sp = p) (inorder (nut_syncpoints nut)) = find (\<lambda>sp. sp_pos sp = p) (map call_sp calls)" for p
    using nut_add_all_aux [OF \<open>nut_ok \<lparr>nut_syncpoints = NULL, nut_sp_count = 0\<rparr>\<close> assms(1)] assms(2) by simp
  have "p \<in> sp_pos ` set xs \<longleftrightarrow> find (\<lambda>sp. sp_pos sp = p) xs \<noteq> None" for p xs by (auto simp: find_None_iff)
  then have "p \<in> sp_pos ` set (inorder (nut_syncpoints nut)) \<longleftrightarrow> p \<in> sp_pos ` set (map call_sp calls)" for p
    using f [of p] by metis
  then show "sp_pos ` set (inorder (nut_syncpoints nut)) = sp_pos ` call_sp ` set calls"
    by auto
qed

text \<open>C25: The index that is written for the synchronisation points lists the distances between the distinct
  positions in increasing order, from zero, in units of 16 bytes; for every call of \<open>ff_nut_add_sp\<close> that repeated
  a position it has a zero at the end.\<close>

theorem nut_index_correct:
  assumes "list_all call_ok calls" and "nut_add_all \<lparr>nut_syncpoints = NULL, nut_sp_count = 0\<rparr> calls = Some nut"
  shows "write_index_syncpoints nut =
    Some (position_deltas 0 (sorted_list_of_set (sp_pos ` call_sp ` set calls)) @
      replicate (length calls - card (sp_pos ` call_sp ` set calls)) 0)"
proof -
  let ?xs = "inorder (nut_syncpoints nut)" and ?P = "sp_pos ` call_sp ` set calls"
  note n = nut_positions [OF assms]
  have ok: "tree_ok sp_pos sp_pos_ok (nut_syncpoints nut)" using n(1) by (simp add: nut_ok_def)
  then have s: "sorted_wrt (<) (map sp_pos ?xs)" by (simp add: tree_ok_def tree_sorted_def sorted_wrt_map)
  then have p: "map sp_pos ?xs = sorted_list_of_set ?P"
    using n(3) by (metis sorted_list_of_set.idem_if_sorted_distinct strict_sorted_iff set_map)
  have c: "card ?P = length ?xs" by (metis distinct_card length_map n(3) s set_map strict_sorted_iff)
  have "\<forall>x \<in> set ?xs. 0 < sp_pos x"
  proof
    fix x assume "x \<in> set ?xs"
    then have "sp_pos x \<in> ?P" using n(3) by blast
    then show "0 < sp_pos x" using assms(1) call_ok_sp by (auto simp: list_all_iff)
  qed
  then have g: "larger sp_pos 0 ?xs = ?xs" by (simp add: larger_def filter_id_conv)
  have le: "length ?xs \<le> length calls"
    using c card_image_le [of "call_sp ` set calls" sp_pos] card_image_le [of "set calls" call_sp] card_length [of calls]
    by simp
  have "?xs = [] \<Longrightarrow> length calls = 0" using n(3) by auto
  then have "write_index_positions (nut_syncpoints nut) (length calls) null_syncpoint (None, None) =
      Some (position_deltas 0 (map sp_pos ?xs) @ replicate (length calls - length ?xs) 0)"
    using write_index_positions [OF ok, of null_syncpoint "length calls" "(None, None)"] g le
    by (simp add: null_syncpoint_def sp_pos_ok_def)
  then show ?thesis by (simp add: write_index_syncpoints_def n(2) p c)
qed

theorem nut_syncpoints_correct_witness:
  "\<exists>nut. nut_add_all \<lparr>nut_syncpoints = NULL, nut_sp_count = 0\<rparr> [(64, 0, 5), (32, 0, 3), (64, 1, 6)] = Some nut \<and>
    av_tree_find (nut_syncpoints nut) \<lparr>sp_pos = 64, sp_back_ptr = 0, sp_ts = 0\<rparr> ff_nut_sp_pos_cmp =
      Some \<lparr>sp_pos = 64, sp_back_ptr = 0, sp_ts = 5\<rparr>"
  using nut_syncpoints_correct [of "[(64, 0, 5), (32, 0, 3), (64, 1, 6)]" "\<lparr>sp_pos = 64, sp_back_ptr = 0, sp_ts = 0\<rparr>"]
  by (auto simp: call_ok_def call_sp_def sp_pos_ok_def)

theorem nut_index_correct_witness:
  "\<exists>nut. nut_add_all \<lparr>nut_syncpoints = NULL, nut_sp_count = 0\<rparr> [(64, 0, 5), (32, 0, 3), (64, 1, 6)] = Some nut \<and>
    write_index_syncpoints nut = Some [2, 2, 0]"
proof -
  let ?c = "[(64, 0, 5), (32, 0, 3), (64, 1, 6)] :: (int \<times> int \<times> int) list"
  have "list_all call_ok ?c" by (simp add: call_ok_def)
  moreover from this obtain nut where "nut_add_all \<lparr>nut_syncpoints = NULL, nut_sp_count = 0\<rparr> ?c = Some nut"
    using nut_add_all_aux [of "\<lparr>nut_syncpoints = NULL, nut_sp_count = 0\<rparr>" ?c]
    by (auto simp: nut_ok_def tree_ok_def tree_sorted_def)
  moreover have "sp_pos ` call_sp ` set ?c = {32, 64}" by (auto simp: call_sp_def)
  moreover have "sorted_list_of_set {32, 64 :: u64} = [32, 64]" by simp
  ultimately show ?thesis using nut_index_correct [of ?c nut] by simp
qed

section \<open>Timestamps\<close>

text \<open>The full timestamp has the coded low bits and lies in the window around the last timestamp.\<close>

lemma ff_lsb2full_correct:
  assumes "st_msb_pts_shift st \<le> 62" and "\<bar>st_last_pts st\<bar> < 2 ^ 61" and "0 \<le> lsb" and "lsb < 2 ^ 61"
  defines "m \<equiv> 2 ^ st_msb_pts_shift st"
  shows "ff_lsb2full st lsb mod m = lsb mod m"
    "st_last_pts st - (m - 1) div 2 \<le> ff_lsb2full st lsb" "ff_lsb2full st lsb \<le> st_last_pts st + m div 2"
proof -
  let ?k = "st_msb_pts_shift st" and ?d = "st_last_pts st - (m - 1) div 2"
  have m: "0 < m" "m \<le> 2 ^ 62" using power_increasing [OF assms(1), of "2 :: int"] by (simp_all add: m_def)
  have h: "0 \<le> (m - 1) div 2" "(m - 1) div 2 < 2 ^ 61" using m by auto
  have mod: "0 \<le> (lsb - ?d) mod m" "(lsb - ?d) mod m < m" using m by simp_all
  have p: "- (2 ^ 61) < st_last_pts st" "st_last_pts st < 2 ^ 61" using assms(2) by linarith+
  have r: "is_s64 (m - 1)" "is_s64 ?d" "is_s64 (lsb - ?d)" "is_s64 ((lsb - ?d) mod m + ?d)"
    unfolding is_s64_def using m h mod p assms(3,4) by (intro conjI; simp; linarith)+
  have "x AND (m - 1) = x mod m" for x :: int
    by (simp add: m_def take_bit_eq_mod flip: mask_eq_exp_minus_1 take_bit_eq_mask)
  then have f: "ff_lsb2full st lsb = (lsb - ?d) mod m + ?d"
    using r by (simp add: ff_lsb2full_def Let_def flip: m_def)
  show "ff_lsb2full st lsb mod m = lsb mod m" unfolding f by (simp add: mod_simps)
  show "?d \<le> ff_lsb2full st lsb" unfolding f using mod by simp
  have "(m - 1) - (m - 1) div 2 \<le> m div 2" using m(1) by linarith
  then show "ff_lsb2full st lsb \<le> st_last_pts st + m div 2" unfolding f using mod by simp
qed

section \<open>The tree at work\<close>

definition example_sp :: "u64 \<Rightarrow> Syncpoint" where
  "example_sp p = \<lparr>sp_pos = p, sp_back_ptr = 0, sp_ts = 0\<rparr>"

lemma example_tree: "tree_ok sp_pos sp_pos_ok (AVTreeNode NULL (example_sp 32) 0 NULL)"
  by (simp add: tree_ok_def tree_sorted_def sp_pos_ok_def example_sp_def)


theorem av_tree_find_correct_witness:
  "av_tree_find_next (AVTreeNode NULL (example_sp 32) 0 NULL) (example_sp 64) ff_nut_sp_pos_cmp (None, None) =
     (None, (Some (example_sp 32), None))"
  using av_tree_find_correct [OF sp.tree_order_axioms example_tree, of "example_sp 64" "(None, None)"]
  by (simp add: sp_pos_ok_def example_sp_def smaller_def larger_def neighbours_def)

end
