(* ===== verification/PlayerQueue.thy ===== *)
theory PlayerQueue imports AvIntMath "HOL-Library.Monad_Syntax"
begin

text \<open>
  The packet queue of the player \<open>coding-279/player/player6.c\<close> (\<open>player3.c\<close> to \<open>player5.c\<close> have the same one): a
  singly linked list of \<open>AVPacketList\<close> cells with pointers to both ends and two counters. The cells of both queues
  live in one heap; a null pointer is \<open>None\<close>, and an operation that follows a pointer to a cell that is not allocated
  has no result. The operations are the bodies of the functions between lock and unlock; \<open>av_dup_packet\<close> and
  \<open>av_malloc\<close> are their results. The locale \<open>heap_queue\<close> states what a client relies on, that two queues in one heap
  do not disturb each other among it.
\<close>

section \<open>The code\<close>

record AVPacket =
  pkt_data :: "bytes option"
  pkt_size :: int
  pkt_pts :: int
  pkt_stream_index :: int

record AVPacketList =
  pl_pkt :: AVPacket
  pl_next :: "nat option"

record PacketQueue =
  first_pkt :: "nat option"
  last_pkt :: "nat option"
  nb_packets :: int
  pq_size :: int

type_synonym pl_heap = "nat \<rightharpoonup> AVPacketList"

definition packet_queue_init :: PacketQueue where
  "packet_queue_init = \<lparr>first_pkt = None, last_pkt = None, nb_packets = 0, pq_size = 0\<rparr>"

text \<open>\<open>if (!q->last_pkt) q->first_pkt = pkt1; else q->last_pkt->next = pkt1; q->last_pkt = pkt1;\<close> and the counters.\<close>

definition packet_queue_append :: "pl_heap \<Rightarrow> PacketQueue \<Rightarrow> nat \<Rightarrow> (pl_heap \<times> PacketQueue) option" where
  "packet_queue_append h q pkt1 =
     do { (h, q) \<leftarrow> (case last_pkt q of
                     None \<Rightarrow> Some (h, q\<lparr>first_pkt := Some pkt1\<rparr>)
                   | Some l \<Rightarrow> do { cell \<leftarrow> h l; Some (h(l \<mapsto> cell\<lparr>pl_next := Some pkt1\<rparr>), q) });
          cell \<leftarrow> h pkt1;
          Some (h, q\<lparr>last_pkt := Some pkt1, nb_packets := s32 (nb_packets q + 1),
                     pq_size := s32 (pq_size q + pkt_size (pl_pkt cell))\<rparr>) }"

definition packet_queue_put :: "bool \<Rightarrow> nat option \<Rightarrow> pl_heap \<Rightarrow> PacketQueue \<Rightarrow> AVPacket \<Rightarrow>
    (int \<times> pl_heap \<times> PacketQueue) option" where
  "packet_queue_put dup_ok av_malloc h q pkt =
     (if \<not> dup_ok then Some (-1, h, q)
      else case av_malloc of
        None \<Rightarrow> Some (-1, h, q)
      | Some pkt1 \<Rightarrow>
          do { (h, q) \<leftarrow> packet_queue_append (h(pkt1 \<mapsto> \<lparr>pl_pkt = pkt, pl_next = None\<rparr>)) q pkt1;
               Some (0, h, q) })"

text \<open>One pass of the loop of \<open>packet_queue_get\<close>: it leaves the loop with the value and the packet, if any, or waits.\<close>

datatype pq_pass = Pq_Break int "AVPacket option" | Pq_CondWait

definition packet_queue_get :: "bool \<Rightarrow> bool \<Rightarrow> pl_heap \<Rightarrow> PacketQueue \<Rightarrow> (pl_heap \<times> PacketQueue \<times> pq_pass) option" where
  "packet_queue_get quit block h q =
     (if quit then Some (h, q, Pq_Break (-1) None)
      else case first_pkt q of
        Some pkt1 \<Rightarrow>
          do { cell \<leftarrow> h pkt1;
               let q = q\<lparr>first_pkt := pl_next cell\<rparr>;
                   q = (if first_pkt q = None then q\<lparr>last_pkt := None\<rparr> else q);
                   q = q\<lparr>nb_packets := s32 (nb_packets q - 1), pq_size := s32 (pq_size q - pkt_size (pl_pkt cell))\<rparr>
               in Some (h(pkt1 := None), q, Pq_Break 1 (Some (pl_pkt cell))) }
      | None \<Rightarrow> if \<not> block then Some (h, q, Pq_Break 0 None) else Some (h, q, Pq_CondWait))"

section \<open>The list a queue stands for\<close>

text \<open>The cells from a pointer on, each with its address and its packet.\<close>

fun chain :: "pl_heap \<Rightarrow> nat option \<Rightarrow> (nat \<times> AVPacket) list \<Rightarrow> bool" where
  "chain h p [] \<longleftrightarrow> p = None"
| "chain h p ((a, x) # ns) \<longleftrightarrow>
     p = Some a \<and> (case h a of Some cell \<Rightarrow> pl_pkt cell = x \<and> chain h (pl_next cell) ns | None \<Rightarrow> False)"

definition sizes :: "AVPacket list \<Rightarrow> int" where
  "sizes xs = sum_list (map pkt_size xs)"

definition pq_cells :: "pl_heap \<Rightarrow> PacketQueue \<Rightarrow> (nat \<times> AVPacket) list \<Rightarrow> bool" where
  "pq_cells h q ns \<longleftrightarrow>
     chain h (first_pkt q) ns \<and> distinct (map fst ns) \<and>
     last_pkt q = (if ns = [] then None else Some (fst (last ns))) \<and>
     nb_packets q = s32 (int (length ns)) \<and> pq_size q = s32 (sizes (map snd ns))"

definition pq_holds :: "pl_heap \<Rightarrow> PacketQueue \<Rightarrow> AVPacket list \<Rightarrow> nat set \<Rightarrow> bool" where
  "pq_holds h q xs F \<longleftrightarrow> (\<exists>ns. pq_cells h q ns \<and> xs = map snd ns \<and> F = fst ` set ns)"

lemma s32_add: "s32 (s32 x + y) = s32 (x + y)"
  unfolding s32_def by (metis signed_take_bit_add signed_take_bit_signed_take_bit min.idem)

lemma s32_add': "s32 (y + s32 x) = s32 (y + x)"
  using s32_add [of x y] by (simp add: add.commute)

lemma s32_diff: "s32 (s32 x - y) = s32 (x - y)"
  using s32_add [of x "- y"] by simp

lemma s32_0 [simp]: "s32 0 = 0"
  by (simp add: s32_def)

lemma sizes_append [simp]: "sizes (xs @ ys) = sizes xs + sizes ys" "sizes (x # xs) = pkt_size x + sizes xs" "sizes [] = 0"
  by (simp_all add: sizes_def)

lemma chain_cong:
  "chain h p ns \<Longrightarrow> (\<And>a. a \<in> fst ` set ns \<Longrightarrow> h' a = h a) \<Longrightarrow> chain h' p ns"
  by (induction h p ns rule: chain.induct) (auto split: option.splits)

lemma chain_dom: "chain h p ns \<Longrightarrow> fst ` set ns \<subseteq> dom h"
  by (induction h p ns rule: chain.induct) (auto split: option.splits)

lemma chain_snoc:
  assumes "chain h p ns" and "distinct (map fst ns)" and "ns \<noteq> []" and "a \<notin> fst ` set ns"
    and "h (fst (last ns)) = Some cell" and "h a = Some \<lparr>pl_pkt = x, pl_next = None\<rparr>"
  shows "chain (h(fst (last ns) \<mapsto> cell\<lparr>pl_next := Some a\<rparr>)) p (ns @ [(a, x)])"
  using assms
proof (induction h p ns rule: chain.induct)
  case (2 h p b y ns)
  show ?case
  proof (cases "ns = []")
    case True
    then show ?thesis using "2.prems" by auto
  next
    case False
    then obtain c where c: "h b = Some c" "pl_pkt c = y" "chain h (pl_next c) ns"
      using "2.prems"(1) by (auto split: option.splits)
    have "fst (last ns) \<noteq> b" using "2.prems"(2) False by auto
    then show ?thesis using "2.IH" [OF c(1) c(3)] "2.prems" False c by simp
  qed
qed simp

text \<open>A queue in a heap that keeps the queue's cells.\<close>

lemma pq_cells_frame:
  "pq_cells h q ns \<Longrightarrow> (\<And>a. a \<in> fst ` set ns \<Longrightarrow> h' a = h a) \<Longrightarrow> pq_cells h' q ns"
  unfolding pq_cells_def using chain_cong by blast

lemma pq_cells_dom: "pq_cells h q ns \<Longrightarrow> fst ` set ns \<subseteq> dom h"
  unfolding pq_cells_def using chain_dom by blast

lemma pq_holds_frame:
  assumes "pq_holds h q xs F" and "\<And>a. a \<in> F \<Longrightarrow> h' a = h a"
  shows "pq_holds h' q xs F"
  using assms pq_cells_frame unfolding pq_holds_def by blast

lemma pq_holds_dom: "pq_holds h q xs F \<Longrightarrow> F \<subseteq> dom h"
  using pq_cells_dom unfolding pq_holds_def by blast

lemma pq_init_holds: "pq_holds h packet_queue_init [] {}"
  by (simp add: pq_holds_def pq_cells_def packet_queue_init_def)

lemma packet_queue_append_cells:
  assumes q: "pq_cells h q ns" and a: "a \<notin> fst ` set ns" "h a = Some \<lparr>pl_pkt = x, pl_next = None\<rparr>"
  shows "\<exists>h' q'. packet_queue_append h q a = Some (h', q') \<and> pq_cells h' q' (ns @ [(a, x)]) \<and>
    dom h' = dom h \<and> (\<forall>b. b \<notin> fst ` set ns \<longrightarrow> h' b = h b)"
proof (cases "ns = []")
  case True
  then show ?thesis
    using q a by (auto simp: packet_queue_append_def pq_cells_def s32_add s32_add')
next
  case False
  note c = q [unfolded pq_cells_def]
  have l: "last_pkt q = Some (fst (last ns))" using c False by simp
  have mem: "fst (last ns) \<in> fst ` set ns" using False by simp
  then obtain cell where cell: "h (fst (last ns)) = Some cell" using chain_dom c by blast
  have ne: "fst (last ns) \<noteq> a" using a(1) mem by blast
  let ?h = "h(fst (last ns) \<mapsto> cell\<lparr>pl_next := Some a\<rparr>)"
  have "chain ?h (first_pkt q) (ns @ [(a, x)])"
    using chain_snoc [of h "first_pkt q" ns a cell x] c False a cell by blast
  moreover have "packet_queue_append h q a =
      Some (?h, q\<lparr>last_pkt := Some a, nb_packets := s32 (nb_packets q + 1), pq_size := s32 (pq_size q + pkt_size x)\<rparr>)"
    using l cell a(2) ne by (simp add: packet_queue_append_def)
  moreover have "dom ?h = dom h" using cell by auto
  ultimately show ?thesis
    using c a(1) mem by (auto simp: pq_cells_def s32_add s32_add' add.commute)
qed

lemma packet_queue_put_holds:
  assumes "pq_holds h q xs F" and "a \<notin> dom h"
  shows "\<exists>h' q'. packet_queue_put True (Some a) h q x = Some (0, h', q') \<and> pq_holds h' q' (xs @ [x]) (insert a F) \<and>
    dom h' = insert a (dom h) \<and> (\<forall>b. b \<notin> insert a F \<longrightarrow> h' b = h b)"
proof -
  from assms(1) obtain ns where ns: "pq_cells h q ns" "xs = map snd ns" "F = fst ` set ns"
    by (auto simp: pq_holds_def)
  have na: "a \<notin> fst ` set ns" using pq_cells_dom [OF ns(1)] assms(2) by blast
  let ?h = "h(a \<mapsto> \<lparr>pl_pkt = x, pl_next = None\<rparr>)"
  have "pq_cells ?h q ns"
    using na by (intro pq_cells_frame [OF ns(1)]) auto
  from packet_queue_append_cells [OF this na, of x] obtain h' q'
    where h': "packet_queue_append ?h q a = Some (h', q')" "pq_cells h' q' (ns @ [(a, x)])"
      "dom h' = dom ?h" "\<forall>b. b \<notin> fst ` set ns \<longrightarrow> h' b = ?h b" by auto
  have "pq_holds h' q' (xs @ [x]) (insert a F)"
    unfolding pq_holds_def using h'(2) ns(2,3) by (intro exI [of _ "ns @ [(a, x)]"]) simp
  then show ?thesis using h' ns(3) by (auto simp: packet_queue_put_def)
qed

lemma packet_queue_get_cells:
  assumes "pq_cells h q ((a, x) # ns)"
  shows "\<exists>q'. packet_queue_get False block h q = Some (h(a := None), q', Pq_Break 1 (Some x)) \<and> pq_cells (h(a := None)) q' ns"
proof -
  note c = assms [unfolded pq_cells_def]
  from c obtain cell where cell: "h a = Some cell" "pl_pkt cell = x" "chain h (pl_next cell) ns" "first_pkt q = Some a"
    by (auto split: option.splits)
  have ch: "chain (h(a := None)) (pl_next cell) ns"
    using c by (intro chain_cong [OF cell(3)]) auto
  have nx: "pl_next cell = None \<longleftrightarrow> ns = []" using cell(3) by (cases ns) auto
  let ?q = "q\<lparr>first_pkt := pl_next cell, last_pkt := (if ns = [] then None else last_pkt q),
    nb_packets := s32 (nb_packets q - 1), pq_size := s32 (pq_size q - pkt_size x)\<rparr>"
  have "packet_queue_get False block h q = Some (h(a := None), ?q, Pq_Break 1 (Some x))"
    using cell nx by (simp add: packet_queue_get_def Let_def)
  moreover have "pq_cells (h(a := None)) ?q ns"
    using c ch by (auto simp: pq_cells_def s32_diff)
  ultimately show ?thesis by blast
qed

lemma packet_queue_get_holds:
  assumes "pq_holds h q (x # xs) F"
  shows "\<exists>a q'. packet_queue_get False block h q = Some (h(a := None), q', Pq_Break 1 (Some x)) \<and>
    a \<in> F \<and> pq_holds (h(a := None)) q' xs (F - {a})"
proof -
  from assms obtain a ns where ns: "pq_cells h q ((a, x) # ns)" "xs = map snd ns" "F = insert a (fst ` set ns)"
    unfolding pq_holds_def by fastforce
  have "F - {a} = fst ` set ns" using ns(1,3) by (auto simp: pq_cells_def)
  then show ?thesis using packet_queue_get_cells [OF ns(1), of block] ns(2,3) unfolding pq_holds_def by blast
qed

lemma packet_queue_get_empty:
  assumes "pq_holds h q [] F"
  shows "packet_queue_get False block h q = Some (h, q, if block then Pq_CondWait else Pq_Break 0 None)"
  using assms by (auto simp: pq_holds_def pq_cells_def packet_queue_get_def)

lemma packet_queue_get_quit: "packet_queue_get True block h q = Some (h, q, Pq_Break (-1) None)"
  by (simp add: packet_queue_get_def)

section \<open>The contract\<close>

text \<open>What a client of a queue in a heap relies on: \<open>holds h q xs F\<close> says that \<open>q\<close> stands for the list \<open>xs\<close> with its cells
  at the addresses \<open>F\<close>. Insertion and removal change nothing outside them and the new cell.\<close>

locale heap_queue =
  fixes holds :: "('a \<rightharpoonup> 'c) \<Rightarrow> 'q \<Rightarrow> 'x list \<Rightarrow> 'a set \<Rightarrow> bool"
    and ins :: "'a \<Rightarrow> ('a \<rightharpoonup> 'c) \<Rightarrow> 'q \<Rightarrow> 'x \<Rightarrow> (('a \<rightharpoonup> 'c) \<times> 'q) option"
    and rem :: "('a \<rightharpoonup> 'c) \<Rightarrow> 'q \<Rightarrow> (('a \<rightharpoonup> 'c) \<times> 'q \<times> 'x option) option"
  assumes frame: "holds h q xs F \<Longrightarrow> (\<And>a. a \<in> F \<Longrightarrow> h' a = h a) \<Longrightarrow> holds h' q xs F"
    and within: "holds h q xs F \<Longrightarrow> F \<subseteq> dom h"
    and ins_law: "holds h q xs F \<Longrightarrow> a \<notin> dom h \<Longrightarrow>
      \<exists>h' q'. ins a h q x = Some (h', q') \<and> holds h' q' (xs @ [x]) (insert a F) \<and> dom h' = insert a (dom h) \<and>
        (\<forall>b. b \<notin> insert a F \<longrightarrow> h' b = h b)"
    and rem_law: "holds h q (x # xs) F \<Longrightarrow>
      \<exists>a q'. rem h q = Some (h(a := None), q', Some x) \<and> a \<in> F \<and> holds (h(a := None)) q' xs (F - {a})"
    and rem_empty: "holds h q [] F \<Longrightarrow> rem h q = Some (h, q, None)"
begin

text \<open>Two queues side by side.\<close>

lemma ins_pair:
  assumes "holds h q xs F" "holds h q2 ys G" "F \<inter> G = {}" "a \<notin> dom h"
  shows "\<exists>h' q'. ins a h q x = Some (h', q') \<and> holds h' q' (xs @ [x]) (insert a F) \<and> holds h' q2 ys G \<and>
    insert a F \<inter> G = {}"
proof -
  from ins_law [OF assms(1,4), of x] obtain h' q' where h': "ins a h q x = Some (h', q')"
    "holds h' q' (xs @ [x]) (insert a F)" "\<forall>b. b \<notin> insert a F \<longrightarrow> h' b = h b" by (elim exE conjE)
  have a: "a \<notin> G" using within [OF assms(2)] assms(4) by blast
  have "holds h' q2 ys G"
  proof (rule frame [OF assms(2)])
    fix b assume "b \<in> G"
    then have "b \<notin> insert a F" using a assms(3) by auto
    with h'(3) show "h' b = h b" by simp
  qed
  moreover have "insert a F \<inter> G = {}" using a assms(3) by simp
  ultimately show ?thesis using h'(1,2) by (intro exI conjI)
qed

lemma rem_pair:
  assumes "holds h q (x # xs) F" "holds h q2 ys G" "F \<inter> G = {}"
  shows "\<exists>h' q' F'. rem h q = Some (h', q', Some x) \<and> holds h' q' xs F' \<and> holds h' q2 ys G \<and> F' \<inter> G = {}"
proof -
  from rem_law [OF assms(1)] obtain a q' where a: "rem h q = Some (h(a := None), q', Some x)" "a \<in> F"
    "holds (h(a := None)) q' xs (F - {a})" by (elim exE conjE)
  have "holds (h(a := None)) q2 ys G" by (rule frame [OF assms(2)]) (use a(2) assms(3) in auto)
  moreover have "(F - {a}) \<inter> G = {}" using assms(3) by auto
  ultimately show ?thesis using a(1,3) by (intro exI conjI)
qed

end

definition pq_result :: "pl_heap \<times> PacketQueue \<times> pq_pass \<Rightarrow> pl_heap \<times> PacketQueue \<times> AVPacket option" where
  "pq_result r = (case r of (h, q, Pq_Break ret x) \<Rightarrow> (h, q, x) | (h, q, Pq_CondWait) \<Rightarrow> (h, q, None))"

interpretation pq: heap_queue pq_holds "\<lambda>a h q x. map_option snd (packet_queue_put True (Some a) h q x)"
  "\<lambda>h q. map_option pq_result (packet_queue_get False True h q)"
proof unfold_locales
  fix h q xs F a x
  assume "pq_holds h q xs F" "a \<notin> dom h"
  from packet_queue_put_holds [OF this, of x]
  show "\<exists>h' q'. map_option snd (packet_queue_put True (Some a) h q x) = Some (h', q') \<and>
      pq_holds h' q' (xs @ [x]) (insert a F) \<and> dom h' = insert a (dom h) \<and> (\<forall>b. b \<notin> insert a F \<longrightarrow> h' b = h b)"
    by auto
next
  fix h q x xs F
  assume "pq_holds h q (x # xs) F"
  from packet_queue_get_holds [OF this, of True]
  show "\<exists>a q'. map_option pq_result (packet_queue_get False True h q) = Some (h(a := None), q', Some x) \<and> a \<in> F \<and>
      pq_holds (h(a := None)) q' xs (F - {a})"
    by (auto simp: pq_result_def)
next
  fix h q F
  assume "pq_holds h q [] F"
  then show "map_option pq_result (packet_queue_get False True h q) = Some (h, q, None)"
    by (simp add: packet_queue_get_empty pq_result_def)
qed (rule pq_holds_frame pq_holds_dom; assumption)+

section \<open>Any calls on one queue\<close>

datatype pq_op = Put AVPacket bool | Get bool

text \<open>The results of the calls, none of them blocking; \<open>av_malloc\<close> gives the new cell from what is allocated.\<close>

fun pq_run :: "(nat set \<Rightarrow> nat option) \<Rightarrow> pq_op list \<Rightarrow> pl_heap \<Rightarrow> PacketQueue \<Rightarrow>
    ((int \<times> AVPacket option) list \<times> pl_heap \<times> PacketQueue) option" where
  "pq_run av_malloc [] h q = Some ([], h, q)"
| "pq_run av_malloc (Put x dup_ok # ops) h q =
     do { (ret, h, q) \<leftarrow> packet_queue_put dup_ok (av_malloc (dom h)) h q x;
          (rs, h, q) \<leftarrow> pq_run av_malloc ops h q;
          Some ((ret, None) # rs, h, q) }"
| "pq_run av_malloc (Get quit # ops) h q =
     do { (h, q, pass) \<leftarrow> packet_queue_get quit False h q;
          r \<leftarrow> (case pass of Pq_Break ret x \<Rightarrow> Some (ret, x) | Pq_CondWait \<Rightarrow> None);
          (rs, h, q) \<leftarrow> pq_run av_malloc ops h q;
          Some (r # rs, h, q) }"

text \<open>The same calls on a list; each put is told whether it gets its memory.\<close>

fun list_queue_run :: "(pq_op \<times> bool) list \<Rightarrow> AVPacket list \<Rightarrow> (int \<times> AVPacket option) list \<times> AVPacket list" where
  "list_queue_run [] xs = ([], xs)"
| "list_queue_run ((Put x dup_ok, mem) # ops) xs =
     (let ok = dup_ok \<and> mem; (rs, ys) = list_queue_run ops (if ok then xs @ [x] else xs)
      in ((if ok then 0 else -1, None) # rs, ys))"
| "list_queue_run ((Get quit, mem) # ops) xs =
     (let r = (if quit then (-1, None) else if xs = [] then (0, None) else (1, Some (hd xs)));
          (rs, ys) = list_queue_run ops (if quit then xs else tl xs)
      in (r # rs, ys))"

lemma pq_run_refines:
  assumes "\<And>D a. finite D \<Longrightarrow> av_malloc D = Some a \<Longrightarrow> a \<notin> D"
  shows "pq_holds h q xs (dom h) \<Longrightarrow>
    \<exists>mem rs ys h' q'. length mem = length ops \<and> list_queue_run (zip ops mem) xs = (rs, ys) \<and>
      pq_run av_malloc ops h q = Some (rs, h', q') \<and> pq_holds h' q' ys (dom h') \<and>
      ((\<forall>D. finite D \<longrightarrow> av_malloc D \<noteq> None) \<longrightarrow> mem = replicate (length ops) True)"
proof (induction ops arbitrary: h q xs)
  case (Cons op ops)
  have fin: "finite (dom h)" using Cons.prems by (auto simp: pq_holds_def)
  show ?case
  proof (cases op)
    case (Put x dup_ok)
    show ?thesis
    proof (cases "dup_ok \<and> av_malloc (dom h) \<noteq> None")
      case True
      then obtain a where a: "av_malloc (dom h) = Some a" by auto
      from packet_queue_put_holds [OF Cons.prems assms [OF fin a], of x] obtain h1 q1 where
        p: "packet_queue_put True (Some a) h q x = Some (0, h1, q1)" "pq_holds h1 q1 (xs @ [x]) (dom h1)" by auto
      from Cons.IH [OF p(2)] obtain mem rs ys h' q' where
        ih: "length mem = length ops" "list_queue_run (zip ops mem) (xs @ [x]) = (rs, ys)"
          "pq_run av_malloc ops h1 q1 = Some (rs, h', q')" "pq_holds h' q' ys (dom h')"
          "(\<forall>D. finite D \<longrightarrow> av_malloc D \<noteq> None) \<longrightarrow> mem = replicate (length ops) True" by blast
      show ?thesis
        using ih p(1) a True Put
        by (intro exI [of _ "True # mem"] exI [of _ "(0, None) # rs"] exI [of _ ys] exI [of _ h'] exI [of _ q']) simp
    next
      case False
      then have p: "packet_queue_put dup_ok (av_malloc (dom h)) h q x = Some (-1, h, q)"
        by (auto simp: packet_queue_put_def split: option.split)
      from Cons.IH [OF Cons.prems] obtain mem rs ys h' q' where
        ih: "length mem = length ops" "list_queue_run (zip ops mem) xs = (rs, ys)"
          "pq_run av_malloc ops h q = Some (rs, h', q')" "pq_holds h' q' ys (dom h')"
          "(\<forall>D. finite D \<longrightarrow> av_malloc D \<noteq> None) \<longrightarrow> mem = replicate (length ops) True" by blast
      show ?thesis
        using ih p False Put fin
        by (intro exI [of _ "(av_malloc (dom h) \<noteq> None) # mem"] exI [of _ "(-1, None) # rs"] exI [of _ ys]
            exI [of _ h'] exI [of _ q']) auto
    qed
  next
    case (Get quit)
    obtain h1 q1 ret r where g: "packet_queue_get quit False h q = Some (h1, q1, Pq_Break ret r)"
      "pq_holds h1 q1 (if quit then xs else tl xs) (dom h1)"
      "(ret, r) = (if quit then (-1, None) else if xs = [] then (0, None) else (1, Some (hd xs)))"
    proof (cases "quit \<or> xs = []")
      case True
      then show ?thesis
        using that [of h q "if quit then -1 else 0" None] Cons.prems packet_queue_get_empty [of h q "dom h" False]
        by (auto simp: packet_queue_get_quit split: if_splits)
    next
      case False
      then obtain y ys where xs: "xs = y # ys" by (cases xs) auto
      from packet_queue_get_holds [OF Cons.prems [unfolded xs], of False] obtain a q1 where
        "packet_queue_get False False h q = Some (h(a := None), q1, Pq_Break 1 (Some y))"
        "pq_holds (h(a := None)) q1 ys (dom h - {a})" by blast
      then show ?thesis using that [of "h(a := None)" q1 1 "Some y"] False xs by (simp add: dom_minus)
    qed
    from Cons.IH [OF g(2)] obtain mem rs ys h' q' where
      ih: "length mem = length ops" "list_queue_run (zip ops mem) (if quit then xs else tl xs) = (rs, ys)"
        "pq_run av_malloc ops h1 q1 = Some (rs, h', q')" "pq_holds h' q' ys (dom h')"
        "(\<forall>D. finite D \<longrightarrow> av_malloc D \<noteq> None) \<longrightarrow> mem = replicate (length ops) True" by blast
    show ?thesis
      using ih g(1,3) Get
      by (intro exI [of _ "True # mem"] exI [of _ "(ret, r) # rs"] exI [of _ ys] exI [of _ h'] exI [of _ q']) simp
  qed
qed simp

text \<open>C11: The queue in the heap behaves as a list through any calls, with memory that may run out and with the player
  about to quit or not: every packet that a put accepts comes out once, in order. The counters are the number of the
  packets and the sum of their sizes (modulo \<open>2 ^ 32\<close>), and exactly the cells of the queued packets stay allocated.\<close>

theorem packet_queue_correct:
  assumes "\<forall>D a. finite D \<and> av_malloc D = Some a \<longrightarrow> a \<notin> D"
  shows "\<exists>mem rs ys h q. length mem = length ops \<and> list_queue_run (zip ops mem) [] = (rs, ys) \<and>
    pq_run av_malloc ops Map.empty packet_queue_init = Some (rs, h, q) \<and>
    nb_packets q = s32 (int (length ys)) \<and> pq_size q = s32 (sizes ys) \<and> card (dom h) = length ys \<and>
    ((\<forall>D. finite D \<longrightarrow> av_malloc D \<noteq> None) \<longrightarrow> mem = replicate (length ops) True)"
proof -
  have "pq_holds Map.empty packet_queue_init [] (dom Map.empty)" using pq_init_holds by simp
  moreover have "a \<notin> D" if "finite D" "av_malloc D = Some a" for D a using assms that by blast
  ultimately have "\<exists>mem rs ys h' q'. length mem = length ops \<and> list_queue_run (zip ops mem) [] = (rs, ys) \<and>
      pq_run av_malloc ops Map.empty packet_queue_init = Some (rs, h', q') \<and> pq_holds h' q' ys (dom h') \<and>
      ((\<forall>D. finite D \<longrightarrow> av_malloc D \<noteq> None) \<longrightarrow> mem = replicate (length ops) True)"
    by (rule pq_run_refines [rotated])
  then obtain mem rs ys h q where
    r: "length mem = length ops" "list_queue_run (zip ops mem) [] = (rs, ys)"
      "pq_run av_malloc ops Map.empty packet_queue_init = Some (rs, h, q)" "pq_holds h q ys (dom h)"
      "(\<forall>D. finite D \<longrightarrow> av_malloc D \<noteq> None) \<longrightarrow> mem = replicate (length ops) True" by (elim exE conjE)
  from r(4) obtain ns where ns: "pq_cells h q ns" "ys = map snd ns" "dom h = set (map fst ns)"
    by (auto simp: pq_holds_def)
  then have "card (dom h) = length ys" by (simp add: pq_cells_def distinct_card del: set_map)
  with ns r show ?thesis by (intro exI [of _ mem] exI [of _ rs] exI [of _ ys] exI [of _ h] exI [of _ q]) (simp add: pq_cells_def)
qed

lemma packet_queue_correct_witness:
  "(\<exists>h q. pq_run (\<lambda>D. Some (Suc (Max (insert 0 D))))
      [Put \<lparr>pkt_data = Some [7], pkt_size = 1, pkt_pts = 0, pkt_stream_index = 0\<rparr> True,
       Put \<lparr>pkt_data = Some [8], pkt_size = 1, pkt_pts = 1, pkt_stream_index = 0\<rparr> True, Get False]
      Map.empty packet_queue_init =
    Some ([(0, None), (0, None), (1, Some \<lparr>pkt_data = Some [7], pkt_size = 1, pkt_pts = 0, pkt_stream_index = 0\<rparr>)], h, q) \<and>
    nb_packets q = 1)"
proof -
  have f: "\<forall>D a. finite D \<and> Some (Suc (Max (insert 0 D))) = Some a \<longrightarrow> a \<notin> D"
  proof (intro allI impI notI, elim conjE)
    fix D :: "nat set" and a
    assume "finite D" "Some (Suc (Max (insert 0 D))) = Some a" "a \<in> D"
    then have "a \<le> Max (insert 0 D)" "a = Suc (Max (insert 0 D))" by simp_all
    then show False by simp
  qed
  have "s32 1 = 1" by (rule s32_id) (simp add: is_s32_def)
  then show ?thesis
    using f packet_queue_correct [OF f, of
      "[Put \<lparr>pkt_data = Some [7], pkt_size = 1, pkt_pts = 0, pkt_stream_index = 0\<rparr> True,
        Put \<lparr>pkt_data = Some [8], pkt_size = 1, pkt_pts = 1, pkt_stream_index = 0\<rparr> True, Get False]"]
    by auto
qed

end
