(* ===== verification/PlayerSync.thy ===== *)
theory PlayerSync imports PlayerQueue
begin

text \<open>
  The state of the player \<open>coding-279/player/player6.c\<close> and its clocks: the audio, video and external clock, the
  adjustment of the audio buffer to the master clock, the delay of the next picture and the video clock. The C
  \<open>double\<close> is a type parameter with its operations, about which nothing is assumed, so that what is proved holds for
  every rounding, for infinities and for NaN. \<open>av_gettime\<close> is the value it returned.
\<close>

section \<open>Double arithmetic\<close>

record 'd double_ops =
  d_of_int :: "int \<Rightarrow> 'd"                \<comment> \<open>conversion from an integer type\<close>
  d_lit :: "int \<Rightarrow> int \<Rightarrow> 'd"            \<comment> \<open>a literal, as a decimal fraction\<close>
  d_add :: "'d \<Rightarrow> 'd \<Rightarrow> 'd"
  d_sub :: "'d \<Rightarrow> 'd \<Rightarrow> 'd"
  d_mul :: "'d \<Rightarrow> 'd \<Rightarrow> 'd"
  d_div :: "'d \<Rightarrow> 'd \<Rightarrow> 'd"
  d_neg :: "'d \<Rightarrow> 'd"
  d_eq :: "'d \<Rightarrow> 'd \<Rightarrow> bool"
  d_less :: "'d \<Rightarrow> 'd \<Rightarrow> bool"
  d_le :: "'d \<Rightarrow> 'd \<Rightarrow> bool"
  d_fabs :: "'d \<Rightarrow> 'd"
  d_to_int :: "'d \<Rightarrow> int"                \<comment> \<open>the cast to \<open>int\<close>\<close>

section \<open>The state\<close>

datatype sync_type = AV_SYNC_AUDIO_MASTER | AV_SYNC_VIDEO_MASTER | AV_SYNC_EXTERNAL_MASTER

definition MAX_AUDIO_FRAME_SIZE :: nat where "MAX_AUDIO_FRAME_SIZE = 192000"
definition VIDEO_PICTURE_QUEUE_SIZE :: nat where "VIDEO_PICTURE_QUEUE_SIZE = 1"
definition AUDIO_DIFF_AVG_NB :: int where "AUDIO_DIFF_AVG_NB = 20"
definition SAMPLE_CORRECTION_PERCENT_MAX :: int where "SAMPLE_CORRECTION_PERCENT_MAX = 10"
definition AV_NOPTS_VALUE :: int where "AV_NOPTS_VALUE = - (2 ^ 63)"

abbreviation AV_SYNC_THRESHOLD :: "'d double_ops \<Rightarrow> 'd" where "AV_SYNC_THRESHOLD D \<equiv> d_lit D 1 100"
abbreviation AV_NOSYNC_THRESHOLD :: "'d double_ops \<Rightarrow> 'd" where "AV_NOSYNC_THRESHOLD D \<equiv> d_lit D 10 1"

text \<open>A picture of the picture queue. \<open>bmp\<close> is \<open>None\<close> for the null pointer.\<close>

record ('d, 'img) VideoPicture =
  bmp :: "'img option"
  vp_width :: int
  vp_height :: int
  allocated :: bool
  vp_pts :: 'd

text \<open>The fields of the two codec contexts that the player reads are fields of the state.\<close>

record ('d, 'img) VideoState =
  videoStream :: int
  audioStream :: int
  av_sync_type :: sync_type
  audio_diff_cum :: 'd
  audio_diff_avg_coef :: 'd
  audio_diff_threshold :: 'd
  audio_diff_avg_count :: int
  audio_clock :: 'd
  frame_timer :: 'd
  frame_last_pts :: 'd
  frame_last_delay :: 'd
  video_clock :: 'd
  video_current_pts :: 'd
  video_current_pts_time :: int
  audio_st :: bool
  audio_channels :: int
  audio_sample_rate :: int
  audioq :: PacketQueue
  audio_buf :: bytes
  audio_buf_size :: u32
  audio_buf_index :: u32
  audio_pkt :: AVPacket
  audio_pkt_data :: int
  audio_pkt_size :: int
  video_st :: bool
  video_width :: int
  video_height :: int
  videoq :: PacketQueue
  pictq :: "('d, 'img) VideoPicture list"
  pictq_size :: int
  pictq_rindex :: nat
  pictq_windex :: nat
  quit :: bool

section \<open>The clocks\<close>

text \<open>The operands of the subtraction are unsigned; the difference is assigned to an \<open>int\<close>.\<close>

definition get_audio_clock :: "'d double_ops \<Rightarrow> ('d, 'img) VideoState \<Rightarrow> 'd" where
  "get_audio_clock D st =
     (let pts = audio_clock st;
          hw_buf_size = s32 (uint (audio_buf_size st - audio_buf_index st));
          n = s32 (audio_channels st * 2);
          bytes_per_sec = (if audio_st st then s32 (audio_sample_rate st * n) else 0)
      in if bytes_per_sec \<noteq> 0 then d_sub D pts (d_div D (d_of_int D hw_buf_size) (d_of_int D bytes_per_sec)) else pts)"

definition get_video_clock :: "'d double_ops \<Rightarrow> int \<Rightarrow> ('d, 'img) VideoState \<Rightarrow> 'd" where
  "get_video_clock D av_gettime st =
     (let delta = d_div D (d_of_int D (s64 (av_gettime - video_current_pts_time st))) (d_lit D 1000000 1)
      in d_add D (video_current_pts st) delta)"

definition get_external_clock :: "'d double_ops \<Rightarrow> int \<Rightarrow> 'd" where
  "get_external_clock D av_gettime = d_div D (d_of_int D av_gettime) (d_lit D 1000000 1)"

definition get_master_clock :: "'d double_ops \<Rightarrow> int \<Rightarrow> ('d, 'img) VideoState \<Rightarrow> 'd" where
  "get_master_clock D av_gettime st =
     (if av_sync_type st = AV_SYNC_VIDEO_MASTER then get_video_clock D av_gettime st
      else if av_sync_type st = AV_SYNC_AUDIO_MASTER then get_audio_clock D st
      else get_external_clock D av_gettime)"

section \<open>Fitting the audio to the master clock\<close>

text \<open>\<open>while (nb > 0) { memcpy(q, samples_end, n); q += n; nb -= n; }\<close>; the pointers are offsets into the samples, and a
  copy that does not fit into them has no result.\<close>

partial_function (option) copy_samples :: "int \<Rightarrow> int \<Rightarrow> int \<Rightarrow> int \<Rightarrow> bytes \<Rightarrow> bytes option" where
  "copy_samples nb n q samples_end samples =
     (if nb > 0 then
        if 0 \<le> samples_end \<and> 0 \<le> n \<and> samples_end + n \<le> q \<and> q + n \<le> int (length samples)
        then copy_samples (nb - n) n (q + n) samples_end
               (take (nat q) samples @ take (nat n) (drop (nat samples_end) samples) @ drop (nat (q + n)) samples)
        else None
      else Some samples)"

text \<open>The new size, limited to the permitted correction; the percentages are integer divisions, as in the code.\<close>

definition wanted_audio_size :: "'d double_ops \<Rightarrow> ('d, 'img) VideoState \<Rightarrow> 'd \<Rightarrow> int \<Rightarrow> int \<Rightarrow> int" where
  "wanted_audio_size D st diff n samples_size =
     (let wanted_size = s32 (samples_size + s32 (s32 (d_to_int D (d_mul D diff (d_of_int D (audio_sample_rate st)))) * n));
          min_size = s32 (samples_size * ((100 - SAMPLE_CORRECTION_PERCENT_MAX) div 100));
          max_size = s32 (samples_size * ((100 + SAMPLE_CORRECTION_PERCENT_MAX) div 100))
      in if wanted_size < min_size then min_size else if wanted_size > max_size then max_size else wanted_size)"

definition resize_samples :: "int \<Rightarrow> int \<Rightarrow> bytes \<Rightarrow> int \<Rightarrow> (bytes \<times> int) option" where
  "resize_samples n wanted_size samples samples_size =
     (if wanted_size < samples_size then Some (samples, wanted_size)
      else if wanted_size > samples_size then
        do { let nb = s32 (samples_size - wanted_size);
             samples \<leftarrow> copy_samples nb n samples_size (samples_size - n) samples;
             Some (samples, wanted_size) }
      else Some (samples, samples_size))"

definition synchronize_audio :: "'d double_ops \<Rightarrow> int \<Rightarrow> ('d, 'img) VideoState \<Rightarrow> bytes \<Rightarrow> int \<Rightarrow>
    (('d, 'img) VideoState \<times> bytes \<times> int) option" where
  "synchronize_audio D av_gettime st samples samples_size =
     (let n = s32 (2 * audio_channels st)
      in if av_sync_type st \<noteq> AV_SYNC_AUDIO_MASTER then
           let ref_clock = get_master_clock D av_gettime st;
               diff = d_sub D (get_audio_clock D st) ref_clock
           in if d_less D diff (AV_NOSYNC_THRESHOLD D) then
                let st = st\<lparr>audio_diff_cum := d_add D diff (d_mul D (audio_diff_avg_coef st) (audio_diff_cum st))\<rparr>
                in if audio_diff_avg_count st < AUDIO_DIFF_AVG_NB
                   then Some (st\<lparr>audio_diff_avg_count := audio_diff_avg_count st + 1\<rparr>, samples, samples_size)
                   else
                     let avg_diff = d_mul D (audio_diff_cum st) (d_sub D (d_lit D 1 1) (audio_diff_avg_coef st))
                     in if d_le D (audio_diff_threshold st) (d_fabs D avg_diff) then
                          do { (samples, samples_size) \<leftarrow>
                                 resize_samples n (wanted_audio_size D st diff n samples_size) samples samples_size;
                               Some (st, samples, samples_size) }
                        else Some (st, samples, samples_size)
              else Some (st\<lparr>audio_diff_avg_count := 0, audio_diff_cum := d_of_int D 0\<rparr>, samples, samples_size)
         else Some (st, samples, samples_size))"

section \<open>Timing of the pictures\<close>

text \<open>\<open>video_refresh_timer\<close> on a picture: the state with the timers moved on, and the delay in milliseconds until the next
  refresh. The master clock is read while other threads run and is an argument.\<close>

definition video_refresh_delay :: "'d double_ops \<Rightarrow> int \<Rightarrow> 'd \<Rightarrow> int \<Rightarrow> 'd \<Rightarrow> ('d, 'img) VideoState \<Rightarrow>
    ('d, 'img) VideoState \<times> int" where
  "video_refresh_delay D now1 ref_clock now2 pts st =
     (let st = st\<lparr>video_current_pts := pts, video_current_pts_time := now1\<rparr>;
          delay = d_sub D pts (frame_last_pts st);
          delay = (if d_le D delay (d_of_int D 0) \<or> d_le D (d_lit D 1 1) delay then frame_last_delay st else delay);
          st = st\<lparr>frame_last_delay := delay, frame_last_pts := pts\<rparr>;
          delay =
            (if av_sync_type st \<noteq> AV_SYNC_VIDEO_MASTER then
               let diff = d_sub D pts ref_clock;
                   sync_threshold = (if d_less D (AV_SYNC_THRESHOLD D) delay then delay else AV_SYNC_THRESHOLD D)
               in if d_less D (d_fabs D diff) (AV_NOSYNC_THRESHOLD D) then
                    if d_le D diff (d_neg D sync_threshold) then d_of_int D 0
                    else if d_le D sync_threshold diff then d_mul D (d_of_int D 2) delay
                    else delay
                  else delay
             else delay);
          st = st\<lparr>frame_timer := d_add D (frame_timer st) delay\<rparr>;
          actual_delay = d_sub D (frame_timer st) (d_div D (d_of_int D now2) (d_lit D 1000000 1));
          actual_delay = (if d_less D actual_delay (d_lit D 10 1000) then d_lit D 10 1000 else actual_delay)
      in (st, s32 (d_to_int D (d_add D (d_mul D actual_delay (d_of_int D 1000)) (d_lit D 5 10)))))"

definition synchronize_video :: "'d double_ops \<Rightarrow> 'd \<Rightarrow> int \<Rightarrow> ('d, 'img) VideoState \<Rightarrow> 'd \<Rightarrow>
    ('d, 'img) VideoState \<times> 'd" where
  "synchronize_video D time_base repeat_pict st pts =
     (let (st, pts) = (if \<not> d_eq D pts (d_of_int D 0) then (st\<lparr>video_clock := pts\<rparr>, pts) else (st, video_clock st));
          frame_delay = time_base;
          frame_delay = d_add D frame_delay (d_mul D (d_of_int D repeat_pict) (d_mul D frame_delay (d_lit D 5 10)))
      in (st\<lparr>video_clock := d_add D (video_clock st) frame_delay\<rparr>, pts))"

section \<open>The audio buffer never grows\<close>

lemma wanted_audio_size_range:
  assumes "is_s32 samples_size" and "0 \<le> samples_size"
  shows "0 \<le> wanted_audio_size D st diff n samples_size" "wanted_audio_size D st diff n samples_size \<le> samples_size"
  using assms by (simp_all add: wanted_audio_size_def SAMPLE_CORRECTION_PERCENT_MAX_def Let_def)

lemma synchronize_audio_aux:
  assumes "is_s32 samples_size" and "0 \<le> samples_size"
  shows "\<exists>st' size. synchronize_audio D now st samples samples_size = Some (st', samples, size) \<and>
    0 \<le> size \<and> size \<le> samples_size \<and> (av_sync_type st = AV_SYNC_AUDIO_MASTER \<longrightarrow> st' = st \<and> size = samples_size)"
proof -
  have r: "\<exists>size. resize_samples n (wanted_audio_size D st' diff n samples_size) samples samples_size = Some (samples, size) \<and>
      0 \<le> size \<and> size \<le> samples_size" for st' diff n
    using wanted_audio_size_range [OF assms, of D st' diff n] assms(2)
    by (auto simp: resize_samples_def)
  let ?diff = "d_sub D (get_audio_clock D st) (get_master_clock D now st)"
  let ?cum = "d_add D ?diff (d_mul D (audio_diff_avg_coef st) (audio_diff_cum st))"
  let ?st = "st\<lparr>audio_diff_cum := ?cum\<rparr>" and ?n = "s32 (2 * audio_channels st)"
  note def = synchronize_audio_def Let_def
  consider (master) "av_sync_type st = AV_SYNC_AUDIO_MASTER"
    | (far) "av_sync_type st \<noteq> AV_SYNC_AUDIO_MASTER" "\<not> d_less D ?diff (AV_NOSYNC_THRESHOLD D)"
    | (few) "av_sync_type st \<noteq> AV_SYNC_AUDIO_MASTER" "d_less D ?diff (AV_NOSYNC_THRESHOLD D)"
        "audio_diff_avg_count st < AUDIO_DIFF_AVG_NB"
    | (near) "av_sync_type st \<noteq> AV_SYNC_AUDIO_MASTER" "d_less D ?diff (AV_NOSYNC_THRESHOLD D)"
        "\<not> audio_diff_avg_count st < AUDIO_DIFF_AVG_NB"
        "\<not> d_le D (audio_diff_threshold st) (d_fabs D (d_mul D ?cum (d_sub D (d_lit D 1 1) (audio_diff_avg_coef st))))"
    | (fit) "av_sync_type st \<noteq> AV_SYNC_AUDIO_MASTER" "d_less D ?diff (AV_NOSYNC_THRESHOLD D)"
        "\<not> audio_diff_avg_count st < AUDIO_DIFF_AVG_NB"
        "d_le D (audio_diff_threshold st) (d_fabs D (d_mul D ?cum (d_sub D (d_lit D 1 1) (audio_diff_avg_coef st))))"
    by blast
  then show ?thesis
  proof cases
    case master
    then show ?thesis using assms by (intro exI [of _ st] exI [of _ samples_size]) (simp add: def)
  next
    case far
    then show ?thesis using assms
      by (intro exI [of _ "st\<lparr>audio_diff_avg_count := 0, audio_diff_cum := d_of_int D 0\<rparr>"] exI [of _ samples_size]) (simp add: def)
  next
    case few
    then show ?thesis using assms
      by (intro exI [of _ "?st\<lparr>audio_diff_avg_count := audio_diff_avg_count st + 1\<rparr>"] exI [of _ samples_size]) (simp add: def)
  next
    case near
    then show ?thesis using assms by (intro exI [of _ ?st] exI [of _ samples_size]) (simp add: def)
  next
    case fit
    from r [of ?n ?st ?diff] obtain size where
      "resize_samples ?n (wanted_audio_size D ?st ?diff ?n samples_size) samples samples_size = Some (samples, size)"
      "0 \<le> size" "size \<le> samples_size" by blast
    then show ?thesis using fit by (intro exI [of _ ?st] exI [of _ size]) (simp add: def)
  qed
qed

text \<open>C19: For a buffer of at most \<open>INT_MAX\<close> bytes \<open>synchronize_audio\<close> returns, leaves the samples as they are, and returns a size
  between nothing and the whole buffer, whatever the clocks and whatever the arithmetic of \<open>double\<close> does. So it never
  adds samples, and it is not limited to ten percent either: the percentages are divided as integers, to 0 and 1.
  With the audio clock as master it changes nothing.\<close>

theorem synchronize_audio_never_grows:
  assumes "is_s32 samples_size" and "0 \<le> samples_size"
  shows "\<exists>st' size. synchronize_audio D now st samples samples_size = Some (st', samples, size) \<and>
    0 \<le> size \<and> size \<le> samples_size \<and> (av_sync_type st = AV_SYNC_AUDIO_MASTER \<longrightarrow> st' = st \<and> size = samples_size)"
  by (rule synchronize_audio_aux [OF assms])

text \<open>An arithmetic of whole numbers, and a state in which the audio is nine seconds late: the whole buffer is dropped.\<close>

definition whole_doubles :: "int double_ops" where
  "whole_doubles = \<lparr>d_of_int = \<lambda>n. n, d_lit = \<lambda>a b. a div b, d_add = (+), d_sub = (-), d_mul = (*), d_div = (div), d_neg = uminus,
     d_eq = (=), d_less = (<), d_le = (\<le>), d_fabs = abs, d_to_int = \<lambda>n. n\<rparr>"

definition start_state :: "int \<Rightarrow> (int, 'img) VideoState" where
  "start_state clock = \<lparr>videoStream = 0, audioStream = 1, av_sync_type = AV_SYNC_EXTERNAL_MASTER, audio_diff_cum = 0,
     audio_diff_avg_coef = 0, audio_diff_threshold = 0, audio_diff_avg_count = 20, audio_clock = clock, frame_timer = 0,
     frame_last_pts = 0, frame_last_delay = 0, video_clock = 0, video_current_pts = 0, video_current_pts_time = 0,
     audio_st = True, audio_channels = 2, audio_sample_rate = 44100, audioq = packet_queue_init, audio_buf = [],
     audio_buf_size = 0, audio_buf_index = 0,
     audio_pkt = \<lparr>pkt_data = None, pkt_size = 0, pkt_pts = 0, pkt_stream_index = 0\<rparr>, audio_pkt_data = 0, audio_pkt_size = 0,
     video_st = True, video_width = 16, video_height = 16, videoq = packet_queue_init, pictq = [], pictq_size = 0,
     pictq_rindex = 0, pictq_windex = 0, quit = False\<rparr>"

lemma synchronize_audio_never_grows_witness:
  "(\<exists>st' size. synchronize_audio whole_doubles 12000000 (start_state 3) (replicate 400 5) 400 = Some (st', replicate 400 5, size) \<and>
     0 \<le> size \<and> size \<le> 400) \<and>
   map_option (\<lambda>(st, samples, size). size) (synchronize_audio whole_doubles 12000000 (start_state 3) (replicate 400 5) 400) = Some 0"
proof
  have "is_s32 400" by (simp add: is_s32_def)
  from synchronize_audio_never_grows [OF this, of whole_doubles 12000000 "start_state 3" "replicate 400 5"]
  show "\<exists>st' size. synchronize_audio whole_doubles 12000000 (start_state 3) (replicate 400 5) 400 = Some (st', replicate 400 5, size) \<and>
     0 \<le> size \<and> size \<le> 400" by auto
  show "map_option (\<lambda>(st, samples, size). size) (synchronize_audio whole_doubles 12000000 (start_state 3) (replicate 400 5) 400) = Some 0"
    by (simp add: synchronize_audio_def Let_def start_state_def whole_doubles_def get_master_clock_def get_external_clock_def
        get_audio_clock_def wanted_audio_size_def resize_samples_def SAMPLE_CORRECTION_PERCENT_MAX_def AUDIO_DIFF_AVG_NB_def
        s32_def signed_take_bit_int_eq_self)
qed

section \<open>What the timing code leaves alone\<close>

lemma diff_updates:
  "st = st\<lparr>audio_diff_cum := audio_diff_cum st, audio_diff_avg_count := audio_diff_avg_count st\<rparr>"
  "st\<lparr>audio_diff_cum := c\<rparr> = st\<lparr>audio_diff_cum := c, audio_diff_avg_count := audio_diff_avg_count st\<rparr>"
  "st\<lparr>audio_diff_avg_count := k, audio_diff_cum := c\<rparr> = st\<lparr>audio_diff_cum := c, audio_diff_avg_count := k\<rparr>"
  by simp_all

lemma synchronize_audio_frame:
  assumes "synchronize_audio D now st samples samples_size = Some (st', samples', sz)"
  shows "\<exists>c k. st' = st\<lparr>audio_diff_cum := c, audio_diff_avg_count := k\<rparr>"
  using assms unfolding synchronize_audio_def Let_def
  by (auto split: if_splits bind_splits) (blast intro: diff_updates)+

end
