(* ===== verification/PlayerSystem.thy ===== *)
theory PlayerSystem imports PlayerSync
begin

text \<open>
  The threads of \<open>coding-279/player/player6.c\<close>: the demuxer, the video decoder, the audio callback that SDL calls, and
  the main thread with its event loop. They share one \<open>VideoState\<close>, the two packet queues and the queue of pictures. A
  thread is at a program point; a step takes it to the next one, and which thread moves is open. What a thread does with
  a mutex held is one step; what it does without one on shared data is a step of its own, so that a picture is being
  written or shown while its thread is at that point. A thread that waits for a condition may also wake without
  a signal. The decoders, the scaler, the resampler and SDL are parameters, and so are the results of reading the file, of
  allocating memory and of reading the clock. Logs that the code does not have record what went through each stage.
\<close>

section \<open>Parameters\<close>

record ('d, 'img, 'f, 'cv, 'ca) player_env =
  doubles :: "'d double_ops"
  avcodec_decode_video2 :: "'cv \<Rightarrow> AVPacket \<Rightarrow> 'cv \<times> 'f option"   \<comment> \<open>the frame, if one is finished\<close>
  best_effort_timestamp :: "'f \<Rightarrow> int"
  repeat_pict :: "'f \<Rightarrow> int"
  sws_scale :: "'f \<Rightarrow> 'img"
  avpicture_alloc :: 'img                                              \<comment> \<open>what a new picture holds\<close>
  video_st_time_base :: 'd
  video_ctx_time_base :: 'd
  audio_st_time_base :: 'd
  avcodec_decode_audio4 :: "'ca \<Rightarrow> AVPacket \<Rightarrow> 'ca \<times> int \<times> (int \<times> bytes) option"
    \<comment> \<open>the bytes used, and of a frame the number of samples and the bytes that \<open>swr_convert\<close> makes of it\<close>

datatype media_type = AVMEDIA_TYPE_VIDEO | AVMEDIA_TYPE_AUDIO | AVMEDIA_TYPE_OTHER

text \<open>A stream of the file, with the results of the calls that open it.\<close>

record stream_params =
  codec_type :: media_type
  parameters_ret :: int
  decoder_found :: bool
  open_audio_ret :: int
  avcodec_open2_ret :: int
  ctx_channels :: int
  ctx_sample_rate :: int
  ctx_width :: int
  ctx_height :: int

datatype read_frame = Read_packet AVPacket | Read_error int   \<comment> \<open>with \<open>pFormatCtx->pb->error\<close>\<close>

section \<open>Program points\<close>

datatype demux_pc =
  D_Start
| D_OpenAudio "stream_params list"
| D_OpenVideo "stream_params list"
| D_Check
| D_Loop
| D_Put AVPacket
| D_Wait                    \<comment> \<open>\<open>while(!is->quit)\<close>\<close>
| D_Fail                    \<comment> \<open>at the label \<open>fail\<close>\<close>
| D_Done

datatype ('d, 'f) video_pc =
  V_Off                     \<comment> \<open>not created yet\<close>
| V_Get                     \<comment> \<open>in \<open>packet_queue_get\<close>\<close>
| V_WaitPkt                 \<comment> \<open>waits for a packet\<close>
| V_Decode AVPacket
| V_Queue 'f 'd             \<comment> \<open>in \<open>queue_picture\<close>, at the test of the loop\<close>
| V_WaitPic 'f 'd           \<comment> \<open>waits for a place\<close>
| V_Check 'f 'd             \<comment> \<open>at \<open>if(is->quit)\<close>\<close>
| V_Fill 'f 'd              \<comment> \<open>writes the picture\<close>
| V_Publish                 \<comment> \<open>about to count the picture\<close>
| V_Done

datatype audio_pc =
  A_Off                     \<comment> \<open>SDL does not call yet\<close>
| A_Idle                    \<comment> \<open>between two calls of \<open>audio_callback\<close>\<close>
| A_Fill int                \<comment> \<open>in \<open>audio_callback\<close> with \<open>len\<close> bytes to go\<close>
| A_Decode int              \<comment> \<open>in \<open>audio_decode_frame\<close>, at the inner loop\<close>
| A_GetPkt int              \<comment> \<open>after the inner loop\<close>
| A_Pass int                \<comment> \<open>in \<open>packet_queue_get\<close>\<close>
| A_WaitPkt int
| A_Sync int int            \<comment> \<open>decoded that many bytes\<close>
| A_Error int               \<comment> \<open>got no data\<close>
| A_Abort                   \<comment> \<open>a failed assertion\<close>

datatype main_pc =
  M_Event                   \<comment> \<open>in \<open>SDL_WaitEvent\<close>\<close>
| M_Show                    \<comment> \<open>shows the picture\<close>
| M_Release                 \<comment> \<open>about to give its place back\<close>
| M_Done

record ('d, 'img, 'f, 'cv, 'ca) player =
  vs :: "('d, 'img) VideoState"
  heap :: pl_heap
  dm :: demux_pc
  vd :: "('d, 'f) video_pc"
  au :: audio_pc
  mn :: main_pc
  dec_v :: 'cv
  dec_a :: 'ca
  timers :: nat                           \<comment> \<open>refreshes scheduled and not handled\<close>
  quit_event :: bool
  put_v :: "AVPacket list"                \<comment> \<open>logs: packets that entered and left the queues\<close>
  got_v :: "AVPacket list"
  put_a :: "AVPacket list"
  got_a :: "AVPacket list"
  shown :: "('d \<times> 'img) list"             \<comment> \<open>pictures shown\<close>
  filled :: "bytes list"                  \<comment> \<open>what the audio buffer was filled with\<close>
  mixed :: bytes                          \<comment> \<open>bytes given to SDL\<close>

section \<open>The demuxer\<close>

definition MAX_AUDIOQ_SIZE :: int where "MAX_AUDIOQ_SIZE = 5 * 16 * 1024"
definition MAX_VIDEOQ_SIZE :: int where "MAX_VIDEOQ_SIZE = 5 * 256 * 1024"

definition no_packet :: AVPacket where
  "no_packet = \<lparr>pkt_data = None, pkt_size = 0, pkt_pts = 0, pkt_stream_index = 0\<rparr>"

text \<open>The function returns -1 or, at its end, no value.\<close>

definition stream_component_open :: "'d double_ops \<Rightarrow> int \<Rightarrow> int \<Rightarrow> stream_params list \<Rightarrow> int \<Rightarrow> ('d, 'img) VideoState \<Rightarrow>
    int option \<times> ('d, 'img) VideoState" where
  "stream_component_open D now1 now2 streams stream_index st =
     (if stream_index < 0 \<or> stream_index \<ge> int (length streams) then (Some (-1), st)
      else
        let p = streams ! nat stream_index
        in if parameters_ret p < 0 then (Some (-1), st)
           else if \<not> decoder_found p then (Some (-1), st)
           else if codec_type p = AVMEDIA_TYPE_AUDIO \<and> open_audio_ret p < 0 then (Some (-1), st)
           else if avcodec_open2_ret p < 0 then (Some (-1), st)
           else (None,
             case codec_type p of
               AVMEDIA_TYPE_AUDIO \<Rightarrow>
                 st\<lparr>audioStream := stream_index, audio_st := True, audio_channels := ctx_channels p,
                    audio_sample_rate := ctx_sample_rate p, audio_buf_size := 0, audio_buf_index := 0,
                    audio_pkt := no_packet, audioq := packet_queue_init\<rparr>
             | AVMEDIA_TYPE_VIDEO \<Rightarrow>
                 st\<lparr>videoStream := stream_index, video_st := True, video_width := ctx_width p,
                    video_height := ctx_height p,
                    frame_timer := d_div D (d_of_int D now1) (d_lit D 1000000 1), frame_last_delay := d_lit D 40 1000,
                    video_current_pts_time := now2, videoq := packet_queue_init\<rparr>
             | AVMEDIA_TYPE_OTHER \<Rightarrow> st))"

text \<open>The first stream of a kind, or -1.\<close>

fun first_stream :: "media_type \<Rightarrow> int \<Rightarrow> stream_params list \<Rightarrow> int" where
  "first_stream t i [] = -1"
| "first_stream t i (p # ps) = (if codec_type p = t then i else first_stream t (i + 1) ps)"

definition demux_start :: "int \<Rightarrow> int \<Rightarrow> stream_params list \<Rightarrow> ('d, 'img, 'f, 'cv, 'ca) player \<Rightarrow>
    ('d, 'img, 'f, 'cv, 'ca) player" where
  "demux_start open_input_ret find_stream_info_ret streams s =
     (let s = s\<lparr>vs := (vs s)\<lparr>videoStream := -1, audioStream := -1\<rparr>\<rparr>
      in if open_input_ret < 0 \<or> find_stream_info_ret < 0 then s\<lparr>dm := D_Done\<rparr> else s\<lparr>dm := D_OpenAudio streams\<rparr>)"

definition demux_open_audio :: "'d double_ops \<Rightarrow> int \<Rightarrow> int \<Rightarrow> stream_params list \<Rightarrow> ('d, 'img, 'f, 'cv, 'ca) player \<Rightarrow>
    ('d, 'img, 'f, 'cv, 'ca) player" where
  "demux_open_audio D now1 now2 streams s =
     (let audio_index = first_stream AVMEDIA_TYPE_AUDIO 0 streams;
          (ret, st) = (if audio_index \<ge> 0 then stream_component_open D now1 now2 streams audio_index (vs s) else (Some 0, vs s))
      in s\<lparr>vs := st, au := (if ret = None then A_Idle else au s), dm := D_OpenVideo streams\<rparr>)"

definition demux_open_video :: "'d double_ops \<Rightarrow> int \<Rightarrow> int \<Rightarrow> stream_params list \<Rightarrow> ('d, 'img, 'f, 'cv, 'ca) player \<Rightarrow>
    ('d, 'img, 'f, 'cv, 'ca) player" where
  "demux_open_video D now1 now2 streams s =
     (let video_index = first_stream AVMEDIA_TYPE_VIDEO 0 streams;
          (ret, st) = (if video_index \<ge> 0 then stream_component_open D now1 now2 streams video_index (vs s) else (Some 0, vs s))
      in s\<lparr>vs := st, vd := (if ret = None then V_Get else vd s), dm := D_Check\<rparr>)"

definition demux_check :: "('d, 'img, 'f, 'cv, 'ca) player \<Rightarrow> ('d, 'img, 'f, 'cv, 'ca) player" where
  "demux_check s = s\<lparr>dm := (if videoStream (vs s) < 0 \<or> audioStream (vs s) < 0 then D_Fail else D_Loop)\<rparr>"

text \<open>One pass of the main decode loop up to \<open>packet_queue_put\<close>.\<close>

definition demux_loop :: "read_frame \<Rightarrow> ('d, 'img, 'f, 'cv, 'ca) player \<Rightarrow> ('d, 'img, 'f, 'cv, 'ca) player" where
  "demux_loop av_read_frame s =
     s\<lparr>dm := (if quit (vs s) then D_Wait
             else if pq_size (audioq (vs s)) > MAX_AUDIOQ_SIZE \<or> pq_size (videoq (vs s)) > MAX_VIDEOQ_SIZE then D_Loop
             else case av_read_frame of
               Read_error pb_error \<Rightarrow> if pb_error = 0 then D_Loop else D_Wait
             | Read_packet packet \<Rightarrow> D_Put packet)\<rparr>"

text \<open>A signal wakes the thread that waits on the queue.\<close>

fun wake_video :: "('d, 'f) video_pc \<Rightarrow> ('d, 'f) video_pc" where
  "wake_video V_WaitPkt = V_Get"
| "wake_video p = p"

fun wake_audio :: "audio_pc \<Rightarrow> audio_pc" where
  "wake_audio (A_WaitPkt len) = A_Pass len"
| "wake_audio p = p"

fun wake_pictq :: "('d, 'f) video_pc \<Rightarrow> ('d, 'f) video_pc" where
  "wake_pictq (V_WaitPic f pts) = V_Queue f pts"
| "wake_pictq p = p"

definition demux_put :: "bool \<Rightarrow> nat option \<Rightarrow> AVPacket \<Rightarrow> ('d, 'img, 'f, 'cv, 'ca) player \<Rightarrow>
    ('d, 'img, 'f, 'cv, 'ca) player option" where
  "demux_put dup_ok av_malloc packet s =
     (if pkt_stream_index packet = videoStream (vs s) then
        do { (ret, h, q) \<leftarrow> packet_queue_put dup_ok av_malloc (heap s) (videoq (vs s)) packet;
             let s = s\<lparr>heap := h, vs := (vs s)\<lparr>videoq := q\<rparr>, dm := D_Loop\<rparr>;
             Some (if ret = 0 then s\<lparr>vd := wake_video (vd s), put_v := put_v s @ [packet]\<rparr> else s) }
      else if pkt_stream_index packet = audioStream (vs s) then
        do { (ret, h, q) \<leftarrow> packet_queue_put dup_ok av_malloc (heap s) (audioq (vs s)) packet;
             let s = s\<lparr>heap := h, vs := (vs s)\<lparr>audioq := q\<rparr>, dm := D_Loop\<rparr>;
             Some (if ret = 0 then s\<lparr>au := wake_audio (au s), put_a := put_a s @ [packet]\<rparr> else s) }
      else Some (s\<lparr>dm := D_Loop\<rparr>))"

definition demux_wait :: "('d, 'img, 'f, 'cv, 'ca) player \<Rightarrow> ('d, 'img, 'f, 'cv, 'ca) player" where
  "demux_wait s = (if quit (vs s) then s\<lparr>dm := D_Fail\<rparr> else s)"

definition demux_fail :: "('d, 'img, 'f, 'cv, 'ca) player \<Rightarrow> ('d, 'img, 'f, 'cv, 'ca) player" where
  "demux_fail s = s\<lparr>quit_event := True, dm := D_Done\<rparr>"

section \<open>The video decoder\<close>

definition video_get :: "('d, 'img, 'f, 'cv, 'ca) player \<Rightarrow> ('d, 'img, 'f, 'cv, 'ca) player option" where
  "video_get s =
     do { (h, q, pass) \<leftarrow> packet_queue_get (quit (vs s)) True (heap s) (videoq (vs s));
          let s = s\<lparr>heap := h, vs := (vs s)\<lparr>videoq := q\<rparr>\<rparr>;
          case pass of
            Pq_Break ret (Some packet) \<Rightarrow> Some (s\<lparr>vd := V_Decode packet, got_v := got_v s @ [packet]\<rparr>)
          | Pq_Break ret None \<Rightarrow> if ret < 0 then Some (s\<lparr>vd := V_Done\<rparr>) else None
          | Pq_CondWait \<Rightarrow> Some (s\<lparr>vd := V_WaitPkt\<rparr>) }"

text \<open>The time stamp of a frame, before the video clock is consulted.\<close>

definition frame_pts :: "('d, 'img, 'f, 'cv, 'ca) player_env \<Rightarrow> 'f \<Rightarrow> 'd" where
  "frame_pts E f =
     (let D = doubles E;
          pts = d_of_int D (best_effort_timestamp E f);
          pts = (if \<not> d_eq D pts (d_of_int D AV_NOPTS_VALUE) then pts else d_of_int D 0)
      in d_mul D pts (video_st_time_base E))"

definition video_decode :: "('d, 'img, 'f, 'cv, 'ca) player_env \<Rightarrow> AVPacket \<Rightarrow> ('d, 'img, 'f, 'cv, 'ca) player \<Rightarrow>
    ('d, 'img, 'f, 'cv, 'ca) player" where
  "video_decode E packet s =
     (let (ctx, frame) = avcodec_decode_video2 E (dec_v s) packet; s = s\<lparr>dec_v := ctx\<rparr>
      in case frame of
           None \<Rightarrow> s\<lparr>vd := V_Get\<rparr>
         | Some f \<Rightarrow>
             let (st, pts) = synchronize_video (doubles E) (video_ctx_time_base E) (repeat_pict E f) (vs s) (frame_pts E f)
             in s\<lparr>vs := st, vd := V_Queue f pts\<rparr>)"

definition picture_wait :: "'f \<Rightarrow> 'd \<Rightarrow> ('d, 'img, 'f, 'cv, 'ca) player \<Rightarrow> ('d, 'img, 'f, 'cv, 'ca) player" where
  "picture_wait f pts s =
     s\<lparr>vd := (if pictq_size (vs s) \<ge> int VIDEO_PICTURE_QUEUE_SIZE \<and> \<not> quit (vs s) then V_WaitPic f pts else V_Check f pts)\<rparr>"

definition picture_check :: "'f \<Rightarrow> 'd \<Rightarrow> ('d, 'img, 'f, 'cv, 'ca) player \<Rightarrow> ('d, 'img, 'f, 'cv, 'ca) player" where
  "picture_check f pts s = s\<lparr>vd := (if quit (vs s) then V_Done else V_Fill f pts)\<rparr>"

text \<open>The memory of a picture is taken to be available: the code does not test it.\<close>

definition alloc_picture :: "('d, 'img, 'f, 'cv, 'ca) player_env \<Rightarrow> ('d, 'img) VideoState \<Rightarrow> ('d, 'img) VideoState" where
  "alloc_picture E st =
     (let vp = pictq st ! pictq_windex st
      in st\<lparr>pictq := (pictq st)[pictq_windex st :=
              vp\<lparr>bmp := Some (avpicture_alloc E), vp_width := video_width st, vp_height := video_height st, allocated := True\<rparr>]\<rparr>)"

definition next_slot :: "nat \<Rightarrow> nat" where
  "next_slot i = (if i + 1 = VIDEO_PICTURE_QUEUE_SIZE then 0 else i + 1)"

definition picture_fill :: "('d, 'img, 'f, 'cv, 'ca) player_env \<Rightarrow> 'f \<Rightarrow> 'd \<Rightarrow> ('d, 'img, 'f, 'cv, 'ca) player \<Rightarrow>
    ('d, 'img, 'f, 'cv, 'ca) player" where
  "picture_fill E f pts s =
     (let st = vs s; w = pictq_windex st; vp = pictq st ! w;
          new = (bmp vp = None \<or> vp_width vp \<noteq> video_width st \<or> vp_height vp \<noteq> video_height st);
          st = (if new then alloc_picture E (st\<lparr>pictq := (pictq st)[w := vp\<lparr>allocated := False\<rparr>]\<rparr>) else st);
          vp = pictq st ! w
      in if new \<and> quit st then s\<lparr>vs := st, vd := V_Done\<rparr>
         else if bmp vp \<noteq> None then
           s\<lparr>vs := st\<lparr>pictq := (pictq st)[w := vp\<lparr>vp_pts := pts, bmp := Some (sws_scale E f)\<rparr>], pictq_windex := next_slot w\<rparr>,
             vd := V_Publish\<rparr>
         else s\<lparr>vs := st, vd := V_Get\<rparr>)"

definition picture_publish :: "('d, 'img, 'f, 'cv, 'ca) player \<Rightarrow> ('d, 'img, 'f, 'cv, 'ca) player" where
  "picture_publish s = s\<lparr>vs := (vs s)\<lparr>pictq_size := s32 (pictq_size (vs s) + 1)\<rparr>, vd := V_Get\<rparr>"

section \<open>The audio callback\<close>

text \<open>One pass of the loop of \<open>audio_callback\<close>; bytes outside the buffer have no value.\<close>

definition audio_fill :: "int \<Rightarrow> ('d, 'img, 'f, 'cv, 'ca) player \<Rightarrow> ('d, 'img, 'f, 'cv, 'ca) player option" where
  "audio_fill len s =
     (let st = vs s
      in if len \<le> 0 then Some (s\<lparr>au := A_Idle\<rparr>)
         else if audio_buf_index st \<ge> audio_buf_size st then Some (s\<lparr>au := A_Decode len\<rparr>)
         else
           let len1 = s32 (uint (audio_buf_size st - audio_buf_index st));
               len1 = (if len1 > len then len else len1);
               i = unat (audio_buf_index st)
           in if 0 \<le> len1 \<and> i + nat len1 \<le> length (audio_buf st)
              then Some (s\<lparr>vs := st\<lparr>audio_buf_index := audio_buf_index st + of_int len1\<rparr>, au := A_Fill (len - len1),
                           mixed := mixed s @ take (nat len1) (drop i (audio_buf st))\<rparr>)
              else None)"

text \<open>A pass of the inner loop of \<open>audio_decode_frame\<close>. What \<open>swr_convert\<close> makes is stored at the start of the buffer.\<close>

definition audio_decode :: "('d, 'img, 'f, 'cv, 'ca) player_env \<Rightarrow> int \<Rightarrow> ('d, 'img, 'f, 'cv, 'ca) player \<Rightarrow>
    ('d, 'img, 'f, 'cv, 'ca) player option" where
  "audio_decode E len s =
     (let st = vs s; D = doubles E
      in if audio_pkt_size st > 0 then
           let (ctx, len1, frame) = avcodec_decode_audio4 E (dec_a s) (audio_pkt st);
               s = s\<lparr>dec_a := ctx\<rparr>
           in if len1 < 0 then Some (s\<lparr>vs := st\<lparr>audio_pkt_size := 0\<rparr>, au := A_GetPkt len\<rparr>)
              else
                let (data_size, converted) = (case frame of None \<Rightarrow> (0, []) | Some (nb_samples, bs) \<Rightarrow> (s32 (2 * nb_samples * 2), bs))
                in if data_size > int (length (audio_buf st)) then Some (s\<lparr>au := A_Abort\<rparr>)
                   else if length converted > length (audio_buf st) then None
                   else
                     let st = st\<lparr>audio_buf := converted @ drop (length converted) (audio_buf st),
                                 audio_pkt_data := audio_pkt_data st + len1, audio_pkt_size := audio_pkt_size st - len1\<rparr>
                     in if data_size \<le> 0 then Some (s\<lparr>vs := st, au := A_Decode len\<rparr>)
                        else
                          let n = s32 (2 * audio_channels st);
                              st = st\<lparr>audio_clock := d_add D (audio_clock st)
                                     (d_div D (d_of_int D data_size) (d_of_int D (s32 (n * audio_sample_rate st))))\<rparr>
                          in Some (s\<lparr>vs := st, au := A_Sync len data_size\<rparr>)
         else Some (s\<lparr>au := A_GetPkt len\<rparr>))"

definition audio_next :: "int \<Rightarrow> ('d, 'img, 'f, 'cv, 'ca) player \<Rightarrow> ('d, 'img, 'f, 'cv, 'ca) player" where
  "audio_next len s =
     (let st = vs s;
          st = (if pkt_data (audio_pkt st) \<noteq> None then st\<lparr>audio_pkt := (audio_pkt st)\<lparr>pkt_data := None, pkt_size := 0\<rparr>\<rparr> else st)
      in s\<lparr>vs := st, au := (if quit st then A_Error len else A_Pass len)\<rparr>)"

definition audio_get :: "('d, 'img, 'f, 'cv, 'ca) player_env \<Rightarrow> int \<Rightarrow> ('d, 'img, 'f, 'cv, 'ca) player \<Rightarrow>
    ('d, 'img, 'f, 'cv, 'ca) player option" where
  "audio_get E len s =
     do { (h, q, pass) \<leftarrow> packet_queue_get (quit (vs s)) True (heap s) (audioq (vs s));
          let st = (vs s)\<lparr>audioq := q\<rparr>;
          case pass of
            Pq_Break ret (Some pkt) \<Rightarrow>
              let st = st\<lparr>audio_pkt := pkt, audio_pkt_data := 0, audio_pkt_size := pkt_size pkt\<rparr>;
                  st = (if pkt_pts pkt \<noteq> AV_NOPTS_VALUE
                        then st\<lparr>audio_clock := d_mul (doubles E) (audio_st_time_base E) (d_of_int (doubles E) (pkt_pts pkt))\<rparr>
                        else st)
              in Some (s\<lparr>heap := h, vs := st, au := A_Decode len, got_a := got_a s @ [pkt]\<rparr>)
          | Pq_Break ret None \<Rightarrow> if ret < 0 then Some (s\<lparr>heap := h, vs := st, au := A_Error len\<rparr>) else None
          | Pq_CondWait \<Rightarrow> Some (s\<lparr>heap := h, vs := st, au := A_WaitPkt len\<rparr>) }"

definition audio_silence :: "int \<Rightarrow> ('d, 'img, 'f, 'cv, 'ca) player \<Rightarrow> ('d, 'img, 'f, 'cv, 'ca) player option" where
  "audio_silence len s =
     (let n = 1024 * 2 * 2
      in if n \<le> length (audio_buf (vs s)) then
           Some (s\<lparr>vs := (vs s)\<lparr>audio_buf_size := of_nat n, audio_buf := replicate n 0 @ drop n (audio_buf (vs s)), audio_buf_index := 0\<rparr>,
                   filled := filled s @ [replicate n 0], au := A_Fill len\<rparr>)
         else None)"

definition audio_sync :: "('d, 'img, 'f, 'cv, 'ca) player_env \<Rightarrow> int \<Rightarrow> int \<Rightarrow> int \<Rightarrow> ('d, 'img, 'f, 'cv, 'ca) player \<Rightarrow>
    ('d, 'img, 'f, 'cv, 'ca) player option" where
  "audio_sync E now len audio_size s =
     do { (st, buf, audio_size) \<leftarrow> synchronize_audio (doubles E) now (vs s) (audio_buf (vs s)) audio_size;
          Some (s\<lparr>vs := st\<lparr>audio_buf := buf, audio_buf_size := of_int audio_size, audio_buf_index := 0\<rparr>,
                  filled := filled s @ [take (nat audio_size) buf], au := A_Fill len\<rparr>) }"

section \<open>The main thread\<close>

text \<open>\<open>video_refresh_timer\<close> up to \<open>video_display\<close>. Every branch schedules one refresh.\<close>

definition main_refresh :: "'d double_ops \<Rightarrow> int \<Rightarrow> 'd \<Rightarrow> int \<Rightarrow> ('d, 'img, 'f, 'cv, 'ca) player \<Rightarrow>
    ('d, 'img, 'f, 'cv, 'ca) player" where
  "main_refresh D now1 ref_clock now2 s =
     (let st = vs s; s = s\<lparr>timers := timers s - 1\<rparr>
      in if video_st st then
           if pictq_size st = 0 then s\<lparr>timers := timers s + 1\<rparr>
           else let vp = pictq st ! pictq_rindex st;
                    (st, delay) = video_refresh_delay D now1 ref_clock now2 (vp_pts vp) st
                in s\<lparr>vs := st, timers := timers s + 1, mn := M_Show\<rparr>
         else s\<lparr>timers := timers s + 1\<rparr>)"

definition main_show :: "('d, 'img, 'f, 'cv, 'ca) player \<Rightarrow> ('d, 'img, 'f, 'cv, 'ca) player" where
  "main_show s =
     (let st = vs s; vp = pictq st ! pictq_rindex st
      in s\<lparr>shown := (case bmp vp of Some img \<Rightarrow> shown s @ [(vp_pts vp, img)] | None \<Rightarrow> shown s),
           vs := st\<lparr>pictq_rindex := next_slot (pictq_rindex st)\<rparr>, mn := M_Release\<rparr>)"

definition main_release :: "('d, 'img, 'f, 'cv, 'ca) player \<Rightarrow> ('d, 'img, 'f, 'cv, 'ca) player" where
  "main_release s =
     s\<lparr>vs := (vs s)\<lparr>pictq_size := s32 (pictq_size (vs s) - 1)\<rparr>, vd := wake_pictq (vd s), mn := M_Event\<rparr>"

definition main_quit :: "('d, 'img, 'f, 'cv, 'ca) player \<Rightarrow> ('d, 'img, 'f, 'cv, 'ca) player" where
  "main_quit s = s\<lparr>vs := (vs s)\<lparr>quit := True\<rparr>, mn := M_Done\<rparr>"

section \<open>Start and steps\<close>

text \<open>\<open>main\<close>: a state of zeroes, one refresh scheduled, the demuxer created. The codec contexts are given.\<close>

definition player_start :: "'d double_ops \<Rightarrow> 'cv \<Rightarrow> 'ca \<Rightarrow> ('d, 'img, 'f, 'cv, 'ca) player" where
  "player_start D cv ca =
     (let zero = d_of_int D 0
      in \<lparr>vs = \<lparr>videoStream = 0, audioStream = 0, av_sync_type = AV_SYNC_AUDIO_MASTER, audio_diff_cum = zero,
            audio_diff_avg_coef = zero, audio_diff_threshold = zero, audio_diff_avg_count = 0, audio_clock = zero,
            frame_timer = zero, frame_last_pts = zero, frame_last_delay = zero, video_clock = zero,
            video_current_pts = zero, video_current_pts_time = 0, audio_st = False, audio_channels = 0,
            audio_sample_rate = 0, audioq = packet_queue_init, audio_buf = replicate (MAX_AUDIO_FRAME_SIZE * 3 div 2) 0,
            audio_buf_size = 0, audio_buf_index = 0, audio_pkt = no_packet, audio_pkt_data = 0, audio_pkt_size = 0,
            video_st = False, video_width = 0, video_height = 0, videoq = packet_queue_init,
            pictq = replicate VIDEO_PICTURE_QUEUE_SIZE \<lparr>bmp = None, vp_width = 0, vp_height = 0, allocated = False, vp_pts = zero\<rparr>,
            pictq_size = 0, pictq_rindex = 0, pictq_windex = 0, quit = False\<rparr>,
          heap = Map.empty, dm = D_Start, vd = V_Off, au = A_Off, mn = M_Event, dec_v = cv, dec_a = ca, timers = 1,
          quit_event = False, put_v = [], got_v = [], put_a = [], got_a = [], shown = [], filled = [], mixed = []\<rparr>)"

text \<open>What is known of the parameters: memory is given once, a packet that is read has a size from 0 to \<open>mx\<close>, and the
  resampler, whose two rates are equal, writes no more samples than it gets.\<close>

definition fresh :: "pl_heap \<Rightarrow> nat option \<Rightarrow> bool" where
  "fresh h a \<longleftrightarrow> (case a of Some a \<Rightarrow> a \<notin> dom h | None \<Rightarrow> True)"

definition read_ok :: "int \<Rightarrow> read_frame \<Rightarrow> bool" where
  "read_ok mx r \<longleftrightarrow> (case r of Read_packet p \<Rightarrow> 0 \<le> pkt_size p \<and> pkt_size p \<le> mx | Read_error e \<Rightarrow> True)"

definition env_ok :: "('d, 'img, 'f, 'cv, 'ca) player_env \<Rightarrow> bool" where
  "env_ok E \<longleftrightarrow> (\<forall>c p c' len1 nb bs. avcodec_decode_audio4 E c p = (c', len1, Some (nb, bs)) \<longrightarrow>
     0 \<le> nb \<and> is_s32 (2 * nb * 2) \<and> int (length bs) \<le> 2 * nb * 2)"

inductive demux_step :: "('d, 'img, 'f, 'cv, 'ca) player_env \<Rightarrow> int \<Rightarrow> ('d, 'img, 'f, 'cv, 'ca) player \<Rightarrow>
    ('d, 'img, 'f, 'cv, 'ca) player \<Rightarrow> bool" for E mx where
  start: "dm s = D_Start \<Longrightarrow> demux_step E mx s (demux_start open_ret info_ret streams s)"
| audio: "dm s = D_OpenAudio streams \<Longrightarrow> demux_step E mx s (demux_open_audio (doubles E) now1 now2 streams s)"
| video: "dm s = D_OpenVideo streams \<Longrightarrow> demux_step E mx s (demux_open_video (doubles E) now1 now2 streams s)"
| check: "dm s = D_Check \<Longrightarrow> demux_step E mx s (demux_check s)"
| loop: "dm s = D_Loop \<Longrightarrow> read_ok mx r \<Longrightarrow> demux_step E mx s (demux_loop r s)"
| put: "dm s = D_Put p \<Longrightarrow> fresh (heap s) a \<Longrightarrow> demux_put dup_ok a p s = Some t \<Longrightarrow> demux_step E mx s t"
| wait: "dm s = D_Wait \<Longrightarrow> demux_step E mx s (demux_wait s)"
| fail: "dm s = D_Fail \<Longrightarrow> demux_step E mx s (demux_fail s)"

text \<open>\<open>wake_packet\<close>, \<open>wake_place\<close> and \<open>wake\<close>: a wait may end without a signal.\<close>

inductive video_step :: "('d, 'img, 'f, 'cv, 'ca) player_env \<Rightarrow> ('d, 'img, 'f, 'cv, 'ca) player \<Rightarrow>
    ('d, 'img, 'f, 'cv, 'ca) player \<Rightarrow> bool" for E where
  get: "vd s = V_Get \<Longrightarrow> video_get s = Some t \<Longrightarrow> video_step E s t"
| decode: "vd s = V_Decode p \<Longrightarrow> video_step E s (video_decode E p s)"
| queue: "vd s = V_Queue f pts \<Longrightarrow> video_step E s (picture_wait f pts s)"
| check: "vd s = V_Check f pts \<Longrightarrow> video_step E s (picture_check f pts s)"
| fill: "vd s = V_Fill f pts \<Longrightarrow> video_step E s (picture_fill E f pts s)"
| publish: "vd s = V_Publish \<Longrightarrow> video_step E s (picture_publish s)"
| wake_packet: "vd s = V_WaitPkt \<Longrightarrow> video_step E s (s\<lparr>vd := V_Get\<rparr>)"
| wake_place: "vd s = V_WaitPic f pts \<Longrightarrow> video_step E s (s\<lparr>vd := V_Queue f pts\<rparr>)"

inductive audio_step :: "('d, 'img, 'f, 'cv, 'ca) player_env \<Rightarrow> ('d, 'img, 'f, 'cv, 'ca) player \<Rightarrow>
    ('d, 'img, 'f, 'cv, 'ca) player \<Rightarrow> bool" for E where
  callback: "au s = A_Idle \<Longrightarrow> 0 \<le> len \<Longrightarrow> audio_step E s (s\<lparr>au := A_Fill len\<rparr>)"
| fill: "au s = A_Fill len \<Longrightarrow> audio_fill len s = Some t \<Longrightarrow> audio_step E s t"
| decode: "au s = A_Decode len \<Longrightarrow> audio_decode E len s = Some t \<Longrightarrow> audio_step E s t"
| next_packet: "au s = A_GetPkt len \<Longrightarrow> audio_step E s (audio_next len s)"
| get: "au s = A_Pass len \<Longrightarrow> audio_get E len s = Some t \<Longrightarrow> audio_step E s t"
| silence: "au s = A_Error len \<Longrightarrow> audio_silence len s = Some t \<Longrightarrow> audio_step E s t"
| sync: "au s = A_Sync len audio_size \<Longrightarrow> audio_sync E now len audio_size s = Some t \<Longrightarrow> audio_step E s t"
| wake: "au s = A_WaitPkt len \<Longrightarrow> audio_step E s (s\<lparr>au := A_Pass len\<rparr>)"

text \<open>The user may close the window at any time, so that \<open>quit\<close> needs no event of the demuxer.\<close>

inductive main_step :: "('d, 'img, 'f, 'cv, 'ca) player_env \<Rightarrow> ('d, 'img, 'f, 'cv, 'ca) player \<Rightarrow>
    ('d, 'img, 'f, 'cv, 'ca) player \<Rightarrow> bool" for E where
  refresh: "mn s = M_Event \<Longrightarrow> 0 < timers s \<Longrightarrow> main_step E s (main_refresh (doubles E) now1 ref_clock now2 s)"
| display: "mn s = M_Show \<Longrightarrow> main_step E s (main_show s)"
| release: "mn s = M_Release \<Longrightarrow> main_step E s (main_release s)"
| quit: "mn s = M_Event \<Longrightarrow> main_step E s (main_quit s)"

inductive player_step :: "('d, 'img, 'f, 'cv, 'ca) player_env \<Rightarrow> int \<Rightarrow> ('d, 'img, 'f, 'cv, 'ca) player \<Rightarrow>
    ('d, 'img, 'f, 'cv, 'ca) player \<Rightarrow> bool" for E mx where
  demux: "demux_step E mx s t \<Longrightarrow> player_step E mx s t"
| video: "video_step E s t \<Longrightarrow> player_step E mx s t"
| audio: "audio_step E s t \<Longrightarrow> player_step E mx s t"
| main: "main_step E s t \<Longrightarrow> player_step E mx s t"

definition player_reachable :: "('d, 'img, 'f, 'cv, 'ca) player_env \<Rightarrow> int \<Rightarrow> 'cv \<Rightarrow> 'ca \<Rightarrow>
    ('d, 'img, 'f, 'cv, 'ca) player \<Rightarrow> bool" where
  "player_reachable E mx cv ca s \<longleftrightarrow> (player_step E mx)\<^sup>*\<^sup>* (player_start (doubles E) cv ca) s"

lemma player_reachable_induct [consumes 1, case_names start step]:
  assumes "player_reachable E mx cv ca s" and "I (player_start (doubles E) cv ca)"
    and "\<And>s t. player_reachable E mx cv ca s \<Longrightarrow> I s \<Longrightarrow> player_step E mx s t \<Longrightarrow> I t"
  shows "I s"
  using assms(1) unfolding player_reachable_def
  by (induction rule: rtranclp_induct) (use assms(2,3) in \<open>auto simp: player_reachable_def\<close>)

end
