(* ===== verification/PlayerFrames.thy ===== *)
theory PlayerFrames imports PlayerSystem
begin

text \<open>
  What a step of each thread of the player changes and what it leaves alone, so that an invariant over some of the state
  has to be looked at only for the threads that write it; and the invariant of the main thread.
\<close>

section \<open>Effects of the steps\<close>

text \<open>The video clock as a function of its own value only.\<close>

definition next_video_clock :: "'d double_ops \<Rightarrow> 'd \<Rightarrow> int \<Rightarrow> 'd \<Rightarrow> 'd \<Rightarrow> 'd \<times> 'd" where
  "next_video_clock D time_base repeat clock pts =
     (let pts = (if \<not> d_eq D pts (d_of_int D 0) then pts else clock)
      in (d_add D pts (d_add D time_base (d_mul D (d_of_int D repeat) (d_mul D time_base (d_lit D 5 10)))), pts))"

lemma synchronize_video_clock:
  "synchronize_video D tb rep st pts =
     (st\<lparr>video_clock := fst (next_video_clock D tb rep (video_clock st) pts)\<rparr>,
      snd (next_video_clock D tb rep (video_clock st) pts))"
proof (cases "d_eq D pts (d_of_int D 0)")
  case True
  then show ?thesis by (simp add: synchronize_video_def next_video_clock_def Let_def)
next
  case False
  then show ?thesis by (simp add: synchronize_video_def next_video_clock_def Let_def)
qed

definition refreshed :: "('d, 'img) VideoState \<Rightarrow> ('d, 'img) VideoState \<Rightarrow> bool" where
  "refreshed st st' \<longleftrightarrow> (\<exists>p n d q t. st' = st\<lparr>video_current_pts := p, video_current_pts_time := n, frame_last_delay := d,
     frame_last_pts := q, frame_timer := t\<rparr>)"

lemma video_refresh_delay_state: "refreshed st (fst (video_refresh_delay D now1 ref_clock now2 pts st))"
  unfolding video_refresh_delay_def Let_def fst_conv refreshed_def by (intro exI) (rule refl)

lemma main_refresh_state:
  "\<exists>st. refreshed (vs s) st \<and> main_refresh D now1 ref_clock now2 s =
     (if video_st (vs s) \<and> pictq_size (vs s) \<noteq> 0 then s\<lparr>vs := st, timers := timers s - 1 + 1, mn := M_Show\<rparr>
      else s\<lparr>timers := timers s - 1 + 1\<rparr>)"
  by (intro exI conjI, rule video_refresh_delay_state) (auto simp: main_refresh_def Let_def split_beta)

text \<open>Opening a stream: nothing happens, or the fields of its kind are set.\<close>

lemma first_stream_le: "first_stream t i ps = -1 \<or> i \<le> first_stream t i ps"
proof (induction ps arbitrary: i)
  case (Cons p ps)
  from Cons.IH [of "i + 1"] show ?case by auto
qed simp

lemma first_stream_type:
  "first_stream t i ps = j \<Longrightarrow> i \<le> j \<Longrightarrow> 0 \<le> i \<Longrightarrow> j < i + int (length ps) \<and> codec_type (ps ! nat (j - i)) = t"
proof (induction ps arbitrary: i)
  case (Cons p ps)
  show ?case
  proof (cases "codec_type p = t")
    case True
    then show ?thesis using Cons.prems by simp
  next
    case False
    then have f: "first_stream t (i + 1) ps = j" using Cons.prems(1) by simp
    have "i + 1 \<le> j" using first_stream_le [of t "i + 1" ps] f Cons.prems(2,3) by auto
    moreover from this have "nat (j - i) = Suc (nat (j - (i + 1)))" by simp
    ultimately show ?thesis using Cons.IH [OF f] Cons.prems(3) by simp
  qed
qed simp

definition opened_audio :: "int \<Rightarrow> ('d, 'img) VideoState \<Rightarrow> ('d, 'img) VideoState \<Rightarrow> bool" where
  "opened_audio i st st' \<longleftrightarrow> (\<exists>c r. st' = st\<lparr>audioStream := i, audio_st := True, audio_channels := c, audio_sample_rate := r,
     audio_buf_size := 0, audio_buf_index := 0, audio_pkt := no_packet, audioq := packet_queue_init\<rparr>)"

definition opened_video :: "int \<Rightarrow> ('d, 'img) VideoState \<Rightarrow> ('d, 'img) VideoState \<Rightarrow> bool" where
  "opened_video i st st' \<longleftrightarrow> (\<exists>w h t d n. st' = st\<lparr>videoStream := i, video_st := True, video_width := w, video_height := h,
     frame_timer := t, frame_last_delay := d, video_current_pts_time := n, videoq := packet_queue_init\<rparr>)"

lemma stream_component_open_state:
  assumes "stream_component_open D now1 now2 ss i st = (ret, st')"
  shows "codec_type (ss ! nat i) = AVMEDIA_TYPE_AUDIO \<Longrightarrow> st' = st \<and> ret = Some (-1) \<or> ret = None \<and> opened_audio i st st'"
    and "codec_type (ss ! nat i) = AVMEDIA_TYPE_VIDEO \<Longrightarrow> st' = st \<and> ret = Some (-1) \<or> ret = None \<and> opened_video i st st'"
  using assms unfolding stream_component_open_def Let_def
  by (auto split: if_splits, unfold opened_audio_def opened_video_def) (intro exI, rule refl)+

lemma demux_open_audio_state:
  "\<exists>st a. demux_open_audio D now1 now2 ss s = s\<lparr>vs := st, au := a, dm := D_OpenVideo ss\<rparr> \<and>
    (st = vs s \<and> a = au s \<or> a = A_Idle \<and> (\<exists>i \<ge> 0. opened_audio i (vs s) st))"
proof (cases "first_stream AVMEDIA_TYPE_AUDIO 0 ss \<ge> 0")
  case True
  let ?i = "first_stream AVMEDIA_TYPE_AUDIO 0 ss"
  obtain ret st where o: "stream_component_open D now1 now2 ss ?i (vs s) = (ret, st)" by fastforce
  have "codec_type (ss ! nat ?i) = AVMEDIA_TYPE_AUDIO" using first_stream_type [OF refl True] by simp
  from stream_component_open_state(1) [OF o this] True show ?thesis
    by (intro exI [of _ st] exI [of _ "if ret = None then A_Idle else au s"]) (auto simp: demux_open_audio_def o)
next
  case False
  then show ?thesis by (intro exI [of _ "vs s"] exI [of _ "au s"]) (simp add: demux_open_audio_def)
qed

lemma demux_open_video_state:
  "\<exists>st a. demux_open_video D now1 now2 ss s = s\<lparr>vs := st, vd := a, dm := D_Check\<rparr> \<and>
    (st = vs s \<and> a = vd s \<or> a = V_Get \<and> (\<exists>i \<ge> 0. opened_video i (vs s) st))"
proof (cases "first_stream AVMEDIA_TYPE_VIDEO 0 ss \<ge> 0")
  case True
  let ?i = "first_stream AVMEDIA_TYPE_VIDEO 0 ss"
  obtain ret st where o: "stream_component_open D now1 now2 ss ?i (vs s) = (ret, st)" by fastforce
  have "codec_type (ss ! nat ?i) = AVMEDIA_TYPE_VIDEO" using first_stream_type [OF refl True] by simp
  from stream_component_open_state(2) [OF o this] True show ?thesis
    by (intro exI [of _ st] exI [of _ "if ret = None then V_Get else vd s"]) (auto simp: demux_open_video_def o)
next
  case False
  then show ?thesis by (intro exI [of _ "vs s"] exI [of _ "vd s"]) (simp add: demux_open_video_def)
qed

section \<open>What each thread leaves alone\<close>

definition audio_frame :: "('d, 'img, 'f, 'cv, 'ca) player \<Rightarrow> ('d, 'img, 'f, 'cv, 'ca) player \<Rightarrow> bool" where
  "audio_frame s t \<longleftrightarrow>
     dm t = dm s \<and> vd t = vd s \<and> mn t = mn s \<and> dec_v t = dec_v s \<and> timers t = timers s \<and> put_v t = put_v s \<and>
     put_a t = put_a s \<and> got_v t = got_v s \<and> shown t = shown s \<and> videoq (vs t) = videoq (vs s) \<and>
     pictq (vs t) = pictq (vs s) \<and> pictq_size (vs t) = pictq_size (vs s) \<and> pictq_rindex (vs t) = pictq_rindex (vs s) \<and>
     pictq_windex (vs t) = pictq_windex (vs s) \<and> quit (vs t) = quit (vs s) \<and> video_clock (vs t) = video_clock (vs s)"

lemma audio_step_frame: "audio_step E s t \<Longrightarrow> audio_frame s t"
proof (induction rule: audio_step.induct)
  case (fill s len t)
  then show ?case by (auto simp: audio_frame_def audio_fill_def Let_def split: if_splits)
next
  case (decode s len t)
  then show ?case by (auto simp: audio_frame_def audio_decode_def Let_def split_beta split: if_splits option.splits)
next
  case (get s len t)
  then show ?case by (auto simp: audio_frame_def audio_get_def Let_def split: if_splits bind_splits option.splits pq_pass.splits)
next
  case (silence s len t)
  then show ?case by (auto simp: audio_frame_def audio_silence_def Let_def split: if_splits)
next
  case (sync s len sz now t)
  then show ?case by (auto simp: audio_frame_def audio_sync_def split: bind_splits dest!: synchronize_audio_frame)
qed (auto simp: audio_frame_def audio_next_def Let_def)

definition video_frame :: "('d, 'img, 'f, 'cv, 'ca) player \<Rightarrow> ('d, 'img, 'f, 'cv, 'ca) player \<Rightarrow> bool" where
  "video_frame s t \<longleftrightarrow>
     dm t = dm s \<and> au t = au s \<and> mn t = mn s \<and> timers t = timers s \<and> put_v t = put_v s \<and> put_a t = put_a s \<and>
     got_a t = got_a s \<and> shown t = shown s \<and> filled t = filled s \<and> mixed t = mixed s \<and> audioq (vs t) = audioq (vs s) \<and>
     quit (vs t) = quit (vs s) \<and> audio_buf (vs t) = audio_buf (vs s) \<and> audio_buf_size (vs t) = audio_buf_size (vs s) \<and>
     audio_buf_index (vs t) = audio_buf_index (vs s) \<and> pictq_rindex (vs t) = pictq_rindex (vs s)"

lemma video_step_frame: "video_step E s t \<Longrightarrow> video_frame s t"
proof (induction rule: video_step.induct)
  case (get s t)
  then show ?case
    by (auto simp: video_frame_def video_get_def Let_def split: if_splits bind_splits option.splits pq_pass.splits)
next
  case (decode s p)
  show ?case by (auto simp: video_frame_def video_decode_def Let_def synchronize_video_clock split: prod.split option.split)
next
  case (fill s f pts)
  show ?case by (simp add: video_frame_def picture_fill_def alloc_picture_def Let_def)
qed (simp_all add: video_frame_def picture_wait_def picture_check_def picture_publish_def)

definition main_frame :: "('d, 'img, 'f, 'cv, 'ca) player \<Rightarrow> ('d, 'img, 'f, 'cv, 'ca) player \<Rightarrow> bool" where
  "main_frame s t \<longleftrightarrow>
     heap t = heap s \<and> dm t = dm s \<and> vd t \<in> {vd s, wake_pictq (vd s)} \<and> au t = au s \<and> dec_v t = dec_v s \<and>
     put_v t = put_v s \<and> put_a t = put_a s \<and> got_v t = got_v s \<and> got_a t = got_a s \<and> filled t = filled s \<and>
     mixed t = mixed s \<and> audioq (vs t) = audioq (vs s) \<and> videoq (vs t) = videoq (vs s) \<and> audio_buf (vs t) = audio_buf (vs s) \<and>
     audio_buf_size (vs t) = audio_buf_size (vs s) \<and> audio_buf_index (vs t) = audio_buf_index (vs s) \<and>
     pictq (vs t) = pictq (vs s) \<and> pictq_windex (vs t) = pictq_windex (vs s) \<and> video_clock (vs t) = video_clock (vs s)"

lemma main_step_frame: "main_step E s t \<Longrightarrow> main_frame s t"
proof (induction rule: main_step.induct)
  case (refresh s now1 r now2)
  from main_refresh_state [of s "doubles E" now1 r now2] show ?case by (auto simp: main_frame_def refreshed_def)
qed (simp_all add: main_frame_def main_show_def main_release_def main_quit_def Let_def)

text \<open>The demuxer may open a stream, which starts its thread, or wake a thread.\<close>

definition demux_frame :: "('d, 'img, 'f, 'cv, 'ca) player \<Rightarrow> ('d, 'img, 'f, 'cv, 'ca) player \<Rightarrow> bool" where
  "demux_frame s t \<longleftrightarrow>
     mn t = mn s \<and> timers t = timers s \<and> dec_v t = dec_v s \<and> got_v t = got_v s \<and> got_a t = got_a s \<and> shown t = shown s \<and>
     filled t = filled s \<and> mixed t = mixed s \<and> audio_buf (vs t) = audio_buf (vs s) \<and> pictq (vs t) = pictq (vs s) \<and>
     pictq_size (vs t) = pictq_size (vs s) \<and> pictq_rindex (vs t) = pictq_rindex (vs s) \<and>
     pictq_windex (vs t) = pictq_windex (vs s) \<and> quit (vs t) = quit (vs s) \<and> video_clock (vs t) = video_clock (vs s) \<and>
     (vd t \<in> {vd s, wake_video (vd s)} \<or> vd t = V_Get \<and> (\<exists>ss. dm s = D_OpenVideo ss)) \<and>
     (au t \<in> {au s, wake_audio (au s)} \<and> audio_buf_size (vs t) = audio_buf_size (vs s) \<and>
        audio_buf_index (vs t) = audio_buf_index (vs s) \<or>
      au t = A_Idle \<and> (\<exists>ss. dm s = D_OpenAudio ss) \<and> audio_buf_size (vs t) = 0 \<and> audio_buf_index (vs t) = 0)"

lemma demux_step_frame: "demux_step E mx s t \<Longrightarrow> demux_frame s t"
proof (induction rule: demux_step.induct)
  case (audio s streams now1 now2)
  from demux_open_audio_state [of "doubles E" now1 now2 streams s] audio show ?case
    by (auto simp: demux_frame_def opened_audio_def)
next
  case (video s streams now1 now2)
  from demux_open_video_state [of "doubles E" now1 now2 streams s] video show ?case
    by (auto simp: demux_frame_def opened_video_def)
next
  case (put s p a dup_ok t)
  then show ?case by (auto simp: demux_frame_def demux_put_def Let_def split: if_splits bind_splits)
qed (simp_all add: demux_frame_def demux_start_def demux_check_def demux_loop_def demux_wait_def demux_fail_def Let_def)

section \<open>The main thread\<close>

text \<open>A refresh is always scheduled, \<open>quit\<close> is set by the main thread only, and the decoder ends only then.\<close>

definition main_inv :: "('d, 'img, 'f, 'cv, 'ca) player \<Rightarrow> bool" where
  "main_inv s \<longleftrightarrow> (mn s \<noteq> M_Done \<longrightarrow> timers s = 1) \<and> (quit (vs s) \<longleftrightarrow> mn s = M_Done) \<and> (vd s = V_Done \<longrightarrow> quit (vs s))"

lemma wake_simps [simp]:
  "wake_video p = V_Done \<longleftrightarrow> p = V_Done" "wake_pictq p = V_Done \<longleftrightarrow> p = V_Done"
  by (cases p; simp)+

lemma main_inv_step:
  assumes "player_step E mx s t" and "main_inv s"
  shows "main_inv t"
  using assms(1)
proof cases
  case demux
  with assms(2) show ?thesis using demux_step_frame by (fastforce simp: demux_frame_def main_inv_def)
next
  case audio
  with assms(2) show ?thesis using audio_step_frame by (fastforce simp: audio_frame_def main_inv_def)
next
  case main
  then show ?thesis
  proof cases
    case (refresh now1 r now2)
    with assms(2) main_refresh_state [of s "doubles E" now1 r now2] show ?thesis
      by (auto simp: main_inv_def refreshed_def split: if_splits)
  qed (use assms(2) in \<open>auto simp: main_inv_def main_show_def main_release_def main_quit_def Let_def\<close>)
next
  case video
  then have f: "video_frame s t" by (rule video_step_frame)
  from video have "vd t = V_Done \<longrightarrow> quit (vs s)"
  proof cases
    case get
    then show ?thesis
      by (auto simp: video_get_def packet_queue_get_def Let_def split: if_splits bind_splits option.splits pq_pass.splits)
  next
    case (decode p)
    then show ?thesis by (auto simp: video_decode_def Let_def split_beta split: option.splits)
  next
    case (fill f pts)
    then show ?thesis by (auto simp: picture_fill_def alloc_picture_def Let_def)
  qed (auto simp: picture_wait_def picture_check_def picture_publish_def)
  with f assms(2) show ?thesis by (auto simp: video_frame_def main_inv_def)
qed

end
