(* ===== verification/PlayerPictures.thy ===== *)
theory PlayerPictures imports PlayerFrames
begin

text \<open>
  The way of a picture from the decoder to the screen. There is one place: the decoder thread waits for it, writes it and
  counts it, the main thread shows it and gives it back. The pictures shown, the one in the place and the one in the
  decoder's hands are together what the decoder makes of the packets it got, in their order.
\<close>

section \<open>The pictures of a list of packets\<close>

text \<open>The decoder's state, the video clock and the pictures with their time stamps.\<close>

fun decode_packets :: "('d, 'img, 'f, 'cv, 'ca) player_env \<Rightarrow> 'cv \<Rightarrow> 'd \<Rightarrow> AVPacket list \<Rightarrow> 'cv \<times> 'd \<times> ('d \<times> 'img) list" where
  "decode_packets E ctx clock [] = (ctx, clock, [])"
| "decode_packets E ctx clock (p # ps) =
     (case avcodec_decode_video2 E ctx p of
        (ctx, None) \<Rightarrow> decode_packets E ctx clock ps
      | (ctx, Some f) \<Rightarrow>
          let (clock, pts) = next_video_clock (doubles E) (video_ctx_time_base E) (repeat_pict E f) clock (frame_pts E f);
              (ctx, clock, pics) = decode_packets E ctx clock ps
          in (ctx, clock, (pts, sws_scale E f) # pics))"

abbreviation pictures :: "('d, 'img, 'f, 'cv, 'ca) player_env \<Rightarrow> 'cv \<Rightarrow> AVPacket list \<Rightarrow> ('d \<times> 'img) list" where
  "pictures E ctx ps \<equiv> snd (snd (decode_packets E ctx (d_of_int (doubles E) 0) ps))"

lemma decode_packets_append:
  "decode_packets E ctx clock (ps @ qs) =
     (let (ctx, clock, pics) = decode_packets E ctx clock ps; (ctx, clock, pics') = decode_packets E ctx clock qs
      in (ctx, clock, pics @ pics'))"
proof (induction ps arbitrary: ctx clock)
  case (Cons p ps)
  obtain ctx' fr where d: "avcodec_decode_video2 E ctx p = (ctx', fr)" by fastforce
  show ?case
  proof (cases fr)
    case None
    then show ?thesis by (simp add: d Cons.IH)
  next
    case (Some f)
    then show ?thesis by (simp add: d Cons.IH Let_def split_beta)
  qed
qed simp

lemma pictures_append: "\<exists>rest. pictures E ctx (ps @ qs) = pictures E ctx ps @ rest"
  by (auto simp: decode_packets_append Let_def split_beta)

section \<open>The invariant\<close>

fun in_hand :: "('d, 'img, 'f, 'cv, 'ca) player_env \<Rightarrow> ('d, 'f) video_pc \<Rightarrow> ('d \<times> 'img) list" where
  "in_hand E (V_Queue f pts) = [(pts, sws_scale E f)]"
| "in_hand E (V_WaitPic f pts) = [(pts, sws_scale E f)]"
| "in_hand E (V_Check f pts) = [(pts, sws_scale E f)]"
| "in_hand E (V_Fill f pts) = [(pts, sws_scale E f)]"
| "in_hand E p = []"

text \<open>The picture in the place, from when it is written to when it is shown.\<close>

definition placed :: "('d, 'img) VideoPicture list \<Rightarrow> int \<Rightarrow> bool \<Rightarrow> main_pc \<Rightarrow> ('d \<times> 'img) list" where
  "placed q n publish m =
     (if publish \<or> n = 1 \<and> m \<noteq> M_Release
      then (case bmp (q ! 0) of Some img \<Rightarrow> [(vp_pts (q ! 0), img)] | None \<Rightarrow> []) else [])"

abbreviation in_place :: "('d, 'img, 'f, 'cv, 'ca) player \<Rightarrow> ('d \<times> 'img) list" where
  "in_place s \<equiv> placed (pictq (vs s)) (pictq_size (vs s)) (vd s = V_Publish) (mn s)"

lemma placed_main [simp]: "placed q n b M_Show = placed q n b M_Event" "placed q n b M_Done = placed q n b M_Event"
  by (simp_all add: placed_def)

fun place_ok :: "int \<Rightarrow> bool \<Rightarrow> ('d, 'f) video_pc \<Rightarrow> bool" where
  "place_ok n q (V_WaitPic f pts) \<longleftrightarrow> n = 1"
| "place_ok n q (V_Check f pts) \<longleftrightarrow> n = 0 \<or> q"
| "place_ok n q (V_Fill f pts) \<longleftrightarrow> n = 0"
| "place_ok n q V_Publish \<longleftrightarrow> n = 0"
| "place_ok n q p \<longleftrightarrow> True"

definition place_fields :: "('d, 'img) VideoPicture list \<Rightarrow> int \<Rightarrow> nat \<Rightarrow> nat \<Rightarrow> bool \<Rightarrow> ('d, 'f) video_pc \<Rightarrow> main_pc \<Rightarrow> bool" where
  "place_fields q n r w b p m \<longleftrightarrow> length q = 1 \<and> r = 0 \<and> w = 0 \<and> n \<in> {0, 1} \<and>
     (m \<in> {M_Show, M_Release} \<longrightarrow> n = 1) \<and> place_ok n b p"

definition place_inv :: "('d, 'img, 'f, 'cv, 'ca) player \<Rightarrow> bool" where
  "place_inv s \<longleftrightarrow> place_fields (pictq (vs s)) (pictq_size (vs s)) (pictq_rindex (vs s)) (pictq_windex (vs s)) (quit (vs s)) (vd s) (mn s)"

lemmas place_defs = place_inv_def place_fields_def

fun finished :: "('d, 'f) video_pc \<Rightarrow> AVPacket list \<Rightarrow> AVPacket list" where
  "finished (V_Decode p) ps = butlast ps"
| "finished _ ps = ps"

definition decoded :: "('d, 'img, 'f, 'cv, 'ca) player_env \<Rightarrow> 'cv \<Rightarrow> AVPacket list \<Rightarrow> ('d, 'f) video_pc \<Rightarrow> 'cv \<Rightarrow> 'd \<Rightarrow>
    ('d \<times> 'img) list \<Rightarrow> bool" where
  "decoded E ctx got p d clock seen \<longleftrightarrow>
     (\<forall>q. p = V_Decode q \<longrightarrow> got \<noteq> [] \<and> last got = q) \<and>
     (\<exists>dropped. (p \<noteq> V_Done \<longrightarrow> dropped = []) \<and> length dropped \<le> 1 \<and>
        decode_packets E ctx (d_of_int (doubles E) 0) (finished p got) = (d, clock, seen @ in_hand E p @ dropped))"

definition pictures_inv :: "('d, 'img, 'f, 'cv, 'ca) player_env \<Rightarrow> 'cv \<Rightarrow> ('d, 'img, 'f, 'cv, 'ca) player \<Rightarrow> bool" where
  "pictures_inv E ctx s \<longleftrightarrow> decoded E ctx (got_v s) (vd s) (dec_v s) (video_clock (vs s)) (shown s @ in_place s)"

lemma wake_same [simp]:
  "in_hand E (wake_video p) = in_hand E p" "in_hand E (wake_pictq p) = in_hand E p"
  "finished (wake_video p) ps = finished p ps" "finished (wake_pictq p) ps = finished p ps"
  "wake_video p = V_Publish \<longleftrightarrow> p = V_Publish" "wake_pictq p = V_Publish \<longleftrightarrow> p = V_Publish"
  "wake_video p = V_Decode q \<longleftrightarrow> p = V_Decode q" "wake_pictq p = V_Decode q \<longleftrightarrow> p = V_Decode q"
  "place_ok n b (wake_video p) = place_ok n b p"
  by (cases p; simp)+

text \<open>A picture is written only while its place is neither counted nor shown.\<close>

lemma place_fields_wake [simp]: "place_fields q n r w b (wake_video p) m = place_fields q n r w b p m"
  by (simp add: place_fields_def)

lemma place_fields_any: "place_fields q n r w b p m \<Longrightarrow> (\<And>n b. place_ok n b p') \<Longrightarrow> place_fields q n r w b p' m"
  by (simp add: place_fields_def)

lemma place_inv_demux:
  assumes "demux_step E mx s t" and "place_inv s"
  shows "place_inv t"
proof -
  note f = demux_step_frame [OF assms(1), unfolded demux_frame_def]
  then have "vd t = vd s \<or> vd t = wake_video (vd s) \<or> vd t = V_Get" by blast
  moreover have "place_inv t = place_fields (pictq (vs s)) (pictq_size (vs s)) (pictq_rindex (vs s)) (pictq_windex (vs s))
      (quit (vs s)) (vd t) (mn s)"
    using f by (simp only: place_inv_def)
  ultimately show ?thesis using assms(2) by (auto simp: place_inv_def intro: place_fields_any)
qed

lemma place_inv_audio:
  assumes "audio_step E s t" and "place_inv s"
  shows "place_inv t"
  using audio_step_frame [OF assms(1), unfolded audio_frame_def] assms(2) by (simp only: place_inv_def)

lemma place_ok_free: "place_ok 1 q p \<Longrightarrow> place_ok 0 q (wake_pictq p)" "place_ok n q p \<Longrightarrow> place_ok n True p"
  by (cases p; simp)+

lemma s32_small [simp]: "s32 1 = 1" "s32 (0 + 1) = 1" "s32 (1 - 1) = 0"
  by (simp_all add: s32_def)

lemma next_slot_0 [simp]: "next_slot 0 = 0"
  by (simp add: next_slot_def VIDEO_PICTURE_QUEUE_SIZE_def)

text \<open>Writing the picture: into a new one, which the decoder may leave behind, or over the last one.\<close>

lemma alloc_picture_state:
  assumes "pictq st = [v]" and "pictq_windex st = 0"
  shows "alloc_picture E (st\<lparr>pictq := [x]\<rparr>) = st\<lparr>pictq := [x\<lparr>bmp := Some (avpicture_alloc E),
    vp_width := video_width st, vp_height := video_height st, allocated := True\<rparr>]\<rparr>"
  using assms by (simp add: alloc_picture_def)

lemma picture_fill_cases:
  assumes v: "pictq (vs s) = [v]" "pictq_windex (vs s) = 0"
    and n: "(bmp v = None \<or> vp_width v \<noteq> video_width (vs s) \<or> vp_height v \<noteq> video_height (vs s)) = new"
  shows "new = False \<Longrightarrow> bmp v = Some i \<Longrightarrow> \<exists>vp. vp_pts vp = pts \<and> bmp vp = Some (sws_scale E f) \<and>
      picture_fill E f pts s = s\<lparr>vs := (vs s)\<lparr>pictq := [vp], pictq_windex := 0\<rparr>, vd := V_Publish\<rparr>"
    and "new = True \<Longrightarrow> quit (vs s) \<Longrightarrow> \<exists>vp. picture_fill E f pts s = s\<lparr>vs := (vs s)\<lparr>pictq := [vp]\<rparr>, vd := V_Done\<rparr>"
    and "new = True \<Longrightarrow> \<not> quit (vs s) \<Longrightarrow> \<exists>vp. vp_pts vp = pts \<and> bmp vp = Some (sws_scale E f) \<and>
      picture_fill E f pts s = s\<lparr>vs := (vs s)\<lparr>pictq := [vp], pictq_windex := 0\<rparr>, vd := V_Publish\<rparr>"
proof -
  let ?w = "\<lambda>v. v\<lparr>vp_pts := pts, bmp := Some (sws_scale E f)\<rparr>"
  let ?a = "v\<lparr>bmp := Some (avpicture_alloc E), vp_width := video_width (vs s), vp_height := video_height (vs s), allocated := True\<rparr>"
  note d = picture_fill_def Let_def v nth_Cons_0 n
  { assume new: "new = False" "bmp v = Some i"
    have "picture_fill E f pts s = s\<lparr>vs := (vs s)\<lparr>pictq := [?w v], pictq_windex := 0\<rparr>, vd := V_Publish\<rparr>"
      unfolding d new(1) by (simp add: v new(2))
    then show "\<exists>vp. vp_pts vp = pts \<and> bmp vp = Some (sws_scale E f) \<and>
        picture_fill E f pts s = s\<lparr>vs := (vs s)\<lparr>pictq := [vp], pictq_windex := 0\<rparr>, vd := V_Publish\<rparr>"
      by (intro exI [of _ "?w v"]) simp }
  { assume new: "new = True" "quit (vs s)"
    have "picture_fill E f pts s = s\<lparr>vs := (vs s)\<lparr>pictq := [?a]\<rparr>, vd := V_Done\<rparr>"
      unfolding d new(1) by (simp add: v new(2) alloc_picture_state [OF v])
    then show "\<exists>vp. picture_fill E f pts s = s\<lparr>vs := (vs s)\<lparr>pictq := [vp]\<rparr>, vd := V_Done\<rparr>" by (rule exI) }
  { assume new: "new = True" "\<not> quit (vs s)"
    have "picture_fill E f pts s = s\<lparr>vs := (vs s)\<lparr>pictq := [?w ?a], pictq_windex := 0\<rparr>, vd := V_Publish\<rparr>"
      unfolding d new(1) by (simp add: v new(2) alloc_picture_state [OF v])
    then show "\<exists>vp. vp_pts vp = pts \<and> bmp vp = Some (sws_scale E f) \<and>
        picture_fill E f pts s = s\<lparr>vs := (vs s)\<lparr>pictq := [vp], pictq_windex := 0\<rparr>, vd := V_Publish\<rparr>"
      by (intro exI [of _ "?w ?a"]) simp }
qed

lemma picture_fill_state:
  assumes "place_inv s"
  shows "(\<exists>vp. quit (vs s) \<and> picture_fill E f pts s = s\<lparr>vs := (vs s)\<lparr>pictq := [vp]\<rparr>, vd := V_Done\<rparr>) \<or>
    (\<exists>vp. vp_pts vp = pts \<and> bmp vp = Some (sws_scale E f) \<and>
      picture_fill E f pts s = s\<lparr>vs := (vs s)\<lparr>pictq := [vp], pictq_windex := 0\<rparr>, vd := V_Publish\<rparr>)"
proof -
  obtain v where v: "pictq (vs s) = [v]" "pictq_windex (vs s) = 0"
    using assms by (auto simp: place_defs length_Suc_conv)
  let ?new = "bmp v = None \<or> vp_width v \<noteq> video_width (vs s) \<or> vp_height v \<noteq> video_height (vs s)"
  note cases = picture_fill_cases [OF v refl, where E = E and f = f and pts = pts]
  consider "?new = True" "quit (vs s)" | "?new = True" "\<not> quit (vs s)" | i where "?new = False" "bmp v = Some i" by (metis (full_types) option.exhaust)
  then show ?thesis
  proof cases
    case 1
    then show ?thesis using cases(2) [OF 1] by blast
  next
    case 2
    show ?thesis by (rule disjI2) (rule cases(3) [OF 2])
  next
    case 3
    show ?thesis by (rule disjI2) (rule cases(1) [OF 3])
  qed
qed

lemma video_get_frame:
  "video_get s = Some t \<Longrightarrow> pictq (vs t) = pictq (vs s) \<and> pictq_size (vs t) = pictq_size (vs s) \<and>
     pictq_windex (vs t) = pictq_windex (vs s) \<and> video_clock (vs t) = video_clock (vs s) \<and> dec_v t = dec_v s \<and>
     (vd t = V_WaitPkt \<and> got_v t = got_v s \<or> vd t = V_Done \<and> got_v t = got_v s \<or>
      (\<exists>p. vd t = V_Decode p \<and> got_v t = got_v s @ [p]))"
  unfolding video_get_def packet_queue_get_def Let_def
  by (auto split: if_splits bind_splits option.splits)

lemma place_inv_video:
  assumes "video_step E s t" and "place_inv s"
  shows "place_inv t"
  using assms(1)
proof cases
  case get
  note f = video_get_frame [OF get(2)] video_step_frame [OF assms(1), unfolded video_frame_def]
  then have "place_inv t = place_fields (pictq (vs s)) (pictq_size (vs s)) (pictq_rindex (vs s)) (pictq_windex (vs s))
      (quit (vs s)) (vd t) (mn s)"
    by (simp only: place_inv_def)
  then show ?thesis using f(1) assms(2) unfolding place_inv_def by (auto intro: place_fields_any)
next
  case (decode p)
  then show ?thesis using assms(2)
    by (auto simp: place_inv_def video_decode_def Let_def synchronize_video_clock split_beta split: option.split intro: place_fields_any)
next
  case (queue f pts)
  then show ?thesis using assms(2) by (auto simp: place_defs picture_wait_def VIDEO_PICTURE_QUEUE_SIZE_def)
next
  case (check f pts)
  then show ?thesis using assms(2) by (auto simp: place_defs picture_check_def)
next
  case (fill f pts)
  then have "pictq_size (vs s) = 0" using assms(2) by (simp add: place_defs)
  with fill picture_fill_state [OF assms(2), of E f pts] show ?thesis
    using assms(2) by (auto simp: place_defs)
next
  case publish
  then show ?thesis using assms(2) by (simp add: place_defs picture_publish_def)
qed (use assms(2) in \<open>simp_all add: place_defs\<close>)

lemma place_inv_main:
  assumes "main_step E s t" and "place_inv s"
  shows "place_inv t"
  using assms(1)
proof cases
  case (refresh now1 r now2)
  obtain st where "refreshed (vs s) st" "t = (if video_st (vs s) \<and> pictq_size (vs s) \<noteq> 0
      then s\<lparr>vs := st, timers := timers s - 1 + 1, mn := M_Show\<rparr> else s\<lparr>timers := timers s - 1 + 1\<rparr>)"
    using main_refresh_state [of s "doubles E" now1 r now2] refresh by auto
  then show ?thesis using assms(2) refresh by (auto simp: place_defs refreshed_def)
next
  case display
  then show ?thesis using assms(2) by (auto simp: place_defs main_show_def Let_def)
next
  case release
  then show ?thesis using assms(2) by (auto simp: place_defs main_release_def intro: place_ok_free)
next
  case quit
  then show ?thesis using assms(2) by (auto simp: place_defs main_quit_def intro: place_ok_free)
qed

lemma place_inv_step: "player_step E mx s t \<Longrightarrow> place_inv s \<Longrightarrow> place_inv t"
  by (auto elim!: player_step.cases intro: place_inv_demux place_inv_audio place_inv_video place_inv_main)

section \<open>Every picture once and in order\<close>

text \<open>The decoder starts after its stream is opened.\<close>

definition at_start :: "demux_pc \<Rightarrow> bool" where
  "at_start d \<longleftrightarrow> (case d of D_Start \<Rightarrow> True | D_OpenAudio ss \<Rightarrow> True | D_OpenVideo ss \<Rightarrow> True | _ \<Rightarrow> False)"

definition start_inv :: "('d, 'img, 'f, 'cv, 'ca) player \<Rightarrow> bool" where
  "start_inv s \<longleftrightarrow> (at_start (dm s) \<longrightarrow> vd s = V_Off) \<and>
     (dm s = D_Start \<or> (\<exists>ss. dm s = D_OpenAudio ss) \<longrightarrow> au s = A_Off)"

lemma video_step_Off: "video_step E s t \<Longrightarrow> vd s \<noteq> V_Off"
  by (auto elim: video_step.cases)

lemma audio_step_Off: "audio_step E s t \<Longrightarrow> au s \<noteq> A_Off"
  by (auto elim: audio_step.cases)

lemma start_inv_demux:
  assumes "demux_step E mx s t" and "start_inv s"
  shows "start_inv t"
  using assms(1)
proof cases
  case (audio streams now1 now2)
  with demux_open_audio_state [of "doubles E" now1 now2 streams s] show ?thesis
    using assms(2) by (auto simp: start_inv_def at_start_def)
next
  case (video streams now1 now2)
  with demux_open_video_state [of "doubles E" now1 now2 streams s] show ?thesis
    by (auto simp: start_inv_def at_start_def)
next
  case (put p a dup_ok)
  then show ?thesis by (auto simp: start_inv_def at_start_def demux_put_def Let_def split: if_splits bind_splits)
next
  case (loop r)
  then show ?thesis by (auto simp: start_inv_def at_start_def demux_loop_def split: read_frame.split)
qed (use assms(2) in \<open>auto simp: start_inv_def at_start_def demux_start_def demux_check_def demux_wait_def demux_fail_def Let_def\<close>)

lemma start_inv_step:
  assumes "player_step E mx s t" and "start_inv s"
  shows "start_inv t"
  using assms(1)
proof cases
  case demux
  then show ?thesis using assms(2) by (rule start_inv_demux)
next
  case video
  then show ?thesis
    using assms(2) video_step_frame [OF video] video_step_Off [OF video] by (auto simp: start_inv_def video_frame_def)
next
  case audio
  then show ?thesis
    using assms(2) audio_step_frame [OF audio] audio_step_Off [OF audio] by (auto simp: start_inv_def audio_frame_def)
next
  case main
  from main_step_frame [OF main] have "dm t = dm s" "au t = au s" "vd t \<in> {vd s, wake_pictq (vd s)}"
    by (simp_all add: main_frame_def)
  then show ?thesis using assms(2) by (auto simp: start_inv_def)
qed

lemma decoded_wake [simp]:
  "decoded E ctx got (wake_video p) d c seen = decoded E ctx got p d c seen"
  "decoded E ctx got (wake_pictq p) d c seen = decoded E ctx got p d c seen"
  by (simp_all add: decoded_def)

lemma decoded_Off: "decoded E ctx got V_Off d c seen = decoded E ctx got V_Get d c seen"
  by (simp add: decoded_def)

lemma pictures_inv_demux:
  assumes "demux_step E mx s t" and "pictures_inv E ctx s" and "start_inv s"
  shows "pictures_inv E ctx t"
proof -
  note f = demux_step_frame [OF assms(1), unfolded demux_frame_def]
  have "vd t = vd s \<or> vd t = wake_video (vd s) \<or> vd t = V_Get \<and> vd s = V_Off"
    using f assms(3) by (auto simp: start_inv_def at_start_def)
  moreover have "pictures_inv E ctx t = decoded E ctx (got_v s) (vd t) (dec_v s) (video_clock (vs s))
      (shown s @ placed (pictq (vs s)) (pictq_size (vs s)) (vd t = V_Publish) (mn s))"
    using f by (simp only: pictures_inv_def)
  ultimately show ?thesis using assms(2) by (auto simp: pictures_inv_def decoded_Off)
qed

lemma pictures_inv_audio: "audio_step E s t \<Longrightarrow> pictures_inv E ctx s \<Longrightarrow> pictures_inv E ctx t"
  using audio_step_frame [of E s t, unfolded audio_frame_def] by (simp only: pictures_inv_def)

lemma pictures_inv_main:
  assumes "main_step E s t" and "pictures_inv E ctx s" and "place_inv s"
  shows "pictures_inv E ctx t"
  using assms(1)
proof cases
  case (refresh now1 r now2)
  obtain st where "refreshed (vs s) st" "t = (if video_st (vs s) \<and> pictq_size (vs s) \<noteq> 0
      then s\<lparr>vs := st, timers := timers s - 1 + 1, mn := M_Show\<rparr> else s\<lparr>timers := timers s - 1 + 1\<rparr>)"
    using main_refresh_state [of s "doubles E" now1 r now2] refresh by auto
  then show ?thesis using assms(2) refresh by (auto simp: pictures_inv_def refreshed_def)
next
  case display
  then have p: "vd s \<noteq> V_Publish" "pictq_size (vs s) = 1" "pictq_rindex (vs s) = 0" using assms(3) by (auto simp: place_defs)
  have "placed (pictq (vs s)) 1 False M_Release = []" using p by (simp add: placed_def)
  moreover have "shown t = shown s @ in_place s"
    using display p by (simp add: main_show_def Let_def placed_def split: option.split)
  ultimately show ?thesis using assms(2) display p by (simp add: pictures_inv_def main_show_def Let_def)
next
  case release
  then have "vd s \<noteq> V_Publish" "pictq_size (vs s) = 1" using assms(3) by (auto simp: place_defs)
  then show ?thesis using assms(2) release by (simp add: pictures_inv_def main_release_def placed_def)
next
  case quit
  then show ?thesis using assms(2) by (simp add: pictures_inv_def main_quit_def)
qed

lemma decoded_step:
  assumes "decoded E ctx got (V_Decode p) d c seen"
  shows "case avcodec_decode_video2 E d p of
      (d', None) \<Rightarrow> decoded E ctx got V_Get d' c seen
    | (d', Some f) \<Rightarrow>
        let (c', pts) = next_video_clock (doubles E) (video_ctx_time_base E) (repeat_pict E f) c (frame_pts E f)
        in decoded E ctx got (V_Queue f pts) d' c' seen"
proof -
  have got: "butlast got @ [p] = got" and b: "decode_packets E ctx (d_of_int (doubles E) 0) (butlast got) = (d, c, seen)"
    using assms by (auto simp: decoded_def)
  have g: "decode_packets E ctx (d_of_int (doubles E) 0) got =
      (let (ctx, clock, pics') = decode_packets E d c [p] in (ctx, clock, seen @ pics'))"
    by (subst got [symmetric]) (simp only: decode_packets_append b Let_def prod.case)
  show ?thesis
    by (auto simp: decoded_def g Let_def split_beta split: prod.split option.split)
qed

lemma pictures_inv_video:
  assumes "video_step E s t" and "pictures_inv E ctx s" and "place_inv s"
  shows "pictures_inv E ctx t"
  using assms(1)
proof cases
  case get
  note f = video_get_frame [OF get(2)]
  have e: "mn t = mn s" "shown t = shown s" using video_step_frame [OF assms(1)] by (simp_all add: video_frame_def)
  have "vd t \<noteq> V_Publish" using f by auto
  then have pl: "in_place t = in_place s" using f e get(1) by (simp add: placed_def)
  have i: "decoded E ctx (got_v s) V_Get (dec_v s) (video_clock (vs s)) (shown s @ in_place s)"
    using assms(2) get(1) by (simp add: pictures_inv_def)
  have "decoded E ctx (got_v t) (vd t) (dec_v s) (video_clock (vs s)) (shown s @ in_place s)"
    using f i by (auto simp: decoded_def)
  then show ?thesis unfolding pictures_inv_def using f e pl by simp
next
  case (decode p)
  from assms(2) decode(2) have "decoded E ctx (got_v s) (V_Decode p) (dec_v s) (video_clock (vs s))
      (shown s @ placed (pictq (vs s)) (pictq_size (vs s)) False (mn s))"
    by (simp add: pictures_inv_def)
  from decoded_step [OF this] show ?thesis
    unfolding decode(1) video_decode_def Let_def synchronize_video_clock
    by (auto simp: pictures_inv_def split_beta split: option.splits)
next
  case (queue f pts)
  then show ?thesis using assms(2) by (auto simp: pictures_inv_def picture_wait_def decoded_def placed_def)
next
  case (check f pts)
  then show ?thesis using assms(2) by (auto simp: pictures_inv_def picture_check_def decoded_def placed_def)
next
  case (fill f pts)
  then have n: "pictq_size (vs s) = 0" using assms(3) by (simp add: place_defs)
  with fill picture_fill_state [OF assms(3), of E f pts] show ?thesis
    using assms(2) by (auto simp: pictures_inv_def decoded_def placed_def)
next
  case publish
  then have "pictq_size (vs s) = 0" "mn s \<noteq> M_Release" using assms(3) by (auto simp: place_defs)
  with publish show ?thesis using assms(2) by (simp add: pictures_inv_def picture_publish_def decoded_def placed_def)
next
  case (wake_place f pts)
  then show ?thesis using assms(2) by (simp add: pictures_inv_def decoded_def placed_def)
next
  case wake_packet
  then show ?thesis using assms(2) by (simp add: pictures_inv_def decoded_def placed_def)
qed

lemma pictures_inv_step:
  assumes "player_step E mx s t" and "pictures_inv E ctx s" "place_inv s" "start_inv s"
  shows "pictures_inv E ctx t"
  using assms(1)
  by cases (use assms(2-4) in \<open>auto intro: pictures_inv_demux pictures_inv_audio pictures_inv_video pictures_inv_main\<close>)

lemma player_start_inv:
  "place_inv (player_start D cv ca)" "start_inv (player_start D cv ca)" "main_inv (player_start D cv ca)"
  "pictures_inv E cv (player_start (doubles E) cv ca)"
  by (simp_all add: player_start_def Let_def place_defs start_inv_def main_inv_def pictures_inv_def decoded_def placed_def
      VIDEO_PICTURE_QUEUE_SIZE_def)

lemma player_reachable_inv:
  assumes "player_reachable E mx cv ca s"
  shows "place_inv s" "start_inv s" "main_inv s" "pictures_inv E cv s"
proof -
  from assms have "place_inv s \<and> start_inv s \<and> main_inv s \<and> pictures_inv E cv s"
    by (induction rule: player_reachable_induct)
      (use player_start_inv in \<open>auto intro: place_inv_step start_inv_step main_inv_step pictures_inv_step\<close>)
  then show "place_inv s" "start_inv s" "main_inv s" "pictures_inv E cv s" by simp_all
qed

section \<open>The properties\<close>

text \<open>C12: However the threads run, the pictures shown are a first part of the pictures that the decoder makes of the
  packets it took, each shown once and in order; and as long as the player has not been told to quit, nothing else is
  missing than the picture in the place and the one in the decoder's hands. In particular, when the decoder waits for
  a packet and the place is empty, every picture has been shown.\<close>

theorem player_shows_pictures_in_order:
  assumes "player_reachable E mx cv ca s"
  shows "(\<exists>rest. pictures E cv (got_v s) = shown s @ rest) \<and>
    (\<not> quit (vs s) \<and> (\<forall>p. vd s \<noteq> V_Decode p) \<longrightarrow> pictures E cv (got_v s) = shown s @ in_place s @ in_hand E (vd s)) \<and>
    (vd s = V_WaitPkt \<and> pictq_size (vs s) = 0 \<longrightarrow> pictures E cv (got_v s) = shown s)"
proof -
  note inv = player_reachable_inv [OF assms]
  from inv(4) obtain dropped where d: "vd s \<noteq> V_Done \<longrightarrow> dropped = []"
    "pictures E cv (finished (vd s) (got_v s)) = shown s @ in_place s @ in_hand E (vd s) @ dropped"
    by (auto simp: pictures_inv_def decoded_def)
  obtain more where "got_v s = finished (vd s) (got_v s) @ more"
  proof (cases "vd s")
    case (V_Decode p)
    then have "got_v s \<noteq> []" using inv(4) by (auto simp: pictures_inv_def decoded_def)
    then have "got_v s = finished (vd s) (got_v s) @ [last (got_v s)]" using V_Decode by simp
    then show ?thesis by (rule that)
  qed (use that [of "[]"] in simp_all)
  then have "\<exists>rest. pictures E cv (got_v s) = pictures E cv (finished (vd s) (got_v s)) @ rest"
    using pictures_append by metis
  then have "\<exists>rest. pictures E cv (got_v s) = shown s @ rest" using d(2) by auto
  moreover have "finished (vd s) (got_v s) = got_v s" if "\<forall>p. vd s \<noteq> V_Decode p" using that by (cases "vd s") simp_all
  moreover have "vd s \<noteq> V_Done" if "\<not> quit (vs s)" using that inv(3) by (auto simp: main_inv_def)
  moreover have "in_place s = []" "in_hand E (vd s) = []" if "vd s = V_WaitPkt" "pictq_size (vs s) = 0"
    using that by (simp_all add: placed_def)
  ultimately show ?thesis using d by auto
qed

text \<open>C13: While a picture is shown, the decoder never writes its place: the picture is counted, and the decoder is
  not at the point where it writes or counts one. The count is 0 or 1 and the two indices stay within the queue.\<close>

theorem player_picture_not_torn:
  assumes "player_reachable E mx cv ca s"
  shows "length (pictq (vs s)) = VIDEO_PICTURE_QUEUE_SIZE \<and> pictq_rindex (vs s) < VIDEO_PICTURE_QUEUE_SIZE \<and>
    pictq_windex (vs s) < VIDEO_PICTURE_QUEUE_SIZE \<and> 0 \<le> pictq_size (vs s) \<and> pictq_size (vs s) \<le> int VIDEO_PICTURE_QUEUE_SIZE \<and>
    (mn s = M_Show \<longrightarrow> pictq_size (vs s) = 1 \<and> vd s \<noteq> V_Publish \<and> (\<forall>f pts. vd s \<noteq> V_Fill f pts))"
  using player_reachable_inv(1) [OF assms] by (auto simp: place_defs VIDEO_PICTURE_QUEUE_SIZE_def)

end
