(* ===== verification/PlayerPackets.thy ===== *)
theory PlayerPackets imports PlayerPictures
begin

text \<open>
  The packet queues between the demuxer and the decoders, in one heap. The operations of \<open>PlayerQueue\<close> are used
  through the contract \<open>heap_queue\<close> only. Each decoder gets the packets of its stream that were put, in order;
  no operation follows a pointer to a cell that is not allocated; the queues stay within their bounds and their
  counters do not overflow; and a decoder waits for a packet only while its queue is empty.
\<close>

section \<open>The two queues\<close>

definition packets_held :: "pl_heap \<Rightarrow> PacketQueue \<Rightarrow> PacketQueue \<Rightarrow> AVPacket list \<Rightarrow> AVPacket list \<Rightarrow> bool" where
  "packets_held h qa qv xs ys \<longleftrightarrow> (\<exists>F G. pq_holds h qa xs F \<and> pq_holds h qv ys G \<and> F \<inter> G = {})"

lemma packets_held_swap: "packets_held h qa qv xs ys \<Longrightarrow> packets_held h qv qa ys xs"
  unfolding packets_held_def by (metis Int_commute)

lemma put_held:
  assumes "packets_held h q q2 xs ys" and "fresh h a" and "packet_queue_put dup_ok a h q x = Some (ret, h', q')"
  shows "ret = 0 \<and> packets_held h' q' q2 (xs @ [x]) ys \<or> ret \<noteq> 0 \<and> packets_held h' q' q2 xs ys"
proof (cases "dup_ok \<and> a \<noteq> None")
  case True
  then obtain b where b: "a = Some b" "b \<notin> dom h" using assms(2) by (auto simp: fresh_def)
  obtain F G where FG: "pq_holds h q xs F" "pq_holds h q2 ys G" "F \<inter> G = {}" using assms(1) by (auto simp: packets_held_def)
  from pq.ins_pair [OF FG b(2), of x] obtain h1 q1 where
    "map_option snd (packet_queue_put True (Some b) h q x) = Some (h1, q1)"
    "pq_holds h1 q1 (xs @ [x]) (insert b F)" "pq_holds h1 q2 ys G" "insert b F \<inter> G = {}" by blast
  moreover from this assms(3) True b(1) have "h' = h1" "q' = q1" by simp_all
  moreover have "ret = 0" using assms(3) True b(1) by (auto simp: packet_queue_put_def split: bind_splits)
  ultimately show ?thesis unfolding packets_held_def by blast
next
  case False
  then have "ret = -1 \<and> h' = h \<and> q' = q" using assms(3) by (auto simp: packet_queue_put_def split: if_splits option.splits)
  then show ?thesis using assms(1) by simp
qed

lemma put_defined: "packets_held h q q2 xs ys \<Longrightarrow> fresh h a \<Longrightarrow> packet_queue_put dup_ok a h q x \<noteq> None"
proof (cases "dup_ok \<and> a \<noteq> None")
  case True
  assume "packets_held h q q2 xs ys" "fresh h a"
  then obtain b F where "a = Some b" "b \<notin> dom h" "pq_holds h q xs F"
    using True by (auto simp: fresh_def packets_held_def)
  with True pq.ins_law [of h q xs F b x] show ?thesis by auto
qed (auto simp: packet_queue_put_def split: option.split)

lemma get_held:
  assumes "packets_held h q q2 xs ys" and "packet_queue_get b True h q = Some (h', q', pass)"
  shows "b \<and> pass = Pq_Break (-1) None \<and> h' = h \<and> q' = q \<or>
    \<not> b \<and> xs = [] \<and> pass = Pq_CondWait \<and> h' = h \<and> q' = q \<or>
    \<not> b \<and> (\<exists>x xs'. xs = x # xs' \<and> pass = Pq_Break 1 (Some x) \<and> packets_held h' q' q2 xs' ys)"
proof (cases b)
  case True
  then show ?thesis using assms(2) by (simp add: packet_queue_get_quit)
next
  case False
  obtain F G where FG: "pq_holds h q xs F" "pq_holds h q2 ys G" "F \<inter> G = {}" using assms(1) by (auto simp: packets_held_def)
  show ?thesis
  proof (cases xs)
    case Nil
    then show ?thesis using assms(2) False FG(1) packet_queue_get_empty [of h q F True] by simp
  next
    case (Cons x xs')
    from packet_queue_get_holds [OF FG(1) [unfolded Cons], of True] assms(2) False have p: "pass = Pq_Break 1 (Some x)" by auto
    from pq.rem_pair [OF FG(1) [unfolded Cons] FG(2,3)] obtain h1 q1 F1 where
      g: "map_option pq_result (packet_queue_get False True h q) = Some (h1, q1, Some x)"
      "pq_holds h1 q1 xs' F1" "pq_holds h1 q2 ys G" "F1 \<inter> G = {}" by blast
    from g(1) assms(2) False p have "h' = h1" "q' = q1" by (simp_all add: pq_result_def)
    then show ?thesis using False Cons p g(2-4) unfolding packets_held_def by blast
  qed
qed

lemma get_defined: "packets_held h q q2 xs ys \<Longrightarrow> packet_queue_get b True h q \<noteq> None"
proof (cases b)
  case False
  assume "packets_held h q q2 xs ys"
  then obtain F where "pq_holds h q xs F" by (auto simp: packets_held_def)
  then show ?thesis
    using False packet_queue_get_empty [of h q F True] packet_queue_get_holds [of h q _ _ F True] by (cases xs) fastforce+
qed (simp add: packet_queue_get_quit)

lemma held_init: "packets_held Map.empty packet_queue_init packet_queue_init [] []"
  using pq_init_holds [of Map.empty] by (auto simp: packets_held_def)

lemma held_reinit: "packets_held h qa qv [] ys \<Longrightarrow> packets_held h packet_queue_init qv [] ys"
  using pq_init_holds [of h] unfolding packets_held_def by blast

lemma held_counters:
  assumes "packets_held h qa qv xs ys"
  shows "pq_size qa = s32 (sizes xs)" "nb_packets qa = s32 (int (length xs))"
  using assms by (auto simp: packets_held_def pq_holds_def pq_cells_def)

section \<open>The invariant\<close>

text \<open>What is in the queues, from the logs of what entered and left.\<close>

abbreviation queued_a :: "('d, 'img, 'f, 'cv, 'ca) player \<Rightarrow> AVPacket list" where
  "queued_a s \<equiv> drop (length (got_a s)) (put_a s)"

abbreviation queued_v :: "('d, 'img, 'f, 'cv, 'ca) player \<Rightarrow> AVPacket list" where
  "queued_v s \<equiv> drop (length (got_v s)) (put_v s)"

definition sized :: "int \<Rightarrow> int \<Rightarrow> AVPacket list \<Rightarrow> bool" where
  "sized mx bound xs \<longleftrightarrow> (\<forall>x \<in> set xs. 0 \<le> pkt_size x \<and> pkt_size x \<le> mx) \<and> sizes xs \<le> bound"

text \<open>Before a packet is put both queues are within their limits; afterwards one packet more.\<close>

definition demux_at :: "int \<Rightarrow> demux_pc \<Rightarrow> AVPacket list \<Rightarrow> AVPacket list \<Rightarrow> bool" where
  "demux_at mx d xs ys \<longleftrightarrow> sized mx (MAX_AUDIOQ_SIZE + mx) xs \<and> sized mx (MAX_VIDEOQ_SIZE + mx) ys \<and>
     (\<forall>p. d = D_Put p \<longrightarrow> 0 \<le> pkt_size p \<and> pkt_size p \<le> mx \<and> sized mx MAX_AUDIOQ_SIZE xs \<and> sized mx MAX_VIDEOQ_SIZE ys)"

definition queues_at :: "int \<Rightarrow> ('d, 'img, 'f, 'cv, 'ca) player \<Rightarrow> AVPacket list \<Rightarrow> AVPacket list \<Rightarrow> bool" where
  "queues_at mx s xs ys \<longleftrightarrow>
     put_a s = got_a s @ xs \<and> put_v s = got_v s @ ys \<and> packets_held (heap s) (audioq (vs s)) (videoq (vs s)) xs ys \<and>
     demux_at mx (dm s) xs ys \<and> (at_start (dm s) \<longrightarrow> put_a s = [] \<and> put_v s = []) \<and>
     (vd s = V_WaitPkt \<longrightarrow> ys = []) \<and> (\<forall>len. au s = A_WaitPkt len \<longrightarrow> xs = [])"

definition queues_inv :: "int \<Rightarrow> ('d, 'img, 'f, 'cv, 'ca) player \<Rightarrow> bool" where
  "queues_inv mx s \<longleftrightarrow> (\<exists>xs ys. queues_at mx s xs ys)"

lemma sized_mono: "sized mx b xs \<Longrightarrow> b \<le> b' \<Longrightarrow> sized mx b' xs"
  by (auto simp: sized_def)

lemma sized_snoc: "sized mx b xs \<Longrightarrow> 0 \<le> pkt_size x \<Longrightarrow> pkt_size x \<le> mx \<Longrightarrow> sized mx (b + mx) (xs @ [x])"
  by (auto simp: sized_def)

lemma sized_tl: "sized mx b (x # xs) \<Longrightarrow> sized mx b xs"
  by (auto simp: sized_def)

lemma sizes_nonneg: "sized mx b xs \<Longrightarrow> 0 \<le> sizes xs"
  unfolding sized_def sizes_def by (metis (no_types, lifting) imageE list.set_map sum_list_nonneg)

lemma wake_video_WaitPkt [simp]: "wake_video p \<noteq> V_WaitPkt" "wake_pictq p = V_WaitPkt \<longleftrightarrow> p = V_WaitPkt"
  by (cases p; simp)+

lemma wake_audio_WaitPkt [simp]: "wake_audio p \<noteq> A_WaitPkt len"
  by (cases p) simp_all

lemma at_start_simps [simp]:
  "at_start D_Start" "at_start (D_OpenAudio ss)" "at_start (D_OpenVideo ss)" "\<not> at_start D_Check" "\<not> at_start D_Loop"
  "\<not> at_start (D_Put p)" "\<not> at_start D_Wait" "\<not> at_start D_Fail" "\<not> at_start D_Done"
  by (simp_all add: at_start_def)

lemma demux_at_simps:
  "(\<And>p. d \<noteq> D_Put p) \<Longrightarrow> demux_at mx d xs ys \<longleftrightarrow> sized mx (MAX_AUDIOQ_SIZE + mx) xs \<and> sized mx (MAX_VIDEOQ_SIZE + mx) ys"
  by (simp add: demux_at_def)

lemma queues_put_video:
  assumes "demux_put dup_ok a p s = Some t" and "fresh (heap s) a" and "dm s = D_Put p" and "queues_at mx s xs ys"
    and "pkt_stream_index p = videoStream (vs s)"
  shows "queues_at mx t xs (ys @ [p]) \<or> queues_at mx t xs ys"
proof -
  from assms(1,5) obtain ret h q where r: "packet_queue_put dup_ok a (heap s) (videoq (vs s)) p = Some (ret, h, q)"
    and t: "t = (let s = s\<lparr>heap := h, vs := (vs s)\<lparr>videoq := q\<rparr>, dm := D_Loop\<rparr>
      in if ret = 0 then s\<lparr>vd := wake_video (vd s), put_v := put_v s @ [p]\<rparr> else s)"
    by (auto simp: demux_put_def Let_def split: bind_splits)
  note q = assms(4) [unfolded queues_at_def demux_at_def]
  have sz: "sized mx (MAX_AUDIOQ_SIZE + mx) xs" "sized mx (MAX_VIDEOQ_SIZE + mx) (ys @ [p])"
    "sized mx (MAX_VIDEOQ_SIZE + mx) ys"
    using q assms(3) sized_snoc by blast+
  have "packets_held (heap s) (videoq (vs s)) (audioq (vs s)) ys xs" using q packets_held_swap by blast
  from put_held [OF this assms(2) r] packets_held_swap
  have "ret = 0 \<and> packets_held h (audioq (vs s)) q xs (ys @ [p]) \<or> ret \<noteq> 0 \<and> packets_held h (audioq (vs s)) q xs ys" by blast
  then show ?thesis using q sz assms(3) by (auto simp: t Let_def queues_at_def demux_at_def)
qed

lemma queues_put_audio:
  assumes "demux_put dup_ok a p s = Some t" and "fresh (heap s) a" and "dm s = D_Put p" and "queues_at mx s xs ys"
    and "pkt_stream_index p \<noteq> videoStream (vs s)" "pkt_stream_index p = audioStream (vs s)"
  shows "queues_at mx t (xs @ [p]) ys \<or> queues_at mx t xs ys"
proof -
  from assms(1,5,6) obtain ret h q where r: "packet_queue_put dup_ok a (heap s) (audioq (vs s)) p = Some (ret, h, q)"
    and t: "t = (let s = s\<lparr>heap := h, vs := (vs s)\<lparr>audioq := q\<rparr>, dm := D_Loop\<rparr>
      in if ret = 0 then s\<lparr>au := wake_audio (au s), put_a := put_a s @ [p]\<rparr> else s)"
    by (auto simp: demux_put_def Let_def split: bind_splits)
  note q = assms(4) [unfolded queues_at_def demux_at_def]
  have sz: "sized mx (MAX_AUDIOQ_SIZE + mx) (xs @ [p])" "sized mx (MAX_VIDEOQ_SIZE + mx) ys"
    "sized mx (MAX_AUDIOQ_SIZE + mx) xs"
    using q assms(3) sized_snoc by blast+
  have "packets_held (heap s) (audioq (vs s)) (videoq (vs s)) xs ys" using q by blast
  from put_held [OF this assms(2) r]
  have "ret = 0 \<and> packets_held h q (videoq (vs s)) (xs @ [p]) ys \<or> ret \<noteq> 0 \<and> packets_held h q (videoq (vs s)) xs ys" .
  then show ?thesis using q sz assms(3) by (auto simp: t Let_def queues_at_def demux_at_def)
qed

lemma queues_inv_loop:
  assumes "queues_at mx s xs ys" and "dm s = D_Loop" and "read_ok mx r" and "0 \<le> mx" "mx < 2 ^ 30"
  shows "queues_at mx (demux_loop r s) xs ys"
proof -
  note q = assms(1) [unfolded queues_at_def]
  have sz: "sized mx (MAX_AUDIOQ_SIZE + mx) xs" "sized mx (MAX_VIDEOQ_SIZE + mx) ys" using q by (simp_all add: demux_at_def)
  then have "is_s32 (sizes xs)" "is_s32 (sizes ys)"
    using sizes_nonneg [OF sz(1)] sizes_nonneg [OF sz(2)] assms(5)
    by (simp_all add: sized_def is_s32_def MAX_AUDIOQ_SIZE_def MAX_VIDEOQ_SIZE_def)
  then have c: "pq_size (audioq (vs s)) = sizes xs" "pq_size (videoq (vs s)) = sizes ys"
    using q held_counters(1) packets_held_swap by (metis s32_id)+
  have "sized mx MAX_AUDIOQ_SIZE xs" if "\<not> pq_size (audioq (vs s)) > MAX_AUDIOQ_SIZE"
    using that sz(1) c by (simp add: sized_def)
  moreover have "sized mx MAX_VIDEOQ_SIZE ys" if "\<not> pq_size (videoq (vs s)) > MAX_VIDEOQ_SIZE"
    using that sz(2) c by (simp add: sized_def)
  ultimately have "demux_at mx (dm (demux_loop r s)) xs ys"
    using sz assms(3) by (auto simp: demux_loop_def demux_at_def read_ok_def split: read_frame.splits if_splits)
  moreover have "\<not> at_start (dm (demux_loop r s))" by (simp add: demux_loop_def split: read_frame.split)
  ultimately show ?thesis using q by (simp add: queues_at_def demux_loop_def)
qed

lemma held_reinit_video: "packets_held h qa qv xs [] \<Longrightarrow> packets_held h qa packet_queue_init xs []"
  using held_reinit packets_held_swap by blast

lemma queues_inv_demux:
  assumes "demux_step E mx s t" and "queues_inv mx s" and "0 \<le> mx" "mx < 2 ^ 30"
  shows "queues_inv mx t"
proof -
  obtain xs ys where q: "queues_at mx s xs ys" using assms(2) by (auto simp: queues_inv_def)
  note d = q [unfolded queues_at_def]
  from assms(1) show ?thesis
  proof cases
    case (audio streams now1 now2)
    obtain st a where st: "t = s\<lparr>vs := st, au := a, dm := D_OpenVideo streams\<rparr>"
      "st = vs s \<and> a = au s \<or> a = A_Idle \<and> (\<exists>i\<ge>0. opened_audio i (vs s) st)"
      using demux_open_audio_state [of "doubles E" now1 now2 streams s] audio(1) by auto
    have e: "put_a s = []" "put_v s = []" "xs = []" "ys = []" using d audio(2) by auto
    then have "packets_held (heap s) packet_queue_init (videoq (vs s)) [] []"
      "packets_held (heap s) (audioq (vs s)) (videoq (vs s)) [] []" using d held_reinit by auto
    with st(2) have "queues_at mx t [] []"
      using d e audio(2) unfolding st(1) by (auto simp: queues_at_def demux_at_def opened_audio_def)
    then show ?thesis by (auto simp: queues_inv_def)
  next
    case (video streams now1 now2)
    obtain st a where st: "t = s\<lparr>vs := st, vd := a, dm := D_Check\<rparr>"
      "st = vs s \<and> a = vd s \<or> a = V_Get \<and> (\<exists>i\<ge>0. opened_video i (vs s) st)"
      using demux_open_video_state [of "doubles E" now1 now2 streams s] video(1) by auto
    have e: "put_a s = []" "put_v s = []" "xs = []" "ys = []" using d video(2) by auto
    then have "packets_held (heap s) (audioq (vs s)) packet_queue_init [] []"
      "packets_held (heap s) (audioq (vs s)) (videoq (vs s)) [] []" using d held_reinit_video by auto
    with st(2) have "queues_at mx t [] []"
      using d e video(2) unfolding st(1) by (auto simp: queues_at_def demux_at_def opened_video_def)
    then show ?thesis by (auto simp: queues_inv_def)
  next
    case (loop r)
    then show ?thesis using queues_inv_loop [OF q loop(2,3) assms(3,4)] by (auto simp: queues_inv_def)
  next
    case (put p a dup_ok)
    note v = queues_put_video [OF put(3,2,1) q] and a = queues_put_audio [OF put(3,2,1) q]
    have "queues_at mx t xs ys" if "pkt_stream_index p \<noteq> videoStream (vs s)" "pkt_stream_index p \<noteq> audioStream (vs s)"
      using that put d by (auto simp: demux_put_def queues_at_def demux_at_def)
    with v a show ?thesis unfolding queues_inv_def by blast
  next
    case (start open_ret info_ret streams)
    then have "queues_at mx t xs ys" using d by (auto simp: queues_at_def demux_start_def demux_at_def Let_def)
    then show ?thesis by (auto simp: queues_inv_def)
  next
    case check
    then have "queues_at mx t xs ys" using d by (auto simp: queues_at_def demux_check_def demux_at_def)
    then show ?thesis by (auto simp: queues_inv_def)
  next
    case wait
    then have "queues_at mx t xs ys" using d by (auto simp: queues_at_def demux_wait_def demux_at_def)
    then show ?thesis by (auto simp: queues_inv_def)
  next
    case fail
    then have "queues_at mx t xs ys" using d by (auto simp: queues_at_def demux_fail_def demux_at_def)
    then show ?thesis by (auto simp: queues_inv_def)
  qed
qed

lemma demux_at_tl: "demux_at mx d (x # xs) ys \<Longrightarrow> demux_at mx d xs ys" "demux_at mx d xs (y # ys) \<Longrightarrow> demux_at mx d xs ys"
proof -
  assume "demux_at mx d (x # xs) ys"
  moreover from this have "0 \<le> pkt_size x" by (simp add: demux_at_def sized_def)
  ultimately show "demux_at mx d xs ys" by (auto simp: demux_at_def sized_def)
next
  assume "demux_at mx d xs (y # ys)"
  moreover from this have "0 \<le> pkt_size y" by (simp add: demux_at_def sized_def)
  ultimately show "demux_at mx d xs ys" by (auto simp: demux_at_def sized_def)
qed

lemma queues_video_get:
  assumes "video_get s = Some t" and "vd s = V_Get" and "queues_at mx s xs ys"
  shows "queues_inv mx t"
proof -
  note d = assms(3) [unfolded queues_at_def]
  obtain h q pass where g: "packet_queue_get (quit (vs s)) True (heap s) (videoq (vs s)) = Some (h, q, pass)"
    using assms(1) by (auto simp: video_get_def split: bind_splits)
  have held: "packets_held (heap s) (videoq (vs s)) (audioq (vs s)) ys xs" using d packets_held_swap by blast
  from get_held [OF held g] consider
      "pass = Pq_Break (-1) None" "h = heap s" "q = videoq (vs s)"
    | "ys = []" "pass = Pq_CondWait" "h = heap s" "q = videoq (vs s)"
    | y ys' where "ys = y # ys'" "pass = Pq_Break 1 (Some y)" "packets_held h q (audioq (vs s)) ys' xs" by blast
  then show ?thesis
  proof cases
    case 1
    then have "queues_at mx t xs ys" using assms(1) g d by (auto simp: queues_at_def video_get_def)
    then show ?thesis by (auto simp: queues_inv_def)
  next
    case 2
    then have "queues_at mx t xs ys" using assms(1) g d by (auto simp: queues_at_def video_get_def)
    then show ?thesis by (auto simp: queues_inv_def)
  next
    case 3
    then have "queues_at mx t xs ys'"
      using assms(1) g d packets_held_swap [OF 3(3)] demux_at_tl(2) [of mx "dm s" xs y ys']
      by (auto simp: queues_at_def video_get_def)
    then show ?thesis by (auto simp: queues_inv_def)
  qed
qed

lemma queues_audio_get:
  assumes "audio_get E len s = Some t" and "au s = A_Pass len" and "queues_at mx s xs ys"
  shows "queues_inv mx t"
proof -
  note d = assms(3) [unfolded queues_at_def]
  obtain h q pass where g: "packet_queue_get (quit (vs s)) True (heap s) (audioq (vs s)) = Some (h, q, pass)"
    using assms(1) by (auto simp: audio_get_def split: bind_splits)
  have held: "packets_held (heap s) (audioq (vs s)) (videoq (vs s)) xs ys" using d by blast
  from get_held [OF held g] consider
      "pass = Pq_Break (-1) None" "h = heap s" "q = audioq (vs s)"
    | "xs = []" "pass = Pq_CondWait" "h = heap s" "q = audioq (vs s)"
    | x xs' where "xs = x # xs'" "pass = Pq_Break 1 (Some x)" "packets_held h q (videoq (vs s)) xs' ys" by blast
  then show ?thesis
  proof cases
    case 1
    then have "queues_at mx t xs ys" using assms(1) g d by (auto simp: queues_at_def audio_get_def)
    then show ?thesis by (auto simp: queues_inv_def)
  next
    case 2
    then have "queues_at mx t xs ys" using assms(1) g d by (auto simp: queues_at_def audio_get_def)
    then show ?thesis by (auto simp: queues_inv_def)
  next
    case 3
    then have "queues_at mx t xs' ys"
      using assms(1) g d demux_at_tl(1) [of mx "dm s" x xs' ys] by (auto simp: queues_at_def audio_get_def Let_def)
    then show ?thesis by (auto simp: queues_inv_def)
  qed
qed

lemma queues_inv_step:
  assumes "player_step E mx s t" and "queues_inv mx s" and "0 \<le> mx" "mx < 2 ^ 30"
  shows "queues_inv mx t"
proof -
  obtain xs ys where q: "queues_at mx s xs ys" using assms(2) by (auto simp: queues_inv_def)
  note d = q [unfolded queues_at_def]
  from assms(1) show ?thesis
  proof cases
    case demux
    then show ?thesis using assms(2-4) by (rule queues_inv_demux)
  next
    case main
    note f = main_step_frame [OF main, unfolded main_frame_def]
    then have "vd t = vd s \<or> vd t = wake_pictq (vd s)" by blast
    then have "vd t = V_WaitPkt \<longleftrightarrow> vd s = V_WaitPkt" by (elim disjE) simp_all
    with f d have "queues_at mx t xs ys" unfolding queues_at_def by (intro conjI) auto
    then show ?thesis by (auto simp: queues_inv_def)
  next
    case video
    show ?thesis
    proof (cases "vd s = V_Get")
      case True
      with video q show ?thesis by (auto elim: video_step.cases intro: queues_video_get)
    next
      case False
      note f = video_step_frame [OF video, unfolded video_frame_def]
      have "heap t = heap s \<and> videoq (vs t) = videoq (vs s) \<and> got_v t = got_v s \<and> vd t \<noteq> V_WaitPkt"
        using video
      proof cases
        case (decode p)
        then show ?thesis by (auto simp: video_decode_def Let_def synchronize_video_clock split_beta split: option.split)
      next
        case (fill f pts)
        show ?thesis unfolding fill(1) picture_fill_def alloc_picture_def Let_def by simp
      qed (use False in \<open>simp_all add: picture_wait_def picture_check_def picture_publish_def\<close>)
      with f d have "queues_at mx t xs ys" unfolding queues_at_def by (intro conjI) auto
      then show ?thesis by (auto simp: queues_inv_def)
    qed
  next
    case audio
    note f = audio_step_frame [OF audio, unfolded audio_frame_def]
    show ?thesis
    proof (cases "\<exists>len. au s = A_Pass len")
      case True
      with audio q show ?thesis by (auto elim!: audio_step.cases intro: queues_audio_get)
    next
      case False
      have "heap t = heap s \<and> audioq (vs t) = audioq (vs s) \<and> got_a t = got_a s \<and> (\<forall>len. au t \<noteq> A_WaitPkt len)"
        using audio
      proof cases
        case (fill len)
        then show ?thesis by (auto simp: audio_fill_def Let_def split: if_splits)
      next
        case (decode len)
        then show ?thesis by (auto simp: audio_decode_def Let_def split_beta split: if_splits option.splits)
      next
        case (silence len)
        then show ?thesis by (auto simp: audio_silence_def Let_def split: if_splits)
      next
        case (sync len audio_size now)
        then show ?thesis by (auto simp: audio_sync_def split: bind_splits dest!: synchronize_audio_frame)
      qed (use False in \<open>auto simp: audio_next_def Let_def\<close>)
      with f d have "queues_at mx t xs ys" unfolding queues_at_def by (intro conjI) auto
      then show ?thesis by (auto simp: queues_inv_def)
    qed
  qed
qed

section \<open>The properties\<close>

lemma queues_inv_start: "0 \<le> mx \<Longrightarrow> queues_inv mx (player_start D cv ca)"
  unfolding queues_inv_def
  by (intro exI [of _ "[]"])
    (simp add: queues_at_def player_start_def Let_def held_init demux_at_def sized_def MAX_AUDIOQ_SIZE_def MAX_VIDEOQ_SIZE_def)

lemma player_queues_inv:
  assumes "player_reachable E mx cv ca s" and "0 \<le> mx" "mx < 2 ^ 30"
  shows "queues_inv mx s"
  using assms(1)
proof (induction rule: player_reachable_induct)
  case start
  show ?case using assms(2) by (rule queues_inv_start)
next
  case (step s t)
  show ?case by (rule queues_inv_step [OF step(2,3) assms(2,3)])
qed

text \<open>C14: For packets of at most \<open>mx < 2 ^ 30\<close> bytes, in every interleaving and whatever memory runs out: each decoder has got
  a first part of the packets that were put into its queue, and the queue holds the rest. The counters are exact (the
  number of packets modulo \<open>2 ^ 32\<close>), and a queue never holds more than its limit and one packet.\<close>

theorem player_queues_in_order_and_bounded:
  assumes "player_reachable E mx cv ca s" and "0 \<le> mx" "mx < 2 ^ 30"
  shows "put_a s = got_a s @ queued_a s \<and> put_v s = got_v s @ queued_v s \<and>
    nb_packets (audioq (vs s)) = s32 (int (length (queued_a s))) \<and> nb_packets (videoq (vs s)) = s32 (int (length (queued_v s))) \<and>
    pq_size (audioq (vs s)) = sizes (queued_a s) \<and> pq_size (videoq (vs s)) = sizes (queued_v s) \<and>
    0 \<le> sizes (queued_a s) \<and> sizes (queued_a s) \<le> MAX_AUDIOQ_SIZE + mx \<and>
    0 \<le> sizes (queued_v s) \<and> sizes (queued_v s) \<le> MAX_VIDEOQ_SIZE + mx"
proof -
  obtain xs ys where q: "queues_at mx s xs ys" using player_queues_inv [OF assms] by (auto simp: queues_inv_def)
  note d = q [unfolded queues_at_def]
  have e: "queued_a s = xs" "queued_v s = ys" using d by simp_all
  have held: "packets_held (heap s) (audioq (vs s)) (videoq (vs s)) xs ys" using d by blast
  have sz: "sized mx (MAX_AUDIOQ_SIZE + mx) xs" "sized mx (MAX_VIDEOQ_SIZE + mx) ys" using d by (simp_all add: demux_at_def)
  then have "is_s32 (sizes xs)" "is_s32 (sizes ys)"
    using sizes_nonneg [OF sz(1)] sizes_nonneg [OF sz(2)] assms(3)
    by (simp_all add: sized_def is_s32_def MAX_AUDIOQ_SIZE_def MAX_VIDEOQ_SIZE_def)
  then show ?thesis
    unfolding e using d sz sizes_nonneg [OF sz(1)] sizes_nonneg [OF sz(2)]
      held_counters [OF held] held_counters [OF packets_held_swap [OF held]]
    by (simp add: sized_def)
qed

text \<open>C15: No wake-up is lost: a decoder waits for a packet only while every packet put for it has been taken, and for a
  place only while the place is taken. Until the player is told to quit, exactly one refresh is scheduled, so the
  place is looked at again.\<close>

theorem player_waits_with_reason:
  assumes "player_reachable E mx cv ca s" and "0 \<le> mx" "mx < 2 ^ 30"
  shows "(vd s = V_WaitPkt \<longrightarrow> put_v s = got_v s) \<and> (\<forall>len. au s = A_WaitPkt len \<longrightarrow> put_a s = got_a s) \<and>
    (\<forall>f pts. vd s = V_WaitPic f pts \<longrightarrow> pictq_size (vs s) = int VIDEO_PICTURE_QUEUE_SIZE) \<and>
    (\<not> quit (vs s) \<longrightarrow> timers s = 1)"
proof -
  obtain xs ys where q: "queues_at mx s xs ys" using player_queues_inv [OF assms] by (auto simp: queues_inv_def)
  note inv = player_reachable_inv [OF assms(1)]
  show ?thesis
    using q inv(1,3) by (auto simp: queues_at_def place_defs main_inv_def VIDEO_PICTURE_QUEUE_SIZE_def)
qed

text \<open>C16: Memory safety of the queues: at no point of any run does a queue operation follow a pointer to a cell that is
  not allocated.\<close>

theorem player_queue_pointers_valid:
  assumes "player_reachable E mx cv ca s" and "0 \<le> mx" "mx < 2 ^ 30"
  shows "(\<forall>dup_ok a p. fresh (heap s) a \<longrightarrow> demux_put dup_ok a p s \<noteq> None) \<and>
    video_get s \<noteq> None \<and> audio_get E len s \<noteq> None"
proof -
  obtain xs ys where q: "queues_at mx s xs ys" using player_queues_inv [OF assms] by (auto simp: queues_inv_def)
  then have a: "packets_held (heap s) (audioq (vs s)) (videoq (vs s)) xs ys" by (simp add: queues_at_def)
  note v = packets_held_swap [OF a]
  have "demux_put dup_ok b p s \<noteq> None" if "fresh (heap s) b" for dup_ok b p
    using put_defined [OF a that, of dup_ok p] put_defined [OF v that, of dup_ok p]
    by (auto simp: demux_put_def Let_def)
  moreover have "video_get s \<noteq> None"
  proof -
    obtain h q' pass where g: "packet_queue_get (quit (vs s)) True (heap s) (videoq (vs s)) = Some (h, q', pass)"
      using get_defined [OF v, of "quit (vs s)"] by auto
    from get_held [OF v g] show ?thesis by (auto simp: video_get_def g)
  qed
  moreover have "audio_get E len s \<noteq> None"
  proof -
    obtain h q' pass where g: "packet_queue_get (quit (vs s)) True (heap s) (audioq (vs s)) = Some (h, q', pass)"
      using get_defined [OF a, of "quit (vs s)"] by auto
    from get_held [OF a g] show ?thesis by (auto simp: audio_get_def g Let_def)
  qed
  ultimately show ?thesis by blast
qed

end
