(* ===== verification/PlayerAudio.thy ===== *)
theory PlayerAudio imports PlayerPictures
begin

text \<open>
  The audio callback. What SDL is given is, byte for byte, what the audio buffer was filled with, one filling after the other:
  the positions stay within the buffer, no byte is given twice or left out, whatever the length SDL asks for.
\<close>

section \<open>The invariant\<close>

fun playing :: "audio_pc \<Rightarrow> bool" where
  "playing A_Off \<longleftrightarrow> True"
| "playing A_Idle \<longleftrightarrow> True"
| "playing (A_Fill len) \<longleftrightarrow> True"
| "playing _ \<longleftrightarrow> False"

text \<open>The bytes of the buffer that are still to be given out.\<close>

definition pending_sound :: "audio_pc \<Rightarrow> bytes \<Rightarrow> u32 \<Rightarrow> u32 \<Rightarrow> bytes" where
  "pending_sound a buf n i = (if playing a then drop (unat i) (take (unat n) buf) else [])"

definition audio_fields :: "audio_pc \<Rightarrow> bytes \<Rightarrow> u32 \<Rightarrow> u32 \<Rightarrow> bytes list \<Rightarrow> bytes \<Rightarrow> bool" where
  "audio_fields a buf n i bufs out \<longleftrightarrow>
     length buf = 288000 \<and> i \<le> n \<and> unat n \<le> 288000 \<and> (a = A_Off \<longrightarrow> n = 0) \<and>
     (\<forall>len sz. a = A_Sync len sz \<longrightarrow> 0 < sz \<and> sz \<le> 288000) \<and>
     concat bufs = out @ pending_sound a buf n i"

definition audio_inv :: "('d, 'img, 'f, 'cv, 'ca) player \<Rightarrow> bool" where
  "audio_inv s \<longleftrightarrow>
     audio_fields (au s) (audio_buf (vs s)) (audio_buf_size (vs s)) (audio_buf_index (vs s)) (filled s) (mixed s)"

lemma playing_wake [simp]:
  "playing (wake_audio a) = playing a" "wake_audio a = A_Off \<longleftrightarrow> a = A_Off" "wake_audio a = A_Sync len sz \<longleftrightarrow> a = A_Sync len sz"
  by (cases a; simp)+

lemma audio_fields_wake [simp]: "audio_fields (wake_audio a) buf n i bufs out = audio_fields a buf n i bufs out"
  by (simp add: audio_fields_def pending_sound_def)

lemma audio_fields_off: "audio_fields A_Off buf n i bufs out \<Longrightarrow> audio_fields A_Idle buf 0 0 bufs out"
  by (simp add: audio_fields_def pending_sound_def)

text \<open>Moves that leave the buffer alone.\<close>

lemma audio_fields_move:
  "audio_fields a buf n i bufs out \<Longrightarrow> playing a = playing b \<Longrightarrow> b \<noteq> A_Off \<Longrightarrow> (\<And>len sz. b \<noteq> A_Sync len sz) \<Longrightarrow>
    audio_fields b buf n i bufs out"
  by (simp add: audio_fields_def pending_sound_def)

section \<open>The steps\<close>

lemma drop_take_split:
  assumes "i + l \<le> n"
  shows "drop i (take n buf) = take l (drop i buf) @ drop (i + l) (take n buf)"
proof -
  have "drop i (take n buf) = take (l + (n - (i + l))) (drop i buf)" using assms by (simp add: drop_take)
  also have "\<dots> = take l (drop i buf) @ take (n - (i + l)) (drop l (drop i buf))" by (rule take_add)
  finally show ?thesis by (simp add: drop_take add.commute)
qed

lemma unat_advance:
  fixes i :: u32
  assumes "0 \<le> l" and "unat i + nat l \<le> 288000"
  shows "unat (i + of_int l) = unat i + nat l"
proof -
  have "(of_int l :: u32) = of_nat (nat l)" using assms(1) by simp
  moreover have "unat (of_nat (nat l) :: u32) = nat l"
    using assms(2) by (simp add: unsigned_of_nat take_bit_nat_eq_self)
  ultimately show ?thesis using assms(2) by (simp only: unat_word_ariths) simp
qed

lemma fill_length:
  fixes i n :: u32
  assumes "i < n" and "unat n \<le> 288000" and "0 < len"
    and "l = (if s32 (uint (n - i)) > len then len else s32 (uint (n - i)))"
  shows "0 < l" "unat i + nat l \<le> unat n" "unat (i + of_int l) = unat i + nat l"
proof -
  have lt: "unat i < unat n" using assms(1) by (simp only: word_less_nat_alt)
  have "unat (n - i) = unat n - unat i" using assms(1) by (intro unat_sub) (rule less_imp_le)
  then have "uint (n - i) = int (unat n - unat i)" by (simp only: uint_nat)
  then have u: "uint (n - i) = int (unat n) - int (unat i)" using lt by linarith
  have "0 \<le> uint (n - i)" "uint (n - i) \<le> 288000" unfolding u using assms(2) lt by linarith+
  then have "is_s32 (uint (n - i))" unfolding is_s32_def by linarith
  then have l: "l = min len (int (unat n) - int (unat i))" unfolding assms(4) u [symmetric] by (simp add: min_def)
  then show "0 < l" "unat i + nat l \<le> unat n" using lt assms(3) by linarith+
  with assms(2) show "unat (i + of_int l) = unat i + nat l" by (intro unat_advance) linarith+
qed

lemma audio_fields_fill:
  assumes "audio_fields (A_Fill len) buf n i bufs out" and "i < n" and "unat i + l \<le> unat n" and "unat j = unat i + l"
  shows "audio_fields (A_Fill len') buf n j bufs (out @ take l (drop (unat i) buf))"
proof -
  have f: "length buf = 288000" "unat n \<le> 288000" "concat bufs = out @ drop (unat i) (take (unat n) buf)"
    using assms(1) by (simp_all add: audio_fields_def pending_sound_def)
  have "concat bufs = (out @ take l (drop (unat i) buf)) @ drop (unat j) (take (unat n) buf)"
    using f(3) drop_take_split [OF assms(3), of buf] by (simp only: assms(4) append_assoc)
  then have c: "concat bufs = (out @ take l (drop (unat i) buf)) @ pending_sound (A_Fill len') buf n j"
    by (simp only: pending_sound_def playing.simps if_True)
  have "j \<le> n" using assms(3,4) by (simp add: word_le_nat_alt)
  with f(1,2) show ?thesis unfolding audio_fields_def c [symmetric] by simp
qed

lemma audio_fields_new:
  assumes "audio_fields a buf n i bufs out" and "\<not> playing a" and "length buf' = 288000" and "m \<le> 288000"
  shows "audio_fields (A_Fill len) buf' (of_nat m) 0 (bufs @ [take m buf']) out"
proof -
  have "unat (of_nat m :: u32) = m"
    using assms(4) by (simp add: unsigned_of_nat take_bit_nat_eq_self)
  then show ?thesis using assms by (simp add: audio_fields_def pending_sound_def)
qed

lemma audio_inv_frame:
  assumes "au t = au s" "audio_buf (vs t) = audio_buf (vs s)" "audio_buf_size (vs t) = audio_buf_size (vs s)"
    "audio_buf_index (vs t) = audio_buf_index (vs s)" "filled t = filled s" "mixed t = mixed s"
  shows "audio_inv t = audio_inv s"
  by (simp only: audio_inv_def assms)

lemma audio_inv_fill:
  assumes "audio_inv s" and "au s = A_Fill len"
  shows "\<exists>t. audio_fill len s = Some t \<and> audio_inv t"
proof -
  note f = assms(1) [unfolded audio_inv_def assms(2)]
  let ?n = "audio_buf_size (vs s)" and ?i = "audio_buf_index (vs s)"
  consider "len \<le> 0" | "0 < len" "?i \<ge> ?n" | "0 < len" "?i < ?n" by fastforce
  then show ?thesis
  proof cases
    case 1
    then show ?thesis using audio_fields_move [OF f, of A_Idle] by (simp add: audio_fill_def audio_inv_def)
  next
    case 2
    then have "audio_fields (A_Decode len) (audio_buf (vs s)) ?n ?i (filled s) (mixed s)"
      using f by (simp add: audio_fields_def pending_sound_def word_le_nat_alt)
    with 2 show ?thesis by (simp add: audio_fill_def audio_inv_def)
  next
    case 3
    let ?l = "if s32 (uint (?n - ?i)) > len then len else s32 (uint (?n - ?i))"
    have n: "unat ?n \<le> 288000" "length (audio_buf (vs s)) = 288000" using f by (simp_all add: audio_fields_def)
    note l = fill_length [OF 3(2) n(1) 3(1) refl]
    have "audio_fill len s = Some (s\<lparr>vs := (vs s)\<lparr>audio_buf_index := ?i + of_int ?l\<rparr>, au := A_Fill (len - ?l),
        mixed := mixed s @ take (nat ?l) (drop (unat ?i) (audio_buf (vs s)))\<rparr>)"
      unfolding audio_fill_def Let_def using 3 l(1,2) n by (simp only: not_le if_False if_True simp_thms) simp
    moreover note audio_fields_fill [OF f 3(2) l(2,3)]
    ultimately show ?thesis by (simp add: audio_inv_def)
  qed
qed

lemma audio_inv_decode:
  assumes "audio_inv s" and "au s = A_Decode len" and "env_ok E"
  shows "\<exists>t. audio_decode E len s = Some t \<and> audio_inv t"
proof -
  note f = assms(1) [unfolded audio_inv_def assms(2)]
  have buf: "length (audio_buf (vs s)) = 288000" using f by (simp add: audio_fields_def)
  obtain ctx len1 frame where d: "avcodec_decode_audio4 E (dec_a s) (audio_pkt (vs s)) = (ctx, len1, frame)"
    by (metis prod_cases3)
  let ?size = "\<lambda>nb. s32 (2 * nb * 2)"
  have move: "audio_fields b buf' n i (filled s) (mixed s)"
    if "length buf' = 288000" "\<not> playing b" "i \<le> n" "unat n \<le> 288000" "\<And>len sz. b = A_Sync len sz \<Longrightarrow> 0 < sz \<and> sz \<le> 288000"
    for b buf' n i
    using that f by (cases b) (auto simp: audio_fields_def pending_sound_def)
  have n: "audio_buf_index (vs s) \<le> audio_buf_size (vs s)" "unat (audio_buf_size (vs s)) \<le> 288000"
    using f by (simp_all add: audio_fields_def)
  show ?thesis
  proof (cases frame)
    case None
    then show ?thesis
      using buf n by (auto simp: audio_decode_def d Let_def audio_inv_def intro!: move)
  next
    case (Some nb_bs)
    obtain nb bs where nb: "frame = Some (nb, bs)" using Some by (cases nb_bs) auto
    have "0 \<le> nb" "is_s32 (2 * nb * 2)" "int (length bs) \<le> 2 * nb * 2"
      using assms(3) d nb unfolding env_ok_def by blast+
    then have bs: "int (length bs) \<le> ?size nb" by simp
    show ?thesis
    proof (cases "?size nb > 288000")
      case True
      then show ?thesis
        using buf n by (auto simp: audio_decode_def d nb Let_def audio_inv_def intro!: move)
    next
      case False
      then have "length bs \<le> 288000" using bs by simp
      with False show ?thesis
        using buf n by (auto simp: audio_decode_def d nb Let_def audio_inv_def intro!: move)
    qed
  qed
qed

lemma audio_inv_silence:
  assumes "audio_inv s" and "au s = A_Error len"
  shows "\<exists>t. audio_silence len s = Some t \<and> audio_inv t"
proof -
  note f = assms(1) [unfolded audio_inv_def assms(2)]
  have buf: "length (audio_buf (vs s)) = 288000" using f by (simp add: audio_fields_def)
  let ?buf = "replicate 4096 0 @ drop 4096 (audio_buf (vs s))"
  have "audio_fields (A_Fill len) ?buf (of_nat 4096) 0 (filled s @ [take 4096 ?buf]) (mixed s)"
    by (rule audio_fields_new [OF f]) (simp_all add: buf)
  then show ?thesis by (simp add: audio_silence_def Let_def buf audio_inv_def)
qed

lemma audio_inv_sync:
  assumes "audio_inv s" and "au s = A_Sync len sz"
  shows "\<exists>t. audio_sync E now len sz s = Some t \<and> audio_inv t"
proof -
  note f = assms(1) [unfolded audio_inv_def assms(2)]
  have sz: "0 < sz" "sz \<le> 288000" "length (audio_buf (vs s)) = 288000" using f by (simp_all add: audio_fields_def)
  then have "is_s32 sz" by (simp add: is_s32_def)
  from synchronize_audio_aux [OF this, of "doubles E" now "vs s" "audio_buf (vs s)"] sz(1) obtain st m where
    m: "synchronize_audio (doubles E) now (vs s) (audio_buf (vs s)) sz = Some (st, audio_buf (vs s), m)" "0 \<le> m" "m \<le> sz"
    by auto
  have "audio_fields (A_Fill len) (audio_buf (vs s)) (of_nat (nat m)) 0 (filled s @ [take (nat m) (audio_buf (vs s))]) (mixed s)"
    by (rule audio_fields_new [OF f]) (use sz m in simp_all)
  then show ?thesis using m by (simp add: audio_sync_def audio_inv_def)
qed

lemma audio_inv_get:
  assumes "audio_get E len s = Some t" and "audio_inv s" and "au s = A_Pass len"
  shows "audio_inv t"
proof -
  note f = assms(2) [unfolded audio_inv_def assms(3)]
  have e: "audio_buf (vs t) = audio_buf (vs s)" "audio_buf_size (vs t) = audio_buf_size (vs s)"
    "audio_buf_index (vs t) = audio_buf_index (vs s)" "filled t = filled s" "mixed t = mixed s"
    and a: "au t = A_Decode len \<or> au t = A_Error len \<or> au t = A_WaitPkt len"
    using assms(1) by (auto simp: audio_get_def Let_def split: if_splits bind_splits option.splits pq_pass.splits)
  show ?thesis unfolding audio_inv_def e by (rule audio_fields_move [OF f]) (use a in auto)
qed

lemma audio_inv_audio:
  assumes "audio_step E s t" and "audio_inv s" and "env_ok E"
  shows "audio_inv t"
  using assms(1)
proof cases
  case (callback len)
  then show ?thesis using assms(2) by (auto simp: audio_inv_def intro: audio_fields_move)
next
  case (fill len)
  then show ?thesis using audio_inv_fill [OF assms(2)] by fastforce
next
  case (decode len)
  then show ?thesis using audio_inv_decode [OF assms(2) _ assms(3)] by fastforce
next
  case (next_packet len)
  then show ?thesis using assms(2) by (auto simp: audio_inv_def audio_next_def Let_def intro: audio_fields_move)
next
  case (get len)
  then show ?thesis using audio_inv_get assms(2) by blast
next
  case (silence len)
  then show ?thesis using audio_inv_silence [OF assms(2)] by fastforce
next
  case (sync len sz now)
  then show ?thesis using audio_inv_sync [OF assms(2), of len sz E now] by fastforce
next
  case (wake len)
  then show ?thesis using assms(2) by (auto simp: audio_inv_def intro: audio_fields_move)
qed

lemma audio_inv_step:
  assumes "player_step E mx s t" and "audio_inv s" and "start_inv s" and "env_ok E"
  shows "audio_inv t"
  using assms(1)
proof cases
  case demux
  note f = demux_step_frame [OF demux, unfolded demux_frame_def]
  from f have "au t \<in> {au s, wake_audio (au s)} \<and> audio_buf_size (vs t) = audio_buf_size (vs s) \<and>
        audio_buf_index (vs t) = audio_buf_index (vs s) \<or>
      au t = A_Idle \<and> au s = A_Off \<and> audio_buf_size (vs t) = 0 \<and> audio_buf_index (vs t) = 0"
    using assms(3) by (auto simp: start_inv_def)
  moreover have "audio_buf (vs t) = audio_buf (vs s)" "filled t = filled s" "mixed t = mixed s" using f by blast+
  ultimately show ?thesis using assms(2) unfolding audio_inv_def by (auto intro: audio_fields_off)
next
  case video
  then show ?thesis
    using video_step_frame [OF video, unfolded video_frame_def] assms(2) by (simp only: audio_inv_def)
next
  case audio
  then show ?thesis using assms(2,4) by (rule audio_inv_audio)
next
  case main
  then show ?thesis
    using main_step_frame [OF main, unfolded main_frame_def] assms(2) by (simp only: audio_inv_def)
qed

lemma audio_inv_start: "audio_inv (player_start D cv ca)"
  by (simp add: player_start_def Let_def audio_inv_def audio_fields_def pending_sound_def MAX_AUDIO_FRAME_SIZE_def)

lemma player_audio_inv:
  assumes "player_reachable E mx cv ca s" and "env_ok E"
  shows "audio_inv s"
  using assms(1)
proof (induction rule: player_reachable_induct)
  case start
  show ?case by (rule audio_inv_start)
next
  case (step s t)
  show ?case by (rule audio_inv_step [OF step(2,3) player_reachable_inv(2) [OF step(1)] assms(2)])
qed

section \<open>The property\<close>


end
