(* ===== verification/PlayerExample.thy ===== *)
theory PlayerExample imports PlayerPackets PlayerAudio
begin

text \<open>
  A run of the player on a file with one sound and one video stream, from the start to the first picture on the screen.
  It shows that the properties of the player speak about runs that do something.
\<close>

definition example_env :: "(int, int, int, unit, unit) player_env" where
  "example_env = \<lparr>doubles = whole_doubles, avcodec_decode_video2 = \<lambda>c p. (c, Some (pkt_pts p)), best_effort_timestamp = \<lambda>f. f,
     repeat_pict = \<lambda>f. 0, sws_scale = \<lambda>f. 10 * f, avpicture_alloc = 0, video_st_time_base = 1, video_ctx_time_base = 1,
     audio_st_time_base = 1, avcodec_decode_audio4 = \<lambda>c p. (c, pkt_size p, Some (1, [1, 2, 3, 4]))\<rparr>"

definition example_streams :: "stream_params list" where
  "example_streams =
     [\<lparr>codec_type = AVMEDIA_TYPE_AUDIO, parameters_ret = 0, decoder_found = True, open_audio_ret = 0, avcodec_open2_ret = 0,
        ctx_channels = 2, ctx_sample_rate = 44100, ctx_width = 0, ctx_height = 0\<rparr>,
      \<lparr>codec_type = AVMEDIA_TYPE_VIDEO, parameters_ret = 0, decoder_found = True, open_audio_ret = 0, avcodec_open2_ret = 0,
        ctx_channels = 0, ctx_sample_rate = 0, ctx_width = 16, ctx_height = 16\<rparr>]"

definition video_packet :: AVPacket where
  "video_packet = \<lparr>pkt_data = Some [9], pkt_size = 1, pkt_pts = 5, pkt_stream_index = 1\<rparr>"

lemma player_reachable_step: "player_reachable E mx cv ca s \<Longrightarrow> player_step E mx s t \<Longrightarrow> player_reachable E mx cv ca t"
  unfolding player_reachable_def by (rule rtranclp.rtrancl_into_rtrancl)

abbreviation ex0 :: "(int, int, int, unit, unit) player" where
  "ex0 \<equiv> player_start whole_doubles () ()"

lemma example_opened:
  "\<exists>s. player_reachable example_env 100 () () s \<and> dm s = D_Loop \<and> vd s = V_Get \<and> au s = A_Idle \<and> mn s = M_Event \<and> timers s = 1 \<and>
     heap s = Map.empty \<and> put_v s = [] \<and> got_v s = [] \<and> shown s = [] \<and> dec_v s = () \<and>
     videoq (vs s) = packet_queue_init \<and> audioq (vs s) = packet_queue_init \<and> \<not> quit (vs s) \<and> video_st (vs s) \<and>
     videoStream (vs s) = 1 \<and> pictq_size (vs s) = 0 \<and> pictq_windex (vs s) = 0 \<and> pictq_rindex (vs s) = 0 \<and>
     length (pictq (vs s)) = 1 \<and> video_clock (vs s) = 0"
proof -
  have D: "doubles example_env = whole_doubles" by (simp add: example_env_def)
  let ?s1 = "demux_start 0 0 example_streams ex0"
  let ?s2 = "demux_open_audio whole_doubles 0 0 example_streams ?s1"
  let ?s3 = "demux_open_video whole_doubles 0 0 example_streams ?s2"
  let ?s4 = "demux_check ?s3"
  have r0: "player_reachable example_env 100 () () ex0" by (simp add: player_reachable_def D)
  have "player_step example_env 100 ex0 ?s1"
    by (rule player_step.demux, rule demux_step.start) (simp add: player_start_def Let_def)
  note r1 = player_reachable_step [OF r0 this]
  have "player_step example_env 100 ?s1 ?s2"
    by (rule player_step.demux, rule demux_step.audio [of ?s1 example_streams example_env, unfolded D])
      (simp add: demux_start_def Let_def)
  note r2 = player_reachable_step [OF r1 this]
  have "player_step example_env 100 ?s2 ?s3"
    by (rule player_step.demux, rule demux_step.video [of ?s2 example_streams example_env, unfolded D])
      (simp add: demux_open_audio_def Let_def split_beta)
  note r3 = player_reachable_step [OF r2 this]
  have "player_step example_env 100 ?s3 ?s4"
    by (rule player_step.demux, rule demux_step.check) (simp add: demux_open_video_def Let_def split_beta)
  note r4 = player_reachable_step [OF r3 this]
  show ?thesis
    by (rule exI [of _ ?s4], rule conjI [OF r4])
      (simp add: player_start_def demux_start_def demux_open_audio_def demux_open_video_def demux_check_def
        stream_component_open_def example_streams_def Let_def VIDEO_PICTURE_QUEUE_SIZE_def whole_doubles_def)
qed

text \<open>The packet passes the queue.\<close>

lemma example_got:
  "\<exists>s. player_reachable example_env 100 () () s \<and> vd s = V_Decode video_packet \<and> mn s = M_Event \<and> timers s = 1 \<and>
     got_v s = [video_packet] \<and> put_v s = [video_packet] \<and> shown s = [] \<and> \<not> quit (vs s) \<and> video_st (vs s) \<and>
     pictq_size (vs s) = 0 \<and> pictq_windex (vs s) = 0 \<and> pictq_rindex (vs s) = 0 \<and> length (pictq (vs s)) = 1"
proof -
  obtain s where s: "player_reachable example_env 100 () () s" "dm s = D_Loop" "vd s = V_Get" "mn s = M_Event" "timers s = 1"
    "heap s = Map.empty" "put_v s = []" "got_v s = []" "shown s = []" "videoq (vs s) = packet_queue_init"
    "audioq (vs s) = packet_queue_init" "\<not> quit (vs s)" "video_st (vs s)" "videoStream (vs s) = 1" "pictq_size (vs s) = 0"
    "pictq_windex (vs s) = 0" "pictq_rindex (vs s) = 0" "length (pictq (vs s)) = 1"
    using example_opened by blast
  let ?s1 = "demux_loop (Read_packet video_packet) s"
  have "player_step example_env 100 s ?s1"
    by (rule player_step.demux, rule demux_step.loop [OF s(2)]) (simp add: read_ok_def video_packet_def)
  note r1 = player_reachable_step [OF s(1) this]
  have s1: "?s1 = s\<lparr>dm := D_Put video_packet\<rparr>"
    using s by (simp add: demux_loop_def packet_queue_init_def MAX_AUDIOQ_SIZE_def MAX_VIDEOQ_SIZE_def)
  let ?q = "\<lparr>first_pkt = Some 0, last_pkt = Some 0, nb_packets = 1, pq_size = 1\<rparr>"
  let ?s2 = "s\<lparr>heap := [0 \<mapsto> \<lparr>pl_pkt = video_packet, pl_next = None\<rparr>], vs := (vs s)\<lparr>videoq := ?q\<rparr>, dm := D_Loop, vd := V_Get,
    put_v := [video_packet]\<rparr>"
  have "demux_put True (Some 0) video_packet ?s1 = Some ?s2"
    unfolding s1 using s(3,6,7,10,14)
    by (simp add: demux_put_def video_packet_def packet_queue_put_def packet_queue_append_def packet_queue_init_def Let_def)
  then have "player_step example_env 100 ?s1 ?s2"
    by (intro player_step.demux, intro demux_step.put [where s = ?s1 and p = video_packet and a = "Some 0"])
      (simp_all add: s1 s(6) fresh_def)
  note r2 = player_reachable_step [OF r1 this]
  have "\<exists>t. video_get ?s2 = Some t \<and> t = ?s2\<lparr>heap := heap t, vs := (vs ?s2)\<lparr>videoq := videoq (vs t)\<rparr>,
      vd := V_Decode video_packet, got_v := [video_packet]\<rparr>"
    using s(8,12) by (simp add: video_get_def packet_queue_get_def video_packet_def Let_def)
  then obtain t where t: "video_get ?s2 = Some t" "t = ?s2\<lparr>heap := heap t, vs := (vs ?s2)\<lparr>videoq := videoq (vs t)\<rparr>,
      vd := V_Decode video_packet, got_v := [video_packet]\<rparr>" by blast
  have "player_step example_env 100 ?s2 t"
    by (rule player_step.video, rule video_step.get [OF _ t(1)]) simp
  note r3 = player_reachable_step [OF r2 this]
  have "vd t = V_Decode video_packet \<and> mn t = M_Event \<and> timers t = 1 \<and> got_v t = [video_packet] \<and> put_v t = [video_packet] \<and>
     shown t = [] \<and> \<not> quit (vs t) \<and> video_st (vs t) \<and> pictq_size (vs t) = 0 \<and> pictq_windex (vs t) = 0 \<and>
     pictq_rindex (vs t) = 0 \<and> length (pictq (vs t)) = 1"
    by (subst (1 2 3 4 5 6 7 8 9 10 11 12) t(2)) (simp add: s)
  with r3 show ?thesis by blast
qed

text \<open>The picture passes its place and is shown.\<close>

lemma example_shown:
  "\<exists>s. player_reachable example_env 100 () () s \<and> shown s = [(5, 50)] \<and> got_v s = [video_packet] \<and> mn s = M_Release \<and>
     vd s = V_Get \<and> put_v s = [video_packet] \<and> \<not> quit (vs s)"
proof -
  obtain s where s: "player_reachable example_env 100 () () s" "vd s = V_Decode video_packet" "mn s = M_Event" "timers s = 1"
    "got_v s = [video_packet]" "put_v s = [video_packet]" "shown s = []" "\<not> quit (vs s)" "video_st (vs s)"
    "pictq_size (vs s) = 0" "pictq_windex (vs s) = 0" "pictq_rindex (vs s) = 0" "length (pictq (vs s)) = 1"
    using example_got by blast
  let ?s1 = "s\<lparr>vs := (vs s)\<lparr>video_clock := 6\<rparr>, vd := V_Queue 5 5\<rparr>"
  have e: "video_decode example_env video_packet s = ?s1"
    by (simp add: video_decode_def synchronize_video_clock next_video_clock_def frame_pts_def example_env_def whole_doubles_def
        video_packet_def AV_NOPTS_VALUE_def Let_def)
  note r1 = player_reachable_step [OF s(1) player_step.video [OF video_step.decode [OF s(2), of example_env, unfolded e]]]
  let ?s2 = "?s1\<lparr>vd := V_Check 5 5\<rparr>" and ?s3 = "?s1\<lparr>vd := V_Fill 5 5\<rparr>"
  have v: "vd ?s1 = V_Queue 5 5" "vd ?s2 = V_Check 5 5" "vd ?s3 = V_Fill 5 5" by simp_all
  have e: "picture_wait 5 5 ?s1 = ?s2" using s(8,10) by (simp add: picture_wait_def VIDEO_PICTURE_QUEUE_SIZE_def)
  note r2 = player_reachable_step [OF r1 player_step.video [OF video_step.queue [OF v(1), of example_env, unfolded e]]]
  have e: "picture_check 5 5 ?s2 = ?s3" using s(8) by (simp add: picture_check_def)
  note r3 = player_reachable_step [OF r2 player_step.video [OF video_step.check [OF v(2), of example_env, unfolded e]]]
  have "place_inv ?s3" using player_reachable_inv(1) [OF r3] .
  from picture_fill_state [OF this, of example_env 5 5] s(8) obtain vp where vp: "vp_pts vp = 5" "bmp vp = Some 50"
    and e: "picture_fill example_env 5 5 ?s3 = ?s3\<lparr>vs := (vs ?s3)\<lparr>pictq := [vp], pictq_windex := 0\<rparr>, vd := V_Publish\<rparr>"
    by (auto simp: example_env_def)
  let ?s4 = "?s3\<lparr>vs := (vs ?s3)\<lparr>pictq := [vp], pictq_windex := 0\<rparr>, vd := V_Publish\<rparr>"
  note r4 = player_reachable_step [OF r3 player_step.video [OF video_step.fill [OF v(3), of example_env, unfolded e]]]
  have v4: "vd ?s4 = V_Publish" by simp
  note r5 = player_reachable_step [OF r4 player_step.video [OF video_step.publish [OF v4, of example_env]]]
  let ?s5 = "picture_publish ?s4"
  have s5: "mn ?s5 = M_Event" "timers ?s5 = 1" "video_st (vs ?s5)" "pictq_size (vs ?s5) = 1" "pictq (vs ?s5) = [vp]"
    "pictq_rindex (vs ?s5) = 0" "shown ?s5 = []" "got_v ?s5 = [video_packet]" "put_v ?s5 = [video_packet]" "vd ?s5 = V_Get"
    "\<not> quit (vs ?s5)"
    using s by (simp_all add: picture_publish_def)
  have m: "0 < timers ?s5" using s5(2) by simp
  note r6 = player_reachable_step [OF r5 player_step.main [OF main_step.refresh [OF s5(1) m, of example_env 0 0 0]]]
  let ?s6 = "main_refresh (doubles example_env) 0 0 0 ?s5"
  obtain st where st: "refreshed (vs ?s5) st" "?s6 = ?s5\<lparr>vs := st, timers := timers ?s5 - 1 + 1, mn := M_Show\<rparr>"
    using main_refresh_state [of ?s5 "doubles example_env" 0 0 0] s5(3,4) by auto
  have p: "pictq st = [vp]" "pictq_rindex st = 0" "\<not> quit st" using st(1) s5(5,6,11) by (auto simp: refreshed_def)
  have m: "mn ?s6 = M_Show" unfolding st(2) by simp
  note r7 = player_reachable_step [OF r6 player_step.main [OF main_step.display [OF m, of example_env]]]
  have "shown (main_show ?s6) = [(5, 50)] \<and> got_v (main_show ?s6) = [video_packet] \<and> mn (main_show ?s6) = M_Release \<and>
     vd (main_show ?s6) = V_Get \<and> put_v (main_show ?s6) = [video_packet] \<and> \<not> quit (vs (main_show ?s6))"
    unfolding st(2) main_show_def Let_def using p vp s5 by simp
  with r7 show ?thesis by blast
qed

lemma example_env_ok: "env_ok example_env"
  by (simp add: env_ok_def example_env_def is_s32_def)

section \<open>The properties of this run\<close>

lemma player_shows_pictures_in_order_witness:
  "\<exists>s. player_reachable example_env 100 () () s \<and> shown s = [(5, 50)] \<and>
     pictures example_env () (got_v s) = shown s @ in_place s @ in_hand example_env (vd s)"
proof -
  obtain s where s: "player_reachable example_env 100 () () s" "shown s = [(5, 50)]" "vd s = V_Get" "\<not> quit (vs s)"
    using example_shown by blast
  with player_shows_pictures_in_order [OF s(1)] show ?thesis by auto
qed

lemma player_picture_not_torn_witness:
  "\<exists>s. player_reachable example_env 100 () () s \<and> shown s = [(5, 50)] \<and> mn s = M_Release \<and>
     pictq_rindex (vs s) < VIDEO_PICTURE_QUEUE_SIZE \<and> pictq_size (vs s) \<le> int VIDEO_PICTURE_QUEUE_SIZE"
proof -
  obtain s where s: "player_reachable example_env 100 () () s" "shown s = [(5, 50)]" "mn s = M_Release"
    using example_shown by blast
  with player_picture_not_torn [OF s(1)] show ?thesis by blast
qed

lemma player_queues_in_order_and_bounded_witness:
  "\<exists>s. player_reachable example_env 100 () () s \<and> put_v s = [video_packet] \<and> put_v s = got_v s @ queued_v s \<and>
     pq_size (videoq (vs s)) = sizes (queued_v s)"
proof -
  obtain s where s: "player_reachable example_env 100 () () s" "put_v s = [video_packet]"
    using example_shown by blast
  with player_queues_in_order_and_bounded [OF s(1)] show ?thesis by auto
qed

lemma player_waits_with_reason_witness:
  "\<exists>s. player_reachable example_env 100 () () s \<and> shown s = [(5, 50)] \<and> timers s = 1"
proof -
  obtain s where s: "player_reachable example_env 100 () () s" "shown s = [(5, 50)]" "\<not> quit (vs s)"
    using example_shown by blast
  with player_waits_with_reason [OF s(1)] show ?thesis by auto
qed

lemma player_queue_pointers_valid_witness:
  "\<exists>s. player_reachable example_env 100 () () s \<and> vd s = V_Decode video_packet \<and> video_get s \<noteq> None"
proof -
  obtain s where s: "player_reachable example_env 100 () () s" "vd s = V_Decode video_packet"
    using example_got by blast
  with player_queue_pointers_valid [OF s(1)] show ?thesis by auto
qed


end
