(* ===== verification/Spec2Isabelle.thy ===== *)
theory Spec2Isabelle imports AvXtea AvGcd AvRescale AvReduce AvRational AvTimestamp AvFifo AvTea AvBlowfish
  AvCast5 AvTwofish AvCamellia AvDes AvRc4 AvRipemd AvHmac AvMurmur3 AvAdler32 AvCrc AvBase64
  Ffv1HeaderChecked AvThreadSystem AvNut PlayerExample
begin

text \<open>
  A verification library for FFmpeg 4.3.1 as this repository carries it (\<open>src/ffmpeg-4.3.1\<close>), and for the player
  that the repository builds on it (\<open>src/coding-279/player/player6.c\<close>). It covers the parts of \<open>libavutil\<close> with an
  exact meaning: integer and rational arithmetic, queues, the AVL tree, checksums, hashes, ciphers and base 64; of
  \<open>libavcodec\<close> the range coder and what the global header of FFV1 does with it; the NUT timestamps and synchronisation
  points of \<open>libavformat/nut.c\<close>; and the player with its queues, clocks and threads.

  \<^bold>\<open>Theories and code.\<close> All paths are below \<open>src/ffmpeg-4.3.1/libavutil\<close> unless they are given in full.

  \<^item> \<open>AvPrelude\<close>: word types, error codes, the byte accessors of \<open>intreadwrite.h\<close>, and generic lemmas on words and lists.
  \<^item> \<open>AvIntMath\<close> (\<open>intmath.h\<close>, \<open>common.h\<close>), \<open>AvGcd\<close> and \<open>AvRescale\<close> (\<open>mathematics.c\<close>), \<open>AvReduce\<close> and \<open>AvRational\<close>
    (\<open>rational.c\<close>), \<open>AvTimestamp\<close> (\<open>av_compare_ts\<close>, \<open>av_compare_mod\<close>, \<open>av_rescale_delta\<close>): C integers are \<open>int\<close> with the
    two's-complement reductions \<open>s32\<close> and \<open>s64\<close> written out.
  \<^item> \<open>AvFifo\<close> (\<open>fifo.c\<close>): the ring buffer; \<open>AvThreadMessage\<close> (\<open>threadmessage.c\<close>): the bounded message queue on top of it;
    \<open>AvThreadSystem\<close>: any number of threads that call it.
  \<^item> \<open>AvTree\<close> (\<open>tree.c\<close>): the AVL tree with a caller's comparison; \<open>AvNut\<close> (\<open>libavformat/nut.c\<close>, and the index writer of
    \<open>nutenc.c\<close>): synchronisation points kept in two orders in two such trees.
  \<^item> \<open>HashBlock\<close>: the update and padding loops that the hashes share; \<open>AvMd5\<close>, \<open>AvSha\<close>, \<open>AvSha512\<close>, \<open>AvRipemd\<close> on it;
    \<open>AvHmac\<close> (\<open>hmac.c\<close>) over any of them; \<open>AvMurmur3\<close>, \<open>AvAdler32\<close>.
  \<^item> \<open>AvCrc\<close> (\<open>crc.c\<close>, \<open>bswap.h\<close>): the checks with their tables, computed or hard-coded; \<open>AvBase64\<close> (\<open>base64.c\<close>).
  \<^item> \<open>AvRangeCoder\<close> (\<open>libavcodec/rangecoder.c\<close> and \<open>.h\<close>): the adaptive binary range coder; \<open>Ffv1Symbol\<close> (\<open>ffv1enc.c\<close>,
    \<open>ffv1dec.c\<close>): the numbers and quantisation tables that FFV1 codes with it; \<open>Ffv1Header\<close>: \<open>write_extradata\<close> and
    \<open>read_extra_header\<close>, which put them together (in the record \<open>ffv1_context\<close> the field \<open>fc_x\<close> is \<open>x\<close> of \<open>FFV1Context\<close>);
    the proofs are in \<open>Ffv1HeaderRoundTrip\<close> (what is written is read) and \<open>Ffv1HeaderChecked\<close> (what arbitrary bytes give).
  \<^item> \<open>BlockCipher\<close>: the ECB and CBC loops that the block ciphers share; \<open>AvXtea\<close>, \<open>AvTea\<close>, \<open>AvBlowfish\<close>, \<open>AvCast5\<close>,
    \<open>AvTwofish\<close>, \<open>AvCamellia\<close>, \<open>AvDes\<close> on it; \<open>AvRc4\<close>.
  \<^item> The player, \<open>src/coding-279/player/player6.c\<close>: \<open>PlayerQueue\<close>, the linked packet queue in an explicit heap;
    \<open>PlayerSync\<close>, the shared state, the clocks and what keeps sound and pictures together; \<open>PlayerSystem\<close>, the steps of
    the demuxer, the video decoder, the audio callback and the event loop, and the runs they make. The proofs are in
    \<open>PlayerFrames\<close> (what each step leaves alone), \<open>PlayerPictures\<close>, \<open>PlayerPackets\<close> and \<open>PlayerAudio\<close>; \<open>PlayerExample\<close>
    is a run that shows a picture.

  \<^bold>\<open>How the parts interact.\<close> \<open>av_gcd\<close> carries \<open>av_reduce\<close>, which carries the rational arithmetic; \<open>av_rescale_rnd\<close> and
  \<open>av_compare_mod\<close> carry the timestamps. The message queue uses the ring buffer through its contract (\<open>byte_queue\<close>, its
  representation and \<open>abs\<close>), and the threads use the queue through the refinement of each locked pass to an abstract
  bounded queue. NUT uses the tree through the locale \<open>tree_order\<close>, interpreted with its two comparison functions.
  The ciphers interpret \<open>block_cipher\<close> and \<open>cipher_loop\<close>, the hashes \<open>block_hash\<close> and \<open>md_hash\<close>; \<open>AvHmac\<close> interprets
  \<open>hash_fn\<close> with every hash; \<open>AvCrc\<close> interprets \<open>crc_register\<close> with the registers of both bit orders. The encoders
  and decoders on the range coder are related by \<open>codes\<close>: a piece of code that writes, one that reads, and the value that
  passes between them, composed as the code composes them; the header of FFV1 ends with a check of \<open>AvCrc\<close>. In the player, the demuxer puts packets into two linked queues, the decoders take them, the
  video decoder hands pictures to the main thread through one place guarded by a counter, and the audio callback
  fills SDL's stream from a buffer. What the code does with a mutex held is one step; writing and showing a picture,
  which it does without one, are steps of their own, so that they could overlap if the counter did not prevent it.

  \<^bold>\<open>What the lemmas show.\<close> Arithmetic: results are exact, or closest under the caller's rounding mode, on every route
  through the code, overflow included. Containers: the invariant is kept, and each operation is the abstract one
  (queue, bounded queue, sorted list). Threads: linearisability, no lost wake-up, and every schedule ends. Hashes: any
  cutting of a message into updates gives the digest of the whole message, in every build configuration. Player: over
  every interleaving, packets and pictures arrive in order and unharmed, queues are bounded, waits end, sound is without
  gaps and no pointer is stale. Checks: every table is that of
  the plain shift register. Base 64 and range coder: what was encoded is decoded, within the buffers, and any other input is
  refused or decoded safely; an accepted header of FFV1 is within every bound, whatever the bytes. Ciphers: decryption inverts encryption in both modes, and unrolled or table-driven code equals the plain one. Where the code
  departs from this, the theorem states what it does instead.

  \<^bold>\<open>Loops and fuel.\<close> Loops with a decreasing measure are \<open>fun\<close> or \<open>function\<close> with a termination proof. A loop that has
  none by itself (a ring buffer of size zero, \<open>av_gcd\<close>) is a partial function into \<open>option\<close> or the while
  combinator, and a theorem shows that it returns. There is no fuel. \<open>renorm_encoder\<close> is of this kind too: no value also
  means that it would write outside its buffer, and the theorems on encoders show that neither happens.
  Memory allocation is a parameter that may fail. Of the player's parameters it is taken that memory in use is not given
  again, that a packet has a size below \<open>2 ^ 30\<close>, and that the resampler, whose two rates are equal, writes no more
  than it gets; of floating point nothing is assumed, the operations of \<open>double\<close> being arbitrary functions.

  \<^bold>\<open>Not modelled.\<close> The codecs apart from the parts of FFV1 named above, demuxers, filters and scalers (tables, floating point, assembly and I/O), the command-line
  tools, hardware contexts, logging and clocks; the vendored libraries SDL2, x264, LAME and FDK AAC; and of \<open>libavutil\<close>
  itself the option, string and frame handling. Where modelled code calls them, they are arguments of the model.
\<close>

section \<open>Properties across components\<close>

text \<open>C39: Each of \<open>av_blowfish_crypt\<close>, \<open>av_cast5_crypt2\<close>, \<open>av_cast5_crypt\<close>, \<open>av_camellia_crypt\<close>, \<open>av_des_crypt\<close> (single and
  triple), \<open>av_xtea_crypt\<close> and \<open>av_xtea_le_crypt\<close>, whatever key schedule the context holds, decrypts what it encrypted, in
  both modes, and leaves the same \<open>iv\<close>; RC4 run twice from one state gives the message back. A Blowfish message of whole
  blocks encrypted in two calls that share the \<open>iv\<close> gives what one call gives.\<close>

theorem cipher_modes_round_trip:
  assumes "length a = m * 8" and "length b = n * 8" and "iv_ok 8 iv" and "length d = k * 16" and "iv_ok 16 jv"
    and "length dst = m * 8"
  shows "av_blowfish_crypt bf (fst (av_blowfish_crypt bf (a @ b) (m + n) iv False)) (m + n) iv True =
      (a @ b, snd (av_blowfish_crypt bf (a @ b) (m + n) iv False)) \<and>
    fst (av_blowfish_crypt bf (a @ b) (m + n) iv False) =
      fst (av_blowfish_crypt bf a m iv False) @
      fst (av_blowfish_crypt bf b n (snd (av_blowfish_crypt bf a m iv False)) False) \<and>
    av_cast5_crypt2 cs (fst (av_cast5_crypt2 cs a m iv False)) m iv True =
      (a, snd (av_cast5_crypt2 cs a m iv False)) \<and>
    av_cast5_crypt cs (av_cast5_crypt cs a m False) m True = a \<and>
    av_camellia_crypt sp ca (fst (av_camellia_crypt sp ca d k jv False)) k jv True =
      (d, snd (av_camellia_crypt sp ca d k jv False)) \<and>
    av_des_crypt des dst (Some (fst (av_des_crypt des dst (Some a) (int m) iv False))) (int m) iv True =
      (a, snd (av_des_crypt des dst (Some a) (int m) iv False)) \<and>
    av_xtea_crypt xt (fst (av_xtea_crypt xt a m iv False)) m iv True = (a, snd (av_xtea_crypt xt a m iv False)) \<and>
    av_xtea_le_crypt xt (fst (av_xtea_le_crypt xt a m iv False)) m iv True = (a, snd (av_xtea_le_crypt xt a m iv False)) \<and>
    fst (av_rc4_crypt rc (Some (fst (av_rc4_crypt rc (Some b) (int (n * 8))))) (int (n * 8))) = b"
  by (intro conjI av_blowfish_round_trip [OF assms(1-3), THEN conjunct1] av_blowfish_round_trip [OF assms(1-3), THEN conjunct2]
      av_cast5_round_trip [OF assms(1,3), THEN conjunct1] av_cast5_round_trip [OF assms(1,3), THEN conjunct2]
      av_camellia_round_trip [OF assms(4,5)] av_des_round_trip [OF assms(1,3,6)]
      av_xtea_round_trip [OF assms(1,3), THEN conjunct1] av_xtea_round_trip [OF assms(1,3), THEN conjunct2]
      av_rc4_round_trip [OF assms(2)])

lemma cipher_modes_round_trip_witness:
  "av_cast5_crypt \<lparr>cast5_Km = replicate 17 0, cast5_Kr = replicate 17 0, cast5_rounds = 12\<rparr>
     (av_cast5_crypt \<lparr>cast5_Km = replicate 17 0, cast5_Kr = replicate 17 0, cast5_rounds = 12\<rparr>
       (replicate 16 1) 2 False) 2 True = replicate 16 1 \<and>
   av_camellia_crypt computeSP av_camellia_alloc
     (fst (av_camellia_crypt computeSP av_camellia_alloc (replicate 32 1) 2 (Some (replicate 16 5)) False))
     2 (Some (replicate 16 5)) True =
   (replicate 32 1, snd (av_camellia_crypt computeSP av_camellia_alloc (replicate 32 1) 2 (Some (replicate 16 5)) False)) \<and>
   av_xtea_crypt (av_xtea_init (replicate 16 7)) (fst (av_xtea_crypt (av_xtea_init (replicate 16 7)) (replicate 16 1) 2 None False))
     2 None True = (replicate 16 1, snd (av_xtea_crypt (av_xtea_init (replicate 16 7)) (replicate 16 1) 2 None False))"
  using cipher_modes_round_trip [of "replicate 16 1" 2 "[]" 0 None "replicate 32 1" 2 "Some (replicate 16 5)" "replicate 16 0"
    "av_blowfish_init [1, 2, 3, 4] 4" "\<lparr>cast5_Km = replicate 17 0, cast5_Kr = replicate 17 0, cast5_rounds = 12\<rparr>"
    computeSP av_camellia_alloc av_des_alloc "av_xtea_init (replicate 16 7)"
    "\<lparr>rc4_state = map of_nat [0..<256], rc4_x = 1, rc4_y = 1\<rparr>"]
  by simp

text \<open>C40: MD5, SHA-384 and its kin, and the four RIPEMD lengths: initialising a context, updating it with any pieces of
  a message and finishing gives the digest of the whole message, in every build configuration and on any host; a
  digest length that the hash does not have is refused.\<close>

theorem hashes_of_pieces:
  assumes "length (md5_buf c1) = 64" and "length (sha512_buffer c2) = 128" and "length (rmd_buffer c3) = 64"
    and "\<forall>d\<in>set ds. length d < 2 ^ 31"
  shows "fst (av_md5_final s u (foldl (av_md5_update s u) (av_md5_init c1) ds)) = md5_hash (concat ds) \<and>
    (case av_sha512_init c2 bits of
       (None, c) \<Rightarrow> bits \<in> {224, 256, 384, 512} \<and>
         fst (av_sha512_final s (foldl (av_sha512_update s) c ds)) = sha512_hash bits (concat ds)
     | (Some e, c) \<Rightarrow> e = EINVAL \<and> bits \<notin> {224, 256, 384, 512}) \<and>
    (case av_ripemd_init c3 bits of
       (None, c) \<Rightarrow> bits \<in> {128, 160, 256, 320} \<and>
         fst (av_ripemd_final s (foldl (av_ripemd_update s) c ds)) = ripemd_hash bits (concat ds)
     | (Some e, c) \<Rightarrow> e = EINVAL \<and> bits \<notin> {128, 160, 256, 320})"
  by (intro conjI av_md5_correct av_sha512_correct av_ripemd_correct assms)

lemma hashes_of_pieces_witness:
  "fst (av_md5_final True False (foldl (av_md5_update True False) (av_md5_init av_md5_alloc) [[1, 2], [3]])) = md5_hash [1, 2, 3] \<and>
   fst (av_sha512_final True (foldl (av_sha512_update True) (snd (av_sha512_init av_sha512_alloc 256)) [[1, 2], [3]])) =
   sha512_hash 256 [1, 2, 3]"
  using hashes_of_pieces [of av_md5_alloc av_sha512_alloc av_ripemd_alloc "[[1, 2], [3]]" True False 256]
  by (simp add: av_md5_alloc_def av_sha512_alloc_def av_ripemd_alloc_def av_sha512_init_def Let_def)

end
